(* ===== verification/Prelude.thy ===== *)
theory Prelude
  imports Main "HOL-Library.AList" "HOL-Library.Sublist"
begin

text \<open>
  What the component theories share: Python dictionaries as association lists in insertion
  order, counting over object tables, LRU-capped dictionaries, state machines whose
  invariant is proved once per machine, and stream transducers (a state and, per input, a
  list of outputs).  The collection \<open>dict_simps\<close> holds the laws of the dictionary
  operations, \<open>table_simps\<close> those of object tables.
\<close>

named_theorems dict_simps \<open>laws of insertion-ordered dictionaries\<close>
named_theorems table_simps \<open>laws of object tables indexed by identity\<close>

section \<open>Values the components share\<close>

text \<open>
  A clock reading is a whole number of microseconds.  Python's \<open>datetime\<close> is exactly
  that; a float of \<open>time.time()\<close> or \<open>time.monotonic()\<close> is read as the microsecond it names.
\<close>

type_synonym instant = int

abbreviation seconds :: "int \<Rightarrow> instant" where
  "seconds n \<equiv> 1000000 * n"

text \<open>Python's \<open>bool(s)\<close> of an optional string: neither \<open>None\<close> nor empty.\<close>

definition truthy :: "string option \<Rightarrow> bool" where
  "truthy s \<longleftrightarrow> (case s of None \<Rightarrow> False | Some t \<Rightarrow> t \<noteq> [])"

lemma truthy_simps [simp]: "\<not> truthy None" "\<not> truthy (Some [])" "truthy (Some (c # cs))"
  by (simp_all add: truthy_def)

lemma truthyE:
  assumes "truthy s"
  obtains t where "s = Some t" and "t \<noteq> []"
  using assms by (auto simp: truthy_def split: option.splits)

section \<open>Dictionaries in insertion order\<close>

text \<open>
  A Python \<open>dict\<close> keeps the order in which keys were first inserted, assigning to a key that
  is there keeps its place, and deleting drops the entry.  \<open>AList.update\<close> and
  \<open>AList.delete\<close> of the library do exactly that on an association list.
\<close>

type_synonym ('k, 'v) dict = "('k \<times> 'v) list"

abbreviation dkeys :: "('k, 'v) dict \<Rightarrow> 'k list" where
  "dkeys d \<equiv> map fst d"

abbreviation dvals :: "('k, 'v) dict \<Rightarrow> 'v list" where
  "dvals d \<equiv> map snd d"

definition dget :: "('k, 'v) dict \<Rightarrow> 'k \<Rightarrow> 'v option" where
  "dget d k = map_of d k"

definition dput :: "'k \<Rightarrow> 'v \<Rightarrow> ('k, 'v) dict \<Rightarrow> ('k, 'v) dict" where
  "dput k v d = AList.update k v d"

definition ddel :: "'k \<Rightarrow> ('k, 'v) dict \<Rightarrow> ('k, 'v) dict" where
  "ddel k d = AList.delete k d"

definition dwf :: "('k, 'v) dict \<Rightarrow> bool" where
  "dwf d \<longleftrightarrow> distinct (dkeys d)"

lemma dget_Nil [simp]: "dget [] k = None"
  and dget_Cons: "dget ((k', v) # d) k = (if k' = k then Some v else dget d k)"
  by (auto simp: dget_def)

lemma dput_Nil [simp]: "dput k v [] = [(k, v)]"
  and dput_Cons: "dput k v ((k', v') # d) = (if k' = k then (k, v) # d else (k', v') # dput k v d)"
  by (auto simp: dput_def)

lemma ddel_Nil [simp]: "ddel k [] = []"
  and ddel_Cons: "ddel k ((k', v') # d) = (if k' = k then ddel k d else (k', v') # ddel k d)"
  by (auto simp: ddel_def)

lemma dget_dput [dict_simps]: "dget (dput k v d) k' = (if k' = k then Some v else dget d k')"
  by (simp add: dget_def dput_def update_conv)

lemma dget_ddel [dict_simps]: "dget (ddel k d) k' = (if k' = k then None else dget d k')"
  by (simp add: dget_def ddel_def delete_conv)

lemma dwf_Nil [simp]: "dwf []"
  by (simp add: dwf_def)

lemma dwf_dput [dict_simps, intro]: "dwf d \<Longrightarrow> dwf (dput k v d)"
  by (simp add: dwf_def dput_def distinct_update)

lemma dwf_ddel [dict_simps, intro]: "dwf d \<Longrightarrow> dwf (ddel k d)"
  by (simp add: dwf_def ddel_def distinct_delete)

lemma dkeys_dput [dict_simps]:
  "dkeys (dput k v d) = (if k \<in> set (dkeys d) then dkeys d else dkeys d @ [k])"
  by (simp add: dput_def update_keys)

lemma dget_None_iff [dict_simps]: "dget d k = None \<longleftrightarrow> k \<notin> set (dkeys d)"
  by (auto simp: dget_def map_of_eq_None_iff)

lemma dget_SomeD: "dget d k = Some v \<Longrightarrow> (k, v) \<in> set d"
  by (simp add: dget_def map_of_SomeD)

lemma dget_Some_key: "dget d k = Some v \<Longrightarrow> k \<in> set (dkeys d)"
  by (metis dget_None_iff option.distinct(1))

lemma dget_Some_iff: "dwf d \<Longrightarrow> dget d k = Some v \<longleftrightarrow> (k, v) \<in> set d"
  by (simp add: dget_def dwf_def)

lemma set_ddel [dict_simps]: "set (ddel k d) = {(k', v). (k', v) \<in> set d \<and> k' \<noteq> k}"
  by (auto simp: ddel_def AList.delete_eq)

lemma dkeys_ddel [dict_simps]: "set (dkeys (ddel k d)) = set (dkeys d) - {k}"
  by (force simp: set_ddel)

lemma set_dput: "dwf d \<Longrightarrow> set (dput k v d) = insert (k, v) {(k', v'). (k', v') \<in> set d \<and> k' \<noteq> k}"
proof -
  assume wf: "dwf d"
  then have "(k', v') \<in> set (dput k v d) \<longleftrightarrow> (k' = k \<and> v' = v \<or> k' \<noteq> k \<and> (k', v') \<in> set d)" for k' v'
    by (auto simp: dget_Some_iff [symmetric] dict_simps)
  then show ?thesis by auto
qed

lemma set_dput_subset: "set (dput k v d) \<subseteq> insert (k, v) (set d)"
proof (induction d)
  case (Cons e d)
  then show ?case by (cases e) (simp add: dput_Cons, blast)
qed simp

lemma dput_new: "k \<notin> set (dkeys d) \<Longrightarrow> dput k v d = d @ [(k, v)]"
  by (induction d) (auto simp: dput_Cons)

lemma dput_same: "dget d k = Some v \<Longrightarrow> dput k v d = d"
  by (induction d) (auto simp: dput_Cons dget_Cons split: if_splits)

lemma length_dput [dict_simps]:
  "length (dput k v d) = (if k \<in> set (dkeys d) then length d else Suc (length d))"
proof -
  have "length (dput k v d) = length (dkeys (dput k v d))" by simp
  then show ?thesis by (simp only: dkeys_dput) auto
qed

lemma length_ddel_le: "length (ddel k d) \<le> length d"
  by (simp add: ddel_def AList.delete_eq)

lemma ddel_absent: "k \<notin> set (dkeys d) \<Longrightarrow> ddel k d = d"
  by (induction d) (auto simp: ddel_Cons)

lemma length_ddel:
  "dwf d \<Longrightarrow> k \<in> set (dkeys d) \<Longrightarrow> Suc (length (ddel k d)) = length d"
proof (induction d)
  case (Cons e d)
  then show ?case
    by (cases e) (auto simp: dwf_def ddel_Cons ddel_absent)
qed simp

lemma length_ddel_less: "dwf d \<Longrightarrow> k \<in> set (dkeys d) \<Longrightarrow> length (ddel k d) < length d"
  using length_ddel by fastforce

lemma dwf_filter [intro]: "dwf d \<Longrightarrow> dwf (filter P d)"
  by (simp add: dwf_def distinct_map_filter)

lemma dget_filter:
  assumes "dwf d"
  shows "dget (filter (\<lambda>(k, e). P e) d) k = (case dget d k of None \<Rightarrow> None | Some e \<Rightarrow> if P e then Some e else None)"
proof -
  let ?f = "filter (\<lambda>(k, e). P e) d"
  have iff: "dget ?f k = Some e \<longleftrightarrow> dget d k = Some e \<and> P e" for e
    using assms by (simp add: dget_Some_iff dwf_filter)
  show ?thesis
  proof (cases "dget ?f k")
    case (Some e)
    then show ?thesis using iff [of e] by simp
  next
    case None
    then have "\<not> (dget d k = Some e \<and> P e)" for e using iff [of e] by simp
    then show ?thesis using None by (cases "dget d k") auto
  qed
qed

section \<open>Tables of objects, indexed by identity\<close>

text \<open>
  Objects the code mutates through references live in a list; an object's identity is its
  index, allocation appends.
\<close>

definition count_if :: "('a \<Rightarrow> bool) \<Rightarrow> 'a list \<Rightarrow> nat" where
  "count_if P xs = length (filter P xs)"

lemma count_if_Nil [table_simps, simp]: "count_if P [] = 0"
  by (simp add: count_if_def)

lemma count_if_append [table_simps]: "count_if P (xs @ ys) = count_if P xs + count_if P ys"
  by (simp add: count_if_def)

lemma count_if_Cons [table_simps]: "count_if P (x # xs) = (if P x then Suc (count_if P xs) else count_if P xs)"
  by (simp add: count_if_def)

lemma count_if_update_same:
  "i < length xs \<Longrightarrow> P y = P (xs ! i) \<Longrightarrow> count_if P (xs[i := y]) = count_if P xs"
  by (induction xs arbitrary: i) (auto simp: count_if_Cons split: nat.splits)

lemma count_if_update_drop:
  "i < length xs \<Longrightarrow> P (xs ! i) \<Longrightarrow> \<not> P y \<Longrightarrow> Suc (count_if P (xs[i := y])) = count_if P xs"
  by (induction xs arbitrary: i) (auto simp: count_if_Cons split: nat.splits)

lemma count_if_pos: "i < length xs \<Longrightarrow> P (xs ! i) \<Longrightarrow> 0 < count_if P xs"
  by (induction xs arbitrary: i) (auto simp: count_if_Cons nth_Cons split: nat.splits)

lemma count_if_le: "(\<And>x. x \<in> set xs \<Longrightarrow> P x \<Longrightarrow> Q x) \<Longrightarrow> count_if P xs \<le> count_if Q xs"
  by (induction xs) (auto simp: count_if_Cons)

section \<open>State machines and their invariants\<close>

text \<open>
  A machine has start states, atomic steps and an invariant.  A component proves the two
  laws; that the invariant holds in every reachable state is proved here once.
\<close>

locale machine =
  fixes start :: "'s \<Rightarrow> bool"
    and step :: "'s \<Rightarrow> 's \<Rightarrow> bool"
    and inv :: "'s \<Rightarrow> bool"
  assumes start_inv: "start s \<Longrightarrow> inv s"
    and step_inv: "inv s \<Longrightarrow> step s t \<Longrightarrow> inv t"
begin

lemma run_inv: "step\<^sup>*\<^sup>* s t \<Longrightarrow> inv s \<Longrightarrow> inv t"
  by (induction rule: rtranclp_induct) (auto intro: step_inv)

lemma reachable_inv: "start s \<Longrightarrow> step\<^sup>*\<^sup>* s t \<Longrightarrow> inv t"
  using run_inv start_inv by blast

text \<open>What every step keeps from a state of the invariant on, every run keeps.\<close>

lemma run_keeps:
  assumes "step\<^sup>*\<^sup>* s t" and "inv s" and "P s"
    and "\<And>u v. inv u \<Longrightarrow> step u v \<Longrightarrow> P u \<Longrightarrow> P v"
  shows "P t"
proof -
  from assms(1,2,3) have "inv t \<and> P t"
    by (induction rule: rtranclp_induct) (auto intro: step_inv assms(4))
  then show ?thesis by simp
qed

end

section \<open>Stream transducers\<close>

text \<open>
  An async generator that loops over an input stream is a state and, per input, the list of
  outputs it yields.  \<open>feed_all\<close> runs it over a list of inputs.
\<close>

fun feed_all :: "('s \<Rightarrow> 'i \<Rightarrow> 's \<times> 'o list) \<Rightarrow> 's \<Rightarrow> 'i list \<Rightarrow> 's \<times> 'o list" where
  "feed_all f s [] = (s, [])"
| "feed_all f s (x # xs) =
     (let (s1, out) = f s x; (s2, rest) = feed_all f s1 xs in (s2, out @ rest))"

lemma feed_all_append:
  "feed_all f s (xs @ ys) =
     (let (s1, out) = feed_all f s xs; (s2, rest) = feed_all f s1 ys in (s2, out @ rest))"
  by (induction xs arbitrary: s) (auto simp: split_beta Let_def)

text \<open>
  A transducer against an automaton that reads its outputs: if each step's outputs drive
  the reader from a state related to the transducer's to a related one, a whole run is
  accepted.  The reader is a partial step function; \<open>None\<close> rejects.
\<close>

fun reads :: "('q \<Rightarrow> 'o \<Rightarrow> 'q option) \<Rightarrow> 'q \<Rightarrow> 'o list \<Rightarrow> 'q option" where
  "reads r q [] = Some q"
| "reads r q (x # xs) = (case r q x of None \<Rightarrow> None | Some q' \<Rightarrow> reads r q' xs)"

lemma reads_append:
  "reads r q (xs @ ys) = (case reads r q xs of None \<Rightarrow> None | Some q' \<Rightarrow> reads r q' ys)"
  by (induction xs arbitrary: q) (auto split: option.splits)

locale conforming =
  fixes emit :: "'s \<Rightarrow> 'i \<Rightarrow> 's \<times> 'o list"
    and reader :: "'q \<Rightarrow> 'o \<Rightarrow> 'q option"
    and rel :: "'s \<Rightarrow> 'q \<Rightarrow> bool"
    and ok :: "'i \<Rightarrow> bool"
  assumes emit_conforms:
    "rel s q \<Longrightarrow> ok x \<Longrightarrow> emit s x = (s', out) \<Longrightarrow> \<exists>q'. reads reader q out = Some q' \<and> rel s' q'"
begin

lemma feed_conforms:
  "rel s q \<Longrightarrow> list_all ok xs \<Longrightarrow> feed_all emit s xs = (s', out) \<Longrightarrow>
     \<exists>q'. reads reader q out = Some q' \<and> rel s' q'"
proof (induction xs arbitrary: s q out)
  case Nil
  then show ?case by auto
next
  case (Cons x xs)
  obtain s1 o1 where e: "emit s x = (s1, o1)" by fastforce
  obtain s2 o2 where f: "feed_all emit s1 xs = (s2, o2)" by fastforce
  from Cons.prems e f have out: "out = o1 @ o2" and s2: "s2 = s'" by auto
  from emit_conforms [OF Cons.prems(1) _ e] Cons.prems(2)
  obtain q1 where q1: "reads reader q o1 = Some q1" "rel s1 q1" by auto
  from Cons.IH [OF q1(2) _ f [unfolded s2]] Cons.prems(2)
  obtain q2 where "reads reader q1 o2 = Some q2" "rel s' q2" by auto
  with q1 out show ?case by (simp add: reads_append)
qed

end

end
