(* ===== verification/TurnLimiter.thy ===== *)
theory TurnLimiter
  imports Prelude
begin

text \<open>
  Admission control for agent turns, \<open>src/src/concurrency.py\<close>: \<open>TurnLimiter\<close>, its
  \<open>TurnSlot\<close> and \<open>_Waiter\<close> objects and the FIFO wait queue.

  Slots and futures are objects with identity: they live in tables, a slot or a waiter is
  its index.  One call of an operation under \<open>self._lock\<close> is one function here; \<open>acquire\<close>
  awaits in the middle, so it is two (\<open>acquire_begin\<close> up to the wait, \<open>acquire_finish\<close> from
  the wake-up on), and a grant reaches its waiter by a scheduled callback
  (\<open>call_soon_threadsafe\<close>), which is the list \<open>deliveries\<close>.  The step relation interleaves
  all of them in any order.  The two fields the code keeps in local variables and callers'
  hands, the running \<open>acquire\<close> calls and the slots returned, are \<open>acquiring\<close> and \<open>held\<close>.
\<close>

section \<open>State\<close>

datatype reason = Global_full | Per_user_full | Queue_full | Queue_timeout | Aborted

record slot =
  slot_user :: string
  released :: bool

datatype fut = Pending | Granted nat | Cancelled

record waiter =
  w_id :: nat
  w_key :: string
  w_identified :: bool
  w_ticket :: "string option"
  w_since :: instant
  w_timeout :: instant

record limiter =
  total_cap :: int
  per_user_cap :: int
  queue_timeout :: instant
  queue_max :: int
  in_flight :: int
  by_user :: "(string, int) dict"
  waiters :: "waiter list"
  slots :: "slot list"
  next_wid :: nat
  futures :: "nat \<Rightarrow> fut"
  deliveries :: "(nat \<times> nat) list"
  acquiring :: "nat list"
  held :: "nat list"

definition anonymous :: string where
  "anonymous = ''__anonymous__''"

definition new_limiter :: "int \<Rightarrow> int \<Rightarrow> instant \<Rightarrow> int \<Rightarrow> limiter" where
  "new_limiter tot per_user timeout qmax =
     \<lparr>total_cap = tot, per_user_cap = per_user, queue_timeout = timeout, queue_max = qmax,
      in_flight = 0, by_user = [], waiters = [], slots = [], next_wid = 0, futures = (\<lambda>_. Cancelled), deliveries = [],
      acquiring = [], held = []\<rparr>"

section \<open>Operations\<close>

definition user_count :: "limiter \<Rightarrow> string \<Rightarrow> int" where
  "user_count l key = (case dget (by_user l) key of None \<Rightarrow> 0 | Some n \<Rightarrow> n)"

text \<open>\<open>_blocked\<close>: \<open>None\<close> is the empty reason, a free slot.\<close>

definition blocked :: "limiter \<Rightarrow> string \<Rightarrow> bool \<Rightarrow> reason option" where
  "blocked l key identified =
     (if 0 < total_cap l \<and> total_cap l \<le> in_flight l then Some Global_full
      else if identified \<and> 0 < per_user_cap l \<and> per_user_cap l \<le> user_count l key
      then Some Per_user_full
      else None)"

text \<open>\<open>_take\<close>: count one slot and allocate the \<open>TurnSlot\<close>.\<close>

definition take_slot :: "limiter \<Rightarrow> string \<Rightarrow> nat \<times> limiter" where
  "take_slot l key =
     (length (slots l),
      l\<lparr>in_flight := in_flight l + 1,
        by_user := dput key (user_count l key + 1) (by_user l),
        slots := slots l @ [\<lparr>slot_user = key, released = False\<rparr>]\<rparr>)"

definition fut_done :: "limiter \<Rightarrow> nat \<Rightarrow> bool" where
  "fut_done l wid \<longleftrightarrow> futures l wid \<noteq> Pending"

text \<open>
  \<open>_grant_waiters\<close>: the loop runs over a copy of the queue and stops for good once the
  global cap is reached.  \<open>grant_one\<close> is the loop body's grant.
\<close>

definition grant_one :: "waiter \<Rightarrow> limiter \<Rightarrow> limiter" where
  "grant_one w l =
     (let (sid, l') = take_slot (l\<lparr>waiters := remove1 w (waiters l)\<rparr>) (w_key w)
      in l'\<lparr>deliveries := deliveries l' @ [(w_id w, sid)]\<rparr>)"

fun grant_loop :: "waiter list \<Rightarrow> limiter \<Rightarrow> limiter" where
  "grant_loop [] l = l"
| "grant_loop (w # ws) l =
     (if 0 < total_cap l \<and> total_cap l \<le> in_flight l then l
      else if fut_done l (w_id w) \<or> blocked l (w_key w) (w_identified w) \<noteq> None
      then grant_loop ws l
      else grant_loop ws (grant_one w l))"

definition grant_waiters :: "limiter \<Rightarrow> limiter" where
  "grant_waiters l = grant_loop (waiters l) l"

text \<open>\<open>_release\<close>: give a user's count back, drop a key that reaches zero, grant.\<close>

definition give_back :: "string \<Rightarrow> limiter \<Rightarrow> limiter" where
  "give_back user l =
     (let n = (if 0 < in_flight l then in_flight l - 1 else in_flight l);
          remaining = user_count l user - 1;
          d = (if 0 < remaining then dput user remaining (by_user l) else ddel user (by_user l))
      in l\<lparr>in_flight := n, by_user := d\<rparr>)"

definition release_user :: "string \<Rightarrow> limiter \<Rightarrow> limiter" where
  "release_user user l = grant_waiters (give_back user l)"

text \<open>\<open>TurnSlot.release\<close>, idempotent.\<close>

definition mark_released :: "nat \<Rightarrow> limiter \<Rightarrow> limiter" where
  "mark_released sid l = l\<lparr>slots := (slots l)[sid := (slots l ! sid)\<lparr>released := True\<rparr>]\<rparr>"

definition release_slot :: "nat \<Rightarrow> limiter \<Rightarrow> limiter" where
  "release_slot sid l =
     (if released (slots l ! sid) then l
      else release_user (slot_user (slots l ! sid)) (mark_released sid l))"

definition key_of :: "string option \<Rightarrow> string" where
  "key_of user = (if truthy user then the user else anonymous)"

definition try_acquire :: "string option \<Rightarrow> limiter \<Rightarrow> (reason + nat) \<times> limiter" where
  "try_acquire user l =
     (case blocked l (key_of user) (truthy user) of
        Some r \<Rightarrow> (Inl r, l)
      | None \<Rightarrow> (let (sid, l') = take_slot l (key_of user)
                in (Inr sid, l'\<lparr>held := held l' @ [sid]\<rparr>)))"

text \<open>\<open>acquire\<close> up to the wait.\<close>

datatype begin_result = Admitted nat | Refused reason | Waiting nat

definition enqueue :: "string \<Rightarrow> bool \<Rightarrow> string option \<Rightarrow> instant \<Rightarrow> limiter \<Rightarrow> nat \<times> limiter" where
  "enqueue key identified ticket now l =
     (let wid = next_wid l
      in (wid,
          l\<lparr>waiters := waiters l @
              [\<lparr>w_id = wid, w_key = key, w_identified = identified, w_ticket = ticket,
                w_since = now, w_timeout = queue_timeout l\<rparr>],
            next_wid := Suc wid, futures := (futures l)(wid := Pending),
            acquiring := acquiring l @ [wid]\<rparr>))"

definition acquire_begin ::
  "string option \<Rightarrow> string option \<Rightarrow> instant \<Rightarrow> limiter \<Rightarrow> begin_result \<times> limiter" where
  "acquire_begin user ticket now l =
     (case blocked l (key_of user) (truthy user) of
        None \<Rightarrow> (let (sid, l') = take_slot l (key_of user)
                in (Admitted sid, l'\<lparr>held := held l' @ [sid]\<rparr>))
      | Some r \<Rightarrow>
          if queue_timeout l \<le> 0 then (Refused r, l)
          else if 0 < queue_max l \<and> queue_max l \<le> int (length (waiters l))
          then (Refused Queue_full, l)
          else (let (wid, l') = enqueue (key_of user) (truthy user) ticket now l
                in (Waiting wid, l')))"

text \<open>
  \<open>acquire\<close> from the wake-up on.  \<open>Wake\<close> says how the wait ended: on its own (a grant or the
  timeout), with the abort task done, or by cancellation of the calling task, which runs the
  \<open>finally\<close> block and re-raises.
\<close>

datatype wake = Woke | Abort_done | Task_cancelled

definition drop_waiter :: "nat \<Rightarrow> limiter \<Rightarrow> limiter" where
  "drop_waiter wid l = l\<lparr>waiters := filter (\<lambda>w. w_id w \<noteq> wid) (waiters l)\<rparr>"

definition cancel_future :: "nat \<Rightarrow> limiter \<Rightarrow> limiter" where
  "cancel_future wid l = l\<lparr>futures := (futures l)(wid := Cancelled)\<rparr>"

definition leave :: "nat \<Rightarrow> limiter \<Rightarrow> limiter" where
  "leave wid l = l\<lparr>acquiring := remove1 wid (acquiring l)\<rparr>"

definition acquire_finish :: "nat \<Rightarrow> wake \<Rightarrow> limiter \<Rightarrow> (reason + nat) \<times> limiter" where
  "acquire_finish wid wake l =
     (let l1 = leave wid (drop_waiter wid l);
          outcome = (if wake = Abort_done then Aborted else Queue_timeout)
      in case futures l1 wid of
           Pending \<Rightarrow> (Inl outcome, cancel_future wid l1)
         | Cancelled \<Rightarrow> (Inl outcome, l1)
         | Granted sid \<Rightarrow>
             (if wake = Woke then (Inr sid, l1\<lparr>held := held l1 @ [sid]\<rparr>)
              else (Inl outcome, release_slot sid l1)))"

text \<open>\<open>_resolve_waiter\<close>, run for one scheduled delivery.\<close>

definition resolve_waiter :: "nat \<Rightarrow> nat \<Rightarrow> limiter \<Rightarrow> limiter" where
  "resolve_waiter wid sid l =
     (if fut_done l wid then release_slot sid l
      else l\<lparr>futures := (futures l)(wid := Granted sid)\<rparr>)"

definition deliver :: "nat \<Rightarrow> nat \<Rightarrow> limiter \<Rightarrow> limiter" where
  "deliver wid sid l = resolve_waiter wid sid (l\<lparr>deliveries := remove1 (wid, sid) (deliveries l)\<rparr>)"

definition set_opt :: "('a \<Rightarrow> 'b) \<Rightarrow> 'a option \<Rightarrow> 'b \<Rightarrow> 'b" where
  "set_opt f x old = (case x of None \<Rightarrow> old | Some v \<Rightarrow> f v)"

definition configure ::
  "int option \<Rightarrow> int option \<Rightarrow> instant option \<Rightarrow> int option \<Rightarrow> limiter \<Rightarrow> limiter" where
  "configure tot per_user timeout qmax l =
     grant_waiters
       (l\<lparr>total_cap := set_opt (max 0) tot (total_cap l),
          per_user_cap := set_opt (max 0) per_user (per_user_cap l),
          queue_timeout := set_opt (max 0) timeout (queue_timeout l),
          queue_max := set_opt (max 0) qmax (queue_max l)\<rparr>)"

text \<open>\<open>position\<close>: the waits of a ticket; \<open>waited\<close> is exact here, the code rounds it to 0.1 s.\<close>

record queue_position =
  ahead :: nat
  behind :: nat
  waited :: instant
  max_wait :: instant

fun find_ticket :: "string \<Rightarrow> instant \<Rightarrow> nat \<Rightarrow> waiter list \<Rightarrow> queue_position option" where
  "find_ticket t now i [] = None"
| "find_ticket t now i (w # ws) =
     (if w_ticket w = Some t
      then Some \<lparr>ahead = i, behind = length ws, waited = now - w_since w, max_wait = w_timeout w\<rparr>
      else find_ticket t now (Suc i) ws)"

definition position :: "string \<Rightarrow> instant \<Rightarrow> limiter \<Rightarrow> queue_position option" where
  "position ticket now l = (if ticket = [] then None else find_ticket ticket now 0 (waiters l))"

definition snapshot :: "limiter \<Rightarrow> (string \<times> int) list" where
  "snapshot l =
     [(''in_flight'', in_flight l), (''limit'', total_cap l),
      (''distinct_users'', int (length (by_user l))), (''per_user_limit'', per_user_cap l),
      (''queued'', int (length (waiters l))), (''queue_limit'', queue_max l)]"

section \<open>The step relation\<close>

text \<open>
  Everything that runs on a limiter whose limits are not being changed, in any order, and
  with it the admin's \<open>configure\<close>.  A caller releases a slot it was given (any number of
  times); an \<open>acquire\<close> call wakes up once.
\<close>

inductive turn_step :: "limiter \<Rightarrow> limiter \<Rightarrow> bool" where
  step_try: "turn_step l (snd (try_acquire user l))"
| step_begin: "turn_step l (snd (acquire_begin user ticket now l))"
| step_finish: "wid \<in> set (acquiring l) \<Longrightarrow> turn_step l (snd (acquire_finish wid wake l))"
| step_deliver: "(wid, sid) \<in> set (deliveries l) \<Longrightarrow> turn_step l (deliver wid sid l)"
| step_release: "sid \<in> set (held l) \<Longrightarrow> turn_step l (release_slot sid l)"

inductive limiter_step :: "limiter \<Rightarrow> limiter \<Rightarrow> bool" where
  step_turn: "turn_step l l' \<Longrightarrow> limiter_step l l'"
| step_configure: "limiter_step l (configure tot per_user timeout qmax l)"

inductive fresh_limiter :: "limiter \<Rightarrow> bool" where
  "fresh_limiter (new_limiter tot per_user timeout qmax)"

inductive_cases turn_stepE: "turn_step l l'"
inductive_cases limiter_stepE: "limiter_step l l'"

section \<open>The invariant\<close>

definition live :: "string \<Rightarrow> slot \<Rightarrow> bool" where
  "live u s \<longleftrightarrow> \<not> released s \<and> slot_user s = u"

definition counts_ok :: "limiter \<Rightarrow> bool" where
  "counts_ok l \<longleftrightarrow>
     in_flight l = int (count_if (\<lambda>s. \<not> released s) (slots l)) \<and>
     dwf (by_user l) \<and>
     (\<forall>u. dget (by_user l) u =
        (if count_if (live u) (slots l) = 0 then None
         else Some (int (count_if (live u) (slots l)))))"

definition wiring_ok :: "limiter \<Rightarrow> bool" where
  "wiring_ok l \<longleftrightarrow>
     distinct (map w_id (waiters l)) \<and> distinct (acquiring l) \<and>
     (\<forall>w \<in> set (waiters l). w_id w < next_wid l \<and> futures l (w_id w) = Pending \<and>
        w_id w \<notin> fst ` set (deliveries l)) \<and>
     (\<forall>d \<in> set (deliveries l). fst d < next_wid l \<and> snd d < length (slots l)) \<and>
     (\<forall>sid \<in> set (held l). sid < length (slots l)) \<and>
     (\<forall>wid \<in> set (acquiring l). wid < next_wid l) \<and>
     (\<forall>wid. futures l wid = Pending \<longrightarrow> wid \<in> set (acquiring l)) \<and>
     (\<forall>wid sid. futures l wid = Granted sid \<longrightarrow> sid < length (slots l))"

text \<open>Who can still give a slot back: its caller, a grant on its way, or a woken waiter.\<close>

definition owned :: "limiter \<Rightarrow> nat \<Rightarrow> bool" where
  "owned l sid \<longleftrightarrow>
     sid \<in> set (held l) \<or> sid \<in> snd ` set (deliveries l) \<or>
     (\<exists>wid \<in> set (acquiring l). futures l wid = Granted sid)"

definition no_leak_but :: "nat set \<Rightarrow> limiter \<Rightarrow> bool" where
  "no_leak_but X l \<longleftrightarrow>
     (\<forall>sid < length (slots l). \<not> released (slots l ! sid) \<longrightarrow> sid \<notin> X \<longrightarrow> owned l sid)"

definition work_conserving :: "limiter \<Rightarrow> bool" where
  "work_conserving l \<longleftrightarrow>
     (\<forall>w \<in> set (waiters l). blocked l (w_key w) (w_identified w) \<noteq> None)"

definition base_inv :: "nat set \<Rightarrow> limiter \<Rightarrow> bool" where
  "base_inv X l \<longleftrightarrow> counts_ok l \<and> wiring_ok l \<and> no_leak_but X l"

definition limiter_inv :: "limiter \<Rightarrow> bool" where
  "limiter_inv l \<longleftrightarrow> base_inv {} l \<and> work_conserving l"

subsection \<open>Counting\<close>

lemma user_count_live: "counts_ok l \<Longrightarrow> user_count l u = int (count_if (live u) (slots l))"
  by (auto simp: counts_ok_def user_count_def)

lemma user_count_dput [simp]:
  "user_count (l\<lparr>by_user := dput k n d\<rparr>) u = (if u = k then n else user_count (l\<lparr>by_user := d\<rparr>) u)"
  by (simp add: user_count_def dict_simps)

lemma user_count_more [simp]:
  "user_count (l\<lparr>waiters := a\<rparr>) u = user_count l u"
  "user_count (l\<lparr>slots := b\<rparr>) u = user_count l u"
  "user_count (l\<lparr>in_flight := c\<rparr>) u = user_count l u"
  "user_count (l\<lparr>deliveries := e\<rparr>) u = user_count l u"
  "user_count (l\<lparr>held := h\<rparr>) u = user_count l u"
  by (simp_all add: user_count_def)

lemma take_slot_simps [simp]:
  "fst (take_slot l k) = length (slots l)"
  "in_flight (snd (take_slot l k)) = in_flight l + 1"
  "slots (snd (take_slot l k)) = slots l @ [\<lparr>slot_user = k, released = False\<rparr>]"
  "total_cap (snd (take_slot l k)) = total_cap l"
  "per_user_cap (snd (take_slot l k)) = per_user_cap l"
  "waiters (snd (take_slot l k)) = waiters l"
  "futures (snd (take_slot l k)) = futures l"
  "next_wid (snd (take_slot l k)) = next_wid l"
  "deliveries (snd (take_slot l k)) = deliveries l"
  "acquiring (snd (take_slot l k)) = acquiring l"
  "held (snd (take_slot l k)) = held l"
  "queue_timeout (snd (take_slot l k)) = queue_timeout l"
  by (simp_all add: take_slot_def)

lemma user_count_take:
  "user_count (snd (take_slot l k)) u = (if u = k then user_count l k + 1 else user_count l u)"
  by (simp add: take_slot_def user_count_def dict_simps)

lemma counts_take: "counts_ok l \<Longrightarrow> counts_ok (snd (take_slot l k))"
  by (auto simp: counts_ok_def take_slot_def user_count_def count_if_append count_if_Cons live_def
      dict_simps)

lemma blocked_cong:
  assumes "total_cap l' = total_cap l" "in_flight l' = in_flight l"
    "per_user_cap l' = per_user_cap l" "by_user l' = by_user l"
  shows "blocked l' k i = blocked l k i"
  using assms by (simp add: blocked_def user_count_def)

lemma blocked_take_mono: "blocked l k i \<noteq> None \<Longrightarrow> blocked (snd (take_slot l u)) k i \<noteq> None"
  by (auto simp: blocked_def user_count_take split: if_splits)

lemma counts_give_back:
  assumes c: "counts_ok l" and i: "sid < length (slots l)" and r: "\<not> released (slots l ! sid)"
  shows "counts_ok (give_back (slot_user (slots l ! sid)) (mark_released sid l))"
proof -
  let ?s = "slots l ! sid" and ?t = "(slots l ! sid)\<lparr>released := True\<rparr>"
  have f: "Suc (count_if (\<lambda>s. \<not> released s) ((slots l)[sid := ?t])) = count_if (\<lambda>s. \<not> released s) (slots l)"
    using i r by (intro count_if_update_drop) auto
  have u: "Suc (count_if (live (slot_user ?s)) ((slots l)[sid := ?t])) = count_if (live (slot_user ?s)) (slots l)"
    using i r by (intro count_if_update_drop) (auto simp: live_def)
  have v: "count_if (live v) ((slots l)[sid := ?t]) = count_if (live v) (slots l)" if "v \<noteq> slot_user ?s" for v
    using i that by (intro count_if_update_same) (auto simp: live_def)
  have inf: "in_flight l = int (count_if (\<lambda>s. \<not> released s) (slots l))" and w: "dwf (by_user l)"
    and d: "\<And>v. dget (by_user l) v = (if count_if (live v) (slots l) = 0 then None
      else Some (int (count_if (live v) (slots l))))"
    using c by (simp_all add: counts_ok_def)
  have uc: "user_count l (slot_user ?s) = int (count_if (live (slot_user ?s)) (slots l))"
    using c by (rule user_count_live)
  show ?thesis
    unfolding counts_ok_def give_back_def mark_released_def Let_def
    using f u v inf w d uc by (auto simp: dict_simps user_count_def)
qed

subsection \<open>The queue's wiring\<close>

lemma distinct_map_remove1: "distinct (map f xs) \<Longrightarrow> distinct (map f (remove1 x xs))"
  by (induction xs) (auto dest: notin_set_remove1 simp: image_iff)

lemma subset_remove1: "w \<notin> set ws \<Longrightarrow> set ws \<subseteq> set vs \<Longrightarrow> set ws \<subseteq> set (remove1 w vs)"
  by (metis in_set_remove1 subset_iff)

lemma grant_one_simps [simp]:
  "total_cap (grant_one w l) = total_cap l"
  "per_user_cap (grant_one w l) = per_user_cap l"
  "in_flight (grant_one w l) = in_flight l + 1"
  "waiters (grant_one w l) = remove1 w (waiters l)"
  "futures (grant_one w l) = futures l"
  "next_wid (grant_one w l) = next_wid l"
  "slots (grant_one w l) = slots l @ [\<lparr>slot_user = w_key w, released = False\<rparr>]"
  "deliveries (grant_one w l) = deliveries l @ [(w_id w, length (slots l))]"
  "acquiring (grant_one w l) = acquiring l"
  "held (grant_one w l) = held l"
  by (simp_all add: grant_one_def Let_def split_beta)

lemma grant_one_by_user:
  "by_user (grant_one w l) = by_user (snd (take_slot l (w_key w)))"
  by (simp add: grant_one_def take_slot_def Let_def)

lemma blocked_grant_mono: "blocked l k i \<noteq> None \<Longrightarrow> blocked (grant_one w l) k i \<noteq> None"
  using blocked_take_mono [of l k i "w_key w"]
  by (simp add: blocked_cong [of "grant_one w l" "snd (take_slot l (w_key w))"] grant_one_by_user)

lemma base_grant_one:
  assumes b: "base_inv X l" and w: "w \<in> set (waiters l)"
  shows "base_inv X (grant_one w l)"
proof -
  have "counts_ok (grant_one w l)"
    using b counts_take [of l "w_key w"] grant_one_by_user [of w l]
    by (simp add: base_inv_def counts_ok_def)
  moreover have "wiring_ok (grant_one w l)"
  proof -
    have wo: "wiring_ok l" using b by (simp add: base_inv_def)
    have "w_id v \<noteq> w_id w" if "v \<in> set (remove1 w (waiters l))" for v
    proof -
      have "distinct (map w_id (waiters l))" using wo by (simp add: wiring_ok_def)
      then have "inj_on w_id (set (waiters l))" "distinct (waiters l)" by (simp_all add: distinct_map)
      with that w show ?thesis by (auto simp: set_remove1_eq inj_on_def)
    qed
    with wo w show ?thesis
      by (auto simp: wiring_ok_def distinct_map_remove1 less_Suc_eq dest: notin_set_remove1)
  qed
  moreover have "no_leak_but X (grant_one w l)"
    using b by (auto simp: base_inv_def no_leak_but_def owned_def nth_append less_Suc_eq)
  ultimately show ?thesis by (simp add: base_inv_def)
qed

lemma waiter_not_done: "base_inv X l \<Longrightarrow> w \<in> set (waiters l) \<Longrightarrow> \<not> fut_done l (w_id w)"
  by (simp add: base_inv_def wiring_ok_def fut_done_def)

lemma grant_loop_base:
  "base_inv X l \<Longrightarrow> distinct ws \<Longrightarrow> set ws \<subseteq> set (waiters l) \<Longrightarrow> base_inv X (grant_loop ws l)"
proof (induction ws arbitrary: l)
  case (Cons w ws)
  have "set ws \<subseteq> set (waiters (grant_one w l))"
    using Cons.prems(2,3) by (simp add: subset_remove1)
  moreover have "base_inv X (grant_one w l)"
    using Cons.prems by (intro base_grant_one) auto
  ultimately show ?case
    using Cons by auto
qed simp

lemma grant_loop_conserving:
  "base_inv X l \<Longrightarrow> distinct ws \<Longrightarrow> set ws \<subseteq> set (waiters l) \<Longrightarrow>
   \<forall>w \<in> set (waiters l) - set ws. blocked l (w_key w) (w_identified w) \<noteq> None \<Longrightarrow>
   work_conserving (grant_loop ws l)"
proof (induction ws arbitrary: l)
  case Nil
  then show ?case by (auto simp: work_conserving_def)
next
  case (Cons w ws)
  have nd: "\<not> fut_done l (w_id w)"
    using Cons.prems by (intro waiter_not_done) auto
  have dw: "distinct (waiters l)"
    using Cons.prems(1) by (simp add: base_inv_def wiring_ok_def distinct_map)
  consider (full) "0 < total_cap l \<and> total_cap l \<le> in_flight l"
    | (skip) "\<not> (0 < total_cap l \<and> total_cap l \<le> in_flight l)"
        "blocked l (w_key w) (w_identified w) \<noteq> None"
    | (grant) "\<not> (0 < total_cap l \<and> total_cap l \<le> in_flight l)"
        "blocked l (w_key w) (w_identified w) = None"
    by blast
  then show ?case
  proof cases
    case full
    then show ?thesis by (simp add: work_conserving_def blocked_def)
  next
    case skip
    with Cons.prems have "work_conserving (grant_loop ws l)"
      by (intro Cons.IH) auto
    with skip nd show ?thesis by auto
  next
    case grant
    have "work_conserving (grant_loop ws (grant_one w l))"
    proof (rule Cons.IH)
      show "base_inv X (grant_one w l)"
        using Cons.prems by (intro base_grant_one) auto
      show "distinct ws" using Cons.prems by simp
      show "set ws \<subseteq> set (waiters (grant_one w l))"
        using Cons.prems(2,3) by (simp add: subset_remove1)
      show "\<forall>v \<in> set (waiters (grant_one w l)) - set ws.
          blocked (grant_one w l) (w_key v) (w_identified v) \<noteq> None"
        using Cons.prems(4) dw by (auto simp: blocked_grant_mono)
    qed
    with grant nd show ?thesis by auto
  qed
qed

lemma grant_waiters_inv:
  assumes "base_inv X l"
  shows "base_inv X (grant_waiters l) \<and> work_conserving (grant_waiters l)"
proof -
  have "distinct (waiters l)"
    using assms by (simp add: base_inv_def wiring_ok_def distinct_map)
  then show ?thesis
    unfolding grant_waiters_def using assms grant_loop_base grant_loop_conserving by auto
qed

subsection \<open>Every step keeps the invariant\<close>

lemma mark_give_simps [simp]:
  "total_cap (give_back u l) = total_cap l" "per_user_cap (give_back u l) = per_user_cap l"
  "waiters (give_back u l) = waiters l" "futures (give_back u l) = futures l"
  "next_wid (give_back u l) = next_wid l" "next_wid (mark_released sid l) = next_wid l"
  "slots (give_back u l) = slots l" "deliveries (give_back u l) = deliveries l"
  "acquiring (give_back u l) = acquiring l" "held (give_back u l) = held l"
  "waiters (mark_released sid l) = waiters l" "futures (mark_released sid l) = futures l"
  "deliveries (mark_released sid l) = deliveries l" "acquiring (mark_released sid l) = acquiring l"
  "held (mark_released sid l) = held l" "total_cap (mark_released sid l) = total_cap l"
  "in_flight (mark_released sid l) = in_flight l"
  "slots (mark_released sid l) = (slots l)[sid := (slots l ! sid)\<lparr>released := True\<rparr>]"
  by (simp_all add: give_back_def mark_released_def Let_def)

text \<open>The one lemma every release goes through: \<open>sid\<close> may already be nobody's.\<close>

lemma give_back_base:
  assumes b: "base_inv {sid} l" and i: "sid < length (slots l)" and r: "\<not> released (slots l ! sid)"
  shows "base_inv {} (give_back (slot_user (slots l ! sid)) (mark_released sid l))" (is "base_inv {} ?m")
proof -
  have "counts_ok ?m"
    using b i r by (intro counts_give_back) (auto simp: base_inv_def)
  moreover have "wiring_ok ?m"
    using b by (simp add: base_inv_def wiring_ok_def)
  moreover have "no_leak_but {} ?m"
    using b i by (auto simp: base_inv_def no_leak_but_def owned_def nth_list_update split: if_splits)
  ultimately show ?thesis by (simp add: base_inv_def)
qed

lemma release_slot_inv:
  assumes b: "base_inv {sid} l" and i: "sid < length (slots l)"
    and wc: "released (slots l ! sid) \<Longrightarrow> work_conserving l"
  shows "limiter_inv (release_slot sid l)"
proof (cases "released (slots l ! sid)")
  case True
  with b wc show ?thesis
    by (auto simp: release_slot_def limiter_inv_def base_inv_def no_leak_but_def)
next
  case False
  with grant_waiters_inv [OF give_back_base [OF b i]] show ?thesis
    by (simp add: release_slot_def release_user_def limiter_inv_def)
qed

lemma blocked_frame [simp]:
  "blocked (l\<lparr>held := h\<rparr>) = blocked l" "blocked (l\<lparr>acquiring := a\<rparr>) = blocked l"
  "blocked (l\<lparr>futures := f\<rparr>) = blocked l" "blocked (l\<lparr>deliveries := d\<rparr>) = blocked l"
  "blocked (l\<lparr>waiters := w\<rparr>) = blocked l"
  by (auto simp: blocked_def user_count_def fun_eq_iff)

lemma base_hold_slot:
  assumes "base_inv {} l"
  shows "base_inv {} (snd (take_slot l k)\<lparr>held := held l @ [length (slots l)]\<rparr>)" (is "base_inv {} ?l")
proof -
  have "counts_ok ?l"
    using assms counts_take [of l k] by (simp add: base_inv_def counts_ok_def)
  moreover have "wiring_ok ?l"
    using assms by (auto simp: base_inv_def wiring_ok_def less_Suc_eq)
  moreover have "no_leak_but {} ?l"
    using assms by (auto simp: base_inv_def no_leak_but_def owned_def nth_append less_Suc_eq)
  ultimately show ?thesis by (simp add: base_inv_def)
qed

lemma conserving_hold_slot:
  "work_conserving l \<Longrightarrow> work_conserving (snd (take_slot l k)\<lparr>held := h\<rparr>)"
  using blocked_take_mono by (fastforce simp: work_conserving_def)

lemma try_acquire_inv: "limiter_inv l \<Longrightarrow> limiter_inv (snd (try_acquire user l))"
  by (auto simp: try_acquire_def limiter_inv_def split_beta
      intro: base_hold_slot conserving_hold_slot split: option.splits)

lemma enqueue_inv:
  assumes inv: "limiter_inv l" and b: "blocked l k i \<noteq> None"
  shows "limiter_inv (snd (enqueue k i ticket now l))"
proof -
  let ?l = "snd (enqueue k i ticket now l)"
  have *: "counts_ok l" "wiring_ok l" "no_leak_but {} l" "work_conserving l"
    using inv by (simp_all add: limiter_inv_def base_inv_def)
  have bl: "blocked ?l = blocked l"
    by (intro ext) (simp add: blocked_def user_count_def enqueue_def Let_def)
  have "counts_ok ?l" using *(1) by (simp add: counts_ok_def enqueue_def Let_def)
  moreover have "wiring_ok ?l"
    using *(2) unfolding wiring_ok_def
    by (auto simp: enqueue_def Let_def less_Suc_eq)
  moreover have "no_leak_but {} ?l"
    unfolding no_leak_but_def
  proof (intro allI impI)
    fix sid assume "sid < length (slots ?l)" "\<not> released (slots ?l ! sid)" "sid \<notin> {}"
    then have o: "owned l sid" using *(3) by (simp add: no_leak_but_def enqueue_def Let_def)
    have "\<forall>wid \<in> set (acquiring l). wid < next_wid l" using *(2) by (simp add: wiring_ok_def)
    with o show "owned ?l sid"
      by (simp add: owned_def enqueue_def Let_def) (metis less_irrefl)
  qed
  moreover have "work_conserving ?l"
    using *(4) b unfolding work_conserving_def bl by (auto simp: enqueue_def Let_def)
  ultimately show ?thesis by (simp add: limiter_inv_def base_inv_def)
qed

lemma acquire_begin_inv: "limiter_inv l \<Longrightarrow> limiter_inv (snd (acquire_begin user ticket now l))"
  using enqueue_inv
  by (auto simp: acquire_begin_def limiter_inv_def split_beta
      intro: base_hold_slot conserving_hold_slot split: option.splits)

lemma conserving_drop: "work_conserving l \<Longrightarrow> work_conserving (leave wid (drop_waiter wid l))"
  by (simp add: work_conserving_def leave_def drop_waiter_def)

lemma leave_drop_simps [simp]:
  "futures (leave wid (drop_waiter wid l)) = futures l" "next_wid (leave wid (drop_waiter wid l)) = next_wid l"
  "slots (leave wid (drop_waiter wid l)) = slots l"
  "held (leave wid (drop_waiter wid l)) = held l"
  "deliveries (leave wid (drop_waiter wid l)) = deliveries l"
  "acquiring (leave wid (drop_waiter wid l)) = remove1 wid (acquiring l)"
  "waiters (leave wid (drop_waiter wid l)) = filter (\<lambda>w. w_id w \<noteq> wid) (waiters l)"
  "in_flight (leave wid (drop_waiter wid l)) = in_flight l"
  "total_cap (leave wid (drop_waiter wid l)) = total_cap l"
  "per_user_cap (leave wid (drop_waiter wid l)) = per_user_cap l"
  "by_user (leave wid (drop_waiter wid l)) = by_user l"
  by (simp_all add: leave_def drop_waiter_def)

lemma finish_cancel_inv:
  assumes inv: "limiter_inv l" and w: "wid \<in> set (acquiring l)" and p: "\<forall>sid. futures l wid \<noteq> Granted sid"
  shows "limiter_inv (cancel_future wid (leave wid (drop_waiter wid l)))" (is "limiter_inv ?l")
proof -
  have *: "counts_ok l" "wiring_ok l" "no_leak_but {} l" "work_conserving l"
    using inv by (simp_all add: limiter_inv_def base_inv_def)
  have da: "distinct (acquiring l)" using *(2) by (simp add: wiring_ok_def)
  have "counts_ok ?l" using *(1) by (simp add: counts_ok_def cancel_future_def)
  moreover have "wiring_ok ?l"
    using *(2) unfolding wiring_ok_def
    by (simp add: cancel_future_def distinct_map_filter set_remove1_eq)
  moreover have "no_leak_but {} ?l"
    unfolding no_leak_but_def
  proof (intro allI impI)
    fix sid assume "sid < length (slots ?l)" "\<not> released (slots ?l ! sid)" "sid \<notin> {}"
    then have "owned l sid" using *(3) by (simp add: no_leak_but_def cancel_future_def)
    then show "owned ?l sid"
      using p da by (auto simp: owned_def cancel_future_def set_remove1_eq)
  qed
  moreover have "work_conserving ?l"
    using conserving_drop [OF *(4), of wid] by (simp add: work_conserving_def cancel_future_def)
  ultimately show ?thesis by (simp add: limiter_inv_def base_inv_def)
qed

lemma finish_granted_base:
  assumes inv: "limiter_inv l" and g: "futures l wid = Granted sid"
  shows "base_inv {sid} (leave wid (drop_waiter wid l))" (is "base_inv {sid} ?l")
proof -
  have *: "counts_ok l" "wiring_ok l" "no_leak_but {} l"
    using inv by (simp_all add: limiter_inv_def base_inv_def)
  have da: "distinct (acquiring l)" using *(2) by (simp add: wiring_ok_def)
  have "counts_ok ?l" using *(1) by (simp add: counts_ok_def)
  moreover have "wiring_ok ?l"
    using *(2) g unfolding wiring_ok_def
    by (simp add: distinct_map_filter set_remove1_eq) auto
  moreover have "no_leak_but {sid} ?l"
    unfolding no_leak_but_def
  proof (intro allI impI)
    fix sd assume "sd < length (slots ?l)" "\<not> released (slots ?l ! sd)" "sd \<notin> {sid}"
    then have "owned l sd" "sd \<noteq> sid" using *(3) by (simp_all add: no_leak_but_def)
    then show "owned ?l sd"
      using g da by (auto simp: owned_def set_remove1_eq)
  qed
  ultimately show ?thesis by (simp add: base_inv_def)
qed

lemma base_give_held:
  assumes "base_inv {sid} l" "sid < length (slots l)"
  shows "base_inv {} (l\<lparr>held := held l @ [sid]\<rparr>)"
  using assms by (auto simp: base_inv_def counts_ok_def wiring_ok_def no_leak_but_def owned_def)

lemma cancelled_update_id: "futures l wid = Cancelled \<Longrightarrow> cancel_future wid l = l"
  by (simp add: cancel_future_def fun_upd_idem)

lemma acquire_finish_inv:
  assumes inv: "limiter_inv l" and w: "wid \<in> set (acquiring l)"
  shows "limiter_inv (snd (acquire_finish wid wake l))"
proof (cases "futures l wid")
  case Pending
  with finish_cancel_inv [OF inv w] show ?thesis by (simp add: acquire_finish_def Let_def)
next
  case Cancelled
  with finish_cancel_inv [OF inv w] cancelled_update_id [of "leave wid (drop_waiter wid l)" wid]
  show ?thesis by (simp add: acquire_finish_def Let_def)
next
  case (Granted sid)
  have sid: "sid < length (slots l)"
    using inv w Granted by (auto simp: limiter_inv_def base_inv_def wiring_ok_def)
  have wc: "work_conserving (leave wid (drop_waiter wid l))"
    using inv by (simp add: limiter_inv_def conserving_drop)
  note b = finish_granted_base [OF inv Granted]
  show ?thesis
  proof (cases "wake = Woke")
    case True
    have "work_conserving (leave wid (drop_waiter wid l)\<lparr>held := held l @ [sid]\<rparr>)"
      using wc by (simp add: work_conserving_def)
    with True Granted base_give_held [OF b] sid show ?thesis
      by (simp add: acquire_finish_def limiter_inv_def)
  next
    case False
    with Granted release_slot_inv [OF b] sid wc show ?thesis by (simp add: acquire_finish_def)
  qed
qed

lemma wiring_deliveries:
  assumes "wiring_ok l" and sub: "set ds \<subseteq> set (deliveries l)"
  shows "wiring_ok (l\<lparr>deliveries := ds\<rparr>)"
proof -
  have "x \<notin> fst ` set ds" if "x \<notin> fst ` set (deliveries l)" for x using sub that by blast
  moreover have "d \<in> set (deliveries l)" if "d \<in> set ds" for d using sub that by blast
  ultimately show ?thesis using assms(1) unfolding wiring_ok_def by simp
qed

lemma deliver_inv:
  assumes inv: "limiter_inv l" and d: "(wid, sid) \<in> set (deliveries l)"
  shows "limiter_inv (deliver wid sid l)"
proof -
  let ?l = "l\<lparr>deliveries := remove1 (wid, sid) (deliveries l)\<rparr>"
  have *: "counts_ok l" "wiring_ok l" "no_leak_but {} l" "work_conserving l"
    using inv by (simp_all add: limiter_inv_def base_inv_def)
  have w: "wid < next_wid l" and s: "sid < length (slots l)"
    using *(2) d by (auto simp: wiring_ok_def)
  have keep: "x \<in> snd ` set (remove1 (wid, sid) (deliveries l))"
    if "x \<in> snd ` set (deliveries l)" "x \<noteq> sid" for x
  proof -
    from that(1) obtain e where e: "e \<in> set (deliveries l)" "x = snd e" by blast
    with that(2) have "e \<noteq> (wid, sid)" by auto
    with e show ?thesis by simp
  qed
  have b: "base_inv {sid} ?l"
    unfolding base_inv_def
  proof (intro conjI)
    show "counts_ok ?l" using *(1) by (simp add: counts_ok_def)
    show "wiring_ok ?l" using *(2) set_remove1_subset by (rule wiring_deliveries)
    show "no_leak_but {sid} ?l" using *(3) keep by (simp add: no_leak_but_def owned_def) blast
  qed
  have wc: "work_conserving ?l" using *(4) by (simp add: work_conserving_def)
  show ?thesis
  proof (cases "fut_done l wid")
    case True
    then show ?thesis
      using release_slot_inv [OF b] s wc by (simp add: deliver_def resolve_waiter_def fut_done_def)
  next
    case False
    let ?m = "?l\<lparr>futures := (futures l)(wid := Granted sid)\<rparr>"
    have p: "futures l wid = Pending" and a: "wid \<in> set (acquiring l)"
      using False w *(2) by (auto simp: fut_done_def wiring_ok_def)
    have wn: "w_id v \<noteq> wid" if "v \<in> set (waiters l)" for v
    proof -
      have "w_id v \<notin> fst ` set (deliveries l)" using that *(2) by (simp add: wiring_ok_def)
      moreover have "wid \<in> fst ` set (deliveries l)" using d by force
      ultimately show ?thesis by metis
    qed
    have "counts_ok ?m" using *(1) by (simp add: counts_ok_def)
    moreover have "wiring_ok ?m"
    proof -
      have "wiring_ok ?l" using b by (simp add: base_inv_def)
      with wn s show ?thesis unfolding wiring_ok_def by simp
    qed
    moreover have "no_leak_but {} ?m"
      unfolding no_leak_but_def
    proof (intro allI impI)
      fix sd assume "sd < length (slots ?m)" "\<not> released (slots ?m ! sd)" "sd \<notin> {}"
      then have o: "sd = sid \<or> owned ?l sd" using b by (auto simp: base_inv_def no_leak_but_def)
      show "owned ?m sd"
      proof (cases "sd = sid")
        case True
        with a w show ?thesis by (auto simp: owned_def)
      next
        case False
        with o have "owned ?l sd" by simp
        moreover have "futures ?m x = Granted sd" if "futures ?l x = Granted sd" for x
          using that p by auto
        ultimately show ?thesis unfolding owned_def
          by (simp del: fun_upd_apply) blast
      qed
    qed
    moreover have "work_conserving ?m" using wc by (simp add: work_conserving_def)
    ultimately show ?thesis
      using False by (simp add: deliver_def resolve_waiter_def fut_done_def limiter_inv_def base_inv_def)
  qed
qed

lemma configure_inv:
  assumes "limiter_inv l"
  shows "limiter_inv (configure tot per_user timeout qmax l)"
proof -
  let ?l = "l\<lparr>total_cap := set_opt (max 0) tot (total_cap l),
    per_user_cap := set_opt (max 0) per_user (per_user_cap l),
    queue_timeout := set_opt (max 0) timeout (queue_timeout l),
    queue_max := set_opt (max 0) qmax (queue_max l)\<rparr>"
  have "base_inv {} ?l"
    using assms by (simp add: limiter_inv_def base_inv_def counts_ok_def wiring_ok_def
        no_leak_but_def owned_def)
  then show ?thesis using grant_waiters_inv by (simp add: configure_def limiter_inv_def)
qed

lemma release_held_inv:
  assumes "limiter_inv l" "sid < length (slots l)"
  shows "limiter_inv (release_slot sid l)"
  using assms by (intro release_slot_inv) (auto simp: limiter_inv_def base_inv_def no_leak_but_def)

lemma turn_step_inv: "turn_step l l' \<Longrightarrow> limiter_inv l \<Longrightarrow> limiter_inv l'"
proof (induction rule: turn_step.induct)
  case (step_release sid l)
  then have "sid < length (slots l)" by (simp add: limiter_inv_def base_inv_def wiring_ok_def)
  with step_release show ?case by (intro release_held_inv)
qed (simp_all add: try_acquire_inv acquire_begin_inv acquire_finish_inv deliver_inv)

interpretation turns: machine fresh_limiter limiter_step limiter_inv
proof unfold_locales
  show "limiter_inv l" if "fresh_limiter l" for l
    using that by cases (simp add: limiter_inv_def base_inv_def counts_ok_def wiring_ok_def
        no_leak_but_def work_conserving_def new_limiter_def)
  show "limiter_inv l'" if "limiter_inv l" "limiter_step l l'" for l l'
    using that(2,1) by cases (auto intro: turn_step_inv configure_inv)
qed

section \<open>Caps\<close>

lemma grant_loop_cap:
  "0 < total_cap l \<Longrightarrow> in_flight l \<le> total_cap l \<Longrightarrow> in_flight (grant_loop ws l) \<le> total_cap l"
proof (induction ws arbitrary: l)
  case (Cons w ws)
  show ?case
  proof (cases "total_cap l \<le> in_flight l")
    case False
    with Cons.prems have "in_flight (grant_loop ws (grant_one w l)) \<le> total_cap l"
      using Cons.IH [of "grant_one w l"] by simp
    with Cons False show ?thesis by simp
  qed (use Cons.prems in simp)
qed simp

lemma grant_loop_caps [simp]:
  "total_cap (grant_loop ws l) = total_cap l" "per_user_cap (grant_loop ws l) = per_user_cap l"
  by (induction ws l rule: grant_loop.induct) simp_all

lemma grant_waiters_caps [simp]:
  "total_cap (grant_waiters l) = total_cap l" "per_user_cap (grant_waiters l) = per_user_cap l"
  by (simp_all add: grant_waiters_def)

lemma give_back_le: "in_flight (give_back u l) \<le> in_flight l"
  by (simp add: give_back_def Let_def)

definition within_cap :: "int \<Rightarrow> limiter \<Rightarrow> bool" where
  "within_cap n l \<longleftrightarrow> total_cap l = n \<and> in_flight l \<le> n"

lemma release_slot_cap: "0 < n \<Longrightarrow> within_cap n l \<Longrightarrow> within_cap n (release_slot sid l)"
  using give_back_le [of "slot_user (slots l ! sid)" "mark_released sid l"]
    grant_loop_cap [of "give_back (slot_user (slots l ! sid)) (mark_released sid l)"]
  by (auto simp: within_cap_def release_slot_def release_user_def grant_waiters_def)

lemma within_cap_frame [simp]:
  "within_cap n (l\<lparr>held := h\<rparr>) = within_cap n l" "within_cap n (l\<lparr>deliveries := d\<rparr>) = within_cap n l"
  "within_cap n (l\<lparr>futures := f\<rparr>) = within_cap n l" "within_cap n (leave wid (drop_waiter wid l)) = within_cap n l"
  "within_cap n (cancel_future wid l) = within_cap n l"
  by (simp_all add: within_cap_def cancel_future_def)

lemma take_slot_cap:
  "0 < n \<Longrightarrow> within_cap n l \<Longrightarrow> blocked l k i = None \<Longrightarrow> within_cap n (snd (take_slot l k))"
  by (auto simp: within_cap_def blocked_def split: if_splits)

lemma turn_step_cap: "turn_step l l' \<Longrightarrow> 0 < n \<Longrightarrow> within_cap n l \<Longrightarrow> within_cap n l'"
proof (induction rule: turn_step.induct)
  case (step_try l user)
  then show ?case
    by (auto simp: try_acquire_def split_beta take_slot_cap split: option.splits)
next
  case (step_begin l user ticket now)
  then show ?case
    by (auto simp: acquire_begin_def split_beta take_slot_cap enqueue_def Let_def within_cap_def
        split: option.splits dest: take_slot_cap)
next
  case (step_finish wid l wake)
  then show ?case
    by (auto simp: acquire_finish_def Let_def release_slot_cap split: fut.splits)
next
  case (step_deliver wid sid l)
  then show ?case by (auto simp: deliver_def resolve_waiter_def release_slot_cap)
next
  case (step_release sid l)
  then show ?case by (simp add: release_slot_cap)
qed

section \<open>Queue order\<close>

lemma grant_loop_append: "grant_loop (ws @ vs) l = grant_loop vs (grant_loop ws l)"
proof (induction ws arbitrary: l)
  case (Cons w ws)
  have "grant_loop vs l = l" if "0 < total_cap l \<and> total_cap l \<le> in_flight l"
    using that by (cases vs) auto
  with Cons show ?case by auto
qed simp

lemma grant_loop_waiters_sub: "set (waiters (grant_loop ws l)) \<subseteq> set (waiters l)"
proof (induction ws l rule: grant_loop.induct)
  case (2 w ws l)
  then show ?case
    using set_remove1_subset [of w "waiters l"] by (auto dest: subsetD)
qed simp

lemma grant_loop_waiters_keep: "w \<in> set (waiters l) \<Longrightarrow> w \<notin> set ws \<Longrightarrow> w \<in> set (waiters (grant_loop ws l))"
  by (induction ws l rule: grant_loop.induct) auto

lemma grant_one_distinct: "distinct (waiters l) \<Longrightarrow> distinct (waiters (grant_one w l))"
  by simp

lemma grant_loop_distinct: "distinct (waiters l) \<Longrightarrow> distinct (waiters (grant_loop ws l))"
  by (induction ws l rule: grant_loop.induct) auto

lemma user_count_grant_mono: "user_count l u \<le> user_count (grant_one w l) u"
  using user_count_take [of l "w_key w" u] by (simp add: user_count_def grant_one_by_user)

lemma user_count_loop_mono: "user_count l u \<le> user_count (grant_loop ws l) u"
proof (induction ws l rule: grant_loop.induct)
  case (2 w ws l)
  then show ?case using user_count_grant_mono [of l u w] by (auto intro: order_trans)
qed simp

lemma grant_loop_skip:
  assumes d: "distinct (waiters l)" and v: "v \<in> set (waiters (grant_loop (v # ws) l))"
    and nd: "\<not> fut_done l (w_id v)"
    and w: "w \<in> set (waiters l)" "w \<notin> set (waiters (grant_loop (v # ws) l))"
  shows "w_identified v \<and> 0 < per_user_cap l \<and> per_user_cap l \<le> user_count (grant_loop (v # ws) l) (w_key v)"
proof -
  have nf: "\<not> (0 < total_cap l \<and> total_cap l \<le> in_flight l)" using w by auto
  have "blocked l (w_key v) (w_identified v) \<noteq> None"
  proof
    assume "blocked l (w_key v) (w_identified v) = None"
    with nf nd have "grant_loop (v # ws) l = grant_loop ws (grant_one v l)" by auto
    with v have "v \<in> set (remove1 v (waiters l))"
      using grant_loop_waiters_sub [of ws "grant_one v l"] by auto
    with d show False by simp
  qed
  with nf have b: "w_identified v" "0 < per_user_cap l" "per_user_cap l \<le> user_count l (w_key v)"
    by (auto simp: blocked_def split: if_splits)
  then show ?thesis using user_count_loop_mono [of l "w_key v" "v # ws"] by linarith
qed

lemma futures_grant_loop [simp]: "futures (grant_loop ws l) = futures l"
  by (induction ws l rule: grant_loop.induct) simp_all

section \<open>Properties\<close>

text \<open>
  Slot accounting: in every state any interleaving of admissions, waits, wake-ups,
  deliveries, releases and limit changes can reach, the in-flight counter is the number of
  slots not given back, each user's counter is that user's share of them, and every slot not
  given back still has somebody who can give it back (a caller, a scheduled delivery or a
  woken waiter): a grant that races a timeout or a disconnect is never leaked.
\<close>

theorem turn_slots_accounted:
  assumes "fresh_limiter l0" and "limiter_step\<^sup>*\<^sup>* l0 l"
  shows "in_flight l = int (count_if (\<lambda>s. \<not> released s) (slots l)) \<and>
    user_count l u = int (count_if (live u) (slots l)) \<and>
    (sid < length (slots l) \<and> \<not> released (slots l ! sid) \<longrightarrow> owned l sid)"
proof -
  have "limiter_inv l" using assms by (rule turns.reachable_inv)
  then show ?thesis
    by (auto simp: limiter_inv_def base_inv_def user_count_live no_leak_but_def)
       (simp add: counts_ok_def)
qed

definition demo_start :: limiter where
  "demo_start = new_limiter 1 1 5 2"

definition demo_full :: limiter where
  "demo_full = snd (acquire_begin (Some ''b'') None 0 (snd (try_acquire (Some ''a'') demo_start)))"

definition demo_granted :: limiter where
  "demo_granted = snd (acquire_finish 0 Abort_done (release_slot 0 demo_full))"

lemmas demo_defs = demo_start_def demo_full_def demo_granted_def new_limiter_def try_acquire_def
  acquire_begin_def enqueue_def take_slot_def blocked_def key_of_def user_count_def
  release_slot_def release_user_def give_back_def mark_released_def grant_waiters_def
  grant_one_def fut_done_def acquire_finish_def leave_def drop_waiter_def cancel_future_def
  anonymous_def dput_Cons ddel_Cons dget_Cons

lemma demo_reachable:
  "fresh_limiter demo_start" "turn_step\<^sup>*\<^sup>* demo_start demo_full" "limiter_step\<^sup>*\<^sup>* demo_start demo_granted"
proof -
  show "fresh_limiter demo_start" by (simp add: demo_start_def fresh_limiter.intros)
  show full: "turn_step\<^sup>*\<^sup>* demo_start demo_full"
    unfolding demo_full_def
    by (rule rtranclp.rtrancl_into_rtrancl [OF r_into_rtranclp]) (rule step_try, rule step_begin)
  have "limiter_step\<^sup>*\<^sup>* demo_start demo_full"
    using full by (induction rule: rtranclp_induct) (auto intro: step_turn rtranclp.rtrancl_into_rtrancl)
  moreover have "turn_step demo_full (release_slot 0 demo_full)"
    by (rule step_release) (simp add: demo_defs)
  moreover have "turn_step (release_slot 0 demo_full) demo_granted"
    unfolding demo_granted_def by (rule step_finish) (simp add: demo_defs)
  ultimately show "limiter_step\<^sup>*\<^sup>* demo_start demo_granted"
    by (meson rtranclp.rtrancl_into_rtrancl step_turn)
qed

theorem turn_slots_accounted_witness:
  "in_flight demo_granted = 1 \<and> deliveries demo_granted = [(0, 1)] \<and> owned demo_granted 1"
proof -
  have "in_flight demo_granted = 1" "deliveries demo_granted = [(0, 1)]"
    "length (slots demo_granted) = 2" "\<not> released (slots demo_granted ! 1)"
    by (simp_all add: demo_defs)
  then show ?thesis
    using turn_slots_accounted [OF demo_reachable(1,3), of "''b''" 1] by simp
qed

text \<open>
  The global cap: as long as the limits are not changed, no interleaving of operations
  ever has more than \<open>MAX_CONCURRENT_TURNS\<close> turns in flight.
\<close>

theorem turn_cap_respected:
  assumes "0 < n" and "turn_step\<^sup>*\<^sup>* (new_limiter n per_user timeout qmax) l"
  shows "in_flight l \<le> n"
proof -
  have "within_cap n (new_limiter n per_user timeout qmax)"
    using assms(1) by (simp add: within_cap_def new_limiter_def)
  with assms(2) have "within_cap n l"
    by (induction rule: rtranclp_induct) (auto intro: turn_step_cap [OF _ assms(1)])
  then show ?thesis by (simp add: within_cap_def)
qed

theorem turn_cap_respected_witness: "in_flight demo_full \<le> 1 \<and> length (waiters demo_full) = 1"
proof -
  have "turn_step\<^sup>*\<^sup>* (new_limiter 1 1 5 2) demo_full"
    using demo_reachable(2) by (simp add: demo_start_def)
  then have "in_flight demo_full \<le> 1" by (intro turn_cap_respected) auto
  moreover have "length (waiters demo_full) = 1" by (simp add: demo_defs)
  ultimately show ?thesis ..
qed

text \<open>
  No turn waits for nothing: whenever the lock is free, every turn in the queue is stopped
  by a cap at this moment, so a waiter that could take a slot has it already and an arrival
  that is admitted never jumps ahead of one.
\<close>

theorem queue_work_conserving:
  assumes "fresh_limiter l0" and "limiter_step\<^sup>*\<^sup>* l0 l" and "w \<in> set (waiters l)"
  shows "blocked l (w_key w) (w_identified w) \<noteq> None"
  using turns.reachable_inv [OF assms(1,2)] assms(3)
  by (simp add: limiter_inv_def work_conserving_def)

theorem queue_work_conserving_witness:
  "\<exists>w. waiters demo_full = [w] \<and> blocked demo_full (w_key w) (w_identified w) \<noteq> None"
proof -
  obtain w where w: "waiters demo_full = [w]" by (simp add: demo_defs)
  have "limiter_step\<^sup>*\<^sup>* demo_start demo_full"
    using demo_reachable(2)
    by (induction rule: rtranclp_induct) (auto intro: step_turn rtranclp.rtrancl_into_rtrancl)
  with w show ?thesis using queue_work_conserving [OF demo_reachable(1), of demo_full w] by simp
qed

text \<open>
  Queue order: when a turn ends and its slot is handed out, a turn that stays queued while
  a later arrival is admitted is an identified one stopped by its own per-user cap; in every
  other case the oldest waiter goes first.
\<close>

theorem grant_order_fifo:
  assumes inv: "limiter_inv l" and sid: "sid < length (slots l)" "\<not> released (slots l ! sid)"
    and q: "waiters l = xs @ v # ys" and w: "w \<in> set ys"
    and stays: "v \<in> set (waiters (release_slot sid l))"
    and goes: "w \<notin> set (waiters (release_slot sid l))"
  shows "w_identified v \<and> 0 < per_user_cap l \<and> per_user_cap l \<le> user_count (release_slot sid l) (w_key v)"
proof -
  let ?g = "give_back (slot_user (slots l ! sid)) (mark_released sid l)"
  let ?m = "grant_loop xs ?g"
  have b: "base_inv {} ?g"
    using inv sid by (intro give_back_base) (auto simp: limiter_inv_def base_inv_def no_leak_but_def)
  have d: "distinct (waiters ?g)" using b by (simp add: base_inv_def wiring_ok_def distinct_map)
  have g: "release_slot sid l = grant_loop (v # ys) ?m"
    using sid q by (simp add: release_slot_def release_user_def grant_waiters_def grant_loop_append)
  have "w \<in> set (waiters ?m)"
    using d w q by (intro grant_loop_waiters_keep) auto
  moreover have "\<not> fut_done ?m (w_id v)"
    using waiter_not_done [OF b, of v] q by (simp add: fut_done_def)
  moreover have "per_user_cap ?m = per_user_cap l" by (simp add: mark_released_def)
  ultimately show ?thesis
    using grant_loop_skip [of ?m v ys w] d stays goes grant_loop_distinct g by simp
qed

definition demo_skip :: limiter where
  "demo_skip = snd (acquire_begin (Some ''c'') None 1 (snd (acquire_begin (Some ''a'') None 0
     (snd (try_acquire (Some ''b'') (snd (try_acquire (Some ''a'') (new_limiter 2 1 5 9))))))))"

theorem grant_order_fifo_witness:
  "\<exists>v w. waiters demo_skip = [v, w] \<and> waiters (release_slot 1 demo_skip) = [v] \<and>
     w_identified v \<and> 1 \<le> user_count (release_slot 1 demo_skip) (w_key v)"
proof -
  have "limiter_inv (new_limiter 2 1 5 9)"
    by (rule turns.start_inv) (rule fresh_limiter.intros)
  then have inv: "limiter_inv demo_skip"
    unfolding demo_skip_def by (intro acquire_begin_inv try_acquire_inv)
  obtain v w where vw: "waiters demo_skip = [v, w]" "waiters (release_slot 1 demo_skip) = [v]"
    "v \<noteq> w" "per_user_cap demo_skip = 1" "1 < length (slots demo_skip)" "\<not> released (slots demo_skip ! 1)"
    by (simp add: demo_skip_def demo_defs)
  then show ?thesis
    using grant_order_fifo [OF inv, of 1 "[]" v "[w]" w] by simp
qed

end
