(* ===== verification/OwnerLocks.thy ===== *)
theory OwnerLocks
  imports Prelude
begin

text \<open>
  Which gateway process may run a session, \<open>src/src/handoff/owners.py\<close>: the process-local
  table \<open>OwnerLocks._held\<close> (several session objects of one process share a lock), the
  lock-file protocol below it (open, \<open>flock\<close>, compare inodes, unlink before unlocking), as a
  step relation in which any number of processes and probing readers interleave at every
  system call and may die at any point, and \<open>SessionLock\<close>, the per-session lock a hand-off
  poisons.
\<close>

section \<open>The process-local table\<close>

record owner_table =
  ow_enabled :: bool
  ow_held :: "(string, nat list) dict"

datatype owner_error = Invalid_session_id | Lock_kept_being_replaced

datatype flock_answer = Won | Lost | Gave_up

definition safe_name :: "string \<Rightarrow> owner_error + string" where
  "safe_name sid =
     (if sid = [] \<or> CHR ''/'' \<in> set sid \<or> hd sid = CHR ''.'' then Inl Invalid_session_id
      else Inr sid)"

text \<open>
  \<open>OwnerLocks.acquire\<close>; \<open>answer\<close> is how the lock-file protocol below ends for this name, asked
  only when this process does not hold it.  A set of tokens is a list without repetition.
\<close>

definition add_token :: "nat \<Rightarrow> nat list \<Rightarrow> nat list" where
  "add_token t ts = (if t \<in> set ts then ts else ts @ [t])"

definition owner_acquire ::
  "(string \<Rightarrow> flock_answer) \<Rightarrow> string \<Rightarrow> nat \<Rightarrow> owner_table \<Rightarrow> (owner_error + bool) \<times> owner_table" where
  "owner_acquire answer sid tok ol =
     (if \<not> ow_enabled ol then (Inr True, ol)
      else case safe_name sid of
        Inl e \<Rightarrow> (Inl e, ol)
      | Inr name \<Rightarrow>
          (case dget (ow_held ol) name of
             Some ts \<Rightarrow> (Inr True, ol\<lparr>ow_held := dput name (add_token tok ts) (ow_held ol)\<rparr>)
           | None \<Rightarrow>
               (case answer name of
                  Won \<Rightarrow> (Inr True, ol\<lparr>ow_held := dput name [tok] (ow_held ol)\<rparr>)
                | Lost \<Rightarrow> (Inr False, ol)
                | Gave_up \<Rightarrow> (Inl Lock_kept_being_replaced, ol))))"

definition owner_release :: "string \<Rightarrow> nat \<Rightarrow> owner_table \<Rightarrow> owner_table" where
  "owner_release sid tok ol =
     (if \<not> ow_enabled ol then ol
      else case dget (ow_held ol) sid of
        None \<Rightarrow> ol
      | Some ts \<Rightarrow>
          (let rest = filter (\<lambda>t. t \<noteq> tok) ts
           in if rest \<noteq> [] then ol\<lparr>ow_held := dput sid rest (ow_held ol)\<rparr>
              else ol\<lparr>ow_held := ddel sid (ow_held ol)\<rparr>))"

definition owner_holds :: "string \<Rightarrow> owner_table \<Rightarrow> bool" where
  "owner_holds sid ol \<longleftrightarrow> dget (ow_held ol) sid \<noteq> None"

definition token_holds :: "owner_table \<Rightarrow> string \<Rightarrow> nat \<Rightarrow> bool" where
  "token_holds ol sid tok \<longleftrightarrow> (\<exists>ts. dget (ow_held ol) sid = Some ts \<and> tok \<in> set ts)"

definition owner_wf :: "owner_table \<Rightarrow> bool" where
  "owner_wf ol \<longleftrightarrow> (\<forall>sid. dget (ow_held ol) sid \<noteq> Some [])"

section \<open>The interface the session manager relies on\<close>

text \<open>
  What a client may assume of an owner table: a granted acquisition is a hold of exactly that
  token, a release ends exactly that hold, and a name is held as long as some token holds it.
\<close>

locale token_lock =
  fixes acq :: "string \<Rightarrow> nat \<Rightarrow> 'l \<Rightarrow> ('e + bool) \<times> 'l"
    and rel :: "string \<Rightarrow> nat \<Rightarrow> 'l \<Rightarrow> 'l"
    and holds :: "'l \<Rightarrow> string \<Rightarrow> nat \<Rightarrow> bool"
    and name_held :: "string \<Rightarrow> 'l \<Rightarrow> bool"
    and active :: "'l \<Rightarrow> bool"
    and wf :: "'l \<Rightarrow> bool"
  assumes acq_granted:
      "active l \<Longrightarrow> acq s t l = (Inr True, l') \<Longrightarrow>
         holds l' s' t' \<longleftrightarrow> (s' = s \<and> t' = t) \<or> holds l s' t'"
    and acq_refused: "acq s t l = (r, l') \<Longrightarrow> r \<noteq> Inr True \<Longrightarrow> l' = l"
    and acq_inactive: "\<not> active l \<Longrightarrow> acq s t l = (Inr True, l)"
    and rel_holds: "active l \<Longrightarrow> holds (rel s t l) s' t' \<longleftrightarrow> holds l s' t' \<and> \<not> (s' = s \<and> t' = t)"
    and rel_inactive: "\<not> active l \<Longrightarrow> rel s t l = l"
    and held_iff: "wf l \<Longrightarrow> name_held s l \<longleftrightarrow> (\<exists>t. holds l s t)"
    and active_acq: "active (snd (acq s t l)) = active l"
    and active_rel: "active (rel s t l) = active l"
    and wf_acq: "wf l \<Longrightarrow> wf (snd (acq s t l))"
    and wf_rel: "wf l \<Longrightarrow> wf (rel s t l)"
begin

lemma released_not_held:
  "active l \<Longrightarrow> wf l \<Longrightarrow> (\<And>t'. holds l s t' \<Longrightarrow> t' = t) \<Longrightarrow> \<not> name_held s (rel s t l)"
  using held_iff [OF wf_rel] rel_holds by blast

lemma acquire_keeps_others: "active l \<Longrightarrow> holds l s' t' \<Longrightarrow> holds (snd (acq s t l)) s' t'"
  using acq_granted acq_refused by (metis prod.collapse)

lemma release_keeps_others:
  "active l \<Longrightarrow> holds l s' t' \<Longrightarrow> t' \<noteq> t \<Longrightarrow> holds (rel s t l) s' t'"
  using rel_holds by blast

lemma second_token_keeps_name:
  "active l \<Longrightarrow> wf l \<Longrightarrow> holds l s t' \<Longrightarrow> t' \<noteq> t \<Longrightarrow> name_held s (rel s t l)"
  using held_iff [OF wf_rel] rel_holds by blast

end

lemma set_add_token [simp]: "set (add_token t ts) = insert t (set ts)" "add_token t ts \<noteq> []"
  by (auto simp: add_token_def)

interpretation owner: token_lock "owner_acquire answer" owner_release token_holds owner_holds ow_enabled owner_wf
proof unfold_locales
  fix l s t l' s' t' r
  show "token_holds l' s' t' = ((s' = s \<and> t' = t) \<or> token_holds l s' t')"
    if "ow_enabled l" "owner_acquire answer s t l = (Inr True, l')"
    using that by (auto simp: owner_acquire_def token_holds_def dget_dput safe_name_def
        split: sum.splits option.splits flock_answer.splits if_splits)
  show "l' = l" if "owner_acquire answer s t l = (r, l')" "r \<noteq> Inr True"
    using that by (auto simp: owner_acquire_def split: sum.splits option.splits flock_answer.splits if_splits)
  show "owner_acquire answer s t l = (Inr True, l)" if "\<not> ow_enabled l"
    using that by (simp add: owner_acquire_def)
  show "token_holds (owner_release s t l) s' t' = (token_holds l s' t' \<and> \<not> (s' = s \<and> t' = t))" if "ow_enabled l"
    using that by (auto simp: owner_release_def token_holds_def dget_dput dget_ddel Let_def filter_empty_conv
        split: option.splits)
  show "owner_release s t l = l" if "\<not> ow_enabled l"
    using that by (simp add: owner_release_def)
  show "owner_holds s l = (\<exists>t. token_holds l s t)" if "owner_wf l"
    using that by (auto simp: owner_holds_def token_holds_def owner_wf_def) (metis last_in_set)
  show "ow_enabled (snd (owner_acquire answer s t l)) = ow_enabled l"
    by (simp add: owner_acquire_def split: sum.splits option.splits flock_answer.splits)
  show "ow_enabled (owner_release s t l) = ow_enabled l"
    by (simp add: owner_release_def Let_def split: option.splits)
  show "owner_wf (snd (owner_acquire answer s t l))" if "owner_wf l"
    using that by (auto simp: owner_acquire_def owner_wf_def dget_dput dget_ddel
        split: sum.splits option.splits flock_answer.splits)
  show "owner_wf (owner_release s t l)" if "owner_wf l"
    using that by (auto simp: owner_release_def owner_wf_def dget_dput dget_ddel Let_def split: option.splits)
qed

section \<open>The lock file of one session\<close>

text \<open>
  Several processes work on one path.  An inode number in use (linked or open) is not given
  to a new file; one that is not may be reused.  \<open>Opened i n\<close>: the file is open on inode \<open>i\<close>
  with \<open>n\<close> tries left after this one; \<open>Flocked\<close>: \<open>LOCK_EX\<close> taken; \<open>Checked\<close>: the path still
  names that inode; \<open>Holding\<close>: the owner's name is written and the entry is in \<open>_held\<close>;
  \<open>Unlinked\<close>: in \<open>release\<close>, between the unlink and the close.  \<open>probes\<close> are the shared locks
  that \<open>owner\<close> takes and drops again on its own descriptor.
\<close>

datatype pstate =
    Idle | Refused | Failed
  | Opening nat | Opened nat nat | Flocked nat nat | Checked nat | Holding nat | Unlinked nat

record lockfile =
  link :: "nat option"
  ex_lock :: "nat \<Rightarrow> nat option"
  probes :: "(nat \<times> nat) list"
  content :: "nat \<Rightarrow> string"
  proc :: "nat \<Rightarrow> pstate"

definition no_lockfile :: lockfile where
  "no_lockfile = \<lparr>link = None, ex_lock = (\<lambda>_. None), probes = [], content = (\<lambda>_. []), proc = (\<lambda>_. Idle)\<rparr>"

fun open_inode :: "pstate \<Rightarrow> nat option" where
  "open_inode (Opened i n) = Some i"
| "open_inode (Flocked i n) = Some i"
| "open_inode (Checked i) = Some i"
| "open_inode (Holding i) = Some i"
| "open_inode (Unlinked i) = Some i"
| "open_inode _ = None"

fun locked_inode :: "pstate \<Rightarrow> nat option" where
  "locked_inode (Flocked i n) = Some i"
| "locked_inode (Checked i) = Some i"
| "locked_inode (Holding i) = Some i"
| "locked_inode (Unlinked i) = Some i"
| "locked_inode _ = None"

fun owned_inode :: "pstate \<Rightarrow> nat option" where
  "owned_inode (Checked i) = Some i"
| "owned_inode (Holding i) = Some i"
| "owned_inode _ = None"

definition unused :: "nat \<Rightarrow> lockfile \<Rightarrow> bool" where
  "unused i f \<longleftrightarrow> link f \<noteq> Some i \<and> (\<forall>p. open_inode (proc f p) \<noteq> Some i) \<and> i \<notin> snd ` set (probes f)"

definition set_proc :: "nat \<Rightarrow> pstate \<Rightarrow> lockfile \<Rightarrow> lockfile" where
  "set_proc p st f = f\<lparr>proc := (proc f)(p := st)\<rparr>"

definition unlock :: "nat \<Rightarrow> lockfile \<Rightarrow> lockfile" where
  "unlock i f = f\<lparr>ex_lock := (ex_lock f)(i := None)\<rparr>"

definition free_inode :: "nat \<Rightarrow> lockfile \<Rightarrow> bool" where
  "free_inode i f \<longleftrightarrow> ex_lock f i = None \<and> i \<notin> snd ` set (probes f)"

text \<open>\<open>name p\<close> is the instance name process \<open>p\<close> writes.\<close>

inductive owner_step :: "(nat \<Rightarrow> string) \<Rightarrow> lockfile \<Rightarrow> lockfile \<Rightarrow> bool" for name where
  ow_start: "proc f p \<in> {Idle, Refused, Failed} \<Longrightarrow> owner_step name f (set_proc p (Opening 8) f)"
| ow_open_old: "proc f p = Opening (Suc n) \<Longrightarrow> link f = Some i \<Longrightarrow> owner_step name f (set_proc p (Opened i n) f)"
| ow_open_new: "proc f p = Opening (Suc n) \<Longrightarrow> link f = None \<Longrightarrow> unused i f \<Longrightarrow>
     owner_step name f (set_proc p (Opened i n) (f\<lparr>link := Some i, content := (content f)(i := [])\<rparr>))"
| ow_give_up: "proc f p = Opening 0 \<Longrightarrow> owner_step name f (set_proc p Failed f)"
| ow_flock: "proc f p = Opened i n \<Longrightarrow> free_inode i f \<Longrightarrow>
     owner_step name f (set_proc p (Flocked i n) (f\<lparr>ex_lock := (ex_lock f)(i := Some p)\<rparr>))"
| ow_refused: "proc f p = Opened i n \<Longrightarrow> \<not> free_inode i f \<Longrightarrow> owner_step name f (set_proc p Refused f)"
| ow_same: "proc f p = Flocked i n \<Longrightarrow> link f = Some i \<Longrightarrow> owner_step name f (set_proc p (Checked i) f)"
| ow_replaced: "proc f p = Flocked i n \<Longrightarrow> link f \<noteq> Some i \<Longrightarrow>
     owner_step name f (set_proc p (Opening n) (unlock i f))"
| ow_write: "proc f p = Checked i \<Longrightarrow>
     owner_step name f (set_proc p (Holding i) (f\<lparr>content := (content f)(i := name p)\<rparr>))"
| ow_unlink: "proc f p = Holding i \<Longrightarrow> owner_step name f (set_proc p (Unlinked i) (f\<lparr>link := None\<rparr>))"
| ow_close: "proc f p = Unlinked i \<Longrightarrow> owner_step name f (set_proc p Idle (unlock i f))"
| ow_probe: "link f = Some i \<Longrightarrow> ex_lock f i = None \<Longrightarrow>
     owner_step name f (f\<lparr>probes := (q, i) # probes f\<rparr>)"
| ow_probe_end: "owner_step name f (f\<lparr>probes := remove1 (q, i) (probes f)\<rparr>)"
| ow_die: "owner_step name f
     (set_proc p Idle
        (case locked_inode (proc f p) of None \<Rightarrow> f | Some i \<Rightarrow> unlock i f)
        \<lparr>probes := filter (\<lambda>(q, i). q \<noteq> p) (probes f)\<rparr>)"

definition lockfile_inv :: "(nat \<Rightarrow> string) \<Rightarrow> lockfile \<Rightarrow> bool" where
  "lockfile_inv name f \<longleftrightarrow>
     (\<forall>p i. ex_lock f i = Some p \<longleftrightarrow> locked_inode (proc f p) = Some i) \<and>
     (\<forall>p i. owned_inode (proc f p) = Some i \<longrightarrow> link f = Some i) \<and>
     (\<forall>p i. proc f p = Holding i \<longrightarrow> content f i = name p)"

lemma owned_locked: "owned_inode st = Some i \<Longrightarrow> locked_inode st = Some i"
  by (cases st) auto

lemma locked_open: "locked_inode st = Some i \<Longrightarrow> open_inode st = Some i"
  by (cases st) auto

lemma proc_set_proc [simp]:
  "proc (set_proc p st f) = (proc f)(p := st)" "link (set_proc p st f) = link f"
  "ex_lock (set_proc p st f) = ex_lock f" "probes (set_proc p st f) = probes f"
  "content (set_proc p st f) = content f"
  by (simp_all add: set_proc_def)

lemma unlock_simps [simp]:
  "ex_lock (unlock i f) = (ex_lock f)(i := None)" "link (unlock i f) = link f"
  "proc (unlock i f) = proc f" "probes (unlock i f) = probes f" "content (unlock i f) = content f"
  by (simp_all add: unlock_def)

lemma lockfile_invD:
  assumes "lockfile_inv name f"
  shows "ex_lock f i = Some p \<longleftrightarrow> locked_inode (proc f p) = Some i"
    and "owned_inode (proc f p) = Some i \<Longrightarrow> link f = Some i"
    and "proc f p = Holding i \<Longrightarrow> content f i = name p"
  using assms unfolding lockfile_inv_def by blast+

lemma lockfile_inv_quiet:
  assumes inv: "lockfile_inv name f" and lk: "locked_inode (proc f p) = None" "locked_inode st = None"
  shows "lockfile_inv name (set_proc p st f)"
proof -
  have ow: "owned_inode st = None" "st \<noteq> Holding i" for i
    using lk owned_locked [of st] by (cases st; auto)+
  show ?thesis
    unfolding lockfile_inv_def
  proof (intro conjI allI impI)
    fix q i
    show "ex_lock (set_proc p st f) i = Some q \<longleftrightarrow> locked_inode (proc (set_proc p st f) q) = Some i"
      using lockfile_invD(1) [OF inv, of i q] lk by auto
    show "link (set_proc p st f) = Some i" if "owned_inode (proc (set_proc p st f) q) = Some i"
      using that lockfile_invD(2) [OF inv, of q i] ow by (auto split: if_splits)
    show "content (set_proc p st f) i = name q" if "proc (set_proc p st f) q = Holding i"
      using that lockfile_invD(3) [OF inv, of q i] ow by (auto split: if_splits)
  qed
qed

lemma lockfile_inv_drop:
  assumes inv: "lockfile_inv name f" and lk: "locked_inode (proc f p) = Some i" "locked_inode st = None"
  shows "lockfile_inv name (set_proc p st (unlock i f))"
proof -
  have ow: "owned_inode st = None" "st \<noteq> Holding j" for j
    using lk owned_locked [of st] by (cases st; auto)+
  have me: "ex_lock f i = Some p" using lockfile_invD(1) [OF inv] lk by blast
  show ?thesis
    unfolding lockfile_inv_def
  proof (intro conjI allI impI)
    fix q j
    show "ex_lock (set_proc p st (unlock i f)) j = Some q \<longleftrightarrow>
        locked_inode (proc (set_proc p st (unlock i f)) q) = Some j"
      using lockfile_invD(1) [OF inv, of j q] lockfile_invD(1) [OF inv, of j p] lk me by auto
    show "link (set_proc p st (unlock i f)) = Some j"
      if "owned_inode (proc (set_proc p st (unlock i f)) q) = Some j"
      using that lockfile_invD(2) [OF inv, of q j] ow by (auto split: if_splits)
    show "content (set_proc p st (unlock i f)) j = name q"
      if "proc (set_proc p st (unlock i f)) q = Holding j"
      using that lockfile_invD(3) [OF inv, of q j] ow by (auto split: if_splits)
  qed
qed

lemma lockfile_inv_probes: "lockfile_inv name f \<Longrightarrow> lockfile_inv name (f\<lparr>probes := ps\<rparr>)"
  by (simp add: lockfile_inv_def)

lemma lockfile_inv_forward:
  assumes inv: "lockfile_inv name f" and lk: "locked_inode (proc f p) = Some i" "locked_inode st = Some i"
    and ow: "owned_inode st = Some i \<Longrightarrow> link f = Some i"
    and ct: "st = Holding i \<Longrightarrow> content f i = name p"
  shows "lockfile_inv name (set_proc p st f)"
  unfolding lockfile_inv_def
proof (intro conjI allI impI)
  fix q j
  show "ex_lock (set_proc p st f) j = Some q \<longleftrightarrow> locked_inode (proc (set_proc p st f) q) = Some j"
    using lockfile_invD(1) [OF inv, of j q] lk by auto
  show "link (set_proc p st f) = Some j" if "owned_inode (proc (set_proc p st f) q) = Some j"
    using that lockfile_invD(2) [OF inv, of q j] ow lk owned_locked [of st j] by (auto split: if_splits)
  show "content (set_proc p st f) j = name q" if "proc (set_proc p st f) q = Holding j"
    using that lockfile_invD(3) [OF inv, of q j] ct lk by (auto split: if_splits)
qed

lemma lockfile_inv_write:
  assumes inv: "lockfile_inv name f" and mine: "ex_lock f i = Some p"
  shows "lockfile_inv name (f\<lparr>content := (content f)(i := name p)\<rparr>)"
proof -
  have "q = p" if "proc f q = Holding i" for q
    using that mine lockfile_invD(1) [OF inv, of i q] by simp
  then show ?thesis using inv by (auto simp: lockfile_inv_def)
qed

lemma lockfile_inv_unlinked:
  assumes inv: "lockfile_inv name f" and alone: "\<And>q j. owned_inode (proc f q) \<noteq> Some j"
  shows "lockfile_inv name (f\<lparr>link := l\<rparr>)"
  using assms by (simp add: lockfile_inv_def)

lemma lockfile_inv_created:
  assumes inv: "lockfile_inv name f" and gone: "link f = None"
  shows "lockfile_inv name (f\<lparr>link := Some i, content := (content f)(i := [])\<rparr>)"
proof -
  have alone: "owned_inode (proc f q) \<noteq> Some j" for q j
    using lockfile_invD(2) [OF inv] gone by fastforce
  then have "proc f q \<noteq> Holding j" for q j by (metis owned_inode.simps(2))
  then show ?thesis using inv alone by (simp add: lockfile_inv_def)
qed

lemma lockfile_inv_taken:
  assumes inv: "lockfile_inv name f" and free: "ex_lock f i = None" and quiet: "locked_inode (proc f p) = None"
  shows "lockfile_inv name (set_proc p (Flocked i n) (f\<lparr>ex_lock := (ex_lock f)(i := Some p)\<rparr>))"
  unfolding lockfile_inv_def
proof (intro conjI allI impI)
  let ?g = "set_proc p (Flocked i n) (f\<lparr>ex_lock := (ex_lock f)(i := Some p)\<rparr>)"
  fix q j
  show "ex_lock ?g j = Some q \<longleftrightarrow> locked_inode (proc ?g q) = Some j"
    using lockfile_invD(1) [OF inv, of j q] lockfile_invD(1) [OF inv, of i q] free quiet by auto
  show "link ?g = Some j" if "owned_inode (proc ?g q) = Some j"
    using that lockfile_invD(2) [OF inv, of q j] by (auto split: if_splits)
  show "content ?g j = name q" if "proc ?g q = Holding j"
    using that lockfile_invD(3) [OF inv, of q j] by (auto split: if_splits)
qed

lemma lockfile_inv_removed:
  assumes inv: "lockfile_inv name f" and mine: "proc f p = Holding i"
  shows "lockfile_inv name (set_proc p (Unlinked i) (f\<lparr>link := None\<rparr>))"
  unfolding lockfile_inv_def
proof (intro conjI allI impI)
  let ?g = "set_proc p (Unlinked i) (f\<lparr>link := None\<rparr>)"
  have alone: "q = p" if "owned_inode (proc f q) = Some j" for q j
  proof -
    have "link f = Some j" using lockfile_invD(2) [OF inv that] .
    moreover have "link f = Some i" using lockfile_invD(2) [OF inv, of p i] mine by simp
    ultimately have "locked_inode (proc f q) = Some i" using owned_locked [OF that] by simp
    moreover have "locked_inode (proc f p) = Some i" using mine by simp
    ultimately show "q = p" using lockfile_invD(1) [OF inv] by (metis option.inject)
  qed
  fix q j
  show "ex_lock ?g j = Some q \<longleftrightarrow> locked_inode (proc ?g q) = Some j"
    using lockfile_invD(1) [OF inv, of j q] mine by auto
  show "link ?g = Some j" if "owned_inode (proc ?g q) = Some j"
    using that alone [of q j] by (auto split: if_splits)
  show "content ?g j = name q" if "proc ?g q = Holding j"
    using that lockfile_invD(3) [OF inv, of q j] by (auto split: if_splits)
qed

lemma lockfile_step_inv:
  assumes inv: "lockfile_inv name f" and st: "owner_step name f g"
  shows "lockfile_inv name g"
  using st
proof cases
  case (ow_start p)
  then show ?thesis using lockfile_inv_quiet [OF inv, of p] by auto
next
  case (ow_open_old p n i)
  then show ?thesis using lockfile_inv_quiet [OF inv, of p] by simp
next
  case (ow_open_new p n i)
  then show ?thesis
    using lockfile_inv_quiet [OF lockfile_inv_created [OF inv, of i], of p "Opened i n"] by simp
next
  case (ow_give_up p)
  then show ?thesis using lockfile_inv_quiet [OF inv, of p] by simp
next
  case (ow_flock p i n)
  then show ?thesis using lockfile_inv_taken [OF inv] by (simp add: free_inode_def)
next
  case (ow_refused p i n)
  then show ?thesis using lockfile_inv_quiet [OF inv, of p] by simp
next
  case (ow_same p i n)
  then show ?thesis using lockfile_inv_forward [OF inv, of p i "Checked i"] by simp
next
  case (ow_replaced p i n)
  then show ?thesis using lockfile_inv_drop [OF inv, of p i "Opening n"] by simp
next
  case (ow_write p i)
  then have "lockfile_inv name (f\<lparr>content := (content f)(i := name p)\<rparr>)"
    using lockfile_inv_write [OF inv, of i p] lockfile_invD(1) [OF inv, of i p] by simp
  from lockfile_inv_forward [OF this, of p i "Holding i"] show ?thesis
    using ow_write lockfile_invD(2) [OF inv, of p i] by simp
next
  case (ow_unlink p i)
  then show ?thesis using lockfile_inv_removed [OF inv] by simp
next
  case (ow_close p i)
  then show ?thesis using lockfile_inv_drop [OF inv, of p i Idle] by simp
next
  case (ow_probe i q)
  then show ?thesis using lockfile_inv_probes [OF inv] by simp
next
  case (ow_probe_end q i)
  then show ?thesis using lockfile_inv_probes [OF inv] by simp
next
  case (ow_die p)
  have "lockfile_inv name (set_proc p Idle
        (case locked_inode (proc f p) of None \<Rightarrow> f | Some i \<Rightarrow> unlock i f))"
    using lockfile_inv_quiet [OF inv, of p Idle] lockfile_inv_drop [OF inv, of p _ Idle]
    by (cases "locked_inode (proc f p)") simp_all
  then show ?thesis using ow_die lockfile_inv_probes by simp
qed

interpretation lockfiles: machine "\<lambda>f. f = no_lockfile" "owner_step name" "lockfile_inv name"
proof unfold_locales
  show "lockfile_inv name f" if "f = no_lockfile" for f
    using that by (simp add: lockfile_inv_def no_lockfile_def)
  show "lockfile_inv name g" if "lockfile_inv name f" "owner_step name f g" for f g
    using lockfile_step_inv [OF that] .
qed

lemma owner_step_reaches:
  "owner_step name f g \<Longrightarrow> (owner_step name)\<^sup>*\<^sup>* g h \<Longrightarrow> (owner_step name)\<^sup>*\<^sup>* f h"
  by (rule converse_rtranclp_into_rtranclp)

text \<open>An acquirer nobody disturbs wins: from a state with no lock and no probe left.\<close>

lemma undisturbed_open:
  assumes "proc f p = Opening (Suc n)" and "lockfile_inv name f" and "probes f = []"
    and "\<And>q. locked_inode (proc f q) = None" and fresh: "\<And>q. open_inode (proc f q) \<noteq> Some j"
  shows "\<exists>g i. owner_step name f g \<and> proc g p = Opened i n \<and> link g = Some i \<and>
           ex_lock g = ex_lock f \<and> probes g = []"
proof (cases "link f")
  case None
  then have "unused j f" using assms by (simp add: unused_def)
  from ow_open_new [OF assms(1) None this, of name] show ?thesis
    by (intro exI [of _ "set_proc p (Opened j n) (f\<lparr>link := Some j, content := (content f)(j := [])\<rparr>)"])
       (simp add: assms(3))
next
  case (Some i)
  from ow_open_old [OF assms(1) this, of name] Some show ?thesis
    by (intro exI [of _ "set_proc p (Opened i n) f"]) (simp add: assms(3))
qed

lemma undisturbed_win:
  assumes "proc f p = Opened i n" and "link f = Some i" and "ex_lock f i = None" and "probes f = []"
  shows "\<exists>g. (owner_step name)\<^sup>*\<^sup>* f g \<and> proc g p = Holding i"
proof -
  define a where "a = set_proc p (Flocked i n) (f\<lparr>ex_lock := (ex_lock f)(i := Some p)\<rparr>)"
  define b where "b = set_proc p (Checked i) a"
  define c where "c = set_proc p (Holding i) (b\<lparr>content := (content b)(i := name p)\<rparr>)"
  have "owner_step name f a"
    unfolding a_def by (rule ow_flock) (use assms in \<open>simp_all add: free_inode_def\<close>)
  moreover have "owner_step name a b"
    unfolding b_def by (rule ow_same [of _ _ _ n]) (use assms in \<open>simp_all add: a_def\<close>)
  moreover have "owner_step name b c"
    unfolding c_def by (rule ow_write) (simp add: b_def)
  moreover have "proc c p = Holding i" by (simp add: c_def)
  ultimately show ?thesis by (meson owner_step_reaches rtranclp.rtrancl_refl)
qed

section \<open>The properties of the lock file\<close>

text \<open>
  C32. One owner per session: however the processes' system calls interleave, with any of them
  dying anywhere and the path being unlinked and recreated, at most one process at a time is
  past the inode check of \<open>acquire\<close> and not yet in the unlink of \<open>release\<close>.
\<close>

theorem one_owner_per_session:
  assumes "(owner_step name)\<^sup>*\<^sup>* no_lockfile f"
    and "owned_inode (proc f p) = Some i" and "owned_inode (proc f q) = Some j"
  shows "p = q"
proof -
  have inv: "lockfile_inv name f" using lockfiles.reachable_inv [OF refl assms(1)] .
  have "i = j" using lockfile_invD(2) [OF inv assms(2)] lockfile_invD(2) [OF inv assms(3)] by simp
  then have "ex_lock f i = Some p" "ex_lock f i = Some q"
    using lockfile_invD(1) [OF inv] assms(2,3) owned_locked by blast+
  then show ?thesis by simp
qed

text \<open>
  The lock file names its owner: whoever opens the path while a process holds the session
  finds that process's instance name in it, on the inode that is locked.
\<close>

theorem lockfile_names_owner:
  assumes "(owner_step name)\<^sup>*\<^sup>* no_lockfile f" and "proc f p = Holding i"
  shows "link f = Some i \<and> ex_lock f i = Some p \<and> content f i = name p"
proof -
  have inv: "lockfile_inv name f" using lockfiles.reachable_inv [OF refl assms(1)] .
  show ?thesis
    using lockfile_invD(1) [OF inv, of i p] lockfile_invD(2) [OF inv, of p i]
      lockfile_invD(3) [OF inv assms(2)] assms(2) by simp
qed

text \<open>
  Takeover: once the process that held the session has died and no probe is running, a
  process that starts to acquire and is not disturbed gets the lock, whether the dead owner
  left its file behind or not.
\<close>

theorem session_taken_over:
  assumes "(owner_step name)\<^sup>*\<^sup>* no_lockfile f"
    and "proc f p \<in> {Idle, Refused, Failed}"
    and "\<And>q. locked_inode (proc f q) = None" and "probes f = []"
    and "\<And>q. open_inode (proc f q) \<noteq> Some j"
  shows "\<exists>g i. (owner_step name)\<^sup>*\<^sup>* f g \<and> proc g p = Holding i"
proof -
  have inv: "lockfile_inv name f" using lockfiles.reachable_inv [OF refl assms(1)] .
  have s1: "owner_step name f (set_proc p (Opening 8) f)" using ow_start [OF assms(2)] .
  let ?f = "set_proc p (Opening 8) f"
  have op: "proc ?f p = Opening (Suc 7)" by simp
  have lk: "locked_inode (proc ?f q) = None" for q using assms(3) by simp
  have fr: "open_inode (proc ?f q) \<noteq> Some j" for q using assms(5) by simp
  have pr: "probes ?f = []" using assms(4) by simp
  obtain g i where g: "owner_step name ?f g" "proc g p = Opened i 7" "link g = Some i"
      "ex_lock g = ex_lock ?f" "probes g = []"
    using undisturbed_open [OF op lockfile_step_inv [OF inv s1] pr lk fr] by blast
  have "ex_lock f i \<noteq> Some q" for q
    using lockfile_invD(1) [OF inv, of i q] assms(3) [of q] by simp
  then have "ex_lock g i = None" using g(4) by (cases "ex_lock f i") auto
  from undisturbed_win [OF g(2,3) this g(5), of name] obtain h where
    "(owner_step name)\<^sup>*\<^sup>* g h" "proc h p = Holding i" by blast
  with s1 g(1) show ?thesis by (meson owner_step_reaches)
qed

subsection \<open>A run: owners 0 and 1, an inquirer 2\<close>

definition demo_name :: "nat \<Rightarrow> string" where
  "demo_name p = (if p = 0 then ''blue'' else ''green'')"

definition owned_by_0 :: lockfile where
  "owned_by_0 = set_proc 0 (Holding 7)
     (no_lockfile\<lparr>link := Some 7, ex_lock := (\<lambda>_. None)(7 := Some 0), content := (\<lambda>_. [])(7 := ''blue''),
       proc := (\<lambda>_. Idle)(0 := Checked 7)\<rparr>)"

lemma fun_upd_twice: "(\<lambda>_. c)(a := x, a := y) = (\<lambda>_. c)(a := y)"
  by simp

lemma owned_by_0_reachable: "(owner_step demo_name)\<^sup>*\<^sup>* no_lockfile owned_by_0"
proof -
  define a where "a = set_proc 0 (Opening 8) no_lockfile"
  define b where "b = set_proc 0 (Opened 7 7) (a\<lparr>link := Some 7, content := (content a)(7 := [])\<rparr>)"
  define c where "c = set_proc 0 (Flocked 7 7) (b\<lparr>ex_lock := (ex_lock b)(7 := Some 0)\<rparr>)"
  define d where "d = set_proc 0 (Checked 7) c"
  have "owner_step demo_name no_lockfile a"
    unfolding a_def by (rule ow_start) (simp add: no_lockfile_def)
  moreover have "owner_step demo_name a b"
    unfolding b_def by (rule ow_open_new) (simp_all add: a_def no_lockfile_def unused_def)
  moreover have "owner_step demo_name b c"
    unfolding c_def by (rule ow_flock) (simp_all add: b_def a_def no_lockfile_def free_inode_def)
  moreover have "owner_step demo_name c d"
    unfolding d_def by (rule ow_same [of _ _ _ 7]) (simp_all add: c_def b_def)
  moreover have "owner_step demo_name d
      (set_proc 0 (Holding 7) (d\<lparr>content := (content d)(7 := demo_name 0)\<rparr>))"
    by (rule ow_write) (simp add: d_def)
  moreover have "set_proc 0 (Holding 7) (d\<lparr>content := (content d)(7 := demo_name 0)\<rparr>) = owned_by_0"
    by (simp add: owned_by_0_def d_def c_def b_def a_def set_proc_def no_lockfile_def demo_name_def)
  ultimately show ?thesis by (metis owner_step_reaches rtranclp.rtrancl_refl)
qed

theorem one_owner_per_session_witness:
  "owned_inode (proc owned_by_0 0) = Some 7 \<and> owned_inode (proc owned_by_0 1) \<noteq> Some 7"
proof -
  have own: "owned_inode (proc owned_by_0 0) = Some 7" by (simp add: owned_by_0_def)
  from one_owner_per_session [OF owned_by_0_reachable own, of 1] own show ?thesis by auto
qed

theorem lockfile_names_owner_witness: "content owned_by_0 7 = ''blue'' \<and> link owned_by_0 = Some 7"
proof -
  have "proc owned_by_0 0 = Holding 7" by (simp add: owned_by_0_def)
  from lockfile_names_owner [OF owned_by_0_reachable this] show ?thesis
    by (simp add: demo_name_def)
qed

definition owner_0_dead :: lockfile where
  "owner_0_dead = (set_proc 0 Idle (unlock 7 owned_by_0))\<lparr>probes := []\<rparr>"

lemma owner_0_dead_reachable: "(owner_step demo_name)\<^sup>*\<^sup>* no_lockfile owner_0_dead"
proof -
  have "owner_0_dead = (set_proc 0 Idle
        (case locked_inode (proc owned_by_0 0) of None \<Rightarrow> owned_by_0 | Some i \<Rightarrow> unlock i owned_by_0))
        \<lparr>probes := filter (\<lambda>(q, i). q \<noteq> 0) (probes owned_by_0)\<rparr>"
    by (simp add: owner_0_dead_def owned_by_0_def no_lockfile_def set_proc_def)
  then have "owner_step demo_name owned_by_0 owner_0_dead"
    using ow_die [of demo_name owned_by_0 0] by simp
  with owned_by_0_reachable show ?thesis by (rule rtranclp.rtrancl_into_rtrancl)
qed

theorem session_taken_over_witness:
  "link owner_0_dead = Some 7 \<and> (\<exists>g i. (owner_step demo_name)\<^sup>*\<^sup>* owner_0_dead g \<and> proc g 1 = Holding i)"
proof -
  have "\<exists>g i. (owner_step demo_name)\<^sup>*\<^sup>* owner_0_dead g \<and> proc g 1 = Holding i"
    by (rule session_taken_over [OF owner_0_dead_reachable, of 1 0])
       (simp_all add: owner_0_dead_def owned_by_0_def no_lockfile_def set_proc_def unlock_def)
  then show ?thesis by (simp add: owner_0_dead_def owned_by_0_def)
qed

text \<open>
  A refusal is not always an owner: an inquiry (\<open>owner\<close>'s shared lock on its own descriptor)
  that falls between an acquirer's open and its \<open>flock\<close> makes \<open>acquire\<close> answer \<open>False\<close>
  although no process holds, or ever held, the session.
\<close>

lemma refused_without_owner:
  "\<exists>f. (owner_step name)\<^sup>*\<^sup>* no_lockfile f \<and> proc f 1 = Refused \<and>
       (\<forall>p. locked_inode (proc f p) = None) \<and> (\<forall>i. ex_lock f i = None)"
proof -
  define a where "a = set_proc 1 (Opening 8) no_lockfile"
  define b where "b = set_proc 1 (Opened 7 7) (a\<lparr>link := Some 7, content := (content a)(7 := [])\<rparr>)"
  define c where "c = b\<lparr>probes := (2, 7) # probes b\<rparr>"
  define d where "d = set_proc 1 Refused c"
  note defs = a_def b_def c_def d_def no_lockfile_def
  have "owner_step name no_lockfile a"
    unfolding a_def by (rule ow_start) (simp add: no_lockfile_def)
  moreover have "owner_step name a b"
    unfolding b_def by (rule ow_open_new) (simp_all add: a_def no_lockfile_def unused_def)
  moreover have "owner_step name b c"
    unfolding c_def by (rule ow_probe) (simp_all add: b_def a_def no_lockfile_def)
  moreover have "owner_step name c d"
    unfolding d_def by (rule ow_refused) (simp_all add: defs free_inode_def)
  ultimately have "(owner_step name)\<^sup>*\<^sup>* no_lockfile d"
    by (meson owner_step_reaches rtranclp.rtrancl_refl)
  then show ?thesis by (intro exI [of _ d]) (simp add: defs)
qed

section \<open>The per-session lock a hand-off poisons\<close>

text \<open>
  \<open>SessionLock\<close> is an \<open>asyncio.Lock\<close> whose \<open>acquire\<close> looks at the poison flag once it has
  the lock.  The lock is a flag, the task that holds it, and the queue of waiting tasks whose
  first one is resumed when the flag falls; a task whose acquisition raises is in
  \<open>sl_rerouted\<close>.
\<close>

record session_lock =
  sl_holder :: "nat option"
  sl_queue :: "nat list"
  sl_woken :: bool
  sl_poisoned :: bool
  sl_rerouted :: "nat list"

definition new_session_lock :: session_lock where
  "new_session_lock =
     \<lparr>sl_holder = None, sl_queue = [], sl_woken = False, sl_poisoned = False, sl_rerouted = []\<rparr>"

definition poison :: "session_lock \<Rightarrow> session_lock" where
  "poison l = l\<lparr>sl_poisoned := True\<rparr>"

text \<open>\<open>asyncio.Lock.release\<close>: the flag falls and the first waiter is woken.\<close>

definition sl_release :: "session_lock \<Rightarrow> session_lock" where
  "sl_release l = l\<lparr>sl_holder := None, sl_woken := (sl_queue l \<noteq> [])\<rparr>"

text \<open>What \<open>acquire\<close> does once the inherited \<open>acquire\<close> returned for task \<open>t\<close>.\<close>

definition sl_locked :: "nat \<Rightarrow> session_lock \<Rightarrow> session_lock" where
  "sl_locked t l =
     (let l = l\<lparr>sl_holder := Some t\<rparr>
      in if sl_poisoned l then (sl_release l)\<lparr>sl_rerouted := sl_rerouted l @ [t]\<rparr> else l)"

definition sl_acquire :: "nat \<Rightarrow> session_lock \<Rightarrow> session_lock" where
  "sl_acquire t l =
     (if sl_holder l = None \<and> sl_queue l = [] then sl_locked t l
      else l\<lparr>sl_queue := sl_queue l @ [t]\<rparr>)"

text \<open>The woken task runs: it leaves the queue and has the lock.\<close>

definition sl_resume :: "session_lock \<Rightarrow> session_lock" where
  "sl_resume l =
     (case sl_queue l of
        [] \<Rightarrow> l
      | t # ts \<Rightarrow> if sl_woken l then sl_locked t (l\<lparr>sl_queue := ts, sl_woken := False\<rparr>) else l)"

inductive sl_step :: "session_lock \<Rightarrow> session_lock \<Rightarrow> bool" where
  sl_acq: "sl_holder l \<noteq> Some t \<Longrightarrow> t \<notin> set (sl_queue l) \<Longrightarrow> sl_step l (sl_acquire t l)"
| sl_rel: "sl_holder l \<noteq> None \<Longrightarrow> sl_step l (sl_release l)"
| sl_run: "sl_step l (sl_resume l)"
| sl_poi: "sl_step l (poison l)"

text \<open>A free lock with waiters has one of them woken, so none sleeps for ever.\<close>

definition sl_inv :: "session_lock \<Rightarrow> bool" where
  "sl_inv l \<longleftrightarrow> (sl_holder l = None \<longrightarrow> sl_queue l \<noteq> [] \<longrightarrow> sl_woken l) \<and>
     (sl_woken l \<longrightarrow> sl_holder l = None \<and> sl_queue l \<noteq> [])"

lemmas sl_defs = sl_acquire_def sl_release_def sl_resume_def sl_locked_def poison_def Let_def

lemma sl_inv_ops:
  "sl_inv l \<Longrightarrow> sl_inv (sl_acquire t l)" "sl_inv (sl_release l)"
  "sl_inv l \<Longrightarrow> sl_inv (sl_resume l)" "sl_inv l \<Longrightarrow> sl_inv (poison l)"
  by (cases "sl_holder l"; cases "sl_queue l"; cases "sl_woken l"; simp add: sl_inv_def sl_defs)+

interpretation session_locks: machine "\<lambda>l. l = new_session_lock" sl_step sl_inv
proof unfold_locales
  show "sl_inv l" if "l = new_session_lock" for l
    using that by (simp add: new_session_lock_def sl_inv_def)
  show "sl_inv m" if "sl_inv l" "sl_step l m" for l m
    using that(2,1) by cases (simp_all add: sl_inv_ops)
qed

definition sl_poisoned_under :: "nat option \<Rightarrow> session_lock \<Rightarrow> bool" where
  "sl_poisoned_under h l \<longleftrightarrow> sl_poisoned l \<and> (sl_holder l = None \<or> sl_holder l = h)"

lemma sl_poisoned_ops:
  assumes "sl_poisoned_under h l"
  shows "sl_poisoned_under h (sl_acquire t l)" "sl_poisoned_under h (sl_release l)"
    "sl_poisoned_under h (sl_resume l)" "sl_poisoned_under h (poison l)"
  using assms by (simp_all add: sl_poisoned_under_def sl_defs split: list.splits)

lemma sl_step_poisoned: "sl_step l m \<Longrightarrow> sl_poisoned_under h l \<Longrightarrow> sl_poisoned_under h m"
  by (erule sl_step.cases) (simp_all add: sl_poisoned_ops)

lemma sl_drain:
  "sl_poisoned l \<Longrightarrow> sl_holder l = None \<Longrightarrow> (sl_queue l \<noteq> [] \<longrightarrow> sl_woken l) \<Longrightarrow>
     (let m = (sl_resume ^^ length (sl_queue l)) l
      in sl_queue m = [] \<and> sl_holder m = None \<and> sl_rerouted m = sl_rerouted l @ sl_queue l)"
proof (induction "sl_queue l" arbitrary: l)
  case Nil
  then show ?case by simp
next
  case (Cons t ts)
  let ?l = "sl_resume l"
  have r: "sl_queue ?l = ts" "sl_poisoned ?l" "sl_holder ?l = None" "ts \<noteq> [] \<longrightarrow> sl_woken ?l"
      "sl_rerouted ?l = sl_rerouted l @ [t]"
    using Cons.prems Cons.hyps(2) by (auto simp: sl_defs split: list.splits)
  from Cons.hyps(1) [of ?l] r Cons.hyps(2) [symmetric] show ?case
    by (simp add: funpow_swap1 Let_def)
qed

text \<open>
  After a hand-off poisons a session's lock, no request gets it any more: whoever holds the
  lock later is the holder of the moment of the poisoning.
\<close>

theorem poisoned_lock_not_acquired:
  assumes "sl_step\<^sup>*\<^sup>* (poison l) m"
  shows "sl_holder m = None \<or> sl_holder m = sl_holder l"
proof -
  have "sl_poisoned_under (sl_holder l) (poison l)" by (simp add: sl_poisoned_under_def poison_def)
  with assms have "sl_poisoned_under (sl_holder l) m"
    by (induction rule: rtranclp_induct) (auto intro: sl_step_poisoned)
  then show ?thesis by (simp add: sl_poisoned_under_def)
qed

theorem poisoned_lock_not_acquired_witness:
  "sl_holder (sl_acquire 3 (poison (sl_acquire 1 new_session_lock))) = Some 1"
proof -
  have "sl_step\<^sup>*\<^sup>* (poison (sl_acquire 1 new_session_lock))
      (sl_acquire 3 (poison (sl_acquire 1 new_session_lock)))"
    by (intro r_into_rtranclp sl_acq) (simp_all add: sl_defs new_session_lock_def)
  from poisoned_lock_not_acquired [OF this] show ?thesis
    by (simp add: sl_defs new_session_lock_def)
qed

text \<open>
  None of the requests queued behind a hand-off hangs: when the holder lets go of a
  poisoned lock, running the wake-ups makes every queued request raise
  \<open>SessionOwnedElsewhere\<close>, in queue order, and leaves the lock free.
\<close>

theorem poisoned_lock_reroutes_queue:
  assumes "sl_step\<^sup>*\<^sup>* new_session_lock l" and "sl_poisoned l" and "sl_holder l = Some t"
  shows "\<exists>m. sl_step\<^sup>*\<^sup>* (sl_release l) m \<and> sl_queue m = [] \<and> sl_holder m = None \<and>
           sl_rerouted m = sl_rerouted l @ sl_queue l"
proof -
  let ?m = "(sl_resume ^^ length (sl_queue l)) (sl_release l)"
  have "sl_step\<^sup>*\<^sup>* (sl_release l) ((sl_resume ^^ n) (sl_release l))" for n
    by (induction n) (auto intro: rtranclp.rtrancl_into_rtrancl sl_run)
  moreover have "sl_queue ?m = [] \<and> sl_holder ?m = None \<and> sl_rerouted ?m = sl_rerouted l @ sl_queue l"
    using sl_drain [of "sl_release l"] assms(2) by (simp add: sl_release_def Let_def)
  ultimately show ?thesis by blast
qed

theorem poisoned_lock_reroutes_queue_witness:
  "\<exists>m. sl_step\<^sup>*\<^sup>* (sl_release (poison (sl_acquire 2 (sl_acquire 1 new_session_lock)))) m \<and>
     sl_rerouted m = [2]"
proof -
  let ?a = "sl_acquire 1 new_session_lock" and ?b = "sl_acquire 2 (sl_acquire 1 new_session_lock)"
  have "sl_step new_session_lock ?a"
    by (rule sl_acq) (simp_all add: new_session_lock_def)
  moreover have "sl_step ?a ?b"
    by (rule sl_acq) (simp_all add: new_session_lock_def sl_defs)
  moreover have "sl_step ?b (poison ?b)" by (rule sl_poi)
  ultimately have "sl_step\<^sup>*\<^sup>* new_session_lock (poison ?b)"
    by (meson rtranclp.rtrancl_into_rtrancl rtranclp.rtrancl_refl)
  from poisoned_lock_reroutes_queue [OF this, of 1] show ?thesis
    by (auto simp: sl_defs new_session_lock_def)
qed

end
