(* ===== verification/PyText.thy ===== *)
theory PyText
  imports Prelude
begin

text \<open>
  The string operations of Python the program uses: \<open>str.split\<close> on one character, \<open>str(n)\<close> of
  a non-negative integer, \<open>int(s)\<close>, \<open>str.strip\<close>, \<open>str.lower\<close>, \<open>str.startswith\<close> and hex digits.
  Characters are the 8-bit ones (HTTP headers and paths are Latin-1 text).
\<close>

named_theorems text_simps \<open>laws of the string operations\<close>

section \<open>Characters\<close>

abbreviation code :: "char \<Rightarrow> nat" where
  "code c \<equiv> of_char c"

definition is_digit :: "char \<Rightarrow> bool" where
  "is_digit c \<longleftrightarrow> 48 \<le> code c \<and> code c \<le> 57"

definition digit_char :: "nat \<Rightarrow> char" where
  "digit_char n = char_of (48 + n)"

definition digit_val :: "char \<Rightarrow> nat" where
  "digit_val c = code c - 48"

text \<open>\<open>str.isspace\<close> on Latin-1 characters.\<close>

definition is_space :: "char \<Rightarrow> bool" where
  "is_space c \<longleftrightarrow> code c \<in> {9, 10, 11, 12, 13, 28, 29, 30, 31, 32, 133, 160}"

lemma digit_char_simps [text_simps]:
  assumes "n < 10"
  shows "is_digit (digit_char n)" and "digit_val (digit_char n) = n" and "\<not> is_space (digit_char n)"
    and "code (digit_char n) = 48 + n"
proof -
  have c: "code (digit_char n) = 48 + n" using assms by (simp add: digit_char_def)
  then show "is_digit (digit_char n)" "digit_val (digit_char n) = n" "code (digit_char n) = 48 + n"
    using assms by (simp_all add: is_digit_def digit_val_def)
  show "\<not> is_space (digit_char n)" using c assms by (auto simp: is_space_def)
qed

lemma is_digit_not: "is_digit c \<Longrightarrow> c \<noteq> CHR ''.'' \<and> c \<noteq> CHR ''_'' \<and> c \<noteq> CHR ''-'' \<and> c \<noteq> CHR ''+'' \<and> c \<noteq> CHR '' ''"
  by (auto simp: is_digit_def)

section \<open>Splitting and trimming\<close>

fun split_on :: "char \<Rightarrow> string \<Rightarrow> string list" where
  "split_on c [] = [[]]"
| "split_on c (x # xs) =
     (if x = c then [] # split_on c xs
      else case split_on c xs of p # ps \<Rightarrow> (x # p) # ps | [] \<Rightarrow> [[x]])"

lemma split_on_not_Nil [simp]: "split_on c s \<noteq> []"
  by (induction s) (auto split: list.splits)

lemma split_on_free: "c \<notin> set s \<Longrightarrow> split_on c s = [s]"
  by (induction s) auto

lemma split_on_append: "c \<notin> set s \<Longrightarrow> split_on c (s @ c # t) = s # split_on c t"
  by (induction s) auto

lemma split_on_pieces: "p \<in> set (split_on c s) \<Longrightarrow> c \<notin> set p"
  by (induction s arbitrary: p) (auto split: list.splits if_splits)

definition strip_text :: "string \<Rightarrow> string" where
  "strip_text s = rev (dropWhile is_space (rev (dropWhile is_space s)))"

lemma strip_text_id:
  "s = [] \<or> (\<not> is_space (hd s) \<and> \<not> is_space (last s)) \<Longrightarrow> strip_text s = s"
proof -
  assume a: "s = [] \<or> (\<not> is_space (hd s) \<and> \<not> is_space (last s))"
  have "dropWhile is_space s = s" using a by (cases s) auto
  moreover have "dropWhile is_space (rev s) = rev s"
    using a by (cases s rule: rev_cases) auto
  ultimately show ?thesis by (simp add: strip_text_def)
qed

definition lower_char :: "char \<Rightarrow> char" where
  "lower_char c = (if 65 \<le> code c \<and> code c \<le> 90 then char_of (code c + 32) else c)"

abbreviation lower_text :: "string \<Rightarrow> string" where
  "lower_text s \<equiv> map lower_char s"

definition starts_with :: "string \<Rightarrow> string \<Rightarrow> bool" where
  "starts_with p s \<longleftrightarrow> take (length p) s = p"

lemma starts_with_append [simp]: "starts_with p (p @ s)"
  by (simp add: starts_with_def)

lemma starts_withE:
  assumes "starts_with p s"
  obtains t where "s = p @ t"
  using assms by (metis append_take_drop_id starts_with_def)

section \<open>Decimal numbers\<close>

fun dec :: "nat \<Rightarrow> string" where
  "dec n = (if n < 10 then [digit_char n] else dec (n div 10) @ [digit_char (n mod 10)])"

declare dec.simps [simp del]

lemma dec_not_Nil [simp]: "dec n \<noteq> []"
  by (subst dec.simps) simp

lemma dec_digits: "c \<in> set (dec n) \<Longrightarrow> is_digit c"
proof (induction n arbitrary: c rule: dec.induct)
  case (1 n)
  from "1.prems" have "c \<in> set (if n < 10 then [digit_char n] else dec (n div 10) @ [digit_char (n mod 10)])"
    by (metis dec.simps)
  then show ?case using "1.IH" [of c] digit_char_simps(1) [of n] digit_char_simps(1) [of "n mod 10"]
    by (auto split: if_splits)
qed

lemma dec_free: "\<not> is_digit c \<Longrightarrow> c \<notin> set (dec n)"
  using dec_digits by blast

text \<open>
  \<open>int(s)\<close>: surrounding white space, an optional sign, digits with single underscores between
  them.  The interpreter refuses more than 4300 digits.
\<close>

fun py_digits :: "nat \<Rightarrow> bool \<Rightarrow> string \<Rightarrow> nat option" where
  "py_digits acc sep [] = (if sep then None else Some acc)"
| "py_digits acc sep (c # cs) =
     (if is_digit c then py_digits (10 * acc + digit_val c) False cs
      else if c = CHR ''_'' \<and> \<not> sep then py_digits acc True cs
      else None)"

definition max_str_digits :: nat where
  "max_str_digits = 4300"

definition py_int :: "string \<Rightarrow> int option" where
  "py_int s =
     (let t = strip_text s;
          digits = (\<lambda>u. if length (filter is_digit u) > max_str_digits then None else py_digits 0 True u)
      in case t of
           [] \<Rightarrow> None
         | c # u \<Rightarrow>
             (if c = CHR ''-'' then map_option (\<lambda>n. - int n) (digits u)
              else if c = CHR ''+'' then map_option int (digits u)
              else map_option int (digits t)))"

lemma py_digits_append:
  "(\<And>c. c \<in> set s \<Longrightarrow> is_digit c) \<Longrightarrow> s \<noteq> [] \<Longrightarrow>
     py_digits acc sep (s @ t) =
     py_digits (fold (\<lambda>c a. 10 * a + digit_val c) s acc) False t"
proof (induction s arbitrary: acc sep)
  case (Cons c s)
  then show ?case by (cases "s = []") simp_all
qed simp

lemma fold_dec: "fold (\<lambda>c a. 10 * a + digit_val c) (dec n) 0 = n"
proof (induction n rule: dec.induct)
  case (1 n)
  show ?case
  proof (cases "n < 10")
    case True
    then show ?thesis by (subst dec.simps) (simp add: text_simps)
  next
    case False
    have "n mod 10 < 10" by simp
    then show ?thesis using 1 False
      by (subst dec.simps) (simp add: text_simps)
  qed
qed

lemma length_dec: "n < 10 ^ k \<Longrightarrow> 0 < k \<Longrightarrow> length (dec n) \<le> k"
proof (induction n arbitrary: k rule: dec.induct)
  case (1 n)
  show ?case
  proof (cases "n < 10")
    case True
    then show ?thesis using "1.prems" by (subst dec.simps) simp
  next
    case False
    then have "1 < k" using "1.prems" by (cases "k = 1") auto
    then have "n div 10 < 10 ^ (k - 1)"
      using "1.prems" by (cases k) (auto simp: div_less_iff_less_mult mult.commute)
    with "1.IH" [OF False, of "k - 1"] \<open>1 < k\<close> False show ?thesis
      by (subst dec.simps) simp
  qed
qed

lemma max_str_digits_pos: "0 < max_str_digits"
  by (simp add: max_str_digits_def)

lemma below_digit_limit:
  fixes n :: nat
  assumes "n < 10 ^ 20"
  shows "n < 10 ^ max_str_digits"
proof -
  have "(20 :: nat) \<le> max_str_digits" by (simp add: max_str_digits_def)
  then have "(10 :: nat) ^ 20 \<le> 10 ^ max_str_digits" by (rule power_increasing) simp
  with assms show ?thesis by (rule less_le_trans)
qed

lemma py_int_dec: "n < 10 ^ max_str_digits \<Longrightarrow> py_int (dec n) = Some (int n)"
proof -
  assume n: "n < 10 ^ max_str_digits"
  obtain c u where cu: "dec n = c # u" by (cases "dec n") auto
  have d: "is_digit c" using dec_digits [of c n] cu by simp
  have nsp: "\<not> is_space x" if "x \<in> set (dec n)" for x
    using dec_digits [OF that] by (auto simp: is_digit_def is_space_def)
  have "strip_text (dec n) = dec n"
    by (rule strip_text_id) (use nsp in \<open>auto simp: cu\<close>)
  moreover have "length (filter is_digit (dec n)) \<le> max_str_digits"
    by (rule le_trans [OF length_filter_le length_dec [OF n max_str_digits_pos]])
  moreover have "py_digits 0 True (dec n) = Some n"
    using py_digits_append [of "dec n" 0 True "[]"] dec_digits fold_dec by simp
  ultimately show ?thesis
    using d is_digit_not [of c] by (simp add: py_int_def cu Let_def)
qed

section \<open>Hex digits\<close>

definition is_hex :: "char \<Rightarrow> bool" where
  "is_hex c \<longleftrightarrow> is_digit c \<or> (97 \<le> code c \<and> code c \<le> 102) \<or> (65 \<le> code c \<and> code c \<le> 70)"

lemma is_hex_not: "is_hex c \<Longrightarrow> c \<noteq> CHR ''.'' \<and> c \<noteq> CHR ''_'' \<and> c \<noteq> CHR ''-'' \<and> c \<noteq> CHR ''/''"
  by (auto simp: is_hex_def is_digit_def)

end
