(* ===== verification/DispatchLedger.thy ===== *)
theory DispatchLedger
  imports PyText
begin

text \<open>
  Dispatch ids and the admission ledger of a gateway process, \<open>src/src/handoff/ledger.py\<close>.
  An entry is a state word and the time it was written, \<open>None\<close> while the request runs.  The
  two window lengths are arguments (they come from the environment); \<open>retention\<close> is the
  module's own formula.  Python's float clock is read in whole microseconds.
\<close>

section \<open>Dispatch ids\<close>

definition dispatch_id_of :: "string \<Rightarrow> nat \<Rightarrow> string \<Rightarrow> string" where
  "dispatch_id_of boot ms rand = boot @ ''.'' @ dec ms @ ''.'' @ rand"

definition new_dispatch_id :: "string \<Rightarrow> instant \<Rightarrow> string \<Rightarrow> string" where
  "new_dispatch_id boot now rand = dispatch_id_of boot (nat (now div 1000)) rand"

definition parse_dispatch_id :: "string \<Rightarrow> (string \<times> int) option" where
  "parse_dispatch_id s =
     (let parts = split_on CHR ''.'' s
      in if length parts \<noteq> 3 \<or> parts ! 0 = [] \<or> length (parts ! 2) \<noteq> 32 then None
         else case py_int (parts ! 1) of None \<Rightarrow> None | Some n \<Rightarrow> Some (parts ! 0, n))"

section \<open>The ledger\<close>

type_synonym ledger = "(string, string \<times> instant option) dict"

abbreviation admitted_word :: string where "admitted_word \<equiv> ''admitted''"
abbreviation refused_word :: string where "refused_word \<equiv> ''refused''"

definition retention :: "int \<Rightarrow> int \<Rightarrow> int" where
  "retention configured accept_window = max configured (3 * accept_window + 1)"

definition future_skew :: instant where
  "future_skew = 1000 * 5000"

definition stale_entry :: "int \<Rightarrow> instant \<Rightarrow> string \<times> instant option \<Rightarrow> bool" where
  "stale_entry ret now e \<longleftrightarrow> (case snd e of None \<Rightarrow> False | Some t \<Rightarrow> now - t > seconds ret)"

definition ledger_gc :: "int \<Rightarrow> instant \<Rightarrow> ledger \<Rightarrow> ledger" where
  "ledger_gc ret now d = filter (\<lambda>(k, e). \<not> stale_entry ret now e) d"

definition admit :: "string \<Rightarrow> int \<Rightarrow> int \<Rightarrow> instant \<Rightarrow> string \<Rightarrow> ledger \<Rightarrow> bool \<times> ledger" where
  "admit boot aw ret now i d =
     (let d = ledger_gc ret now d
      in if dget d i \<noteq> None then (False, d)
         else
           let ok = (case parse_dispatch_id i of
                       None \<Rightarrow> False
                     | Some (b, ms) \<Rightarrow> b = boot \<and> now - 1000 * ms \<le> seconds aw \<and> 1000 * ms - now \<le> future_skew)
           in (ok, dput i (if ok then (admitted_word, None) else (refused_word, Some now)) d))"

definition ledger_finish :: "string \<Rightarrow> string \<Rightarrow> instant \<Rightarrow> ledger \<Rightarrow> ledger" where
  "ledger_finish i st now d =
     (case dget d i of
        None \<Rightarrow> d
      | Some e \<Rightarrow> if fst e = admitted_word then dput i (st, Some now) d else d)"

datatype verdict = Received | Refused_verdict | Unknown

definition settle :: "string \<Rightarrow> int \<Rightarrow> instant \<Rightarrow> string \<Rightarrow> ledger \<Rightarrow> verdict \<times> ledger" where
  "settle boot ret now i d =
     (let d = ledger_gc ret now d
      in case dget d i of
           Some e \<Rightarrow> (if fst e = refused_word then Refused_verdict else Received, d)
         | None \<Rightarrow>
             (case parse_dispatch_id i of
                None \<Rightarrow> (Unknown, d)
              | Some (b, ms) \<Rightarrow>
                  if b = boot \<and> now - 1000 * ms < seconds ret \<and> 1000 * ms - now \<le> future_skew
                  then (Refused_verdict, dput i (refused_word, Some now) d)
                  else (Unknown, d)))"

definition ledger_counts :: "ledger \<Rightarrow> (string, nat) dict" where
  "ledger_counts d =
     fold (\<lambda>e out. dput (fst e) ((case dget out (fst e) of None \<Rightarrow> 0 | Some n \<Rightarrow> n) + 1) out)
       (dvals d) []"

section \<open>Laws of the operations\<close>

lemma parse_new_dispatch_id:
  assumes "boot \<noteq> []" "CHR ''.'' \<notin> set boot" "CHR ''.'' \<notin> set rand" "length rand = 32" "ms < 10 ^ max_str_digits"
  shows "parse_dispatch_id (dispatch_id_of boot ms rand) = Some (boot, int ms)"
proof -
  have "CHR ''.'' \<notin> set (dec ms)" by (rule dec_free) (simp add: is_digit_def)
  then have "split_on CHR ''.'' (dispatch_id_of boot ms rand) = [boot, dec ms, rand]"
    using assms by (simp add: dispatch_id_of_def split_on_append split_on_free)
  then show ?thesis using assms by (simp add: parse_dispatch_id_def py_int_dec)
qed

lemma dget_gc:
  "dwf d \<Longrightarrow> dget (ledger_gc ret now d) i =
     (case dget d i of None \<Rightarrow> None | Some e \<Rightarrow> if stale_entry ret now e then None else Some e)"
  by (simp add: ledger_gc_def dget_filter split: option.splits)

lemma dwf_gc [intro, simp]: "dwf d \<Longrightarrow> dwf (ledger_gc ret now d)"
  by (simp add: ledger_gc_def dwf_filter)

section \<open>A ledger in operation\<close>

text \<open>
  The clock of one host drives both sides: peers issue ids (only they can sign a dispatch),
  every issued id may arrive any number of times and may be settled, requests taken in finish
  at any later time.  \<open>lg_log\<close> records what was answered, newest first.  One step is one call,
  since the code has no await inside them.
\<close>

datatype ledger_event = Took string instant | Turned_away string instant | Settled string verdict instant

record ledger_system =
  lg_clock :: instant
  lg_issued :: "(string \<times> instant) list"
  lg_entries :: ledger
  lg_log :: "ledger_event list"

definition start_ledger :: "instant \<Rightarrow> ledger_system" where
  "start_ledger t = \<lparr>lg_clock = t, lg_issued = [], lg_entries = [], lg_log = []\<rparr>"

definition good_boot :: "string \<Rightarrow> bool" where
  "good_boot b \<longleftrightarrow> b \<noteq> [] \<and> CHR ''.'' \<notin> set b"

inductive ledger_step :: "string \<Rightarrow> int \<Rightarrow> int \<Rightarrow> ledger_system \<Rightarrow> ledger_system \<Rightarrow> bool"
  for boot aw ret where
  lg_tick: "0 \<le> dt \<Longrightarrow> ledger_step boot aw ret s (s\<lparr>lg_clock := lg_clock s + dt\<rparr>)"
| lg_issue: "0 \<le> lg_clock s \<Longrightarrow> lg_clock s < 10 ^ max_str_digits \<Longrightarrow> good_boot b \<Longrightarrow> length rand = 32 \<Longrightarrow>
     CHR ''.'' \<notin> set rand \<Longrightarrow>
     ledger_step boot aw ret s
       (s\<lparr>lg_issued := (new_dispatch_id b (lg_clock s) rand, lg_clock s) # lg_issued s\<rparr>)"
| lg_arrive: "i \<in> fst ` set (lg_issued s) \<Longrightarrow> admit boot aw ret (lg_clock s) i (lg_entries s) = (ok, d) \<Longrightarrow>
     ledger_step boot aw ret s
       (s\<lparr>lg_entries := d, lg_log := (if ok then Took i (lg_clock s) else Turned_away i (lg_clock s)) # lg_log s\<rparr>)"
| lg_finish: "st \<in> {''completed'', ''failed''} \<Longrightarrow>
     ledger_step boot aw ret s (s\<lparr>lg_entries := ledger_finish i st (lg_clock s) (lg_entries s)\<rparr>)"
| lg_settle: "i \<in> fst ` set (lg_issued s) \<Longrightarrow> settle boot ret (lg_clock s) i (lg_entries s) = (v, d) \<Longrightarrow>
     ledger_step boot aw ret s (s\<lparr>lg_entries := d, lg_log := Settled i v (lg_clock s) # lg_log s\<rparr>)"

text \<open>Everything issued parses to a time not after the present.\<close>

definition issued_ok :: "ledger_system \<Rightarrow> bool" where
  "issued_ok s \<longleftrightarrow> (\<forall>i t. (i, t) \<in> set (lg_issued s) \<longrightarrow> t \<le> lg_clock s \<and>
     (\<exists>b ms. parse_dispatch_id i = Some (b, ms) \<and> 1000 * ms \<le> t))"

definition entries_ok :: "ledger_system \<Rightarrow> bool" where
  "entries_ok s \<longleftrightarrow> dwf (lg_entries s) \<and>
     (\<forall>i st t. dget (lg_entries s) i = Some (st, t) \<longrightarrow>
        (st = admitted_word \<longleftrightarrow> t = None) \<and>
        (\<exists>b ms. parse_dispatch_id i = Some (b, ms) \<and> 1000 * ms \<le> lg_clock s \<and>
          (\<forall>u. t = Some u \<longrightarrow> 1000 * ms \<le> u \<and> u \<le> lg_clock s)))"

text \<open>An id taken in is in the ledger, not as refused, until more than the retention has passed.\<close>

definition took_fact ::
  "string \<Rightarrow> int \<Rightarrow> int \<Rightarrow> instant \<Rightarrow> (string \<times> instant option) option \<Rightarrow> string \<Rightarrow> instant \<Rightarrow> bool" where
  "took_fact boot aw ret now e i a \<longleftrightarrow>
     (\<exists>ms. parse_dispatch_id i = Some (boot, ms) \<and> 1000 * ms \<le> a \<and> a - 1000 * ms \<le> seconds aw \<and>
       a \<le> now \<and>
       ((\<exists>st t. e = Some (st, t) \<and> st \<noteq> refused_word \<and> (\<forall>u. t = Some u \<longrightarrow> a \<le> u)) \<or>
        now - a > seconds ret))"

definition took_ok :: "string \<Rightarrow> int \<Rightarrow> int \<Rightarrow> ledger_system \<Rightarrow> bool" where
  "took_ok boot aw ret s \<longleftrightarrow> (\<forall>i a. Took i a \<in> set (lg_log s) \<longrightarrow>
     took_fact boot aw ret (lg_clock s) (dget (lg_entries s) i) i a)"

text \<open>
  An id refused by a settlement that came within the retention was never taken in and cannot be:
  its tombstone is still there or the id is too old.
\<close>

definition was_taken :: "string \<Rightarrow> ledger_system \<Rightarrow> bool" where
  "was_taken i s \<longleftrightarrow> (\<exists>a. Took i a \<in> set (lg_log s))"

definition refused_fact ::
  "string \<Rightarrow> int \<Rightarrow> int \<Rightarrow> instant \<Rightarrow> (string \<times> instant option) option \<Rightarrow> bool \<Rightarrow> string \<Rightarrow> instant \<Rightarrow> bool" where
  "refused_fact boot aw ret now e r i t \<longleftrightarrow>
     (\<exists>b ms. parse_dispatch_id i = Some (b, ms) \<and>
       (t - 1000 * ms < seconds ret \<longrightarrow>
          \<not> r \<and> (b \<noteq> boot \<or> (\<exists>w. e = Some (refused_word, w)) \<or> now - 1000 * ms > seconds aw)))"

definition refused_ok :: "string \<Rightarrow> int \<Rightarrow> int \<Rightarrow> ledger_system \<Rightarrow> bool" where
  "refused_ok boot aw ret s \<longleftrightarrow> (\<forall>i t. Settled i Refused_verdict t \<in> set (lg_log s) \<longrightarrow>
     refused_fact boot aw ret (lg_clock s) (dget (lg_entries s) i) (was_taken i s) i t)"

lemma took_fact_later: "took_fact boot aw ret now e i a \<Longrightarrow> now \<le> now' \<Longrightarrow> took_fact boot aw ret now' e i a"
  unfolding took_fact_def by fastforce

lemma took_fact_other: "took_fact boot aw ret now None i a \<Longrightarrow> took_fact boot aw ret now e i a"
  unfolding took_fact_def by blast

lemma refused_fact_later:
  "refused_fact boot aw ret now e r i t \<Longrightarrow> now \<le> now' \<Longrightarrow> refused_fact boot aw ret now' e r i t"
  unfolding refused_fact_def by fastforce

lemma refused_fact_tombstone:
  "refused_fact boot aw ret now e r i t \<Longrightarrow> refused_fact boot aw ret now (Some (refused_word, w)) r i t"
  unfolding refused_fact_def by blast

definition took_once :: "ledger_system \<Rightarrow> bool" where
  "took_once s \<longleftrightarrow> (\<forall>i. count_if (\<lambda>e. \<exists>t. e = Took i t) (lg_log s) \<le> 1)"

definition ledger_inv :: "string \<Rightarrow> int \<Rightarrow> int \<Rightarrow> ledger_system \<Rightarrow> bool" where
  "ledger_inv boot aw ret s \<longleftrightarrow>
     issued_ok s \<and> entries_ok s \<and> took_ok boot aw ret s \<and> refused_ok boot aw ret s \<and> took_once s"

lemma ledger_invD:
  assumes "ledger_inv boot aw ret s"
  shows "issued_ok s" "entries_ok s" "took_ok boot aw ret s" "refused_ok boot aw ret s" "took_once s"
  using assms by (simp_all add: ledger_inv_def)

lemma issuedD:
  assumes "issued_ok s" "i \<in> fst ` set (lg_issued s)"
  obtains b ms where "parse_dispatch_id i = Some (b, ms)" "1000 * ms \<le> lg_clock s"
  using assms by (fastforce simp: issued_ok_def)

lemma entriesD:
  assumes "entries_ok s" "dget (lg_entries s) i = Some (st, t)"
  obtains b ms where "parse_dispatch_id i = Some (b, ms)" "1000 * ms \<le> lg_clock s"
    "\<And>u. t = Some u \<Longrightarrow> 1000 * ms \<le> u \<and> u \<le> lg_clock s" "st = admitted_word \<longleftrightarrow> t = None"
  using assms unfolding entries_ok_def by blast

lemma entry_parsed:
  assumes "entries_ok s" "dget (lg_entries s) i = Some (st, t)"
  obtains b ms where "parse_dispatch_id i = Some (b, ms)" "1000 * ms \<le> lg_clock s"
  by (rule entriesD [OF assms])

lemma entry_written:
  assumes e: "entries_ok s" and g: "dget (lg_entries s) i = Some (st, Some u)"
    and p: "parse_dispatch_id i = Some (b, ms)"
  shows "1000 * ms \<le> u" "u \<le> lg_clock s"
proof -
  obtain b' ms' where "parse_dispatch_id i = Some (b', ms')" "1000 * ms' \<le> u \<and> u \<le> lg_clock s"
    using entriesD [OF e g] by blast
  with p show "1000 * ms \<le> u" "u \<le> lg_clock s" by simp_all
qed

lemma tookD:
  "took_ok boot aw ret s \<Longrightarrow> Took i a \<in> set (lg_log s) \<Longrightarrow>
     took_fact boot aw ret (lg_clock s) (dget (lg_entries s) i) i a"
  by (simp add: took_ok_def)

lemma refusedD:
  "refused_ok boot aw ret s \<Longrightarrow> Settled i Refused_verdict t \<in> set (lg_log s) \<Longrightarrow>
     refused_fact boot aw ret (lg_clock s) (dget (lg_entries s) i) (was_taken i s) i t"
  by (simp add: refused_ok_def)

lemma ledger_tick: "ledger_inv boot aw ret s \<Longrightarrow> 0 \<le> dt \<Longrightarrow> ledger_inv boot aw ret (s\<lparr>lg_clock := lg_clock s + dt\<rparr>)"
  unfolding ledger_inv_def
proof (intro conjI; elim conjE)
  assume dt: "0 \<le> dt"
  let ?s = "s\<lparr>lg_clock := lg_clock s + dt\<rparr>"
  show "issued_ok ?s" if "issued_ok s" using that dt by (fastforce simp: issued_ok_def)
  show "entries_ok ?s" if e: "entries_ok s"
    unfolding entries_ok_def
  proof (intro conjI allI impI)
    show "dwf (lg_entries ?s)" using e by (simp add: entries_ok_def)
    fix i st t assume "dget (lg_entries ?s) i = Some (st, t)"
    then have g: "dget (lg_entries s) i = Some (st, t)" by simp
    obtain b ms where "parse_dispatch_id i = Some (b, ms)" "1000 * ms \<le> lg_clock s"
      "\<And>u. t = Some u \<Longrightarrow> 1000 * ms \<le> u \<and> u \<le> lg_clock s" "st = admitted_word \<longleftrightarrow> t = None"
      using entriesD [OF e g] by blast
    then show "(st = admitted_word) = (t = None)"
      "\<exists>b ms. parse_dispatch_id i = Some (b, ms) \<and> 1000 * ms \<le> lg_clock ?s \<and>
         (\<forall>u. t = Some u \<longrightarrow> 1000 * ms \<le> u \<and> u \<le> lg_clock ?s)"
      using dt by fastforce+
  qed
  show "took_ok boot aw ret ?s" if "took_ok boot aw ret s"
    using that dt took_fact_later [of _ _ _ "lg_clock s" _ _ _ "lg_clock s + dt"]
    by (simp add: took_ok_def)
  show "refused_ok boot aw ret ?s" if "refused_ok boot aw ret s"
    using that dt refused_fact_later [of _ _ _ "lg_clock s" _ _ _ _ "lg_clock s + dt"]
    by (simp add: refused_ok_def was_taken_def)
  show "took_once ?s" if "took_once s" using that by (simp add: took_once_def)
qed

lemma ledger_issue:
  assumes "ledger_inv boot aw ret s" "0 \<le> lg_clock s" "lg_clock s < 10 ^ max_str_digits" "good_boot b"
    "length rand = 32" "CHR ''.'' \<notin> set rand"
  shows "ledger_inv boot aw ret (s\<lparr>lg_issued := (new_dispatch_id b (lg_clock s) rand, lg_clock s) # lg_issued s\<rparr>)"
proof -
  let ?ms = "nat (lg_clock s div 1000)"
  have "lg_clock s div 1000 \<le> lg_clock s" using assms(2) by linarith
  then have "lg_clock s div 1000 < 10 ^ max_str_digits" using assms(3) by linarith
  then have "int ?ms < int (10 ^ max_str_digits)" using assms(2) by simp
  then have "?ms < 10 ^ max_str_digits" by (simp only: of_nat_less_iff)
  then have "parse_dispatch_id (new_dispatch_id b (lg_clock s) rand) = Some (b, int ?ms)"
    unfolding new_dispatch_id_def by (intro parse_new_dispatch_id) (use assms in \<open>auto simp: good_boot_def\<close>)
  moreover have "1000 * int ?ms \<le> lg_clock s" using assms(2) by linarith
  ultimately have "issued_ok (s\<lparr>lg_issued := (new_dispatch_id b (lg_clock s) rand, lg_clock s) # lg_issued s\<rparr>)"
    using ledger_invD(1) [OF assms(1)] by (fastforce simp: issued_ok_def)
  then show ?thesis using assms(1)
    by (simp add: ledger_inv_def entries_ok_def took_ok_def refused_ok_def took_once_def was_taken_def)
qed

text \<open>Forgetting stale entries.\<close>

lemma ledger_gc_inv:
  assumes inv: "ledger_inv boot aw ret s" and ret: "3 * aw + 1 \<le> ret"
  shows "ledger_inv boot aw ret (s\<lparr>lg_entries := ledger_gc ret (lg_clock s) (lg_entries s)\<rparr>)" (is "ledger_inv _ _ _ ?s")
proof -
  note e = ledger_invD(2) [OF inv]
  have wf: "dwf (lg_entries s)" using e by (simp add: entries_ok_def)
  have sub: "dget (lg_entries ?s) i = Some x \<Longrightarrow> dget (lg_entries s) i = Some x" for i x
    using wf by (simp add: dget_gc split: option.splits if_splits)
  have "entries_ok ?s"
    using e wf sub unfolding entries_ok_def by simp blast
  moreover have "took_fact boot aw ret (lg_clock s) (dget (lg_entries ?s) i) i a"
    if t: "took_fact boot aw ret (lg_clock s) (dget (lg_entries s) i) i a" for i a
  proof (cases "lg_clock s - a > seconds ret")
    case True
    with t show ?thesis unfolding took_fact_def by blast
  next
    case False
    with t obtain st x where x: "dget (lg_entries s) i = Some (st, x)" "\<forall>u. x = Some u \<longrightarrow> a \<le> u"
      unfolding took_fact_def by blast
    have "\<not> stale_entry ret (lg_clock s) (st, x)"
      using x(2) False by (cases x) (simp_all add: stale_entry_def)
    then show ?thesis using x(1) wf t by (simp add: dget_gc)
  qed
  then have "took_ok boot aw ret ?s" using ledger_invD(3) [OF inv] by (simp add: took_ok_def)
  moreover have "refused_fact boot aw ret (lg_clock s) (dget (lg_entries ?s) i) r i t"
    if f: "refused_fact boot aw ret (lg_clock s) (dget (lg_entries s) i) r i t" for r i t
  proof (cases "\<exists>w. dget (lg_entries s) i = Some (refused_word, w) \<and> stale_entry ret (lg_clock s) (refused_word, w)")
    case True
    then obtain u where g: "dget (lg_entries s) i = Some (refused_word, Some u)" and u: "lg_clock s - u > seconds ret"
      by (auto simp: stale_entry_def split: option.splits)
    from f obtain b ms where p: "parse_dispatch_id i = Some (b, ms)" unfolding refused_fact_def by blast
    have "lg_clock s - 1000 * ms > seconds aw"
      using entry_written [OF e g p] u ret by linarith
    with f p show ?thesis unfolding refused_fact_def by fastforce
  next
    case False
    then have "(\<exists>w. dget (lg_entries s) i = Some (refused_word, w)) \<Longrightarrow>
        (\<exists>w. dget (lg_entries ?s) i = Some (refused_word, w))"
      using wf by (auto simp: dget_gc)
    with f show ?thesis unfolding refused_fact_def by blast
  qed
  then have "refused_ok boot aw ret ?s"
    using ledger_invD(4) [OF inv] by (simp add: refused_ok_def was_taken_def)
  ultimately show ?thesis
    using ledger_invD(1,5) [OF inv] by (simp add: ledger_inv_def issued_ok_def took_once_def)
qed

lemma ledger_log_plain:
  assumes inv: "ledger_inv boot aw ret s" and e: "\<And>i t. e \<noteq> Took i t" "\<And>i t. e \<noteq> Settled i Refused_verdict t"
  shows "ledger_inv boot aw ret (s\<lparr>lg_log := e # lg_log s\<rparr>)"
proof -
  have "was_taken i (s\<lparr>lg_log := e # lg_log s\<rparr>) = was_taken i s" for i using e(1) by (simp add: was_taken_def) metis
  then have "refused_ok boot aw ret (s\<lparr>lg_log := e # lg_log s\<rparr>)"
    using ledger_invD(4) [OF inv] e(2) by (simp add: refused_ok_def) metis
  moreover have "took_ok boot aw ret (s\<lparr>lg_log := e # lg_log s\<rparr>)"
    using ledger_invD(3) [OF inv] e(1) by (simp add: took_ok_def) metis
  moreover have "took_once (s\<lparr>lg_log := e # lg_log s\<rparr>)"
    using ledger_invD(5) [OF inv] e(1) by (simp add: took_once_def count_if_Cons)
  ultimately show ?thesis using ledger_invD(1,2) [OF inv]
    by (simp add: ledger_inv_def issued_ok_def entries_ok_def)
qed

lemma entries_put:
  assumes e: "entries_ok s" and p: "parse_dispatch_id i = Some (b, ms)" "1000 * ms \<le> lg_clock s"
    and x: "x = (admitted_word, None) \<or> (\<exists>st. st \<noteq> admitted_word \<and> x = (st, Some (lg_clock s)))"
  shows "entries_ok (s\<lparr>lg_entries := dput i x (lg_entries s)\<rparr>)" (is "entries_ok ?s")
  unfolding entries_ok_def
proof (intro conjI allI impI)
  show "dwf (lg_entries ?s)" using e by (simp add: entries_ok_def dwf_dput)
  fix j st t
  assume g: "dget (lg_entries ?s) j = Some (st, t)"
  show "(st = admitted_word) = (t = None)"
    "\<exists>b ms. parse_dispatch_id j = Some (b, ms) \<and> 1000 * ms \<le> lg_clock ?s \<and>
         (\<forall>u. t = Some u \<longrightarrow> 1000 * ms \<le> u \<and> u \<le> lg_clock ?s)"
  proof (atomize(full), cases "i = j")
    case True
    then have "(st, t) = x" using g by (simp add: dget_dput)
    then show "(st = admitted_word) = (t = None) \<and> (\<exists>b ms. parse_dispatch_id j = Some (b, ms) \<and>
        1000 * ms \<le> lg_clock ?s \<and> (\<forall>u. t = Some u \<longrightarrow> 1000 * ms \<le> u \<and> u \<le> lg_clock ?s))"
      using x p True by (elim disjE exE conjE) simp_all
  next
    case False
    then have "dget (lg_entries s) j = Some (st, t)" using g by (simp add: dget_dput)
    then show "(st = admitted_word) = (t = None) \<and> (\<exists>b ms. parse_dispatch_id j = Some (b, ms) \<and>
        1000 * ms \<le> lg_clock ?s \<and> (\<forall>u. t = Some u \<longrightarrow> 1000 * ms \<le> u \<and> u \<le> lg_clock ?s))"
      using e unfolding entries_ok_def by simp
  qed
qed

lemma ledger_put_refused:
  assumes inv: "ledger_inv boot aw ret s" and none: "dget (lg_entries s) i = None"
    and p: "parse_dispatch_id i = Some (b, ms)" "1000 * ms \<le> lg_clock s"
  shows "ledger_inv boot aw ret (s\<lparr>lg_entries := dput i (refused_word, Some (lg_clock s)) (lg_entries s)\<rparr>)"
    (is "ledger_inv _ _ _ ?s")
proof -
  have "entries_ok ?s" by (rule entries_put [OF ledger_invD(2) [OF inv] p]) simp
  moreover have "took_ok boot aw ret ?s"
    unfolding took_ok_def
  proof (intro allI impI)
    fix j a assume "Took j a \<in> set (lg_log ?s)"
    then have "took_fact boot aw ret (lg_clock s) (dget (lg_entries s) j) j a"
      using tookD [OF ledger_invD(3) [OF inv]] by simp
    then show "took_fact boot aw ret (lg_clock ?s) (dget (lg_entries ?s) j) j a"
      using none took_fact_other by (cases "i = j") (simp_all add: dget_dput)
  qed
  moreover have "refused_ok boot aw ret ?s"
    unfolding refused_ok_def
  proof (intro allI impI)
    fix j t assume "Settled j Refused_verdict t \<in> set (lg_log ?s)"
    then have "refused_fact boot aw ret (lg_clock s) (dget (lg_entries s) j) (was_taken j s) j t"
      using refusedD [OF ledger_invD(4) [OF inv]] by simp
    moreover have "was_taken j ?s = was_taken j s" by (simp add: was_taken_def)
    ultimately show "refused_fact boot aw ret (lg_clock ?s) (dget (lg_entries ?s) j) (was_taken j ?s) j t"
      using refused_fact_tombstone by (cases "i = j") (simp_all add: dget_dput)
  qed
  ultimately show ?thesis
    using ledger_invD(1,5) [OF inv] by (simp add: ledger_inv_def issued_ok_def took_once_def)
qed

lemma not_taken_yet:
  assumes inv: "ledger_inv boot aw ret s" and none: "dget (lg_entries s) i = None"
    and p: "parse_dispatch_id i = Some (boot, ms)" "1000 * ms \<le> lg_clock s" "lg_clock s - 1000 * ms \<le> seconds aw"
    and ret: "3 * aw + 1 \<le> ret"
  shows "Took i a \<notin> set (lg_log s)"
proof
  assume "Took i a \<in> set (lg_log s)"
  then have "took_fact boot aw ret (lg_clock s) None i a"
    using tookD [OF ledger_invD(3) [OF inv]] none by fastforce
  then have "1000 * ms \<le> a" "lg_clock s - a > seconds ret" using p(1) unfolding took_fact_def by auto
  then show False using p(2,3) ret by linarith
qed

lemma count_if_none: "(\<And>x. x \<in> set xs \<Longrightarrow> \<not> P x) \<Longrightarrow> count_if P xs = 0"
  by (simp add: count_if_def filter_empty_conv)

lemma ledger_put_admitted:
  assumes inv: "ledger_inv boot aw ret s" and none: "dget (lg_entries s) i = None"
    and p: "parse_dispatch_id i = Some (boot, ms)" "1000 * ms \<le> lg_clock s" "lg_clock s - 1000 * ms \<le> seconds aw"
    and ret: "3 * aw + 1 \<le> ret"
  shows "ledger_inv boot aw ret (s\<lparr>lg_entries := dput i (admitted_word, None) (lg_entries s),
           lg_log := Took i (lg_clock s) # lg_log s\<rparr>)" (is "ledger_inv _ _ _ ?s")
proof -
  have fresh: "Took i a \<notin> set (lg_log s)" for a by (rule not_taken_yet [OF inv none p ret])
  have "entries_ok (s\<lparr>lg_entries := dput i (admitted_word, None) (lg_entries s)\<rparr>)"
    by (rule entries_put [OF ledger_invD(2) [OF inv] p(1,2)]) simp
  then have "entries_ok ?s" by (simp add: entries_ok_def)
  moreover have "took_ok boot aw ret ?s"
    unfolding took_ok_def
  proof (intro allI impI)
    fix j a assume t: "Took j a \<in> set (lg_log ?s)"
    show "took_fact boot aw ret (lg_clock ?s) (dget (lg_entries ?s) j) j a"
    proof (cases "i = j")
      case True
      then have "a = lg_clock s" using t fresh by simp
      then show ?thesis using True p by (simp add: dget_dput took_fact_def)
    next
      case False
      then have "Took j a \<in> set (lg_log s)" using t by simp
      from tookD [OF ledger_invD(3) [OF inv] this] False show ?thesis by (simp add: dget_dput)
    qed
  qed
  moreover have "refused_ok boot aw ret ?s"
    unfolding refused_ok_def
  proof (intro allI impI)
    fix j t assume "Settled j Refused_verdict t \<in> set (lg_log ?s)"
    then have f: "refused_fact boot aw ret (lg_clock s) (dget (lg_entries s) j) (was_taken j s) j t"
      using refusedD [OF ledger_invD(4) [OF inv]] by simp
    show "refused_fact boot aw ret (lg_clock ?s) (dget (lg_entries ?s) j) (was_taken j ?s) j t"
    proof (cases "i = j")
      case True
      with f p none have "\<not> t - 1000 * ms < seconds ret" unfolding refused_fact_def by auto
      then show ?thesis using True p unfolding refused_fact_def by blast
    next
      case False
      then have "was_taken j ?s = was_taken j s" by (simp add: was_taken_def)
      with f False show ?thesis by (simp add: dget_dput)
    qed
  qed
  moreover have "took_once ?s"
  proof -
    have "count_if (\<lambda>e. \<exists>t. e = Took i t) (lg_log s) = 0" using fresh by (intro count_if_none) auto
    then show ?thesis using ledger_invD(5) [OF inv] by (auto simp: took_once_def count_if_Cons)
  qed
  ultimately show ?thesis using ledger_invD(1) [OF inv] by (simp add: ledger_inv_def issued_ok_def)
qed

lemma ledger_finish_inv:
  assumes inv: "ledger_inv boot aw ret s" and st: "st \<noteq> admitted_word" "st \<noteq> refused_word"
  shows "ledger_inv boot aw ret (s\<lparr>lg_entries := ledger_finish i st (lg_clock s) (lg_entries s)\<rparr>)"
proof (cases "\<exists>t. dget (lg_entries s) i = Some (admitted_word, t)")
  case False
  then have "ledger_finish i st (lg_clock s) (lg_entries s) = lg_entries s"
    by (auto simp: ledger_finish_def split: option.splits)
  then show ?thesis using inv by simp
next
  case True
  then obtain t where g: "dget (lg_entries s) i = Some (admitted_word, t)" by blast
  let ?s = "s\<lparr>lg_entries := dput i (st, Some (lg_clock s)) (lg_entries s)\<rparr>"
  obtain b ms where p: "parse_dispatch_id i = Some (b, ms)" "1000 * ms \<le> lg_clock s"
    using entry_parsed [OF ledger_invD(2) [OF inv] g] .
  have "entries_ok ?s" by (rule entries_put [OF ledger_invD(2) [OF inv] p]) (simp add: st)
  moreover have "took_ok boot aw ret ?s"
    unfolding took_ok_def
  proof (intro allI impI)
    fix j a assume "Took j a \<in> set (lg_log ?s)"
    then have f: "took_fact boot aw ret (lg_clock s) (dget (lg_entries s) j) j a"
      using tookD [OF ledger_invD(3) [OF inv]] by simp
    then have "took_fact boot aw ret (lg_clock s) (Some (st, Some (lg_clock s))) j a"
      using st unfolding took_fact_def by auto
    with f show "took_fact boot aw ret (lg_clock ?s) (dget (lg_entries ?s) j) j a"
      by (cases "i = j") (simp_all add: dget_dput)
  qed
  moreover have "refused_ok boot aw ret ?s"
    unfolding refused_ok_def
  proof (intro allI impI)
    fix j u assume "Settled j Refused_verdict u \<in> set (lg_log ?s)"
    then have f: "refused_fact boot aw ret (lg_clock s) (dget (lg_entries s) j) (was_taken j s) j u"
      using refusedD [OF ledger_invD(4) [OF inv]] by simp
    have "was_taken j ?s = was_taken j s" by (simp add: was_taken_def)
    moreover have "refused_fact boot aw ret (lg_clock s) e (was_taken j s) j u" if "i = j" for e
      using f that g unfolding refused_fact_def by auto
    ultimately show "refused_fact boot aw ret (lg_clock ?s) (dget (lg_entries ?s) j) (was_taken j ?s) j u"
      using f by (cases "i = j") (simp_all add: dget_dput)
  qed
  ultimately have "ledger_inv boot aw ret ?s"
    using ledger_invD(1,5) [OF inv] by (simp add: ledger_inv_def issued_ok_def took_once_def)
  then show ?thesis using g by (simp add: ledger_finish_def)
qed

lemma admit_cases:
  assumes "parse_dispatch_id i = Some (b, ms)"
    and "ok0 \<longleftrightarrow> b = boot \<and> now - 1000 * ms \<le> seconds aw \<and> 1000 * ms - now \<le> future_skew"
  shows "admit boot aw ret now i d =
    (if dget (ledger_gc ret now d) i \<noteq> None then (False, ledger_gc ret now d)
     else (ok0, dput i (if ok0 then (admitted_word, None) else (refused_word, Some now)) (ledger_gc ret now d)))"
  using assms(1) unfolding assms(2) by (simp add: admit_def Let_def)

lemma settle_cases:
  assumes "parse_dispatch_id i = Some (b, ms)"
    and "ok0 \<longleftrightarrow> b = boot \<and> now - 1000 * ms < seconds ret \<and> 1000 * ms - now \<le> future_skew"
  shows "settle boot ret now i d =
    (case dget (ledger_gc ret now d) i of
       Some e \<Rightarrow> (if fst e = refused_word then Refused_verdict else Received, ledger_gc ret now d)
     | None \<Rightarrow> if ok0 then (Refused_verdict, dput i (refused_word, Some now) (ledger_gc ret now d))
               else (Unknown, ledger_gc ret now d))"
  using assms(1) unfolding assms(2) by (simp add: settle_def Let_def split: option.splits)

lemma ledger_arrive_inv:
  assumes inv: "ledger_inv boot aw ret s" and ret: "3 * aw + 1 \<le> ret" and i: "i \<in> fst ` set (lg_issued s)"
    and ad: "admit boot aw ret (lg_clock s) i (lg_entries s) = (ok, d)"
  shows "ledger_inv boot aw ret (s\<lparr>lg_entries := d,
      lg_log := (if ok then Took i (lg_clock s) else Turned_away i (lg_clock s)) # lg_log s\<rparr>)"
proof -
  define s0 where "s0 = s\<lparr>lg_entries := ledger_gc ret (lg_clock s) (lg_entries s)\<rparr>"
  have inv0: "ledger_inv boot aw ret s0" unfolding s0_def by (rule ledger_gc_inv [OF inv ret])
  obtain b ms where p: "parse_dispatch_id i = Some (b, ms)" "1000 * ms \<le> lg_clock s"
    using issuedD [OF ledger_invD(1) [OF inv] i] .
  define ok0 where "ok0 \<longleftrightarrow> b = boot \<and> lg_clock s - 1000 * ms \<le> seconds aw \<and> 1000 * ms - lg_clock s \<le> future_skew"
  show ?thesis
  proof (cases "dget (lg_entries s0) i")
    case (Some x)
    then have "ok = False" "d = lg_entries s0"
      using ad unfolding admit_cases [OF p(1) ok0_def] by (simp_all add: s0_def)
    then show ?thesis using ledger_log_plain [OF inv0, of "Turned_away i (lg_clock s)"]
      by (simp add: s0_def)
  next
    case None
    then have d: "ok = ok0" "d = dput i (if ok0 then (admitted_word, None) else (refused_word, Some (lg_clock s))) (lg_entries s0)"
      using ad None unfolding admit_cases [OF p(1) ok0_def] by (auto simp: s0_def)
    show ?thesis
    proof (cases ok0)
      case True
      then have "b = boot" "lg_clock s - 1000 * ms \<le> seconds aw" by (simp_all add: ok0_def)
      then have "ledger_inv boot aw ret (s0\<lparr>lg_entries := dput i (admitted_word, None) (lg_entries s0),
           lg_log := Took i (lg_clock s0) # lg_log s0\<rparr>)"
        using ledger_put_admitted [OF inv0 None _ _ _ ret] p by (simp add: s0_def)
      then show ?thesis using d True by (simp add: s0_def)
    next
      case False
      have "ledger_inv boot aw ret (s0\<lparr>lg_entries := dput i (refused_word, Some (lg_clock s0)) (lg_entries s0)\<rparr>)"
        using ledger_put_refused [OF inv0 None] p by (simp add: s0_def)
      from ledger_log_plain [OF this, of "Turned_away i (lg_clock s)"]
      show ?thesis using d False by (simp add: s0_def)
    qed
  qed
qed

lemma ledger_log_refused:
  assumes inv: "ledger_inv boot aw ret s" and g: "dget (lg_entries s) i = Some (refused_word, w)"
    and ret: "0 \<le> aw \<longrightarrow> 3 * aw + 1 \<le> ret"
  shows "ledger_inv boot aw ret (s\<lparr>lg_log := Settled i Refused_verdict (lg_clock s) # lg_log s\<rparr>)"
    (is "ledger_inv _ _ _ ?s")
proof -
  obtain b ms where p: "parse_dispatch_id i = Some (b, ms)"
    using entry_parsed [OF ledger_invD(2) [OF inv] g] .
  have rn: "was_taken j ?s = was_taken j s" for j by (simp add: was_taken_def)
  have "\<not> was_taken i s" if "lg_clock s - 1000 * ms < seconds ret"
  proof
    assume "was_taken i s"
    then obtain a where "took_fact boot aw ret (lg_clock s) (Some (refused_word, w)) i a"
      using tookD [OF ledger_invD(3) [OF inv]] g unfolding was_taken_def by metis
    then have "1000 * ms \<le> a" "lg_clock s - a > seconds ret" using p unfolding took_fact_def by auto
    then show False using that by linarith
  qed
  then have "refused_fact boot aw ret (lg_clock s) (dget (lg_entries s) i) (was_taken i s) i (lg_clock s)"
    using p g unfolding refused_fact_def by blast
  moreover have "refused_fact boot aw ret (lg_clock s) (dget (lg_entries s) j) (was_taken j s) j t"
    if "Settled j Refused_verdict t \<in> set (lg_log s)" for j t
    using refusedD [OF ledger_invD(4) [OF inv] that] .
  ultimately have "refused_ok boot aw ret ?s"
    unfolding refused_ok_def rn by simp
  then show ?thesis using inv
    by (simp add: ledger_inv_def issued_ok_def entries_ok_def took_ok_def took_once_def count_if_Cons)
qed

lemma ledger_settle_inv:
  assumes inv: "ledger_inv boot aw ret s" and ret: "3 * aw + 1 \<le> ret" and i: "i \<in> fst ` set (lg_issued s)"
    and se: "settle boot ret (lg_clock s) i (lg_entries s) = (v, d)"
  shows "ledger_inv boot aw ret (s\<lparr>lg_entries := d, lg_log := Settled i v (lg_clock s) # lg_log s\<rparr>)"
proof -
  define s0 where "s0 = s\<lparr>lg_entries := ledger_gc ret (lg_clock s) (lg_entries s)\<rparr>"
  have inv0: "ledger_inv boot aw ret s0" unfolding s0_def by (rule ledger_gc_inv [OF inv ret])
  obtain b ms where p: "parse_dispatch_id i = Some (b, ms)" "1000 * ms \<le> lg_clock s"
    using issuedD [OF ledger_invD(1) [OF inv] i] .
  define x where "x = dget (lg_entries s0) i"
  define ok0 where "ok0 \<longleftrightarrow> b = boot \<and> lg_clock s - 1000 * ms < seconds ret \<and> 1000 * ms - lg_clock s \<le> future_skew"
  consider (kept) st t where "x = Some (st, t)" "st = refused_word" "v = Refused_verdict" "d = lg_entries s0"
    | (plain) "v \<noteq> Refused_verdict" "d = lg_entries s0"
    | (fresh) "x = None" "v = Refused_verdict" "d = dput i (refused_word, Some (lg_clock s)) (lg_entries s0)"
  proof -
    have eq: "(v, d) = (case x of
          Some e \<Rightarrow> (if fst e = refused_word then Refused_verdict else Received, lg_entries s0)
        | None \<Rightarrow> if ok0 then (Refused_verdict, dput i (refused_word, Some (lg_clock s)) (lg_entries s0))
                  else (Unknown, lg_entries s0))"
      using se [symmetric] unfolding settle_cases [OF p(1) ok0_def] x_def s0_def
      by (simp split: option.split)
    show thesis
    proof (cases x)
      case None
      with eq fresh plain show thesis by (cases ok0) simp_all
    next
      case (Some e)
      with eq kept plain show thesis by (cases e; cases "fst e = refused_word") auto
    qed
  qed
  then show ?thesis
  proof cases
    case kept
    then have "dget (lg_entries s0) i = Some (refused_word, t)" by (simp add: x_def)
    from ledger_log_refused [OF inv0 this] ret kept show ?thesis by (simp add: s0_def)
  next
    case plain
    then show ?thesis using ledger_log_plain [OF inv0, of "Settled i v (lg_clock s)"] by (simp add: s0_def)
  next
    case fresh
    let ?s1 = "s0\<lparr>lg_entries := dput i (refused_word, Some (lg_clock s0)) (lg_entries s0)\<rparr>"
    have "ledger_inv boot aw ret ?s1"
      using ledger_put_refused [OF inv0] fresh p by (simp add: s0_def x_def)
    moreover have "dget (lg_entries ?s1) i = Some (refused_word, Some (lg_clock s0))" by (simp add: dget_dput)
    ultimately have "ledger_inv boot aw ret (?s1\<lparr>lg_log := Settled i Refused_verdict (lg_clock ?s1) # lg_log ?s1\<rparr>)"
      by (rule ledger_log_refused) (use ret in simp)
    then show ?thesis using fresh by (simp add: s0_def)
  qed
qed

lemma ledger_start_inv: "ledger_inv boot aw ret (start_ledger t)"
  by (simp add: ledger_inv_def start_ledger_def issued_ok_def entries_ok_def took_ok_def refused_ok_def
      took_once_def)

interpretation ledgers: machine "\<lambda>s. \<exists>t. s = start_ledger t" "ledger_step boot aw (retention cfg aw)"
  "ledger_inv boot aw (retention cfg aw)"
proof unfold_locales
  show "ledger_inv boot aw (retention cfg aw) s" if "\<exists>t. s = start_ledger t" for s
    using that ledger_start_inv by blast
  have ret: "3 * aw + 1 \<le> retention cfg aw" by (simp add: retention_def)
  show "ledger_inv boot aw (retention cfg aw) t"
    if inv: "ledger_inv boot aw (retention cfg aw) s" and "ledger_step boot aw (retention cfg aw) s t" for s t
    using that(2)
  proof cases
    case (lg_tick dt)
    then show ?thesis using ledger_tick [OF inv] by simp
  next
    case (lg_issue b rand)
    then show ?thesis using ledger_issue [OF inv] by simp
  next
    case (lg_arrive i ok d)
    then show ?thesis using ledger_arrive_inv [OF inv ret] by simp
  next
    case (lg_finish st i)
    then show ?thesis using ledger_finish_inv [OF inv, of st i] by auto
  next
    case (lg_settle i v d)
    then show ?thesis using ledger_settle_inv [OF inv ret] by simp
  qed
qed

section \<open>The properties of the ledger\<close>

subsection \<open>A run to test them on\<close>

definition demo_rand :: string where
  "demo_rand = replicate 32 CHR ''a''"

definition demo_id :: string where
  "demo_id = new_dispatch_id ''b'' 0 demo_rand"

definition demo_issued :: ledger_system where
  "demo_issued = \<lparr>lg_clock = 0, lg_issued = [(demo_id, 0)], lg_entries = [], lg_log = []\<rparr>"

lemma demo_parse: "parse_dispatch_id demo_id = Some (''b'', 0)"
proof -
  have "0 < (10 :: nat) ^ max_str_digits" by simp
  then have "parse_dispatch_id (dispatch_id_of ''b'' 0 demo_rand) = Some (''b'', int 0)"
    by (intro parse_new_dispatch_id) (simp_all add: demo_rand_def)
  then show ?thesis by (simp add: demo_id_def new_dispatch_id_def)
qed

lemma demo_issued_reachable: "(ledger_step ''b'' aw ret)\<^sup>*\<^sup>* (start_ledger 0) demo_issued"
proof -
  have "ledger_step ''b'' aw ret (start_ledger 0)
     ((start_ledger 0)\<lparr>lg_issued := (new_dispatch_id ''b'' (lg_clock (start_ledger 0)) demo_rand,
         lg_clock (start_ledger 0)) # lg_issued (start_ledger 0)\<rparr>)"
    by (rule lg_issue) (simp_all add: start_ledger_def good_boot_def demo_rand_def)
  then show ?thesis by (simp add: demo_issued_def start_ledger_def demo_id_def r_into_rtranclp)
qed

definition demo_taken :: ledger_system where
  "demo_taken = demo_issued\<lparr>lg_entries := [(demo_id, admitted_word, None)], lg_log := [Took demo_id 0]\<rparr>"

lemma demo_taken_reachable:
  assumes "0 \<le> aw"
  shows "(ledger_step ''b'' aw ret)\<^sup>*\<^sup>* (start_ledger 0) demo_taken"
proof -
  have "admit ''b'' aw ret (lg_clock demo_issued) demo_id (lg_entries demo_issued) =
      (True, [(demo_id, admitted_word, None)])"
    using assms by (simp add: admit_def demo_issued_def ledger_gc_def demo_parse future_skew_def)
  then have "ledger_step ''b'' aw ret demo_issued (demo_issued\<lparr>lg_entries := [(demo_id, admitted_word, None)],
      lg_log := (if True then Took demo_id (lg_clock demo_issued) else Turned_away demo_id (lg_clock demo_issued))
        # lg_log demo_issued\<rparr>)"
    by (intro lg_arrive) (simp_all add: demo_issued_def)
  then have "ledger_step ''b'' aw ret demo_issued demo_taken" by (simp add: demo_taken_def demo_issued_def)
  with demo_issued_reachable show ?thesis by (rule rtranclp.rtrancl_into_rtrancl)
qed

definition demo_settled :: ledger_system where
  "demo_settled = demo_issued\<lparr>lg_entries := [(demo_id, refused_word, Some 0)],
     lg_log := [Settled demo_id Refused_verdict 0]\<rparr>"

lemma demo_settled_reachable:
  assumes "0 < ret"
  shows "(ledger_step ''b'' aw ret)\<^sup>*\<^sup>* (start_ledger 0) demo_settled"
proof -
  have "settle ''b'' ret (lg_clock demo_issued) demo_id (lg_entries demo_issued) =
      (Refused_verdict, [(demo_id, refused_word, Some 0)])"
    using assms by (simp add: settle_def demo_issued_def ledger_gc_def demo_parse future_skew_def)
  then have "ledger_step ''b'' aw ret demo_issued (demo_issued\<lparr>lg_entries := [(demo_id, refused_word, Some 0)],
      lg_log := Settled demo_id Refused_verdict (lg_clock demo_issued) # lg_log demo_issued\<rparr>)"
    by (intro lg_settle) (simp_all add: demo_issued_def)
  then have "ledger_step ''b'' aw ret demo_issued demo_settled" by (simp add: demo_settled_def demo_issued_def)
  with demo_issued_reachable show ?thesis by (rule rtranclp.rtrancl_into_rtrancl)
qed

subsection \<open>Statements\<close>

text \<open>
  C31. A dispatch runs at most once: however many copies of it arrive, early or late, and
  whatever is finished, settled or forgotten in between, the owner takes it in at most once.
\<close>

theorem dispatch_taken_once:
  assumes "(ledger_step boot aw (retention cfg aw))\<^sup>*\<^sup>* (start_ledger t) s"
  shows "count_if (\<lambda>e. \<exists>u. e = Took i u) (lg_log s) \<le> 1"
  using ledger_invD(5) [OF ledgers.reachable_inv [OF _ assms]] by (auto simp: took_once_def)

theorem dispatch_taken_once_witness: "count_if (\<lambda>e. \<exists>u. e = Took demo_id u) (lg_log demo_taken) = 1"
proof -
  have "count_if (\<lambda>e. \<exists>u. e = Took demo_id u) (lg_log demo_taken) \<le> 1"
    by (rule dispatch_taken_once [of "''b''" 10 600 0, OF demo_taken_reachable]) simp
  then show ?thesis by (simp add: demo_taken_def count_if_Cons)
qed

text \<open>
  A refusal is definite: when a settlement answers ``refused'' within the retention of the
  id's issue, the dispatch was not taken in before and is not taken in at any later time, so
  the sender may run the request elsewhere.
\<close>

theorem dispatch_refusal_definite:
  assumes "(ledger_step boot aw (retention cfg aw))\<^sup>*\<^sup>* (start_ledger t0) s"
    and "Settled i Refused_verdict t \<in> set (lg_log s)"
    and "parse_dispatch_id i = Some (b, ms)" and "t - 1000 * ms < seconds (retention cfg aw)"
  shows "Took i u \<notin> set (lg_log s)"
proof -
  have "ledger_inv boot aw (retention cfg aw) s" using ledgers.reachable_inv [OF _ assms(1)] by blast
  from refusedD [OF ledger_invD(4) [OF this] assms(2)] assms(3,4) show ?thesis
    unfolding refused_fact_def was_taken_def by auto
qed

theorem dispatch_refusal_definite_witness:
  "Settled demo_id Refused_verdict 0 \<in> set (lg_log demo_settled) \<and> Took demo_id 0 \<notin> set (lg_log demo_settled)"
proof -
  have r: "0 < retention 600 10" by (simp add: retention_def)
  have m: "Settled demo_id Refused_verdict 0 \<in> set (lg_log demo_settled)" by (simp add: demo_settled_def)
  from dispatch_refusal_definite [OF demo_settled_reachable [OF r] m demo_parse] m r show ?thesis by simp
qed

text \<open>
  Ids round-trip: the id a sender makes for a boot parses to that boot and to the
  millisecond it was issued in.
\<close>

theorem dispatch_id_roundtrip:
  assumes "good_boot boot" and "0 \<le> now" and "now < 10 ^ 20" and "length rand = 32" and "CHR ''.'' \<notin> set rand"
  shows "parse_dispatch_id (new_dispatch_id boot now rand) = Some (boot, now div 1000)"
proof -
  have "nat (now div 1000) < 10 ^ max_str_digits" by (rule below_digit_limit) (use assms in simp)
  from parse_new_dispatch_id [OF _ _ assms(5,4) this] assms(1,2) show ?thesis
    by (simp add: new_dispatch_id_def good_boot_def)
qed

theorem dispatch_id_roundtrip_witness:
  "parse_dispatch_id (new_dispatch_id ''b0'' 1700000000123456 demo_rand) = Some (''b0'', 1700000000123)"
proof -
  have "parse_dispatch_id (new_dispatch_id ''b0'' 1700000000123456 demo_rand) =
      Some (''b0'', 1700000000123456 div 1000)"
    by (rule dispatch_id_roundtrip) (simp_all add: good_boot_def demo_rand_def)
  then show ?thesis by simp
qed

text \<open>
  The two edges of C12.  An id from a clock up to five seconds ahead, which \<open>admit\<close> accepts,
  can have run and be forgotten while \<open>settle\<close> still calls its absence a refusal; and a copy
  that arrives after the entry is forgotten leaves a tombstone that a later settlement reports.
\<close>

definition ahead_id :: string where
  "ahead_id = dispatch_id_of ''b'' 10000 demo_rand"

lemma ahead_parse: "parse_dispatch_id ahead_id = Some (''b'', 10000)"
proof -
  have "(10000 :: nat) < 10 ^ max_str_digits" by (rule below_digit_limit) simp
  then have "parse_dispatch_id (dispatch_id_of ''b'' 10000 demo_rand) = Some (''b'', int 10000)"
    by (intro parse_new_dispatch_id) (simp_all add: demo_rand_def)
  then show ?thesis by (simp add: ahead_id_def)
qed

lemma ahead_id_ran_yet_refused:
  "admit ''b'' 10 600 (seconds 5) ahead_id [] = (True, [(ahead_id, admitted_word, None)])"
  "fst (settle ''b'' 600 (seconds 606) ahead_id
     (ledger_finish ahead_id ''completed'' (seconds 5) [(ahead_id, admitted_word, None)])) = Refused_verdict"
  by (simp_all add: admit_def settle_def ledger_finish_def ledger_gc_def stale_entry_def ahead_parse
      future_skew_def dget_Cons dput_Cons)

lemma late_copy_turns_received_into_refused:
  "admit ''b'' 10 600 (seconds 10) ahead_id [] = (True, [(ahead_id, admitted_word, None)])"
  "fst (settle ''b'' 600 (seconds 700) ahead_id
     (snd (admit ''b'' 10 600 (seconds 700) ahead_id
       (ledger_finish ahead_id ''completed'' (seconds 10) [(ahead_id, admitted_word, None)])))) = Refused_verdict"
  by (simp_all add: admit_def settle_def ledger_finish_def ledger_gc_def stale_entry_def ahead_parse
      future_skew_def dget_Cons dput_Cons)

end
