(* ===== verification/HandoffPeers.thy ===== *)
theory HandoffPeers
  imports DispatchLedger
begin

text \<open>
  The gateway instances of a blue/green pair and how they talk: identity and liveness
  (\<open>src/src/instance_registry.py\<close>), signed calls between them (\<open>src/src/handoff/peer.py\<close>) and the
  drain target of an instance (\<open>src/src/handoff/drain.py\<close>).  The keyed hash is an argument
  \<open>mac\<close> (key, message); environment variables are arguments with \<open>[]\<close> for an unset one, as
  the code reads them.
\<close>

section \<open>Identity\<close>

record gw_instance =
  in_name :: string
  in_boot :: string
  in_url :: string

definition name_char :: "char \<Rightarrow> bool" where
  "name_char c \<longleftrightarrow> (97 \<le> code c \<and> code c \<le> 122) \<or> is_digit c \<or> c = CHR ''-''"

definition instance_name_ok :: "string \<Rightarrow> bool" where
  "instance_name_ok n \<longleftrightarrow>
     n \<noteq> [] \<and> length n \<le> 32 \<and> 97 \<le> code (hd n) \<and> code (hd n) \<le> 122 \<and> list_all name_char n"

definition instance_name :: "string \<Rightarrow> unit + string" where
  "instance_name env =
     (let n = lower_text (strip_text env)
      in if n \<noteq> [] \<and> \<not> instance_name_ok n then Inl () else Inr n)"

definition rstrip_slash :: "string \<Rightarrow> string" where
  "rstrip_slash s = rev (dropWhile (\<lambda>c. c = CHR ''/'') (rev s))"

definition instance_url :: "string \<Rightarrow> string \<Rightarrow> nat \<Rightarrow> string option \<Rightarrow> string" where
  "instance_url me env_url port name =
     (let n = (case name of Some n \<Rightarrow> if n = [] then me else n | None \<Rightarrow> me);
          raw = strip_text env_url
      in if raw \<noteq> [] \<and> n = me then rstrip_slash raw
         else ''http://gateway-'' @ n @ '':'' @ dec port)"

section \<open>The registry directory\<close>

text \<open>
  Per name, the process holding the liveness lock and the record last published.  A process is
  a number with the identity it was started with; \<open>registering\<close> are those between taking the
  lock and replacing the record file.
\<close>

record registry =
  rg_lock :: "string \<Rightarrow> nat option"
  rg_record :: "string \<Rightarrow> gw_instance option"
  rg_publishing :: "nat set"
  rg_gone :: "nat set"

definition empty_registry :: registry where
  "empty_registry = \<lparr>rg_lock = (\<lambda>_. None), rg_record = (\<lambda>_. None), rg_publishing = {}, rg_gone = {}\<rparr>"

definition register_lock :: "(nat \<Rightarrow> gw_instance) \<Rightarrow> nat \<Rightarrow> registry \<Rightarrow> (unit + bool) \<times> registry" where
  "register_lock ident p r =
     (let n = in_name (ident p)
      in if n = [] \<or> rg_lock r n = Some p then (Inr False, r)
         else if rg_lock r n \<noteq> None then (Inl (), r)
         else (Inr True, r\<lparr>rg_lock := (rg_lock r)(n := Some p), rg_publishing := insert p (rg_publishing r)\<rparr>))"

definition publish_record :: "(nat \<Rightarrow> gw_instance) \<Rightarrow> nat \<Rightarrow> registry \<Rightarrow> registry" where
  "publish_record ident p r =
     r\<lparr>rg_record := (rg_record r)(in_name (ident p) := Some (ident p)), rg_publishing := rg_publishing r - {p}\<rparr>"

text \<open>\<open>unregister\<close>, and equally the kernel when the process dies: the lock goes, the record stays.\<close>

definition unregister :: "(nat \<Rightarrow> gw_instance) \<Rightarrow> nat \<Rightarrow> registry \<Rightarrow> registry" where
  "unregister ident p r =
     (if rg_lock r (in_name (ident p)) = Some p
      then r\<lparr>rg_lock := (rg_lock r)(in_name (ident p) := None), rg_publishing := rg_publishing r - {p},
             rg_gone := insert p (rg_gone r)\<rparr>
      else r)"

definition is_alive :: "string \<Rightarrow> registry \<Rightarrow> bool" where
  "is_alive n r \<longleftrightarrow> rg_lock r n \<noteq> None"

definition registry_lookup :: "string \<Rightarrow> registry \<Rightarrow> gw_instance option" where
  "registry_lookup n r =
     (if \<not> is_alive n r then None
      else case rg_record r n of None \<Rightarrow> None | Some i \<Rightarrow> Some (i\<lparr>in_name := n\<rparr>))"

definition other_live_instances :: "string \<Rightarrow> string list \<Rightarrow> registry \<Rightarrow> string list" where
  "other_live_instances me lockfile_stems r =
     filter (\<lambda>n. n \<noteq> me \<and> instance_name_ok n \<and> is_alive n r) lockfile_stems"

inductive registry_step :: "(nat \<Rightarrow> gw_instance) \<Rightarrow> registry \<Rightarrow> registry \<Rightarrow> bool" for ident where
  rg_register: "p \<notin> rg_gone r \<Longrightarrow> registry_step ident r (snd (register_lock ident p r))"
| rg_publish: "p \<in> rg_publishing r \<Longrightarrow> registry_step ident r (publish_record ident p r)"
| rg_leave: "registry_step ident r (unregister ident p r)"

definition registry_inv :: "(nat \<Rightarrow> gw_instance) \<Rightarrow> registry \<Rightarrow> bool" where
  "registry_inv ident r \<longleftrightarrow>
     (\<forall>n p. rg_lock r n = Some p \<longrightarrow> in_name (ident p) = n) \<and>
     (\<forall>p. p \<in> rg_publishing r \<longrightarrow> rg_lock r (in_name (ident p)) = Some p) \<and>
     (\<forall>n i. rg_record r n = Some i \<longrightarrow> in_name i = n) \<and>
     (\<forall>n p. rg_lock r n = Some p \<longrightarrow> p \<notin> rg_publishing r \<longrightarrow> rg_record r n = Some (ident p))"

lemma registry_invD:
  assumes "registry_inv ident r"
  shows "rg_lock r n = Some p \<Longrightarrow> in_name (ident p) = n"
    and "p \<in> rg_publishing r \<Longrightarrow> rg_lock r (in_name (ident p)) = Some p"
    and "rg_record r n = Some i \<Longrightarrow> in_name i = n"
    and "rg_lock r n = Some p \<Longrightarrow> p \<notin> rg_publishing r \<Longrightarrow> rg_record r n = Some (ident p)"
  using assms unfolding registry_inv_def by blast+

lemma registry_invI:
  assumes "\<And>n p. rg_lock r n = Some p \<Longrightarrow> in_name (ident p) = n"
    and "\<And>p. p \<in> rg_publishing r \<Longrightarrow> rg_lock r (in_name (ident p)) = Some p"
    and "\<And>n i. rg_record r n = Some i \<Longrightarrow> in_name i = n"
    and "\<And>n p. rg_lock r n = Some p \<Longrightarrow> p \<notin> rg_publishing r \<Longrightarrow> rg_record r n = Some (ident p)"
  shows "registry_inv ident r"
  unfolding registry_inv_def using assms by blast

lemma registry_inv_register:
  assumes inv: "registry_inv ident r"
  shows "registry_inv ident (snd (register_lock ident p r))"
proof (cases "in_name (ident p) = [] \<or> rg_lock r (in_name (ident p)) \<noteq> None")
  case True
  then have "snd (register_lock ident p r) = r" by (auto simp: register_lock_def Let_def)
  then show ?thesis using inv by simp
next
  case False
  let ?n = "in_name (ident p)"
  have free: "rg_lock r ?n = None" using False by simp
  have eq: "snd (register_lock ident p r) =
      r\<lparr>rg_lock := (rg_lock r)(?n := Some p), rg_publishing := insert p (rg_publishing r)\<rparr>"
    using False by (simp add: register_lock_def Let_def)
  show ?thesis
    unfolding eq
  proof (rule registry_invI, goal_cases)
    case (1 n q)
    then show ?case using registry_invD(1) [OF inv] by (simp split: if_splits)
  next
    case (2 q)
    then show ?case using registry_invD(2) [OF inv, of q] free by (cases "q = p") auto
  next
    case (3 n i)
    then show ?case using registry_invD(3) [OF inv] by simp
  next
    case (4 n q)
    then show ?case using registry_invD(4) [OF inv] by (simp split: if_splits)
  qed
qed

lemma registry_inv_publish:
  assumes inv: "registry_inv ident r" and p: "p \<in> rg_publishing r"
  shows "registry_inv ident (publish_record ident p r)"
  unfolding publish_record_def
proof (rule registry_invI, goal_cases)
  case (1 n q)
  then show ?case using registry_invD(1) [OF inv] by simp
next
  case (2 q)
  then show ?case using registry_invD(2) [OF inv] by simp
next
  case (3 n i)
  then show ?case using registry_invD(3) [OF inv] by (simp split: if_splits)
next
  case (4 n q)
  show ?case
  proof (cases "n = in_name (ident p)")
    case True
    then have "q = p" using 4 registry_invD(2) [OF inv p] by simp
    then show ?thesis using True by simp
  next
    case False
    have "q \<noteq> p" using 4(1) registry_invD(1) [OF inv, of n q] False by auto
    then show ?thesis using False 4 registry_invD(4) [OF inv, of n q] by simp
  qed
qed

lemma registry_inv_unregister:
  assumes inv: "registry_inv ident r"
  shows "registry_inv ident (unregister ident p r)"
proof (cases "rg_lock r (in_name (ident p)) = Some p")
  case False
  then show ?thesis using inv by (simp add: unregister_def)
next
  case True
  then have eq: "unregister ident p r = r\<lparr>rg_lock := (rg_lock r)(in_name (ident p) := None),
      rg_publishing := rg_publishing r - {p}, rg_gone := insert p (rg_gone r)\<rparr>"
    by (simp add: unregister_def)
  show ?thesis
    unfolding eq
  proof (rule registry_invI, goal_cases)
    case (1 n q)
    then show ?case using registry_invD(1) [OF inv] by (simp split: if_splits)
  next
    case (2 q)
    then have q: "q \<noteq> p" "q \<in> rg_publishing r" by simp_all
    have lq: "rg_lock r (in_name (ident q)) = Some q" using registry_invD(2) [OF inv q(2)] .
    then have "in_name (ident q) \<noteq> in_name (ident p)" using True q(1) by auto
    then show ?case using lq by simp
  next
    case (3 n i)
    then show ?case using registry_invD(3) [OF inv] by simp
  next
    case (4 n q)
    then have n: "n \<noteq> in_name (ident p)" "rg_lock r n = Some q" by (simp_all split: if_splits)
    then have "q \<noteq> p" using registry_invD(1) [OF inv n(2)] by auto
    then show ?case using 4 n registry_invD(4) [OF inv n(2)] by simp
  qed
qed

interpretation registries: machine "\<lambda>r. r = empty_registry" "registry_step ident" "registry_inv ident"
proof unfold_locales
  show "registry_inv ident r" if "r = empty_registry" for r
    using that by (simp add: registry_inv_def empty_registry_def)
  show "registry_inv ident s" if "registry_inv ident r" "registry_step ident r s" for r s
    using that(2,1) by cases
      (simp_all add: registry_inv_register registry_inv_publish registry_inv_unregister)
qed

section \<open>The shared secret\<close>

text \<open>
  \<open>shared_secret\<close> creates the key file exclusively and writes it in a second step; a reader
  decodes whatever the file holds.  Key bytes are numbers below 256; the writers not yet done
  are in \<open>sf_writers\<close>.
\<close>

record secret_file =
  sf_content :: "string option"
  sf_writers :: "(nat \<times> string) list"

definition no_secret :: secret_file where
  "no_secret = \<lparr>sf_content = None, sf_writers = []\<rparr>"

definition hex_val :: "char \<Rightarrow> nat" where
  "hex_val c = (if is_digit c then code c - 48 else if 97 \<le> code c then code c - 87 else code c - 55)"

fun from_hex :: "string \<Rightarrow> nat list option" where
  "from_hex [] = Some []"
| "from_hex [c] = None"
| "from_hex (a # b # s) =
     (if is_hex a \<and> is_hex b then map_option ((#) (16 * hex_val a + hex_val b)) (from_hex s) else None)"

datatype secret_answer = Key "nat list" | Bad_key | Now_writing

text \<open>\<open>v\<close> is the fresh 64-digit value this call would write.\<close>

definition secret_open :: "nat \<Rightarrow> string \<Rightarrow> secret_file \<Rightarrow> secret_answer \<times> secret_file" where
  "secret_open p v f =
     (case sf_content f of
        Some c \<Rightarrow> ((case from_hex (strip_text c) of None \<Rightarrow> Bad_key | Some k \<Rightarrow> Key k), f)
      | None \<Rightarrow> (Now_writing, f\<lparr>sf_content := Some [], sf_writers := (p, v) # sf_writers f\<rparr>))"

definition secret_write :: "nat \<Rightarrow> secret_file \<Rightarrow> secret_file" where
  "secret_write p f =
     (case dget (sf_writers f) p of
        None \<Rightarrow> f
      | Some v \<Rightarrow> f\<lparr>sf_content := Some v, sf_writers := ddel p (sf_writers f)\<rparr>)"

text \<open>
  A call that arrives between the creation and the write reads an empty file, which decodes to
  the empty key: for that moment messages signed with no secret verify.
\<close>

lemma empty_key_read:
  "fst (secret_open 2 w (snd (secret_open 1 v no_secret))) = Key []"
  by (simp add: secret_open_def no_secret_def strip_text_def)

section \<open>Signed calls\<close>

type_synonym headers = "(string \<times> string) list"

abbreviation h_forwarded :: string where "h_forwarded \<equiv> ''x-gateway-forwarded''"
abbreviation h_dispatch :: string where "h_dispatch \<equiv> ''x-gateway-dispatch-id''"
abbreviation h_signature :: string where "h_signature \<equiv> ''x-gateway-signature''"
abbreviation h_reroute :: string where "h_reroute \<equiv> ''x-gateway-reroute''"

definition upper_char :: "char \<Rightarrow> char" where
  "upper_char c = (if 97 \<le> code c \<and> code c \<le> 122 then char_of (code c - 32) else c)"

definition sign_message :: "string \<Rightarrow> string \<Rightarrow> string \<Rightarrow> string \<Rightarrow> string" where
  "sign_message sender i meth target =
     sender @ CHR 0x0A # i @ CHR 0x0A # map upper_char meth @ CHR 0x0A # target"

definition peer_sign ::
  "(nat list \<Rightarrow> string \<Rightarrow> string) \<Rightarrow> nat list \<Rightarrow> string \<Rightarrow> string \<Rightarrow> string \<Rightarrow> string \<Rightarrow> string" where
  "peer_sign mac key sender i meth target = mac key (sign_message sender i meth target)"

definition signed_headers ::
  "(nat list \<Rightarrow> string \<Rightarrow> string) \<Rightarrow> nat list \<Rightarrow> string \<Rightarrow> string \<Rightarrow> instant \<Rightarrow> string \<Rightarrow> string \<Rightarrow> string \<Rightarrow> headers" where
  "signed_headers mac key me target_boot now rand meth target =
     (let i = new_dispatch_id target_boot now rand
      in [(h_forwarded, me), (h_dispatch, i), (h_signature, peer_sign mac key me i meth target)])"

text \<open>The last of several equal headers counts, as in the dictionary the code builds.\<close>

definition header_of :: "headers \<Rightarrow> string \<Rightarrow> string option" where
  "header_of hs n = map_of (rev (map (\<lambda>(k, v). (lower_text k, v)) hs)) n"

definition header_or_empty :: "headers \<Rightarrow> string \<Rightarrow> string" where
  "header_or_empty hs n = (case header_of hs n of None \<Rightarrow> [] | Some v \<Rightarrow> v)"

definition peer_verify ::
  "(nat list \<Rightarrow> string \<Rightarrow> string) \<Rightarrow> nat list \<Rightarrow> string \<Rightarrow> string \<Rightarrow> string \<Rightarrow> headers \<Rightarrow> (string \<times> string) option" where
  "peer_verify mac key me meth target hs =
     (let sender = header_or_empty hs h_forwarded; i = header_or_empty hs h_dispatch;
          sig = header_or_empty hs h_signature
      in if sender = [] \<or> i = [] \<or> sig = [] then None
         else if sender = me then None
         else if peer_sign mac key sender i meth target \<noteq> sig then None
         else Some (sender, i))"

definition fresh_internal :: "string \<Rightarrow> instant \<Rightarrow> string \<Rightarrow> bool" where
  "fresh_internal boot now i =
     (case parse_dispatch_id i of
        None \<Rightarrow> False
      | Some (b, ms) \<Rightarrow> b = boot \<and> \<bar>now - 1000 * ms\<bar> \<le> 1000 * 60000)"

definition strip_ours :: "headers \<Rightarrow> headers" where
  "strip_ours hs = filter (\<lambda>(k, v). lower_text k \<notin> {h_forwarded, h_dispatch, h_signature}) hs"

lemma header_of_strip: "n \<in> {h_forwarded, h_dispatch, h_signature} \<Longrightarrow> header_of (strip_ours hs) n = None"
  by (auto simp: header_of_def strip_ours_def map_of_eq_None_iff)

lemma header_of_strip_other:
  "n \<notin> {h_forwarded, h_dispatch, h_signature} \<Longrightarrow> header_of (strip_ours hs) n = header_of hs n"
proof (induction hs rule: rev_induct)
  case (snoc h hs)
  obtain k v where h: "h = (k, v)" by fastforce
  have s: "header_of (xs @ [(k, v)]) n = (if lower_text k = n then Some v else header_of xs n)" for xs
    by (simp add: header_of_def)
  show ?case
  proof (cases "lower_text k \<in> {h_forwarded, h_dispatch, h_signature}")
    case True
    then have "lower_text k \<noteq> n" using snoc.prems by blast
    with True h s snoc show ?thesis by (simp add: strip_ours_def)
  next
    case False
    then have "strip_ours (hs @ [h]) = strip_ours hs @ [h]" using h by (simp add: strip_ours_def)
    with h s snoc show ?thesis by simp
  qed
qed (simp add: strip_ours_def)

section \<open>Draining\<close>

datatype drain_error =
    Target_required | Into_itself | Target_not_running | Target_other_boot | Target_unreachable
  | Target_answered_other

record drain_state =
  dr_target :: "gw_instance option"
  dr_looping :: bool

definition idle_drain :: drain_state where
  "idle_drain = \<lparr>dr_target = None, dr_looping = False\<rparr>"

abbreviation draining :: "drain_state \<Rightarrow> bool" where
  "draining d \<equiv> dr_target d \<noteq> None"

text \<open>
  A ping answers with a status and the boot id in its body, or not at all.  \<open>look\<close> is the
  registry as the call finds it.
\<close>

datatype ping = No_answer | Ping_answer nat "string option"

definition drain_start ::
  "string \<Rightarrow> (string \<Rightarrow> gw_instance option) \<Rightarrow> (gw_instance \<Rightarrow> ping) \<Rightarrow> string \<Rightarrow> string \<Rightarrow> drain_state \<Rightarrow>
     (drain_error + unit) \<times> drain_state" where
  "drain_start me look ping_of name boot d =
     (if name = [] \<or> boot = [] then (Inl Target_required, d)
      else if name = me then (Inl Into_itself, d)
      else case look name of
        None \<Rightarrow> (Inl Target_not_running, d)
      | Some i \<Rightarrow>
          if in_boot i \<noteq> boot then (Inl Target_other_boot, d)
          else case ping_of i of
            No_answer \<Rightarrow> (Inl Target_unreachable, d)
          | Ping_answer status seen \<Rightarrow>
              if (if status = 200 then seen else None) \<noteq> Some boot then (Inl Target_answered_other, d)
              else (Inr (), d\<lparr>dr_target := Some i, dr_looping := True\<rparr>))"

definition drain_stop :: "drain_state \<Rightarrow> drain_state" where
  "drain_stop d = \<lparr>dr_target = None, dr_looping = False\<rparr>"

definition live_target :: "(string \<Rightarrow> gw_instance option) \<Rightarrow> drain_state \<Rightarrow> gw_instance option" where
  "live_target look d =
     (case dr_target d of
        None \<Rightarrow> None
      | Some t \<Rightarrow>
          (case look (in_name t) of
             None \<Rightarrow> None
           | Some now \<Rightarrow> if in_boot now \<noteq> in_boot t then None else Some now))"

definition describe_target :: "drain_state \<Rightarrow> (string \<times> string) option" where
  "describe_target d = map_option (\<lambda>t. (in_name t, in_boot t)) (dr_target d)"

text \<open>\<open>GET /health/drain\<close>; a session counts by what it is busy with.\<close>

record session_busy =
  sb_active :: bool
  sb_pending_call :: bool
  sb_input_event :: bool

record drain_snapshot =
  sn_instance :: string
  sn_boot :: string
  sn_draining :: bool
  sn_target :: "(string \<times> string) option"
  sn_active_turns :: nat
  sn_background :: nat
  sn_pending :: nat
  sn_forwarding :: int
  sn_open :: int
  sn_owned :: nat

definition drain_snapshot_of ::
  "string \<Rightarrow> string \<Rightarrow> drain_state \<Rightarrow> session_busy list \<Rightarrow> bool list \<Rightarrow> int \<Rightarrow> int \<Rightarrow> drain_snapshot" where
  "drain_snapshot_of me boot d sessions background_done forwarding opened =
     \<lparr>sn_instance = me, sn_boot = boot, sn_draining = draining d, sn_target = describe_target d,
      sn_active_turns = count_if sb_active sessions,
      sn_background = count_if Not background_done,
      sn_pending = count_if (\<lambda>s. sb_pending_call s \<or> sb_input_event s) sessions,
      sn_forwarding = forwarding, sn_open = opened, sn_owned = length sessions\<rparr>"

section \<open>Properties\<close>

text \<open>
  One live process per name: in every reachable registry a looked-up name is held by a
  process that really has it, and once that process has published, the looked-up boot id and URL
  are its own.
\<close>

theorem lookup_finds_live_holder:
  assumes "(registry_step ident)\<^sup>*\<^sup>* empty_registry r" and "registry_lookup n r = Some i"
  shows "\<exists>p. rg_lock r n = Some p \<and> in_name (ident p) = n \<and> (p \<notin> rg_publishing r \<longrightarrow> i = ident p)"
proof -
  have inv: "registry_inv ident r" using registries.reachable_inv [OF refl assms(1)] .
  from assms(2) obtain p j where p: "rg_lock r n = Some p" "rg_record r n = Some j" "i = j\<lparr>in_name := n\<rparr>"
    by (auto simp: registry_lookup_def is_alive_def split: if_splits option.splits)
  then have "in_name (ident p) = n" using inv unfolding registry_inv_def by blast
  moreover have "i = ident p" if "p \<notin> rg_publishing r"
  proof -
    have "j = ident p" using inv p that unfolding registry_inv_def by fastforce
    then show ?thesis using p(3) \<open>in_name (ident p) = n\<close> by (cases "ident p") simp
  qed
  ultimately show ?thesis using p(1) by blast
qed

definition blue_ident :: "nat \<Rightarrow> gw_instance" where
  "blue_ident p = \<lparr>in_name = ''blue'', in_boot = dec p, in_url = ''http://gateway-blue:8000''\<rparr>"

theorem lookup_finds_live_holder_witness:
  "registry_lookup ''blue'' (publish_record blue_ident 1 (snd (register_lock blue_ident 1 empty_registry)))
     = Some (blue_ident 1)"
proof -
  let ?a = "snd (register_lock blue_ident 1 empty_registry)"
  let ?b = "publish_record blue_ident 1 ?a"
  have "registry_step blue_ident empty_registry ?a" by (rule rg_register) (simp add: empty_registry_def)
  moreover have "registry_step blue_ident ?a ?b"
    by (rule rg_publish) (simp add: register_lock_def empty_registry_def blue_ident_def)
  ultimately have r: "(registry_step blue_ident)\<^sup>*\<^sup>* empty_registry ?b"
    by (meson rtranclp.rtrancl_into_rtrancl rtranclp.rtrancl_refl)
  have "registry_lookup ''blue'' ?b = Some (blue_ident 1)"
    by (simp add: registry_lookup_def is_alive_def publish_record_def register_lock_def empty_registry_def
        blue_ident_def)
  moreover from lookup_finds_live_holder [OF r this] have "rg_lock ?b ''blue'' = Some 1"
    by (simp add: publish_record_def register_lock_def empty_registry_def blue_ident_def)
  ultimately show ?thesis by simp
qed

end
