(* ===== verification/HandoffRouter.thy ===== *)
theory HandoffRouter
  imports HandoffPeers
begin

text \<open>
  The routing middleware of a blue/green pair, \<open>src/src/handoff/middleware.py\<close>: which requests
  belong to a session, how a body is read and handed on, one routing decision (\<open>_attempt\<close>), what
  forwarding and serving here send to the client, the retry loop and the owner's side of a
  forward.  JSON decoding of the body and the HTTP exchange with the other instance are
  arguments: their possible answers are the datatypes \<open>prev_field\<close> and \<open>fwd_result\<close>.
\<close>

section \<open>Which requests are routed\<close>

text \<open>The regular expressions, over whole paths; \<open>$\<close> also matches before a final newline.\<close>

abbreviation newline :: char where "newline \<equiv> CHR 0x0A"

definition path_segment :: "string \<Rightarrow> string" where
  "path_segment s = takeWhile (\<lambda>c. c \<noteq> CHR ''/'') s"

definition path_tail :: "string \<Rightarrow> string" where
  "path_tail s = dropWhile (\<lambda>c. c \<noteq> CHR ''/'') s"

definition match_response_path :: "string \<Rightarrow> string option" where
  "match_response_path p =
     (if starts_with ''/v1/responses/'' p
      then let s = drop 14 p
           in if starts_with ''resp_'' (path_segment s) \<and> length (path_segment s) > 5 \<and>
                 path_tail s \<in> {[], ''/cancel'', ''/cancel'' @ [newline]}
              then Some (path_segment s) else None
      else None)"

definition match_session_path :: "string \<Rightarrow> string option" where
  "match_session_path p =
     (if starts_with ''/v1/sessions/'' p
      then let s = drop 13 p
           in if path_segment s \<noteq> [] \<and> newline \<notin> set (butlast (path_tail s))
              then Some (path_segment s) else None
      else None)"

definition uuid_shape :: "string \<Rightarrow> bool" where
  "uuid_shape u \<longleftrightarrow> length u = 36 \<and>
     (\<forall>i < 36. if i \<in> {8, 13, 18, 23} then u ! i = CHR ''-'' else is_hex (u ! i))"

definition session_of_response :: "string \<Rightarrow> string option" where
  "session_of_response r =
     (let u = take 36 (drop 5 r); rest = drop 41 r;
          digits = (if rest \<noteq> [] \<and> last rest = newline then butlast rest else rest)
      in if starts_with ''resp_'' r \<and> uuid_shape u \<and> length digits > 1 \<and> hd digits = CHR ''_'' \<and>
            list_all is_digit (tl digits)
         then Some (lower_text u) else None)"

datatype route_kind = Session_bound "string option" | New_session | Admin_write | Unrouted

definition classify :: "string \<Rightarrow> string \<Rightarrow> route_kind" where
  "classify meth path =
     (case match_response_path path of
        Some r \<Rightarrow> Session_bound (session_of_response r)
      | None \<Rightarrow>
          (case (if path = ''/v1/sessions/stats'' then None else match_session_path path) of
             Some s \<Rightarrow> Session_bound (Some s)
           | None \<Rightarrow>
               if meth = ''POST'' \<and> path \<in> {''/v1/responses'', ''/v1/agents/messages''} then New_session
               else if meth \<notin> {''GET'', ''HEAD'', ''OPTIONS''} \<and>
                  (starts_with ''/admin'' path \<or> starts_with ''/api/'' path) then Admin_write
               else Unrouted))"

section \<open>Reading the body and handing it on\<close>

datatype recv = Chunk "nat list" bool | Disconnect

datatype body_read = Body "nat list" "recv list" | Too_large "nat list" bool "recv list" | Client_gone | Waiting

definition body_limit :: nat where
  "body_limit = 64 * 1024 * 1024"

fun read_body :: "nat \<Rightarrow> nat list \<Rightarrow> recv list \<Rightarrow> body_read" where
  "read_body limit acc [] = Waiting"
| "read_body limit acc (Disconnect # ms) = Client_gone"
| "read_body limit acc (Chunk b mb # ms) =
     (let acc = acc @ b
      in if length acc > limit then Too_large acc mb ms
         else if \<not> mb then Body acc ms
         else read_body limit acc ms)"

text \<open>\<open>_Replay\<close> and \<open>_PrefixReplay\<close>: what the app's \<open>receive\<close> yields, in order.\<close>

definition replay :: "nat list \<Rightarrow> recv list \<Rightarrow> recv list" where
  "replay body rest = Chunk body False # rest"

definition prefix_replay :: "nat list \<Rightarrow> bool \<Rightarrow> recv list \<Rightarrow> recv list" where
  "prefix_replay pre mb rest = Chunk pre mb # rest"

text \<open>The body a reader of such a channel assembles, up to the last part.\<close>

fun body_seen :: "recv list \<Rightarrow> nat list option" where
  "body_seen [] = None"
| "body_seen (Disconnect # ms) = None"
| "body_seen (Chunk b mb # ms) = (if mb then map_option ((@) b) (body_seen ms) else Some b)"

lemma read_body_whole:
  "read_body limit acc ms = Body b rest \<Longrightarrow>
     map_option ((@) acc) (body_seen ms) = body_seen (replay b rest)"
proof (induction limit acc ms rule: read_body.induct)
  case (3 limit acc b' mb ms)
  show ?case
  proof (cases "length (acc @ b') > limit")
    case False
    show ?thesis
    proof (cases mb)
      case True
      then have "map_option (\<lambda>a. acc @ b' @ a) (body_seen ms) = body_seen (replay b rest)"
        using 3 False by (simp add: Let_def)
      then show ?thesis using True by (cases "body_seen ms") simp_all
    next
      case False
      then show ?thesis using "3.prems" by (simp add: replay_def Let_def split: if_splits)
    qed
  qed (use "3.prems" in \<open>simp add: Let_def\<close>)
qed simp_all

lemma read_body_too_large:
  "read_body limit acc ms = Too_large b mb rest \<Longrightarrow>
     map_option ((@) acc) (body_seen ms) = body_seen (prefix_replay b mb rest)"
proof (induction limit acc ms rule: read_body.induct)
  case (3 limit acc b' mb' ms)
  show ?case
  proof (cases "length (acc @ b') > limit")
    case True
    then show ?thesis using "3.prems"
      by (cases "body_seen ms") (auto simp: prefix_replay_def Let_def)
  next
    case False
    then have mb': "mb'" using "3.prems" by (auto simp: Let_def split: if_splits)
    then have "map_option (\<lambda>a. acc @ b' @ a) (body_seen ms) = body_seen (prefix_replay b mb rest)"
      using 3 False by (simp add: Let_def)
    then show ?thesis using mb' by (cases "body_seen ms") simp_all
  qed
qed simp_all

section \<open>One decision\<close>

text \<open>What \<open>json.loads(body).get("previous_response_id")\<close> yields, invalid JSON included.\<close>

datatype prev_field = Prev_none | Prev_text string | Prev_other

datatype routed = Serve_unrouted | Route route_kind | Crash_type_error

definition refine_kind :: "route_kind \<Rightarrow> string \<Rightarrow> prev_field \<Rightarrow> routed" where
  "refine_kind k path prev =
     (if k = New_session \<and> path = ''/v1/responses'' then
        (case prev of
           Prev_none \<Rightarrow> Route k
         | Prev_other \<Rightarrow> Crash_type_error
         | Prev_text p \<Rightarrow>
             if p = [] then Route k
             else case session_of_response p of
               None \<Rightarrow> Serve_unrouted
             | Some s \<Rightarrow> Route (Session_bound (Some s)))
      else Route k)"

text \<open>
  What a decision looks at: this instance's name, the drain state, the registry, whether this
  process's session cache has the session and what \<open>OwnerLocks.owner\<close> answers.
\<close>

record view =
  vw_me :: string
  vw_drain :: drain_state
  vw_look :: "string \<Rightarrow> gw_instance option"
  vw_here :: "string \<Rightarrow> bool"
  vw_owner :: "string \<Rightarrow> string option"

datatype action = Serve_here | Forward_to gw_instance | Ask_release_then gw_instance | Wait_retry | No_target

definition to_drain_target :: "view \<Rightarrow> action" where
  "to_drain_target w = (case live_target (vw_look w) (vw_drain w) of None \<Rightarrow> No_target | Some t \<Rightarrow> Forward_to t)"

definition decide :: "view \<Rightarrow> route_kind \<Rightarrow> bool \<Rightarrow> action" where
  "decide w k continuation =
     (case k of
        Session_bound (Some sid) \<Rightarrow>
          if vw_here w sid then Serve_here
          else (case vw_owner w sid of
             None \<Rightarrow> if draining (vw_drain w) then to_drain_target w else Serve_here
           | Some owner \<Rightarrow>
               if owner = vw_me w \<or> owner = [] then Wait_retry
               else case vw_look w owner of
                 None \<Rightarrow> Wait_retry
               | Some i \<Rightarrow>
                   if continuation \<and> \<not> draining (vw_drain w) then Ask_release_then i else Forward_to i)
      | Session_bound None \<Rightarrow> Serve_here
      | Unrouted \<Rightarrow> Serve_here
      | _ \<Rightarrow> if \<not> draining (vw_drain w) then Serve_here else to_drain_target w)"

section \<open>Serving here and forwarding\<close>

datatype client_msg = Start nat headers | Part "nat list" bool | Failed_event | Error_json nat string

definition has_header :: "string \<Rightarrow> headers \<Rightarrow> bool" where
  "has_header n hs \<longleftrightarrow> n \<in> (\<lambda>(k, v). lower_text k) ` set hs"

datatype outcome = Done | Again | Wait | Unavailable

text \<open>\<open>guarded_send\<close> of \<open>_local\<close> over the messages the app sends.\<close>

fun is_reroute :: "client_msg \<Rightarrow> bool" where
  "is_reroute (Start st hs) \<longleftrightarrow> st = 421 \<and> has_header h_reroute hs"
| "is_reroute _ \<longleftrightarrow> False"

fun guard_send :: "bool \<Rightarrow> client_msg list \<Rightarrow> bool \<times> client_msg list" where
  "guard_send r [] = (r, [])"
| "guard_send r (m # ms) =
     (if is_reroute m then guard_send True ms
      else if r then guard_send r ms
      else let (r', out) = guard_send r ms in (r', m # out))"

definition serve_local :: "client_msg list \<Rightarrow> outcome \<times> client_msg list" where
  "serve_local ms = (let (r, out) = guard_send False ms in (if r then Wait else Done, out))"

text \<open>
  The exchange with the other instance: nothing left this process, the client hung up first,
  it broke after a byte was sent, or there is an answer (status, headers, body parts, whether
  the stream broke, whether the client hung up while it ran).
\<close>

datatype fwd_result =
    Not_sent | Client_left | Send_broken | Answered nat headers "nat list list" bool

definition hop_by_hop :: "string set" where
  "hop_by_hop = {''host'', ''connection'', ''keep-alive'', ''transfer-encoding'', ''content-length'',
     ''upgrade'', ''proxy-connection''}"

definition end_to_end :: "headers \<Rightarrow> headers" where
  "end_to_end hs = filter (\<lambda>(k, v). lower_text k \<notin> hop_by_hop) hs"

definition settle_or_report :: "verdict option \<Rightarrow> bool \<Rightarrow> outcome \<times> client_msg list" where
  "settle_or_report v started =
     (if v = Some Refused_verdict then (Wait, [])
      else (Done, if started then [] else [Error_json 502 ''forward_interrupted'']))"

definition forward :: "fwd_result \<Rightarrow> verdict option \<Rightarrow> outcome \<times> client_msg list" where
  "forward r v =
     (case r of
        Not_sent \<Rightarrow> (Wait, [])
      | Client_left \<Rightarrow> (Done, [])
      | Send_broken \<Rightarrow> settle_or_report v False
      | Answered st hs parts broken \<Rightarrow>
          if st = 421 \<and> has_header h_reroute hs then (Wait, [])
          else (Done,
            Start st (end_to_end hs) # map (\<lambda>p. Part p True) parts @
            (if broken \<and> starts_with ''text/event-stream'' (header_or_empty hs ''content-type'')
             then [Failed_event] else []) @
            [Part [] False]))"

definition forwarded_headers :: "headers \<Rightarrow> headers \<Rightarrow> headers" where
  "forwarded_headers request_headers signature = end_to_end request_headers @ signature"

section \<open>The retry loop\<close>

text \<open>
  One pass of the loop is what was tried: serving here (the app's messages), a forward under a
  dispatch id with its result and, after a break, the settlement's answer, a release that was
  granted, or nothing.  Times are read when the pass ends.
\<close>

datatype attempt =
    Local_try "client_msg list"
  | Forward_try string fwd_result "verdict option"
  | Released_try
  | Idle_try bool

fun attempt_result :: "attempt \<Rightarrow> outcome \<times> client_msg list" where
  "attempt_result (Local_try ms) = serve_local ms"
| "attempt_result (Forward_try d r v) = forward r v"
| "attempt_result Released_try = (Again, [])"
| "attempt_result (Idle_try no_target) = (if no_target then Unavailable else Wait, [])"

text \<open>Which passes a decision can lead to.\<close>

fun performs :: "action \<Rightarrow> attempt \<Rightarrow> bool" where
  "performs Serve_here a \<longleftrightarrow> (\<exists>ms. a = Local_try ms)"
| "performs (Forward_to i) a \<longleftrightarrow> (\<exists>d r v. a = Forward_try d r v)"
| "performs (Ask_release_then i) a \<longleftrightarrow> a = Released_try \<or> (\<exists>d r v. a = Forward_try d r v)"
| "performs Wait_retry a \<longleftrightarrow> a = Idle_try False"
| "performs No_target a \<longleftrightarrow> a = Idle_try True"

definition handoff_deadline :: instant where "handoff_deadline = seconds 10"
definition backoff_start :: instant where "backoff_start = 50000"
definition backoff_max :: instant where "backoff_max = seconds 1"

text \<open>The passes taken, the messages the client gets, and whether the loop has returned.\<close>

fun route_loop :: "instant \<Rightarrow> instant \<Rightarrow> (attempt \<times> instant) list \<Rightarrow> attempt list \<times> client_msg list \<times> bool" where
  "route_loop deadline backoff [] = ([], [], False)"
| "route_loop deadline backoff ((a, now) # rest) =
     (case attempt_result a of
        (Done, ms) \<Rightarrow> ([a], ms, True)
      | (Again, ms) \<Rightarrow>
          (let (as, out, fin) = route_loop deadline backoff rest in (a # as, ms @ out, fin))
      | (o1, ms) \<Rightarrow>
          if now + backoff > deadline
          then ([a], ms @ [Error_json 503 (if o1 = Unavailable then ''drain_target_unavailable''
                                           else ''handoff_deadline_exceeded'')], True)
          else (let (as, out, fin) = route_loop deadline (min (backoff * 2) backoff_max) rest
                in (a # as, ms @ out, fin)))"

section \<open>The owner's side of a forward\<close>

text \<open>\<open>_serve_forwarded\<close>: \<open>run\<close> is what the app sends and whether it returned normally.\<close>

definition serve_forwarded ::
  "string \<Rightarrow> int \<Rightarrow> int \<Rightarrow> instant \<Rightarrow> instant \<Rightarrow> string \<Rightarrow> client_msg list \<times> bool \<Rightarrow> ledger \<Rightarrow> client_msg list \<times> ledger" where
  "serve_forwarded boot aw ret now later i run d =
     (let (ok, d) = admit boot aw ret now i d
      in if \<not> ok then ([Start 421 [(h_reroute, ''1'')], Error_json 421 ''dispatch_refused''], d)
         else (fst run, ledger_finish i (if snd run then ''completed'' else ''failed'') later d))"

datatype internal_action =
    Ping_reply | Release_session string | Settle_dispatch string | Not_found | Drain_call

definition middle_of :: "string \<Rightarrow> string \<Rightarrow> string \<Rightarrow> string option" where
  "middle_of pre post p =
     (let seg = path_segment (drop (length pre) p); rest = path_tail (drop (length pre) p)
      in if starts_with pre p \<and> seg \<noteq> [] \<and> rest \<in> {post, post @ [newline]} then Some seg else None)"

definition internal_route :: "string \<Rightarrow> string \<Rightarrow> (string \<times> string) option \<Rightarrow> (string \<Rightarrow> bool) \<Rightarrow> internal_action" where
  "internal_route meth path verified fresh =
     (if path = ''/internal/drain'' then Drain_call
      else case verified of
        None \<Rightarrow> Not_found
      | Some (sender, i) \<Rightarrow>
          if \<not> fresh i then Not_found
          else if path = ''/internal/ping'' \<and> meth = ''GET'' then Ping_reply
          else case (if meth = ''POST'' then middle_of ''/internal/sessions/'' ''/release'' path else None) of
            Some sid \<Rightarrow> Release_session sid
          | None \<Rightarrow>
              (case (if meth = ''POST'' then middle_of ''/internal/dispatch/'' ''/settle'' path else None) of
                 Some i \<Rightarrow> Settle_dispatch i
               | None \<Rightarrow> Not_found))"

text \<open>
  \<open>_drain_endpoint\<close>: the status it answers, and the drain state; \<open>body\<close> is the decoded JSON
  object's two fields, \<open>None\<close> when the body is not such an object.
\<close>

definition bearer :: "string \<Rightarrow> string" where
  "bearer auth = (if starts_with ''bearer '' (lower_text auth) then drop 7 auth else [])"

definition drain_endpoint ::
  "string \<Rightarrow> (string \<Rightarrow> gw_instance option) \<Rightarrow> (gw_instance \<Rightarrow> ping) \<Rightarrow> bool \<Rightarrow> string \<Rightarrow> string \<Rightarrow> string \<Rightarrow>
     (string \<times> string) option \<Rightarrow> drain_state \<Rightarrow> nat \<times> drain_state" where
  "drain_endpoint me look ping_of loopback expected auth meth body d =
     (if \<not> loopback \<or> expected = [] then (404, d)
      else if bearer auth \<noteq> expected then (401, d)
      else if meth = ''DELETE'' then (200, drain_stop d)
      else if meth \<noteq> ''POST'' then (405, d)
      else case body of
        None \<Rightarrow> (400, d)
      | Some (name, boot) \<Rightarrow>
          (case drain_start me look ping_of name boot d of
             (Inl e, d) \<Rightarrow> (400, d)
           | (Inr u, d) \<Rightarrow> (200, d)))"

text \<open>\<open>__call__\<close>: where a request goes and whether it counts as open.\<close>

datatype entry = To_app | Internal_call | Health_drain | Routed_call bool

definition enter :: "bool \<Rightarrow> bool \<Rightarrow> string \<Rightarrow> entry" where
  "enter is_http enabled path =
     (if \<not> is_http \<or> \<not> enabled then To_app
      else if starts_with ''/internal/'' path \<and> \<not> starts_with ''/internal/mcp-relay/'' path then Internal_call
      else if path = ''/health/drain'' then Health_drain
      else Routed_call (path \<notin> {''/health'', ''/health/ready'', ''/metrics''}))"

text \<open>\<open>_route\<close> up to the loop: a verified peer's request is served; others lose our headers.\<close>

datatype arrival = From_peer string | From_client headers

definition route_arrival :: "(string \<times> string) option \<Rightarrow> headers \<Rightarrow> arrival" where
  "route_arrival verified hs =
     (case verified of Some (sender, i) \<Rightarrow> From_peer i | None \<Rightarrow> From_client (strip_ours hs))"

section \<open>Lemmas\<close>

definition app_channel :: "body_read \<Rightarrow> recv list option" where
  "app_channel r =
     (case r of Body b rest \<Rightarrow> Some (replay b rest) | Too_large b mb rest \<Rightarrow> Some (prefix_replay b mb rest)
      | Client_gone \<Rightarrow> None | Waiting \<Rightarrow> None)"

definition starts :: "client_msg list \<Rightarrow> nat" where
  "starts ms = count_if (\<lambda>m. (\<exists>st hs. m = Start st hs) \<or> (\<exists>st e. m = Error_json st e)) ms"

lemma starts_simps [simp]:
  "starts [] = 0" "starts (Part b mb # ms) = starts ms" "starts (Failed_event # ms) = starts ms"
  "starts (Start st hs # ms) = Suc (starts ms)" "starts (Error_json st e # ms) = Suc (starts ms)"
  "starts (ms @ ms') = starts ms + starts ms'"
  by (simp_all add: starts_def count_if_Cons count_if_append)

lemma starts_parts [simp]: "starts (map (\<lambda>p. Part p b) ps) = 0"
  by (induction ps) simp_all

text \<open>A pass that does not end the loop sends nothing, so the client still waits for its one answer.\<close>

lemma forward_silent: "forward r v = (o1, ms) \<Longrightarrow> o1 \<noteq> Done \<Longrightarrow> ms = []"
  by (auto simp: forward_def settle_or_report_def split: fwd_result.splits if_splits)

lemma forward_answers: "forward r v = (Done, ms) \<Longrightarrow> starts ms = (if r = Client_left then 0 else 1)"
  by (auto simp: forward_def settle_or_report_def split: fwd_result.splits if_splits)

definition one_response_app :: "client_msg list \<Rightarrow> bool" where
  "one_response_app ms \<longleftrightarrow> (\<exists>st hs rest. ms = Start st hs # rest \<and> (\<forall>m \<in> set rest. \<exists>b mb. m = Part b mb))"

lemma guard_parts:
  "(\<forall>m \<in> set rest. \<exists>b mb. m = Part b mb) \<Longrightarrow> guard_send r rest = (r, if r then [] else rest)"
  by (induction rest) auto

lemma starts_only_parts: "(\<forall>m \<in> set rest. \<exists>b mb. m = Part b mb) \<Longrightarrow> starts rest = 0"
  by (induction rest) auto

lemma serve_local_cases:
  assumes "one_response_app ms" and "serve_local ms = (o1, out)"
  shows "(o1 = Wait \<and> out = [] \<and> is_reroute (hd ms)) \<or> (o1 = Done \<and> out = ms \<and> starts out = 1)"
proof -
  obtain st hs rest where ms: "ms = Start st hs # rest" and r: "\<forall>m \<in> set rest. \<exists>b mb. m = Part b mb"
    using assms(1) by (auto simp: one_response_app_def)
  show ?thesis using assms(2) guard_parts [OF r] starts_only_parts [OF r]
    by (auto simp: ms serve_local_def split: if_splits)
qed

fun attempt_ok :: "attempt \<Rightarrow> bool" where
  "attempt_ok (Local_try ms) \<longleftrightarrow> one_response_app ms"
| "attempt_ok _ \<longleftrightarrow> True"

lemma attempt_silent:
  "attempt_ok a \<Longrightarrow> attempt_result a = (o1, ms) \<Longrightarrow> o1 \<noteq> Done \<Longrightarrow> ms = []"
  by (cases a) (auto dest: serve_local_cases forward_silent)

lemma attempt_answers:
  "attempt_ok a \<Longrightarrow> attempt_result a = (Done, ms) \<Longrightarrow>
     starts ms = (if \<exists>d v. a = Forward_try d Client_left v then 0 else 1)"
proof (cases a)
  case (Local_try m)
  then show "attempt_ok a \<Longrightarrow> attempt_result a = (Done, ms) \<Longrightarrow> ?thesis"
    using serve_local_cases by fastforce
next
  case (Forward_try d r v)
  then show "attempt_ok a \<Longrightarrow> attempt_result a = (Done, ms) \<Longrightarrow> ?thesis"
    using forward_answers [of r v ms] by auto
qed (auto split: if_splits)

text \<open>
  The work a pass starts: serving here starts the app unless it answered with a reroute, which
  it does before any work; a forward starts it when the owner takes the dispatch in and does not
  answer with a reroute.
\<close>

fun rerouted_answer :: "fwd_result \<Rightarrow> bool" where
  "rerouted_answer (Answered st hs parts broken) \<longleftrightarrow> st = 421 \<and> has_header h_reroute hs"
| "rerouted_answer _ \<longleftrightarrow> False"

fun works :: "(string \<Rightarrow> bool) \<Rightarrow> attempt \<Rightarrow> nat" where
  "works took (Local_try ms) = (if fst (guard_send False ms) then 0 else 1)"
| "works took (Forward_try d r v) = (if took d \<and> \<not> rerouted_answer r then 1 else 0)"
| "works took _ = 0"

fun lawful_attempt :: "(string \<Rightarrow> bool) \<Rightarrow> attempt \<Rightarrow> bool" where
  "lawful_attempt took (Forward_try d r v) \<longleftrightarrow>
     (r = Not_sent \<or> v = Some Refused_verdict \<longrightarrow> \<not> took d)"
| "lawful_attempt took _ \<longleftrightarrow> True"

lemma works_le_1: "works took a \<le> 1"
  by (cases a) auto

lemma works_retry:
  "lawful_attempt took a \<Longrightarrow> attempt_result a = (o1, ms) \<Longrightarrow> o1 \<noteq> Done \<Longrightarrow> works took a = 0"
  by (cases a) (auto simp: serve_local_def forward_def settle_or_report_def split: fwd_result.splits if_splits prod.splits)

text \<open>The loop, one pass at a time.\<close>

lemma route_loop_Cons:
  "route_loop dl b ((a, now) # rest) =
     (let o1 = fst (attempt_result a); ms = snd (attempt_result a)
      in if o1 = Done then ([a], ms, True)
         else if o1 \<noteq> Again \<and> now + b > dl
         then ([a], ms @ [Error_json 503 (if o1 = Unavailable then ''drain_target_unavailable''
                                           else ''handoff_deadline_exceeded'')], True)
         else let (as, out, fin) = route_loop dl (if o1 = Again then b else min (b * 2) backoff_max) rest
              in (a # as, ms @ out, fin))"
  by (cases "attempt_result a"; cases "fst (attempt_result a)") (simp_all add: Let_def)

lemma route_loop_pass:
  assumes "route_loop dl b ((a, now) # rest) = (as, out, fin)" and "attempt_result a = (o1, ms)"
  obtains (finished) "o1 = Done" "as = [a]" "out = ms" "fin"
    | (gave_up) e where "o1 \<noteq> Done" "o1 \<noteq> Again" "now + b > dl" "as = [a]" "out = ms @ [Error_json 503 e]" "fin"
    | (retried) as' out' where "o1 \<noteq> Done" "o1 = Again \<or> now + b \<le> dl"
        "route_loop dl (if o1 = Again then b else min (b * 2) backoff_max) rest = (as', out', fin)"
        "as = a # as'" "out = ms @ out'"
proof (cases "o1 = Done \<or> (o1 \<noteq> Again \<and> now + b > dl)")
  case True
  then show thesis using assms finished gave_up unfolding route_loop_Cons
    by (auto simp: Let_def split: if_splits)
next
  case False
  obtain as' out' fin' where
    "route_loop dl (if o1 = Again then b else min (b * 2) backoff_max) rest = (as', out', fin')"
    by (cases "route_loop dl (if o1 = Again then b else min (b * 2) backoff_max) rest")
  with False show thesis using assms retried [of as' out'] unfolding route_loop_Cons
    by (auto simp: Let_def not_less)
qed

lemma route_loop_works:
  "\<forall>a \<in> fst ` set tries. lawful_attempt took a \<Longrightarrow> route_loop dl b tries = (as, out, fin) \<Longrightarrow>
     sum_list (map (works took) as) \<le> 1"
proof (induction tries arbitrary: b as out fin)
  case (Cons x rest)
  obtain a now where x: "x = (a, now)" by fastforce
  obtain o1 ms where r: "attempt_result a = (o1, ms)" by fastforce
  have law: "lawful_attempt took a" "\<forall>a \<in> fst ` set rest. lawful_attempt took a"
    using Cons.prems(1) x by auto
  from Cons.prems(2) [unfolded x] r show ?case
  proof (cases rule: route_loop_pass)
    case finished
    then show ?thesis using works_le_1 [of took a] by simp
  next
    case gave_up
    then show ?thesis using works_le_1 [of took a] by simp
  next
    case (retried as' out')
    then show ?thesis using Cons.IH [OF law(2) retried(3)] works_retry [OF law(1) r] by simp
  qed
qed simp

lemma route_loop_starts:
  "\<forall>a \<in> fst ` set tries. attempt_ok a \<Longrightarrow> route_loop dl b tries = (as, out, fin) \<Longrightarrow>
     starts out = (if fin \<and> \<not> (\<exists>d v. last as = Forward_try d Client_left v) then 1 else 0) \<and>
     (fin \<longrightarrow> as \<noteq> [])"
proof (induction tries arbitrary: b as out fin)
  case (Cons x rest)
  obtain a now where x: "x = (a, now)" by fastforce
  obtain o1 ms where r: "attempt_result a = (o1, ms)" by fastforce
  have ok: "attempt_ok a" "\<forall>a \<in> fst ` set rest. attempt_ok a" using Cons.prems(1) x by auto
  from Cons.prems(2) [unfolded x] r show ?case
  proof (cases rule: route_loop_pass)
    case finished
    then show ?thesis using attempt_answers [OF ok(1), of ms] r by simp
  next
    case (gave_up e)
    then have "ms = []" "\<not> (\<exists>d v. a = Forward_try d Client_left v)"
      using attempt_silent [OF ok(1) r] r by (auto simp: forward_def)
    then show ?thesis using gave_up by simp
  next
    case (retried as' out')
    then have "ms = []" using attempt_silent [OF ok(1) r] by simp
    then show ?thesis using retried Cons.IH [OF ok(2) retried(3)] by auto
  qed
qed simp

text \<open>
  Pacing: a pass ends no earlier than the sleep after the previous one; every sleep is at least
  the first backoff.
\<close>

fun paced :: "instant \<Rightarrow> instant \<Rightarrow> (attempt \<times> instant) list \<Rightarrow> bool" where
  "paced now b [] \<longleftrightarrow> True"
| "paced now b ((a, t) # rest) \<longleftrightarrow>
     now \<le> t \<and>
     (if fst (attempt_result a) = Again then paced t b rest
      else paced (t + b) (min (b * 2) backoff_max) rest)"

definition waits :: "attempt list \<Rightarrow> nat" where
  "waits as = count_if (\<lambda>a. fst (attempt_result a) \<in> {Wait, Unavailable}) as"

lemma route_loop_waits:
  "paced now b tries \<Longrightarrow> backoff_start \<le> b \<Longrightarrow> route_loop dl b tries = (as, out, fin) \<Longrightarrow>
     int (waits as) \<le> 1 + max 0 ((dl - now) div backoff_start)"
proof (induction tries arbitrary: now b as out fin)
  case (Cons x rest)
  obtain a t where x: "x = (a, t)" by fastforce
  obtain o1 ms where r: "attempt_result a = (o1, ms)" by fastforce
  have nt: "now \<le> t" using Cons.prems(1) x by simp
  from Cons.prems(3) [unfolded x] r show ?case
  proof (cases rule: route_loop_pass)
    case finished
    then show ?thesis using r by (simp add: waits_def count_if_Cons)
  next
    case (gave_up e)
    then show ?thesis using r by (simp add: waits_def count_if_Cons)
  next
    case (retried as' out')
    show ?thesis
    proof (cases "o1 = Again")
      case True
      then have "int (waits as') \<le> 1 + max 0 ((dl - t) div backoff_start)"
        using Cons.IH [of t b as' out' fin] Cons.prems x r retried by simp
      moreover have "(dl - t) div backoff_start \<le> (dl - now) div backoff_start"
        using nt by (intro zdiv_mono1) (simp_all add: backoff_start_def)
      moreover have "waits as = waits as'" using retried True r by (simp add: waits_def count_if_Cons)
      ultimately show ?thesis by linarith
    next
      case False
      have b': "backoff_start \<le> min (b * 2) backoff_max"
        using Cons.prems(2) by (simp add: backoff_start_def backoff_max_def)
      have "int (waits as') \<le> 1 + max 0 ((dl - (t + b)) div backoff_start)"
        using Cons.IH [OF _ b', of "t + b" as' out' fin] Cons.prems x r retried False by simp
      moreover have "(dl - (t + b)) div backoff_start \<le> (dl - now - backoff_start) div backoff_start"
        using nt Cons.prems(2) by (intro zdiv_mono1) (simp_all add: backoff_start_def)
      moreover have "(dl - now - backoff_start) div backoff_start = (dl - now) div backoff_start - 1"
        by (simp add: backoff_start_def)
      moreover have "backoff_start \<le> dl - now" using retried(2) False nt Cons.prems(2) by linarith
      then have "1 \<le> (dl - now) div backoff_start" by (simp add: backoff_start_def)
      moreover have "waits as \<le> Suc (waits as')" using retried by (simp add: waits_def count_if_Cons)
      ultimately show ?thesis by linarith
    qed
  qed
qed (simp add: waits_def)

lemma again_goes_on:
  "route_loop dl b (replicate n (Released_try, now) @ rest) =
     (let (as, out, fin) = route_loop dl b rest in (replicate n Released_try @ as, out, fin))"
  by (induction n) (auto simp: Let_def split: prod.splits)

section \<open>The drain target\<close>

text \<open>
  Whatever the endpoint is asked, in whatever state of the registry; a lookup answers with the
  name it was asked for.
\<close>

definition names_kept :: "(string \<Rightarrow> gw_instance option) \<Rightarrow> bool" where
  "names_kept look \<longleftrightarrow> (\<forall>n i. look n = Some i \<longrightarrow> in_name i = n)"

lemma names_kept_registry: "names_kept (\<lambda>n. registry_lookup n r)"
  by (auto simp: names_kept_def registry_lookup_def split: option.splits if_splits)

inductive drain_step :: "string \<Rightarrow> drain_state \<Rightarrow> drain_state \<Rightarrow> bool" for me where
  drain_call: "names_kept look \<Longrightarrow>
     drain_step me d (snd (drain_endpoint me look ping_of loopback expected auth meth body d))"

definition not_into_itself :: "string \<Rightarrow> drain_state \<Rightarrow> bool" where
  "not_into_itself me d \<longleftrightarrow> (\<forall>t. dr_target d = Some t \<longrightarrow> in_name t \<noteq> me)"

lemma drain_start_target:
  assumes "drain_start me look ping_of name boot d = (r, d')" and "names_kept look"
  shows "(r \<noteq> Inr () \<and> d' = d) \<or>
     (\<exists>i. r = Inr () \<and> dr_target d' = Some i \<and> in_name i = name \<and> in_boot i = boot \<and> name \<noteq> me \<and>
       look name = Some i \<and> ping_of i = Ping_answer 200 (Some boot))"
  using assms by (auto simp: drain_start_def names_kept_def split: if_splits option.splits ping.splits)

lemma drain_endpoint_keeps:
  assumes "not_into_itself me d" and "names_kept look"
  shows "not_into_itself me (snd (drain_endpoint me look ping_of loopback expected auth meth body d))"
proof (cases body)
  case None
  then show ?thesis using assms(1) by (simp add: drain_endpoint_def not_into_itself_def drain_stop_def)
next
  case (Some nb)
  obtain name boot where nb: "nb = (name, boot)" by fastforce
  obtain r d' where r: "drain_start me look ping_of name boot d = (r, d')" by fastforce
  have "not_into_itself me d'"
    using drain_start_target [OF r assms(2)] assms(1) by (auto simp: not_into_itself_def)
  moreover have "not_into_itself me (drain_stop d)" by (simp add: not_into_itself_def drain_stop_def)
  ultimately show ?thesis using assms(1) Some nb r
    by (simp add: drain_endpoint_def split: sum.splits)
qed

interpretation drains: machine "\<lambda>d. d = idle_drain" "drain_step me" "not_into_itself me"
proof unfold_locales
  show "not_into_itself me d" if "d = idle_drain" for d
    using that by (simp add: not_into_itself_def idle_drain_def)
  show "not_into_itself me e" if "not_into_itself me d" "drain_step me d e" for d e
    using that(2,1) by cases (simp add: drain_endpoint_keeps)
qed

section \<open>Properties\<close>



text \<open>
  One answer: when the loop returns, the client has been sent exactly one response (or
  error), none if it hung up during the last forward, and while the loop goes on, nothing.
\<close>

theorem routed_request_answered_once:
  assumes "\<forall>a \<in> fst ` set tries. attempt_ok a"
    and "route_loop deadline backoff tries = (as, out, fin)"
  shows "starts out = (if fin \<and> \<not> (\<exists>d v. last as = Forward_try d Client_left v) then 1 else 0)"
  using route_loop_starts [OF assms] by simp

theorem routed_request_answered_once_witness:
  "starts (fst (snd (route_loop 0 backoff_start [(Idle_try True, 0)]))) = 1"
proof -
  have loop: "route_loop 0 backoff_start [(Idle_try True, 0)] =
      ([Idle_try True], [Error_json 503 ''drain_target_unavailable''], True)"
    by (simp add: backoff_start_def)
  show ?thesis unfolding loop using routed_request_answered_once [OF _ loop] by simp
qed

text \<open>
  Waiting is bounded: with the code's backoff and deadline, a request waits for its session's
  owner or its drain target in at most 201 passes before it is served or gets a 503.
\<close>

theorem routing_waits_bounded:
  assumes "paced now backoff_start tries"
    and "route_loop (now + handoff_deadline) backoff_start tries = (as, out, fin)"
  shows "waits as \<le> 201"
proof -
  have "int (waits as) \<le> 1 + max 0 ((now + handoff_deadline - now) div backoff_start)"
    using route_loop_waits [OF assms(1) _ assms(2)] by simp
  then show ?thesis by (simp add: handoff_deadline_def backoff_start_def)
qed

theorem routing_waits_bounded_witness:
  "waits (fst (route_loop handoff_deadline backoff_start [(Idle_try False, 0), (Idle_try True, 50000)])) = 2"
proof -
  let ?tries = "[(Idle_try False, 0), (Idle_try True, 50000)]"
  have "paced 0 backoff_start ?tries" by (simp add: backoff_start_def backoff_max_def)
  moreover obtain as out fin where l: "route_loop (0 + handoff_deadline) backoff_start ?tries = (as, out, fin)"
    by (cases "route_loop (0 + handoff_deadline) backoff_start ?tries")
  ultimately have "waits as \<le> 201" by (rule routing_waits_bounded)
  moreover have "as = [Idle_try False, Idle_try True]"
    using l by (simp add: backoff_start_def handoff_deadline_def backoff_max_def)
  ultimately show ?thesis using l by (simp add: waits_def count_if_Cons)
qed

text \<open>
  The body reaches the app byte for byte: what the app's \<open>receive\<close> yields after routing has
  consumed the body, whether it was buffered whole or was too large to buffer, assembles to the
  body the client sent.
\<close>

theorem app_sees_client_body:
  assumes "app_channel (read_body limit [] ms) = Some ch"
  shows "body_seen ch = body_seen ms"
proof (cases "read_body limit [] ms")
  case (Body b rest)
  then show ?thesis using assms read_body_whole [OF Body] by (cases "body_seen ms") (simp_all add: app_channel_def)
next
  case (Too_large b mb rest)
  then show ?thesis using assms read_body_too_large [OF Too_large]
    by (cases "body_seen ms") (simp_all add: app_channel_def)
qed (use assms in \<open>simp_all add: app_channel_def\<close>)

theorem app_sees_client_body_witness:
  "body_seen [Chunk [1, 2, 3] True, Chunk [4] False] = Some [1, 2, 3, 4]"
proof -
  have "app_channel (read_body 2 [] [Chunk [1] True, Chunk [2, 3] True, Chunk [4] False]) =
      Some [Chunk [1, 2, 3] True, Chunk [4] False]"
    by (simp add: app_channel_def prefix_replay_def)
  from app_sees_client_body [OF this] show ?thesis by simp
qed

text \<open>
  Only a peer's signature opens the peer path: a client's own forwarding headers never
  reach the app, every other header does unchanged, and a request is taken as forwarded only when
  its signature is the keyed hash of sender, id, method and path and its sender is another
  instance.
\<close>

theorem forged_headers_stripped:
  assumes "route_arrival (peer_verify mac key me meth target hs) hs = arr"
  shows "case arr of
      From_peer i \<Rightarrow> (\<exists>sender. sender \<noteq> [] \<and> sender \<noteq> me \<and>
        header_of hs h_signature = Some (mac key (sign_message sender i meth target)))
    | From_client hs' \<Rightarrow> (\<forall>n. header_of hs' n =
        (if n \<in> {h_forwarded, h_dispatch, h_signature} then None else header_of hs n))"
proof (cases "peer_verify mac key me meth target hs")
  case None
  then have "arr = From_client (strip_ours hs)" using assms by (simp add: route_arrival_def)
  then show ?thesis using header_of_strip header_of_strip_other by simp
next
  case (Some si)
  obtain sender i where si: "si = (sender, i)" by fastforce
  have "arr = From_peer i" using assms Some si by (simp add: route_arrival_def)
  moreover have "sender \<noteq> []" "sender \<noteq> me"
      "header_or_empty hs h_signature = mac key (sign_message sender i meth target)"
      "header_or_empty hs h_signature \<noteq> []"
    using Some si by (auto simp: peer_verify_def peer_sign_def Let_def split: if_splits)
  ultimately show ?thesis
    by (auto simp: header_or_empty_def split: option.splits)
qed

definition demo_mac :: "nat list \<Rightarrow> string \<Rightarrow> string" where
  "demo_mac key m = map (\<lambda>c. char_of (code c + sum_list key)) m"

theorem forged_headers_stripped_witness:
  "route_arrival (peer_verify demo_mac [1] ''green'' ''POST'' ''/v1/x''
      [(''X-Gateway-Forwarded'', ''blue''), (''a'', ''b'')])
      [(''X-Gateway-Forwarded'', ''blue''), (''a'', ''b'')] = From_client [(''a'', ''b'')] \<and>
   header_of [(''a'', ''b'')] h_forwarded = None"
proof -
  have "route_arrival (peer_verify demo_mac [1] ''green'' ''POST'' ''/v1/x''
      [(''X-Gateway-Forwarded'', ''blue''), (''a'', ''b'')])
      [(''X-Gateway-Forwarded'', ''blue''), (''a'', ''b'')] = From_client [(''a'', ''b'')]"
    by code_simp
  from forged_headers_stripped [OF this] this show ?thesis by simp
qed

text \<open>
  Routing sends a session's request to one place: it is served here only when this process
  has the session, or nobody owns it and this process is not draining; it is forwarded only to a
  running instance other than this one, the owner or, when there is none, the drain target.
\<close>

theorem session_routing_sound:
  assumes "(drain_step (vw_me w))\<^sup>*\<^sup>* idle_drain (vw_drain w)" and "names_kept (vw_look w)"
  shows "case decide w (Session_bound (Some sid)) continuation of
      Serve_here \<Rightarrow> vw_here w sid \<or> (vw_owner w sid = None \<and> \<not> draining (vw_drain w))
    | Forward_to i \<Rightarrow> in_name i \<noteq> vw_me w \<and> vw_look w (in_name i) = Some i \<and> \<not> vw_here w sid \<and>
        (vw_owner w sid = Some (in_name i) \<or> (vw_owner w sid = None \<and> draining (vw_drain w)))
    | Ask_release_then i \<Rightarrow> in_name i \<noteq> vw_me w \<and> vw_look w (in_name i) = Some i \<and>
        vw_owner w sid = Some (in_name i) \<and> \<not> draining (vw_drain w)
    | Wait_retry \<Rightarrow> vw_owner w sid \<noteq> None
    | No_target \<Rightarrow> draining (vw_drain w)"
proof -
  have self: "dr_target (vw_drain w) = Some t \<Longrightarrow> in_name t \<noteq> vw_me w" for t
    using drains.reachable_inv [OF refl assms(1)] by (simp add: not_into_itself_def)
  have live: "live_target (vw_look w) (vw_drain w) = Some i \<Longrightarrow>
      in_name i \<noteq> vw_me w \<and> vw_look w (in_name i) = Some i \<and> draining (vw_drain w)" for i
    using self assms(2) by (auto simp: live_target_def names_kept_def split: option.splits if_splits)
  have kept: "vw_look w n = Some i \<Longrightarrow> in_name i = n" for n i
    using assms(2) by (simp add: names_kept_def)
  show ?thesis
  proof (cases "vw_here w sid")
    case False
    show ?thesis
    proof (cases "vw_owner w sid")
      case None
      show ?thesis
      proof (cases "live_target (vw_look w) (vw_drain w)")
        case (Some i)
        then show ?thesis using live [OF Some] False None by (simp add: decide_def to_drain_target_def)
      qed (use False None in \<open>simp add: decide_def to_drain_target_def\<close>)
    next
      case (Some owner)
      show ?thesis
      proof (cases "vw_look w owner")
        case None
        then show ?thesis using False Some by (simp add: decide_def)
      next
        case (Some i)
        then show ?thesis using False \<open>vw_owner w sid = Some owner\<close> kept [OF Some]
          by (simp add: decide_def)
      qed
    qed
  qed (simp add: decide_def)
qed

definition demo_view :: view where
  "demo_view = \<lparr>vw_me = ''blue'', vw_drain = idle_drain,
     vw_look = (\<lambda>n. if n = ''green'' then Some \<lparr>in_name = ''green'', in_boot = ''b2'', in_url = ''u''\<rparr> else None),
     vw_here = (\<lambda>_. False), vw_owner = (\<lambda>_. Some ''green'')\<rparr>"

theorem session_routing_sound_witness:
  "\<exists>i. decide demo_view (Session_bound (Some ''s'')) False = Forward_to i \<and> in_name i \<noteq> ''blue''"
proof -
  let ?i = "\<lparr>in_name = ''green'', in_boot = ''b2'', in_url = ''u''\<rparr>"
  have d: "decide demo_view (Session_bound (Some ''s'')) False = Forward_to ?i"
    by (simp add: decide_def demo_view_def idle_drain_def)
  have "(drain_step (vw_me demo_view))\<^sup>*\<^sup>* idle_drain (vw_drain demo_view)" "names_kept (vw_look demo_view)"
    by (simp_all add: demo_view_def names_kept_def)
  from session_routing_sound [OF this, of "''s''" False] d show ?thesis by (simp add: demo_view_def)
qed

text \<open>
  Two edges the properties leave.  A peer that keeps answering that it gave the session up
  (\<open>absent\<close> while its own teardown still holds the owner lock) makes the loop decide again at
  once, past the deadline and without a pause; and a body whose \<open>previous_response_id\<close> is a
  non-empty JSON value other than a string ends in a type error instead of a reply.
\<close>

lemma again_ignores_deadline:
  "deadline < now \<Longrightarrow>
     fst (route_loop deadline backoff (replicate n (Released_try, now))) = replicate n Released_try"
  using again_goes_on [of deadline backoff n now "[]"] by simp

lemma non_string_previous_crashes:
  "refine_kind (classify ''POST'' ''/v1/responses'') ''/v1/responses'' Prev_other = Crash_type_error"
  by (simp add: refine_kind_def classify_def match_response_path_def match_session_path_def
      starts_with_def path_segment_def)

end
