(* ===== verification/Json.thy ===== *)
theory Json
  imports Prelude
begin

text \<open>
  Decoded JSON as Python has it: \<open>None\<close>, booleans, integers, floats (as their text), strings,
  lists and dictionaries, with the reads the code makes of them.
\<close>

datatype json =
    J_null
  | J_bool bool
  | J_int int
  | J_float string
  | J_str string
  | J_list "json list"
  | J_obj "(string \<times> json) list"

fun is_obj :: "json \<Rightarrow> bool" where
  "is_obj (J_obj d) = True"
| "is_obj _ = False"

text \<open>\<open>d.get(k)\<close>; \<open>None\<close> when the key is missing or the value is no dictionary.\<close>

fun jget :: "json \<Rightarrow> string \<Rightarrow> json option" where
  "jget (J_obj d) k = dget d k"
| "jget _ k = None"

definition jget_or :: "json \<Rightarrow> json \<Rightarrow> string \<Rightarrow> json" where
  "jget_or dflt v k = (case jget v k of None \<Rightarrow> dflt | Some x \<Rightarrow> x)"

abbreviation jfield :: "json \<Rightarrow> string \<Rightarrow> json" where
  "jfield \<equiv> jget_or J_null"

text \<open>Truth of a value; a float is false when its text is a zero.\<close>

fun jtruthy :: "json \<Rightarrow> bool" where
  "jtruthy J_null = False"
| "jtruthy (J_bool b) = b"
| "jtruthy (J_int n) = (n \<noteq> 0)"
| "jtruthy (J_float t) = (t \<noteq> ''0.0'' \<and> t \<noteq> ''-0.0'')"
| "jtruthy (J_str s) = (s \<noteq> [])"
| "jtruthy (J_list xs) = (xs \<noteq> [])"
| "jtruthy (J_obj d) = (d \<noteq> [])"

definition jor :: "json \<Rightarrow> json \<Rightarrow> json" where
  "jor a b = (if jtruthy a then a else b)"

fun str_of :: "json \<Rightarrow> string option" where
  "str_of (J_str s) = Some s"
| "str_of _ = None"

text \<open>\<open>isinstance(v, int)\<close> holds of booleans too.\<close>

fun int_of_json :: "json \<Rightarrow> int option" where
  "int_of_json (J_int n) = Some n"
| "int_of_json (J_bool b) = Some (if b then 1 else 0)"
| "int_of_json _ = None"

fun list_of :: "json \<Rightarrow> json list option" where
  "list_of (J_list xs) = Some xs"
| "list_of _ = None"

lemma jfield_obj: "jfield (J_obj d) k = (case dget d k of None \<Rightarrow> J_null | Some x \<Rightarrow> x)"
  by (simp add: jget_or_def)

lemma str_of_iff: "str_of v = Some s \<longleftrightarrow> v = J_str s"
  by (cases v) simp_all

text \<open>
  What \<open>json.loads\<close> does with a text: a value, a \<open>ValueError\<close> (\<open>UnicodeDecodeError\<close> is one), or
  a \<open>RecursionError\<close>, which is no \<open>ValueError\<close>, for deep nesting.
\<close>

datatype loaded = Loaded json | Not_json | Too_deep

end
