(* ===== verification/SessionManager.thy ===== *)
theory SessionManager
  imports OwnerLocks Json "HOL-Library.Product_Lexorder"
begin

text \<open>
  The session cache of a gateway process, \<open>src/src/session_manager.py\<close>.  Session objects live in
  a heap and are known by identity (the index), as in the code, where an expired session can
  still be torn down while a new object already carries its id; the dictionary maps ids to
  identities in insertion order.  An \<open>await\<close> splits a coroutine: what runs after it is a pending
  task of the state, resumed by a step of its own, so every interleaving of teardowns, client
  starts and requests is a run.  What the operations do outside the process (dirs removed, CLIs
  stopped) is recorded in \<open>m_log\<close>.
\<close>

section \<open>State\<close>

record session =
  s_id :: string
  s_backend :: string
  s_ttl :: int
  s_messages :: "json list"
  s_created :: instant
  s_last :: instant
  s_expires :: instant
  s_turns :: nat
  s_prompt :: "string option"
  s_user :: "string option"
  s_workspace :: "string option"
  s_client :: "nat option"
  s_starting :: bool
  s_deferred :: "bool option"
  s_input_event :: bool
  s_pending :: "json option"
  s_reader :: bool
  s_active :: "string option"
  s_started :: "instant option"
  s_progress :: "instant option"
  s_locked :: bool
  s_poisoned :: bool
  s_records :: "(nat, json) dict"

text \<open>Why a session is being torn down; \<open>Ending\<close> carries the \<open>finished\<close> flag of a delete.\<close>

datatype teardown = Evicting | Expiring | Ending bool | Handing_off | Shutting_down

text \<open>
  A teardown not begun yet, and one awaiting the stop of a client.  A client start under way:
  \<open>create_client\<close> running without and with its CLI up, and a start that found its session gone
  and awaits the stop of the new client.
\<close>

datatype task = Queued nat teardown | Stopping nat nat teardown

datatype start = Creating | Spawned nat | Start_ended nat

datatype effect =
    Workspace_removed string | Env_removed string nat | Owner_released string nat | Cli_stopped nat | Evicted nat

datatype sweep = No_sweep | Sweep_scheduled | Sweep_running

record manager =
  m_objs :: "nat \<Rightarrow> session"
  m_next :: nat
  m_sessions :: "(string, nat) dict"
  m_owner :: owner_table
  m_tasks :: "task list"
  m_starts :: "(nat, start) dict"
  m_running :: "nat set"
  m_sweep :: sweep
  m_hits :: nat
  m_misses :: nat
  m_evicted :: nat
  m_rejected :: nat
  m_log :: "effect list"

text \<open>
  Settings, and what a call sees of the outside: the wall clock, the monotonic clock, whether a
  loop runs, whether this instance drains, and how a lock file answers.
\<close>

record settings =
  cf_max_live :: int
  cf_lru :: bool
  cf_min_idle :: instant
  cf_age_cap :: instant
  cf_default_ttl :: int
  cf_override_ttl :: "int option"

record outside =
  ot_now :: instant
  ot_mono :: instant
  ot_loop :: bool
  ot_draining :: bool
  ot_lock :: "string \<Rightarrow> flock_answer"

section \<open>Session operations\<close>

definition expiry :: "int \<Rightarrow> instant \<Rightarrow> instant" where
  "expiry ttl now = now + seconds (60 * ttl)"

text \<open>The dataclass with its defaults; \<open>__post_init__\<close> fills in \<open>expires_at\<close>.\<close>

definition new_session :: "string \<Rightarrow> int \<Rightarrow> instant \<Rightarrow> session" where
  "new_session sid ttl now =
     \<lparr>s_id = sid, s_backend = ''claude'', s_ttl = ttl, s_messages = [], s_created = now, s_last = now,
      s_expires = expiry ttl now, s_turns = 0, s_prompt = None, s_user = None, s_workspace = None, s_client = None,
      s_starting = False, s_deferred = None, s_input_event = False, s_pending = None, s_reader = False,
      s_active = None, s_started = None, s_progress = None, s_locked = False, s_poisoned = False,
      s_records = []\<rparr>"

definition touch :: "instant \<Rightarrow> session \<Rightarrow> session" where
  "touch now s = s\<lparr>s_last := now, s_expires := expiry (s_ttl s) now\<rparr>"

definition add_messages :: "instant \<Rightarrow> json list \<Rightarrow> session \<Rightarrow> session" where
  "add_messages now ms s = touch now (s\<lparr>s_messages := s_messages s @ ms\<rparr>)"

definition record_turn_response :: "nat \<Rightarrow> json \<Rightarrow> session \<Rightarrow> session" where
  "record_turn_response turn payload s = s\<lparr>s_records := dput turn payload (s_records s)\<rparr>"

definition get_turn_response :: "nat \<Rightarrow> session \<Rightarrow> json option" where
  "get_turn_response turn s = dget (s_records s) turn"

text \<open>\<open>a or b\<close> of two optional numbers: zero is false too.\<close>

definition num_or :: "int option \<Rightarrow> int option \<Rightarrow> int option" where
  "num_or a b = (case a of None \<Rightarrow> b | Some x \<Rightarrow> if x = 0 then b else Some x)"

definition is_expired :: "settings \<Rightarrow> outside \<Rightarrow> session \<Rightarrow> bool" where
  "is_expired cf ot s =
     (if s_active s \<noteq> None then
        (case num_or (s_progress s) (s_started s) of
           Some p \<Rightarrow> cf_age_cap cf > 0 \<and> ot_mono ot - p > cf_age_cap cf
         | None \<Rightarrow> False)
      else ot_now ot > s_expires s)"

definition busy :: "session \<Rightarrow> bool" where
  "busy s \<longleftrightarrow> s_active s \<noteq> None \<or> s_pending s \<noteq> None \<or> s_input_event s \<or> s_starting s"

definition set_obj :: "nat \<Rightarrow> (session \<Rightarrow> session) \<Rightarrow> manager \<Rightarrow> manager" where
  "set_obj r f m = m\<lparr>m_objs := (m_objs m)(r := f (m_objs m r))\<rparr>"

definition log_effect :: "effect \<Rightarrow> manager \<Rightarrow> manager" where
  "log_effect e m = m\<lparr>m_log := m_log m @ [e]\<rparr>"

definition drop_session :: "string \<Rightarrow> manager \<Rightarrow> manager" where
  "drop_session sid m = m\<lparr>m_sessions := ddel sid (m_sessions m)\<rparr>"

definition add_task :: "task \<Rightarrow> manager \<Rightarrow> manager" where
  "add_task t m = m\<lparr>m_tasks := m_tasks m @ [t]\<rparr>"

definition cancel_idle_reader :: "nat \<Rightarrow> manager \<Rightarrow> manager" where
  "cancel_idle_reader r = set_obj r (\<lambda>s. s\<lparr>s_reader := False\<rparr>)"

section \<open>Releasing what a session owns\<close>

definition defer_release :: "bool \<Rightarrow> session \<Rightarrow> session" where
  "defer_release finished s = s\<lparr>s_deferred := Some (finished \<or> s_deferred s = Some True)\<rparr>"

text \<open>\<open>_remove_session_env_locked\<close>: not while another object carries the id.\<close>

definition remove_session_env :: "nat \<Rightarrow> manager \<Rightarrow> manager" where
  "remove_session_env r m =
     (let sid = s_id (m_objs m r)
      in case dget (m_sessions m) sid of
           None \<Rightarrow> log_effect (Env_removed sid r) m
         | Some r' \<Rightarrow> if r' = r then log_effect (Env_removed sid r) m else m)"

definition cleanup_workspace :: "nat \<Rightarrow> manager \<Rightarrow> manager" where
  "cleanup_workspace r m =
     (case s_workspace (m_objs m r) of
        None \<Rightarrow> m
      | Some w \<Rightarrow> if w = [] then m else log_effect (Workspace_removed w) m)"

definition release_owner :: "nat \<Rightarrow> manager \<Rightarrow> manager" where
  "release_owner r m =
     (let sid = s_id (m_objs m r)
      in log_effect (Owner_released sid r) (m\<lparr>m_owner := owner_release sid r (m_owner m)\<rparr>))"

definition release_session_dirs :: "bool \<Rightarrow> nat \<Rightarrow> manager \<Rightarrow> manager" where
  "release_session_dirs finished r m =
     (if s_starting (m_objs m r) then set_obj r (defer_release finished) m
      else
        let m = cleanup_workspace r m;
            m = (if truthy (s_user (m_objs m r)) \<and> \<not> finished then m else remove_session_env r m)
        in release_owner r m)"

fun finished_flag :: "teardown \<Rightarrow> bool" where
  "finished_flag (Ending f) = f"
| "finished_flag _ = False"

text \<open>
  The body all teardowns share: stop the reader, stop the client if there is one (the await),
  then release.  \<open>teardown_begin\<close> runs to the await, \<open>teardown_resume\<close> from it.
\<close>

definition teardown_begin :: "nat \<Rightarrow> teardown \<Rightarrow> manager \<Rightarrow> manager" where
  "teardown_begin r w m =
     (let m = cancel_idle_reader r m
      in case s_client (m_objs m r) of
           None \<Rightarrow> release_session_dirs (finished_flag w) r m
         | Some c \<Rightarrow> add_task (Stopping r c w) m)"

definition stop_cli :: "nat \<Rightarrow> manager \<Rightarrow> manager" where
  "stop_cli c m = log_effect (Cli_stopped c) (m\<lparr>m_running := m_running m - {c}\<rparr>)"

definition teardown_resume :: "nat \<Rightarrow> nat \<Rightarrow> teardown \<Rightarrow> manager \<Rightarrow> manager" where
  "teardown_resume r c w m =
     (let m = set_obj r (\<lambda>s. s\<lparr>s_client := None\<rparr>) (stop_cli c m)
      in if w = Shutting_down then m else release_session_dirs (finished_flag w) r m)"

section \<open>Expiry\<close>

definition remove_if_expired :: "settings \<Rightarrow> outside \<Rightarrow> string \<Rightarrow> manager \<Rightarrow> bool \<times> manager" where
  "remove_if_expired cf ot sid m =
     (case dget (m_sessions m) sid of
        None \<Rightarrow> (False, m)
      | Some r \<Rightarrow>
          if \<not> is_expired cf ot (m_objs m r) then (False, m)
          else
            let m = drop_session sid m
            in (True,
                if s_client (m_objs m r) = None
                then release_session_dirs False r (cancel_idle_reader r m)
                else if ot_loop ot then add_task (Queued r Evicting) m
                else m))"

fun purge_sync :: "settings \<Rightarrow> outside \<Rightarrow> (string \<times> nat) list \<Rightarrow> manager \<Rightarrow> nat \<times> manager" where
  "purge_sync cf ot [] m = (0, m)"
| "purge_sync cf ot ((sid, r) # rest) m =
     (if is_expired cf ot (m_objs m r) \<and> s_client (m_objs m r) = None
      then let (n, m') = purge_sync cf ot rest (drop_session sid (release_session_dirs False r m))
           in (Suc n, m')
      else purge_sync cf ot rest m)"

definition purge_all_expired_sync :: "settings \<Rightarrow> outside \<Rightarrow> manager \<Rightarrow> nat \<times> manager" where
  "purge_all_expired_sync cf ot m = purge_sync cf ot (m_sessions m) m"

text \<open>\<open>_purge_all_expired\<close> up to the \<open>gather\<close>, which starts one task per doomed session.\<close>

fun purge_async :: "settings \<Rightarrow> outside \<Rightarrow> (string \<times> nat) list \<Rightarrow> manager \<Rightarrow> nat \<times> manager" where
  "purge_async cf ot [] m = (0, m)"
| "purge_async cf ot ((sid, r) # rest) m =
     (if is_expired cf ot (m_objs m r)
      then let (n, m') = purge_async cf ot rest (add_task (Queued r Expiring) (drop_session sid m))
           in (Suc n, m')
      else purge_async cf ot rest m)"

definition purge_all_expired :: "settings \<Rightarrow> outside \<Rightarrow> manager \<Rightarrow> nat \<times> manager" where
  "purge_all_expired cf ot m = purge_async cf ot (m_sessions m) m"

definition schedule_expired_sweep :: "outside \<Rightarrow> manager \<Rightarrow> manager" where
  "schedule_expired_sweep ot m =
     (if m_sweep m \<noteq> No_sweep \<or> \<not> ot_loop ot then m else m\<lparr>m_sweep := Sweep_scheduled\<rparr>)"

section \<open>Admission and eviction\<close>

definition evict_key :: "settings \<Rightarrow> outside \<Rightarrow> manager \<Rightarrow> string \<times> nat \<Rightarrow> bool \<times> instant" where
  "evict_key cf ot m e = (let s = m_objs m (snd e) in (\<not> is_expired cf ot s, s_last s))"

definition count_eviction :: "nat \<Rightarrow> manager \<Rightarrow> manager" where
  "count_eviction r m = log_effect (Evicted r) (m\<lparr>m_evicted := m_evicted m + 1\<rparr>)"

fun evict_scan :: "settings \<Rightarrow> outside \<Rightarrow> (string \<times> nat) list \<Rightarrow> manager \<Rightarrow> bool \<times> manager" where
  "evict_scan cf ot [] m = (False, m)"
| "evict_scan cf ot ((sid, r) # rest) m =
     (let s = m_objs m r
      in if busy s then evict_scan cf ot rest m
         else if \<not> is_expired cf ot s \<and> ot_now ot - s_last s < cf_min_idle cf then (False, m)
         else if s_client s \<noteq> None \<and> \<not> ot_loop ot then evict_scan cf ot rest m
         else
           (True, count_eviction r
             (if s_client s \<noteq> None then add_task (Queued r Evicting) (drop_session (s_id s) m)
              else release_session_dirs False r (drop_session (s_id s) m))))"

definition try_evict_lru :: "settings \<Rightarrow> outside \<Rightarrow> manager \<Rightarrow> bool \<times> manager" where
  "try_evict_lru cf ot m = evict_scan cf ot (sort_key (evict_key cf ot m) (m_sessions m)) m"

definition live_count :: "manager \<Rightarrow> int" where
  "live_count m = int (length (m_sessions m))"

definition has_room :: "settings \<Rightarrow> outside \<Rightarrow> manager \<Rightarrow> bool \<times> manager" where
  "has_room cf ot m =
     (if cf_max_live cf \<le> 0 \<or> live_count m < cf_max_live cf then (True, m)
      else
        let (n, m) = purge_all_expired_sync cf ot m
        in if live_count m < cf_max_live cf then (True, m)
           else
             let (admitted, m) = (if cf_lru cf then try_evict_lru cf ot m else (False, m))
             in (admitted,
                 if \<exists>e \<in> set (m_sessions m). is_expired cf ot (m_objs m (snd e))
                 then schedule_expired_sweep ot m else m))"

datatype manager_error =
    Session_limit int | Owned_draining string | Owned_by_other string | Owner_lock_failed owner_error
  | Transcript_unreadable | Transcript_unavailable

text \<open>A new object takes the next identity; it is in the heap before it is in the dictionary.\<close>

definition allocate :: "session \<Rightarrow> manager \<Rightarrow> nat \<times> manager" where
  "allocate s m = (m_next m, m\<lparr>m_objs := (m_objs m)(m_next m := s), m_next := Suc (m_next m)\<rparr>)"

definition take_ownership :: "outside \<Rightarrow> nat \<Rightarrow> manager \<Rightarrow> (manager_error + unit) \<times> manager" where
  "take_ownership ot r m =
     (let sid = s_id (m_objs m r)
      in if ot_draining ot then (Inl (Owned_draining sid), m)
         else case owner_acquire (ot_lock ot) sid r (m_owner m) of
           (Inl e, ol) \<Rightarrow> (Inl (Owner_lock_failed e), m\<lparr>m_owner := ol\<rparr>)
         | (Inr ok, ol) \<Rightarrow>
             if ok then (Inr (), m\<lparr>m_owner := ol\<rparr>) else (Inl (Owned_by_other sid), m\<lparr>m_owner := ol\<rparr>))"

definition admit_object :: "outside \<Rightarrow> string \<Rightarrow> session \<Rightarrow> manager \<Rightarrow> (manager_error + nat) \<times> manager" where
  "admit_object ot sid s m =
     (let (r, m) = allocate s m
      in case take_ownership ot r m of
           (Inl e, m) \<Rightarrow> (Inl e, m)
         | (Inr u, m) \<Rightarrow> (Inr r, m\<lparr>m_sessions := dput sid r (m_sessions m)\<rparr>))"

definition session_ttl :: "settings \<Rightarrow> int" where
  "session_ttl cf = (case cf_override_ttl cf of Some t \<Rightarrow> t | None \<Rightarrow> cf_default_ttl cf)"

definition get_or_create_session ::
  "settings \<Rightarrow> outside \<Rightarrow> string \<Rightarrow> manager \<Rightarrow> (manager_error + nat) \<times> manager" where
  "get_or_create_session cf ot sid m =
     (let (gone, m) = remove_if_expired cf ot sid m
      in case dget (m_sessions m) sid of
           Some r \<Rightarrow> (Inr r, set_obj r (touch (ot_now ot)) m)
         | None \<Rightarrow>
             (let (room, m) = has_room cf ot m
              in if \<not> room then (Inl (Session_limit (cf_max_live cf)), m\<lparr>m_rejected := m_rejected m + 1\<rparr>)
                 else admit_object ot sid (new_session sid (session_ttl cf) (ot_now ot)) m))"

section \<open>Lookup and rehydration\<close>

definition cached_session :: "settings \<Rightarrow> outside \<Rightarrow> string \<Rightarrow> manager \<Rightarrow> nat option \<times> manager" where
  "cached_session cf ot sid m =
     (let (gone, m) = remove_if_expired cf ot sid m
      in case dget (m_sessions m) sid of
           None \<Rightarrow> (None, m)
         | Some r \<Rightarrow> (Some r, set_obj r (touch (ot_now ot)) m))"

text \<open>
  What reading the transcript came to: a number of turns, negative for a corrupt or missing one,
  a recorded directory that is not the requester's, or an error.
\<close>

datatype transcript = Turns int | Mismatch | Unreadable | Unavailable_now

definition rehydrated_session :: "string \<Rightarrow> string \<Rightarrow> string \<Rightarrow> nat \<Rightarrow> instant \<Rightarrow> session" where
  "rehydrated_session sid user cwd turns now =
     (new_session sid 60 now)\<lparr>s_turns := turns, s_workspace := Some cwd, s_user := Some user\<rparr>"

definition try_rehydrate ::
  "string \<Rightarrow> string \<Rightarrow> string \<Rightarrow> transcript \<Rightarrow> instant \<Rightarrow> manager_error + session option" where
  "try_rehydrate sid user cwd answer now =
     (if user = [] \<or> cwd = [] then Inr None
      else case answer of
        Unreadable \<Rightarrow> Inl Transcript_unreadable
      | Unavailable_now \<Rightarrow> Inl Transcript_unavailable
      | Mismatch \<Rightarrow> Inr None
      | Turns n \<Rightarrow> if n < 0 then Inr None else Inr (Some (rehydrated_session sid user cwd (nat n) now)))"

definition count_miss :: "manager \<Rightarrow> manager" where
  "count_miss m = m\<lparr>m_misses := m_misses m + 1\<rparr>"

definition admit_rehydrated ::
  "settings \<Rightarrow> outside \<Rightarrow> string \<Rightarrow> session option \<Rightarrow> nat option \<Rightarrow> manager \<Rightarrow> (manager_error + nat option) \<times> manager" where
  "admit_rehydrated cf ot sid so max_turn m =
     (case cached_session cf ot sid m of
        (Some r, m) \<Rightarrow> (Inr (Some r), m)
      | (None, m) \<Rightarrow>
          (case so of
             None \<Rightarrow> (Inr None, count_miss m)
           | Some s \<Rightarrow>
               if (case max_turn of None \<Rightarrow> False | Some t \<Rightarrow> t > s_turns s) then (Inr None, count_miss m)
               else
                 let (room, m) = has_room cf ot m
                 in if \<not> room then (Inl (Session_limit (cf_max_live cf)), m\<lparr>m_rejected := m_rejected m + 1\<rparr>)
                    else case admit_object ot sid s m of
                      (Inl e, m) \<Rightarrow> (Inl e, m)
                    | (Inr r, m) \<Rightarrow> (Inr (Some r), m\<lparr>m_hits := m_hits m + 1\<rparr>)))"

text \<open>
  \<open>get_session\<close> and \<open>get_session_async\<close> in their two locked halves; the transcript is read
  between them, without the lock.
\<close>

definition get_session_begin ::
  "settings \<Rightarrow> outside \<Rightarrow> string \<Rightarrow> string option \<Rightarrow> string option \<Rightarrow> manager \<Rightarrow> (nat option) option \<times> manager" where
  "get_session_begin cf ot sid user cwd m =
     (let (ro, m) = cached_session cf ot sid m
      in (if ro \<noteq> None \<or> \<not> truthy user \<or> \<not> truthy cwd then Some ro else None, m))"

definition get_session_end ::
  "settings \<Rightarrow> outside \<Rightarrow> string \<Rightarrow> string \<Rightarrow> string \<Rightarrow> nat option \<Rightarrow> transcript \<Rightarrow> manager \<Rightarrow>
     (manager_error + nat option) \<times> manager" where
  "get_session_end cf ot sid user cwd max_turn answer m =
     (case try_rehydrate sid user cwd answer (ot_now ot) of
        Inl e \<Rightarrow> (Inl e, count_miss m)
      | Inr so \<Rightarrow> admit_rehydrated cf ot sid so max_turn m)"

definition peek_session :: "settings \<Rightarrow> outside \<Rightarrow> string \<Rightarrow> manager \<Rightarrow> nat option \<times> manager" where
  "peek_session cf ot sid m =
     (let (gone, m) = remove_if_expired cf ot sid m in (dget (m_sessions m) sid, m))"

section \<open>Deletion and hand-off\<close>

definition delete_session :: "string \<Rightarrow> manager \<Rightarrow> bool \<times> manager" where
  "delete_session sid m =
     (case dget (m_sessions m) sid of
        None \<Rightarrow> (False, m)
      | Some r \<Rightarrow> (True, release_session_dirs True r (cancel_idle_reader r (drop_session sid m))))"

definition delete_session_async :: "bool \<Rightarrow> string \<Rightarrow> manager \<Rightarrow> bool \<times> manager" where
  "delete_session_async finished sid m =
     (case dget (m_sessions m) sid of
        None \<Rightarrow> (False, m)
      | Some r \<Rightarrow> (True, teardown_begin r (Ending finished) (drop_session sid m)))"

datatype handoff_answer = Absent | Busy | Released

definition release_for_handoff :: "string \<Rightarrow> manager \<Rightarrow> handoff_answer \<times> manager" where
  "release_for_handoff sid m =
     (case dget (m_sessions m) sid of
        None \<Rightarrow> (Absent, m)
      | Some r \<Rightarrow>
          if s_locked (m_objs m r) \<or> busy (m_objs m r) then (Busy, m)
          else (Released,
            teardown_begin r Handing_off (set_obj r (\<lambda>s. s\<lparr>s_poisoned := True\<rparr>) (drop_session sid m))))"

section \<open>Starting a client\<close>

definition begin_client_start :: "nat \<Rightarrow> manager \<Rightarrow> manager" where
  "begin_client_start r m =
     (set_obj r (\<lambda>s. s\<lparr>s_starting := True\<rparr>) m)\<lparr>m_starts := dput r Creating (m_starts m)\<rparr>"

text \<open>The end of a start whose session is gone, once its client (if any) is stopped.\<close>

definition start_abandoned :: "nat \<Rightarrow> manager \<Rightarrow> manager" where
  "start_abandoned r m =
     (let finished = (s_deferred (m_objs m r) = Some True);
          m = set_obj r (\<lambda>s. s\<lparr>s_starting := False, s_deferred := None\<rparr>)
                (m\<lparr>m_starts := ddel r (m_starts m)\<rparr>)
      in release_session_dirs finished r m)"

text \<open>\<open>finish_client_start\<close>: \<open>client\<close> is handed over, \<open>None\<close> on failure.\<close>

definition finish_client_start :: "string \<Rightarrow> nat \<Rightarrow> nat option \<Rightarrow> manager \<Rightarrow> bool \<times> manager" where
  "finish_client_start sid r client m =
     (if dget (m_sessions m) sid = Some r then
        (True, set_obj r (\<lambda>s. (case client of None \<Rightarrow> s | Some c \<Rightarrow> s\<lparr>s_client := Some c\<rparr>)
            \<lparr>s_starting := False, s_deferred := None\<rparr>) (m\<lparr>m_starts := ddel r (m_starts m)\<rparr>))
      else (False,
        case client of
          None \<Rightarrow> start_abandoned r m
        | Some c \<Rightarrow> m\<lparr>m_starts := dput r (Start_ended c) (m_starts m)\<rparr>))"

section \<open>Shutdown and statistics\<close>

text \<open>
  \<open>async_shutdown\<close>: once the sweep and the eviction teardowns are settled, the clients of a
  snapshot of the sessions are stopped, then everything the dictionary holds is released.
\<close>

fun shutdown_disconnect :: "nat list \<Rightarrow> manager \<Rightarrow> manager" where
  "shutdown_disconnect [] m = m"
| "shutdown_disconnect (r # rs) m =
     (let m = cancel_idle_reader r m
      in shutdown_disconnect rs
           (case s_client (m_objs m r) of None \<Rightarrow> m | Some c \<Rightarrow> add_task (Stopping r c Shutting_down) m))"

definition shutdown_begin :: "manager \<Rightarrow> manager" where
  "shutdown_begin m = shutdown_disconnect (dvals (m_sessions m)) m"

definition shutdown_clear :: "manager \<Rightarrow> manager" where
  "shutdown_clear m =
     (fold (release_session_dirs False) (dvals (m_sessions m)) m)\<lparr>m_sessions := []\<rparr>"

definition oldest_active_turn_silence :: "outside \<Rightarrow> manager \<Rightarrow> int" where
  "oldest_active_turn_silence ot m =
     (let marks = map (\<lambda>r. num_or (s_progress (m_objs m r)) (s_started (m_objs m r)))
            (filter (\<lambda>r. s_active (m_objs m r) \<noteq> None) (dvals (m_sessions m)));
          ages = map (\<lambda>x. ot_mono ot - the x) (filter (\<lambda>x. x \<noteq> None) marks)
      in if ages = [] then 0 else Max (set ages))"

definition list_sessions :: "settings \<Rightarrow> outside \<Rightarrow> manager \<Rightarrow> string list \<times> manager" where
  "list_sessions cf ot m =
     (let (n, m) = purge_all_expired_sync cf ot m in (map (\<lambda>r. s_id (m_objs m r)) (dvals (m_sessions m)), m))"

definition get_stats :: "settings \<Rightarrow> outside \<Rightarrow> manager \<Rightarrow> nat \<times> nat \<times> nat" where
  "get_stats cf ot m =
     (let ss = map (m_objs m) (dvals (m_sessions m))
      in (count_if (\<lambda>s. \<not> is_expired cf ot s) ss, count_if (is_expired cf ot) ss,
          sum_list (map (length \<circ> s_messages) ss)))"

definition manager_stats :: "settings \<Rightarrow> outside \<Rightarrow> manager \<Rightarrow> nat \<times> nat \<times> nat" where
  "manager_stats cf ot m =
     (count_if (\<lambda>s. \<not> is_expired cf ot s) (map (m_objs m) (dvals (m_sessions m))), m_hits m, m_misses m)"

section \<open>The manager in operation\<close>

text \<open>
  One step is what runs between two awaits.  The event loop runs (\<open>ot_loop\<close>); a client is created
  under the session's lock, for a session object that was in the cache once; client numbers are
  fresh.  A failed \<open>create_client\<close> leaves no CLI (the backend's own contract).  \<open>sm_turn\<close> is
  everything the routes do to a session's other fields.
\<close>

definition released :: "nat \<Rightarrow> manager \<Rightarrow> bool" where
  "released r m \<longleftrightarrow> (\<exists>sid. Owner_released sid r \<in> set (m_log m))"

fun task_ref :: "task \<Rightarrow> nat" where
  "task_ref (Queued r w) = r"
| "task_ref (Stopping r c w) = r"

definition owes :: "nat \<Rightarrow> manager \<Rightarrow> bool" where
  "owes r m \<longleftrightarrow> r \<in> set (dvals (m_sessions m)) \<or> r \<in> task_ref ` set (m_tasks m) \<or>
     dget (m_starts m) r \<noteq> None"

definition same_core :: "session \<Rightarrow> session \<Rightarrow> bool" where
  "same_core s t \<longleftrightarrow> s_id t = s_id s \<and> s_client t = s_client s \<and> s_starting t = s_starting s"

definition take_task :: "task \<Rightarrow> manager \<Rightarrow> manager" where
  "take_task t m = m\<lparr>m_tasks := remove1 t (m_tasks m)\<rparr>"

fun run_task :: "task \<Rightarrow> manager \<Rightarrow> manager" where
  "run_task (Queued r w) m = teardown_begin r w m"
| "run_task (Stopping r c w) m = teardown_resume r c w m"

text \<open>Why a task runs; shutdown, which ends the process, is treated apart.\<close>

fun task_kind :: "task \<Rightarrow> teardown" where
  "task_kind (Queued r w) = w"
| "task_kind (Stopping r c w) = w"

definition client_used :: "nat \<Rightarrow> manager \<Rightarrow> bool" where
  "client_used c m \<longleftrightarrow> c \<in> m_running m \<or> (\<exists>r. s_client (m_objs m r) = Some c) \<or>
     (\<exists>r. dget (m_starts m) r = Some (Spawned c) \<or> dget (m_starts m) r = Some (Start_ended c))"

inductive manager_step :: "settings \<Rightarrow> manager \<Rightarrow> manager \<Rightarrow> bool" for cf where
  sm_create: "ot_loop ot \<Longrightarrow> manager_step cf m (snd (get_or_create_session cf ot sid m))"
| sm_lookup: "ot_loop ot \<Longrightarrow> manager_step cf m (snd (get_session_begin cf ot sid user cwd m))"
| sm_rehydrate: "ot_loop ot \<Longrightarrow>
     manager_step cf m (snd (get_session_end cf ot sid user cwd max_turn answer m))"
| sm_peek: "ot_loop ot \<Longrightarrow> manager_step cf m (snd (peek_session cf ot sid m))"
| sm_list: "ot_loop ot \<Longrightarrow> manager_step cf m (snd (list_sessions cf ot m))"
| sm_cleanup: "manager_step cf m (snd (purge_all_expired cf ot m))"
| sm_sweep: "m_sweep m = Sweep_scheduled \<Longrightarrow>
     manager_step cf m ((snd (purge_all_expired cf ot m))\<lparr>m_sweep := Sweep_running\<rparr>)"
| sm_sweep_done: "m_sweep m = Sweep_running \<Longrightarrow> manager_step cf m (m\<lparr>m_sweep := No_sweep\<rparr>)"
| sm_delete: "manager_step cf m (snd (delete_session_async finished sid m))"
| sm_handoff: "manager_step cf m (snd (release_for_handoff sid m))"
| sm_task: "t \<in> set (m_tasks m) \<Longrightarrow> task_kind t \<noteq> Shutting_down \<Longrightarrow> manager_step cf m (run_task t (take_task t m))"
| sm_start: "owes r m \<or> released r m \<Longrightarrow> s_client (m_objs m r) = None \<Longrightarrow> dget (m_starts m) r = None \<Longrightarrow>
     manager_step cf m (begin_client_start r m)"
| sm_spawn: "dget (m_starts m) r = Some Creating \<Longrightarrow> \<not> client_used c m \<Longrightarrow>
     manager_step cf m (m\<lparr>m_starts := dput r (Spawned c) (m_starts m), m_running := insert c (m_running m)\<rparr>)"
| sm_started: "dget (m_starts m) r = Some (Spawned c) \<Longrightarrow>
     manager_step cf m (snd (finish_client_start (s_id (m_objs m r)) r (Some c) m))"
| sm_failed: "dget (m_starts m) r = Some st \<Longrightarrow> st = Creating \<or> st = Spawned c \<Longrightarrow>
     manager_step cf m (snd (finish_client_start (s_id (m_objs m r)) r None
       (m\<lparr>m_running := m_running m - {c}\<rparr>)))"
| sm_start_ended: "dget (m_starts m) r = Some (Start_ended c) \<Longrightarrow>
     manager_step cf m (start_abandoned r (stop_cli c m))"
| sm_exit: "manager_step cf m (m\<lparr>m_running := m_running m - {c}\<rparr>)"
| sm_disconnect: "s_client (m_objs m r) = Some c \<Longrightarrow>
     manager_step cf m (set_obj r (\<lambda>s. s\<lparr>s_client := None\<rparr>) (stop_cli c m))"
| sm_turn: "same_core (m_objs m r) s \<Longrightarrow> manager_step cf m (m\<lparr>m_objs := (m_objs m)(r := s)\<rparr>)"

definition fresh_manager :: "bool \<Rightarrow> manager \<Rightarrow> bool" where
  "fresh_manager blue_green m \<longleftrightarrow>
     m_next m = 0 \<and> m_sessions m = [] \<and> m_owner m = \<lparr>ow_enabled = blue_green, ow_held = []\<rparr> \<and>
     m_tasks m = [] \<and> m_starts m = [] \<and> m_running m = {} \<and> m_log m = [] \<and> m_sweep m = No_sweep \<and>
     (\<forall>r. s_client (m_objs m r) = None \<and> \<not> s_starting (m_objs m r))"

section \<open>The invariant\<close>

text \<open>
  \<open>mi_cache\<close>: the dictionary is consistent and holds nothing released.  \<open>mi_tasks\<close>: only sessions
  out of the dictionary are torn down.  \<open>mi_starts\<close>: the flag tells exactly the starts under way,
  for sessions without a client.  \<open>mi_gone\<close>: a released session has no client.  \<open>mi_tokens\<close>: an
  owner token stands for an unreleased session that the cache, a task or a start still answers
  for (except those in \<open>X\<close>, being handled right now), and each such session has its token.
\<close>

definition mi_cache :: "manager \<Rightarrow> bool" where
  "mi_cache m \<longleftrightarrow> dwf (m_sessions m) \<and>
     (\<forall>sid r. dget (m_sessions m) sid = Some r \<longrightarrow> r < m_next m \<and> s_id (m_objs m r) = sid \<and> \<not> released r m)"

definition mi_tasks :: "manager \<Rightarrow> bool" where
  "mi_tasks m \<longleftrightarrow> (\<forall>t \<in> set (m_tasks m). task_ref t \<notin> set (dvals (m_sessions m)) \<and> task_ref t < m_next m)"

definition mi_starts :: "manager \<Rightarrow> bool" where
  "mi_starts m \<longleftrightarrow> dwf (m_starts m) \<and>
     (\<forall>r. s_starting (m_objs m r) \<longleftrightarrow> dget (m_starts m) r \<noteq> None) \<and>
     (\<forall>r. dget (m_starts m) r \<noteq> None \<longrightarrow> s_client (m_objs m r) = None \<and> r < m_next m) \<and>
     (\<forall>r c. dget (m_starts m) r = Some (Start_ended c) \<longrightarrow> r \<notin> set (dvals (m_sessions m)))"

definition mi_gone :: "manager \<Rightarrow> bool" where
  "mi_gone m \<longleftrightarrow> (\<forall>r. released r m \<longrightarrow> s_client (m_objs m r) = None \<and> r < m_next m) \<and>
     (\<forall>r. r \<ge> m_next m \<longrightarrow> s_client (m_objs m r) = None)"

definition mi_tokens :: "nat set \<Rightarrow> manager \<Rightarrow> bool" where
  "mi_tokens X m \<longleftrightarrow> ow_enabled (m_owner m) \<longrightarrow>
     (\<forall>sid r. token_holds (m_owner m) sid r \<longrightarrow>
        r < m_next m \<and> s_id (m_objs m r) = sid \<and> \<not> released r m \<and> (owes r m \<or> r \<in> X)) \<and>
     (\<forall>r. (owes r m \<or> r \<in> X) \<and> \<not> released r m \<longrightarrow> token_holds (m_owner m) (s_id (m_objs m r)) r)"

text \<open>A client in a session object: the session is in the cache or being torn down.\<close>

definition mi_clients :: "nat set \<Rightarrow> manager \<Rightarrow> bool" where
  "mi_clients X m \<longleftrightarrow> (\<forall>r. s_client (m_objs m r) \<noteq> None \<longrightarrow> owes r m \<or> r \<in> X)"

definition inv_but :: "nat set \<Rightarrow> manager \<Rightarrow> bool" where
  "inv_but X m \<longleftrightarrow> mi_cache m \<and> mi_tasks m \<and> mi_starts m \<and> mi_gone m \<and> mi_tokens X m \<and> mi_clients X m"

definition manager_inv :: "manager \<Rightarrow> bool" where
  "manager_inv m \<longleftrightarrow> inv_but {} m"

lemma inv_butD:
  assumes "inv_but X m"
  shows "mi_cache m" "mi_tasks m" "mi_starts m" "mi_gone m" "mi_tokens X m" "mi_clients X m"
  using assms by (simp_all add: inv_but_def)

lemma inv_butI:
  "mi_cache m \<Longrightarrow> mi_tasks m \<Longrightarrow> mi_starts m \<Longrightarrow> mi_gone m \<Longrightarrow> mi_tokens X m \<Longrightarrow> mi_clients X m \<Longrightarrow> inv_but X m"
  by (simp add: inv_but_def)

section \<open>What keeps the invariant\<close>

text \<open>The invariant reads only these parts of the state.\<close>

definition same_view :: "manager \<Rightarrow> manager \<Rightarrow> bool" where
  "same_view m n \<longleftrightarrow> m_sessions n = m_sessions m \<and> m_tasks n = m_tasks m \<and> m_starts n = m_starts m \<and>
     m_next n = m_next m \<and> m_owner n = m_owner m \<and> (\<forall>r. released r n = released r m) \<and>
     (\<forall>r. same_core (m_objs m r) (m_objs n r))"

lemma same_viewD:
  assumes "same_view m n"
  shows "m_sessions n = m_sessions m" "m_tasks n = m_tasks m" "m_starts n = m_starts m" "m_next n = m_next m"
    "m_owner n = m_owner m" "\<And>r. released r n = released r m" "\<And>r. s_id (m_objs n r) = s_id (m_objs m r)"
    "\<And>r. s_client (m_objs n r) = s_client (m_objs m r)" "\<And>r. s_starting (m_objs n r) = s_starting (m_objs m r)"
  using assms by (simp_all add: same_view_def same_core_def)

lemma owes_same_view: "same_view m n \<Longrightarrow> owes r n = owes r m"
  by (simp add: owes_def same_viewD)

lemma inv_same_view:
  assumes "inv_but X m" and view: "same_view m n"
  shows "inv_but X n"
proof -
  note eqs = same_viewD [OF view] owes_same_view [OF view]
  have "mi_cache n = mi_cache m" "mi_tasks n = mi_tasks m" "mi_starts n = mi_starts m"
    "mi_gone n = mi_gone m" "mi_tokens X n = mi_tokens X m" "mi_clients X n = mi_clients X m"
    unfolding mi_cache_def mi_tasks_def mi_starts_def mi_gone_def mi_tokens_def mi_clients_def
    by (simp_all only: eqs)
  then show ?thesis using assms(1) by (simp add: inv_but_def)
qed

lemma same_view_trans: "same_view a b \<Longrightarrow> same_view b c \<Longrightarrow> same_view a c"
  by (simp add: same_view_def same_core_def)

lemma same_core_refl [simp]: "same_core s s"
  by (simp add: same_core_def)

lemma set_obj_simps [simp]:
  "m_sessions (set_obj r f m) = m_sessions m" "m_tasks (set_obj r f m) = m_tasks m"
  "m_starts (set_obj r f m) = m_starts m" "m_next (set_obj r f m) = m_next m" "m_owner (set_obj r f m) = m_owner m"
  "m_log (set_obj r f m) = m_log m" "m_objs (set_obj r f m) = (m_objs m)(r := f (m_objs m r))"
  "m_running (set_obj r f m) = m_running m" "m_sweep (set_obj r f m) = m_sweep m"
  by (simp_all add: set_obj_def)

lemma log_effect_simps [simp]:
  "m_sessions (log_effect e m) = m_sessions m" "m_tasks (log_effect e m) = m_tasks m"
  "m_starts (log_effect e m) = m_starts m" "m_next (log_effect e m) = m_next m" "m_owner (log_effect e m) = m_owner m"
  "m_log (log_effect e m) = m_log m @ [e]" "m_objs (log_effect e m) = m_objs m"
  "m_running (log_effect e m) = m_running m" "m_sweep (log_effect e m) = m_sweep m"
  by (simp_all add: log_effect_def)

lemma released_log [simp]:
  "released r (log_effect e m) \<longleftrightarrow> released r m \<or> (\<exists>sid. e = Owner_released sid r)"
  by (auto simp: released_def)

lemma released_set_obj [simp]: "released r (set_obj q f m) = released r m"
  by (simp add: released_def)

lemma same_view_set_obj: "(\<And>s. same_core s (f s)) \<Longrightarrow> same_view m (set_obj r f m)"
  by (simp add: same_view_def)

lemma same_view_log: "(\<And>sid r. e \<noteq> Owner_released sid r) \<Longrightarrow> same_view m (log_effect e m)"
  by (simp add: same_view_def)

lemma same_view_reader: "same_view m (cancel_idle_reader r m)"
  unfolding cancel_idle_reader_def by (rule same_view_set_obj) (simp add: same_core_def)

lemma same_view_touch: "same_view m (set_obj r (touch now) m)"
  by (rule same_view_set_obj) (simp add: same_core_def touch_def)

lemma same_view_defer: "same_view m (set_obj r (defer_release finished) m)"
  by (rule same_view_set_obj) (simp add: same_core_def defer_release_def)

lemma same_view_cleanup: "same_view m (cleanup_workspace r m)"
  by (auto simp: cleanup_workspace_def same_view_log same_view_def split: option.splits)

lemma same_view_env: "same_view m (remove_session_env r m)"
  by (auto simp: remove_session_env_def Let_def same_view_log same_view_def split: option.splits)

text \<open>Leaving the dictionary, gaining and losing a task.\<close>

lemma dvals_iff: "dwf d \<Longrightarrow> r \<in> snd ` set d \<longleftrightarrow> (\<exists>k. dget d k = Some r)"
proof
  assume "dwf d" "r \<in> snd ` set d"
  then obtain k where "(k, r) \<in> set d" by force
  then show "\<exists>k. dget d k = Some r" using \<open>dwf d\<close> by (auto simp: dget_Some_iff)
next
  assume "\<exists>k. dget d k = Some r"
  then show "r \<in> snd ` set d" using dget_SomeD by force
qed

lemma dvals_ddel:
  assumes "dwf d" "dget d k = Some r" "\<And>k'. dget d k' = Some r \<Longrightarrow> k' = k"
  shows "snd ` set (ddel k d) = snd ` set d - {r}"
proof -
  have "q \<in> snd ` set (ddel k d) \<longleftrightarrow> q \<in> snd ` set d - {r}" for q
  proof (cases "q = r")
    case True
    have "dget (ddel k d) k' \<noteq> Some r" for k' using assms(3) [of k'] by (auto simp: dget_ddel)
    then show ?thesis using True dvals_iff [OF dwf_ddel [OF assms(1)]] by simp
  next
    case False
    have "dget (ddel k d) k' = Some q \<longleftrightarrow> dget d k' = Some q" for k'
      using False assms(2) by (simp add: dget_ddel)
    then show ?thesis using False dvals_iff [OF dwf_ddel [OF assms(1)]] dvals_iff [OF assms(1)] by simp
  qed
  then show ?thesis by blast
qed

lemma mi_cache_key:
  assumes "mi_cache m" and "dget (m_sessions m) sid = Some r"
  shows "r < m_next m" "s_id (m_objs m r) = sid" "\<not> released r m" "dwf (m_sessions m)"
    and "dget (m_sessions m) sid' = Some r \<Longrightarrow> sid' = sid"
  using assms unfolding mi_cache_def by auto

lemma dvals_drop:
  assumes "mi_cache m" and "dget (m_sessions m) sid = Some r"
  shows "snd ` set (m_sessions (drop_session sid m)) = snd ` set (m_sessions m) - {r}"
  unfolding drop_session_def
  using dvals_ddel [OF mi_cache_key(4) [OF assms] assms(2) mi_cache_key(5) [OF assms]] by simp

lemma drop_session_simps [simp]:
  "m_tasks (drop_session sid m) = m_tasks m" "m_starts (drop_session sid m) = m_starts m"
  "m_next (drop_session sid m) = m_next m" "m_owner (drop_session sid m) = m_owner m"
  "m_log (drop_session sid m) = m_log m" "m_objs (drop_session sid m) = m_objs m"
  "m_sessions (drop_session sid m) = ddel sid (m_sessions m)" "released r (drop_session sid m) = released r m"
  by (simp_all add: drop_session_def released_def)

lemma owes_drop:
  assumes "mi_cache m" and "dget (m_sessions m) sid = Some r"
  shows "owes q (drop_session sid m) \<or> q = r \<longleftrightarrow> owes q m \<or> q = r"
  using dvals_drop [OF assms] by (simp add: owes_def) blast

lemma tokens_same:
  assumes "mi_tokens X m" and "m_owner n = m_owner m" and "m_next n = m_next m"
    and "\<And>r. s_id (m_objs n r) = s_id (m_objs m r)" and "\<And>r. released r n = released r m"
    and "\<And>r. (owes r n \<or> r \<in> Y) \<longleftrightarrow> (owes r m \<or> r \<in> X)"
  shows "mi_tokens Y n"
  using assms unfolding mi_tokens_def by simp

lemma clients_same:
  assumes "mi_clients X m" and "\<And>r. s_client (m_objs n r) = s_client (m_objs m r)"
    and "\<And>r. (owes r n \<or> r \<in> Y) \<longleftrightarrow> (owes r m \<or> r \<in> X)"
  shows "mi_clients Y n"
  using assms unfolding mi_clients_def by simp

lemma inv_drop:
  assumes inv: "inv_but X m" and g: "dget (m_sessions m) sid = Some r"
  shows "inv_but (insert r X) (drop_session sid m)" and "r \<notin> snd ` set (m_sessions (drop_session sid m))"
proof -
  note c = inv_butD(1) [OF inv]
  note dv = dvals_drop [OF c g]
  show "r \<notin> snd ` set (m_sessions (drop_session sid m))" unfolding dv by simp
  have ow: "(owes q (drop_session sid m) \<or> q \<in> insert r X) \<longleftrightarrow> (owes q m \<or> q \<in> X)" for q
  proof (cases "q = r")
    case True
    have "r \<in> snd ` set (m_sessions m)" using g mi_cache_key(4) [OF c g] by (auto simp: dvals_iff)
    then have "owes r m" by (simp add: owes_def)
    then show ?thesis using True by simp
  qed (use owes_drop [OF c g, of q] in auto)
  show "inv_but (insert r X) (drop_session sid m)"
  proof (rule inv_butI)
    show "mi_cache (drop_session sid m)"
      using c unfolding mi_cache_def by (simp add: dwf_ddel dget_ddel)
    show "mi_tasks (drop_session sid m)"
      using inv_butD(2) [OF inv] dv unfolding mi_tasks_def by simp
    show "mi_starts (drop_session sid m)"
      using inv_butD(3) [OF inv] dv unfolding mi_starts_def by simp
    show "mi_gone (drop_session sid m)"
      using inv_butD(4) [OF inv] unfolding mi_gone_def by simp
    show "mi_tokens (insert r X) (drop_session sid m)"
      by (rule tokens_same [OF inv_butD(5) [OF inv]]) (simp_all add: ow [simplified])
    show "mi_clients (insert r X) (drop_session sid m)"
      by (rule clients_same [OF inv_butD(6) [OF inv]]) (simp_all add: ow [simplified])
  qed
qed

lemma add_task_simps [simp]:
  "m_tasks (add_task t m) = m_tasks m @ [t]" "m_starts (add_task t m) = m_starts m"
  "m_next (add_task t m) = m_next m" "m_owner (add_task t m) = m_owner m" "m_log (add_task t m) = m_log m"
  "m_objs (add_task t m) = m_objs m" "m_sessions (add_task t m) = m_sessions m"
  "released r (add_task t m) = released r m"
  by (simp_all add: add_task_def released_def)

lemma take_task_simps [simp]:
  "m_tasks (take_task t m) = remove1 t (m_tasks m)" "m_starts (take_task t m) = m_starts m"
  "m_next (take_task t m) = m_next m" "m_owner (take_task t m) = m_owner m" "m_log (take_task t m) = m_log m"
  "m_objs (take_task t m) = m_objs m" "m_sessions (take_task t m) = m_sessions m"
  "released r (take_task t m) = released r m"
  by (simp_all add: take_task_def released_def)

lemma mi_cache_frame:
  "mi_cache m \<Longrightarrow> m_sessions n = m_sessions m \<Longrightarrow> m_next n = m_next m \<Longrightarrow>
     (\<And>r. s_id (m_objs n r) = s_id (m_objs m r)) \<Longrightarrow> (\<And>r. released r n = released r m) \<Longrightarrow> mi_cache n"
  by (simp add: mi_cache_def)

lemma mi_starts_frame:
  "mi_starts m \<Longrightarrow> m_sessions n = m_sessions m \<Longrightarrow> m_next n = m_next m \<Longrightarrow> m_starts n = m_starts m \<Longrightarrow>
     m_objs n = m_objs m \<Longrightarrow> mi_starts n"
  by (simp add: mi_starts_def)

lemma mi_gone_frame:
  "mi_gone m \<Longrightarrow> m_next n = m_next m \<Longrightarrow> m_objs n = m_objs m \<Longrightarrow>
     (\<And>r. released r n = released r m) \<Longrightarrow> mi_gone n"
  by (simp add: mi_gone_def)

lemma inv_add_task:
  assumes inv: "inv_but X m" and r: "task_ref t = r" "r \<notin> snd ` set (m_sessions m)" "r < m_next m" "r \<in> X \<or> owes r m"
  shows "inv_but (X - {r}) (add_task t m)"
proof -
  have ow: "(owes q (add_task t m) \<or> q \<in> X - {r}) \<longleftrightarrow> (owes q m \<or> q \<in> X)" for q
    using r by (cases "q = r") (auto simp: owes_def)
  show ?thesis
  proof (rule inv_butI)
    show "mi_cache (add_task t m)" by (rule mi_cache_frame [OF inv_butD(1) [OF inv]]) simp_all
    show "mi_tasks (add_task t m)" using inv_butD(2) [OF inv] r unfolding mi_tasks_def by simp
    show "mi_starts (add_task t m)" by (rule mi_starts_frame [OF inv_butD(3) [OF inv]]) simp_all
    show "mi_gone (add_task t m)" by (rule mi_gone_frame [OF inv_butD(4) [OF inv]]) simp_all
    show "mi_tokens (X - {r}) (add_task t m)"
      by (rule tokens_same [OF inv_butD(5) [OF inv]]) (simp_all add: ow [simplified])
    show "mi_clients (X - {r}) (add_task t m)"
      by (rule clients_same [OF inv_butD(6) [OF inv]]) (simp_all add: ow [simplified])
  qed
qed

lemma inv_take_task:
  assumes inv: "inv_but X m" and t: "t \<in> set (m_tasks m)"
  shows "inv_but (insert (task_ref t) X) (take_task t m)"
proof -
  have img: "insert (task_ref t) (task_ref ` set (remove1 t (m_tasks m))) = task_ref ` set (m_tasks m)"
  proof -
    have "insert t (set (remove1 t (m_tasks m))) = set (m_tasks m)"
      using t set_remove1_subset [of t "m_tasks m"] in_set_remove1 by fastforce
    then show ?thesis by (metis image_insert)
  qed
  have ow: "(owes q (take_task t m) \<or> q \<in> insert (task_ref t) X) \<longleftrightarrow> (owes q m \<or> q \<in> X)" for q
    using img unfolding owes_def by (simp add: set_eq_iff) metis
  show ?thesis
  proof (rule inv_butI)
    show "mi_cache (take_task t m)" by (rule mi_cache_frame [OF inv_butD(1) [OF inv]]) simp_all
    show "mi_tasks (take_task t m)"
      using inv_butD(2) [OF inv] set_remove1_subset [of t "m_tasks m"] unfolding mi_tasks_def by auto
    show "mi_starts (take_task t m)" by (rule mi_starts_frame [OF inv_butD(3) [OF inv]]) simp_all
    show "mi_gone (take_task t m)" by (rule mi_gone_frame [OF inv_butD(4) [OF inv]]) simp_all
    show "mi_tokens (insert (task_ref t) X) (take_task t m)"
      by (rule tokens_same [OF inv_butD(5) [OF inv]]) (simp_all add: ow [simplified])
    show "mi_clients (insert (task_ref t) X) (take_task t m)"
      by (rule clients_same [OF inv_butD(6) [OF inv]]) (simp_all add: ow [simplified])
  qed
qed

lemma inv_shrink:
  assumes inv: "inv_but X m" and ow: "\<And>q. q \<in> X \<Longrightarrow> q \<in> Y \<or> owes q m" and sub: "Y \<subseteq> X"
  shows "inv_but Y m"
proof -
  have "(owes q m \<or> q \<in> Y) \<longleftrightarrow> (owes q m \<or> q \<in> X)" for q using ow sub by blast
  then show ?thesis
    using inv_butD [OF inv] tokens_same [of X m m Y] clients_same [of X m m Y] by (intro inv_butI) simp_all
qed

text \<open>Letting go of the owner token.\<close>

lemma release_owner_simps [simp]:
  "m_tasks (release_owner r m) = m_tasks m" "m_starts (release_owner r m) = m_starts m"
  "m_next (release_owner r m) = m_next m" "m_objs (release_owner r m) = m_objs m"
  "m_sessions (release_owner r m) = m_sessions m"
  "m_owner (release_owner r m) = owner_release (s_id (m_objs m r)) r (m_owner m)"
  "released q (release_owner r m) \<longleftrightarrow> released q m \<or> q = r"
  by (auto simp: release_owner_def Let_def released_def)

lemma inv_release_owner:
  assumes inv: "inv_but X m" and r: "r \<notin> snd ` set (m_sessions m)" "s_client (m_objs m r) = None" "r < m_next m"
  shows "inv_but (X - {r}) (release_owner r m)" (is "inv_but _ ?n")
proof -
  have ow: "owes q ?n = owes q m" for q by (simp add: owes_def)
  show ?thesis
  proof (rule inv_butI)
    have "r' \<noteq> r" if "dget (m_sessions m) sid = Some r'" for sid r'
      using that r(1) dget_SomeD by force
    then show "mi_cache ?n" using inv_butD(1) [OF inv] unfolding mi_cache_def by simp
    show "mi_tasks ?n" using inv_butD(2) [OF inv] by (simp add: mi_tasks_def)
    show "mi_starts ?n" by (rule mi_starts_frame [OF inv_butD(3) [OF inv]]) simp_all
    show "mi_gone ?n" using inv_butD(4) [OF inv] r unfolding mi_gone_def by auto
    show "mi_clients (X - {r}) ?n" using inv_butD(6) [OF inv] r unfolding mi_clients_def ow by auto
    show "mi_tokens (X - {r}) ?n"
      unfolding mi_tokens_def
    proof (intro impI conjI allI)
      assume en: "ow_enabled (m_owner ?n)"
      then have en': "ow_enabled (m_owner m)" by (simp add: owner.active_rel)
      note tk = inv_butD(5) [OF inv, unfolded mi_tokens_def, rule_format, OF en']
      have holds: "token_holds (m_owner ?n) sid q \<longleftrightarrow>
          token_holds (m_owner m) sid q \<and> \<not> (sid = s_id (m_objs m r) \<and> q = r)" for sid q
        using owner.rel_holds [OF en'] by simp
      {
        fix sid q assume h: "token_holds (m_owner ?n) sid q"
        then have m: "token_holds (m_owner m) sid q" and nr: "\<not> (sid = s_id (m_objs m r) \<and> q = r)"
          using holds [of sid q] by blast+
        from tk m have q: "q < m_next m" "s_id (m_objs m q) = sid" "\<not> released q m" "owes q m \<or> q \<in> X" by blast+
        then have "q \<noteq> r" using nr by blast
        with q show "q < m_next ?n" "s_id (m_objs ?n q) = sid" "\<not> released q ?n" "owes q ?n \<or> q \<in> X - {r}"
          by (simp_all add: ow)
      }
      fix q assume "(owes q ?n \<or> q \<in> X - {r}) \<and> \<not> released q ?n"
      then have q: "owes q m \<or> q \<in> X" "\<not> released q m" "q \<noteq> r" by (auto simp: ow)
      then have "token_holds (m_owner m) (s_id (m_objs m q)) q" using tk by blast
      then show "token_holds (m_owner ?n) (s_id (m_objs ?n q)) q" using q(3) unfolding holds by simp
    qed
  qed
qed

lemma inv_release:
  assumes inv: "inv_but X m" and r: "r \<notin> snd ` set (m_sessions m)" "s_client (m_objs m r) = None" "r < m_next m"
  shows "inv_but (X - {r}) (release_session_dirs finished r m)"
proof (cases "s_starting (m_objs m r)")
  case True
  have "inv_but X (set_obj r (defer_release finished) m)" by (rule inv_same_view [OF inv same_view_defer])
  moreover have "owes r (set_obj r (defer_release finished) m)"
    using True inv_butD(3) [OF inv] by (simp add: owes_def mi_starts_def)
  ultimately have "inv_but (X - {r}) (set_obj r (defer_release finished) m)" by (rule_tac inv_shrink) auto
  then show ?thesis using True by (simp add: release_session_dirs_def)
next
  case False
  define a where "a = cleanup_workspace r m"
  define b where "b = (if truthy (s_user (m_objs a r)) \<and> \<not> finished then a else remove_session_env r a)"
  have va: "same_view m a" unfolding a_def by (rule same_view_cleanup)
  have vb: "same_view a b" using same_view_env by (simp add: b_def same_view_def)
  note v = same_view_trans [OF va vb]
  have "inv_but (X - {r}) (release_owner r b)"
    by (rule inv_release_owner [OF inv_same_view [OF inv v]]) (use r in \<open>simp_all add: same_viewD [OF v]\<close>)
  moreover have "release_session_dirs finished r m = release_owner r b"
    using False unfolding release_session_dirs_def b_def a_def by (simp only: Let_def if_False)
  ultimately show ?thesis by simp
qed

lemma inv_client_none:
  assumes inv: "inv_but X m"
  shows "inv_but X (set_obj r (\<lambda>s. s\<lparr>s_client := None\<rparr>) m)" (is "inv_but _ ?n")
proof -
  have ow: "owes q ?n = owes q m" for q by (simp add: owes_def)
  have same: "s_id (m_objs ?n q) = s_id (m_objs m q)" "s_starting (m_objs ?n q) = s_starting (m_objs m q)" for q
    by simp_all
  have cl: "s_client (m_objs m q) = None \<Longrightarrow> s_client (m_objs ?n q) = None" for q by simp
  show ?thesis
  proof (rule inv_butI)
    show "mi_cache ?n" by (rule mi_cache_frame [OF inv_butD(1) [OF inv]]) simp_all
    show "mi_tasks ?n" using inv_butD(2) [OF inv] by (simp add: mi_tasks_def)
    show "mi_starts ?n" using inv_butD(3) [OF inv] same cl unfolding mi_starts_def by simp
    show "mi_gone ?n" using inv_butD(4) [OF inv] cl unfolding mi_gone_def by simp
    show "mi_tokens X ?n" by (rule tokens_same [OF inv_butD(5) [OF inv]]) (simp_all add: ow)
    show "mi_clients X ?n" using inv_butD(6) [OF inv] unfolding mi_clients_def ow by simp
  qed
qed

lemma same_view_stop: "same_view m (stop_cli c m)"
  by (simp add: same_view_def stop_cli_def log_effect_def released_def same_core_def)

lemma inv_teardown_begin:
  assumes inv: "inv_but X m" and r: "r \<notin> snd ` set (m_sessions m)" "r < m_next m" "r \<in> X \<or> owes r m"
  shows "inv_but (X - {r}) (teardown_begin r w m)"
proof -
  let ?m = "cancel_idle_reader r m"
  note v = same_view_reader [of m r]
  note inv' = inv_same_view [OF inv v]
  show ?thesis
  proof (cases "s_client (m_objs m r)")
    case None
    then have "inv_but (X - {r}) (release_session_dirs (finished_flag w) r ?m)"
      by (intro inv_release [OF inv']) (simp_all add: same_viewD [OF v] r)
    then show ?thesis using None by (simp add: teardown_begin_def Let_def same_viewD [OF v])
  next
    case (Some c)
    then have "inv_but (X - {r}) (add_task (Stopping r c w) ?m)"
      by (intro inv_add_task [OF inv']) (simp_all add: same_viewD [OF v] owes_same_view [OF v] r)
    then show ?thesis using Some by (simp add: teardown_begin_def Let_def same_viewD [OF v])
  qed
qed

lemma inv_teardown_resume:
  assumes inv: "inv_but X m" and r: "r \<notin> snd ` set (m_sessions m)" "r < m_next m" and w: "w \<noteq> Shutting_down"
  shows "inv_but (X - {r}) (teardown_resume r c w m)"
proof -
  note v = same_view_stop [of m c]
  have "inv_but X (set_obj r (\<lambda>s. s\<lparr>s_client := None\<rparr>) (stop_cli c m))"
    by (rule inv_client_none [OF inv_same_view [OF inv v]])
  then have "inv_but (X - {r}) (release_session_dirs (finished_flag w) r
      (set_obj r (\<lambda>s. s\<lparr>s_client := None\<rparr>) (stop_cli c m)))"
    by (rule inv_release) (simp_all add: same_viewD [OF v] r)
  then show ?thesis using w by (simp add: teardown_resume_def Let_def)
qed

text \<open>A start's stages.\<close>

lemma inv_start_stage:
  assumes inv: "inv_but X m" and st: "dget (m_starts m) r \<noteq> None"
    and gone: "\<And>c. st = Start_ended c \<Longrightarrow> r \<notin> snd ` set (m_sessions m)"
  shows "inv_but X (m\<lparr>m_starts := dput r st (m_starts m)\<rparr>)" (is "inv_but _ ?n")
proof -
  have dg: "dget (m_starts ?n) q = None \<longleftrightarrow> dget (m_starts m) q = None" for q
    using st by (auto simp: dget_dput)
  have ow: "owes q ?n = owes q m" for q using dg [of q] by (simp add: owes_def)
  have rel: "released q ?n = released q m" for q by (simp add: released_def)
  show ?thesis
  proof (rule inv_butI)
    show "mi_cache ?n" by (rule mi_cache_frame [OF inv_butD(1) [OF inv]]) (simp_all add: rel)
    show "mi_tasks ?n" using inv_butD(2) [OF inv] by (simp add: mi_tasks_def)
    show "mi_starts ?n"
      unfolding mi_starts_def
    proof (intro conjI allI impI)
      note ms = inv_butD(3) [OF inv, unfolded mi_starts_def]
      show "dwf (m_starts ?n)" using ms by (simp add: dwf_dput)
      fix q
      show "s_starting (m_objs ?n q) \<longleftrightarrow> dget (m_starts ?n) q \<noteq> None" unfolding dg using ms by simp
      show "s_client (m_objs ?n q) = None" "q < m_next ?n" if "dget (m_starts ?n) q \<noteq> None"
        using that ms unfolding dg by simp_all
      show "q \<notin> set (dvals (m_sessions ?n))" if "dget (m_starts ?n) q = Some (Start_ended c)" for c
        using that ms gone by (auto simp: dget_dput split: if_splits)
    qed
    show "mi_gone ?n" by (rule mi_gone_frame [OF inv_butD(4) [OF inv]]) (simp_all add: rel)
    show "mi_tokens X ?n" by (rule tokens_same [OF inv_butD(5) [OF inv]]) (simp_all add: ow rel)
    show "mi_clients X ?n" by (rule clients_same [OF inv_butD(6) [OF inv]]) (simp_all add: ow)
  qed
qed

lemma in_cache:
  assumes "mi_cache m" and "r \<in> snd ` set (m_sessions m)"
  shows "dget (m_sessions m) (s_id (m_objs m r)) = Some r" "r < m_next m" "\<not> released r m"
proof -
  have "dwf (m_sessions m)" using assms(1) by (simp add: mi_cache_def)
  from iffD1 [OF dvals_iff [OF this] assms(2)] obtain sid where sid: "dget (m_sessions m) sid = Some r" ..
  then show "dget (m_sessions m) (s_id (m_objs m r)) = Some r" "r < m_next m" "\<not> released r m"
    using mi_cache_key(1-3) [OF assms(1) sid] by simp_all
qed

lemma owes_below: "inv_but X m \<Longrightarrow> owes r m \<or> released r m \<Longrightarrow> r < m_next m"
proof -
  assume inv: "inv_but X m" and "owes r m \<or> released r m"
  then consider "r \<in> snd ` set (m_sessions m)" | "r \<in> task_ref ` set (m_tasks m)" | "dget (m_starts m) r \<noteq> None"
    | "released r m" by (auto simp: owes_def)
  then show "r < m_next m"
  proof cases
    case 1
    then show ?thesis using in_cache(2) [OF inv_butD(1) [OF inv]] by blast
  next
    case 2
    then show ?thesis using inv_butD(2) [OF inv] by (auto simp: mi_tasks_def)
  next
    case 3
    then show ?thesis using inv_butD(3) [OF inv] by (simp add: mi_starts_def)
  next
    case 4
    then show ?thesis using inv_butD(4) [OF inv] by (simp add: mi_gone_def)
  qed
qed

lemma inv_begin_start:
  assumes inv: "inv_but X m" and r: "owes r m \<or> released r m" "s_client (m_objs m r) = None" "dget (m_starts m) r = None"
  shows "inv_but X (begin_client_start r m)" (is "inv_but _ ?n")
proof -
  have n: "m_sessions ?n = m_sessions m" "m_tasks ?n = m_tasks m" "m_next ?n = m_next m" "m_owner ?n = m_owner m"
    "m_starts ?n = dput r Creating (m_starts m)"
    "\<And>q. released q ?n = released q m"
    "\<And>q. s_id (m_objs ?n q) = s_id (m_objs m q)" "\<And>q. s_client (m_objs ?n q) = s_client (m_objs m q)"
    "\<And>q. s_starting (m_objs ?n q) \<longleftrightarrow> s_starting (m_objs m q) \<or> q = r"
    by (auto simp: begin_client_start_def set_obj_def released_def)
  have dg: "dget (m_starts ?n) q \<noteq> None \<longleftrightarrow> dget (m_starts m) q \<noteq> None \<or> q = r" for q
    unfolding n by (simp add: dget_dput)
  have ow: "owes q ?n \<longleftrightarrow> owes q m \<or> q = r" for q unfolding owes_def n(1,2) dg by blast
  show ?thesis
  proof (rule inv_butI)
    show "mi_cache ?n" by (rule mi_cache_frame [OF inv_butD(1) [OF inv]]) (simp_all only: n)
    show "mi_tasks ?n" using inv_butD(2) [OF inv] by (simp only: mi_tasks_def n)
    show "mi_starts ?n"
      unfolding mi_starts_def
    proof (intro conjI allI impI)
      note ms = inv_butD(3) [OF inv, unfolded mi_starts_def]
      show "dwf (m_starts ?n)" using ms by (simp add: n dwf_dput)
      fix q
      show "s_starting (m_objs ?n q) \<longleftrightarrow> dget (m_starts ?n) q \<noteq> None" unfolding dg n(9) using ms by simp
      show "s_client (m_objs ?n q) = None" "q < m_next ?n" if "dget (m_starts ?n) q \<noteq> None"
        using that ms r(2) owes_below [OF inv r(1)] unfolding dg n(3,8) by auto
      show "q \<notin> set (dvals (m_sessions ?n))" if "dget (m_starts ?n) q = Some (Start_ended c)" for c
        using that ms unfolding n by (simp add: dget_dput split: if_splits)
    qed
    show "mi_gone ?n" using inv_butD(4) [OF inv] by (simp only: mi_gone_def n)
    show "mi_clients X ?n" using inv_butD(6) [OF inv] unfolding mi_clients_def ow n by blast
    show "mi_tokens X ?n" using inv_butD(5) [OF inv] r(1) unfolding mi_tokens_def ow n by blast
  qed
qed

text \<open>A start leaves \<open>m_starts\<close>: its session is in the cache, or is handled right now.\<close>

lemma inv_start_over:
  assumes inv: "inv_but X m" and r: "dget (m_starts m) r \<noteq> None"
    and f: "s_id (f (m_objs m r)) = s_id (m_objs m r)" "\<not> s_starting (f (m_objs m r))"
    and cl: "s_client (f (m_objs m r)) \<noteq> None \<Longrightarrow> r \<in> snd ` set (m_sessions m)"
  shows "inv_but (insert r X) (set_obj r f (m\<lparr>m_starts := ddel r (m_starts m)\<rparr>))" (is "inv_but _ ?n")
proof -
  have n: "m_sessions ?n = m_sessions m" "m_tasks ?n = m_tasks m" "m_next ?n = m_next m" "m_owner ?n = m_owner m"
    "m_starts ?n = ddel r (m_starts m)"
    "\<And>q. released q ?n = released q m"
    "\<And>q. s_id (m_objs ?n q) = s_id (m_objs m q)"
    "\<And>q. s_client (m_objs ?n q) = (if q = r then s_client (f (m_objs m r)) else s_client (m_objs m q))"
    "\<And>q. s_starting (m_objs ?n q) \<longleftrightarrow> s_starting (m_objs m q) \<and> q \<noteq> r"
    using f by (auto simp: set_obj_def released_def)
  have dg: "dget (m_starts ?n) q = (if q = r then None else dget (m_starts m) q)" for q
    unfolding n by (simp add: dget_ddel)
  have ow: "(owes q ?n \<or> q \<in> insert r X) \<longleftrightarrow> (owes q m \<or> q \<in> X)" for q
    using r unfolding owes_def n(1,2) dg by auto
  have cached: "r \<in> snd ` set (m_sessions m) \<Longrightarrow> \<not> released r m"
    using in_cache(3) [OF inv_butD(1) [OF inv]] .
  show ?thesis
  proof (rule inv_butI)
    show "mi_cache ?n" by (rule mi_cache_frame [OF inv_butD(1) [OF inv]]) (simp_all only: n)
    show "mi_tasks ?n" using inv_butD(2) [OF inv] by (simp only: mi_tasks_def n)
    show "mi_starts ?n"
      unfolding mi_starts_def
    proof (intro conjI allI impI)
      note ms = inv_butD(3) [OF inv, unfolded mi_starts_def]
      show "dwf (m_starts ?n)" using ms by (simp add: n dwf_ddel)
      fix q
      show "s_starting (m_objs ?n q) \<longleftrightarrow> dget (m_starts ?n) q \<noteq> None" unfolding dg n(9) using ms by simp
      show "s_client (m_objs ?n q) = None" "q < m_next ?n" if "dget (m_starts ?n) q \<noteq> None"
        using that ms unfolding dg n(3,8) by (auto split: if_splits)
      show "q \<notin> set (dvals (m_sessions ?n))" if "dget (m_starts ?n) q = Some (Start_ended c)" for c
        using that ms unfolding dg n(1) by (simp split: if_splits)
    qed
    show "mi_gone ?n"
      unfolding mi_gone_def
    proof (intro conjI allI impI)
      note mg = inv_butD(4) [OF inv, unfolded mi_gone_def]
      fix q
      show "q < m_next ?n" if "released q ?n" using that mg unfolding n(3,6) by simp
      show "s_client (m_objs ?n q) = None" if "released q ?n"
      proof (cases "q = r")
        case True
        then have "r \<notin> snd ` set (m_sessions m)" using cached that unfolding n(6) by blast
        then have "s_client (f (m_objs m r)) = None" using cl by blast
        then show ?thesis unfolding n(8) using True by simp
      next
        case False
        then show ?thesis using that mg unfolding n(6,8) by simp
      qed
      show "s_client (m_objs ?n q) = None" if "q \<ge> m_next ?n"
        using that mg inv_butD(3) [OF inv, unfolded mi_starts_def] r unfolding n(3,8) by (auto simp: leD)
    qed
    show "mi_tokens (insert r X) ?n"
      by (rule tokens_same [OF inv_butD(5) [OF inv]]) (simp_all only: n ow)
    show "mi_clients (insert r X) ?n"
      unfolding mi_clients_def
    proof (intro allI impI)
      fix q assume "s_client (m_objs ?n q) \<noteq> None"
      then have "q = r \<or> s_client (m_objs m q) \<noteq> None" unfolding n(8) by (auto split: if_splits)
      then show "owes q ?n \<or> q \<in> insert r X"
        using inv_butD(6) [OF inv] ow [of q] unfolding mi_clients_def by blast
    qed
  qed
qed

lemma inv_start_abandoned:
  assumes inv: "inv_but X m" and r: "dget (m_starts m) r \<noteq> None" "r \<notin> snd ` set (m_sessions m)"
  shows "inv_but (X - {r}) (start_abandoned r m)"
proof -
  let ?f = "\<lambda>s. s\<lparr>s_starting := False, s_deferred := None\<rparr>"
  have b: "s_client (m_objs m r) = None" "r < m_next m"
    using inv_butD(3) [OF inv] r(1) unfolding mi_starts_def by blast+
  have "inv_but (insert r X) (set_obj r ?f (m\<lparr>m_starts := ddel r (m_starts m)\<rparr>))"
    by (rule inv_start_over [OF inv r(1)]) (use b in simp_all)
  then have "inv_but (insert r X - {r}) (release_session_dirs (s_deferred (m_objs m r) = Some True) r
      (set_obj r ?f (m\<lparr>m_starts := ddel r (m_starts m)\<rparr>)))"
    by (rule inv_release) (use b r(2) in simp_all)
  then show ?thesis by (simp add: start_abandoned_def Let_def)
qed

lemma inv_finish_start:
  assumes inv: "inv_but {} m" and r: "dget (m_starts m) r = Some st" and sid: "sid = s_id (m_objs m r)"
    and st: "st \<noteq> Start_ended c'"
  shows "inv_but {} (snd (finish_client_start sid r client m))"
proof (cases "dget (m_sessions m) sid = Some r")
  case True
  then have inc: "r \<in> snd ` set (m_sessions m)" using dget_SomeD by force
  let ?f = "\<lambda>s. (case client of None \<Rightarrow> s | Some c \<Rightarrow> s\<lparr>s_client := Some c\<rparr>)\<lparr>s_starting := False, s_deferred := None\<rparr>"
  have "inv_but (insert r {}) (set_obj r ?f (m\<lparr>m_starts := ddel r (m_starts m)\<rparr>))"
    by (rule inv_start_over [OF inv]) (use r inc in \<open>simp_all split: option.splits\<close>)
  then have "inv_but {} (set_obj r ?f (m\<lparr>m_starts := ddel r (m_starts m)\<rparr>))"
    by (rule inv_shrink) (use inc in \<open>auto simp: owes_def\<close>)
  then show ?thesis using True by (simp add: finish_client_start_def)
next
  case False
  then have out: "r \<notin> snd ` set (m_sessions m)" using in_cache(1) [OF inv_butD(1) [OF inv]] sid by blast
  show ?thesis
  proof (cases client)
    case None
    then show ?thesis using False inv_start_abandoned [OF inv _ out] r by (simp add: finish_client_start_def)
  next
    case (Some c)
    have "inv_but {} (m\<lparr>m_starts := dput r (Start_ended c) (m_starts m)\<rparr>)"
      by (rule inv_start_stage [OF inv]) (use r out in auto)
    then show ?thesis using False Some by (simp add: finish_client_start_def)
  qed
qed

text \<open>Admission.\<close>

lemma inv_allocate:
  assumes inv: "inv_but {} m" and s: "s_client s = None" "\<not> s_starting s"
  shows "inv_but {} (snd (allocate s m))" (is "inv_but _ ?n")
proof -
  have n: "m_sessions ?n = m_sessions m" "m_tasks ?n = m_tasks m" "m_next ?n = Suc (m_next m)"
    "m_owner ?n = m_owner m" "m_starts ?n = m_starts m"
    "\<And>q. released q ?n = released q m"
    "\<And>q. q \<noteq> m_next m \<Longrightarrow> m_objs ?n q = m_objs m q" "m_objs ?n (m_next m) = s"
    by (simp_all add: allocate_def released_def)
  have ow: "owes q ?n = owes q m" for q by (simp add: owes_def n)
  have new: "\<not> owes (m_next m) m" "\<not> released (m_next m) m"
    using owes_below [OF inv, of "m_next m"] by blast+
  have obj: "owes q m \<or> released q m \<or> q < m_next m \<Longrightarrow> m_objs ?n q = m_objs m q" for q
    using n(7) new by (metis less_irrefl)
  show ?thesis
  proof (rule inv_butI)
    show "mi_cache ?n" using inv_butD(1) [OF inv] obj unfolding mi_cache_def n(1,3,6) by (simp add: less_Suc_eq)
    show "mi_tasks ?n" using inv_butD(2) [OF inv] by (auto simp: mi_tasks_def n)
    show "mi_starts ?n"
      unfolding mi_starts_def n(1,3,5)
    proof (intro conjI allI impI)
      note ms = inv_butD(3) [OF inv, unfolded mi_starts_def]
      show "dwf (m_starts m)" using ms by blast
      fix q
      have gone: "dget (m_starts m) (m_next m) = None" using new by (simp add: owes_def)
      show "s_starting (m_objs ?n q) \<longleftrightarrow> dget (m_starts m) q \<noteq> None"
        using ms n(7,8) s gone by (cases "q = m_next m") simp_all
      show "s_client (m_objs ?n q) = None" "q < Suc (m_next m)" if "dget (m_starts m) q \<noteq> None"
      proof -
        have "q \<noteq> m_next m" using that gone by auto
        then show "s_client (m_objs ?n q) = None" "q < Suc (m_next m)" using ms that n(7) by (auto simp: less_Suc_eq)
      qed
      show "q \<notin> set (dvals (m_sessions m))" if "dget (m_starts m) q = Some (Start_ended c)" for c
        using that ms by blast
    qed
    show "mi_gone ?n"
      unfolding mi_gone_def n(3,6)
    proof (intro conjI allI impI)
      note mg = inv_butD(4) [OF inv, unfolded mi_gone_def]
      fix q
      show "s_client (m_objs ?n q) = None" "q < Suc (m_next m)" if "released q m"
        using that mg obj by (auto simp: less_Suc_eq)
      show "s_client (m_objs ?n q) = None" if "Suc (m_next m) \<le> q" using that mg n(7) by simp
    qed
    show "mi_tokens {} ?n"
      unfolding mi_tokens_def n(3,4,6) ow
    proof (intro impI conjI allI)
      assume en: "ow_enabled (m_owner m)"
      note tk = inv_butD(5) [OF inv, unfolded mi_tokens_def, rule_format, OF en]
      fix sid q
      show "q < Suc (m_next m)" "s_id (m_objs ?n q) = sid" "\<not> released q m" "owes q m \<or> q \<in> {}"
        if h: "token_holds (m_owner m) sid q"
        using tk h obj [of q] by (auto simp: less_Suc_eq)
      show "token_holds (m_owner m) (s_id (m_objs ?n q)) q" if "(owes q m \<or> q \<in> {}) \<and> \<not> released q m"
        using tk that obj [of q] by simp
    qed
    show "mi_clients {} ?n"
      using inv_butD(6) [OF inv] n(7,8) s unfolding mi_clients_def ow by metis
  qed
qed

lemma dvals_dput_new:
  assumes "dwf d" "dget d k = None"
  shows "snd ` set (dput k v d) = insert v (snd ` set d)"
proof -
  have "q \<in> snd ` set (dput k v d) \<longleftrightarrow> q = v \<or> q \<in> snd ` set d" for q
  proof -
    have "(\<exists>k'. dget (dput k v d) k' = Some q) \<longleftrightarrow> q = v \<or> (\<exists>k'. dget d k' = Some q)"
      using assms(2) by (simp add: dget_dput) (metis option.distinct(1) option.inject)
    then show ?thesis using dvals_iff [OF dwf_dput [OF assms(1)]] dvals_iff [OF assms(1)] by simp
  qed
  then show ?thesis by blast
qed

lemma inv_enter:
  assumes inv: "inv_but {} m" and r: "r < m_next m" "\<not> owes r m" "\<not> released r m"
    and sid: "s_id (m_objs m r) = sid" "dget (m_sessions m) sid = None"
    and acq: "owner_acquire f sid r (m_owner m) = (Inr True, ol)"
  shows "inv_but {} (m\<lparr>m_owner := ol, m_sessions := dput sid r (m_sessions m)\<rparr>)" (is "inv_but _ ?n")
proof -
  have wf: "dwf (m_sessions m)" using inv_butD(1) [OF inv] by (simp add: mi_cache_def)
  note dv = dvals_dput_new [OF wf sid(2), of r]
  have ow: "owes q ?n \<longleftrightarrow> owes q m \<or> q = r" for q by (auto simp: owes_def dv)
  have rel: "released q ?n = released q m" for q by (simp add: released_def)
  show ?thesis
  proof (rule inv_butI)
    show "mi_cache ?n"
      using inv_butD(1) [OF inv] r sid(1) unfolding mi_cache_def rel by (simp add: dget_dput dwf_dput)
    have "task_ref t \<noteq> r" if "t \<in> set (m_tasks m)" for t using r(2) that by (auto simp: owes_def)
    then show "mi_tasks ?n" using inv_butD(2) [OF inv] unfolding mi_tasks_def by (simp add: dv)
    have "dget (m_starts m) r = None" using r(2) by (simp add: owes_def)
    then have "q \<noteq> r" if "dget (m_starts m) q = Some x" for q x using that by auto
    then show "mi_starts ?n" using inv_butD(3) [OF inv] unfolding mi_starts_def by (simp add: dv)
    show "mi_gone ?n" by (rule mi_gone_frame [OF inv_butD(4) [OF inv]]) (simp_all add: rel)
    show "mi_clients {} ?n" using inv_butD(6) [OF inv] unfolding mi_clients_def ow by simp
    show "mi_tokens {} ?n"
      unfolding mi_tokens_def ow rel
    proof (intro impI conjI allI)
      assume "ow_enabled (m_owner ?n)"
      then have en: "ow_enabled (m_owner m)" using owner.active_acq [of f sid r "m_owner m"] acq by simp
      note tk = inv_butD(5) [OF inv, unfolded mi_tokens_def, rule_format, OF en]
      have holds: "token_holds (m_owner ?n) sid' q \<longleftrightarrow> (sid' = sid \<and> q = r) \<or> token_holds (m_owner m) sid' q"
        for sid' q using owner.acq_granted [OF en acq] by simp
      fix sid' q
      show "q < m_next ?n" "s_id (m_objs ?n q) = sid'" "\<not> released q m" "(owes q m \<or> q = r) \<or> q \<in> {}"
        if "token_holds (m_owner ?n) sid' q"
        using that tk r sid(1) unfolding holds by auto
      show "token_holds (m_owner ?n) (s_id (m_objs ?n q)) q" if "((owes q m \<or> q = r) \<or> q \<in> {}) \<and> \<not> released q m"
        using that tk sid(1) unfolding holds by auto
    qed
  qed
qed

lemma inv_admit_object:
  assumes inv: "inv_but {} m" and s: "s_client s = None" "\<not> s_starting s" "s_id s = sid"
    and sid: "dget (m_sessions m) sid = None"
  shows "inv_but {} (snd (admit_object ot sid s m))"
proof -
  define r where "r = m_next m"
  define a where "a = snd (allocate s m)"
  have al: "allocate s m = (r, a)" by (simp add: allocate_def r_def a_def)
  have inva: "inv_but {} a" unfolding a_def by (rule inv_allocate [OF inv s(1,2)])
  have a: "s_id (m_objs a r) = sid" "r < m_next a" "\<not> owes r a" "\<not> released r a" "m_sessions a = m_sessions m"
  proof -
    have "\<not> owes r m" "\<not> released r m" using owes_below [OF inv, of r] by (auto simp: r_def)
    then show "s_id (m_objs a r) = sid" "r < m_next a" "\<not> owes r a" "\<not> released r a" "m_sessions a = m_sessions m"
      using s(3) by (simp_all add: a_def r_def allocate_def owes_def released_def)
  qed
  show ?thesis
  proof (cases "ot_draining ot")
    case True
    then show ?thesis using inva by (simp add: admit_object_def al take_ownership_def a(1))
  next
    case False
    obtain x ol where acq: "owner_acquire (ot_lock ot) sid r (m_owner a) = (x, ol)" by fastforce
    show ?thesis
    proof (cases "x = Inr True")
      case True
      have "inv_but {} (a\<lparr>m_owner := ol, m_sessions := dput sid r (m_sessions a)\<rparr>)"
        by (rule inv_enter [OF inva a(2,3,4,1)]) (use sid acq True in \<open>simp_all add: a(5)\<close>)
      then show ?thesis using True acq False by (simp add: admit_object_def al take_ownership_def a(1) Let_def)
    next
      case bad: False
      then have "ol = m_owner a" using owner.acq_refused [OF acq] by simp
      then have "a\<lparr>m_owner := ol\<rparr> = a" by simp
      then show ?thesis using bad acq False inva
        by (cases x) (auto simp: admit_object_def al take_ownership_def a(1) Let_def)
    qed
  qed
qed

text \<open>Removal of expired sessions.\<close>

lemma inv_drop_queue:
  assumes inv: "inv_but {} m" and g: "dget (m_sessions m) sid = Some r"
  shows "inv_but {} (add_task (Queued r w) (drop_session sid m))"
proof -
  have "inv_but ({r} - {r}) (add_task (Queued r w) (drop_session sid m))"
    by (rule inv_add_task [OF inv_drop(1) [OF inv g]])
       (use inv_drop(2) [OF inv g] mi_cache_key(1) [OF inv_butD(1) [OF inv] g] in simp_all)
  then show ?thesis by simp
qed

lemma inv_drop_release:
  assumes inv: "inv_but {} m" and g: "dget (m_sessions m) sid = Some r" and c: "s_client (m_objs m r) = None"
  shows "inv_but {} (release_session_dirs finished r (drop_session sid m))"
proof -
  have "inv_but ({r} - {r}) (release_session_dirs finished r (drop_session sid m))"
    by (rule inv_release [OF inv_drop(1) [OF inv g]])
       (use inv_drop(2) [OF inv g] c mi_cache_key(1) [OF inv_butD(1) [OF inv] g] in simp_all)
  then show ?thesis by simp
qed

lemma inv_drop_begin:
  assumes inv: "inv_but {} m" and g: "dget (m_sessions m) sid = Some r"
    and v: "same_view (drop_session sid m) n"
  shows "inv_but {} (teardown_begin r w n)"
proof -
  have "inv_but ({r} - {r}) (teardown_begin r w n)"
    by (rule inv_teardown_begin [OF inv_same_view [OF inv_drop(1) [OF inv g] v]])
       (use inv_drop(2) [OF inv g] mi_cache_key(1) [OF inv_butD(1) [OF inv] g] in \<open>simp_all add: same_viewD [OF v]\<close>)
  then show ?thesis by simp
qed

lemma release_dirs_reader:
  "inv_but {} m \<Longrightarrow> dget (m_sessions m) sid = Some r \<Longrightarrow> s_client (m_objs m r) = None \<Longrightarrow>
     inv_but {} (release_session_dirs finished r (cancel_idle_reader r (drop_session sid m)))"
proof -
  assume inv: "inv_but {} m" and g: "dget (m_sessions m) sid = Some r" and c: "s_client (m_objs m r) = None"
  note v = same_view_reader [of "drop_session sid m" r]
  have "inv_but ({r} - {r}) (release_session_dirs finished r (cancel_idle_reader r (drop_session sid m)))"
    by (rule inv_release [OF inv_same_view [OF inv_drop(1) [OF inv g] v]])
       (use inv_drop(2) [OF inv g] c mi_cache_key(1) [OF inv_butD(1) [OF inv] g] in \<open>simp_all add: same_viewD [OF v]\<close>)
  then show ?thesis by simp
qed

lemma inv_remove_if_expired:
  assumes inv: "inv_but {} m" and loop: "ot_loop ot"
  shows "inv_but {} (snd (remove_if_expired cf ot sid m))"
proof (cases "dget (m_sessions m) sid")
  case None
  then show ?thesis using inv by (simp add: remove_if_expired_def)
next
  case (Some r)
  show ?thesis
    using inv loop release_dirs_reader [OF inv Some] inv_drop_queue [OF inv Some] Some
    by (simp add: remove_if_expired_def Let_def)
qed

lemma release_dirs_sessions [simp]: "m_sessions (release_session_dirs f r m) = m_sessions m"
  by (simp add: release_session_dirs_def Let_def same_viewD [OF same_view_cleanup]
      same_viewD [OF same_view_env] split: if_splits)

lemma remove_if_expired_sessions:
  "m_sessions (snd (remove_if_expired cf ot sid m)) =
     (if fst (remove_if_expired cf ot sid m) then ddel sid (m_sessions m) else m_sessions m)"
  by (simp add: remove_if_expired_def Let_def same_viewD [OF same_view_reader] split: option.splits)

text \<open>Releasing before or after leaving the dictionary is the same.\<close>

lemma release_then_drop:
  assumes "dget (m_sessions m) sid = Some r" and "s_id (m_objs m r) = sid"
  shows "drop_session sid (release_session_dirs f r m) = release_session_dirs f r (drop_session sid m)"
proof -
  have c: "drop_session sid (cleanup_workspace r n) = cleanup_workspace r (drop_session sid n)" for n
    by (simp add: cleanup_workspace_def drop_session_def log_effect_def split: option.splits)
  have e: "drop_session sid (remove_session_env r n) = remove_session_env r (drop_session sid n)"
    if "dget (m_sessions n) sid = Some r" "s_id (m_objs n r) = sid" for n
    using that by (simp add: remove_session_env_def drop_session_def log_effect_def dget_ddel)
  have o1: "drop_session sid (release_owner r n) = release_owner r (drop_session sid n)" for n
    by (simp add: release_owner_def drop_session_def log_effect_def Let_def)
  have d: "drop_session sid (set_obj r (defer_release f) m) = set_obj r (defer_release f) (drop_session sid m)"
    by (simp add: set_obj_def drop_session_def)
  note v = same_viewD [OF same_view_cleanup [of m r]]
  have obj: "m_objs (cleanup_workspace r n) = m_objs n" for n
    by (simp add: cleanup_workspace_def split: option.splits)
  have e': "drop_session sid (remove_session_env r (cleanup_workspace r m)) =
      remove_session_env r (cleanup_workspace r (drop_session sid m))"
    unfolding c [symmetric] by (rule e) (use assms in \<open>simp_all add: v\<close>)
  show ?thesis
    by (simp add: release_session_dirs_def Let_def d o1 c e' obj)
qed

lemma inv_purge_sync:
  "inv_but {} m \<Longrightarrow> distinct (map fst es) \<Longrightarrow> \<forall>(sid, r) \<in> set es. dget (m_sessions m) sid = Some r \<Longrightarrow>
     inv_but {} (snd (purge_sync cf ot es m))"
proof (induction es arbitrary: m)
  case (Cons e es)
  obtain sid r where e: "e = (sid, r)" by fastforce
  have g: "dget (m_sessions m) sid = Some r" using Cons.prems(3) e by simp
  show ?case
  proof (cases "is_expired cf ot (m_objs m r) \<and> s_client (m_objs m r) = None")
    case True
    let ?n = "release_session_dirs False r (drop_session sid m)"
    have eq: "drop_session sid (release_session_dirs False r m) = ?n"
      by (rule release_then_drop [OF g mi_cache_key(2) [OF inv_butD(1) [OF Cons.prems(1)] g]])
    have "inv_but {} ?n" by (rule inv_drop_release [OF Cons.prems(1) g]) (use True in simp)
    moreover have "\<forall>(sid', r') \<in> set es. dget (m_sessions ?n) sid' = Some r'"
      using Cons.prems(2,3) e by (force simp: dget_ddel)
    ultimately have "inv_but {} (snd (purge_sync cf ot es ?n))" using Cons.IH Cons.prems(2) by simp
    then show ?thesis using True eq by (simp add: e split_beta)
  next
    case False
    then show ?thesis using Cons e by auto
  qed
qed simp

lemma inv_purge_async:
  "inv_but {} m \<Longrightarrow> distinct (map fst es) \<Longrightarrow> \<forall>(sid, r) \<in> set es. dget (m_sessions m) sid = Some r \<Longrightarrow>
     inv_but {} (snd (purge_async cf ot es m))"
proof (induction es arbitrary: m)
  case (Cons e es)
  obtain sid r where e: "e = (sid, r)" by fastforce
  have g: "dget (m_sessions m) sid = Some r" using Cons.prems(3) e by simp
  show ?case
  proof (cases "is_expired cf ot (m_objs m r)")
    case True
    let ?n = "add_task (Queued r Expiring) (drop_session sid m)"
    have "inv_but {} ?n" by (rule inv_drop_queue [OF Cons.prems(1) g])
    moreover have "\<forall>(sid', r') \<in> set es. dget (m_sessions ?n) sid' = Some r'"
      using Cons.prems(2,3) e by (force simp: dget_ddel)
    ultimately have "inv_but {} (snd (purge_async cf ot es ?n))" using Cons.IH Cons.prems(2) by simp
    then show ?thesis using True by (simp add: e split_beta)
  next
    case False
    then show ?thesis using Cons e by auto
  qed
qed simp

lemma entries_of_dict: "dwf d \<Longrightarrow> \<forall>(k, v) \<in> set d. dget d k = Some v"
  by (auto simp: dget_Some_iff)

lemma cache_wf: "inv_but X m \<Longrightarrow> dwf (m_sessions m)"
  by (simp add: inv_but_def mi_cache_def)

lemma inv_purges:
  assumes "inv_but {} m"
  shows "inv_but {} (snd (purge_all_expired_sync cf ot m))" "inv_but {} (snd (purge_all_expired cf ot m))"
  unfolding purge_all_expired_sync_def purge_all_expired_def
  using inv_purge_sync [OF assms] inv_purge_async [OF assms] entries_of_dict [OF cache_wf [OF assms]]
    cache_wf [OF assms] by (simp_all add: dwf_def)

lemma same_view_count: "same_view m (count_eviction r m)"
  by (simp add: same_view_def count_eviction_def released_def log_effect_def)

lemma inv_evict_scan:
  "inv_but {} m \<Longrightarrow> ot_loop ot \<Longrightarrow> \<forall>(sid, r) \<in> set es. dget (m_sessions m) sid = Some r \<Longrightarrow>
     inv_but {} (snd (evict_scan cf ot es m))"
proof (induction es)
  case (Cons e es)
  obtain sid r where e: "e = (sid, r)" by fastforce
  have g: "dget (m_sessions m) sid = Some r" using Cons.prems(3) e by simp
  have id: "s_id (m_objs m r) = sid" by (rule mi_cache_key(2) [OF inv_butD(1) [OF Cons.prems(1)] g])
  have tail: "inv_but {} (snd (evict_scan cf ot es m))" using Cons by simp
  have q: "inv_but {} (count_eviction r (add_task (Queued r Evicting) (drop_session sid m)))"
    by (rule inv_same_view [OF inv_drop_queue [OF Cons.prems(1) g] same_view_count])
  have d: "s_client (m_objs m r) = None \<Longrightarrow>
      inv_but {} (count_eviction r (release_session_dirs False r (drop_session sid m)))"
    by (rule inv_same_view [OF inv_drop_release [OF Cons.prems(1) g] same_view_count])
  show ?case using Cons.prems(1) tail q d Cons.prems(2) by (simp add: e Let_def id)
qed simp

lemma same_view_sweep: "same_view m (schedule_expired_sweep ot m)"
  by (simp add: same_view_def schedule_expired_sweep_def released_def)

lemma inv_has_room:
  assumes inv: "inv_but {} m" and loop: "ot_loop ot"
  shows "inv_but {} (snd (has_room cf ot m))"
proof -
  define p where "p = snd (purge_all_expired_sync cf ot m)"
  have invp: "inv_but {} p" unfolding p_def by (rule inv_purges(1) [OF inv])
  define q where "q = snd (if cf_lru cf then try_evict_lru cf ot p else (False, p))"
  have "inv_but {} q"
  proof (cases "cf_lru cf")
    case True
    have "\<forall>(sid, r) \<in> set (sort_key (evict_key cf ot p) (m_sessions p)). dget (m_sessions p) sid = Some r"
      using entries_of_dict [OF cache_wf [OF invp]] by simp
    from inv_evict_scan [OF invp loop this] True show ?thesis by (simp add: q_def try_evict_lru_def)
  next
    case False
    then show ?thesis using invp by (simp add: q_def)
  qed
  then have "inv_but {} (schedule_expired_sweep ot q)" by (rule inv_same_view [OF _ same_view_sweep])
  with inv invp \<open>inv_but {} q\<close> show ?thesis
    by (simp add: has_room_def Let_def split_beta p_def [symmetric] q_def [symmetric])
qed

text \<open>Removal only shrinks the dictionary.\<close>

definition shrinks :: "manager \<Rightarrow> manager \<Rightarrow> bool" where
  "shrinks m n \<longleftrightarrow> (\<forall>sid. dget (m_sessions m) sid = None \<longrightarrow> dget (m_sessions n) sid = None) \<and>
     length (m_sessions n) \<le> length (m_sessions m)"

lemma shrinks_refl [simp]: "shrinks m m"
  by (simp add: shrinks_def)

lemma shrinks_trans: "shrinks a b \<Longrightarrow> shrinks b c \<Longrightarrow> shrinks a c"
  by (simp add: shrinks_def)

lemma shrinks_same: "m_sessions n = m_sessions m \<Longrightarrow> shrinks m n"
  by (simp add: shrinks_def)

lemma shrinks_drop: "m_sessions n = ddel sid (m_sessions m) \<Longrightarrow> shrinks m n"
  by (simp add: shrinks_def dget_ddel length_ddel_le)

lemma shrinks_remove_if_expired: "shrinks m (snd (remove_if_expired cf ot sid m))"
  using shrinks_drop shrinks_same remove_if_expired_sessions [of cf ot sid m] by metis

lemma shrinks_purge_sync: "shrinks m (snd (purge_sync cf ot es m))"
proof (induction es arbitrary: m)
  case (Cons e es)
  obtain sid r where e: "e = (sid, r)" by fastforce
  have "shrinks m (drop_session sid (release_session_dirs False r m))"
    by (rule shrinks_drop [of _ sid]) simp
  from shrinks_trans [OF this Cons.IH] show ?case using Cons.IH by (simp add: e split_beta)
qed simp

lemma shrinks_evict_scan: "shrinks m (snd (evict_scan cf ot es m))"
proof (induction es)
  case (Cons e es)
  obtain sid r where e: "e = (sid, r)" by fastforce
  have a: "shrinks m (count_eviction r (add_task (Queued r Evicting) (drop_session (s_id (m_objs m r)) m)))"
    by (rule shrinks_drop [of _ "s_id (m_objs m r)"]) (simp add: count_eviction_def)
  have b: "shrinks m (count_eviction r (release_session_dirs False r (drop_session (s_id (m_objs m r)) m)))"
    by (rule shrinks_drop [of _ "s_id (m_objs m r)"]) (simp add: count_eviction_def)
  show ?case using Cons a b by (simp add: e Let_def)
qed simp

lemma shrinks_sweep: "shrinks m (schedule_expired_sweep ot m)"
  by (rule shrinks_same) (simp add: schedule_expired_sweep_def)

lemma shrinks_has_room: "shrinks m (snd (has_room cf ot m))"
proof -
  define p where "p = snd (purge_all_expired_sync cf ot m)"
  have a: "shrinks m p" unfolding p_def purge_all_expired_sync_def by (rule shrinks_purge_sync)
  define q where "q = snd (if cf_lru cf then try_evict_lru cf ot p else (False, p))"
  have "shrinks p q" unfolding q_def try_evict_lru_def using shrinks_evict_scan by (simp split: if_splits)
  then have b: "shrinks m q" by (rule shrinks_trans [OF a])
  have "shrinks m (schedule_expired_sweep ot q)" by (rule shrinks_trans [OF b shrinks_sweep])
  with a b show ?thesis
    by (simp add: has_room_def Let_def split_beta p_def [symmetric] q_def [symmetric])
qed

text \<open>The operations.\<close>

lemma inv_reject: "inv_but {} m \<Longrightarrow> inv_but {} (m\<lparr>m_rejected := k\<rparr>)"
  by (rule inv_same_view [of _ m]) (simp_all add: same_view_def released_def)

lemma inv_miss: "inv_but {} m \<Longrightarrow> inv_but {} (count_miss m)"
  by (rule inv_same_view [of _ m]) (simp_all add: same_view_def released_def count_miss_def)

lemma inv_hit: "inv_but {} m \<Longrightarrow> inv_but {} (m\<lparr>m_hits := k\<rparr>)"
  by (rule inv_same_view [of _ m]) (simp_all add: same_view_def released_def)

lemma inv_create:
  assumes inv: "inv_but {} m" and loop: "ot_loop ot"
  shows "inv_but {} (snd (get_or_create_session cf ot sid m))"
proof -
  define a where "a = snd (remove_if_expired cf ot sid m)"
  have inva: "inv_but {} a" unfolding a_def by (rule inv_remove_if_expired [OF inv loop])
  define b where "b = snd (has_room cf ot a)"
  have invb: "inv_but {} b" unfolding b_def by (rule inv_has_room [OF inva loop])
  show ?thesis
  proof (cases "dget (m_sessions a) sid")
    case None
    then have "dget (m_sessions b) sid = None" using shrinks_has_room unfolding b_def shrinks_def by blast
    then have "inv_but {} (snd (admit_object ot sid (new_session sid (session_ttl cf) (ot_now ot)) b))"
      by (intro inv_admit_object [OF invb]) (simp_all add: new_session_def)
    then show ?thesis using None inv_reject [OF invb]
      by (simp add: get_or_create_session_def Let_def split_beta a_def [symmetric] b_def [symmetric])
  next
    case (Some r)
    then show ?thesis using inv_same_view [OF inva same_view_touch]
      by (simp add: get_or_create_session_def Let_def split_beta a_def [symmetric])
  qed
qed

lemma cached_session_eq:
  "cached_session cf ot sid m =
     (let a = snd (remove_if_expired cf ot sid m)
      in case dget (m_sessions a) sid of
           None \<Rightarrow> (None, a) | Some r \<Rightarrow> (Some r, set_obj r (touch (ot_now ot)) a))"
  by (simp add: cached_session_def Let_def split_beta)

lemma inv_cached:
  assumes inv: "inv_but {} m" and loop: "ot_loop ot"
  shows "inv_but {} (snd (cached_session cf ot sid m))"
    and "fst (cached_session cf ot sid m) = None \<Longrightarrow> dget (m_sessions (snd (cached_session cf ot sid m))) sid = None"
proof -
  note a = inv_remove_if_expired [OF inv loop, of cf sid]
  show "inv_but {} (snd (cached_session cf ot sid m))"
    using a inv_same_view [OF a same_view_touch] by (simp add: cached_session_eq Let_def split: option.splits)
  show "fst (cached_session cf ot sid m) = None \<Longrightarrow> dget (m_sessions (snd (cached_session cf ot sid m))) sid = None"
    by (simp add: cached_session_eq Let_def split: option.splits)
qed

definition admissible :: "string \<Rightarrow> session option \<Rightarrow> bool" where
  "admissible sid so \<longleftrightarrow> (\<forall>s. so = Some s \<longrightarrow> s_client s = None \<and> \<not> s_starting s \<and> s_id s = sid)"

lemma try_rehydrate_admissible: "try_rehydrate sid user cwd answer now = Inr so \<Longrightarrow> admissible sid so"
  by (auto simp: try_rehydrate_def admissible_def rehydrated_session_def new_session_def
      split: if_splits transcript.splits)

lemma inv_admit_rehydrated:
  assumes inv: "inv_but {} m" and loop: "ot_loop ot" and so: "admissible sid so"
  shows "inv_but {} (snd (admit_rehydrated cf ot sid so max_turn m))"
proof -
  obtain ro a where c: "cached_session cf ot sid m = (ro, a)" by fastforce
  note inva = inv_cached(1) [OF inv loop, of cf sid, unfolded c snd_conv]
  show ?thesis
  proof (cases ro)
    case (Some r)
    then show ?thesis using inva c by (simp add: admit_rehydrated_def)
  next
    case None
    have absent: "dget (m_sessions a) sid = None" using inv_cached(2) [OF inv loop, of cf sid] c None by simp
    show ?thesis
    proof (cases so)
      case None': None
      then show ?thesis using inv_miss [OF inva] c None by (simp add: admit_rehydrated_def)
    next
      case (Some s)
      obtain room b where r: "has_room cf ot a = (room, b)" by fastforce
      note invb = inv_has_room [OF inva loop, of cf, unfolded r snd_conv]
      have "dget (m_sessions b) sid = None" using shrinks_has_room [of a cf ot] absent r by (simp add: shrinks_def)
      then have ad: "inv_but {} (snd (admit_object ot sid s b))"
        using so Some by (intro inv_admit_object [OF invb]) (simp_all add: admissible_def)
      obtain x d where x: "admit_object ot sid s b = (x, d)" by fastforce
      have d: "inv_but {} d" using ad x by simp
      show ?thesis using c None Some r x inv_miss [OF inva] inv_reject [OF invb] d inv_hit [OF d]
        by (simp add: admit_rehydrated_def split: sum.splits)
    qed
  qed
qed

lemma inv_delete:
  assumes inv: "inv_but {} m"
  shows "inv_but {} (snd (delete_session_async finished sid m))"
proof (cases "dget (m_sessions m) sid")
  case None
  then show ?thesis using inv by (simp add: delete_session_async_def)
next
  case (Some r)
  have "same_view (drop_session sid m) (drop_session sid m)" by (simp add: same_view_def)
  then show ?thesis using inv_drop_begin [OF inv Some] Some by (simp add: delete_session_async_def)
qed

lemma inv_handoff:
  assumes inv: "inv_but {} m"
  shows "inv_but {} (snd (release_for_handoff sid m))"
proof (cases "dget (m_sessions m) sid")
  case None
  then show ?thesis using inv by (simp add: release_for_handoff_def)
next
  case (Some r)
  have "same_view (drop_session sid m) (set_obj r (\<lambda>s. s\<lparr>s_poisoned := True\<rparr>) (drop_session sid m))"
    by (rule same_view_set_obj) (simp add: same_core_def)
  then show ?thesis using inv_drop_begin [OF inv Some] Some inv by (simp add: release_for_handoff_def)
qed

lemma inv_run_task:
  assumes inv: "inv_but {} m" and t: "t \<in> set (m_tasks m)" and w: "task_kind t \<noteq> Shutting_down"
  shows "inv_but {} (run_task t (take_task t m))"
proof -
  note inv' = inv_take_task [OF inv t]
  have r: "task_ref t \<notin> snd ` set (m_sessions (take_task t m))" "task_ref t < m_next (take_task t m)"
    using inv_butD(2) [OF inv] t by (auto simp: mi_tasks_def)
  have "inv_but ({task_ref t} - {task_ref t}) (run_task t (take_task t m))"
  proof (cases t)
    case (Queued q k)
    then show ?thesis using inv_teardown_begin [OF inv' r] by simp
  next
    case (Stopping q c k)
    then show ?thesis using inv_teardown_resume [OF inv' r] w by simp
  qed
  then show ?thesis by simp
qed

lemma inv_running: "inv_but {} m \<Longrightarrow> inv_but {} (m\<lparr>m_running := cs\<rparr>)"
  by (rule inv_same_view [of _ m]) (simp_all add: same_view_def released_def)

lemma inv_sweep: "inv_but {} m \<Longrightarrow> inv_but {} (m\<lparr>m_sweep := w\<rparr>)"
  by (rule inv_same_view [of _ m]) (simp_all add: same_view_def released_def)

lemma manager_step_inv:
  assumes inv: "inv_but {} m" and st: "manager_step cf m n"
  shows "inv_but {} n"
  using st
proof cases
  case (sm_create ot sid)
  then show ?thesis using inv_create [OF inv] by simp
next
  case (sm_lookup ot sid user cwd)
  then show ?thesis using inv_cached(1) [OF inv] by (simp add: get_session_begin_def split_beta Let_def)
next
  case (sm_rehydrate ot sid user cwd max_turn answer)
  then show ?thesis
    using inv_miss [OF inv] inv_admit_rehydrated [OF inv _ try_rehydrate_admissible]
    by (simp add: get_session_end_def split: sum.splits)
next
  case (sm_peek ot sid)
  then show ?thesis using inv_remove_if_expired [OF inv] by (simp add: peek_session_def split_beta Let_def)
next
  case (sm_list ot)
  then show ?thesis using inv_purges(1) [OF inv] by (simp add: list_sessions_def split_beta Let_def)
next
  case (sm_cleanup ot)
  then show ?thesis using inv_purges(2) [OF inv] by simp
next
  case (sm_sweep ot)
  then show ?thesis using inv_sweep [OF inv_purges(2) [OF inv]] by simp
next
  case sm_sweep_done
  then show ?thesis using inv_sweep [OF inv] by simp
next
  case (sm_delete finished sid)
  then show ?thesis using inv_delete [OF inv] by simp
next
  case (sm_handoff sid)
  then show ?thesis using inv_handoff [OF inv] by simp
next
  case (sm_task t)
  then show ?thesis using inv_run_task [OF inv] by simp
next
  case (sm_start r)
  then show ?thesis using inv_begin_start [OF inv] by simp
next
  case (sm_spawn r c)
  have "inv_but {} (m\<lparr>m_starts := dput r (Spawned c) (m_starts m)\<rparr>)"
    by (rule inv_start_stage [OF inv]) (use sm_spawn in simp_all)
  from inv_running [OF this] show ?thesis using sm_spawn by simp
next
  case (sm_started r c)
  then show ?thesis using inv_finish_start [OF inv] by simp
next
  case (sm_failed r st c)
  note inv' = inv_running [OF inv, of "m_running m - {c}"]
  have "st \<noteq> Start_ended c'" for c' using sm_failed by auto
  then show ?thesis using inv_finish_start [OF inv', of r st] sm_failed by simp
next
  case (sm_start_ended r c)
  have out: "r \<notin> snd ` set (m_sessions m)"
    using inv_butD(3) [OF inv] sm_start_ended by (simp add: mi_starts_def)
  note v = same_view_stop [of m c]
  have "inv_but ({} - {r}) (start_abandoned r (stop_cli c m))"
    by (rule inv_start_abandoned [OF inv_same_view [OF inv v]]) (use sm_start_ended out in \<open>simp_all add: same_viewD [OF v]\<close>)
  then show ?thesis using sm_start_ended by simp
next
  case (sm_exit c)
  then show ?thesis using inv_running [OF inv] by simp
next
  case (sm_disconnect r c)
  then show ?thesis using inv_client_none [OF inv_same_view [OF inv same_view_stop]] by simp
next
  case (sm_turn r s)
  have "same_view m n" using sm_turn by (simp add: same_view_def released_def)
  then show ?thesis by (rule inv_same_view [OF inv])
qed

lemma fresh_manager_inv: "fresh_manager bg m \<Longrightarrow> inv_but {} m"
  by (simp add: fresh_manager_def inv_but_def mi_cache_def mi_tasks_def mi_starts_def mi_gone_def
      mi_tokens_def mi_clients_def released_def owes_def token_holds_def)

interpretation session_managers: machine "fresh_manager bg" "manager_step cf" manager_inv
  by unfold_locales (simp_all add: manager_inv_def fresh_manager_inv manager_step_inv)

section \<open>The session cap\<close>

definition capped :: "settings \<Rightarrow> manager \<Rightarrow> bool" where
  "capped cf m \<longleftrightarrow> (0 < cf_max_live cf \<longrightarrow> live_count m \<le> cf_max_live cf)"

lemma capped_shrinks: "capped cf m \<Longrightarrow> shrinks m n \<Longrightarrow> capped cf n"
  by (auto simp: capped_def shrinks_def live_count_def)

lemma evict_scan_frees:
  "inv_but {} m \<Longrightarrow> \<forall>(sid, r) \<in> set es. dget (m_sessions m) sid = Some r \<Longrightarrow> fst (evict_scan cf ot es m) \<Longrightarrow>
     live_count (snd (evict_scan cf ot es m)) < live_count m"
proof (induction es)
  case (Cons e es)
  obtain sid r where e: "e = (sid, r)" by fastforce
  have g: "dget (m_sessions m) sid = Some r" using Cons.prems(2) e by simp
  have id: "s_id (m_objs m r) = sid" by (rule mi_cache_key(2) [OF inv_butD(1) [OF Cons.prems(1)] g])
  have less: "length (ddel sid (m_sessions m)) < length (m_sessions m)"
    by (rule length_ddel_less [OF cache_wf [OF Cons.prems(1)] dget_Some_key [OF g]])
  show ?case using Cons less by (auto simp: e Let_def id live_count_def count_eviction_def split: if_splits)
qed simp

lemma has_room_below:
  assumes inv: "inv_but {} m" and cap: "capped cf m" and room: "fst (has_room cf ot m)" and pos: "0 < cf_max_live cf"
  shows "live_count (snd (has_room cf ot m)) < cf_max_live cf"
proof -
  define p where "p = snd (purge_all_expired_sync cf ot m)"
  have invp: "inv_but {} p" unfolding p_def by (rule inv_purges(1) [OF inv])
  have "shrinks m p" unfolding p_def purge_all_expired_sync_def by (rule shrinks_purge_sync)
  then have capp: "live_count p \<le> cf_max_live cf" using capped_shrinks [OF cap] pos by (simp add: capped_def)
  have sw: "live_count (schedule_expired_sweep ot n) = live_count n" for n
    by (simp add: live_count_def schedule_expired_sweep_def)
  have ent: "\<forall>(sid, r) \<in> set (sort_key (evict_key cf ot p) (m_sessions p)). dget (m_sessions p) sid = Some r"
    using entries_of_dict [OF cache_wf [OF invp]] by simp
  have ev: "fst (try_evict_lru cf ot p) \<Longrightarrow> live_count (snd (try_evict_lru cf ot p)) < live_count p"
    unfolding try_evict_lru_def by (rule evict_scan_frees [OF invp ent])
  show ?thesis
  proof (cases "live_count m < cf_max_live cf")
    case True
    then show ?thesis by (simp add: has_room_def)
  next
    case False
    then show ?thesis
      using room pos capp ev sw
      by (auto simp: has_room_def Let_def split_beta p_def [symmetric] not_less split: if_splits)
  qed
qed

lemma admit_object_count:
  "dget (m_sessions m) sid = None \<Longrightarrow> live_count (snd (admit_object ot sid s m)) \<le> live_count m + 1"
  by (auto simp: admit_object_def allocate_def take_ownership_def live_count_def Let_def length_dput
      split: prod.splits sum.splits if_splits)

lemma capped_admit:
  assumes inv: "inv_but {} m" and cap: "capped cf m" and absent: "dget (m_sessions m) sid = None"
    and room: "fst (has_room cf ot m)"
  shows "capped cf (snd (admit_object ot sid s (snd (has_room cf ot m))))"
proof -
  have "dget (m_sessions (snd (has_room cf ot m))) sid = None"
    using shrinks_has_room absent unfolding shrinks_def by blast
  note le = admit_object_count [OF this, of ot s]
  show ?thesis
    unfolding capped_def
  proof
    assume "0 < cf_max_live cf"
    from has_room_below [OF inv cap room this] le
    show "live_count (snd (admit_object ot sid s (snd (has_room cf ot m)))) \<le> cf_max_live cf" by linarith
  qed
qed

lemma capped_sessions: "capped cf m \<Longrightarrow> m_sessions n = m_sessions m \<Longrightarrow> capped cf n"
  by (simp add: capped_def live_count_def)

lemma capped_create:
  assumes inv: "inv_but {} m" and loop: "ot_loop ot" and cap: "capped cf m"
  shows "capped cf (snd (get_or_create_session cf ot sid m))"
proof -
  define a where "a = snd (remove_if_expired cf ot sid m)"
  have inva: "inv_but {} a" unfolding a_def by (rule inv_remove_if_expired [OF inv loop])
  have capa: "capped cf a" unfolding a_def by (rule capped_shrinks [OF cap shrinks_remove_if_expired])
  have capb: "capped cf (snd (has_room cf ot a))" by (rule capped_shrinks [OF capa shrinks_has_room])
  show ?thesis
  proof (cases "dget (m_sessions a) sid")
    case None
    show ?thesis using None capped_admit [OF inva capa None] capped_sessions [OF capb]
      by (simp add: get_or_create_session_def Let_def split_beta a_def [symmetric])
  next
    case (Some r)
    then show ?thesis using capped_sessions [OF capa]
      by (simp add: get_or_create_session_def Let_def split_beta a_def [symmetric])
  qed
qed

lemma capped_cached: "capped cf m \<Longrightarrow> capped cf (snd (cached_session cf ot sid m))"
  using capped_shrinks [OF _ shrinks_remove_if_expired, of cf m cf ot sid]
  by (auto simp: cached_session_eq Let_def intro: capped_sessions split: option.splits)

lemma capped_rehydrated:
  assumes inv: "inv_but {} m" and loop: "ot_loop ot" and cap: "capped cf m"
  shows "capped cf (snd (admit_rehydrated cf ot sid so max_turn m))"
proof -
  obtain ro a where c: "cached_session cf ot sid m = (ro, a)" by fastforce
  note inva = inv_cached(1) [OF inv loop, of cf sid, unfolded c snd_conv]
  note capa = capped_cached [OF cap, of ot sid, unfolded c snd_conv]
  show ?thesis
  proof (cases ro)
    case (Some r)
    then show ?thesis using capa c by (simp add: admit_rehydrated_def)
  next
    case None
    have absent: "dget (m_sessions a) sid = None" using inv_cached(2) [OF inv loop, of cf sid] c None by simp
    show ?thesis
    proof (cases so)
      case None': None
      then show ?thesis using capped_sessions [OF capa] c None by (simp add: admit_rehydrated_def count_miss_def)
    next
      case (Some s)
      obtain room b where r: "has_room cf ot a = (room, b)" by fastforce
      note capb = capped_shrinks [OF capa shrinks_has_room, of cf ot, unfolded r snd_conv]
      obtain x d where x: "admit_object ot sid s b = (x, d)" by fastforce
      have "room \<Longrightarrow> capped cf d" using capped_admit [OF inva capa absent, of ot s] r x by simp
      then show ?thesis
        using c None Some r x capped_sessions [OF capa] capped_sessions [OF capb] capped_sessions [of cf d]
        by (simp add: admit_rehydrated_def count_miss_def split: sum.splits)
    qed
  qed
qed

lemma shrinks_purge_async: "shrinks m (snd (purge_async cf ot es m))"
proof (induction es arbitrary: m)
  case (Cons e es)
  obtain sid r where e: "e = (sid, r)" by fastforce
  have "shrinks m (add_task (Queued r Expiring) (drop_session sid m))"
    by (rule shrinks_drop [of _ sid]) simp
  from shrinks_trans [OF this Cons.IH] show ?case using Cons.IH by (simp add: e split_beta)
qed simp

lemma teardown_sessions [simp]:
  "m_sessions (teardown_begin r w m) = m_sessions m" "m_sessions (teardown_resume r c w m) = m_sessions m"
  by (simp_all add: teardown_begin_def teardown_resume_def Let_def same_viewD [OF same_view_reader]
      same_viewD [OF same_view_stop] split: option.splits)

lemma start_sessions [simp]:
  "m_sessions (start_abandoned r m) = m_sessions m" "m_sessions (begin_client_start r m) = m_sessions m"
  "m_sessions (snd (finish_client_start sid r c m)) = m_sessions m"
  by (simp_all add: start_abandoned_def begin_client_start_def finish_client_start_def Let_def split: option.splits)

lemma manager_step_capped:
  assumes inv: "manager_inv m" and st: "manager_step cf m n" and cap: "capped cf m"
  shows "capped cf n"
  using st
proof cases
  case (sm_create ot sid)
  then show ?thesis using capped_create inv cap by (simp add: manager_inv_def)
next
  case (sm_lookup ot sid user cwd)
  then show ?thesis using capped_cached [OF cap] by (simp add: get_session_begin_def split_beta Let_def)
next
  case (sm_rehydrate ot sid user cwd max_turn answer)
  then show ?thesis using capped_rehydrated inv cap capped_sessions [OF cap, of "count_miss m"]
    by (simp add: manager_inv_def get_session_end_def count_miss_def split: sum.splits)
next
  case (sm_peek ot sid)
  then show ?thesis using capped_shrinks [OF cap shrinks_remove_if_expired]
    by (simp add: peek_session_def split_beta Let_def)
next
  case (sm_list ot)
  then show ?thesis using capped_shrinks [OF cap shrinks_purge_sync]
    by (simp add: list_sessions_def purge_all_expired_sync_def split_beta Let_def)
next
  case (sm_cleanup ot)
  then show ?thesis using capped_shrinks [OF cap shrinks_purge_async] by (simp add: purge_all_expired_def)
next
  case (sm_sweep ot)
  have "capped cf (snd (purge_all_expired cf ot m))"
    using capped_shrinks [OF cap shrinks_purge_async] by (simp add: purge_all_expired_def)
  then show ?thesis using sm_sweep capped_sessions by simp
next
  case (sm_delete finished sid)
  have "shrinks m n"
    using sm_delete shrinks_drop [of n sid m] shrinks_same [of n m]
    by (simp add: delete_session_async_def split: option.splits)
  then show ?thesis by (rule capped_shrinks [OF cap])
next
  case (sm_handoff sid)
  have "shrinks m n"
    using sm_handoff shrinks_drop [of n sid m] shrinks_same [of n m]
    by (auto simp: release_for_handoff_def split: option.splits if_splits)
  then show ?thesis by (rule capped_shrinks [OF cap])
next
  case (sm_task t)
  then show ?thesis by (cases t) (auto intro: capped_sessions [OF cap])
qed (auto intro: capped_sessions [OF cap] simp: same_viewD [OF same_view_stop])

section \<open>Sessions in use\<close>

definition survives :: "string \<Rightarrow> nat \<Rightarrow> manager \<Rightarrow> manager \<Rightarrow> bool" where
  "survives sid r m n \<longleftrightarrow> dget (m_sessions n) sid = Some r \<and> m_objs n r = m_objs m r"

lemma survives_trans: "survives sid r a b \<Longrightarrow> survives sid r b c \<Longrightarrow> survives sid r a c"
  by (simp add: survives_def)

lemma release_dirs_other: "q \<noteq> r \<Longrightarrow> m_objs (release_session_dirs f r m) q = m_objs m q"
proof -
  have c: "m_objs (cleanup_workspace r n) = m_objs n" for n
    by (simp add: cleanup_workspace_def split: option.splits)
  have e: "m_objs (remove_session_env r n) = m_objs n" for n
    by (simp add: remove_session_env_def Let_def split: option.splits)
  show "q \<noteq> r \<Longrightarrow> ?thesis" by (simp add: release_session_dirs_def Let_def c e)
qed

lemma survives_drop:
  assumes g: "dget (m_sessions m) sid = Some r" and "sid' \<noteq> sid" and "m_sessions n = ddel sid' (m_sessions m)"
    and "m_objs n r = m_objs m r"
  shows "survives sid r m n"
  using assms by (simp add: survives_def dget_ddel)

lemma survives_purge_sync:
  "dget (m_sessions m) sid = Some r \<Longrightarrow> \<not> is_expired cf ot (m_objs m r) \<Longrightarrow>
     \<forall>(k, q) \<in> set es. k = sid \<longleftrightarrow> q = r \<Longrightarrow> survives sid r m (snd (purge_sync cf ot es m))"
proof (induction es arbitrary: m)
  case (Cons e es)
  obtain k q where e: "e = (k, q)" by fastforce
  show ?case
  proof (cases "is_expired cf ot (m_objs m q) \<and> s_client (m_objs m q) = None")
    case True
    then have "q \<noteq> r" "k \<noteq> sid" using Cons.prems e by auto
    then have s: "survives sid r m (drop_session k (release_session_dirs False q m))"
      using Cons.prems(1) by (simp add: survives_def dget_ddel release_dirs_other)
    then have "survives sid r (drop_session k (release_session_dirs False q m))
        (snd (purge_sync cf ot es (drop_session k (release_session_dirs False q m))))"
      by (intro Cons.IH) (use Cons.prems in \<open>simp_all add: survives_def\<close>)
    from survives_trans [OF s this] show ?thesis using True by (simp add: e split_beta)
  next
    case False
    have "survives sid r m (snd (purge_sync cf ot es m))" by (rule Cons.IH) (use Cons.prems in simp_all)
    then show ?thesis unfolding e purge_sync.simps if_not_P [OF False] .
  qed
qed (simp add: survives_def)

lemma survives_purge_async:
  "dget (m_sessions m) sid = Some r \<Longrightarrow> \<not> is_expired cf ot (m_objs m r) \<Longrightarrow>
     \<forall>(k, q) \<in> set es. k = sid \<longleftrightarrow> q = r \<Longrightarrow> survives sid r m (snd (purge_async cf ot es m))"
proof (induction es arbitrary: m)
  case (Cons e es)
  obtain k q where e: "e = (k, q)" by fastforce
  show ?case
  proof (cases "is_expired cf ot (m_objs m q)")
    case True
    then have "q \<noteq> r" "k \<noteq> sid" using Cons.prems e by auto
    then have s: "survives sid r m (add_task (Queued q Expiring) (drop_session k m))"
      using Cons.prems(1) by (simp add: survives_def dget_ddel)
    then have "survives sid r (add_task (Queued q Expiring) (drop_session k m))
        (snd (purge_async cf ot es (add_task (Queued q Expiring) (drop_session k m))))"
      by (intro Cons.IH) (use Cons.prems in \<open>simp_all add: survives_def\<close>)
    from survives_trans [OF s this] show ?thesis using True by (simp add: e split_beta)
  next
    case False
    have "survives sid r m (snd (purge_async cf ot es m))" by (rule Cons.IH) (use Cons.prems in simp_all)
    then show ?thesis unfolding e purge_async.simps if_not_P [OF False] .
  qed
qed (simp add: survives_def)

lemma survives_evict_scan:
  "dget (m_sessions m) sid = Some r \<Longrightarrow> busy (m_objs m r) \<Longrightarrow>
     \<forall>(k, q) \<in> set es. s_id (m_objs m q) = sid \<longrightarrow> q = r \<Longrightarrow> survives sid r m (snd (evict_scan cf ot es m))"
proof (induction es)
  case (Cons e es)
  obtain k q where e: "e = (k, q)" by fastforce
  have tail: "survives sid r m (snd (evict_scan cf ot es m))" using Cons by simp
  show ?case
  proof (cases "busy (m_objs m q)")
    case True
    then show ?thesis using tail by (simp add: e)
  next
    case False
    then have "q \<noteq> r" "s_id (m_objs m q) \<noteq> sid" using Cons.prems e by auto
    then have "survives sid r m (count_eviction q (add_task (Queued q Evicting) (drop_session (s_id (m_objs m q)) m)))"
      "survives sid r m (count_eviction q (release_session_dirs False q (drop_session (s_id (m_objs m q)) m)))"
      "survives sid r m m"
      using Cons.prems(1) by (simp_all add: survives_def dget_ddel release_dirs_other count_eviction_def)
    then show ?thesis using tail by (simp add: e Let_def)
  qed
qed (simp add: survives_def)

lemma cache_entries_match:
  assumes "inv_but {} m" and "dget (m_sessions m) sid = Some r"
  shows "\<forall>(k, q) \<in> set (m_sessions m). k = sid \<longleftrightarrow> q = r"
proof -
  have "k = sid \<longleftrightarrow> q = r" if "(k, q) \<in> set (m_sessions m)" for k q
  proof -
    have k: "dget (m_sessions m) k = Some q" using that cache_wf [OF assms(1)] by (simp add: dget_Some_iff)
    have ids: "s_id (m_objs m q) = k" "s_id (m_objs m r) = sid"
      using mi_cache_key(2) [OF inv_butD(1) [OF assms(1)]] k assms(2) by blast+
    show ?thesis
    proof
      assume "k = sid"
      then show "q = r" using k assms(2) by simp
    next
      assume "q = r"
      then show "k = sid" using ids by simp
    qed
  qed
  then show ?thesis by blast
qed

lemma survives_has_room:
  assumes inv: "inv_but {} m" and g: "dget (m_sessions m) sid = Some r"
    and live: "\<not> is_expired cf ot (m_objs m r)" "busy (m_objs m r)"
  shows "survives sid r m (snd (has_room cf ot m))"
proof -
  define p where "p = snd (purge_all_expired_sync cf ot m)"
  have invp: "inv_but {} p" unfolding p_def by (rule inv_purges(1) [OF inv])
  have sp: "survives sid r m p"
    unfolding p_def purge_all_expired_sync_def
    by (rule survives_purge_sync [OF g live(1) cache_entries_match [OF inv g]])
  then have gp: "dget (m_sessions p) sid = Some r" and bp: "busy (m_objs p r)"
    using live(2) by (simp_all add: survives_def)
  have "q = r" if "(k, q) \<in> set (m_sessions p)" "s_id (m_objs p q) = sid" for k q
  proof -
    have k: "dget (m_sessions p) k = Some q" using that(1) cache_wf [OF invp] by (simp add: dget_Some_iff)
    then have "k = sid" using mi_cache_key(2) [OF inv_butD(1) [OF invp] k] that(2) by simp
    then show "q = r" using k gp by simp
  qed
  then have "survives sid r p (snd (try_evict_lru cf ot p))"
    unfolding try_evict_lru_def by (intro survives_evict_scan [OF gp bp]) auto
  then have ev: "survives sid r m (snd (try_evict_lru cf ot p))" by (rule survives_trans [OF sp])
  have sw: "survives sid r m n \<Longrightarrow> survives sid r m (schedule_expired_sweep ot n)" for n
    by (simp add: survives_def schedule_expired_sweep_def)
  have "survives sid r m m" using g by (simp add: survives_def)
  then show ?thesis using sp ev sw
    by (simp add: has_room_def Let_def split_beta p_def [symmetric])
qed

lemma survives_remove_if_expired:
  assumes g: "dget (m_sessions m) sid = Some r" and live: "\<not> is_expired cf ot (m_objs m r)"
    and other: "\<And>q. dget (m_sessions m) sid' = Some q \<Longrightarrow> sid' \<noteq> sid \<Longrightarrow> q \<noteq> r"
  shows "survives sid r m (snd (remove_if_expired cf ot sid' m))"
proof (cases "dget (m_sessions m) sid'")
  case None
  then show ?thesis using g by (simp add: remove_if_expired_def survives_def)
next
  case (Some q)
  show ?thesis
  proof (cases "sid' = sid")
    case True
    then show ?thesis using g live by (simp add: remove_if_expired_def survives_def)
  next
    case False
    then have "q \<noteq> r" using other Some by blast
    then show ?thesis using Some False g
      by (simp add: remove_if_expired_def survives_def Let_def dget_ddel release_dirs_other cancel_idle_reader_def)
  qed
qed

section \<open>Which session an eviction takes\<close>

lemma evict_scan_victim:
  assumes "ot_loop ot" and "fst (evict_scan cf ot es m)"
  obtains pre sid r post where "es = pre @ (sid, r) # post" "\<forall>(k, q) \<in> set pre. busy (m_objs m q)"
    "\<not> busy (m_objs m r)" "is_expired cf ot (m_objs m r) \<or> cf_min_idle cf \<le> ot_now ot - s_last (m_objs m r)"
    "m_sessions (snd (evict_scan cf ot es m)) = ddel (s_id (m_objs m r)) (m_sessions m)"
  using assms(2)
proof (induction es arbitrary: thesis)
  case (Cons e es)
  obtain k q where e: "e = (k, q)" by fastforce
  show ?case
  proof (cases "busy (m_objs m q)")
    case True
    then have "fst (evict_scan cf ot es m)" using Cons.prems(2) by (simp add: e)
    from Cons.IH [OF _ this] obtain pre sid r post where v: "es = pre @ (sid, r) # post"
      "\<forall>(k, q) \<in> set pre. busy (m_objs m q)" "\<not> busy (m_objs m r)"
      "is_expired cf ot (m_objs m r) \<or> cf_min_idle cf \<le> ot_now ot - s_last (m_objs m r)"
      "m_sessions (snd (evict_scan cf ot es m)) = ddel (s_id (m_objs m r)) (m_sessions m)" by blast
    show ?thesis
      by (rule Cons.prems(1) [of "e # pre" sid r post]) (use v True e in simp_all)
  next
    case False
    show ?thesis
      by (rule Cons.prems(1) [of "[]" k q es])
         (use Cons.prems(2) False assms(1) e in \<open>auto simp: count_eviction_def Let_def split: if_splits\<close>)
  qed
qed simp

section \<open>Properties\<close>

text \<open>
  C1. The cap: with \<open>MAX_LIVE_SESSIONS\<close> above zero, no interleaving of requests, evictions,
  sweeps, deletions, hand-offs and rehydrations ever has more sessions in the cache.
\<close>

theorem live_sessions_capped:
  assumes "fresh_manager bg m0" and "(manager_step cf)\<^sup>*\<^sup>* m0 m" and "0 < cf_max_live cf"
  shows "live_count m \<le> cf_max_live cf"
proof -
  have "capped cf m0" using assms(1,3) by (simp add: capped_def fresh_manager_def live_count_def)
  then have "capped cf m"
    by (rule session_managers.run_keeps [where P = "capped cf", OF assms(2) session_managers.start_inv [OF assms(1)]])
       (rule manager_step_capped)
  then show ?thesis using assms(3) by (simp add: capped_def)
qed

definition demo_cf :: settings where
  "demo_cf = \<lparr>cf_max_live = 1, cf_lru = True, cf_min_idle = 0, cf_age_cap = seconds 600, cf_default_ttl = 60,
     cf_override_ttl = None\<rparr>"

definition demo_ot :: "instant \<Rightarrow> outside" where
  "demo_ot t = \<lparr>ot_now = t, ot_mono = t, ot_loop = True, ot_draining = False, ot_lock = (\<lambda>_. Won)\<rparr>"

definition demo_m0 :: manager where
  "demo_m0 = \<lparr>m_objs = (\<lambda>_. new_session [] 0 0), m_next = 0, m_sessions = [],
     m_owner = \<lparr>ow_enabled = True, ow_held = []\<rparr>, m_tasks = [], m_starts = [], m_running = {},
     m_sweep = No_sweep, m_hits = 0, m_misses = 0, m_evicted = 0, m_rejected = 0, m_log = []\<rparr>"

definition demo_m1 :: manager where
  "demo_m1 = snd (get_or_create_session demo_cf (demo_ot 0) ''a'' demo_m0)"

definition demo_m2 :: manager where
  "demo_m2 = snd (get_or_create_session demo_cf (demo_ot 5) ''b'' demo_m1)"

lemma demo_fresh: "fresh_manager True demo_m0"
  by (simp add: fresh_manager_def demo_m0_def new_session_def)

lemma demo_m1_reachable: "(manager_step demo_cf)\<^sup>*\<^sup>* demo_m0 demo_m1"
  unfolding demo_m1_def by (rule r_into_rtranclp, rule sm_create) (simp add: demo_ot_def)

lemma demo_m2_reachable: "(manager_step demo_cf)\<^sup>*\<^sup>* demo_m0 demo_m2"
proof -
  have "manager_step demo_cf demo_m1 demo_m2"
    unfolding demo_m2_def by (rule sm_create) (simp add: demo_ot_def)
  with demo_m1_reachable show ?thesis by (rule rtranclp.rtrancl_into_rtrancl)
qed

lemma demo_m1_sessions: "m_sessions demo_m1 = [(''a'', 0)]"
  by code_simp

lemma demo_m2_sessions: "m_sessions demo_m2 = [(''b'', 1)]"
  by code_simp

theorem live_sessions_capped_witness: "live_count demo_m2 \<le> 1 \<and> live_count demo_m2 = 1"
proof -
  have "live_count demo_m2 \<le> cf_max_live demo_cf"
    by (rule live_sessions_capped [OF demo_fresh demo_m2_reachable]) (simp add: demo_cf_def)
  then show ?thesis by (simp add: demo_cf_def live_count_def demo_m2_sessions)
qed

text \<open>
  C2. The cache is consistent and owned: in every reachable state each id maps to one object
  that carries this id and is not torn down, no two ids share an object, and in a blue/green pair
  this process holds the owner lock of every id in its cache for exactly that object.
\<close>

theorem cached_sessions_owned:
  assumes "fresh_manager bg m0" and "(manager_step cf)\<^sup>*\<^sup>* m0 m" and "dget (m_sessions m) sid = Some r"
  shows "s_id (m_objs m r) = sid \<and> \<not> released r m \<and> (\<forall>sid'. dget (m_sessions m) sid' = Some r \<longrightarrow> sid' = sid) \<and>
    (ow_enabled (m_owner m) \<longrightarrow> token_holds (m_owner m) sid r)"
proof -
  have inv: "inv_but {} m"
    using session_managers.reachable_inv [OF assms(1,2)] by (simp add: manager_inv_def)
  note key = mi_cache_key [OF inv_butD(1) [OF inv] assms(3)]
  have "r \<in> snd ` set (m_sessions m)" using dget_SomeD [OF assms(3)] by force
  then have "owes r m" by (simp add: owes_def)
  then have "ow_enabled (m_owner m) \<Longrightarrow> token_holds (m_owner m) sid r"
    using inv_butD(5) [OF inv] key(2,3) unfolding mi_tokens_def by blast
  then show ?thesis using key by blast
qed

theorem cached_sessions_owned_witness: "token_holds (m_owner demo_m2) ''b'' 1"
proof -
  have g: "dget (m_sessions demo_m2) ''b'' = Some 1" by (simp add: demo_m2_sessions dget_Cons)
  have "ow_enabled (m_owner demo_m2)" by code_simp
  with cached_sessions_owned [OF demo_fresh demo_m2_reachable g] show ?thesis by blast
qed


definition demo_started :: manager where
  "demo_started = snd (finish_client_start ''a'' 0 (Some 7)
     ((begin_client_start 0 demo_m1)\<lparr>m_starts := [(0, Spawned 7)], m_running := {7}\<rparr>))"

lemma demo_m1_parts: "m_starts demo_m1 = []" "s_client (m_objs demo_m1 r) = None" "s_id (m_objs demo_m1 0) = ''a''"
  "m_running demo_m1 = {}"
proof -
  show "m_starts demo_m1 = []" by code_simp
  show "s_id (m_objs demo_m1 0) = ''a''" by code_simp
  show "s_client (m_objs demo_m1 r) = None" "m_running demo_m1 = {}"
    by (simp_all add: demo_m1_def get_or_create_session_def remove_if_expired_def demo_m0_def has_room_def
        demo_cf_def live_count_def admit_object_def allocate_def take_ownership_def new_session_def demo_ot_def
        owner_acquire_def safe_name_def Let_def)
qed

lemma demo_started_reachable: "(manager_step demo_cf)\<^sup>*\<^sup>* demo_m0 demo_started"
proof -
  let ?b = "begin_client_start 0 demo_m1"
  let ?s = "?b\<lparr>m_starts := dput 0 (Spawned 7) (m_starts ?b), m_running := insert 7 (m_running ?b)\<rparr>"
  have parts: "m_starts ?b = [(0, Creating)]" "m_running ?b = {}" "s_client (m_objs ?b q) = None" "s_id (m_objs ?b 0) = ''a''" for q
    by (simp_all add: begin_client_start_def set_obj_def demo_m1_parts)
  have eq: "?s = ?b\<lparr>m_starts := [(0, Spawned 7)], m_running := {7}\<rparr>" by (simp add: parts dput_Cons)
  have "manager_step demo_cf demo_m1 ?b"
    by (rule sm_start) (simp_all add: demo_m1_parts owes_def demo_m1_sessions)
  moreover have "manager_step demo_cf ?b ?s"
    by (rule sm_spawn) (simp_all add: parts client_used_def dget_Cons)
  moreover have "manager_step demo_cf ?s (snd (finish_client_start (s_id (m_objs ?s 0)) 0 (Some 7) ?s))"
    by (rule sm_started) (simp add: parts dget_dput)
  moreover have "snd (finish_client_start (s_id (m_objs ?s 0)) 0 (Some 7) ?s) = demo_started"
    unfolding demo_started_def eq by (simp add: parts)
  ultimately show ?thesis using demo_m1_reachable by (metis rtranclp.rtrancl_into_rtrancl)
qed


text \<open>
  Nothing is leaked: whenever no teardown and no client start is under way, the owner locks
  this process holds are exactly those of the sessions in its cache.
\<close>

theorem owner_locks_not_leaked:
  assumes "fresh_manager bg m0" and "(manager_step cf)\<^sup>*\<^sup>* m0 m" and "m_tasks m = []" and "m_starts m = []"
    and "ow_enabled (m_owner m)"
  shows "token_holds (m_owner m) sid r \<longleftrightarrow> dget (m_sessions m) sid = Some r"
proof -
  have inv: "inv_but {} m"
    using session_managers.reachable_inv [OF assms(1,2)] by (simp add: manager_inv_def)
  note tk = inv_butD(5) [OF inv, unfolded mi_tokens_def, rule_format, OF assms(5)]
  have ow: "owes q m \<longleftrightarrow> q \<in> snd ` set (m_sessions m)" for q using assms(3,4) by (simp add: owes_def)
  show ?thesis
  proof
    assume "token_holds (m_owner m) sid r"
    then have "s_id (m_objs m r) = sid" "r \<in> snd ` set (m_sessions m)" using tk ow by blast+
    then show "dget (m_sessions m) sid = Some r" using in_cache(1) [OF inv_butD(1) [OF inv]] by blast
  next
    assume g: "dget (m_sessions m) sid = Some r"
    then have "r \<in> snd ` set (m_sessions m)" using dget_SomeD by force
    then show "token_holds (m_owner m) sid r"
      using tk ow mi_cache_key(2,3) [OF inv_butD(1) [OF inv] g] by blast
  qed
qed

theorem owner_locks_not_leaked_witness: "\<not> token_holds (m_owner demo_m2) ''a'' 0"
proof -
  have "m_tasks demo_m2 = []" "m_starts demo_m2 = []" "ow_enabled (m_owner demo_m2)" by code_simp+
  from owner_locks_not_leaked [OF demo_fresh demo_m2_reachable this, of "''a''" 0] show ?thesis
    by (simp add: demo_m2_sessions dget_Cons)
qed

text \<open>
  Eviction picks the right session: the one evicted is idle - no turn, no pending card, no
  client start - and either expired or idle for the configured floor; every session that would
  have gone before it (expired ones first, then least recently used) is in use; nothing else
  leaves the cache.
\<close>

theorem eviction_takes_idle_lru:
  assumes "manager_inv m" and "ot_loop ot" and "fst (try_evict_lru cf ot m)"
  shows "\<exists>sid r. dget (m_sessions m) sid = Some r \<and> \<not> busy (m_objs m r) \<and>
    (is_expired cf ot (m_objs m r) \<or> cf_min_idle cf \<le> ot_now ot - s_last (m_objs m r)) \<and>
    (\<forall>sid'. dget (m_sessions (snd (try_evict_lru cf ot m))) sid' =
       (if sid' = sid then None else dget (m_sessions m) sid')) \<and>
    (\<forall>sid' q. dget (m_sessions m) sid' = Some q \<longrightarrow> evict_key cf ot m (sid', q) < evict_key cf ot m (sid, r) \<longrightarrow>
       busy (m_objs m q))"
proof -
  have inv: "inv_but {} m" using assms(1) by (simp add: manager_inv_def)
  let ?k = "evict_key cf ot m" and ?es = "sort_key (evict_key cf ot m) (m_sessions m)"
  obtain pre sid r post where v: "?es = pre @ (sid, r) # post" "\<forall>(k, q) \<in> set pre. busy (m_objs m q)"
    "\<not> busy (m_objs m r)" "is_expired cf ot (m_objs m r) \<or> cf_min_idle cf \<le> ot_now ot - s_last (m_objs m r)"
    "m_sessions (snd (evict_scan cf ot ?es m)) = ddel (s_id (m_objs m r)) (m_sessions m)"
    using evict_scan_victim [OF assms(2) assms(3) [unfolded try_evict_lru_def]] .
  have "(sid, r) \<in> set ?es" unfolding v(1) by simp
  then have g: "dget (m_sessions m) sid = Some r" using cache_wf [OF inv] by (simp add: dget_Some_iff)
  have id: "s_id (m_objs m r) = sid" by (rule mi_cache_key(2) [OF inv_butD(1) [OF inv] g])
  have "busy (m_objs m q)" if q: "dget (m_sessions m) sid' = Some q" and less: "?k (sid', q) < ?k (sid, r)" for sid' q
  proof -
    have "(sid', q) \<in> set ?es" using q cache_wf [OF inv] by (simp add: dget_Some_iff)
    moreover have "sorted (map ?k (pre @ (sid, r) # post))" unfolding v(1) [symmetric] by simp
    then have "\<forall>e \<in> set post. ?k (sid, r) \<le> ?k e" by (simp add: sorted_append)
    ultimately have "(sid', q) \<in> set pre" unfolding v(1) using less by (auto simp: not_le [symmetric])
    then show ?thesis using v(2) by blast
  qed
  then show ?thesis using g v(3,4,5) id by (intro exI [of _ sid] exI [of _ r]) (simp add: try_evict_lru_def dget_ddel)
qed

theorem eviction_takes_idle_lru_witness:
  "fst (try_evict_lru demo_cf (demo_ot 5) demo_m1) \<and> dget (m_sessions (snd (try_evict_lru demo_cf (demo_ot 5) demo_m1))) ''a'' = None"
proof -
  have i: "manager_inv demo_m1" by (rule session_managers.reachable_inv [OF demo_fresh demo_m1_reachable])
  have l: "ot_loop (demo_ot 5)" by (simp add: demo_ot_def)
  have f: "fst (try_evict_lru demo_cf (demo_ot 5) demo_m1)" by code_simp
  from eviction_takes_idle_lru [OF i l f] obtain sid r where
    "dget (m_sessions demo_m1) sid = Some r"
    "dget (m_sessions (snd (try_evict_lru demo_cf (demo_ot 5) demo_m1))) sid = None" by auto
  then show ?thesis using f by (auto simp: demo_m1_sessions dget_Cons split: if_splits)
qed

lemma admit_object_keeps:
  "dget (m_sessions m) sid = Some r \<Longrightarrow> sid' \<noteq> sid \<Longrightarrow>
     dget (m_sessions (snd (admit_object ot sid' s m))) sid = Some r"
  by (simp add: admit_object_def allocate_def take_ownership_def Let_def dget_dput
      split: prod.splits sum.splits)

lemma remove_if_expired_survivor:
  assumes inv: "inv_but {} m" and g: "dget (m_sessions m) sid = Some r" and live: "\<not> is_expired cf ot (m_objs m r)"
  shows "survives sid r m (snd (remove_if_expired cf ot sid' m))"
proof (rule survives_remove_if_expired [OF g live])
  fix q assume q: "dget (m_sessions m) sid' = Some q" and "sid' \<noteq> sid"
  then show "q \<noteq> r" using mi_cache_key(5) [OF inv_butD(1) [OF inv] g] by blast
qed

text \<open>
  A session in use stays: one with a turn in progress that has not gone silent past the cap,
  a pending card or question, or a client start survives every admission, lookup, rehydration,
  listing, sweep and hand-off request, whatever session these are about.
\<close>

theorem session_in_use_survives:
  assumes "manager_inv m" and "ot_loop ot" and g: "dget (m_sessions m) sid = Some r"
    and live: "\<not> is_expired cf ot (m_objs m r)" and use: "busy (m_objs m r)"
  shows "dget (m_sessions (snd (get_or_create_session cf ot sid' m))) sid = Some r \<and>
    dget (m_sessions (snd (get_session_begin cf ot sid' user cwd m))) sid = Some r \<and>
    dget (m_sessions (snd (get_session_end cf ot sid' u w max_turn answer m))) sid = Some r \<and>
    dget (m_sessions (snd (peek_session cf ot sid' m))) sid = Some r \<and>
    dget (m_sessions (snd (list_sessions cf ot m))) sid = Some r \<and>
    dget (m_sessions (snd (purge_all_expired cf ot m))) sid = Some r \<and>
    release_for_handoff sid m = (Busy, m)"
proof -
  have inv: "inv_but {} m" using assms(1) by (simp add: manager_inv_def)
  define a where "a = snd (remove_if_expired cf ot sid' m)"
  have inva: "inv_but {} a" unfolding a_def by (rule inv_remove_if_expired [OF inv assms(2)])
  have sa: "survives sid r m a" unfolding a_def by (rule remove_if_expired_survivor [OF inv g live])
  then have ga: "dget (m_sessions a) sid = Some r" and oa: "m_objs a r = m_objs m r" by (simp_all add: survives_def)
  have room: "dget (m_sessions (snd (has_room cf ot n))) sid = Some r"
    if "inv_but {} n" "dget (m_sessions n) sid = Some r" "m_objs n r = m_objs m r" for n
    using survives_has_room [OF that(1,2)] that(3) live use by (simp add: survives_def)
  have admitted: "dget (m_sessions (snd (admit_object ot sid' s (snd (has_room cf ot a))))) sid = Some r"
    if "dget (m_sessions a) sid' = None" for s
    by (rule admit_object_keeps [OF room [OF inva ga oa]]) (use that ga in auto)
  have "dget (m_sessions (snd (get_or_create_session cf ot sid' m))) sid = Some r"
    using ga admitted room [OF inva ga oa]
    by (simp add: get_or_create_session_def Let_def split_beta a_def [symmetric] split: option.splits)
  moreover have cached: "dget (m_sessions (snd (cached_session cf ot sid' m))) sid = Some r"
    using ga by (simp add: cached_session_eq Let_def a_def [symmetric] split: option.splits)
  then have "dget (m_sessions (snd (get_session_begin cf ot sid' user cwd m))) sid = Some r"
    by (simp add: get_session_begin_def split_beta Let_def)
  moreover have "dget (m_sessions (snd (admit_rehydrated cf ot sid' so max_turn m))) sid = Some r" for so
  proof (cases "dget (m_sessions a) sid'")
    case (Some q)
    then have "cached_session cf ot sid' m = (Some q, set_obj q (touch (ot_now ot)) a)"
      by (simp add: cached_session_eq Let_def a_def [symmetric])
    then show ?thesis using ga by (simp add: admit_rehydrated_def)
  next
    case None
    then have c: "cached_session cf ot sid' m = (None, a)"
      by (simp add: cached_session_eq Let_def a_def [symmetric])
    show ?thesis
    proof (cases so)
      case None': None
      then show ?thesis using c ga by (simp add: admit_rehydrated_def count_miss_def)
    next
      case (Some s)
      obtain rm b where h: "has_room cf ot a = (rm, b)" by fastforce
      obtain x d where x: "admit_object ot sid' s b = (x, d)" by fastforce
      have "dget (m_sessions b) sid = Some r" "dget (m_sessions d) sid = Some r"
        using room [OF inva ga oa] admitted [OF None, of s] h x by simp_all
      then show ?thesis using c ga Some h x
        by (simp add: admit_rehydrated_def count_miss_def split: sum.splits)
    qed
  qed
  then have "dget (m_sessions (snd (get_session_end cf ot sid' u w max_turn answer m))) sid = Some r"
    using g by (simp add: get_session_end_def count_miss_def split: sum.splits)
  moreover have "dget (m_sessions (snd (peek_session cf ot sid' m))) sid = Some r"
    using ga by (simp add: peek_session_def split_beta Let_def a_def [symmetric])
  moreover have "dget (m_sessions (snd (list_sessions cf ot m))) sid = Some r"
    using survives_purge_sync [OF g live cache_entries_match [OF inv g]]
    by (simp add: list_sessions_def split_beta Let_def purge_all_expired_sync_def survives_def)
  moreover have "dget (m_sessions (snd (purge_all_expired cf ot m))) sid = Some r"
    using survives_purge_async [OF g live cache_entries_match [OF inv g]]
    by (simp add: purge_all_expired_def survives_def)
  moreover have "release_for_handoff sid m = (Busy, m)"
    using g use by (simp add: release_for_handoff_def)
  ultimately show ?thesis by blast
qed

definition demo_busy :: manager where
  "demo_busy = demo_m1\<lparr>m_objs := (m_objs demo_m1)(0 := (m_objs demo_m1 0)\<lparr>s_pending := Some (J_obj [])\<rparr>)\<rparr>"

theorem session_in_use_survives_witness:
  "dget (m_sessions (snd (get_or_create_session demo_cf (demo_ot 5) ''b'' demo_busy))) ''a'' = Some 0"
proof -
  have "manager_step demo_cf demo_m1 demo_busy"
    unfolding demo_busy_def by (rule sm_turn) (simp add: same_core_def)
  then have "(manager_step demo_cf)\<^sup>*\<^sup>* demo_m0 demo_busy"
    by (rule rtranclp.rtrancl_into_rtrancl [OF demo_m1_reachable])
  then have i: "manager_inv demo_busy" by (rule session_managers.reachable_inv [OF demo_fresh])
  have g: "dget (m_sessions demo_busy) ''a'' = Some 0" by (simp add: demo_busy_def demo_m1_sessions dget_Cons)
  have l: "ot_loop (demo_ot 5)" by (simp add: demo_ot_def)
  have e: "\<not> is_expired demo_cf (demo_ot 5) (m_objs demo_busy 0)" by code_simp
  have u: "busy (m_objs demo_busy 0)" by (simp add: demo_busy_def busy_def)
  from session_in_use_survives [OF i l g e u] show ?thesis by blast
qed

text \<open>
  Giving a session up: a hand-off takes the session out of the cache and poisons its lock at
  once, before anything is awaited; it answers "released" only for an idle session, and with no
  client left the owner lock is dropped in the same step.
\<close>

theorem handoff_releases_idle:
  assumes "manager_inv m" and "release_for_handoff sid m = (Released, n)"
  shows "\<exists>r. dget (m_sessions m) sid = Some r \<and> \<not> busy (m_objs m r) \<and> \<not> s_locked (m_objs m r) \<and>
    dget (m_sessions n) sid = None \<and> s_poisoned (m_objs n r) \<and>
    (s_client (m_objs m r) = None \<longrightarrow> released r n) \<and>
    (\<forall>c. s_client (m_objs m r) = Some c \<longrightarrow> Stopping r c Handing_off \<in> set (m_tasks n) \<and> \<not> released r n)"
proof -
  have inv: "inv_but {} m" using assms(1) by (simp add: manager_inv_def)
  obtain r where g: "dget (m_sessions m) sid = Some r" and nb: "\<not> s_locked (m_objs m r)" "\<not> busy (m_objs m r)"
    and n: "n = teardown_begin r Handing_off (set_obj r (\<lambda>s. s\<lparr>s_poisoned := True\<rparr>) (drop_session sid m))"
    using assms(2) by (auto simp: release_for_handoff_def split: option.splits if_splits)
  have st: "\<not> s_starting (m_objs m r)" using nb(2) by (simp add: busy_def)
  have objs: "m_objs (cleanup_workspace q k) = m_objs k" "m_objs (remove_session_env q k) = m_objs k" for q k
    by (simp_all add: cleanup_workspace_def remove_session_env_def Let_def split: option.splits)
  have gone: "dget (m_sessions n) sid = None" unfolding n by (simp add: dget_ddel)
  have nr: "\<not> released r m" using mi_cache_key(3) [OF inv_butD(1) [OF inv] g] .
  show ?thesis
  proof (cases "s_client (m_objs m r)")
    case None
    then have "s_poisoned (m_objs n r)" "released r n"
      unfolding n using st
      by (simp_all add: teardown_begin_def Let_def cancel_idle_reader_def release_session_dirs_def objs)
    then show ?thesis using g nb gone None by (intro exI [of _ r]) simp
  next
    case (Some c)
    then have "s_poisoned (m_objs n r)" "Stopping r c Handing_off \<in> set (m_tasks n)" "\<not> released r n"
      unfolding n using nr by (simp_all add: teardown_begin_def Let_def cancel_idle_reader_def)
    then show ?thesis using g nb gone Some by (intro exI [of _ r]) simp
  qed
qed

theorem handoff_releases_idle_witness:
  "fst (release_for_handoff ''a'' demo_m1) = Released \<and> released 0 (snd (release_for_handoff ''a'' demo_m1))"
proof -
  have i: "manager_inv demo_m1" by (rule session_managers.reachable_inv [OF demo_fresh demo_m1_reachable])
  have f: "fst (release_for_handoff ''a'' demo_m1) = Released" by code_simp
  then have "release_for_handoff ''a'' demo_m1 = (Released, snd (release_for_handoff ''a'' demo_m1))"
    by (metis prod.collapse)
  from handoff_releases_idle [OF i this] obtain r where
    "dget (m_sessions demo_m1) ''a'' = Some r"
    "s_client (m_objs demo_m1 r) = None \<longrightarrow> released r (snd (release_for_handoff ''a'' demo_m1))" by (elim exE conjE) (rule that)
  then show ?thesis using f by (simp add: demo_m1_sessions dget_Cons demo_m1_parts)
qed

section \<open>Edges of the code\<close>

text \<open>
  A request that waits for a session's lock keeps the object it looked up.  If the session is
  deleted meanwhile, nothing stops the request from starting a client on it: the CLI then runs
  for a session whose dirs and owner lock are already released.
\<close>

lemma late_start_runs_unowned:
  "\<exists>m. (manager_step demo_cf)\<^sup>*\<^sup>* demo_m0 m \<and> dget (m_starts m) 0 = Some (Spawned 7) \<and> 7 \<in> m_running m \<and>
     released 0 m \<and> \<not> token_holds (m_owner m) ''a'' 0"
proof -
  define d where "d = snd (delete_session_async True ''a'' demo_m1)"
  define b where "b = begin_client_start 0 d"
  define s where "s = b\<lparr>m_starts := dput 0 (Spawned 7) (m_starts b), m_running := insert 7 (m_running b)\<rparr>"
  have st: "\<not> s_starting (m_objs demo_m1 0)" "m_log demo_m1 = []" "s_user (m_objs demo_m1 0) = None"
      "s_workspace (m_objs demo_m1 0) = None" "m_owner demo_m1 = \<lparr>ow_enabled = True, ow_held = [(''a'', [0])]\<rparr>"
    by code_simp+
  have d: "m_starts d = []" "m_running d = {}" "s_client (m_objs d q) = None" "released 0 d"
      "m_owner d = \<lparr>ow_enabled = True, ow_held = []\<rparr>" for q
    unfolding d_def
    by (simp_all add: delete_session_async_def demo_m1_sessions dget_Cons teardown_begin_def Let_def
        cancel_idle_reader_def demo_m1_parts release_session_dirs_def st cleanup_workspace_def
        remove_session_env_def ddel_Cons release_owner_def drop_session_def log_effect_def set_obj_def
        owner_release_def released_def)
  have b: "m_starts b = [(0, Creating)]" "m_running b = {}" "s_client (m_objs b q) = None" "released 0 b"
      "m_owner b = m_owner d" for q
    unfolding b_def by (simp_all add: begin_client_start_def set_obj_def d) (use d(4) in \<open>simp add: released_def\<close>)
  have "manager_step demo_cf demo_m1 d" unfolding d_def by (rule sm_delete)
  moreover have "manager_step demo_cf d b"
    unfolding b_def by (rule sm_start) (simp_all add: d)
  moreover have "manager_step demo_cf b s"
    unfolding s_def by (rule sm_spawn) (simp_all add: b client_used_def dget_Cons)
  ultimately have "(manager_step demo_cf)\<^sup>*\<^sup>* demo_m0 s"
    using demo_m1_reachable by (meson rtranclp.rtrancl_into_rtrancl)
  moreover have "dget (m_starts s) 0 = Some (Spawned 7)" "7 \<in> m_running s" "\<not> token_holds (m_owner s) ''a'' 0"
    by (simp_all add: s_def b d dget_dput token_holds_def)
  moreover have "released 0 s" using b(4) by (simp add: s_def released_def)
  ultimately show ?thesis by blast
qed

text \<open>A rehydrated session gets the dataclass default of an hour, whatever TTL is configured.\<close>

lemma rehydrated_ttl_is_60: "s_ttl (rehydrated_session sid user cwd n now) = 60"
  by (simp add: rehydrated_session_def new_session_def)

text \<open>
  Room is made before ownership is asked for: with a full cache under \<open>lru\<close> a request that this
  instance then turns away (draining) has already evicted another session.
\<close>

lemma refused_admission_evicts:
  "fst (get_or_create_session demo_cf ((demo_ot 5)\<lparr>ot_draining := True\<rparr>) ''b'' demo_m1) = Inl (Owned_draining ''b'')"
  "m_sessions (snd (get_or_create_session demo_cf ((demo_ot 5)\<lparr>ot_draining := True\<rparr>) ''b'' demo_m1)) = []"
  by code_simp+

text \<open>The synchronous delete lets go of a session without stopping its client.\<close>

lemma sync_delete_releases_with_client:
  "s_client (m_objs (snd (delete_session ''a'' demo_started)) 0) = Some 7"
  "m_log (snd (delete_session ''a'' demo_started)) = [Env_removed ''a'' 0, Owner_released ''a'' 0]"
  by code_simp+

end
