(* ===== verification/SessionGuard.thy ===== *)
theory SessionGuard
  imports SessionManager
begin

text \<open>
  The checks a request passes under its session's lock, \<open>src/src/session_guard.py\<close>.  The lock is
  free or poisoned when a function here runs (the wait for it is \<open>SessionLock\<close>'s, in the theory
  of owner locks).  The live system prompt and the placeholder substitution are arguments.
\<close>

datatype guard_error = Rerouted | Stale_turn | Future_turn | Backend_mismatch

fun guard_status :: "guard_error \<Rightarrow> nat" where
  "guard_status Rerouted = 421"
| "guard_status Stale_turn = 409"
| "guard_status Future_turn = 404"
| "guard_status Backend_mismatch = 400"

record preflight =
  pf_is_new :: bool
  pf_next_turn :: nat

record resolved_model =
  rm_backend :: string
  rm_public :: string

definition unlock_session :: "session \<Rightarrow> session" where
  "unlock_session s = s\<lparr>s_locked := False\<rparr>"

definition base_prompt :: "string \<Rightarrow> (string \<Rightarrow> string \<Rightarrow> string) \<Rightarrow> string option \<Rightarrow> string" where
  "base_prompt live resolve workspace =
     (case workspace of None \<Rightarrow> live | Some w \<Rightarrow> if w = [] then live else resolve live w)"

definition acquire_session_preflight ::
  "string \<Rightarrow> (string \<Rightarrow> string \<Rightarrow> string) \<Rightarrow> instant \<Rightarrow> resolved_model \<Rightarrow> bool option \<Rightarrow> nat option \<Rightarrow>
     json list option \<Rightarrow> string option \<Rightarrow> session \<Rightarrow> (guard_error + preflight) \<times> session" where
  "acquire_session_preflight live resolve now rm is_new turn messages workspace s =
     (if s_poisoned s then (Inl Rerouted, s)
      else
        let s = s\<lparr>s_locked := True\<rparr>;
            is_new = (case is_new of Some b \<Rightarrow> b | None \<Rightarrow> s_messages s = [])
        in if turn \<noteq> None \<and> \<not> is_new \<and> the turn < s_turns s then (Inl Stale_turn, unlock_session s)
           else if turn \<noteq> None \<and> \<not> is_new \<and> the turn > s_turns s then (Inl Future_turn, unlock_session s)
           else if \<not> is_new \<and> s_backend s \<noteq> [] \<and> s_backend s \<noteq> rm_backend rm
           then (Inl Backend_mismatch, unlock_session s)
           else
             let next_turn = s_turns s + 1;
                 s = (if is_new then s\<lparr>s_backend := rm_backend rm, s_prompt := Some (base_prompt live resolve workspace)\<rparr>
                      else s);
                 s = (case messages of None \<Rightarrow> s | Some ms \<Rightarrow> add_messages now ms s)
             in (Inr \<lparr>pf_is_new = is_new, pf_next_turn = next_turn\<rparr>, s))"

text \<open>\<open>session_preflight_scope\<close>: the body runs between the two, whatever it does to the session.\<close>

definition session_preflight_scope ::
  "string \<Rightarrow> (string \<Rightarrow> string \<Rightarrow> string) \<Rightarrow> instant \<Rightarrow> resolved_model \<Rightarrow> bool option \<Rightarrow> nat option \<Rightarrow>
     json list option \<Rightarrow> string option \<Rightarrow> (preflight \<Rightarrow> session \<Rightarrow> session) \<Rightarrow> session \<Rightarrow>
     (guard_error + preflight) \<times> session" where
  "session_preflight_scope live resolve now rm is_new turn messages workspace body s =
     (case acquire_session_preflight live resolve now rm is_new turn messages workspace s of
        (Inl e, s) \<Rightarrow> (Inl e, s)
      | (Inr pf, s) \<Rightarrow> (Inr pf, unlock_session (body pf s)))"

text \<open>
  A turn runs only as the next one: the preflight lets a request through only on a session
  that was not handed off, with the turn it continues the session's last one and its backend the
  session's, leaving the lock held; on every refusal the session is as it was, its lock free.
\<close>

theorem preflight_admits_next_turn:
  assumes "acquire_session_preflight live resolve now rm is_new turn messages workspace s = (res, s')"
    and "\<not> s_locked s"
  shows "case res of
      Inl e \<Rightarrow> s' = s \<and> (e = Rerouted \<longleftrightarrow> s_poisoned s) \<and>
        (e = Stale_turn \<longrightarrow> (\<exists>t. turn = Some t \<and> t < s_turns s)) \<and>
        (e = Future_turn \<longrightarrow> (\<exists>t. turn = Some t \<and> s_turns s < t)) \<and>
        (e = Backend_mismatch \<longrightarrow> s_backend s \<noteq> rm_backend rm)
    | Inr pf \<Rightarrow> s_locked s' \<and> \<not> s_poisoned s \<and> pf_next_turn pf = s_turns s + 1 \<and> s_turns s' = s_turns s \<and>
        (\<not> pf_is_new pf \<longrightarrow> (turn = None \<or> turn = Some (s_turns s)) \<and>
           (s_backend s = [] \<or> s_backend s = rm_backend rm) \<and> s_backend s' = s_backend s \<and> s_prompt s' = s_prompt s) \<and>
        (pf_is_new pf \<longrightarrow> s_backend s' = rm_backend rm)"
proof -
  have same: "unlock_session (s\<lparr>s_locked := True\<rparr>) = s" using assms(2) by (simp add: unlock_session_def)
  define new where "new = (case is_new of Some b \<Rightarrow> b | None \<Rightarrow> s_messages s = [])"
  have msgs: "s_locked (add_messages now ms u) = s_locked u" "s_turns (add_messages now ms u) = s_turns u"
    "s_backend (add_messages now ms u) = s_backend u" "s_prompt (add_messages now ms u) = s_prompt u" for ms u
    by (simp_all add: add_messages_def touch_def)
  show ?thesis
  proof (cases "s_poisoned s")
    case True
    then show ?thesis using assms(1) by (auto simp: acquire_session_preflight_def)
  next
    case False
    show ?thesis
    proof (cases res)
      case (Inl e)
      then show ?thesis using assms(1) False
        by (auto simp: acquire_session_preflight_def Let_def same new_def [symmetric] split: if_splits)
    next
      case (Inr pf)
      then show ?thesis using assms(1) False
        by (cases turn; cases messages)
           (auto simp: acquire_session_preflight_def Let_def new_def [symmetric] msgs split: if_splits)
    qed
  qed
qed

theorem preflight_admits_next_turn_witness:
  "fst (acquire_session_preflight ''p'' (\<lambda>p w. p) 0 \<lparr>rm_backend = ''claude'', rm_public = ''opus''\<rparr> (Some False)
     (Some 3) None None ((new_session ''s'' 60 0)\<lparr>s_turns := 4\<rparr>)) = Inl Stale_turn"
proof -
  let ?s = "(new_session ''s'' 60 0)\<lparr>s_turns := 4\<rparr>"
  let ?r = "acquire_session_preflight ''p'' (\<lambda>p w. p) 0 \<lparr>rm_backend = ''claude'', rm_public = ''opus''\<rparr> (Some False)
     (Some 3) None None ?s"
  have r: "?r = (Inl Stale_turn, ?s)"
    by (simp add: acquire_session_preflight_def new_session_def unlock_session_def)
  from preflight_admits_next_turn [OF r] have "\<exists>t. Some (3 :: nat) = Some t \<and> t < s_turns ?s"
    by (simp add: new_session_def)
  then show ?thesis using r by simp
qed

end
