(* ===== verification/SessionOutbox.thy ===== *)
theory SessionOutbox
  imports Prelude
begin

text \<open>
  Events between turns, \<open>src/src/session_outbox.py\<close>: the seq-numbered ring buffer a session's
  idle reader fills and pollers read, the registry of running tasks with its name lookups, the
  conversion of SDK messages into events, the reader's pump, the backlog sweep and the gates.
  Optional strings are Python's "string or \<open>None\<close>"; a usage dictionary is its text, empty for an
  empty one.
\<close>

section \<open>Events, tasks and the outbox\<close>

record event =
  e_type :: string
  e_task_id :: "string option"
  e_tool_use_id :: "string option"
  e_status :: "string option"
  e_description :: "string option"
  e_task_type :: "string option"
  e_subagent_type :: "string option"
  e_last_tool_name :: "string option"
  e_usage :: "string option"
  e_name :: "string option"
  e_text :: "string option"
  e_summary :: "string option"
  e_output_file :: "string option"
  e_patch :: "(string, string) dict"
  e_subtype :: "string option"
  e_is_error :: bool
  e_seq :: nat
  e_ts :: instant

definition plain_event :: "string \<Rightarrow> event" where
  "plain_event t =
     \<lparr>e_type = t, e_task_id = None, e_tool_use_id = None, e_status = None, e_description = None,
      e_task_type = None, e_subagent_type = None, e_last_tool_name = None, e_usage = None, e_name = None,
      e_text = None, e_summary = None, e_output_file = None, e_patch = [], e_subtype = None, e_is_error = False, e_seq = 0, e_ts = 0\<rparr>"

record task_entry =
  t_id :: string
  t_name :: "string option"
  t_tool_use_id :: "string option"
  t_description :: string
  t_status :: string
  t_task_type :: "string option"
  t_subagent_type :: "string option"
  t_last_tool_name :: "string option"
  t_usage :: "string option"
  t_started :: instant
  t_updated :: instant

record outbox =
  ob_max :: nat
  ob_events :: "event list"
  ob_next :: nat
  ob_tasks :: "(string, task_entry) dict"
  ob_spawn_names :: "(string, string) dict"
  ob_task_names :: "(string, string) dict"
  ob_spawn_ids :: "(string, string) dict"

definition outbox_max_events :: nat where "outbox_max_events = 500"
definition outbox_max_poll :: nat where "outbox_max_poll = 200"
definition agent_name_map_max :: nat where "agent_name_map_max = 256"
definition agent_name_max_len :: nat where "agent_name_max_len = 256"

definition terminal_statuses :: "string set" where
  "terminal_statuses = {''completed'', ''failed'', ''stopped'', ''killed''}"

definition new_outbox :: "nat \<Rightarrow> outbox" where
  "new_outbox m = \<lparr>ob_max = m, ob_events = [], ob_next = 1, ob_tasks = [], ob_spawn_names = [],
     ob_task_names = [], ob_spawn_ids = []\<rparr>"

text \<open>\<open>move_to_end\<close> and eviction from the front.\<close>

definition bounded_put :: "(string, string) dict \<Rightarrow> string \<Rightarrow> string \<Rightarrow> (string, string) dict" where
  "bounded_put d k v =
     (let d = ddel k d @ [(k, v)] in drop (length d - agent_name_map_max) d)"

definition ob_append :: "instant \<Rightarrow> event \<Rightarrow> outbox \<Rightarrow> event \<times> outbox" where
  "ob_append now e ob =
     (let e = e\<lparr>e_seq := ob_next ob, e_ts := now\<rparr>; es = ob_events ob @ [e]
      in (e, ob\<lparr>ob_next := ob_next ob + 1, ob_events := drop (length es - ob_max ob) es\<rparr>))"

definition events_after :: "nat \<Rightarrow> nat \<Rightarrow> outbox \<Rightarrow> event list" where
  "events_after after limit ob = take limit (filter (\<lambda>e. e_seq e > after) (ob_events ob))"

section \<open>The task registry\<close>

definition new_task_entry :: "instant \<Rightarrow> string \<Rightarrow> task_entry" where
  "new_task_entry now tid =
     \<lparr>t_id = tid, t_name = None, t_tool_use_id = None, t_description = [], t_status = ''running'',
      t_task_type = None, t_subagent_type = None, t_last_tool_name = None, t_usage = None,
      t_started = now, t_updated = now\<rparr>"

text \<open>Adding to what is there, entry by entry, in dictionary order.\<close>

fun label_tasks :: "string \<Rightarrow> string \<Rightarrow> (string, task_entry) dict \<Rightarrow> (string, string) dict \<Rightarrow>
    (string, task_entry) dict \<times> (string, string) dict" where
  "label_tasks tuid name [] names = ([], names)"
| "label_tasks tuid name ((k, t) # d) names =
     (let hit = t_tool_use_id t = Some tuid \<and> \<not> truthy (t_name t);
          (d', names') = label_tasks tuid name d (if hit then bounded_put names (t_id t) name else names)
      in ((k, if hit then t\<lparr>t_name := Some name\<rparr> else t) # d', names'))"

definition note_agent_spawn :: "string \<Rightarrow> string \<Rightarrow> outbox \<Rightarrow> outbox" where
  "note_agent_spawn tuid name ob =
     (let (tasks, names) = label_tasks tuid name (ob_tasks ob) (ob_task_names ob)
      in ob\<lparr>ob_spawn_names := bounded_put (ob_spawn_names ob) tuid name, ob_tasks := tasks,
            ob_task_names := names\<rparr>)"

definition agent_name_for :: "string option \<Rightarrow> string option \<Rightarrow> outbox \<Rightarrow> string option" where
  "agent_name_for task_id tuid ob =
     (let n = (if truthy tuid then dget (ob_spawn_names ob) (the tuid) else None)
      in if n = None \<and> truthy task_id then dget (ob_task_names ob) (the task_id) else n)"

text \<open>The updates an event makes to its task's entry, given the spawn id and name found for it.\<close>

definition fold_entry :: "instant \<Rightarrow> event \<Rightarrow> string option \<Rightarrow> string option \<Rightarrow> task_entry \<Rightarrow> task_entry" where
  "fold_entry now e spawn name t =
     (let t = t\<lparr>t_updated := now\<rparr>;
          t = (if truthy spawn then t\<lparr>t_tool_use_id := spawn\<rparr> else t);
          t = (if truthy name then t\<lparr>t_name := name\<rparr> else t);
          t = (if truthy (e_description e) then t\<lparr>t_description := the (e_description e)\<rparr> else t);
          t = (if e_type e = ''task_started'' \<and> truthy (e_task_type e) then t\<lparr>t_task_type := e_task_type e\<rparr> else t);
          t = (if e_type e = ''task_started'' \<and> truthy (e_subagent_type e)
               then t\<lparr>t_subagent_type := e_subagent_type e\<rparr> else t);
          t = (if truthy (e_last_tool_name e) then t\<lparr>t_last_tool_name := e_last_tool_name e\<rparr> else t);
          t = (if truthy (e_usage e) then t\<lparr>t_usage := e_usage e\<rparr> else t)
      in if e_type e = ''task_updated'' \<and> truthy (e_status e) then t\<lparr>t_status := the (e_status e)\<rparr> else t)"

definition is_terminal :: "event \<Rightarrow> bool" where
  "is_terminal e \<longleftrightarrow> (case e_status e of None \<Rightarrow> False | Some s \<Rightarrow> s \<in> terminal_statuses)"

definition apply_task_event :: "instant \<Rightarrow> event \<Rightarrow> outbox \<Rightarrow> outbox" where
  "apply_task_event now e ob =
     (if \<not> truthy (e_task_id e) then ob
      else
        let tid = the (e_task_id e)
        in if is_terminal e then ob\<lparr>ob_tasks := ddel tid (ob_tasks ob)\<rparr>
           else
             let entry = (case dget (ob_tasks ob) tid of None \<Rightarrow> new_task_entry now tid | Some t \<Rightarrow> t);
                 known = dget (ob_spawn_ids ob) tid;
                 fresh = (known = None \<and> truthy (e_tool_use_id e));
                 spawn = (if fresh then e_tool_use_id e else known);
                 ids = (if fresh then bounded_put (ob_spawn_ids ob) tid (the (e_tool_use_id e)) else ob_spawn_ids ob);
                 name = agent_name_for (Some tid) (e_tool_use_id e) ob;
                 names = (if truthy name then bounded_put (ob_task_names ob) tid (the name) else ob_task_names ob)
             in ob\<lparr>ob_tasks := dput tid (fold_entry now e spawn name entry) (ob_tasks ob),
                   ob_spawn_ids := ids, ob_task_names := names\<rparr>)"

definition snapshot_active_tasks :: "outbox \<Rightarrow> task_entry list" where
  "snapshot_active_tasks ob = dvals (ob_tasks ob)"

definition clear_active_tasks :: "outbox \<Rightarrow> nat \<times> outbox" where
  "clear_active_tasks ob = (length (ob_tasks ob), ob\<lparr>ob_tasks := []\<rparr>)"

definition reset_active_tasks :: "outbox option \<Rightarrow> outbox option" where
  "reset_active_tasks = map_option (\<lambda>ob. snd (clear_active_tasks ob))"

definition get_outbox :: "outbox option \<Rightarrow> outbox" where
  "get_outbox o1 = (case o1 of None \<Rightarrow> new_outbox outbox_max_events | Some ob \<Rightarrow> ob)"

section \<open>SDK messages\<close>

text \<open>
  Fields the code reads from the message or, failing that, from the raw payload the SDK keeps.
  An assistant message carries its parent call, its text blocks and its tool calls.
\<close>

datatype block = Text_block string | Tool_call string "string option" "string option" | Other_block

datatype message =
    Task_started "string option" "string option" "string option" "string option" "string option"
      "string option" "string option" "string option"
  | Task_progress "string option" "string option" "string option" "string option" "string option" "string option"
  | Task_notification "string option" "string option" "string option" "string option" "string option"
      "string option" "string option"
  | Task_updated "string option" "string option" "string option" "(string, string) dict option"
  | Assistant_message "string option" "block list"
  | Result_message "string option" bool
  | Other_message

definition or_else :: "string option \<Rightarrow> string option \<Rightarrow> string option" where
  "or_else a b = (if truthy a then a else b)"

text \<open>\<open>_message_tool_use_id\<close> from the attribute and the raw payload.\<close>

definition tool_use_id_of :: "string option \<Rightarrow> string option \<Rightarrow> string option" where
  "tool_use_id_of attr raw = (let t = or_else attr raw in if truthy t then t else None)"

fun block_texts :: "block list \<Rightarrow> string list" where
  "block_texts [] = []"
| "block_texts (Text_block t # bs) = (if t = [] then block_texts bs else t # block_texts bs)"
| "block_texts (b # bs) = block_texts bs"

fun message_to_event :: "message \<Rightarrow> event option" where
  "message_to_event (Task_started tid attr raw desc tt raw_tt st raw_st) =
     Some ((plain_event ''task_started'')\<lparr>e_task_id := tid, e_tool_use_id := tool_use_id_of attr raw,
       e_description := desc, e_task_type := or_else tt raw_tt, e_subagent_type := or_else st raw_st\<rparr>)"
| "message_to_event (Task_progress tid attr raw desc tool usage) =
     Some ((plain_event ''task_progress'')\<lparr>e_task_id := tid, e_tool_use_id := tool_use_id_of attr raw,
       e_description := desc, e_last_tool_name := tool, e_usage := (if truthy usage then usage else None)\<rparr>)"
| "message_to_event (Task_notification tid attr raw st summary output usage) =
     Some ((plain_event ''task_notification'')\<lparr>e_task_id := tid, e_tool_use_id := tool_use_id_of attr raw,
       e_status := st, e_summary := summary, e_output_file := output,
       e_usage := (if truthy usage then usage else None)\<rparr>)"
| "message_to_event (Task_updated tid raw st patch) =
     (let p = (case patch of None \<Rightarrow> [] | Some p \<Rightarrow> p)
      in Some ((plain_event ''task_updated'')\<lparr>e_task_id := tid, e_tool_use_id := tool_use_id_of None raw,
           e_status := or_else st (dget p ''status''), e_patch := p\<rparr>))"
| "message_to_event (Assistant_message parent blocks) =
     (if parent \<noteq> None \<or> block_texts blocks = [] then None
      else Some ((plain_event ''assistant_message'')\<lparr>e_text := Some (concat (block_texts blocks))\<rparr>))"
| "message_to_event (Result_message subtype err) =
     Some ((plain_event ''turn_result'')\<lparr>e_subtype := subtype, e_is_error := err\<rparr>)"
| "message_to_event Other_message = None"

text \<open>\<open>_agent_spawns\<close>: the named Agent and Task calls of a message; \<open>SUBAGENT_TOOL_NAMES\<close>.\<close>

definition subagent_tool_names :: "string set" where
  "subagent_tool_names = {''Agent'', ''Task''}"

fun agent_spawns :: "block list \<Rightarrow> (string \<times> string) list" where
  "agent_spawns [] = []"
| "agent_spawns (Tool_call tool bid name # bs) =
     (if tool \<in> subagent_tool_names \<and> truthy bid \<and> truthy name \<and> length (the name) \<le> agent_name_max_len
      then (the bid, the name) # agent_spawns bs else agent_spawns bs)"
| "agent_spawns (b # bs) = agent_spawns bs"

definition note_agent_spawns :: "block list \<Rightarrow> outbox \<Rightarrow> outbox" where
  "note_agent_spawns bs ob = fold (\<lambda>(i, n) ob. note_agent_spawn i n ob) (agent_spawns bs) ob"

fun message_blocks :: "message \<Rightarrow> block list" where
  "message_blocks (Assistant_message parent bs) = bs"
| "message_blocks _ = []"

text \<open>\<open>_handle_idle_message\<close>; \<open>redact\<close> is the output redactor.\<close>

definition handle_idle_message :: "(event \<Rightarrow> event) \<Rightarrow> instant \<Rightarrow> message \<Rightarrow> outbox \<Rightarrow> outbox" where
  "handle_idle_message redact now msg ob =
     (let ob = note_agent_spawns (message_blocks msg) ob
      in case message_to_event msg of
           None \<Rightarrow> ob
         | Some e \<Rightarrow>
             (let e = redact e;
                  e = (if e_type e = ''task_started''
                       then e\<lparr>e_name := agent_name_for (e_task_id e) (e_tool_use_id e) ob\<rparr> else e);
                  (stamped, ob) = ob_append now e ob
              in if take 5 (e_type stamped) = ''task_'' then apply_task_event now stamped ob else ob))"

text \<open>
  \<open>apply_turn_task_chunk\<close>: a chunk of a turn, as a raw dictionary with its nested payload; the
  registry alone is touched.
\<close>

datatype chunk =
    Task_chunk event "string option" "string option" "string option" "string option"
  | Assistant_chunk "block list"
  | Plain_chunk

definition chunk_event :: "event \<Rightarrow> string option \<Rightarrow> string option \<Rightarrow> string option \<Rightarrow> string option \<Rightarrow> event" where
  "chunk_event e raw_tt raw_st raw_tuid patch_status =
     (let e = e\<lparr>e_task_type := or_else (e_task_type e) (if truthy raw_tt then raw_tt else e_task_type e),
                e_subagent_type := or_else (e_subagent_type e) (if truthy raw_st then raw_st else e_subagent_type e),
                e_tool_use_id := or_else (e_tool_use_id e) (if truthy raw_tuid then raw_tuid else e_tool_use_id e)\<rparr>
      in if e_type e = ''task_updated'' \<and> \<not> truthy (e_status e) \<and> truthy patch_status
         then e\<lparr>e_status := patch_status\<rparr> else e)"

fun apply_turn_task_chunk :: "instant \<Rightarrow> chunk \<Rightarrow> outbox \<Rightarrow> outbox" where
  "apply_turn_task_chunk now (Task_chunk e raw_tt raw_st raw_tuid patch_status) ob =
     (if \<not> truthy (e_task_id e) then ob
      else apply_task_event now (chunk_event e raw_tt raw_st raw_tuid patch_status) ob)"
| "apply_turn_task_chunk now (Assistant_chunk bs) ob = note_agent_spawns bs ob"
| "apply_turn_task_chunk now Plain_chunk ob = ob"

section \<open>The pump, the sweep and the gates\<close>

text \<open>
  What the pump's wait comes back with: a message (with the stop event set or not), the end of
  the stream, a failure (of the parse layer or of the transport), or the stop event, with what
  the grace window still brought.
\<close>

datatype pump_input =
    Got message bool | Stream_end | Failed bool | Stop_wait "message option"

fun idle_pump :: "(event \<Rightarrow> event) \<Rightarrow> (pump_input \<times> instant) list \<Rightarrow> outbox \<Rightarrow> outbox" where
  "idle_pump redact [] ob = ob"
| "idle_pump redact ((i, now) # is) ob =
     (case i of
        Got m stop \<Rightarrow>
          (let ob = handle_idle_message redact now m ob in if stop then ob else idle_pump redact is ob)
      | Stream_end \<Rightarrow> snd (clear_active_tasks ob)
      | Failed parse \<Rightarrow>
          (let ob = snd (ob_append now (plain_event ''reader_error'') ob)
           in if parse then ob else snd (clear_active_tasks ob))
      | Stop_wait mo \<Rightarrow> (case mo of None \<Rightarrow> ob | Some m \<Rightarrow> handle_idle_message redact now m ob))"

text \<open>
  \<open>drain_backlog_to_outbox\<close>: reads until the stream is quiet (\<open>None\<close>), ends, fails, or the cap
  is reached.
\<close>

datatype read_result = Read message | Read_end | Read_failed

fun drain_backlog :: "nat \<Rightarrow> (event \<Rightarrow> event) \<Rightarrow> (read_result \<times> instant) list \<Rightarrow> outbox \<Rightarrow> nat \<times> outbox" where
  "drain_backlog 0 redact rs ob = (0, ob)"
| "drain_backlog (Suc n) redact [] ob = (0, ob)"
| "drain_backlog (Suc n) redact ((r, now) # rs) ob =
     (case r of
        Read m \<Rightarrow> (let (k, ob) = drain_backlog n redact rs (handle_idle_message redact now m ob) in (Suc k, ob))
      | Read_end \<Rightarrow> (0, ob)
      | Read_failed \<Rightarrow> (0, ob))"

record reader_gate =
  rg_client :: bool
  rg_active :: bool
  rg_pending :: bool
  rg_locked :: bool
  rg_running :: bool
  rg_loop :: bool

definition resume_idle_reader :: "reader_gate \<Rightarrow> bool \<times> reader_gate" where
  "resume_idle_reader g =
     (if \<not> rg_client g \<or> rg_active g \<or> rg_pending g then (False, g)
      else if rg_running g then (True, g)
      else if \<not> rg_loop g then (False, g)
      else (True, g\<lparr>rg_running := True\<rparr>))"

definition resume_between_turns :: "reader_gate \<Rightarrow> bool \<times> reader_gate" where
  "resume_between_turns g = (if rg_locked g then (False, g) else resume_idle_reader g)"

definition pause_idle_reader :: "reader_gate \<Rightarrow> reader_gate" where
  "pause_idle_reader g = g\<lparr>rg_running := False\<rparr>"

text \<open>\<open>GET /v1/sessions/{id}/pending-events\<close>: a page and the cursor to poll with next.\<close>

definition poll :: "nat \<Rightarrow> outbox \<Rightarrow> event list \<times> nat" where
  "poll after ob =
     (let es = events_after after outbox_max_poll ob
      in (es, if es \<noteq> [] then e_seq (last es) else min after (ob_next ob - 1)))"

section \<open>Laws\<close>

definition ring_ok :: "outbox \<Rightarrow> bool" where
  "ring_ok ob \<longleftrightarrow> 1 \<le> ob_next ob \<and> length (ob_events ob) = min (ob_max ob) (ob_next ob - 1) \<and>
     map e_seq (ob_events ob) = [ob_next ob - length (ob_events ob) ..< ob_next ob]"

definition maps_ok :: "outbox \<Rightarrow> bool" where
  "maps_ok ob \<longleftrightarrow> (\<forall>d \<in> {ob_spawn_names ob, ob_task_names ob, ob_spawn_ids ob}.
     dwf d \<and> length d \<le> agent_name_map_max)"

definition tasks_ok :: "outbox \<Rightarrow> bool" where
  "tasks_ok ob \<longleftrightarrow> dwf (ob_tasks ob) \<and>
     (\<forall>(k, t) \<in> set (ob_tasks ob). t_id t = k \<and> t_status t \<notin> terminal_statuses)"

definition outbox_inv :: "outbox \<Rightarrow> bool" where
  "outbox_inv ob \<longleftrightarrow> ring_ok ob \<and> maps_ok ob \<and> tasks_ok ob"

lemma upt_Suc_drop: "a \<le> b \<Longrightarrow> drop n [a ..< b] = [a + n ..< b]"
  by (simp add: drop_upt)

lemma ring_append:
  assumes "ring_ok ob"
  shows "ring_ok (snd (ob_append now e ob))"
proof -
  let ?es = "ob_events ob" and ?n = "ob_next ob" and ?m = "ob_max ob"
  let ?k = "length ?es + 1 - ?m"
  have len: "length ?es = min ?m (?n - 1)" and n1: "1 \<le> ?n" and seqs: "map e_seq ?es = [?n - length ?es ..< ?n]"
    using assms by (simp_all add: ring_ok_def)
  have all: "map e_seq (?es @ [e\<lparr>e_seq := ?n, e_ts := now\<rparr>]) = [?n - length ?es ..< Suc ?n]"
    using seqs len by (simp add: upt_Suc_append)
  have "map e_seq (drop ?k (?es @ [e\<lparr>e_seq := ?n, e_ts := now\<rparr>])) = [?n - length ?es + ?k ..< Suc ?n]"
    by (simp only: drop_map [symmetric] all) (simp add: drop_upt)
  moreover have "?n - length ?es + ?k = Suc ?n - min ?m ?n" using len n1 by arith
  ultimately have sq: "map e_seq (drop ?k (?es @ [e\<lparr>e_seq := ?n, e_ts := now\<rparr>])) = [Suc ?n - min ?m ?n ..< Suc ?n]"
    by simp
  define es where "es = drop ?k (?es @ [e\<lparr>e_seq := ?n, e_ts := now\<rparr>])"
  have "length es = Suc ?n - (Suc ?n - min ?m ?n)"
    unfolding es_def by (metis length_map length_upt sq)
  then have ln: "length es = min ?m ?n" by arith
  have "ob_events (snd (ob_append now e ob)) = es" "ob_next (snd (ob_append now e ob)) = Suc ?n"
    "ob_max (snd (ob_append now e ob)) = ?m"
    by (simp_all add: ob_append_def Let_def es_def)
  moreover have "map e_seq es = [Suc ?n - length es ..< Suc ?n]" unfolding ln by (simp only: es_def sq)
  moreover have "length es = min ?m (Suc ?n - 1)" using ln by simp
  ultimately show ?thesis unfolding ring_ok_def by (metis le_add1 plus_1_eq_Suc)
qed

lemma bounded_put_laws:
  assumes "dwf d"
  shows "dwf (bounded_put d k v)" and "length (bounded_put d k v) \<le> agent_name_map_max"
proof -
  have "dwf (ddel k d @ [(k, v)])"
    using dwf_ddel [OF assms, of k] dkeys_ddel [of k d] by (simp add: dwf_def)
  then show "dwf (bounded_put d k v)"
    unfolding bounded_put_def Let_def dwf_def drop_map [symmetric] by (rule distinct_drop)
  show "length (bounded_put d k v) \<le> agent_name_map_max"
    by (simp add: bounded_put_def Let_def)
qed

lemma label_tasks_laws:
  "dwf names \<Longrightarrow> length names \<le> agent_name_map_max \<Longrightarrow> label_tasks tuid name d names = (d', names') \<Longrightarrow>
     dwf names' \<and> length names' \<le> agent_name_map_max \<and> dkeys d' = dkeys d \<and>
     map (\<lambda>(k, t). (k, t_id t, t_status t)) d' = map (\<lambda>(k, t). (k, t_id t, t_status t)) d"
proof (induction tuid name d names arbitrary: d' names' rule: label_tasks.induct)
  case (2 tuid name k t d names)
  define hit where "hit \<longleftrightarrow> t_tool_use_id t = Some tuid \<and> \<not> truthy (t_name t)"
  define nm where "nm = (if hit then bounded_put names (t_id t) name else names)"
  have nm: "dwf nm" "length nm \<le> agent_name_map_max"
    using "2.prems" bounded_put_laws by (simp_all add: nm_def)
  obtain d1 n1 where r: "label_tasks tuid name d nm = (d1, n1)" by fastforce
  have d': "d' = (k, if hit then t\<lparr>t_name := Some name\<rparr> else t) # d1" "names' = n1"
    using "2.prems"(3) r by (simp_all add: Let_def hit_def nm_def)
  have "dwf n1 \<and> length n1 \<le> agent_name_map_max \<and> dkeys d1 = dkeys d \<and>
     map (\<lambda>(k, t). (k, t_id t, t_status t)) d1 = map (\<lambda>(k, t). (k, t_id t, t_status t)) d"
    using "2.IH" [OF refl, of d1 n1] nm r by (simp add: hit_def nm_def)
  then show ?case by (simp add: d')
qed simp

lemma note_agent_spawn_laws:
  assumes "outbox_inv ob"
  shows "outbox_inv (note_agent_spawn tuid name ob)" and "dkeys (ob_tasks (note_agent_spawn tuid name ob)) = dkeys (ob_tasks ob)"
    and "ob_events (note_agent_spawn tuid name ob) = ob_events ob" "ob_next (note_agent_spawn tuid name ob) = ob_next ob"
proof -
  obtain d' n' where r: "label_tasks tuid name (ob_tasks ob) (ob_task_names ob) = (d', n')" by fastforce
  have m: "dwf (ob_task_names ob)" "length (ob_task_names ob) \<le> agent_name_map_max" "dwf (ob_spawn_names ob)"
    "maps_ok ob"
    using assms by (simp_all add: outbox_inv_def maps_ok_def)
  note L = label_tasks_laws [OF m(1,2) r]
  have eq: "note_agent_spawn tuid name ob = ob\<lparr>ob_spawn_names := bounded_put (ob_spawn_names ob) tuid name,
      ob_tasks := d', ob_task_names := n'\<rparr>"
    by (simp add: note_agent_spawn_def r)
  have ring: "ring_ok ob" and tok: "tasks_ok ob" using assms by (simp_all add: outbox_inv_def)
  have "(\<forall>(k, t) \<in> set d'. t_id t = k \<and> t_status t \<notin> terminal_statuses) \<longleftrightarrow>
        (\<forall>(k, i, s) \<in> set (map (\<lambda>(k, t). (k, t_id t, t_status t)) d'). i = k \<and> s \<notin> terminal_statuses)"
    by auto
  also have "\<dots>" using L tok unfolding tasks_ok_def by (auto simp: split_beta)
  finally have "\<forall>(k, t) \<in> set d'. t_id t = k \<and> t_status t \<notin> terminal_statuses" .
  then show "outbox_inv (note_agent_spawn tuid name ob)"
    using L ring tok m bounded_put_laws [OF m(3)]
    unfolding eq outbox_inv_def ring_ok_def maps_ok_def tasks_ok_def dwf_def by simp
  show "dkeys (ob_tasks (note_agent_spawn tuid name ob)) = dkeys (ob_tasks ob)" using L by (simp add: eq)
  show "ob_events (note_agent_spawn tuid name ob) = ob_events ob" "ob_next (note_agent_spawn tuid name ob) = ob_next ob"
    by (simp_all add: eq)
qed

lemma note_agent_spawns_laws:
  assumes "outbox_inv ob"
  shows "outbox_inv (note_agent_spawns bs ob)" and "dkeys (ob_tasks (note_agent_spawns bs ob)) = dkeys (ob_tasks ob)"
    and "ob_events (note_agent_spawns bs ob) = ob_events ob" "ob_next (note_agent_spawns bs ob) = ob_next ob"
proof -
  have "outbox_inv (fold (\<lambda>(i, n) ob. note_agent_spawn i n ob) xs ob) \<and>
      dkeys (ob_tasks (fold (\<lambda>(i, n) ob. note_agent_spawn i n ob) xs ob)) = dkeys (ob_tasks ob) \<and>
      ob_events (fold (\<lambda>(i, n) ob. note_agent_spawn i n ob) xs ob) = ob_events ob \<and>
      ob_next (fold (\<lambda>(i, n) ob. note_agent_spawn i n ob) xs ob) = ob_next ob" for xs
    using assms
  proof (induction xs arbitrary: ob)
    case (Cons x xs)
    obtain i n where x: "x = (i, n)" by fastforce
    from Cons.IH [OF note_agent_spawn_laws(1) [OF Cons.prems, of i n]] note_agent_spawn_laws [OF Cons.prems, of i n]
    show ?case by (simp add: x)
  qed simp
  then show "outbox_inv (note_agent_spawns bs ob)" "dkeys (ob_tasks (note_agent_spawns bs ob)) = dkeys (ob_tasks ob)"
    "ob_events (note_agent_spawns bs ob) = ob_events ob" "ob_next (note_agent_spawns bs ob) = ob_next ob"
    by (simp_all add: note_agent_spawns_def)
qed

lemma fold_entry_id: "t_id (fold_entry now e spawn name t) = t_id t"
  by (simp add: fold_entry_def Let_def)

lemma fold_entry_status:
  "t_status t \<notin> terminal_statuses \<Longrightarrow> \<not> is_terminal e \<Longrightarrow> t_status (fold_entry now e spawn name t) \<notin> terminal_statuses"
  by (auto simp: fold_entry_def Let_def is_terminal_def elim!: truthyE)

lemma apply_task_event_inv:
  assumes inv: "outbox_inv ob"
  shows "outbox_inv (apply_task_event now e ob)"
proof -
  have tok: "tasks_ok ob" and mok: "maps_ok ob" and ring: "ring_ok ob" using inv by (simp_all add: outbox_inv_def)
  show ?thesis
  proof (cases "truthy (e_task_id e)")
    case False
    then show ?thesis using inv by (simp add: apply_task_event_def)
  next
    case True
    let ?tid = "the (e_task_id e)"
    show ?thesis
    proof (cases "is_terminal e")
      case True
      have "tasks_ok (ob\<lparr>ob_tasks := ddel ?tid (ob_tasks ob)\<rparr>)"
        using tok by (auto simp: tasks_ok_def dwf_ddel set_ddel)
      then show ?thesis using True \<open>truthy (e_task_id e)\<close> mok ring
        by (simp add: apply_task_event_def Let_def outbox_inv_def ring_ok_def maps_ok_def)
    next
      case False
      define entry where "entry = (case dget (ob_tasks ob) ?tid of None \<Rightarrow> new_task_entry now ?tid | Some t \<Rightarrow> t)"
      have entry: "t_id entry = ?tid" "t_status entry \<notin> terminal_statuses"
        using tok dget_SomeD [of "ob_tasks ob" ?tid]
        by (auto simp: entry_def tasks_ok_def new_task_entry_def terminal_statuses_def split: option.splits)
      have put: "tasks_ok (ob\<lparr>ob_tasks := dput ?tid (fold_entry now e sp nm entry) (ob_tasks ob)\<rparr>)" for sp nm
        using tok set_dput_subset [of ?tid "fold_entry now e sp nm entry" "ob_tasks ob"]
          fold_entry_status [OF entry(2) False, of now sp nm] entry(1)
        unfolding tasks_ok_def by (auto simp: dwf_dput fold_entry_id)
      have b: "dwf (ob_spawn_ids ob)" "dwf (ob_task_names ob)" using mok by (simp_all add: maps_ok_def)
      define fresh where "fresh \<longleftrightarrow> dget (ob_spawn_ids ob) ?tid = None \<and> truthy (e_tool_use_id e)"
      define sp where "sp = (if fresh then e_tool_use_id e else dget (ob_spawn_ids ob) ?tid)"
      define i where "i = (if fresh then bounded_put (ob_spawn_ids ob) ?tid (the (e_tool_use_id e)) else ob_spawn_ids ob)"
      define nm where "nm = agent_name_for (Some ?tid) (e_tool_use_id e) ob"
      define n where "n = (if truthy nm then bounded_put (ob_task_names ob) ?tid (the nm) else ob_task_names ob)"
      have eq: "apply_task_event now e ob = (ob\<lparr>ob_tasks := dput ?tid (fold_entry now e sp nm entry) (ob_tasks ob),
              ob_spawn_ids := i, ob_task_names := n\<rparr>)"
        using True False unfolding apply_task_event_def fresh_def sp_def i_def nm_def n_def entry_def
        by (simp only: Let_def if_False not_True_eq_False)
      have "dwf i \<and> length i \<le> agent_name_map_max" "dwf n \<and> length n \<le> agent_name_map_max"
        using mok bounded_put_laws [OF b(1)] bounded_put_laws [OF b(2)] unfolding maps_ok_def i_def n_def by auto
      then show ?thesis unfolding eq
        using put [of sp nm] mok ring by (simp add: outbox_inv_def ring_ok_def maps_ok_def tasks_ok_def)
    qed
  qed
qed

lemma apply_task_event_keys:
  "set (dkeys (ob_tasks (apply_task_event now e ob))) =
     (if \<not> truthy (e_task_id e) then set (dkeys (ob_tasks ob))
      else if is_terminal e then set (dkeys (ob_tasks ob)) - {the (e_task_id e)}
      else insert (the (e_task_id e)) (set (dkeys (ob_tasks ob))))"
proof -
  have "set (dkeys (dput k v d)) = insert k (set (dkeys d))" for k v and d :: "(string, task_entry) dict"
    by (simp only: dkeys_dput) auto
  then show ?thesis using dkeys_ddel [of "the (e_task_id e)" "ob_tasks ob"]
    by (simp add: apply_task_event_def Let_def)
qed

lemma append_inv: "outbox_inv ob \<Longrightarrow> outbox_inv (snd (ob_append now e ob))"
  using ring_append [of ob now e]
  by (simp add: outbox_inv_def maps_ok_def tasks_ok_def ob_append_def Let_def)

lemma clear_inv: "outbox_inv ob \<Longrightarrow> outbox_inv (snd (clear_active_tasks ob))"
  by (simp add: outbox_inv_def maps_ok_def tasks_ok_def ring_ok_def clear_active_tasks_def)

lemma handle_inv:
  assumes "outbox_inv ob"
  shows "outbox_inv (handle_idle_message redact now msg ob)"
  using note_agent_spawns_laws(1) [OF assms, of "message_blocks msg"]
    append_inv apply_task_event_inv
  by (auto simp: handle_idle_message_def Let_def split_beta split: option.splits)

lemma chunk_inv: "outbox_inv ob \<Longrightarrow> outbox_inv (apply_turn_task_chunk now c ob)"
  by (cases c) (simp_all add: apply_task_event_inv note_agent_spawns_laws Let_def)

inductive outbox_step :: "(event \<Rightarrow> event) \<Rightarrow> outbox \<Rightarrow> outbox \<Rightarrow> bool" for redact where
  os_message: "outbox_step redact ob (handle_idle_message redact now msg ob)"
| os_chunk: "outbox_step redact ob (apply_turn_task_chunk now c ob)"
| os_error: "outbox_step redact ob (snd (ob_append now (plain_event ''reader_error'') ob))"
| os_clear: "outbox_step redact ob (snd (clear_active_tasks ob))"

interpretation outboxes: machine "\<lambda>ob. \<exists>n. ob = new_outbox n" "outbox_step redact" outbox_inv
proof unfold_locales
  show "outbox_inv ob" if "\<exists>n. ob = new_outbox n" for ob
    using that by (auto simp: outbox_inv_def ring_ok_def maps_ok_def tasks_ok_def new_outbox_def)
  show "outbox_inv ob'" if "outbox_inv ob" "outbox_step redact ob ob'" for ob ob'
    using that(2,1) by cases (simp_all add: handle_inv chunk_inv append_inv clear_inv)
qed

text \<open>The pump and the sweep are runs of these steps.\<close>

lemma pump_is_run: "(outbox_step redact)\<^sup>*\<^sup>* ob (idle_pump redact is ob)"
proof (induction redact "is" ob rule: idle_pump.induct)
  case (2 redact i now is' ob)
  show ?case
  proof (cases i)
    case (Got m stop)
    have s: "outbox_step redact ob (handle_idle_message redact now m ob)" by (rule os_message)
    show ?thesis
    proof (cases stop)
      case True
      then show ?thesis using Got s by (simp add: Let_def r_into_rtranclp)
    next
      case False
      then have "(outbox_step redact)\<^sup>*\<^sup>* (handle_idle_message redact now m ob)
          (idle_pump redact is' (handle_idle_message redact now m ob))"
        using "2.IH" [OF Got refl] by simp
      then show ?thesis using Got s False by (simp add: Let_def converse_rtranclp_into_rtranclp)
    qed
  next
    case Stream_end
    then show ?thesis by (simp add: os_clear r_into_rtranclp)
  next
    case (Failed parse)
    have a: "outbox_step redact ob (snd (ob_append now (plain_event ''reader_error'') ob))" by (rule os_error)
    moreover have "outbox_step redact x (snd (clear_active_tasks x))" for x by (rule os_clear)
    ultimately show ?thesis using Failed
      by (cases parse) (auto simp: Let_def intro: r_into_rtranclp converse_rtranclp_into_rtranclp)
  next
    case (Stop_wait mo)
    then show ?thesis by (cases mo) (auto intro: os_message)
  qed
qed simp

lemma drain_is_run: "(outbox_step redact)\<^sup>*\<^sup>* ob (snd (drain_backlog n redact rs ob)) \<and> fst (drain_backlog n redact rs ob) \<le> n"
proof (induction n redact rs ob rule: drain_backlog.induct)
  case (3 n redact r now rs ob)
  show ?case
  proof (cases r)
    case (Read m)
    have "outbox_step redact ob (handle_idle_message redact now m ob)" by (rule os_message)
    then show ?thesis using "3.IH" [OF Read] Read
      by (auto simp: Let_def split_beta intro: converse_rtranclp_into_rtranclp)
  qed simp_all
qed simp_all

section \<open>Properties\<close>

text \<open>
  The ring is contiguous: after any sequence of captured messages, turn chunks, stream
  errors and registry resets, the buffered events carry consecutive sequence numbers ending just
  below the next one, and they are the newest ones, at most the buffer's size.
\<close>

theorem outbox_contiguous:
  assumes "(outbox_step redact)\<^sup>*\<^sup>* (new_outbox n) ob"
  shows "map e_seq (ob_events ob) = [ob_next ob - length (ob_events ob) ..< ob_next ob] \<and>
    length (ob_events ob) = min (ob_max ob) (ob_next ob - 1)"
proof -
  have "outbox_inv ob" using outboxes.reachable_inv [OF _ assms] by blast
  then show ?thesis by (simp add: outbox_inv_def ring_ok_def)
qed

definition demo_outbox :: outbox where
  "demo_outbox = handle_idle_message id 7 (Assistant_message None [Text_block ''two''])
     (handle_idle_message id 5 (Assistant_message None [Text_block ''one'']) (new_outbox 1))"

lemma demo_outbox_reachable: "(outbox_step id)\<^sup>*\<^sup>* (new_outbox 1) demo_outbox"
  unfolding demo_outbox_def by (meson os_message r_into_rtranclp rtranclp.rtrancl_into_rtrancl)

theorem outbox_contiguous_witness: "map e_seq (ob_events demo_outbox) = [2] \<and> ob_next demo_outbox = 3"
proof -
  have n: "ob_next demo_outbox = 3" "length (ob_events demo_outbox) = 1" by code_simp+
  from outbox_contiguous [OF demo_outbox_reachable] have "map e_seq (ob_events demo_outbox) = [2 ..< 3]"
    by (simp add: n)
  then show ?thesis using n by (simp add: upt_rec)
qed

text \<open>A poller following its cursor, page by page, until a page is empty.\<close>

fun poll_pages :: "nat \<Rightarrow> nat \<Rightarrow> outbox \<Rightarrow> event list" where
  "poll_pages 0 after ob = []"
| "poll_pages (Suc n) after ob =
     (let (es, next) = poll after ob in if es = [] then [] else es @ poll_pages n next ob)"

lemma filter_seq_upt:
  "map e_seq es = [a ..< b] \<Longrightarrow> filter (\<lambda>e. e_seq e > c) es = drop (c + 1 - a) es"
proof (induction es arbitrary: a)
  case (Cons e es)
  then have "a < b" by (metis list.discI list.simps(9) not_le upt_conv_Nil)
  then have e: "e_seq e = a" "map e_seq es = [Suc a ..< b]" using Cons.prems by (simp_all add: upt_conv_Cons)
  have rec: "filter (\<lambda>e. e_seq e > c) es = drop (c + 1 - Suc a) es" using Cons.IH [OF e(2)] .
  show ?case
  proof (cases "c < a")
    case True
    then show ?thesis using rec e by simp
  next
    case False
    then have "c + 1 - a = Suc (c + 1 - Suc a)" by arith
    then show ?thesis using rec e False by simp
  qed
qed simp

lemma events_after_seqs:
  assumes "ring_ok ob"
  shows "map e_seq (events_after c limit ob) =
     take limit [max (c + 1) (ob_next ob - length (ob_events ob)) ..< ob_next ob]"
proof -
  let ?a = "ob_next ob - length (ob_events ob)"
  have sq: "map e_seq (ob_events ob) = [?a ..< ob_next ob]" using assms by (simp add: ring_ok_def)
  have "map e_seq (events_after c limit ob) = take limit (drop (c + 1 - ?a) [?a ..< ob_next ob])"
    unfolding events_after_def filter_seq_upt [OF sq] by (simp only: take_map [symmetric] drop_map [symmetric] sq)
  moreover have "?a + (c + 1 - ?a) = max (c + 1) ?a" by arith
  ultimately show ?thesis by (simp add: drop_upt)
qed

text \<open>Polling with the returned cursor until a page is empty brings every buffered event once.\<close>

lemma later_events:
  "sorted_wrt (<) (map e_seq es) \<Longrightarrow> take m es \<noteq> [] \<Longrightarrow>
     filter (\<lambda>e. e_seq e > e_seq (last (take m es))) es = drop m es"
proof -
  assume srt: "sorted_wrt (<) (map e_seq es)" and ne: "take m es \<noteq> []"
  let ?l = "e_seq (last (take m es))"
  have s: "sorted_wrt (<) (map e_seq (take m es) @ map e_seq (drop m es))"
    using srt by (metis append_take_drop_id map_append)
  have "filter (\<lambda>e. e_seq e > ?l) (take m es) = []"
  proof (rule filter_False, rule ballI)
    fix e assume "e \<in> set (take m es)"
    then have "e \<in> set (butlast (take m es)) \<or> e = last (take m es)"
      using ne by (metis append_butlast_last_id in_set_conv_decomp rotate1.simps(2) set_ConsD set_rotate1)
    moreover have "sorted_wrt (<) (map e_seq (butlast (take m es) @ [last (take m es)]))"
      using s ne by (simp add: sorted_wrt_append)
    ultimately show "\<not> e_seq e > ?l" by (auto simp: sorted_wrt_append)
  qed
  moreover have "filter (\<lambda>e. e_seq e > ?l) (drop m es) = drop m es"
    using s ne last_in_set [OF ne] by (intro filter_True) (auto simp: sorted_wrt_append)
  ultimately show ?thesis by (metis append_take_drop_id filter_append append_Nil)
qed

lemma sorted_wrt_filter_map: "sorted_wrt (<) (map f es) \<Longrightarrow> sorted_wrt (<) (map f (filter P es))" for f :: "'a \<Rightarrow> nat"
  by (induction es) auto

lemma ring_sorted: "ring_ok ob \<Longrightarrow> sorted_wrt (<) (map e_seq (ob_events ob))"
  by (simp add: ring_ok_def sorted_wrt_upt)

lemma poll_pages_drain:
  assumes "ring_ok ob" and "length (filter (\<lambda>e. e_seq e > after) (ob_events ob)) \<le> n"
  shows "poll_pages (Suc n) after ob = filter (\<lambda>e. e_seq e > after) (ob_events ob)"
  using assms(2)
proof (induction n arbitrary: after)
  case 0
  then show ?case by (simp add: poll_def events_after_def)
next
  case (Suc n)
  let ?f = "filter (\<lambda>e. e_seq e > after) (ob_events ob)" and ?m = outbox_max_poll
  show ?case
  proof (cases "?f = []")
    case True
    then show ?thesis by (simp add: poll_def events_after_def)
  next
    case False
    then have pg: "take ?m ?f \<noteq> []" by (simp add: outbox_max_poll_def)
    let ?l = "e_seq (last (take ?m ?f))"
    have "last (take ?m ?f) \<in> set ?f" using last_in_set [OF pg] by (rule in_set_takeD)
    then have l: "after < ?l" by simp
    have "filter (\<lambda>e. e_seq e > ?l) (ob_events ob) = filter (\<lambda>e. e_seq e > ?l) ?f"
      using l by (auto simp: filter_filter intro: filter_cong)
    also have "\<dots> = drop ?m ?f"
      by (rule later_events [OF sorted_wrt_filter_map [OF ring_sorted [OF assms(1)]] pg])
    finally have rest: "filter (\<lambda>e. e_seq e > ?l) (ob_events ob) = drop ?m ?f" .
    have "length (drop ?m ?f) \<le> n" using Suc.prems by (simp add: outbox_max_poll_def)
    then have "poll_pages (Suc n) ?l ob = drop ?m ?f" using Suc.IH [of ?l] unfolding rest by (simp only: HOL.simp_thms)
    moreover have "poll after ob = (take ?m ?f, ?l)" using pg by (simp add: poll_def events_after_def Let_def)
    ultimately have "poll_pages (Suc (Suc n)) after ob = take ?m ?f @ drop ?m ?f"
      by (simp only: poll_pages.simps(2) [of "Suc n"] Let_def prod.case pg if_False)
    then show ?thesis by simp
  qed
qed

text \<open>
  A watcher next to the running session: between steps of the outbox it polls with its cursor.
  It falls behind when, at a poll, events after its cursor have already left the ring.
\<close>

record watcher =
  w_ob :: outbox
  w_cursor :: nat
  w_got :: "event list"
  w_behind :: bool

definition watch :: "watcher \<Rightarrow> watcher" where
  "watch w = (let (es, c) = poll (w_cursor w) (w_ob w)
     in w\<lparr>w_cursor := c, w_got := w_got w @ es,
          w_behind := (w_behind w \<or> w_cursor w + 1 < ob_next (w_ob w) - length (ob_events (w_ob w)))\<rparr>)"

inductive watcher_step :: "(event \<Rightarrow> event) \<Rightarrow> watcher \<Rightarrow> watcher \<Rightarrow> bool" for redact where
  ws_outbox: "outbox_step redact (w_ob w) ob \<Longrightarrow> watcher_step redact w (w\<lparr>w_ob := ob\<rparr>)"
| ws_poll: "watcher_step redact w (watch w)"

inductive_cases watcher_stepE: "watcher_step redact w w'"

definition new_watcher :: "nat \<Rightarrow> watcher" where
  "new_watcher n = \<lparr>w_ob = new_outbox n, w_cursor = 0, w_got = [], w_behind = False\<rparr>"

definition watcher_inv :: "watcher \<Rightarrow> bool" where
  "watcher_inv w \<longleftrightarrow> outbox_inv (w_ob w) \<and> w_cursor w < ob_next (w_ob w) \<and>
     sorted_wrt (<) (map e_seq (w_got w)) \<and> (\<forall>e \<in> set (w_got w). e_seq e \<le> w_cursor w) \<and>
     (\<not> w_behind w \<longrightarrow> map e_seq (w_got w) = [1 ..< w_cursor w + 1])"

lemma step_next_mono: "outbox_step redact ob ob' \<Longrightarrow> outbox_inv ob \<Longrightarrow> ob_next ob \<le> ob_next ob'"
proof (induction rule: outbox_step.induct)
  case (os_message ob now msg)
  have a: "ob_next (apply_task_event now e x) = ob_next x" for e x
    by (simp add: apply_task_event_def Let_def)
  have "ob_next (note_agent_spawns (message_blocks msg) ob) = ob_next ob"
    by (rule note_agent_spawns_laws(4) [OF os_message])
  then show ?case
    by (auto simp: handle_idle_message_def Let_def split_beta ob_append_def a split: option.splits)
next
  case (os_chunk ob now c)
  then show ?case by (cases c) (simp_all add: note_agent_spawns_laws apply_task_event_def Let_def)
qed (simp_all add: ob_append_def Let_def clear_active_tasks_def)

lemma poll_page:
  assumes "ring_ok ob" "after < ob_next ob" and r: "poll after ob = (es, c)"
  shows "after \<le> c" "c < ob_next ob" "\<forall>e \<in> set es. after < e_seq e \<and> e_seq e \<le> c"
    "sorted_wrt (<) (map e_seq es)"
    "ob_next ob - length (ob_events ob) \<le> after + 1 \<Longrightarrow> map e_seq es = [after + 1 ..< c + 1]"
proof -
  define lo where "lo = max (after + 1) (ob_next ob - length (ob_events ob))"
  have es: "es = events_after after outbox_max_poll ob"
    and c: "c = (if es \<noteq> [] then e_seq (last es) else after)"
    using r assms(2) by (auto simp: poll_def Let_def)
  obtain k where k: "map e_seq es = [lo ..< lo + k]" "lo + k \<le> ob_next ob \<or> k = 0"
  proof (cases "lo + outbox_max_poll \<le> ob_next ob")
    case True
    then show ?thesis using that [of outbox_max_poll] events_after_seqs [OF assms(1), of after] take_upt [OF True]
      by (simp add: es lo_def)
  next
    case False
    then have "take outbox_max_poll [lo ..< ob_next ob] = [lo ..< ob_next ob]" by simp
    then have "map e_seq es = [lo ..< ob_next ob]"
      using events_after_seqs [OF assms(1), of after outbox_max_poll] by (simp add: es lo_def)
    then show ?thesis using that [of "ob_next ob - lo"] by (cases "lo \<le> ob_next ob") auto
  qed
  show srt: "sorted_wrt (<) (map e_seq es)" using k by (simp add: sorted_wrt_upt)
  have seqs: "e_seq e \<in> {lo ..< lo + k}" if "e \<in> set es" for e
    using that k(1) by (metis image_eqI set_map set_upt)
  have lst: "c + 1 = lo + k \<and> 0 < k" if "es \<noteq> []"
  proof -
    have "k \<noteq> 0" using that k(1) by (metis add_0_right map_is_Nil_conv order_refl upt_conv_Nil)
    then obtain j where "k = Suc j" by (cases k) auto
    moreover have "e_seq (last es) = last [lo ..< lo + k]" using k(1) that by (metis last_map)
    ultimately show ?thesis using c that by simp
  qed
  have lo1: "after < lo" by (simp add: lo_def)
  show "after \<le> c" using lst lo1 c by (cases "es = []") auto
  show "c < ob_next ob" using lst k(2) c assms(2) by (cases "es = []") auto
  show "\<forall>e \<in> set es. after < e_seq e \<and> e_seq e \<le> c"
  proof
    fix e assume e: "e \<in> set es"
    then have "es \<noteq> []" by auto
    from seqs [OF e] lst [OF this] lo1 show "after < e_seq e \<and> e_seq e \<le> c" by auto
  qed
  show "map e_seq es = [after + 1 ..< c + 1]" if "ob_next ob - length (ob_events ob) \<le> after + 1"
  proof (cases "es = []")
    case True
    then show ?thesis using c by simp
  next
    case False
    have "lo = after + 1" using that by (simp add: lo_def)
    then show ?thesis using k(1) lst [OF False] by (metis)
  qed
qed

interpretation watchers: machine "\<lambda>w. \<exists>n. w = new_watcher n" "watcher_step redact" watcher_inv
proof unfold_locales
  show "watcher_inv w" if "\<exists>n. w = new_watcher n" for w
    using that outboxes.reachable_inv [OF _ rtranclp.rtrancl_refl]
    by (auto simp: watcher_inv_def new_watcher_def) (auto simp: new_outbox_def)
  fix w w' assume inv: "watcher_inv w" and st: "watcher_step redact w w'"
  have oi: "outbox_inv (w_ob w)" and ring: "ring_ok (w_ob w)" and cur: "w_cursor w < ob_next (w_ob w)"
    and srt: "sorted_wrt (<) (map e_seq (w_got w))" and le: "\<forall>e \<in> set (w_got w). e_seq e \<le> w_cursor w"
    and all: "\<not> w_behind w \<Longrightarrow> map e_seq (w_got w) = [1 ..< w_cursor w + 1]"
    using inv by (simp_all add: watcher_inv_def outbox_inv_def)
  from st show "watcher_inv w'"
  proof (rule watcher_stepE)
    fix ob assume w': "w' = w\<lparr>w_ob := ob\<rparr>" and s: "outbox_step redact (w_ob w) ob"
    have "(outbox_step redact)\<^sup>*\<^sup>* (w_ob w) ob" using s by (rule r_into_rtranclp)
    then have "outbox_inv ob" using oi by (rule outboxes.run_inv)
    moreover have "w_cursor w < ob_next ob" using step_next_mono [OF s oi] cur by simp
    ultimately show ?thesis using inv by (simp add: watcher_inv_def w')
  next
    assume 2: "w' = watch w"
    obtain es c where p: "poll (w_cursor w) (w_ob w) = (es, c)" by fastforce
    note P = poll_page [OF ring cur p]
    have w': "w' = w\<lparr>w_cursor := c, w_got := w_got w @ es,
        w_behind := (w_behind w \<or> w_cursor w + 1 < ob_next (w_ob w) - length (ob_events (w_ob w)))\<rparr>"
      by (simp add: 2 watch_def p)
    have "sorted_wrt (<) (map e_seq (w_got w @ es))"
      using srt P(4) le P(3) by (force simp: sorted_wrt_append)
    moreover have "\<forall>e \<in> set (w_got w @ es). e_seq e \<le> c" using le P(1,3) by force
    moreover have "map e_seq (w_got w @ es) = [1 ..< c + 1]"
      if "\<not> (w_behind w \<or> w_cursor w + 1 < ob_next (w_ob w) - length (ob_events (w_ob w)))"
    proof -
      have "map e_seq (w_got w @ es) = [1 ..< w_cursor w + 1] @ [w_cursor w + 1 ..< c + 1]"
        using that all P(5) by (simp del: upt_Suc)
      also have "\<dots> = [1 ..< c + 1]"
        using P(1) upt_add_eq_append [of 1 "w_cursor w + 1" "c - w_cursor w"] by (simp del: upt_Suc)
      finally show ?thesis .
    qed
    ultimately show ?thesis using oi P(2) by (simp add: watcher_inv_def w' del: upt_Suc)
  qed
qed

text \<open>
  C33. However polls interleave with the capture of events, a watcher is handed each event at
  most once and in order; and as long as it never fell behind the ring, it has been handed every
  event up to its cursor.
\<close>

theorem watcher_sees_each_event_once:
  assumes "(watcher_step redact)\<^sup>*\<^sup>* (new_watcher n) w"
  shows "sorted_wrt (<) (map e_seq (w_got w)) \<and> (\<forall>e \<in> set (w_got w). e_seq e \<le> w_cursor w) \<and>
    w_cursor w < ob_next (w_ob w) \<and>
    (\<not> w_behind w \<longrightarrow> map e_seq (w_got w) = [1 ..< w_cursor w + 1])"
proof -
  have "watcher_inv w" using watchers.reachable_inv [OF _ assms] by blast
  then show ?thesis by (simp add: watcher_inv_def)
qed

definition demo_capture :: "string \<Rightarrow> watcher \<Rightarrow> watcher" where
  "demo_capture t w = w\<lparr>w_ob := handle_idle_message id 5 (Assistant_message None [Text_block t]) (w_ob w)\<rparr>"

definition demo_watcher :: watcher where
  "demo_watcher = watch (demo_capture ''two'' (watch (demo_capture ''one'' (new_watcher 3))))"

lemma demo_watcher_reachable: "(watcher_step id)\<^sup>*\<^sup>* (new_watcher 3) demo_watcher"
proof -
  have c: "watcher_step id w (demo_capture t w)" for t w
    unfolding demo_capture_def by (rule ws_outbox, rule os_message)
  show ?thesis unfolding demo_watcher_def
    by (rule converse_rtranclp_into_rtranclp, rule c, rule converse_rtranclp_into_rtranclp, rule ws_poll,
        rule converse_rtranclp_into_rtranclp, rule c, rule r_into_rtranclp, rule ws_poll)
qed

theorem watcher_sees_each_event_once_witness:
  "\<not> w_behind demo_watcher \<and> map e_seq (w_got demo_watcher) = [1, 2]"
proof -
  have n: "\<not> w_behind demo_watcher" "w_cursor demo_watcher = 2" by code_simp+
  from watcher_sees_each_event_once [OF demo_watcher_reachable] n
  have "map e_seq (w_got demo_watcher) = [1 ..< 3]" by (simp del: upt_Suc)
  then show ?thesis using n by (simp add: upt_rec)
qed

text \<open>What an input says of the running tasks: nothing, that one runs, or that one is done.\<close>

definition event_news :: "event \<Rightarrow> (string \<times> bool) option" where
  "event_news e = (if truthy (e_task_id e) then Some (the (e_task_id e), is_terminal e) else None)"

definition message_news :: "(event \<Rightarrow> event) \<Rightarrow> message \<Rightarrow> (string \<times> bool) option" where
  "message_news redact m =
     (case message_to_event m of
        None \<Rightarrow> None
      | Some e \<Rightarrow> if take 5 (e_type (redact e)) = ''task_'' then event_news (redact e) else None)"

fun chunk_news :: "chunk \<Rightarrow> (string \<times> bool) option" where
  "chunk_news (Task_chunk e tt st tu ps) = event_news (chunk_event e tt st tu ps)"
| "chunk_news _ = None"

fun running_after :: "(string \<times> bool) option \<Rightarrow> string set \<Rightarrow> string set" where
  "running_after None S = S"
| "running_after (Some (t, over)) S = (if over then S - {t} else insert t S)"

type_synonym capture = "instant \<times> (message + chunk)"

fun capture_one :: "(event \<Rightarrow> event) \<Rightarrow> capture \<Rightarrow> outbox \<Rightarrow> outbox" where
  "capture_one redact (now, Inl m) ob = handle_idle_message redact now m ob"
| "capture_one redact (now, Inr c) ob = apply_turn_task_chunk now c ob"

fun capture_news :: "(event \<Rightarrow> event) \<Rightarrow> capture \<Rightarrow> (string \<times> bool) option" where
  "capture_news redact (now, Inl m) = message_news redact m"
| "capture_news redact (now, Inr c) = chunk_news c"

lemma apply_task_event_news:
  "set (dkeys (ob_tasks (apply_task_event now e ob))) = running_after (event_news e) (set (dkeys (ob_tasks ob)))"
  by (simp only: apply_task_event_keys event_news_def)
    (cases "truthy (e_task_id e)"; cases "is_terminal e";
      simp only: running_after.simps if_True if_False not_True_eq_False not_False_eq_True)

lemma apply_task_event_news_keys:
  "fst ` set (ob_tasks (apply_task_event now e ob)) = running_after (event_news e) (fst ` set (ob_tasks ob))"
  using apply_task_event_news [of now e ob] by simp

lemma chunk_event_task_id: "e_task_id (chunk_event e a b c d) = e_task_id e"
  by (simp add: chunk_event_def Let_def)

lemma capture_one_refines:
  assumes "outbox_inv ob"
  shows "outbox_inv (capture_one redact x ob)"
    and "set (dkeys (ob_tasks (capture_one redact x ob))) =
           running_after (capture_news redact x) (set (dkeys (ob_tasks ob)))"
proof -
  obtain now i where x: "x = (now, i)" by fastforce
  show "outbox_inv (capture_one redact x ob)" using assms by (cases i) (simp_all add: x handle_inv chunk_inv)
  show "set (dkeys (ob_tasks (capture_one redact x ob))) =
      running_after (capture_news redact x) (set (dkeys (ob_tasks ob)))"
  proof (cases i)
    case (Inl m)
    have ev: "event_news (e\<lparr>e_name := a, e_seq := b, e_ts := c\<rparr>) = event_news e"
      "event_news (e\<lparr>e_seq := b, e_ts := c\<rparr>) = event_news e"
      "event_news (e\<lparr>e_name := a\<rparr>) = event_news e" for e a b c
      by (simp_all add: event_news_def is_terminal_def)
    show ?thesis
      using arg_cong [OF note_agent_spawns_laws(2) [OF assms, of "message_blocks m"], of set, simplified]
      by (simp add: x Inl handle_idle_message_def message_news_def Let_def ob_append_def apply_task_event_news_keys ev
          split: option.splits)
  next
    case (Inr c)
    show ?thesis
    proof (cases c)
      case (Task_chunk e a b d f)
      then show ?thesis
        by (simp add: x Inr apply_task_event_news_keys) (simp add: event_news_def chunk_event_task_id)
    qed (use note_agent_spawns_laws(2) [OF assms] in \<open>simp_all add: x Inr\<close>)
  qed
qed

text \<open>
  The task registry of a session is the set of tasks last reported as still running: after
  any sequence of captured messages and turn chunks, the snapshot lists exactly the tasks whose
  last report was not a terminal status, each once, none under a terminal status.
\<close>

theorem running_tasks_tracked:
  "let ob = fold (capture_one redact) xs (new_outbox n);
       running = fold (running_after \<circ> capture_news redact) xs {}
   in set (map t_id (snapshot_active_tasks ob)) = running \<and> distinct (map t_id (snapshot_active_tasks ob)) \<and>
      (\<forall>t. t \<in> set (snapshot_active_tasks ob) \<longrightarrow> t_status t \<notin> terminal_statuses)"
proof -
  let ?ob = "fold (capture_one redact) xs (new_outbox n)"
  have run: "outbox_inv (fold (capture_one redact) xs ob) \<and>
      set (dkeys (ob_tasks (fold (capture_one redact) xs ob))) =
        fold (running_after \<circ> capture_news redact) xs (set (dkeys (ob_tasks ob)))"
    if "outbox_inv ob" for ob
    using that
  proof (induction xs arbitrary: ob)
    case (Cons x xs)
    then show ?case
      using Cons.IH [OF capture_one_refines(1) [OF Cons.prems, of redact x]]
        capture_one_refines(2) [OF Cons.prems, of redact x] by simp
  qed simp
  have "outbox_inv (new_outbox n)" using outboxes.reachable_inv [OF _ rtranclp.rtrancl_refl] by blast
  from run [OF this] have inv: "outbox_inv ?ob"
    and keys: "set (dkeys (ob_tasks ?ob)) = fold (running_after \<circ> capture_news redact) xs {}"
    by (simp_all add: new_outbox_def)
  have tok: "dwf (ob_tasks ?ob)" "\<forall>(k, t) \<in> set (ob_tasks ?ob). t_id t = k \<and> t_status t \<notin> terminal_statuses"
    using inv by (simp_all add: outbox_inv_def tasks_ok_def)
  have ids: "map t_id (snapshot_active_tasks ?ob) = dkeys (ob_tasks ?ob)"
    unfolding snapshot_active_tasks_def using tok(2) by (auto simp: split_beta)
  show ?thesis unfolding Let_def ids
    using keys tok by (auto simp: dwf_def snapshot_active_tasks_def)
qed

definition demo_captures :: "capture list" where
  "demo_captures =
     [(1, Inl (Task_started (Some ''t1'') None None (Some ''build'') None None None None)),
      (2, Inl (Task_started (Some ''t2'') None None (Some ''test'') None None None None)),
      (3, Inl (Task_notification (Some ''t1'') None None (Some ''completed'') None None None))]"

theorem running_tasks_tracked_witness:
  "let ob = fold (capture_one id) demo_captures (new_outbox 5)
   in map t_id (snapshot_active_tasks ob) = [''t2''] \<and>
      t_status (hd (snapshot_active_tasks ob)) \<notin> terminal_statuses"
proof -
  let ?ob = "fold (capture_one id) demo_captures (new_outbox 5)"
  have t: "map t_id (snapshot_active_tasks ?ob) = [''t2'']" by code_simp
  then have "hd (snapshot_active_tasks ?ob) \<in> set (snapshot_active_tasks ?ob)" by (intro hd_in_set) auto
  then have "t_status (hd (snapshot_active_tasks ?ob)) \<notin> terminal_statuses"
    using running_tasks_tracked [of id demo_captures 5] unfolding Let_def by blast
  with t show ?thesis by (simp add: Let_def)
qed

end
