(* ===== verification/StreamSanitizer.thy ===== *)
theory StreamSanitizer
  imports Json
begin

text \<open>
  The event-stream sanitizer, \<open>src/src/sanitizer/stream_sanitizer.py\<close>: \<open>sanitize_events\<close> as a
  transducer from upstream events to the sequence it yields, one step per event.  A reader of
  the protocol is a partial automaton over the same state; the transducer is shown to conform
  to it, to keep every payload, and to leave a stream that already conforms as it is.
\<close>

section \<open>Events\<close>

text \<open>
  A delta's type is \<open>None\<close> when it is missing or not a string; its payload fields are \<open>None\<close>
  when missing.  A content block is its type and the other fields.  What the code passes on
  untouched is of any type \<open>'m\<close>.
\<close>

record delta =
  d_type :: "string option"
  d_text :: "string option"
  d_thinking :: "string option"
  d_signature :: "string option"
  d_partial_json :: "string option"

record content_block =
  b_type :: "string option"
  b_fields :: "(string, json) dict"

datatype 'm sevent =
    Message_start 'm
  | Block_start int content_block
  | Block_delta int delta
  | Block_stop int
  | Message_delta 'm
  | Message_stop 'm
  | Other_event 'm

definition delta_compatible_blocks :: "(string, string list) dict" where
  "delta_compatible_blocks =
     [(''text_delta'', [''text'']), (''thinking_delta'', [''thinking'']), (''signature_delta'', [''thinking'']),
      (''input_json_delta'', [''tool_use'', ''server_tool_use''])]"

definition delta_primary_block :: "(string, string) dict" where
  "delta_primary_block =
     [(''text_delta'', ''text''), (''thinking_delta'', ''thinking''), (''signature_delta'', ''thinking''),
      (''input_json_delta'', ''tool_use'')]"

definition is_empty_delta :: "delta \<Rightarrow> bool" where
  "is_empty_delta d =
     (if d_type d = Some ''text_delta'' then \<not> truthy (d_text d)
      else if d_type d = Some ''thinking_delta'' then \<not> truthy (d_thinking d)
      else if d_type d = Some ''signature_delta'' then \<not> truthy (d_signature d)
      else if d_type d = Some ''input_json_delta'' then \<not> truthy (d_partial_json d)
      else False)"

definition synthetic_block :: "string \<Rightarrow> content_block" where
  "synthetic_block t =
     \<lparr>b_type = Some t,
      b_fields = (if t = ''text'' then [(''text'', J_str [])]
                  else if t = ''thinking'' then [(''thinking'', J_str [])]
                  else if t = ''tool_use'' then [(''id'', J_str []), (''name'', J_str []), (''input'', J_obj [])]
                  else [])\<rparr>"

section \<open>The transducer\<close>

record san =
  seen_message_start :: bool
  current_index :: int
  current_block_type :: "string option"

definition fresh_san :: san where
  "fresh_san = \<lparr>seen_message_start = False, current_index = -1, current_block_type = None\<rparr>"

definition close_current :: "san \<Rightarrow> 'm sevent list" where
  "close_current s = (if current_block_type s \<noteq> None then [Block_stop (current_index s)] else [])"

definition delta_type_of :: "delta \<Rightarrow> string" where
  "delta_type_of d = (case d_type d of None \<Rightarrow> [] | Some t \<Rightarrow> t)"

definition holds_delta :: "string option \<Rightarrow> delta \<Rightarrow> bool" where
  "holds_delta open d =
     (case dget delta_compatible_blocks (delta_type_of d) of
        None \<Rightarrow> True
      | Some ts \<Rightarrow> (case open of None \<Rightarrow> False | Some b \<Rightarrow> b \<in> set ts))"

definition primary_of :: "delta \<Rightarrow> string" where
  "primary_of d = (case dget delta_primary_block (delta_type_of d) of None \<Rightarrow> ''text'' | Some t \<Rightarrow> t)"

fun sanitize_event :: "san \<Rightarrow> 'm sevent \<Rightarrow> san \<times> 'm sevent list" where
  "sanitize_event s (Message_start m) =
     (if seen_message_start s then (s, []) else (s\<lparr>seen_message_start := True\<rparr>, [Message_start m]))"
| "sanitize_event s (Block_start i b) =
     (s\<lparr>current_index := current_index s + 1, current_block_type := b_type b\<rparr>,
      close_current s @ [Block_start (current_index s + 1) b])"
| "sanitize_event s (Block_delta i d) =
     (if is_empty_delta d then (s, [])
      else if \<not> holds_delta (current_block_type s) d
      then (s\<lparr>current_index := current_index s + 1, current_block_type := Some (primary_of d)\<rparr>,
            close_current s @ [Block_start (current_index s + 1) (synthetic_block (primary_of d)),
                               Block_delta (current_index s + 1) d])
      else (s, [Block_delta (current_index s) d]))"
| "sanitize_event s (Block_stop i) =
     (if current_block_type s = None then (s, []) else (s\<lparr>current_block_type := None\<rparr>, close_current s))"
| "sanitize_event s (Message_delta m) = (s\<lparr>current_block_type := None\<rparr>, close_current s @ [Message_delta m])"
| "sanitize_event s (Message_stop m) = (s\<lparr>current_block_type := None\<rparr>, close_current s @ [Message_stop m])"
| "sanitize_event s (Other_event m) = (s, [Other_event m])"

definition sanitize_events :: "'m sevent list \<Rightarrow> 'm sevent list" where
  "sanitize_events es = snd (feed_all sanitize_event fresh_san es)"

section \<open>The protocol\<close>

text \<open>
  A reader of the Messages protocol: one \<open>message_start\<close>, blocks numbered from 0 and opened one
  at a time, deltas inside a block that can hold them and carrying its number, and no block
  open across \<open>message_delta\<close> and \<open>message_stop\<close>.
\<close>

fun read_event :: "san \<Rightarrow> 'm sevent \<Rightarrow> san option" where
  "read_event q (Message_start m) =
     (if seen_message_start q then None else Some (q\<lparr>seen_message_start := True\<rparr>))"
| "read_event q (Block_start i b) =
     (if current_block_type q = None \<and> i = current_index q + 1 \<and> b_type b \<noteq> None
      then Some (q\<lparr>current_index := i, current_block_type := b_type b\<rparr>) else None)"
| "read_event q (Block_delta i d) =
     (if i = current_index q \<and> holds_delta (current_block_type q) d then Some q else None)"
| "read_event q (Block_stop i) =
     (if current_block_type q \<noteq> None \<and> i = current_index q then Some (q\<lparr>current_block_type := None\<rparr>) else None)"
| "read_event q (Message_delta m) = (if current_block_type q = None then Some q else None)"
| "read_event q (Message_stop m) = (if current_block_type q = None then Some q else None)"
| "read_event q (Other_event m) = Some q"

definition protocol_ok :: "'m sevent list \<Rightarrow> bool" where
  "protocol_ok es \<longleftrightarrow> reads read_event fresh_san es \<noteq> None"

fun typed_start :: "'m sevent \<Rightarrow> bool" where
  "typed_start (Block_start i b) = (b_type b \<noteq> None)"
| "typed_start _ = True"

fun not_empty_delta :: "'m sevent \<Rightarrow> bool" where
  "not_empty_delta (Block_delta i d) = (\<not> is_empty_delta d)"
| "not_empty_delta _ = True"

fun_cases read_event_SomeE: "read_event q e = Some q'"

lemma primary_holds: "holds_delta (Some (primary_of d)) d"
  by (auto simp: holds_delta_def primary_of_def delta_compatible_blocks_def delta_primary_block_def dget_def)

lemma reads_close_current:
  "reads read_event q (close_current q) = Some (q\<lparr>current_block_type := None\<rparr>)"
  by (cases "current_block_type q") (simp_all add: close_current_def)

interpretation sanitizer: conforming sanitize_event read_event "\<lambda>s q. q = s" typed_start
proof unfold_locales
  fix s q s' :: san and x out
  assume eq: "q = s" and ok: "typed_start x" and e: "sanitize_event s x = (s', out)"
  have "reads read_event s out = Some s'"
  proof (cases x)
    case (Block_delta i d)
    then show ?thesis using e primary_holds [of d]
      by (auto simp: reads_append reads_close_current synthetic_block_def split: if_splits)
  next
    case (Block_stop i)
    then show ?thesis using e reads_close_current [of s] by (cases "current_block_type s") auto
  qed (use e ok in \<open>auto simp: reads_append reads_close_current split: if_splits\<close>)
  then show "\<exists>q'. reads read_event q out = Some q' \<and> q' = s'" by (simp add: eq)
qed

text \<open>
  Whatever upstream sends, as long as the blocks it opens have a type, the sanitized stream
  follows the protocol: one message start at most, block numbers from 0 without gaps, every
  delta of a known type inside a block that can hold it, and every block closed before the next
  opens and before the message ends.
\<close>

theorem sanitized_stream_conforms:
  assumes "list_all typed_start es"
  shows "protocol_ok (sanitize_events es)"
proof -
  obtain s out where f: "feed_all sanitize_event fresh_san es = (s, out)" by fastforce
  from sanitizer.feed_conforms [OF refl assms f] show ?thesis
    by (auto simp: protocol_ok_def sanitize_events_def f)
qed

definition text_of :: "string \<Rightarrow> delta" where
  "text_of t = \<lparr>d_type = Some ''text_delta'', d_text = Some t, d_thinking = None, d_signature = None, d_partial_json = None\<rparr>"

definition thinking_of :: "string \<Rightarrow> delta" where
  "thinking_of t =
     \<lparr>d_type = Some ''thinking_delta'', d_text = None, d_thinking = Some t, d_signature = None, d_partial_json = None\<rparr>"

text \<open>The upstream that opens a text block and then sends thinking into it.\<close>

definition mixed_stream :: "string sevent list" where
  "mixed_stream =
     [Message_start ''m'', Block_start 0 (synthetic_block ''text''), Block_delta 0 (thinking_of ''hm''),
      Block_delta 0 (text_of []), Block_delta 0 (text_of ''hi''), Message_start ''m'', Message_stop []]"

theorem sanitized_stream_conforms_witness:
  "protocol_ok (sanitize_events mixed_stream) \<and> length (sanitize_events mixed_stream) = 10"
proof
  have "list_all typed_start mixed_stream" by code_simp
  then show "protocol_ok (sanitize_events mixed_stream)" by (rule sanitized_stream_conforms)
  show "length (sanitize_events mixed_stream) = 10" by code_simp
qed

section \<open>Payloads\<close>

text \<open>What a reader of the payloads sees: events without their block structure.\<close>

datatype 'm payload = P_start 'm | P_delta delta | P_message 'm | P_stop 'm | P_other 'm

fun payload_of :: "'m sevent \<Rightarrow> 'm payload list" where
  "payload_of (Message_start m) = [P_start m]"
| "payload_of (Block_start i b) = []"
| "payload_of (Block_delta i d) = (if is_empty_delta d then [] else [P_delta d])"
| "payload_of (Block_stop i) = []"
| "payload_of (Message_delta m) = [P_message m]"
| "payload_of (Message_stop m) = [P_stop m]"
| "payload_of (Other_event m) = [P_other m]"

text \<open>A repeated message start is the one event a reader of payloads does without.\<close>

fun first_start_only :: "bool \<Rightarrow> 'm payload list \<Rightarrow> 'm payload list" where
  "first_start_only seen [] = []"
| "first_start_only seen (P_start m # ps) =
     (if seen then first_start_only seen ps else P_start m # first_start_only True ps)"
| "first_start_only seen (p # ps) = p # first_start_only seen ps"

lemma payload_close: "concat (map payload_of (close_current s)) = []"
  by (simp add: close_current_def)

lemma feed_payloads:
  "concat (map payload_of (snd (feed_all sanitize_event s es))) =
     first_start_only (seen_message_start s) (concat (map payload_of es))"
proof (induction es arbitrary: s)
  case (Cons e es)
  obtain s1 o1 where e: "sanitize_event s e = (s1, o1)" by fastforce
  have "concat (map payload_of (snd (feed_all sanitize_event s (e # es)))) =
      concat (map payload_of o1) @ first_start_only (seen_message_start s1) (concat (map payload_of es))"
    using Cons.IH [of s1] by (simp add: e split_beta Let_def)
  also have "\<dots> = first_start_only (seen_message_start s) (payload_of e @ concat (map payload_of es))"
    using e by (cases e) (auto simp: payload_close close_current_def split: if_splits)
  finally show ?case by simp
qed simp

text \<open>
  Sanitizing loses nothing a client could read: the payloads of the sanitized stream are
  those of the upstream one, in the same order, a repeated message start aside.
\<close>

theorem sanitizer_keeps_payloads:
  "concat (map payload_of (sanitize_events es)) = first_start_only False (concat (map payload_of es))"
  using feed_payloads [of fresh_san es] by (simp add: sanitize_events_def fresh_san_def)

lemma conforming_event_kept:
  "read_event s e = Some q \<Longrightarrow> not_empty_delta e \<Longrightarrow> sanitize_event s e = (q, [e])"
  by (erule read_event_SomeE) (auto simp: close_current_def split: if_splits)

lemma conforming_stream_kept:
  "reads read_event s es = Some q \<Longrightarrow> list_all not_empty_delta es \<Longrightarrow> feed_all sanitize_event s es = (q, es)"
proof (induction es arbitrary: s)
  case (Cons e es)
  then obtain s1 where e: "read_event s e = Some s1" "reads read_event s1 es = Some q"
    by (auto split: option.splits)
  then show ?case using Cons conforming_event_kept [OF e(1)] by simp
qed simp

lemma sanitize_event_not_empty: "sanitize_event s e = (s', out) \<Longrightarrow> list_all not_empty_delta out"
  by (cases e) (auto simp: close_current_def split: if_splits)

lemma feed_not_empty: "list_all not_empty_delta (snd (feed_all sanitize_event s es))"
proof (induction es arbitrary: s)
  case (Cons e es)
  obtain s1 o1 where e: "sanitize_event s e = (s1, o1)" by fastforce
  then show ?case using Cons.IH [of s1] sanitize_event_not_empty [OF e]
    by (simp add: split_beta Let_def)
qed simp

text \<open>
  A stream that follows the protocol and has no empty delta passes unchanged; so
  sanitizing is idempotent on every upstream whose blocks have a type.
\<close>

theorem sanitizer_leaves_conforming:
  "(protocol_ok es \<and> list_all not_empty_delta es \<longrightarrow> sanitize_events es = es) \<and>
   (list_all typed_start xs \<longrightarrow> sanitize_events (sanitize_events xs) = sanitize_events xs)"
proof -
  have kept: "sanitize_events es = es" if "protocol_ok es" "list_all not_empty_delta es" for es
  proof -
    from that(1) obtain q where "reads read_event fresh_san es = Some q" by (auto simp: protocol_ok_def)
    from conforming_stream_kept [OF this that(2)] show ?thesis by (simp add: sanitize_events_def)
  qed
  have "sanitize_events (sanitize_events xs) = sanitize_events xs" if xs: "list_all typed_start xs"
  proof (rule kept)
    obtain s out where f: "feed_all sanitize_event fresh_san xs = (s, out)" by fastforce
    from sanitizer.feed_conforms [OF refl xs f] show "protocol_ok (sanitize_events xs)"
      by (auto simp: protocol_ok_def sanitize_events_def f)
    show "list_all not_empty_delta (sanitize_events xs)"
      unfolding sanitize_events_def by (rule feed_not_empty)
  qed
  with kept show ?thesis by blast
qed

theorem sanitizer_leaves_conforming_witness:
  "sanitize_events [Message_start ''m'', Block_start 0 (synthetic_block ''text''), Block_delta 0 (text_of ''hi''),
      Block_stop 0, Message_stop []] =
     [Message_start ''m'', Block_start 0 (synthetic_block ''text''), Block_delta 0 (text_of ''hi''),
      Block_stop 0, Message_stop []] \<and>
   sanitize_events (sanitize_events mixed_stream) = sanitize_events mixed_stream"
proof -
  let ?es = "[Message_start ''m'', Block_start 0 (synthetic_block ''text''), Block_delta 0 (text_of ''hi''),
      Block_stop 0, Message_stop []]"
  have "protocol_ok ?es" "list_all not_empty_delta ?es" "list_all typed_start mixed_stream" by code_simp+
  then show ?thesis using sanitizer_leaves_conforming [of ?es mixed_stream] by blast
qed

section \<open>Outside the protocol\<close>

text \<open>
  The docstring promises indices that start at 0 and deltas of the open block's type on every
  output.  A delta of a type the tables do not list is passed on even when no block was ever
  opened, under index -1; and a block opened without a type is never closed.
\<close>

lemma unknown_delta_without_block:
  "sanitize_events [Block_delta 0 (text_of ''x''\<lparr>d_type := Some ''citations_delta''\<rparr>) :: string sevent] =
     [Block_delta (-1) (text_of ''x''\<lparr>d_type := Some ''citations_delta''\<rparr>)]"
  by code_simp

lemma untyped_block_never_stopped:
  "sanitize_events [Block_start 0 \<lparr>b_type = None, b_fields = []\<rparr>, Block_stop 0, Message_stop [] :: string sevent] =
     [Block_start 0 \<lparr>b_type = None, b_fields = []\<rparr>, Message_stop []]"
  by code_simp

end
