(* ===== verification/OpenaiBridge.thy ===== *)
theory OpenaiBridge
  imports StreamSanitizer PyText "HOL-Library.Multiset"
begin

text \<open>
  Between the Anthropic Messages and the OpenAI chat-completion formats,
  \<open>src/src/sanitizer/openai_bridge.py\<close>: the request body, the stream of chunks as a transducer into
  the events of \<open>StreamSanitizer\<close>, and the one-shot response.  Chunks and bodies are decoded JSON.
  Fresh identifiers come from \<open>uuid\<close>, numbered; \<open>json.dumps\<close> and \<open>json.loads\<close> are arguments.
\<close>

section \<open>The stream\<close>

text \<open>What the framing events carry: the message's id, model and token counts, or the stop reason.\<close>

datatype frame = Frame_start string string int | Frame_delta string int int | Frame_stop

record pending_call =
  pc_id :: json
  pc_name :: json
  pc_parts :: "string list"

record bridge =
  br_open_kind :: "string option"
  br_open_index :: int
  br_pending :: "(int, pending_call) dict"
  br_model :: string
  br_message_id :: string
  br_input :: int
  br_output :: int
  br_finish :: "string option"
  br_started :: bool
  br_fresh :: nat
  br_crashed :: bool

definition new_bridge :: "string \<Rightarrow> string \<Rightarrow> bridge" where
  "new_bridge message_id model =
     \<lparr>br_open_kind = None, br_open_index = -1, br_pending = [], br_model = model, br_message_id = message_id,
      br_input = 0, br_output = 0, br_finish = None, br_started = False, br_fresh = 0, br_crashed = False\<rparr>"

definition message_start_event :: "bridge \<Rightarrow> frame sevent" where
  "message_start_event s = Message_start (Frame_start (br_message_id s) (br_model s) (br_input s))"

definition close_block :: "bridge \<Rightarrow> bridge \<times> frame sevent list" where
  "close_block s = (s\<lparr>br_open_kind := None\<rparr>, [Block_stop (br_open_index s)])"

definition close_if_open :: "bridge \<Rightarrow> bridge \<times> frame sevent list" where
  "close_if_open s = (if br_open_kind s \<noteq> None then close_block s else (s, []))"

definition open_block :: "string \<Rightarrow> content_block \<Rightarrow> bridge \<Rightarrow> bridge \<times> frame sevent list" where
  "open_block kind blk s =
     (s\<lparr>br_open_index := br_open_index s + 1, br_open_kind := Some kind\<rparr>, [Block_start (br_open_index s + 1) blk])"

definition new_pending :: "(nat \<Rightarrow> string) \<Rightarrow> nat \<Rightarrow> json \<Rightarrow> json \<Rightarrow> pending_call" where
  "new_pending uuid n call_id name =
     \<lparr>pc_id = jor call_id (J_str (''toolu_'' @ uuid n)), pc_name = jor name (J_str []), pc_parts = []\<rparr>"

definition update_metadata :: "json \<Rightarrow> json \<Rightarrow> pending_call \<Rightarrow> pending_call" where
  "update_metadata call_id name p =
     p\<lparr>pc_id := (if jtruthy call_id then call_id else pc_id p), pc_name := (if jtruthy name then name else pc_name p)\<rparr>"

definition record_tool_call_delta :: "(nat \<Rightarrow> string) \<Rightarrow> int \<Rightarrow> json \<Rightarrow> json \<Rightarrow> json \<Rightarrow> bridge \<Rightarrow> bridge" where
  "record_tool_call_delta uuid i call_id name args s =
     (let p = (case dget (br_pending s) i of
                 None \<Rightarrow> new_pending uuid (br_fresh s) call_id name
               | Some p \<Rightarrow> update_metadata call_id name p);
          part = (case str_of args of Some a \<Rightarrow> if a = [] then [] else [a] | None \<Rightarrow> [])
      in s\<lparr>br_pending := dput i (p\<lparr>pc_parts := pc_parts p @ part\<rparr>) (br_pending s),
           br_fresh := (if dget (br_pending s) i = None \<and> \<not> jtruthy call_id then br_fresh s + 1 else br_fresh s)\<rparr>)"

definition json_delta :: "string \<Rightarrow> delta" where
  "json_delta a =
     \<lparr>d_type = Some ''input_json_delta'', d_text = None, d_thinking = None, d_signature = None, d_partial_json = Some a\<rparr>"

definition tool_block :: "pending_call \<Rightarrow> content_block" where
  "tool_block p =
     \<lparr>b_type = Some ''tool_use'', b_fields = [(''id'', pc_id p), (''name'', pc_name p), (''input'', J_obj [])]\<rparr>"

text \<open>One buffered call as a contiguous block.\<close>

definition int_str :: "int \<Rightarrow> string" where
  "int_str i = (if i < 0 then CHR ''-'' # dec (nat (- i)) else dec (nat i))"

definition flush_one :: "int \<Rightarrow> pending_call \<Rightarrow> bridge \<Rightarrow> bridge \<times> frame sevent list" where
  "flush_one i p s =
     (let (s, o1) = open_block (''tool:'' @ int_str i) (tool_block p) s;
          o2 = map (\<lambda>a. Block_delta (br_open_index s) (json_delta a)) (pc_parts p);
          (s, o3) = close_block s
      in (s, o1 @ o2 @ o3))"

fun flush_each :: "(int \<times> pending_call) list \<Rightarrow> bridge \<Rightarrow> bridge \<times> frame sevent list" where
  "flush_each [] s = (s, [])"
| "flush_each ((i, p) # ps) s =
     (let (s, o1) = flush_one i p s; (s, o2) = flush_each ps s in (s, o1 @ o2))"

definition flush_tool_calls :: "bridge \<Rightarrow> bridge \<times> frame sevent list" where
  "flush_tool_calls s =
     (if br_pending s = [] then (s, [])
      else
        let (s, o1) = close_if_open s;
            (s, o2) = flush_each (sort_key fst (br_pending s)) s
        in (s\<lparr>br_pending := []\<rparr>, o1 @ o2))"

text \<open>Text and reasoning: buffered calls first, then a block of the kind, then the delta.\<close>

definition emit_delta :: "string \<Rightarrow> delta \<Rightarrow> bridge \<Rightarrow> bridge \<times> frame sevent list" where
  "emit_delta kind d s =
     (let (s, o1) = flush_tool_calls s;
          (s, o2) = (if br_open_kind s \<noteq> Some kind then
                       (let (s, c) = close_if_open s; (s, b) = open_block kind (synthetic_block kind) s in (s, c @ b))
                     else (s, []))
      in (s, o1 @ o2 @ [Block_delta (br_open_index s) d]))"

definition nonempty_str :: "json \<Rightarrow> string option" where
  "nonempty_str v = (case str_of v of Some t \<Rightarrow> if t = [] then None else Some t | None \<Rightarrow> None)"

definition emit_reasoning :: "json \<Rightarrow> bridge \<Rightarrow> bridge \<times> frame sevent list" where
  "emit_reasoning v s =
     (case nonempty_str v of None \<Rightarrow> (s, []) | Some t \<Rightarrow> emit_delta ''thinking'' (thinking_of t) s)"

definition emit_content :: "json \<Rightarrow> bridge \<Rightarrow> bridge \<times> frame sevent list" where
  "emit_content v s = (case nonempty_str v of None \<Rightarrow> (s, []) | Some t \<Rightarrow> emit_delta ''text'' (text_of t) s)"

definition record_tool_call :: "(nat \<Rightarrow> string) \<Rightarrow> json \<Rightarrow> bridge \<Rightarrow> bridge" where
  "record_tool_call uuid tc s =
     (case int_of_json (jfield tc ''index'') of
        Some i \<Rightarrow>
          if is_obj tc then
            (let fn = jor (jfield tc ''function'') (J_obj [])
             in record_tool_call_delta uuid i (jfield tc ''id'') (jfield fn ''name'') (jfield fn ''arguments'') s)
          else s
      | None \<Rightarrow> s)"

text \<open>Iterating over a value: a list, the characters of a text, the keys of a dictionary.\<close>

fun iterate :: "json \<Rightarrow> json list option" where
  "iterate (J_list xs) = Some xs"
| "iterate (J_str t) = Some (map (\<lambda>c. J_str [c]) t)"
| "iterate (J_obj d) = Some (map (\<lambda>(k, v). J_str k) d)"
| "iterate _ = None"

definition note_usage :: "json \<Rightarrow> bridge \<Rightarrow> bridge" where
  "note_usage u s =
     s\<lparr>br_input := (case int_of_json (jfield u ''prompt_tokens'') of Some n \<Rightarrow> n | None \<Rightarrow> br_input s),
       br_output := (case int_of_json (jfield u ''completion_tokens'') of Some n \<Rightarrow> n | None \<Rightarrow> br_output s)\<rparr>"

text \<open>\<open>choices[0]\<close> of a true value: an error for anything but a list or a text.\<close>

definition first_choice :: "json \<Rightarrow> json option option" where
  "first_choice v =
     (if \<not> jtruthy v then Some None
      else case v of J_list (c # cs) \<Rightarrow> Some (Some c) | J_str t \<Rightarrow> Some (Some v) | _ \<Rightarrow> None)"

definition note_finish :: "json \<Rightarrow> bridge \<Rightarrow> bridge" where
  "note_finish v s = (case nonempty_str v of Some f \<Rightarrow> s\<lparr>br_finish := Some f\<rparr> | None \<Rightarrow> s)"

definition bridge_choice :: "(nat \<Rightarrow> string) \<Rightarrow> json \<Rightarrow> bridge \<Rightarrow> bridge \<times> frame sevent list" where
  "bridge_choice uuid choice s =
     (let delta = jor (jfield choice ''delta'') (J_obj []);
          (s, o0) = (if br_started s then (s, []) else (s\<lparr>br_started := True\<rparr>, [message_start_event s]));
          (s, o1) = emit_reasoning (jfield delta ''reasoning_content'') s;
          (s, o2) = emit_content (jfield delta ''content'') s
      in case iterate (jor (jfield delta ''tool_calls'') (J_list [])) of
           None \<Rightarrow> (s\<lparr>br_crashed := True\<rparr>, o0 @ o1 @ o2)
         | Some tcs \<Rightarrow> (note_finish (jfield choice ''finish_reason'') (fold (record_tool_call uuid) tcs s), o0 @ o1 @ o2))"

definition bridge_chunk :: "(nat \<Rightarrow> string) \<Rightarrow> bridge \<Rightarrow> json \<Rightarrow> bridge \<times> frame sevent list" where
  "bridge_chunk uuid s chunk =
     (if br_crashed s then (s, [])
      else
        let s = note_usage (jfield chunk ''usage'') s
        in case first_choice (jfield chunk ''choices'') of
             None \<Rightarrow> (s\<lparr>br_crashed := True\<rparr>, [])
           | Some None \<Rightarrow> (s, [])
           | Some (Some choice) \<Rightarrow> if is_obj choice then bridge_choice uuid choice s else (s, []))"

definition finish_to_stop :: "(string, string) dict" where
  "finish_to_stop =
     [(''stop'', ''end_turn''), (''tool_calls'', ''tool_use''), (''function_call'', ''tool_use''),
      (''length'', ''max_tokens''), (''content_filter'', ''stop_sequence'')]"

definition stop_reason_of :: "string \<Rightarrow> string" where
  "stop_reason_of f = (case dget finish_to_stop (if f = [] then ''stop'' else f) of Some r \<Rightarrow> r | None \<Rightarrow> ''end_turn'')"

definition bridge_end :: "bridge \<Rightarrow> bridge \<times> frame sevent list" where
  "bridge_end s =
     (if br_crashed s then (s, [])
      else
        let (s, o0) = (if br_started s then (s, []) else (s\<lparr>br_started := True\<rparr>, [message_start_event s]));
            (s, o1) = flush_tool_calls s;
            (s, o2) = close_if_open s
        in (s, o0 @ o1 @ o2 @
              [Message_delta (Frame_delta (stop_reason_of (case br_finish s of Some f \<Rightarrow> f | None \<Rightarrow> ''stop''))
                 (br_input s) (br_output s)),
               Message_stop Frame_stop]))"

definition openai_stream_to_anthropic :: "(nat \<Rightarrow> string) \<Rightarrow> string \<Rightarrow> string \<Rightarrow> json list \<Rightarrow> frame sevent list" where
  "openai_stream_to_anthropic uuid message_id model chunks =
     (let (s, out) = feed_all (bridge_chunk uuid) (new_bridge message_id model) chunks
      in out @ snd (bridge_end s))"

section \<open>The stream follows the protocol\<close>

text \<open>The reader's state of a bridge between two chunks: only text and reasoning stay open.\<close>

definition reader_of :: "bridge \<Rightarrow> san" where
  "reader_of s = \<lparr>seen_message_start = br_started s, current_index = br_open_index s, current_block_type = br_open_kind s\<rparr>"

definition settled :: "bridge \<Rightarrow> bool" where
  "settled s \<longleftrightarrow> br_open_kind s \<in> {None, Some ''thinking'', Some ''text''}"

text \<open>What the bridge emits before the end of the message: the start, and blocks without empty deltas.\<close>

fun content_event :: "'m sevent \<Rightarrow> bool" where
  "content_event (Message_start m) = True"
| "content_event (Block_start i b) = True"
| "content_event (Block_delta i d) = (\<not> is_empty_delta d)"
| "content_event (Block_stop i) = True"
| "content_event _ = False"

definition read_content :: "san \<Rightarrow> 'm sevent \<Rightarrow> san option" where
  "read_content q e = (if content_event e then read_event q e else None)"

lemma reads_content_iff:
  "reads read_content q es = Some q' \<longleftrightarrow> reads read_event q es = Some q' \<and> list_all content_event es"
  by (induction es arbitrary: q) (auto simp: read_content_def split: option.splits if_splits)

definition emits_ok :: "bridge \<Rightarrow> bridge \<times> frame sevent list \<Rightarrow> bool" where
  "emits_ok s r \<longleftrightarrow> reads read_event (reader_of s) (snd r) = Some (reader_of (fst r)) \<and>
     list_all content_event (snd r)"

lemma emits_ok_append:
  "emits_ok s (t, a) \<Longrightarrow> emits_ok t (u, b) \<Longrightarrow> emits_ok s (u, a @ b)"
  by (simp add: emits_ok_def reads_append)

lemma emits_ok_Nil [simp]: "emits_ok s (s, [])"
  by (simp add: emits_ok_def)

lemma reader_of_simps [simp]:
  "reader_of (s\<lparr>br_pending := p\<rparr>) = reader_of s" "reader_of (s\<lparr>br_fresh := n\<rparr>) = reader_of s"
  "reader_of (s\<lparr>br_crashed := b\<rparr>) = reader_of s" "reader_of (s\<lparr>br_finish := f\<rparr>) = reader_of s"
  "reader_of (s\<lparr>br_input := i, br_output := j\<rparr>) = reader_of s"
  by (simp_all add: reader_of_def)

lemma close_ok: "close_if_open s = (t, out) \<Longrightarrow> emits_ok s (t, out) \<and> br_open_kind t = None \<and> br_pending t = br_pending s"
  by (auto simp: close_if_open_def close_block_def emits_ok_def reader_of_def split: if_splits)

definition parts_ok :: "pending_call \<Rightarrow> bool" where
  "parts_ok p \<longleftrightarrow> [] \<notin> set (pc_parts p)"

definition bridge_inv :: "bridge \<Rightarrow> bool" where
  "bridge_inv s \<longleftrightarrow> settled s \<and> dwf (br_pending s) \<and> (\<forall>(i, p) \<in> set (br_pending s). parts_ok p)"

lemma json_parts_read:
  "current_block_type q = Some ''tool_use'' \<Longrightarrow>
     reads read_event q (map (\<lambda>a. Block_delta (current_index q) (json_delta a)) ps) = Some q"
proof (induction ps)
  case (Cons a ps)
  have "holds_delta (Some ''tool_use'') (json_delta a)"
    by (simp add: holds_delta_def delta_type_of_def json_delta_def delta_compatible_blocks_def dget_def)
  then show ?case using Cons by simp
qed simp

lemma json_parts_not_empty:
  "[] \<notin> set ps \<Longrightarrow> list_all content_event (map (\<lambda>a. Block_delta i (json_delta a)) ps)"
proof (induction ps)
  case (Cons a ps)
  then show ?case by (cases a) (simp_all add: is_empty_delta_def json_delta_def)
qed simp

lemma flush_one_eq:
  "flush_one i p s =
     (s\<lparr>br_open_index := br_open_index s + 1, br_open_kind := None\<rparr>,
      Block_start (br_open_index s + 1) (tool_block p) #
      map (\<lambda>a. Block_delta (br_open_index s + 1) (json_delta a)) (pc_parts p) @ [Block_stop (br_open_index s + 1)])"
  by (simp add: flush_one_def open_block_def close_block_def Let_def)

lemma flush_one_ok:
  assumes "br_open_kind s = None" "parts_ok p"
  shows "emits_ok s (flush_one i p s)"
proof -
  let ?n = "br_open_index s + 1"
  let ?ds = "map (\<lambda>a. Block_delta ?n (json_delta a)) (pc_parts p) :: frame sevent list"
  define q where "q = \<lparr>seen_message_start = br_started s, current_index = ?n, current_block_type = Some ''tool_use''\<rparr>"
  have r: "reads read_event q ?ds = Some q"
    using json_parts_read [of q "pc_parts p"] by (simp add: q_def)
  have n: "list_all content_event ?ds"
    by (rule json_parts_not_empty) (use assms(2) in \<open>simp add: parts_ok_def\<close>)
  have st: "read_event (reader_of s) (Block_start ?n (tool_block p)) = Some q"
    using assms(1) by (simp add: reader_of_def tool_block_def q_def)
  have "reads read_event (reader_of s) (Block_start ?n (tool_block p) # ?ds @ [Block_stop ?n]) =
      Some (q\<lparr>current_block_type := None\<rparr>)"
    using r by (simp only: reads.simps st option.simps reads_append) (simp add: q_def)
  moreover have "list_all content_event (Block_start ?n (tool_block p) # ?ds @ [Block_stop ?n])"
    using n by simp
  ultimately show ?thesis
    unfolding emits_ok_def flush_one_eq snd_conv fst_conv by (simp only:) (simp add: q_def reader_of_def)
qed

lemma flush_each_ok:
  "br_open_kind s = None \<Longrightarrow> \<forall>(i, p) \<in> set ps. parts_ok p \<Longrightarrow> flush_each ps s = (t, out) \<Longrightarrow>
     emits_ok s (t, out) \<and> br_open_kind t = None \<and> br_started t = br_started s"
proof (induction ps arbitrary: s out)
  case (Cons x ps)
  obtain i p where x: "x = (i, p)" by fastforce
  obtain s1 o1 where f: "flush_one i p s = (s1, o1)" by fastforce
  obtain o2 where r: "flush_each ps s1 = (t, o2)" "out = o1 @ o2"
    using Cons.prems(3) x f by (auto simp: Let_def split_beta prod_eq_iff)
  have s1: "br_open_kind s1 = None" "br_started s1 = br_started s" using f by (auto simp: flush_one_eq)
  have "emits_ok s (s1, o1)" using flush_one_ok [of s p i] Cons.prems(1,2) x f by simp
  moreover have "emits_ok s1 (t, o2)" "br_open_kind t = None" "br_started t = br_started s1"
    using Cons.IH [OF s1(1) _ r(1)] Cons.prems(2) by auto
  ultimately show ?case using emits_ok_append s1(2) r(2) by auto
qed simp

lemma flush_ok:
  assumes "bridge_inv s" "flush_tool_calls s = (t, out)"
  shows "emits_ok s (t, out) \<and> bridge_inv t \<and> br_pending t = [] \<and> br_started t = br_started s"
proof (cases "br_pending s = []")
  case True
  then show ?thesis using assms by (simp add: flush_tool_calls_def)
next
  case False
  obtain s1 o1 where c: "close_if_open s = (s1, o1)" by fastforce
  obtain s2 o2 where f: "flush_each (sort_key fst (br_pending s)) s1 = (s2, o2)" by fastforce
  have t: "t = s2\<lparr>br_pending := []\<rparr>" "out = o1 @ o2"
    using assms(2) False c f close_ok [OF c] by (simp_all add: flush_tool_calls_def)
  have p: "\<forall>(i, p) \<in> set (sort_key fst (br_pending s)). parts_ok p" using assms(1) by (simp add: bridge_inv_def)
  have k: "emits_ok s (s1, o1)" "br_open_kind s1 = None" using close_ok [OF c] by simp_all
  have st: "br_started s1 = br_started s" using c by (auto simp: close_if_open_def close_block_def split: if_splits)
  have e: "emits_ok s1 (s2, o2)" "br_open_kind s2 = None" "br_started s2 = br_started s1"
    using flush_each_ok [OF k(2) p f] by simp_all
  have "emits_ok s (s2, o1 @ o2)" using emits_ok_append [OF k(1) e(1)] .
  then show ?thesis using t e st by (simp add: emits_ok_def bridge_inv_def settled_def)
qed

lemma emit_delta_ok:
  assumes "bridge_inv s" "emit_delta kind d s = (t, out)" "kind \<in> {''thinking'', ''text''}"
    and "holds_delta (Some kind) d" "\<not> is_empty_delta d"
  shows "emits_ok s (t, out) \<and> bridge_inv t \<and> br_started t = br_started s"
proof -
  obtain s1 o1 where f: "flush_tool_calls s = (s1, o1)" by fastforce
  have F: "emits_ok s (s1, o1)" "bridge_inv s1" "br_pending s1 = []" "br_started s1 = br_started s"
    using flush_ok [OF assms(1) f] by simp_all
  show ?thesis
  proof (cases "br_open_kind s1 = Some kind")
    case True
    then have t: "t = s1" "out = o1 @ [Block_delta (br_open_index s1) d]"
      using assms(2) f by (auto simp: emit_delta_def)
    have "emits_ok s1 (s1, [Block_delta (br_open_index s1) d])"
      using True assms(4,5) by (simp add: emits_ok_def reader_of_def)
    then show ?thesis using emits_ok_append [OF F(1)] t F by simp
  next
    case False
    obtain s2 o2 where c: "close_if_open s1 = (s2, o2)" by fastforce
    have C: "emits_ok s1 (s2, o2)" "br_open_kind s2 = None" "br_pending s2 = br_pending s1"
      using close_ok [OF c] by simp_all
    have st: "br_started s2 = br_started s1" using c by (auto simp: close_if_open_def close_block_def split: if_splits)
    let ?b = "[Block_start (br_open_index s2 + 1) (synthetic_block kind), Block_delta (br_open_index s2 + 1) d]"
    have t: "t = s2\<lparr>br_open_index := br_open_index s2 + 1, br_open_kind := Some kind\<rparr>" "out = o1 @ o2 @ ?b"
      using assms(2) f c False by (simp_all add: emit_delta_def open_block_def Let_def)
    have "emits_ok s2 (t, ?b)"
      using C(2) assms(4,5) by (simp add: emits_ok_def reader_of_def t synthetic_block_def)
    then have "emits_ok s (t, out)" using emits_ok_append [OF F(1) emits_ok_append [OF C(1)]] t(2) by simp
    moreover have "bridge_inv t" using assms(3) C F(3) by (auto simp: t bridge_inv_def settled_def)
    ultimately show ?thesis using st F(4) by (simp add: t)
  qed
qed

lemma thinking_fits: "t \<noteq> [] \<Longrightarrow> holds_delta (Some ''thinking'') (thinking_of t) \<and> \<not> is_empty_delta (thinking_of t)"
  by (cases t) (simp_all add: holds_delta_def delta_type_of_def thinking_of_def delta_compatible_blocks_def dget_def is_empty_delta_def)

lemma text_fits: "t \<noteq> [] \<Longrightarrow> holds_delta (Some ''text'') (text_of t) \<and> \<not> is_empty_delta (text_of t)"
  by (cases t) (simp_all add: holds_delta_def delta_type_of_def text_of_def delta_compatible_blocks_def dget_def is_empty_delta_def)

lemma nonempty_str_Some: "nonempty_str v = Some t \<Longrightarrow> v = J_str t \<and> t \<noteq> []"
  by (cases v) (auto simp: nonempty_str_def split: if_splits)

lemma emit_reasoning_ok:
  assumes "bridge_inv s" "emit_reasoning v s = (t, out)"
  shows "emits_ok s (t, out) \<and> bridge_inv t \<and> br_started t = br_started s"
proof (cases "nonempty_str v")
  case None
  then show ?thesis using assms by (simp add: emit_reasoning_def)
next
  case (Some x)
  then show ?thesis
    using emit_delta_ok [OF assms(1), of "''thinking''" "thinking_of x" t out] thinking_fits [of x]
      nonempty_str_Some [OF Some] assms(2) by (simp add: emit_reasoning_def)
qed

lemma emit_content_ok:
  assumes "bridge_inv s" "emit_content v s = (t, out)"
  shows "emits_ok s (t, out) \<and> bridge_inv t \<and> br_started t = br_started s"
proof (cases "nonempty_str v")
  case None
  then show ?thesis using assms by (simp add: emit_content_def)
next
  case (Some x)
  then show ?thesis
    using emit_delta_ok [OF assms(1), of "''text''" "text_of x" t out] text_fits [of x]
      nonempty_str_Some [OF Some] assms(2) by (simp add: emit_content_def)
qed

lemma record_delta_laws:
  assumes "bridge_inv s"
  shows "bridge_inv (record_tool_call_delta uuid i a b c s) \<and> reader_of (record_tool_call_delta uuid i a b c s) = reader_of s"
proof -
  define p where "p = (case dget (br_pending s) i of
      None \<Rightarrow> new_pending uuid (br_fresh s) a b | Some p \<Rightarrow> update_metadata a b p)"
  define part where "part = (case str_of c of Some a \<Rightarrow> if a = [] then [] else [a] | None \<Rightarrow> [])"
  have w: "dwf (br_pending s)" "\<forall>(i, p) \<in> set (br_pending s). parts_ok p" "settled s"
    using assms by (simp_all add: bridge_inv_def)
  have "parts_ok p"
    using w(2) dget_SomeD [of "br_pending s" i]
    by (auto simp: p_def parts_ok_def new_pending_def update_metadata_def split: option.splits)
  moreover have "[] \<notin> set part" by (simp add: part_def split: option.split)
  ultimately have ok: "parts_ok (p\<lparr>pc_parts := pc_parts p @ part\<rparr>)" by (simp add: parts_ok_def)
  obtain n where eq: "record_tool_call_delta uuid i a b c s =
      s\<lparr>br_pending := dput i (p\<lparr>pc_parts := pc_parts p @ part\<rparr>) (br_pending s), br_fresh := n\<rparr>"
    unfolding record_tool_call_delta_def Let_def p_def part_def by blast
  have "\<forall>(j, r) \<in> set (dput i (p\<lparr>pc_parts := pc_parts p @ part\<rparr>) (br_pending s)). parts_ok r"
    using w(2) ok set_dput_subset [of i "p\<lparr>pc_parts := pc_parts p @ part\<rparr>" "br_pending s"] by auto
  then show ?thesis using w by (simp add: eq bridge_inv_def settled_def dwf_dput)
qed

lemma record_tool_call_laws:
  "bridge_inv s \<Longrightarrow> bridge_inv (record_tool_call uuid tc s) \<and> reader_of (record_tool_call uuid tc s) = reader_of s"
  by (simp add: record_tool_call_def record_delta_laws Let_def split: option.split)

lemma record_all_laws:
  "bridge_inv s \<Longrightarrow>
     bridge_inv (fold (record_tool_call uuid) tcs s) \<and> reader_of (fold (record_tool_call uuid) tcs s) = reader_of s"
  by (induction tcs arbitrary: s) (use record_tool_call_laws in \<open>auto\<close>)

lemma bridge_inv_simps [simp]:
  "bridge_inv (s\<lparr>br_crashed := b\<rparr>) = bridge_inv s" "bridge_inv (s\<lparr>br_finish := f\<rparr>) = bridge_inv s"
  "bridge_inv (s\<lparr>br_started := c\<rparr>) = bridge_inv s" "bridge_inv (s\<lparr>br_input := i, br_output := j\<rparr>) = bridge_inv s"
  by (simp_all add: bridge_inv_def settled_def)

definition ensure_started :: "bridge \<Rightarrow> bridge \<times> frame sevent list" where
  "ensure_started s = (if br_started s then (s, []) else (s\<lparr>br_started := True\<rparr>, [message_start_event s]))"

lemma ensure_started_ok:
  "bridge_inv s \<Longrightarrow> ensure_started s = (t, out) \<Longrightarrow> emits_ok s (t, out) \<and> bridge_inv t \<and> br_started t"
  by (auto simp: ensure_started_def emits_ok_def reader_of_def message_start_event_def split: if_splits)

lemma bridge_choice_ok:
  assumes "bridge_inv s" "bridge_choice uuid choice s = (t, out)"
  shows "emits_ok s (t, out) \<and> bridge_inv t \<and> br_started t"
proof -
  let ?d = "jor (jfield choice ''delta'') (J_obj [])"
  obtain s0 o0 where a: "ensure_started s = (s0, o0)" by fastforce
  obtain s1 o1 where b: "emit_reasoning (jfield ?d ''reasoning_content'') s0 = (s1, o1)" by fastforce
  obtain s2 o2 where c: "emit_content (jfield ?d ''content'') s1 = (s2, o2)" by fastforce
  have A: "emits_ok s (s0, o0)" "bridge_inv s0" "br_started s0" using ensure_started_ok [OF assms(1) a] by simp_all
  have B: "emits_ok s0 (s1, o1)" "bridge_inv s1" "br_started s1" using emit_reasoning_ok [OF A(2) b] A(3) by simp_all
  have C: "emits_ok s1 (s2, o2)" "bridge_inv s2" "br_started s2" using emit_content_ok [OF B(2) c] B(3) by simp_all
  have e: "emits_ok s (s2, o0 @ o1 @ o2)"
    using emits_ok_append [OF A(1) emits_ok_append [OF B(1) C(1)]] .
  have r: "bridge_choice uuid choice s =
      (case iterate (jor (jfield ?d ''tool_calls'') (J_list [])) of
         None \<Rightarrow> (s2\<lparr>br_crashed := True\<rparr>, o0 @ o1 @ o2)
       | Some tcs \<Rightarrow> (note_finish (jfield choice ''finish_reason'') (fold (record_tool_call uuid) tcs s2), o0 @ o1 @ o2))"
    unfolding bridge_choice_def Let_def ensure_started_def [symmetric] a b c by (simp add: b c)
  show ?thesis
  proof (cases "iterate (jor (jfield ?d ''tool_calls'') (J_list []))")
    case None
    then show ?thesis using assms(2) r e C by (auto simp: emits_ok_def)
  next
    case (Some tcs)
    let ?f = "fold (record_tool_call uuid) tcs s2"
    have f: "bridge_inv ?f" "reader_of ?f = reader_of s2" using record_all_laws [OF C(2)] by simp_all
    have t: "t = note_finish (jfield choice ''finish_reason'') ?f" "out = o0 @ o1 @ o2"
      using assms(2) r Some by simp_all
    have "bridge_inv t \<and> reader_of t = reader_of s2"
      using f by (auto simp: t note_finish_def split: option.splits)
    moreover have "br_started t = br_started s2"
      using calculation by (metis reader_of_def san.select_convs(1))
    ultimately show ?thesis using e C t(2) by (simp add: emits_ok_def)
  qed
qed

lemma bridge_chunk_ok:
  assumes "bridge_inv s" "bridge_chunk uuid s chunk = (t, out)"
  shows "emits_ok s (t, out) \<and> bridge_inv t"
proof -
  let ?s = "note_usage (jfield chunk ''usage'') s"
  have n: "reader_of ?s = reader_of s" "bridge_inv ?s" using assms(1) by (simp_all add: note_usage_def)
  have e: "emits_ok ?s r \<Longrightarrow> emits_ok s r" for r using n(1) by (simp add: emits_ok_def)
  consider (skip) "reader_of t = reader_of s" "bridge_inv t" "out = []"
    | (choice) c where "bridge_choice uuid c ?s = (t, out)"
    using assms n by (auto simp: bridge_chunk_def Let_def split: if_splits option.splits)
  then show ?thesis
  proof cases
    case skip
    then show ?thesis by (simp add: emits_ok_def)
  next
    case choice
    then show ?thesis using bridge_choice_ok [OF n(2) choice] e by simp
  qed
qed

interpretation bridged: conforming "bridge_chunk uuid" read_content "\<lambda>s q. q = reader_of s \<and> bridge_inv s" "\<lambda>_. True"
proof unfold_locales
  fix s q x s' out
  assume "q = reader_of s \<and> bridge_inv s" "bridge_chunk uuid s x = (s', out)"
  then show "\<exists>q'. reads read_content q out = Some q' \<and> q' = reader_of s' \<and> bridge_inv s'"
    using bridge_chunk_ok [of s uuid x s' out] by (auto simp: emits_ok_def reads_content_iff)
qed

lemma new_bridge_ok: "reader_of (new_bridge mid model) = fresh_san" "bridge_inv (new_bridge mid model)"
  by (simp_all add: reader_of_def new_bridge_def fresh_san_def bridge_inv_def settled_def dwf_def)

text \<open>The events of the end, without the last two.\<close>

definition bridge_close :: "bridge \<Rightarrow> bridge \<times> frame sevent list" where
  "bridge_close s =
     (let (s, o0) = ensure_started s; (s, o1) = flush_tool_calls s; (s, o2) = close_if_open s in (s, o0 @ o1 @ o2))"

definition last_events :: "bridge \<Rightarrow> frame sevent list" where
  "last_events s =
     [Message_delta (Frame_delta (stop_reason_of (case br_finish s of Some f \<Rightarrow> f | None \<Rightarrow> ''stop''))
        (br_input s) (br_output s)), Message_stop Frame_stop]"

lemma bridge_end_eq:
  "\<not> br_crashed s \<Longrightarrow> bridge_end s = (fst (bridge_close s), snd (bridge_close s) @ last_events (fst (bridge_close s)))"
  by (simp add: bridge_end_def bridge_close_def ensure_started_def last_events_def Let_def split_beta)

lemma bridge_close_ok:
  assumes "bridge_inv s" "bridge_close s = (t, out)"
  shows "emits_ok s (t, out) \<and> br_open_kind t = None \<and> (\<exists>rest. out = snd (ensure_started s) @ rest)"
proof -
  obtain s0 o0 where a: "ensure_started s = (s0, o0)" by fastforce
  obtain s1 o1 where b: "flush_tool_calls s0 = (s1, o1)" by fastforce
  obtain s2 o2 where c: "close_if_open s1 = (s2, o2)" by fastforce
  have A: "emits_ok s (s0, o0)" "bridge_inv s0" using ensure_started_ok [OF assms(1) a] by simp_all
  have B: "emits_ok s0 (s1, o1)" using flush_ok [OF A(2) b] by simp
  have C: "emits_ok s1 (s2, o2)" "br_open_kind s2 = None" using close_ok [OF c] by simp_all
  have "t = s2" "out = o0 @ o1 @ o2" using assms(2) a b c by (simp_all add: bridge_close_def)
  then show ?thesis using emits_ok_append [OF A(1) emits_ok_append [OF B C(1)]] C(2) a by simp
qed

lemma bridge_run_ok:
  assumes "feed_all (bridge_chunk uuid) (new_bridge mid model) chunks = (s, out)"
  shows "emits_ok (new_bridge mid model) (s, out) \<and> bridge_inv s"
  using bridged.feed_conforms [OF _ _ assms, of fresh_san]
  by (auto simp: emits_ok_def new_bridge_ok reads_content_iff list_all_iff)

text \<open>When no chunk raises: \<open>choices\<close> and \<open>tool_calls\<close> can be read.\<close>

definition tool_calls_of :: "json \<Rightarrow> json" where
  "tool_calls_of choice = jor (jfield (jor (jfield choice ''delta'') (J_obj [])) ''tool_calls'') (J_list [])"

definition chunk_ok :: "json \<Rightarrow> bool" where
  "chunk_ok chunk =
     (case first_choice (jfield chunk ''choices'') of
        None \<Rightarrow> False
      | Some None \<Rightarrow> True
      | Some (Some c) \<Rightarrow> \<not> is_obj c \<or> iterate (tool_calls_of c) \<noteq> None)"

lemma flush_each_Cons:
  "flush_each (x # ps) s =
     (let r = flush_one (fst x) (snd x) s; q = flush_each ps (fst r) in (fst q, snd r @ snd q))"
  by (cases x) (simp add: Let_def split_beta)

definition kept :: "bridge \<Rightarrow> bool \<times> string \<times> string" where
  "kept s = (br_crashed s, br_message_id s, br_model s)"

lemma flush_each_kept: "kept (fst (flush_each ps s)) = kept s"
proof (induction ps arbitrary: s)
  case (Cons x ps)
  then show ?case by (simp add: flush_each_Cons Let_def flush_one_eq kept_def del: flush_each.simps)
qed simp

lemma kept_simps [simp]:
  "kept (fst (close_if_open s)) = kept s"
  "kept (fst (flush_tool_calls s)) = kept s"
  "kept (fst (ensure_started s)) = kept s"
  "kept (note_finish v s) = kept s" "kept (note_usage v s) = kept s"
proof -
  have p: "kept (s\<lparr>br_pending := x\<rparr>) = kept s" for s x by (simp add: kept_def)
  show c: "kept (fst (close_if_open s)) = kept s" by (simp add: close_if_open_def close_block_def kept_def)
  show "kept (fst (flush_tool_calls s)) = kept s"
    by (simp add: flush_tool_calls_def flush_each_kept Let_def split_beta p c)
  show "kept (fst (ensure_started s)) = kept s" by (simp add: ensure_started_def kept_def)
  show "kept (note_finish v s) = kept s" "kept (note_usage v s) = kept s"
    by (simp_all add: note_finish_def note_usage_def kept_def split: option.split)
qed

lemma open_block_kept: "kept (fst (open_block k b s)) = kept s"
  by (simp add: open_block_def kept_def)

lemma emit_kept [simp]:
  "kept (fst (emit_reasoning v s)) = kept s" "kept (fst (emit_content v s)) = kept s"
proof -
  have "kept (fst (emit_delta k d s)) = kept s" for k d
    by (simp add: emit_delta_def open_block_kept Let_def split_beta)
  then show "kept (fst (emit_reasoning v s)) = kept s" "kept (fst (emit_content v s)) = kept s"
    by (simp_all add: emit_reasoning_def emit_content_def split: option.split)
qed

lemma records_kept [simp]: "kept (fold (record_tool_call uuid) tcs s) = kept s"
proof (induction tcs arbitrary: s)
  case (Cons tc tcs)
  have "kept (record_tool_call uuid tc s) = kept s"
    by (simp add: record_tool_call_def record_tool_call_delta_def kept_def Let_def split: option.split)
  then show ?case using Cons by simp
qed simp

lemma bridge_choice_eq:
  "bridge_choice uuid c s =
     (let d = jor (jfield c ''delta'') (J_obj []); r0 = ensure_started s;
          r1 = emit_reasoning (jfield d ''reasoning_content'') (fst r0); r2 = emit_content (jfield d ''content'') (fst r1)
      in (case iterate (tool_calls_of c) of
            None \<Rightarrow> (fst r2)\<lparr>br_crashed := True\<rparr>
          | Some tcs \<Rightarrow> note_finish (jfield c ''finish_reason'') (fold (record_tool_call uuid) tcs (fst r2)),
          snd r0 @ snd r1 @ snd r2))"
  by (simp add: bridge_choice_def tool_calls_of_def ensure_started_def Let_def split_beta split: option.split)

lemma bridge_chunk_cases:
  assumes "\<not> br_crashed s"
  shows "bridge_chunk uuid s chunk =
    (case first_choice (jfield chunk ''choices'') of
       None \<Rightarrow> ((note_usage (jfield chunk ''usage'') s)\<lparr>br_crashed := True\<rparr>, [])
     | Some c \<Rightarrow> (case c of
         Some c \<Rightarrow> if is_obj c then bridge_choice uuid c (note_usage (jfield chunk ''usage'') s)
                    else (note_usage (jfield chunk ''usage'') s, [])
       | None \<Rightarrow> (note_usage (jfield chunk ''usage'') s, [])))"
  using assms by (simp add: bridge_chunk_def Let_def split: option.split)

lemma kept_crashed: "kept t = kept s \<Longrightarrow> br_crashed t = br_crashed s"
  by (simp add: kept_def)

lemma chunk_ok_kept:
  assumes "chunk_ok chunk" "\<not> br_crashed s"
  shows "kept (fst (bridge_chunk uuid s chunk)) = kept s"
  unfolding bridge_chunk_cases [OF assms(2)]
  using assms(1) by (auto simp: chunk_ok_def bridge_choice_eq Let_def split: option.splits)

lemma chunks_ok_kept:
  "list_all chunk_ok chunks \<Longrightarrow> \<not> br_crashed s \<Longrightarrow> kept (fst (feed_all (bridge_chunk uuid) s chunks)) = kept s"
proof (induction chunks arbitrary: s)
  case (Cons c cs)
  have "kept (fst (bridge_chunk uuid s c)) = kept s" using chunk_ok_kept Cons.prems by simp
  with kept_crashed [OF this] show ?case using Cons by (simp add: split_beta Let_def)
qed simp

section \<open>Framing\<close>

definition starts_message :: "bridge \<Rightarrow> frame sevent list \<Rightarrow> bool" where
  "starts_message s out \<longleftrightarrow> (\<exists>n rest. out = Message_start (Frame_start (br_message_id s) (br_model s) n) # rest)"

lemma starts_message_append: "starts_message s a \<Longrightarrow> starts_message s (a @ b)"
  by (auto simp: starts_message_def)

lemma ensure_started_starts: "\<not> br_started s \<Longrightarrow> starts_message s (snd (ensure_started s))"
  by (simp add: ensure_started_def message_start_event_def starts_message_def)

lemma starts_message_kept: "kept t = kept s \<Longrightarrow> starts_message t out = starts_message s out"
  by (simp add: kept_def starts_message_def)

lemma note_usage_started [simp]: "br_started (note_usage u s) = br_started s"
  by (simp add: note_usage_def)

lemma bridge_chunk_starts:
  assumes "bridge_inv s" "\<not> br_started s" "\<not> br_crashed s" "bridge_chunk uuid s chunk = (t, out)"
  shows "(\<not> br_started t \<and> out = []) \<or> (br_started t \<and> starts_message s out)"
proof -
  let ?s = "note_usage (jfield chunk ''usage'') s"
  consider (skip) "br_started t = br_started s" "out = []"
    | (choice) c where "bridge_choice uuid c ?s = (t, out)"
    using assms bridge_chunk_cases [OF assms(3), of uuid chunk] by (auto split: if_splits option.splits)
  then show ?thesis
  proof cases
    case skip
    then show ?thesis using assms(2) by simp
  next
    case choice
    have "bridge_inv ?s" using assms(1) by (simp add: note_usage_def)
    from bridge_choice_ok [OF this choice] have "br_started t" by simp
    moreover have "starts_message ?s out"
      using choice ensure_started_starts [of ?s] assms(2)
      by (auto simp: bridge_choice_eq Let_def intro: starts_message_append)
    ultimately show ?thesis using starts_message_kept [of ?s s] by simp
  qed
qed

lemma feed_starts:
  "bridge_inv s \<Longrightarrow> \<not> br_started s \<Longrightarrow> \<not> br_crashed s \<Longrightarrow> list_all chunk_ok chunks \<Longrightarrow>
     feed_all (bridge_chunk uuid) s chunks = (t, out) \<Longrightarrow>
     (\<not> br_started t \<and> out = []) \<or> starts_message s out"
proof (induction chunks arbitrary: s out)
  case (Cons c cs)
  obtain s1 o1 where a: "bridge_chunk uuid s c = (s1, o1)" by fastforce
  obtain o2 where b: "feed_all (bridge_chunk uuid) s1 cs = (t, o2)" "out = o1 @ o2"
    using Cons.prems(5) a by (auto simp: Let_def split_beta prod_eq_iff)
  have k: "kept s1 = kept s" using chunk_ok_kept [of c s uuid] Cons.prems a by simp
  have i: "bridge_inv s1" using bridge_chunk_ok [OF Cons.prems(1) a] by simp
  from bridge_chunk_starts [OF Cons.prems(1-3) a] show ?case
  proof
    assume n: "\<not> br_started s1 \<and> o1 = []"
    then show ?thesis
      using Cons.IH [OF i _ _ _ b(1)] Cons.prems(3,4) kept_crashed [OF k] starts_message_kept [OF k] b(2) by simp
  next
    assume "br_started s1 \<and> starts_message s o1"
    then show ?thesis using b(2) starts_message_append by simp
  qed
qed simp

fun block_event :: "'m sevent \<Rightarrow> bool" where
  "block_event (Block_start i b) = True"
| "block_event (Block_delta i d) = True"
| "block_event (Block_stop i) = True"
| "block_event _ = False"

lemma reads_after_start:
  "reads read_content q es = Some q' \<Longrightarrow> seen_message_start q \<Longrightarrow> list_all block_event es"
proof (induction es arbitrary: q)
  case (Cons e es)
  obtain q1 where q1: "read_content q e = Some q1" "reads read_content q1 es = Some q'"
    using Cons.prems(1) by (auto split: option.splits)
  have "block_event e \<and> seen_message_start q1"
    using q1(1) Cons.prems(2) by (cases e) (auto simp: read_content_def split: if_splits)
  then show ?case using Cons.IH [OF q1(2)] by simp
qed simp

lemma content_event_not_empty: "list_all content_event es \<Longrightarrow> list_all not_empty_delta es"
  by (induction es) (auto elim: content_event.elims)

lemma bridge_output:
  assumes "feed_all (bridge_chunk uuid) (new_bridge mid model) chunks = (s, o1)" "bridge_close s = (t, o2)"
  shows "reads read_content fresh_san o1 = Some (reader_of s)"
    and "reads read_content fresh_san (o1 @ o2) = Some (reader_of t)" and "br_open_kind t = None"
    and "list_all chunk_ok chunks \<Longrightarrow> \<not> br_crashed s \<and> starts_message (new_bridge mid model) (o1 @ o2)"
proof -
  let ?n = "new_bridge mid model"
  have n: "\<not> br_crashed ?n" "\<not> br_started ?n" by (simp_all add: new_bridge_def)
  have r: "emits_ok ?n (s, o1)" "bridge_inv s" using bridge_run_ok [OF assms(1)] by simp_all
  have e: "emits_ok s (t, o2)" "br_open_kind t = None" "\<exists>rest. o2 = snd (ensure_started s) @ rest"
    using bridge_close_ok [OF r(2) assms(2)] by simp_all
  show "reads read_content fresh_san o1 = Some (reader_of s)"
    using r(1) by (simp add: emits_ok_def reads_content_iff new_bridge_ok)
  show "reads read_content fresh_san (o1 @ o2) = Some (reader_of t)"
    using emits_ok_append [OF r(1) e(1)] by (simp add: emits_ok_def reads_content_iff new_bridge_ok)
  show "br_open_kind t = None" by (rule e(2))
  assume ok: "list_all chunk_ok chunks"
  have k: "kept s = kept ?n" using chunks_ok_kept [OF ok n(1), of uuid] assms(1) by simp
  have "starts_message ?n (o1 @ o2)"
    using feed_starts [OF new_bridge_ok(2) n(2,1) ok assms(1)]
  proof
    assume "\<not> br_started s \<and> o1 = []"
    then show ?thesis
      using e(3) ensure_started_starts [of s] starts_message_kept [OF k] starts_message_append by auto
  qed (rule starts_message_append)
  with kept_crashed [OF k] n(1) show "\<not> br_crashed s \<and> starts_message ?n (o1 @ o2)" by simp
qed

lemma stream_conforming:
  "reads read_event fresh_san out = Some q \<Longrightarrow> list_all not_empty_delta out \<Longrightarrow>
     protocol_ok out \<and> sanitize_events out = out"
  using conforming_stream_kept [of fresh_san out q] by (simp add: protocol_ok_def sanitize_events_def)

text \<open>
  C35. Whatever the upstream chunks are, the converted stream follows the protocol, so the sanitizer
  behind the bridge has nothing to change in it.  When no chunk raises, it is one message start
  naming the message and the model, then only content blocks, then the message delta and the
  message stop.
\<close>

theorem bridge_stream_valid:
  "let out = openai_stream_to_anthropic uuid mid model chunks
   in protocol_ok out \<and> sanitize_events out = out \<and>
      (list_all chunk_ok chunks \<longrightarrow>
         (\<exists>n blocks t. out = Message_start (Frame_start mid model n) # blocks @ last_events t \<and> list_all block_event blocks))"
proof -
  obtain s o1 where f: "feed_all (bridge_chunk uuid) (new_bridge mid model) chunks = (s, o1)" by fastforce
  obtain t o2 where c: "bridge_close s = (t, o2)" by fastforce
  note b = bridge_output [OF f c]
  have out: "openai_stream_to_anthropic uuid mid model chunks =
      (if br_crashed s then o1 else (o1 @ o2) @ last_events t)"
    using bridge_end_eq [of s] f c by (simp add: openai_stream_to_anthropic_def bridge_end_def)
  have "reads read_event fresh_san ((o1 @ o2) @ last_events t) = Some (reader_of t)"
    using b(2,3) by (simp only: reads_append [of _ _ "o1 @ o2"] reads_content_iff) (simp add: last_events_def reader_of_def)
  moreover have "list_all not_empty_delta ((o1 @ o2) @ last_events t)"
    using b(2) content_event_not_empty by (auto simp: reads_content_iff last_events_def)
  ultimately have v: "protocol_ok ((o1 @ o2) @ last_events t) \<and>
      sanitize_events ((o1 @ o2) @ last_events t) = (o1 @ o2) @ last_events t"
    by (rule stream_conforming)
  have w: "protocol_ok o1 \<and> sanitize_events o1 = o1"
    by (rule stream_conforming [of _ "reader_of s"]) (use b(1) content_event_not_empty in \<open>auto simp: reads_content_iff\<close>)
  have "\<exists>n blocks. \<not> br_crashed s \<and> o1 @ o2 = Message_start (Frame_start mid model n) # blocks \<and> list_all block_event blocks"
    if ok: "list_all chunk_ok chunks"
  proof -
    obtain n blocks where es: "o1 @ o2 = Message_start (Frame_start mid model n) # blocks"
      using b(4) [OF ok] by (auto simp: starts_message_def new_bridge_def)
    obtain q where "reads read_content (fresh_san\<lparr>seen_message_start := True\<rparr>) blocks = Some q"
      using b(2) unfolding es by (simp add: read_content_def fresh_san_def)
    then have "list_all block_event blocks" by (rule reads_after_start) simp
    then show ?thesis using b(4) [OF ok] es by blast
  qed
  with v w show ?thesis unfolding out Let_def by fastforce
qed

text \<open>Reasoning, then text around two calls whose arguments interleave, then the usage.\<close>

definition chunk_of :: "(string \<times> json) list \<Rightarrow> json" where
  "chunk_of delta = J_obj [(''choices'', J_list [J_obj [(''delta'', J_obj delta)]])]"

definition call_part :: "int \<Rightarrow> string \<Rightarrow> json" where
  "call_part i a = J_obj [(''index'', J_int i), (''function'', J_obj [(''name'', J_str ''f''), (''arguments'', J_str a)])]"

definition sample_chunks :: "json list" where
  "sample_chunks =
     [chunk_of [(''reasoning_content'', J_str ''hm'')], chunk_of [(''content'', J_str ''a'')],
      chunk_of [(''tool_calls'', J_list [call_part 1 ''1'', call_part 0 ''x''])],
      chunk_of [(''tool_calls'', J_list [call_part 1 ''2''])],
      chunk_of [(''content'', J_str ''b'')],
      J_obj [(''choices'', J_list []), (''usage'', J_obj [(''prompt_tokens'', J_int 3), (''completion_tokens'', J_int 4)])]]"

theorem bridge_stream_valid_witness:
  "sanitize_events (openai_stream_to_anthropic (\<lambda>n. ''u'') ''m'' ''q'' sample_chunks) =
     openai_stream_to_anthropic (\<lambda>n. ''u'') ''m'' ''q'' sample_chunks \<and>
   (\<exists>n blocks t. openai_stream_to_anthropic (\<lambda>n. ''u'') ''m'' ''q'' sample_chunks =
      Message_start (Frame_start ''m'' ''q'' n) # blocks @ last_events t \<and> list_all block_event blocks)"
proof -
  have "list_all chunk_ok sample_chunks" by code_simp
  then show ?thesis
    using bridge_stream_valid [of "\<lambda>n. ''u''" "''m''" "''q''" sample_chunks] by (simp add: Let_def)
qed

section \<open>The content\<close>

text \<open>What the deltas carry, in order: text and reasoning, and the fragments of arguments.\<close>

datatype said = Said string | Thought string

fun prose_of :: "'m sevent \<Rightarrow> said list" where
  "prose_of (Block_delta i d) =
     (case d_text d of Some t \<Rightarrow> [Said t] | None \<Rightarrow> []) @ (case d_thinking d of Some t \<Rightarrow> [Thought t] | None \<Rightarrow> [])"
| "prose_of _ = []"

fun args_of :: "'m sevent \<Rightarrow> string list" where
  "args_of (Block_delta i d) = (case d_partial_json d of Some a \<Rightarrow> [a] | None \<Rightarrow> [])"
| "args_of _ = []"

abbreviation prose :: "'m sevent list \<Rightarrow> said list" where
  "prose es \<equiv> concat (map prose_of es)"

abbreviation arguments :: "'m sevent list \<Rightarrow> string list" where
  "arguments es \<equiv> concat (map args_of es)"

text \<open>The same of a chunk.\<close>

definition choice_of :: "json \<Rightarrow> json option" where
  "choice_of chunk =
     (case first_choice (jfield chunk ''choices'') of Some (Some c) \<Rightarrow> if is_obj c then Some c else None | _ \<Rightarrow> None)"

definition choice_prose :: "json \<Rightarrow> said list" where
  "choice_prose c =
     (let d = jor (jfield c ''delta'') (J_obj [])
      in (case nonempty_str (jfield d ''reasoning_content'') of Some t \<Rightarrow> [Thought t] | None \<Rightarrow> []) @
         (case nonempty_str (jfield d ''content'') of Some t \<Rightarrow> [Said t] | None \<Rightarrow> []))"

definition call_of :: "json \<Rightarrow> (int \<times> string list) option" where
  "call_of tc =
     (case int_of_json (jfield tc ''index'') of
        Some i \<Rightarrow>
          if is_obj tc
          then Some (i, case nonempty_str (jfield (jor (jfield tc ''function'') (J_obj [])) ''arguments'') of
                          Some a \<Rightarrow> [a] | None \<Rightarrow> [])
          else None
      | None \<Rightarrow> None)"

definition calls_of :: "json \<Rightarrow> (int \<times> string list) list" where
  "calls_of c = (case iterate (tool_calls_of c) of Some tcs \<Rightarrow> List.map_filter call_of tcs | None \<Rightarrow> [])"

definition chunk_prose :: "json \<Rightarrow> said list" where
  "chunk_prose chunk = (case choice_of chunk of Some c \<Rightarrow> choice_prose c | None \<Rightarrow> [])"

definition chunk_calls :: "json \<Rightarrow> (int \<times> string list) list" where
  "chunk_calls chunk = (case choice_of chunk of Some c \<Rightarrow> calls_of c | None \<Rightarrow> [])"

text \<open>The fragments buffered for an index, and recording a call appends to them.\<close>

definition buffered :: "bridge \<Rightarrow> int \<Rightarrow> string list" where
  "buffered s i = (case dget (br_pending s) i of Some p \<Rightarrow> pc_parts p | None \<Rightarrow> [])"

lemma json_delta_contents [simp]: "prose_of (Block_delta i (json_delta a)) = []" "args_of (Block_delta i (json_delta a)) = [a]"
  by (simp_all add: json_delta_def)

lemma prose_delta_contents [simp]:
  "prose_of (Block_delta i (text_of t)) = [Said t]" "args_of (Block_delta i (text_of t)) = []"
  "prose_of (Block_delta i (thinking_of t)) = [Thought t]" "args_of (Block_delta i (thinking_of t)) = []"
  by (simp_all add: text_of_def thinking_of_def)

lemma contents_simps [simp]:
  "prose (snd (close_if_open s)) = []" "arguments (snd (close_if_open s)) = []"
  "prose (snd (ensure_started s)) = []" "arguments (snd (ensure_started s)) = []"
  by (simp_all add: close_if_open_def close_block_def ensure_started_def message_start_event_def)

lemma flush_one_contents: "prose (snd (flush_one i p s)) = []" "arguments (snd (flush_one i p s)) = pc_parts p"
proof -
  have "prose (map (\<lambda>a. Block_delta n (json_delta a) :: frame sevent) ps) = []"
    and "arguments (map (\<lambda>a. Block_delta n (json_delta a) :: frame sevent) ps) = ps" for n ps
    by (induction ps) (simp_all del: prose_of.simps args_of.simps)
  then show "prose (snd (flush_one i p s)) = []" "arguments (snd (flush_one i p s)) = pc_parts p"
    by (simp_all only: flush_one_eq snd_conv map_append list.simps concat_append concat.simps
        prose_of.simps(2,3) args_of.simps(2,3) append_Nil append_Nil2) simp_all
qed

lemma flush_each_contents:
  "prose (snd (flush_each ps s)) = [] \<and> arguments (snd (flush_each ps s)) = concat (map (\<lambda>x. pc_parts (snd x)) ps)"
proof (induction ps arbitrary: s)
  case (Cons x ps)
  then show ?case by (simp add: flush_each_Cons Let_def flush_one_contents del: flush_each.simps)
qed simp

text \<open>The fragments of a list of calls, grouped by index in increasing order.\<close>

definition parts_of :: "(int \<times> string list) list \<Rightarrow> int \<Rightarrow> string list" where
  "parts_of calls i = concat (map snd (filter (\<lambda>c. fst c = i) calls))"

definition group_args :: "(int \<times> string list) list \<Rightarrow> string list" where
  "group_args calls = concat (map (parts_of calls) (sorted_list_of_set (set (map fst calls))))"

text \<open>The bridge's buffer holds just what has been sent of the calls since the last flush.\<close>

definition buffers :: "bridge \<Rightarrow> (int \<times> string list) list \<Rightarrow> bool" where
  "buffers s calls \<longleftrightarrow> dwf (br_pending s) \<and> set (dkeys (br_pending s)) = set (map fst calls) \<and>
     (\<forall>i. buffered s i = parts_of calls i)"

lemma sorted_pending:
  assumes "dwf (d :: (int, pending_call) dict)"
  shows "concat (map (\<lambda>x. pc_parts (snd x)) (sort_key fst d)) =
    concat (map (\<lambda>i. case dget d i of Some p \<Rightarrow> pc_parts p | None \<Rightarrow> []) (sorted_list_of_set (set (dkeys d))))"
proof -
  have "mset (map fst (sort_key fst d)) = mset (dkeys d)" by simp
  then have "distinct (map fst (sort_key fst d))" using assms unfolding dwf_def by (rule mset_eq_imp_distinct_iff [THEN iffD2])
  then have "map fst (sort_key fst d) = sorted_list_of_set (set (dkeys d))"
    by (intro sorted_distinct_set_unique) simp_all
  then have "concat (map (\<lambda>i. case dget d i of Some p \<Rightarrow> pc_parts p | None \<Rightarrow> []) (sorted_list_of_set (set (dkeys d)))) =
      concat (map ((\<lambda>i. case dget d i of Some p \<Rightarrow> pc_parts p | None \<Rightarrow> []) \<circ> fst) (sort_key fst d))"
    by (metis map_map)
  also have "\<dots> = concat (map (\<lambda>x. pc_parts (snd x)) (sort_key fst d))"
  proof (intro arg_cong [where f = concat] map_cong refl)
    fix x assume "x \<in> set (sort_key fst d)"
    then have "dget d (fst x) = Some (snd x)" using assms by (simp add: dget_Some_iff)
    then show "((\<lambda>i. case dget d i of Some p \<Rightarrow> pc_parts p | None \<Rightarrow> []) \<circ> fst) x = pc_parts (snd x)" by simp
  qed
  finally show ?thesis by simp
qed

lemma buffers_Nil: "br_pending s = [] \<Longrightarrow> buffers s []"
  by (simp add: buffers_def buffered_def parts_of_def dwf_def)

lemma buffers_pending: "buffers s calls \<Longrightarrow> br_pending t = br_pending s \<Longrightarrow> buffers t calls"
  by (simp add: buffers_def buffered_def)

lemma flush_contents:
  assumes "buffers s calls"
  shows "prose (snd (flush_tool_calls s)) = []" "arguments (snd (flush_tool_calls s)) = group_args calls"
    and "br_pending (fst (flush_tool_calls s)) = []"
proof -
  have p: "br_pending (fst (close_if_open s)) = br_pending s" by (simp add: close_if_open_def close_block_def)
  have "arguments (snd (flush_each (sort_key fst (br_pending s)) u)) = group_args calls" for u
    using assms sorted_pending [of "br_pending s"]
    by (simp add: flush_each_contents buffers_def buffered_def group_args_def)
  moreover have "group_args calls = []" if "br_pending s = []"
    using assms that by (simp add: buffers_def group_args_def)
  ultimately show "prose (snd (flush_tool_calls s)) = []" "arguments (snd (flush_tool_calls s)) = group_args calls"
      "br_pending (fst (flush_tool_calls s)) = []"
    by (simp_all add: flush_tool_calls_def split_beta Let_def p flush_each_contents del: concat_eq_Nil_conv)
qed

lemma emit_delta_contents:
  assumes "buffers s calls"
  shows "prose (snd (emit_delta k d s)) = prose_of (Block_delta 0 d :: frame sevent)"
    and "arguments (snd (emit_delta k d s)) = group_args calls @ args_of (Block_delta 0 d :: frame sevent)"
    and "br_pending (fst (emit_delta k d s)) = []"
proof -
  have p: "br_pending (fst (close_if_open u)) = br_pending u" for u by (simp add: close_if_open_def close_block_def)
  show "prose (snd (emit_delta k d s)) = prose_of (Block_delta 0 d :: frame sevent)"
      "arguments (snd (emit_delta k d s)) = group_args calls @ args_of (Block_delta 0 d :: frame sevent)"
      "br_pending (fst (emit_delta k d s)) = []"
    using flush_contents [OF assms]
    by (simp_all add: emit_delta_def open_block_def split_beta Let_def p del: concat_eq_Nil_conv)
qed

lemma group_args_Nil [simp]: "group_args [] = []"
  by (simp add: group_args_def)

lemma emit_contents:
  assumes "buffers s calls"
  shows "prose (snd (emit_reasoning v s)) = (case nonempty_str v of Some t \<Rightarrow> [Thought t] | None \<Rightarrow> [])"
    and "prose (snd (emit_content v s)) = (case nonempty_str v of Some t \<Rightarrow> [Said t] | None \<Rightarrow> [])"
    and "arguments (snd (emit_reasoning v s)) = (if nonempty_str v = None then [] else group_args calls)"
    and "arguments (snd (emit_content v s)) = (if nonempty_str v = None then [] else group_args calls)"
    and "buffers (fst (emit_reasoning v s)) (if nonempty_str v = None then calls else [])"
    and "buffers (fst (emit_content v s)) (if nonempty_str v = None then calls else [])"
  using emit_delta_contents [OF assms] assms
  by (simp_all add: emit_reasoning_def emit_content_def buffers_Nil del: prose_of.simps args_of.simps split: option.split)

lemma buffered_record:
  "buffered (record_tool_call_delta uuid i a b c s) j =
     buffered s j @ (if j = i then (case nonempty_str c of Some t \<Rightarrow> [t] | None \<Rightarrow> []) else [])"
  by (cases "dget (br_pending s) i"; cases "str_of c")
    (simp_all add: record_tool_call_delta_def buffered_def dget_dput new_pending_def update_metadata_def nonempty_str_def Let_def)

lemma record_pending_keys:
  "set (dkeys (br_pending (record_tool_call_delta uuid i a b c s))) = insert i (set (dkeys (br_pending s)))"
  unfolding record_tool_call_delta_def Let_def by (simp add: dkeys_dput del: set_map) auto

lemma record_pending_wf: "dwf (br_pending s) \<Longrightarrow> dwf (br_pending (record_tool_call_delta uuid i a b c s))"
  by (simp add: record_tool_call_delta_def Let_def dwf_dput)

lemma buffers_record:
  assumes "buffers s calls"
  shows "buffers (record_tool_call uuid tc s) (calls @ (case call_of tc of Some c \<Rightarrow> [c] | None \<Rightarrow> []))"
proof (cases "call_of tc")
  case None
  then have "record_tool_call uuid tc s = s"
    by (auto simp: call_of_def record_tool_call_def split: option.splits if_splits)
  then show ?thesis using assms None by simp
next
  case (Some c)
  then obtain i f where r: "record_tool_call uuid tc s = record_tool_call_delta uuid i (jfield tc ''id'')
      (jfield f ''name'') (jfield f ''arguments'') s"
    "c = (i, case nonempty_str (jfield f ''arguments'') of Some a \<Rightarrow> [a] | None \<Rightarrow> [])"
    by (auto simp: call_of_def record_tool_call_def Let_def split: option.splits if_splits)
  show ?thesis
    using assms Some r by (simp add: buffers_def buffered_record record_pending_keys record_pending_wf parts_of_def del: set_map)
qed

lemma buffers_records:
  "buffers s calls \<Longrightarrow>
     buffers (fold (record_tool_call uuid) tcs s) (calls @ List.map_filter call_of tcs)"
proof (induction tcs arbitrary: s calls)
  case (Cons tc tcs)
  have "buffers (fold (record_tool_call uuid) tcs (record_tool_call uuid tc s))
      ((calls @ (case call_of tc of Some c \<Rightarrow> [c] | None \<Rightarrow> [])) @ List.map_filter call_of tcs)"
    by (rule Cons.IH [OF buffers_record [OF Cons.prems]])
  then show ?case by (cases "call_of tc") (simp_all add: map_filter_simps)
qed (simp add: map_filter_simps)

section \<open>Nothing said is lost\<close>

text \<open>
  What the output should carry: the arguments buffered since the last prose, grouped by call,
  go out before the next prose and at the end.
\<close>

fun grouped_args :: "(int \<times> string list) list \<Rightarrow> json list \<Rightarrow> string list" where
  "grouped_args calls [] = group_args calls"
| "grouped_args calls (c # cs) =
     (if chunk_prose c = [] then grouped_args (calls @ chunk_calls c) cs
      else group_args calls @ grouped_args (chunk_calls c) cs)"

lemma bridge_choice_contents:
  assumes "buffers s calls" "iterate (tool_calls_of c) \<noteq> None"
  shows "prose (snd (bridge_choice uuid c s)) = choice_prose c"
    and "arguments (snd (bridge_choice uuid c s)) = (if choice_prose c = [] then [] else group_args calls)"
    and "buffers (fst (bridge_choice uuid c s)) ((if choice_prose c = [] then calls else []) @ calls_of c)"
proof -
  let ?d = "jor (jfield c ''delta'') (J_obj [])"
  let ?v = "jfield ?d ''reasoning_content''"
  let ?w = "jfield ?d ''content''"
  let ?s1 = "fst (ensure_started s)"
  let ?s2 = "fst (emit_reasoning ?v ?s1)"
  let ?c1 = "if nonempty_str ?v = None then calls else []"
  have b0: "buffers ?s1 calls" by (rule buffers_pending [OF assms(1)]) (simp add: ensure_started_def)
  note b1 = emit_contents [OF b0]
  have b2: "buffers ?s2 ?c1" by (rule b1(5))
  note b3 = emit_contents [OF b2]
  obtain tcs where tcs: "iterate (tool_calls_of c) = Some tcs" using assms(2) by blast
  have prose: "choice_prose c = [] \<longleftrightarrow> nonempty_str ?v = None \<and> nonempty_str ?w = None"
    by (simp add: choice_prose_def Let_def split: option.split)
  show "prose (snd (bridge_choice uuid c s)) = choice_prose c"
    using b1(1) [of ?v] b3(2) [of ?w]
    by (simp add: bridge_choice_eq choice_prose_def Let_def del: concat_eq_Nil_conv)
  show "arguments (snd (bridge_choice uuid c s)) = (if choice_prose c = [] then [] else group_args calls)"
    using b1(3) [of ?v] b3(4) [of ?w]
    by (simp add: bridge_choice_eq prose Let_def del: concat_eq_Nil_conv)
  have "buffers (fold (record_tool_call uuid) tcs (fst (emit_content ?w ?s2)))
      ((if nonempty_str ?w = None then ?c1 else []) @ List.map_filter call_of tcs)"
    by (rule buffers_records [OF b3(6)])
  moreover have "br_pending (note_finish v t) = br_pending t" for v t by (simp add: note_finish_def split: option.split)
  ultimately show "buffers (fst (bridge_choice uuid c s)) ((if choice_prose c = [] then calls else []) @ calls_of c)"
    by (auto simp: bridge_choice_eq tcs calls_of_def prose Let_def intro: buffers_pending split: if_splits)
qed

lemma bridge_chunk_contents:
  assumes "buffers s calls" "chunk_ok c" "\<not> br_crashed s"
  shows "prose (snd (bridge_chunk uuid s c)) = chunk_prose c"
    and "arguments (snd (bridge_chunk uuid s c)) = (if chunk_prose c = [] then [] else group_args calls)"
    and "buffers (fst (bridge_chunk uuid s c)) ((if chunk_prose c = [] then calls else []) @ chunk_calls c)"
proof -
  let ?s = "note_usage (jfield c ''usage'') s"
  have b: "buffers ?s calls" by (rule buffers_pending [OF assms(1)]) (simp add: note_usage_def)
  note eq = bridge_chunk_cases [OF assms(3), of uuid c]
  consider (none) "choice_of c = None" "bridge_chunk uuid s c = (?s, [])"
    | (some) ch where "choice_of c = Some ch" "bridge_chunk uuid s c = bridge_choice uuid ch ?s"
        "iterate (tool_calls_of ch) \<noteq> None"
  proof (cases "\<exists>ch. first_choice (jfield c ''choices'') = Some (Some ch) \<and> is_obj ch")
    case True
    then obtain ch where ch: "first_choice (jfield c ''choices'') = Some (Some ch)" "is_obj ch" by blast
    then have "choice_of c = Some ch" "bridge_chunk uuid s c = bridge_choice uuid ch ?s" "iterate (tool_calls_of ch) \<noteq> None"
      using assms(2) by (simp_all add: eq choice_of_def chunk_ok_def)
    then show ?thesis by (rule some)
  next
    case False
    then show ?thesis using assms(2) none by (auto simp: eq choice_of_def chunk_ok_def split: option.splits)
  qed
  then have "prose (snd (bridge_chunk uuid s c)) = chunk_prose c \<and>
      arguments (snd (bridge_chunk uuid s c)) = (if chunk_prose c = [] then [] else group_args calls) \<and>
      buffers (fst (bridge_chunk uuid s c)) ((if chunk_prose c = [] then calls else []) @ chunk_calls c)"
  proof cases
    case none
    then show ?thesis using b by (simp add: chunk_prose_def chunk_calls_def)
  next
    case some
    have "chunk_prose c = choice_prose ch" "chunk_calls c = calls_of ch"
      using some(1) by (simp_all add: chunk_prose_def chunk_calls_def)
    then show ?thesis using bridge_choice_contents [OF b some(3), of uuid] some(2) by (simp only:)
  qed
  then show "prose (snd (bridge_chunk uuid s c)) = chunk_prose c"
    and "arguments (snd (bridge_chunk uuid s c)) = (if chunk_prose c = [] then [] else group_args calls)"
    and "buffers (fst (bridge_chunk uuid s c)) ((if chunk_prose c = [] then calls else []) @ chunk_calls c)" by blast+
qed

lemma bridge_run_contents:
  "buffers s calls \<Longrightarrow> list_all chunk_ok chunks \<Longrightarrow> \<not> br_crashed s \<Longrightarrow>
   feed_all (bridge_chunk uuid) s chunks = (t, out) \<Longrightarrow>
     prose out = concat (map chunk_prose chunks) \<and>
     (\<exists>left. buffers t left \<and> arguments out @ group_args left = grouped_args calls chunks)"
proof (induction chunks arbitrary: s calls out)
  case (Cons c cs)
  obtain s1 o1 where a: "bridge_chunk uuid s c = (s1, o1)" by fastforce
  obtain o2 where b: "feed_all (bridge_chunk uuid) s1 cs = (t, o2)" "out = o1 @ o2"
    using Cons.prems(4) a by (auto simp: Let_def split_beta prod_eq_iff)
  have ok: "chunk_ok c" "list_all chunk_ok cs" using Cons.prems(2) by simp_all
  note c = bridge_chunk_contents [OF Cons.prems(1) ok(1) Cons.prems(3), of uuid, unfolded a fst_conv snd_conv]
  have n: "\<not> br_crashed s1" using kept_crashed [OF chunk_ok_kept [OF ok(1) Cons.prems(3), of uuid]] Cons.prems(3) a by simp
  from Cons.IH [OF c(3) ok(2) n b(1)] obtain left where
      l: "prose o2 = concat (map chunk_prose cs)" "buffers t left"
        "arguments o2 @ group_args left = grouped_args ((if chunk_prose c = [] then calls else []) @ chunk_calls c) cs"
    by blast
  have "prose out = concat (map chunk_prose (c # cs))" using c(1) l(1) b(2) by (simp del: concat_eq_Nil_conv)
  moreover have "arguments out @ group_args left = grouped_args calls (c # cs)"
    using c(2) l(3) b(2) by (simp del: concat_eq_Nil_conv)
  ultimately show ?case using l(2) by blast
qed auto

text \<open>
  C36. Nothing said is lost, reordered or mixed: text and reasoning come out fragment by fragment in
  the order of the chunks, and the fragments of parallel tool calls, however the upstream interleaves
  them, come out call by call, each call's own in order.
\<close>

theorem bridge_keeps_content:
  assumes "list_all chunk_ok chunks"
  shows "concat (map prose_of (openai_stream_to_anthropic uuid mid model chunks)) = concat (map chunk_prose chunks) \<and>
    concat (map args_of (openai_stream_to_anthropic uuid mid model chunks)) = grouped_args [] chunks"
proof -
  let ?n = "new_bridge mid model"
  obtain s o1 where f: "feed_all (bridge_chunk uuid) ?n chunks = (s, o1)" by fastforce
  have n: "\<not> br_crashed ?n" by (simp add: new_bridge_def)
  have "buffers ?n []" by (rule buffers_Nil) (simp add: new_bridge_def)
  from bridge_run_contents [OF this assms n f] obtain left where
      l: "prose o1 = concat (map chunk_prose chunks)" "buffers s left" "arguments o1 @ group_args left = grouped_args [] chunks"
    by blast
  have k: "\<not> br_crashed s" using kept_crashed [OF chunks_ok_kept [OF assms n, of uuid]] f n by simp
  have b: "buffers (fst (ensure_started s)) left"
    by (rule buffers_pending [OF l(2)]) (simp add: ensure_started_def)
  have c: "prose (snd (bridge_close s)) = []" "arguments (snd (bridge_close s)) = group_args left"
    using flush_contents [OF b] by (simp_all add: bridge_close_def split_beta Let_def del: concat_eq_Nil_conv)
  show ?thesis
    using c l(1,3) by (simp add: openai_stream_to_anthropic_def f bridge_end_eq [OF k] last_events_def del: concat_eq_Nil_conv)
qed

theorem bridge_keeps_content_witness:
  "concat (map prose_of (openai_stream_to_anthropic (\<lambda>n. ''u'') ''m'' ''q'' sample_chunks)) =
     [Thought ''hm'', Said ''a'', Said ''b''] \<and>
   concat (map args_of (openai_stream_to_anthropic (\<lambda>n. ''u'') ''m'' ''q'' sample_chunks)) = [''x'', ''1'', ''2'']"
proof -
  have "list_all chunk_ok sample_chunks" by code_simp
  moreover have "concat (map chunk_prose sample_chunks) = [Thought ''hm'', Said ''a'', Said ''b'']" by code_simp
  moreover have "grouped_args [] sample_chunks = [''x'', ''1'', ''2'']" by code_simp
  ultimately show ?thesis using bridge_keeps_content [of sample_chunks "\<lambda>n. ''u''" "''m''" "''q''"] by simp
qed

end
