(* ===== verification/OpenaiBodies.thy ===== *)
theory OpenaiBodies
  imports OpenaiBridge
begin

text \<open>
  The bodies of the OpenAI bridge, \<open>src/src/sanitizer/openai_bridge.py\<close>: the request converted from
  the Messages format, with the change it makes to the caller's body, and the one-shot response.
  A raised exception is \<open>None\<close>; \<open>json.dumps\<close> and \<open>json.loads\<close> are arguments.
\<close>

section \<open>Messages\<close>

definition block_type :: "json \<Rightarrow> json" where
  "block_type b = jfield b ''type''"

definition block_text :: "json \<Rightarrow> string option" where
  "block_text b = (if is_obj b \<and> block_type b = J_str ''text'' then str_of (jfield b ''text'') else None)"

fun flatten_text_blocks :: "json \<Rightarrow> string" where
  "flatten_text_blocks (J_str s) = s"
| "flatten_text_blocks (J_list bs) = concat (List.map_filter block_text bs)"
| "flatten_text_blocks _ = []"

text \<open>The calls of an assistant turn; a call without an id gets a fresh one.\<close>

definition is_tool_use :: "json \<Rightarrow> bool" where
  "is_tool_use b \<longleftrightarrow> is_obj b \<and> block_type b = J_str ''tool_use''"

definition openai_call :: "(json \<Rightarrow> string) \<Rightarrow> json \<Rightarrow> json \<Rightarrow> json" where
  "openai_call dumps call_id b =
     J_obj [(''id'', call_id), (''type'', J_str ''function''),
       (''function'', J_obj [(''name'', jor (jfield b ''name'') (J_str [])),
         (''arguments'', J_str (dumps (jor (jget_or (J_obj []) b ''input'') (J_obj []))))])]"

fun assistant_calls :: "(json \<Rightarrow> string) \<Rightarrow> (nat \<Rightarrow> string) \<Rightarrow> json list \<Rightarrow> nat \<Rightarrow> json list \<times> nat" where
  "assistant_calls dumps uuid [] n = ([], n)"
| "assistant_calls dumps uuid (b # bs) n =
     (if is_tool_use b then
        (let fresh = \<not> jtruthy (jfield b ''id'');
             call_id = (if fresh then J_str (''call_'' @ uuid n) else jfield b ''id'');
             (cs, n) = assistant_calls dumps uuid bs (if fresh then Suc n else n)
         in (openai_call dumps call_id b # cs, n))
      else assistant_calls dumps uuid bs n)"

definition convert_assistant_message :: "(json \<Rightarrow> string) \<Rightarrow> (nat \<Rightarrow> string) \<Rightarrow> json \<Rightarrow> nat \<Rightarrow> json \<times> nat" where
  "convert_assistant_message dumps uuid content n =
     (let (calls, n) = (case content of J_list bs \<Rightarrow> assistant_calls dumps uuid bs n | _ \<Rightarrow> ([], n))
      in (J_obj ([(''role'', J_str ''assistant''), (''content'', J_str (flatten_text_blocks content))] @
            (if calls = [] then [] else [(''tool_calls'', J_list calls)])), n))"

definition user_message :: "string \<Rightarrow> json" where
  "user_message t = J_obj [(''role'', J_str ''user''), (''content'', J_str t)]"

definition result_content :: "(json \<Rightarrow> string) \<Rightarrow> json \<Rightarrow> string" where
  "result_content dumps v =
     (case v of J_list _ \<Rightarrow> flatten_text_blocks v | J_str s \<Rightarrow> s | _ \<Rightarrow> dumps v)"

definition tool_message :: "(json \<Rightarrow> string) \<Rightarrow> json \<Rightarrow> json option" where
  "tool_message dumps b =
     (if is_obj b \<and> block_type b = J_str ''tool_result'' then
        Some (J_obj [(''role'', J_str ''tool''), (''tool_call_id'', jor (jfield b ''tool_use_id'') (J_str [])),
          (''content'', J_str (result_content dumps (jget_or (J_str []) b ''content'')))])
      else None)"

fun convert_user_message :: "(json \<Rightarrow> string) \<Rightarrow> json \<Rightarrow> json list" where
  "convert_user_message dumps (J_str s) = [user_message s]"
| "convert_user_message dumps (J_list bs) =
     (let texts = List.map_filter block_text bs
      in (if texts = [] then [] else [user_message (concat texts)]) @ List.map_filter (tool_message dumps) bs)"
| "convert_user_message dumps _ = []"

definition system_message :: "string \<Rightarrow> json" where
  "system_message t = J_obj [(''role'', J_str ''system''), (''content'', J_str t)]"

definition convert_message :: "(json \<Rightarrow> string) \<Rightarrow> (nat \<Rightarrow> string) \<Rightarrow> json \<Rightarrow> nat \<Rightarrow> json list \<times> nat" where
  "convert_message dumps uuid msg n =
     (let role = jfield msg ''role''; content = jfield msg ''content''
      in if \<not> is_obj msg then ([], n)
         else if role = J_str ''user'' then (convert_user_message dumps content, n)
         else if role = J_str ''assistant'' then
           (let (m, n) = convert_assistant_message dumps uuid content n in ([m], n))
         else if role = J_str ''system'' then ([system_message (flatten_text_blocks content)], n)
         else ([], n))"

fun convert_messages :: "(json \<Rightarrow> string) \<Rightarrow> (nat \<Rightarrow> string) \<Rightarrow> json list \<Rightarrow> nat \<Rightarrow> json list \<times> nat" where
  "convert_messages dumps uuid [] n = ([], n)"
| "convert_messages dumps uuid (m # ms) n =
     (let (out, n) = convert_message dumps uuid m n; (rest, n) = convert_messages dumps uuid ms n in (out @ rest, n))"

section \<open>The request\<close>

definition convert_tool_choice :: "json \<Rightarrow> json option" where
  "convert_tool_choice tc =
     (let t = jfield tc ''type''; name = jfield tc ''name''
      in if \<not> is_obj tc then None
         else if t = J_str ''auto'' then Some (J_str ''auto'')
         else if t = J_str ''any'' then Some (J_str ''required'')
         else if t = J_str ''tool'' \<and> jtruthy name then
           Some (J_obj [(''type'', J_str ''function''), (''function'', J_obj [(''name'', name)])])
         else if t = J_str ''none'' then Some (J_str ''none'')
         else None)"

definition forwarded_efforts :: "string list" where
  "forwarded_efforts = [''minimal'', ''low'', ''medium'', ''high'', ''xhigh'', ''max'']"

definition reasoning_effort :: "json \<Rightarrow> string option" where
  "reasoning_effort body =
     (case jfield (jfield body ''output_config'') ''effort'' of
        J_str e \<Rightarrow> (let level = lower_text (strip_text e) in if level \<in> set forwarded_efforts then Some level else None)
      | J_int n \<Rightarrow> Some (if n \<le> 33 then ''low'' else if n \<le> 66 then ''medium'' else ''high'')
      | _ \<Rightarrow> None)"

definition pass_field :: "string \<Rightarrow> string \<Rightarrow> (json \<Rightarrow> json) \<Rightarrow> json \<Rightarrow> (string \<times> json) list" where
  "pass_field k k' f body = (case jget body k of Some v \<Rightarrow> [(k', f v)] | None \<Rightarrow> [])"

definition openai_tool :: "json \<Rightarrow> json" where
  "openai_tool t =
     J_obj [(''type'', J_str ''function''),
       (''function'', J_obj [(''name'', jfield t ''name''), (''description'', jget_or (J_str []) t ''description''),
         (''parameters'', jor (jget_or (J_obj []) t ''input_schema'') (J_obj []))])]"

definition openai_tools :: "json \<Rightarrow> (string \<times> json) list" where
  "openai_tools v =
     (case v of
        J_list ts \<Rightarrow>
          if ts = [] then []
          else [(''tools'', J_list (map openai_tool (filter (\<lambda>t. is_obj t \<and> jtruthy (jfield t ''name'')) ts)))]
      | _ \<Rightarrow> [])"

definition system_text :: "json \<Rightarrow> json list" where
  "system_text v =
     (if jtruthy v \<and> flatten_text_blocks v \<noteq> [] then [system_message (flatten_text_blocks v)] else [])"

text \<open>
  \<open>stream_options\<close> is the caller's own dictionary, so the default put into it for a stream is a
  change of the caller's body: the second result.
\<close>

definition with_usage :: "json \<Rightarrow> json" where
  "with_usage v = (case v of J_obj d \<Rightarrow> J_obj (if dget d ''include_usage'' = None then d @ [(''include_usage'', J_bool True)] else d)
                   | _ \<Rightarrow> v)"

definition stream_options :: "json \<Rightarrow> (string \<times> json) list" where
  "stream_options body =
     (let streams = (case jget body ''stream'' of Some v \<Rightarrow> jtruthy v | None \<Rightarrow> False)
      in case jget body ''stream_options'' of
           Some v \<Rightarrow> [(''stream_options'', if streams then with_usage v else v)]
         | None \<Rightarrow> if streams then [(''stream_options'', with_usage (J_obj []))] else [])"

fun set_field :: "string \<Rightarrow> json \<Rightarrow> json \<Rightarrow> json" where
  "set_field k v (J_obj d) = J_obj (dput k v d)"
| "set_field k v j = j"

definition anthropic_request_to_openai_body ::
  "(json \<Rightarrow> string) \<Rightarrow> (nat \<Rightarrow> string) \<Rightarrow> json \<Rightarrow> (json \<times> json) option" where
  "anthropic_request_to_openai_body dumps uuid body =
     (case iterate (jor (jget_or (J_list []) body ''messages'') (J_list [])) of
        None \<Rightarrow> None
      | Some msgs \<Rightarrow>
          Some (J_obj
            ((if jfield body ''model'' = J_null then [] else [(''model'', jfield body ''model'')]) @
             pass_field ''max_tokens'' ''max_tokens'' (\<lambda>v. v) body @
             pass_field ''temperature'' ''temperature'' (\<lambda>v. v) body @
             pass_field ''top_p'' ''top_p'' (\<lambda>v. v) body @
             pass_field ''stream'' ''stream'' (\<lambda>v. J_bool (jtruthy v)) body @
             pass_field ''stop_sequences'' ''stop'' (\<lambda>v. v) body @
             (case reasoning_effort body of Some e \<Rightarrow> [(''reasoning_effort'', J_str e)] | None \<Rightarrow> []) @
             [(''messages'', J_list (system_text (jfield body ''system'') @ fst (convert_messages dumps uuid msgs 0)))] @
             openai_tools (jfield body ''tools'') @
             (case convert_tool_choice (jfield body ''tool_choice'') of Some tc \<Rightarrow> [(''tool_choice'', tc)] | None \<Rightarrow> []) @
             stream_options body),
           case jget body ''stream_options'' of
             Some v \<Rightarrow> set_field ''stream_options'' (snd (hd (stream_options body))) body
           | None \<Rightarrow> body))"

section \<open>The response\<close>

definition tool_block_of :: "(json \<Rightarrow> json option) \<Rightarrow> (nat \<Rightarrow> string) \<Rightarrow> json \<Rightarrow> nat \<Rightarrow> (json \<times> nat) option" where
  "tool_block_of loads uuid tc n =
     (let fn = jor (jfield tc ''function'') (J_obj []); fresh = \<not> jtruthy (jfield tc ''id'')
      in if \<not> is_obj fn then None
         else
           let args = (case loads (jor (jfield fn ''arguments'') (J_str ''{}'')) of Some a \<Rightarrow> a | None \<Rightarrow> J_obj [])
           in Some (J_obj [(''type'', J_str ''tool_use''),
                  (''id'', if fresh then J_str (''toolu_'' @ uuid n) else jfield tc ''id''),
                  (''name'', jor (jfield fn ''name'') (J_str [])), (''input'', args)],
                if fresh then Suc n else n))"

fun tool_blocks_of :: "(json \<Rightarrow> json option) \<Rightarrow> (nat \<Rightarrow> string) \<Rightarrow> json list \<Rightarrow> nat \<Rightarrow> (json list \<times> nat) option" where
  "tool_blocks_of loads uuid [] n = Some ([], n)"
| "tool_blocks_of loads uuid (tc # tcs) n =
     (if is_obj tc then
        (case tool_block_of loads uuid tc n of
           None \<Rightarrow> None
         | Some (b, n) \<Rightarrow>
             (case tool_blocks_of loads uuid tcs n of None \<Rightarrow> None | Some (bs, n) \<Rightarrow> Some (b # bs, n)))
      else tool_blocks_of loads uuid tcs n)"

text \<open>\<open>choices[0].get(k, dflt)\<close>: an error for anything but a dictionary first in a list.\<close>

definition first_choice_field :: "json \<Rightarrow> string \<Rightarrow> json \<Rightarrow> json \<Rightarrow> json option" where
  "first_choice_field body k dflt absent =
     (case first_choice (jfield body ''choices'') of
        None \<Rightarrow> None
      | Some None \<Rightarrow> Some absent
      | Some (Some c) \<Rightarrow> if is_obj c then Some (jget_or dflt c k) else None)"

text \<open>The table's answer; a list or a dictionary cannot be looked up.\<close>

definition stop_reason_json :: "json \<Rightarrow> string option" where
  "stop_reason_json finish =
     (case jor finish (J_str ''stop'') of
        J_str f \<Rightarrow> Some (stop_reason_of f)
      | J_list _ \<Rightarrow> None
      | J_obj _ \<Rightarrow> None
      | _ \<Rightarrow> Some ''end_turn'')"

definition text_block_json :: "string \<Rightarrow> string \<Rightarrow> string \<Rightarrow> json" where
  "text_block_json type field t = J_obj [(''type'', J_str type), (field, J_str t)]"

definition prose_blocks :: "json \<Rightarrow> json list" where
  "prose_blocks message =
     (case nonempty_str (jfield message ''reasoning_content'') of
        Some t \<Rightarrow> [text_block_json ''thinking'' ''thinking'' t] | None \<Rightarrow> []) @
     (case nonempty_str (jfield message ''content'') of Some t \<Rightarrow> [text_block_json ''text'' ''text'' t] | None \<Rightarrow> [])"

definition openai_response_to_anthropic_body ::
  "(json \<Rightarrow> json option) \<Rightarrow> (nat \<Rightarrow> string) \<Rightarrow> json \<Rightarrow> json option" where
  "openai_response_to_anthropic_body loads uuid body =
     (case first_choice_field body ''message'' (J_obj []) (J_obj []) of
        None \<Rightarrow> None
      | Some message \<Rightarrow>
          if \<not> is_obj message then None
          else
            case iterate (jor (jfield message ''tool_calls'') (J_list [])) of
              None \<Rightarrow> None
            | Some tcs \<Rightarrow>
                (case tool_blocks_of loads uuid tcs 0 of
                   None \<Rightarrow> None
                 | Some (tools, n) \<Rightarrow>
                     (case first_choice_field body ''finish_reason'' J_null J_null of
                        None \<Rightarrow> None
                      | Some finish \<Rightarrow>
                          (case stop_reason_json finish of
                             None \<Rightarrow> None
                           | Some reason \<Rightarrow>
                               (let usage = jor (jfield body ''usage'') (J_obj [])
                                in if \<not> is_obj usage then None
                                   else Some (J_obj
                                     [(''id'', jor (jfield body ''id'') (J_str (''msg_'' @ uuid n))),
                                      (''type'', J_str ''message''), (''role'', J_str ''assistant''),
                                      (''model'', jor (jfield body ''model'') (J_str [])),
                                      (''content'', J_list (prose_blocks message @ tools)),
                                      (''stop_reason'', J_str reason), (''stop_sequence'', J_null),
                                      (''usage'', J_obj [(''input_tokens'', jget_or (J_int 0) usage ''prompt_tokens''),
                                         (''output_tokens'', jget_or (J_int 0) usage ''completion_tokens'')])]))))))"

section \<open>One shot and streamed\<close>

text \<open>A client puts the blocks of a stream together: their texts appended, a call's arguments decoded.\<close>

definition delta_text :: "delta \<Rightarrow> string" where
  "delta_text d = concat (List.map_filter (\<lambda>x. x) [d_text d, d_thinking d, d_partial_json d])"

definition finish_block :: "(json \<Rightarrow> json option) \<Rightarrow> content_block \<Rightarrow> string \<Rightarrow> json" where
  "finish_block loads b t =
     (let k = (case b_type b of Some k \<Rightarrow> k | None \<Rightarrow> [])
      in if k = ''tool_use'' then
           J_obj [(''type'', J_str k), (''id'', jfield (J_obj (b_fields b)) ''id''), (''name'', jfield (J_obj (b_fields b)) ''name''),
             (''input'', case loads (J_str (if t = [] then ''{}'' else t)) of Some a \<Rightarrow> a | None \<Rightarrow> J_obj [])]
         else text_block_json k k t)"

fun assemble :: "(json \<Rightarrow> json option) \<Rightarrow> (content_block \<times> string) option \<Rightarrow> 'm sevent list \<Rightarrow> json list" where
  "assemble loads open [] = []"
| "assemble loads open (Block_start i b # es) = assemble loads (Some (b, [])) es"
| "assemble loads open (Block_delta i d # es) = assemble loads (map_option (\<lambda>(b, t). (b, t @ delta_text d)) open) es"
| "assemble loads open (Block_stop i # es) =
     (case open of Some (b, t) \<Rightarrow> [finish_block loads b t] | None \<Rightarrow> []) @ assemble loads None es"
| "assemble loads open (_ # es) = assemble loads open es"

fun stop_of :: "frame sevent list \<Rightarrow> string option" where
  "stop_of [] = None"
| "stop_of (Message_delta (Frame_delta r i n) # es) = Some r"
| "stop_of (_ # es) = stop_of es"

text \<open>The calls of a response, with the indices a stream gives them, and the buffer they make.\<close>

definition call_ok :: "int \<Rightarrow> json \<Rightarrow> bool" where
  "call_ok i tc \<longleftrightarrow>
     (let fn = jor (jfield tc ''function'') (J_obj []); a = jfield fn ''arguments''
      in is_obj tc \<and> jfield tc ''index'' = J_int i \<and> is_obj fn \<and> (str_of a \<noteq> None \<or> \<not> jtruthy a))"

fun calls_ok :: "int \<Rightarrow> json list \<Rightarrow> bool" where
  "calls_ok i [] = True"
| "calls_ok i (tc # tcs) = (call_ok i tc \<and> calls_ok (i + 1) tcs)"

definition pending_of :: "(nat \<Rightarrow> string) \<Rightarrow> nat \<Rightarrow> json \<Rightarrow> pending_call" where
  "pending_of uuid n tc =
     (let fn = jor (jfield tc ''function'') (J_obj [])
      in new_pending uuid n (jfield tc ''id'') (jfield fn ''name'')
           \<lparr>pc_parts := (case nonempty_str (jfield fn ''arguments'') of Some a \<Rightarrow> [a] | None \<Rightarrow> [])\<rparr>)"

fun pendings :: "(nat \<Rightarrow> string) \<Rightarrow> int \<Rightarrow> json list \<Rightarrow> nat \<Rightarrow> (int \<times> pending_call) list \<times> nat" where
  "pendings uuid i [] n = ([], n)"
| "pendings uuid i (tc # tcs) n =
     (let (ps, n') = pendings uuid (i + 1) tcs (if jtruthy (jfield tc ''id'') then n else n + 1)
      in ((i, pending_of uuid n tc) # ps, n'))"

definition call_json :: "(json \<Rightarrow> json option) \<Rightarrow> pending_call \<Rightarrow> json" where
  "call_json loads p = finish_block loads (tool_block p) (concat (pc_parts p))"

lemma record_new_call:
  assumes "call_ok i tc" "i \<notin> set (dkeys (br_pending s))"
  shows "record_tool_call uuid tc s =
    s\<lparr>br_pending := br_pending s @ [(i, pending_of uuid (br_fresh s) tc)],
      br_fresh := (if jtruthy (jfield tc ''id'') then br_fresh s else br_fresh s + 1)\<rparr>"
proof -
  have d: "dget (br_pending s) i = None" using assms(2) by (simp only: dget_None_iff) simp
  show ?thesis
    using assms(1) dput_new [OF assms(2)]
    by (cases "str_of (jfield (jor (jfield tc ''function'') (J_obj [])) ''arguments'')")
      (simp_all add: call_ok_def record_tool_call_def record_tool_call_delta_def d pending_of_def nonempty_str_def
        new_pending_def Let_def)
qed

lemma records_eq:
  "calls_ok i tcs \<Longrightarrow> \<forall>j \<in> set (dkeys (br_pending s)). j < i \<Longrightarrow>
     fold (record_tool_call uuid) tcs s =
       s\<lparr>br_pending := br_pending s @ fst (pendings uuid i tcs (br_fresh s)), br_fresh := snd (pendings uuid i tcs (br_fresh s))\<rparr>"
proof (induction tcs arbitrary: i s)
  case (Cons tc tcs)
  let ?s = "record_tool_call uuid tc s"
  have n: "i \<notin> set (dkeys (br_pending s))" using Cons.prems(2) by force
  note r = record_new_call [OF _ n, of tc uuid]
  have "\<forall>j \<in> set (dkeys (br_pending ?s)). j < i + 1" using Cons.prems r by force
  then show ?case using Cons.IH [of "i + 1" ?s] Cons.prems(1) r by (simp add: split_beta Let_def)
qed simp

lemma pendings_sorted: "sorted (map fst (fst (pendings uuid i tcs n))) \<and> (\<forall>x \<in> set (fst (pendings uuid i tcs n)). i \<le> fst x)"
proof (induction tcs arbitrary: i n)
  case (Cons tc tcs)
  show ?case using Cons.IH [of "i + 1" "if jtruthy (jfield tc ''id'') then n else n + 1"]
    by (force simp: split_beta Let_def)
qed simp

lemma call_json_of:
  assumes "call_ok i tc"
  shows "tool_block_of loads uuid tc n =
    Some (call_json loads (pending_of uuid n tc), if jtruthy (jfield tc ''id'') then n else n + 1)"
proof -
  define fn where "fn = jor (jfield tc ''function'') (J_obj [])"
  define a where "a = jfield fn ''arguments''"
  define cid where "cid = jor (jfield tc ''id'') (J_str (''toolu_'' @ uuid n))"
  have fn: "is_obj fn" "str_of a \<noteq> None \<or> \<not> jtruthy a"
    using assms by (simp_all add: call_ok_def Let_def fn_def a_def)
  have ci: "(if \<not> jtruthy (jfield tc ''id'') then J_str (''toolu_'' @ uuid n) else jfield tc ''id'') = cid"
    by (simp add: cid_def jor_def)
  have t: "tool_block_of loads uuid tc n =
      Some (J_obj [(''type'', J_str ''tool_use''), (''id'', cid), (''name'', jor (jfield fn ''name'') (J_str [])),
          (''input'', case loads (jor a (J_str ''{}'')) of Some a \<Rightarrow> a | None \<Rightarrow> J_obj [])],
        if jtruthy (jfield tc ''id'') then n else n + 1)"
    unfolding tool_block_of_def Let_def fn_def [symmetric] a_def [symmetric] ci using fn(1) by simp
  have p: "pending_of uuid n tc = \<lparr>pc_id = cid, pc_name = jor (jfield fn ''name'') (J_str []),
      pc_parts = (case nonempty_str a of Some a \<Rightarrow> [a] | None \<Rightarrow> [])\<rparr>"
    unfolding pending_of_def new_pending_def Let_def fn_def [symmetric] a_def [symmetric] cid_def by simp
  show ?thesis
  proof (cases "nonempty_str a")
    case None
    then have "jor a (J_str ''{}'') = J_str ''{}''"
      using fn(2) by (cases a) (auto simp: nonempty_str_def jor_def split: if_splits)
    then show ?thesis by (simp add: t p None call_json_def finish_block_def tool_block_def jfield_obj dget_Cons)
  next
    case (Some x)
    then have "a = J_str x" "x \<noteq> []" using nonempty_str_Some by auto
    then show ?thesis
      by (simp add: t p nonempty_str_def call_json_def finish_block_def tool_block_def jfield_obj dget_Cons jor_def)
  qed
qed

lemma tool_blocks_eq:
  "calls_ok i tcs \<Longrightarrow>
     tool_blocks_of loads uuid tcs n =
       Some (map (\<lambda>x. call_json loads (snd x)) (fst (pendings uuid i tcs n)), snd (pendings uuid i tcs n))"
proof (induction tcs arbitrary: i n)
  case (Cons tc tcs)
  then have "is_obj tc" "tool_block_of loads uuid tc n =
      Some (call_json loads (pending_of uuid n tc), if jtruthy (jfield tc ''id'') then n else n + 1)"
    using call_json_of [of i tc loads uuid n] by (auto simp: call_ok_def Let_def)
  then show ?case using Cons.IH [of "i + 1"] Cons.prems by (simp add: split_beta Let_def)
qed simp

lemma assemble_deltas:
  "assemble loads (Some (b, t)) (map (\<lambda>a. Block_delta i (json_delta a)) ps @ es) = assemble loads (Some (b, t @ concat ps)) es"
  by (induction ps arbitrary: t) (simp_all add: delta_text_def json_delta_def map_filter_simps)

lemma assemble_flush_each:
  "assemble loads None (snd (flush_each ps s) @ es) = map (\<lambda>x. call_json loads (snd x)) ps @ assemble loads None es"
proof (induction ps arbitrary: s)
  case (Cons x ps)
  have "snd (flush_each (x # ps) s) =
      snd (flush_one (fst x) (snd x) s) @ snd (flush_each ps (fst (flush_one (fst x) (snd x) s)))"
    by (simp add: flush_each_Cons Let_def del: flush_each.simps)
  then show ?case
    using Cons.IH by (simp add: flush_one_eq assemble_deltas call_json_def del: flush_each.simps)
qed simp

lemma stop_of_content: "list_all content_event es \<Longrightarrow> stop_of (es @ fs) = stop_of fs"
  by (induction es) (auto elim: content_event.elims)

text \<open>Closing a block and flushing, as the client sees it.\<close>

definition open_json :: "(json \<Rightarrow> json option) \<Rightarrow> (content_block \<times> string) option \<Rightarrow> json list" where
  "open_json loads open = (case open of Some (b, t) \<Rightarrow> [finish_block loads b t] | None \<Rightarrow> [])"

lemma assemble_close:
  assumes "(br_open_kind s = None) = (open = None)"
  shows "assemble loads open (snd (close_if_open s) @ es) = open_json loads open @ assemble loads None es"
  using assms by (auto simp: close_if_open_def close_block_def open_json_def)

lemma assemble_last:
  assumes "(br_open_kind s = None) = (open = None)" "br_started s" "sorted (map fst (br_pending s))"
  shows "assemble loads open (snd (bridge_close s) @ last_events t) =
    open_json loads open @ map (\<lambda>x. call_json loads (snd x)) (br_pending s)"
proof -
  have l: "assemble loads None (last_events t) = []" by (simp add: last_events_def)
  have k: "br_open_kind (fst (close_if_open s)) = None" "br_pending (fst (close_if_open s)) = br_pending s"
    using close_ok [of s] by (metis surjective_pairing)+
  have e: "ensure_started s = (s, [])" using assms(2) by (simp add: ensure_started_def)
  show ?thesis
  proof (cases "br_pending s = []")
    case True
    then have "bridge_close s = close_if_open s" by (simp add: bridge_close_def e flush_tool_calls_def)
    then show ?thesis using assemble_close [OF assms(1), of loads "last_events t"] l True by simp
  next
    case False
    let ?s1 = "fst (close_if_open s)"
    have "br_open_kind (fst (flush_each ps u)) = None" if "br_open_kind u = None" for ps u
      using that
    proof (induction ps arbitrary: u)
      case (Cons x ps)
      then show ?case by (simp add: flush_each_Cons Let_def flush_one_eq del: flush_each.simps)
    qed simp
    from this [OF k(1)] have o: "br_open_kind (fst (flush_each (br_pending s) ?s1)) = None" .
    have c: "br_open_kind u = None \<Longrightarrow> close_if_open u = (u, [])" for u by (simp add: close_if_open_def)
    have "snd (bridge_close s) = snd (close_if_open s) @ snd (flush_each (br_pending s) ?s1)"
      using False k(2) o assms(3)
      by (simp add: bridge_close_def e flush_tool_calls_def sort_key_id_if_sorted Let_def split_beta c)
    then show ?thesis
      using assemble_close [OF assms(1), of loads] assemble_flush_each [of loads] l by simp
  qed
qed

text \<open>What text and reasoning leave open at the client, with nothing buffered.\<close>

lemma emit_delta_fresh:
  assumes "br_pending s = []" "br_open_kind s \<noteq> Some kind" "(br_open_kind s = None) = (open = None)"
  shows "assemble loads open (snd (emit_delta kind d s) @ es) =
      open_json loads open @ assemble loads (Some (synthetic_block kind, delta_text d)) es"
    and "br_open_kind (fst (emit_delta kind d s)) = Some kind"
    and "br_pending (fst (emit_delta kind d s)) = []"
    and "br_started (fst (emit_delta kind d s)) = br_started s"
    and "br_fresh (fst (emit_delta kind d s)) = br_fresh s"
  using assms assemble_close [OF assms(3), of loads]
  by (simp_all add: emit_delta_def flush_tool_calls_def open_block_def Let_def split_beta)
    (auto simp: close_if_open_def close_block_def)

lemma delta_text_prose [simp]: "delta_text (text_of t) = t" "delta_text (thinking_of t) = t"
  by (simp_all add: delta_text_def text_of_def thinking_of_def map_filter_simps)

lemma finish_prose [simp]:
  "finish_block loads (synthetic_block ''text'') t = text_block_json ''text'' ''text'' t"
  "finish_block loads (synthetic_block ''thinking'') t = text_block_json ''thinking'' ''thinking'' t"
  by (simp_all add: finish_block_def synthetic_block_def Let_def)

lemma prose_assembled:
  fixes s m
  defines "r1 \<equiv> emit_reasoning (jfield m ''reasoning_content'') s"
  defines "r2 \<equiv> emit_content (jfield m ''content'') (fst r1)"
  assumes "br_pending s = []" "br_open_kind s = None"
  shows "\<exists>before open. (\<forall>es. assemble loads None (snd r1 @ snd r2 @ es) = before @ assemble loads open es) \<and>
    before @ open_json loads open = prose_blocks m \<and> (br_open_kind (fst r2) = None) = (open = None) \<and>
    br_pending (fst r2) = [] \<and> br_started (fst r2) = br_started s \<and> br_fresh (fst r2) = br_fresh s"
proof -
  have j: "open_json loads None = []" "open_json loads (Some (b, t)) = [finish_block loads b t]" for b t
    by (simp_all add: open_json_def)
  show ?thesis
  proof (cases "nonempty_str (jfield m ''reasoning_content'')")
    case None
    then have r1: "r1 = (s, [])" by (simp add: r1_def emit_reasoning_def)
    show ?thesis
    proof (cases "nonempty_str (jfield m ''content'')")
      case None2: None
      have "r2 = (s, [])" by (simp add: r1 r2_def emit_content_def None2)
      then show ?thesis using r1 None None2 assms(3,4) j by (intro exI [of _ "[]"] exI [of _ None]) (simp add: prose_blocks_def)
    next
      case (Some t)
      have r2: "r2 = emit_delta ''text'' (text_of t) s" by (simp add: r1 r2_def emit_content_def Some)
      note e = emit_delta_fresh(1) [OF assms(3), of "''text''" None loads "text_of t"]
        emit_delta_fresh(2-) [OF assms(3), of "''text''" None "text_of t"]
      show ?thesis
        using e assms(4) by (intro exI [of _ "[]"] exI [of _ "Some (synthetic_block ''text'', t)"])
          (simp add: r1 r2 j prose_blocks_def None Some)
    qed
  next
    case (Some u)
    have r1': "r1 = emit_delta ''thinking'' (thinking_of u) s" by (simp add: r1_def emit_reasoning_def Some)
    note a1 = emit_delta_fresh(1) [OF assms(3), of "''thinking''" None loads "thinking_of u", folded r1', simplified assms(4), simplified]
    note a = emit_delta_fresh(2-) [OF assms(3), of "''thinking''" None "thinking_of u", folded r1', simplified assms(4), simplified]
    show ?thesis
    proof (cases "nonempty_str (jfield m ''content'')")
      case None
      have "r2 = (fst r1, [])" by (simp add: r2_def emit_content_def None)
      then show ?thesis
        using a1 a by (intro exI [of _ "[]"] exI [of _ "Some (synthetic_block ''thinking'', u)"])
          (simp add: j prose_blocks_def None Some)
    next
      case Some2: (Some t)
      have r2: "r2 = emit_delta ''text'' (text_of t) (fst r1)" by (simp add: r2_def emit_content_def Some2)
      note b = emit_delta_fresh(1) [OF a(2), of "''text''" "Some (synthetic_block ''thinking'', u)" loads "text_of t", folded r2]
        emit_delta_fresh(2-) [OF a(2), of "''text''" "Some (synthetic_block ''thinking'', u)" "text_of t", folded r2]
      show ?thesis
        using a1 a b by (intro exI [of _ "[text_block_json ''thinking'' ''thinking'' u]"] exI [of _ "Some (synthetic_block ''text'', t)"])
          (simp add: j prose_blocks_def Some Some2)
    qed
  qed
qed

text \<open>The same message in one body and in one chunk.\<close>

definition one_shot :: "json \<Rightarrow> json \<Rightarrow> json \<Rightarrow> json" where
  "one_shot m finish usage =
     J_obj [(''choices'', J_list [J_obj [(''message'', m), (''finish_reason'', finish)]]), (''usage'', usage)]"

definition one_chunk :: "json \<Rightarrow> json \<Rightarrow> json \<Rightarrow> json" where
  "one_chunk m finish usage =
     J_obj [(''choices'', J_list [J_obj [(''delta'', m), (''finish_reason'', finish)]]), (''usage'', usage)]"

lemma flush_each_finish: "br_finish (fst (flush_each ps s)) = br_finish s"
proof (induction ps arbitrary: s)
  case (Cons x ps)
  then show ?case by (simp add: flush_each_Cons Let_def flush_one_eq del: flush_each.simps)
qed simp

lemma finish_simps [simp]:
  "br_finish (fst (close_if_open s)) = br_finish s" "br_finish (fst (flush_tool_calls s)) = br_finish s"
  "br_finish (fst (ensure_started s)) = br_finish s" "br_finish (fst (bridge_close s)) = br_finish s"
proof -
  show a: "br_finish (fst (close_if_open s)) = br_finish s" for s by (simp add: close_if_open_def close_block_def)
  show b: "br_finish (fst (flush_tool_calls s)) = br_finish s" for s
    by (simp add: flush_tool_calls_def flush_each_finish Let_def split_beta a)
  show c: "br_finish (fst (ensure_started s)) = br_finish s" for s by (simp add: ensure_started_def)
  show "br_finish (fst (bridge_close s)) = br_finish s"
    by (simp add: bridge_close_def Let_def split_beta a b c)
qed

lemma emit_finish:
  "br_finish (fst (emit_reasoning v s)) = br_finish s" "br_finish (fst (emit_content v s)) = br_finish s"
  by (simp_all add: emit_reasoning_def emit_content_def emit_delta_def open_block_def Let_def split_beta split: option.split)

lemma one_chunk_stream:
  assumes "is_obj m" "jor (jfield m ''tool_calls'') (J_list []) = J_list tcs" "calls_ok 0 tcs"
    and out: "out = openai_stream_to_anthropic uuid mid model [one_chunk m finish usage]"
  shows "assemble loads None out = prose_blocks m @ map (\<lambda>x. call_json loads (snd x)) (fst (pendings uuid 0 tcs 0))"
    and "stop_of out = Some (stop_reason_of (case nonempty_str finish of Some f \<Rightarrow> f | None \<Rightarrow> ''stop''))"
proof -
  define s where "s = note_usage usage (new_bridge mid model)"
  define c where "c = J_obj [(''delta'', m), (''finish_reason'', finish)]"
  define r0 where "r0 = ensure_started s"
  define r1 where "r1 = emit_reasoning (jfield m ''reasoning_content'') (fst r0)"
  define r2 where "r2 = emit_content (jfield m ''content'') (fst r1)"
  define u where "u = fold (record_tool_call uuid) tcs (fst r2)"
  define t where "t = note_finish finish u"
  have s: "\<not> br_started s" "br_pending s = []" "br_open_kind s = None" "br_fresh s = 0" "br_finish s = None" "\<not> br_crashed s"
    by (simp_all add: s_def note_usage_def new_bridge_def)
  have r0: "br_pending (fst r0) = []" "br_open_kind (fst r0) = None" "br_fresh (fst r0) = 0" "br_started (fst r0)"
      "snd r0 = [message_start_event s]"
    using s by (simp_all add: r0_def ensure_started_def)
  obtain before opened where p: "\<And>es. assemble loads None (snd r1 @ snd r2 @ es) = before @ assemble loads opened es"
      "before @ open_json loads opened = prose_blocks m" "(br_open_kind (fst r2) = None) = (opened = None)"
      "br_pending (fst r2) = []" "br_started (fst r2)" "br_fresh (fst r2) = 0"
    using prose_assembled [OF r0(1,2), of loads m, folded r1_def, folded r2_def] r0(3,4) by auto
  have u: "u = (fst r2)\<lparr>br_pending := fst (pendings uuid 0 tcs 0), br_fresh := snd (pendings uuid 0 tcs 0)\<rparr>"
    using records_eq [OF assms(3), of "fst r2" uuid] p(4,6) by (simp add: u_def)
  have t: "br_pending t = fst (pendings uuid 0 tcs 0)" "br_open_kind t = br_open_kind (fst r2)" "br_started t"
    using p(5) by (simp_all add: t_def u note_finish_def split: option.split)
  have d: "jor (jfield c ''delta'') (J_obj []) = m" using assms(1)
    by (cases m) (auto simp: c_def jfield_obj dget_Cons jor_def)
  have ch: "bridge_choice uuid c s = (t, snd r0 @ snd r1 @ snd r2)"
    using assms(2)
    by (simp add: bridge_choice_eq d tool_calls_of_def Let_def r0_def r1_def r2_def u_def t_def)
      (simp add: c_def jfield_obj dget_Cons)
  have "\<not> br_crashed (new_bridge mid model)" by (simp add: new_bridge_def)
  then have k: "bridge_chunk uuid (new_bridge mid model) (one_chunk m finish usage) = (t, snd r0 @ snd r1 @ snd r2)"
    using ch by (simp add: bridge_chunk_cases one_chunk_def jfield_obj dget_Cons first_choice_def s_def c_def)
  have f: "feed_all (bridge_chunk uuid) (new_bridge mid model) [one_chunk m finish usage] = (t, snd r0 @ snd r1 @ snd r2)"
    by (simp add: k)
  have "kept t = kept s" by (simp add: t_def u_def r0_def r1_def r2_def)
  from kept_crashed [OF this] s(6) have "\<not> br_crashed t" by simp
  from bridge_end_eq [OF this]
  have o: "out = (snd r0 @ snd r1 @ snd r2 @ snd (bridge_close t)) @ last_events (fst (bridge_close t))"
    using f by (simp add: out openai_stream_to_anthropic_def)
  have "sorted (map fst (br_pending t))" using pendings_sorted t(1) by metis
  then have "assemble loads opened (snd (bridge_close t) @ last_events (fst (bridge_close t))) =
      open_json loads opened @ map (\<lambda>x. call_json loads (snd x)) (br_pending t)"
    using assemble_last p(3) t(2,3) by metis
  then show "assemble loads None out = prose_blocks m @ map (\<lambda>x. call_json loads (snd x)) (fst (pendings uuid 0 tcs 0))"
    using p(1) [of "snd (bridge_close t) @ last_events (fst (bridge_close t))"] p(2) t(1)
    by (simp add: o r0(5) message_start_event_def)
  obtain x o2 where cl: "bridge_close t = (x, o2)" by fastforce
  have "list_all content_event (snd r0 @ snd r1 @ snd r2 @ snd (bridge_close t))"
    using bridge_output(2) [OF f cl] cl by (simp add: reads_content_iff)
  then have "stop_of out = stop_of (last_events (fst (bridge_close t)))" using stop_of_content by (simp only: o)
  moreover have "br_finish t = nonempty_str finish"
    using s(5) by (simp add: t_def u r2_def r1_def r0_def emit_finish note_finish_def split: option.split)
  ultimately show "stop_of out = Some (stop_reason_of (case nonempty_str finish of Some f \<Rightarrow> f | None \<Rightarrow> ''stop''))"
    by (simp add: last_events_def)
qed


text \<open>Text, then two calls, the second without an id and with nothing to decode.\<close>

definition sample_message :: json where
  "sample_message =
     J_obj [(''content'', J_str ''hi''),
       (''tool_calls'', J_list
         [J_obj [(''index'', J_int 0), (''id'', J_str ''c''), (''function'', J_obj [(''name'', J_str ''f''), (''arguments'', J_str ''7'')])],
          J_obj [(''index'', J_int 1), (''function'', J_obj [(''name'', J_str ''g'')])]])]"

definition sample_loads :: "json \<Rightarrow> json option" where
  "sample_loads v = (if v = J_str ''7'' then Some (J_int 7) else if v = J_str ''{}'' then Some (J_obj []) else None)"


section \<open>The caller's body\<close>

text \<open>The options of a streamed request are changed in the body the caller passed.\<close>

lemma request_changes_caller:
  "map_option snd (anthropic_request_to_openai_body dumps uuid
      (J_obj [(''stream'', J_bool True), (''stream_options'', J_obj [])])) =
     Some (J_obj [(''stream'', J_bool True), (''stream_options'', J_obj [(''include_usage'', J_bool True)])])"
  by (simp add: anthropic_request_to_openai_body_def stream_options_def with_usage_def jget_or_def jor_def dget_Cons dput_Cons)

end
