(* ===== verification/CodexResponse.thy ===== *)
theory CodexResponse
  imports Json PyText
begin

text \<open>
  The response half of the codex bridge, \<open>src/src/codex_responses_bridge/response.py\<close>: a chat
  completion to a Responses object.  Items are datatypes whose constructors stand for the
  constant fields of the dictionaries; messages of exceptions are not modelled.  Fresh
  identifiers come from \<open>uuid\<close>, numbered; truncation of a float is an argument.
\<close>

section \<open>Values\<close>

text \<open>A refusal, or an exception the code does not mean to raise.\<close>

datatype codex_error = Capability | Type_error | Overflow_error | Attribute_error

datatype truncated = Truncated int | Not_a_number | Infinite

definition as_int :: "(string \<Rightarrow> truncated) \<Rightarrow> int \<Rightarrow> json \<Rightarrow> codex_error + int" where
  "as_int trunc dflt v =
     (case v of
        J_int n \<Rightarrow> Inr n
      | J_bool b \<Rightarrow> Inr (if b then 1 else 0)
      | J_float t \<Rightarrow> (case trunc t of Truncated n \<Rightarrow> Inr n | Not_a_number \<Rightarrow> Inr dflt | Infinite \<Rightarrow> Inl Overflow_error)
      | J_str s \<Rightarrow> Inr (case py_int s of Some n \<Rightarrow> n | None \<Rightarrow> dflt)
      | _ \<Rightarrow> Inr dflt)"

definition recognized_finish :: "string list" where
  "recognized_finish = [''stop'', ''tool_calls'', ''function_call'', ''length'', ''content_filter'']"

text \<open>Membership in the set; a list or a dictionary cannot be hashed.\<close>

definition finish_known :: "json \<Rightarrow> codex_error + bool" where
  "finish_known v =
     (case v of J_str f \<Rightarrow> Inr (f \<in> set recognized_finish) | J_list _ \<Rightarrow> Inl Type_error | J_obj _ \<Rightarrow> Inl Type_error | _ \<Rightarrow> Inr False)"

datatype status = In_progress | Completed | Incomplete | Failed

definition finish_to_status :: "string \<Rightarrow> bool \<Rightarrow> status \<times> string option" where
  "finish_to_status finish length_as_completed =
     (if finish = ''length'' then
        (if length_as_completed then (Completed, None) else (Incomplete, Some ''max_output_tokens''))
      else if finish = ''content_filter'' then (Incomplete, Some ''content_filter'')
      else (Completed, None))"

record usage =
  us_input :: int
  us_output :: int
  us_total :: int
  us_cached :: int

definition usage_to_responses :: "(string \<Rightarrow> truncated) \<Rightarrow> json \<Rightarrow> codex_error + usage option" where
  "usage_to_responses trunc u =
     (if \<not> is_obj u then Inr None
      else
        case as_int trunc 0 (jfield u ''prompt_tokens'') of
          Inl e \<Rightarrow> Inl e
        | Inr p \<Rightarrow>
            (case as_int trunc 0 (jfield u ''completion_tokens'') of
               Inl e \<Rightarrow> Inl e
             | Inr c \<Rightarrow>
                 (let details = jfield u ''prompt_tokens_details''
                  in case (if is_obj details then as_int trunc 0 (jfield details ''cached_tokens'') else Inr 0) of
                       Inl e \<Rightarrow> Inl e
                     | Inr k \<Rightarrow> Inr (Some \<lparr>us_input = p, us_output = c, us_total = p + c, us_cached = k\<rparr>))))"

type_synonym namespaces = "(string, string) dict"

definition ns_for :: "string \<Rightarrow> namespaces \<Rightarrow> string option" where
  "ns_for name ns = (if name = [] then None else case dget ns name of Some n \<Rightarrow> if n = [] then None else Some n | None \<Rightarrow> None)"

section \<open>Items\<close>

datatype out_item =
    Reasoning_item string status string
  | Message_item string status string
  | Call_item string status string string string "string option"

text \<open>A key that is there and not null.\<close>

definition present :: "json \<Rightarrow> string \<Rightarrow> bool" where
  "present v k \<longleftrightarrow> jfield v k \<noteq> J_null"

definition nonempty :: "json \<Rightarrow> string option" where
  "nonempty v = (case v of J_str s \<Rightarrow> if s = [] then None else Some s | _ \<Rightarrow> None)"

definition function_call_item ::
  "(nat \<Rightarrow> string) \<Rightarrow> status \<Rightarrow> namespaces \<Rightarrow> json \<Rightarrow> nat \<Rightarrow> codex_error + (out_item \<times> nat)" where
  "function_call_item uuid st ns tc n =
     (if \<not> is_obj tc then Inl Capability
      else if present tc ''type'' \<and> jfield tc ''type'' \<noteq> J_str ''function'' then Inl Capability
      else
        let fn = jfield tc ''function''
        in if \<not> is_obj fn then Inl Capability
           else
             case nonempty (jfield fn ''name'') of
               None \<Rightarrow> Inl Capability
             | Some name \<Rightarrow>
                 if present tc ''id'' \<and> nonempty (jfield tc ''id'') = None then Inl Capability
                 else
                   let (call_id, n) = (case nonempty (jfield tc ''id'') of
                         Some i \<Rightarrow> (i, n) | None \<Rightarrow> (''call_'' @ uuid n, Suc n))
                   in case str_of (jfield fn ''arguments'') of
                        None \<Rightarrow> Inl Capability
                      | Some args \<Rightarrow> Inr (Call_item (''fc_'' @ call_id) st call_id name args (ns_for name ns), n))"

fun function_call_items ::
  "(nat \<Rightarrow> string) \<Rightarrow> status \<Rightarrow> namespaces \<Rightarrow> json list \<Rightarrow> nat \<Rightarrow> codex_error + (out_item list \<times> nat)" where
  "function_call_items uuid st ns [] n = Inr ([], n)"
| "function_call_items uuid st ns (tc # tcs) n =
     (case function_call_item uuid st ns tc n of
        Inl e \<Rightarrow> Inl e
      | Inr (i, n) \<Rightarrow>
          (case function_call_items uuid st ns tcs n of Inl e \<Rightarrow> Inl e | Inr (is, n) \<Rightarrow> Inr (i # is, n)))"

text \<open>A text field: absent or null, refused when no string, dropped when empty.\<close>

definition text_field :: "json \<Rightarrow> string \<Rightarrow> codex_error + string option" where
  "text_field v k =
     (case jfield v k of
        J_null \<Rightarrow> Inr None
      | J_str s \<Rightarrow> Inr (if s = [] then None else Some s)
      | _ \<Rightarrow> Inl Capability)"

definition message_output_items ::
  "(nat \<Rightarrow> string) \<Rightarrow> status \<Rightarrow> bool \<Rightarrow> namespaces \<Rightarrow> json \<Rightarrow> codex_error + out_item list" where
  "message_output_items uuid st emit_reasoning ns message =
     (if \<not> is_obj message then Inl Capability
      else
        case (if emit_reasoning then text_field message ''reasoning_content'' else Inr None) of
          Inl e \<Rightarrow> Inl e
        | Inr r \<Rightarrow>
            (let (rs, n) = (case r of Some t \<Rightarrow> ([Reasoning_item (''rs_'' @ uuid 0) st t], Suc 0) | None \<Rightarrow> ([], 0))
             in if present message ''refusal'' then Inl Capability
                else
                  case text_field message ''content'' of
                    Inl e \<Rightarrow> Inl e
                  | Inr c \<Rightarrow>
                      (let (ms, n) = (case c of Some t \<Rightarrow> ([Message_item (''msg_'' @ uuid n) st t], Suc n) | None \<Rightarrow> ([], n))
                       in case jfield message ''tool_calls'' of
                            J_null \<Rightarrow> Inr (rs @ ms)
                          | J_list tcs \<Rightarrow>
                              (case function_call_items uuid st ns tcs n of
                                 Inl e \<Rightarrow> Inl e
                               | Inr (fs, n) \<Rightarrow> Inr (rs @ ms @ fs))
                          | _ \<Rightarrow> Inl Capability)))"

section \<open>The response\<close>

datatype response_error = Upstream_error string string | Incomplete_stream

record response =
  rs_id :: string
  rs_created :: int
  rs_status :: status
  rs_model :: json
  rs_output :: "out_item list"
  rs_metadata :: json
  rs_usage :: "usage option"
  rs_incomplete :: "string option"
  rs_error :: "response_error option"

definition item_status_of :: "status \<Rightarrow> status" where
  "item_status_of st = (if st = Incomplete then Incomplete else Completed)"

definition response_object ::
  "string \<Rightarrow> json \<Rightarrow> status \<Rightarrow> out_item list \<Rightarrow> usage option \<Rightarrow> json \<Rightarrow> int \<Rightarrow> string option \<Rightarrow>
     response_error option \<Rightarrow> response" where
  "response_object rid model st output u metadata created incomplete err =
     \<lparr>rs_id = rid, rs_created = created, rs_status = st, rs_model = model, rs_output = output,
      rs_metadata = jor metadata (J_obj []), rs_usage = u, rs_incomplete = incomplete, rs_error = err\<rparr>"

record bridge_config =
  bc_response_id :: string
  bc_model :: string
  bc_created :: "int option"
  bc_now :: int
  bc_metadata :: json
  bc_emit_reasoning :: bool
  bc_length_as_completed :: bool
  bc_namespaces :: namespaces

definition chat_response_to_responses_body ::
  "(string \<Rightarrow> truncated) \<Rightarrow> (nat \<Rightarrow> string) \<Rightarrow> bridge_config \<Rightarrow> json \<Rightarrow> codex_error + response" where
  "chat_response_to_responses_body trunc uuid cf chat =
     (case jfield chat ''choices'' of
        J_list [choice] \<Rightarrow>
          if \<not> is_obj choice then Inl Capability
          else
            (case finish_known (jfield choice ''finish_reason'') of
               Inl e \<Rightarrow> Inl e
             | Inr known \<Rightarrow>
                 if \<not> known then Inl Capability
                 else
                   let finish = (case jfield choice ''finish_reason'' of J_str f \<Rightarrow> f | _ \<Rightarrow> []);
                       (st, incomplete) = finish_to_status finish (bc_length_as_completed cf);
                       message = jfield choice ''message''
                   in case message_output_items uuid (item_status_of st) (bc_emit_reasoning cf) (bc_namespaces cf) message of
                        Inl e \<Rightarrow> Inl e
                      | Inr output \<Rightarrow>
                          (case usage_to_responses trunc (jfield chat ''usage'') of
                             Inl e \<Rightarrow> Inl e
                           | Inr u \<Rightarrow>
                               (case (case bc_created cf of Some c \<Rightarrow> Inr c | None \<Rightarrow> as_int trunc (bc_now cf) (jfield chat ''created'')) of
                                  Inl e \<Rightarrow> Inl e
                                | Inr created \<Rightarrow>
                                    Inr (response_object (bc_response_id cf)
                                      (jor (J_str (bc_model cf)) (jor (jfield chat ''model'') (J_str []))) st output u
                                      (bc_metadata cf) created incomplete None))))
      | _ \<Rightarrow> Inl Capability)"

end
