(* ===== verification/CodexStream.thy ===== *)
theory CodexStream
  imports CodexResponse
begin

text \<open>
  The stream half of the codex bridge, \<open>src/src/codex_responses_bridge/stream.py\<close>: chat completion
  chunks to the events of a Responses stream.  A handler takes the stream's state to an error or
  to a new state and the events it makes; the generator stops at an error.
\<close>

section \<open>Events and state\<close>

datatype body =
    Created response
  | Started response
  | Reasoning_added string nat
  | Summary_part_added string nat
  | Summary_delta string nat string
  | Reasoning_delta string nat string
  | Summary_done string nat string
  | Reasoning_done string nat string
  | Summary_part_done string nat string
  | Message_added string nat
  | Part_added string nat
  | Text_delta string nat string
  | Text_done string nat string
  | Part_done string nat string
  | Call_added string nat string string "string option"
  | Args_delta string nat string
  | Args_done string nat string string
  | Item_done nat out_item
  | Response_completed response
  | Response_incomplete response
  | Response_failed response

type_synonym event = "body \<times> nat"

record open_item =
  oi_id :: string
  oi_index :: nat
  oi_buf :: "string list"

record tool = open_item +
  tl_call_id :: string
  tl_upstream_id :: "string option"
  tl_name :: string
  tl_namespace :: "string option"

record cstream =
  cs_seq :: nat
  cs_next_oi :: nat
  cs_output :: "(nat \<times> out_item) list"
  cs_usage :: "usage option"
  cs_finish :: "string option"
  cs_terminal_seen :: bool
  cs_reasoning :: "open_item option"
  cs_text :: "open_item option"
  cs_tools :: "(int, tool) dict"
  cs_tool_order :: "int list"
  cs_fresh :: nat

type_synonym act = "cstream \<Rightarrow> codex_error + (cstream \<times> event list)"

definition new_cstream :: cstream where
  "new_cstream =
     \<lparr>cs_seq = 0, cs_next_oi = 0, cs_output = [], cs_usage = None, cs_finish = None, cs_terminal_seen = False,
      cs_reasoning = None, cs_text = None, cs_tools = [], cs_tool_order = [], cs_fresh = 0\<rparr>"

text \<open>Events take the next sequence numbers in the order they are made.\<close>

definition emits :: "body list \<Rightarrow> act" where
  "emits bs s = Inr (s\<lparr>cs_seq := cs_seq s + length bs\<rparr>, zip bs [cs_seq s ..< cs_seq s + length bs])"

fun acts :: "act list \<Rightarrow> act" where
  "acts [] s = Inr (s, [])"
| "acts (a # as) s =
     (case a s of
        Inl e \<Rightarrow> Inl e
      | Inr (s1, o1) \<Rightarrow> (case acts as s1 of Inl e \<Rightarrow> Inl e | Inr (s2, o2) \<Rightarrow> Inr (s2, o1 @ o2)))"

definition sorted_output :: "cstream \<Rightarrow> out_item list" where
  "sorted_output s = map snd (sort_key fst (cs_output s))"

definition lean_object :: "bridge_config \<Rightarrow> status \<Rightarrow> out_item list \<Rightarrow> usage option \<Rightarrow> string option \<Rightarrow>
    response_error option \<Rightarrow> response" where
  "lean_object cf st output u incomplete err =
     \<lparr>rs_id = bc_response_id cf, rs_created = (case bc_created cf of Some c \<Rightarrow> c | None \<Rightarrow> bc_now cf), rs_status = st,
      rs_model = J_str (bc_model cf), rs_output = output, rs_metadata = jor (bc_metadata cf) (J_obj []), rs_usage = u,
      rs_incomplete = incomplete, rs_error = err\<rparr>"

section \<open>Reasoning and text\<close>

definition full_text :: "open_item \<Rightarrow> string" where
  "full_text x = concat (oi_buf x)"

definition open_reasoning :: "(nat \<Rightarrow> string) \<Rightarrow> act" where
  "open_reasoning uuid s =
     (let rid = ''rs_'' @ uuid (cs_fresh s); oi = cs_next_oi s
      in emits [Reasoning_added rid oi, Summary_part_added rid oi]
           (s\<lparr>cs_next_oi := oi + 1, cs_fresh := Suc (cs_fresh s),
              cs_reasoning := Some \<lparr>oi_id = rid, oi_index = oi, oi_buf = []\<rparr>\<rparr>))"

definition push_reasoning :: "string \<Rightarrow> act" where
  "push_reasoning t s =
     (case cs_reasoning s of
        None \<Rightarrow> Inr (s, [])
      | Some r \<Rightarrow>
          emits [Summary_delta (oi_id r) (oi_index r) t, Reasoning_delta (oi_id r) (oi_index r) t]
            (s\<lparr>cs_reasoning := Some (r\<lparr>oi_buf := oi_buf r @ [t]\<rparr>)\<rparr>))"

definition handle_reasoning_delta :: "(nat \<Rightarrow> string) \<Rightarrow> string \<Rightarrow> act" where
  "handle_reasoning_delta uuid t s =
     (if cs_text s \<noteq> None \<or> cs_tools s \<noteq> [] then Inl Capability
      else acts ((if cs_reasoning s = None then [open_reasoning uuid] else []) @ [push_reasoning t]) s)"

definition close_reasoning :: "status \<Rightarrow> act" where
  "close_reasoning st s =
     (case cs_reasoning s of
        None \<Rightarrow> Inr (s, [])
      | Some r \<Rightarrow>
          (let rid = oi_id r; oi = oi_index r; full = full_text r; i = Reasoning_item rid st full
           in emits [Summary_done rid oi full, Reasoning_done rid oi full, Summary_part_done rid oi full, Item_done oi i]
                (s\<lparr>cs_output := cs_output s @ [(oi, i)], cs_reasoning := None\<rparr>)))"

definition open_message :: "(nat \<Rightarrow> string) \<Rightarrow> act" where
  "open_message uuid s =
     (let mid = ''msg_'' @ uuid (cs_fresh s); oi = cs_next_oi s
      in emits [Message_added mid oi, Part_added mid oi]
           (s\<lparr>cs_next_oi := oi + 1, cs_fresh := Suc (cs_fresh s),
              cs_text := Some \<lparr>oi_id = mid, oi_index = oi, oi_buf = []\<rparr>\<rparr>))"

definition push_text :: "string \<Rightarrow> act" where
  "push_text t s =
     (case cs_text s of
        None \<Rightarrow> Inr (s, [])
      | Some m \<Rightarrow>
          emits [Text_delta (oi_id m) (oi_index m) t] (s\<lparr>cs_text := Some (m\<lparr>oi_buf := oi_buf m @ [t]\<rparr>)\<rparr>))"

definition close_text :: "status \<Rightarrow> act" where
  "close_text st s =
     (case cs_text s of
        None \<Rightarrow> Inr (s, [])
      | Some m \<Rightarrow>
          (let mid = oi_id m; oi = oi_index m; full = full_text m; i = Message_item mid st full
           in emits [Text_done mid oi full, Part_done mid oi full, Item_done oi i]
                (s\<lparr>cs_output := cs_output s @ [(oi, i)], cs_text := None\<rparr>)))"

section \<open>Tool calls\<close>

definition open_tool :: "(nat \<Rightarrow> string) \<Rightarrow> namespaces \<Rightarrow> int \<Rightarrow> string option \<Rightarrow> string \<Rightarrow> act" where
  "open_tool uuid ns i up name s =
     (let call_id = (case up of Some u \<Rightarrow> u | None \<Rightarrow> ''call_'' @ uuid (cs_fresh s));
          oi = cs_next_oi s; fc = ''fc_'' @ call_id;
          t = \<lparr>oi_id = fc, oi_index = oi, oi_buf = [], tl_call_id = call_id, tl_upstream_id = up, tl_name = name,
               tl_namespace = ns_for name ns\<rparr>
      in emits [Call_added fc oi call_id name (ns_for name ns)]
           (s\<lparr>cs_next_oi := oi + 1, cs_fresh := (if up = None then Suc (cs_fresh s) else cs_fresh s),
              cs_tools := dput i t (cs_tools s), cs_tool_order := cs_tool_order s @ [i]\<rparr>))"

definition close_tool :: "status \<Rightarrow> int \<Rightarrow> act" where
  "close_tool st i s =
     (case dget (cs_tools s) i of
        None \<Rightarrow> Inr (s, [])
      | Some t \<Rightarrow>
          if tl_name t = [] then Inl Capability
          else
            let full = concat (oi_buf t);
                it = Call_item (oi_id t) st (tl_call_id t) (tl_name t) full (tl_namespace t)
            in emits [Args_done (oi_id t) (oi_index t) (tl_name t) full, Item_done (oi_index t) it]
                 (s\<lparr>cs_tools := ddel i (cs_tools s), cs_tool_order := remove1 i (cs_tool_order s),
                    cs_output := cs_output s @ [(oi_index t, it)]\<rparr>))"

definition close_all_tools :: "status \<Rightarrow> act" where
  "close_all_tools st s = acts (map (close_tool st) (cs_tool_order s)) s"

definition handle_text_delta :: "(nat \<Rightarrow> string) \<Rightarrow> string \<Rightarrow> act" where
  "handle_text_delta uuid t s =
     acts ((if cs_text s = None then [close_reasoning Completed, close_all_tools Completed, open_message uuid] else []) @
           [push_text t]) s"

text \<open>An id or a name on a later fragment completes the call.\<close>

definition update_tool :: "namespaces \<Rightarrow> int \<Rightarrow> string option \<Rightarrow> string option \<Rightarrow> act" where
  "update_tool ns i up name s =
     (case dget (cs_tools s) i of
        None \<Rightarrow> Inr (s, [])
      | Some t \<Rightarrow>
          (let t = (if up \<noteq> None \<and> tl_upstream_id t = None then t\<lparr>tl_upstream_id := up\<rparr> else t);
               t = (case name of Some n \<Rightarrow> if tl_name t = [] then t\<lparr>tl_name := n, tl_namespace := ns_for n ns\<rparr> else t
                               | None \<Rightarrow> t)
           in Inr (s\<lparr>cs_tools := dput i t (cs_tools s)\<rparr>, [])))"

definition push_args :: "int \<Rightarrow> json \<Rightarrow> act" where
  "push_args i v s =
     (case v of
        J_null \<Rightarrow> Inr (s, [])
      | J_str a \<Rightarrow>
          (case dget (cs_tools s) i of
             None \<Rightarrow> Inr (s, [])
           | Some t \<Rightarrow>
               if a = [] then Inr (s, [])
               else emits [Args_delta (oi_id t) (oi_index t) a]
                      (s\<lparr>cs_tools := dput i (t\<lparr>oi_buf := oi_buf t @ [a]\<rparr>) (cs_tools s)\<rparr>))
      | _ \<Rightarrow> Inl Capability)"

text \<open>What a fragment names: its slot, the function's object, the name and the id.\<close>

definition call_index :: "json \<Rightarrow> int option" where
  "call_index tc = (case jget_or (J_int 0) tc ''index'' of J_int n \<Rightarrow> if n < 0 then None else Some n | _ \<Rightarrow> None)"

definition call_fn :: "json \<Rightarrow> json option" where
  "call_fn tc = (case jfield tc ''function'' of J_null \<Rightarrow> Some (J_obj []) | J_obj d \<Rightarrow> Some (J_obj d) | _ \<Rightarrow> None)"

definition part_text :: "json \<Rightarrow> string \<Rightarrow> string option option" where
  "part_text v k = (if \<not> present v k then Some None else case nonempty (jfield v k) of Some t \<Rightarrow> Some (Some t) | None \<Rightarrow> None)"

definition handle_tool_delta :: "(nat \<Rightarrow> string) \<Rightarrow> namespaces \<Rightarrow> json \<Rightarrow> act" where
  "handle_tool_delta uuid ns tc s =
     (if \<not> is_obj tc then Inl Capability
      else
        case call_index tc of
          None \<Rightarrow> Inl Capability
        | Some i \<Rightarrow>
            if present tc ''type'' \<and> jfield tc ''type'' \<noteq> J_str ''function'' then Inl Capability
            else
              case call_fn tc of
                None \<Rightarrow> Inl Capability
              | Some fn \<Rightarrow>
                  (case part_text fn ''name'' of
                     None \<Rightarrow> Inl Capability
                   | Some name \<Rightarrow>
                       (case part_text tc ''id'' of
                          None \<Rightarrow> Inl Capability
                        | Some up \<Rightarrow>
                            let reused = (case dget (cs_tools s) i of
                                  None \<Rightarrow> False
                                | Some t \<Rightarrow> up \<noteq> None \<and> tl_upstream_id t \<noteq> None \<and> up \<noteq> tl_upstream_id t)
                            in acts
                                 ((if dget (cs_tools s) i = None \<or> reused then
                                     (if reused then [close_tool Completed i] else []) @
                                     [close_reasoning Completed, close_text Completed,
                                      open_tool uuid ns i up (case name of Some n \<Rightarrow> n | None \<Rightarrow> [])]
                                   else [update_tool ns i up name]) @
                                  [push_args i (jfield fn ''arguments'')]) s)))"

definition handle_tool_deltas :: "(nat \<Rightarrow> string) \<Rightarrow> namespaces \<Rightarrow> json \<Rightarrow> act" where
  "handle_tool_deltas uuid ns v s =
     (case v of J_list tcs \<Rightarrow> acts (map (handle_tool_delta uuid ns) tcs) s | _ \<Rightarrow> Inl Capability)"

section \<open>Chunks\<close>

definition field_act :: "json \<Rightarrow> string \<Rightarrow> (string \<Rightarrow> act) \<Rightarrow> act" where
  "field_act v k f s =
     (case text_field v k of Inl e \<Rightarrow> Inl e | Inr None \<Rightarrow> Inr (s, []) | Inr (Some t) \<Rightarrow> f t s)"

definition refuse_if :: "bool \<Rightarrow> act" where
  "refuse_if b s = (if b then Inl Capability else Inr (s, []))"

definition handle_delta :: "(nat \<Rightarrow> string) \<Rightarrow> bridge_config \<Rightarrow> json \<Rightarrow> act" where
  "handle_delta uuid cf delta =
     acts ((if bc_emit_reasoning cf then [field_act delta ''reasoning_content'' (handle_reasoning_delta uuid)] else []) @
       [refuse_if (present delta ''refusal''),
        field_act delta ''content'' (handle_text_delta uuid)] @
       (if present delta ''tool_calls'' then [handle_tool_deltas uuid (bc_namespaces cf) (jfield delta ''tool_calls'')] else []))"

definition feed_choice :: "(nat \<Rightarrow> string) \<Rightarrow> bridge_config \<Rightarrow> json \<Rightarrow> act" where
  "feed_choice uuid cf choice s =
     (if \<not> is_obj choice then Inl Capability
      else
        case (case jfield choice ''finish_reason'' of
                J_null \<Rightarrow> Inr s
              | f \<Rightarrow> (case finish_known f of
                        Inl e \<Rightarrow> Inl e
                      | Inr known \<Rightarrow>
                          if known then Inr (s\<lparr>cs_finish := str_of f, cs_terminal_seen := True\<rparr>) else Inl Capability)) of
          Inl e \<Rightarrow> Inl e
        | Inr s \<Rightarrow>
            (case jfield choice ''delta'' of
               J_null \<Rightarrow> Inr (s, [])
             | J_obj d \<Rightarrow> handle_delta uuid cf (J_obj d) s
             | _ \<Rightarrow> Inl Capability))"

definition note_chunk_usage :: "(string \<Rightarrow> truncated) \<Rightarrow> json \<Rightarrow> cstream \<Rightarrow> codex_error + cstream" where
  "note_chunk_usage trunc chunk s =
     (if present chunk ''usage'' then
        (case usage_to_responses trunc (jfield chunk ''usage'') of Inl e \<Rightarrow> Inl e | Inr u \<Rightarrow> Inr (s\<lparr>cs_usage := u\<rparr>))
      else Inr s)"

definition feed_chunk :: "(string \<Rightarrow> truncated) \<Rightarrow> (nat \<Rightarrow> string) \<Rightarrow> bridge_config \<Rightarrow> json \<Rightarrow> act" where
  "feed_chunk trunc uuid cf chunk s =
     (if \<not> is_obj chunk then Inl Capability
      else
        case note_chunk_usage trunc chunk s of
          Inl e \<Rightarrow> Inl e
        | Inr s \<Rightarrow>
            (case jfield chunk ''choices'' of
               J_null \<Rightarrow> Inr (s, [])
             | J_list [] \<Rightarrow> Inr (s, [])
             | J_list [choice] \<Rightarrow> if cs_terminal_seen s then Inl Capability else feed_choice uuid cf choice s
             | _ \<Rightarrow> Inl Capability))"

section \<open>The stream\<close>

text \<open>The texts of an upstream error; \<open>str\<close> of a value is an argument.\<close>

definition upstream_error :: "(json \<Rightarrow> string) \<Rightarrow> json \<Rightarrow> response_error" where
  "upstream_error show err =
     (if is_obj err then
        Upstream_error (show (jor (jfield err ''code'') (jor (jfield err ''type'') (J_str ''upstream_error''))))
          (show (jor (jfield err ''message'') (J_str ''upstream error'')))
      else Upstream_error ''upstream_error'' (show err))"

definition failed :: "bridge_config \<Rightarrow> response_error \<Rightarrow> act" where
  "failed cf err s = emits [Response_failed (lean_object cf Failed (sorted_output s) (cs_usage s) None (Some err))] s"

definition terminal :: "bridge_config \<Rightarrow> status \<Rightarrow> string option \<Rightarrow> act" where
  "terminal cf st incomplete s =
     emits [(if st = Incomplete then Response_incomplete else Response_completed)
              (lean_object cf st (sorted_output s) (cs_usage s) incomplete None)] s"

definition finalize :: "bridge_config \<Rightarrow> act" where
  "finalize cf s =
     (let (st, incomplete) = finish_to_status (case cs_finish s of Some f \<Rightarrow> f | None \<Rightarrow> []) (bc_length_as_completed cf)
      in acts [close_reasoning Completed, close_text (item_status_of st), close_all_tools (item_status_of st),
               terminal cf st incomplete] s)"

definition preamble :: "bridge_config \<Rightarrow> act" where
  "preamble cf = emits [Created (lean_object cf In_progress [] None None None), Started (lean_object cf In_progress [] None None None)]"

text \<open>What the generator yields, and the exception it ends with, if any.\<close>

fun stream_chunks :: "(string \<Rightarrow> truncated) \<Rightarrow> (nat \<Rightarrow> string) \<Rightarrow> (json \<Rightarrow> string) \<Rightarrow> bridge_config \<Rightarrow> cstream \<Rightarrow> json list \<Rightarrow>
    event list \<times> codex_error option" where
  "stream_chunks trunc uuid show cf s [] =
     (case (if cs_terminal_seen s then finalize cf s else failed cf Incomplete_stream s) of
        Inl e \<Rightarrow> ([], Some e)
      | Inr (s, out) \<Rightarrow> (out, None))"
| "stream_chunks trunc uuid show cf s (chunk # chunks) =
     (if \<not> is_obj chunk then ([], Some Capability)
      else if present chunk ''error'' then
        (case failed cf (upstream_error show (jfield chunk ''error'')) s of Inl e \<Rightarrow> ([], Some e) | Inr (s, out) \<Rightarrow> (out, None))
      else
        case feed_chunk trunc uuid cf chunk s of
          Inl e \<Rightarrow> ([], Some e)
        | Inr (s, out) \<Rightarrow> (let (rest, err) = stream_chunks trunc uuid show cf s chunks in (out @ rest, err)))"

definition chat_stream_to_responses_events ::
  "(string \<Rightarrow> truncated) \<Rightarrow> (nat \<Rightarrow> string) \<Rightarrow> (json \<Rightarrow> string) \<Rightarrow> bridge_config \<Rightarrow> json list \<Rightarrow> event list \<times> codex_error option" where
  "chat_stream_to_responses_events trunc uuid show cf chunks =
     (case preamble cf new_cstream of
        Inl e \<Rightarrow> ([], Some e)
      | Inr (s, out) \<Rightarrow> (let (rest, err) = stream_chunks trunc uuid show cf s chunks in (out @ rest, err)))"

section \<open>A reader of the stream\<close>

text \<open>
  What a client may rely on: events numbered from 0; a preamble; items added under the next output
  index, reasoning first and alone, a message alone, calls side by side; deltas that add up to the
  text of the done events; and a terminal event that carries the items that were done, by index.
\<close>

datatype entry = Open_reasoning string string string | Open_message string string | Open_call string string string

record reader =
  rd_seq :: nat
  rd_stage :: nat
  rd_next :: nat
  rd_open :: "(nat, entry) dict"
  rd_done :: "(nat \<times> out_item) list"

fun closes :: "entry \<Rightarrow> out_item \<Rightarrow> bool" where
  "closes (Open_reasoning i a b) (Reasoning_item j st t) = (i = j \<and> a = t \<and> b = t)"
| "closes (Open_message i a) (Message_item j st t) = (i = j \<and> a = t)"
| "closes (Open_call i c a) (Call_item j st c' name t ns) = (i = j \<and> c = c' \<and> name \<noteq> [] \<and> a = t)"
| "closes _ _ = False"

fun is_call :: "entry \<Rightarrow> bool" where
  "is_call (Open_call i c a) = True"
| "is_call _ = False"

definition done_output :: "reader \<Rightarrow> out_item list" where
  "done_output q = map snd (sort_key fst (rd_done q))"

definition adds :: "reader \<Rightarrow> nat \<Rightarrow> bool \<Rightarrow> entry \<Rightarrow> reader option" where
  "adds q oi ok e = (if oi = rd_next q \<and> ok then Some (q\<lparr>rd_next := oi + 1, rd_open := dput oi e (rd_open q)\<rparr>) else None)"

definition extends :: "reader \<Rightarrow> nat \<Rightarrow> (entry \<Rightarrow> entry option) \<Rightarrow> reader option" where
  "extends q oi f =
     (case dget (rd_open q) oi of
        None \<Rightarrow> None
      | Some e \<Rightarrow> (case f e of None \<Rightarrow> None | Some e \<Rightarrow> Some (q\<lparr>rd_open := dput oi e (rd_open q)\<rparr>)))"

definition expects :: "reader \<Rightarrow> nat \<Rightarrow> (entry \<Rightarrow> bool) \<Rightarrow> reader option" where
  "expects q oi p = (case dget (rd_open q) oi of None \<Rightarrow> None | Some e \<Rightarrow> if p e then Some q else None)"

definition ends :: "reader \<Rightarrow> response \<Rightarrow> status \<Rightarrow> bool \<Rightarrow> reader option" where
  "ends q r st ok = (if rs_status r = st \<and> rs_output r = done_output q \<and> ok then Some (q\<lparr>rd_stage := 3\<rparr>) else None)"

fun read_item :: "reader \<Rightarrow> body \<Rightarrow> reader option" where
  "read_item q (Reasoning_added i oi) = adds q oi (rd_next q = 0 \<and> rd_open q = []) (Open_reasoning i [] [])"
| "read_item q (Summary_part_added i oi) = expects q oi (\<lambda>e. e = Open_reasoning i [] [])"
| "read_item q (Summary_delta i oi t) =
     extends q oi (\<lambda>e. case e of Open_reasoning j a b \<Rightarrow> if i = j then Some (Open_reasoning j (a @ t) b) else None | _ \<Rightarrow> None)"
| "read_item q (Reasoning_delta i oi t) =
     extends q oi (\<lambda>e. case e of Open_reasoning j a b \<Rightarrow> if i = j then Some (Open_reasoning j a (b @ t)) else None | _ \<Rightarrow> None)"
| "read_item q (Summary_done i oi t) = expects q oi (\<lambda>e. case e of Open_reasoning j a b \<Rightarrow> i = j \<and> a = t | _ \<Rightarrow> False)"
| "read_item q (Reasoning_done i oi t) = expects q oi (\<lambda>e. case e of Open_reasoning j a b \<Rightarrow> i = j \<and> b = t | _ \<Rightarrow> False)"
| "read_item q (Summary_part_done i oi t) = expects q oi (\<lambda>e. case e of Open_reasoning j a b \<Rightarrow> i = j \<and> a = t | _ \<Rightarrow> False)"
| "read_item q (Message_added i oi) = adds q oi (rd_open q = []) (Open_message i [])"
| "read_item q (Part_added i oi) = expects q oi (\<lambda>e. e = Open_message i [])"
| "read_item q (Text_delta i oi t) =
     extends q oi (\<lambda>e. case e of Open_message j a \<Rightarrow> if i = j then Some (Open_message j (a @ t)) else None | _ \<Rightarrow> None)"
| "read_item q (Text_done i oi t) = expects q oi (\<lambda>e. e = Open_message i t)"
| "read_item q (Part_done i oi t) = expects q oi (\<lambda>e. e = Open_message i t)"
| "read_item q (Call_added i oi c name ns) = adds q oi (list_all (\<lambda>(j, e). is_call e) (rd_open q)) (Open_call i c [])"
| "read_item q (Args_delta i oi t) =
     extends q oi (\<lambda>e. case e of Open_call j c a \<Rightarrow> if i = j then Some (Open_call j c (a @ t)) else None | _ \<Rightarrow> None)"
| "read_item q (Args_done i oi name t) = expects q oi (\<lambda>e. case e of Open_call j c a \<Rightarrow> i = j \<and> a = t \<and> name \<noteq> [] | _ \<Rightarrow> False)"
| "read_item q (Item_done oi it) =
     (case expects q oi (\<lambda>e. closes e it) of
        None \<Rightarrow> None | Some q \<Rightarrow> Some (q\<lparr>rd_open := ddel oi (rd_open q), rd_done := rd_done q @ [(oi, it)]\<rparr>))"
| "read_item q (Response_completed r) = ends q r Completed (rd_open q = [])"
| "read_item q (Response_incomplete r) = ends q r Incomplete (rd_open q = [])"
| "read_item q (Response_failed r) = ends q r Failed True"
| "read_item q _ = None"

fun read_body :: "reader \<Rightarrow> body \<Rightarrow> reader option" where
  "read_body q (Created r) =
     (if rd_stage q = 0 \<and> rs_status r = In_progress \<and> rs_output r = [] then Some (q\<lparr>rd_stage := 1\<rparr>) else None)"
| "read_body q (Started r) =
     (if rd_stage q = 1 \<and> rs_status r = In_progress \<and> rs_output r = [] then Some (q\<lparr>rd_stage := 2\<rparr>) else None)"
| "read_body q b = (if rd_stage q = 2 then read_item q b else None)"

definition read_event :: "reader \<Rightarrow> event \<Rightarrow> reader option" where
  "read_event q e =
     (if snd e = rd_seq q then map_option (\<lambda>q. q\<lparr>rd_seq := rd_seq q + 1\<rparr>) (read_body q (fst e)) else None)"

definition new_reader :: reader where
  "new_reader = \<lparr>rd_seq = 0, rd_stage = 0, rd_next = 0, rd_open = [], rd_done = []\<rparr>"

text \<open>Reading does not look at the number, so a numbered batch is read like its bodies.\<close>

lemma helpers_seq:
  "adds (q\<lparr>rd_seq := n\<rparr>) oi ok e = map_option (\<lambda>q. q\<lparr>rd_seq := n\<rparr>) (adds q oi ok e)"
  "extends (q\<lparr>rd_seq := n\<rparr>) oi f = map_option (\<lambda>q. q\<lparr>rd_seq := n\<rparr>) (extends q oi f)"
  "expects (q\<lparr>rd_seq := n\<rparr>) oi p = map_option (\<lambda>q. q\<lparr>rd_seq := n\<rparr>) (expects q oi p)"
  "ends (q\<lparr>rd_seq := n\<rparr>) r st ok = map_option (\<lambda>q. q\<lparr>rd_seq := n\<rparr>) (ends q r st ok)"
  by (simp_all add: adds_def extends_def expects_def ends_def done_output_def split: option.split)

lemma read_body_seq: "read_body (q\<lparr>rd_seq := n\<rparr>) b = map_option (\<lambda>q. q\<lparr>rd_seq := n\<rparr>) (read_body q b)"
  by (cases b) (simp_all add: helpers_seq split: option.split)

lemma read_body_keeps_seq:
  assumes "read_body q b = Some q'"
  shows "rd_seq q' = rd_seq q"
proof -
  have "read_body q b = map_option (\<lambda>r. r\<lparr>rd_seq := rd_seq q\<rparr>) (read_body q b)"
    using read_body_seq [of "rd_seq q" q b] by simp
  then have "q' = q'\<lparr>rd_seq := rd_seq q\<rparr>" using assms by simp
  then show ?thesis by (metis reader.select_convs(1) reader.surjective reader.update_convs(1))
qed

lemma reads_numbered:
  "rd_seq q = n \<Longrightarrow>
     reads read_event q (zip bs [n ..< n + length bs]) = map_option (\<lambda>q. q\<lparr>rd_seq := n + length bs\<rparr>) (reads read_body q bs)"
proof (induction bs arbitrary: q n)
  case (Cons b bs)
  have up: "[n ..< n + length (b # bs)] = n # [Suc n ..< Suc n + length bs]"
    by (simp add: upt_conv_Cons del: upt_Suc)
  show ?case
  proof (cases "read_body q b")
    case None
    then show ?thesis unfolding up by (simp add: read_event_def del: upt_Suc)
  next
    case (Some q1)
    have s: "rd_seq q1 = n" using read_body_keeps_seq [OF Some] Cons.prems by simp
    have r: "reads read_body (q1\<lparr>rd_seq := m\<rparr>) bs = map_option (\<lambda>q. q\<lparr>rd_seq := m\<rparr>) (reads read_body q1 bs)" for m q1
      by (induction bs arbitrary: q1) (simp_all add: read_body_seq split: option.split)
    show ?thesis
      using Cons.IH [of "q1\<lparr>rd_seq := Suc n\<rparr>" "Suc n"] Cons.prems unfolding up
      by (simp add: read_event_def Some s r option.map_comp comp_def del: upt_Suc)
  qed
qed (simp add: reader.surjective)

section \<open>The stream follows the protocol\<close>

definition tool_entry :: "int \<times> tool \<Rightarrow> nat \<times> entry" where
  "tool_entry x = (oi_index (snd x), Open_call (oi_id (snd x)) (tl_call_id (snd x)) (concat (oi_buf (snd x))))"

definition opens :: "cstream \<Rightarrow> (nat, entry) dict" where
  "opens s =
     (case cs_reasoning s of Some r \<Rightarrow> [(oi_index r, Open_reasoning (oi_id r) (full_text r) (full_text r))] | None \<Rightarrow> []) @
     (case cs_text s of Some m \<Rightarrow> [(oi_index m, Open_message (oi_id m) (full_text m))] | None \<Rightarrow> []) @
     map tool_entry (cs_tools s)"

text \<open>What a reader has seen of a running stream.\<close>

definition view :: "cstream \<Rightarrow> reader" where
  "view s = \<lparr>rd_seq = cs_seq s, rd_stage = 2, rd_next = cs_next_oi s, rd_open = opens s, rd_done = cs_output s\<rparr>"

definition tool_ois :: "(int, tool) dict \<Rightarrow> nat list" where
  "tool_ois d = map (\<lambda>x. oi_index (snd x)) d"

definition cs_inv :: "cstream \<Rightarrow> bool" where
  "cs_inv s \<longleftrightarrow> dwf (cs_tools s) \<and> cs_tool_order s = dkeys (cs_tools s) \<and> distinct (tool_ois (cs_tools s)) \<and>
     (\<forall>n \<in> set (tool_ois (cs_tools s)). n < cs_next_oi s) \<and>
     (cs_reasoning s \<noteq> None \<longrightarrow> cs_text s = None \<and> cs_tools s = []) \<and> (cs_text s \<noteq> None \<longrightarrow> cs_tools s = [])"

text \<open>An action that keeps the invariant, and whose events take the reader along.\<close>

definition ok_act :: "(cstream \<Rightarrow> bool) \<Rightarrow> act \<Rightarrow> (cstream \<Rightarrow> bool) \<Rightarrow> bool" where
  "ok_act P a Q \<longleftrightarrow>
     (\<forall>s s' out. cs_inv s \<longrightarrow> P s \<longrightarrow> a s = Inr (s', out) \<longrightarrow>
        reads read_event (view s) out = Some (view s') \<and> cs_inv s' \<and> Q s')"

lemma ok_actD:
  "ok_act P a Q \<Longrightarrow> cs_inv s \<Longrightarrow> P s \<Longrightarrow> a s = Inr (s', out) \<Longrightarrow>
     reads read_event (view s) out = Some (view s') \<and> cs_inv s' \<and> Q s'"
  by (simp add: ok_act_def)

lemma ok_acts_Nil: "(\<And>s. cs_inv s \<Longrightarrow> P s \<Longrightarrow> Q s) \<Longrightarrow> ok_act P (acts []) Q"
  by (simp add: ok_act_def)

lemma ok_acts_Cons:
  assumes "ok_act P a R" "ok_act R (acts as) Q"
  shows "ok_act P (acts (a # as)) Q"
  unfolding ok_act_def
proof (intro allI impI)
  fix s s' out
  assume h: "cs_inv s" "P s" "acts (a # as) s = Inr (s', out)"
  then obtain s1 o1 o2 where o: "a s = Inr (s1, o1)" "acts as s1 = Inr (s', o2)" "out = o1 @ o2"
    by (auto split: sum.splits prod.splits)
  have A: "reads read_event (view s) o1 = Some (view s1)" "cs_inv s1" "R s1"
    using ok_actD [OF assms(1) h(1,2) o(1)] by simp_all
  have "reads read_event (view s1) o2 = Some (view s')" "cs_inv s'" "Q s'"
    using ok_actD [OF assms(2) A(2,3) o(2)] by simp_all
  then show "reads read_event (view s) out = Some (view s') \<and> cs_inv s' \<and> Q s'"
    using A(1) by (simp add: o(3) reads_append)
qed

lemma ok_acts_one: "ok_act P a Q \<Longrightarrow> ok_act P (acts [a]) Q"
  by (rule ok_acts_Cons) (auto intro: ok_acts_Nil)

lemma acts_append: "acts (as @ bs) = acts [acts as, acts bs]"
proof (rule ext)
  fix s
  have "acts (as @ bs) s =
      (case acts as s of Inl e \<Rightarrow> Inl e
       | Inr (s1, o1) \<Rightarrow> (case acts bs s1 of Inl e \<Rightarrow> Inl e | Inr (s2, o2) \<Rightarrow> Inr (s2, o1 @ o2)))" for s
  proof (induction as arbitrary: s)
    case (Cons a as)
    show ?case
    proof (cases "a s")
      case (Inr r)
      then show ?thesis using Cons by (cases r) (simp split: sum.split prod.split)
    qed simp
  qed (simp split: sum.split prod.split)
  then show "acts (as @ bs) s = acts [acts as, acts bs] s" by (simp split: sum.split prod.split)
qed

lemma ok_acts_append:
  assumes "ok_act P (acts as) R" "ok_act R (acts bs) Q"
  shows "ok_act P (acts (as @ bs)) Q"
  unfolding acts_append by (rule ok_acts_Cons [OF assms(1) ok_acts_one [OF assms(2)]])

lemma ok_act_conseq:
  "ok_act P a Q \<Longrightarrow> (\<And>s. cs_inv s \<Longrightarrow> P' s \<Longrightarrow> P s) \<Longrightarrow> (\<And>s. cs_inv s \<Longrightarrow> Q s \<Longrightarrow> Q' s) \<Longrightarrow> ok_act P' a Q'"
  unfolding ok_act_def by blast

text \<open>The rule for an action that emits: read the bodies, then renumber.\<close>

lemma view_seq [simp]: "view (s\<lparr>cs_seq := n\<rparr>) = (view s)\<lparr>rd_seq := n\<rparr>"
  by (simp add: view_def opens_def)

lemma cs_inv_seq [simp]: "cs_inv (s\<lparr>cs_seq := n\<rparr>) = cs_inv s"
  by (simp add: cs_inv_def)

lemma emitsD:
  assumes "emits bs t = Inr (s', out)" "cs_seq t = cs_seq s" "reads read_body (view s) bs = Some (view t)" "cs_inv t"
  shows "reads read_event (view s) out = Some (view s') \<and> cs_inv s' \<and> s' = t\<lparr>cs_seq := cs_seq t + length bs\<rparr>"
proof -
  have o: "s' = t\<lparr>cs_seq := cs_seq t + length bs\<rparr>" "out = zip bs [cs_seq t ..< cs_seq t + length bs]"
    using assms(1) by (simp_all add: emits_def)
  have "rd_seq (view s) = cs_seq t" by (simp add: view_def assms(2))
  from reads_numbered [OF this, of bs] show ?thesis using assms(3,4) by (simp add: o)
qed

lemmas reader_simps = view_def opens_def adds_def extends_def expects_def dget_Cons dput_Cons full_text_def

lemma close_reasoning_ok:
  "ok_act (\<lambda>s. cs_text s = x \<and> cs_tools s = y) (close_reasoning st)
     (\<lambda>s. cs_reasoning s = None \<and> cs_text s = x \<and> cs_tools s = y)"
  unfolding ok_act_def
proof (intro allI impI)
  fix s s' out
  assume h: "cs_inv s" "cs_text s = x \<and> cs_tools s = y" "close_reasoning st s = Inr (s', out)"
  show "reads read_event (view s) out = Some (view s') \<and> cs_inv s' \<and> cs_reasoning s' = None \<and> cs_text s' = x \<and> cs_tools s' = y"
  proof (cases "cs_reasoning s")
    case None
    then show ?thesis using h by (simp add: close_reasoning_def)
  next
    case (Some r)
    let ?i = "Reasoning_item (oi_id r) st (full_text r)"
    let ?t = "s\<lparr>cs_output := cs_output s @ [(oi_index r, ?i)], cs_reasoning := None\<rparr>"
    have e: "cs_text s = None" "cs_tools s = []" using h(1) Some by (simp_all add: cs_inv_def)
    have em: "emits [Summary_done (oi_id r) (oi_index r) (full_text r), Reasoning_done (oi_id r) (oi_index r) (full_text r),
        Summary_part_done (oi_id r) (oi_index r) (full_text r), Item_done (oi_index r) ?i] ?t = Inr (s', out)"
      using h(3) Some by (simp add: close_reasoning_def Let_def)
    have "cs_inv ?t" using h(1) by (simp add: cs_inv_def)
    then show ?thesis using emitsD [OF em, of s] h(2) Some e by (simp add: reader_simps ddel_Cons)
  qed
qed

lemma close_text_ok:
  "ok_act (\<lambda>s. cs_reasoning s = None \<and> cs_tools s = y) (close_text st)
     (\<lambda>s. cs_reasoning s = None \<and> cs_text s = None \<and> cs_tools s = y)"
  unfolding ok_act_def
proof (intro allI impI)
  fix s s' out
  assume h: "cs_inv s" "cs_reasoning s = None \<and> cs_tools s = y" "close_text st s = Inr (s', out)"
  show "reads read_event (view s) out = Some (view s') \<and> cs_inv s' \<and> cs_reasoning s' = None \<and> cs_text s' = None \<and> cs_tools s' = y"
  proof (cases "cs_text s")
    case None
    then show ?thesis using h by (simp add: close_text_def)
  next
    case (Some m)
    let ?i = "Message_item (oi_id m) st (full_text m)"
    let ?t = "s\<lparr>cs_output := cs_output s @ [(oi_index m, ?i)], cs_text := None\<rparr>"
    have e: "cs_tools s = []" using h(1) Some by (simp add: cs_inv_def)
    have em: "emits [Text_done (oi_id m) (oi_index m) (full_text m), Part_done (oi_id m) (oi_index m) (full_text m),
        Item_done (oi_index m) ?i] ?t = Inr (s', out)"
      using h(3) Some by (simp add: close_text_def Let_def)
    have "cs_inv ?t" using h(1) by (simp add: cs_inv_def)
    then show ?thesis using emitsD [OF em, of s] h(2) Some e by (simp add: reader_simps ddel_Cons)
  qed
qed

definition all_closed :: "cstream \<Rightarrow> bool" where
  "all_closed s \<longleftrightarrow> cs_reasoning s = None \<and> cs_text s = None \<and> cs_tools s = []"

lemma open_reasoning_ok:
  "ok_act (\<lambda>s. all_closed s \<and> cs_next_oi s = 0) (open_reasoning uuid) (\<lambda>s. cs_reasoning s \<noteq> None)"
  unfolding ok_act_def
proof (intro allI impI)
  fix s s' out
  assume h: "cs_inv s" "all_closed s \<and> cs_next_oi s = 0" "open_reasoning uuid s = Inr (s', out)"
  let ?t = "s\<lparr>cs_next_oi := cs_next_oi s + 1, cs_fresh := Suc (cs_fresh s),
      cs_reasoning := Some \<lparr>oi_id = ''rs_'' @ uuid (cs_fresh s), oi_index = cs_next_oi s, oi_buf = []\<rparr>\<rparr>"
  have em: "emits [Reasoning_added (''rs_'' @ uuid (cs_fresh s)) (cs_next_oi s),
      Summary_part_added (''rs_'' @ uuid (cs_fresh s)) (cs_next_oi s)] ?t = Inr (s', out)"
    using h(3) by (simp add: open_reasoning_def Let_def)
  have "cs_inv ?t" using h(1,2) by (simp add: cs_inv_def all_closed_def tool_ois_def)
  then show "reads read_event (view s) out = Some (view s') \<and> cs_inv s' \<and> cs_reasoning s' \<noteq> None"
    using emitsD [OF em, of s] h(2) by (simp add: reader_simps all_closed_def)
qed

lemma open_message_ok: "ok_act all_closed (open_message uuid) (\<lambda>s. cs_text s \<noteq> None)"
  unfolding ok_act_def
proof (intro allI impI)
  fix s s' out
  assume h: "cs_inv s" "all_closed s" "open_message uuid s = Inr (s', out)"
  let ?t = "s\<lparr>cs_next_oi := cs_next_oi s + 1, cs_fresh := Suc (cs_fresh s),
      cs_text := Some \<lparr>oi_id = ''msg_'' @ uuid (cs_fresh s), oi_index = cs_next_oi s, oi_buf = []\<rparr>\<rparr>"
  have em: "emits [Message_added (''msg_'' @ uuid (cs_fresh s)) (cs_next_oi s),
      Part_added (''msg_'' @ uuid (cs_fresh s)) (cs_next_oi s)] ?t = Inr (s', out)"
    using h(3) by (simp add: open_message_def Let_def)
  have "cs_inv ?t" using h(1,2) by (simp add: cs_inv_def all_closed_def tool_ois_def)
  then show "reads read_event (view s) out = Some (view s') \<and> cs_inv s' \<and> cs_text s' \<noteq> None"
    using emitsD [OF em, of s] h(2) by (simp add: reader_simps all_closed_def)
qed

lemma push_reasoning_ok: "ok_act (\<lambda>s. cs_reasoning s \<noteq> None) (push_reasoning t) (\<lambda>s. cs_reasoning s \<noteq> None)"
  unfolding ok_act_def
proof (intro allI impI)
  fix s s' out
  assume h: "cs_inv s" "cs_reasoning s \<noteq> None" "push_reasoning t s = Inr (s', out)"
  then obtain r where r: "cs_reasoning s = Some r" by blast
  let ?t = "s\<lparr>cs_reasoning := Some (r\<lparr>oi_buf := oi_buf r @ [t]\<rparr>)\<rparr>"
  have e: "cs_text s = None" "cs_tools s = []" using h(1) r by (simp_all add: cs_inv_def)
  have em: "emits [Summary_delta (oi_id r) (oi_index r) t, Reasoning_delta (oi_id r) (oi_index r) t] ?t = Inr (s', out)"
    using h(3) r by (simp add: push_reasoning_def)
  have "cs_inv ?t" using h(1) e by (simp add: cs_inv_def)
  then show "reads read_event (view s) out = Some (view s') \<and> cs_inv s' \<and> cs_reasoning s' \<noteq> None"
    using emitsD [OF em, of s] r e by (simp add: reader_simps)
qed

lemma push_text_ok: "ok_act (\<lambda>s. cs_text s \<noteq> None) (push_text t) (\<lambda>s. cs_text s \<noteq> None)"
  unfolding ok_act_def
proof (intro allI impI)
  fix s s' out
  assume h: "cs_inv s" "cs_text s \<noteq> None" "push_text t s = Inr (s', out)"
  then obtain m where m: "cs_text s = Some m" by blast
  let ?t = "s\<lparr>cs_text := Some (m\<lparr>oi_buf := oi_buf m @ [t]\<rparr>)\<rparr>"
  have e: "cs_reasoning s = None" "cs_tools s = []" using h(1) m by (auto simp: cs_inv_def)
  have em: "emits [Text_delta (oi_id m) (oi_index m) t] ?t = Inr (s', out)"
    using h(3) m by (simp add: push_text_def)
  have "cs_inv ?t" using h(1) e by (simp add: cs_inv_def)
  then show "reads read_event (view s) out = Some (view s') \<and> cs_inv s' \<and> cs_text s' \<noteq> None"
    using emitsD [OF em, of s] m e by (simp add: reader_simps)
qed

lemma dget_entry:
  assumes "dget d i = Some t" "distinct (tool_ois d)"
  shows "dget (map tool_entry d) (oi_index t) = Some (snd (tool_entry (i, t)))"
proof -
  have "map fst (map tool_entry d) = tool_ois d" by (simp add: tool_ois_def tool_entry_def)
  then have "dwf (map tool_entry d)" using assms(2) by (simp add: dwf_def)
  moreover have "tool_entry (i, t) \<in> set (map tool_entry d)" using dget_SomeD [OF assms(1)] by simp
  moreover have "fst (tool_entry (i, t)) = oi_index t" by (simp add: tool_entry_def)
  ultimately show ?thesis using dget_Some_iff by (metis prod.collapse)
qed

lemma tool_ois_simps [simp]: "tool_ois [] = []" "tool_ois (x # d) = oi_index (snd x) # tool_ois d"
  by (simp_all add: tool_ois_def)

lemma tool_oi_mem: "dget d i = Some t \<Longrightarrow> oi_index t \<in> set (tool_ois d)"
  by (force simp: tool_ois_def dest: dget_SomeD)

lemma tools_dput:
  "dget d i = Some t \<Longrightarrow> oi_index t' = oi_index t \<Longrightarrow> distinct (tool_ois d) \<Longrightarrow>
     map tool_entry (dput i t' d) = dput (oi_index t) (snd (tool_entry (i, t'))) (map tool_entry d) \<and>
     tool_ois (dput i t' d) = tool_ois d"
proof (induction d)
  case (Cons x d)
  obtain j u where x: "x = (j, u)" by fastforce
  show ?case
  proof (cases "j = i")
    case True
    then show ?thesis using Cons.prems by (simp add: x dget_Cons dput_Cons tool_entry_def)
  next
    case False
    then have d: "dget d i = Some t" using Cons.prems(1) by (simp add: x dget_Cons)
    have "oi_index u \<noteq> oi_index t" using tool_oi_mem [OF d] Cons.prems(3) by (auto simp: x)
    then show ?thesis
      using Cons.IH [OF d Cons.prems(2)] Cons.prems(3) False by (simp add: x dput_Cons tool_entry_def)
  qed
qed simp

lemma tools_ddel:
  "dget d i = Some t \<Longrightarrow> dwf d \<Longrightarrow> distinct (tool_ois d) \<Longrightarrow>
     map tool_entry (ddel i d) = ddel (oi_index t) (map tool_entry d) \<and> tool_ois (ddel i d) = remove1 (oi_index t) (tool_ois d) \<and>
     dkeys (ddel i d) = remove1 i (dkeys d)"
proof (induction d)
  case (Cons x d)
  obtain j u where x: "x = (j, u)" by fastforce
  have absent: "k \<notin> set (dkeys e) \<Longrightarrow> ddel k e = e" for k and e :: "(nat, entry) dict" by (rule ddel_absent)
  show ?case
  proof (cases "j = i")
    case True
    then have u: "u = t" using Cons.prems(1) by (simp add: x dget_Cons)
    have "oi_index t \<notin> set (map fst (map tool_entry d))"
      using Cons.prems(3) by (auto simp: x u tool_ois_def tool_entry_def)
    moreover have "i \<notin> set (dkeys d)" using Cons.prems(2) True by (simp add: x dwf_def)
    ultimately show ?thesis
      using True absent by (simp add: x u ddel_Cons ddel_absent tool_entry_def)
  next
    case False
    then have d: "dget d i = Some t" using Cons.prems(1) by (simp add: x dget_Cons)
    have "oi_index u \<noteq> oi_index t" using tool_oi_mem [OF d] Cons.prems(3) by (auto simp: x)
    moreover have "dwf d" "distinct (tool_ois d)" using Cons.prems(2,3) by (simp_all add: x dwf_def)
    ultimately show ?thesis
      using Cons.IH [OF d] False by (simp add: x ddel_Cons tool_entry_def)
  qed
qed simp

lemma dget_some_keys: "dget d i = Some t \<Longrightarrow> dkeys (dput i t' d) = dkeys d"
  by (simp only: dkeys_dput dget_Some_key if_True)

text \<open>With a call open, nothing else is.\<close>

lemma opens_calls:
  assumes "cs_inv s" "cs_tools s \<noteq> []"
  shows "opens s = map tool_entry (cs_tools s)" "cs_reasoning s = None" "cs_text s = None"
  using assms by (auto simp: cs_inv_def opens_def)

lemma close_tool_ok:
  "ok_act (\<lambda>s. cs_reasoning s = x \<and> cs_text s = y \<and> cs_tools s = d) (close_tool st i)
     (\<lambda>s. cs_reasoning s = x \<and> cs_text s = y \<and> cs_tools s = ddel i d)"
  unfolding ok_act_def
proof (intro allI impI)
  fix s s' out
  assume h: "cs_inv s" "cs_reasoning s = x \<and> cs_text s = y \<and> cs_tools s = d" "close_tool st i s = Inr (s', out)"
  show "reads read_event (view s) out = Some (view s') \<and> cs_inv s' \<and>
      cs_reasoning s' = x \<and> cs_text s' = y \<and> cs_tools s' = ddel i d"
  proof (cases "dget (cs_tools s) i")
    case None
    then have "ddel i d = d" using h(2) dget_None_iff ddel_absent by metis
    then show ?thesis using h None by (simp add: close_tool_def)
  next
    case (Some t)
    let ?it = "Call_item (oi_id t) st (tl_call_id t) (tl_name t) (concat (oi_buf t)) (tl_namespace t)"
    let ?t = "s\<lparr>cs_tools := ddel i (cs_tools s), cs_tool_order := remove1 i (cs_tool_order s),
        cs_output := cs_output s @ [(oi_index t, ?it)]\<rparr>"
    have n: "tl_name t \<noteq> []" using h(3) Some by (auto simp: close_tool_def)
    have em: "emits [Args_done (oi_id t) (oi_index t) (tl_name t) (concat (oi_buf t)), Item_done (oi_index t) ?it] ?t = Inr (s', out)"
      using h(3) Some n by (simp add: close_tool_def Let_def)
    have ne: "cs_tools s \<noteq> []" using Some by auto
    have I: "dwf (cs_tools s)" "cs_tool_order s = dkeys (cs_tools s)" "distinct (tool_ois (cs_tools s))"
        "\<forall>n \<in> set (tool_ois (cs_tools s)). n < cs_next_oi s"
      using h(1) by (simp_all add: cs_inv_def)
    note o = opens_calls [OF h(1) ne]
    note D = tools_ddel [OF Some I(1,3)]
    have inv: "cs_inv ?t"
      using I o D set_remove1_subset [of "oi_index t" "tool_ois (cs_tools s)"]
      by (auto simp: cs_inv_def dwf_ddel)
    have op: "opens ?t = ddel (oi_index t) (opens s)" using o D by (simp add: opens_def)
    have "dget (opens s) (oi_index t) = Some (Open_call (oi_id t) (tl_call_id t) (concat (oi_buf t)))"
      using dget_entry [OF Some I(3)] o by (simp add: tool_entry_def)
    then have "reads read_body (view s) [Args_done (oi_id t) (oi_index t) (tl_name t) (concat (oi_buf t)), Item_done (oi_index t) ?it] =
        Some (view ?t)"
      using n op by (simp add: view_def expects_def)
    from emitsD [OF em _ this inv] show ?thesis using h(2) by auto
  qed
qed

lemma close_all_ok:
  "ok_act (\<lambda>s. cs_reasoning s = x \<and> cs_text s = y) (close_all_tools st)
     (\<lambda>s. cs_reasoning s = x \<and> cs_text s = y \<and> cs_tools s = [])"
proof -
  have step: "ok_act (\<lambda>s. cs_reasoning s = x \<and> cs_text s = y \<and> cs_tools s = d \<and> dkeys d = is) (acts (map (close_tool st) is))
      (\<lambda>s. cs_reasoning s = x \<and> cs_text s = y \<and> cs_tools s = [])" for d "is"
  proof (induction "is" arbitrary: d)
    case Nil
    then show ?case by (simp add: ok_act_def)
  next
    case (Cons i "is")
    show ?case
    proof (cases "dkeys d = i # is")
      case True
      then obtain t d' where d: "d = (i, t) # d'" "dkeys d' = is" by (cases d) auto
      have "ok_act (\<lambda>s. cs_reasoning s = x \<and> cs_text s = y \<and> cs_tools s = d \<and> dkeys d = i # is) (close_tool st i)
          (\<lambda>s. cs_reasoning s = x \<and> cs_text s = y \<and> cs_tools s = ddel i d \<and> dkeys (ddel i d) = is)"
        unfolding ok_act_def
      proof (intro allI impI)
        fix s s' out
        assume h: "cs_inv s" "cs_reasoning s = x \<and> cs_text s = y \<and> cs_tools s = d \<and> dkeys d = i # is" "close_tool st i s = Inr (s', out)"
        have "i \<notin> set (dkeys d')" using h(1,2) d by (simp add: cs_inv_def dwf_def)
        then have "dkeys (ddel i d) = is" using d by (simp add: ddel_Cons ddel_absent)
        then show "reads read_event (view s) out = Some (view s') \<and> cs_inv s' \<and>
            cs_reasoning s' = x \<and> cs_text s' = y \<and> cs_tools s' = ddel i d \<and> dkeys (ddel i d) = is"
          using ok_actD [OF close_tool_ok h(1) _ h(3), of x y d] h(2) by simp
      qed
      from ok_acts_Cons [OF this Cons.IH] show ?thesis by (simp only: list.map)
    qed (simp add: ok_act_def)
  qed
  show ?thesis
    unfolding ok_act_def close_all_tools_def
  proof (intro allI impI)
    fix s s' out
    assume h: "cs_inv s" "cs_reasoning s = x \<and> cs_text s = y" "acts (map (close_tool st) (cs_tool_order s)) s = Inr (s', out)"
    have "cs_tool_order s = dkeys (cs_tools s)" using h(1) by (simp add: cs_inv_def)
    then show "reads read_event (view s) out = Some (view s') \<and> cs_inv s' \<and> cs_reasoning s' = x \<and> cs_text s' = y \<and> cs_tools s' = []"
      using ok_actD [OF step [of "cs_tools s" "cs_tool_order s"] h(1) _ h(3)] h(2) by simp
  qed
qed

lemma open_tool_ok:
  "ok_act (\<lambda>s. cs_reasoning s = None \<and> cs_text s = None \<and> dget (cs_tools s) i = None) (open_tool uuid ns i up name)
     (\<lambda>s. cs_tools s \<noteq> [])"
  unfolding ok_act_def
proof (intro allI impI)
  fix s s' out
  assume h: "cs_inv s" "cs_reasoning s = None \<and> cs_text s = None \<and> dget (cs_tools s) i = None"
    "open_tool uuid ns i up name s = Inr (s', out)"
  define c where "c = (case up of Some u \<Rightarrow> u | None \<Rightarrow> ''call_'' @ uuid (cs_fresh s))"
  define t where "t = \<lparr>oi_id = ''fc_'' @ c, oi_index = cs_next_oi s, oi_buf = [], tl_call_id = c, tl_upstream_id = up,
      tl_name = name, tl_namespace = ns_for name ns\<rparr>"
  define u where "u = s\<lparr>cs_next_oi := cs_next_oi s + 1, cs_fresh := (if up = None then Suc (cs_fresh s) else cs_fresh s),
      cs_tools := dput i t (cs_tools s), cs_tool_order := cs_tool_order s @ [i]\<rparr>"
  have em: "emits [Call_added (''fc_'' @ c) (cs_next_oi s) c name (ns_for name ns)] u = Inr (s', out)"
    using h(3) by (simp add: open_tool_def Let_def c_def t_def u_def)
  have I: "dwf (cs_tools s)" "cs_tool_order s = dkeys (cs_tools s)" "distinct (tool_ois (cs_tools s))"
      "\<forall>n \<in> set (tool_ois (cs_tools s)). n < cs_next_oi s"
    using h(1) by (simp_all add: cs_inv_def)
  have k: "i \<notin> set (dkeys (cs_tools s))" using h(2) dget_None_iff by metis
  have new: "dput i t (cs_tools s) = cs_tools s @ [(i, t)]" by (rule dput_new [OF k])
  have ois: "tool_ois (cs_tools s @ [(i, t)]) = tool_ois (cs_tools s) @ [cs_next_oi s]"
    by (simp add: tool_ois_def t_def)
  have inv: "cs_inv u"
    using I h(2) k by (auto simp: cs_inv_def u_def new ois dwf_def less_Suc_eq)
  have op: "opens s = map tool_entry (cs_tools s)" using h(2) by (simp add: opens_def)
  have "cs_next_oi s \<notin> set (dkeys (map tool_entry (cs_tools s)))"
    using I(4) by (auto simp: tool_ois_def tool_entry_def)
  note fresh = dput_new [OF this]
  have "cs_tools u = cs_tools s @ [(i, t)]" "cs_reasoning u = None" "cs_text u = None"
    using h(2) by (simp_all add: u_def new)
  moreover have "tool_entry (i, t) = (cs_next_oi s, Open_call (''fc_'' @ c) c [])" by (simp add: tool_entry_def t_def)
  ultimately have "opens u = dput (cs_next_oi s) (Open_call (''fc_'' @ c) c []) (opens s)"
    using fresh op by (simp add: opens_def)
  moreover have "list_all (\<lambda>(j, e). is_call e) (opens s)" by (simp add: op list_all_iff tool_entry_def)
  ultimately have r: "reads read_body (view s) [Call_added (''fc_'' @ c) (cs_next_oi s) c name (ns_for name ns)] = Some (view u)"
    by (simp add: view_def adds_def u_def)
  have "cs_seq u = cs_seq s" by (simp add: u_def)
  from emitsD [OF em this r inv] show "reads read_event (view s) out = Some (view s') \<and> cs_inv s' \<and> cs_tools s' \<noteq> []"
    by (auto simp: u_def new)
qed

lemma update_tool_ok: "ok_act (\<lambda>s. cs_tools s \<noteq> []) (update_tool ns i up name) (\<lambda>s. cs_tools s \<noteq> [])"
  unfolding ok_act_def
proof (intro allI impI)
  fix s s' out
  assume h: "cs_inv s" "cs_tools s \<noteq> []" "update_tool ns i up name s = Inr (s', out)"
  show "reads read_event (view s) out = Some (view s') \<and> cs_inv s' \<and> cs_tools s' \<noteq> []"
  proof (cases "dget (cs_tools s) i")
    case None
    then show ?thesis using h by (simp add: update_tool_def)
  next
    case (Some t)
    obtain t' where t': "s' = s\<lparr>cs_tools := dput i t' (cs_tools s)\<rparr>" "out = []" "oi_index t' = oi_index t"
        "oi_id t' = oi_id t" "tl_call_id t' = tl_call_id t" "oi_buf t' = oi_buf t"
      using h(3) Some by (auto simp: update_tool_def Let_def split: option.splits if_splits)
    have I: "dwf (cs_tools s)" "cs_tool_order s = dkeys (cs_tools s)" "distinct (tool_ois (cs_tools s))"
        "\<forall>n \<in> set (tool_ois (cs_tools s)). n < cs_next_oi s"
      using h(1) by (simp_all add: cs_inv_def)
    note o = opens_calls [OF h(1,2)]
    note D = tools_dput [OF Some t'(3) I(3)]
    have same: "snd (tool_entry (i, t')) = snd (tool_entry (i, t))" using t' by (simp add: tool_entry_def)
    have "dput (oi_index t) (snd (tool_entry (i, t))) (map tool_entry (cs_tools s)) = map tool_entry (cs_tools s)"
      using tools_dput [OF Some refl I(3)] dput_same [OF Some] by simp
    then have "map tool_entry (cs_tools s') = map tool_entry (cs_tools s)" using D same t'(1) by simp
    then have v: "view s' = view s" using o t'(1) by (simp add: view_def opens_def)
    have ne: "dput i t' (cs_tools s) \<noteq> []" using h(2) by (cases "cs_tools s") (auto simp: dput_Cons split: if_splits)
    have "dkeys (dput i t' (cs_tools s)) = dkeys (cs_tools s)" using dget_some_keys [OF Some] dget_Some_key [OF Some] by (simp only: dkeys_dput if_True)
    then have "cs_inv s'" using I D o t'(1) by (simp add: cs_inv_def dwf_dput)
    then show ?thesis using v t' ne by simp
  qed
qed

lemma push_args_ok: "ok_act (\<lambda>s. cs_tools s \<noteq> []) (push_args i v) (\<lambda>s. cs_tools s \<noteq> [])"
  unfolding ok_act_def
proof (intro allI impI)
  fix s s' out
  assume h: "cs_inv s" "cs_tools s \<noteq> []" "push_args i v s = Inr (s', out)"
  consider (none) "s' = s" "out = []"
    | (some) t a where "dget (cs_tools s) i = Some t"
        "emits [Args_delta (oi_id t) (oi_index t) a] (s\<lparr>cs_tools := dput i (t\<lparr>oi_buf := oi_buf t @ [a]\<rparr>) (cs_tools s)\<rparr>) = Inr (s', out)"
  proof (cases "\<exists>a t. v = J_str a \<and> a \<noteq> [] \<and> dget (cs_tools s) i = Some t")
    case True
    then obtain a t where "v = J_str a" "a \<noteq> []" "dget (cs_tools s) i = Some t" by blast
    then show ?thesis using h(3) some by (simp add: push_args_def)
  next
    case False
    have "s' = s \<and> out = []"
    proof (cases v)
      case (J_str a)
      then show ?thesis using False h(3) by (cases "dget (cs_tools s) i") (auto simp: push_args_def)
    qed (use h(3) in \<open>simp_all add: push_args_def\<close>)
    then show ?thesis using none by simp
  qed
  then show "reads read_event (view s) out = Some (view s') \<and> cs_inv s' \<and> cs_tools s' \<noteq> []"
  proof cases
    case some
    let ?u = "t\<lparr>oi_buf := oi_buf t @ [a]\<rparr>"
    let ?t = "s\<lparr>cs_tools := dput i ?u (cs_tools s)\<rparr>"
    have I: "dwf (cs_tools s)" "cs_tool_order s = dkeys (cs_tools s)" "distinct (tool_ois (cs_tools s))"
        "\<forall>n \<in> set (tool_ois (cs_tools s)). n < cs_next_oi s"
      using h(1) by (simp_all add: cs_inv_def)
    note o = opens_calls [OF h(1,2)]
    have ix: "oi_index ?u = oi_index t" by simp
    note D = tools_dput [OF some(1) ix I(3)]
    have ne: "dput i ?u (cs_tools s) \<noteq> []" using h(2) by (cases "cs_tools s") (auto simp: dput_Cons split: if_splits)
    have "dkeys (dput i ?u (cs_tools s)) = dkeys (cs_tools s)" using dget_Some_key [OF some(1)] by (simp only: dkeys_dput if_True)
    then have inv: "cs_inv ?t" using I D o by (simp add: cs_inv_def dwf_dput)
    have "opens ?t = dput (oi_index t) (Open_call (oi_id t) (tl_call_id t) (concat (oi_buf t) @ a)) (opens s)"
      using o D by (simp add: opens_def tool_entry_def)
    moreover have "dget (opens s) (oi_index t) = Some (Open_call (oi_id t) (tl_call_id t) (concat (oi_buf t)))"
      using dget_entry [OF some(1) I(3)] o by (simp add: tool_entry_def)
    ultimately have "reads read_body (view s) [Args_delta (oi_id t) (oi_index t) a] = Some (view ?t)"
      by (simp add: view_def extends_def)
    from emitsD [OF some(2) _ this inv] show ?thesis using ne by auto
  qed (use h in simp)
qed

lemma handle_tool_delta_ok: "ok_act (\<lambda>s. True) (handle_tool_delta uuid ns tc) (\<lambda>s. cs_tools s \<noteq> [])"
  unfolding ok_act_def
proof (intro allI impI)
  fix s s' out
  assume h: "cs_inv s" "handle_tool_delta uuid ns tc s = Inr (s', out)"
  obtain i up nm v where opened: "dget (cs_tools s) i = None \<Longrightarrow>
        acts [close_reasoning Completed, close_text Completed, open_tool uuid ns i up nm, push_args i v] s = Inr (s', out)"
      and reused: "dget (cs_tools s) i \<noteq> None \<Longrightarrow>
        acts [close_tool Completed i, close_reasoning Completed, close_text Completed, open_tool uuid ns i up nm, push_args i v] s =
          Inr (s', out) \<or> (\<exists>name. acts [update_tool ns i up name, push_args i v] s = Inr (s', out))"
  proof -
    obtain i fn name up where f: "call_index tc = Some i" "call_fn tc = Some fn" "part_text fn ''name'' = Some name"
        "part_text tc ''id'' = Some up"
      using h(2) by (auto simp: handle_tool_delta_def split: if_splits option.splits)
    show ?thesis
      by (rule that [of i up "case name of Some n \<Rightarrow> n | None \<Rightarrow> []" "jfield fn ''arguments''"])
        (use h(2) f in \<open>auto simp del: acts.simps simp: handle_tool_delta_def Let_def split: if_splits option.splits\<close>)
  qed
  have fresh: "ok_act (\<lambda>u. cs_text u = x \<and> cs_tools u = d)
      (acts [close_reasoning Completed, close_text Completed, open_tool uuid ns i up nm, push_args i v]) (\<lambda>s. cs_tools s \<noteq> [])"
    if "dget d i = None" for x d
    by (rule ok_acts_Cons [OF close_reasoning_ok [of x d]],
        rule ok_acts_Cons [OF ok_act_conseq [OF close_text_ok [of d]]], simp, assumption,
        rule ok_acts_Cons [OF ok_act_conseq [OF open_tool_ok]], simp add: that, assumption, rule ok_acts_one [OF push_args_ok])
  show "reads read_event (view s) out = Some (view s') \<and> cs_inv s' \<and> cs_tools s' \<noteq> []"
  proof (cases "dget (cs_tools s) i = None")
    case True
    show ?thesis using ok_actD [OF fresh [OF True] h(1) _ opened [OF True]] by simp
  next
    case False
    then have ne: "cs_tools s \<noteq> []" by auto
    note o = opens_calls(2,3) [OF h(1) ne]
    have "ok_act (\<lambda>u. cs_reasoning u = None \<and> cs_text u = None \<and> cs_tools u = cs_tools s)
        (acts [close_tool Completed i, close_reasoning Completed, close_text Completed, open_tool uuid ns i up nm, push_args i v])
        (\<lambda>s. cs_tools s \<noteq> [])"
      by (rule ok_acts_Cons [OF ok_act_conseq [OF close_tool_ok [of None None "cs_tools s"]]], simp, assumption,
          rule ok_act_conseq [OF fresh [of "ddel i (cs_tools s)" None]]) (simp_all add: dget_ddel)
    moreover have "ok_act (\<lambda>s. cs_tools s \<noteq> []) (acts [update_tool ns i up name, push_args i v]) (\<lambda>s. cs_tools s \<noteq> [])" for name
      by (rule ok_acts_Cons [OF update_tool_ok ok_acts_one [OF push_args_ok]])
    note R = calculation(1) and U = this
    from reused [OF False] show ?thesis
    proof
      assume "acts [close_tool Completed i, close_reasoning Completed, close_text Completed, open_tool uuid ns i up nm, push_args i v] s =
          Inr (s', out)"
      from ok_actD [OF R h(1) _ this] show ?thesis using o by simp
    next
      assume "\<exists>name. acts [update_tool ns i up name, push_args i v] s = Inr (s', out)"
      then obtain name where "acts [update_tool ns i up name, push_args i v] s = Inr (s', out)" by blast
      from ok_actD [OF U h(1) ne this] show ?thesis .
    qed
  qed
qed

text \<open>Reasoning can only be opened at the start: with nothing open, nothing was opened before.\<close>

definition quiet :: "cstream \<Rightarrow> bool" where
  "quiet s \<longleftrightarrow> (all_closed s \<longrightarrow> cs_next_oi s = 0)"

lemma not_closed_quiet: "cs_tools s \<noteq> [] \<Longrightarrow> quiet s" "cs_text s \<noteq> None \<Longrightarrow> quiet s" "cs_reasoning s \<noteq> None \<Longrightarrow> quiet s"
  by (auto simp: quiet_def all_closed_def)

lemma ok_acts_all: "(\<And>a. a \<in> set as \<Longrightarrow> ok_act P a P) \<Longrightarrow> ok_act P (acts as) P"
proof (induction as)
  case Nil
  show ?case by (rule ok_acts_Nil)
next
  case (Cons a as)
  show ?case by (rule ok_acts_Cons [of P a P]) (simp_all add: Cons)
qed

lemma handle_tool_deltas_ok: "ok_act quiet (handle_tool_deltas uuid ns v) quiet"
proof -
  have "ok_act quiet (acts (map (handle_tool_delta uuid ns) tcs)) quiet" for tcs
  proof (rule ok_acts_all)
    fix a assume "a \<in> set (map (handle_tool_delta uuid ns) tcs)"
    then obtain tc where "a = handle_tool_delta uuid ns tc" by auto
    then show "ok_act quiet a quiet" by (simp add: ok_act_conseq [OF handle_tool_delta_ok] not_closed_quiet)
  qed
  note all = this
  show ?thesis
    unfolding ok_act_def
  proof (intro allI impI)
    fix s s' out
    assume h: "cs_inv s" "quiet s" "handle_tool_deltas uuid ns v s = Inr (s', out)"
    obtain tcs where "acts (map (handle_tool_delta uuid ns) tcs) s = Inr (s', out)"
      using h(3) by (cases v) (simp_all add: handle_tool_deltas_def)
    from ok_actD [OF all h(1,2) this] show "reads read_event (view s) out = Some (view s') \<and> cs_inv s' \<and> quiet s'" .
  qed
qed

lemma handle_text_delta_ok: "ok_act quiet (handle_text_delta uuid t) quiet"
  unfolding ok_act_def
proof (intro allI impI)
  fix s s' out
  assume h: "cs_inv s" "quiet s" "handle_text_delta uuid t s = Inr (s', out)"
  have push: "ok_act (\<lambda>s. cs_text s \<noteq> None) (acts [push_text t]) (\<lambda>s. cs_text s \<noteq> None)"
    by (rule ok_acts_one [OF push_text_ok])
  have opened: "ok_act (\<lambda>u. cs_text u = None \<and> cs_tools u = d)
      (acts ([close_reasoning Completed, close_all_tools Completed, open_message uuid] @ [push_text t])) (\<lambda>s. cs_text s \<noteq> None)" for d
    unfolding append.simps
    by (rule ok_acts_Cons [OF close_reasoning_ok [of None d]],
        rule ok_acts_Cons [OF ok_act_conseq [OF close_all_ok [of None None]]], simp, assumption,
        rule ok_acts_Cons [OF ok_act_conseq [OF open_message_ok]], simp add: all_closed_def, assumption, rule push)
  have "reads read_event (view s) out = Some (view s') \<and> cs_inv s' \<and> cs_text s' \<noteq> None"
  proof (cases "cs_text s = None")
    case True
    have "acts ([close_reasoning Completed, close_all_tools Completed, open_message uuid] @ [push_text t]) s = Inr (s', out)"
      using h(3) unfolding handle_text_delta_def if_P [OF True] .
    from ok_actD [OF opened h(1) _ this] True show ?thesis by simp
  next
    case False
    have "acts [push_text t] s = Inr (s', out)"
      using h(3) unfolding handle_text_delta_def if_not_P [OF False] append_Nil .
    from ok_actD [OF push h(1) False this] show ?thesis .
  qed
  then show "reads read_event (view s) out = Some (view s') \<and> cs_inv s' \<and> quiet s'" using not_closed_quiet by simp
qed

lemma handle_reasoning_delta_ok: "ok_act quiet (handle_reasoning_delta uuid t) quiet"
  unfolding ok_act_def
proof (intro allI impI)
  fix s s' out
  assume h: "cs_inv s" "quiet s" "handle_reasoning_delta uuid t s = Inr (s', out)"
  have push: "ok_act (\<lambda>s. cs_reasoning s \<noteq> None) (acts [push_reasoning t]) (\<lambda>s. cs_reasoning s \<noteq> None)"
    by (rule ok_acts_one [OF push_reasoning_ok])
  have e: "cs_text s = None" "cs_tools s = []" using h(3) by (auto simp: handle_reasoning_delta_def split: if_splits)
  have "reads read_event (view s) out = Some (view s') \<and> cs_inv s' \<and> cs_reasoning s' \<noteq> None"
  proof (cases "cs_reasoning s = None")
    case True
    have "acts ([open_reasoning uuid] @ [push_reasoning t]) s = Inr (s', out)"
      using h(3) e unfolding handle_reasoning_delta_def if_P [OF True] by (simp del: acts.simps append.simps)
    moreover have "ok_act (\<lambda>s. all_closed s \<and> cs_next_oi s = 0) (acts ([open_reasoning uuid] @ [push_reasoning t]))
        (\<lambda>s. cs_reasoning s \<noteq> None)"
      unfolding append.simps by (rule ok_acts_Cons [OF open_reasoning_ok push])
    moreover have "all_closed s \<and> cs_next_oi s = 0" using True e h(2) by (simp add: quiet_def all_closed_def)
    ultimately show ?thesis using ok_actD h(1) by blast
  next
    case False
    have "acts [push_reasoning t] s = Inr (s', out)"
      using h(3) e unfolding handle_reasoning_delta_def if_not_P [OF False] append_Nil by (simp del: acts.simps)
    from ok_actD [OF push h(1) False this] show ?thesis .
  qed
  then show "reads read_event (view s) out = Some (view s') \<and> cs_inv s' \<and> quiet s'" using not_closed_quiet by simp
qed

lemma field_act_ok:
  assumes "\<And>t. ok_act P (f t) P"
  shows "ok_act P (field_act v k f) P"
  unfolding ok_act_def
proof (intro allI impI)
  fix s s' out
  assume h: "cs_inv s" "P s" "field_act v k f s = Inr (s', out)"
  then obtain r where r: "text_field v k = Inr r" by (cases "text_field v k") (simp_all add: field_act_def)
  show "reads read_event (view s) out = Some (view s') \<and> cs_inv s' \<and> P s'"
  proof (cases r)
    case None
    then show ?thesis using h r by (simp add: field_act_def)
  next
    case (Some t)
    then have "f t s = Inr (s', out)" using h(3) r by (simp add: field_act_def)
    from ok_actD [OF assms h(1,2) this] show ?thesis .
  qed
qed

lemma refuse_if_ok: "ok_act P (refuse_if b) P"
  by (auto simp: ok_act_def refuse_if_def split: if_splits)

lemma ok_acts_if: "ok_act P a P \<Longrightarrow> ok_act P (acts (if b then [a] else [])) P"
  by (cases b) (simp_all only: if_True if_False ok_acts_one ok_acts_Nil)

lemma handle_delta_ok: "ok_act quiet (handle_delta uuid cf delta) quiet"
proof -
  note r = field_act_ok [of quiet "handle_reasoning_delta uuid", OF handle_reasoning_delta_ok]
  note c = field_act_ok [of quiet "handle_text_delta uuid", OF handle_text_delta_ok]
  have "ok_act quiet (acts [refuse_if (present delta ''refusal''), field_act delta ''content'' (handle_text_delta uuid)]) quiet"
    by (rule ok_acts_Cons [OF refuse_if_ok ok_acts_one [OF c]])
  from ok_acts_append [OF ok_acts_if [OF r] ok_acts_append [OF this ok_acts_if [OF handle_tool_deltas_ok]]]
  show ?thesis unfolding handle_delta_def .
qed

text \<open>What only concerns the terminal event does not touch the view.\<close>

lemma view_simps [simp]:
  "view (s\<lparr>cs_usage := u\<rparr>) = view s" "view (s\<lparr>cs_finish := f, cs_terminal_seen := b\<rparr>) = view s"
  "cs_inv (s\<lparr>cs_usage := u\<rparr>) = cs_inv s" "cs_inv (s\<lparr>cs_finish := f, cs_terminal_seen := b\<rparr>) = cs_inv s"
  "quiet (s\<lparr>cs_usage := u\<rparr>) = quiet s" "quiet (s\<lparr>cs_finish := f, cs_terminal_seen := b\<rparr>) = quiet s"
  by (simp_all add: view_def opens_def cs_inv_def quiet_def all_closed_def)

lemma feed_choice_ok: "ok_act quiet (feed_choice uuid cf choice) quiet"
  unfolding ok_act_def
proof (intro allI impI)
  fix s s' out
  assume h: "cs_inv s" "quiet s" "feed_choice uuid cf choice s = Inr (s', out)"
  obtain s1 where s1: "view s1 = view s" "cs_inv s1" "quiet s1" and
      r: "s' = s1 \<and> out = [] \<or> (\<exists>d. handle_delta uuid cf (J_obj d) s1 = Inr (s', out))"
  proof -
    obtain s1 where s1: "(case jfield choice ''finish_reason'' of
          J_null \<Rightarrow> Inr s
        | f \<Rightarrow> (case finish_known f of
                  Inl e \<Rightarrow> Inl e
                | Inr known \<Rightarrow>
                    if known then Inr (s\<lparr>cs_finish := str_of f, cs_terminal_seen := True\<rparr>) else Inl Capability)) = Inr s1"
        "(case jfield choice ''delta'' of
             J_null \<Rightarrow> Inr (s1, []) | J_obj d \<Rightarrow> handle_delta uuid cf (J_obj d) s1 | _ \<Rightarrow> Inl Capability) = Inr (s', out)"
      using h(3) unfolding feed_choice_def by (auto split: if_splits sum.splits)
    have "view s1 = view s \<and> cs_inv s1 \<and> quiet s1"
      using s1(1) h(1,2) by (cases "jfield choice ''finish_reason''") (auto split: sum.splits if_splits)
    moreover have "s' = s1 \<and> out = [] \<or> (\<exists>d. handle_delta uuid cf (J_obj d) s1 = Inr (s', out))"
      using s1(2) by (cases "jfield choice ''delta''") auto
    ultimately show ?thesis using that by blast
  qed
  from r show "reads read_event (view s) out = Some (view s') \<and> cs_inv s' \<and> quiet s'"
    using s1 ok_actD [OF handle_delta_ok s1(2,3)] by auto
qed

lemma feed_chunk_ok: "ok_act quiet (feed_chunk trunc uuid cf chunk) quiet"
  unfolding ok_act_def
proof (intro allI impI)
  fix s s' out
  assume h: "cs_inv s" "quiet s" "feed_chunk trunc uuid cf chunk s = Inr (s', out)"
  obtain s1 where u: "note_chunk_usage trunc chunk s = Inr s1"
    using h(3) by (auto simp: feed_chunk_def split: if_splits sum.splits)
  have s1: "view s1 = view s" "cs_inv s1" "quiet s1"
    using u h(1,2) by (auto simp: note_chunk_usage_def split: if_splits sum.splits)
  have "s' = s1 \<and> out = [] \<or> (\<exists>c. feed_choice uuid cf c s1 = Inr (s', out))"
    using h(3) u by (auto simp: feed_chunk_def split: if_splits json.splits list.splits)
  then show "reads read_event (view s) out = Some (view s') \<and> cs_inv s' \<and> quiet s'"
    using s1 ok_actD [OF feed_choice_ok s1(2,3)] by auto
qed

section \<open>The end of the stream\<close>

lemma terminal_reads:
  assumes "all_closed s" "st \<in> {Completed, Incomplete}" "terminal cf st incomplete s = Inr (s', out)"
  shows "\<exists>q. reads read_event (view s) out = Some q \<and> rd_stage q = 3"
proof -
  have o: "opens s = []" using assms(1) by (simp add: all_closed_def opens_def)
  show ?thesis
    using assms(2,3) o
    by (auto simp: terminal_def emits_def read_event_def view_def ends_def done_output_def sorted_output_def lean_object_def)
qed

lemma failed_reads: "failed cf err s = Inr (s', out) \<Longrightarrow> \<exists>q. reads read_event (view s) out = Some q \<and> rd_stage q = 3"
  by (auto simp: failed_def emits_def read_event_def view_def ends_def done_output_def sorted_output_def lean_object_def)

lemma finish_to_status_cases: "fst (finish_to_status f b) \<in> {Completed, Incomplete}"
  by (simp add: finish_to_status_def)

text \<open>The last action of a run.\<close>

lemma acts_last:
  assumes "acts (as @ [a]) s = Inr (s', out)"
  shows "\<exists>s1 o1 o2. acts as s = Inr (s1, o1) \<and> a s1 = Inr (s', o2) \<and> out = o1 @ o2"
  using assms
proof (induction as arbitrary: s out)
  case Nil
  then show ?case by (auto split: sum.splits prod.splits)
next
  case (Cons x xs)
  then obtain s1 o1 o2 where a: "x s = Inr (s1, o1)" "acts (xs @ [a]) s1 = Inr (s', o2)" "out = o1 @ o2"
    by (auto split: sum.splits prod.splits)
  from Cons.IH [OF a(2)] show ?case using a(1,3) by fastforce
qed

lemma finalize_last:
  assumes "finalize cf s = Inr (s', out)"
  shows "\<exists>st incomplete s1 o1 o2. st \<in> {Completed, Incomplete} \<and>
    acts [close_reasoning Completed, close_text (item_status_of st), close_all_tools (item_status_of st)] s = Inr (s1, o1) \<and>
    terminal cf st incomplete s1 = Inr (s', o2) \<and> out = o1 @ o2"
proof -
  obtain st incomplete where f: "finish_to_status (case cs_finish s of Some f \<Rightarrow> f | None \<Rightarrow> []) (bc_length_as_completed cf) = (st, incomplete)"
    by fastforce
  have st: "st \<in> {Completed, Incomplete}" using finish_to_status_cases f by (metis fst_conv)
  have "acts ([close_reasoning Completed, close_text (item_status_of st), close_all_tools (item_status_of st)] @
      [terminal cf st incomplete]) s = Inr (s', out)"
    using assms f by (simp add: finalize_def del: acts.simps)
  from acts_last [OF this] st show ?thesis by blast
qed

lemma finalize_reads:
  assumes "cs_inv s" "finalize cf s = Inr (s', out)"
  shows "\<exists>q. reads read_event (view s) out = Some q \<and> rd_stage q = 3"
proof -
  obtain st incomplete s1 o1 o2 where f: "st \<in> {Completed, Incomplete}"
      "acts [close_reasoning Completed, close_text (item_status_of st), close_all_tools (item_status_of st)] s = Inr (s1, o1)"
      "terminal cf st incomplete s1 = Inr (s', o2)" "out = o1 @ o2"
    using finalize_last [OF assms(2)] by blast
  have "ok_act (\<lambda>u. cs_text u = cs_text s \<and> cs_tools u = cs_tools s)
      (acts [close_reasoning Completed, close_text (item_status_of st), close_all_tools (item_status_of st)]) all_closed"
    by (rule ok_acts_Cons [OF close_reasoning_ok [of "cs_text s" "cs_tools s"]],
        rule ok_acts_Cons [OF ok_act_conseq [OF close_text_ok [of "cs_tools s"]]], simp, assumption,
        rule ok_acts_one [OF ok_act_conseq [OF close_all_ok [of None None]]]) (simp_all add: all_closed_def)
  from ok_actD [OF this assms(1) _ f(2)] have a: "reads read_event (view s) o1 = Some (view s1)" "all_closed s1" by simp_all
  from terminal_reads [OF a(2) f(1,3)] a(1) show ?thesis by (simp add: f(4) reads_append)
qed

lemma stream_chunks_reads:
  "cs_inv s \<Longrightarrow> quiet s \<Longrightarrow> stream_chunks trunc uuid show cf s chunks = (out, err) \<Longrightarrow>
     \<exists>q. reads read_event (view s) out = Some q \<and> rd_stage q = (if err = None then 3 else 2)"
proof (induction chunks arbitrary: s out)
  case Nil
  let ?r = "if cs_terminal_seen s then finalize cf s else failed cf Incomplete_stream s"
  show ?case
  proof (cases ?r)
    case (Inl e)
    then show ?thesis using Nil.prems(3) by (auto simp: view_def)
  next
    case (Inr r)
    obtain s' o1 where r: "?r = Inr (s', o1)" using Inr by (cases r) simp
    have "out = o1" "err = None" using Nil.prems(3) r by auto
    moreover have "\<exists>q. reads read_event (view s) o1 = Some q \<and> rd_stage q = 3"
      using r finalize_reads [OF Nil.prems(1)] failed_reads by (metis (full_types))
    ultimately show ?thesis by simp
  qed
next
  case (Cons c cs)
  consider (stop) e where "out = []" "err = Some e"
    | (failing) s' where "failed cf (upstream_error show (jfield c ''error'')) s = Inr (s', out)" "err = None"
    | (go_on) s1 o1 o2 where "feed_chunk trunc uuid cf c s = Inr (s1, o1)" "stream_chunks trunc uuid show cf s1 cs = (o2, err)"
        "out = o1 @ o2"
  proof (cases "is_obj c \<and> \<not> present c ''error'' \<and> (\<exists>r. feed_chunk trunc uuid cf c s = Inr r)")
    case True
    then obtain s1 o1 where "feed_chunk trunc uuid cf c s = Inr (s1, o1)" by auto
    moreover obtain o2 e2 where "stream_chunks trunc uuid show cf s1 cs = (o2, e2)" by fastforce
    ultimately show ?thesis using Cons.prems(3) True that(3) by simp
  next
    case False
    obtain s2 o2 where f: "failed cf (upstream_error show (jfield c ''error'')) s = Inr (s2, o2)"
      by (simp add: failed_def emits_def)
    show ?thesis
      using Cons.prems(3) False f that(1,2) by (cases "feed_chunk trunc uuid cf c s") (auto split: if_splits)
  qed
  then show ?case
  proof cases
    case stop
    then show ?thesis by (simp add: view_def)
  next
    case failing
    then show ?thesis using failed_reads by simp
  next
    case go_on
    have k: "reads read_event (view s) o1 = Some (view s1)" "cs_inv s1" "quiet s1"
      using ok_actD [OF feed_chunk_ok Cons.prems(1,2) go_on(1)] by simp_all
    from Cons.IH [OF k(2,3) go_on(2)] k(1) show ?thesis by (simp add: go_on(3) reads_append)
  qed
qed

lemma preamble_reads:
  assumes "preamble cf new_cstream = Inr (s, out)"
  shows "reads read_event new_reader out = Some (view s) \<and> cs_inv s \<and> quiet s"
proof -
  have "s = new_cstream\<lparr>cs_seq := 2\<rparr>"
    "out = [(Created (lean_object cf In_progress [] None None None), 0), (Started (lean_object cf In_progress [] None None None), 1)]"
    using assms by (simp_all add: preamble_def emits_def new_cstream_def upt_conv_Cons numeral_2_eq_2)
  then show ?thesis
    by (simp add: read_event_def new_reader_def lean_object_def view_def opens_def new_cstream_def cs_inv_def quiet_def
        dwf_def numeral_2_eq_2)
qed

text \<open>
  C38. Whatever the upstream chunks are, the events yielded follow the Responses protocol - numbered
  without gaps, items under consecutive output indices, deltas adding up to the done texts, a terminal
  object carrying exactly the items that were done - and they end with a terminal event exactly when
  no exception is raised.
\<close>

theorem codex_stream_conforms:
  "\<exists>q. reads read_event new_reader (fst (chat_stream_to_responses_events trunc uuid show cf chunks)) = Some q \<and>
     (rd_stage q = 3) = (snd (chat_stream_to_responses_events trunc uuid show cf chunks) = None)"
proof -
  obtain s o1 where p: "preamble cf new_cstream = Inr (s, o1)" by (simp add: preamble_def emits_def)
  obtain o2 err where r: "stream_chunks trunc uuid show cf s chunks = (o2, err)" by fastforce
  note P = preamble_reads [OF p]
  obtain q where q: "reads read_event (view s) o2 = Some q" "rd_stage q = (if err = None then 3 else 2)"
    using stream_chunks_reads [OF _ _ r] P by blast
  have "chat_stream_to_responses_events trunc uuid show cf chunks = (o1 @ o2, err)"
    by (simp add: chat_stream_to_responses_events_def p r)
  then show ?thesis using P q by (auto simp: reads_append split: if_splits)
qed

section \<open>The content, and the evidence for success\<close>

datatype fragment = Reason string | Text string | Args string

fun fragment_of :: "body \<Rightarrow> fragment list" where
  "fragment_of (Summary_delta i oi t) = [Reason t]"
| "fragment_of (Text_delta i oi t) = [Text t]"
| "fragment_of (Args_delta i oi t) = [Args t]"
| "fragment_of _ = []"

definition fragments :: "event list \<Rightarrow> fragment list" where
  "fragments es = concat (map (\<lambda>e. fragment_of (fst e)) es)"

text \<open>An action that says just these fragments and leaves the terminal evidence alone.\<close>

definition tells :: "(cstream \<Rightarrow> bool) \<Rightarrow> act \<Rightarrow> fragment list \<Rightarrow> (cstream \<Rightarrow> bool) \<Rightarrow> bool" where
  "tells P a fs Q \<longleftrightarrow>
     (\<forall>s s' out. P s \<longrightarrow> a s = Inr (s', out) \<longrightarrow>
        fragments out = fs \<and> cs_terminal_seen s' = cs_terminal_seen s \<and> Q s')"

lemma tellsD:
  "tells P a fs Q \<Longrightarrow> P s \<Longrightarrow> a s = Inr (s', out) \<Longrightarrow>
     fragments out = fs \<and> cs_terminal_seen s' = cs_terminal_seen s \<and> Q s'"
  by (simp add: tells_def)

lemma tells_Nil: "tells P (acts []) [] P"
  by (simp add: tells_def fragments_def)

lemma tells_Cons:
  assumes "tells P a fs R" "tells R (acts as) gs Q"
  shows "tells P (acts (a # as)) (fs @ gs) Q"
  unfolding tells_def
proof (intro allI impI)
  fix s s' out
  assume h: "P s" "acts (a # as) s = Inr (s', out)"
  then obtain s1 o1 o2 where o: "a s = Inr (s1, o1)" "acts as s1 = Inr (s', o2)" "out = o1 @ o2"
    by (auto split: sum.splits prod.splits)
  have A: "fragments o1 = fs" "cs_terminal_seen s1 = cs_terminal_seen s" "R s1" using tellsD [OF assms(1) h(1) o(1)] by simp_all
  have B: "fragments o2 = gs" "cs_terminal_seen s' = cs_terminal_seen s1" "Q s'" using tellsD [OF assms(2) A(3) o(2)] by simp_all
  show "fragments out = fs @ gs \<and> cs_terminal_seen s' = cs_terminal_seen s \<and> Q s'"
    using A B by (simp add: o(3) fragments_def)
qed

lemma tells_one: "tells P a fs Q \<Longrightarrow> tells P (acts [a]) fs Q"
  using tells_Cons [of P a fs Q "[]" "[]" Q] tells_Nil [of Q] by simp

lemma tells_append: "tells P (acts as) fs R \<Longrightarrow> tells R (acts bs) gs Q \<Longrightarrow> tells P (acts (as @ bs)) (fs @ gs) Q"
  unfolding acts_append by (rule tells_Cons [OF _ tells_one])

lemma emits_fragments:
  assumes "emits bs t = Inr (s', out)"
  shows "fragments out = concat (map fragment_of bs) \<and> s' = t\<lparr>cs_seq := cs_seq t + length bs\<rparr>"
proof -
  have z: "concat (map (\<lambda>e. fragment_of (fst e)) (zip bs ns)) = concat (map fragment_of bs)" if "length ns = length bs"
    for bs and ns :: "nat list"
    using that by (induction bs ns rule: list_induct2') auto
  show ?thesis using assms by (auto simp: fragments_def emits_def z)
qed

lemma fragments_Nil [simp]: "fragments [] = []"
  by (simp add: fragments_def)

lemma close_reasoning_tells: "tells (\<lambda>s. P (cs_tools s)) (close_reasoning st) [] (\<lambda>s. P (cs_tools s))"
  by (auto simp: tells_def close_reasoning_def Let_def split: option.splits dest!: emits_fragments)

lemma close_text_tells: "tells (\<lambda>s. P (cs_tools s)) (close_text st) [] (\<lambda>s. P (cs_tools s))"
  by (auto simp: tells_def close_text_def Let_def split: option.splits dest!: emits_fragments)

lemma close_tool_tells: "tells P (close_tool st i) [] (\<lambda>s. True)"
  by (auto simp: tells_def close_tool_def Let_def split: option.splits if_splits dest!: emits_fragments)

lemma close_all_tells: "tells P (close_all_tools st) [] (\<lambda>s. True)"
proof -
  have "tells (\<lambda>s. True) (acts (map (close_tool st) is)) [] (\<lambda>s. True)" for "is"
  proof (induction "is")
    case (Cons i "is")
    from tells_Cons [OF close_tool_tells Cons] show ?case by (simp del: acts.simps)
  next
    case Nil
    show ?case unfolding list.map by (rule tells_Nil)
  qed
  then show ?thesis by (simp add: tells_def close_all_tools_def)
qed

lemma open_tells:
  "tells P (open_reasoning uuid) [] (\<lambda>s. cs_reasoning s \<noteq> None)" "tells P (open_message uuid) [] (\<lambda>s. cs_text s \<noteq> None)"
  "tells P (open_tool uuid ns i up name) [] (\<lambda>s. dget (cs_tools s) i \<noteq> None)"
  by (auto simp: tells_def open_reasoning_def open_message_def open_tool_def Let_def dget_dput
      dest!: emits_fragments)

lemma push_tells:
  "tells (\<lambda>s. cs_reasoning s \<noteq> None) (push_reasoning t) [Reason t] (\<lambda>s. True)"
  "tells (\<lambda>s. cs_text s \<noteq> None) (push_text t) [Text t] (\<lambda>s. True)"
  by (auto simp: tells_def push_reasoning_def push_text_def split: option.splits
      dest!: emits_fragments)

definition args_fragments :: "json \<Rightarrow> fragment list" where
  "args_fragments v = (case nonempty v of Some a \<Rightarrow> [Args a] | None \<Rightarrow> [])"

lemma push_args_tells: "tells (\<lambda>s. dget (cs_tools s) i \<noteq> None) (push_args i v) (args_fragments v) (\<lambda>s. True)"
proof (cases v)
  case (J_str a)
  then show ?thesis
    by (auto simp: tells_def push_args_def args_fragments_def nonempty_def split: option.splits
        dest!: emits_fragments)
qed (simp_all add: tells_def push_args_def args_fragments_def nonempty_def)

lemma update_tool_tells:
  "tells (\<lambda>s. dget (cs_tools s) i \<noteq> None) (update_tool ns i up name) [] (\<lambda>s. dget (cs_tools s) i \<noteq> None)"
  by (auto simp: tells_def update_tool_def Let_def dget_dput split: option.splits)

lemma tells_if:
  "(b \<Longrightarrow> tells P (acts as) fs Q) \<Longrightarrow> (\<not> b \<Longrightarrow> tells P (acts bs) fs Q) \<Longrightarrow> tells P (acts (if b then as else bs)) fs Q"
  by (cases b) simp_all

lemma tells_at: "tells P a fs Q \<Longrightarrow> P s \<Longrightarrow> tells (\<lambda>u. u = s) a fs Q"
  unfolding tells_def by blast

lemma handle_reasoning_tells: "tells (\<lambda>s. True) (handle_reasoning_delta uuid t) [Reason t] (\<lambda>s. True)"
  unfolding tells_def
proof (intro allI impI)
  fix s s' out
  assume r: "handle_reasoning_delta uuid t s = Inr (s', out)"
  then have n: "\<not> (cs_text s \<noteq> None \<or> cs_tools s \<noteq> [])" by (auto simp: handle_reasoning_delta_def split: if_splits)
  have h: "acts ((if cs_reasoning s = None then [open_reasoning uuid] else []) @ [push_reasoning t]) s = Inr (s', out)"
    using r unfolding handle_reasoning_delta_def if_not_P [OF n] .
  have "tells (\<lambda>u. u = s) (acts ((if cs_reasoning s = None then [open_reasoning uuid] else []) @ [push_reasoning t]))
      ([] @ [Reason t]) (\<lambda>s. True)"
  proof (rule tells_append [OF _ tells_one [OF push_tells(1)]])
    show "tells (\<lambda>u. u = s) (acts (if cs_reasoning s = None then [open_reasoning uuid] else [])) [] (\<lambda>s. cs_reasoning s \<noteq> None)"
    proof (cases "cs_reasoning s = None")
      case True
      show ?thesis unfolding if_P [OF True] by (rule tells_one [OF open_tells(1)])
    next
      case False
      show ?thesis unfolding if_not_P [OF False] using False by (simp add: tells_def)
    qed
  qed
  from tellsD [OF this _ h] show "fragments out = [Reason t] \<and> cs_terminal_seen s' = cs_terminal_seen s \<and> True" by simp
qed

lemma handle_text_tells: "tells (\<lambda>s. True) (handle_text_delta uuid t) [Text t] (\<lambda>s. True)"
  unfolding tells_def
proof (intro allI impI)
  fix s s' out
  let ?as = "[close_reasoning Completed, close_all_tools Completed, open_message uuid]"
  assume h: "handle_text_delta uuid t s = Inr (s', out)"
  have o: "tells (\<lambda>s. True) (acts ?as) ([] @ [] @ []) (\<lambda>s. cs_text s \<noteq> None)"
    by (rule tells_Cons [OF close_reasoning_tells [of "\<lambda>_. True"] tells_Cons [OF close_all_tells tells_one [OF open_tells(2)]]])
  have "tells (\<lambda>u. u = s) (acts ((if cs_text s = None then ?as else []) @ [push_text t])) ([] @ [Text t]) (\<lambda>s. True)"
  proof (rule tells_append [OF _ tells_one [OF push_tells(2)]])
    show "tells (\<lambda>u. u = s) (acts (if cs_text s = None then ?as else [])) [] (\<lambda>s. cs_text s \<noteq> None)"
    proof (cases "cs_text s = None")
      case True
      show ?thesis unfolding if_P [OF True] using o by (simp add: tells_def del: acts.simps)
    next
      case False
      show ?thesis unfolding if_not_P [OF False] using False by (simp add: tells_def)
    qed
  qed
  from tellsD [OF this _ h [unfolded handle_text_delta_def]]
  show "fragments out = [Text t] \<and> cs_terminal_seen s' = cs_terminal_seen s \<and> True" by simp
qed

definition call_fragments :: "json \<Rightarrow> fragment list" where
  "call_fragments tc = (case call_fn tc of Some fn \<Rightarrow> args_fragments (jfield fn ''arguments'') | None \<Rightarrow> [])"

lemma handle_tool_tells: "tells (\<lambda>s. True) (handle_tool_delta uuid ns tc) (call_fragments tc) (\<lambda>s. True)"
  unfolding tells_def
proof (intro allI impI)
  fix s s' out
  assume h: "handle_tool_delta uuid ns tc s = Inr (s', out)"
  obtain i fn name up where f: "call_index tc = Some i" "call_fn tc = Some fn" "part_text fn ''name'' = Some name"
      "part_text tc ''id'' = Some up"
    using h by (auto simp: handle_tool_delta_def split: if_splits option.splits)
  have g: "is_obj tc" "(present tc ''type'' \<and> jfield tc ''type'' \<noteq> J_str ''function'') = False"
    using h by (auto simp: handle_tool_delta_def split: if_splits option.splits)
  define reused where "reused = (case dget (cs_tools s) i of
      None \<Rightarrow> False | Some t \<Rightarrow> up \<noteq> None \<and> tl_upstream_id t \<noteq> None \<and> up \<noteq> tl_upstream_id t)"
  let ?n = "case name of Some n \<Rightarrow> n | None \<Rightarrow> []"
  let ?open = "(if reused then [close_tool Completed i] else []) @
      [close_reasoning Completed, close_text Completed, open_tool uuid ns i up ?n]"
  let ?as = "if dget (cs_tools s) i = None \<or> reused then ?open else [update_tool ns i up name]"
  have a: "acts (?as @ [push_args i (jfield fn ''arguments'')]) s = Inr (s', out)"
    using h g f unfolding handle_tool_delta_def by (simp only: if_False if_True not_True_eq_False option.case Let_def reused_def)
  have o: "tells (\<lambda>s. True) (acts ?open) ([] @ [] @ [] @ []) (\<lambda>s. dget (cs_tools s) i \<noteq> None)"
    by (rule tells_append [OF tells_if [OF tells_one [OF close_tool_tells] tells_Nil]],
        rule tells_Cons [OF close_reasoning_tells [of "\<lambda>_. True"]
          tells_Cons [OF close_text_tells [of "\<lambda>_. True"] tells_one [OF open_tells(3)]]])
  have "tells (\<lambda>u. u = s) (acts ?as) [] (\<lambda>s. dget (cs_tools s) i \<noteq> None)"
  proof (cases "dget (cs_tools s) i = None \<or> reused")
    case True
    show ?thesis unfolding if_P [OF True] using o by (simp add: tells_def del: acts.simps append.simps)
  next
    case False
    show ?thesis unfolding if_not_P [OF False]
      by (rule tells_at [OF tells_one [OF update_tool_tells]]) (use False in simp)
  qed
  from tellsD [OF tells_append [OF this tells_one [OF push_args_tells]] refl a]
  show "fragments out = call_fragments tc \<and> cs_terminal_seen s' = cs_terminal_seen s \<and> True"
    by (simp add: call_fragments_def f(2))
qed

definition calls_fragments :: "json \<Rightarrow> fragment list" where
  "calls_fragments v = (case v of J_list tcs \<Rightarrow> concat (map call_fragments tcs) | _ \<Rightarrow> [])"

lemma handle_tools_tells: "tells (\<lambda>s. True) (handle_tool_deltas uuid ns v) (calls_fragments v) (\<lambda>s. True)"
proof -
  have "tells (\<lambda>s. True) (acts (map (handle_tool_delta uuid ns) tcs)) (concat (map call_fragments tcs)) (\<lambda>s. True)" for tcs
  proof (induction tcs)
    case Nil
    show ?case unfolding list.map concat.simps by (rule tells_Nil)
  next
    case (Cons tc tcs)
    show ?case unfolding list.map concat.simps by (rule tells_Cons [OF handle_tool_tells Cons])
  qed
  then show ?thesis by (cases v) (simp_all add: tells_def handle_tool_deltas_def calls_fragments_def)
qed

definition field_fragments :: "(string \<Rightarrow> fragment) \<Rightarrow> json \<Rightarrow> string \<Rightarrow> fragment list" where
  "field_fragments c v k = (case nonempty (jfield v k) of Some t \<Rightarrow> [c t] | None \<Rightarrow> [])"

lemma field_tells:
  assumes "\<And>t. tells (\<lambda>s. True) (f t) [c t] (\<lambda>s. True)"
  shows "tells (\<lambda>s. True) (field_act v k f) (field_fragments c v k) (\<lambda>s. True)"
  unfolding tells_def
proof (intro allI impI)
  fix s s' out
  assume h: "field_act v k f s = Inr (s', out)"
  show "fragments out = field_fragments c v k \<and> cs_terminal_seen s' = cs_terminal_seen s \<and> True"
  proof (cases "nonempty (jfield v k)")
    case None
    then have "s' = s \<and> out = []"
      using h by (cases "jfield v k") (auto simp: field_act_def text_field_def nonempty_def)
    then show ?thesis using None by (simp add: field_fragments_def)
  next
    case (Some t)
    then have "f t s = Inr (s', out)"
      using h by (cases "jfield v k") (auto simp: field_act_def text_field_def nonempty_def split: if_splits)
    from tellsD [OF assms _ this] Some show ?thesis by (simp add: field_fragments_def)
  qed
qed

definition delta_fragments :: "bridge_config \<Rightarrow> json \<Rightarrow> fragment list" where
  "delta_fragments cf d =
     (if bc_emit_reasoning cf then field_fragments Reason d ''reasoning_content'' else []) @
     field_fragments Text d ''content'' @
     (if present d ''tool_calls'' then calls_fragments (jfield d ''tool_calls'') else [])"

lemma handle_delta_tells: "tells (\<lambda>s. True) (handle_delta uuid cf d) (delta_fragments cf d) (\<lambda>s. True)"
proof -
  have refuse: "tells (\<lambda>s. True) (refuse_if b) [] (\<lambda>s. True)" for b by (simp add: tells_def refuse_if_def)
  have opt: "tells (\<lambda>s. True) (acts (if b then [a] else [])) (if b then fs else []) (\<lambda>s. True)"
    if "tells (\<lambda>s. True) a fs (\<lambda>s. True)" for a b fs
    using tells_one [OF that] tells_Nil by (cases b) (simp_all only: if_True if_False)
  have "tells (\<lambda>s. True) (acts [refuse_if (present d ''refusal''), field_act d ''content'' (handle_text_delta uuid)])
      ([] @ field_fragments Text d ''content'') (\<lambda>s. True)"
    by (rule tells_Cons [OF refuse tells_one [OF field_tells [OF handle_text_tells]]])
  from tells_append [OF opt [OF field_tells [OF handle_reasoning_tells]] tells_append [OF this opt [OF handle_tools_tells]]]
  show ?thesis unfolding handle_delta_def delta_fragments_def by (simp only: append_Nil)
qed

text \<open>Per chunk.\<close>

definition choice_of :: "json \<Rightarrow> json" where
  "choice_of chunk = (case jfield chunk ''choices'' of J_list [c] \<Rightarrow> c | _ \<Rightarrow> J_null)"

definition chunk_fragments :: "bridge_config \<Rightarrow> json \<Rightarrow> fragment list" where
  "chunk_fragments cf chunk =
     (case jfield (choice_of chunk) ''delta'' of J_obj d \<Rightarrow> delta_fragments cf (J_obj d) | _ \<Rightarrow> [])"

definition chunk_finishes :: "json \<Rightarrow> bool" where
  "chunk_finishes chunk \<longleftrightarrow> present (choice_of chunk) ''finish_reason''"

lemma feed_choice_tells:
  assumes "feed_choice uuid cf c s = Inr (s', out)"
  shows "fragments out = (case jfield c ''delta'' of J_obj d \<Rightarrow> delta_fragments cf (J_obj d) | _ \<Rightarrow> []) \<and>
    cs_terminal_seen s' = (cs_terminal_seen s \<or> present c ''finish_reason'')"
proof -
  obtain s1 where s1: "(case jfield c ''finish_reason'' of
        J_null \<Rightarrow> Inr s
      | f \<Rightarrow> (case finish_known f of
                Inl e \<Rightarrow> Inl e
              | Inr known \<Rightarrow>
                  if known then Inr (s\<lparr>cs_finish := str_of f, cs_terminal_seen := True\<rparr>) else Inl Capability)) = Inr s1"
      "(case jfield c ''delta'' of
           J_null \<Rightarrow> Inr (s1, []) | J_obj d \<Rightarrow> handle_delta uuid cf (J_obj d) s1 | _ \<Rightarrow> Inl Capability) = Inr (s', out)"
    using assms unfolding feed_choice_def by (auto split: if_splits sum.splits)
  have t: "cs_terminal_seen s1 = (cs_terminal_seen s \<or> present c ''finish_reason'')"
    using s1(1) by (cases "jfield c ''finish_reason''") (auto simp: present_def split: sum.splits if_splits)
  show ?thesis
  proof (cases "jfield c ''delta''")
    case (J_obj d)
    then have "handle_delta uuid cf (J_obj d) s1 = Inr (s', out)" using s1(2) by simp
    from tellsD [OF handle_delta_tells _ this] t J_obj show ?thesis by simp
  qed (use s1(2) t in simp_all)
qed

lemma feed_chunk_tells:
  assumes "feed_chunk trunc uuid cf chunk s = Inr (s', out)"
  shows "fragments out = chunk_fragments cf chunk \<and> cs_terminal_seen s' = (cs_terminal_seen s \<or> chunk_finishes chunk)"
proof -
  obtain s1 where u: "note_chunk_usage trunc chunk s = Inr s1"
    using assms by (auto simp: feed_chunk_def split: if_splits sum.splits)
  have t: "cs_terminal_seen s1 = cs_terminal_seen s"
    using u by (auto simp: note_chunk_usage_def split: if_splits sum.splits)
  have nil: "chunk_fragments cf chunk = [] \<and> \<not> chunk_finishes chunk" if "choice_of chunk = J_null"
    using that by (simp add: chunk_fragments_def chunk_finishes_def present_def jget_or_def)
  have g: "is_obj chunk" using assms by (simp add: feed_chunk_def split: if_splits)
  have "(s' = s1 \<and> out = [] \<and> choice_of chunk = J_null) \<or> feed_choice uuid cf (choice_of chunk) s1 = Inr (s', out)"
  proof (cases "jfield chunk ''choices''")
    case J_null
    then show ?thesis using assms u g by (simp add: feed_chunk_def choice_of_def)
  next
    case (J_list cs)
    then show ?thesis using assms u g
      by (cases cs rule: remdups_adj.cases) (simp_all add: feed_chunk_def choice_of_def split: if_splits)
  qed (use assms u g in \<open>simp_all add: feed_chunk_def\<close>)
  then show ?thesis
  proof
    assume "feed_choice uuid cf (choice_of chunk) s1 = Inr (s', out)"
    from feed_choice_tells [OF this] t show ?thesis by (simp add: chunk_fragments_def chunk_finishes_def)
  qed (use nil t in simp)
qed

text \<open>A run that is not cut off: nothing raised, and no error chunk.\<close>

definition stream_ok :: "json list \<Rightarrow> bool" where
  "stream_ok chunks = list_all (\<lambda>c. \<not> present c ''error'') chunks"

definition failing :: "event list \<Rightarrow> bool" where
  "failing es = (case rev es of (Response_failed r, n) # _ \<Rightarrow> True | _ \<Rightarrow> False)"

lemma failing_append: "b \<noteq> [] \<Longrightarrow> failing (a @ b) = failing b"
  by (cases b rule: rev_cases) (simp_all add: failing_def)

lemma finalize_tells:
  assumes "finalize cf s = Inr (s', out)"
  shows "fragments out = [] \<and> out \<noteq> [] \<and> \<not> failing out"
proof -
  obtain st incomplete s1 o1 o2 where f: "st \<in> {Completed, Incomplete}"
      "acts [close_reasoning Completed, close_text (item_status_of st), close_all_tools (item_status_of st)] s = Inr (s1, o1)"
      "terminal cf st incomplete s1 = Inr (s', o2)" "out = o1 @ o2"
    using finalize_last [OF assms] by blast
  have "tells (\<lambda>s. True) (acts [close_reasoning Completed, close_text (item_status_of st), close_all_tools (item_status_of st)])
      ([] @ [] @ []) (\<lambda>s. True)"
    by (rule tells_Cons [OF close_reasoning_tells [of "\<lambda>_. True"]
        tells_Cons [OF close_text_tells [of "\<lambda>_. True"] tells_one [OF close_all_tells]]])
  from tellsD [OF this _ f(2)] have o1: "fragments o1 = []" by simp
  have o2: "fragments o2 = [] \<and> o2 \<noteq> [] \<and> \<not> failing o2"
    using f(3) by (auto simp: terminal_def emits_def fragments_def failing_def split: if_splits)
  show ?thesis using o1 o2 failing_append [of o2 o1] by (simp add: f(4) fragments_def)
qed

lemma stream_chunks_tells:
  "stream_chunks trunc uuid show cf s chunks = (out, None) \<Longrightarrow> stream_ok chunks \<Longrightarrow>
     fragments out = concat (map (chunk_fragments cf) chunks) \<and> out \<noteq> [] \<and>
     failing out = (\<not> cs_terminal_seen s \<and> \<not> list_ex chunk_finishes chunks)"
proof (induction chunks arbitrary: s out)
  case Nil
  show ?case
  proof (cases "cs_terminal_seen s")
    case True
    then obtain s' where "finalize cf s = Inr (s', out)"
      using Nil.prems(1) by (cases "finalize cf s") auto
    from finalize_tells [OF this] True show ?thesis by simp
  next
    case False
    then show ?thesis using Nil.prems(1) by (auto simp: failed_def emits_def fragments_def failing_def)
  qed
next
  case (Cons c cs)
  have ok: "\<not> present c ''error''" "stream_ok cs" using Cons.prems(2) by (simp_all add: stream_ok_def)
  obtain s1 o1 o2 where r: "feed_chunk trunc uuid cf c s = Inr (s1, o1)"
      "stream_chunks trunc uuid show cf s1 cs = (o2, None)" "out = o1 @ o2"
    using Cons.prems(1) ok by (auto split: if_splits sum.splits prod.splits)
  note F = feed_chunk_tells [OF r(1)]
  note I = Cons.IH [OF r(2) ok(2)]
  show ?case using F I failing_append [of o2 o1] by (auto simp: r(3) fragments_def)
qed

text \<open>
  When nothing raises and no chunk reports an upstream error, the deltas yielded are those of the
  chunks, in order, and the stream ends with a success or an incomplete response exactly when some
  chunk carried a finish reason; a stream that just stops ends with a failure.
\<close>

theorem codex_stream_faithful:
  assumes "snd (chat_stream_to_responses_events trunc uuid show cf chunks) = None" "stream_ok chunks"
  shows "fragments (fst (chat_stream_to_responses_events trunc uuid show cf chunks)) = concat (map (chunk_fragments cf) chunks) \<and>
    failing (fst (chat_stream_to_responses_events trunc uuid show cf chunks)) = (\<not> list_ex chunk_finishes chunks)"
proof -
  obtain s o1 where p: "preamble cf new_cstream = Inr (s, o1)" by (simp add: preamble_def emits_def)
  obtain o2 err where r: "stream_chunks trunc uuid show cf s chunks = (o2, err)" by fastforce
  have e: "chat_stream_to_responses_events trunc uuid show cf chunks = (o1 @ o2, err)"
    by (simp add: chat_stream_to_responses_events_def p r)
  have "fragments o1 = [] \<and> \<not> cs_terminal_seen s"
    using p by (auto simp: preamble_def emits_def fragments_def new_cstream_def upt_conv_Cons)
  moreover have "err = None" using assms(1) e by simp
  ultimately show ?thesis
    using stream_chunks_tells [OF r [unfolded \<open>err = None\<close>] assms(2)] failing_append [of o2 o1] by (simp add: e fragments_def)
qed

text \<open>Reasoning, then a call in three fragments, then text, a finish reason and the usage.\<close>

definition delta_chunk :: "(string \<times> json) list \<Rightarrow> json" where
  "delta_chunk d = J_obj [(''choices'', J_list [J_obj [(''delta'', J_obj d)]])]"

definition call_chunk :: "int \<Rightarrow> (string \<times> json) list \<Rightarrow> json" where
  "call_chunk i fn = delta_chunk [(''tool_calls'', J_list [J_obj [(''index'', J_int i), (''function'', J_obj fn)]])]"

definition sample_stream :: "json list" where
  "sample_stream =
     [delta_chunk [(''reasoning_content'', J_str ''hm'')],
      call_chunk 0 [(''name'', J_str ''f'')], call_chunk 0 [(''arguments'', J_str ''1'')], call_chunk 0 [(''arguments'', J_str ''2'')],
      delta_chunk [(''content'', J_str ''ok'')],
      J_obj [(''choices'', J_list [J_obj [(''finish_reason'', J_str ''stop'')]])]]"

definition sample_config :: bridge_config where
  "sample_config =
     \<lparr>bc_response_id = ''r'', bc_model = ''m'', bc_created = Some 0, bc_now = 0, bc_metadata = J_null, bc_emit_reasoning = True,
      bc_length_as_completed = False, bc_namespaces = []\<rparr>"

theorem codex_stream_faithful_witness:
  "fragments (fst (chat_stream_to_responses_events (\<lambda>_. Infinite) (\<lambda>n. ''u'') (\<lambda>_. []) sample_config sample_stream)) =
     [Reason ''hm'', Args ''1'', Args ''2'', Text ''ok''] \<and>
   \<not> failing (fst (chat_stream_to_responses_events (\<lambda>_. Infinite) (\<lambda>n. ''u'') (\<lambda>_. []) sample_config sample_stream))"
proof -
  have "snd (chat_stream_to_responses_events (\<lambda>_. Infinite) (\<lambda>n. ''u'') (\<lambda>_. []) sample_config sample_stream) = None" by code_simp
  moreover have "stream_ok sample_stream" by code_simp
  moreover have "concat (map (chunk_fragments sample_config) sample_stream) = [Reason ''hm'', Args ''1'', Args ''2'', Text ''ok'']" by code_simp
  moreover have "list_ex chunk_finishes sample_stream" by code_simp
  ultimately show ?thesis
    using codex_stream_faithful [of "\<lambda>_. Infinite" "\<lambda>n. ''u''" "\<lambda>_. []" sample_config sample_stream] by simp
qed

text \<open>
  A finish reason that cannot be hashed raises \<open>TypeError\<close>, and an infinite token count
  \<open>OverflowError\<close>, where the bridge promises its own refusal or a guarded count.  Calls side by side are
  open at the same time.
\<close>

lemma unhashable_finish:
  "snd (chat_stream_to_responses_events trunc uuid show sample_config
     [J_obj [(''choices'', J_list [J_obj [(''finish_reason'', J_list [])]])]]) = Some Type_error"
  by code_simp

lemma infinite_usage:
  "snd (chat_stream_to_responses_events (\<lambda>_. Infinite) (\<lambda>n. ''u'') (\<lambda>_. []) sample_config
     [J_obj [(''usage'', J_obj [(''prompt_tokens'', J_float ''inf'')])]]) = Some Overflow_error"
  by code_simp

lemma calls_overlap:
  "map_option (\<lambda>q. length (rd_open q))
     (reads read_event new_reader (take 4 (fst (chat_stream_to_responses_events (\<lambda>_. Infinite) (\<lambda>n. ''u'') (\<lambda>_. []) sample_config
       [call_chunk 0 [(''name'', J_str ''f'')], call_chunk 1 [(''name'', J_str ''g'')]])))) = Some 2"
  by code_simp

end
