(* ===== verification/CodexRequest.thy ===== *)
theory CodexRequest
  imports CodexResponse
begin

text \<open>
  The request half of the codex bridge: \<open>src/src/codex_responses_bridge/request.py\<close>,
  \<open>src/src/codex_responses_bridge/system_norm.py\<close> and \<open>src/src/codex_responses_bridge/reasoning_effort.py\<close>.
  A Responses request becomes a chat request or is refused.  The settings of \<open>config.py\<close> are a
  record; the compiled pattern of models is a predicate.
\<close>

section \<open>Results\<close>

definition bind :: "codex_error + 'a \<Rightarrow> ('a \<Rightarrow> codex_error + 'b) \<Rightarrow> codex_error + 'b" where
  "bind m f = (case m of Inl e \<Rightarrow> Inl e | Inr x \<Rightarrow> f x)"

definition ensure :: "bool \<Rightarrow> codex_error + unit" where
  "ensure b = (if b then Inr () else Inl Capability)"

fun collect :: "('a \<Rightarrow> codex_error + 'b) \<Rightarrow> 'a list \<Rightarrow> codex_error + 'b list" where
  "collect f [] = Inr []"
| "collect f (x # xs) = bind (f x) (\<lambda>y. bind (collect f xs) (\<lambda>ys. Inr (y # ys)))"

section \<open>The field contract\<close>

definition translated_body_fields :: "string list" where
  "translated_body_fields =
     [''model'', ''input'', ''instructions'', ''tools'', ''tool_choice'', ''text'', ''reasoning'', ''max_output_tokens'',
      ''temperature'', ''top_p'', ''parallel_tool_calls'', ''metadata'', ''stream'', ''user'', ''safety_identifier'']"

definition falsy :: "json \<Rightarrow> bool" where
  "falsy v \<longleftrightarrow> \<not> jtruthy v"

definition consumed_body_fields :: "(string \<times> (json \<Rightarrow> bool)) list" where
  "consumed_body_fields =
     [(''store'', falsy), (''include'', falsy), (''stream_options'', falsy),
      (''service_tier'', \<lambda>v. v \<in> {J_null, J_str ''auto'', J_str ''default''}),
      (''prompt_cache_key'', \<lambda>v. True), (''client_metadata'', \<lambda>v. True), (''access_programs'', falsy),
      (''previous_response_id'', \<lambda>v. v = J_null)]"

definition consumed_reasoning_fields :: "(string \<times> (json \<Rightarrow> bool)) list" where
  "consumed_reasoning_fields = [(''summary'', falsy), (''context'', falsy), (''generate_summary'', falsy)]"

definition consumed_text_fields :: "(string \<times> (json \<Rightarrow> bool)) list" where
  "consumed_text_fields = [(''verbosity'', \<lambda>v. v \<in> {J_null, J_str ''medium''})]"

definition field_ok :: "string list \<Rightarrow> (string \<times> (json \<Rightarrow> bool)) list \<Rightarrow> string \<times> json \<Rightarrow> bool" where
  "field_ok translated consumed x \<longleftrightarrow>
     fst x \<in> set translated \<or> (case map_of consumed (fst x) of Some p \<Rightarrow> p (snd x) | None \<Rightarrow> False)"

fun assert_field_contract :: "json \<Rightarrow> string list \<Rightarrow> (string \<times> (json \<Rightarrow> bool)) list \<Rightarrow> codex_error + unit" where
  "assert_field_contract (J_obj d) translated consumed = ensure (list_all (field_ok translated consumed) d)"
| "assert_field_contract _ translated consumed = Inr ()"

section \<open>Messages\<close>

definition map_role :: "json \<Rightarrow> codex_error + string" where
  "map_role role =
     (if role = J_str ''developer'' then Inr ''system''
      else case role of
             J_str r \<Rightarrow> if r \<in> {''user'', ''assistant'', ''system'', ''tool''} then Inr r else Inl Capability
           | _ \<Rightarrow> Inl Capability)"

datatype part = Text_part string | Image_part json | Refusal_part string

definition is_text_type :: "json \<Rightarrow> bool" where
  "is_text_type t \<longleftrightarrow> t \<in> {J_str ''input_text'', J_str ''output_text'', J_str ''text''}"

definition image_of :: "json \<Rightarrow> codex_error + json" where
  "image_of p =
     (let url = (if is_obj (jfield p ''image_url'') then jfield (jfield p ''image_url'') ''url'' else jfield p ''image_url'');
          detail = jfield p ''detail''
      in if jtruthy url then
           Inr (J_obj ((''url'', url) # (if jtruthy detail \<and> detail \<noteq> J_str ''original'' then [(''detail'', detail)] else [])))
         else Inl Capability)"

definition part_of :: "json \<Rightarrow> codex_error + part" where
  "part_of p =
     (let t = jfield p ''type''
      in if \<not> is_obj p then Inl Capability
         else if is_text_type t then
           (case str_of (jfield p ''text'') of Some s \<Rightarrow> Inr (Text_part s) | None \<Rightarrow> Inl Capability)
         else if t = J_str ''input_image'' then bind (image_of p) (\<lambda>i. Inr (Image_part i))
         else if t = J_str ''refusal'' then
           (case str_of (jfield p ''refusal'') of Some s \<Rightarrow> Inr (Refusal_part s) | None \<Rightarrow> Inl Capability)
         else Inl Capability)"

fun part_text :: "part \<Rightarrow> string" where
  "part_text (Text_part s) = s"
| "part_text (Refusal_part s) = s"
| "part_text (Image_part i) = []"

fun part_json :: "part \<Rightarrow> json list" where
  "part_json (Text_part s) = [J_obj [(''type'', J_str ''text''), (''text'', J_str s)]]"
| "part_json (Image_part i) = [J_obj [(''type'', J_str ''image_url''), (''image_url'', i)]]"
| "part_json (Refusal_part s) = []"

fun is_image :: "part \<Rightarrow> bool" where
  "is_image (Image_part i) = True"
| "is_image _ = False"

definition join_parts :: "part list \<Rightarrow> json" where
  "join_parts ps =
     (if list_ex is_image ps then J_list (concat (map part_json ps)) else J_str (concat (map part_text ps)))"

fun content_to_chat :: "json \<Rightarrow> codex_error + json" where
  "content_to_chat J_null = Inr (J_str [])"
| "content_to_chat (J_str s) = Inr (J_str s)"
| "content_to_chat (J_list ps) = bind (collect part_of ps) (\<lambda>qs. Inr (join_parts qs))"
| "content_to_chat _ = Inl Capability"

definition message :: "string \<Rightarrow> json \<Rightarrow> json" where
  "message role content = J_obj [(''role'', J_str role), (''content'', content)]"

definition chat_call :: "string \<Rightarrow> string \<Rightarrow> string \<Rightarrow> json" where
  "chat_call call_id name args =
     J_obj [(''id'', J_str call_id), (''type'', J_str ''function''),
       (''function'', J_obj [(''name'', J_str name), (''arguments'', J_str args)])]"

text \<open>A call joins the assistant message it runs on from, or the toolless one just before it.\<close>

definition add_call :: "json \<Rightarrow> json \<Rightarrow> json" where
  "add_call call m =
     (case m of
        J_obj d \<Rightarrow>
          J_obj (dput ''tool_calls''
            (J_list ((case dget d ''tool_calls'' of Some (J_list cs) \<Rightarrow> cs | _ \<Rightarrow> []) @ [call])) d)
      | _ \<Rightarrow> m)"

definition new_assistant :: "json \<Rightarrow> json" where
  "new_assistant call = J_obj [(''role'', J_str ''assistant''), (''content'', J_str []), (''tool_calls'', J_list [call])]"

definition joins :: "bool \<Rightarrow> json list \<Rightarrow> bool" where
  "joins pending ms \<longleftrightarrow>
     pending \<or> (ms \<noteq> [] \<and> jfield (last ms) ''role'' = J_str ''assistant'' \<and> jget (last ms) ''tool_calls'' = None)"

text \<open>The text of a tool's result.\<close>

definition output_text :: "json \<Rightarrow> codex_error + string" where
  "output_text p =
     (if is_obj p \<and> is_text_type (jfield p ''type'') then
        (case str_of (jfield p ''text'') of Some s \<Rightarrow> Inr s | None \<Rightarrow> Inl Capability)
      else Inl Capability)"

definition tool_output :: "json \<Rightarrow> codex_error + string" where
  "tool_output v =
     (case v of
        J_list ps \<Rightarrow> bind (collect output_text ps) (\<lambda>ts. Inr (concat ts))
      | J_str s \<Rightarrow> Inr s
      | _ \<Rightarrow> Inl Capability)"

definition tool_result :: "string \<Rightarrow> string \<Rightarrow> json" where
  "tool_result call_id out =
     J_obj [(''role'', J_str ''tool''), (''tool_call_id'', J_str call_id), (''content'', J_str out)]"

definition add_item :: "json \<Rightarrow> json list \<times> bool \<Rightarrow> codex_error + (json list \<times> bool)" where
  "add_item item st =
     (let (ms, pending) = st; t = jfield item ''type''; call_id = nonempty (jfield item ''call_id'')
      in if \<not> is_obj item then Inl Capability
         else if t = J_null \<or> t = J_str ''message'' then
           (if jget item ''role'' = None then Inl Capability
            else bind (map_role (jfield item ''role'')) (\<lambda>role.
              bind (content_to_chat (jfield item ''content'')) (\<lambda>content. Inr (ms @ [message role content], False))))
         else if t = J_str ''function_call'' then
           (case (nonempty (jfield item ''name''), call_id, str_of (jfield item ''arguments'')) of
              (Some name, Some c, Some args) \<Rightarrow>
                if joins pending ms then Inr (butlast ms @ [add_call (chat_call c name args) (last ms)], True)
                else Inr (ms @ [new_assistant (chat_call c name args)], True)
            | _ \<Rightarrow> Inl Capability)
         else if t = J_str ''function_call_output'' then
           (case call_id of
              None \<Rightarrow> Inl Capability
            | Some c \<Rightarrow> bind (tool_output (jget_or (J_str []) item ''output'')) (\<lambda>out. Inr (ms @ [tool_result c out], False)))
         else Inl Capability)"

fun add_items :: "json list \<Rightarrow> json list \<times> bool \<Rightarrow> codex_error + (json list \<times> bool)" where
  "add_items [] st = Inr st"
| "add_items (i # is) st = bind (add_item i st) (add_items is)"

fun input_to_messages :: "json \<Rightarrow> codex_error + json list" where
  "input_to_messages (J_str s) = Inr [message ''user'' (J_str s)]"
| "input_to_messages (J_list is) = bind (add_items is ([], False)) (\<lambda>st. Inr (fst st))"
| "input_to_messages _ = Inl Capability"

section \<open>System messages\<close>

fun system_text :: "json \<Rightarrow> string" where
  "system_text (J_str s) = s"
| "system_text (J_list ps) =
     concat (List.map_filter (\<lambda>p. if is_obj p \<and> jfield p ''type'' = J_str ''text'' then str_of (jfield p ''text'') else None) ps)"
| "system_text _ = []"

definition separator :: string where
  "separator = [CHR 0x0A, CHR 0x0A]"

fun join_texts :: "string list \<Rightarrow> string" where
  "join_texts [] = []"
| "join_texts [t] = t"
| "join_texts (t # ts) = t @ separator @ join_texts ts"

definition merge_texts :: "string list \<Rightarrow> string" where
  "merge_texts ts = join_texts (filter (\<lambda>t. t \<noteq> []) ts)"

definition is_system :: "json \<Rightarrow> bool" where
  "is_system m \<longleftrightarrow> jfield m ''role'' = J_str ''system''"

definition needs_system_rewrite :: "json list \<Rightarrow> bool" where
  "needs_system_rewrite ms \<longleftrightarrow> list_ex is_system (tl ms)"

definition hoist :: "json list \<Rightarrow> json list" where
  "hoist ms =
     (let texts = map (\<lambda>m. system_text (jfield m ''content'')) (filter is_system ms)
      in if texts = [] then ms
         else message ''system'' (J_str (merge_texts texts)) # filter (\<lambda>m. \<not> is_system m) ms)"

fun set_key :: "string \<Rightarrow> json \<Rightarrow> json \<Rightarrow> json" where
  "set_key k v (J_obj d) = J_obj (dput k v d)"
| "set_key k v m = m"

definition demote :: "json \<Rightarrow> json" where
  "demote m = (if is_system m then set_key ''role'' (J_str ''user'') m else m)"

definition demote_to_user :: "json list \<Rightarrow> json list" where
  "demote_to_user ms =
     (let run = takeWhile is_system ms; rest = dropWhile is_system ms
      in if length run \<le> 1 \<and> \<not> list_ex is_system rest then ms
         else
           (if run = [] then []
            else [set_key ''content'' (J_str (merge_texts (map (\<lambda>m. system_text (jfield m ''content'')) run))) (hd ms)]) @
           map demote rest)"

definition normalize_system_messages ::
  "json list \<Rightarrow> string \<Rightarrow> json \<Rightarrow> (string \<Rightarrow> bool) option \<Rightarrow> codex_error + json list" where
  "normalize_system_messages ms policy model gate =
     (if (case gate of None \<Rightarrow> False | Some g \<Rightarrow> \<not> (case model of J_str n \<Rightarrow> g n | _ \<Rightarrow> False)) then Inr ms
      else if policy = ''asis'' \<or> ms = [] then Inr ms
      else if policy = ''hoist'' then Inr (hoist ms)
      else if policy = ''user'' then Inr (demote_to_user ms)
      else if needs_system_rewrite ms then Inl Capability
      else Inr ms)"

section \<open>Effort\<close>

definition effort_ladder :: "string list" where
  "effort_ladder = [''none'', ''minimal'', ''low'', ''medium'', ''high'', ''xhigh'', ''max'', ''ultra'']"

fun position :: "'a \<Rightarrow> 'a list \<Rightarrow> nat" where
  "position x [] = 0"
| "position x (y # ys) = (if x = y then 0 else Suc (position x ys))"

definition gap :: "string \<Rightarrow> string \<Rightarrow> int" where
  "gap a b = \<bar>int (position a effort_ladder) - int (position b effort_ladder)\<bar>"

text \<open>\<open>min\<close> with a key keeps the first of the least ones.\<close>

fun first_min :: "('a \<Rightarrow> int) \<Rightarrow> 'a \<Rightarrow> 'a list \<Rightarrow> 'a" where
  "first_min f x [] = x"
| "first_min f x (y # ys) = first_min f (if f y < f x then y else x) ys"

definition clamp_reasoning_effort :: "json \<Rightarrow> string list option \<Rightarrow> string option" where
  "clamp_reasoning_effort v allowed =
     (case v of
        J_str s \<Rightarrow>
          (let n = lower_text (strip_text s)
           in if n = [] then None
              else case allowed of
                     None \<Rightarrow> Some n
                   | Some ls \<Rightarrow>
                       if n \<in> set ls then Some n
                       else if n \<notin> set effort_ladder then None
                       else (case filter (\<lambda>l. l \<in> set ls) effort_ladder of
                               [] \<Rightarrow> None
                             | c # cs \<Rightarrow> Some (first_min (\<lambda>l. gap l n) c cs)))
      | _ \<Rightarrow> None)"

section \<open>Tools\<close>

definition function_tool_fields :: "string list" where
  "function_tool_fields = [''type'', ''function'', ''name'', ''description'', ''parameters'', ''strict'', ''defer_loading'']"

definition function_tool_inner_fields :: "string list" where
  "function_tool_inner_fields = [''name'', ''description'', ''parameters'', ''strict'']"

fun only_fields :: "json \<Rightarrow> string list \<Rightarrow> bool" where
  "only_fields (J_obj d) ks = list_all (\<lambda>k. k \<in> set ks) (dkeys d)"
| "only_fields _ ks = False"

definition tool_contract :: "json \<Rightarrow> codex_error + unit" where
  "tool_contract t =
     ensure (only_fields t function_tool_fields \<and> \<not> jtruthy (jfield t ''defer_loading'') \<and>
       (jfield t ''function'' = J_null \<or> only_fields (jfield t ''function'') function_tool_inner_fields))"

definition function_of :: "json \<Rightarrow> json" where
  "function_of t =
     (if is_obj (jfield t ''function'') then jfield t ''function''
      else J_obj [(''name'', jfield t ''name''), (''description'', jget_or (J_str []) t ''description''),
        (''parameters'', jget_or (J_obj []) t ''parameters'')])"

definition strict_of :: "json \<Rightarrow> json" where
  "strict_of t =
     (let s = jfield (function_of t) ''strict''
      in if s = J_null then (case jfield t ''strict'' of J_bool b \<Rightarrow> J_bool b | _ \<Rightarrow> J_null) else s)"

definition function_tool_to_chat :: "json \<Rightarrow> json option" where
  "function_tool_to_chat t =
     (let fn = function_of t
      in if \<not> jtruthy (jfield fn ''name'') then None
         else Some (J_obj
           [(''type'', J_str ''function''),
            (''function'', J_obj
               ([(''name'', jfield fn ''name''), (''description'', jor (jget_or (J_str []) fn ''description'') (J_str [])),
                 (''parameters'', jor (jget_or (J_obj []) fn ''parameters'') (J_obj []))] @
                (if strict_of t = J_null then [] else [(''strict'', strict_of t)])))]))"

definition tool_name :: "json \<Rightarrow> json" where
  "tool_name chat = jfield (jfield chat ''function'') ''name''"

fun hashable :: "json \<Rightarrow> bool" where
  "hashable (J_list xs) = False"
| "hashable (J_obj d) = False"
| "hashable _ = True"

text \<open>The chat tools so far, whose names are the ones seen, and the namespaces.\<close>

type_synonym tools = "json list \<times> (json \<times> string) list"

definition emit_tool :: "string option \<Rightarrow> json \<Rightarrow> tools \<Rightarrow> codex_error + tools" where
  "emit_tool ns t st =
     bind (tool_contract t) (\<lambda>_.
       case function_tool_to_chat t of
         None \<Rightarrow> Inl Capability
       | Some chat \<Rightarrow>
           if \<not> hashable (tool_name chat) then Inl Type_error
           else if tool_name chat \<in> set (map tool_name (fst st)) then Inl Capability
           else Inr (fst st @ [chat], case ns of Some n \<Rightarrow> dput (tool_name chat) n (snd st) | None \<Rightarrow> snd st))"

fun emit_inner :: "string \<Rightarrow> json list \<Rightarrow> tools \<Rightarrow> codex_error + tools" where
  "emit_inner ns [] st = Inr st"
| "emit_inner ns (t # ts) st =
     (if is_obj t \<and> jfield t ''type'' = J_str ''function'' then bind (emit_tool (Some ns) t st) (emit_inner ns ts)
      else Inl Capability)"

text \<open>Iterating over a true value: the items of a list, the texts of a text or a dictionary.\<close>

fun items_of :: "json \<Rightarrow> json list option" where
  "items_of (J_list xs) = Some xs"
| "items_of (J_str s) = Some (map (\<lambda>c. J_str [c]) s)"
| "items_of (J_obj d) = Some (map (\<lambda>(k, v). J_str k) d)"
| "items_of v = (if jtruthy v then None else Some [])"

definition translate_tool :: "bool \<Rightarrow> json \<Rightarrow> tools \<Rightarrow> codex_error + tools" where
  "translate_tool flatten t st =
     (if \<not> is_obj t then Inl Capability
      else if jfield t ''type'' = J_str ''function'' then emit_tool None t st
      else if jfield t ''type'' = J_str ''namespace'' \<and> flatten then
        (case nonempty (jfield t ''name'') of
           None \<Rightarrow> Inl Capability
         | Some ns \<Rightarrow>
             (case items_of (jfield t ''tools'') of None \<Rightarrow> Inl Type_error | Some ts \<Rightarrow> emit_inner ns ts st))
      else Inl Capability)"

fun translate_each :: "bool \<Rightarrow> json list \<Rightarrow> tools \<Rightarrow> codex_error + tools" where
  "translate_each flatten [] st = Inr st"
| "translate_each flatten (t # ts) st = bind (translate_tool flatten t st) (translate_each flatten ts)"

definition translate_tools :: "bool \<Rightarrow> json \<Rightarrow> codex_error + tools" where
  "translate_tools flatten v =
     (case v of J_null \<Rightarrow> Inr ([], []) | J_list ts \<Rightarrow> translate_each flatten ts ([], []) | _ \<Rightarrow> Inl Capability)"

text \<open>The map for the response's \<open>ns_for\<close>, which looks texts up.\<close>

definition namespace_map_from_tools :: "bool \<Rightarrow> json \<Rightarrow> codex_error + namespaces" where
  "namespace_map_from_tools flatten v =
     bind (translate_tools flatten v) (\<lambda>st.
       Inr (List.map_filter (\<lambda>(k, n). case k of J_str name \<Rightarrow> Some (name, n) | _ \<Rightarrow> None) (snd st)))"

definition plain_choice :: "json \<Rightarrow> bool" where
  "plain_choice v \<longleftrightarrow> v \<in> {J_str ''auto'', J_str ''none'', J_str ''required''}"

definition tool_choice_to_chat :: "json \<Rightarrow> codex_error + json option" where
  "tool_choice_to_chat tc =
     (case tc of
        J_null \<Rightarrow> Inr None
      | J_str s \<Rightarrow> if plain_choice tc then Inr (Some tc) else Inl Capability
      | J_obj d \<Rightarrow>
          if jfield tc ''type'' = J_str ''function'' then
            (let fn = jor (jfield tc ''function'') (J_obj [])
             in if jtruthy (jfield tc ''name'') then
                  Inr (Some (J_obj [(''type'', J_str ''function''), (''function'', J_obj [(''name'', jfield tc ''name'')])]))
                else if \<not> is_obj fn then Inl Attribute_error
                else if jtruthy (jfield fn ''name'') then
                  Inr (Some (J_obj [(''type'', J_str ''function''), (''function'', J_obj [(''name'', jfield fn ''name'')])]))
                else Inl Capability)
          else if plain_choice (jfield tc ''type'') then Inr (Some (jfield tc ''type''))
          else Inl Capability
      | _ \<Rightarrow> Inl Capability)"

definition text_format_to_response_format :: "json \<Rightarrow> codex_error + json option" where
  "text_format_to_response_format text =
     (case text of
        J_null \<Rightarrow> Inr None
      | J_obj d \<Rightarrow>
          bind (assert_field_contract text [''format''] consumed_text_fields) (\<lambda>_.
            let fmt = jfield text ''format''; t = jfield fmt ''type''
            in if fmt = J_null then Inr None
               else if \<not> is_obj fmt then Inl Capability
               else if t = J_str ''text'' then Inr None
               else if t = J_str ''json_object'' then Inr (Some (J_obj [(''type'', J_str ''json_object'')]))
               else if t = J_str ''json_schema'' then
                 Inr (Some (J_obj [(''type'', J_str ''json_schema''),
                   (''json_schema'', J_obj ((''name'', jfield fmt ''name'') #
                      (case jget fmt ''schema'' of Some v \<Rightarrow> [(''schema'', v)] | None \<Rightarrow> []) @
                      (case jget fmt ''strict'' of Some v \<Rightarrow> [(''strict'', v)] | None \<Rightarrow> [])))]))
               else Inl Capability)
      | _ \<Rightarrow> Inl Capability)"

section \<open>The request\<close>

record request_config =
  rq_flatten :: bool
  rq_efforts :: "string list option"
  rq_policy :: string
  rq_gate :: "(string \<Rightarrow> bool) option"

definition non_null :: "string \<Rightarrow> string \<Rightarrow> json \<Rightarrow> (string \<times> json) list" where
  "non_null k k' body = (if present body k then [(k', jfield body k)] else [])"

definition request_messages :: "request_config \<Rightarrow> json list \<Rightarrow> json \<Rightarrow> codex_error + json list" where
  "request_messages cf prior body =
     bind (input_to_messages (jget_or (J_list []) body ''input'')) (\<lambda>ms.
       normalize_system_messages
         (prior @
          (if jtruthy (jfield body ''instructions'') then [message ''system'' (jfield body ''instructions'')] else []) @ ms)
         (rq_policy cf) (jfield body ''model'') (rq_gate cf))"

definition request_effort :: "request_config \<Rightarrow> json \<Rightarrow> codex_error + (string \<times> json) list" where
  "request_effort cf body =
     (let r = jfield body ''reasoning''
      in bind (ensure (r = J_null \<or> is_obj r)) (\<lambda>_.
         bind (assert_field_contract r [''effort''] consumed_reasoning_fields) (\<lambda>_.
           if jtruthy (jfield r ''effort'') then
             (case clamp_reasoning_effort (jfield r ''effort'') (rq_efforts cf) of
                None \<Rightarrow> Inl Capability
              | Some e \<Rightarrow> Inr [(''reasoning_effort'', J_str e), (''allowed_openai_params'', J_list [J_str ''reasoning_effort''])])
           else Inr [])))"

text \<open>What a chosen tool must be: one of the translated ones, or no demand when there is none.\<close>

definition request_tools :: "request_config \<Rightarrow> json \<Rightarrow> codex_error + (string \<times> json) list" where
  "request_tools cf body =
     bind (translate_tools (rq_flatten cf) (jfield body ''tools'')) (\<lambda>st.
     bind (tool_choice_to_chat (jfield body ''tool_choice'')) (\<lambda>tc.
       if fst st \<noteq> [] then
         (case tc of
            None \<Rightarrow> Inr [(''tools'', J_list (fst st))]
          | Some c \<Rightarrow>
              if is_obj c \<and> \<not> hashable (tool_name c) then Inl Type_error
              else if is_obj c \<and> tool_name c \<notin> set (map tool_name (fst st)) then Inl Capability
              else Inr [(''tools'', J_list (fst st)), (''tool_choice'', c)])
       else if tc = None \<or> tc = Some (J_str ''auto'') \<or> tc = Some (J_str ''none'') then Inr []
       else Inl Capability))"

definition responses_request_to_chat_body :: "request_config \<Rightarrow> json list \<Rightarrow> json \<Rightarrow> codex_error + json" where
  "responses_request_to_chat_body cf prior body =
     (if \<not> is_obj body then Inl Attribute_error
      else
        bind (assert_field_contract body translated_body_fields consumed_body_fields) (\<lambda>_.
        bind (request_messages cf prior body) (\<lambda>ms.
        bind (request_effort cf body) (\<lambda>effort.
        bind (request_tools cf body) (\<lambda>tools.
        bind (text_format_to_response_format (jfield body ''text'')) (\<lambda>rf.
          let streams = (case jget body ''stream'' of Some v \<Rightarrow> jtruthy v | None \<Rightarrow> False);
              user = jor (jfield body ''user'') (jfield body ''safety_identifier'')
          in Inr (J_obj
               (non_null ''model'' ''model'' body @ [(''messages'', J_list ms)] @
                non_null ''max_output_tokens'' ''max_completion_tokens'' body @
                non_null ''temperature'' ''temperature'' body @ non_null ''top_p'' ''top_p'' body @
                (if tools = [] then [] else non_null ''parallel_tool_calls'' ''parallel_tool_calls'' body) @
                non_null ''metadata'' ''metadata'' body @
                (case jget body ''stream'' of Some v \<Rightarrow> [(''stream'', J_bool (jtruthy v))] | None \<Rightarrow> []) @
                effort @ (if jtruthy user then [(''user'', user)] else []) @ tools @
                (case rf of Some f \<Rightarrow> [(''response_format'', f)] | None \<Rightarrow> []) @
                (if streams then [(''stream_options'', J_obj [(''include_usage'', J_bool True)])] else [])))))))))"

section \<open>Namespaces come back\<close>

lemma bind_Inr: "bind m f = Inr y \<longleftrightarrow> (\<exists>x. m = Inr x \<and> f x = Inr y)"
  by (cases m) (simp_all add: bind_def)

lemma ensure_Inr [simp]: "ensure b = Inr u \<longleftrightarrow> b"
  by (simp add: ensure_def)

text \<open>The functions a list of tools declares: the namespace, if any, and the name.\<close>

definition source_name :: "json \<Rightarrow> json" where
  "source_name t = jfield (function_of t) ''name''"

definition tool_sources :: "json \<Rightarrow> (string option \<times> json) list" where
  "tool_sources t =
     (if jfield t ''type'' = J_str ''function'' then [(None, source_name t)]
      else map (\<lambda>i. (nonempty (jfield t ''name''), source_name i)) (case items_of (jfield t ''tools'') of Some ts \<Rightarrow> ts | None \<Rightarrow> []))"

definition source_map :: "(string option \<times> json) list \<Rightarrow> (json \<times> string) list" where
  "source_map src = List.map_filter (\<lambda>(n, k). case n of Some ns \<Rightarrow> Some (k, ns) | None \<Rightarrow> None) src"

definition tools_are :: "tools \<Rightarrow> (string option \<times> json) list \<Rightarrow> bool" where
  "tools_are st src \<longleftrightarrow> map tool_name (fst st) = map snd src \<and> snd st = source_map src \<and> distinct (map snd src) \<and>
     Some [] \<notin> fst ` set src"

lemma source_map_append: "source_map (a @ b) = source_map a @ source_map b"
  by (simp add: source_map_def map_filter_def)

lemma source_map_keys: "k \<in> set (dkeys (source_map src)) \<Longrightarrow> k \<in> set (map snd src)"
  by (force simp: source_map_def map_filter_def split: option.splits)

lemma emit_tool_are:
  assumes "tools_are st src" "emit_tool ns t st = Inr st'" "ns \<noteq> Some []"
  shows "tools_are st' (src @ [(ns, source_name t)])"
proof -
  obtain chat where c: "function_tool_to_chat t = Some chat" "tool_name chat \<notin> set (map tool_name (fst st))"
      "st' = (fst st @ [chat], case ns of Some n \<Rightarrow> dput (tool_name chat) n (snd st) | None \<Rightarrow> snd st)"
    using assms(2) by (auto simp: emit_tool_def bind_Inr split: option.splits if_splits)
  have n: "tool_name chat = source_name t"
    using c(1) by (auto simp: function_tool_to_chat_def Let_def tool_name_def source_name_def jfield_obj dget_Cons split: if_splits)
  have "tool_name chat \<notin> set (dkeys (snd st))"
    using c(2) assms(1) source_map_keys [of "tool_name chat" src] unfolding tools_are_def by metis
  from dput_new [OF this] have d: "dput (tool_name chat) m (snd st) = snd st @ [(tool_name chat, m)]" for m .
  have e: "source_map [(ns, source_name t)] = (case ns of Some n \<Rightarrow> [(source_name t, n)] | None \<Rightarrow> [])"
    by (simp add: source_map_def map_filter_def split: option.split)
  show ?thesis
    using assms(1,3) c(2) n d e by (auto simp: tools_are_def c(3) source_map_append split: option.split)
qed

lemma emit_inner_are:
  "tools_are st src \<Longrightarrow> emit_inner ns ts st = Inr st' \<Longrightarrow> ns \<noteq> [] \<Longrightarrow>
     tools_are st' (src @ map (\<lambda>i. (Some ns, source_name i)) ts)"
proof (induction ts arbitrary: st src)
  case (Cons t ts)
  then obtain s1 where "emit_tool (Some ns) t st = Inr s1" "emit_inner ns ts s1 = Inr st'"
    by (auto simp: bind_Inr split: if_splits)
  with Cons.IH [OF emit_tool_are [OF Cons.prems(1)]] Cons.prems(3) show ?case by fastforce
qed simp

lemma nonempty_Some: "nonempty v = Some t \<Longrightarrow> t \<noteq> []"
  by (cases v) (auto simp: nonempty_def split: if_splits)

lemma translate_tool_are:
  assumes "tools_are st src" "translate_tool flatten t st = Inr st'"
  shows "tools_are st' (src @ tool_sources t)"
proof (cases "jfield t ''type'' = J_str ''function''")
  case True
  then have "emit_tool None t st = Inr st'" using assms(2) by (simp add: translate_tool_def split: if_splits)
  from emit_tool_are [OF assms(1) this] True show ?thesis by (simp add: tool_sources_def)
next
  case False
  then obtain ns ts where n: "nonempty (jfield t ''name'') = Some ns" "items_of (jfield t ''tools'') = Some ts"
      "emit_inner ns ts st = Inr st'"
    using assms(2) by (auto simp: translate_tool_def split: if_splits option.splits)
  from emit_inner_are [OF assms(1) n(3) nonempty_Some [OF n(1)]] n(1,2) False show ?thesis by (simp add: tool_sources_def)
qed

lemma translate_each_are:
  "tools_are st src \<Longrightarrow> translate_each flatten ts st = Inr st' \<Longrightarrow> tools_are st' (src @ concat (map tool_sources ts))"
proof (induction ts arbitrary: st src)
  case (Cons t ts)
  then obtain s1 where "translate_tool flatten t st = Inr s1" "translate_each flatten ts s1 = Inr st'"
    by (auto simp: bind_Inr)
  with Cons.IH [OF translate_tool_are [OF Cons.prems(1)]] show ?case by fastforce
qed simp

lemma translate_tools_are:
  assumes "translate_tools flatten (J_list ts) = Inr st"
  shows "tools_are st (concat (map tool_sources ts))"
proof -
  have "tools_are ([], []) []" by (simp add: tools_are_def source_map_def map_filter_def)
  from translate_each_are [OF this] assms show ?thesis by (simp add: translate_tools_def)
qed

definition text_keys :: "(json \<times> string) list \<Rightarrow> namespaces" where
  "text_keys m = List.map_filter (\<lambda>(k, n). case k of J_str name \<Rightarrow> Some (name, n) | _ \<Rightarrow> None) m"

lemma text_keys_map_of: "dget (text_keys m) name = dget m (J_str name)"
  by (induction m) (auto simp: text_keys_def map_filter_def dget_def split: json.splits)

lemma source_map_lookup:
  "distinct (map snd src) \<Longrightarrow> (n, k) \<in> set src \<Longrightarrow> dget (source_map src) k = n"
proof (induction src)
  case (Cons x src)
  obtain n' k' where x: "x = (n', k')" by fastforce
  have c: "source_map (x # src) = (case n' of Some ns \<Rightarrow> (k', ns) # source_map src | None \<Rightarrow> source_map src)"
    by (simp add: source_map_def map_filter_def x split: option.split)
  show ?case
  proof (cases "(n, k) = x")
    case True
    then have "k \<notin> set (dkeys (source_map src))" using Cons.prems(1) source_map_keys x by fastforce
    then have "dget (source_map src) k = None" by (simp only: dget_None_iff) simp
    then show ?thesis using c x True by (cases n') (simp_all add: dget_Cons)
  next
    case False
    then have "(n, k) \<in> set src" "k \<noteq> k'" using Cons.prems x by (force, force)
    then show ?thesis using Cons c x by (cases n') (simp_all add: dget_Cons)
  qed
qed simp

text \<open>
  C39. The translated tools have distinct names, one for each declared function in order, and a call
  that comes back under such a name gets the namespace its function was declared in, and none when it
  was declared outside.
\<close>

theorem tool_namespaces_roundtrip:
  assumes "translate_tools flatten (J_list ts) = Inr st" "namespace_map_from_tools flatten (J_list ts) = Inr ns"
  shows "map tool_name (fst st) = map snd (concat (map tool_sources ts)) \<and> distinct (map tool_name (fst st)) \<and>
    (\<forall>(n, k) \<in> set (concat (map tool_sources ts)). \<forall>name. k = J_str name \<longrightarrow> name \<noteq> [] \<longrightarrow> ns_for name ns = n)"
proof -
  note a = translate_tools_are [OF assms(1)]
  have ns: "ns = text_keys (snd st)" using assms by (simp add: namespace_map_from_tools_def text_keys_def bind_Inr)
  have "ns_for name ns = n" if "(n, J_str name) \<in> set (concat (map tool_sources ts))" "name \<noteq> []" for n name
  proof -
    have "dget ns name = n"
      using source_map_lookup [OF _ that(1)] a by (simp add: ns text_keys_map_of tools_are_def)
    moreover have "n \<noteq> Some []" using a that(1) by (force simp: tools_are_def)
    ultimately show ?thesis using that(2) by (auto simp: ns_for_def split: option.split)
  qed
  then show ?thesis using a by (auto simp: tools_are_def)
qed

text \<open>Two namespaces and a function outside.\<close>

definition sample_tool :: "string \<Rightarrow> json" where
  "sample_tool name = J_obj [(''type'', J_str ''function''), (''name'', J_str name)]"

definition sample_tools :: "json list" where
  "sample_tools =
     [sample_tool ''run'',
      J_obj [(''type'', J_str ''namespace''), (''name'', J_str ''fs''), (''tools'', J_list [sample_tool ''read'', sample_tool ''write''])],
      J_obj [(''type'', J_str ''namespace''), (''name'', J_str ''web''), (''tools'', J_list [sample_tool ''get''])]]"

theorem tool_namespaces_roundtrip_witness:
  "(case (translate_tools True (J_list sample_tools), namespace_map_from_tools True (J_list sample_tools)) of
      (Inr st, Inr ns) \<Rightarrow> map tool_name (fst st) = map J_str [''run'', ''read'', ''write'', ''get''] \<and>
        ns_for ''write'' ns = Some ''fs'' \<and> ns_for ''run'' ns = None
    | _ \<Rightarrow> False)"
proof -
  obtain st where st: "translate_tools True (J_list sample_tools) = Inr st"
  proof -
    have "isl (translate_tools True (J_list sample_tools)) = False" by code_simp
    then show ?thesis using that by (cases "translate_tools True (J_list sample_tools)") auto
  qed
  obtain ns where ns: "namespace_map_from_tools True (J_list sample_tools) = Inr ns"
    by (simp add: namespace_map_from_tools_def st bind_Inr)
  have src: "concat (map tool_sources sample_tools) =
      [(None, J_str ''run''), (Some ''fs'', J_str ''read''), (Some ''fs'', J_str ''write''), (Some ''web'', J_str ''get'')]"
    by code_simp
  show ?thesis using tool_namespaces_roundtrip [OF st ns] by (simp add: st ns src)
qed

text \<open>
  A name that is no text is not refused but raises \<open>TypeError\<close>; and a refusal beside an image is
  dropped, where every other part the bridge cannot carry is refused.
\<close>

lemma unhashable_tool_name:
  "translate_tools True (J_list [J_obj [(''type'', J_str ''function''), (''name'', J_list [J_null])]]) = Inl Type_error"
  by code_simp

lemma refusal_beside_image_dropped:
  "content_to_chat (J_list [J_obj [(''type'', J_str ''refusal''), (''refusal'', J_str ''no'')],
      J_obj [(''type'', J_str ''input_image''), (''image_url'', J_str ''u'')]]) =
   content_to_chat (J_list [J_obj [(''type'', J_str ''input_image''), (''image_url'', J_str ''u'')]])"
  by code_simp

section \<open>Nothing said is dropped\<close>

text \<open>What a conversation consists of: messages, calls and results.\<close>

datatype atom = A_message string json | A_call string string string | A_result string string

fun the_text :: "json \<Rightarrow> string" where
  "the_text (J_str s) = s"
| "the_text _ = []"

definition call_atom :: "json \<Rightarrow> atom" where
  "call_atom c =
     A_call (the_text (jfield c ''id'')) (the_text (jfield (jfield c ''function'') ''name''))
       (the_text (jfield (jfield c ''function'') ''arguments''))"

text \<open>An assistant message without text only carries its calls.\<close>

definition said_atoms :: "string \<Rightarrow> json \<Rightarrow> atom list" where
  "said_atoms role content = (if role = ''assistant'' \<and> content = J_str [] then [] else [A_message role content])"

definition message_atoms :: "json \<Rightarrow> atom list" where
  "message_atoms m =
     (case jget m ''tool_call_id'' of
        Some c \<Rightarrow> [A_result (the_text c) (the_text (jfield m ''content''))]
      | None \<Rightarrow>
          said_atoms (the_text (jfield m ''role'')) (jfield m ''content'') @
          (case jget m ''tool_calls'' of Some (J_list cs) \<Rightarrow> map call_atom cs | _ \<Rightarrow> []))"

definition item_atoms :: "json \<Rightarrow> atom list" where
  "item_atoms i =
     (if jfield i ''type'' = J_str ''function_call'' then
        [A_call (the_text (jfield i ''call_id'')) (the_text (jfield i ''name'')) (the_text (jfield i ''arguments''))]
      else if jfield i ''type'' = J_str ''function_call_output'' then
        [A_result (the_text (jfield i ''call_id''))
           (case tool_output (jget_or (J_str []) i ''output'') of Inr out \<Rightarrow> out | Inl e \<Rightarrow> [])]
      else
        (case (map_role (jfield i ''role''), content_to_chat (jfield i ''content'')) of
           (Inr role, Inr content) \<Rightarrow> said_atoms role content
         | _ \<Rightarrow> []))"

definition plain_message :: "json \<Rightarrow> bool" where
  "plain_message m \<longleftrightarrow> (\<exists>role content. m = message role content)"

definition calling_message :: "json \<Rightarrow> bool" where
  "calling_message m \<longleftrightarrow>
     (\<exists>content cs. m = J_obj [(''role'', J_str ''assistant''), (''content'', content), (''tool_calls'', J_list cs)])"

definition result_message :: "json \<Rightarrow> bool" where
  "result_message m \<longleftrightarrow> (\<exists>c out. m = tool_result c out)"

text \<open>The messages built so far have one of three shapes, and the pending one is calling.\<close>

definition messages_ok :: "json list \<times> bool \<Rightarrow> bool" where
  "messages_ok st \<longleftrightarrow>
     (\<forall>m \<in> set (fst st). plain_message m \<or> calling_message m \<or> result_message m) \<and>
     (snd st \<longrightarrow> fst st \<noteq> [] \<and> calling_message (last (fst st)))"

lemmas atom_simps = message_atoms_def said_atoms_def message_def new_assistant_def tool_result_def chat_call_def call_atom_def
  jfield_obj dget_Cons dput_Cons

lemma add_call_calling:
  assumes "calling_message m"
  shows "calling_message (add_call c m) \<and> message_atoms (add_call c m) = message_atoms m @ [call_atom c]"
proof -
  obtain content cs where m: "m = J_obj [(''role'', J_str ''assistant''), (''content'', content), (''tool_calls'', J_list cs)]"
    using assms by (auto simp: calling_message_def)
  then have "add_call c m = J_obj [(''role'', J_str ''assistant''), (''content'', content), (''tool_calls'', J_list (cs @ [c]))]"
    by (simp add: add_call_def dget_Cons dput_Cons)
  then show ?thesis by (simp add: m calling_message_def atom_simps)
qed

lemma add_call_plain:
  assumes "plain_message m" "jfield m ''role'' = J_str ''assistant''"
  shows "calling_message (add_call c m) \<and> message_atoms (add_call c m) = message_atoms m @ [call_atom c]"
proof -
  obtain content where m: "m = message ''assistant'' content"
    using assms by (auto simp: plain_message_def message_def jfield_obj dget_Cons)
  then have "add_call c m = J_obj [(''role'', J_str ''assistant''), (''content'', content), (''tool_calls'', J_list [c])]"
    by (simp add: message_def add_call_def dget_Cons dput_Cons)
  then show ?thesis by (simp add: m calling_message_def atom_simps)
qed

lemma add_item_atoms:
  assumes "messages_ok st" "add_item i st = Inr st'"
  shows "messages_ok st' \<and> concat (map message_atoms (fst st')) = concat (map message_atoms (fst st)) @ item_atoms i"
proof -
  obtain ms pending where st: "st = (ms, pending)" by fastforce
  let ?t = "jfield i ''type''"
  consider (message) role content where "?t = J_null \<or> ?t = J_str ''message''" "map_role (jfield i ''role'') = Inr role"
      "content_to_chat (jfield i ''content'') = Inr content" "st' = (ms @ [message role content], False)"
    | (call) name c args where "?t = J_str ''function_call''" "jfield i ''name'' = J_str name" "jfield i ''call_id'' = J_str c"
        "jfield i ''arguments'' = J_str args"
        "st' = (if joins pending ms then butlast ms @ [add_call (chat_call c name args) (last ms)]
                else ms @ [new_assistant (chat_call c name args)], True)"
    | (result) c out where "?t = J_str ''function_call_output''" "jfield i ''call_id'' = J_str c"
        "tool_output (jget_or (J_str []) i ''output'') = Inr out" "st' = (ms @ [tool_result c out], False)"
    using assms(2) unfolding st
    by (cases "is_obj i") (auto simp: add_item_def bind_Inr Let_def nonempty_def str_of_iff split: if_splits option.splits json.splits)
  then show ?thesis
  proof cases
    case message
    then show ?thesis
      using assms(1) by (auto simp: st messages_ok_def plain_message_def item_atoms_def Let_def message_atoms_def message_def jfield_obj dget_Cons)
  next
    case result
    then show ?thesis
      using assms(1) by (auto simp: st messages_ok_def result_message_def item_atoms_def Let_def atom_simps)
  next
    case call
    let ?c = "chat_call c name args"
    have at: "item_atoms i = [call_atom ?c]" using call by (simp add: item_atoms_def atom_simps)
    show ?thesis
    proof (cases "joins pending ms")
      case True
      then have ne: "ms \<noteq> []" using assms(1) by (auto simp: joins_def st messages_ok_def)
      have shape: "plain_message (last ms) \<or> calling_message (last ms) \<or> result_message (last ms)"
        using assms(1) ne by (simp add: st messages_ok_def)
      have "calling_message (last ms) \<or> plain_message (last ms) \<and> jfield (last ms) ''role'' = J_str ''assistant''"
      proof (cases pending)
        case True
        then show ?thesis using assms(1) by (simp add: st messages_ok_def)
      next
        case False
        then have "jfield (last ms) ''role'' = J_str ''assistant''" using \<open>joins pending ms\<close> by (simp add: joins_def)
        moreover from this have "\<not> result_message (last ms)"
          by (auto simp: result_message_def tool_result_def jfield_obj dget_Cons)
        ultimately show ?thesis using shape by blast
      qed
      then have L: "calling_message (add_call ?c (last ms)) \<and> message_atoms (add_call ?c (last ms)) = message_atoms (last ms) @ [call_atom ?c]"
        using add_call_calling add_call_plain by blast
      obtain xs x where ms: "ms = xs @ [x]" using ne by (cases ms rule: rev_cases) simp_all
      have st': "st' = (xs @ [add_call ?c x], True)" using call(5) True by (simp add: ms)
      have "\<forall>m \<in> set xs. plain_message m \<or> calling_message m \<or> result_message m" using assms(1) by (simp add: st ms messages_ok_def)
      then show ?thesis using L at by (simp add: st' st ms messages_ok_def)
    next
      case False
      have "calling_message (new_assistant ?c)" by (auto simp: new_assistant_def calling_message_def)
      moreover have "message_atoms (new_assistant ?c) = [call_atom ?c]" by (simp add: atom_simps)
      ultimately show ?thesis using call False at assms(1) by (auto simp: st messages_ok_def)
    qed
  qed
qed

lemma add_items_atoms:
  "messages_ok st \<Longrightarrow> add_items is st = Inr st' \<Longrightarrow>
     concat (map message_atoms (fst st')) = concat (map message_atoms (fst st)) @ concat (map item_atoms is)"
proof (induction "is" arbitrary: st)
  case (Cons i "is")
  then obtain s1 where s1: "add_item i st = Inr s1" "add_items is s1 = Inr st'" by (auto simp: bind_Inr)
  note A = add_item_atoms [OF Cons.prems(1) s1(1)]
  show ?case using A Cons.IH [OF _ s1(2)] by simp
qed simp


definition sample_input :: "json list" where
  "sample_input =
     [J_obj [(''role'', J_str ''assistant''), (''content'', J_str ''on it'')],
      J_obj [(''type'', J_str ''function_call''), (''name'', J_str ''f''), (''call_id'', J_str ''c1''), (''arguments'', J_str ''1'')],
      J_obj [(''type'', J_str ''function_call''), (''name'', J_str ''g''), (''call_id'', J_str ''c2''), (''arguments'', J_str ''2'')],
      J_obj [(''type'', J_str ''function_call_output''), (''call_id'', J_str ''c1''), (''output'', J_str ''r'')]]"


section \<open>System messages end up first\<close>

lemma is_system_message [simp]: "is_system (message r c) = (r = ''system'')"
  by (simp add: is_system_def message_def jfield_obj dget_Cons)

lemma system_obj: "is_system m \<Longrightarrow> \<exists>d. m = J_obj d"
  by (cases m) (simp_all add: is_system_def jget_or_def)

lemma set_key_role: "is_system m \<Longrightarrow> is_system (set_key ''content'' v m)"
  using system_obj [of m] by (auto simp: is_system_def jget_or_def dget_dput)

lemma demote_not_system: "\<not> is_system (demote m)"
proof (cases "is_system m")
  case True
  then obtain d where "m = J_obj d" using system_obj by blast
  then show ?thesis using True by (simp add: demote_def is_system_def jget_or_def dget_dput)
qed (simp add: demote_def)

lemma hoist_first: "\<not> needs_system_rewrite (hoist ms)"
proof (cases "filter is_system ms = []")
  case True
  then have "\<not> list_ex is_system ms" by (simp add: filter_empty_conv list_ex_iff)
  then show ?thesis using True by (cases ms) (simp_all add: needs_system_rewrite_def hoist_def)
qed (auto simp: needs_system_rewrite_def hoist_def Let_def list_ex_iff)

lemma hoist_again: "hoist (hoist ms) = hoist ms"
proof (cases "filter is_system ms = []")
  case False
  have "system_text (jfield (message ''system'' (J_str t)) ''content'') = t" for t
    by (simp add: message_def jfield_obj dget_Cons)
  moreover have "merge_texts [t] = t" for t by (simp add: merge_texts_def)
  ultimately show ?thesis using False by (simp add: hoist_def Let_def)
qed (simp add: hoist_def)

lemma demote_all: "list_ex is_system (map demote ms) = False"
  by (auto simp: list_ex_iff demote_not_system)

lemma demote_first: "\<not> needs_system_rewrite (demote_to_user ms)"
proof (cases "length (takeWhile is_system ms) \<le> 1 \<and> \<not> list_ex is_system (dropWhile is_system ms)")
  case True
  then have d: "demote_to_user ms = ms" by (simp add: demote_to_user_def)
  show ?thesis
  proof (cases ms)
    case (Cons m ms')
    have "\<not> list_ex is_system ms'"
    proof (cases "is_system m")
      case True2: True
      then have "takeWhile is_system ms' = []" using True Cons by simp
      then have "dropWhile is_system ms' = ms'" by (cases ms') (auto split: if_splits)
      then show ?thesis using True True2 Cons by simp
    qed (use True Cons in simp)
    then show ?thesis unfolding d unfolding Cons by (simp add: needs_system_rewrite_def)
  next
    case Nil
    show ?thesis unfolding d unfolding Nil by (simp add: needs_system_rewrite_def)
  qed
next
  case False
  let ?rest = "map demote (dropWhile is_system ms)"
  obtain pre where d: "demote_to_user ms = pre @ ?rest" "length pre \<le> 1"
    using False unfolding demote_to_user_def Let_def if_not_P [OF False] by (cases "takeWhile is_system ms = []") simp_all
  have "\<not> list_ex is_system (tl xs)" if "\<not> list_ex is_system xs" for xs
    using that by (cases xs) simp_all
  then show ?thesis using d(2) demote_all [of "dropWhile is_system ms"]
    unfolding d(1) needs_system_rewrite_def by (cases pre) simp_all
qed

lemma demote_again: "demote_to_user (demote_to_user ms) = demote_to_user ms"
proof (cases "length (takeWhile is_system ms) \<le> 1 \<and> \<not> list_ex is_system (dropWhile is_system ms)")
  case True
  then show ?thesis by (simp add: demote_to_user_def)
next
  case False
  let ?rest = "map demote (dropWhile is_system ms)"
  have none: "takeWhile is_system (map demote xs) = []" "dropWhile is_system (map demote xs) = map demote xs" for xs
    by (cases xs; simp add: demote_not_system)+
  note t = none [of "dropWhile is_system ms"]
  have "demote_to_user (demote_to_user ms) = demote_to_user ms \<longleftrightarrow> True"
  proof (cases "takeWhile is_system ms = []")
    case True
    then have "demote_to_user ms = ?rest" using False by (auto simp: demote_to_user_def Let_def)
    then show ?thesis using t demote_all by (simp add: demote_to_user_def)
  next
    case run: False
    then obtain v where d: "demote_to_user ms = set_key ''content'' v (hd ms) # ?rest"
      using False by (auto simp: demote_to_user_def Let_def)
    have "is_system (hd ms)" using run by (cases ms) (auto split: if_splits)
    then have "is_system (set_key ''content'' v (hd ms))" by (rule set_key_role)
    then show ?thesis using t demote_all by (simp add: d demote_to_user_def [of "_ # _"])
  qed
  then show ?thesis by simp
qed

text \<open>
  Unless the policy is to leave them, an accepted message list has no system message after its
  first one, whatever the policy; normalizing again changes nothing; hoisting keeps the other
  messages as they are, in order; and the refusing policies never change anything.
\<close>

theorem system_messages_first:
  assumes "normalize_system_messages ms policy model None = Inr out" "policy \<noteq> ''asis''"
  shows "\<not> needs_system_rewrite out \<and> normalize_system_messages out policy model None = Inr out \<and>
    (policy = ''hoist'' \<longrightarrow> filter (\<lambda>m. \<not> is_system m) out = filter (\<lambda>m. \<not> is_system m) ms) \<and>
    (policy \<notin> {''hoist'', ''user''} \<longrightarrow> out = ms)"
proof (cases "ms = []")
  case True
  then show ?thesis using assms by (simp add: normalize_system_messages_def needs_system_rewrite_def)
next
  case False
  consider "policy = ''hoist''" "out = hoist ms" | "policy = ''user''" "out = demote_to_user ms"
    | "policy \<notin> {''hoist'', ''user''}" "out = ms" "\<not> needs_system_rewrite ms"
  proof (cases "policy = ''hoist'' \<or> policy = ''user''")
    case True
    then show ?thesis using assms False that(1,2) by (elim disjE) (simp_all add: normalize_system_messages_def)
  next
    case other: False
    then have "out = ms" "\<not> needs_system_rewrite ms"
      using assms False by (simp_all add: normalize_system_messages_def split: if_split_asm)
    then show ?thesis using other that(3) by simp
  qed
  then show ?thesis
  proof cases
    case 1
    have "filter (\<lambda>m. \<not> is_system m) (hoist ms) = filter (\<lambda>m. \<not> is_system m) ms" by (simp add: hoist_def Let_def)
    then show ?thesis using 1 hoist_first [of ms] hoist_again [of ms] by (auto simp: normalize_system_messages_def)
  next
    case 2
    then show ?thesis using demote_first [of ms] demote_again [of ms] by (auto simp: normalize_system_messages_def)
  next
    case 3
    then show ?thesis using assms by simp
  qed
qed

definition sample_history :: "json list" where
  "sample_history =
     [message ''system'' (J_str ''a''), message ''user'' (J_str ''q''), message ''system'' (J_str ''b'')]"

theorem system_messages_first_witness:
  "(case normalize_system_messages sample_history ''hoist'' J_null None of
      Inr out \<Rightarrow> \<not> needs_system_rewrite out \<and> length out = 2 | Inl e \<Rightarrow> False)"
proof -
  have e: "normalize_system_messages sample_history ''hoist'' J_null None = Inr (hoist sample_history)"
    by (simp add: normalize_system_messages_def sample_history_def)
  have "length (hoist sample_history) = 2" by code_simp
  then show ?thesis using system_messages_first [OF e] by (simp add: e)
qed

section \<open>The nearest allowed effort\<close>

lemma first_min_least:
  "first_min f x ys \<in> set (x # ys) \<and> (\<forall>y \<in> set (x # ys). f (first_min f x ys) \<le> f y)"
proof (induction ys arbitrary: x)
  case (Cons y ys)
  let ?z = "if f y < f x then y else x"
  have z: "?z \<in> set (x # y # ys)" "f ?z \<le> f x" "f ?z \<le> f y" by auto
  note I = Cons.IH [of ?z]
  have "first_min f x (y # ys) = first_min f ?z ys" by simp
  moreover have "first_min f ?z ys \<in> set (x # y # ys)" using I z(1) by auto
  moreover have "\<forall>w \<in> set (x # y # ys). f (first_min f ?z ys) \<le> f w"
  proof
    fix w assume "w \<in> set (x # y # ys)"
    moreover have "f (first_min f ?z ys) \<le> f ?z" using I by simp
    moreover have "w \<in> set ys \<Longrightarrow> f (first_min f ?z ys) \<le> f w" using I by simp
    ultimately show "f (first_min f ?z ys) \<le> f w" using z(2,3) by fastforce
  qed
  ultimately show ?case by (simp only:)
qed simp

text \<open>The clamped effort is in the backend's vocabulary and none there is nearer to the one asked for.\<close>

lemma clamped_effort_nearest:
  assumes "clamp_reasoning_effort (J_str s) (Some ls) = Some e"
  shows "e \<in> set ls \<and> (e = lower_text (strip_text s) \<or>
    (\<forall>l \<in> set ls. l \<in> set effort_ladder \<longrightarrow> gap e (lower_text (strip_text s)) \<le> gap l (lower_text (strip_text s))))"
proof (cases "lower_text (strip_text s) \<in> set ls")
  case True
  then show ?thesis using assms by (auto simp: clamp_reasoning_effort_def Let_def split: if_splits)
next
  case False
  let ?n = "lower_text (strip_text s)"
  obtain c cs where f: "filter (\<lambda>l. l \<in> set ls) effort_ladder = c # cs" "e = first_min (\<lambda>l. gap l ?n) c cs"
    using assms False by (auto simp: clamp_reasoning_effort_def Let_def split: if_splits list.splits)
  have set: "set (c # cs) = set ls \<inter> set effort_ladder"
    unfolding f(1) [symmetric] set_filter by blast
  have m: "e \<in> set (c # cs)" "\<forall>y \<in> set (c # cs). gap e ?n \<le> gap y ?n"
    using first_min_least [of "\<lambda>l. gap l ?n" c cs] unfolding f(2) by blast+
  then show ?thesis unfolding set by blast
qed

end
