(* ===== verification/CollabFilter.thy ===== *)
theory CollabFilter
  imports PyText Json "HOL-Library.Code_Target_Nat"
begin

text \<open>
  Removing collab tool-call JSON from text, \<open>src/src/collab_filter.py\<close>: \<open>strip_collab_json\<close> on a
  whole text and \<open>CollabJsonStreamFilter\<close> on text that arrives in pieces, one character at a
  time.  \<open>json.loads\<close> is the argument \<open>loads\<close>, \<open>None\<close> for a decoding error; every theorem holds
  for any such function.
\<close>

section \<open>A whole text\<close>

abbreviation quote_char :: char where "quote_char \<equiv> CHR 0x22"
abbreviation backslash :: char where "backslash \<equiv> CHR 0x5C"
abbreviation open_brace :: char where "open_brace \<equiv> CHR ''{''"
abbreviation close_brace :: char where "close_brace \<equiv> CHR ''}''"

text \<open>
  The string-aware brace counter both variants run: depth, whether inside a string, whether the
  next character is escaped; and whether this character closes the outermost brace.
\<close>

definition brace_step :: "int \<times> bool \<times> bool \<Rightarrow> char \<Rightarrow> (int \<times> bool \<times> bool) \<times> bool" where
  "brace_step q c =
     (let (d, ins, esc) = q
      in if esc then ((d, ins, False), False)
         else if c = backslash \<and> ins then ((d, ins, True), False)
         else if c = quote_char then ((d, \<not> ins, False), False)
         else if \<not> ins \<and> c = open_brace then ((d + 1, ins, False), False)
         else if \<not> ins \<and> c = close_brace then ((d - 1, ins, False), d - 1 = 0)
         else ((d, ins, False), False))"

text \<open>The block up to its closing brace, what follows, and whether there was a closing brace.\<close>

fun take_block :: "int \<times> bool \<times> bool \<Rightarrow> string \<Rightarrow> string \<times> string \<times> bool" where
  "take_block q [] = ([], [], False)"
| "take_block q (c # cs) =
     (let (q', closes) = brace_step q c
      in if closes then ([c], cs, True)
         else let (b, rest, closed) = take_block q' cs in (c # b, rest, closed))"

lemma take_block_split: "take_block q cs = (b, rest, closed) \<Longrightarrow> cs = b @ rest \<and> (\<not> closed \<longrightarrow> rest = [])"
proof (induction cs arbitrary: q b)
  case (Cons c cs)
  obtain q' cl where s: "brace_step q c = (q', cl)" by fastforce
  show ?case
  proof (cases cl)
    case True
    then show ?thesis using Cons.prems s by auto
  next
    case False
    obtain b' r' c' where t: "take_block q' cs = (b', r', c')" by (rule prod_cases3)
    then have "b = c # b'" "r' = rest" "c' = closed" using Cons.prems s False by auto
    then show ?thesis using Cons.IH [of q' b'] t by simp
  qed
qed simp

lemma take_block_Cons: "take_block q (c # cs) = (b, rest, closed) \<Longrightarrow> \<exists>b'. b = c # b'"
  by (auto simp: split_beta Let_def split: if_splits)

text \<open>The test both variants make of a block.\<close>

definition is_collab :: "(string \<Rightarrow> json option) \<Rightarrow> string \<Rightarrow> bool" where
  "is_collab loads b =
     (case loads b of
        Some (J_obj d) \<Rightarrow> dget d ''collab_tool_call'' \<noteq> None \<or> dget d ''type'' = Some (J_str ''collab_tool_call'')
      | _ \<Rightarrow> False)"

function strip_parts :: "(string \<Rightarrow> json option) \<Rightarrow> string \<Rightarrow> string" where
  "strip_parts loads [] = []"
| "strip_parts loads (c # cs) =
     (if c = open_brace then
        (let (b, rest, closed) = take_block (0, False, False) (c # cs)
         in if is_collab loads b then strip_parts loads rest else b @ strip_parts loads rest)
      else c # strip_parts loads cs)"
  by pat_completeness auto
termination
proof (relation "measure (\<lambda>(loads, s). length s)")
  fix loads :: "string \<Rightarrow> json option" and c :: char and cs x b y rest and closed :: bool
  assume a: "c = open_brace" "x = take_block (0, False, False) (c # cs)" "(b, y) = x" "(rest, closed) = y"
  then have t: "take_block (0, False, False) (c # cs) = (b, rest, closed)" by simp
  have "c # cs = b @ rest" "\<exists>b'. b = c # b'" using take_block_split [OF t] take_block_Cons [OF t] by blast+
  then have l: "length rest < length (c # cs)" by auto
  show "((loads, rest), loads, c # cs) \<in> measure (\<lambda>(loads, s). length s)"
    using l by simp
  show "((loads, rest), loads, c # cs) \<in> measure (\<lambda>(loads, s). length s)"
    using l by simp
qed auto

text \<open>\<open>re.sub\<close> of three or more newlines by two.\<close>

abbreviation nl :: char where "nl \<equiv> CHR 0x0A"

fun collapse_newlines :: "nat \<Rightarrow> string \<Rightarrow> string" where
  "collapse_newlines n [] = []"
| "collapse_newlines n (c # cs) =
     (if c = nl then (if n < 2 then c # collapse_newlines (n + 1) cs else collapse_newlines n cs)
      else c # collapse_newlines 0 cs)"

definition strip_collab_json :: "(string \<Rightarrow> json option) \<Rightarrow> string \<Rightarrow> string" where
  "strip_collab_json loads text = strip_text (collapse_newlines 0 (strip_parts loads text))"

section \<open>A text in pieces\<close>

record cfilter =
  cf_enabled :: bool
  cf_buf :: string
  cf_depth :: int
  cf_in_string :: bool
  cf_escape :: bool
  cf_awaiting :: bool

definition new_cfilter :: "bool \<Rightarrow> cfilter" where
  "new_cfilter enabled =
     \<lparr>cf_enabled = enabled, cf_buf = [], cf_depth = 0, cf_in_string = False, cf_escape = False, cf_awaiting = False\<rparr>"

definition reset_cfilter :: "cfilter \<Rightarrow> cfilter" where
  "reset_cfilter f = f\<lparr>cf_buf := [], cf_depth := 0, cf_in_string := False, cf_escape := False, cf_awaiting := False\<rparr>"

fun occurs_in :: "string \<Rightarrow> string \<Rightarrow> bool" where
  "occurs_in m [] = (m = [])"
| "occurs_in m (c # cs) = (starts_with m (c # cs) \<or> occurs_in m cs)"

definition collab_markers :: "string list" where
  "collab_markers = [quote_char # ''collab_tool_call'' @ [quote_char], quote_char # ''collab_tool'' @ [quote_char]]"

definition has_marker :: "string \<Rightarrow> bool" where
  "has_marker b \<longleftrightarrow> list_ex (\<lambda>m. occurs_in m b) collab_markers"

definition max_buffer :: nat where "max_buffer = 8192"

definition over_limit :: "cfilter \<Rightarrow> cfilter \<times> string" where
  "over_limit f = (if length (cf_buf f) > max_buffer then (reset_cfilter f, cf_buf f) else (f, []))"

text \<open>A character that arrives while a block is buffered, once the first-character test is done.\<close>

definition scan_char :: "(string \<Rightarrow> json option) \<Rightarrow> char \<Rightarrow> cfilter \<Rightarrow> cfilter \<times> string" where
  "scan_char loads c f =
     (let ((d, ins, esc), closes) = brace_step (cf_depth f, cf_in_string f, cf_escape f) c;
          f = f\<lparr>cf_depth := d, cf_in_string := ins, cf_escape := esc\<rparr>
      in if closes then
           (if has_marker (cf_buf f) \<and> is_collab loads (cf_buf f) then (reset_cfilter f, [])
            else (reset_cfilter f, cf_buf f))
         else over_limit f)"

definition feed_char :: "(string \<Rightarrow> json option) \<Rightarrow> cfilter \<Rightarrow> char \<Rightarrow> cfilter \<times> string" where
  "feed_char loads f c =
     (if cf_buf f \<noteq> [] then
        (let f = f\<lparr>cf_buf := cf_buf f @ [c]\<rparr>
         in if cf_awaiting f \<and> \<not> is_space c then
              (let f = f\<lparr>cf_awaiting := False\<rparr>
               in if c \<noteq> quote_char then (reset_cfilter f, cf_buf f) else scan_char loads c f)
            else scan_char loads c f)
      else if c = open_brace then
        (f\<lparr>cf_buf := [c], cf_depth := 1, cf_in_string := False, cf_escape := False, cf_awaiting := True\<rparr>, [])
      else (f, [c]))"

definition feed :: "(string \<Rightarrow> json option) \<Rightarrow> cfilter \<Rightarrow> string \<Rightarrow> cfilter \<times> string" where
  "feed loads f text = (if \<not> cf_enabled f then (f, text) else feed_all (feed_char loads) f text)"

definition flush :: "cfilter \<Rightarrow> string \<times> cfilter" where
  "flush f = (cf_buf f, reset_cfilter f)"

text \<open>A stream of deltas, fed one by one and flushed at its end.\<close>

definition filter_stream :: "(string \<Rightarrow> json option) \<Rightarrow> bool \<Rightarrow> string list \<Rightarrow> string" where
  "filter_stream loads enabled deltas =
     (let (f, outs) = fold (\<lambda>t (f, out). let (f, o1) = feed loads f t in (f, out @ o1)) deltas (new_cfilter enabled, [])
      in outs @ fst (flush f))"

lemma feed_char_enabled: "cf_enabled (fst (feed_char loads f c)) = cf_enabled f"
  by (simp add: feed_char_def scan_char_def over_limit_def reset_cfilter_def Let_def split_beta)

lemma feed_all_enabled: "cf_enabled (fst (feed_all (feed_char loads) f t)) = cf_enabled f"
proof (induction t arbitrary: f)
  case (Cons c t)
  then show ?case using feed_char_enabled [of loads f c] by (simp add: split_beta Let_def)
qed simp

text \<open>How the text is cut into deltas does not matter.\<close>

lemma filter_stream_concat:
  "filter_stream loads True deltas =
     (let (f, out) = feed_all (feed_char loads) (new_cfilter True) (concat deltas) in out @ cf_buf f)"
proof -
  have "fold (\<lambda>t (f, out). let (f, o1) = feed loads f t in (f, out @ o1)) deltas (f, out) =
      (let (f', o') = feed_all (feed_char loads) f (concat deltas) in (f', out @ o'))" if "cf_enabled f" for f out
    using that
  proof (induction deltas arbitrary: f out)
    case (Cons t ts)
    obtain f1 o1 where e: "feed_all (feed_char loads) f t = (f1, o1)" by fastforce
    have "cf_enabled f1" using feed_all_enabled [of loads f t] e Cons.prems by simp
    then show ?case using Cons e
      by (simp add: feed_def feed_all_append split_beta Let_def)
  qed simp
  from this [of "new_cfilter True" "[]"] show ?thesis
    by (simp add: filter_stream_def new_cfilter_def flush_def split_beta Let_def)
qed

section \<open>What the stream filter drops\<close>

definition kept :: "(string \<times> bool) list \<Rightarrow> string" where
  "kept segs = concat (map fst (filter snd segs))"

definition drops_only_collab :: "(string \<Rightarrow> json option) \<Rightarrow> (string \<times> bool) list \<Rightarrow> bool" where
  "drops_only_collab loads segs \<longleftrightarrow> list_all (\<lambda>(s, k). k \<or> (is_collab loads s \<and> has_marker s)) segs"

lemma feed_char_segments:
  assumes "feed_char loads f c = (f', out)"
  shows "\<exists>segs. cf_buf f @ [c] = concat (map fst segs) @ cf_buf f' \<and> out = kept segs \<and> drops_only_collab loads segs"
proof -
  consider (hold) "cf_buf f' = cf_buf f @ [c]" "out = []"
    | (pass) "cf_buf f' = []" "out = cf_buf f @ [c]"
    | (strip) "cf_buf f' = []" "out = []" "is_collab loads (cf_buf f @ [c])" "has_marker (cf_buf f @ [c])"
    using assms
    by (auto simp: feed_char_def scan_char_def over_limit_def reset_cfilter_def Let_def split_beta split: if_splits)
  then show ?thesis
  proof cases
    case hold
    then show ?thesis by (intro exI [of _ "[]"]) (simp add: kept_def drops_only_collab_def)
  next
    case pass
    then show ?thesis by (intro exI [of _ "[(cf_buf f @ [c], True)]"]) (simp add: kept_def drops_only_collab_def)
  next
    case strip
    then show ?thesis by (intro exI [of _ "[(cf_buf f @ [c], False)]"]) (simp add: kept_def drops_only_collab_def)
  qed
qed

lemma kept_append: "kept (xs @ ys) = kept xs @ kept ys"
  by (simp add: kept_def)

lemma feed_all_segments:
  "feed_all (feed_char loads) f t = (f', out) \<Longrightarrow>
     \<exists>segs. cf_buf f @ t = concat (map fst segs) @ cf_buf f' \<and> out = kept segs \<and> drops_only_collab loads segs"
proof (induction t arbitrary: f out)
  case Nil
  then show ?case by (intro exI [of _ "[]"]) (simp add: kept_def drops_only_collab_def)
next
  case (Cons c t)
  obtain f1 o1 where e: "feed_char loads f c = (f1, o1)" by fastforce
  obtain o2 where r: "feed_all (feed_char loads) f1 t = (f', o2)" "out = o1 @ o2"
    using Cons.prems e by (auto simp: split_beta Let_def prod_eq_iff)
  obtain s1 where s1: "cf_buf f @ [c] = concat (map fst s1) @ cf_buf f1" "o1 = kept s1" "drops_only_collab loads s1"
    using feed_char_segments [OF e] by blast
  obtain s2 where s2: "cf_buf f1 @ t = concat (map fst s2) @ cf_buf f'" "o2 = kept s2" "drops_only_collab loads s2"
    using Cons.IH [OF r(1)] by blast
  have "cf_buf f @ c # t = (cf_buf f @ [c]) @ t" by simp
  also have "\<dots> = concat (map fst (s1 @ s2)) @ cf_buf f'" unfolding s1(1) using s2(1) by simp
  finally show ?case using s1 s2 r(2)
    by (intro exI [of _ "s1 @ s2"]) (simp add: kept_append drops_only_collab_def)
qed

text \<open>
  The stream filter loses nothing but collab JSON: whatever the deltas, what it emits up to
  the flush is the streamed text with some blocks taken out, each of which decodes to a collab
  call; and disabled, it emits the text as it is.
\<close>

theorem stream_filter_drops_collab_only:
  "(\<exists>segs. concat deltas = concat (map fst segs) \<and> filter_stream loads True deltas = kept segs \<and>
      drops_only_collab loads segs) \<and>
   filter_stream loads False deltas = concat deltas"
proof
  obtain f out where r: "feed_all (feed_char loads) (new_cfilter True) (concat deltas) = (f, out)" by fastforce
  obtain segs where s: "concat deltas = concat (map fst segs) @ cf_buf f" "out = kept segs" "drops_only_collab loads segs"
    using feed_all_segments [OF r] by (auto simp: new_cfilter_def)
  have "filter_stream loads True deltas = kept (segs @ [(cf_buf f, True)])"
    using s r by (simp add: filter_stream_concat kept_append) (simp add: kept_def)
  then show "\<exists>segs. concat deltas = concat (map fst segs) \<and> filter_stream loads True deltas = kept segs \<and>
      drops_only_collab loads segs"
    using s by (intro exI [of _ "segs @ [(cf_buf f, True)]"]) (simp add: drops_only_collab_def)
next
  have "fold (\<lambda>t (f, out). let (f, o1) = feed loads f t in (f, out @ o1)) deltas (new_cfilter False, out) =
      (new_cfilter False, out @ concat deltas)" for out
    by (induction deltas arbitrary: out) (simp_all add: feed_def new_cfilter_def)
  from this [of "[]"] show "filter_stream loads False deltas = concat deltas"
    by (simp add: filter_stream_def flush_def new_cfilter_def)
qed

section \<open>The stream against the whole text\<close>

text \<open>
  Blocks both variants treat alike: within the buffer limit, opening with a quoted key (or of one
  visible character), and if they are collab JSON, closed and with a marker in plain sight.
\<close>

definition head_ok :: "(string \<Rightarrow> json option) \<Rightarrow> string \<Rightarrow> string \<Rightarrow> bool \<Rightarrow> bool" where
  "head_ok loads whole b closed \<longleftrightarrow>
     (case dropWhile is_space b of
        [] \<Rightarrow> \<not> is_collab loads whole
      | c # cs \<Rightarrow>
          if c = quote_char then is_collab loads whole \<longrightarrow> closed \<and> has_marker whole
          else cs = [] \<and> \<not> is_collab loads whole)"

definition block_ok :: "(string \<Rightarrow> json option) \<Rightarrow> string \<Rightarrow> bool \<Rightarrow> bool" where
  "block_ok loads b closed \<longleftrightarrow> length b \<le> max_buffer \<and> head_ok loads b (tl b) closed"

function blocks_ok :: "(string \<Rightarrow> json option) \<Rightarrow> string \<Rightarrow> bool" where
  "blocks_ok loads [] = True"
| "blocks_ok loads (c # cs) =
     (if c = open_brace then
        (let (b, rest, closed) = take_block (0, False, False) (c # cs) in block_ok loads b closed \<and> blocks_ok loads rest)
      else blocks_ok loads cs)"
  by pat_completeness auto
termination
proof (relation "measure (\<lambda>(loads, s). length s)")
  fix loads :: "string \<Rightarrow> json option" and c :: char and cs x b y rest and closed :: bool
  assume "c = open_brace" "x = take_block (0, False, False) (c # cs)" "(b, y) = x" "(rest, closed) = y"
  then have t: "take_block (0, False, False) (c # cs) = (b, rest, closed)" by simp
  have "c # cs = b @ rest" "\<exists>b'. b = c # b'" using take_block_split [OF t] take_block_Cons [OF t] by blast+
  then show "((loads, rest), loads, c # cs) \<in> measure (\<lambda>(loads, s). length s)" by auto
qed auto

definition run_filter :: "(string \<Rightarrow> json option) \<Rightarrow> cfilter \<Rightarrow> string \<Rightarrow> string" where
  "run_filter loads f t = (let (f', out) = feed_all (feed_char loads) f t in out @ cf_buf f')"

lemma run_filter_Nil: "run_filter loads f [] = cf_buf f"
  by (simp add: run_filter_def)

lemma run_filter_Cons: "feed_char loads f c = (f1, o1) \<Longrightarrow> run_filter loads f (c # t) = o1 @ run_filter loads f1 t"
  by (simp add: run_filter_def split_beta Let_def)

definition buffering :: "string \<Rightarrow> int \<times> bool \<times> bool \<Rightarrow> bool \<Rightarrow> cfilter" where
  "buffering u q awaiting =
     \<lparr>cf_enabled = True, cf_buf = u, cf_depth = fst q, cf_in_string = fst (snd q), cf_escape = snd (snd q),
      cf_awaiting = awaiting\<rparr>"

lemma reset_buffering: "reset_cfilter (buffering u q a) = new_cfilter True"
  by (simp add: reset_cfilter_def buffering_def new_cfilter_def)

lemma scan_buffering:
  "brace_step q c = (q', closes) \<Longrightarrow>
     scan_char loads c (buffering u q a) =
       (if closes then (new_cfilter True, if has_marker u \<and> is_collab loads u then [] else u)
        else if length u > max_buffer then (new_cfilter True, u) else (buffering u q' a, []))"
  by (simp add: scan_char_def over_limit_def reset_cfilter_def buffering_def new_cfilter_def Let_def split_beta)

lemma feed_buffering:
  "u \<noteq> [] \<Longrightarrow> feed_char loads (buffering u q a) c =
     (if a \<and> \<not> is_space c then
        if c \<noteq> quote_char then (new_cfilter True, u @ [c]) else scan_char loads c (buffering (u @ [c]) q False)
      else scan_char loads c (buffering (u @ [c]) q a))"
  by (simp add: feed_char_def buffering_def reset_cfilter_def new_cfilter_def Let_def)

lemma run_block:
  "u \<noteq> [] \<Longrightarrow> take_block q cs = (b, rest, closed) \<Longrightarrow> length (u @ b) \<le> max_buffer \<Longrightarrow>
     run_filter loads (buffering u q False) cs =
       (if closed \<and> has_marker (u @ b) \<and> is_collab loads (u @ b) then [] else u @ b) @
       run_filter loads (new_cfilter True) rest"
proof (induction cs arbitrary: u q b)
  case Nil
  then show ?case by (simp add: run_filter_Nil new_cfilter_def buffering_def)
next
  case (Cons c cs)
  obtain q' closes where st: "brace_step q c = (q', closes)" by fastforce
  note fc = feed_buffering [OF Cons.prems(1), of loads q False c]
  show ?case
  proof (cases closes)
    case True
    then have "b = [c]" "rest = cs" "closed" using Cons.prems(2) st by auto
    then show ?thesis
      using run_filter_Cons [of loads "buffering u q False" c] fc scan_buffering [OF st, of loads "u @ [c]" False] True
      by simp
  next
    case False
    obtain b' where t: "take_block q' cs = (b', rest, closed)" "b = c # b'"
      using Cons.prems(2) st False by (auto simp: split_beta Let_def prod_eq_iff)
    have "feed_char loads (buffering u q False) c = (buffering (u @ [c]) q' False, [])"
      using fc scan_buffering [OF st, of loads "u @ [c]" False] False Cons.prems(3) t(2) by simp
    from run_filter_Cons [OF this] Cons.IH [of "u @ [c]" q' b'] t Cons.prems(3) show ?thesis by simp
  qed
qed

lemma space_not_special: "is_space c \<Longrightarrow> brace_step (d, False, False) c = ((d, False, False), False)"
  by (auto simp: is_space_def brace_step_def)

lemma run_awaiting:
  "u \<noteq> [] \<Longrightarrow> take_block (1, False, False) cs = (b, rest, closed) \<Longrightarrow> length (u @ b) \<le> max_buffer \<Longrightarrow>
   head_ok loads (u @ b) b closed \<Longrightarrow>
     run_filter loads (buffering u (1, False, False) True) cs =
       (if is_collab loads (u @ b) then [] else u @ b) @ run_filter loads (new_cfilter True) rest"
proof (induction cs arbitrary: u b)
  case Nil
  then show ?case by (simp add: run_filter_Nil new_cfilter_def buffering_def head_ok_def)
next
  case (Cons c cs)
  let ?q = "(1, False, False) :: int \<times> bool \<times> bool"
  note fc = feed_buffering [OF Cons.prems(1), of loads ?q True c]
  obtain b' where b': "b = c # b'" using take_block_Cons [OF Cons.prems(2)] by blast
  show ?case
  proof (cases "is_space c")
    case True
    note st = space_not_special [OF True, of 1]
    have t: "take_block ?q cs = (b', rest, closed)"
      using Cons.prems(2) st b' by (auto simp: split_beta Let_def prod_eq_iff)
    have "feed_char loads (buffering u ?q True) c = (buffering (u @ [c]) ?q True, [])"
      using fc scan_buffering [OF st, of loads "u @ [c]" True] True Cons.prems(3) b' by simp
    moreover have "head_ok loads ((u @ [c]) @ b') b' closed"
      using Cons.prems(4) b' True by (simp add: head_ok_def)
    ultimately show ?thesis
      using run_filter_Cons [of loads "buffering u ?q True" c] Cons.IH [of "u @ [c]" b'] t Cons.prems(3) b' by simp
  next
    case False
    show ?thesis
    proof (cases "c = quote_char")
      case True
      have "feed_char loads (buffering u ?q True) c = feed_char loads (buffering u ?q False) c"
        using fc feed_buffering [OF Cons.prems(1), of loads ?q False c] True False by simp
      then have "run_filter loads (buffering u ?q True) (c # cs) = run_filter loads (buffering u ?q False) (c # cs)"
        using run_filter_Cons by (metis surj_pair)
      then show ?thesis
        using run_block [OF Cons.prems(1,2,3), of loads] Cons.prems(4) b' True False
        by (auto simp: head_ok_def)
    next
      case nq: False
      have "b' = []" and nc: "\<not> is_collab loads (u @ b)"
        using Cons.prems(4) b' False nq by (auto simp: head_ok_def)
      have r: "rest = cs" using take_block_split [OF Cons.prems(2)] b' \<open>b' = []\<close> by simp
      have "feed_char loads (buffering u ?q True) c = (new_cfilter True, u @ [c])" using fc False nq by simp
      from run_filter_Cons [OF this] show ?thesis using nc r b' \<open>b' = []\<close> by simp
    qed
  qed
qed

lemma run_idle_strips: "blocks_ok loads t \<Longrightarrow> run_filter loads (new_cfilter True) t = strip_parts loads t"
proof (induction loads t rule: strip_parts.induct)
  case (1 loads)
  then show ?case by (simp add: run_filter_Nil new_cfilter_def)
next
  case (2 loads c cs)
  show ?case
  proof (cases "c = open_brace")
    case True
    obtain b rest closed where t: "take_block (0, False, False) (c # cs) = (b, rest, closed)" by (rule prod_cases3)
    have st: "brace_step (0, False, False) open_brace = ((1, False, False), False)" by (simp add: brace_step_def)
    obtain b' where t': "take_block (1, False, False) cs = (b', rest, closed)" "b = c # b'"
      using t True st by (auto simp: split_beta Let_def prod_eq_iff)
    have ok: "block_ok loads b closed" "blocks_ok loads rest" using "2.prems" t True by simp_all
    have "feed_char loads (new_cfilter True) c = (buffering [c] (1, False, False) True, [])"
      by (simp add: feed_char_def new_cfilter_def buffering_def True)
    from run_filter_Cons [OF this]
    have "run_filter loads (new_cfilter True) (c # cs) =
        (if is_collab loads b then [] else b) @ run_filter loads (new_cfilter True) rest"
      using run_awaiting [OF _ t'(1), of "[c]" loads] t'(2) ok(1) by (simp add: block_ok_def)
    moreover have "run_filter loads (new_cfilter True) rest = strip_parts loads rest"
      using "2.IH" True t ok(2) by (cases "is_collab loads b") auto
    ultimately show ?thesis using t True by simp
  next
    case False
    have "feed_char loads (new_cfilter True) c = (new_cfilter True, [c])"
      by (simp add: feed_char_def new_cfilter_def False)
    from run_filter_Cons [OF this] show ?thesis using "2.IH"(3) "2.prems" False by simp
  qed
qed

text \<open>
  The stream filter is the batch one, cut into deltas in any way: on a text whose brace
  blocks stay within the buffer and begin with a quoted key, streaming emits exactly what
  \<open>strip_collab_json\<close> keeps before it tidies newlines.
\<close>

theorem stream_filter_matches_batch:
  assumes "blocks_ok loads (concat deltas)"
  shows "filter_stream loads True deltas = strip_parts loads (concat deltas)"
  using run_idle_strips [OF assms] by (simp add: filter_stream_concat run_filter_def)

definition demo_call :: string where
  "demo_call = open_brace # quote_char # ''collab_tool_call'' @ [quote_char] @ '':1}''"

definition demo_loads :: "string \<Rightarrow> json option" where
  "demo_loads b = (if b = demo_call then Some (J_obj [(''collab_tool_call'', J_int 1)]) else None)"

theorem stream_filter_matches_batch_witness:
  "filter_stream demo_loads True [''hi '', take 7 demo_call, drop 7 demo_call @ '' bye {}''] = ''hi  bye {}''"
proof -
  have "blocks_ok demo_loads (concat [''hi '', take 7 demo_call, drop 7 demo_call @ '' bye {}''])" by code_simp
  from stream_filter_matches_batch [OF this]
  have "filter_stream demo_loads True [''hi '', take 7 demo_call, drop 7 demo_call @ '' bye {}''] =
      strip_parts demo_loads (concat [''hi '', take 7 demo_call, drop 7 demo_call @ '' bye {}''])" .
  also have "\<dots> = ''hi  bye {}''" by code_simp
  finally show ?thesis .
qed

text \<open>
  Outside these texts the two differ: braces in prose around a collab call end the streamed
  block at their first letter, so the call inside is dropped, while the batch variant keeps the
  whole of it.
\<close>

lemma prose_braces_differ:
  "filter_stream demo_loads True [''{ see '' @ demo_call @ ''}''] = ''{ see }''"
  "strip_parts demo_loads (''{ see '' @ demo_call @ ''}'') = ''{ see '' @ demo_call @ ''}''"
  by code_simp+

end
