(* ===== verification/PosixAcl.thy ===== *)
theory PosixAcl
  imports Prelude "HOL-Library.Word" "HOL-Library.Product_Lexorder" "HOL-Library.Multiset"
begin

unbundle bit_operations_syntax

text \<open>
  POSIX ACLs as the gateway writes them, \<open>src/src/backends/claude/posix_acl.py\<close>: the xattr
  encoding and its reader, the presets, the grant of one directory and the walk that grants an
  existing tree.  The kernel is a parameter: reading and setting an xattr, and \<open>fstat\<close>, of an
  opened object.  Entry fields are Python integers, xattr values are lists of 8-bit words.
\<close>

section \<open>Entries\<close>

datatype entry = Entry (e_tag: int) (e_perm: int) (e_id: int)

text \<open>The comparison of the frozen, ordered dataclass: by tag, permission, id.\<close>

instantiation entry :: linorder
begin

definition less_eq_entry :: "entry \<Rightarrow> entry \<Rightarrow> bool" where
  "less_eq_entry a b \<longleftrightarrow> (e_tag a, e_perm a, e_id a) \<le> (e_tag b, e_perm b, e_id b)"

definition less_entry :: "entry \<Rightarrow> entry \<Rightarrow> bool" where
  "less_entry a b \<longleftrightarrow> (e_tag a, e_perm a, e_id a) < (e_tag b, e_perm b, e_id b)"

instance
  by standard (auto simp: less_eq_entry_def less_entry_def intro: entry.expand)

end

definition acl_user_obj :: int where "acl_user_obj = 1"
definition acl_user :: int where "acl_user = 2"
definition acl_group_obj :: int where "acl_group_obj = 4"
definition acl_group :: int where "acl_group = 8"
definition acl_mask :: int where "acl_mask = 16"
definition acl_other :: int where "acl_other = 32"
definition acl_undefined_id :: int where "acl_undefined_id = 4294967295"
definition acl_r :: int where "acl_r = 4"
definition acl_w :: int where "acl_w = 2"
definition acl_x :: int where "acl_x = 1"
definition acl_rwx :: int where "acl_rwx = (acl_r OR acl_w) OR acl_x"

lemmas acl_consts = acl_user_obj_def acl_user_def acl_group_obj_def acl_group_def acl_mask_def acl_other_def
  acl_undefined_id_def

lemma acl_rwx_7 [simp]: "acl_rwx = 7"
  by (simp add: acl_rwx_def acl_r_def acl_w_def acl_x_def)

definition named_tags :: "int list" where "named_tags = [acl_user, acl_group]"

definition acl_tags :: "int list" where
  "acl_tags = [acl_user_obj, acl_user, acl_group_obj, acl_group, acl_mask, acl_other]"

definition required_tags :: "int list" where "required_tags = [acl_user_obj, acl_group_obj, acl_other]"

definition stored_order :: "entry \<Rightarrow> int \<times> int" where
  "stored_order e = (e_tag e, e_id e)"

datatype acl_error =
    Unknown_tag | Perm_outside_rwx | Invalid_named_id | Unnamed_with_id | Duplicate_entry
  | Missing_entry int | Named_without_mask | Mask_without_named
  | Malformed_value | Unsupported_version int | Malformed_entry int int

section \<open>Encoding\<close>

type_synonym byte = "8 word"

text \<open>\<open>struct\<close> formats \<open><H\<close> and \<open><I\<close>.\<close>

definition pack_u16 :: "int \<Rightarrow> byte list" where
  "pack_u16 n = [word_of_int n, word_of_int (n div 256)]"

definition pack_u32 :: "int \<Rightarrow> byte list" where
  "pack_u32 n = pack_u16 n @ pack_u16 (n div 65536)"

definition unpack_u16 :: "byte \<Rightarrow> byte \<Rightarrow> int" where
  "unpack_u16 a b = uint a + 256 * uint b"

definition unpack_u32 :: "byte \<Rightarrow> byte \<Rightarrow> byte \<Rightarrow> byte \<Rightarrow> int" where
  "unpack_u32 a b c d = unpack_u16 a b + 65536 * unpack_u16 c d"

definition pack_entry :: "entry \<Rightarrow> byte list" where
  "pack_entry e = pack_u16 (e_tag e) @ pack_u16 (e_perm e) @ pack_u32 (e_id e)"

fun check_entries :: "entry list \<Rightarrow> (int \<times> int) list \<Rightarrow> acl_error + (int \<times> int) list" where
  "check_entries [] seen = Inr seen"
| "check_entries (e # es) seen =
     (if e_tag e \<notin> set acl_tags then Inl Unknown_tag
      else if \<not> (0 \<le> e_perm e \<and> e_perm e \<le> acl_rwx) then Inl Perm_outside_rwx
      else if e_tag e \<in> set named_tags \<and> \<not> (0 \<le> e_id e \<and> e_id e < acl_undefined_id) then Inl Invalid_named_id
      else if e_tag e \<notin> set named_tags \<and> e_id e \<noteq> acl_undefined_id then Inl Unnamed_with_id
      else if stored_order e \<in> set seen then Inl Duplicate_entry
      else check_entries es (stored_order e # seen))"

definition encode :: "entry list \<Rightarrow> acl_error + byte list" where
  "encode items =
     (case check_entries items [] of
        Inl err \<Rightarrow> Inl err
      | Inr seen \<Rightarrow>
          (case find (\<lambda>t. (t, acl_undefined_id) \<notin> set seen) required_tags of
             Some t \<Rightarrow> Inl (Missing_entry t)
           | None \<Rightarrow>
               let named = list_ex (\<lambda>(t, i). t \<in> set named_tags) seen
               in if named \<noteq> ((acl_mask, acl_undefined_id) \<in> set seen)
                  then Inl (if named then Named_without_mask else Mask_without_named)
                  else Inr (pack_u32 2 @ concat (map pack_entry (sort_key stored_order items)))))"

fun unpack_entries :: "byte list \<Rightarrow> acl_error + entry list" where
  "unpack_entries (t0 # t1 # p0 # p1 # i0 # i1 # i2 # i3 # rest) =
     (let t = unpack_u16 t0 t1; p = unpack_u16 p0 p1
      in if t \<notin> set acl_tags \<or> p AND NOT acl_rwx \<noteq> 0 then Inl (Malformed_entry t p)
         else (case unpack_entries rest of
                 Inl err \<Rightarrow> Inl err
               | Inr es \<Rightarrow> Inr (Entry t p (unpack_u32 i0 i1 i2 i3) # es)))"
| "unpack_entries _ = Inr []"

definition decode :: "byte list \<Rightarrow> acl_error + entry list" where
  "decode data =
     (if length data < 4 \<or> (length data - 4) mod 8 \<noteq> 0 then Inl Malformed_value
      else let version = unpack_u32 (data ! 0) (data ! 1) (data ! 2) (data ! 3)
           in if version \<noteq> 2 then Inl (Unsupported_version version) else unpack_entries (drop 4 data))"

section \<open>What the encoder accepts\<close>

definition entry_ok :: "entry \<Rightarrow> bool" where
  "entry_ok e \<longleftrightarrow> e_tag e \<in> set acl_tags \<and> 0 \<le> e_perm e \<and> e_perm e \<le> 7 \<and>
     (if e_tag e \<in> {acl_user, acl_group} then 0 \<le> e_id e \<and> e_id e < acl_undefined_id
      else e_id e = acl_undefined_id)"

definition has_tag :: "int \<Rightarrow> entry list \<Rightarrow> bool" where
  "has_tag t es \<longleftrightarrow> t \<in> e_tag ` set es"

definition valid_acl :: "entry list \<Rightarrow> bool" where
  "valid_acl es \<longleftrightarrow> list_all entry_ok es \<and> distinct (map stored_order es) \<and>
     has_tag acl_user_obj es \<and> has_tag acl_group_obj es \<and> has_tag acl_other es \<and>
     (has_tag acl_mask es \<longleftrightarrow> has_tag acl_user es \<or> has_tag acl_group es)"

lemma valid_acl_mset:
  assumes "mset fs = mset es" "valid_acl es"
  shows "valid_acl fs"
proof -
  have "set fs = set es" using assms(1) by (rule mset_eq_setD)
  moreover have "distinct (map stored_order fs)"
    using assms by (metis valid_acl_def mset_map mset_eq_imp_distinct_iff)
  ultimately show ?thesis using assms(2) by (simp add: valid_acl_def has_tag_def list_all_iff)
qed

lemma check_entries_Inr:
  "check_entries es seen = Inr s \<longleftrightarrow>
     s = rev (map stored_order es) @ seen \<and> list_all entry_ok es \<and> distinct (map stored_order es) \<and>
     set (map stored_order es) \<inter> set seen = {}"
proof (induction es arbitrary: seen)
  case (Cons e es)
  show ?case
  proof (cases "entry_ok e \<and> stored_order e \<notin> set seen")
    case True
    then have "check_entries (e # es) seen = check_entries es (stored_order e # seen)"
      by (auto simp: entry_ok_def named_tags_def split: if_splits)
    then show ?thesis using Cons.IH [of "stored_order e # seen"] True by auto
  next
    case False
    then have "\<exists>err. check_entries (e # es) seen = Inl err"
      by (auto simp: entry_ok_def named_tags_def split: if_splits)
    then show ?thesis using False by auto
  qed
qed auto

lemma unnamed_seen:
  assumes "list_all entry_ok es" "t \<notin> {acl_user, acl_group}"
  shows "(t, acl_undefined_id) \<in> set (map stored_order es) \<longleftrightarrow> has_tag t es"
proof -
  have "e_id e = acl_undefined_id" if "e \<in> set es" "e_tag e = t" for e
    using assms that by (auto simp: list_all_iff entry_ok_def split: if_splits)
  then show ?thesis by (force simp: stored_order_def has_tag_def)
qed

lemma encode_Inr:
  "encode es = Inr bs \<longleftrightarrow>
     valid_acl es \<and> bs = pack_u32 2 @ concat (map pack_entry (sort_key stored_order es))"
proof (cases "check_entries es []")
  case (Inl err)
  then have "\<not> valid_acl es" using check_entries_Inr [of es "[]"] by (auto simp: valid_acl_def)
  then show ?thesis using Inl by (simp add: encode_def)
next
  case (Inr seen)
  then have seen: "set seen = set (map stored_order es)" and ok: "list_all entry_ok es" and d: "distinct (map stored_order es)"
    by (auto simp: check_entries_Inr)
  have req: "find (\<lambda>t. (t, acl_undefined_id) \<notin> set seen) required_tags = None \<longleftrightarrow>
      has_tag acl_user_obj es \<and> has_tag acl_group_obj es \<and> has_tag acl_other es"
    unfolding find_None_iff seen required_tags_def
    using unnamed_seen [OF ok, of acl_user_obj] unnamed_seen [OF ok, of acl_group_obj] unnamed_seen [OF ok, of acl_other]
    by (auto simp: acl_consts)
  have mask: "(acl_mask, acl_undefined_id) \<in> set seen \<longleftrightarrow> has_tag acl_mask es"
    unfolding seen by (rule unnamed_seen [OF ok]) (simp add: acl_consts)
  have named: "list_ex (\<lambda>(t, i). t \<in> set named_tags) seen \<longleftrightarrow> has_tag acl_user es \<or> has_tag acl_group es"
    unfolding list_ex_iff seen by (force simp: stored_order_def has_tag_def named_tags_def image_iff)
  show ?thesis
    using ok d req
    by (cases "find (\<lambda>t. (t, acl_undefined_id) \<notin> set seen) required_tags")
      (auto simp: encode_def Inr mask named valid_acl_def Let_def)
qed

section \<open>Bytes\<close>

lemma uint_byte: "uint (word_of_int n :: byte) = n mod 256"
  by (simp add: uint_word_of_int)

lemma unpack_pack_u16: "0 \<le> n \<Longrightarrow> n < 65536 \<Longrightarrow> unpack_u16 (word_of_int n) (word_of_int (n div 256)) = n"
proof -
  assume n: "0 \<le> n" "n < 65536"
  have "0 \<le> n div 256" using n(1) by simp
  moreover have "n div 256 < 256" using n by presburger
  ultimately have "n div 256 mod 256 = n div 256" by (rule mod_pos_pos_trivial)
  then show ?thesis unfolding unpack_u16_def uint_byte by simp
qed

lemma pack_u16_mod: "pack_u16 n = pack_u16 (n mod 65536)"
proof -
  have "(65536 :: int) = 256 * 256" by simp
  then have split: "n mod 65536 = 256 * (n div 256 mod 256) + n mod 256"
    using zmod_zmult2_eq [of 256 n 256] by simp
  then have "(n mod 65536) mod 256 = n mod 256" by simp
  moreover have "(n mod 65536) div 256 = n div 256 mod 256" unfolding split by simp
  ultimately show ?thesis by (simp add: pack_u16_def word_uint_eq_iff uint_byte)
qed

lemma unpack_pack_u32:
  assumes "0 \<le> n" "n < 4294967296"
  shows "\<exists>a b c d. pack_u32 n = [a, b, c, d] \<and> unpack_u32 a b c d = n"
proof -
  let ?l = "n mod 65536" and ?h = "n div 65536"
  have h: "0 \<le> ?h" "?h < 65536" using assms by (simp_all add: div_less_iff_less_mult)
  have "pack_u32 n = [word_of_int ?l, word_of_int (?l div 256), word_of_int ?h, word_of_int (?h div 256)]"
    using pack_u16_mod [of n] by (simp add: pack_u32_def pack_u16_def)
  moreover have "unpack_u32 (word_of_int ?l) (word_of_int (?l div 256)) (word_of_int ?h) (word_of_int (?h div 256)) = n"
    using unpack_pack_u16 [of ?l] unpack_pack_u16 [OF h] by (simp add: unpack_u32_def)
  ultimately show ?thesis by blast
qed

lemma and_not_rwx: "p AND NOT acl_rwx = 0 \<longleftrightarrow> 0 \<le> p \<and> p \<le> 7" for p :: int
proof -
  have m: "acl_rwx = mask 3" by (simp add: mask_eq_exp_minus_1)
  have "p AND NOT (mask 3) = push_bit 3 (drop_bit 3 p)"
    by (rule bit_eqI) (auto simp: bit_and_iff bit_not_iff bit_mask_iff bit_push_bit_iff bit_drop_bit_eq)
  also have "\<dots> = p - p mod 8" by (simp add: push_bit_eq_mult drop_bit_eq_div minus_mod_eq_div_mult)
  finally have "p AND NOT (mask 3) = p - p mod 8" .
  then show ?thesis unfolding m by (smt (verit) mod_pos_pos_trivial pos_mod_bound pos_mod_sign)
qed

lemma length_pack_entry: "length (pack_entry e) = 8"
  by (simp add: pack_entry_def pack_u16_def pack_u32_def)

lemma length_pack_u16: "length (pack_u16 n) = 2"
  by (simp add: pack_u16_def)

lemma entry_ok_ranges:
  "entry_ok e \<Longrightarrow> 0 \<le> e_tag e \<and> e_tag e < 65536 \<and> 0 \<le> e_perm e \<and> e_perm e \<le> 7 \<and> 0 \<le> e_id e \<and> e_id e < 4294967296"
  by (auto simp: entry_ok_def acl_tags_def acl_consts split: if_splits)

lemma unpack_packed_entry:
  assumes "entry_ok e"
  shows "unpack_entries (pack_entry e @ bs) =
     (case unpack_entries bs of Inl err \<Rightarrow> Inl err | Inr es \<Rightarrow> Inr (e # es))"
proof -
  note r = entry_ok_ranges [OF assms]
  obtain a b c d where i: "pack_u32 (e_id e) = [a, b, c, d]" "unpack_u32 a b c d = e_id e"
    using unpack_pack_u32 [of "e_id e"] r by auto
  have "unpack_u16 (word_of_int (e_tag e)) (word_of_int (e_tag e div 256)) = e_tag e"
    "unpack_u16 (word_of_int (e_perm e)) (word_of_int (e_perm e div 256)) = e_perm e"
    by (rule unpack_pack_u16; use r in simp)+
  moreover have "e_tag e \<in> set acl_tags" "e_perm e AND NOT acl_rwx = 0"
    using assms r by (simp_all only: entry_ok_def and_not_rwx)
  ultimately show ?thesis
    by (simp add: pack_entry_def i pack_u16_def Let_def del: acl_rwx_7 split: sum.split)
qed

lemma unpack_packed_entries: "list_all entry_ok es \<Longrightarrow> unpack_entries (concat (map pack_entry es)) = Inr es"
  by (induction es) (simp_all add: unpack_packed_entry)

lemma pack_unpack_u16: "pack_u16 (unpack_u16 a b) = [a, b]"
proof -
  have "uint a < 256" "0 \<le> uint a" using uint_lt2p [of a] by simp_all
  then have "unpack_u16 a b mod 256 = uint a" "unpack_u16 a b div 256 = uint b"
    by (simp_all add: unpack_u16_def mod_pos_pos_trivial div_pos_pos_trivial)
  moreover have "uint b mod 256 = uint b" using uint_lt2p [of b] by simp
  ultimately show ?thesis by (simp add: pack_u16_def word_uint_eq_iff uint_byte)
qed

lemma unpack_u16_range: "0 \<le> unpack_u16 a b" "unpack_u16 a b < 65536"
  using uint_lt2p [of a] uint_lt2p [of b] by (simp_all add: unpack_u16_def)

lemma pack_unpack_u32: "pack_u32 (unpack_u32 a b c d) = [a, b, c, d]"
proof -
  have "unpack_u32 a b c d mod 65536 = unpack_u16 a b" "unpack_u32 a b c d div 65536 = unpack_u16 c d"
    using unpack_u16_range [of a b] by (simp_all add: unpack_u32_def mod_pos_pos_trivial div_pos_pos_trivial)
  then show ?thesis
    unfolding pack_u32_def using pack_u16_mod [of "unpack_u32 a b c d"] by (simp add: pack_unpack_u16)
qed

lemma unpack_entriesD:
  "unpack_entries bs = Inr es \<Longrightarrow> length bs mod 8 = 0 \<Longrightarrow> concat (map pack_entry es) = bs"
proof (induction bs arbitrary: es rule: unpack_entries.induct)
  case (1 t0 t1 p0 p1 i0 i1 i2 i3 rest)
  obtain es' where es': "unpack_entries rest = Inr es'"
    "es = Entry (unpack_u16 t0 t1) (unpack_u16 p0 p1) (unpack_u32 i0 i1 i2 i3) # es'"
    "\<not> (unpack_u16 t0 t1 \<notin> set acl_tags \<or> unpack_u16 p0 p1 AND NOT acl_rwx \<noteq> 0)"
    using "1.prems"(1) by (auto simp: Let_def simp del: acl_rwx_7 split: if_splits sum.splits)
  have "concat (map pack_entry es') = rest"
    by (rule "1.IH" [OF refl refl es'(3) es'(1)]) (use "1.prems"(2) in simp)
  moreover have "pack_entry (Entry (unpack_u16 t0 t1) (unpack_u16 p0 p1) (unpack_u32 i0 i1 i2 i3)) =
      [t0, t1, p0, p1, i0, i1, i2, i3]"
    by (simp add: pack_entry_def pack_unpack_u16 pack_unpack_u32)
  ultimately show ?case by (simp add: es'(2))
qed auto

lemma pack_u32_version: "pack_u32 2 = [2, 0, 0, 0]"
  by code_simp

lemma length_encoded: "length (concat (map pack_entry es)) = 8 * length es"
  by (induction es) (simp_all add: length_pack_entry)

lemma decode_packed: "decode (pack_u32 2 @ concat (map pack_entry es)) = unpack_entries (concat (map pack_entry es))"
proof -
  have "unpack_u32 2 0 0 0 = 2" by code_simp
  then show ?thesis by (simp add: decode_def pack_u32_version length_encoded Let_def)
qed

lemma decode_Inr:
  assumes "decode bs = Inr es"
  shows "bs = pack_u32 2 @ concat (map pack_entry es)"
proof -
  have l: "4 \<le> length bs" "(length bs - 4) mod 8 = 0" and v: "unpack_u32 (bs ! 0) (bs ! 1) (bs ! 2) (bs ! 3) = 2"
    and u: "unpack_entries (drop 4 bs) = Inr es"
    using assms by (auto simp: decode_def Let_def split: if_splits)
  obtain a b c d rest where bs: "bs = a # b # c # d # rest"
    using l(1) by (auto simp: numeral_eq_Suc Suc_le_length_iff)
  have "pack_u32 2 = [a, b, c, d]" using v pack_unpack_u32 [of a b c d] by (simp add: bs)
  moreover have "concat (map pack_entry es) = rest"
    by (rule unpack_entriesD) (use u l(2) in \<open>simp_all add: bs\<close>)
  ultimately show ?thesis by (simp add: bs)
qed

lemma acl_roundtrip_fwd:
  assumes "encode es = Inr bs"
  shows "decode bs = Inr (sort_key stored_order es)"
proof -
  have v: "valid_acl es" and bs: "bs = pack_u32 2 @ concat (map pack_entry (sort_key stored_order es))"
    using assms by (simp_all add: encode_Inr)
  have "list_all entry_ok (sort_key stored_order es)" using v by (simp add: valid_acl_def list_all_iff)
  then show ?thesis unfolding bs decode_packed by (rule unpack_packed_entries)
qed

text \<open>
  An ACL the encoder accepts is read back as its entries in stored order; and a stored value
  that decodes to a valid ACL in stored order is the one the encoder writes for it, byte for byte.
\<close>

theorem acl_roundtrip:
  "(encode es = Inr bs \<longrightarrow> decode bs = Inr (sort_key stored_order es)) \<and>
   (decode ds = Inr fs \<and> valid_acl fs \<and> sorted (map stored_order fs) \<longrightarrow> encode fs = Inr ds)"
proof (intro conjI impI)
  show "decode bs = Inr (sort_key stored_order es)" if "encode es = Inr bs" using that by (rule acl_roundtrip_fwd)
next
  assume a: "decode ds = Inr fs \<and> valid_acl fs \<and> sorted (map stored_order fs)"
  then show "encode fs = Inr ds" using decode_Inr [of ds fs] by (simp add: encode_Inr sort_key_id_if_sorted)
qed

definition demo_acl :: "entry list" where
  "demo_acl = [Entry acl_other 0 acl_undefined_id, Entry acl_user_obj 7 acl_undefined_id, Entry acl_group_obj 5 acl_undefined_id]"

definition demo_acl_bytes :: "byte list" where
  "demo_acl_bytes =
     [2, 0, 0, 0, 1, 0, 7, 0, 255, 255, 255, 255, 4, 0, 5, 0, 255, 255, 255, 255, 32, 0, 0, 0, 255, 255, 255, 255]"

lemma demo_acl_encodes:
  "encode demo_acl = Inr demo_acl_bytes"
  "decode demo_acl_bytes = Inr (sort_key stored_order demo_acl)"
  "valid_acl (sort_key stored_order demo_acl)" "sorted (map stored_order (sort_key stored_order demo_acl))"
  by code_simp+

theorem acl_roundtrip_witness:
  "decode demo_acl_bytes = Inr (sort_key stored_order demo_acl) \<and>
   encode (sort_key stored_order demo_acl) = Inr demo_acl_bytes"
  using acl_roundtrip [of demo_acl demo_acl_bytes demo_acl_bytes "sort_key stored_order demo_acl"] demo_acl_encodes
  by blast

section \<open>Presets\<close>

definition session_dir_access :: "int \<Rightarrow> bool \<Rightarrow> entry list" where
  "session_dir_access uid write =
     (let perm = if write then acl_rwx else acl_r OR acl_x
      in [Entry acl_user_obj acl_rwx acl_undefined_id, Entry acl_user perm uid,
          Entry acl_group_obj 0 acl_undefined_id, Entry acl_mask perm acl_undefined_id,
          Entry acl_other 0 acl_undefined_id])"

definition session_dir_default :: "int \<Rightarrow> int \<Rightarrow> entry list" where
  "session_dir_default uid app_uid =
     [Entry acl_user_obj acl_rwx acl_undefined_id] @
     map (\<lambda>u. Entry acl_user acl_rwx u) (sort (remdups [uid, app_uid])) @
     [Entry acl_group_obj 0 acl_undefined_id, Entry acl_mask acl_rwx acl_undefined_id,
      Entry acl_other 0 acl_undefined_id]"

definition tree_acl :: "int \<Rightarrow> int \<Rightarrow> int \<Rightarrow> int \<Rightarrow> int \<Rightarrow> int \<Rightarrow> entry list" where
  "tree_acl uid user named grp msk other =
     [Entry acl_user_obj user acl_undefined_id, Entry acl_user named uid, Entry acl_group_obj grp acl_undefined_id,
      Entry acl_mask msk acl_undefined_id, Entry acl_other other acl_undefined_id]"

definition nameable :: "int \<Rightarrow> bool" where
  "nameable uid \<longleftrightarrow> 0 \<le> uid \<and> uid < acl_undefined_id"

lemma acl_rx_5: "acl_r OR acl_x = 5"
  by (simp add: acl_r_def acl_x_def)

lemma session_dir_access_valid: "valid_acl (session_dir_access uid write) \<longleftrightarrow> nameable uid"
  by (auto simp: session_dir_access_def valid_acl_def entry_ok_def stored_order_def has_tag_def nameable_def
      acl_tags_def acl_consts acl_rx_5 Let_def)

lemma session_dir_default_valid: "valid_acl (session_dir_default uid app) \<longleftrightarrow> nameable uid \<and> nameable app"
  by (auto simp: session_dir_default_def valid_acl_def entry_ok_def stored_order_def has_tag_def nameable_def
      acl_tags_def acl_consts)

lemma presets_sorted:
  "sorted (map stored_order (session_dir_access uid write))" "sorted (map stored_order (session_dir_default uid app))"
  by (auto simp: session_dir_access_def session_dir_default_def stored_order_def acl_consts Let_def)

lemma sort_key_mset_eq:
  "mset xs = mset ys \<Longrightarrow> distinct (map f xs) \<Longrightarrow> sort_key f xs = sort_key f ys"
  by (rule sort_key_inj_key_eq) (simp_all add: distinct_map)

text \<open>
  The encoder takes exactly the valid ACLs: known tags, permissions within rwx, ids where
  they belong, no (tag, id) twice, the three base entries, and a mask exactly when an entry is
  named.  What it writes has a fixed size and does not depend on the order the entries are given
  in, and the directory presets are accepted for every uid an entry can name.
\<close>

theorem encode_takes_valid_acls:
  "((\<exists>bs. encode es = Inr bs) \<longleftrightarrow> valid_acl es) \<and>
   (encode es = Inr bs \<and> mset fs = mset es \<longrightarrow> encode fs = Inr bs \<and> length bs = 4 + 8 * length es) \<and>
   (valid_acl (session_dir_access uid write) \<longleftrightarrow> nameable uid) \<and>
   (valid_acl (session_dir_default uid app) \<longleftrightarrow> nameable uid \<and> nameable app)"
proof (intro conjI impI)
  show "(\<exists>bs. encode es = Inr bs) \<longleftrightarrow> valid_acl es" by (simp add: encode_Inr)
  assume a: "encode es = Inr bs \<and> mset fs = mset es"
  then have v: "valid_acl es" and bs: "bs = pack_u32 2 @ concat (map pack_entry (sort_key stored_order es))"
    by (simp_all add: encode_Inr)
  have vf: "valid_acl fs" by (rule valid_acl_mset [OF _ v]) (use a in simp)
  then have d: "distinct (map stored_order fs)" by (simp add: valid_acl_def)
  note vf
  moreover have "sort_key stored_order fs = sort_key stored_order es"
    using a d by (intro sort_key_mset_eq) simp_all
  ultimately show "encode fs = Inr bs" by (simp add: encode_Inr bs)
  show "length bs = 4 + 8 * length es" by (simp add: bs pack_u32_version length_encoded)
qed (rule session_dir_access_valid session_dir_default_valid)+

theorem encode_takes_valid_acls_witness:
  "encode (rev demo_acl) = Inr demo_acl_bytes \<and> length demo_acl_bytes = 28"
proof -
  have "mset (rev demo_acl) = mset demo_acl" by simp
  moreover have "length demo_acl = 3" by (simp add: demo_acl_def)
  ultimately show ?thesis
    using encode_takes_valid_acls [of demo_acl demo_acl_bytes "rev demo_acl"] demo_acl_encodes(1) by simp
qed

section \<open>The kernel\<close>

record fstat =
  st_uid :: int
  st_dev :: int
  st_ino :: int
  st_mode :: int
  st_nlink :: int

text \<open>
  What the code asks of the kernel about an opened object: \<open>fstat\<close>, reading and replacing its
  access (\<open>False\<close>) or default (\<open>True\<close>) ACL xattr; an \<open>OSError\<close> is its \<open>errno\<close>.
\<close>

record 'o kernel =
  k_fstat :: "'o \<Rightarrow> fstat option"
  k_get :: "bool \<Rightarrow> 'o \<Rightarrow> int + byte list"
  k_set :: "bool \<Rightarrow> byte list \<Rightarrow> 'o \<Rightarrow> int + 'o"

definition e_nodata :: int where "e_nodata = 61"
definition unsupported_errnos :: "int list" where "unsupported_errnos = [95]"
definition open_skip_errnos :: "int list" where "open_skip_errnos = [13, 40, 20, 6]"

datatype acl_exn = Value_error acl_error | Acl_unsupported | Not_a_directory | Os_error int

definition os_raise :: "int \<Rightarrow> acl_exn" where
  "os_raise errno = (if errno \<in> set unsupported_errnos then Acl_unsupported else Os_error errno)"

definition get_acl :: "'o kernel \<Rightarrow> bool \<Rightarrow> 'o \<Rightarrow> acl_exn + entry list option" where
  "get_acl k dflt ob =
     (case k_get k dflt ob of
        Inl errno \<Rightarrow> if errno = e_nodata then Inr None else Inl (os_raise errno)
      | Inr data \<Rightarrow> (case decode data of Inl err \<Rightarrow> Inl (Value_error err) | Inr es \<Rightarrow> Inr (Some es)))"

definition set_acl :: "'o kernel \<Rightarrow> bool \<Rightarrow> entry list \<Rightarrow> 'o \<Rightarrow> acl_exn + 'o" where
  "set_acl k dflt es ob =
     (case encode es of
        Inl err \<Rightarrow> Inl (Value_error err)
      | Inr data \<Rightarrow> (case k_set k dflt data ob of Inl errno \<Rightarrow> Inl (os_raise errno) | Inr ob' \<Rightarrow> Inr ob'))"

definition named_users :: "'o kernel \<Rightarrow> 'o \<Rightarrow> acl_exn + int list" where
  "named_users k ob =
     (case get_acl k False ob of
        Inl x \<Rightarrow> Inl x
      | Inr None \<Rightarrow> Inr []
      | Inr (Some es) \<Rightarrow> Inr (sort (remdups (map e_id (filter (\<lambda>e. e_tag e = acl_user) es)))))"

definition supported :: "'o kernel \<Rightarrow> 'o \<Rightarrow> acl_exn + bool" where
  "supported k ob =
     (case k_get k False ob of
        Inl errno \<Rightarrow> if errno = e_nodata then Inr True
                     else if errno \<in> set unsupported_errnos then Inr False else Inl (Os_error errno)
      | Inr data \<Rightarrow> Inr True)"

definition is_dir_mode :: "int \<Rightarrow> bool" where "is_dir_mode m \<longleftrightarrow> drop_bit 12 m AND 15 = 4"
definition is_reg_mode :: "int \<Rightarrow> bool" where "is_reg_mode m \<longleftrightarrow> drop_bit 12 m AND 15 = 8"

definition grant_dir :: "'o kernel \<Rightarrow> int \<Rightarrow> int \<Rightarrow> bool \<Rightarrow> bool \<Rightarrow> 'o \<Rightarrow> acl_exn + 'o" where
  "grant_dir k uid app_uid write dflt ob =
     (case k_fstat k ob of
        None \<Rightarrow> Inl (Os_error 0)
      | Some st \<Rightarrow>
          if \<not> is_dir_mode (st_mode st) then Inl Not_a_directory
          else (case set_acl k False (session_dir_access uid write) ob of
                  Inl x \<Rightarrow> Inl x
                | Inr ob \<Rightarrow> if dflt then set_acl k True (session_dir_default uid app_uid) ob else Inr ob))"

section \<open>Granting one entry of a tree\<close>

datatype grant_kind = Dir_kind | File_kind

definition classify :: "fstat \<Rightarrow> int \<Rightarrow> int \<Rightarrow> grant_kind option" where
  "classify st owner dev =
     (if st_uid st \<noteq> owner then None
      else if is_dir_mode (st_mode st) then (if st_dev st = dev then Some Dir_kind else None)
      else if is_reg_mode (st_mode st) \<and> st_nlink st = 1 then Some File_kind
      else None)"

definition base_perms :: "'o kernel \<Rightarrow> 'o \<Rightarrow> fstat \<Rightarrow> acl_exn + int \<times> int \<times> int" where
  "base_perms k ob st =
     (let m = st_mode st; u = drop_bit 6 m AND acl_rwx; g = drop_bit 3 m AND acl_rwx; oth = m AND acl_rwx
      in case get_acl k False ob of
           Inl x \<Rightarrow> Inl x
         | Inr acl \<Rightarrow>
             Inr (u, fold (\<lambda>e g. if e_tag e = acl_group_obj then g AND e_perm e else g)
                       (case acl of None \<Rightarrow> [] | Some es \<Rightarrow> es) g, oth))"

datatype 'o outcome = Skipped | Failed "'o option" | Granted grant_kind 'o

text \<open>An \<open>OSError\<close> is counted; \<open>AclUnsupported\<close> and a \<open>ValueError\<close> leave the walk.\<close>

definition caught :: "acl_exn \<Rightarrow> 'o \<Rightarrow> acl_exn + 'o outcome" where
  "caught x ob = (case x of Os_error n \<Rightarrow> Inr (Failed (Some ob)) | _ \<Rightarrow> Inl x)"

definition grant_opened :: "'o kernel \<Rightarrow> int \<Rightarrow> entry list \<Rightarrow> int \<Rightarrow> int \<Rightarrow> fstat \<Rightarrow> grant_kind \<Rightarrow> 'o \<Rightarrow>
    acl_exn + 'o outcome" where
  "grant_opened k uid dir_default owner dev st kind ob =
     (case k_fstat k ob of
        None \<Rightarrow> Inr (Failed (Some ob))
      | Some now \<Rightarrow>
          if (st_dev now, st_ino now) \<noteq> (st_dev st, st_ino st) \<or> classify now owner dev \<noteq> Some kind then Inr Skipped
          else
            (case base_perms k ob now of
               Inl x \<Rightarrow> caught x ob
             | Inr (u, g, oth) \<Rightarrow>
                 (case kind of
                    Dir_kind \<Rightarrow>
                      (case set_acl k False (tree_acl uid u acl_rwx g acl_rwx oth) ob of
                         Inl x \<Rightarrow> caught x ob
                       | Inr ob1 \<Rightarrow>
                           (case set_acl k True dir_default ob1 of
                              Inl x \<Rightarrow> caught x ob1
                            | Inr ob2 \<Rightarrow> Inr (Granted Dir_kind ob2)))
                  | File_kind \<Rightarrow>
                      (case set_acl k False (tree_acl uid u u g (u OR g) oth) ob of
                         Inl x \<Rightarrow> caught x ob
                       | Inr ob1 \<Rightarrow> Inr (Granted File_kind ob1)))))"

definition grant_entry :: "'o kernel \<Rightarrow> int \<Rightarrow> entry list \<Rightarrow> int \<Rightarrow> int \<Rightarrow> fstat option \<Rightarrow> int + 'o \<Rightarrow>
    acl_exn + 'o outcome" where
  "grant_entry k uid dir_default owner dev lst opn =
     (case lst of
        None \<Rightarrow> Inr (Failed None)
      | Some st \<Rightarrow>
          (case classify st owner dev of
             None \<Rightarrow> Inr Skipped
           | Some kind \<Rightarrow>
               (case opn of
                  Inl errno \<Rightarrow> Inr (if errno \<in> set open_skip_errnos then Skipped else Failed None)
                | Inr ob \<Rightarrow> grant_opened k uid dir_default owner dev st kind ob)))"

section \<open>A second grant\<close>

definition perm_of :: "int \<Rightarrow> entry list \<Rightarrow> int" where
  "perm_of t es = (case find (\<lambda>e. e_tag e = t) es of Some e \<Rightarrow> e_perm e | None \<Rightarrow> 0)"

definition mode_with :: "int \<Rightarrow> entry list \<Rightarrow> int" where
  "mode_with m es = 512 * (m div 512) + 64 * perm_of acl_user_obj es + 8 * perm_of acl_mask es + perm_of acl_other es"

text \<open>
  The kernel rules the module's docstring states: an access ACL with a mask is stored as it is
  and shows in the mode bits, the mask as the group bits; a default ACL changes neither the mode
  nor the access ACL; setting the value an object already has changes nothing.
\<close>

definition access_acl_law :: "'o kernel \<Rightarrow> bool" where
  "access_acl_law k \<longleftrightarrow>
     (\<forall>ob es bs ob' st. decode bs = Inr es \<longrightarrow> valid_acl es \<longrightarrow> has_tag acl_mask es \<longrightarrow> k_set k False bs ob = Inr ob' \<longrightarrow>
        k_fstat k ob = Some st \<longrightarrow>
        k_get k False ob' = Inr bs \<and> k_fstat k ob' = Some (st\<lparr>st_mode := mode_with (st_mode st) es\<rparr>))"

definition default_acl_law :: "'o kernel \<Rightarrow> bool" where
  "default_acl_law k \<longleftrightarrow>
     (\<forall>ob bs ob'. k_set k True bs ob = Inr ob' \<longrightarrow>
        k_get k True ob' = Inr bs \<and> k_get k False ob' = k_get k False ob \<and> k_fstat k ob' = k_fstat k ob)"

definition same_acl_law :: "'o kernel \<Rightarrow> bool" where
  "same_acl_law k \<longleftrightarrow> (\<forall>d ob bs. k_get k d ob = Inr bs \<longrightarrow> k_set k d bs ob = Inr ob)"

definition acl_kernel :: "'o kernel \<Rightarrow> bool" where
  "acl_kernel k \<longleftrightarrow> access_acl_law k \<and> default_acl_law k \<and> same_acl_law k"

lemma and_rwx: "m AND acl_rwx = m mod 8" for m :: int
  using take_bit_eq_mask [of 3 m] by (simp add: take_bit_eq_mod mask_eq_exp_minus_1)

lemma mode_with_bits:
  assumes "0 \<le> perm_of acl_user_obj es \<and> perm_of acl_user_obj es \<le> 7" "0 \<le> perm_of acl_mask es \<and> perm_of acl_mask es \<le> 7"
    "0 \<le> perm_of acl_other es \<and> perm_of acl_other es \<le> 7"
  shows "drop_bit 6 (mode_with m es) AND acl_rwx = perm_of acl_user_obj es"
    and "drop_bit 3 (mode_with m es) AND acl_rwx = perm_of acl_mask es"
    and "mode_with m es AND acl_rwx = perm_of acl_other es"
    and "drop_bit 12 (mode_with m es) = drop_bit 12 m"
proof -
  let ?u = "perm_of acl_user_obj es" and ?g = "perm_of acl_mask es" and ?o = "perm_of acl_other es"
  have d6: "mode_with m es div 64 = 8 * (m div 512) + ?u"
    by (rule int_div_pos_eq [where r = "8 * ?g + ?o"]) (use assms in \<open>simp_all add: mode_with_def\<close>)
  have d3: "mode_with m es div 8 = 64 * (m div 512) + 8 * ?u + ?g"
    by (rule int_div_pos_eq [where r = ?o]) (use assms in \<open>simp_all add: mode_with_def\<close>)
  have d9: "mode_with m es div 512 = m div 512"
    by (rule int_div_pos_eq [where r = "64 * ?u + 8 * ?g + ?o"]) (use assms in \<open>simp_all add: mode_with_def\<close>)
  show "drop_bit 6 (mode_with m es) AND acl_rwx = ?u"
    unfolding and_rwx drop_bit_eq_div using d6 assms by (simp add: int_mod_pos_eq)
  show "drop_bit 3 (mode_with m es) AND acl_rwx = ?g"
  proof -
    have "(64 * (m div 512) + 8 * ?u + ?g) mod 8 = ?g"
      by (rule int_mod_pos_eq [where q = "8 * (m div 512) + ?u"]) (use assms in simp_all)
    then show ?thesis unfolding and_rwx drop_bit_eq_div using d3 by simp
  qed
  show "mode_with m es AND acl_rwx = ?o"
    unfolding and_rwx
    by (rule int_mod_pos_eq [where q = "64 * (m div 512) + 8 * ?u + ?g"]) (use assms in \<open>simp_all add: mode_with_def\<close>)
  have "mode_with m es div 4096 = (mode_with m es div 512) div 8" by (simp add: zdiv_zmult2_eq [symmetric])
  then show "drop_bit 12 (mode_with m es) = drop_bit 12 m"
    by (simp add: drop_bit_eq_div d9 zdiv_zmult2_eq [symmetric])
qed

definition rwx_range :: "int \<Rightarrow> bool" where "rwx_range p \<longleftrightarrow> 0 \<le> p \<and> p \<le> 7"

lemma base_perms_range:
  assumes "base_perms k ob st = Inr (u, g, oth)"
  shows "rwx_range u" "rwx_range g" "rwx_range oth"
proof -
  have m: "rwx_range (m AND acl_rwx)" for m :: int
    using pos_mod_sign [of 8 m] pos_mod_bound [of 8 m] unfolding and_rwx rwx_range_def by simp
  have f: "rwx_range p \<Longrightarrow> rwx_range (fold (\<lambda>e g. if e_tag e = acl_group_obj then g AND e_perm e else g) es p)" for es p
  proof (induction es arbitrary: p)
    case (Cons e es)
    have "0 \<le> p AND e_perm e" "p AND e_perm e \<le> p" using Cons.prems by (simp_all add: rwx_range_def AND_upper1)
    then show ?case using Cons by (simp add: rwx_range_def)
  qed simp
  show "rwx_range u" "rwx_range g" "rwx_range oth"
    using assms m f by (auto simp: base_perms_def Let_def simp del: acl_rwx_7 split: sum.splits)
qed

lemma set_acl_Inr:
  "set_acl k d es ob = Inr ob' \<longleftrightarrow> (\<exists>bs. encode es = Inr bs \<and> k_set k d bs ob = Inr ob')"
  by (auto simp: set_acl_def split: sum.splits)

lemma acl_kernel_access:
  assumes "acl_kernel k" "encode es = Inr bs" "has_tag acl_mask es" "k_set k False bs ob = Inr ob'" "k_fstat k ob = Some st"
  shows "k_get k False ob' = Inr bs \<and>
    k_fstat k ob' = Some (st\<lparr>st_mode := mode_with (st_mode st) (sort_key stored_order es)\<rparr>)"
proof -
  let ?s = "sort_key stored_order es"
  have "valid_acl es" using assms(2) by (simp add: encode_Inr)
  then have "valid_acl ?s" by (rule valid_acl_mset [rotated]) simp
  moreover have "has_tag acl_mask ?s" using assms(3) by (simp add: has_tag_def)
  ultimately show ?thesis
    using assms(1,4,5) acl_roundtrip_fwd [OF assms(2)] unfolding acl_kernel_def access_acl_law_def by simp
qed

lemma acl_kernel_default:
  "acl_kernel k \<Longrightarrow> k_set k True bs ob = Inr ob' \<Longrightarrow>
     k_get k True ob' = Inr bs \<and> k_get k False ob' = k_get k False ob \<and> k_fstat k ob' = k_fstat k ob"
  unfolding acl_kernel_def default_acl_law_def by blast

lemma acl_kernel_same: "acl_kernel k \<Longrightarrow> k_get k d ob = Inr bs \<Longrightarrow> k_set k d bs ob = Inr ob"
  unfolding acl_kernel_def same_acl_law_def by blast

lemma set_acl_again:
  assumes "acl_kernel k" "set_acl k d es ob = Inr ob'" "k_get k d ob2 = k_get k d ob'"
    and "d \<or> has_tag acl_mask es" "k_fstat k ob = Some st"
  shows "set_acl k d es ob2 = Inr ob2"
proof -
  obtain bs where b: "encode es = Inr bs" "k_set k d bs ob = Inr ob'" using assms(2) by (auto simp: set_acl_Inr)
  have "k_get k d ob' = Inr bs"
  proof (cases d)
    case True
    then show ?thesis using acl_kernel_default [OF assms(1)] b(2) by simp
  next
    case False
    then show ?thesis using acl_kernel_access [OF assms(1) b(1) _ _ assms(5)] b(2) assms(4) by simp
  qed
  then have "k_set k d bs ob2 = Inr ob2" using assms(3) by (intro acl_kernel_same [OF assms(1)]) simp
  then show ?thesis using b(1) by (simp add: set_acl_def)
qed

lemma tree_acl_facts:
  "sorted (map stored_order (tree_acl uid u n g mk oth))" "has_tag acl_mask (tree_acl uid u n g mk oth)"
  "perm_of acl_user_obj (tree_acl uid u n g mk oth) = u" "perm_of acl_mask (tree_acl uid u n g mk oth) = mk"
  "perm_of acl_other (tree_acl uid u n g mk oth) = oth"
  by (simp_all add: tree_acl_def stored_order_def acl_consts has_tag_def perm_of_def)

lemma granted_perms:
  assumes k: "acl_kernel k" and set1: "set_acl k False (tree_acl uid u n g mk oth) ob = Inr ob1"
    and st: "k_fstat k ob = Some now" and r: "rwx_range u" "rwx_range mk" "rwx_range oth" and mk: "mk AND g = g"
    and same: "k_get k False ob2 = k_get k False ob1" "k_fstat k ob2 = k_fstat k ob1"
  shows "\<exists>st1. k_fstat k ob2 = Some st1 \<and> base_perms k ob2 st1 = Inr (u, g, oth) \<and>
    st_dev st1 = st_dev now \<and> st_ino st1 = st_ino now \<and> classify st1 owner dev = classify now owner dev"
proof -
  let ?es = "tree_acl uid u n g mk oth"
  obtain bs where b: "encode ?es = Inr bs" "k_set k False bs ob = Inr ob1" using set1 by (auto simp: set_acl_Inr)
  have one: "k_get k False ob1 = Inr bs" "k_fstat k ob1 = Some (now\<lparr>st_mode := mode_with (st_mode now) ?es\<rparr>)"
    using acl_kernel_access [OF k b(1) tree_acl_facts(2) b(2) st]
    by (simp_all add: sort_key_id_if_sorted [OF tree_acl_facts(1)])
  define st1 where "st1 = now\<lparr>st_mode := mode_with (st_mode now) ?es\<rparr>"
  have bits: "drop_bit 6 (st_mode st1) AND acl_rwx = u" "drop_bit 3 (st_mode st1) AND acl_rwx = mk"
    "st_mode st1 AND acl_rwx = oth" "drop_bit 12 (st_mode st1) = drop_bit 12 (st_mode now)"
    using mode_with_bits [of ?es "st_mode now"] r
    unfolding st1_def tree_acl_facts rwx_range_def by simp_all
  have "decode bs = Inr ?es"
    using b(1) acl_roundtrip_fwd [of ?es bs] tree_acl_facts(1) by (simp add: sort_key_id_if_sorted)
  then have "get_acl k False ob2 = Inr (Some ?es)" by (simp add: get_acl_def same one)
  moreover have "fold (\<lambda>e g. if e_tag e = acl_group_obj then g AND e_perm e else g) ?es mk = mk AND g"
    by (simp add: tree_acl_def acl_consts)
  ultimately have "base_perms k ob2 st1 = Inr (u, g, oth)"
    unfolding base_perms_def Let_def bits by (simp add: mk)
  moreover have "classify st1 owner dev = classify now owner dev"
    unfolding classify_def is_dir_mode_def is_reg_mode_def bits by (simp add: st1_def)
  ultimately show ?thesis using same one(2) by (simp add: st1_def)
qed

lemma rwx_and_or:
  assumes "rwx_range u" "rwx_range g"
  shows "acl_rwx AND g = g" "(u OR g) AND g = g" "rwx_range (u OR g)"
proof -
  have m: "x AND acl_rwx = x" if "rwx_range x" for x
    using that unfolding and_rwx rwx_range_def by simp
  show "acl_rwx AND g = g" using m [OF assms(2)] by (simp only: and.commute)
  show "(u OR g) AND g = g" by (rule bit_eqI) (auto simp: bit_and_iff bit_or_iff)
  have "(u OR g) AND acl_rwx = u OR g" using m [OF assms(1)] m [OF assms(2)] by (metis bit.conj_disj_distrib2)
  then show "rwx_range (u OR g)"
    using pos_mod_sign [of 8 "u OR g"] pos_mod_bound [of 8 "u OR g"] unfolding and_rwx rwx_range_def by simp
qed

text \<open>
  Granting an entry a second time changes nothing: on a kernel that keeps the rules above,
  the object a grant left is granted again as it is, and the permissions of the owner, of the
  owning group and of everyone else are those it had before the first grant.
\<close>

theorem regrant_changes_nothing:
  assumes "acl_kernel k" and "k_fstat k ob = Some now"
    and "grant_opened k uid dflt owner dev st kind ob = Inr (Granted kd ob')"
  shows "\<exists>now'. k_fstat k ob' = Some now' \<and>
    grant_opened k uid dflt owner dev now' kind ob' = Inr (Granted kd ob') \<and>
    base_perms k ob' now' = base_perms k ob now"
proof -
  have cl: "st_dev now = st_dev st" "st_ino now = st_ino st" "classify now owner dev = Some kind"
    using assms by (auto simp: grant_opened_def split: if_splits)
  obtain u g oth where bp: "base_perms k ob now = Inr (u, g, oth)"
    using assms cl by (fastforce simp: grant_opened_def caught_def split: sum.splits acl_exn.splits)
  note r = base_perms_range [OF bp]
  note R = rwx_and_or [OF r(1,2)]
  show ?thesis
  proof (cases kind)
    case Dir_kind
    let ?es = "tree_acl uid u acl_rwx g acl_rwx oth"
    obtain ob1 where s1: "set_acl k False ?es ob = Inr ob1" and s2: "set_acl k True dflt ob1 = Inr ob'" and kd: "kd = Dir_kind"
      using assms(2,3) cl bp Dir_kind
      by (auto simp: grant_opened_def caught_def simp del: acl_rwx_7 split: sum.splits acl_exn.splits)
    obtain bs where "k_set k True bs ob1 = Inr ob'" using s2 by (auto simp: set_acl_Inr)
    from acl_kernel_default [OF assms(1) this]
    have same: "k_get k False ob' = k_get k False ob1" "k_fstat k ob' = k_fstat k ob1" by simp_all
    obtain st1 where st1: "k_fstat k ob' = Some st1" "base_perms k ob' st1 = Inr (u, g, oth)"
      "st_dev st1 = st_dev now" "st_ino st1 = st_ino now" "classify st1 owner dev = classify now owner dev"
      using granted_perms [OF assms(1) s1 assms(2) r(1) _ r(3) R(1) same] by (auto simp: rwx_range_def)
    have "set_acl k False ?es ob' = Inr ob'"
      by (rule set_acl_again [OF assms(1) s1 same(1) _ assms(2)]) (simp add: tree_acl_facts)
    moreover have "k_fstat k ob1 = Some st1" using same(2) st1(1) by simp
    then have "set_acl k True dflt ob' = Inr ob'"
      using set_acl_again [OF assms(1) s2 refl] by simp
    ultimately show ?thesis
      using st1 bp cl Dir_kind kd by (simp add: grant_opened_def del: acl_rwx_7)
  next
    case File_kind
    let ?es = "tree_acl uid u u g (u OR g) oth"
    have s1: "set_acl k False ?es ob = Inr ob'" and kd: "kd = File_kind"
      using assms(2,3) cl bp File_kind
      by (auto simp: grant_opened_def caught_def split: sum.splits acl_exn.splits)
    obtain st1 where st1: "k_fstat k ob' = Some st1" "base_perms k ob' st1 = Inr (u, g, oth)"
      "st_dev st1 = st_dev now" "st_ino st1 = st_ino now" "classify st1 owner dev = classify now owner dev"
      using granted_perms [OF assms(1) s1 assms(2) r(1) R(3) r(3) R(2) refl refl] by auto
    have "set_acl k False ?es ob' = Inr ob'"
      by (rule set_acl_again [OF assms(1) s1 refl _ assms(2)]) (simp add: tree_acl_facts)
    then show ?thesis using st1 bp cl File_kind kd by (simp add: grant_opened_def)
  qed
qed

text \<open>A kernel with these rules: objects with a stored mode and two xattrs.\<close>

record inode =
  i_st :: fstat
  i_access :: "byte list option"
  i_default :: "byte list option"

definition inode_fstat :: "inode \<Rightarrow> fstat" where
  "inode_fstat ob =
     (case i_access ob of
        None \<Rightarrow> i_st ob
      | Some bs \<Rightarrow>
          (case decode bs of
             Inl err \<Rightarrow> i_st ob
           | Inr es \<Rightarrow> if valid_acl es then (i_st ob)\<lparr>st_mode := mode_with (st_mode (i_st ob)) es\<rparr> else i_st ob))"

definition inode_kernel :: "inode kernel" where
  "inode_kernel =
     \<lparr>k_fstat = (\<lambda>ob. Some (inode_fstat ob)),
      k_get = (\<lambda>d ob. case (if d then i_default ob else i_access ob) of None \<Rightarrow> Inl e_nodata | Some bs \<Rightarrow> Inr bs),
      k_set = (\<lambda>d bs ob. Inr (if d then ob\<lparr>i_default := Some bs\<rparr> else ob\<lparr>i_access := Some bs\<rparr>))\<rparr>"

lemma perm_of_range: "list_all entry_ok es \<Longrightarrow> 0 \<le> perm_of t es \<and> perm_of t es \<le> 7"
proof -
  assume ok: "list_all entry_ok es"
  show ?thesis
  proof (cases "find (\<lambda>e. e_tag e = t) es")
    case (Some e)
    then have "e \<in> set es" by (auto simp: find_Some_iff)
    then have "entry_ok e" using ok by (simp add: list_all_iff)
    then show ?thesis using Some by (simp add: perm_of_def entry_ok_def)
  qed (simp add: perm_of_def)
qed

lemma mode_with_again:
  assumes "valid_acl es0"
  shows "mode_with (mode_with m es0) es = mode_with m es"
proof -
  have ok: "list_all entry_ok es0" using assms by (simp add: valid_acl_def)
  have "mode_with m es0 div 512 = m div 512"
    by (rule int_div_pos_eq [where r = "64 * perm_of acl_user_obj es0 + 8 * perm_of acl_mask es0 + perm_of acl_other es0"])
      (use perm_of_range [OF ok, of acl_user_obj] perm_of_range [OF ok, of acl_mask] perm_of_range [OF ok, of acl_other]
       in \<open>simp_all add: mode_with_def\<close>)
  then show ?thesis by (simp add: mode_with_def [of _ es])
qed

lemma inode_fstat_default: "inode_fstat (ob\<lparr>i_default := x\<rparr>) = inode_fstat ob"
  by (simp add: inode_fstat_def split: option.split sum.split)

lemma inode_kernel_laws: "acl_kernel inode_kernel"
proof -
  have "access_acl_law inode_kernel"
    unfolding access_acl_law_def inode_kernel_def
    by (auto simp: inode_fstat_def mode_with_again split: option.splits sum.splits)
  moreover have "default_acl_law inode_kernel"
    unfolding default_acl_law_def inode_kernel_def by (auto simp: inode_fstat_default)
  moreover have "same_acl_law inode_kernel"
    unfolding same_acl_law_def inode_kernel_def by (auto split: option.splits if_splits)
  ultimately show ?thesis by (simp add: acl_kernel_def)
qed

definition demo_file :: inode where
  "demo_file = \<lparr>i_st = \<lparr>st_uid = 1000, st_dev = 3, st_ino = 9, st_mode = 33188, st_nlink = 1\<rparr>,
     i_access = None, i_default = None\<rparr>"

definition demo_granted :: inode where
  "demo_granted = demo_file\<lparr>i_access := Some
     [2, 0, 0, 0, 1, 0, 6, 0, 255, 255, 255, 255, 2, 0, 6, 0, 9, 78, 0, 0, 4, 0, 4, 0, 255, 255, 255, 255,
      16, 0, 6, 0, 255, 255, 255, 255, 32, 0, 4, 0, 255, 255, 255, 255]\<rparr>"

lemma demo_grant:
  "grant_opened inode_kernel 19977 [] 1000 3 (i_st demo_file) File_kind demo_file = Inr (Granted File_kind demo_granted)"
  by code_simp

theorem regrant_changes_nothing_witness:
  "\<exists>now'. k_fstat inode_kernel demo_granted = Some now' \<and>
     grant_opened inode_kernel 19977 [] 1000 3 now' File_kind demo_granted = Inr (Granted File_kind demo_granted) \<and>
     base_perms inode_kernel demo_granted now' = Inr (6, 4, 4)"
proof -
  have "k_fstat inode_kernel demo_file = Some (i_st demo_file)" by code_simp
  from regrant_changes_nothing [OF inode_kernel_laws this demo_grant]
  show ?thesis
    by (simp add: base_perms_def and_rwx drop_bit_eq_div demo_file_def get_acl_def inode_kernel_def del: acl_rwx_7)
qed

section \<open>The walk\<close>

text \<open>
  A directory listing as the walk meets it: per name what \<open>lstat\<close> and \<open>open\<close> answer and, for a
  directory that gets entered, its own listing (\<open>None\<close> when it cannot be listed); \<open>Read_failed\<close>
  is a listing that breaks off.  The stack holds what is left of each listing, innermost first;
  the log records every visit with its outcome.
\<close>

datatype 'o item = Item "fstat option" "int + 'o" "'o item list option" | Read_failed

record grant_stats =
  gs_dirs :: nat
  gs_files :: nat
  gs_skipped :: nat
  gs_errors :: nat
  gs_truncated :: bool

type_synonym 'o visit = "fstat option \<times> (int + 'o) \<times> 'o outcome"

definition max_depth :: nat where "max_depth = 128"

definition new_grant_stats :: grant_stats where
  "new_grant_stats = \<lparr>gs_dirs = 0, gs_files = 0, gs_skipped = 0, gs_errors = 0, gs_truncated = False\<rparr>"

fun count_outcome :: "'o outcome \<Rightarrow> grant_stats \<Rightarrow> grant_stats" where
  "count_outcome Skipped st = st\<lparr>gs_skipped := gs_skipped st + 1\<rparr>"
| "count_outcome (Failed ob) st = st\<lparr>gs_errors := gs_errors st + 1\<rparr>"
| "count_outcome (Granted Dir_kind ob) st = st\<lparr>gs_dirs := gs_dirs st + 1\<rparr>"
| "count_outcome (Granted File_kind ob) st = st\<lparr>gs_files := gs_files st + 1\<rparr>"

fun enters :: "'o outcome \<Rightarrow> bool" where
  "enters (Granted Dir_kind ob) = True"
| "enters _ = False"

function (sequential) walk :: "(fstat option \<Rightarrow> int + 'o \<Rightarrow> acl_exn + 'o outcome) \<Rightarrow> nat \<Rightarrow> nat \<Rightarrow> grant_stats \<Rightarrow>
    'o visit list \<Rightarrow> 'o item list list \<Rightarrow> acl_exn + grant_stats \<times> 'o visit list" where
  "walk G m visited st log [] = Inr (st, log)"
| "walk G m visited st log ([] # stk) = walk G m visited st log stk"
| "walk G m visited st log ((Read_failed # l) # stk) =
     walk G m visited (st\<lparr>gs_errors := gs_errors st + 1\<rparr>) log stk"
| "walk G m visited st log ((Item lst opn kids # l) # stk) =
     (if m \<le> visited then Inr (st\<lparr>gs_truncated := True\<rparr>, log)
      else case G lst opn of
             Inl x \<Rightarrow> Inl x
           | Inr out \<Rightarrow>
               let st = count_outcome out st; log = log @ [(lst, opn, out)]
               in if \<not> enters out then walk G m (visited + 1) st log (l # stk)
                  else if length stk + 1 > max_depth
                  then walk G m (visited + 1) (st\<lparr>gs_truncated := True\<rparr>) log (l # stk)
                  else case kids of
                         None \<Rightarrow> walk G m (visited + 1) (st\<lparr>gs_errors := gs_errors st + 1\<rparr>) log (l # stk)
                       | Some c \<Rightarrow> walk G m (visited + 1) st log (c # l # stk))"
  by pat_completeness auto
termination
  by (relation "measure (\<lambda>(G, m, visited, st, log, stk). sum_list (map (\<lambda>l. Suc (size_list size l)) stk))") auto

definition grant_tree :: "'o kernel \<Rightarrow> int \<Rightarrow> int \<Rightarrow> int \<Rightarrow> nat \<Rightarrow> int + int \<Rightarrow> int + 'o item list \<Rightarrow>
    acl_exn + grant_stats \<times> 'o visit list" where
  "grant_tree k uid app_uid owner max_entries root_dev root =
     (case encode (session_dir_default uid app_uid) of
        Inl err \<Rightarrow> Inl (Value_error err)
      | Inr bs \<Rightarrow>
          (case root_dev of
             Inl errno \<Rightarrow> Inl (Os_error errno)
           | Inr dev \<Rightarrow>
               (case root of
                  Inl errno \<Rightarrow> Inl (Os_error errno)
                | Inr listing \<Rightarrow>
                    walk (grant_entry k uid (session_dir_default uid app_uid) owner dev) max_entries 0
                      new_grant_stats [] [listing])))"

text \<open>Every entry the tree holds, below the directories that were granted, in walk order.\<close>

fun reach :: "(fstat option \<Rightarrow> int + 'o \<Rightarrow> acl_exn + 'o outcome) \<Rightarrow> 'o item list \<Rightarrow> 'o visit list" where
  "reach G [] = []"
| "reach G (Read_failed # l) = []"
| "reach G (Item lst opn kids # l) =
     (case G lst opn of
        Inl x \<Rightarrow> []
      | Inr out \<Rightarrow> (lst, opn, out) # (if enters out then (case kids of None \<Rightarrow> [] | Some c \<Rightarrow> reach G c) else [])) @
     reach G l"

lemma count_outcome_mono:
  "gs_errors st \<le> gs_errors (count_outcome out st)" "gs_truncated (count_outcome out st) = gs_truncated st"
  by (cases "(out, st)" rule: count_outcome.cases; simp)+

lemma walk_mono:
  "walk G m visited st log stk = Inr (st', log') \<Longrightarrow>
     gs_errors st \<le> gs_errors st' \<and> (gs_truncated st \<longrightarrow> gs_truncated st')"
proof (induction G m visited st log stk rule: walk.induct)
  case (4 G m visited st log lst opn kids l stk)
  show ?case
  proof (cases "m \<le> visited")
    case True
    then show ?thesis using "4.prems" by auto
  next
    case False
    then obtain out where o: "G lst opn = Inr out" using "4.prems" by (auto split: sum.splits)
    note IH = "4.IH" [OF False o refl refl]
    show ?thesis using "4.prems" IH count_outcome_mono [where st = st and out = out] False o
      by (auto simp: Let_def split: if_splits option.splits)
  qed
qed auto

lemma walk_complete:
  "walk G m visited st log stk = Inr (st', log') \<Longrightarrow> \<not> gs_truncated st' \<Longrightarrow> gs_errors st' = 0 \<Longrightarrow>
     log' = log @ concat (map (reach G) stk)"
proof (induction G m visited st log stk rule: walk.induct)
  case (3 G m visited st log l stk)
  then show ?case using walk_mono by fastforce
next
  case (4 G m visited st log lst opn kids l stk)
  show ?case
  proof (cases "m \<le> visited")
    case True
    then show ?thesis using "4.prems" by auto
  next
    case False
    then obtain out where o: "G lst opn = Inr out" using "4.prems" by (auto split: sum.splits)
    note IH = "4.IH" [OF False o refl refl]
    show ?thesis
    proof (cases "enters out")
      case True
      have d: "\<not> length stk + 1 > max_depth"
        using "4.prems" False o True walk_mono by (fastforce simp: Let_def)
      obtain c where c: "kids = Some c"
        using "4.prems" False o True d walk_mono by (cases kids) (fastforce simp: Let_def)+
      show ?thesis using IH(4) [OF _ d c] "4.prems" False o True d c by (simp add: Let_def)
    next
      case nope: False
      then show ?thesis using IH(1) "4.prems" False o by (simp add: Let_def)
    qed
  qed
qed auto

lemma walk_safe:
  "walk G m visited st log stk = Inr (st', log') \<Longrightarrow> visited = length log \<Longrightarrow> length log \<le> m \<Longrightarrow>
     (\<forall>(l, p, out) \<in> set log. G l p = Inr out) \<Longrightarrow>
     length log' \<le> m \<and> (\<forall>(l, p, out) \<in> set log'. G l p = Inr out)"
proof (induction G m visited st log stk rule: walk.induct)
  case (4 G m visited st log lst opn kids l stk)
  show ?case
  proof (cases "m \<le> visited")
    case True
    then show ?thesis using "4.prems" by auto
  next
    case False
    then obtain out where o: "G lst opn = Inr out" using "4.prems" by (auto split: sum.splits)
    note IH = "4.IH" [OF False o refl refl]
    have next_ok: "visited + 1 = length (log @ [(lst, opn, out)])" "length (log @ [(lst, opn, out)]) \<le> m"
      "\<forall>(l, p, out) \<in> set (log @ [(lst, opn, out)]). G l p = Inr out"
      using "4.prems" False o by auto
    show ?thesis
    proof (cases "enters out")
      case True
      note T = True
      show ?thesis
      proof (cases "length stk + 1 > max_depth")
        case True
        show ?thesis by (rule IH(2) [OF _ True _ next_ok]) (use T "4.prems"(1) False o True in \<open>simp_all add: Let_def\<close>)
      next
        case d: False
        show ?thesis
        proof (cases kids)
          case None
          show ?thesis
            by (rule IH(3) [OF _ d None _ next_ok]) (use T "4.prems"(1) False o d None in \<open>simp_all add: Let_def\<close>)
        next
          case (Some c)
          show ?thesis
            by (rule IH(4) [OF _ d Some _ next_ok]) (use T "4.prems"(1) False o d Some in \<open>simp_all add: Let_def\<close>)
        qed
      qed
    next
      case nope: False
      show ?thesis by (rule IH(1) [OF nope _ next_ok]) (use "4.prems"(1) False o nope in \<open>simp_all add: Let_def\<close>)
    qed
  qed
qed auto

lemma walk_counts:
  "walk G m visited st log stk = Inr (st', log') \<Longrightarrow> gs_errors st' = 0 \<Longrightarrow>
     (\<forall>(l, p, out) \<in> set log. \<forall>ob. out \<noteq> Failed ob) \<Longrightarrow> (\<forall>(l, p, out) \<in> set log'. \<forall>ob. out \<noteq> Failed ob)"
proof (induction G m visited st log stk rule: walk.induct)
  case (4 G m visited st log lst opn kids l stk)
  show ?case
  proof (cases "m \<le> visited")
    case True
    then show ?thesis using "4.prems" by auto
  next
    case False
    then obtain out where o: "G lst opn = Inr out" using "4.prems" by (auto split: sum.splits)
    note IH = "4.IH" [OF False o refl refl]
    have nf: "\<forall>ob. out \<noteq> Failed ob"
      using "4.prems"(1,2) False o walk_mono by (cases out) (fastforce simp: Let_def)+
    then have next_ok: "\<forall>(l, p, out) \<in> set (log @ [(lst, opn, out)]). \<forall>ob. out \<noteq> Failed ob"
      using "4.prems"(3) by auto
    show ?thesis
      using "4.prems"(1,2) False o IH(1) [OF _ _ _ next_ok] IH(2) [OF _ _ _ _ next_ok] IH(3) [OF _ _ _ _ _ next_ok]
        IH(4) [OF _ _ _ _ _ next_ok]
      by (simp add: Let_def split: if_splits option.splits)
  qed
qed auto

lemma grant_entry_granted:
  assumes "grant_entry k uid dflt owner dev lst opn = Inr (Granted kind ob')"
  shows "\<exists>st ob now. lst = Some st \<and> opn = Inr ob \<and> k_fstat k ob = Some now \<and>
    classify st owner dev = Some kind \<and> classify now owner dev = Some kind \<and>
    st_dev now = st_dev st \<and> st_ino now = st_ino st"
  using assms
  by (auto simp: grant_entry_def grant_opened_def caught_def
      split: option.splits sum.splits if_splits acl_exn.splits grant_kind.splits)

text \<open>
  C34. The tree grant is safe and, when it says so, complete.  It visits at most the given number
  of entries and grants only what, both at the \<open>lstat\<close> and at the open, is one and the same
  directory of the owner on the root's device or singly linked regular file of the owner; and
  when it reports neither an error nor a truncation, its visits are exactly the entries below the
  root, in order, each granted or rightly skipped.
\<close>

theorem grant_tree_safe_and_complete:
  assumes "grant_tree k uid app owner maxn (Inr dev) (Inr listing) = Inr (st, log)"
  shows "length log \<le> maxn \<and>
    (\<forall>(lst, opn, out) \<in> set log. \<forall>kind ob'. out = Granted kind ob' \<longrightarrow>
       (\<exists>s ob now. lst = Some s \<and> opn = Inr ob \<and> k_fstat k ob = Some now \<and>
          classify s owner dev = Some kind \<and> classify now owner dev = Some kind \<and>
          st_dev now = st_dev s \<and> st_ino now = st_ino s)) \<and>
    (\<not> gs_truncated st \<and> gs_errors st = 0 \<longrightarrow>
       log = reach (grant_entry k uid (session_dir_default uid app) owner dev) listing \<and>
       (\<forall>(lst, opn, out) \<in> set log. \<forall>ob. out \<noteq> Failed ob))"
proof -
  let ?G = "grant_entry k uid (session_dir_default uid app) owner dev"
  have w: "walk ?G maxn 0 new_grant_stats [] [listing] = Inr (st, log)"
    using assms by (auto simp: grant_tree_def split: sum.splits)
  have s: "length log \<le> maxn" "\<forall>(l, p, out) \<in> set log. ?G l p = Inr out"
    using walk_safe [OF w] by simp_all
  have g: "\<forall>(lst, opn, out) \<in> set log. \<forall>kind ob'. out = Granted kind ob' \<longrightarrow>
       (\<exists>s ob now. lst = Some s \<and> opn = Inr ob \<and> k_fstat k ob = Some now \<and>
          classify s owner dev = Some kind \<and> classify now owner dev = Some kind \<and>
          st_dev now = st_dev s \<and> st_ino now = st_ino s)"
  proof (clarify)
    fix lst opn kind ob' assume "(lst, opn, Granted kind ob') \<in> set log"
    then have "?G lst opn = Inr (Granted kind ob')" using s(2) by blast
    from grant_entry_granted [OF this]
    show "\<exists>s ob now. lst = Some s \<and> opn = Inr ob \<and> k_fstat k ob = Some now \<and>
          classify s owner dev = Some kind \<and> classify now owner dev = Some kind \<and>
          st_dev now = st_dev s \<and> st_ino now = st_ino s" .
  qed
  show ?thesis using s(1) g walk_complete [OF w] walk_counts [OF w] by simp
qed

definition demo_dir :: inode where
  "demo_dir = \<lparr>i_st = \<lparr>st_uid = 1000, st_dev = 3, st_ino = 8, st_mode = 16877, st_nlink = 2\<rparr>,
     i_access = None, i_default = None\<rparr>"

text \<open>A directory that holds the file, and beside it a file with a second hard link.\<close>

definition demo_listing :: "inode item list" where
  "demo_listing =
     [Item (Some (i_st demo_dir)) (Inr demo_dir) (Some [Item (Some (i_st demo_file)) (Inr demo_file) None]),
      Item (Some ((i_st demo_file)\<lparr>st_nlink := 2\<rparr>)) (Inr demo_file) None]"

definition demo_walk :: "grant_stats \<times> inode visit list" where
  "demo_walk = (case grant_tree inode_kernel 19977 1000 1000 10 (Inr 3) (Inr demo_listing) of Inr r \<Rightarrow> r)"

theorem grant_tree_safe_and_complete_witness:
  "gs_dirs (fst demo_walk) = 1 \<and> gs_files (fst demo_walk) = 1 \<and> gs_skipped (fst demo_walk) = 1 \<and>
   snd demo_walk = reach (grant_entry inode_kernel 19977 (session_dir_default 19977 1000) 1000 3) demo_listing"
proof -
  have w: "grant_tree inode_kernel 19977 1000 1000 10 (Inr 3) (Inr demo_listing) = Inr (fst demo_walk, snd demo_walk)"
    by code_simp
  have n: "\<not> gs_truncated (fst demo_walk)" "gs_errors (fst demo_walk) = 0" "gs_dirs (fst demo_walk) = 1"
    "gs_files (fst demo_walk) = 1" "gs_skipped (fst demo_walk) = 1"
    by code_simp+
  from grant_tree_safe_and_complete [OF w] n show ?thesis by simp
qed

end
