(* ===== verification/GatewayAuth.thy ===== *)
theory GatewayAuth
  imports Json PyText
begin

text \<open>
  Who a caller is: the gateway keys of \<open>src/src/auth.py\<close>, their configuration
  (\<open>parse_user_api_keys\<close> of \<open>src/src/env_utils.py\<close>), the strict-identity switch and the bucket
  \<open>src/src/rate_limiter.py\<close> counts a caller in.  \<open>json.loads\<close> is the argument \<open>loads\<close>, and the
  reading of a request header by the web framework is the argument \<open>hget\<close>.
\<close>

section \<open>Gateway keys\<close>

definition is_ascii :: "string \<Rightarrow> bool" where
  "is_ascii s \<longleftrightarrow> list_all (\<lambda>c. code c < 128) s"

text \<open>\<open>hmac.compare_digest\<close> of two strings raises \<open>TypeError\<close> unless both are ASCII.\<close>

definition compare_digest :: "string \<Rightarrow> string \<Rightarrow> bool option" where
  "compare_digest a b = (if is_ascii a \<and> is_ascii b then Some (a = b) else None)"

record keyring =
  env_api_key :: "string option"
  runtime_api_key :: "string option"
  user_api_keys :: "(string, string) dict"

definition get_api_key :: "keyring \<Rightarrow> string option" where
  "get_api_key k = (if truthy (runtime_api_key k) then runtime_api_key k else env_api_key k)"

definition has_api_auth :: "keyring \<Rightarrow> bool" where
  "has_api_auth k \<longleftrightarrow> truthy (get_api_key k) \<or> user_api_keys k \<noteq> []"

text \<open>The loop over the user keys: the last match wins, a \<open>TypeError\<close> ends it.\<close>

fun match_user :: "string \<Rightarrow> (string, string) dict \<Rightarrow> string option \<Rightarrow> string option option" where
  "match_user given [] matched = Some matched"
| "match_user given ((user, key) # ks) matched =
     (case compare_digest given key of
        None \<Rightarrow> None
      | Some eq \<Rightarrow> match_user given ks (if eq then Some user else matched))"

definition match_legacy :: "string \<Rightarrow> string option \<Rightarrow> bool option" where
  "match_legacy given key =
     (case key of None \<Rightarrow> Some False | Some k \<Rightarrow> if k = [] then Some False else compare_digest given k)"

text \<open>\<open>authenticate_gateway_key\<close>: valid and principal; \<open>None\<close> is the \<open>TypeError\<close>.\<close>

definition authenticate :: "keyring \<Rightarrow> string \<Rightarrow> (bool \<times> string option) option" where
  "authenticate k given =
     (case match_user given (user_api_keys k) None of
        None \<Rightarrow> None
      | Some matched \<Rightarrow>
          (case match_legacy given (get_api_key k) of
             None \<Rightarrow> None
           | Some legacy \<Rightarrow>
               Some (if matched \<noteq> None then (True, matched)
                     else if legacy then (True, None)
                     else (False, None))))"

section \<open>Configuring the keys\<close>

datatype key_config_error =
    Keys_not_json | Keys_not_object | Bad_user_id string | Bad_key string | Shared_key | Config_too_deep

definition is_alnum :: "char \<Rightarrow> bool" where
  "is_alnum c \<longleftrightarrow> is_digit c \<or> 65 \<le> code c \<and> code c \<le> 90 \<or> 97 \<le> code c \<and> code c \<le> 122"

text \<open>\<open>_USER_ID_PATTERN.fullmatch\<close>.\<close>

definition user_id_ok :: "string \<Rightarrow> bool" where
  "user_id_ok u \<longleftrightarrow> u \<noteq> [] \<and> is_alnum (hd u) \<and> length u \<le> 63 \<and>
     list_all (\<lambda>c. is_alnum c \<or> c \<in> {CHR ''.'', CHR ''_'', CHR ''-''}) (tl u)"

fun check_keys ::
  "(string \<times> json) list \<Rightarrow> string set \<Rightarrow> (string, string) dict \<Rightarrow> key_config_error + (string, string) dict" where
  "check_keys [] seen result = Inr result"
| "check_keys ((user, key) # ks) seen result =
     (if \<not> user_id_ok user then Inl (Bad_user_id user)
      else case str_of key of
        None \<Rightarrow> Inl (Bad_key user)
      | Some k \<Rightarrow>
          if k = [] then Inl (Bad_key user)
          else if k \<in> seen then Inl Shared_key
          else check_keys ks (insert k seen) (dput user k result))"

definition parse_user_api_keys ::
  "(string \<Rightarrow> loaded) \<Rightarrow> string option \<Rightarrow> key_config_error + (string, string) dict" where
  "parse_user_api_keys loads raw =
     (let raw = strip_text (case raw of None \<Rightarrow> [] | Some r \<Rightarrow> r)
      in if raw = [] then Inr []
         else case loads raw of
           Not_json \<Rightarrow> Inl Keys_not_json
         | Too_deep \<Rightarrow> Inl Config_too_deep
         | Loaded (J_obj d) \<Rightarrow> check_keys d {} []
         | Loaded _ \<Rightarrow> Inl Keys_not_object)"

section \<open>The strict-identity switch\<close>

definition bool_true :: "string list" where
  "bool_true = [''true'', ''1'', ''yes'', ''on'']"

definition bool_false :: "string list" where
  "bool_false = [''false'', ''0'', ''no'', ''off'']"

definition parse_bool_env :: "string option \<Rightarrow> string \<Rightarrow> bool" where
  "parse_bool_env raw dflt =
     (lower_text (case raw of None \<Rightarrow> dflt | Some r \<Rightarrow> r) \<in> set bool_true)"

definition parse_bool_env_strict :: "string option \<Rightarrow> bool \<Rightarrow> bool option" where
  "parse_bool_env_strict raw dflt =
     (case raw of
        None \<Rightarrow> Some dflt
      | Some r \<Rightarrow>
          (let v = lower_text (strip_text r)
           in if v \<in> set bool_true then Some True
              else if v \<in> set bool_false then Some False else None))"

definition scoped_identity_required :: "string option \<Rightarrow> bool" where
  "scoped_identity_required raw =
     (case parse_bool_env_strict raw False of Some b \<Rightarrow> b | None \<Rightarrow> True)"

section \<open>Checks of a request\<close>

datatype auth_error = Missing_key | Invalid_key | Compare_crash | Scope_required

text \<open>
  \<open>verify_api_key\<close>: \<open>creds\<close> is the bearer credential the framework found, \<open>auth_user\<close> what
  \<open>request.state.auth_user\<close> holds before and after.
\<close>

definition verify_api_key ::
  "keyring \<Rightarrow> string option \<Rightarrow> string option \<Rightarrow> auth_error + string option" where
  "verify_api_key k creds auth_user =
     (if \<not> has_api_auth k then Inr auth_user
      else case creds of
        None \<Rightarrow> Inl Missing_key
      | Some given \<Rightarrow>
          (case authenticate k given of
             None \<Rightarrow> Inl Compare_crash
           | Some (valid, who) \<Rightarrow>
               if \<not> valid then Inl Invalid_key
               else Inr (if who \<noteq> None then who else auth_user)))"

definition get_authenticated_user :: "string option \<Rightarrow> string option" where
  "get_authenticated_user auth_user = (if truthy auth_user then auth_user else None)"

definition enforce_scoped_identity :: "string option \<Rightarrow> string option \<Rightarrow> auth_error option" where
  "enforce_scoped_identity raw auth_user =
     (if \<not> scoped_identity_required raw then None
      else if get_authenticated_user auth_user = None then Some Scope_required
      else None)"

section \<open>The bearer token and the rate-limit bucket\<close>

definition before_space :: "string \<Rightarrow> string" where
  "before_space s = takeWhile (\<lambda>c. c \<noteq> CHR '' '') s"

definition after_space :: "string \<Rightarrow> string option" where
  "after_space s = (case dropWhile (\<lambda>c. c \<noteq> CHR '' '') s of [] \<Rightarrow> None | c # t \<Rightarrow> Some t)"

text \<open>\<open>_bearer_token\<close>, the same in the rate limiter and the request gate.\<close>

definition bearer_token :: "string option \<Rightarrow> string option" where
  "bearer_token value =
     (case value of
        None \<Rightarrow> None
      | Some v \<Rightarrow>
          (case after_space v of
             None \<Rightarrow> None
           | Some token \<Rightarrow>
               if lower_text (before_space v) \<noteq> ''bearer'' \<or> strip_text token = [] then None
               else Some (strip_text token)))"

datatype bucket = Ip_bucket | User_bucket string | Bucket_crash

text \<open>
  \<open>get_user_rate_limit_key\<close>: \<open>by_user\<close> and \<open>user_header\<close> are the environment's
  \<open>RATE_LIMIT_KEY_BY_USER\<close> and the value of the workspace header; \<open>User_bucket u\<close> is the key
  \<open>user:u\<close>, \<open>Ip_bucket\<close> the caller's address.
\<close>

definition user_rate_limit_key ::
  "string option \<Rightarrow> keyring \<Rightarrow> string option \<Rightarrow> string option \<Rightarrow> bucket" where
  "user_rate_limit_key by_user k authorization user_header =
     (if \<not> parse_bool_env by_user ''true'' then Ip_bucket
      else if \<not> has_api_auth k then Ip_bucket
      else case bearer_token authorization of
        None \<Rightarrow> Ip_bucket
      | Some given \<Rightarrow>
          (case authenticate k given of
             None \<Rightarrow> Bucket_crash
           | Some (valid, who) \<Rightarrow>
               if \<not> valid then Ip_bucket
               else if truthy who then User_bucket (the who)
               else (let user = strip_text (case user_header of None \<Rightarrow> [] | Some u \<Rightarrow> u)
                     in if user \<noteq> [] then User_bucket user else Ip_bucket)))"

section \<open>What a credential names\<close>

definition keys_ok :: "(string, string) dict \<Rightarrow> bool" where
  "keys_ok d \<longleftrightarrow> dwf d \<and> distinct (dvals d) \<and> (\<forall>(u, k) \<in> set d. user_id_ok u \<and> k \<noteq> [])"

lemma match_user_spec:
  assumes "match_user given d m = Some r" and "distinct (dvals d)"
  shows "r = (case find (\<lambda>(u, k). k = given) d of Some (u, k) \<Rightarrow> Some u | None \<Rightarrow> m)"
  using assms
proof (induction d arbitrary: m)
  case (Cons e d)
  obtain u k where e: "e = (u, k)" by fastforce
  show ?case
  proof (cases "k = given")
    case True
    then have r: "match_user given d (Some u) = Some r"
      using Cons.prems(1) by (simp add: e compare_digest_def split: if_splits)
    have "find (\<lambda>(u, k). k = given) d = None"
      using Cons.prems(2) True by (auto simp: e find_None_iff image_iff split_beta)
    then show ?thesis using Cons.IH [OF r] Cons.prems(2) True by (simp add: e)
  next
    case False
    then have r: "match_user given d m = Some r"
      using Cons.prems(1) by (simp add: e compare_digest_def split: if_splits)
    show ?thesis using Cons.IH [OF r] Cons.prems(2) False by (simp add: e)
  qed
qed simp

lemma find_SomeD: "find P xs = Some x \<Longrightarrow> x \<in> set xs \<and> P x"
  by (induction xs) (auto split: if_splits)

lemma find_key:
  assumes "keys_ok d"
  shows "(case find (\<lambda>(u, k). k = given) d of Some (u, k) \<Rightarrow> Some u | None \<Rightarrow> None) = Some u \<longleftrightarrow>
    dget d u = Some given"
proof
  assume "(case find (\<lambda>(u, k). k = given) d of Some (u, k) \<Rightarrow> Some u | None \<Rightarrow> None) = Some u"
  then have "(u, given) \<in> set d" by (auto split: option.splits dest!: find_SomeD)
  then show "dget d u = Some given" using assms by (simp add: keys_ok_def dget_Some_iff)
next
  assume "dget d u = Some given"
  then have u: "(u, given) \<in> set d" by (rule dget_SomeD)
  then obtain e where e: "find (\<lambda>(u, k). k = given) d = Some e"
    by (cases "find (\<lambda>(u, k). k = given) d") (auto simp: find_None_iff)
  then have "e \<in> set d" "snd e = given" by (auto dest!: find_SomeD)
  moreover have "inj_on snd (set d)" using assms by (simp add: keys_ok_def distinct_map)
  ultimately have "e = (u, given)" using u by (auto dest: inj_onD [of snd "set d" e "(u, given)"])
  then show "(case find (\<lambda>(u, k). k = given) d of Some (u, k) \<Rightarrow> Some u | None \<Rightarrow> None) = Some u"
    using e by simp
qed

lemma authenticate_spec:
  assumes a: "authenticate k given = Some (valid, who)" and ok: "keys_ok (user_api_keys k)"
  shows "who = Some u \<longleftrightarrow> dget (user_api_keys k) u = Some given"
    and "valid \<longleftrightarrow> who \<noteq> None \<or> (get_api_key k = Some given \<and> given \<noteq> [])"
proof -
  from a obtain m l where m: "match_user given (user_api_keys k) None = Some m"
    and l: "match_legacy given (get_api_key k) = Some l"
    and v: "(valid, who) = (if m \<noteq> None then (True, m) else if l then (True, None) else (False, None))"
    by (auto simp: authenticate_def split: option.splits)
  have pm: "who = m" using v by (auto split: if_splits)
  have "m = (case find (\<lambda>(u, k). k = given) (user_api_keys k) of Some (u, k) \<Rightarrow> Some u | None \<Rightarrow> None)"
    using match_user_spec [OF m] ok by (simp add: keys_ok_def)
  then show "who = Some u \<longleftrightarrow> dget (user_api_keys k) u = Some given"
    using find_key [OF ok, of given u] pm by simp
  have "l \<longleftrightarrow> get_api_key k = Some given \<and> given \<noteq> []"
    using l by (auto simp: match_legacy_def compare_digest_def split: option.splits if_splits)
  then show "valid \<longleftrightarrow> who \<noteq> None \<or> (get_api_key k = Some given \<and> given \<noteq> [])"
    using v pm by (auto split: if_splits)
qed

lemma check_keys_ok:
  "check_keys ks seen d = Inr d' \<Longrightarrow> keys_ok d \<Longrightarrow> set (dvals d) \<subseteq> seen \<Longrightarrow>
     dwf ks \<Longrightarrow> set (dkeys d) \<inter> set (dkeys ks) = {} \<Longrightarrow> keys_ok d'"
proof (induction ks arbitrary: seen d)
  case (Cons e ks)
  obtain u v where e: "e = (u, v)" by fastforce
  from Cons.prems(1) obtain k where u: "user_id_ok u" and k: "k \<noteq> []" "k \<notin> seen"
    and c: "check_keys ks (insert k seen) (dput u k d) = Inr d'"
    by (auto simp: e split: if_splits option.splits)
  have new: "dput u k d = d @ [(u, k)]" using Cons.prems(5) by (intro dput_new) (auto simp: e)
  have "keys_ok (d @ [(u, k)])"
    using Cons.prems(2,3,5) u k by (auto simp: keys_ok_def dwf_def e)
  then show ?case using Cons.prems c unfolding new
    by (intro Cons.IH [OF c [unfolded new]]) (auto simp: e dwf_def)
qed simp

lemma parse_user_api_keys_ok:
  assumes "parse_user_api_keys loads raw = Inr d" and "\<And>s e. loads s = Loaded (J_obj e) \<Longrightarrow> dwf e"
  shows "keys_ok d"
proof (cases "d = []")
  case True
  then show ?thesis by (simp add: keys_ok_def)
next
  case False
  with assms(1) obtain s e where s: "loads s = Loaded (J_obj e)" and c: "check_keys e {} [] = Inr d"
    by (auto simp: parse_user_api_keys_def Let_def split: if_splits loaded.splits json.splits)
  show ?thesis using check_keys_ok [OF c] assms(2) [OF s] by (simp add: keys_ok_def)
qed

subsection \<open>Identity is what a credential proves\<close>

lemma verify_api_keyD:
  assumes "verify_api_key k creds None = Inr a" and "truthy a" and ok: "keys_ok (user_api_keys k)"
  obtains given u where "creds = Some given" and "a = Some u" and "dget (user_api_keys k) u = Some given"
proof -
  have "has_api_auth k" using assms(1,2) by (cases "has_api_auth k") (auto simp: verify_api_key_def)
  then obtain given valid who where c: "creds = Some given" "authenticate k given = Some (valid, who)"
    and a: "a = who"
    using assms(1) by (auto simp: verify_api_key_def split: option.splits if_splits)
  from assms(2) obtain u where u: "a = Some u" by (rule truthyE)
  show ?thesis using that [OF c(1) u] authenticate_spec(1) [OF c(2) ok, of u] a u by simp
qed

text \<open>
  C16. With the strict-identity switch on (or unreadable), a request that passes
  \<open>verify_api_key\<close> and \<open>enforce_scoped_identity\<close> carries a user's own configured key, and the
  identity it is given is that user; no other user has that key.
\<close>

theorem strict_identity_is_proved:
  assumes "\<And>s e. loads s = Loaded (J_obj e) \<Longrightarrow> dwf e"
    and "parse_user_api_keys loads raw = Inr (user_api_keys k)"
    and "parse_bool_env_strict switch False \<noteq> Some False"
    and "verify_api_key k creds None = Inr who"
    and "enforce_scoped_identity switch who = None"
  shows "\<exists>given u. creds = Some given \<and> who = Some u \<and> user_id_ok u \<and>
    {v. dget (user_api_keys k) v = Some given} = {u}"
proof -
  have ok: "keys_ok (user_api_keys k)" using assms(2,1) by (rule parse_user_api_keys_ok)
  have "scoped_identity_required switch"
    using assms(3) by (auto simp: scoped_identity_required_def split: option.splits)
  then have t: "truthy who"
    using assms(5) by (auto simp: enforce_scoped_identity_def get_authenticated_user_def split: if_splits)
  obtain given u where g: "creds = Some given" "who = Some u" "dget (user_api_keys k) u = Some given"
    using verify_api_keyD [OF assms(4) t ok] by blast
  have id: "user_id_ok u" using g(3) ok by (auto simp: keys_ok_def dest!: dget_SomeD)
  have only: "v = u" if "dget (user_api_keys k) v = Some given" for v
  proof -
    have "inj_on snd (set (user_api_keys k))" using ok by (simp add: keys_ok_def distinct_map)
    from inj_onD [OF this, of "(v, given)" "(u, given)"] show ?thesis
      using that g(3) by (auto dest!: dget_SomeD)
  qed
  have "{v. dget (user_api_keys k) v = Some given} = {u}" (is "?S = _")
  proof (rule equalityI; rule subsetI)
    fix v assume "v \<in> ?S"
    then have "v = u" by (intro only) simp
    then show "v \<in> {u}" by simp
  next
    fix v assume "v \<in> {u}"
    then show "v \<in> ?S" using g(3) by simp
  qed
  then show ?thesis using g(1,2) id by (intro exI [of _ given] exI [of _ u] conjI)
qed

definition demo_loads :: "string \<Rightarrow> loaded" where
  "demo_loads s =
     (if s = ''K'' then Loaded (J_obj [(''ann'', J_str ''s1''), (''bob'', J_str ''s2'')]) else Not_json)"

definition demo_keys :: keyring where
  "demo_keys = \<lparr>env_api_key = Some ''svc'', runtime_api_key = None,
     user_api_keys = [(''ann'', ''s1''), (''bob'', ''s2'')]\<rparr>"

lemma demo_loads_dwf: "demo_loads s = Loaded (J_obj e) \<Longrightarrow> dwf e"
  by (auto simp: demo_loads_def dwf_def split: if_splits)

lemma demo_keys_parse: "parse_user_api_keys demo_loads (Some '' K '') = Inr (user_api_keys demo_keys)"
  by code_simp

lemma demo_verify: "verify_api_key demo_keys (Some ''s2'') None = Inr (Some ''bob'')"
  by code_simp

theorem strict_identity_is_proved_witness:
  "\<exists>given u. Some ''s2'' = Some given \<and> Some ''bob'' = Some u \<and> user_id_ok u \<and>
     {v. dget (user_api_keys demo_keys) v = Some given} = {u}"
proof -
  have n: "parse_bool_env_strict (Some ''maybe'') False = None" by code_simp
  have s: "parse_bool_env_strict (Some ''maybe'') False \<noteq> Some False" by (simp add: n)
  have e: "enforce_scoped_identity (Some ''maybe'') (Some ''bob'') = None" by code_simp
  show ?thesis
    using demo_loads_dwf demo_keys_parse s demo_verify e by (rule strict_identity_is_proved)
qed

text \<open>
  A per-user rate-limit bucket is never the caller's to choose without a credential: the
  bucket of \<open>u\<close> is counted for a request with \<open>u\<close>'s own key, or with the service key and the
  workspace header naming \<open>u\<close>.
\<close>

theorem bucket_needs_credential:
  assumes "keys_ok (user_api_keys k)"
    and "user_rate_limit_key by_user k authorization user_header = User_bucket u"
  shows "\<exists>given. bearer_token authorization = Some given \<and>
    (dget (user_api_keys k) u = Some given \<or>
     get_api_key k = Some given \<and> (\<exists>h. user_header = Some h \<and> strip_text h = u))"
proof -
  from assms(2) obtain given valid who where g: "bearer_token authorization = Some given"
    and a: "authenticate k given = Some (valid, who)" and v: "valid"
    and b: "(if truthy who then User_bucket (the who)
             else (let user = strip_text (case user_header of None \<Rightarrow> [] | Some u \<Rightarrow> u)
                   in if user \<noteq> [] then User_bucket user else Ip_bucket)) = User_bucket u"
    by (auto simp: user_rate_limit_key_def split: option.splits if_splits)
  note spec = authenticate_spec [OF a assms(1)]
  show ?thesis
  proof (cases "truthy who")
    case True
    then show ?thesis using b g spec(1) [of u] by (auto elim!: truthyE)
  next
    case False
    have "who = None"
    proof (rule ccontr)
      assume "who \<noteq> None"
      then obtain w where w: "who = Some w" by blast
      then have "user_id_ok w" using spec(1) [of w] assms(1) by (auto simp: keys_ok_def dest!: dget_SomeD)
      then show False using False w by (cases w) (simp_all add: user_id_ok_def)
    qed
    then have "get_api_key k = Some given" using spec(2) v by simp
    moreover have "user_header \<noteq> None"
      using b False by (cases user_header) (simp_all add: Let_def strip_text_def)
    ultimately show ?thesis using b False g by (auto simp: Let_def split: if_splits)
  qed
qed

theorem bucket_needs_credential_witness:
  "\<exists>given. bearer_token (Some ''Bearer svc'') = Some given \<and>
    (dget (user_api_keys demo_keys) ''carl'' = Some given \<or>
     get_api_key demo_keys = Some given \<and> (\<exists>h. Some '' carl'' = Some h \<and> strip_text h = ''carl''))"
proof -
  have "keys_ok (user_api_keys demo_keys)" using demo_keys_parse demo_loads_dwf by (rule parse_user_api_keys_ok)
  moreover have "user_rate_limit_key None demo_keys (Some ''Bearer svc'') (Some '' carl'') = User_bucket ''carl''"
    by code_simp
  ultimately show ?thesis by (rule bucket_needs_credential)
qed

text \<open>
  The comparison refuses text outside ASCII by raising: a bearer token with such a character is
  not answered with \<open>401\<close> as soon as any key is configured.
\<close>

theorem nonascii_token_raises:
  assumes "user_api_keys k \<noteq> []" and "\<not> is_ascii given"
  shows "authenticate k given = None"
proof -
  obtain e d where "user_api_keys k = e # d" using assms(1) by (cases "user_api_keys k") auto
  then show ?thesis using assms(2)
    by (cases e) (simp add: authenticate_def compare_digest_def)
qed

end
