(* ===== verification/QueryText.thy ===== *)
theory QueryText
  imports Prelude
begin

text \<open>
  Text and query strings as Python's standard library has them: a \<open>str\<close> is a list of code
  points, \<open>bytes\<close> a list of numbers below 256.  UTF-8 decoding is strict or replaces each
  maximal ill-formed part, and \<open>urllib.parse\<close>'s \<open>parse_qsl\<close>, \<open>unquote\<close>, \<open>quote_plus\<close> and
  \<open>urlencode\<close> are the ones \<open>src/src/concurrency_middleware.py\<close> rewrites a query with.  The
  lemmas show that what \<open>urlencode\<close> writes, \<open>parse_qsl\<close> reads back.
\<close>

named_theorems utf8_simps \<open>decoding what was encoded\<close>

section \<open>UTF-8\<close>

type_synonym ustr = "nat list"
type_synonym bytes = "nat list"

definition scalar :: "nat \<Rightarrow> bool" where
  "scalar c \<longleftrightarrow> c < 0xD800 \<or> 0xE000 \<le> c \<and> c < 0x110000"

definition enc_char :: "nat \<Rightarrow> bytes" where
  "enc_char c =
     (if c < 0x80 then [c]
      else if c < 0x800 then [0xC0 + c div 64, 0x80 + c mod 64]
      else if c < 0x10000 then [0xE0 + c div 4096, 0x80 + c div 64 mod 64, 0x80 + c mod 64]
      else [0xF0 + c div 262144, 0x80 + c div 4096 mod 64, 0x80 + c div 64 mod 64, 0x80 + c mod 64])"

text \<open>\<open>s.encode("utf-8")\<close> raises on a surrogate.\<close>

definition utf8_encode :: "ustr \<Rightarrow> bytes option" where
  "utf8_encode s = (if list_all scalar s then Some (concat (map enc_char s)) else None)"

definition cont :: "nat \<Rightarrow> bool" where
  "cont b \<longleftrightarrow> 0x80 \<le> b \<and> b < 0xC0"

definition second_ok :: "nat \<Rightarrow> nat \<Rightarrow> bool" where
  "second_ok lead b \<longleftrightarrow> cont b \<and>
     (lead = 0xE0 \<longrightarrow> 0xA0 \<le> b) \<and> (lead = 0xED \<longrightarrow> b < 0xA0) \<and>
     (lead = 0xF0 \<longrightarrow> 0x90 \<le> b) \<and> (lead = 0xF4 \<longrightarrow> b < 0x90)"

text \<open>The first character, or none for a maximal ill-formed part, and the bytes after it.\<close>

fun utf8_head :: "bytes \<Rightarrow> nat option \<times> bytes" where
  "utf8_head [] = (None, [])"
| "utf8_head (b # bs) =
     (if b < 0x80 then (Some b, bs)
      else if 0xC2 \<le> b \<and> b < 0xE0 then
        (case bs of
           b1 # r \<Rightarrow> if cont b1 then (Some ((b - 0xC0) * 64 + (b1 - 0x80)), r) else (None, bs)
         | [] \<Rightarrow> (None, bs))
      else if 0xE0 \<le> b \<and> b < 0xF0 then
        (case bs of
           [] \<Rightarrow> (None, bs)
         | b1 # r1 \<Rightarrow>
             if \<not> second_ok b b1 then (None, bs)
             else (case r1 of
                b2 # r2 \<Rightarrow>
                  if cont b2 then (Some ((b - 0xE0) * 4096 + (b1 - 0x80) * 64 + (b2 - 0x80)), r2)
                  else (None, r1)
              | [] \<Rightarrow> (None, r1)))
      else if 0xF0 \<le> b \<and> b < 0xF5 then
        (case bs of
           [] \<Rightarrow> (None, bs)
         | b1 # r1 \<Rightarrow>
             if \<not> second_ok b b1 then (None, bs)
             else (case r1 of
                [] \<Rightarrow> (None, r1)
              | b2 # r2 \<Rightarrow>
                  if \<not> cont b2 then (None, r1)
                  else (case r2 of
                     b3 # r3 \<Rightarrow>
                       if cont b3
                       then (Some ((b - 0xF0) * 262144 + (b1 - 0x80) * 4096 + (b2 - 0x80) * 64 +
                              (b3 - 0x80)), r3)
                       else (None, r2)
                   | [] \<Rightarrow> (None, r2))))
      else (None, bs))"

lemma utf8_head_shorter: "length (snd (utf8_head (b # bs))) < Suc (length bs)"
  by (auto split: list.splits)

text \<open>\<open>decode("utf-8", errors="replace")\<close> and the strict \<open>decode("utf-8")\<close>.\<close>

function utf8_replace :: "bytes \<Rightarrow> ustr" where
  "utf8_replace [] = []"
| "utf8_replace (b # bs) =
     (case fst (utf8_head (b # bs)) of None \<Rightarrow> 0xFFFD | Some c \<Rightarrow> c) #
     utf8_replace (snd (utf8_head (b # bs)))"
  by pat_completeness auto
termination
  by (relation "measure length") (simp, simp only: in_measure length_Cons utf8_head_shorter)

function utf8_decode :: "bytes \<Rightarrow> ustr option" where
  "utf8_decode [] = Some []"
| "utf8_decode (b # bs) =
     (case fst (utf8_head (b # bs)) of
        None \<Rightarrow> None
      | Some c \<Rightarrow> map_option ((#) c) (utf8_decode (snd (utf8_head (b # bs)))))"
  by pat_completeness auto
termination
  by (relation "measure length") (simp, simp only: in_measure length_Cons utf8_head_shorter)

declare utf8_head.simps(2) [simp del] utf8_replace.simps(2) [simp del] utf8_decode.simps(2) [simp del]

subsection \<open>Decoding what was encoded\<close>

lemma six_bits: "(c :: nat) div 64 * 64 + c mod 64 = c"
  by simp

lemma enc_two:
  assumes "0x80 \<le> c" and "c < 0x800"
  shows "utf8_head (enc_char c @ r) = (Some c, r)"
proof -
  have "2 \<le> c div 64" "c div 64 < 32" using assms by (auto simp: less_eq_div_iff_mult_less_eq div_less_iff_less_mult)
  then show ?thesis using assms by (simp add: enc_char_def utf8_head.simps(2) cont_def)
qed

lemma enc_three:
  assumes "0x800 \<le> c" and "c < 0x10000" and "scalar c"
  shows "utf8_head (enc_char c @ r) = (Some c, r)"
proof -
  let ?a = "c div 4096" and ?b = "c div 64 mod 64"
  have a: "?a < 16" using assms by (auto simp: div_less_iff_less_mult)
  have d: "c div 64 = ?a * 64 + ?b" by (simp add: div_mult2_eq [of c 64 64, simplified])
  have s: "c div 64 * 64 + c mod 64 = c" by simp
  have "32 \<le> c div 64" using assms by (auto simp: less_eq_div_iff_mult_less_eq)
  then have b0: "?a = 0 \<Longrightarrow> 32 \<le> ?b" using d by auto
  have b13: "?b < 32" if "?a = 13"
  proof (rule ccontr)
    assume "\<not> ?b < 32"
    then have "864 \<le> c div 64" "c div 64 < 896" using d that by auto
    then have "0xD800 \<le> c" "c < 0xE000" by (auto simp: less_eq_div_iff_mult_less_eq div_less_iff_less_mult)
    then show False using assms(3) by (simp add: scalar_def)
  qed
  have "second_ok (0xE0 + ?a) (0x80 + ?b)"
    using a b0 b13 by (auto simp: second_ok_def cont_def)
  moreover have "?a * 4096 + ?b * 64 + c mod 64 = c" using d s by algebra
  ultimately show ?thesis using assms a
    by (simp add: enc_char_def utf8_head.simps(2) cont_def)
qed

lemma enc_four:
  assumes "0x10000 \<le> c" and "c < 0x110000"
  shows "utf8_head (enc_char c @ r) = (Some c, r)"
proof -
  let ?a = "c div 262144" and ?b = "c div 4096 mod 64" and ?d = "c div 64 mod 64"
  have a: "?a < 5" using assms by (auto simp: div_less_iff_less_mult)
  have e: "c div 4096 = ?a * 64 + ?b" by (simp add: div_mult2_eq [of c 4096 64, simplified])
  have d: "c div 64 = c div 4096 * 64 + ?d" by (simp add: div_mult2_eq [of c 64 64, simplified])
  have s: "c div 64 * 64 + c mod 64 = c" by simp
  have "16 \<le> c div 4096" "c div 4096 < 272" using assms
    by (auto simp: less_eq_div_iff_mult_less_eq div_less_iff_less_mult)
  then have b0: "?a = 0 \<Longrightarrow> 16 \<le> ?b" and b4: "?a = 4 \<Longrightarrow> ?b < 16" using e by auto
  have "second_ok (0xF0 + ?a) (0x80 + ?b)"
    using a b0 b4 by (auto simp: second_ok_def cont_def)
  moreover have "?a * 262144 + ?b * 4096 + ?d * 64 + c mod 64 = c" using e d s by algebra
  ultimately show ?thesis using assms a
    by (simp add: enc_char_def utf8_head.simps(2) cont_def)
qed

lemma utf8_head_enc [utf8_simps]: "scalar c \<Longrightarrow> utf8_head (enc_char c @ r) = (Some c, r)"
proof -
  assume s: "scalar c"
  consider "c < 0x80" | "0x80 \<le> c \<and> c < 0x800" | "0x800 \<le> c \<and> c < 0x10000" | "0x10000 \<le> c" by linarith
  then show ?thesis
  proof cases
    case 1
    then show ?thesis by (simp add: enc_char_def utf8_head.simps(2))
  next
    case 2
    then show ?thesis by (simp add: enc_two)
  next
    case 3
    then show ?thesis by (simp add: enc_three s)
  next
    case 4
    with s have "c < 0x110000" by (auto simp: scalar_def)
    with 4 show ?thesis by (rule enc_four)
  qed
qed

lemma enc_char_not_Nil [simp]: "enc_char c \<noteq> []"
  by (simp add: enc_char_def)

lemma utf8_replace_head:
  "bs \<noteq> [] \<Longrightarrow> utf8_replace bs =
     (case fst (utf8_head bs) of None \<Rightarrow> 0xFFFD | Some c \<Rightarrow> c) # utf8_replace (snd (utf8_head bs))"
  by (cases bs) (simp_all add: utf8_replace.simps(2))

lemma utf8_replace_enc_char [utf8_simps]:
  "scalar c \<Longrightarrow> utf8_replace (enc_char c @ r) = c # utf8_replace r"
  by (simp add: utf8_replace_head utf8_simps)

lemma utf8_replace_enc [utf8_simps]:
  "list_all scalar s \<Longrightarrow> utf8_replace (concat (map enc_char s)) = s"
  by (induction s) (simp_all add: utf8_simps)

text \<open>A decoder yields scalar values only, whatever the bytes.\<close>

lemma utf8_head_scalar:
  assumes "fst (utf8_head bs) = Some c"
  shows "scalar c"
proof (cases bs)
  case (Cons b r)
  consider "b < 0x80" | "0xC2 \<le> b \<and> b < 0xE0" | "0xE0 \<le> b \<and> b < 0xF0" | "0xF0 \<le> b \<and> b < 0xF5"
    | "0x80 \<le> b \<and> b < 0xC2" | "0xF5 \<le> b" by linarith
  then show ?thesis
  proof cases
    case 1
    then show ?thesis using assms Cons by (simp add: utf8_head.simps(2) scalar_def)
  next
    case 2
    then show ?thesis using assms Cons
      by (auto simp: utf8_head.simps(2) scalar_def cont_def split: list.splits if_splits)
  next
    case 3
    then have "\<not> b < 0x80" "\<not> (0xC2 \<le> b \<and> b < 0xE0)" by auto
    then obtain b1 b2 where s: "second_ok b b1" "cont b2"
      and c: "c = (b - 0xE0) * 4096 + (b1 - 0x80) * 64 + (b2 - 0x80)"
      using assms Cons 3 by (auto simp: utf8_head.simps(2) split: list.splits if_splits)
    consider "b < 0xED" | "b = 0xED" | "0xEE \<le> b" by linarith
    then show ?thesis using s c 3 by cases (auto simp: scalar_def second_ok_def cont_def)
  next
    case 4
    then have "\<not> b < 0x80" "\<not> (0xC2 \<le> b \<and> b < 0xE0)" "\<not> (0xE0 \<le> b \<and> b < 0xF0)" by auto
    then obtain b1 b2 b3 where s: "second_ok b b1" "cont b2" "cont b3"
      and c: "c = (b - 0xF0) * 262144 + (b1 - 0x80) * 4096 + (b2 - 0x80) * 64 + (b3 - 0x80)"
      using assms Cons 4 by (auto simp: utf8_head.simps(2) split: list.splits if_splits)
    consider "b = 0xF0" | "b = 0xF1" | "b = 0xF2" | "b = 0xF3" | "b = 0xF4" using 4 by linarith
    then show ?thesis using s c by cases (auto simp: scalar_def second_ok_def cont_def)
  qed (use assms Cons in \<open>auto simp: utf8_head.simps(2)\<close>)
qed (use assms in simp)

lemma scalar_simps [simp]: "scalar 0xFFFD" "c < 0x80 \<Longrightarrow> scalar c"
  by (simp_all add: scalar_def)

lemma utf8_replace_scalar: "list_all scalar (utf8_replace bs)"
  by (induction bs rule: utf8_replace.induct)
    (auto simp: utf8_replace.simps(2) utf8_head_scalar split: option.splits)

lemma utf8_decode_scalar: "utf8_decode bs = Some s \<Longrightarrow> list_all scalar s"
  by (induction bs arbitrary: s rule: utf8_decode.induct)
    (auto simp: utf8_decode.simps(2) utf8_head_scalar split: option.splits)

section \<open>Percent encoding\<close>

definition hex_val :: "nat \<Rightarrow> nat option" where
  "hex_val c =
     (if 48 \<le> c \<and> c \<le> 57 then Some (c - 48)
      else if 65 \<le> c \<and> c \<le> 70 then Some (c - 55)
      else if 97 \<le> c \<and> c \<le> 102 then Some (c - 87)
      else None)"

definition hex_digit :: "nat \<Rightarrow> nat" where
  "hex_digit n = (if n < 10 then 48 + n else 55 + n)"

text \<open>\<open>unquote_to_bytes\<close> of ASCII text: a percent sign without two hex digits stays.\<close>

fun unquote_to_bytes :: "ustr \<Rightarrow> bytes" where
  "unquote_to_bytes [] = []"
| "unquote_to_bytes [c] = [c]"
| "unquote_to_bytes [c, d] = [c, d]"
| "unquote_to_bytes (c # d # e # s) =
     (if c = 37 then
        (case (hex_val d, hex_val e) of
           (Some h, Some l) \<Rightarrow> (16 * h + l) # unquote_to_bytes s
         | _ \<Rightarrow> c # unquote_to_bytes (d # e # s))
      else c # unquote_to_bytes (d # e # s))"

text \<open>\<open>unquote\<close>: runs of ASCII are unquoted and decoded, the rest stays.\<close>

function unquote_runs :: "ustr \<Rightarrow> ustr" where
  "unquote_runs [] = []"
| "unquote_runs (c # s) =
     (if c < 0x80
      then utf8_replace (unquote_to_bytes (takeWhile (\<lambda>x. x < 0x80) (c # s))) @
           unquote_runs (dropWhile (\<lambda>x. x < 0x80) (c # s))
      else c # unquote_runs s)"
  by pat_completeness auto
termination
  by (relation "measure length") (auto simp: less_Suc_eq_le intro: length_dropWhile_le)

declare unquote_runs.simps(2) [simp del]

definition unquote :: "ustr \<Rightarrow> ustr" where
  "unquote s = (if 37 \<in> set s then unquote_runs s else s)"

definition unreserved :: "nat \<Rightarrow> bool" where
  "unreserved b \<longleftrightarrow>
     48 \<le> b \<and> b \<le> 57 \<or> 65 \<le> b \<and> b \<le> 90 \<or> 97 \<le> b \<and> b \<le> 122 \<or> b \<in> {45, 46, 95, 126}"

definition quote_byte :: "nat \<Rightarrow> nat \<Rightarrow> ustr" where
  "quote_byte safe b =
     (if unreserved b \<or> b = safe then [b] else [37, hex_digit (b div 16), hex_digit (b mod 16)])"

text \<open>
  \<open>quote_plus\<close>: with spaces in the text they are safe at first and become plus signs at the
  end; without, nothing else is safe, which is the same thing.
\<close>

definition plus_for_space :: "nat \<Rightarrow> nat" where
  "plus_for_space c = (if c = 32 then 43 else c)"

definition quote_plus :: "ustr \<Rightarrow> ustr option" where
  "quote_plus s =
     map_option (\<lambda>bs. map plus_for_space (concat (map (quote_byte 32) bs))) (utf8_encode s)"

definition space_for_plus :: "nat \<Rightarrow> nat" where
  "space_for_plus c = (if c = 43 then 32 else c)"

section \<open>Query strings\<close>

fun split_at :: "nat \<Rightarrow> ustr \<Rightarrow> ustr list" where
  "split_at c [] = [[]]"
| "split_at c (x # xs) =
     (if x = c then [] # split_at c xs
      else case split_at c xs of p # ps \<Rightarrow> (x # p) # ps | [] \<Rightarrow> [[x]])"

text \<open>\<open>parse_qsl(qs, keep_blank_values=True)\<close>; \<open>name_value.split("=", 1)\<close> is \<open>name_of\<close>, \<open>value_of\<close>.\<close>

definition name_of :: "ustr \<Rightarrow> ustr" where
  "name_of nv = takeWhile (\<lambda>c. c \<noteq> 61) nv"

definition value_of :: "ustr \<Rightarrow> ustr" where
  "value_of nv = drop 1 (dropWhile (\<lambda>c. c \<noteq> 61) nv)"

definition field_text :: "ustr \<Rightarrow> ustr" where
  "field_text s = unquote (map space_for_plus s)"

definition parse_qsl :: "ustr \<Rightarrow> (ustr \<times> ustr) list" where
  "parse_qsl qs =
     map (\<lambda>nv. (field_text (name_of nv), field_text (value_of nv)))
       (filter (\<lambda>nv. nv \<noteq> []) (if qs = [] then [] else split_at 38 qs))"

text \<open>\<open>urlencode(pairs)\<close>; \<open>doseq=True\<close> changes nothing for values that are strings.\<close>

fun join_amp :: "ustr list \<Rightarrow> ustr" where
  "join_amp [] = []"
| "join_amp [s] = s"
| "join_amp (s # t # ss) = s @ 38 # join_amp (t # ss)"

definition quote_pair :: "ustr \<times> ustr \<Rightarrow> ustr option" where
  "quote_pair kv =
     (case (quote_plus (fst kv), quote_plus (snd kv)) of
        (Some k, Some v) \<Rightarrow> Some (k @ 61 # v)
      | _ \<Rightarrow> None)"

fun quote_pairs :: "(ustr \<times> ustr) list \<Rightarrow> ustr list option" where
  "quote_pairs [] = Some []"
| "quote_pairs (kv # kvs) =
     (case (quote_pair kv, quote_pairs kvs) of
        (Some s, Some ss) \<Rightarrow> Some (s # ss)
      | _ \<Rightarrow> None)"

definition urlencode :: "(ustr \<times> ustr) list \<Rightarrow> ustr option" where
  "urlencode kvs = map_option join_amp (quote_pairs kvs)"

subsection \<open>Reading back a quoted field\<close>

definition quoted_char :: "nat \<Rightarrow> bool" where
  "quoted_char c \<longleftrightarrow> unreserved c \<or> c = 37 \<or> c = 43"

lemma hex_val_digit [simp]: "n < 16 \<Longrightarrow> hex_val (hex_digit n) = Some n"
  by (auto simp: hex_val_def hex_digit_def)

lemma unreserved_hex: "n < 16 \<Longrightarrow> unreserved (hex_digit n)"
  by (auto simp: unreserved_def hex_digit_def)

lemma quoted_not [simp]:
  "unreserved c \<Longrightarrow> c \<noteq> 37 \<and> c \<noteq> 43 \<and> c \<noteq> 38 \<and> c \<noteq> 61 \<and> c \<noteq> 32 \<and> c < 0x80"
  by (auto simp: unreserved_def)

lemma quote_byte_chars:
  assumes "b < 256" and "c \<in> set (map plus_for_space (quote_byte 32 b))"
  shows "quoted_char c"
proof -
  have "b div 16 < 16" using assms(1) by (simp add: div_less_iff_less_mult)
  then show ?thesis using assms(2) unreserved_hex [of "b div 16"] unreserved_hex [of "b mod 16"]
    by (auto simp: quote_byte_def quoted_char_def plus_for_space_def split: if_splits)
qed

lemma quoted_char_not: "quoted_char c \<Longrightarrow> c \<noteq> 38 \<and> c \<noteq> 61 \<and> c < 0x80"
  by (auto simp: quoted_char_def unreserved_def)

definition spaced :: "nat \<Rightarrow> ustr" where
  "spaced b = map space_for_plus (map plus_for_space (quote_byte 32 b))"

lemma spaced_eq:
  "b < 256 \<Longrightarrow> spaced b = (if unreserved b \<or> b = 32 then [b] else [37, hex_digit (b div 16), hex_digit (b mod 16)])"
proof -
  assume b: "b < 256"
  then have "b div 16 < 16" by (simp add: div_less_iff_less_mult)
  then have h: "unreserved (hex_digit (b div 16))" "unreserved (hex_digit (b mod 16))"
    by (simp_all add: unreserved_hex)
  have id: "space_for_plus (plus_for_space c) = c" if "c \<noteq> 43" for c
    using that by (simp add: space_for_plus_def plus_for_space_def)
  show ?thesis using quoted_not [OF h(1)] quoted_not [OF h(2)] quoted_not [of b]
    by (auto simp: spaced_def quote_byte_def id)
qed

lemma unquote_to_bytes_plain: "c \<noteq> 37 \<Longrightarrow> unquote_to_bytes (c # s) = c # unquote_to_bytes s"
  by (cases s rule: unquote_to_bytes.cases) simp_all

lemma unquote_spaced: "b < 256 \<Longrightarrow> unquote_to_bytes (spaced b @ s) = b # unquote_to_bytes s"
proof -
  assume b: "b < 256"
  then have "b div 16 < 16" by (simp add: div_less_iff_less_mult)
  then show ?thesis using b quoted_not [of b] by (auto simp: spaced_eq unquote_to_bytes_plain)
qed

lemma unquote_all_spaced:
  "list_all (\<lambda>b. b < 256) bs \<Longrightarrow> unquote_to_bytes (concat (map spaced bs)) = bs"
  by (induction bs) (simp_all add: unquote_spaced)

lemma enc_char_bytes: "scalar c \<Longrightarrow> b \<in> set (enc_char c) \<Longrightarrow> b < 256"
proof -
  assume s: "scalar c" and b: "b \<in> set (enc_char c)"
  have "c < 0x110000" using s by (auto simp: scalar_def)
  then have "c div 262144 < 5" by (auto simp: div_less_iff_less_mult)
  moreover have "c < 0x800 \<Longrightarrow> c div 64 < 32" "c < 0x10000 \<Longrightarrow> c div 4096 < 16"
    by (auto simp: div_less_iff_less_mult)
  moreover have "c mod 64 < 64" "c div 64 mod 64 < 64" "c div 4096 mod 64 < 64" by simp_all
  ultimately show ?thesis using b by (auto simp: enc_char_def split: if_splits)
qed

lemma utf8_bytes: "list_all scalar s \<Longrightarrow> list_all (\<lambda>b. b < 256) (concat (map enc_char s))"
  by (induction s) (auto simp: list_all_iff enc_char_bytes)

lemma utf8_replace_ascii: "list_all (\<lambda>b. b < 0x80) bs \<Longrightarrow> utf8_replace bs = bs"
  by (induction bs) (auto simp: utf8_replace.simps(2) utf8_head.simps(2))

lemma spaced_ascii: "b < 256 \<Longrightarrow> c \<in> set (spaced b) \<Longrightarrow> c < 0x80"
proof -
  assume b: "b < 256" and c: "c \<in> set (spaced b)"
  have "b div 16 < 16" using b by (simp add: div_less_iff_less_mult)
  then have "hex_digit (b div 16) < 0x80" "hex_digit (b mod 16) < 0x80"
    using quoted_not unreserved_hex by (blast, simp add: unreserved_hex quoted_not)
  then show ?thesis using b c quoted_not [of b] by (auto simp: spaced_eq split: if_splits)
qed

lemma unquote_runs_ascii:
  assumes "list_all (\<lambda>c. c < 0x80) s"
  shows "unquote_runs s = utf8_replace (unquote_to_bytes s)"
proof (cases s)
  case (Cons c t)
  have "takeWhile (\<lambda>x. x < 0x80) t = t" "dropWhile (\<lambda>x. x < 0x80) t = []"
    using assms Cons by (simp_all add: list_all_iff)
  then show ?thesis using assms Cons
    by (simp add: unquote_runs.simps(2) del: takeWhile_eq_all_conv dropWhile_eq_Nil_conv)
qed simp

lemma unquote_ascii:
  assumes "list_all (\<lambda>c. c < 0x80) s"
  shows "unquote s = utf8_replace (unquote_to_bytes s)"
proof (cases "37 \<in> set s")
  case True
  then show ?thesis using assms by (simp add: unquote_def unquote_runs_ascii)
next
  case False
  then have "unquote_to_bytes s = s" by (induction s) (auto simp: unquote_to_bytes_plain)
  then show ?thesis using assms False by (simp add: unquote_def utf8_replace_ascii)
qed

lemma field_text_quoted:
  assumes "quote_plus s = Some q"
  shows "field_text q = s"
proof -
  let ?bs = "concat (map enc_char s)"
  from assms have s: "list_all scalar s" and q: "q = map plus_for_space (concat (map (quote_byte 32) ?bs))"
    by (auto simp: quote_plus_def utf8_encode_def split: if_splits)
  have b: "list_all (\<lambda>b. b < 256) ?bs" using s by (rule utf8_bytes)
  have m: "map space_for_plus q = concat (map spaced ?bs)"
    by (simp add: q map_concat spaced_def [abs_def] comp_def)
  have "list_all (\<lambda>c. c < 0x80) (concat (map spaced ?bs))"
    using b spaced_ascii by (auto simp: list_all_iff)
  then have "field_text q = utf8_replace (unquote_to_bytes (concat (map spaced ?bs)))"
    by (simp add: field_text_def m unquote_ascii)
  then show ?thesis using s b by (simp add: unquote_all_spaced utf8_simps)
qed

lemma quote_plus_chars:
  assumes "quote_plus s = Some q" and "c \<in> set q"
  shows "c \<noteq> 38" and "c \<noteq> 61" and "c < 0x80"
proof -
  let ?bs = "concat (map enc_char s)"
  from assms(1) have s: "list_all scalar s" and q: "q = map plus_for_space (concat (map (quote_byte 32) ?bs))"
    by (auto simp: quote_plus_def utf8_encode_def split: if_splits)
  have b: "list_all (\<lambda>b. b < 256) ?bs" using s by (rule utf8_bytes)
  from assms(2) obtain b where "b \<in> set ?bs" "c \<in> set (map plus_for_space (quote_byte 32 b))"
    by (auto simp: q)
  then have "quoted_char c" using b quote_byte_chars [of b c] by (auto simp: list_all_iff)
  then show "c \<noteq> 38" "c \<noteq> 61" "c < 0x80" using quoted_char_not by auto
qed

lemmas quote_plus_ascii = quote_plus_chars(3)

lemma quote_plus_total: "list_all scalar s \<Longrightarrow> \<exists>q. quote_plus s = Some q"
  by (simp add: quote_plus_def utf8_encode_def)

subsection \<open>Reading back a query\<close>

lemma split_at_not_Nil [simp]: "split_at c s \<noteq> []"
  by (induction s) (auto split: list.splits)

lemma split_at_free: "c \<notin> set s \<Longrightarrow> split_at c s = [s]"
  by (induction s) auto

lemma split_at_append: "c \<notin> set s \<Longrightarrow> split_at c (s @ c # t) = s # split_at c t"
  by (induction s) auto

lemma split_join: "ss \<noteq> [] \<Longrightarrow> (\<And>s. s \<in> set ss \<Longrightarrow> 38 \<notin> set s) \<Longrightarrow> split_at 38 (join_amp ss) = ss"
  by (induction ss rule: join_amp.induct) (auto simp: split_at_free split_at_append)

lemma quote_pairD:
  assumes "quote_pair kv = Some s"
  obtains k v where "quote_plus (fst kv) = Some k" and "quote_plus (snd kv) = Some v" and "s = k @ 61 # v"
  using assms by (auto simp: quote_pair_def split: option.splits)

lemma quote_pair_free: "quote_pair kv = Some s \<Longrightarrow> 38 \<notin> set s"
  by (erule quote_pairD) (auto dest: quote_plus_chars(1))

lemma quote_pair_fields:
  assumes "quote_pair kv = Some s"
  shows "(field_text (name_of s), field_text (value_of s)) = kv"
proof -
  from assms obtain k v where kv: "quote_plus (fst kv) = Some k" "quote_plus (snd kv) = Some v"
    and s: "s = k @ 61 # v" by (rule quote_pairD)
  have "name_of s = k" "value_of s = v"
    using quote_plus_chars(2) [OF kv(1)] by (auto simp: s name_of_def value_of_def takeWhile_append dropWhile_append)
  then show ?thesis using kv by (cases kv) (simp add: field_text_quoted)
qed

lemma quote_pairs_read:
  "quote_pairs kvs = Some ss \<Longrightarrow>
     map (\<lambda>nv. (field_text (name_of nv), field_text (value_of nv))) ss = kvs \<and>
     (\<forall>s \<in> set ss. 38 \<notin> set s \<and> s \<noteq> [])"
proof (induction kvs arbitrary: ss)
  case (Cons kv kvs)
  from Cons.prems obtain s ss' where s: "quote_pair kv = Some s" and ss': "quote_pairs kvs = Some ss'"
    and ss: "ss = s # ss'" by (auto split: option.splits)
  have "s \<noteq> []" using s by (rule quote_pairD) simp
  then show ?case using Cons.IH [OF ss'] quote_pair_fields [OF s] quote_pair_free [OF s] by (simp add: ss)
qed simp

lemma join_amp_Nil: "(\<And>s. s \<in> set ss \<Longrightarrow> s \<noteq> []) \<Longrightarrow> join_amp ss = [] \<longleftrightarrow> ss = []"
  by (induction ss rule: join_amp.induct) auto

text \<open>\<open>parse_qsl(urlencode(pairs)) == pairs\<close>, and \<open>urlencode\<close> encodes every Unicode text.\<close>

lemma parse_urlencode:
  assumes "urlencode kvs = Some q"
  shows "parse_qsl q = kvs"
proof -
  from assms obtain ss where ss: "quote_pairs kvs = Some ss" and q: "q = join_amp ss"
    by (auto simp: urlencode_def)
  note r = quote_pairs_read [OF ss]
  have ne: "q = [] \<longleftrightarrow> ss = []" unfolding q by (rule join_amp_Nil) (use r in auto)
  have "filter (\<lambda>nv. nv \<noteq> []) (if q = [] then [] else split_at 38 q) = ss"
  proof (cases "ss = []")
    case False
    then have "split_at 38 q = ss" unfolding q by (intro split_join) (use r in auto)
    moreover have "filter (\<lambda>nv. nv \<noteq> []) ss = ss" using r by (auto simp: filter_id_conv)
    ultimately show ?thesis using False ne by simp
  qed (simp add: ne)
  then show ?thesis using r by (simp add: parse_qsl_def)
qed

definition scalar_pair :: "ustr \<times> ustr \<Rightarrow> bool" where
  "scalar_pair kv \<longleftrightarrow> list_all scalar (fst kv) \<and> list_all scalar (snd kv)"

lemma urlencode_total: "list_all scalar_pair kvs \<Longrightarrow> \<exists>q. urlencode kvs = Some q"
proof -
  assume a: "list_all scalar_pair kvs"
  have "\<exists>s. quote_pair kv = Some s" if "scalar_pair kv" for kv
    using that quote_plus_total [of "fst kv"] quote_plus_total [of "snd kv"]
    by (auto simp: quote_pair_def scalar_pair_def)
  with a have "\<exists>ss. quote_pairs kvs = Some ss" by (induction kvs) fastforce+
  then show ?thesis by (auto simp: urlencode_def)
qed

lemma unquote_runs_scalar: "list_all scalar s \<Longrightarrow> list_all scalar (unquote_runs s)"
proof (induction s rule: unquote_runs.induct)
  case (2 c s)
  have "list_all scalar (dropWhile (\<lambda>x. x < 0x80) (c # s))"
    using "2.prems" set_dropWhileD by (fastforce simp: list_all_iff)
  then show ?case using 2 by (cases "c < 0x80") (simp_all add: unquote_runs.simps(2) utf8_replace_scalar)
qed simp

lemma field_text_scalar: "list_all scalar s \<Longrightarrow> list_all scalar (field_text s)"
proof -
  assume "list_all scalar s"
  then have "list_all scalar (map space_for_plus s)"
    by (auto simp: list_all_iff space_for_plus_def)
  then show ?thesis by (simp add: field_text_def unquote_def unquote_runs_scalar)
qed

lemma split_at_parts: "p \<in> set (split_at c s) \<Longrightarrow> x \<in> set p \<Longrightarrow> x \<in> set s"
  by (induction s arbitrary: p) (auto split: list.splits if_splits, blast+)

lemma parse_qsl_scalar:
  assumes "list_all scalar q"
  shows "list_all scalar_pair (parse_qsl q)"
proof -
  have "scalar_pair (field_text (name_of nv), field_text (value_of nv))" if "nv \<in> set (split_at 38 q)" for nv
  proof -
    have nv: "list_all scalar nv" using that assms split_at_parts by (fastforce simp: list_all_iff)
    then have "list_all scalar (name_of nv)" "list_all scalar (value_of nv)"
      by (auto simp: list_all_iff name_of_def value_of_def dest!: set_takeWhileD in_set_dropD set_dropWhileD)
    then show ?thesis by (simp add: scalar_pair_def field_text_scalar)
  qed
  then show ?thesis by (auto simp: parse_qsl_def list_all_iff)
qed

end
