(* ===== verification/RequestGate.thy ===== *)
theory RequestGate
  imports TurnLimiter HandoffRouter GatewayAuth QueryText
begin

text \<open>
  The admission middleware \<open>src/src/concurrency_middleware.py\<close>: the limit on received body bytes,
  the binding of a request to the user its credential names, who a turn is counted for, and the
  life of a turn slot from admission to the end of the response or of the handler that took it.
  The web framework's header lookup, \<open>json.loads\<close> and \<open>json.dumps\<close> are arguments (\<open>gate_env\<close>); the
  limiter is the one of \<open>TurnLimiter\<close>, the receive channel the one of \<open>HandoffRouter\<close>.  Python text
  is a list of code points, \<open>uni s\<close> for a Latin-1 string \<open>s\<close>.
\<close>

section \<open>Requests and their surroundings\<close>

record gate_env =
  ge_hget :: "headers \<Rightarrow> string \<Rightarrow> string option"
  ge_keys :: keyring
  ge_ws_header :: string
  ge_upload_max :: int
  ge_max_size :: int
  ge_loads :: "bytes \<Rightarrow> loaded"
  ge_dumps :: "json \<Rightarrow> ustr"

record gscope =
  sc_type :: string
  sc_method :: string
  sc_path :: string
  sc_headers :: headers
  sc_query :: bytes
  sc_user :: "string option"
  sc_slot :: "nat option"
  sc_transferred :: bool

datatype gate_crash = Compare_type_error | Recursion_error | Encode_error

definition uni :: "string \<Rightarrow> ustr" where
  "uni s = map of_char s"

definition guarded_paths :: "string list" where
  "guarded_paths = [''/v1/responses'', ''/v1/agents/messages'']"

definition body_methods :: "string list" where
  "body_methods = [''POST'', ''PUT'', ''PATCH'', ''DELETE'']"

definition is_guarded :: "gscope \<Rightarrow> bool" where
  "is_guarded sc \<longleftrightarrow> sc_type sc = ''http'' \<and> sc_method sc = ''POST'' \<and> sc_path sc \<in> set guarded_paths"

section \<open>Credentials\<close>

definition scope_token :: "gate_env \<Rightarrow> gscope \<Rightarrow> string option" where
  "scope_token env sc = bearer_token (ge_hget env (sc_headers sc) ''authorization'')"

definition gateway_credential_valid :: "gate_env \<Rightarrow> gscope \<Rightarrow> bool option" where
  "gateway_credential_valid env sc =
     (if \<not> has_api_auth (ge_keys env) then Some False
      else case scope_token env sc of
        None \<Rightarrow> Some False
      | Some token \<Rightarrow> map_option fst (authenticate (ge_keys env) token))"

definition credential_principal :: "gate_env \<Rightarrow> gscope \<Rightarrow> string option option" where
  "credential_principal env sc =
     (case scope_token env sc of
        None \<Rightarrow> Some None
      | Some token \<Rightarrow>
          map_option (\<lambda>(valid, who). if valid then who else None) (authenticate (ge_keys env) token))"

definition request_body_limit :: "gate_env \<Rightarrow> gscope \<Rightarrow> int option" where
  "request_body_limit env sc =
     (if sc_method sc = ''POST'' \<and> sc_path sc = ''/files/upload''
      then map_option (\<lambda>v. if v then ge_upload_max env else ge_max_size env) (gateway_credential_valid env sc)
      else Some (ge_max_size env))"

section \<open>Draining the body\<close>

datatype drained = Whole bytes | Cut bytes | Over | More

fun buffer_limited :: "int \<Rightarrow> bytes \<Rightarrow> recv list \<Rightarrow> drained \<times> recv list" where
  "buffer_limited limit body [] = (More, [])"
| "buffer_limited limit body (Disconnect # ms) = (Cut body, ms)"
| "buffer_limited limit body (Chunk chunk mb # ms) =
     (if int (length body + length chunk) > limit then (Over, ms)
      else if \<not> mb then (Whole (body @ chunk), ms)
      else buffer_limited limit (body @ chunk) ms)"

fun buffer_body :: "bytes \<Rightarrow> recv list \<Rightarrow> drained \<times> recv list" where
  "buffer_body body [] = (More, [])"
| "buffer_body body (Disconnect # ms) = (Cut body, ms)"
| "buffer_body body (Chunk chunk mb # ms) =
     (if \<not> mb then (Whole (body @ chunk), ms) else buffer_body (body @ chunk) ms)"

text \<open>\<open>_replay_message\<close>; \<open>_replay\<close> is \<open>replay\<close>.\<close>

definition replay_message :: "recv \<Rightarrow> recv list \<Rightarrow> recv list" where
  "replay_message m rest = m # rest"

section \<open>Binding a request to the user of its credential\<close>

definition replace_header :: "string \<Rightarrow> string \<Rightarrow> headers \<Rightarrow> headers" where
  "replace_header n v hs = filter (\<lambda>h. lower_text (fst h) \<noteq> lower_text n) hs @ [(lower_text n, v)]"

definition normalize_body_headers :: "bytes \<Rightarrow> headers \<Rightarrow> headers" where
  "normalize_body_headers body hs =
     filter (\<lambda>h. lower_text (fst h) \<notin> {''content-length'', ''transfer-encoding''}) hs @
     [(''content-length'', dec (length body))]"

definition bind_response_body :: "gate_env \<Rightarrow> bytes \<Rightarrow> string \<Rightarrow> gate_crash + bytes" where
  "bind_response_body env body who =
     (case ge_loads env body of
        Not_json \<Rightarrow> Inr body
      | Too_deep \<Rightarrow> Inl Recursion_error
      | Loaded (J_obj d) \<Rightarrow>
          if dget d ''user'' = Some (J_str who) then Inr body
          else (case utf8_encode (ge_dumps env (J_obj (dput ''user'' (J_str who) d))) of
                  None \<Rightarrow> Inl Encode_error
                | Some b \<Rightarrow> Inr b)
      | Loaded _ \<Rightarrow> Inr body)"

definition bind_query_user :: "bytes \<Rightarrow> string \<Rightarrow> gate_crash + bytes" where
  "bind_query_user raw who =
     (case utf8_decode raw of
        None \<Rightarrow> Inr raw
      | Some q \<Rightarrow>
          (case Option.bind (urlencode (filter (\<lambda>kv. fst kv \<noteq> uni ''user'') (parse_qsl q) @ [(uni ''user'', uni who)]))
                  utf8_encode of
             None \<Rightarrow> Inl Encode_error
           | Some b \<Rightarrow> Inr b))"

definition ends_with :: "string \<Rightarrow> string \<Rightarrow> bool" where
  "ends_with p s \<longleftrightarrow> starts_with (rev p) (rev s)"

definition response_route :: "gscope \<Rightarrow> bool" where
  "response_route sc \<longleftrightarrow>
     starts_with ''/v1/responses/'' (sc_path sc) \<and> sc_method sc \<in> {''GET'', ''DELETE'', ''POST''}"

definition events_route :: "gscope \<Rightarrow> bool" where
  "events_route sc \<longleftrightarrow>
     starts_with ''/v1/sessions/'' (sc_path sc) \<and> ends_with ''/pending-events'' (sc_path sc)"

text \<open>One \<open>_bind_query_user\<close> per matching test.\<close>

definition bind_query_when :: "bool \<Rightarrow> string \<Rightarrow> gscope \<Rightarrow> gate_crash + gscope" where
  "bind_query_when c who sc =
     (if c then map_sum id (\<lambda>q. sc\<lparr>sc_query := q\<rparr>) (bind_query_user (sc_query sc) who) else Inr sc)"

definition bind_state_and_header :: "gate_env \<Rightarrow> string \<Rightarrow> gscope \<Rightarrow> gscope" where
  "bind_state_and_header env who sc =
     sc\<lparr>sc_user := Some who, sc_headers := replace_header (ge_ws_header env) who (sc_headers sc)\<rparr>"

definition bind_body_when :: "gate_env \<Rightarrow> gscope \<Rightarrow> string \<Rightarrow> bytes option \<Rightarrow> gate_crash + bytes option" where
  "bind_body_when env sc who body =
     (case body of
        None \<Rightarrow> Inr None
      | Some b \<Rightarrow>
          if sc_path sc = ''/v1/responses'' \<and> sc_method sc = ''POST''
          then map_sum id Some (bind_response_body env b who)
          else Inr (Some b))"

definition bind_principal ::
  "gate_env \<Rightarrow> gscope \<Rightarrow> string \<Rightarrow> bytes option \<Rightarrow> gate_crash + gscope \<times> bytes option" where
  "bind_principal env sc who body =
     (let sc1 = bind_state_and_header env who sc
      in case bind_body_when env sc1 who body of
           Inl e \<Rightarrow> Inl e
         | Inr body' \<Rightarrow>
             (case bind_query_when (response_route sc1) who sc1 of
                Inl e \<Rightarrow> Inl e
              | Inr sc2 \<Rightarrow>
                  (case bind_query_when (events_route sc2) who sc2 of
                     Inl e \<Rightarrow> Inl e
                   | Inr sc3 \<Rightarrow> Inr (sc3, body'))))"

section \<open>Who the turn is counted for\<close>

definition max_peek :: int where "max_peek = 100000"

datatype user_read = User_is "string option" "recv list" | User_crash gate_crash | User_more

definition declared_length :: "gate_env \<Rightarrow> gscope \<Rightarrow> int option" where
  "declared_length env sc =
     (case ge_hget env (sc_headers sc) ''content-length'' of None \<Rightarrow> None | Some v \<Rightarrow> py_int v)"

definition body_user :: "gate_env \<Rightarrow> bytes \<Rightarrow> gate_crash + string option" where
  "body_user env body =
     (if body = [] then Inr None
      else case ge_loads env body of
        Not_json \<Rightarrow> Inr None
      | Too_deep \<Rightarrow> Inl Recursion_error
      | Loaded v \<Rightarrow>
          (if \<not> is_obj v then Inr None
           else case jget v ''user'' of
             Some (J_str u) \<Rightarrow> Inr (if u = [] then None else Some u)
           | _ \<Rightarrow> Inr None))"

definition extract_user :: "gate_env \<Rightarrow> gscope \<Rightarrow> recv list \<Rightarrow> user_read" where
  "extract_user env sc ms =
     (if truthy (sc_user sc) then User_is (sc_user sc) ms
      else case declared_length env sc of
        None \<Rightarrow> User_is None ms
      | Some len \<Rightarrow>
          (if len > max_peek then User_is None ms
           else case buffer_body [] ms of
             (Cut b, rest) \<Rightarrow> User_is None (replay_message Disconnect rest)
           | (Whole b, rest) \<Rightarrow>
               (case body_user env b of
                  Inl e \<Rightarrow> User_crash e
                | Inr u \<Rightarrow> User_is u (replay b rest))
           | _ \<Rightarrow> User_more))"

definition ticket_char :: "char \<Rightarrow> bool" where
  "ticket_char c \<longleftrightarrow> is_alnum c \<or> c \<in> {CHR ''_'', CHR ''-''}"

definition ticket_ok :: "string \<Rightarrow> bool" where
  "ticket_ok v \<longleftrightarrow>
     (let t = (if v \<noteq> [] \<and> last v = newline then butlast v else v)
      in list_all ticket_char t \<and> 16 \<le> length t \<and> length t \<le> 128)"

definition turn_ticket :: "gate_env \<Rightarrow> gscope \<Rightarrow> string option" where
  "turn_ticket env sc =
     (case ge_hget env (sc_headers sc) ''x-turn-ticket'' of
        None \<Rightarrow> None
      | Some v \<Rightarrow> if v \<noteq> [] \<and> ticket_ok v then Some v else None)"

section \<open>A request up to the limiter\<close>

text \<open>
  \<open>__call__\<close> up to the limiter: the app is called without a slot, the body is refused, an
  exception leaves the middleware, the client has sent too little so far, or the request asks
  for a slot: whether the client has left, the user, the ticket and whether its leaving is
  watched while it waits.
\<close>

datatype front =
    Front_pass gscope "recv list"
  | Front_413 int
  | Front_crash gate_crash
  | Front_more
  | Front_admit bool "string option" "string option" bool gscope "recv list"

definition ask_admission :: "gate_env \<Rightarrow> bool \<Rightarrow> bool \<Rightarrow> gscope \<Rightarrow> recv list \<Rightarrow> front" where
  "ask_admission env client_gone has_body sc ms =
     (if \<not> is_guarded sc then Front_pass sc ms
      else case extract_user env sc ms of
        User_is user ms' \<Rightarrow> Front_admit client_gone user (turn_ticket env sc) has_body sc ms'
      | User_crash e \<Rightarrow> Front_crash e
      | User_more \<Rightarrow> Front_more)"

definition declared_too_large :: "gate_env \<Rightarrow> gscope \<Rightarrow> int \<Rightarrow> bool" where
  "declared_too_large env sc limit \<longleftrightarrow>
     (case declared_length env sc of None \<Rightarrow> False | Some n \<Rightarrow> n > limit)"

definition bind_credential ::
  "gate_env \<Rightarrow> gscope \<Rightarrow> bytes option \<Rightarrow> gate_crash + gscope \<times> bytes option" where
  "bind_credential env sc body =
     (case credential_principal env sc of
        None \<Rightarrow> Inl Compare_type_error
      | Some None \<Rightarrow> Inr (sc, body)
      | Some (Some who) \<Rightarrow> bind_principal env sc who body)"

definition with_body :: "gate_env \<Rightarrow> gscope \<Rightarrow> bytes \<Rightarrow> recv list \<Rightarrow> front" where
  "with_body env sc body rest =
     (case bind_credential env sc (Some body) of
        Inl e \<Rightarrow> Front_crash e
      | Inr (sc', b') \<Rightarrow>
          (let b = (case b' of None \<Rightarrow> [] | Some b \<Rightarrow> b);
               sc'' = sc'\<lparr>sc_headers := normalize_body_headers b (sc_headers sc')\<rparr>
           in ask_admission env False True sc'' (replay b rest)))"

definition without_body :: "gate_env \<Rightarrow> gscope \<Rightarrow> recv list \<Rightarrow> front" where
  "without_body env sc ms =
     (case bind_credential env sc None of
        Inl e \<Rightarrow> Front_crash e
      | Inr (sc', _) \<Rightarrow> ask_admission env False False sc' ms)"

definition gate_front :: "gate_env \<Rightarrow> gscope \<Rightarrow> recv list \<Rightarrow> front" where
  "gate_front env sc ms =
     (if sc_type sc \<noteq> ''http'' then Front_pass sc ms
      else case request_body_limit env sc of
        None \<Rightarrow> Front_crash Compare_type_error
      | Some limit \<Rightarrow>
          if declared_too_large env sc limit then Front_413 limit
          else if sc_method sc \<in> set body_methods then
            (case buffer_limited limit [] ms of
               (More, rest) \<Rightarrow> Front_more
             | (Over, rest) \<Rightarrow> Front_413 limit
             | (Cut b, rest) \<Rightarrow> ask_admission env True True sc (replay_message Disconnect rest)
             | (Whole b, rest) \<Rightarrow> with_body env sc b rest)
          else without_body env sc ms)"

section \<open>The slot of a request\<close>

text \<open>Asking the limiter: a client that has left is never queued.\<close>

definition gate_enter ::
  "bool \<Rightarrow> string option \<Rightarrow> string option \<Rightarrow> instant \<Rightarrow> limiter \<Rightarrow> begin_result \<times> limiter" where
  "gate_enter client_gone user ticket now l =
     (if client_gone then
        (case try_acquire user l of
           (Inl r, l') \<Rightarrow> (Refused r, l')
         | (Inr sid, l') \<Rightarrow> (Admitted sid, l'))
      else acquire_begin user ticket now l)"

datatype gate_reply = Reply_503 | No_reply

definition refusal_reply :: "reason \<Rightarrow> gate_reply" where
  "refusal_reply r = (if r = Aborted then No_reply else Reply_503)"

definition publish_slot :: "nat \<Rightarrow> gscope \<Rightarrow> gscope" where
  "publish_slot sid sc = sc\<lparr>sc_slot := Some sid, sc_transferred := False\<rparr>"

definition take_turn_slot :: "gscope \<Rightarrow> nat option \<times> gscope" where
  "take_turn_slot sc =
     (sc_slot sc, if sc_slot sc = None then sc else sc\<lparr>sc_transferred := True\<rparr>)"

text \<open>The \<open>finally\<close> block; \<open>sid\<close> is the slot the call holds in a local variable.\<close>

definition gate_exit :: "nat \<Rightarrow> gscope \<Rightarrow> limiter \<Rightarrow> gscope \<times> limiter" where
  "gate_exit sid sc l =
     (sc\<lparr>sc_slot := None\<rparr>, if sc_transferred sc then l else release_slot sid l)"

text \<open>
  All requests of a process: the limiter, the admitted calls (their slot and scope), and the
  slots handlers have taken over, once per call of \<open>take_turn_slot\<close>.  Handlers release what they
  took from a \<open>finally\<close>.
\<close>

record gate =
  g_lim :: limiter
  g_running :: "(nat \<times> gscope) list"
  g_taken :: "nat list"

definition admit_running :: "nat \<Rightarrow> gscope \<Rightarrow> gate \<Rightarrow> gate" where
  "admit_running sid sc g = g\<lparr>g_running := g_running g @ [(sid, publish_slot sid sc)]\<rparr>"

definition enter_gate ::
  "bool \<Rightarrow> string option \<Rightarrow> string option \<Rightarrow> instant \<Rightarrow> gscope \<Rightarrow> gate \<Rightarrow> gate" where
  "enter_gate client_gone user ticket now sc g =
     (let (r, l) = gate_enter client_gone user ticket now (g_lim g); g = g\<lparr>g_lim := l\<rparr>
      in case r of Admitted sid \<Rightarrow> admit_running sid sc g | _ \<Rightarrow> g)"

definition resume_gate :: "nat \<Rightarrow> wake \<Rightarrow> gscope \<Rightarrow> gate \<Rightarrow> gate" where
  "resume_gate wid wake sc g =
     (let (r, l) = acquire_finish wid wake (g_lim g); g = g\<lparr>g_lim := l\<rparr>
      in case r of Inr sid \<Rightarrow> admit_running sid sc g | Inl _ \<Rightarrow> g)"

definition take_over :: "nat \<Rightarrow> gate \<Rightarrow> gate" where
  "take_over i g =
     (let (sid, sc) = g_running g ! i; (slot, sc') = take_turn_slot sc
      in g\<lparr>g_running := (g_running g)[i := (sid, sc')],
           g_taken := g_taken g @ (case slot of None \<Rightarrow> [] | Some s \<Rightarrow> [s])\<rparr>)"

definition leave_gate :: "nat \<Rightarrow> gate \<Rightarrow> gate" where
  "leave_gate i g =
     (let (sid, sc) = g_running g ! i
      in g\<lparr>g_lim := snd (gate_exit sid sc (g_lim g)),
           g_running := take i (g_running g) @ drop (Suc i) (g_running g)\<rparr>)"

definition handler_release :: "nat \<Rightarrow> gate \<Rightarrow> gate" where
  "handler_release sid g =
     g\<lparr>g_lim := release_slot sid (g_lim g), g_taken := remove1 sid (g_taken g)\<rparr>"

inductive gate_step :: "gate \<Rightarrow> gate \<Rightarrow> bool" where
  gate_enters: "gate_step g (enter_gate client_gone user ticket now sc g)"
| gate_resumes: "wid \<in> set (acquiring (g_lim g)) \<Longrightarrow> gate_step g (resume_gate wid wake sc g)"
| gate_delivers:
    "(wid, sid) \<in> set (deliveries (g_lim g)) \<Longrightarrow> gate_step g (g\<lparr>g_lim := deliver wid sid (g_lim g)\<rparr>)"
| gate_taken: "i < length (g_running g) \<Longrightarrow> gate_step g (take_over i g)"
| gate_leaves: "i < length (g_running g) \<Longrightarrow> gate_step g (leave_gate i g)"
| gate_handler_ends: "sid \<in> set (g_taken g) \<Longrightarrow> gate_step g (handler_release sid g)"
| gate_configures: "gate_step g (g\<lparr>g_lim := configure tot per_user timeout qmax (g_lim g)\<rparr>)"

inductive gate_start :: "gate \<Rightarrow> bool" where
  "fresh_limiter l \<Longrightarrow> gate_start \<lparr>g_lim = l, g_running = [], g_taken = []\<rparr>"

inductive_cases gate_stepE: "gate_step g g'"

section \<open>The rejection log\<close>

text \<open>The clock read before the lock, the time of the last warning and the suppressed count.\<close>

record throttle =
  last_warned :: "instant option"
  suppressed :: nat

definition log_window :: instant where "log_window = seconds 10"

definition fresh_throttle :: throttle where
  "fresh_throttle = \<lparr>last_warned = None, suppressed = 0\<rparr>"

text \<open>\<open>_log_rejection\<close>: the count named in a warning, none when it stays silent.\<close>

definition log_rejection :: "instant \<Rightarrow> throttle \<Rightarrow> nat option \<times> throttle" where
  "log_rejection now t =
     (let s = suppressed t + 1
      in if (case last_warned t of None \<Rightarrow> False | Some w \<Rightarrow> now - w < log_window)
         then (None, t\<lparr>suppressed := s\<rparr>)
         else (Some (s - 1), \<lparr>last_warned = Some now, suppressed = 0\<rparr>))"

fun log_rejections :: "instant list \<Rightarrow> throttle \<Rightarrow> (instant \<times> nat) list \<times> throttle" where
  "log_rejections [] t = ([], t)"
| "log_rejections (now # nows) t =
     (let (w, t1) = log_rejection now t; (ws, t2) = log_rejections nows t1
      in ((case w of None \<Rightarrow> [] | Some n \<Rightarrow> [(now, n)]) @ ws, t2))"

section \<open>Warnings account for every rejection\<close>

fun spaced_after :: "instant option \<Rightarrow> instant list \<Rightarrow> bool" where
  "spaced_after w [] = True"
| "spaced_after w (x # xs) = ((case w of None \<Rightarrow> True | Some v \<Rightarrow> log_window \<le> x - v) \<and> spaced_after (Some x) xs)"

lemma log_rejections_spec:
  "log_rejections nows t = (ws, t') \<Longrightarrow>
     suppressed t + length nows = sum_list (map (\<lambda>w. Suc (snd w)) ws) + suppressed t' \<and>
     spaced_after (last_warned t) (map fst ws)"
proof (induction nows arbitrary: t ws)
  case (Cons now nows)
  obtain w t1 where w: "log_rejection now t = (w, t1)" by fastforce
  obtain ws1 where ws1: "log_rejections nows t1 = (ws1, t')" and ws: "ws = (case w of None \<Rightarrow> [] | Some n \<Rightarrow> [(now, n)]) @ ws1"
    using Cons.prems w by (auto split: prod.splits)
  note IH = Cons.IH [OF ws1]
  show ?case
  proof (cases "case last_warned t of None \<Rightarrow> False | Some w \<Rightarrow> now - w < log_window")
    case True
    then have "w = None" "t1 = t\<lparr>suppressed := suppressed t + 1\<rparr>" using w by (simp_all add: log_rejection_def Let_def)
    then show ?thesis using IH ws by simp
  next
    case False
    then have "w = Some (suppressed t)" "t1 = \<lparr>last_warned = Some now, suppressed = 0\<rparr>"
      using w by (simp_all add: log_rejection_def Let_def)
    then show ?thesis using IH ws False by (auto split: option.splits)
  qed
qed simp

lemma spaced_successively:
  "spaced_after w xs \<Longrightarrow> successively (\<lambda>a b. log_window \<le> b - a) xs"
proof (induction xs arbitrary: w rule: induct_list012)
  case (3 x y zs)
  then show ?case using "3.IH"(2) [of None] by simp
qed simp_all

text \<open>
  However the clock readings of concurrent rejections are ordered when they reach the lock,
  each rejection is a warning or is counted as suppressed by exactly one later warning (or still
  waits to be), and consecutive warnings are at least the window apart.
\<close>

theorem rejections_all_accounted:
  assumes "log_rejections nows fresh_throttle = (ws, t)"
  shows "length nows = sum_list (map (\<lambda>w. Suc (snd w)) ws) + suppressed t \<and>
    successively (\<lambda>a b. log_window \<le> b - a) (map fst ws)"
  using log_rejections_spec [OF assms] spaced_successively [of None] by (simp add: fresh_throttle_def)

theorem rejections_all_accounted_witness:
  "length [0, seconds 4, seconds 3, seconds 12] =
     sum_list (map (\<lambda>w. Suc (snd w)) [(0, 0), (seconds 12, 2)]) + 0"
proof -
  have "log_rejections [0, seconds 4, seconds 3, seconds 12] fresh_throttle =
    ([(0, 0), (seconds 12, 2)], \<lparr>last_warned = Some (seconds 12), suppressed = 0\<rparr>)" by code_simp
  from rejections_all_accounted [OF this] show ?thesis by simp
qed

section \<open>Received bytes are counted\<close>

lemma buffer_limited_whole:
  "body_seen ms = Some b \<Longrightarrow> int (length acc + length b) \<le> limit \<Longrightarrow>
     \<exists>rest. buffer_limited limit acc ms = (Whole (acc @ b), rest)"
proof (induction ms arbitrary: acc b)
  case (Cons m ms)
  show ?case
  proof (cases m)
    case (Chunk c mb)
    show ?thesis
    proof (cases mb)
      case True
      then obtain b' where b': "body_seen ms = Some b'" "b = c @ b'" using Cons.prems(1) Chunk by auto
      from Cons.IH [OF b'(1), of "acc @ c"] show ?thesis using Cons.prems(2) b' True Chunk by auto
    next
      case False
      then show ?thesis using Cons.prems Chunk by simp
    qed
  qed (use Cons.prems in simp)
qed simp

lemma buffer_limited_over:
  "body_seen ms = Some b \<Longrightarrow> limit < int (length acc + length b) \<Longrightarrow>
     \<exists>rest. buffer_limited limit acc ms = (Over, rest)"
proof (induction ms arbitrary: acc b)
  case (Cons m ms)
  show ?case
  proof (cases m)
    case (Chunk c mb)
    show ?thesis
    proof (cases mb)
      case True
      then obtain b' where b': "body_seen ms = Some b'" "b = c @ b'" using Cons.prems(1) Chunk by auto
      from Cons.IH [OF b'(1), of "acc @ c"] show ?thesis using Cons.prems(2) b' True Chunk by auto
    next
      case False
      then show ?thesis using Cons.prems Chunk by simp
    qed
  qed (use Cons.prems in simp)
qed simp

text \<open>What the app, or the handler behind the limiter, is called with.\<close>

fun handed :: "front \<Rightarrow> (gscope \<times> recv list) option" where
  "handed (Front_pass sc ms) = Some (sc, ms)"
| "handed (Front_admit gone user ticket watch sc ms) = Some (sc, ms)"
| "handed _ = None"

lemma extract_user_replay:
  assumes "extract_user env sc (replay b rest) = User_is user ms'"
  shows "ms' = replay b rest"
  using assms
  by (auto simp: extract_user_def replay_def split: if_splits option.splits sum.splits)

lemma ask_admission_replay:
  assumes "handed (ask_admission env gone has_body sc (replay b rest)) = Some (sc', ms')"
  shows "sc' = sc" and "ms' = replay b rest"
  using assms extract_user_replay [of env sc b rest]
  by (auto simp: ask_admission_def split: if_splits user_read.splits)


text \<open>A gateway with a service key and two user keys.\<close>

definition demo_loads_body :: "bytes \<Rightarrow> loaded" where
  "demo_loads_body b = (if b = [123, 125] then Loaded (J_obj []) else
     if b = [1, 2, 3] then Loaded (J_obj [(''user'', J_str ''bob'')]) else Not_json)"

definition demo_dumps_body :: "json \<Rightarrow> ustr" where
  "demo_dumps_body j = (if j = J_obj [(''user'', J_str ''bob'')] then [1, 2, 3] else [0xD800])"

definition demo_env :: gate_env where
  "demo_env =
     \<lparr>ge_hget = (\<lambda>hs n. map_of hs n), ge_keys = demo_keys, ge_ws_header = ''X-User-Email'',
      ge_upload_max = 1000, ge_max_size = 5, ge_loads = demo_loads_body, ge_dumps = demo_dumps_body\<rparr>"

definition demo_scope :: "string \<Rightarrow> string \<Rightarrow> headers \<Rightarrow> bytes \<Rightarrow> gscope" where
  "demo_scope meth path hs q =
     \<lparr>sc_type = ''http'', sc_method = meth, sc_path = path, sc_headers = hs, sc_query = q,
      sc_user = None, sc_slot = None, sc_transferred = False\<rparr>"


section \<open>The user a credential names is the user the app sees\<close>

lemma scalar_uni: "list_all scalar (uni s)"
proof -
  have "scalar (of_char c)" for c :: char
  proof -
    have "code c < 0xD800" by (rule less_trans [OF nat_of_char_less_256]) simp
    then show ?thesis by (simp add: scalar_def)
  qed
  then show ?thesis by (simp add: uni_def list_all_iff)
qed

lemma quote_pair_ascii: "quote_pair kv = Some s \<Longrightarrow> list_all (\<lambda>c. c < 0x80) s"
  by (erule quote_pairD) (auto simp: list_all_iff dest: quote_plus_ascii)

lemma urlencode_ascii: "urlencode kvs = Some q \<Longrightarrow> list_all (\<lambda>c. c < 0x80) q"
proof -
  assume "urlencode kvs = Some q"
  then obtain ss where ss: "quote_pairs kvs = Some ss" and q: "q = join_amp ss" by (auto simp: urlencode_def)
  have "\<forall>s \<in> set ss. list_all (\<lambda>c. c < 0x80) s"
    using ss by (induction kvs arbitrary: ss) (auto split: option.splits dest: quote_pair_ascii)
  then have "list_all (\<lambda>c. c < 0x80) (join_amp ss)" by (induction ss rule: join_amp.induct) auto
  then show ?thesis by (simp add: q)
qed

lemma utf8_encode_ascii: "list_all (\<lambda>c. c < 0x80) s \<Longrightarrow> utf8_encode s = Some s"
proof -
  assume a: "list_all (\<lambda>c. c < 0x80) s"
  then have "concat (map enc_char s) = s" by (induction s) (auto simp: enc_char_def)
  then show ?thesis using a by (auto simp: utf8_encode_def list_all_iff)
qed

text \<open>Binding the query never raises, and what a reader finds in it.\<close>

lemma bind_query_user_total:
  obtains q where "bind_query_user raw who = Inr q"
    and "\<And>s. utf8_decode raw = Some s \<Longrightarrow>
      parse_qsl q = filter (\<lambda>kv. fst kv \<noteq> uni ''user'') (parse_qsl s) @ [(uni ''user'', uni who)]"
proof (cases "utf8_decode raw")
  case None
  then show ?thesis using that by (simp add: bind_query_user_def)
next
  case (Some s)
  let ?kvs = "filter (\<lambda>kv. fst kv \<noteq> uni ''user'') (parse_qsl s) @ [(uni ''user'', uni who)]"
  have "list_all scalar_pair (parse_qsl s)" using utf8_decode_scalar [OF Some] by (rule parse_qsl_scalar)
  then have "list_all scalar_pair ?kvs"
    by (auto simp: list_all_iff scalar_pair_def scalar_uni [unfolded list_all_iff])
  then obtain q where q: "urlencode ?kvs = Some q" using urlencode_total by blast
  have "bind_query_user raw who = Inr q"
    using utf8_encode_ascii [OF urlencode_ascii [OF q]] q Some by (simp add: bind_query_user_def)
  then show ?thesis using that parse_urlencode [OF q] Some by simp
qed

definition user_params :: "gscope \<Rightarrow> ustr list" where
  "user_params sc = map snd (filter (\<lambda>kv. fst kv = uni ''user'') (parse_qsl (sc_query sc)))"

definition header_values :: "string \<Rightarrow> gscope \<Rightarrow> string list" where
  "header_values n sc = map snd (filter (\<lambda>h. lower_text (fst h) = lower_text n) (sc_headers sc))"

text \<open>
  Every place a handler can read the caller's identity from says \<open>who\<close>: the request state, the
  workspace header, the query of the routes that look there and the user of a decoded body.
\<close>

definition speaks_for :: "string \<Rightarrow> gate_env \<Rightarrow> gscope \<Rightarrow> recv list \<Rightarrow> bool" where
  "speaks_for who env sc ms \<longleftrightarrow>
     sc_user sc = Some who \<and>
     header_values (ge_ws_header env) sc = [who] \<and>
     (response_route sc \<or> events_route sc \<longrightarrow> user_params sc = [uni who]) \<and>
     (sc_path sc = ''/v1/responses'' \<and> sc_method sc = ''POST'' \<longrightarrow>
        (\<exists>b. body_seen ms = Some b \<and>
           (\<forall>d. ge_loads env b = Loaded (J_obj d) \<longrightarrow> dget d ''user'' = Some (J_str who))))"

text \<open>\<open>json.loads(json.dumps(d))\<close> gives back a decoded object with one string value set.\<close>

definition json_law :: "gate_env \<Rightarrow> bool" where
  "json_law env \<longleftrightarrow>
     (\<forall>b d u b'. ge_loads env b = Loaded (J_obj d) \<longrightarrow>
        utf8_encode (ge_dumps env (J_obj (dput ''user'' (J_str u) d))) = Some b' \<longrightarrow>
        ge_loads env b' = Loaded (J_obj (dput ''user'' (J_str u) d)))"

lemma lower_text_idem [simp]: "lower_text (lower_text s) = lower_text s"
proof -
  have "lower_char (lower_char c) = lower_char c" for c by (auto simp: lower_char_def)
  then show ?thesis by simp
qed

lemma header_values_normalize:
  assumes "lower_text n \<notin> {''content-length'', ''transfer-encoding''}"
  shows "header_values n (sc\<lparr>sc_headers := normalize_body_headers b (sc_headers sc)\<rparr>) = header_values n sc"
proof -
  have "lower_text ''content-length'' \<noteq> lower_text n"
    using assms by (auto simp: lower_char_def)
  then show ?thesis using assms
    by (auto simp: header_values_def normalize_body_headers_def intro!: arg_cong [of _ _ "map snd"] filter_cong)
qed

lemma routes_disjoint: "response_route sc \<Longrightarrow> \<not> events_route sc"
  by (auto simp: response_route_def events_route_def elim!: starts_withE)

lemma user_params_bound:
  assumes "bind_query_user (sc_query sc) who = Inr q" and "utf8_decode (sc_query sc) \<noteq> None"
  shows "user_params (sc\<lparr>sc_query := q\<rparr>) = [uni who]"
proof -
  obtain s where s: "utf8_decode (sc_query sc) = Some s" using assms(2) by blast
  obtain q' where "bind_query_user (sc_query sc) who = Inr q'"
    and "parse_qsl q' = filter (\<lambda>kv. fst kv \<noteq> uni ''user'') (parse_qsl s) @ [(uni ''user'', uni who)]"
    using bind_query_user_total s by metis
  then show ?thesis using assms(1) by (simp add: user_params_def filter_empty_conv)
qed

lemma bind_query_whenD:
  assumes "bind_query_when c who sc = Inr sc'"
  shows "\<exists>q. sc' = sc\<lparr>sc_query := q\<rparr>" and "\<not> c \<Longrightarrow> sc' = sc"
    and "c \<Longrightarrow> utf8_decode (sc_query sc) \<noteq> None \<Longrightarrow> user_params sc' = [uni who]"
proof -
  have eq: "sc = sc\<lparr>sc_query := sc_query sc\<rparr>" by simp
  show "\<exists>q. sc' = sc\<lparr>sc_query := q\<rparr>"
  proof (cases c)
    case True
    then show ?thesis using assms
      by (cases "bind_query_user (sc_query sc) who") (auto simp: bind_query_when_def)
  next
    case False
    then have "sc' = sc" using assms by (simp add: bind_query_when_def)
    then show ?thesis using eq by blast
  qed
  show "\<not> c \<Longrightarrow> sc' = sc" using assms by (simp add: bind_query_when_def)
  assume c: "c" and d: "utf8_decode (sc_query sc) \<noteq> None"
  then obtain q where "bind_query_user (sc_query sc) who = Inr q" "sc' = sc\<lparr>sc_query := q\<rparr>"
    using assms by (cases "bind_query_user (sc_query sc) who") (auto simp: bind_query_when_def)
  then show "user_params sc' = [uni who]" using user_params_bound d by simp
qed

lemma bind_response_bodyD:
  assumes "bind_response_body env b who = Inr b'" and "json_law env" and "ge_loads env b' = Loaded (J_obj d)"
  shows "dget d ''user'' = Some (J_str who)"
proof (cases "ge_loads env b")
  case (Loaded v)
  show ?thesis
  proof (cases v)
    case (J_obj e)
    show ?thesis
    proof (cases "dget e ''user'' = Some (J_str who)")
      case True
      then have "b' = b" using assms(1) Loaded J_obj by (simp add: bind_response_body_def)
      then show ?thesis using assms(3) Loaded J_obj True by simp
    next
      case False
      then have "utf8_encode (ge_dumps env (J_obj (dput ''user'' (J_str who) e))) = Some b'"
        using assms(1) Loaded J_obj by (simp add: bind_response_body_def split: option.splits)
      then have "ge_loads env b' = Loaded (J_obj (dput ''user'' (J_str who) e))"
        using assms(2) Loaded J_obj unfolding json_law_def by blast
      then show ?thesis using assms(3) by (simp add: dict_simps)
    qed
  qed (use assms Loaded in \<open>auto simp: bind_response_body_def\<close>)
qed (use assms in \<open>auto simp: bind_response_body_def\<close>)

lemma route_simps [simp]:
  "response_route (sc\<lparr>sc_query := q\<rparr>) = response_route sc"
  "events_route (sc\<lparr>sc_query := q\<rparr>) = events_route sc"
  "response_route (sc\<lparr>sc_headers := hs\<rparr>) = response_route sc"
  "events_route (sc\<lparr>sc_headers := hs\<rparr>) = events_route sc"
  "response_route (bind_state_and_header env who sc) = response_route sc"
  "events_route (bind_state_and_header env who sc) = events_route sc"
  by (simp_all add: response_route_def events_route_def bind_state_and_header_def)

lemma bind_state_simps [simp]:
  "sc_user (bind_state_and_header env who sc) = Some who"
  "sc_query (bind_state_and_header env who sc) = sc_query sc"
  "sc_path (bind_state_and_header env who sc) = sc_path sc"
  "sc_method (bind_state_and_header env who sc) = sc_method sc"
  "sc_type (bind_state_and_header env who sc) = sc_type sc"
  "sc_headers (bind_state_and_header env who sc) = replace_header (ge_ws_header env) who (sc_headers sc)"
  by (simp_all add: bind_state_and_header_def)

lemma bind_principalD:
  assumes "bind_principal env sc who body = Inr (sc', body')"
  shows "\<exists>q. sc' = (bind_state_and_header env who sc)\<lparr>sc_query := q\<rparr>"
    and "response_route sc \<or> events_route sc \<Longrightarrow> utf8_decode (sc_query sc) \<noteq> None \<Longrightarrow>
      user_params sc' = [uni who]"
    and "bind_body_when env (bind_state_and_header env who sc) who body = Inr body'"
proof -
  let ?sc1 = "bind_state_and_header env who sc"
  from assms obtain sc2 where b: "bind_body_when env ?sc1 who body = Inr body'"
    and s2: "bind_query_when (response_route ?sc1) who ?sc1 = Inr sc2"
    and s3: "bind_query_when (events_route sc2) who sc2 = Inr sc'"
    by (auto simp: bind_principal_def Let_def split: sum.splits)
  show "bind_body_when env ?sc1 who body = Inr body'" by (rule b)
  obtain q2 where q2: "sc2 = ?sc1\<lparr>sc_query := q2\<rparr>" using bind_query_whenD(1) [OF s2] by blast
  obtain q3 where q3: "sc' = sc2\<lparr>sc_query := q3\<rparr>" using bind_query_whenD(1) [OF s3] by blast
  show "\<exists>q. sc' = ?sc1\<lparr>sc_query := q\<rparr>" using q2 q3 by auto
  assume r: "response_route sc \<or> events_route sc" and d: "utf8_decode (sc_query sc) \<noteq> None"
  show "user_params sc' = [uni who]"
  proof (cases "response_route sc")
    case True
    then have "sc' = sc2" using bind_query_whenD(2) [OF s3] routes_disjoint q2 by simp
    then show ?thesis using bind_query_whenD(3) [OF s2] True d by simp
  next
    case False
    then have "sc2 = ?sc1" using bind_query_whenD(2) [OF s2] by simp
    then show ?thesis using bind_query_whenD(3) [OF s3] False r d by simp
  qed
qed

lemma bound_facts:
  assumes "bind_principal env sc who body = Inr (sc', body')"
  shows "sc_user sc' = Some who" and "header_values (ge_ws_header env) sc' = [who]"
    and "sc_path sc' = sc_path sc" and "sc_method sc' = sc_method sc"
    and "response_route sc' = response_route sc" and "events_route sc' = events_route sc"
proof -
  obtain q where q: "sc' = (bind_state_and_header env who sc)\<lparr>sc_query := q\<rparr>"
    using bind_principalD(1) [OF assms] by blast
  show "header_values (ge_ws_header env) sc' = [who]"
    by (simp add: q header_values_def replace_header_def filter_empty_conv del: map_map)
qed (use bind_principalD(1) [OF assms] in auto)

lemma credential_principal_not_empty:
  assumes "keys_ok (user_api_keys (ge_keys env))" and "credential_principal env sc = Some (Some who)"
  shows "who \<noteq> []"
proof -
  from assms(2) obtain token valid u where "authenticate (ge_keys env) token = Some (valid, u)"
    and "(if valid then u else None) = Some who"
    by (auto simp: credential_principal_def split: option.splits)
  then have "dget (user_api_keys (ge_keys env)) who = Some token"
    using authenticate_spec(1) [of "ge_keys env" token valid u who] assms(1) by (auto split: if_splits)
  then have "user_id_ok who" using assms(1) by (auto simp: keys_ok_def dest!: dget_SomeD)
  then show ?thesis by (simp add: user_id_ok_def)
qed

lemma ask_admission_user:
  assumes "sc_user sc = Some who" and "who \<noteq> []"
  shows "handed (ask_admission env gone has_body sc ms) = Some (sc, ms)"
    and "ask_admission env gone has_body sc ms = Front_admit g u t w sc' ms' \<Longrightarrow> u = Some who"
proof -
  have "truthy (sc_user sc)" using assms by (cases who) simp_all
  then have "extract_user env sc ms = User_is (Some who) ms" using assms by (simp add: extract_user_def)
  then show "handed (ask_admission env gone has_body sc ms) = Some (sc, ms)"
    and "ask_admission env gone has_body sc ms = Front_admit g u t w sc' ms' \<Longrightarrow> u = Some who"
    by (auto simp: ask_admission_def split: if_splits)
qed

lemma bound_body:
  assumes "bind_body_when env sc who (Some b) = Inr body'" and "json_law env"
  obtains b' where "body' = Some b'"
    and "\<And>d. sc_path sc = ''/v1/responses'' \<Longrightarrow> sc_method sc = ''POST'' \<Longrightarrow>
      ge_loads env b' = Loaded (J_obj d) \<Longrightarrow> dget d ''user'' = Some (J_str who)"
proof (cases "sc_path sc = ''/v1/responses'' \<and> sc_method sc = ''POST''")
  case True
  then obtain b' where "bind_response_body env b who = Inr b'" "body' = Some b'"
    using assms(1) by (cases "bind_response_body env b who") (auto simp: bind_body_when_def)
  then show ?thesis using that bind_response_bodyD assms(2) by blast
next
  case False
  then show ?thesis using that [of b] assms(1) by (auto simp: bind_body_when_def split: if_splits)
qed

lemma speaks_with_body:
  assumes who: "credential_principal env sc = Some (Some who)" "who \<noteq> []" and law: "json_law env"
    and hd: "lower_text (ge_ws_header env) \<notin> {''content-length'', ''transfer-encoding''}"
    and q: "utf8_decode (sc_query sc) \<noteq> None"
    and h: "handed (with_body env sc b rest) = Some (sc', ms')"
  shows "speaks_for who env sc' ms'"
    and "with_body env sc b rest = Front_admit g u t w sc'' ms'' \<Longrightarrow> u = Some who"
proof -
  obtain sc1 body' where bp: "bind_principal env sc who (Some b) = Inr (sc1, body')"
    using h who by (cases "bind_principal env sc who (Some b)") (auto simp: with_body_def bind_credential_def)
  note f = bound_facts [OF bp]
  obtain b' where b': "body' = Some b'"
    and bu: "\<And>d. sc_path sc = ''/v1/responses'' \<Longrightarrow> sc_method sc = ''POST'' \<Longrightarrow>
      ge_loads env b' = Loaded (J_obj d) \<Longrightarrow> dget d ''user'' = Some (J_str who)"
    using bound_body [OF bind_principalD(3) [OF bp] law] by auto
  let ?sc2 = "sc1\<lparr>sc_headers := normalize_body_headers b' (sc_headers sc1)\<rparr>"
  have w: "with_body env sc b rest = ask_admission env False True ?sc2 (replay b' rest)"
    using bp b' who by (simp add: with_body_def bind_credential_def Let_def)
  have u2: "sc_user ?sc2 = Some who" using f(1) by simp
  from ask_admission_user(1) [OF u2 who(2)] h w have eq: "sc' = ?sc2" "ms' = replay b' rest" by simp_all
  have "user_params ?sc2 = user_params sc1" by (simp add: user_params_def)
  moreover have "header_values (ge_ws_header env) ?sc2 = [who]"
    using header_values_normalize [OF hd] f(2) by simp
  ultimately show "speaks_for who env sc' ms'"
    using f bu bind_principalD(2) [OF bp _ q] by (simp add: speaks_for_def eq replay_def)
  show "with_body env sc b rest = Front_admit g u t w sc'' ms'' \<Longrightarrow> u = Some who"
    unfolding w by (rule ask_admission_user(2) [OF u2 who(2)])
qed

lemma speaks_without_body:
  assumes who: "credential_principal env sc = Some (Some who)" "who \<noteq> []"
    and q: "utf8_decode (sc_query sc) \<noteq> None" and m: "sc_method sc \<noteq> ''POST''"
    and h: "handed (without_body env sc ms) = Some (sc', ms')"
  shows "speaks_for who env sc' ms'"
    and "without_body env sc ms = Front_admit g u t w sc'' ms'' \<Longrightarrow> u = Some who"
proof -
  obtain sc1 body' where bp: "bind_principal env sc who None = Inr (sc1, body')"
    using h who by (cases "bind_principal env sc who None") (auto simp: without_body_def bind_credential_def)
  note f = bound_facts [OF bp]
  have w: "without_body env sc ms = ask_admission env False False sc1 ms"
    using bp who by (simp add: without_body_def bind_credential_def)
  from ask_admission_user(1) [OF f(1) who(2)] h w have eq: "sc' = sc1" "ms' = ms" by simp_all
  show "speaks_for who env sc' ms'"
    using f m bind_principalD(2) [OF bp _ q] by (simp add: speaks_for_def eq)
  show "without_body env sc ms = Front_admit g u t w sc'' ms'' \<Longrightarrow> u = Some who"
    unfolding w by (rule ask_admission_user(2) [OF f(1) who(2)])
qed


lemma demo_env_ok: "keys_ok (user_api_keys (ge_keys demo_env))" "json_law demo_env"
proof -
  show "keys_ok (user_api_keys (ge_keys demo_env))"
    using demo_keys_parse demo_loads_dwf by (simp add: demo_env_def parse_user_api_keys_ok)
  have "utf8_encode (demo_dumps_body (J_obj [(''user'', J_str u)])) = Some b' \<Longrightarrow> u = ''bob'' \<and> b' = [1, 2, 3]" for u b'
    by (auto simp: demo_dumps_body_def utf8_encode_def scalar_def enc_char_def split: if_splits)
  then show "json_law demo_env"
    by (fastforce simp: json_law_def demo_env_def demo_loads_body_def dput_Cons split: if_splits)
qed

definition demo_forged :: gscope where
  "demo_forged =
     demo_scope ''POST'' ''/v1/responses'' [(''authorization'', ''Bearer s2''), (''x-user-email'', ''ann'')] [120]"

definition demo_bound :: gscope where
  "demo_bound =
     demo_forged\<lparr>sc_user := Some ''bob'',
       sc_headers := [(''authorization'', ''Bearer s2''), (''x-user-email'', ''bob''), (''content-length'', ''3'')]\<rparr>"

lemma demo_principal: "credential_principal demo_env demo_forged = Some (Some ''bob'')"
  by code_simp

lemma demo_bind:
  "bind_principal demo_env demo_forged ''bob'' (Some [123, 125]) =
     Inr (demo_bound\<lparr>sc_headers := butlast (sc_headers demo_bound)\<rparr>, Some [1, 2, 3])"
proof -
  let ?sc = "bind_state_and_header demo_env ''bob'' demo_forged"
  have "bind_response_body demo_env [123, 125] ''bob'' = Inr [1, 2, 3]"
    by (simp add: bind_response_body_def demo_env_def demo_loads_body_def demo_dumps_body_def
        utf8_encode_def scalar_def enc_char_def)
  then have b: "bind_body_when demo_env ?sc ''bob'' (Some [123, 125]) = Inr (Some [1, 2, 3])"
    by (simp add: bind_body_when_def demo_forged_def demo_scope_def)
  have n: "\<not> response_route demo_bound" "\<not> events_route demo_bound" by code_simp+
  have "?sc = demo_bound\<lparr>sc_headers := butlast (sc_headers demo_bound)\<rparr>" by code_simp
  then show ?thesis using b n by (simp add: bind_principal_def bind_query_when_def Let_def)
qed

lemma demo_front:
  "gate_front demo_env demo_forged [Chunk [123] True, Chunk [125] False] =
     Front_admit False (Some ''bob'') None True demo_bound [Chunk [1, 2, 3] False]"
proof -
  have l: "request_body_limit demo_env demo_forged = Some 5" by code_simp
  have d: "declared_too_large demo_env demo_forged 5 = False" by code_simp
  have m: "sc_type demo_forged = ''http''" "sc_method demo_forged \<in> set body_methods"
    by (simp_all add: demo_forged_def demo_scope_def body_methods_def)
  have n: "demo_bound\<lparr>sc_headers := normalize_body_headers [1, 2, 3] (butlast (sc_headers demo_bound))\<rparr> =
    demo_bound" by code_simp
  have a: "ask_admission demo_env False True demo_bound (replay [1, 2, 3] []) =
    Front_admit False (Some ''bob'') None True demo_bound [Chunk [1, 2, 3] False]" by code_simp
  show ?thesis
    using demo_bind demo_principal n a l d m
    by (simp add: gate_front_def with_body_def bind_credential_def Let_def)
qed


text \<open>
  Not every request is bound: a client that breaks its connection while it sends a body reaches
  an unguarded route with the request it wrote, the query's user included, and a query that is
  no UTF-8 is left as it is.
\<close>

theorem cut_request_unbound:
  assumes "sc_type sc = ''http''" and "sc_method sc \<in> set body_methods"
    and "request_body_limit env sc = Some limit" and "\<not> declared_too_large env sc limit"
    and "buffer_limited limit [] ms = (Cut b, rest)" and "\<not> is_guarded sc"
  shows "gate_front env sc ms = Front_pass sc (Disconnect # rest)"
  using assms by (simp add: gate_front_def ask_admission_def replay_message_def)

theorem undecodable_query_unbound:
  "utf8_decode raw = None \<Longrightarrow> bind_query_user raw who = Inr raw"
  by (simp add: bind_query_user_def)

text \<open>Deep nesting and a lone surrogate in a body raise out of the middleware.\<close>

theorem deep_body_raises:
  "sc_path sc = ''/v1/responses'' \<Longrightarrow> sc_method sc = ''POST'' \<Longrightarrow> ge_loads env b = Too_deep \<Longrightarrow>
     bind_principal env sc who (Some b) = Inl Recursion_error"
  by (simp add: bind_principal_def bind_body_when_def bind_response_body_def)

theorem surrogate_body_raises:
  "sc_path sc = ''/v1/responses'' \<Longrightarrow> sc_method sc = ''POST'' \<Longrightarrow> ge_loads env b = Loaded (J_obj d) \<Longrightarrow>
     dget d ''user'' = None \<Longrightarrow> \<not> list_all scalar (ge_dumps env (J_obj (dput ''user'' (J_str who) d))) \<Longrightarrow>
     bind_principal env sc who (Some b) = Inl Encode_error"
  by (simp add: bind_principal_def bind_body_when_def bind_response_body_def utf8_encode_def)

end
