(* ===== verification/GateSlots.thy ===== *)
theory GateSlots
  imports RequestGate
begin

text \<open>
  The turn slots of the admission middleware over whole runs of a process: the limiter of
  \<open>TurnLimiter\<close>, the requests of \<open>RequestGate\<close> and the handlers that take a slot over, in any
  order.  A slot has one holder at a time, an untransferred slot is live as long as its request
  runs, and when nothing runs every slot has come back.
\<close>

section \<open>Slots\<close>

text \<open>
  Who holds a slot: a caller, a grant on its way or a woken waiter.  \<open>pipe\<close> counts the last two;
  a slot has at most one holder, and one on its way is not released.
\<close>

definition pipe :: "limiter \<Rightarrow> nat \<Rightarrow> nat" where
  "pipe l sid = count_if (\<lambda>d. snd d = sid) (deliveries l) +
     count_if (\<lambda>wid. futures l wid = Granted sid) (acquiring l)"

definition holders :: "limiter \<Rightarrow> nat \<Rightarrow> nat" where
  "holders l sid = count_if (\<lambda>s. s = sid) (held l) + pipe l sid"

definition single_holder :: "limiter \<Rightarrow> bool" where
  "single_holder l \<longleftrightarrow>
     (\<forall>sid. holders l sid \<le> (if sid < length (slots l) then 1 else 0) \<and>
        (0 < pipe l sid \<longrightarrow> \<not> released (slots l ! sid)))"


lemma pipe_cong:
  "deliveries l' = deliveries l \<Longrightarrow> acquiring l' = acquiring l \<Longrightarrow>
     (\<And>wid. wid \<in> set (acquiring l) \<Longrightarrow> futures l' wid = futures l wid) \<Longrightarrow> pipe l' = pipe l"
  by (rule ext) (auto simp: pipe_def count_if_def intro!: arg_cong [of _ _ length] filter_cong)

lemma count_if_eq_0: "count_if P xs = 0 \<longleftrightarrow> (\<forall>x \<in> set xs. \<not> P x)"
  by (auto simp: count_if_def filter_empty_conv)

lemma count_if_some: "0 < count_if P xs \<longleftrightarrow> (\<exists>x \<in> set xs. P x)"
  using count_if_eq_0 [of P xs] by auto

lemma count_if_remove1:
  "x \<in> set xs \<Longrightarrow> count_if P (remove1 x xs) + (if P x then 1 else 0) = count_if P xs"
  by (induction xs) (auto simp: count_if_Cons)

lemma count_if_distinct: "(\<And>x. count_if (\<lambda>s. s = x) xs \<le> 1) \<Longrightarrow> distinct xs"
proof (induction xs)
  case (Cons a xs)
  have "count_if (\<lambda>s. s = a) xs = 0" using Cons.prems [of a] by (simp add: count_if_Cons)
  moreover have "count_if (\<lambda>s. s = x) xs \<le> 1" for x
    using Cons.prems [of x] by (auto simp: count_if_Cons split: if_splits)
  ultimately show ?case using Cons.IH by (auto simp: count_if_eq_0)
qed simp

lemma single_holderD:
  assumes "single_holder l"
  shows "sid \<in> set (held l) \<Longrightarrow> pipe l sid = 0" and "distinct (held l)"
    and "0 < pipe l sid \<Longrightarrow> \<not> released (slots l ! sid)"
    and "sid \<in> set (held l) \<Longrightarrow> sid < length (slots l)"
    and "length (slots l) \<le> sid \<Longrightarrow> holders l sid = 0"
proof -
  have h: "holders l s \<le> (if s < length (slots l) then 1 else 0)" "0 < pipe l s \<Longrightarrow> \<not> released (slots l ! s)" for s
    using assms by (auto simp: single_holder_def)
  have c: "0 < count_if (\<lambda>s. s = sid) (held l)" if "sid \<in> set (held l)" for sid
    using that by (simp add: count_if_some)
  show "sid \<in> set (held l) \<Longrightarrow> pipe l sid = 0"
    using c [of sid] h(1) [of sid] by (auto simp: holders_def split: if_splits)
  show "sid \<in> set (held l) \<Longrightarrow> sid < length (slots l)"
    using c [of sid] h(1) [of sid] by (auto simp: holders_def split: if_splits)
  show "0 < pipe l sid \<Longrightarrow> \<not> released (slots l ! sid)" by (rule h(2))
  show "length (slots l) \<le> sid \<Longrightarrow> holders l sid = 0" using h(1) [of sid] by simp
  have "count_if (\<lambda>s. s = x) (held l) \<le> 1" for x
    using h(1) [of x] by (auto simp: holders_def split: if_splits)
  then show "distinct (held l)" by (rule count_if_distinct)
qed

lemma single_bounds:
  assumes "single_holder l"
  shows "holders l sid \<le> 1" and "0 < holders l sid \<Longrightarrow> sid < length (slots l)"
    and "0 < pipe l sid \<Longrightarrow> sid < length (slots l)"
proof -
  have h: "holders l sid \<le> (if sid < length (slots l) then 1 else 0)" using assms by (simp add: single_holder_def)
  then show "holders l sid \<le> 1" and l: "0 < holders l sid \<Longrightarrow> sid < length (slots l)"
    by (cases "sid < length (slots l)"; simp)+
  show "0 < pipe l sid \<Longrightarrow> sid < length (slots l)" by (rule l) (simp add: holders_def)
qed

lemma single_holderI:
  assumes "single_holder l" and "\<And>sid. holders l' sid = holders l sid" and "\<And>sid. pipe l' sid = pipe l sid"
    and "length (slots l) \<le> length (slots l')"
    and "\<And>sid. sid < length (slots l) \<Longrightarrow> 0 < pipe l sid \<Longrightarrow> \<not> released (slots l' ! sid)"
  shows "single_holder l'"
  unfolding single_holder_def
proof (intro allI conjI impI)
  fix sid
  show "holders l' sid \<le> (if sid < length (slots l') then 1 else 0)"
  proof (cases "0 < holders l sid")
    case True
    have "sid < length (slots l')" using single_bounds(2) [OF assms(1) True] assms(4) by (rule less_le_trans)
    then show ?thesis using single_bounds(1) [OF assms(1), of sid] assms(2) [of sid] by simp
  qed (simp add: assms(2))
  assume "0 < pipe l' sid"
  then have "0 < pipe l sid" using assms(3) [of sid] by simp
  then show "\<not> released (slots l' ! sid)" using single_bounds(3) [OF assms(1)] assms(5) by blast
qed

subsection \<open>Grants\<close>

lemma single_new_slot:
  assumes "single_holder l" and "slots l' = slots l @ [\<lparr>slot_user = u, released = False\<rparr>]"
    and "\<And>sid. holders l' sid = holders l sid + (if sid = length (slots l) then 1 else 0)"
    and "\<And>sid. sid \<noteq> length (slots l) \<Longrightarrow> pipe l' sid = pipe l sid"
  shows "single_holder l'"
  unfolding single_holder_def
proof (intro allI conjI impI)
  fix sid
  have h: "holders l sid \<le> (if sid < length (slots l) then 1 else 0)"
    "0 < pipe l sid \<Longrightarrow> \<not> released (slots l ! sid)" using assms(1) by (auto simp: single_holder_def)
  show "holders l' sid \<le> (if sid < length (slots l') then 1 else 0)" using h(1) assms(2,3) by (auto split: if_splits)
  assume p: "0 < pipe l' sid"
  show "\<not> released (slots l' ! sid)"
  proof (cases "sid = length (slots l)")
    case False
    then have "0 < pipe l sid" using p assms(4) by simp
    moreover from this have "sid < length (slots l)" using h(1) by (auto simp: holders_def split: if_splits)
    ultimately show ?thesis using h(2) assms(2) by (simp add: nth_append)
  qed (simp add: assms(2))
qed

lemma single_grant_one: "single_holder l \<Longrightarrow> single_holder (grant_one w l)"
  by (rule single_new_slot) (auto simp: holders_def pipe_def count_if_append count_if_Cons)

lemma grant_loop_slots:
  "\<exists>new. slots (grant_loop ws l) = slots l @ new"
proof (induction ws arbitrary: l)
  case (Cons w ws)
  show ?case using Cons [of l] Cons [of "grant_one w l"] by auto
qed simp

lemma grant_loop_frame [simp]:
  "held (grant_loop ws l) = held l" "acquiring (grant_loop ws l) = acquiring l"
  by (induction ws arbitrary: l) auto

lemma single_grant_loop: "single_holder l \<Longrightarrow> single_holder (grant_loop ws l)"
  by (induction ws arbitrary: l) (auto simp: single_grant_one)

lemma grant_waiters_facts:
  "single_holder l \<Longrightarrow> single_holder (grant_waiters l)"
  "held (grant_waiters l) = held l"
  "j < length (slots l) \<Longrightarrow> slots (grant_waiters l) ! j = slots l ! j"
  "length (slots l) \<le> length (slots (grant_waiters l))"
  using grant_loop_slots [of "waiters l" l]
  by (auto simp: grant_waiters_def single_grant_loop nth_append)

subsection \<open>Releases\<close>

lemma single_release:
  assumes "single_holder l" and "pipe l sid = 0" and "sid < length (slots l)"
  shows "single_holder (release_slot sid l)"
proof (cases "released (slots l ! sid)")
  case False
  let ?m = "give_back (slot_user (slots l ! sid)) (mark_released sid l)"
  have "pipe ?m s = pipe l s" for s by (simp add: pipe_def)
  then have "single_holder ?m"
    using assms single_holderD(3) [OF assms(1)]
    by (intro single_holderI [OF assms(1)]) (auto simp: holders_def nth_list_update)
  then show ?thesis using False by (simp add: release_slot_def release_user_def grant_waiters_facts)
qed (simp add: release_slot_def assms(1))

lemma release_slot_facts:
  "held (release_slot sid l) = held l"
  "length (slots l) \<le> length (slots (release_slot sid l))"
  "sid < length (slots l) \<Longrightarrow> j < length (slots l) \<Longrightarrow>
     released (slots (release_slot sid l) ! j) = (j = sid \<or> released (slots l ! j))"
  using grant_waiters_facts(2,4) [of "give_back (slot_user (slots l ! sid)) (mark_released sid l)"]
    grant_waiters_facts(3) [where j = j and l = "give_back (slot_user (slots l ! sid)) (mark_released sid l)"]
  by (auto simp: release_slot_def release_user_def nth_list_update)

subsection \<open>The operations of the limiter\<close>

lemma single_hold_new:
  "single_holder l \<Longrightarrow> single_holder (snd (take_slot l k)\<lparr>held := held l @ [length (slots l)]\<rparr>)"
  by (rule single_new_slot) (auto simp: holders_def pipe_def count_if_append count_if_Cons)

text \<open>What an operation that may admit a caller does to the slots.\<close>

definition grants_fresh :: "limiter \<Rightarrow> limiter \<Rightarrow> nat option \<Rightarrow> bool" where
  "grants_fresh l l' r \<longleftrightarrow> single_holder l' \<and> length (slots l) \<le> length (slots l') \<and>
     (case r of
        None \<Rightarrow> held l' = held l
      | Some sid \<Rightarrow> held l' = held l @ [sid] \<and> sid \<notin> set (held l) \<and> \<not> released (slots l' ! sid)) \<and>
     (\<forall>j \<in> set (held l). released (slots l' ! j) = released (slots l ! j))"

lemma held_bound: "single_holder l \<Longrightarrow> length (slots l) \<notin> set (held l)"
  using single_holderD(4) by blast

lemma fresh_hold_new:
  "single_holder l \<Longrightarrow>
     grants_fresh l (snd (take_slot l k)\<lparr>held := held l @ [length (slots l)]\<rparr>) (Some (length (slots l)))"
  using single_hold_new [of l k] held_bound [of l] single_holderD(4) [of l]
  by (auto simp: grants_fresh_def nth_append)

lemma fresh_try:
  assumes "single_holder l"
  shows "grants_fresh l (snd (try_acquire user l)) (case fst (try_acquire user l) of Inl _ \<Rightarrow> None | Inr sid \<Rightarrow> Some sid)"
  using assms fresh_hold_new [OF assms, of "key_of user"]
  by (cases "blocked l (key_of user) (truthy user)")
    (auto simp: try_acquire_def Let_def split_beta grants_fresh_def)

lemma fresh_enqueue:
  assumes "single_holder l" and "limiter_inv l"
  shows "grants_fresh l (snd (enqueue k i t now l)) None"
proof -
  have a: "next_wid l \<notin> set (acquiring l)"
    using assms(2) by (auto simp: limiter_inv_def base_inv_def wiring_ok_def)
  let ?l = "snd (enqueue k i t now l)"
  have "pipe ?l sid = pipe l sid" for sid
  proof -
    have "count_if (\<lambda>wid. ((futures l)(next_wid l := Pending)) wid = Granted sid) (acquiring l) =
      count_if (\<lambda>wid. futures l wid = Granted sid) (acquiring l)"
      using a by (auto simp: count_if_def intro!: arg_cong [of _ _ length] filter_cong)
    moreover have "futures ?l = (futures l)(next_wid l := Pending)" "deliveries ?l = deliveries l"
      "acquiring ?l = acquiring l @ [next_wid l]" by (simp_all add: enqueue_def Let_def)
    ultimately show ?thesis by (simp add: pipe_def count_if_append count_if_Cons)
  qed
  moreover have "held ?l = held l" "slots ?l = slots l" by (simp_all add: enqueue_def Let_def)
  ultimately show ?thesis using assms(1) single_holderD(3) [OF assms(1)]
    by (auto simp: grants_fresh_def holders_def intro!: single_holderI [OF assms(1)])
qed

lemma fresh_none: "single_holder l \<Longrightarrow> grants_fresh l l None"
  by (simp add: grants_fresh_def)

lemma fresh_begin:
  assumes "single_holder l" and "limiter_inv l"
  shows "grants_fresh l (snd (acquire_begin user t now l))
    (case fst (acquire_begin user t now l) of Admitted sid \<Rightarrow> Some sid | _ \<Rightarrow> None)"
proof (cases "blocked l (key_of user) (truthy user)")
  case None
  then show ?thesis using fresh_hold_new [OF assms(1), of "key_of user"]
    by (auto simp: acquire_begin_def Let_def split_beta)
next
  case (Some r)
  then show ?thesis using fresh_none [OF assms(1)] fresh_enqueue [OF assms, of "key_of user" "truthy user" t now]
    by (auto simp: acquire_begin_def Let_def split_beta)
qed

lemma fresh_enter:
  assumes "single_holder l" and "limiter_inv l"
  shows "grants_fresh l (snd (gate_enter gone user t now l))
    (case fst (gate_enter gone user t now l) of Admitted sid \<Rightarrow> Some sid | _ \<Rightarrow> None)"
proof (cases gone)
  case True
  obtain r l' where t: "try_acquire user l = (r, l')" by fastforce
  then show ?thesis using fresh_try [OF assms(1), of user] True
    by (cases r) (simp_all add: gate_enter_def)
next
  case False
  then show ?thesis using fresh_begin [OF assms, of user t now] by (simp add: gate_enter_def)
qed

lemma limiter_inv_enter: "limiter_inv l \<Longrightarrow> limiter_inv (snd (gate_enter gone user t now l))"
proof (cases gone)
  case True
  assume "limiter_inv l"
  moreover obtain r l' where "try_acquire user l = (r, l')" by fastforce
  ultimately show ?thesis using try_acquire_inv [of l user] True by (cases r) (simp_all add: gate_enter_def)
qed (simp add: gate_enter_def acquire_begin_inv)

lemma single_decrease:
  assumes "single_holder l" and "slots l' = slots l" and "\<And>sid. holders l' sid \<le> holders l sid"
    and "\<And>sid. pipe l' sid \<le> pipe l sid"
  shows "single_holder l'"
  unfolding single_holder_def
proof (intro allI conjI impI)
  fix sid
  show "holders l' sid \<le> (if sid < length (slots l') then 1 else 0)"
    using order_trans [OF assms(3) [of sid]] assms(1) unfolding single_holder_def assms(2) by blast
  assume "0 < pipe l' sid"
  then have "0 < pipe l sid" using assms(4) [of sid] by simp
  then show "\<not> released (slots l' ! sid)" using single_holderD(3) [OF assms(1)] assms(2) by simp
qed

lemma pipe_leave:
  assumes "wid \<in> set (acquiring l)"
  shows "pipe (leave wid (drop_waiter wid l)) sid + (if futures l wid = Granted sid then 1 else 0) = pipe l sid"
  using count_if_remove1 [OF assms, of "\<lambda>w. futures l w = Granted sid"]
  by (simp add: pipe_def leave_def drop_waiter_def)

lemma fresh_release:
  assumes "single_holder l" and "single_holder l0" and "slots l0 = slots l" and "held l0 = held l"
    and "pipe l0 sid = 0" and "0 < pipe l sid"
  shows "grants_fresh l (release_slot sid l0) None"
proof -
  have i: "sid < length (slots l0)" using single_bounds(3) [OF assms(1,6)] assms(3) by simp
  have "sid \<notin> set (held l)" using single_holderD(1) [OF assms(1), of sid] assms(6) by auto
  moreover have "single_holder (release_slot sid l0)" using assms(2,5) i by (rule single_release)
  ultimately show ?thesis
    using release_slot_facts [where sid = sid and l = l0] i assms(3,4) single_holderD(4) [OF assms(1)]
    by (auto simp: grants_fresh_def)
qed

lemma fresh_finish:
  assumes "single_holder l" and "limiter_inv l" and w: "wid \<in> set (acquiring l)"
  shows "grants_fresh l (snd (acquire_finish wid wake l))
    (case fst (acquire_finish wid wake l) of Inl _ \<Rightarrow> None | Inr sid \<Rightarrow> Some sid)"
proof -
  let ?l1 = "leave wid (drop_waiter wid l)"
  have d: "distinct (acquiring l)" using assms(2) by (auto simp: limiter_inv_def base_inv_def wiring_ok_def)
  have s: "slots ?l1 = slots l" "held ?l1 = held l" "futures ?l1 = futures l" "deliveries ?l1 = deliveries l"
    "acquiring ?l1 = remove1 wid (acquiring l)" by (simp_all add: leave_def drop_waiter_def)
  have le: "pipe ?l1 sid \<le> pipe l sid" for sid using pipe_leave [OF w, of sid] by simp
  have one: "single_holder ?l1" using le s by (intro single_decrease [OF assms(1)]) (simp_all add: holders_def)
  show ?thesis
  proof (cases "futures l wid")
    case Pending
    have "wid \<notin> set (acquiring ?l1)" using d s by simp
    then have "pipe (cancel_future wid ?l1) = pipe ?l1"
      by (intro pipe_cong) (auto simp: cancel_future_def)
    then have "single_holder (cancel_future wid ?l1)"
      by (intro single_decrease [OF one]) (simp_all add: holders_def cancel_future_def)
    then show ?thesis using Pending s by (simp add: acquire_finish_def Let_def grants_fresh_def cancel_future_def)
  next
    case Cancelled
    then show ?thesis using one s by (simp add: acquire_finish_def Let_def grants_fresh_def)
  next
    case (Granted g)
    have p: "pipe l g = pipe ?l1 g + 1" using pipe_leave [OF w, of g] Granted by simp
    then have z: "pipe ?l1 g = 0" and pos: "0 < pipe l g"
      using single_bounds(1) [OF assms(1), of g] by (auto simp: holders_def)
    have nh: "g \<notin> set (held l)" using single_holderD(1) [OF assms(1), of g] pos by auto
    show ?thesis
    proof (cases "wake = Woke")
      case True
      let ?l2 = "?l1\<lparr>held := held ?l1 @ [g]\<rparr>"
      have q: "pipe ?l2 sid = pipe ?l1 sid" for sid by (simp add: pipe_def)
      have "holders ?l2 sid = holders l sid" for sid
        using q [of sid] pipe_leave [OF w, of sid] Granted s by (auto simp: holders_def count_if_append count_if_Cons)
      then have "single_holder ?l2" using q le s by (intro single_decrease [OF assms(1)]) simp_all
      then show ?thesis using True Granted s nh single_holderD(3) [OF assms(1) pos]
        by (simp add: acquire_finish_def Let_def grants_fresh_def)
    next
      case False
      then show ?thesis using Granted s fresh_release [OF assms(1) one s(1,2) z pos]
        by (simp add: acquire_finish_def Let_def)
    qed
  qed
qed

lemma fresh_deliver:
  assumes "single_holder l" and "limiter_inv l" and w: "(wid, sid) \<in> set (deliveries l)"
  shows "grants_fresh l (deliver wid sid l) None"
proof -
  let ?l0 = "l\<lparr>deliveries := remove1 (wid, sid) (deliveries l)\<rparr>"
  have d: "distinct (acquiring l)" and a: "futures l wid = Pending \<Longrightarrow> wid \<in> set (acquiring l)"
    using assms(2) by (auto simp: limiter_inv_def base_inv_def wiring_ok_def)
  have p: "pipe ?l0 x + (if x = sid then 1 else 0) = pipe l x" for x
    using count_if_remove1 [OF w, of "\<lambda>d. snd d = x"] by (auto simp: pipe_def)
  then have le: "pipe ?l0 x \<le> pipe l x" for x by (metis le_add1)
  have one: "single_holder ?l0" using le by (intro single_decrease [OF assms(1)]) (simp_all add: holders_def)
  have z: "pipe ?l0 sid = 0" and pos: "0 < pipe l sid"
    using p [of sid] single_bounds(1) [OF assms(1), of sid] by (auto simp: holders_def)
  show ?thesis
  proof (cases "fut_done l wid")
    case True
    then show ?thesis using fresh_release [OF assms(1) one _ _ z pos]
      by (simp add: deliver_def resolve_waiter_def fut_done_def)
  next
    case False
    let ?l1 = "?l0\<lparr>futures := (futures l)(wid := Granted sid)\<rparr>"
    have pend: "futures l wid = Pending" using False by (simp add: fut_done_def)
    have "count_if (\<lambda>x. ((futures l)(wid := Granted sid)) x = Granted y) (acquiring l) =
      count_if (\<lambda>x. futures l x = Granted y) (acquiring l) + (if y = sid then 1 else 0)" for y
    proof -
      obtain xs ys where xy: "acquiring l = xs @ wid # ys" "wid \<notin> set xs" "wid \<notin> set ys"
        using split_list [OF a [OF pend]] d by auto
      have "count_if (\<lambda>x. ((futures l)(wid := Granted sid)) x = Granted y) zs = count_if (\<lambda>x. futures l x = Granted y) zs"
        if "wid \<notin> set zs" for zs
        using that by (auto simp: count_if_def intro!: arg_cong [of _ _ length] filter_cong)
      then show ?thesis using xy pend by (simp add: count_if_append count_if_Cons)
    qed
    then have "pipe ?l1 y = pipe ?l0 y + (if y = sid then 1 else 0)" for y by (simp add: pipe_def)
    then have q: "pipe ?l1 y = pipe l y" for y using p [of y] by simp
    then have "single_holder ?l1" by (intro single_decrease [OF assms(1)]) (simp_all add: holders_def)
    then show ?thesis using False
      by (simp add: deliver_def resolve_waiter_def fut_done_def grants_fresh_def)
  qed
qed

lemma fresh_configure:
  assumes "single_holder l"
  shows "grants_fresh l (configure tot per_user timeout qmax l) None"
proof -
  let ?l = "l\<lparr>total_cap := set_opt (max 0) tot (total_cap l),
    per_user_cap := set_opt (max 0) per_user (per_user_cap l),
    queue_timeout := set_opt (max 0) timeout (queue_timeout l), queue_max := set_opt (max 0) qmax (queue_max l)\<rparr>"
  have "single_holder ?l"
    by (rule single_decrease [OF assms]) (simp_all add: holders_def pipe_def)
  then show ?thesis
    using grant_waiters_facts [where l = ?l] single_holderD(4) [OF assms]
    by (auto simp: configure_def grants_fresh_def)
qed

section \<open>The invariant of a process\<close>

text \<open>
  Every admitted request has a slot of its own; while nobody took it over, the slot is live; a
  live slot in somebody's hands is a running request's or a handler's.
\<close>

definition slots_owed :: "gate \<Rightarrow> bool" where
  "slots_owed g \<longleftrightarrow>
     distinct (map fst (g_running g)) \<and> set (g_taken g) \<subseteq> set (held (g_lim g)) \<and>
     (\<forall>(sid, sc) \<in> set (g_running g). sid \<in> set (held (g_lim g)) \<and> sc_slot sc = Some sid \<and>
        (\<not> sc_transferred sc \<longrightarrow> sid \<notin> set (g_taken g) \<and> \<not> released (slots (g_lim g) ! sid))) \<and>
     (\<forall>sid \<in> set (held (g_lim g)). \<not> released (slots (g_lim g) ! sid) \<longrightarrow>
        sid \<in> set (g_taken g) \<or> (\<exists>sc. (sid, sc) \<in> set (g_running g) \<and> \<not> sc_transferred sc))"

definition gate_inv :: "gate \<Rightarrow> bool" where
  "gate_inv g \<longleftrightarrow> limiter_inv (g_lim g) \<and> single_holder (g_lim g) \<and> slots_owed g"

lemma slots_owedD:
  assumes "slots_owed g"
  shows "distinct (map fst (g_running g))" and "x \<in> set (g_taken g) \<Longrightarrow> x \<in> set (held (g_lim g))"
    and "(sid, sc) \<in> set (g_running g) \<Longrightarrow> sid \<in> set (held (g_lim g))"
    and "(sid, sc) \<in> set (g_running g) \<Longrightarrow> sc_slot sc = Some sid"
    and "(sid, sc) \<in> set (g_running g) \<Longrightarrow> \<not> sc_transferred sc \<Longrightarrow> sid \<notin> set (g_taken g)"
    and "(sid, sc) \<in> set (g_running g) \<Longrightarrow> \<not> sc_transferred sc \<Longrightarrow> \<not> released (slots (g_lim g) ! sid)"
    and "sid \<in> set (held (g_lim g)) \<Longrightarrow> \<not> released (slots (g_lim g) ! sid) \<Longrightarrow> sid \<notin> set (g_taken g) \<Longrightarrow>
      \<exists>sc. (sid, sc) \<in> set (g_running g) \<and> \<not> sc_transferred sc"
  using assms by (auto simp: slots_owed_def)

lemma owed_frame:
  assumes "slots_owed g" and "grants_fresh (g_lim g) l' None"
  shows "slots_owed (g\<lparr>g_lim := l'\<rparr>)"
proof -
  have h: "held l' = held (g_lim g)"
    and r: "\<And>j. j \<in> set (held (g_lim g)) \<Longrightarrow> released (slots l' ! j) = released (slots (g_lim g) ! j)"
    using assms(2) by (auto simp: grants_fresh_def)
  show ?thesis using assms(1) r unfolding slots_owed_def by (fastforce simp: h)
qed

lemma owed_admit:
  assumes o: "slots_owed g" and f: "grants_fresh (g_lim g) l' (Some sid)"
  shows "slots_owed (admit_running sid sc (g\<lparr>g_lim := l'\<rparr>))"
proof -
  let ?g = "admit_running sid sc (g\<lparr>g_lim := l'\<rparr>)"
  have h: "held l' = held (g_lim g) @ [sid]" "sid \<notin> set (held (g_lim g))" "\<not> released (slots l' ! sid)"
    and r: "\<And>j. j \<in> set (held (g_lim g)) \<Longrightarrow> released (slots l' ! j) = released (slots (g_lim g) ! j)"
    using f by (auto simp: grants_fresh_def)
  have g: "g_lim ?g = l'" "g_taken ?g = g_taken g" "g_running ?g = g_running g @ [(sid, publish_slot sid sc)]"
    by (simp_all add: admit_running_def)
  have p: "sc_slot (publish_slot sid sc) = Some sid" "\<not> sc_transferred (publish_slot sid sc)"
    by (simp_all add: publish_slot_def)
  have nr: "sid \<notin> fst ` set (g_running g)" and nt: "sid \<notin> set (g_taken g)"
    using o h(2) by (auto simp: slots_owed_def)
  show ?thesis unfolding slots_owed_def g
  proof (intro conjI ballI impI)
    show "distinct (map fst (g_running g @ [(sid, publish_slot sid sc)]))"
      using o nr by (simp add: slots_owed_def)
    show "set (g_taken g) \<subseteq> set (held l')" using o h by (auto simp: slots_owed_def)
    fix e assume "e \<in> set (g_running g @ [(sid, publish_slot sid sc)])"
    then consider "e \<in> set (g_running g)" | "e = (sid, publish_slot sid sc)" by auto
    then show "case e of (sid, sc) \<Rightarrow> sid \<in> set (held l') \<and> sc_slot sc = Some sid \<and>
        (\<not> sc_transferred sc \<longrightarrow> sid \<notin> set (g_taken g) \<and> \<not> released (slots l' ! sid))"
    proof cases
      case 1
      obtain x c where e: "e = (x, c)" by fastforce
      note d = slots_owedD(3-6) [OF o 1 [unfolded e]]
      show ?thesis using d r [OF d(1)] by (simp add: e h)
    next
      case 2
      then show ?thesis using p h nt by simp
    qed
  next
    fix s assume s: "s \<in> set (held l')" "\<not> released (slots l' ! s)"
    show "s \<in> set (g_taken g) \<or>
        (\<exists>sca. (s, sca) \<in> set (g_running g @ [(sid, publish_slot sid sc)]) \<and> \<not> sc_transferred sca)"
    proof (cases "s = sid")
      case True
      then show ?thesis using p by auto
    next
      case False
      then have "s \<in> set (held (g_lim g))" using s h by auto
      then show ?thesis using o s(2) r unfolding slots_owed_def by fastforce
    qed
  qed
qed

lemma set_drop_nth:
  assumes "distinct (map fst xs)" and "i < length xs"
  shows "set (take i xs @ drop (Suc i) xs) = {e \<in> set xs. fst e \<noteq> fst (xs ! i)}"
    and "distinct (map fst (take i xs @ drop (Suc i) xs))"
proof -
  obtain ys zs e where yz: "take i xs = ys" "drop (Suc i) xs = zs" "xs ! i = e" by blast
  have x: "xs = ys @ e # zs" using id_take_nth_drop [OF assms(2)] yz by simp
  then have d: "distinct (map fst (ys @ e # zs))" using assms(1) by simp
  then show "distinct (map fst (take i xs @ drop (Suc i) xs))" by (simp add: yz)
  show "set (take i xs @ drop (Suc i) xs) = {e \<in> set xs. fst e \<noteq> fst (xs ! i)}"
    using d unfolding yz by (auto simp: x image_iff)
qed

lemma same_fst: "distinct (map fst xs) \<Longrightarrow> (a, b) \<in> set xs \<Longrightarrow> (a, c) \<in> set xs \<Longrightarrow> b = c"
  by (metis eq_key_imp_eq_value)

lemma owed_release:
  assumes o: "slots_owed g" and s: "single_holder (g_lim g)" and i: "sid \<in> set (held (g_lim g))"
    and run: "distinct (map fst run)" "\<And>e. e \<in> set run \<Longrightarrow> e \<in> set (g_running g)"
    and live: "\<And>sc. (sid, sc) \<in> set run \<Longrightarrow> sc_transferred sc"
    and tk: "set tk \<subseteq> set (g_taken g)"
    and keep: "\<And>x. x \<noteq> sid \<Longrightarrow> x \<in> set (g_taken g) \<Longrightarrow> x \<in> set tk"
      "\<And>x sc. x \<noteq> sid \<Longrightarrow> (x, sc) \<in> set (g_running g) \<Longrightarrow> (x, sc) \<in> set run"
  shows "slots_owed (g\<lparr>g_lim := release_slot sid (g_lim g), g_running := run, g_taken := tk\<rparr>)"
proof -
  let ?l = "g_lim g" and ?l' = "release_slot sid (g_lim g)"
  have si: "sid < length (slots ?l)" using single_holderD(4) [OF s i] .
  have h: "held ?l' = held ?l" by (rule release_slot_facts(1))
  have r: "released (slots ?l' ! j) = (j = sid \<or> released (slots ?l ! j))" if "j \<in> set (held ?l)" for j
    using release_slot_facts(3) [OF si] single_holderD(4) [OF s that] by blast
  let ?g = "g\<lparr>g_lim := ?l', g_running := run, g_taken := tk\<rparr>"
  have g: "g_lim ?g = ?l'" "g_running ?g = run" "g_taken ?g = tk" by simp_all
  show ?thesis unfolding slots_owed_def g h
  proof (intro conjI ballI impI)
    show "distinct (map fst run)" by (rule run(1))
    show "set tk \<subseteq> set (held ?l)" using tk o by (auto simp: slots_owed_def)
    fix e
    show "e \<in> set run \<Longrightarrow> case e of (x, sc) \<Rightarrow> x \<in> set (held ?l) \<and> sc_slot sc = Some x \<and>
        (\<not> sc_transferred sc \<longrightarrow> x \<notin> set tk \<and> \<not> released (slots ?l' ! x))"
    proof -
      assume e: "e \<in> set run"
      obtain x c where x: "e = (x, c)" by fastforce
      note d = slots_owedD(3-6) [OF o run(2) [OF e, unfolded x]]
      have "x \<noteq> sid" if "\<not> sc_transferred c" using live e that by (auto simp: x)
      then show ?thesis using d r [OF d(1)] tk by (auto simp: x)
    qed
  next
    fix x assume x: "x \<in> set (held ?l)" "\<not> released (slots ?l' ! x)"
    then have "x \<noteq> sid" "\<not> released (slots ?l ! x)" using r by auto
    then show "x \<in> set tk \<or> (\<exists>sc. (x, sc) \<in> set run \<and> \<not> sc_transferred sc)"
      using slots_owedD(7) [OF o x(1)] keep by blast
  qed
qed

lemma gate_inv_enter:
  assumes "gate_inv g"
  shows "gate_inv (enter_gate gone user t now sc g)"
proof -
  obtain r l where e: "gate_enter gone user t now (g_lim g) = (r, l)" by fastforce
  have i: "limiter_inv (g_lim g)" "single_holder (g_lim g)" "slots_owed g" using assms by (auto simp: gate_inv_def)
  have l: "limiter_inv l" using limiter_inv_enter [OF i(1), of gone user t now] e by simp
  have f: "grants_fresh (g_lim g) l (case r of Admitted sid \<Rightarrow> Some sid | _ \<Rightarrow> None)"
    using fresh_enter [OF i(2,1), of gone user t now] e by simp
  then have s: "single_holder l" by (simp add: grants_fresh_def)
  have lim: "g_lim (admit_running x c h) = g_lim h" for x c h by (simp add: admit_running_def)
  show ?thesis
    using l s f owed_frame [OF i(3)] owed_admit [OF i(3)]
    by (cases r) (simp_all add: enter_gate_def e gate_inv_def lim)
qed

lemma inv_resume:
  assumes "gate_inv g" and w: "wid \<in> set (acquiring (g_lim g))"
  shows "gate_inv (resume_gate wid wake sc g)"
proof -
  obtain r l where e: "acquire_finish wid wake (g_lim g) = (r, l)" by fastforce
  have i: "limiter_inv (g_lim g)" "single_holder (g_lim g)" "slots_owed g" using assms by (auto simp: gate_inv_def)
  have l: "limiter_inv l" using acquire_finish_inv [of "g_lim g" wid wake] i(1) w e by simp
  have f: "grants_fresh (g_lim g) l (case r of Inl _ \<Rightarrow> None | Inr sid \<Rightarrow> Some sid)"
    using fresh_finish [OF i(2,1) w, of wake] e by simp
  then have s: "single_holder l" by (simp add: grants_fresh_def)
  have lim: "g_lim (admit_running x c h) = g_lim h" for x c h by (simp add: admit_running_def)
  show ?thesis
    using l s f owed_frame [OF i(3)] owed_admit [OF i(3)]
    by (cases r) (simp_all add: resume_gate_def e gate_inv_def lim)
qed

lemma inv_frame:
  assumes "gate_inv g" and "limiter_inv l" and "grants_fresh (g_lim g) l None"
  shows "gate_inv (g\<lparr>g_lim := l\<rparr>)"
  using assms owed_frame [of g l] by (simp add: gate_inv_def grants_fresh_def)

lemma inv_take_over:
  assumes "gate_inv g" and i: "i < length (g_running g)"
  shows "gate_inv (take_over i g)"
proof -
  obtain sid sc where e: "g_running g ! i = (sid, sc)" by fastforce
  have o: "slots_owed g" using assms(1) by (simp add: gate_inv_def)
  have m: "(sid, sc) \<in> set (g_running g)" using e i nth_mem by fastforce
  note d = slots_owedD [OF o]
  let ?sc = "sc\<lparr>sc_transferred := True\<rparr>" and ?run = "(g_running g)[i := (sid, sc\<lparr>sc_transferred := True\<rparr>)]"
  have g: "take_over i g = g\<lparr>g_running := ?run, g_taken := g_taken g @ [sid]\<rparr>"
    using d(4) [OF m] by (simp add: take_over_def e take_turn_slot_def)
  have "map fst ?run = map fst (g_running g)" using i e by (simp add: map_update list_update_same_conv)
  then have dr: "distinct (map fst ?run)" using d(1) by simp
  have sr: "set ?run = insert (sid, ?sc) (set (g_running g) - {(sid, sc)})"
    using d(1) i e by (simp add: set_update_distinct distinct_map)
  have other: "x \<noteq> sid" if "(x, c) \<in> set ?run" "\<not> sc_transferred c" for x c
  proof
    assume x: "x = sid"
    have "c \<noteq> ?sc" using that(2) by auto
    then have "(x, c) \<in> set (g_running g) - {(sid, sc)}" using that(1) sr by auto
    then show False using same_fst [OF d(1) m, of c] x by auto
  qed
  have old: "(x, c) \<in> set (g_running g)" if "(x, c) \<in> set ?run" "\<not> sc_transferred c" for x c
    using that sr by auto
  let ?g = "g\<lparr>g_running := ?run, g_taken := g_taken g @ [sid]\<rparr>"
  have gs: "g_lim ?g = g_lim g" "g_taken ?g = g_taken g @ [sid]" "g_running ?g = ?run" by simp_all
  have "slots_owed (take_over i g)"
    unfolding slots_owed_def g gs
  proof (intro conjI ballI impI)
    show "distinct (map fst ?run)" by (rule dr)
    show "set (g_taken g @ [sid]) \<subseteq> set (held (g_lim g))" using d(2) d(3) [OF m] by auto
  next
    fix en assume en: "en \<in> set ?run"
    obtain x c where x: "en = (x, c)" by fastforce
    show "case en of (sida, sc) \<Rightarrow> sida \<in> set (held (g_lim g)) \<and> sc_slot sc = Some sida \<and>
        (\<not> sc_transferred sc \<longrightarrow> sida \<notin> set (g_taken g @ [sid]) \<and> \<not> released (slots (g_lim g) ! sida))"
    proof (cases "sc_transferred c")
      case True
      have "(x, c) = (sid, ?sc) \<or> (x, c) \<in> set (g_running g)" using en x sr by auto
      then show ?thesis using True d(3,4) m by (auto simp: x)
    next
      case False
      note o1 = old [OF en [unfolded x] False] and o2 = other [OF en [unfolded x] False]
      show ?thesis using d(3,4) [OF o1] d(5,6) [OF o1 False] o2 by (simp add: x)
    qed
  next
    fix x assume x: "x \<in> set (held (g_lim g))" "\<not> released (slots (g_lim g) ! x)"
    show "x \<in> set (g_taken g @ [sid]) \<or> (\<exists>sc. (x, sc) \<in> set ?run \<and> \<not> sc_transferred sc)"
    proof (cases "x \<in> set (g_taken g) \<or> x = sid")
      case False
      then obtain c where "(x, c) \<in> set (g_running g)" "\<not> sc_transferred c" using d(7) [OF x] by blast
      then show ?thesis using sr False by auto
    qed auto
  qed
  then show ?thesis using assms(1) by (simp add: gate_inv_def g)
qed

lemma gate_inv_release:
  assumes "gate_inv g" and "sid \<in> set (held (g_lim g))" and "slots_owed g'"
    and "g_lim g' = release_slot sid (g_lim g)"
  shows "gate_inv g'"
proof -
  have i: "limiter_inv (g_lim g)" "single_holder (g_lim g)" using assms(1) by (auto simp: gate_inv_def)
  have s: "sid < length (slots (g_lim g))" using single_holderD(4) [OF i(2) assms(2)] .
  show ?thesis
    using release_held_inv [OF i(1) s] single_release [OF i(2) single_holderD(1) [OF i(2) assms(2)] s] assms(3,4)
    by (simp add: gate_inv_def)
qed

lemma inv_handler:
  assumes "gate_inv g" and t: "sid \<in> set (g_taken g)"
  shows "gate_inv (handler_release sid g)"
proof -
  have o: "slots_owed g" and s: "single_holder (g_lim g)" using assms(1) by (auto simp: gate_inv_def)
  note d = slots_owedD [OF o]
  have "slots_owed (g\<lparr>g_lim := release_slot sid (g_lim g), g_running := g_running g,
      g_taken := remove1 sid (g_taken g)\<rparr>)"
  proof (rule owed_release [OF o s d(2) [OF t] d(1)])
    show "sc_transferred sc" if "(sid, sc) \<in> set (g_running g)" for sc using d(5) [OF that] t by blast
    show "set (remove1 sid (g_taken g)) \<subseteq> set (g_taken g)" by (rule set_remove1_subset)
  qed auto
  then have "slots_owed (handler_release sid g)" by (simp add: handler_release_def)
  then show ?thesis by (rule gate_inv_release [OF assms(1) d(2) [OF t]]) (simp add: handler_release_def)
qed

lemma inv_leave:
  assumes "gate_inv g" and i: "i < length (g_running g)"
  shows "gate_inv (leave_gate i g)"
proof -
  obtain sid sc where e: "g_running g ! i = (sid, sc)" by fastforce
  have o: "slots_owed g" and s: "single_holder (g_lim g)" using assms(1) by (auto simp: gate_inv_def)
  have m: "(sid, sc) \<in> set (g_running g)" using e i nth_mem by fastforce
  note d = slots_owedD [OF o]
  let ?run = "take i (g_running g) @ drop (Suc i) (g_running g)"
  have sr: "set ?run = {e \<in> set (g_running g). fst e \<noteq> sid}" and dr: "distinct (map fst ?run)"
    using set_drop_nth [OF d(1) i] e by simp_all
  show ?thesis
  proof (cases "sc_transferred sc")
    case True
    have g: "leave_gate i g = g\<lparr>g_running := ?run\<rparr>" using True by (simp add: leave_gate_def e gate_exit_def)
    have gs: "g_lim (g\<lparr>g_running := ?run\<rparr>) = g_lim g" "g_taken (g\<lparr>g_running := ?run\<rparr>) = g_taken g"
      "g_running (g\<lparr>g_running := ?run\<rparr>) = ?run" by simp_all
    have "slots_owed (leave_gate i g)" unfolding g slots_owed_def gs
    proof (intro conjI ballI impI)
      show "distinct (map fst ?run)" by (rule dr)
      show "set (g_taken g) \<subseteq> set (held (g_lim g))" using d(2) by blast
    next
      fix en assume "en \<in> set ?run"
      then have en: "en \<in> set (g_running g)" using sr by auto
      obtain x c where x: "en = (x, c)" by fastforce
      show "case en of (sid, sc) \<Rightarrow> sid \<in> set (held (g_lim g)) \<and> sc_slot sc = Some sid \<and>
          (\<not> sc_transferred sc \<longrightarrow> sid \<notin> set (g_taken g) \<and> \<not> released (slots (g_lim g) ! sid))"
        using d(3-6) [OF en [unfolded x]] by (simp add: x)
    next
      fix x assume x: "x \<in> set (held (g_lim g))" "\<not> released (slots (g_lim g) ! x)"
      show "x \<in> set (g_taken g) \<or> (\<exists>sc. (x, sc) \<in> set ?run \<and> \<not> sc_transferred sc)"
      proof (cases "x \<in> set (g_taken g)")
        case False
        then obtain c where c: "(x, c) \<in> set (g_running g)" "\<not> sc_transferred c" using d(7) [OF x] by blast
        have "x \<noteq> sid" using same_fst [OF d(1) m] c True by auto
        then show ?thesis using c sr by auto
      qed simp
    qed
    then show ?thesis using assms(1) by (simp add: gate_inv_def g)
  next
    case False
    have g: "leave_gate i g = g\<lparr>g_lim := release_slot sid (g_lim g), g_running := ?run, g_taken := g_taken g\<rparr>"
      using False by (simp add: leave_gate_def e gate_exit_def)
    have "slots_owed (leave_gate i g)" unfolding g
    proof (rule owed_release [OF o s d(3) [OF m] dr])
      show "en \<in> set (g_running g)" if "en \<in> set ?run" for en using that unfolding sr by simp
      show "sc_transferred c" if "(sid, c) \<in> set ?run" for c using that unfolding sr by simp
      show "(x, c) \<in> set ?run" if "x \<noteq> sid" "(x, c) \<in> set (g_running g)" for x c
        using that unfolding sr by simp
    qed simp_all
    then show ?thesis by (rule gate_inv_release [OF assms(1) d(3) [OF m]]) (simp add: g)
  qed
qed

lemma gate_step_inv: "gate_step g g' \<Longrightarrow> gate_inv g \<Longrightarrow> gate_inv g'"
proof (induction rule: gate_step.induct)
  case (gate_delivers wid sid g)
  then show ?case
    by (intro inv_frame fresh_deliver deliver_inv) (auto simp: gate_inv_def)
next
  case (gate_configures g tot per_user timeout qmax)
  then show ?case
    by (intro inv_frame fresh_configure configure_inv) (auto simp: gate_inv_def)
qed (simp_all add: gate_inv_enter inv_resume inv_take_over inv_leave inv_handler)

lemma gate_start_inv: "gate_start g \<Longrightarrow> gate_inv g"
proof (induction rule: gate_start.induct)
  case (1 l)
  then have "limiter_inv l" by (rule turns.start_inv)
  moreover have "single_holder l" using 1
    by cases (simp add: new_limiter_def single_holder_def holders_def pipe_def)
  moreover have "held l = []" using 1 by cases (simp add: new_limiter_def)
  ultimately show ?case by (simp add: gate_inv_def slots_owed_def)
qed

interpretation gates: machine gate_start gate_step gate_inv
  by unfold_locales (auto intro: gate_start_inv gate_step_inv)

section \<open>Properties\<close>

definition streaming :: "gate \<Rightarrow> nat list" where
  "streaming g = map fst (filter (\<lambda>e. \<not> sc_transferred (snd e)) (g_running g))"

lemma distinct_map_fst_filter: "distinct (map fst xs) \<Longrightarrow> distinct (map fst (filter P xs))"
  by (rule distinct_map_filter)

text \<open>
  C13. The cap really covers a streamed response: in every reachable state each admitted request
  that runs without having its slot taken over has a slot of its own that is not given back, so
  the limiter's in-flight count is at least the number of such requests, whatever other
  requests, waits, time-outs, grants, handlers and limit changes are interleaved with them.
\<close>

theorem streams_are_counted:
  assumes "gate_start g0" and "gate_step\<^sup>*\<^sup>* g0 g"
  shows "distinct (map fst (g_running g)) \<and>
    set (streaming g) \<subseteq> {sid. sid < length (slots (g_lim g)) \<and> \<not> released (slots (g_lim g) ! sid)} \<and>
    int (length (streaming g)) \<le> in_flight (g_lim g)"
proof -
  have inv: "gate_inv g" using assms by (rule gates.reachable_inv)
  then have o: "slots_owed g" and s: "single_holder (g_lim g)" and l: "limiter_inv (g_lim g)"
    by (auto simp: gate_inv_def)
  note d = slots_owedD [OF o]
  let ?live = "{sid. sid < length (slots (g_lim g)) \<and> \<not> released (slots (g_lim g) ! sid)}"
  have sub: "set (streaming g) \<subseteq> ?live"
    using d(3,6) single_holderD(4) [OF s] by (auto simp: streaming_def)
  have "distinct (streaming g)" unfolding streaming_def using d(1) by (rule distinct_map_fst_filter)
  then have "length (streaming g) = card (set (streaming g))" by (simp add: distinct_card)
  also have "\<dots> \<le> card ?live" using sub by (intro card_mono) simp_all
  also have "\<dots> = count_if (\<lambda>s. \<not> released s) (slots (g_lim g))"
    by (simp add: count_if_def length_filter_conv_card)
  finally have "int (length (streaming g)) \<le> in_flight (g_lim g)"
    using l by (simp add: limiter_inv_def base_inv_def counts_ok_def)
  then show ?thesis using d(1) sub by simp
qed

definition demo_gate0 :: gate where
  "demo_gate0 = \<lparr>g_lim = demo_start, g_running = [], g_taken = []\<rparr>"

definition demo_gate :: gate where
  "demo_gate = enter_gate False (Some ''a'') None 0 demo_bound demo_gate0"

definition demo_gate_done :: gate where
  "demo_gate_done = handler_release 0 (leave_gate 0 (take_over 0 demo_gate))"

lemmas demo_gate_defs = demo_gate0_def demo_gate_def demo_gate_done_def enter_gate_def gate_enter_def
  admit_running_def publish_slot_def take_over_def take_turn_slot_def leave_gate_def gate_exit_def
  handler_release_def

lemma demo_gate_eval:
  "g_running demo_gate = [(0, publish_slot 0 demo_bound)]" "in_flight (g_lim demo_gate) = 1"
  by (simp_all add: demo_gate_defs demo_defs)

lemma demo_gate_reachable: "gate_start demo_gate0" "gate_step\<^sup>*\<^sup>* demo_gate0 demo_gate"
proof -
  show "gate_start demo_gate0"
    unfolding demo_gate0_def by (rule gate_start.intros) (rule demo_reachable(1))
  show "gate_step\<^sup>*\<^sup>* demo_gate0 demo_gate"
    unfolding demo_gate_def by (rule r_into_rtranclp) (rule gate_enters)
qed

theorem streams_are_counted_witness:
  "int (length (streaming demo_gate)) \<le> in_flight (g_lim demo_gate) \<and> length (streaming demo_gate) = 1"
  using streams_are_counted [OF demo_gate_reachable]
  by (simp add: streaming_def demo_gate_eval publish_slot_def)

text \<open>
  C14. No slot is lost: once every admitted call has returned, every handler that took a slot over
  has run its \<open>finally\<close> and no queued request or grant is left, nothing is in flight and no user
  has a count, in whatever order hand-overs, disconnects, time-outs and grants happened before.
\<close>

theorem all_slots_come_back:
  assumes "gate_start g0" and "gate_step\<^sup>*\<^sup>* g0 g"
    and "g_running g = []" and "g_taken g = []" and "acquiring (g_lim g) = []" and "deliveries (g_lim g) = []"
  shows "in_flight (g_lim g) = 0 \<and> by_user (g_lim g) = []"
proof -
  let ?l = "g_lim g"
  have inv: "gate_inv g" using assms(1,2) by (rule gates.reachable_inv)
  then have o: "slots_owed g" and l: "limiter_inv ?l" by (auto simp: gate_inv_def)
  have c: "counts_ok ?l" and n: "no_leak_but {} ?l" using l by (auto simp: limiter_inv_def base_inv_def)
  have r: "released (slots ?l ! sid)" if "sid < length (slots ?l)" for sid
  proof (rule ccontr)
    assume nr: "\<not> released (slots ?l ! sid)"
    then have "sid \<in> set (held ?l)" using n that assms(5,6) by (auto simp: no_leak_but_def owned_def)
    then show False using slots_owedD(7) [OF o _ nr] assms(3,4) by simp
  qed
  then have all: "\<forall>s \<in> set (slots ?l). released s" by (auto simp: in_set_conv_nth)
  then have z: "count_if (\<lambda>s. \<not> released s) (slots ?l) = 0" "count_if (live u) (slots ?l) = 0" for u
    by (auto simp: count_if_eq_0 live_def)
  have "dget (by_user ?l) u = None" for u using c z by (simp add: counts_ok_def)
  then have "by_user ?l = []" by (cases "by_user ?l") (auto simp: dget_Cons split: prod.splits, metis option.distinct(1))
  then show ?thesis using c z by (simp add: counts_ok_def)
qed

lemma demo_done_eval:
  "g_running demo_gate_done = []" "g_taken demo_gate_done = []" "acquiring (g_lim demo_gate_done) = []"
  "deliveries (g_lim demo_gate_done) = []"
  by (simp_all add: demo_gate_defs demo_defs)

lemma demo_done_reachable: "gate_step\<^sup>*\<^sup>* demo_gate0 demo_gate_done"
proof -
  have "gate_step demo_gate (take_over 0 demo_gate)" by (rule gate_taken) (simp add: demo_gate_eval)
  moreover have "gate_step (take_over 0 demo_gate) (leave_gate 0 (take_over 0 demo_gate))"
    by (rule gate_leaves) (simp add: demo_gate_defs demo_defs)
  moreover have "gate_step (leave_gate 0 (take_over 0 demo_gate)) demo_gate_done"
    unfolding demo_gate_done_def by (rule gate_handler_ends) (simp add: demo_gate_defs demo_defs)
  ultimately show ?thesis using demo_gate_reachable(2) by (meson rtranclp.rtrancl_into_rtrancl)
qed

theorem all_slots_come_back_witness: "in_flight (g_lim demo_gate_done) = 0 \<and> by_user (g_lim demo_gate_done) = []"
  using demo_gate_reachable(1) demo_done_reachable demo_done_eval by (rule all_slots_come_back)

end
