(* ===== verification/StreamEvents.thy ===== *)
theory StreamEvents
  imports Json PyText
begin

text \<open>
  The event dictionaries of \<open>src/src/sse_builders.py\<close> that are made from \<open>system\<close> chunks of the SDK,
  and \<open>CompactionTracker\<close>, which turns the raw markers of context compactions into one start and
  one terminal per compaction and stream.  Truncation of a float (\<open>int(x)\<close>) is the argument
  \<open>trunc\<close>; it has no value where Python raises (an infinity or a NaN).
\<close>

section \<open>Settings\<close>

record stream_flags =
  fl_hooks :: bool
  fl_compaction :: bool
  fl_local_output :: bool
  fl_tool_progress :: bool
  fl_sub_text :: bool
  fl_sub_tools :: bool
  fl_sub_progress :: bool

section \<open>Event dictionaries\<close>

text \<open>\<open>v.get(k)\<close> when it is a dictionary, else an empty one.\<close>

definition sub_dict :: "json \<Rightarrow> string \<Rightarrow> json" where
  "sub_dict v k = (if is_obj (jfield v k) then jfield v k else J_obj [])"

definition str_field :: "json \<Rightarrow> string \<Rightarrow> json" where
  "str_field v k = jget_or (J_str []) v k"

definition build_task_event :: "json \<Rightarrow> json option" where
  "build_task_event chunk =
     (let subtype = jfield chunk ''subtype''; tool = jfield chunk ''tool_use_id'';
          parent = jor (jfield chunk ''parent_tool_use_id'') tool; data = sub_dict chunk ''data''
      in if subtype = J_str ''task_started'' then
           Some (J_obj
             [(''type'', J_str ''task_started''), (''task_id'', str_field chunk ''task_id''),
              (''description'', str_field chunk ''description''), (''session_id'', str_field chunk ''session_id''),
              (''task_type'', jor (jfield chunk ''task_type'') (jfield data ''task_type'')),
              (''subagent_type'', jor (jfield chunk ''subagent_type'') (jfield data ''subagent_type'')),
              (''tool_use_id'', tool), (''parent_tool_use_id'', parent)])
         else if subtype = J_str ''task_progress'' then
           Some (J_obj
             [(''type'', J_str ''task_progress''), (''task_id'', str_field chunk ''task_id''),
              (''description'', str_field chunk ''description''), (''last_tool_name'', jfield chunk ''last_tool_name''),
              (''usage'', jfield chunk ''usage''), (''tool_use_id'', tool), (''parent_tool_use_id'', parent)])
         else if subtype = J_str ''task_notification'' then
           Some (J_obj
             [(''type'', J_str ''task_notification''), (''task_id'', str_field chunk ''task_id''),
              (''status'', str_field chunk ''status''), (''summary'', str_field chunk ''summary''),
              (''usage'', jfield chunk ''usage''), (''tool_use_id'', tool), (''parent_tool_use_id'', parent)])
         else if subtype = J_str ''task_updated'' then
           (let patch = sub_dict chunk ''patch''
            in Some (J_obj
              [(''type'', J_str ''task_updated''), (''task_id'', str_field chunk ''task_id''),
               (''status'', jor (jfield chunk ''status'') (jfield patch ''status'')), (''patch'', patch),
               (''session_id'', jfield chunk ''session_id''), (''tool_use_id'', tool),
               (''parent_tool_use_id'', parent)]))
         else None)"

definition stream_identity :: "json \<Rightarrow> json \<times> json" where
  "stream_identity chunk =
     (let data = sub_dict chunk ''data''
      in (jor (jfield chunk ''parent_tool_use_id'') (jfield data ''parent_tool_use_id''),
          jor (jfield chunk ''session_id'') (jfield data ''session_id'')))"

text \<open>\<open>_as_int\<close>: the outer \<open>None\<close> is the exception of \<open>int\<close>.\<close>

fun as_int :: "(string \<Rightarrow> int option) \<Rightarrow> json \<Rightarrow> json option" where
  "as_int trunc (J_int n) = Some (J_int n)"
| "as_int trunc (J_float t) = map_option J_int (trunc t)"
| "as_int trunc _ = Some J_null"

definition optional_parent :: "json \<Rightarrow> (string \<times> json) list" where
  "optional_parent parent = (if jtruthy parent then [(''parent_tool_use_id'', parent)] else [])"

definition hook_event :: "json \<Rightarrow> json" where
  "hook_event chunk =
     (let data = sub_dict chunk ''data''; (parent, session) = stream_identity chunk
      in J_obj
        ([(''type'', J_str ''hook_event''), (''phase'', jfield chunk ''subtype''),
          (''hook_event_name'',
             jor (jfield chunk ''hook_event_name'')
               (jor (jfield data ''hook_event'')
                 (jor (jfield data ''hook_event_name'') (jor (jfield data ''hook_name'') (J_str []))))),
          (''tool_name'', jor (jfield data ''tool_name'') (jfield data ''tool'')),
          (''tool_use_id'', jor (jfield data ''tool_use_id'') (jfield chunk ''tool_use_id'')),
          (''outcome'', jfield data ''outcome''), (''session_id'', session)] @
         (if parent \<noteq> J_null then [(''parent_tool_use_id'', parent)] else [])))"

definition compaction_event ::
  "json \<Rightarrow> string \<Rightarrow> json \<Rightarrow> json \<Rightarrow> (string \<times> json) list \<Rightarrow> json" where
  "compaction_event subtype phase trigger parent rest =
     J_obj ([(''type'', J_str ''compaction''), (''subtype'', subtype), (''phase'', J_str phase), (''trigger'', trigger)] @
       optional_parent parent @ rest)"

definition boundary_event :: "(string \<Rightarrow> int option) \<Rightarrow> json \<Rightarrow> json option" where
  "boundary_event trunc chunk =
     (let data = sub_dict chunk ''data''; meta = sub_dict data ''compact_metadata'';
          trigger = (if jfield data ''trigger'' = J_null then jfield meta ''trigger'' else jfield data ''trigger'');
          (parent, session) = stream_identity chunk
      in case (as_int trunc (jfield meta ''pre_tokens''), as_int trunc (jfield meta ''post_tokens''),
               as_int trunc (jfield meta ''duration_ms'')) of
           (Some pre, Some post, Some dur) \<Rightarrow>
             Some (compaction_event (jfield chunk ''subtype'') ''end'' trigger parent
               [(''pre_tokens'', pre), (''post_tokens'', post), (''duration_ms'', dur), (''session_id'', session)])
         | _ \<Rightarrow> None)"

definition status_event :: "json \<Rightarrow> json option" where
  "status_event chunk =
     (let data = sub_dict chunk ''data''; status = jfield data ''status''; (parent, session) = stream_identity chunk
      in if status = J_str ''compacting'' then
           Some (compaction_event (J_str ''status'') ''start'' J_null parent [(''session_id'', session)])
         else if status = J_null \<and> jfield data ''compact_result'' \<noteq> J_null then
           Some (J_obj
             ([(''type'', J_str ''compaction''), (''subtype'', J_str ''status''), (''phase'', J_str ''end''),
               (''trigger'', J_null), (''result'', jfield data ''compact_result''), (''pre_tokens'', J_null),
               (''post_tokens'', J_null), (''duration_ms'', J_null)] @
              optional_parent parent @ [(''session_id'', session)]))
         else None)"

definition local_output_event :: "json \<Rightarrow> json option" where
  "local_output_event chunk =
     (let content = jfield (sub_dict chunk ''data'') ''content''; (parent, session) = stream_identity chunk
      in case content of
           J_str c \<Rightarrow>
             if c = [] then None
             else Some (J_obj ([(''type'', J_str ''local_command_output''), (''content'', content)] @
                    optional_parent parent @ [(''session_id'', session)]))
         | _ \<Rightarrow> None)"

text \<open>\<open>_build_progress_event\<close>; the outer \<open>None\<close> is an exception.\<close>

definition build_progress_event ::
  "(string \<Rightarrow> int option) \<Rightarrow> stream_flags \<Rightarrow> json \<Rightarrow> json option option" where
  "build_progress_event trunc fl chunk =
     (let subtype = jfield chunk ''subtype''
      in if subtype \<in> {J_str ''hook_started'', J_str ''hook_response''} then
           Some (if fl_hooks fl then Some (hook_event chunk) else None)
         else if subtype \<in> {J_str ''compact_boundary'', J_str ''compaction''} then
           (if fl_compaction fl then map_option Some (boundary_event trunc chunk) else Some None)
         else if subtype = J_str ''status'' then
           Some (if fl_compaction fl then status_event chunk else None)
         else if subtype = J_str ''local_command_output'' then
           Some (if fl_local_output fl then local_output_event chunk else None)
         else Some None)"

section \<open>Compactions\<close>

text \<open>Per stream: whether a start was announced, and the closing status held back.\<close>

type_synonym tracker = "(json \<times> json, bool \<times> json option) dict"

definition merge_result :: "json \<Rightarrow> json option \<Rightarrow> json" where
  "merge_result ev pending =
     (case (pending, ev) of
        (Some p, J_obj d) \<Rightarrow> J_obj (dput ''result'' (jfield p ''result'') d)
      | _ \<Rightarrow> ev)"

definition tracker_feed :: "json \<Rightarrow> tracker \<Rightarrow> tracker \<times> json list" where
  "tracker_feed ev t =
     (if jfield ev ''type'' \<noteq> J_str ''compaction'' then (t, [ev])
      else
        let key = stream_identity ev; st = (case dget t key of None \<Rightarrow> (False, None) | Some s \<Rightarrow> s)
        in if jfield ev ''phase'' = J_str ''start'' then
             (if fst st then (dput key st t, []) else (dput key (True, snd st) t, [ev]))
           else if jfield ev ''subtype'' = J_str ''compact_boundary'' then
             (ddel key t, [merge_result ev (snd st)])
           else (dput key (fst st, Some ev) t, []))"

definition same_stream :: "json \<times> json \<Rightarrow> json \<times> json \<Rightarrow> bool" where
  "same_stream key identity \<longleftrightarrow>
     fst key = fst identity \<and>
     (snd key \<noteq> J_null \<and> snd identity \<noteq> J_null \<longrightarrow> snd key = snd identity)"

definition closes_now :: "json option \<Rightarrow> (json \<times> json) \<times> bool \<times> json option \<Rightarrow> bool" where
  "closes_now chunk e \<longleftrightarrow>
     (case chunk of None \<Rightarrow> True | Some c \<Rightarrow> same_stream (fst e) (stream_identity c)) \<and> snd (snd e) \<noteq> None"

definition tracker_flush :: "json option \<Rightarrow> tracker \<Rightarrow> tracker \<times> json list" where
  "tracker_flush chunk t =
     (filter (\<lambda>e. \<not> closes_now chunk e) t, map (\<lambda>e. the (snd (snd e))) (filter (closes_now chunk) t))"

section \<open>Teammate messages\<close>

fun contains :: "string \<Rightarrow> string \<Rightarrow> bool" where
  "contains p [] = (p = [])"
| "contains p (c # s) = (starts_with p (c # s) \<or> contains p s)"

definition is_teammate_message_text :: "string \<Rightarrow> bool" where
  "is_teammate_message_text t \<longleftrightarrow>
     contains ''Another Claude session sent a message'' t \<and> contains ''This came from another Claude session'' t"

section \<open>One start and one terminal per compaction\<close>

datatype tracker_op = Feed json | Flush "json option"

fun tracker_step :: "tracker \<Rightarrow> tracker_op \<Rightarrow> tracker \<times> json list" where
  "tracker_step t (Feed ev) = tracker_feed ev t"
| "tracker_step t (Flush c) = tracker_flush c t"

text \<open>A client that keeps the streams whose compaction it shows as running.\<close>

definition compaction_client :: "(json \<times> json) list \<Rightarrow> json \<Rightarrow> (json \<times> json) list option" where
  "compaction_client shown ev =
     (if jfield ev ''type'' \<noteq> J_str ''compaction'' then Some shown
      else
        let key = stream_identity ev
        in if jfield ev ''phase'' = J_str ''start'' then
             (if key \<in> set shown then None else Some (key # shown))
           else Some (removeAll key shown))"

definition tracker_ok :: "tracker \<Rightarrow> (json \<times> json) list \<Rightarrow> bool" where
  "tracker_ok t shown \<longleftrightarrow>
     dwf t \<and> (\<forall>key. key \<in> set shown \<longleftrightarrow> (\<exists>p. dget t key = Some (True, p))) \<and>
     (\<forall>key b ev. dget t key = Some (b, Some ev) \<longrightarrow>
        jfield ev ''type'' = J_str ''compaction'' \<and> jfield ev ''phase'' \<noteq> J_str ''start'' \<and> stream_identity ev = key)"

lemma dget_filter_entry:
  assumes "dwf d"
  shows "dget (filter Q d) k = (case dget d k of None \<Rightarrow> None | Some v \<Rightarrow> if Q (k, v) then Some v else None)"
proof -
  have iff: "dget (filter Q d) k = Some v \<longleftrightarrow> dget d k = Some v \<and> Q (k, v)" for v
    using assms by (simp add: dget_Some_iff dwf_filter)
  show ?thesis
  proof (cases "dget (filter Q d) k")
    case None
    then have "\<not> (dget d k = Some v \<and> Q (k, v))" for v using iff [of v] by simp
    then show ?thesis using None by (cases "dget d k") auto
  next
    case (Some v)
    then show ?thesis using iff [of v] by simp
  qed
qed

lemma merge_result_keeps:
  "k \<noteq> ''result'' \<Longrightarrow> jfield (merge_result ev p) k = jfield ev k"
  by (cases ev) (simp_all add: merge_result_def jget_or_def dget_dput split: option.split)

lemma merge_result_identity: "stream_identity (merge_result ev p) = stream_identity ev"
  by (simp add: stream_identity_def sub_dict_def merge_result_keeps)

lemma client_ends:
  assumes "\<And>ev. ev \<in> set evs \<Longrightarrow> jfield ev ''type'' = J_str ''compaction'' \<and> jfield ev ''phase'' \<noteq> J_str ''start''"
  shows "reads compaction_client shown evs = Some (filter (\<lambda>k. k \<notin> stream_identity ` set evs) shown)"
  using assms
proof (induction evs arbitrary: shown)
  case (Cons ev evs)
  have "compaction_client shown ev = Some (filter (\<lambda>k. k \<noteq> stream_identity ev) shown)"
    using Cons.prems [of ev] by (simp add: compaction_client_def Let_def removeAll_filter_not_eq eq_commute)
  moreover have "reads compaction_client (filter (\<lambda>k. k \<noteq> stream_identity ev) shown) evs =
    Some (filter (\<lambda>k. k \<notin> stream_identity ` set evs) (filter (\<lambda>k. k \<noteq> stream_identity ev) shown))"
    using Cons.prems by (intro Cons.IH) auto
  moreover have "filter (\<lambda>k. k \<notin> stream_identity ` set evs) (filter (\<lambda>k. k \<noteq> stream_identity ev) shown) =
    filter (\<lambda>k. k \<notin> stream_identity ` set (ev # evs)) shown"
    unfolding filter_filter by (rule filter_cong) auto
  ultimately show ?case by simp
qed simp

lemma feed_conforms_client:
  assumes ok: "tracker_ok t shown" and f: "tracker_feed ev t = (t', out)"
  shows "\<exists>shown'. reads compaction_client shown out = Some shown' \<and> tracker_ok t' shown'"
proof -
  let ?key = "stream_identity ev"
  let ?st = "case dget t ?key of None \<Rightarrow> (False, None) | Some s \<Rightarrow> s"
  have wf: "dwf t" and sh: "\<And>key. key \<in> set shown \<longleftrightarrow> (\<exists>p. dget t key = Some (True, p))"
    and pe: "\<And>key b ev. dget t key = Some (b, Some ev) \<Longrightarrow>
      jfield ev ''type'' = J_str ''compaction'' \<and> jfield ev ''phase'' \<noteq> J_str ''start'' \<and> stream_identity ev = key"
    using ok by (auto simp: tracker_ok_def)
  consider (other) "jfield ev ''type'' \<noteq> J_str ''compaction''"
    | (start) "jfield ev ''type'' = J_str ''compaction''" "jfield ev ''phase'' = J_str ''start''"
    | (boundary) "jfield ev ''type'' = J_str ''compaction''" "jfield ev ''phase'' \<noteq> J_str ''start''"
        "jfield ev ''subtype'' = J_str ''compact_boundary''"
    | (status) "jfield ev ''type'' = J_str ''compaction''" "jfield ev ''phase'' \<noteq> J_str ''start''"
        "jfield ev ''subtype'' \<noteq> J_str ''compact_boundary''" by blast
  then show ?thesis
  proof cases
    case other
    then show ?thesis using f ok by (auto simp: tracker_feed_def compaction_client_def)
  next
    case start
    show ?thesis
    proof (cases "fst ?st")
      case True
      then obtain p where p: "dget t ?key = Some (True, p)" by (cases "dget t ?key") (auto split: prod.splits)
      then have "t' = t" "out = []" using f start by (auto simp: tracker_feed_def Let_def dput_same)
      then show ?thesis using ok by auto
    next
      case False
      then have t': "t' = dput ?key (True, snd ?st) t" and out: "out = [ev]"
        using f start by (auto simp: tracker_feed_def Let_def)
      have "?key \<notin> set shown" using sh [of ?key] False by auto
      moreover have "tracker_ok t' (?key # shown)"
        unfolding tracker_ok_def t'
      proof (intro conjI allI impI)
        show "dwf (dput ?key (True, snd ?st) t)" using wf by (rule dwf_dput)
        show "key \<in> set (?key # shown) \<longleftrightarrow> (\<exists>p. dget (dput ?key (True, snd ?st) t) key = Some (True, p))" for key
          using sh [of key] by (simp add: dget_dput)
        show "jfield e ''type'' = J_str ''compaction''" "jfield e ''phase'' \<noteq> J_str ''start''" "stream_identity e = key"
          if d: "dget (dput ?key (True, snd ?st) t) key = Some (b, Some e)" for key b e
        proof -
          have "\<exists>b. dget t key = Some (b, Some e)"
          proof (cases "key = ?key")
            case True
            then have "snd ?st = Some e" using d by (simp add: dget_dput)
            then show ?thesis unfolding True by (cases "dget t ?key") (simp, metis option.simps(5) prod.collapse)
          next
            case False
            then show ?thesis using d by (metis dget_dput)
          qed
          then show "jfield e ''type'' = J_str ''compaction''" "jfield e ''phase'' \<noteq> J_str ''start''" "stream_identity e = key"
            using pe by blast+
        qed
      qed
      ultimately show ?thesis using out start by (auto simp: compaction_client_def)
    qed
  next
    case boundary
    then have t': "t' = ddel ?key t" and out: "out = [merge_result ev (snd ?st)]"
      using f by (auto simp: tracker_feed_def Let_def)
    have "reads compaction_client shown out = Some (removeAll ?key shown)"
      using boundary by (simp add: out compaction_client_def merge_result_keeps merge_result_identity)
    moreover have "tracker_ok t' (removeAll ?key shown)"
      unfolding tracker_ok_def t' using wf sh pe by (auto simp: dget_dput dget_ddel dwf_dput dwf_ddel split: if_splits)
    ultimately show ?thesis by blast
  next
    case status
    then have t': "t' = dput ?key (fst ?st, Some ev) t" and out: "out = []"
      using f by (auto simp: tracker_feed_def Let_def)
    have "tracker_ok t' shown"
      unfolding tracker_ok_def t' using wf sh pe status by (auto simp: dget_dput dwf_dput split: option.splits if_splits)
    then show ?thesis using out by auto
  qed
qed

lemma flush_conforms_client:
  assumes ok: "tracker_ok t shown" and f: "tracker_flush c t = (t', out)"
  shows "\<exists>shown'. reads compaction_client shown out = Some shown' \<and> tracker_ok t' shown'"
proof -
  have wf: "dwf t" and sh: "\<And>key. key \<in> set shown \<longleftrightarrow> (\<exists>p. dget t key = Some (True, p))"
    and pe: "\<And>key b ev. dget t key = Some (b, Some ev) \<Longrightarrow>
      jfield ev ''type'' = J_str ''compaction'' \<and> jfield ev ''phase'' \<noteq> J_str ''start'' \<and> stream_identity ev = key"
    using ok by (auto simp: tracker_ok_def)
  have t': "t' = filter (\<lambda>e. \<not> closes_now c e) t" and out: "out = map (\<lambda>e. the (snd (snd e))) (filter (closes_now c) t)"
    using f by (auto simp: tracker_flush_def)
  have mem: "\<exists>key b. dget t key = Some (b, Some ev) \<and> closes_now c (key, b, Some ev)" if evo: "ev \<in> set out" for ev
  proof -
    obtain e' where e': "e' \<in> set t" "closes_now c e'" "ev = the (snd (snd e'))" using evo unfolding out by auto
    obtain key b p where k: "e' = (key, b, p)" by (rule prod_cases3)
    have e: "(key, b, p) \<in> set t" "closes_now c (key, b, p)" "ev = the p"
      using e' unfolding k fst_conv snd_conv by blast+
    then have "p = Some ev" by (auto simp: closes_now_def)
    then show ?thesis using e dget_Some_iff [OF wf, of key "(b, p)"] by blast
  qed
  have ends: "jfield ev ''type'' = J_str ''compaction'' \<and> jfield ev ''phase'' \<noteq> J_str ''start''" if "ev \<in> set out" for ev
    using mem [OF that] pe by blast
  have keys: "k \<in> stream_identity ` set out \<longleftrightarrow> (\<exists>v. dget t k = Some v \<and> closes_now c (k, v))" for k
  proof
    assume "k \<in> stream_identity ` set out"
    then obtain ev where ev: "ev \<in> set out" "k = stream_identity ev" by auto
    obtain key b where kb: "dget t key = Some (b, Some ev)" "closes_now c (key, b, Some ev)" using mem [OF ev(1)] by blast
    then have "key = k" using pe [OF kb(1)] ev(2) by simp
    then show "\<exists>v. dget t k = Some v \<and> closes_now c (k, v)" using kb by blast
  next
    assume "\<exists>v. dget t k = Some v \<and> closes_now c (k, v)"
    then obtain b p where v: "dget t k = Some (b, p)" "closes_now c (k, b, p)" by auto
    then obtain ev where p: "p = Some ev" by (auto simp: closes_now_def)
    have "(k, b, p) \<in> set (filter (closes_now c) t)" using v dget_SomeD [of t k] by simp
    then have "ev \<in> set out" unfolding out by (force simp: p)
    then show "k \<in> stream_identity ` set out" using pe [OF v(1) [unfolded p]] by force
  qed
  let ?shown = "filter (\<lambda>k. k \<notin> stream_identity ` set out) shown"
  have dg: "dget t' k = Some v \<longleftrightarrow> dget t k = Some v \<and> \<not> closes_now c (k, v)" for k v
    unfolding t' using dget_filter_entry [OF wf, of "\<lambda>e. \<not> closes_now c e" k]
    by (auto split: option.splits if_splits)
  have "tracker_ok t' ?shown"
    unfolding tracker_ok_def
  proof (intro conjI allI impI)
    show "dwf t'" unfolding t' using wf by (rule dwf_filter)
    fix key
    show "key \<in> set ?shown \<longleftrightarrow> (\<exists>p. dget t' key = Some (True, p))"
      using sh [of key] keys [of key] dg [of key] by auto
  next
    fix key b ev assume "dget t' key = Some (b, Some ev)"
    then have "dget t key = Some (b, Some ev)" using dg by blast
    then show "jfield ev ''type'' = J_str ''compaction''" "jfield ev ''phase'' \<noteq> J_str ''start''" "stream_identity ev = key"
      using pe by blast+
  qed
  then show ?thesis using client_ends [of out shown] ends by blast
qed

interpretation compactions: conforming tracker_step compaction_client tracker_ok "\<lambda>_. True"
proof unfold_locales
  fix t shown op t' out
  assume "tracker_ok t shown" "tracker_step t op = (t', out)"
  then show "\<exists>shown'. reads compaction_client shown out = Some shown' \<and> tracker_ok t' shown'"
    by (cases op) (auto intro: feed_conforms_client flush_conforms_client)
qed

lemma tracker_starts: "tracker_ok [] []"
  by (simp add: tracker_ok_def)

text \<open>
   Whatever markers the streams of a turn send and whenever a tracker is flushed, the client is
  never shown a second start of a compaction that it already shows as running, and the streams it
  shows as running are exactly those the tracker holds as open.
\<close>

theorem compaction_starts_paired:
  "\<exists>shown. reads compaction_client [] (snd (feed_all tracker_step [] ops)) = Some shown \<and>
     (\<forall>key. key \<in> set shown \<longleftrightarrow> (\<exists>p. dget (fst (feed_all tracker_step [] ops)) key = Some (True, p)))"
proof -
  obtain t out where f: "feed_all tracker_step [] ops = (t, out)" by fastforce
  have "list_all (\<lambda>_. True) ops" by (simp add: list_all_iff)
  from compactions.feed_conforms [OF tracker_starts this f]
  obtain shown where "reads compaction_client [] out = Some shown" "tracker_ok t shown" by blast
  then show ?thesis by (auto simp: f tracker_ok_def)
qed

text \<open>A failed compaction: two starts, a closing status, then the text of the turn.\<close>

lemma demo_compaction:
  "map (\<lambda>e. jfield e ''phase'')
     (snd (feed_all tracker_step []
       (map Feed (List.map_filter status_event
          [J_obj [(''data'', J_obj [(''status'', J_str ''compacting'')])],
           J_obj [(''data'', J_obj [(''status'', J_str ''compacting'')])],
           J_obj [(''data'', J_obj [(''status'', J_null), (''compact_result'', J_str ''failed'')])]]) @
        [Flush (Some (J_obj [(''type'', J_str ''assistant'')]))]))) =
   [J_str ''start'', J_str ''end'']"
  by code_simp

end
