(* ===== verification/ChunkText.thy ===== *)
theory ChunkText
  imports StreamEvents CollabFilter
begin

text \<open>
  Content blocks and chunks: \<open>src/src/content_blocks.py\<close>, \<open>src/src/chunk_processing.py\<close> and the
  block formatting of \<open>src/src/message_adapter.py\<close>.  A chunk is a dictionary whose \<open>content\<close>
  may be a list of objects of the SDK; the classes of those and their fields are the SDK's.
  Where Python raises, a function has no value.  \<open>str()\<close> of a value is the argument \<open>show\<close>.
\<close>

section \<open>Blocks and chunks\<close>

text \<open>\<open>Plain\<close> is any decoded JSON value; the others are the SDK's classes of content blocks.\<close>

datatype block =
    Plain json
  | Text_block string
  | Thinking_block string string
  | Tool_use_block string string json
  | Tool_result_block string json json
  | Server_use_block string string json
  | Server_result_block string json

datatype content = Blocks "block list" | Other json

record chunk =
  ck_fields :: "(string \<times> json) list"
  ck_content :: "content option"

abbreviation cfield :: "chunk \<Rightarrow> string \<Rightarrow> json" where
  "cfield c k \<equiv> jfield (J_obj (ck_fields c)) k"

fun attrs :: "block \<Rightarrow> (string \<times> json) list" where
  "attrs (Plain v) = []"
| "attrs (Text_block t) = [(''text'', J_str t)]"
| "attrs (Thinking_block t sig) = [(''thinking'', J_str t), (''signature'', J_str sig)]"
| "attrs (Tool_use_block i n v) = [(''id'', J_str i), (''name'', J_str n), (''input'', v)]"
| "attrs (Tool_result_block i c e) = [(''tool_use_id'', J_str i), (''content'', c), (''is_error'', e)]"
| "attrs (Server_use_block i n v) = [(''id'', J_str i), (''name'', J_str n), (''input'', v)]"
| "attrs (Server_result_block i c) = [(''tool_use_id'', J_str i), (''content'', c)]"

text \<open>The dictionary a block is, or else its attributes: where \<open>block_field\<close> reads.\<close>

fun block_fields :: "block \<Rightarrow> (string \<times> json) list" where
  "block_fields (Plain (J_obj d)) = d"
| "block_fields b = attrs b"

definition block_field :: "block \<Rightarrow> string \<Rightarrow> json \<Rightarrow> json" where
  "block_field b k dflt = jget_or dflt (J_obj (block_fields b)) k"

definition content_block_type :: "block \<Rightarrow> json" where
  "content_block_type b =
     (if block_field b ''type'' J_null \<noteq> J_null then block_field b ''type'' J_null
      else
        case b of
          Tool_use_block _ _ _ \<Rightarrow> J_str ''tool_use''
        | Tool_result_block _ _ _ \<Rightarrow> J_str ''tool_result''
        | Server_use_block _ _ _ \<Rightarrow> J_str ''server_tool_use''
        | Server_result_block _ _ \<Rightarrow> J_str ''advisor_tool_result''
        | _ \<Rightarrow> J_null)"

definition tool_block_types :: "string list" where
  "tool_block_types = [''tool_use'', ''tool_result'', ''server_tool_use'', ''advisor_tool_result'']"

fun hashable :: "json \<Rightarrow> bool" where
  "hashable (J_list _) = False"
| "hashable (J_obj _) = False"
| "hashable _ = True"

definition is_tool_content_block :: "block \<Rightarrow> bool option" where
  "is_tool_content_block b =
     (if hashable (content_block_type b) then Some (content_block_type b \<in> J_str ` set tool_block_types) else None)"

fun as_blocks :: "content \<Rightarrow> block list option" where
  "as_blocks (Blocks bs) = Some bs"
| "as_blocks (Other (J_list vs)) = Some (map Plain vs)"
| "as_blocks (Other _) = None"

definition chunk_content :: "chunk \<Rightarrow> content" where
  "chunk_content c = (case ck_content c of None \<Rightarrow> Other J_null | Some v \<Rightarrow> v)"

section \<open>Normalized blocks\<close>

definition normalize_tool_use_block :: "(block \<Rightarrow> string) \<Rightarrow> string \<Rightarrow> bool \<Rightarrow> block \<Rightarrow> json" where
  "normalize_tool_use_block show type stringify b =
     (let v = block_field b ''input'' (J_obj [])
      in J_obj
        [(''type'', J_str type), (''id'', block_field b ''id'' (J_str [])), (''name'', block_field b ''name'' (J_str [])),
         (''input'', if stringify \<and> \<not> is_obj v then J_str (show (Plain v)) else v)])"

definition keep_content :: "(json \<Rightarrow> json) \<Rightarrow> (string \<times> json) list \<Rightarrow> json" where
  "keep_content trunc d = J_obj (dput ''content'' (trunc (jget_or (J_str []) (J_obj d) ''content'')) d)"

definition normalize_tool_result_block :: "(json \<Rightarrow> json) \<Rightarrow> bool \<Rightarrow> block \<Rightarrow> json" where
  "normalize_tool_result_block trunc keep b =
     (case (keep, b) of
        (True, Plain (J_obj d)) \<Rightarrow> keep_content trunc d
      | _ \<Rightarrow>
          J_obj
            [(''type'', J_str ''tool_result''), (''tool_use_id'', block_field b ''tool_use_id'' (J_str [])),
             (''content'', trunc (block_field b ''content'' (J_str []))),
             (''is_error'', J_bool (jtruthy (block_field b ''is_error'' (J_bool False))))])"

definition normalize_advisor_tool_result_block :: "(json \<Rightarrow> json) \<Rightarrow> bool \<Rightarrow> block \<Rightarrow> json" where
  "normalize_advisor_tool_result_block trunc keep b =
     (case (keep, b) of
        (True, Plain (J_obj d)) \<Rightarrow> keep_content trunc d
      | _ \<Rightarrow>
          J_obj
            [(''type'', J_str ''advisor_tool_result''), (''tool_use_id'', block_field b ''tool_use_id'' (J_str [])),
             (''content'', trunc (block_field b ''content'' (J_str [])))])"

definition result_for_sse :: "json \<Rightarrow> json \<Rightarrow> json \<Rightarrow> json" where
  "result_for_sse tid v err =
     J_obj [(''type'', J_str ''tool_result''), (''tool_use_id'', tid), (''content'', v), (''is_error'', J_bool (jtruthy err))]"

definition normalize_tool_result_for_sse :: "(block \<Rightarrow> string) \<Rightarrow> block \<Rightarrow> json" where
  "normalize_tool_result_for_sse show b =
     (case b of
        Tool_result_block i v e \<Rightarrow> result_for_sse (J_str i) (jor v (J_str [])) e
      | Server_result_block i v \<Rightarrow> result_for_sse (J_str i) (jor v (J_str [])) (J_bool False)
      | Plain (J_obj d) \<Rightarrow>
          result_for_sse (jget_or (J_str []) (J_obj d) ''tool_use_id'') (jget_or (J_str []) (J_obj d) ''content'')
            (jget_or (J_bool False) (J_obj d) ''is_error'')
      | _ \<Rightarrow> result_for_sse (J_str []) (J_str (show b)) (J_bool False))"

definition normalize_embedded_tool_block :: "(block \<Rightarrow> string) \<Rightarrow> block \<Rightarrow> block" where
  "normalize_embedded_tool_block show b =
     (case b of
        Tool_use_block _ _ _ \<Rightarrow> Plain (normalize_tool_use_block show ''tool_use'' False b)
      | Tool_result_block _ _ _ \<Rightarrow> Plain (normalize_tool_result_for_sse show b)
      | Server_use_block _ _ _ \<Rightarrow> Plain (normalize_tool_use_block show ''server_tool_use'' False b)
      | Server_result_block _ _ \<Rightarrow> Plain (normalize_advisor_tool_result_block id False b)
      | _ \<Rightarrow> b)"

section \<open>Blocks as text\<close>

text \<open>\<open>json.dumps(v, ensure_ascii=False)\<close>.\<close>

definition hex_digit :: "nat \<Rightarrow> char" where
  "hex_digit n = ''0123456789abcdef'' ! n"

definition dump_char :: "char \<Rightarrow> string" where
  "dump_char c =
     (if c = quote_char then [backslash, quote_char]
      else if c = backslash then [backslash, backslash]
      else if code c = 8 then [backslash, CHR ''b'']
      else if code c = 9 then [backslash, CHR ''t'']
      else if code c = 10 then [backslash, CHR ''n'']
      else if code c = 12 then [backslash, CHR ''f'']
      else if code c = 13 then [backslash, CHR ''r'']
      else if code c < 32 then backslash # ''u00'' @ [hex_digit (code c div 16), hex_digit (code c mod 16)]
      else [c])"

definition dump_text :: "string \<Rightarrow> string" where
  "dump_text s = quote_char # concat (map dump_char s) @ [quote_char]"

definition dump_int :: "int \<Rightarrow> string" where
  "dump_int n = (if n < 0 then CHR ''-'' # dec (nat (- n)) else dec (nat n))"

fun join_with :: "string \<Rightarrow> string list \<Rightarrow> string" where
  "join_with sep [] = []"
| "join_with sep [x] = x"
| "join_with sep (x # y # xs) = x @ sep @ join_with sep (y # xs)"

fun dumps :: "json \<Rightarrow> string" where
  "dumps J_null = ''null''"
| "dumps (J_bool b) = (if b then ''true'' else ''false'')"
| "dumps (J_int n) = dump_int n"
| "dumps (J_float t) = t"
| "dumps (J_str s) = dump_text s"
| "dumps (J_list vs) = CHR ''['' # join_with '', '' (map dumps vs) @ '']''"
| "dumps (J_obj d) = open_brace # join_with '', '' (map (\<lambda>(k, v). dump_text k @ '': '' @ dumps v) d) @ [close_brace]"

definition tool_result_max_length :: nat where "tool_result_max_length = 2000"

fun truncate_tool_content :: "json \<Rightarrow> json" where
  "truncate_tool_content (J_str s) =
     (if length s > tool_result_max_length then J_str (take tool_result_max_length s @ nl # ''... (truncated)'') else J_str s)"
| "truncate_tool_content v = v"

definition block_to_dict :: "(block \<Rightarrow> string) \<Rightarrow> block \<Rightarrow> json option" where
  "block_to_dict show b =
     (case b of
        Text_block t \<Rightarrow> Some (J_obj [(''type'', J_str ''text''), (''text'', J_str t)])
      | Thinking_block t sig \<Rightarrow> Some (J_obj [(''type'', J_str ''thinking''), (''thinking'', J_str t)])
      | Server_use_block _ _ _ \<Rightarrow> Some (normalize_tool_use_block show ''server_tool_use'' True b)
      | Server_result_block _ _ \<Rightarrow> Some (normalize_advisor_tool_result_block truncate_tool_content False b)
      | Tool_use_block _ _ _ \<Rightarrow> Some (normalize_tool_use_block show ''tool_use'' True b)
      | Tool_result_block _ _ _ \<Rightarrow> Some (normalize_tool_result_block truncate_tool_content False b)
      | Plain (J_str s) \<Rightarrow> Some (J_obj [(''type'', J_str ''text''), (''text'', J_str s)])
      | Plain v \<Rightarrow>
          (let type = jfield v ''type''
           in if type \<in> {J_str ''text'', J_str ''thinking'', J_str ''server_tool_use'', J_str ''tool_use''} then Some v
              else if type = J_str ''advisor_tool_result'' then
                Some (normalize_advisor_tool_result_block truncate_tool_content True b)
              else if type = J_str ''tool_result'' then Some (normalize_tool_result_block truncate_tool_content True b)
              else None))"

definition think_text :: "string \<Rightarrow> string" where
  "think_text t = ''<think>'' @ t @ ''</think>''"

definition fenced :: "string \<Rightarrow> string" where
  "fenced t = nl # ''```json'' @ nl # t @ nl # ''```'' @ [nl]"

text \<open>\<open>format_block\<close>; a block of an unknown kind formats as \<open>J_null\<close>.\<close>

definition format_block :: "(block \<Rightarrow> string) \<Rightarrow> block \<Rightarrow> json option" where
  "format_block show b =
     (let other = Some (case block_to_dict show b of None \<Rightarrow> J_null | Some d \<Rightarrow> J_str (fenced (dumps d)))
      in case b of
           Text_block t \<Rightarrow> Some (J_str t)
         | Thinking_block t sig \<Rightarrow> Some (J_str (think_text t))
         | Plain (J_str s) \<Rightarrow> Some (J_str s)
         | Plain (J_obj d) \<Rightarrow>
             if jfield (J_obj d) ''type'' = J_str ''text'' then Some (jget_or (J_str []) (J_obj d) ''text'')
             else if jfield (J_obj d) ''type'' = J_str ''thinking'' then
               (case jget_or (J_str []) (J_obj d) ''thinking'' of J_str t \<Rightarrow> Some (J_str (think_text t)) | _ \<Rightarrow> None)
             else other
         | _ \<Rightarrow> other)"

text \<open>\<open>''.join\<close> of the parts that are not empty.\<close>

definition join_texts :: "json list \<Rightarrow> string option" where
  "join_texts vs = map_option concat (those (map str_of vs))"

definition format_blocks :: "(block \<Rightarrow> string) \<Rightarrow> block list \<Rightarrow> string option option" where
  "format_blocks show bs =
     (case those (map (format_block show) bs) of
        None \<Rightarrow> None
      | Some vs \<Rightarrow>
          if list_ex jtruthy vs then map_option Some (join_texts (filter jtruthy vs)) else Some None)"

section \<open>What a chunk says\<close>

text \<open>The tool blocks of a content list, and the others.\<close>

definition tool_marks :: "block list \<Rightarrow> (bool \<times> block) list option" where
  "tool_marks bs = those (map (\<lambda>b. map_option (\<lambda>m. (m, b)) (is_tool_content_block b)) bs)"

definition extract_tool_blocks :: "content \<Rightarrow> (block list \<times> content) option" where
  "extract_tool_blocks v =
     (case as_blocks v of
        None \<Rightarrow> Some ([], case v of Other w \<Rightarrow> if jtruthy w then v else Blocks [] | _ \<Rightarrow> v)
      | Some bs \<Rightarrow>
          map_option (\<lambda>ms. (map snd (filter fst ms), Blocks (map snd (filter (\<lambda>m. \<not> fst m) ms)))) (tool_marks bs))"

definition filter_tool_blocks :: "content \<Rightarrow> content option option" where
  "filter_tool_blocks v =
     (case extract_tool_blocks v of
        None \<Rightarrow> None
      | Some (_, Blocks bs) \<Rightarrow> Some (if bs = [] then None else Some (Blocks bs))
      | Some (_, Other w) \<Rightarrow> Some (if jtruthy w then Some (Other w) else None))"

definition process_chunk_content :: "chunk \<Rightarrow> bool \<Rightarrow> content option option" where
  "process_chunk_content c content_sent =
     (case (if cfield c ''type'' = J_str ''assistant'' then jget (cfield c ''message'') ''content'' else None) of
        Some v \<Rightarrow> filter_tool_blocks (Other v)
      | None \<Rightarrow>
          if as_blocks (chunk_content c) \<noteq> None then filter_tool_blocks (chunk_content c)
          else if cfield c ''subtype'' = J_str ''success'' \<and> jget (J_obj (ck_fields c)) ''result'' \<noteq> None \<and> \<not> content_sent
          then Some (Some (Other (cfield c ''result'')))
          else Some None)"

definition all_space :: "string \<Rightarrow> bool" where
  "all_space t \<longleftrightarrow> t \<noteq> [] \<and> list_all is_space t"

definition stripped :: "(string \<Rightarrow> json option) \<Rightarrow> string \<Rightarrow> string option" where
  "stripped loads t =
     (if t = [] \<or> all_space t then None
      else let u = strip_collab_json loads t in if u = [] then None else Some u)"

definition format_chunk_content ::
  "(string \<Rightarrow> json option) \<Rightarrow> (block \<Rightarrow> string) \<Rightarrow> chunk \<Rightarrow> bool \<Rightarrow> string option option" where
  "format_chunk_content loads show c content_sent =
     (case process_chunk_content c content_sent of
        None \<Rightarrow> None
      | Some None \<Rightarrow> Some None
      | Some (Some v) \<Rightarrow>
          (case as_blocks v of
             Some bs \<Rightarrow>
               (case format_blocks show bs of
                  None \<Rightarrow> None
                | Some None \<Rightarrow> Some None
                | Some (Some t) \<Rightarrow> Some (stripped loads t))
           | None \<Rightarrow> (case v of Other (J_str t) \<Rightarrow> Some (stripped loads t) | _ \<Rightarrow> Some None)))"

text \<open>
  \<open>extract_stream_event_delta\<close>: the text of a streamed event (\<open>J_null\<close> for none), and whether a
  thinking block is open.
\<close>

definition event_of :: "chunk \<Rightarrow> json" where
  "event_of c = jget_or (J_obj []) (J_obj (ck_fields c)) ''event''"

definition think_start :: string where "think_start = ''<think>''"
definition think_stop :: string where "think_stop = ''</think>''"

definition extract_stream_event_delta :: "stream_flags \<Rightarrow> chunk \<Rightarrow> bool \<Rightarrow> (json \<times> bool) option" where
  "extract_stream_event_delta fl c thinking =
     (if cfield c ''type'' \<noteq> J_str ''stream_event'' then Some (J_null, thinking)
      else if cfield c ''parent_tool_use_id'' \<noteq> J_null \<and> \<not> fl_sub_text fl then Some (J_null, thinking)
      else if \<not> is_obj (event_of c) then None
      else
        let event = event_of c; type = jfield event ''type''; delta = jget_or (J_obj []) event ''delta'';
            block = jget_or (J_obj []) event ''content_block''
        in if type = J_str ''content_block_delta'' then
             (if \<not> is_obj delta then None
              else if jfield delta ''type'' = J_str ''text_delta'' then Some (jget_or (J_str []) delta ''text'', thinking)
              else if jfield delta ''type'' = J_str ''thinking_delta'' then
                Some (jget_or (J_str []) delta ''thinking'', thinking)
              else Some (J_null, thinking))
           else if type = J_str ''content_block_start'' then
             (if \<not> is_obj block then None
              else if jfield block ''type'' = J_str ''thinking'' then Some (J_str think_start, True)
              else Some (J_null, thinking))
           else if type = J_str ''content_block_stop'' \<and> thinking then Some (J_str think_stop, False)
           else Some (J_null, thinking))"

definition extract_rate_limit_status :: "chunk \<Rightarrow> json" where
  "extract_rate_limit_status c = jget_or (J_str ''unknown'') (cfield c ''rate_limit_info'') ''status''"

definition classify_error_chunk :: "(block \<Rightarrow> string) \<Rightarrow> chunk \<Rightarrow> (json \<times> json) option" where
  "classify_error_chunk show c =
     (if jtruthy (cfield c ''is_error'') then
        Some (J_str ''sdk_error'', jget_or (J_str ''Unknown SDK error'') (J_obj (ck_fields c)) ''error_message'')
      else if cfield c ''type'' = J_str ''assistant'' \<and> jtruthy (cfield c ''error'') then
        Some (cfield c ''error'', J_str (''Claude error: '' @ show (Plain (cfield c ''error''))))
      else if cfield c ''type'' = J_str ''rate_limit'' \<and> extract_rate_limit_status c = J_str ''rejected'' then
        Some (J_str ''rate_limit'', J_str ''Rate limit rejected'')
      else None)"

definition is_assistant_content_chunk :: "chunk \<Rightarrow> bool" where
  "is_assistant_content_chunk c \<longleftrightarrow>
     (if cfield c ''type'' = J_str ''assistant'' then True
      else if cfield c ''type'' \<noteq> J_null then False
      else as_blocks (chunk_content c) \<noteq> None)"

text \<open>The tool blocks inside an assistant's content, each with the subagent call it belongs to.\<close>

definition inherit_parent :: "json \<Rightarrow> json \<Rightarrow> json" where
  "inherit_parent parent b =
     (case b of
        J_obj d \<Rightarrow>
          if jtruthy parent \<and> \<not> jtruthy (jfield b ''parent_tool_use_id'') then J_obj (dput ''parent_tool_use_id'' parent d)
          else b
      | _ \<Rightarrow> b)"

definition embedded_source :: "chunk \<Rightarrow> content \<times> json" where
  "embedded_source c =
     (let parent = cfield c ''parent_tool_use_id''; msg = cfield c ''message''
      in if chunk_content c = Other J_null \<and> is_obj msg then
           (Other (jfield msg ''content''), jor parent (jfield msg ''parent_tool_use_id''))
         else (chunk_content c, parent))"

definition extract_embedded_tool_blocks :: "(block \<Rightarrow> string) \<Rightarrow> chunk \<Rightarrow> json list option" where
  "extract_embedded_tool_blocks show c =
     (if \<not> is_assistant_content_chunk c then Some []
      else
        let (v, parent) = embedded_source c
        in if as_blocks v = None then Some []
           else
             map_option
               (\<lambda>(bs, _). List.map_filter
                  (\<lambda>b. case normalize_embedded_tool_block show b of Plain (J_obj d) \<Rightarrow> Some (inherit_parent parent (J_obj d)) | _ \<Rightarrow> None)
                  bs)
               (extract_tool_blocks v))"

text \<open>\<open>extract_user_tool_results\<close>.\<close>

definition is_result_block :: "block \<Rightarrow> bool" where
  "is_result_block b =
     (case b of
        Plain (J_obj d) \<Rightarrow> jfield (J_obj d) ''type'' = J_str ''tool_result''
      | Tool_result_block _ _ _ \<Rightarrow> True
      | _ \<Rightarrow> False)"

definition user_blocks :: "chunk \<Rightarrow> block list option" where
  "user_blocks c =
     (case as_blocks (case ck_content c of None \<Rightarrow> Blocks [] | Some v \<Rightarrow> v) of
        Some bs \<Rightarrow> Some bs
      | None \<Rightarrow>
          (let msg = jget_or (J_obj []) (J_obj (ck_fields c)) ''message''
           in case (if is_obj msg then jget_or (J_list []) msg ''content'' else J_list []) of
                J_list vs \<Rightarrow> Some (map Plain vs)
              | J_str _ \<Rightarrow> Some []
              | J_obj _ \<Rightarrow> Some []
              | v \<Rightarrow> if jtruthy v then None else Some []))"

definition extract_user_tool_results :: "chunk \<Rightarrow> (block list \<times> json) option" where
  "extract_user_tool_results c =
     map_option (\<lambda>bs. (filter is_result_block bs, cfield c ''parent_tool_use_id'')) (user_blocks c)"

section \<open>Tool calls in pieces\<close>

text \<open>\<open>ToolUseAccumulator\<close>: the calls being streamed, by subagent and block index.\<close>

record partial_call =
  pc_id :: json
  pc_name :: json
  pc_parts :: "json list"
  pc_parent :: json

type_synonym tool_acc = "(json \<times> json, partial_call) dict"

definition acc_key :: "chunk \<Rightarrow> json \<times> json" where
  "acc_key c = (jor (cfield c ''parent_tool_use_id'') (J_str []), jget_or (J_int 0) (event_of c) ''index'')"

definition hashable_key :: "json \<times> json \<Rightarrow> bool" where
  "hashable_key k \<longleftrightarrow> hashable (fst k) \<and> hashable (snd k)"

text \<open>The input of a call: its parts joined and decoded.\<close>

definition parsed_input :: "(string \<Rightarrow> loaded) \<Rightarrow> json list \<Rightarrow> json option" where
  "parsed_input loads parts =
     (case join_texts parts of
        None \<Rightarrow> None
      | Some t \<Rightarrow>
          if t = [] then Some (J_obj [])
          else
            case loads t of
              Loaded v \<Rightarrow> Some v
            | Not_json \<Rightarrow> Some (J_obj [(''raw_input'', J_str t)])
            | Too_deep \<Rightarrow> None)"

definition finished_call :: "(string \<Rightarrow> loaded) \<Rightarrow> partial_call \<Rightarrow> json option" where
  "finished_call loads p =
     map_option
       (\<lambda>v. J_obj ([(''type'', J_str ''tool_use''), (''id'', pc_id p), (''name'', pc_name p), (''input'', v)] @
              optional_parent (pc_parent p)))
       (parsed_input loads (pc_parts p))"

definition process_stream_event ::
  "(string \<Rightarrow> loaded) \<Rightarrow> chunk \<Rightarrow> tool_acc \<Rightarrow> (tool_acc \<times> bool \<times> json option) option" where
  "process_stream_event loads c acc =
     (if cfield c ''type'' \<noteq> J_str ''stream_event'' then Some (acc, False, None)
      else if \<not> is_obj (event_of c) then None
      else
        let event = event_of c; type = jfield event ''type''; parent = cfield c ''parent_tool_use_id'';
            block = jget_or (J_obj []) event ''content_block''; delta = jget_or (J_obj []) event ''delta'';
            key = acc_key c
        in if type = J_str ''content_block_start'' then
             (if \<not> is_obj block then None
              else if jfield block ''type'' \<noteq> J_str ''tool_use'' then Some (acc, False, None)
              else if \<not> hashable_key key then None
              else Some
                (dput key \<lparr>pc_id = jget_or (J_str []) block ''id'', pc_name = jget_or (J_str []) block ''name'', pc_parts = [],
                   pc_parent = parent\<rparr> acc, True, None))
           else if type = J_str ''content_block_delta'' then
             (if \<not> is_obj delta then None
              else if jfield delta ''type'' = J_str ''input_json_delta'' then
                (if \<not> hashable_key key then None
                 else
                   case dget acc key of
                     None \<Rightarrow> Some (acc, True, None)
                   | Some p \<Rightarrow>
                       Some (dput key (p\<lparr>pc_parts := pc_parts p @ [jget_or (J_str []) delta ''partial_json'']\<rparr>) acc, True, None))
              else Some (acc, parent \<noteq> J_null, None))
           else if type = J_str ''content_block_stop'' then
             (if \<not> hashable_key key then None
              else
                case dget acc key of
                  None \<Rightarrow> Some (acc, parent \<noteq> J_null, None)
                | Some p \<Rightarrow> map_option (\<lambda>b. (ddel key acc, True, Some b)) (finished_call loads p))
           else Some (acc, False, None))"

text \<open>A whole stream: the finished calls, each with its key.\<close>

fun accumulate_all ::
  "(string \<Rightarrow> loaded) \<Rightarrow> chunk list \<Rightarrow> tool_acc \<Rightarrow> (tool_acc \<times> ((json \<times> json) \<times> json) list) option" where
  "accumulate_all loads [] acc = Some (acc, [])"
| "accumulate_all loads (c # cs) acc =
     (case process_stream_event loads c acc of
        None \<Rightarrow> None
      | Some (acc1, _, done) \<Rightarrow>
          (case accumulate_all loads cs acc1 of
             None \<Rightarrow> None
           | Some (acc2, outs) \<Rightarrow> Some (acc2, (case done of None \<Rightarrow> [] | Some b \<Rightarrow> [(acc_key c, b)]) @ outs)))"

section \<open>Interleaved calls do not mix\<close>

lemma other_key_untouched:
  assumes "process_stream_event loads c acc = Some (acc', h, done)" "acc_key c \<noteq> k"
  shows "dget acc' k = dget acc k"
  using assms
  by (auto simp: process_stream_event_def Let_def dget_dput dget_ddel split: if_splits option.splits)

lemma own_key_decides:
  assumes "process_stream_event loads c acc = Some (acc', h, done)" "dget acc (acc_key c) = dget own (acc_key c)"
  shows "\<exists>own'. process_stream_event loads c own = Some (own', h, done) \<and> dget own' (acc_key c) = dget acc' (acc_key c)"
  using assms
  by (auto simp: process_stream_event_def Let_def dget_dput dget_ddel split: if_splits option.splits)

lemma calls_of_one_key:
  assumes "accumulate_all loads cs acc = Some (acc', outs)" "dget acc k = dget own k"
  shows "\<exists>own'. accumulate_all loads (filter (\<lambda>c. acc_key c = k) cs) own = Some (own', filter (\<lambda>e. fst e = k) outs) \<and>
    dget own' k = dget acc' k"
  using assms
proof (induction cs arbitrary: acc own outs)
  case (Cons c cs)
  obtain acc1 h fin outs1 where p: "process_stream_event loads c acc = Some (acc1, h, fin)"
    and r: "accumulate_all loads cs acc1 = Some (acc', outs1)"
    and o: "outs = (case fin of None \<Rightarrow> [] | Some b \<Rightarrow> [(acc_key c, b)]) @ outs1"
    using Cons.prems(1) by (auto split: option.splits)
  show ?case
  proof (cases "acc_key c = k")
    case True
    obtain own1 where p': "process_stream_event loads c own = Some (own1, h, fin)" and k: "dget acc1 k = dget own1 k"
      using own_key_decides [OF p, of own] Cons.prems(2) True by metis
    from Cons.IH [OF r k] show ?thesis
      using True p' by (auto simp: o split: option.splits)
  next
    case False
    then have k: "dget acc1 k = dget own k" using other_key_untouched [OF p] Cons.prems(2) by metis
    from Cons.IH [OF r k] show ?thesis using False by (auto simp: o split: option.splits)
  qed
qed auto

text \<open>The chunks of one call: its start, its parts and its stop.\<close>

definition call_event :: "json \<Rightarrow> json \<Rightarrow> string \<Rightarrow> (string \<times> json) list \<Rightarrow> chunk" where
  "call_event parent index type rest =
     \<lparr>ck_fields = [(''type'', J_str ''stream_event''), (''parent_tool_use_id'', parent),
        (''event'', J_obj ([(''type'', J_str type), (''index'', index)] @ rest))], ck_content = None\<rparr>"

definition call_start :: "json \<Rightarrow> json \<Rightarrow> string \<Rightarrow> string \<Rightarrow> chunk" where
  "call_start parent index i n =
     call_event parent index ''content_block_start''
       [(''content_block'', J_obj [(''type'', J_str ''tool_use''), (''id'', J_str i), (''name'', J_str n)])]"

definition call_part :: "json \<Rightarrow> json \<Rightarrow> string \<Rightarrow> chunk" where
  "call_part parent index t =
     call_event parent index ''content_block_delta''
       [(''delta'', J_obj [(''type'', J_str ''input_json_delta''), (''partial_json'', J_str t)])]"

definition call_stop :: "json \<Rightarrow> json \<Rightarrow> chunk" where
  "call_stop parent index = call_event parent index ''content_block_stop'' []"

lemma join_strs: "join_texts (map J_str ts) = Some (concat ts)"
proof -
  have "those (map str_of (map J_str ts)) = Some ts" by (induction ts) auto
  then show ?thesis by (simp add: join_texts_def)
qed

lemmas event_simps = call_event_def acc_key_def event_of_def jget_or_def dget_Cons

lemma call_event_simps:
  "cfield (call_event parent index type rest) ''type'' = J_str ''stream_event''"
  "cfield (call_event parent index type rest) ''parent_tool_use_id'' = parent"
  "event_of (call_event parent index type rest) = J_obj ([(''type'', J_str type), (''index'', index)] @ rest)"
  "acc_key (call_event parent index type rest) = (jor parent (J_str []), index)"
  by (simp_all add: event_simps)

lemma parts_accumulate:
  assumes "hashable_key (jor parent (J_str []), index)"
    and "dget acc (jor parent (J_str []), index) = Some p"
  shows "\<exists>acc'. (\<forall>cs. accumulate_all loads (map (call_part parent index) ts @ cs) acc = accumulate_all loads cs acc') \<and>
    dget acc' (jor parent (J_str []), index) = Some (p\<lparr>pc_parts := pc_parts p @ map J_str ts\<rparr>)"
  using assms(2)
proof (induction ts arbitrary: acc p)
  case Nil
  then show ?case by (intro exI [of _ acc]) simp
next
  case (Cons t ts)
  let ?k = "(jor parent (J_str []), index)"
  let ?acc = "dput ?k (p\<lparr>pc_parts := pc_parts p @ [J_str t]\<rparr>) acc"
  have step: "process_stream_event loads (call_part parent index t) acc = Some (?acc, True, None)"
    using assms(1) Cons.prems
    by (simp add: process_stream_event_def call_part_def event_simps Let_def)
  have "dget ?acc ?k = Some (p\<lparr>pc_parts := pc_parts p @ [J_str t]\<rparr>)" by (simp add: dget_dput)
  from Cons.IH [OF this] obtain acc' where
    "\<forall>cs. accumulate_all loads (map (call_part parent index) ts @ cs) ?acc = accumulate_all loads cs acc'"
    "dget acc' ?k = Some (p\<lparr>pc_parts := pc_parts p @ map J_str (t # ts)\<rparr>)" by auto
  then show ?case by (intro exI [of _ acc']) (simp add: step split: option.split)
qed

text \<open>
  C21.  However the pieces of several tool calls interleave, a call whose own pieces are a start,
  some fragments and a stop is finished once, under its own id, name and subagent, and its input is
  what the fragments joined in order decode to (none at all is an empty input; a text that is no
  JSON is handed on raw).
\<close>

theorem interleaved_call_reassembled:
  assumes run: "accumulate_all loads cs [] = Some (acc, outs)"
    and own: "filter (\<lambda>c. acc_key c = (jor parent (J_str []), index)) cs =
      call_start parent index i n # map (call_part parent index) ts @ [call_stop parent index]"
  shows "\<exists>v. filter (\<lambda>e. fst e = (jor parent (J_str []), index)) outs =
      [((jor parent (J_str []), index),
        J_obj ([(''type'', J_str ''tool_use''), (''id'', J_str i), (''name'', J_str n), (''input'', v)] @
               optional_parent parent))] \<and>
    (if concat ts = [] then v = J_obj []
     else loads (concat ts) = Loaded v \<or>
       loads (concat ts) = Not_json \<and> v = J_obj [(''raw_input'', J_str (concat ts))])"
proof -
  let ?k = "(jor parent (J_str []), index)"
  let ?p = "\<lparr>pc_id = J_str i, pc_name = J_str n, pc_parts = [], pc_parent = parent\<rparr>"
  obtain own' where r: "accumulate_all loads (call_start parent index i n # map (call_part parent index) ts @ [call_stop parent index]) [] =
      Some (own', filter (\<lambda>e. fst e = ?k) outs)"
    using calls_of_one_key [OF run refl, of ?k] unfolding own by blast
  have start: "hashable_key ?k \<and> process_stream_event loads (call_start parent index i n) [] = Some ([(?k, ?p)], True, None)"
  proof -
    have "process_stream_event loads (call_start parent index i n) [] \<noteq> None"
    proof
      assume "process_stream_event loads (call_start parent index i n) [] = None"
      then show False using r by simp
    qed
    then show ?thesis
      by (simp add: process_stream_event_def call_start_def event_simps Let_def split: if_splits)
  qed
  obtain acc1 where parts: "\<And>cs. accumulate_all loads (map (call_part parent index) ts @ cs) [(?k, ?p)] = accumulate_all loads cs acc1"
      and p1: "dget acc1 ?k = Some (?p\<lparr>pc_parts := map J_str ts\<rparr>)"
    using parts_accumulate [of parent index "[(?k, ?p)]" ?p loads ts] start by (auto simp: dget_def)
  have stop: "process_stream_event loads (call_stop parent index) acc1 =
      map_option (\<lambda>b. (ddel ?k acc1, True, Some b)) (finished_call loads (?p\<lparr>pc_parts := map J_str ts\<rparr>))"
    using start p1 by (simp add: process_stream_event_def call_stop_def event_simps Let_def)
  have k: "acc_key (call_stop parent index) = ?k" by (simp add: call_stop_def call_event_simps)
  have "accumulate_all loads [call_stop parent index] acc1 = Some (own', filter (\<lambda>e. fst e = ?k) outs)"
    using r conjunct2 [OF start] by (auto simp: parts simp del: filter.simps split: option.splits)
  then obtain b where b: "finished_call loads (?p\<lparr>pc_parts := map J_str ts\<rparr>) = Some b"
      and o: "filter (\<lambda>e. fst e = ?k) outs = [(?k, b)]"
    by (auto simp: stop k split: option.splits)
  show ?thesis
    using b unfolding o finished_call_def parsed_input_def
    by (auto simp: join_strs split: option.splits if_splits loaded.splits)
qed

text \<open>Two calls, of the leader and of a subagent, whose pieces alternate.\<close>

definition demo_calls :: "chunk list" where
  "demo_calls =
     [call_start J_null (J_int 1) ''tu_a'' ''Bash'', call_start (J_str ''tu_p'') (J_int 1) ''tu_b'' ''Read'',
      call_part J_null (J_int 1) ''[1'', call_part (J_str ''tu_p'') (J_int 1) ''x'',
      call_part J_null (J_int 1) '']'', call_stop (J_str ''tu_p'') (J_int 1), call_stop J_null (J_int 1)]"

definition demo_decode :: "string \<Rightarrow> loaded" where
  "demo_decode t = (if t = ''[1]'' then Loaded (J_list [J_int 1]) else Not_json)"

definition demo_finished :: "((json \<times> json) \<times> json) list" where
  "demo_finished =
     [((J_str ''tu_p'', J_int 1),
       J_obj [(''type'', J_str ''tool_use''), (''id'', J_str ''tu_b''), (''name'', J_str ''Read''),
              (''input'', J_obj [(''raw_input'', J_str ''x'')]), (''parent_tool_use_id'', J_str ''tu_p'')]),
      ((J_str [], J_int 1),
       J_obj [(''type'', J_str ''tool_use''), (''id'', J_str ''tu_a''), (''name'', J_str ''Bash''),
              (''input'', J_list [J_int 1])])]"

theorem interleaved_call_reassembled_witness:
  "filter (\<lambda>e. fst e = (J_str [], J_int 1)) demo_finished =
     [((J_str [], J_int 1),
        J_obj [(''type'', J_str ''tool_use''), (''id'', J_str ''tu_a''), (''name'', J_str ''Bash''),
               (''input'', J_list [J_int 1])])]"
proof -
  have run: "accumulate_all demo_decode demo_calls [] = Some ([], demo_finished)" by code_simp
  have own: "filter (\<lambda>c. acc_key c = (jor J_null (J_str []), J_int 1)) demo_calls =
    call_start J_null (J_int 1) ''tu_a'' ''Bash'' # map (call_part J_null (J_int 1)) [''[1'', '']''] @ [call_stop J_null (J_int 1)]"
    by code_simp
  from interleaved_call_reassembled [OF run own] show ?thesis
    by (auto simp: demo_decode_def jor_def optional_parent_def)
qed

end
