(* ===== verification/TurnUsage.thy ===== *)
theory TurnUsage
  imports ChunkText
begin

text \<open>
  What a turn's chunks say about it: token usage, context occupancy, structured output, thinking
  and visible text, from \<open>src/src/streaming_utils.py\<close> and \<open>src/src/usage_logger.py\<close>.  A counter that
  Python cannot turn into an integer has no value, and neither has what needs it.
\<close>

section \<open>Counters\<close>

text \<open>\<open>int(v or 0)\<close>.\<close>

definition py_count :: "(string \<Rightarrow> int option) \<Rightarrow> json \<Rightarrow> int option" where
  "py_count trunc v =
     (if \<not> jtruthy v then Some 0
      else
        case v of
          J_int n \<Rightarrow> Some n
        | J_bool b \<Rightarrow> Some 1
        | J_float t \<Rightarrow> trunc t
        | J_str s \<Rightarrow> py_int s
        | _ \<Rightarrow> None)"

definition plus_opt :: "int option \<Rightarrow> int option \<Rightarrow> int option" where
  "plus_opt a b = (case (a, b) of (Some x, Some y) \<Rightarrow> Some (x + y) | _ \<Rightarrow> None)"

definition counter :: "(string \<Rightarrow> int option) \<Rightarrow> json \<Rightarrow> string \<Rightarrow> int option" where
  "counter trunc usage k = (if is_obj usage then py_count trunc (jfield usage k) else None)"

definition prompt_sum :: "(string \<Rightarrow> int option) \<Rightarrow> json \<Rightarrow> int option" where
  "prompt_sum trunc usage =
     plus_opt (plus_opt (counter trunc usage ''input_tokens'') (counter trunc usage ''cache_creation_input_tokens''))
       (counter trunc usage ''cache_read_input_tokens'')"

definition prompt_tokens_from_usage :: "(string \<Rightarrow> int option) \<Rightarrow> json \<Rightarrow> int option" where
  "prompt_tokens_from_usage trunc usage = (if is_obj usage then prompt_sum trunc usage else Some 0)"

definition main_agent_prompt_tokens :: "(string \<Rightarrow> int option) \<Rightarrow> chunk \<Rightarrow> int option" where
  "main_agent_prompt_tokens trunc c =
     (if jtruthy (cfield c ''parent_tool_use_id'') then Some 0
      else if cfield c ''type'' = J_str ''assistant'' then prompt_tokens_from_usage trunc (cfield c ''usage'')
      else if cfield c ''type'' = J_str ''stream_event'' then
        (let event = cfield c ''event''
         in if \<not> is_obj event then Some 0
            else if jfield event ''type'' = J_str ''message_start'' then
              (let inner = jfield event ''message''
               in if is_obj inner then prompt_tokens_from_usage trunc (jfield inner ''usage'') else Some 0)
            else if jfield event ''type'' = J_str ''message_delta'' then
              prompt_tokens_from_usage trunc (jfield event ''usage'')
            else Some 0)
      else Some 0)"

definition is_context_snapshot_chunk :: "(string \<Rightarrow> int option) \<Rightarrow> chunk \<Rightarrow> bool option" where
  "is_context_snapshot_chunk trunc c =
     (if cfield c ''type'' = J_str ''stream_event'' then map_option (\<lambda>n. 0 < n) (main_agent_prompt_tokens trunc c)
      else Some False)"

section \<open>Usage of a turn\<close>

fun latest_positive :: "int option list \<Rightarrow> int option option" where
  "latest_positive [] = Some None"
| "latest_positive (None # ns) = None"
| "latest_positive (Some n # ns) = (if 0 < n then Some (Some n) else latest_positive ns)"

definition extract_context_tokens :: "(string \<Rightarrow> int option) \<Rightarrow> chunk list \<Rightarrow> int option option" where
  "extract_context_tokens trunc cs = latest_positive (rev (map (main_agent_prompt_tokens trunc) cs))"

definition has_usage :: "string \<Rightarrow> chunk \<Rightarrow> bool" where
  "has_usage type c \<longleftrightarrow> cfield c ''type'' = J_str type \<and> jtruthy (cfield c ''usage'')"

text \<open>Prompt and completion tokens of the turn; the last result's totals win.\<close>

fun sum_usage :: "(string \<Rightarrow> int option) \<Rightarrow> chunk list \<Rightarrow> (int \<times> int) option" where
  "sum_usage trunc [] = Some (0, 0)"
| "sum_usage trunc (c # cs) =
     (case (prompt_sum trunc (cfield c ''usage''), counter trunc (cfield c ''usage'') ''output_tokens'') of
        (Some i, Some n) \<Rightarrow> map_option (\<lambda>(i', n'). (i + i', n + n')) (sum_usage trunc cs)
      | _ \<Rightarrow> None)"

definition last_result :: "chunk list \<Rightarrow> chunk option" where
  "last_result cs = (case filter (has_usage ''result'') (rev cs) of [] \<Rightarrow> None | c # _ \<Rightarrow> Some c)"

definition extract_sdk_usage :: "(string \<Rightarrow> int option) \<Rightarrow> chunk list \<Rightarrow> (int \<times> int) option option" where
  "extract_sdk_usage trunc cs =
     (case last_result cs of
        Some c \<Rightarrow> map_option Some (sum_usage trunc [c])
      | None \<Rightarrow>
          if filter (has_usage ''assistant'') cs = [] then Some None
          else map_option Some (sum_usage trunc (filter (has_usage ''assistant'') cs)))"

text \<open>Input, output, cache-read and cache-creation tokens.\<close>

record usage_detail =
  ud_input :: int
  ud_output :: int
  ud_cache_read :: int
  ud_cache_creation :: int

definition detail_of :: "(string \<Rightarrow> int option) \<Rightarrow> json \<Rightarrow> usage_detail option" where
  "detail_of trunc u =
     (case (counter trunc u ''input_tokens'', counter trunc u ''output_tokens'',
            counter trunc u ''cache_read_input_tokens'', counter trunc u ''cache_creation_input_tokens'') of
        (Some i, Some n, Some r, Some w) \<Rightarrow> Some \<lparr>ud_input = i, ud_output = n, ud_cache_read = r, ud_cache_creation = w\<rparr>
      | _ \<Rightarrow> None)"

fun sum_details :: "(string \<Rightarrow> int option) \<Rightarrow> chunk list \<Rightarrow> usage_detail \<Rightarrow> usage_detail option" where
  "sum_details trunc [] t = Some t"
| "sum_details trunc (c # cs) t =
     (case detail_of trunc (cfield c ''usage'') of
        None \<Rightarrow> None
      | Some d \<Rightarrow>
          sum_details trunc cs
            \<lparr>ud_input = ud_input t + ud_input d, ud_output = ud_output t + ud_output d,
             ud_cache_read = ud_cache_read t + ud_cache_read d, ud_cache_creation = ud_cache_creation t + ud_cache_creation d\<rparr>)"

definition no_usage :: usage_detail where
  "no_usage = \<lparr>ud_input = 0, ud_output = 0, ud_cache_read = 0, ud_cache_creation = 0\<rparr>"

definition extract_sdk_usage_detail :: "(string \<Rightarrow> int option) \<Rightarrow> chunk list \<Rightarrow> usage_detail option" where
  "extract_sdk_usage_detail trunc cs =
     (case last_result cs of
        Some c \<Rightarrow> detail_of trunc (cfield c ''usage'')
      | None \<Rightarrow> sum_details trunc (filter (has_usage ''assistant'') cs) no_usage)"

definition estimate_tokens :: "string \<Rightarrow> int" where
  "estimate_tokens t = int (length t) div 4"

text \<open>\<open>resolve_token_usage\<close>; \<open>est\<close> is the backend's own estimate, if there is a backend.\<close>

definition resolve_token_usage ::
  "(string \<Rightarrow> int option) \<Rightarrow> (string \<Rightarrow> string \<Rightarrow> int \<times> int) option \<Rightarrow> chunk list \<Rightarrow> string \<Rightarrow> string \<Rightarrow> (int \<times> int) option" where
  "resolve_token_usage trunc est cs prompt completion =
     (case extract_sdk_usage trunc cs of
        None \<Rightarrow> None
      | Some (Some u) \<Rightarrow> Some u
      | Some None \<Rightarrow>
          Some (case est of Some f \<Rightarrow> f prompt completion | None \<Rightarrow> (estimate_tokens prompt, estimate_tokens completion)))"

text \<open>Cached tokens, cache-creation tokens and the context in use.\<close>

record input_details =
  id_cached :: int
  id_creation :: int
  id_context :: "int option"

definition resolve_usage_details :: "(string \<Rightarrow> int option) \<Rightarrow> chunk list \<Rightarrow> input_details option" where
  "resolve_usage_details trunc cs =
     (case (extract_sdk_usage_detail trunc cs, extract_context_tokens trunc cs) of
        (Some d, Some ctx) \<Rightarrow> Some \<lparr>id_cached = ud_cache_read d, id_creation = ud_cache_creation d, id_context = ctx\<rparr>
      | _ \<Rightarrow> None)"

record response_usage =
  ru_input :: int
  ru_output :: int
  ru_total :: int
  ru_details :: input_details

definition make_usage :: "int \<times> int \<Rightarrow> input_details \<Rightarrow> response_usage" where
  "make_usage u d = \<lparr>ru_input = fst u, ru_output = snd u, ru_total = fst u + snd u, ru_details = d\<rparr>"

definition extract_structured_output :: "chunk list \<Rightarrow> json" where
  "extract_structured_output cs =
     (case filter (\<lambda>c. cfield c ''type'' = J_str ''result'' \<and> cfield c ''structured_output'' \<noteq> J_null) (rev cs) of
        [] \<Rightarrow> J_null
      | c # _ \<Rightarrow> cfield c ''structured_output'')"

definition extract_model_id :: "chunk list \<Rightarrow> string option" where
  "extract_model_id cs =
     (case List.map_filter
             (\<lambda>c. if cfield c ''type'' = J_str ''assistant'' \<and> \<not> jtruthy (cfield c ''parent_tool_use_id'') then
                    (case cfield c ''model'' of J_str m \<Rightarrow> if strip_text m = [] then None else Some (strip_text m) | _ \<Rightarrow> None)
                  else None) cs of
        [] \<Rightarrow> None
      | m # _ \<Rightarrow> Some m)"

section \<open>Thinking and visible text\<close>

definition thinking_of :: "block \<Rightarrow> json" where
  "thinking_of b =
     (case b of
        Thinking_block t sig \<Rightarrow> J_str t
      | Plain (J_obj d) \<Rightarrow> if jfield (J_obj d) ''type'' = J_str ''thinking'' then jfield (J_obj d) ''thinking'' else J_null
      | _ \<Rightarrow> J_null)"

definition blocks_or_none :: "content \<Rightarrow> block list" where
  "blocks_or_none v = (case as_blocks v of None \<Rightarrow> [] | Some bs \<Rightarrow> bs)"

definition extract_thinking_texts :: "chunk list \<Rightarrow> json list" where
  "extract_thinking_texts cs =
     filter jtruthy (concat (map (\<lambda>c. map thinking_of (blocks_or_none (chunk_content c))) cs))"

definition is_thinking :: "block \<Rightarrow> bool" where
  "is_thinking b =
     (case b of
        Thinking_block t sig \<Rightarrow> True
      | Plain (J_obj d) \<Rightarrow> jfield (J_obj d) ''type'' = J_str ''thinking''
      | _ \<Rightarrow> False)"

definition reply_blocks :: "chunk \<Rightarrow> block list" where
  "reply_blocks c =
     (case as_blocks (chunk_content c) of
        Some bs \<Rightarrow> bs
      | None \<Rightarrow> blocks_or_none (Other (jfield (cfield c ''message'') ''content'')))"

text \<open>The last success result with text; no value when such a result is no string.\<close>

fun result_texts :: "chunk list \<Rightarrow> string option \<Rightarrow> string option option" where
  "result_texts [] acc = Some acc"
| "result_texts (c # cs) acc =
     (if cfield c ''subtype'' = J_str ''success'' \<and> jtruthy (cfield c ''result'') then
        (case cfield c ''result'' of
           J_str r \<Rightarrow> result_texts cs (if strip_text r = [] then acc else Some r)
         | _ \<Rightarrow> None)
      else result_texts cs acc)"

fun reply_parts :: "(block \<Rightarrow> string) \<Rightarrow> chunk list \<Rightarrow> string list option" where
  "reply_parts show [] = Some []"
| "reply_parts show (c # cs) =
     (case format_blocks show (filter (\<lambda>b. \<not> is_thinking b) (reply_blocks c)) of
        None \<Rightarrow> None
      | Some None \<Rightarrow> reply_parts show cs
      | Some (Some t) \<Rightarrow> map_option (\<lambda>ts. if t = [] then ts else t # ts) (reply_parts show cs))"

definition extract_visible_assistant_text :: "(block \<Rightarrow> string) \<Rightarrow> chunk list \<Rightarrow> string option option" where
  "extract_visible_assistant_text show cs =
     (case result_texts cs None of
        None \<Rightarrow> None
      | Some (Some t) \<Rightarrow> Some (Some t)
      | Some None \<Rightarrow>
          map_option (\<lambda>ts. if ts = [] then None else Some (join_with [nl] ts)) (reply_parts show cs))"

section \<open>What a buffer may leave out\<close>

lemma context_tokens_kept:
  assumes "\<And>c. c \<in> set cs \<Longrightarrow> \<not> keep c \<Longrightarrow> \<exists>n. main_agent_prompt_tokens trunc c = Some n \<and> n \<le> 0"
  shows "extract_context_tokens trunc (filter keep cs) = extract_context_tokens trunc cs"
  using assms
proof (induction cs rule: rev_induct)
  case (snoc c cs)
  have ih: "extract_context_tokens trunc (filter keep cs) = extract_context_tokens trunc cs"
    using snoc.prems by (intro snoc.IH) auto
  show ?case
  proof (cases "keep c")
    case True
    then show ?thesis
      using ih by (cases "main_agent_prompt_tokens trunc c") (simp_all add: extract_context_tokens_def)
  next
    case False
    then obtain n where "main_agent_prompt_tokens trunc c = Some n" "n \<le> 0" using snoc.prems [of c] by auto
    then show ?thesis using ih False by (simp add: extract_context_tokens_def)
  qed
qed (simp add: extract_context_tokens_def)

lemma filter_kept: "(\<And>c. c \<in> set cs \<Longrightarrow> P c \<Longrightarrow> keep c) \<Longrightarrow> filter P (filter keep cs) = filter P cs"
  by (induction cs) auto

lemma last_result_kept:
  assumes "\<And>c. c \<in> set cs \<Longrightarrow> has_usage ''result'' c \<Longrightarrow> keep c"
  shows "last_result (filter keep cs) = last_result cs"
proof -
  have "filter (has_usage ''result'') (filter keep (rev cs)) = filter (has_usage ''result'') (rev cs)"
    by (rule filter_kept) (use assms in auto)
  then show ?thesis by (simp add: last_result_def rev_filter)
qed

lemma sdk_usage_kept:
  assumes "\<And>c. c \<in> set cs \<Longrightarrow> has_usage ''result'' c \<or> has_usage ''assistant'' c \<Longrightarrow> keep c"
  shows "extract_sdk_usage trunc (filter keep cs) = extract_sdk_usage trunc cs"
    and "extract_sdk_usage_detail trunc (filter keep cs) = extract_sdk_usage_detail trunc cs"
proof -
  have "filter (has_usage ''assistant'') (filter keep cs) = filter (has_usage ''assistant'') cs"
    by (rule filter_kept) (use assms in auto)
  moreover have "last_result (filter keep cs) = last_result cs" by (rule last_result_kept) (use assms in auto)
  ultimately show "extract_sdk_usage trunc (filter keep cs) = extract_sdk_usage trunc cs"
    "extract_sdk_usage_detail trunc (filter keep cs) = extract_sdk_usage_detail trunc cs"
    by (simp_all only: extract_sdk_usage_def extract_sdk_usage_detail_def)
qed

end
