(* ===== verification/TurnTools.thy ===== *)
theory TurnTools
  imports TurnUsage "HOL-Library.Monad_Syntax"
begin

text \<open>
  Tool calls of a turn: \<open>src/src/tool_stats.py\<close>, the tool builders of \<open>src/src/sse_builders.py\<close>
  and the tool-event helpers of \<open>src/src/streaming_utils.py\<close>.  An event is its name and its
  fields; the sequence number is given out by the caller.  No value stands for an exception.
\<close>

section \<open>Counts and calls in flight\<close>

record call_start_info =
  cs_name :: json
  cs_since :: instant
  cs_parent :: json

record tool_count =
  tc_count :: nat
  tc_errors :: nat
  tc_total_ms :: int

record tool_stats =
  ts_starts :: "(json, call_start_info) dict"
  ts_stats :: "(json, tool_count) dict"

definition new_tool_stats :: tool_stats where
  "new_tool_stats = \<lparr>ts_starts = [], ts_stats = []\<rparr>"

definition stats_entry :: "json \<Rightarrow> tool_stats \<Rightarrow> tool_count" where
  "stats_entry name ts =
     (case dget (ts_stats ts) name of None \<Rightarrow> \<lparr>tc_count = 0, tc_errors = 0, tc_total_ms = 0\<rparr> | Some e \<Rightarrow> e)"

definition set_entry :: "json \<Rightarrow> tool_count \<Rightarrow> tool_stats \<Rightarrow> tool_stats" where
  "set_entry name e ts = ts\<lparr>ts_stats := dput name e (ts_stats ts)\<rparr>"

definition record_use :: "instant \<Rightarrow> json \<Rightarrow> json \<Rightarrow> json \<Rightarrow> tool_stats \<Rightarrow> tool_stats option" where
  "record_use now tid name parent ts =
     (if \<not> jtruthy name then Some ts
      else if \<not> hashable name \<or> jtruthy tid \<and> \<not> hashable tid then None
      else
        let e = stats_entry name ts; ts = set_entry name (e\<lparr>tc_count := tc_count e + 1\<rparr>) ts
        in Some
          (if jtruthy tid then
             ts\<lparr>ts_starts := dput tid \<lparr>cs_name = name, cs_since = now, cs_parent = parent\<rparr> (ts_starts ts)\<rparr>
           else ts))"

definition record_result :: "instant \<Rightarrow> json \<Rightarrow> bool \<Rightarrow> tool_stats \<Rightarrow> tool_stats option" where
  "record_result now tid is_error ts =
     (if jtruthy tid \<and> \<not> hashable tid then None
      else
        case (if jtruthy tid then dget (ts_starts ts) tid else None) of
          Some st \<Rightarrow>
            (let ts = ts\<lparr>ts_starts := ddel tid (ts_starts ts)\<rparr>; e = stats_entry (cs_name st) ts
             in Some
               (set_entry (cs_name st)
                  (e\<lparr>tc_total_ms := tc_total_ms e + (now - cs_since st) div 1000,
                     tc_errors := tc_errors e + (if is_error then 1 else 0)\<rparr>) ts))
        | None \<Rightarrow>
            (let e = stats_entry (J_str ''unknown'') ts
             in Some (if is_error then set_entry (J_str ''unknown'') (e\<lparr>tc_errors := tc_errors e + 1\<rparr>) ts else ts)))"

record running_call =
  rc_id :: json
  rc_name :: json
  rc_parent :: json
  rc_elapsed :: int

definition in_flight :: "instant \<Rightarrow> tool_stats \<Rightarrow> running_call list" where
  "in_flight now ts =
     map (\<lambda>(tid, st). \<lparr>rc_id = tid, rc_name = cs_name st, rc_parent = cs_parent st,
                       rc_elapsed = (now - cs_since st) div seconds 1\<rparr>)
       (sort_key (\<lambda>e. cs_since (snd e)) (ts_starts ts))"

section \<open>Events\<close>

type_synonym side = "string \<times> (string \<times> json) list"

definition make_tool_use_started :: "json \<Rightarrow> json \<Rightarrow> json \<Rightarrow> side" where
  "make_tool_use_started tid name parent =
     (''response.tool_use_started'',
      [(''tool_use_id'', jor tid (J_str [])), (''name'', jor name (J_str []))] @ optional_parent parent)"

definition make_tool_use :: "json \<Rightarrow> json \<Rightarrow> side" where
  "make_tool_use b parent =
     (''response.tool_use'',
      [(''tool_use_id'', jget_or (J_str []) b ''id''), (''name'', jget_or (J_str []) b ''name''),
       (''input'', jget_or (J_obj []) b ''input'')] @ optional_parent parent)"

definition make_tool_result :: "(block \<Rightarrow> string) \<Rightarrow> json \<Rightarrow> json \<Rightarrow> side" where
  "make_tool_result show b parent =
     (''response.tool_result'',
      [(k, v) \<leftarrow> block_fields (Plain (normalize_tool_result_for_sse show (Plain b))). k \<noteq> ''type''] @ optional_parent parent)"

definition make_tool_progress ::
  "json \<Rightarrow> json \<Rightarrow> int \<Rightarrow> string \<Rightarrow> json \<Rightarrow> json \<Rightarrow> json \<Rightarrow> json \<Rightarrow> side" where
  "make_tool_progress tid name elapsed source parent message progress whole =
     (''response.tool_progress'',
      [(''tool_use_id'', jor tid (J_str [])), (''name'', jor name (J_str [])), (''elapsed_seconds'', J_int elapsed),
       (''source'', J_str source)] @ optional_parent parent @
      (if jtruthy message then [(''message'', message)] else []) @
      (if progress \<noteq> J_null then [(''progress'', progress)] else []) @
      (if whole \<noteq> J_null then [(''total'', whole)] else []))"

definition make_task_event :: "json \<Rightarrow> side" where
  "make_task_event ev =
     (''response.'' @ (case jfield ev ''type'' of J_str t \<Rightarrow> t | _ \<Rightarrow> []),
      [(k, v) \<leftarrow> block_fields (Plain ev). k \<noteq> ''type''])"

section \<open>Tool calls of a turn\<close>

record turn_tools =
  tt_stats :: tool_stats
  tt_names :: "(string, string) dict"

definition tool_id_of :: "json \<Rightarrow> json" where
  "tool_id_of b = jor (jfield b ''id'') (jfield b ''tool_use_id'')"

definition record_tool_use :: "instant \<Rightarrow> json \<Rightarrow> turn_tools \<Rightarrow> turn_tools option" where
  "record_tool_use now b tt =
     map_option (\<lambda>ts. tt\<lparr>tt_stats := ts\<rparr>)
       (record_use now (tool_id_of b) (jor (jfield b ''name'') (J_str [])) (jfield b ''parent_tool_use_id'') (tt_stats tt))"

definition record_tool_result :: "instant \<Rightarrow> json \<Rightarrow> turn_tools \<Rightarrow> turn_tools option" where
  "record_tool_result now b tt =
     map_option (\<lambda>ts. tt\<lparr>tt_stats := ts\<rparr>)
       (record_result now (jfield b ''tool_use_id'') (jtruthy (jfield b ''is_error'')) (tt_stats tt))"

definition remember_tool_use :: "json \<Rightarrow> turn_tools \<Rightarrow> turn_tools" where
  "remember_tool_use b tt =
     (case (tool_id_of b, jfield b ''name'') of
        (J_str i, J_str n) \<Rightarrow> if i \<noteq> [] \<and> n \<noteq> [] then tt\<lparr>tt_names := dput i n (tt_names tt)\<rparr> else tt
      | _ \<Rightarrow> tt)"

definition ask_user_response_prefix :: string where
  "ask_user_response_prefix = ''User responded:''"

text \<open>\<open>call_output\<close> is the call id of the request's function call output, \<open>J_null\<close> without one.\<close>

definition is_synthetic_ask_user_response_result :: "json \<Rightarrow> turn_tools \<Rightarrow> json \<Rightarrow> bool" where
  "is_synthetic_ask_user_response_result b tt call_output =
     (case (jfield b ''content'', jfield b ''tool_use_id'') of
        (J_str v, J_str i) \<Rightarrow>
          starts_with ask_user_response_prefix v \<and> i \<noteq> [] \<and>
          (dget (tt_names tt) i = Some ''AskUserQuestion'' \<or> call_output = J_str i)
      | _ \<Rightarrow> False)"

definition tool_use_started_events :: "stream_flags \<Rightarrow> chunk \<Rightarrow> side list" where
  "tool_use_started_events fl c =
     (let event = cfield c ''event''; block = jfield event ''content_block''; parent = cfield c ''parent_tool_use_id''
      in if fl_tool_progress fl \<and> cfield c ''type'' = J_str ''stream_event'' \<and>
            jfield event ''type'' = J_str ''content_block_start'' \<and> jfield block ''type'' = J_str ''tool_use'' \<and>
            (parent = J_null \<or> fl_sub_tools fl)
         then [make_tool_use_started (jget_or (J_str []) block ''id'') (jget_or (J_str []) block ''name'') parent]
         else [])"

definition hidden_tool :: "stream_flags \<Rightarrow> json \<Rightarrow> bool" where
  "hidden_tool fl b \<longleftrightarrow> jfield b ''parent_tool_use_id'' \<noteq> J_null \<and> \<not> fl_sub_tools fl"

definition tool_use_events :: "stream_flags \<Rightarrow> instant \<Rightarrow> json \<Rightarrow> turn_tools \<Rightarrow> (turn_tools \<times> side list) option" where
  "tool_use_events fl now b tt =
     map_option
       (\<lambda>tt. (tt, if hidden_tool fl b then [] else [make_tool_use b (jfield b ''parent_tool_use_id'')]))
       (record_tool_use now b (remember_tool_use b tt))"

definition tool_heartbeat_events :: "stream_flags \<Rightarrow> instant \<Rightarrow> turn_tools \<Rightarrow> side list" where
  "tool_heartbeat_events fl now tt =
     (if \<not> fl_tool_progress fl then []
      else
        map (\<lambda>r. make_tool_progress (rc_id r) (rc_name r) (rc_elapsed r) ''gateway'' (rc_parent r) J_null J_null J_null)
          (filter (\<lambda>r. rc_parent r = J_null \<or> fl_sub_progress fl) (in_flight now (tt_stats tt))))"

fun is_number :: "json \<Rightarrow> bool" where
  "is_number (J_int _) = True"
| "is_number (J_float _) = True"
| "is_number _ = False"

fun is_text :: "json \<Rightarrow> bool" where
  "is_text (J_str _) = True"
| "is_text _ = False"

definition str_or_empty :: "(block \<Rightarrow> string) \<Rightarrow> json \<Rightarrow> string" where
  "str_or_empty show v = (if jtruthy v then show (Plain v) else [])"

definition cli_tool_progress_events ::
  "(string \<Rightarrow> int option) \<Rightarrow> (block \<Rightarrow> string) \<Rightarrow> stream_flags \<Rightarrow> instant \<Rightarrow> chunk \<Rightarrow> turn_tools \<Rightarrow> side list option" where
  "cli_tool_progress_events trunc show fl now c tt =
     (let parent = cfield c ''parent_tool_use_id''; tid = cfield c ''tool_use_id''; message = cfield c ''message'';
          elapsed = (if is_number (cfield c ''elapsed_time_seconds'') then cfield c ''elapsed_time_seconds'' else J_int 0);
          name = str_or_empty show (cfield c ''tool_name'');
          progress = cfield c ''progress''; whole = cfield c ''total'';
          emit = (\<lambda>name elapsed source parent.
            case as_int trunc elapsed of
              Some (J_int n) \<Rightarrow>
                Some [make_tool_progress tid (J_str name) n source (if is_text parent then parent else J_null)
                        (if is_text message then message else J_null)
                        (if is_number progress then progress else J_null) (if is_number whole then whole else J_null)]
            | _ \<Rightarrow> None)
      in if \<not> fl_tool_progress fl \<or> parent \<noteq> J_null \<and> \<not> fl_sub_progress fl \<or> \<not> is_text tid \<or> \<not> jtruthy tid then Some []
         else if cfield c ''source'' \<noteq> J_str ''mcp'' then emit name elapsed ''cli'' parent
         else
           case filter (\<lambda>r. rc_id r = tid) (in_flight now (tt_stats tt)) of
             [] \<Rightarrow> Some []
           | r # _ \<Rightarrow>
               if rc_parent r \<noteq> J_null \<and> \<not> fl_sub_progress fl then Some []
               else emit (if name \<noteq> [] then name else str_or_empty show (rc_name r))
                      (jor (J_int (rc_elapsed r)) elapsed) ''mcp'' (rc_parent r))"

text \<open>The results in a user chunk; an echo of the user's own answer is counted but not shown.\<close>

fun note_results :: "instant \<Rightarrow> json \<Rightarrow> json list \<Rightarrow> turn_tools \<Rightarrow> (turn_tools \<times> json list) option" where
  "note_results now call_output [] tt = Some (tt, [])"
| "note_results now call_output (b # bs) tt =
     (let echo = is_synthetic_ask_user_response_result b tt call_output;
          b' = (if echo then J_obj (dput ''is_error'' (J_bool False) (block_fields (Plain b))) else b)
      in do {
        tt1 \<leftarrow> record_tool_result now b' tt;
        (tt2, shown) \<leftarrow> note_results now call_output bs tt1;
        Some (tt2, if echo then shown else b' # shown)
      })"

definition user_tool_result_events ::
  "(block \<Rightarrow> string) \<Rightarrow> stream_flags \<Rightarrow> instant \<Rightarrow> json \<Rightarrow> chunk \<Rightarrow> turn_tools \<Rightarrow> (turn_tools \<times> side list) option" where
  "user_tool_result_events show fl now call_output c tt = do {
     (results, parent) \<leftarrow> extract_user_tool_results c;
     (tt, shown) \<leftarrow> note_results now call_output (map (normalize_tool_result_for_sse show) results) tt;
     Some (tt, if parent \<noteq> J_null \<and> \<not> fl_sub_tools fl then [] else map (\<lambda>b. make_tool_result show b parent) shown)
   }"

definition user_chunk_texts :: "chunk \<Rightarrow> string list" where
  "user_chunk_texts c =
     (let v = (case chunk_content c of Other (J_str t) \<Rightarrow> Other (J_str t)
                 | v \<Rightarrow> if as_blocks v \<noteq> None then v else Other (jfield (cfield c ''message'') ''content''))
      in case v of
           Other (J_str t) \<Rightarrow> [t]
         | _ \<Rightarrow>
             List.map_filter
               (\<lambda>b. if block_field b ''type'' J_null \<in> {J_null, J_str ''text''} then
                      (case block_field b ''text'' J_null of J_str t \<Rightarrow> if t = [] then None else Some t | _ \<Rightarrow> None)
                    else None)
               (blocks_or_none v))"

text \<open>\<open>from\<close> in a teammate's message is found by two regular expressions, here the argument \<open>sender\<close>.\<close>

definition teammate_message_events :: "(string \<Rightarrow> json) \<Rightarrow> chunk \<Rightarrow> side list" where
  "teammate_message_events sender c =
     (if cfield c ''parent_tool_use_id'' \<noteq> J_null then []
      else
        map (\<lambda>t. (''response.teammate_message'',
                  [(''text'', J_str t), (''from'', sender t), (''session_id'', cfield c ''session_id'')]))
          (filter is_teammate_message_text (user_chunk_texts c)))"

text \<open>Tool blocks inside an assistant's content.\<close>

definition embedded_tool_event ::
  "(block \<Rightarrow> string) \<Rightarrow> stream_flags \<Rightarrow> instant \<Rightarrow> json \<Rightarrow> json \<Rightarrow> turn_tools \<Rightarrow> (turn_tools \<times> side list) option" where
  "embedded_tool_event show fl now call_output b tt =
     (let type = jfield b ''type''; parent = jfield b ''parent_tool_use_id'';
          r0 = normalize_tool_result_for_sse show (Plain b);
          echo = type = J_str ''tool_result'' \<and> is_synthetic_ask_user_response_result r0 tt call_output;
          r = (if echo then J_obj (dput ''is_error'' (J_bool False) (block_fields (Plain r0))) else r0)
      in map_option
           (\<lambda>tt. (tt,
              if hidden_tool fl b \<or> echo then []
              else if type = J_str ''tool_use'' then [make_tool_use b parent]
              else if type = J_str ''tool_result'' then [make_tool_result show r parent]
              else if type = J_str ''server_tool_use'' then [(''response.server_tool_use'', [(''block'', b)])]
              else if type = J_str ''advisor_tool_result'' then [(''response.advisor_tool_result'', [(''block'', b)])]
              else []))
           (if type \<in> {J_str ''tool_use'', J_str ''server_tool_use''} then record_tool_use now b (remember_tool_use b tt)
            else if type = J_str ''tool_result'' then record_tool_result now r tt
            else if type = J_str ''advisor_tool_result'' then record_tool_result now b tt
            else Some tt))"

fun embedded_each ::
  "(block \<Rightarrow> string) \<Rightarrow> stream_flags \<Rightarrow> instant \<Rightarrow> json \<Rightarrow> json list \<Rightarrow> turn_tools \<Rightarrow> (turn_tools \<times> side list) option" where
  "embedded_each show fl now call_output [] tt = Some (tt, [])"
| "embedded_each show fl now call_output (b # bs) tt = do {
     (tt1, es) \<leftarrow> embedded_tool_event show fl now call_output b tt;
     (tt2, rest) \<leftarrow> embedded_each show fl now call_output bs tt1;
     Some (tt2, es @ rest)
   }"

definition embedded_tool_events ::
  "(block \<Rightarrow> string) \<Rightarrow> stream_flags \<Rightarrow> instant \<Rightarrow> json \<Rightarrow> chunk \<Rightarrow> turn_tools \<Rightarrow> (turn_tools \<times> side list) option" where
  "embedded_tool_events show fl now call_output c tt =
     Option.bind (extract_embedded_tool_blocks show c) (\<lambda>bs. embedded_each show fl now call_output bs tt)"

end
