(* ===== verification/TurnStream.thy ===== *)
theory TurnStream
  imports TurnTools
begin

text \<open>
  One streamed turn, \<open>stream_response_chunks\<close> of \<open>src/src/streaming_utils.py\<close>: the chunks of the
  backend to the events of a Responses stream.  A step takes the turn to a new turn, the events it
  yields and whether the generator goes on, returns or has raised.  The texts of streamed deltas are
  strings in the upstream protocol; a delta that is neither a string nor null raises here at once.
\<close>

section \<open>Items, responses and events\<close>

datatype rstatus = In_progress | Completed | Incomplete | Failed

datatype item = Message_item string rstatus string | Reasoning_item string rstatus string

record turn_response =
  re_id :: string
  re_model :: string
  re_metadata :: json
  re_status :: rstatus
  re_output :: "item list"
  re_usage :: "response_usage option"
  re_error :: "(string \<times> string) option"
  re_incomplete :: "string option"
  re_structured :: json

datatype body =
    Created turn_response
  | Running turn_response
  | Message_added nat string
  | Part_added nat string
  | Text_delta nat string string
  | Annotation nat string nat json
  | Text_done nat string string
  | Part_done nat string string
  | Reasoning_added nat string
  | Summary_part_added nat string
  | Summary_delta nat string string
  | Reasoning_delta nat string string
  | Summary_done nat string string
  | Reasoning_done nat string string
  | Summary_part_done nat string string
  | Item_done nat item
  | Side side
  | Response_end turn_response

datatype turn_event = Numbered body nat | Keepalive

section \<open>The turn's state\<close>

text \<open>Settings, and what is outside the repository or the loop.\<close>

record turn_cfg =
  tc_flags :: stream_flags
  tc_collab :: bool
  tc_loads :: "string \<Rightarrow> loaded"
  tc_show :: "block \<Rightarrow> string"
  tc_trunc :: "string \<Rightarrow> int option"
  tc_sender :: "string \<Rightarrow> json"
  tc_uuid :: "nat \<Rightarrow> string"
  tc_call_output :: json
  tc_prompt :: string
  tc_response_id :: string
  tc_item_id :: string
  tc_model :: string
  tc_metadata :: json

record turn =
  tn_seq :: nat
  tn_fresh :: nat
  tn_content_sent :: bool
  tn_token_streaming :: bool
  tn_in_thinking :: bool
  tn_acc :: tool_acc
  tn_filter :: cfilter
  tn_full :: string
  tn_visible :: string
  tn_annotation :: nat
  tn_message_open :: bool
  tn_any_message :: bool
  tn_index :: nat
  tn_item_id :: string
  tn_reasoning :: "(string \<times> string) option"
  tn_pending :: bool
  tn_pending_buf :: string
  tn_reasoning_emitted :: bool
  tn_thinking_texts :: "string list"
  tn_capture :: string
  tn_completed :: "item list"
  tn_tools :: turn_tools
  tn_compaction :: tracker
  tn_buffer :: "chunk list"

definition new_turn :: "turn_cfg \<Rightarrow> turn" where
  "new_turn cf =
     \<lparr>tn_seq = 0, tn_fresh = 0, tn_content_sent = False, tn_token_streaming = False, tn_in_thinking = False,
      tn_acc = [], tn_filter = new_cfilter (tc_collab cf), tn_full = [], tn_visible = [], tn_annotation = 0,
      tn_message_open = False, tn_any_message = False, tn_index = 0, tn_item_id = tc_item_id cf,
      tn_reasoning = None, tn_pending = False, tn_pending_buf = [], tn_reasoning_emitted = False,
      tn_thinking_texts = [], tn_capture = [], tn_completed = [],
      tn_tools = \<lparr>tt_stats = new_tool_stats, tt_names = []\<rparr>, tn_compaction = [], tn_buffer = []\<rparr>"

datatype outcome = Completed_turn | Incomplete_turn | Failed_turn | Paused_turn | Empty_turn | Raised_turn

datatype flow = Go | Stop outcome | Raise

type_synonym step = "turn \<Rightarrow> turn \<times> turn_event list \<times> flow"

definition emits :: "body list \<Rightarrow> step" where
  "emits bs s =
     (s\<lparr>tn_seq := tn_seq s + length bs\<rparr>, map (\<lambda>(b, n). Numbered b n) (zip bs [tn_seq s ..< tn_seq s + length bs]), Go)"

definition change :: "(turn \<Rightarrow> turn) \<Rightarrow> step" where
  "change f s = (f s, [], Go)"

definition raises :: step where
  "raises s = (s, [], Raise)"

fun steps :: "step list \<Rightarrow> step" where
  "steps [] s = (s, [], Go)"
| "steps (a # as) s =
     (case a s of
        (s1, o1, Go) \<Rightarrow> (let (s2, o2, f) = steps as s1 in (s2, o1 @ o2, f))
      | r \<Rightarrow> r)"

definition sides :: "side list \<Rightarrow> step" where
  "sides es = emits (map Side es)"

definition respond :: "turn_cfg \<Rightarrow> rstatus \<Rightarrow> item list \<Rightarrow> response_usage option \<Rightarrow> (string \<times> string) option \<Rightarrow>
    string option \<Rightarrow> json \<Rightarrow> turn_response" where
  "respond cf st items u err why structured =
     \<lparr>re_id = tc_response_id cf, re_model = tc_model cf, re_metadata = tc_metadata cf, re_status = st, re_output = items,
      re_usage = u, re_error = err, re_incomplete = why, re_structured = structured\<rparr>"

section \<open>Message and reasoning items\<close>

definition open_message :: step where
  "open_message s =
     (if tn_message_open s then (s, [], Go)
      else
        emits [Message_added (tn_index s) (tn_item_id s), Part_added (tn_index s) (tn_item_id s)]
          (s\<lparr>tn_message_open := True, tn_any_message := True\<rparr>))"

definition emit_delta :: "string \<Rightarrow> step" where
  "emit_delta t s =
     emits [Text_delta (tn_index s) (tn_item_id s) t]
       (s\<lparr>tn_full := tn_full s @ t, tn_visible := tn_visible s @ t, tn_content_sent := True\<rparr>)"

definition show_text :: "string \<Rightarrow> step" where
  "show_text t = steps [open_message, emit_delta t]"

definition close_thinking_capture :: "turn \<Rightarrow> turn" where
  "close_thinking_capture s =
     s\<lparr>tn_thinking_texts := (if tn_capture s = [] then tn_thinking_texts s else tn_thinking_texts s @ [tn_capture s]),
       tn_capture := []\<rparr>"

definition open_reasoning :: "turn_cfg \<Rightarrow> step" where
  "open_reasoning cf s =
     (let rid = ''rs_'' @ tc_uuid cf (tn_fresh s)
      in emits [Reasoning_added (tn_index s) rid, Summary_part_added (tn_index s) rid]
           (s\<lparr>tn_fresh := Suc (tn_fresh s), tn_reasoning := Some (rid, []), tn_reasoning_emitted := True\<rparr>))"

definition close_reasoning :: "rstatus \<Rightarrow> step" where
  "close_reasoning st s =
     (case tn_reasoning s of
        None \<Rightarrow> (s, [], Go)
      | Some (rid, full) \<Rightarrow>
          (let n = tn_index s; i = Reasoning_item rid st full
           in emits [Summary_done n rid full, Reasoning_done n rid full, Summary_part_done n rid full, Item_done n i]
                (s\<lparr>tn_completed := tn_completed s @ [i], tn_reasoning := None, tn_index := n + 1\<rparr>)))"

definition finish_message :: "turn_cfg \<Rightarrow> rstatus \<Rightarrow> step" where
  "finish_message cf st s =
     (let n = tn_index s; mid = tn_item_id s; full = tn_full s; i = Message_item mid st full
      in emits [Text_done n mid full, Part_done n mid full, Item_done n i]
           (s\<lparr>tn_completed := tn_completed s @ [i], tn_message_open := False, tn_full := [], tn_annotation := 0,
              tn_index := n + 1, tn_item_id := ''msg_'' @ tc_uuid cf (tn_fresh s), tn_fresh := Suc (tn_fresh s)\<rparr>))"

definition close_message :: "turn_cfg \<Rightarrow> rstatus \<Rightarrow> step" where
  "close_message cf st s =
     (if \<not> tn_message_open s then (s, [], Go)
      else
        let (rest, f) = flush (tn_filter s)
        in steps
             [change (\<lambda>s. s\<lparr>tn_filter := f\<rparr>), if rest \<noteq> [] then emit_delta rest else steps [], finish_message cf st] s)"

text \<open>Both kinds of open item, in the order in which every ending closes them.\<close>

definition close_all :: "turn_cfg \<Rightarrow> rstatus \<Rightarrow> step" where
  "close_all cf st = steps [change close_thinking_capture, close_reasoning st, close_message cf st]"

section \<open>Endings\<close>

definition failed_event :: "turn_cfg \<Rightarrow> string \<Rightarrow> string \<Rightarrow> body" where
  "failed_event cf c msg = Response_end (respond cf Failed [] None (Some (c, msg)) None J_null)"

definition fail_turn :: "turn_cfg \<Rightarrow> string \<Rightarrow> string \<Rightarrow> step" where
  "fail_turn cf c msg s = (case emits [failed_event cf c msg] s of (s, out, _) \<Rightarrow> (s, out, Stop Failed_turn))"

text \<open>The usage of the response: totals and details, or an exception.\<close>

definition turn_usage :: "turn_cfg \<Rightarrow> turn \<Rightarrow> response_usage option" where
  "turn_usage cf s =
     (case (resolve_token_usage (tc_trunc cf) None (tn_buffer s) (tc_prompt cf) (tn_visible s),
            resolve_usage_details (tc_trunc cf) (tn_buffer s)) of
        (Some u, Some d) \<Rightarrow> Some (make_usage u d)
      | _ \<Rightarrow> None)"

definition end_turn :: "turn_cfg \<Rightarrow> rstatus \<Rightarrow> outcome \<Rightarrow> string option \<Rightarrow> json \<Rightarrow> step" where
  "end_turn cf st oc why structured s =
     (case turn_usage cf s of
        None \<Rightarrow> (s, [], Raise)
      | Some u \<Rightarrow>
          (case emits [Response_end (respond cf st (tn_completed s) (Some u) None why structured)] s of
             (s, out, _) \<Rightarrow> (s, out, Stop oc)))"

definition cut_turn :: "turn_cfg \<Rightarrow> string \<Rightarrow> step" where
  "cut_turn cf why = steps [close_all cf Incomplete, end_turn cf Incomplete Incomplete_turn (Some why) J_null]"

section \<open>Chunks\<close>

definition buffer_chunk :: "chunk \<Rightarrow> step" where
  "buffer_chunk c = change (\<lambda>s. s\<lparr>tn_buffer := tn_buffer s @ [c]\<rparr>)"

definition fields_of :: "chunk \<Rightarrow> json" where
  "fields_of c = J_obj (ck_fields c)"

definition is_max_turns :: "turn_cfg \<Rightarrow> chunk \<Rightarrow> bool" where
  "is_max_turns cf c \<longleftrightarrow>
     cfield c ''type'' = J_str ''result'' \<and>
     starts_with ''error_max_turns''
       (case jget_or (J_str []) (fields_of c) ''subtype'' of J_str t \<Rightarrow> t | v \<Rightarrow> tc_show cf (Plain v))"

definition handle_error :: "turn_cfg \<Rightarrow> chunk \<Rightarrow> json \<times> json \<Rightarrow> step" where
  "handle_error cf c e =
     steps
       [if cfield c ''type'' = J_str ''assistant'' then buffer_chunk c else steps [],
        case e of (J_str err, J_str msg) \<Rightarrow> fail_turn cf err msg | _ \<Rightarrow> raises]"

definition handle_system :: "turn_cfg \<Rightarrow> chunk \<Rightarrow> step" where
  "handle_system cf c s =
     (let fl = tc_flags cf; v = fields_of c
      in case build_task_event v of
           Some ev \<Rightarrow>
             if cfield c ''parent_tool_use_id'' = J_null \<and> cfield c ''tool_use_id'' = J_null \<or> fl_sub_progress fl
             then sides [make_task_event ev] s
             else (s, [], Go)
         | None \<Rightarrow>
             if fst (stream_identity v) \<noteq> J_null \<and> \<not> fl_sub_progress fl then (s, [], Go)
             else
               case build_progress_event (tc_trunc cf) fl v of
                 None \<Rightarrow> (s, [], Raise)
               | Some None \<Rightarrow> (s, [], Go)
               | Some (Some ev) \<Rightarrow>
                   (let (t, es) = tracker_feed ev (tn_compaction s)
                    in sides (map make_task_event es) (s\<lparr>tn_compaction := t\<rparr>)))"

definition flush_compaction :: "chunk option \<Rightarrow> step" where
  "flush_compaction c s =
     (let (t, es) = tracker_flush (map_option fields_of c) (tn_compaction s)
      in sides (map make_task_event es) (s\<lparr>tn_compaction := t\<rparr>))"

text \<open>The \<open>delta\<close> of a streamed event, empty for any other chunk.\<close>

definition delta_of :: "chunk \<Rightarrow> json" where
  "delta_of c =
     (if cfield c ''type'' = J_str ''stream_event'' \<and> is_obj (event_of c) then jget_or (J_obj []) (event_of c) ''delta''
      else J_obj [])"

definition is_citation :: "chunk \<Rightarrow> bool" where
  "is_citation c \<longleftrightarrow> jfield (delta_of c) ''type'' = J_str ''citations_delta''"

definition leader_or_shown :: "turn_cfg \<Rightarrow> chunk \<Rightarrow> bool" where
  "leader_or_shown cf c \<longleftrightarrow> cfield c ''parent_tool_use_id'' = J_null \<or> fl_sub_text (tc_flags cf)"

definition add_annotation :: "json \<Rightarrow> step" where
  "add_annotation v s =
     emits [Annotation (tn_index s) (tn_item_id s) (tn_annotation s) v] (s\<lparr>tn_annotation := Suc (tn_annotation s)\<rparr>)"

definition handle_citation :: "turn_cfg \<Rightarrow> chunk \<Rightarrow> step" where
  "handle_citation cf c =
     (if leader_or_shown cf c then
        steps [open_message, add_annotation (jor (jfield (delta_of c) ''citation'') (J_obj []))]
      else steps [])"

section \<open>Streamed text\<close>

definition push_reasoning :: "string \<Rightarrow> step" where
  "push_reasoning t s =
     (case tn_reasoning s of
        None \<Rightarrow> (s, [], Go)
      | Some (rid, buf) \<Rightarrow>
          emits (if t = [] then [] else [Summary_delta (tn_index s) rid t, Reasoning_delta (tn_index s) rid t])
            (s\<lparr>tn_reasoning := Some (rid, buf @ t)\<rparr>))"

text \<open>
  Inside a thinking block: the item is opened by the first text that is not blank, with the blank
  text before it; later text goes to the open item.
\<close>

definition think :: "turn_cfg \<Rightarrow> string \<Rightarrow> step" where
  "think cf t s =
     (let s = s\<lparr>tn_capture := tn_capture s @ t\<rparr>
      in if tn_pending s \<and> tn_reasoning s = None then
           (let held = tn_pending_buf s @ t
            in if strip_text held = [] then (s\<lparr>tn_pending_buf := held\<rparr>, [], Go)
               else
                 steps [close_message cf Completed, open_reasoning cf, push_reasoning held]
                   (s\<lparr>tn_pending := False, tn_pending_buf := []\<rparr>))
         else push_reasoning t s)"

definition not_pending :: "turn \<Rightarrow> turn" where
  "not_pending s = s\<lparr>tn_pending := False, tn_pending_buf := []\<rparr>"

definition say :: "turn_cfg \<Rightarrow> string \<Rightarrow> step" where
  "say cf t s =
     (if t = [] then (s, [], Go)
      else
        let (f, cleaned) = feed (\<lambda>u. case tc_loads cf u of Loaded v \<Rightarrow> Some v | _ \<Rightarrow> None) (tn_filter s) t
        in steps [change (\<lambda>s. s\<lparr>tn_filter := f\<rparr>), if cleaned \<noteq> [] then show_text cleaned else steps []] s)"

definition handle_text :: "turn_cfg \<Rightarrow> bool \<Rightarrow> string \<Rightarrow> step" where
  "handle_text cf was_thinking t s =
     (let s = s\<lparr>tn_token_streaming := True\<rparr>;
          s = (if tn_in_thinking s \<and> \<not> was_thinking then s\<lparr>tn_pending := True, tn_pending_buf := []\<rparr> else s)
      in if t = think_start then (close_thinking_capture s, [], Go)
         else if t = think_stop then steps [change (not_pending \<circ> close_thinking_capture), close_reasoning Completed] s
         else if tn_in_thinking s then think cf t s
         else steps [change not_pending, close_reasoning Completed, say cf t] s)"

section \<open>Whole chunks\<close>

definition set_tools :: "turn_tools \<Rightarrow> turn \<Rightarrow> turn" where
  "set_tools tt s = s\<lparr>tn_tools := tt\<rparr>"

definition with_tools :: "(turn_tools \<times> side list) option \<Rightarrow> step" where
  "with_tools r = (case r of None \<Rightarrow> raises | Some (tt, es) \<Rightarrow> steps [change (set_tools tt), sides es])"

definition handle_user :: "turn_cfg \<Rightarrow> instant \<Rightarrow> chunk \<Rightarrow> step" where
  "handle_user cf now c s =
     steps
       [with_tools (user_tool_result_events (tc_show cf) (tc_flags cf) now (tc_call_output cf) c (tn_tools s)),
        sides (teammate_message_events (tc_sender cf) c), buffer_chunk c] s"

definition content_text :: "turn_cfg \<Rightarrow> chunk \<Rightarrow> bool \<Rightarrow> string option option" where
  "content_text cf c sent =
     format_chunk_content (\<lambda>u. case tc_loads cf u of Loaded v \<Rightarrow> Some v | _ \<Rightarrow> None) (tc_show cf) c sent"

definition show_content :: "turn_cfg \<Rightarrow> chunk \<Rightarrow> step" where
  "show_content cf c s =
     (if \<not> leader_or_shown cf c \<and> cfield c ''type'' = J_str ''assistant'' then (s, [], Go)
      else
        case content_text cf c (tn_content_sent s) of
          None \<Rightarrow> (s, [], Raise)
        | Some None \<Rightarrow> (s, [], Go)
        | Some (Some t) \<Rightarrow> show_text t s)"

definition handle_content :: "turn_cfg \<Rightarrow> chunk \<Rightarrow> step" where
  "handle_content cf c s =
     (if tn_token_streaming s \<and> cfield c ''type'' = J_str ''stream_event'' then
        (case is_context_snapshot_chunk (tc_trunc cf) c of
           None \<Rightarrow> (s, [], Raise)
         | Some keep \<Rightarrow> (if keep then buffer_chunk c s else (s, [], Go)))
      else if tn_token_streaming s \<and> cfield c ''type'' \<noteq> J_str ''user'' \<and> is_assistant_content_chunk c then
        (if has_usage ''assistant'' c then buffer_chunk c s else (s, [], Go))
      else steps [buffer_chunk c, show_content cf c] s)"

definition handle_rest :: "turn_cfg \<Rightarrow> instant \<Rightarrow> chunk \<Rightarrow> step" where
  "handle_rest cf now c s =
     (case process_stream_event (tc_loads cf) c (tn_acc s) of
        None \<Rightarrow> (s, [], Raise)
      | Some (acc, handled, made) \<Rightarrow>
          (let s = s\<lparr>tn_acc := acc\<rparr>
           in if handled then
                (case made of
                   None \<Rightarrow> (s, [], Go)
                 | Some b \<Rightarrow> with_tools (tool_use_events (tc_flags cf) now b (tn_tools s)) s)
              else if cfield c ''type'' = J_str ''user'' then handle_user cf now c s
              else
                steps
                  [with_tools (embedded_tool_events (tc_show cf) (tc_flags cf) now (tc_call_output cf) c (tn_tools s)),
                   handle_content cf c] s))"

definition handle_streamed :: "turn_cfg \<Rightarrow> instant \<Rightarrow> chunk \<Rightarrow> step" where
  "handle_streamed cf now c s =
     (if \<not> is_obj (delta_of c) then (s, [], Raise)
      else if is_citation c then handle_citation cf c s
      else
        case extract_stream_event_delta (tc_flags cf) c (tn_in_thinking s) of
          None \<Rightarrow> (s, [], Raise)
        | Some (v, thinking) \<Rightarrow>
            (let was = tn_in_thinking s; s = s\<lparr>tn_in_thinking := thinking\<rparr>
             in case v of
                  J_null \<Rightarrow> steps [sides (tool_use_started_events (tc_flags cf) c), handle_rest cf now c] s
                | J_str t \<Rightarrow> handle_text cf was t s
                | _ \<Rightarrow> (s, [], Raise)))"

definition handle_chunk :: "turn_cfg \<Rightarrow> instant \<Rightarrow> chunk \<Rightarrow> step" where
  "handle_chunk cf now c s =
     (if cfield c ''type'' = J_str ''tool_progress'' then
        (case cli_tool_progress_events (tc_trunc cf) (tc_show cf) (tc_flags cf) now c (tn_tools s) of
           None \<Rightarrow> (s, [], Raise)
         | Some es \<Rightarrow> sides es s)
      else if jtruthy (cfield c ''gateway_interrupted'') then steps [buffer_chunk c, cut_turn cf ''user_cancelled''] s
      else if is_max_turns cf c then cut_turn cf ''max_turns'' s
      else
        case classify_error_chunk (tc_show cf) c of
          Some e \<Rightarrow> handle_error cf c e s
        | None \<Rightarrow>
            if cfield c ''type'' = J_str ''rate_limit'' then (s, [], Go)
            else if cfield c ''type'' = J_str ''system'' then handle_system cf c s
            else steps [flush_compaction (Some c), handle_streamed cf now c] s)"

section \<open>The generator\<close>

text \<open>What the keepalive wrapper hands over: a chunk, an idle tick, a stall, or the source's exception.\<close>

datatype turn_input = Item instant chunk | Idle instant | Stalled string | Broken

definition final_flush :: step where
  "final_flush s =
     (let (rest, f) = flush (tn_filter s)
      in steps [change (\<lambda>s. s\<lparr>tn_filter := f\<rparr>), if rest \<noteq> [] then show_text rest else steps []] s)"

definition trailing_message :: "turn_cfg \<Rightarrow> step" where
  "trailing_message cf s =
     (if tn_any_message s then (s, [], Go) else steps [open_message, close_message cf Completed] s)"

definition finish_turn :: "turn_cfg \<Rightarrow> bool \<Rightarrow> step" where
  "finish_turn cf paused s =
     (if paused then
        steps [close_all cf Completed, \<lambda>s. (s, [], Stop Paused_turn)] s
      else if \<not> tn_content_sent s \<and> \<not> tn_reasoning_emitted s then (s, [], Stop Empty_turn)
      else
        steps
          [close_all cf Completed, trailing_message cf,
           \<lambda>s. end_turn cf Completed Completed_turn None (extract_structured_output (tn_buffer s)) s] s)"

text \<open>An exception in the loop fails the turn; one in the code after it is the generator's.\<close>

fun stream_turn :: "turn_cfg \<Rightarrow> bool \<Rightarrow> turn_input list \<Rightarrow> turn \<Rightarrow> turn \<times> turn_event list \<times> outcome" where
  "stream_turn cf paused [] s =
     (case steps [final_flush, flush_compaction None, finish_turn cf paused] s of
        (s, out, Stop r) \<Rightarrow> (s, out, r)
      | (s, out, _) \<Rightarrow> (s, out, Raised_turn))"
| "stream_turn cf paused (x # xs) s =
     (let fails = (\<lambda>msg s. case fail_turn cf ''server_error'' msg s of (s, out, _) \<Rightarrow> (s, out, Failed_turn))
      in case x of
           Stalled m \<Rightarrow> fails (''Turn stalled: '' @ m) s
         | Broken \<Rightarrow> fails ''Internal server error'' s
         | Idle now \<Rightarrow>
             (let (s, out, _) = sides (tool_heartbeat_events (tc_flags cf) now (tn_tools s)) s;
                  (s', rest, r) = stream_turn cf paused xs s
              in (s', Keepalive # out @ rest, r))
         | Item now c \<Rightarrow>
             (case handle_chunk cf now c s of
                (s, out, Go) \<Rightarrow> (let (s', rest, r) = stream_turn cf paused xs s in (s', out @ rest, r))
              | (s, out, Stop r) \<Rightarrow> (s, out, r)
              | (s, out, Raise) \<Rightarrow> (let (s', rest, r) = fails ''Internal server error'' s in (s', out @ rest, r))))"

definition preamble :: "turn_cfg \<Rightarrow> step" where
  "preamble cf =
     emits [Created (respond cf In_progress [] None None None J_null),
            Running (respond cf In_progress [] None None None J_null)]"

definition stream_response_chunks :: "turn_cfg \<Rightarrow> bool \<Rightarrow> turn_input list \<Rightarrow> turn \<times> turn_event list \<times> outcome" where
  "stream_response_chunks cf paused xs =
     (let (s, out, _) = preamble cf (new_turn cf); (s', rest, r) = stream_turn cf paused xs s in (s', out @ rest, r))"

end
