(* ===== verification/TurnProtocol.thy ===== *)
theory TurnProtocol
  imports TurnStream
begin

text \<open>
  The streamed turn against the protocol a client of the Responses API reads: the reader, the
  invariant that ties the turn's state to it, and the proof that every turn is read to its end.
\<close>

section \<open>A reader of the stream\<close>

text \<open>
  Events are numbered from 0; one item is open at a time, under the next output index; deltas add up
  to the text of the done events; annotations are counted from 0; a reasoning item is never blank;
  a completed or incomplete response carries the items that were done, in order, and a completed
  one has a message; nothing follows the end.
\<close>

datatype entry = Open_message string string nat | Open_reasoning string string string

record reader =
  rd_seq :: nat
  rd_stage :: nat
  rd_next :: nat
  rd_open :: "entry option"
  rd_done :: "item list"

fun is_message :: "item \<Rightarrow> bool" where
  "is_message (Message_item i st t) = True"
| "is_message _ = False"

fun closes :: "entry \<Rightarrow> item \<Rightarrow> bool" where
  "closes (Open_message i t n) (Message_item j st u) = (i = j \<and> t = u \<and> st \<in> {Completed, Incomplete})"
| "closes (Open_reasoning i a b) (Reasoning_item j st u) =
     (i = j \<and> a = u \<and> b = u \<and> strip_text u \<noteq> [] \<and> st \<in> {Completed, Incomplete})"
| "closes _ _ = False"

definition opens :: "reader \<Rightarrow> nat \<Rightarrow> entry \<Rightarrow> reader option" where
  "opens q n e = (if n = rd_next q \<and> rd_open q = None then Some (q\<lparr>rd_open := Some e\<rparr>) else None)"

definition extends :: "reader \<Rightarrow> nat \<Rightarrow> (entry \<Rightarrow> entry option) \<Rightarrow> reader option" where
  "extends q n f =
     (case rd_open q of
        None \<Rightarrow> None
      | Some e \<Rightarrow> if n = rd_next q then map_option (\<lambda>e. q\<lparr>rd_open := Some e\<rparr>) (f e) else None)"

definition expects :: "reader \<Rightarrow> nat \<Rightarrow> (entry \<Rightarrow> bool) \<Rightarrow> reader option" where
  "expects q n p = extends q n (\<lambda>e. if p e then Some e else None)"

definition ends :: "reader \<Rightarrow> turn_response \<Rightarrow> bool" where
  "ends q r \<longleftrightarrow>
     (case re_status r of
        Completed \<Rightarrow> rd_open q = None \<and> re_output r = rd_done q \<and> list_ex is_message (rd_done q)
      | Incomplete \<Rightarrow> rd_open q = None \<and> re_output r = rd_done q
      | Failed \<Rightarrow> re_output r = [] \<and> re_error r \<noteq> None
      | In_progress \<Rightarrow> False)"

fun read_item :: "reader \<Rightarrow> body \<Rightarrow> reader option" where
  "read_item q (Message_added n i) = opens q n (Open_message i [] 0)"
| "read_item q (Part_added n i) = expects q n (\<lambda>e. e = Open_message i [] 0)"
| "read_item q (Text_delta n i t) =
     extends q n (\<lambda>e. case e of Open_message j u k \<Rightarrow> if i = j \<and> t \<noteq> [] then Some (Open_message j (u @ t) k) else None | _ \<Rightarrow> None)"
| "read_item q (Annotation n i k v) =
     extends q n (\<lambda>e. case e of Open_message j u m \<Rightarrow> if i = j \<and> k = m then Some (Open_message j u (Suc m)) else None | _ \<Rightarrow> None)"
| "read_item q (Text_done n i t) = expects q n (\<lambda>e. case e of Open_message j u k \<Rightarrow> i = j \<and> t = u | _ \<Rightarrow> False)"
| "read_item q (Part_done n i t) = expects q n (\<lambda>e. case e of Open_message j u k \<Rightarrow> i = j \<and> t = u | _ \<Rightarrow> False)"
| "read_item q (Reasoning_added n i) = opens q n (Open_reasoning i [] [])"
| "read_item q (Summary_part_added n i) = expects q n (\<lambda>e. e = Open_reasoning i [] [])"
| "read_item q (Summary_delta n i t) =
     extends q n (\<lambda>e. case e of Open_reasoning j a b \<Rightarrow> if i = j then Some (Open_reasoning j (a @ t) b) else None | _ \<Rightarrow> None)"
| "read_item q (Reasoning_delta n i t) =
     extends q n (\<lambda>e. case e of Open_reasoning j a b \<Rightarrow> if i = j then Some (Open_reasoning j a (b @ t)) else None | _ \<Rightarrow> None)"
| "read_item q (Summary_done n i t) = expects q n (\<lambda>e. case e of Open_reasoning j a b \<Rightarrow> i = j \<and> t = a | _ \<Rightarrow> False)"
| "read_item q (Reasoning_done n i t) = expects q n (\<lambda>e. case e of Open_reasoning j a b \<Rightarrow> i = j \<and> t = b | _ \<Rightarrow> False)"
| "read_item q (Summary_part_done n i t) = expects q n (\<lambda>e. case e of Open_reasoning j a b \<Rightarrow> i = j \<and> t = a | _ \<Rightarrow> False)"
| "read_item q (Item_done n i) =
     (case expects q n (\<lambda>e. closes e i) of
        None \<Rightarrow> None
      | Some q \<Rightarrow> Some (q\<lparr>rd_open := None, rd_next := n + 1, rd_done := rd_done q @ [i]\<rparr>))"
| "read_item q (Side e) = Some q"
| "read_item q (Response_end r) = (if ends q r then Some (q\<lparr>rd_stage := 3\<rparr>) else None)"
| "read_item q b = None"

fun read_body :: "reader \<Rightarrow> body \<Rightarrow> reader option" where
  "read_body q (Created r) = (if rd_stage q = 0 \<and> re_status r = In_progress \<and> re_output r = [] then Some (q\<lparr>rd_stage := 1\<rparr>) else None)"
| "read_body q (Running r) = (if rd_stage q = 1 \<and> re_status r = In_progress \<and> re_output r = [] then Some (q\<lparr>rd_stage := 2\<rparr>) else None)"
| "read_body q b = (if rd_stage q = 2 then read_item q b else None)"

fun read_event :: "reader \<Rightarrow> turn_event \<Rightarrow> reader option" where
  "read_event q Keepalive = Some q"
| "read_event q (Numbered b n) =
     (if n = rd_seq q then map_option (\<lambda>q. q\<lparr>rd_seq := Suc n\<rparr>) (read_body q b) else None)"

definition new_reader :: reader where
  "new_reader = \<lparr>rd_seq = 0, rd_stage = 0, rd_next = 0, rd_open = None, rd_done = []\<rparr>"

section \<open>The state as the client sees it\<close>

definition view :: "turn \<Rightarrow> reader" where
  "view s =
     \<lparr>rd_seq = tn_seq s, rd_stage = 2, rd_next = tn_index s,
      rd_open =
        (if tn_message_open s then Some (Open_message (tn_item_id s) (tn_full s) (tn_annotation s))
         else case tn_reasoning s of None \<Rightarrow> None | Some (i, t) \<Rightarrow> Some (Open_reasoning i t t)),
      rd_done = tn_completed s\<rparr>"

definition turn_inv :: "bool \<Rightarrow> turn \<Rightarrow> bool" where
  "turn_inv en s \<longleftrightarrow>
     (tn_message_open s \<longrightarrow> tn_reasoning s = None) \<and>
     (\<not> tn_message_open s \<longrightarrow> tn_full s = [] \<and> tn_annotation s = 0) \<and>
     (\<forall>i t. tn_reasoning s = Some (i, t) \<longrightarrow> tn_in_thinking s \<and> tn_token_streaming s \<and> strip_text t \<noteq> []) \<and>
     (tn_any_message s \<longrightarrow> tn_message_open s \<or> list_ex is_message (tn_completed s)) \<and>
     cf_enabled (tn_filter s) = en \<and> (\<not> en \<longrightarrow> cf_buf (tn_filter s) = [])"

text \<open>What a step does to the reader, by how it leaves.\<close>

fun left :: "bool \<Rightarrow> flow \<Rightarrow> reader \<Rightarrow> turn \<Rightarrow> (turn \<Rightarrow> bool) \<Rightarrow> bool" where
  "left en Go q s Q = (q = view s \<and> turn_inv en s \<and> Q s)"
| "left en Raise q s Q = (q = view s)"
| "left en (Stop r) q s Q =
     (rd_stage q = (if r \<in> {Completed_turn, Incomplete_turn, Failed_turn} then 3 else 2) \<and>
      (r = Paused_turn \<longrightarrow> rd_open q = None))"

definition ok_step :: "bool \<Rightarrow> (turn \<Rightarrow> bool) \<Rightarrow> step \<Rightarrow> (turn \<Rightarrow> bool) \<Rightarrow> bool" where
  "ok_step en P a Q \<longleftrightarrow>
     (\<forall>s s' out f. turn_inv en s \<longrightarrow> P s \<longrightarrow> a s = (s', out, f) \<longrightarrow>
        (\<exists>q. reads read_event (view s) out = Some q \<and> left en f q s' Q))"

lemma ok_stepD:
  "ok_step en P a Q \<Longrightarrow> turn_inv en s \<Longrightarrow> P s \<Longrightarrow> a s = (s', out, f) \<Longrightarrow>
     \<exists>q. reads read_event (view s) out = Some q \<and> left en f q s' Q"
  by (simp add: ok_step_def)

lemma ok_stepI:
  "(\<And>s s' out f. turn_inv en s \<Longrightarrow> P s \<Longrightarrow> a s = (s', out, f) \<Longrightarrow>
     \<exists>q. reads read_event (view s) out = Some q \<and> left en f q s' Q) \<Longrightarrow> ok_step en P a Q"
  by (auto simp: ok_step_def)

lemma left_weaken: "left en f q s Q \<Longrightarrow> (\<And>s. Q s \<Longrightarrow> R s) \<Longrightarrow> left en f q s R"
  by (cases f) auto

lemma ok_conseq: "ok_step en P a Q \<Longrightarrow> (\<And>s. P' s \<Longrightarrow> P s) \<Longrightarrow> (\<And>s. Q s \<Longrightarrow> Q' s) \<Longrightarrow> ok_step en P' a Q'"
  unfolding ok_step_def using left_weaken by blast

lemma ok_steps_Nil: "(\<And>s. P s \<Longrightarrow> Q s) \<Longrightarrow> ok_step en P (steps []) Q"
  by (auto simp: ok_step_def)

lemma ok_steps_Cons:
  assumes a: "ok_step en P a R" and as: "ok_step en R (steps as) Q"
  shows "ok_step en P (steps (a # as)) Q"
proof (rule ok_stepI)
  fix s s' out f
  assume s: "turn_inv en s" "P s" "steps (a # as) s = (s', out, f)"
  obtain s1 o1 f1 where e: "a s = (s1, o1, f1)" by (rule prod_cases3)
  from ok_stepD [OF a s(1,2) e] obtain q1 where q1: "reads read_event (view s) o1 = Some q1" "left en f1 q1 s1 R" by blast
  show "\<exists>q. reads read_event (view s) out = Some q \<and> left en f q s' Q"
  proof (cases f1)
    case Go
    obtain s2 o2 f2 where e2: "steps as s1 = (s2, o2, f2)" by (rule prod_cases3)
    from ok_stepD [OF as _ _ e2] obtain q2 where "reads read_event (view s1) o2 = Some q2" "left en f2 q2 s2 Q"
      using q1(2) Go by auto
    then show ?thesis using q1 s(3) e e2 Go by (auto simp: reads_append)
  next
    case (Stop r)
    then show ?thesis using q1 s(3) e by auto
  next
    case Raise
    then show ?thesis using q1 s(3) e by auto
  qed
qed

lemma ok_steps_one: "ok_step en P a Q \<Longrightarrow> ok_step en P (steps [a]) Q"
  by (rule ok_steps_Cons) (auto intro: ok_steps_Nil)

lemma ok_change: "(\<And>s. turn_inv en s \<Longrightarrow> P s \<Longrightarrow> view (f s) = view s \<and> turn_inv en (f s) \<and> Q (f s)) \<Longrightarrow> ok_step en P (change f) Q"
  by (auto simp: ok_step_def change_def)

lemma ok_raises: "ok_step en P raises Q"
  by (auto simp: ok_step_def raises_def)

lemma ok_if: "(b \<Longrightarrow> ok_step en P a Q) \<Longrightarrow> (\<not> b \<Longrightarrow> ok_step en P c Q) \<Longrightarrow> ok_step en P (if b then a else c) Q"
  by simp

section \<open>Numbers\<close>

lemma read_item_seq: "read_item (q\<lparr>rd_seq := n\<rparr>) b = map_option (\<lambda>q. q\<lparr>rd_seq := n\<rparr>) (read_item q b)"
  by (cases b) (auto simp: opens_def extends_def expects_def ends_def split: option.splits rstatus.splits entry.splits)

lemma turn_read_body_seq: "read_body (q\<lparr>rd_seq := n\<rparr>) b = map_option (\<lambda>q. q\<lparr>rd_seq := n\<rparr>) (read_body q b)"
  using read_item_seq [where q = q and n = n and b = b] by (cases b) simp_all

text \<open>Reading numbered bodies is reading the bodies.\<close>

lemma turn_reads_numbered:
  "reads read_event (q\<lparr>rd_seq := n\<rparr>) (map (\<lambda>(b, n). Numbered b n) (zip bs [n ..< n + length bs])) =
     map_option (\<lambda>q. q\<lparr>rd_seq := n + length bs\<rparr>) (reads read_body q bs)"
proof (induction bs arbitrary: q n)
  case (Cons b bs)
  have up: "[n ..< n + length (b # bs)] = n # [Suc n ..< Suc n + length bs]" by (simp add: upt_conv_Cons del: upt_Suc)
  show ?case
  proof (cases "read_body q b")
    case None
    then show ?thesis unfolding up by (simp add: turn_read_body_seq del: upt_Suc)
  next
    case (Some q')
    then have "reads read_event (q\<lparr>rd_seq := n\<rparr>) (map (\<lambda>(b, n). Numbered b n) (zip (b # bs) [n ..< n + length (b # bs)])) =
      reads read_event (q'\<lparr>rd_seq := Suc n\<rparr>) (map (\<lambda>(b, n). Numbered b n) (zip bs [Suc n ..< Suc n + length bs]))"
      unfolding up by (simp add: turn_read_body_seq del: upt_Suc)
    also have "\<dots> = map_option (\<lambda>q. q\<lparr>rd_seq := Suc n + length bs\<rparr>) (reads read_body q' bs)" by (rule Cons.IH)
    finally show ?thesis using Some by simp
  qed
qed simp

lemma reads_body_seq: "reads read_body (q\<lparr>rd_seq := n\<rparr>) bs = map_option (\<lambda>q. q\<lparr>rd_seq := n\<rparr>) (reads read_body q bs)"
  by (induction bs arbitrary: q) (simp_all add: turn_read_body_seq split: option.splits)

section \<open>Steps that only emit\<close>

lemma seq_view [simp]:
  "view (s\<lparr>tn_seq := n\<rparr>) = (view s)\<lparr>rd_seq := n\<rparr>" "turn_inv en (s\<lparr>tn_seq := n\<rparr>) = turn_inv en s"
  by (simp_all add: view_def turn_inv_def)

lemma ok_emits:
  assumes "\<And>s. turn_inv en s \<Longrightarrow> P s \<Longrightarrow> reads read_body (view s) (bs s) = Some (view (g s)) \<and> tn_seq (g s) = tn_seq s \<and>
    turn_inv en (g s) \<and> Q (g s)"
    and "\<And>s n. Q s \<Longrightarrow> Q (s\<lparr>tn_seq := n\<rparr>)"
  shows "ok_step en P (\<lambda>s. emits (bs s) (g s)) Q"
proof (rule ok_stepI)
  fix s s' out f
  assume s: "turn_inv en s" "P s" and e: "emits (bs s) (g s) = (s', out, f)"
  note g = assms(1) [OF s]
  have s': "s' = (g s)\<lparr>tn_seq := tn_seq s + length (bs s)\<rparr>" and f: "f = Go"
    and out: "out = map (\<lambda>(b, n). Numbered b n) (zip (bs s) [tn_seq s ..< tn_seq s + length (bs s)])"
    using e g by (auto simp: emits_def)
  have v: "view s = (view s)\<lparr>rd_seq := tn_seq s\<rparr>" by (simp add: view_def)
  have "reads read_event (view s) out = map_option (\<lambda>q. q\<lparr>rd_seq := tn_seq s + length (bs s)\<rparr>) (reads read_body (view s) (bs s))"
    unfolding out by (subst v) (rule turn_reads_numbered)
  also have "\<dots> = Some (view s')" using g by (simp add: s')
  finally have "reads read_event (view s) out = Some (view s')" .
  moreover have "turn_inv en s'" using g by (simp add: s')
  moreover have "Q s'" unfolding s' using g by (intro assms(2)) simp
  ultimately show "\<exists>q. reads read_event (view s) out = Some q \<and> left en f q s' Q" by (simp add: f)
qed

text \<open>Conditions on a turn that no numbering changes.\<close>

definition steady :: "(turn \<Rightarrow> bool) \<Rightarrow> bool" where
  "steady P \<longleftrightarrow> (\<forall>s n. P s \<longrightarrow> P (s\<lparr>tn_seq := n\<rparr>))"

lemma reads_sides: "rd_stage q = 2 \<Longrightarrow> reads read_body q (map Side es) = Some q"
  by (induction es) auto

lemma ok_sides: "steady P \<Longrightarrow> ok_step en P (sides es) P"
proof -
  assume "steady P"
  then have "ok_step en P (\<lambda>s. emits ((\<lambda>s. map Side es) s) ((\<lambda>s. s) s)) P"
    by (intro ok_emits) (auto simp: steady_def reads_sides view_def)
  then show ?thesis by (simp add: sides_def [abs_def])
qed

lemmas reader_simps = view_def turn_inv_def opens_def extends_def expects_def

lemma turn_open_message_ok: "ok_step en (\<lambda>s. tn_reasoning s = None) open_message (\<lambda>s. tn_message_open s)"
proof -
  have "ok_step en (\<lambda>s. tn_reasoning s = None \<and> \<not> tn_message_open s)
    (\<lambda>s. emits [Message_added (tn_index s) (tn_item_id s), Part_added (tn_index s) (tn_item_id s)]
       (s\<lparr>tn_message_open := True, tn_any_message := True\<rparr>)) (\<lambda>s. tn_message_open s)"
    by (rule ok_emits) (auto simp: reader_simps)
  then show ?thesis unfolding ok_step_def open_message_def by auto
qed

lemma turn_emit_delta_ok: "t \<noteq> [] \<Longrightarrow> ok_step en (\<lambda>s. tn_message_open s) (emit_delta t) (\<lambda>s. tn_message_open s)"
  unfolding emit_delta_def [abs_def] by (rule ok_emits) (auto simp: reader_simps)

lemma show_text_ok: "t \<noteq> [] \<Longrightarrow> ok_step en (\<lambda>s. tn_reasoning s = None) (show_text t) (\<lambda>s. tn_message_open s)"
  unfolding show_text_def
  by (rule ok_steps_Cons [OF turn_open_message_ok ok_steps_one [OF turn_emit_delta_ok]])

definition nothing_open :: "turn \<Rightarrow> bool" where
  "nothing_open s \<longleftrightarrow> \<not> tn_message_open s \<and> tn_reasoning s = None"

lemma steady_nothing_open: "steady nothing_open"
  by (simp add: steady_def nothing_open_def)

lemma finish_message_ok:
  "st \<in> {Completed, Incomplete} \<Longrightarrow> ok_step en (\<lambda>s. tn_message_open s) (finish_message cf st) (\<lambda>s. nothing_open s \<and> list_ex is_message (tn_completed s))"
  unfolding finish_message_def [abs_def] Let_def
  by (rule ok_emits) (auto simp: reader_simps nothing_open_def)

lemma flush_inv: "flush f = (rest, f') \<Longrightarrow> cf_enabled f' = cf_enabled f \<and> cf_buf f' = []"
  by (auto simp: flush_def reset_cfilter_def)

lemma set_filter_ok:
  assumes "cf_buf f = []" "\<And>s. P s \<Longrightarrow> cf_enabled f = en" "\<And>s. P s \<Longrightarrow> P (s\<lparr>tn_filter := f\<rparr>)"
  shows "ok_step en P (change (\<lambda>s. s\<lparr>tn_filter := f\<rparr>)) P"
  using assms by (intro ok_change) (auto simp: view_def turn_inv_def)

lemma close_message_ok:
  assumes "st \<in> {Completed, Incomplete}"
  shows "ok_step en (\<lambda>s. tn_reasoning s = None) (close_message cf st) nothing_open"
proof (rule ok_stepI)
  fix s s' out f
  assume s: "turn_inv en s" "tn_reasoning s = None" "close_message cf st s = (s', out, f)"
  show "\<exists>q. reads read_event (view s) out = Some q \<and> left en f q s' nothing_open"
  proof (cases "tn_message_open s")
    case False
    then show ?thesis using s by (auto simp: close_message_def nothing_open_def)
  next
    case True
    obtain rest f' where fl: "flush (tn_filter s) = (rest, f')" by fastforce
    let ?as = "[change (\<lambda>s. s\<lparr>tn_filter := f'\<rparr>), if rest \<noteq> [] then emit_delta rest else steps [], finish_message cf st]"
    have ok: "ok_step en (\<lambda>s. tn_message_open s) (steps ?as) nothing_open"
    proof (intro ok_steps_Cons)
      show "ok_step en (\<lambda>s. tn_message_open s) (change (\<lambda>s. s\<lparr>tn_filter := f'\<rparr>)) (\<lambda>s. tn_message_open s)"
        using flush_inv [OF fl] s(1) by (intro set_filter_ok) (auto simp: turn_inv_def)
      show "ok_step en (\<lambda>s. tn_message_open s) (if rest \<noteq> [] then emit_delta rest else steps []) (\<lambda>s. tn_message_open s)"
        by (intro ok_if turn_emit_delta_ok ok_steps_Nil) auto
      show "ok_step en (\<lambda>s. tn_message_open s) (finish_message cf st) nothing_open"
        by (rule ok_conseq [OF finish_message_ok [OF assms]]) auto
    qed (rule ok_steps_Nil, simp)
    have "steps ?as s = (s', out, f)" using s(3) True fl by (simp only: close_message_def Let_def prod.case not_True_eq_False if_False)
    from ok_stepD [OF ok s(1) True this] show ?thesis .
  qed
qed

lemma turn_close_reasoning_ok:
  assumes "st \<in> {Completed, Incomplete}"
  shows "ok_step en (\<lambda>s. True) (close_reasoning st) (\<lambda>s. tn_reasoning s = None)"
proof (rule ok_stepI)
  fix s s' out f
  assume s: "turn_inv en s" "close_reasoning st s = (s', out, f)"
  show "\<exists>q. reads read_event (view s) out = Some q \<and> left en f q s' (\<lambda>s. tn_reasoning s = None)"
  proof (cases "tn_reasoning s")
    case None
    then show ?thesis using s by (auto simp: close_reasoning_def)
  next
    case (Some r)
    obtain rid full where r: "r = (rid, full)" by fastforce
    let ?i = "Reasoning_item rid st full"
    have "ok_step en (\<lambda>s. tn_reasoning s = Some (rid, full))
      (\<lambda>s. emits [Summary_done (tn_index s) rid full, Reasoning_done (tn_index s) rid full, Summary_part_done (tn_index s) rid full,
                   Item_done (tn_index s) ?i]
         (s\<lparr>tn_completed := tn_completed s @ [?i], tn_reasoning := None, tn_index := tn_index s + 1\<rparr>))
      (\<lambda>s. tn_reasoning s = None)"
      by (rule ok_emits) (use assms in \<open>auto simp: reader_simps\<close>)
    then show ?thesis
      using s Some r by (elim ok_stepD) (auto simp: close_reasoning_def Let_def)
  qed
qed

lemma capture_view [simp]:
  "view (close_thinking_capture s) = view s" "turn_inv en (close_thinking_capture s) = turn_inv en s"
  by (simp_all add: view_def turn_inv_def close_thinking_capture_def)

lemma capture_ok: "ok_step en (\<lambda>s. True) (change close_thinking_capture) (\<lambda>s. True)"
  by (rule ok_change) simp

lemma turn_close_all_ok: "st \<in> {Completed, Incomplete} \<Longrightarrow> ok_step en (\<lambda>s. True) (close_all cf st) nothing_open"
  unfolding close_all_def
  by (rule ok_steps_Cons [OF capture_ok ok_steps_Cons [OF turn_close_reasoning_ok ok_steps_one [OF close_message_ok]]])

section \<open>Reasoning text\<close>

lemma dropWhile_Nil: "dropWhile P xs = [] \<longleftrightarrow> (\<forall>x \<in> set xs. P x)"
  by (induction xs) auto

lemma strip_nonempty: "strip_text t \<noteq> [] \<longleftrightarrow> (\<exists>c \<in> set t. \<not> is_space c)"
proof -
  have "strip_text t = [] \<longleftrightarrow> (\<forall>c \<in> set (dropWhile is_space t). is_space c)"
    by (simp add: strip_text_def dropWhile_Nil)
  also have "\<dots> \<longleftrightarrow> (\<forall>c \<in> set t. is_space c)"
    by (induction t) auto
  finally show ?thesis by auto
qed

lemma strip_append: "strip_text a \<noteq> [] \<Longrightarrow> strip_text (a @ b) \<noteq> []"
  by (auto simp: strip_nonempty)

definition thinking_on :: "turn \<Rightarrow> bool" where
  "thinking_on s \<longleftrightarrow> tn_in_thinking s \<and> tn_token_streaming s"

lemma turn_push_reasoning_ok: "ok_step en (\<lambda>s. True) (push_reasoning t) (\<lambda>s. True)"
proof (rule ok_stepI)
  fix s s' out f
  assume s: "turn_inv en s" "push_reasoning t s = (s', out, f)"
  show "\<exists>q. reads read_event (view s) out = Some q \<and> left en f q s' (\<lambda>s. True)"
  proof (cases "tn_reasoning s")
    case None
    then show ?thesis using s by (auto simp: push_reasoning_def)
  next
    case (Some r)
    obtain rid buf where r: "r = (rid, buf)" by fastforce
    have ok: "ok_step en (\<lambda>s. tn_reasoning s = Some (rid, buf))
      (\<lambda>s. emits (if t = [] then [] else [Summary_delta (tn_index s) rid t, Reasoning_delta (tn_index s) rid t])
         (s\<lparr>tn_reasoning := Some (rid, buf @ t)\<rparr>)) (\<lambda>s. True)"
      by (rule ok_emits) (auto simp: reader_simps strip_append)
    have "emits (if t = [] then [] else [Summary_delta (tn_index s) rid t, Reasoning_delta (tn_index s) rid t])
         (s\<lparr>tn_reasoning := Some (rid, buf @ t)\<rparr>) = (s', out, f)"
      using s(2) Some r by (simp add: push_reasoning_def)
    from ok_stepD [OF ok s(1) _ this] Some r show ?thesis by simp
  qed
qed

lemma steps_pair: "steps (a # as) = steps [a, steps as]"
  by (rule ext) (auto split: prod.split flow.split)

lemma steps_two: "steps [a, b] = steps [a, steps [b]]"
  by (rule steps_pair)

text \<open>An item is opened together with its first text.\<close>

lemma open_with_text:
  assumes "held \<noteq> []"
  shows "steps [open_reasoning cf, push_reasoning held] s =
    emits [Reasoning_added (tn_index s) (''rs_'' @ tc_uuid cf (tn_fresh s)),
           Summary_part_added (tn_index s) (''rs_'' @ tc_uuid cf (tn_fresh s)),
           Summary_delta (tn_index s) (''rs_'' @ tc_uuid cf (tn_fresh s)) held,
           Reasoning_delta (tn_index s) (''rs_'' @ tc_uuid cf (tn_fresh s)) held]
      (s\<lparr>tn_fresh := Suc (tn_fresh s), tn_reasoning := Some (''rs_'' @ tc_uuid cf (tn_fresh s), held),
         tn_reasoning_emitted := True\<rparr>)"
  using assms by (simp add: open_reasoning_def push_reasoning_def emits_def Let_def)

lemma open_with_text_ok:
  assumes "strip_text held \<noteq> []"
  shows "ok_step en (\<lambda>s. nothing_open s \<and> thinking_on s) (steps [open_reasoning cf, push_reasoning held]) (\<lambda>s. True)"
proof -
  have ne: "held \<noteq> []" using assms by (auto simp: strip_text_def)
  have "ok_step en (\<lambda>s. nothing_open s \<and> thinking_on s)
    (\<lambda>s. emits [Reasoning_added (tn_index s) (''rs_'' @ tc_uuid cf (tn_fresh s)),
           Summary_part_added (tn_index s) (''rs_'' @ tc_uuid cf (tn_fresh s)),
           Summary_delta (tn_index s) (''rs_'' @ tc_uuid cf (tn_fresh s)) held,
           Reasoning_delta (tn_index s) (''rs_'' @ tc_uuid cf (tn_fresh s)) held]
      (s\<lparr>tn_fresh := Suc (tn_fresh s), tn_reasoning := Some (''rs_'' @ tc_uuid cf (tn_fresh s), held),
         tn_reasoning_emitted := True\<rparr>)) (\<lambda>s. True)"
    by (rule ok_emits) (use assms in \<open>auto simp: reader_simps nothing_open_def thinking_on_def\<close>)
  then show ?thesis by (simp add: open_with_text [OF ne, abs_def])
qed

section \<open>What a step leaves alone\<close>

definition tracks :: "(turn \<Rightarrow> 'b) \<Rightarrow> step \<Rightarrow> bool" where
  "tracks g a \<longleftrightarrow> (\<forall>s. g (fst (a s)) = g s)"

named_theorems track

lemma tracks_fst: "tracks g a \<Longrightarrow> g (fst (a s)) = g s"
  by (simp add: tracks_def)

lemma tracksD: "tracks g a \<Longrightarrow> a s = (s', out, f) \<Longrightarrow> g s' = g s"
  unfolding tracks_def by (metis fst_conv)

lemma tracks_weaken: "tracks g a \<Longrightarrow> (\<And>s t. g s = g t \<Longrightarrow> h s = h t) \<Longrightarrow> tracks h a"
  unfolding tracks_def by blast

lemma steps_Nil_tracks [track]: "tracks g (steps [])"
  by (simp add: tracks_def)

lemma steps_Cons_tracks [track]:
  assumes "tracks g a" "tracks g (steps as)"
  shows "tracks g (steps (a # as))"
  unfolding tracks_def
proof
  fix s :: turn
  obtain s1 o1 f where e: "a s = (s1, o1, f)" by (rule prod_cases3)
  obtain s2 o2 f2 where e2: "steps as s1 = (s2, o2, f2)" by (rule prod_cases3)
  show "g (fst (steps (a # as) s)) = g s"
    using tracksD [OF assms(1) e] tracksD [OF assms(2) e2] by (cases f) (simp_all add: e e2)
qed

lemma change_tracks [track]: "(\<And>s. g (h s) = g s) \<Longrightarrow> tracks g (change h)"
  by (simp add: tracks_def change_def)

lemma if_tracks [track]: "tracks g a \<Longrightarrow> tracks g b \<Longrightarrow> tracks g (if c then a else b)"
  by simp

text \<open>The flags of streamed text and the buffered chunks, which most steps leave alone.\<close>

definition flags :: "turn \<Rightarrow> bool \<times> bool \<times> chunk list" where
  "flags s = (tn_in_thinking s, tn_token_streaming s, tn_buffer s)"

lemma item_tracks [track]:
  "tracks flags open_message" "tracks flags (emit_delta t)" "tracks flags (close_reasoning st)"
  "tracks flags (finish_message cf st)" "tracks flags (push_reasoning t)" "tracks flags (sides es)"
  "tracks flags (open_reasoning cf)" "tracks flags raises" "tracks flags (add_annotation v)"
  by (simp_all add: tracks_def flags_def open_message_def emit_delta_def close_reasoning_def finish_message_def
      push_reasoning_def sides_def open_reasoning_def raises_def add_annotation_def emits_def Let_def
      split: option.split prod.split)

lemma close_message_tracks [track]: "tracks flags (close_message cf st)"
  unfolding tracks_def
proof
  fix s :: turn
  obtain rest f where fl: "flush (tn_filter s) = (rest, f)" by fastforce
  have "tracks flags (steps [change (\<lambda>s. s\<lparr>tn_filter := f\<rparr>), if rest \<noteq> [] then emit_delta rest else steps [], finish_message cf st])"
    by (intro track) (simp add: flags_def)
  then show "flags (fst (close_message cf st s)) = flags s"
    unfolding tracks_def by (simp add: close_message_def fl del: steps.simps)
qed

lemma ok_frame:
  assumes "ok_step en P a Q" "tracks flags a"
  shows "ok_step en (\<lambda>s. P s \<and> thinking_on s) a (\<lambda>s. Q s \<and> thinking_on s)"
proof (rule ok_stepI)
  fix s s' out f
  assume s: "turn_inv en s" "P s \<and> thinking_on s" "a s = (s', out, f)"
  from ok_stepD [OF assms(1) s(1) _ s(3)] s(2)
  obtain q where q: "reads read_event (view s) out = Some q" "left en f q s' Q" by blast
  have "thinking_on s'" using tracksD [OF assms(2) s(3)] s(2) by (simp add: thinking_on_def flags_def)
  then have "left en f q s' (\<lambda>s. Q s \<and> thinking_on s)" using q(2) by (cases f) auto
  then show "\<exists>q. reads read_event (view s) out = Some q \<and> left en f q s' (\<lambda>s. Q s \<and> thinking_on s)" using q(1) by blast
qed

section \<open>Chunks\<close>

lemma think_ok: "ok_step en thinking_on (think cf t) (\<lambda>s. True)"
proof (rule ok_stepI)
  fix s s' out f
  assume inv: "turn_inv en s" and on: "thinking_on s" and e: "think cf t s = (s', out, f)"
  let ?s = "s\<lparr>tn_capture := tn_capture s @ t\<rparr>" and ?held = "tn_pending_buf s @ t"
  have s: "turn_inv en ?s" "thinking_on ?s" "view ?s = view s" using inv on by (simp_all add: turn_inv_def thinking_on_def view_def)
  consider (blank) "tn_pending s \<and> tn_reasoning s = None" "strip_text ?held = []"
    | (starts) "tn_pending s \<and> tn_reasoning s = None" "strip_text ?held \<noteq> []"
    | (more) "\<not> (tn_pending s \<and> tn_reasoning s = None)" by blast
  then show "\<exists>q. reads read_event (view s) out = Some q \<and> left en f q s' (\<lambda>s. True)"
  proof cases
    case blank
    then have "s' = ?s\<lparr>tn_pending_buf := ?held\<rparr>" "out = []" "f = Go" using e by (simp_all add: think_def Let_def)
    then show ?thesis using inv by (simp add: view_def turn_inv_def)
  next
    case starts
    let ?s1 = "?s\<lparr>tn_pending := False, tn_pending_buf := []\<rparr>"
    have s1: "turn_inv en ?s1" "tn_reasoning ?s1 = None \<and> thinking_on ?s1" "view ?s1 = view s"
      using inv on starts by (simp_all add: turn_inv_def thinking_on_def view_def)
    have ok: "ok_step en (\<lambda>s. tn_reasoning s = None \<and> thinking_on s)
      (steps [close_message cf Completed, steps [open_reasoning cf, push_reasoning ?held]]) (\<lambda>s. True)"
      by (rule ok_steps_Cons [OF ok_frame [OF close_message_ok close_message_tracks] ok_steps_one [OF open_with_text_ok [OF starts(2)]]]) simp
    have "steps [close_message cf Completed, steps [open_reasoning cf, push_reasoning ?held]] ?s1 = (s', out, f)"
    proof -
      have "think cf t s = steps [close_message cf Completed, open_reasoning cf, push_reasoning ?held] ?s1"
        using starts by (simp add: think_def Let_def del: steps.simps)
      then show ?thesis using e by (simp only: steps_pair [of "close_message cf Completed" "[open_reasoning cf, push_reasoning ?held]"])
    qed
    from ok_stepD [OF ok s1(1,2) this] show ?thesis unfolding s1(3) .
  next
    case more
    then have "push_reasoning t ?s = (s', out, f)" using e by (auto simp: think_def Let_def)
    from ok_stepD [OF turn_push_reasoning_ok s(1) _ this] s(3) show ?thesis by simp
  qed
qed

lemma not_pending_ok: "ok_step en (\<lambda>s. True) (change not_pending) (\<lambda>s. True)"
  by (rule ok_change) (simp add: not_pending_def view_def turn_inv_def)

lemma feed_keeps_filter:
  assumes "feed loads f t = (f', out)" "\<not> cf_enabled f \<longrightarrow> cf_buf f = []"
  shows "cf_enabled f' = cf_enabled f \<and> (\<not> cf_enabled f' \<longrightarrow> cf_buf f' = [])"
proof -
  have "cf_enabled f' = cf_enabled f"
    using assms(1) feed_all_enabled [of loads f t] by (auto simp: feed_def split: if_splits)
  then show ?thesis using assms by (auto simp: feed_def split: if_splits)
qed

lemma say_ok: "ok_step en (\<lambda>s. tn_reasoning s = None) (say cf t) (\<lambda>s. True)"
proof (rule ok_stepI)
  fix s s' out f
  assume s: "turn_inv en s" "tn_reasoning s = None" "say cf t s = (s', out, f)"
  let ?loads = "\<lambda>u. case tc_loads cf u of Loaded v \<Rightarrow> Some v | _ \<Rightarrow> None"
  obtain f' cleaned where fd: "feed ?loads (tn_filter s) t = (f', cleaned)" by fastforce
  let ?as = "[change (\<lambda>s. s\<lparr>tn_filter := f'\<rparr>), if cleaned \<noteq> [] then show_text cleaned else steps []]"
  show "\<exists>q. reads read_event (view s) out = Some q \<and> left en f q s' (\<lambda>s. True)"
  proof (cases "t = []")
    case True
    then show ?thesis using s by (auto simp: say_def)
  next
    case False
    have en: "cf_enabled f' = en \<and> (\<not> en \<longrightarrow> cf_buf f' = [])"
      using feed_keeps_filter [OF fd] s(1) by (auto simp: turn_inv_def)
    have c: "ok_step en (\<lambda>s. tn_reasoning s = None) (change (\<lambda>s. s\<lparr>tn_filter := f'\<rparr>)) (\<lambda>s. tn_reasoning s = None)"
      using en by (intro ok_change) (simp add: view_def turn_inv_def)
    have ok: "ok_step en (\<lambda>s. tn_reasoning s = None) (steps ?as) (\<lambda>s. True)"
      by (rule ok_steps_Cons [OF c ok_steps_one [OF ok_if [OF ok_conseq [OF show_text_ok] ok_steps_Nil]]]) auto
    have "steps ?as s = (s', out, f)"
      using s(3) False by (simp only: say_def fd Let_def prod.case if_False)
    from ok_stepD [OF ok s(1,2) this] show ?thesis .
  qed
qed

text \<open>The same, for the result of a step at one state.\<close>

definition okay :: "bool \<Rightarrow> turn \<Rightarrow> turn \<times> turn_event list \<times> flow \<Rightarrow> (turn \<Rightarrow> bool) \<Rightarrow> bool" where
  "okay en s r Q \<longleftrightarrow> (case r of (s', out, f) \<Rightarrow> \<exists>q. reads read_event (view s) out = Some q \<and> left en f q s' Q)"

lemma ok_step_okay: "ok_step en P a Q \<longleftrightarrow> (\<forall>s. turn_inv en s \<longrightarrow> P s \<longrightarrow> okay en s (a s) Q)"
  unfolding ok_step_def okay_def by (auto split: prod.splits)

lemma okay_apply: "ok_step en P a Q \<Longrightarrow> turn_inv en s \<Longrightarrow> P s \<Longrightarrow> okay en s (a s) Q"
  by (simp add: ok_step_okay)

lemma okay_same: "turn_inv en s \<Longrightarrow> Q s \<Longrightarrow> okay en s (s, [], Go) Q"
  by (simp add: okay_def)

lemma okay_raise: "okay en s (s, [], Raise) Q"
  by (simp add: okay_def)

lemma okay_view: "view s = view s1 \<Longrightarrow> okay en s r Q = okay en s1 r Q"
  by (simp add: okay_def)

lemma okay_weaken: "okay en s r Q \<Longrightarrow> (\<And>s. Q s \<Longrightarrow> R s) \<Longrightarrow> okay en s r R"
  unfolding okay_def using left_weaken by (cases r) blast

lemma ok_stepI': "(\<And>s. turn_inv en s \<Longrightarrow> P s \<Longrightarrow> okay en s (a s) Q) \<Longrightarrow> ok_step en P a Q"
  by (simp add: ok_step_okay)

lemma handle_text_ok: "ok_step en (\<lambda>s. True) (handle_text cf was t) (\<lambda>s. True)"
proof (rule ok_stepI')
  fix s assume inv: "turn_inv en s"
  define s0 where "s0 = s\<lparr>tn_token_streaming := True\<rparr>"
  define s1 where "s1 = (if tn_in_thinking s0 \<and> \<not> was then s0\<lparr>tn_pending := True, tn_pending_buf := []\<rparr> else s0)"
  have s1: "turn_inv en s1" "tn_token_streaming s1" "view s1 = view s"
    using inv by (simp_all add: s1_def s0_def turn_inv_def view_def)
  have h: "handle_text cf was t s =
    (if t = think_start then (close_thinking_capture s1, [], Go)
     else if t = think_stop then steps [change (not_pending \<circ> close_thinking_capture), close_reasoning Completed] s1
     else if tn_in_thinking s1 then think cf t s1
     else steps [change not_pending, close_reasoning Completed, say cf t] s1)"
    unfolding handle_text_def Let_def s0_def [symmetric] s1_def [symmetric] ..
  have stop: "ok_step en (\<lambda>s. True) (steps [change (not_pending \<circ> close_thinking_capture), close_reasoning Completed]) (\<lambda>s. True)"
  proof (rule ok_steps_Cons [OF _ ok_steps_one])
    show "ok_step en (\<lambda>s. True) (change (not_pending \<circ> close_thinking_capture)) (\<lambda>s. True)"
      by (rule ok_change) (simp add: not_pending_def view_def turn_inv_def close_thinking_capture_def)
    show "ok_step en (\<lambda>s. True) (close_reasoning Completed) (\<lambda>s. True)" by (rule ok_conseq [OF turn_close_reasoning_ok]) auto
  qed
  have plain: "ok_step en (\<lambda>s. True) (steps [change not_pending, close_reasoning Completed, say cf t]) (\<lambda>s. True)"
    by (rule ok_steps_Cons [OF not_pending_ok ok_steps_Cons [OF turn_close_reasoning_ok ok_steps_one [OF say_ok]]]) simp
  have "okay en s1 (close_thinking_capture s1, [], Go) (\<lambda>s. True)" using s1(1) by (simp add: okay_def)
  then have "okay en s1 (handle_text cf was t s) (\<lambda>s. True)"
    unfolding h using s1(1,2) okay_apply [OF stop s1(1)] okay_apply [OF plain s1(1)] okay_apply [OF think_ok s1(1)]
    by (simp add: thinking_on_def del: steps.simps)
  then show "okay en s (handle_text cf was t s) (\<lambda>s. True)" using s1(3) by (simp add: okay_def)
qed

lemma add_annotation_ok: "ok_step en (\<lambda>s. tn_message_open s) (add_annotation v) (\<lambda>s. True)"
  unfolding add_annotation_def [abs_def] by (rule ok_emits) (auto simp: reader_simps)

text \<open>Inside a thinking block a chunk brings no citation and no text of its own.\<close>

definition quiet_chunk :: "turn_cfg \<Rightarrow> chunk \<Rightarrow> bool" where
  "quiet_chunk cf c \<longleftrightarrow>
     \<not> (is_citation c \<and> leader_or_shown cf c) \<and>
     (cfield c ''type'' \<in> {J_str ''stream_event'', J_str ''user''} \<or> is_assistant_content_chunk c \<or>
      content_text cf c False \<in> {None, Some None})"

definition calm :: "turn_cfg \<Rightarrow> chunk \<Rightarrow> turn \<Rightarrow> bool" where
  "calm cf c s \<longleftrightarrow> (tn_in_thinking s \<longrightarrow> quiet_chunk cf c)"

lemma calm_reasoning: "turn_inv en s \<Longrightarrow> calm cf c s \<Longrightarrow> tn_reasoning s \<noteq> None \<Longrightarrow> thinking_on s \<and> quiet_chunk cf c"
  by (auto simp: turn_inv_def calm_def thinking_on_def)

lemma handle_citation_ok: "is_citation c \<Longrightarrow> ok_step en (calm cf c) (handle_citation cf c) (\<lambda>s. True)"
proof (rule ok_stepI')
  fix s assume c: "is_citation c" and s: "turn_inv en s" "calm cf c s"
  show "okay en s (handle_citation cf c s) (\<lambda>s. True)"
  proof (cases "leader_or_shown cf c")
    case True
    then have n: "tn_reasoning s = None" using calm_reasoning [OF s] c by (cases "tn_reasoning s") (auto simp: quiet_chunk_def)
    have "ok_step en (\<lambda>s. tn_reasoning s = None) (handle_citation cf c) (\<lambda>s. True)"
      using True by (simp only: handle_citation_def if_True) (rule ok_steps_Cons [OF turn_open_message_ok ok_steps_one [OF add_annotation_ok]])
    then show ?thesis by (rule okay_apply) (use s n in auto)
  next
    case False
    then show ?thesis using s by (simp add: handle_citation_def okay_def)
  qed
qed

lemma steady_true: "steady (\<lambda>s. True)"
  by (simp add: steady_def)

lemma with_tools_ok:
  assumes "steady P" "\<And>s tt. P s \<Longrightarrow> P (set_tools tt s)"
  shows "ok_step en P (with_tools r) P"
proof (cases r)
  case None
  then show ?thesis by (simp add: with_tools_def ok_raises)
next
  case (Some e)
  obtain tt es where e: "e = (tt, es)" by fastforce
  have "ok_step en P (change (set_tools tt)) P"
    by (rule ok_change) (use assms in \<open>auto simp: set_tools_def view_def turn_inv_def\<close>)
  from ok_steps_Cons [OF this ok_steps_one [OF ok_sides [OF assms(1)]]] show ?thesis
    by (simp add: with_tools_def Some e)
qed

lemma buffer_chunk_ok:
  assumes "\<And>s b. P s \<Longrightarrow> P (s\<lparr>tn_buffer := b\<rparr>)"
  shows "ok_step en P (buffer_chunk c) P"
  unfolding buffer_chunk_def by (rule ok_change) (use assms in \<open>auto simp: view_def turn_inv_def\<close>)

lemma handle_user_ok: "ok_step en (\<lambda>s. True) (handle_user cf now c) (\<lambda>s. True)"
proof (rule ok_stepI')
  fix s assume s: "turn_inv en s"
  let ?r = "user_tool_result_events (tc_show cf) (tc_flags cf) now (tc_call_output cf) c (tn_tools s)"
  have "ok_step en (\<lambda>s. True) (steps [with_tools ?r, sides (teammate_message_events (tc_sender cf) c), buffer_chunk c]) (\<lambda>s. True)"
    by (intro ok_steps_Cons [OF with_tools_ok ok_steps_Cons [OF ok_sides ok_steps_one [OF buffer_chunk_ok]]] steady_true) simp_all
  from okay_apply [OF this s] show "okay en s (handle_user cf now c s) (\<lambda>s. True)" by (simp add: handle_user_def del: steps.simps)
qed

lemma content_text_sent: "content_text cf c b = Some (Some t) \<Longrightarrow> content_text cf c False = Some (Some t)"
proof -
  have "process_chunk_content c True = process_chunk_content c False \<or> process_chunk_content c True = Some None"
    by (auto simp: process_chunk_content_def split: option.split)
  then show "content_text cf c b = Some (Some t) \<Longrightarrow> content_text cf c False = Some (Some t)"
    by (cases b) (auto simp: content_text_def format_chunk_content_def)
qed

lemma handle_content_ok:
  assumes "cfield c ''type'' \<noteq> J_str ''user''"
  shows "ok_step en (calm cf c) (handle_content cf c) (\<lambda>s. True)"
proof (rule ok_stepI')
  fix s assume s: "turn_inv en s" "calm cf c s"
  have buf: "okay en s (buffer_chunk c s) (\<lambda>s. True)"
    by (rule okay_apply [OF buffer_chunk_ok [of "\<lambda>s. True"] s(1)]) auto
  have same: "okay en s (s, [], Go) (\<lambda>s. True)" using s by (simp add: okay_same)
  show "okay en s (handle_content cf c s) (\<lambda>s. True)"
  proof (cases "tn_token_streaming s \<and> (cfield c ''type'' = J_str ''stream_event'' \<or> is_assistant_content_chunk c)")
    case True
    then show ?thesis
      using buf same assms by (auto simp: handle_content_def okay_raise simp del: steps.simps split: option.split)
  next
    case False
    define K :: "turn \<Rightarrow> bool" where "K = (\<lambda>s. tn_reasoning s = None \<or> content_text cf c False \<in> {None, Some None})"
    have K: "K s"
      using calm_reasoning [OF s] False assms by (cases "tn_reasoning s") (auto simp: K_def quiet_chunk_def thinking_on_def)
    have "ok_step en K (show_content cf c) (\<lambda>s. True)"
    proof (rule ok_stepI')
      fix s assume t: "turn_inv en s" "K s"
      show "okay en s (show_content cf c s) (\<lambda>s. True)"
      proof (cases "content_text cf c (tn_content_sent s)")
        case None
        then show ?thesis using t by (simp add: show_content_def okay_raise okay_same)
      next
        case (Some r)
        show ?thesis
        proof (cases r)
          case None
          then show ?thesis using Some t by (simp add: show_content_def okay_same)
        next
          case (Some t')
          then have ct: "content_text cf c (tn_content_sent s) = Some (Some t')" using \<open>content_text _ _ _ = Some r\<close> by simp
          then have ne: "t' \<noteq> []"
            by (auto simp: content_text_def format_chunk_content_def stripped_def Let_def
                split: option.splits if_splits content.splits json.splits)
          have "tn_reasoning s = None" using t(2) content_text_sent [OF ct] by (auto simp: K_def)
          from okay_weaken [OF okay_apply [OF show_text_ok [OF ne] t(1) this]]
          have "okay en s (show_text t' s) (\<lambda>s. True)" by simp
          then show ?thesis using ct t by (simp add: show_content_def okay_same)
        qed
      qed
    qed
    then have "ok_step en K (steps [buffer_chunk c, show_content cf c]) (\<lambda>s. True)"
      by (intro ok_steps_Cons [OF buffer_chunk_ok ok_steps_one]) (auto simp: K_def)
    from okay_apply [OF this s(1) K] show ?thesis
      using False assms by (auto simp: handle_content_def simp del: steps.simps)
  qed
qed

lemma steady_calm: "steady (calm cf c)"
  by (simp add: steady_def calm_def)

lemma handle_rest_ok: "ok_step en (calm cf c) (handle_rest cf now c) (\<lambda>s. True)"
proof (rule ok_stepI')
  fix s assume s: "turn_inv en s" "calm cf c s"
  show "okay en s (handle_rest cf now c s) (\<lambda>s. True)"
  proof (cases "process_stream_event (tc_loads cf) c (tn_acc s)")
    case None
    then show ?thesis by (simp add: handle_rest_def okay_raise)
  next
    case (Some r)
    obtain acc handled made where r: "r = (acc, handled, made)" by (rule prod_cases3)
    define s1 where "s1 = s\<lparr>tn_acc := acc\<rparr>"
    have s1: "turn_inv en s1" "calm cf c s1" "view s1 = view s"
      using s by (simp_all add: s1_def turn_inv_def calm_def view_def)
    let ?e = "embedded_tool_events (tc_show cf) (tc_flags cf) now (tc_call_output cf) c (tn_tools s1)"
    have h: "handle_rest cf now c s =
      (if handled then (case made of None \<Rightarrow> (s1, [], Go) | Some b \<Rightarrow> with_tools (tool_use_events (tc_flags cf) now b (tn_tools s1)) s1)
       else if cfield c ''type'' = J_str ''user'' then handle_user cf now c s1
       else steps [with_tools ?e, handle_content cf c] s1)"
      unfolding s1_def by (simp only: handle_rest_def Some r Let_def option.case prod.case)
    have w: "okay en s1 (with_tools t s1) (\<lambda>s. True)" for t
      by (rule okay_apply [OF with_tools_ok [OF steady_true] s1(1)]) simp_all
    have u: "okay en s1 (handle_user cf now c s1) (\<lambda>s. True)" by (rule okay_apply [OF handle_user_ok s1(1)]) simp
    have "okay en s1 (steps [with_tools ?e, handle_content cf c] s1) (\<lambda>s. True)" if "cfield c ''type'' \<noteq> J_str ''user''"
    proof -
      have "ok_step en (calm cf c) (steps [with_tools ?e, handle_content cf c]) (\<lambda>s. True)"
        by (rule ok_steps_Cons [OF with_tools_ok [OF steady_calm] ok_steps_one [OF handle_content_ok [OF that]]])
          (simp add: calm_def set_tools_def)
      from okay_apply [OF this s1(1,2)] show ?thesis .
    qed
    then have "okay en s1 (handle_rest cf now c s) (\<lambda>s. True)"
      unfolding h using w u s1(1) by (auto simp: okay_same simp del: steps.simps split: option.split)
    then show ?thesis using s1(3) by (simp add: okay_def)
  qed
qed

lemma extract_cases:
  assumes "extract_stream_event_delta fl c th = Some (v, th')"
  shows "th' = th \<or> v = J_str think_start \<and> th' \<or> v = J_str think_stop \<and> \<not> th' \<and> th"
  using assms by (auto simp: extract_stream_event_delta_def Let_def split: if_splits)

lemma stop_thinking_ok:
  assumes inv: "turn_inv en s"
  shows "okay en s (handle_text cf was think_stop (s\<lparr>tn_in_thinking := False\<rparr>)) (\<lambda>s. True)"
proof -
  define t where "t = s\<lparr>tn_token_streaming := True\<rparr>"
  have t: "turn_inv en t" "view t = view s" using inv by (simp_all add: t_def turn_inv_def view_def)
  let ?a = "steps [change (not_pending \<circ> close_thinking_capture), close_reasoning Completed]"
  let ?out = "\<lambda>r. case r of (u, out, f) \<Rightarrow> (u\<lparr>tn_in_thinking := False\<rparr>, out, f)"
  have h: "handle_text cf was think_stop (s\<lparr>tn_in_thinking := False\<rparr>) = ?out (?a t)"
    by (simp add: handle_text_def think_start_def think_stop_def t_def close_reasoning_def change_def not_pending_def
        close_thinking_capture_def emits_def Let_def split: option.split prod.split)
  obtain u out f where a: "?a t = (u, out, f)" by (rule prod_cases3)
  have c: "ok_step en (\<lambda>s. True) (change (not_pending \<circ> close_thinking_capture)) (\<lambda>s. True)"
    by (rule ok_change) (simp add: not_pending_def view_def turn_inv_def close_thinking_capture_def)
  have "ok_step en (\<lambda>s. True) ?a (\<lambda>s. tn_reasoning s = None)"
    by (rule ok_steps_Cons [OF c ok_steps_one [OF turn_close_reasoning_ok]]) simp
  from ok_stepD [OF this t(1) _ a] obtain q where q: "reads read_event (view t) out = Some q" "left en f q u (\<lambda>s. tn_reasoning s = None)"
    by blast
  have "left en f q (u\<lparr>tn_in_thinking := False\<rparr>) (\<lambda>s. True)"
    using q(2) by (cases f) (auto simp: view_def turn_inv_def)
  then show ?thesis unfolding h a okay_def using q(1) t(2) by auto
qed

lemma handle_streamed_ok: "ok_step en (calm cf c) (handle_streamed cf now c) (\<lambda>s. True)"
proof (rule ok_stepI')
  fix s assume s: "turn_inv en s" "calm cf c s"
  show "okay en s (handle_streamed cf now c s) (\<lambda>s. True)"
  proof (cases "is_obj (delta_of c) \<and> \<not> is_citation c")
    case False
    then show ?thesis
      using okay_apply [OF handle_citation_ok s] by (auto simp: handle_streamed_def okay_raise)
  next
    case True
    show ?thesis
    proof (cases "extract_stream_event_delta (tc_flags cf) c (tn_in_thinking s)")
      case None
      then show ?thesis using True by (simp add: handle_streamed_def okay_raise)
    next
      case (Some r)
      obtain v th where r: "r = (v, th)" by fastforce
      note ex = extract_cases [OF Some [unfolded r]]
      define s1 where "s1 = s\<lparr>tn_in_thinking := th\<rparr>"
      have h: "handle_streamed cf now c s =
        (case v of
           J_null \<Rightarrow> steps [sides (tool_use_started_events (tc_flags cf) c), handle_rest cf now c] s1
         | J_str t \<Rightarrow> handle_text cf (tn_in_thinking s) t s1
         | _ \<Rightarrow> (s1, [], Raise))"
        using True unfolding s1_def by (simp only: handle_streamed_def Some r Let_def option.case prod.case not_True_eq_False if_False simp_thms)
      have v1: "view s = view s1" by (simp add: s1_def view_def)
      show ?thesis
      proof (cases "th = tn_in_thinking s \<or> v = J_str think_start \<and> th")
        case True
        then have i1: "turn_inv en s1" using s(1) by (auto simp: s1_def turn_inv_def)
        have rest: "okay en s1 (steps [sides (tool_use_started_events (tc_flags cf) c), handle_rest cf now c] s1) (\<lambda>s. True)" if "v = J_null"
        proof -
          have "ok_step en (calm cf c) (steps [sides (tool_use_started_events (tc_flags cf) c), handle_rest cf now c]) (\<lambda>s. True)"
            by (rule ok_steps_Cons [OF ok_sides [OF steady_calm] ok_steps_one [OF handle_rest_ok]])
          moreover have "calm cf c s1" using s(2) True that by (simp add: s1_def calm_def)
          ultimately show ?thesis using i1 by (intro okay_apply)
        qed
        have tx: "okay en s1 (handle_text cf (tn_in_thinking s) t s1) (\<lambda>s. True)" for t
          by (rule okay_apply [OF handle_text_ok i1]) simp
        show ?thesis
          unfolding h okay_view [OF v1] using rest tx by (cases v) (auto simp: okay_raise simp del: steps.simps)
      next
        case False
        then have "v = J_str think_stop" "\<not> th" using ex by auto
        then show ?thesis unfolding h using stop_thinking_ok [OF s(1)] by (simp add: s1_def)
      qed
    qed
  qed
qed

lemma handle_system_ok: "ok_step en (\<lambda>s. True) (handle_system cf c) (\<lambda>s. True)"
proof (rule ok_stepI')
  fix s assume s: "turn_inv en s"
  have sd: "okay en s (sides es (s\<lparr>tn_compaction := t\<rparr>)) (\<lambda>s. True)" for es t
  proof -
    have i: "turn_inv en (s\<lparr>tn_compaction := t\<rparr>)" and v: "view s = view (s\<lparr>tn_compaction := t\<rparr>)"
      using s by (simp_all add: turn_inv_def view_def)
    show ?thesis unfolding okay_view [OF v] by (rule okay_apply [OF ok_sides [OF steady_true] i]) simp
  qed
  have "okay en s (sides es s) (\<lambda>s. True)" for es by (rule okay_apply [OF ok_sides [OF steady_true] s]) simp
  then show "okay en s (handle_system cf c s) (\<lambda>s. True)"
    using s sd by (simp add: handle_system_def Let_def okay_same okay_raise split: option.split prod.split)
qed

lemma flush_compaction_ok: "steady P \<Longrightarrow> (\<And>s t. P s \<Longrightarrow> P (s\<lparr>tn_compaction := t\<rparr>)) \<Longrightarrow> ok_step en P (flush_compaction c) P"
proof (rule ok_stepI')
  fix s assume P: "steady P" "\<And>s t. P s \<Longrightarrow> P (s\<lparr>tn_compaction := t\<rparr>)" and s: "turn_inv en s" "P s"
  obtain t es where f: "tracker_flush (map_option fields_of c) (tn_compaction s) = (t, es)" by fastforce
  have i: "turn_inv en (s\<lparr>tn_compaction := t\<rparr>)" and v: "view s = view (s\<lparr>tn_compaction := t\<rparr>)"
    using s by (simp_all add: turn_inv_def view_def)
  show "okay en s (flush_compaction c s) P"
    unfolding okay_view [OF v] flush_compaction_def f Let_def prod.case
    by (rule okay_apply [OF ok_sides [OF P(1)] i P(2) [OF s(2)]])
qed

section \<open>Endings\<close>

lemma reads_end:
  assumes "ends (view s) r"
  shows "\<exists>q. reads read_event (view s) [Numbered (Response_end r) (tn_seq s)] = Some q \<and> rd_stage q = 3"
  using assms by (simp add: view_def)

lemma fail_turn_ok: "okay en s (fail_turn cf err msg s) Q"
proof -
  have "ends (view s) (respond cf Failed [] None (Some (err, msg)) None J_null)" by (simp add: ends_def respond_def)
  from reads_end [OF this] show ?thesis
    by (simp add: okay_def fail_turn_def emits_def failed_event_def)
qed

lemma end_turn_ok:
  assumes "st \<in> {Completed, Incomplete}" "oc \<in> {Completed_turn, Incomplete_turn}"
    "nothing_open s" "st = Completed \<longrightarrow> list_ex is_message (tn_completed s)"
  shows "okay en s (end_turn cf st oc why structured s) Q"
proof (cases "turn_usage cf s")
  case None
  then show ?thesis by (simp add: end_turn_def okay_raise)
next
  case (Some u)
  have "ends (view s) (respond cf st (tn_completed s) (Some u) None why structured)"
    using assms by (auto simp: ends_def respond_def view_def nothing_open_def)
  from reads_end [OF this] show ?thesis
    using assms(2) by (auto simp: okay_def end_turn_def emits_def Some)
qed

lemma cut_turn_ok: "ok_step en (\<lambda>s. True) (cut_turn cf why) (\<lambda>s. True)"
proof -
  have "ok_step en nothing_open (end_turn cf Incomplete Incomplete_turn (Some why) J_null) (\<lambda>s. True)"
    by (rule ok_stepI', rule end_turn_ok) auto
  from ok_steps_Cons [OF turn_close_all_ok ok_steps_one [OF this]] show ?thesis by (simp add: cut_turn_def)
qed

lemma handle_error_ok: "ok_step en (\<lambda>s. True) (handle_error cf c e) (\<lambda>s. True)"
proof -
  obtain a b where e: "e = (a, b)" by fastforce
  have "ok_step en (\<lambda>s. True) (case e of (J_str err, J_str msg) \<Rightarrow> fail_turn cf err msg | _ \<Rightarrow> raises) (\<lambda>s. True)"
    unfolding e by (cases a; cases b) (simp_all add: raises_def okay_raise ok_step_okay fail_turn_ok)
  from ok_steps_Cons [OF _ ok_steps_one [OF this], of "\<lambda>s. True"] show ?thesis
    unfolding handle_error_def by (simp add: buffer_chunk_ok ok_steps_Nil del: steps.simps)
qed

lemma handle_chunk_ok: "ok_step en (calm cf c) (handle_chunk cf now c) (\<lambda>s. True)"
proof (rule ok_stepI')
  fix s assume s: "turn_inv en s" "calm cf c s"
  have sd: "okay en s (sides es s) (\<lambda>s. True)" for es by (rule okay_apply [OF ok_sides [OF steady_true] s(1)]) simp
  have cut: "okay en s (cut_turn cf why s) (\<lambda>s. True)" for why by (rule okay_apply [OF cut_turn_ok s(1)]) simp
  have int: "okay en s (steps [buffer_chunk c, cut_turn cf why] s) (\<lambda>s. True)" for why
    by (rule okay_apply [OF ok_steps_Cons [OF buffer_chunk_ok ok_steps_one [OF cut_turn_ok]] s(1)]) simp_all
  have err: "okay en s (handle_error cf c e s) (\<lambda>s. True)" for e by (rule okay_apply [OF handle_error_ok s(1)]) simp
  have sys: "okay en s (handle_system cf c s) (\<lambda>s. True)" by (rule okay_apply [OF handle_system_ok s(1)]) simp
  have "ok_step en (calm cf c) (flush_compaction (Some c)) (calm cf c)"
    by (rule flush_compaction_ok [OF steady_calm]) (simp add: calm_def)
  from okay_apply [OF ok_steps_Cons [OF this ok_steps_one [OF handle_streamed_ok]] s]
  have tx: "okay en s (steps [flush_compaction (Some c), handle_streamed cf now c] s) (\<lambda>s. True)" .
  show "okay en s (handle_chunk cf now c s) (\<lambda>s. True)"
    unfolding handle_chunk_def using s(1) sd cut int err sys tx
    by (simp add: okay_same okay_raise del: steps.simps split: option.split)
qed

section \<open>The thinking flag\<close>

text \<open>What a chunk does to the flag, from the chunk alone.\<close>

definition thinking_after :: "turn_cfg \<Rightarrow> chunk \<Rightarrow> bool \<Rightarrow> bool" where
  "thinking_after cf c th =
     (if is_citation c then th
      else case extract_stream_event_delta (tc_flags cf) c th of None \<Rightarrow> th | Some (v, th') \<Rightarrow> th')"

text \<open>The flag and the buffer.\<close>

definition noted :: "turn \<Rightarrow> bool \<times> chunk list" where
  "noted s = (tn_in_thinking s, tn_buffer s)"

lemma flags_noted: "tracks flags a \<Longrightarrow> tracks noted a"
  by (erule tracks_weaken) (simp add: flags_def noted_def)

lemma noted_thinking: "tracks noted a \<Longrightarrow> tracks tn_in_thinking a"
  by (erule tracks_weaken) (simp add: noted_def)

lemmas item_noted [track] = item_tracks [THEN flags_noted] close_message_tracks [THEN flags_noted]

lemma small_tracks [track]:
  "tracks noted (with_tools r)" "tracks noted (handle_citation cf c)"
  "tracks noted (show_text t)" "tracks noted (flush_compaction m)"
proof -
  show "tracks noted (with_tools r)"
    unfolding with_tools_def
    by (cases r; (simp del: steps.simps split: prod.split)?; (intro track allI impI)?; (simp add: set_tools_def noted_def)?)
  show "tracks noted (handle_citation cf c)" unfolding handle_citation_def by (intro track)
  show "tracks noted (show_text t)" unfolding show_text_def by (intro track)
  show "tracks noted (flush_compaction m)"
    by (simp add: tracks_def noted_def flush_compaction_def sides_def emits_def split: prod.split)
qed

lemma think_tracks [track]: "tracks noted (think cf t)"
proof -
  have k: "tracks noted (steps [close_message cf Completed, open_reasoning cf, push_reasoning h])" for h by (intro track)
  have p: "tracks noted (push_reasoning t)" by (rule track)
  have u: "noted (s\<lparr>tn_capture := x\<rparr>) = noted s" "noted (s\<lparr>tn_capture := x, tn_pending_buf := y\<rparr>) = noted s"
    "noted (s\<lparr>tn_capture := x, tn_pending := b, tn_pending_buf := y\<rparr>) = noted s" for s :: turn and x y b
    by (simp_all add: noted_def)
  show ?thesis
    unfolding tracks_def think_def by (simp add: Let_def tracks_fst [OF k] tracks_fst [OF p] u del: steps.simps)
qed

lemma say_tracks [track]: "tracks noted (say cf t)"
proof -
  have k: "tracks noted (steps [change (\<lambda>s. s\<lparr>tn_filter := f\<rparr>), if b then show_text h else steps []])" for f h b
    by (intro track) (simp add: noted_def)
  show ?thesis
    unfolding tracks_def say_def by (simp add: Let_def tracks_fst [OF k] del: steps.simps split: prod.split)
qed

lemma handle_text_tracks [track]: "tracks noted (handle_text cf was t)"
proof -
  have k: "tracks noted (steps [change (not_pending \<circ> close_thinking_capture), close_reasoning Completed])"
    "tracks noted (steps [change not_pending, close_reasoning Completed, say cf t])"
    by (intro track; simp add: noted_def not_pending_def close_thinking_capture_def)+
  have u: "noted (s\<lparr>tn_token_streaming := a\<rparr>) = noted s" "noted (close_thinking_capture s) = noted s"
    "noted (s\<lparr>tn_token_streaming := a, tn_pending := b, tn_pending_buf := y\<rparr>) = noted s" for s :: turn and a b y
    by (simp_all add: noted_def close_thinking_capture_def)
  show ?thesis
    unfolding tracks_def handle_text_def
    by (simp add: Let_def tracks_fst [OF k(1)] tracks_fst [OF k(2)] tracks_fst [OF think_tracks] u del: steps.simps)
qed

lemma buffer_chunk_tracks [track]: "tracks tn_in_thinking (buffer_chunk c)"
  unfolding buffer_chunk_def by (intro track) simp

lemmas thinking_tracks [track] =
  small_tracks [THEN noted_thinking] item_noted [THEN noted_thinking] handle_text_tracks [THEN noted_thinking]

lemma handle_user_tracks: "tracks tn_in_thinking (handle_user cf now c)"
proof -
  have k: "tracks tn_in_thinking (steps [with_tools r, sides es, buffer_chunk c])" for r es by (intro track)
  show ?thesis unfolding tracks_def handle_user_def by (simp add: tracks_fst [OF k] del: steps.simps)
qed

lemma handle_content_tracks [track]: "tracks tn_in_thinking (handle_content cf c)"
proof -
  have "tracks tn_in_thinking (show_content cf c)"
    unfolding tracks_def show_content_def by (auto simp: tracks_fst [OF thinking_tracks(3)] split: option.split)
  then have k: "tracks tn_in_thinking (steps [buffer_chunk c, show_content cf c])" by (intro track)
  show ?thesis
    unfolding tracks_def handle_content_def
    by (auto simp: tracks_fst [OF k] tracks_fst [OF buffer_chunk_tracks] simp del: steps.simps split: option.split)
qed

lemma handle_rest_tracks [track]: "tracks tn_in_thinking (handle_rest cf now c)"
proof -
  have k: "tracks tn_in_thinking (steps [with_tools r, handle_content cf c])" for r by (intro track)
  show ?thesis
    unfolding tracks_def handle_rest_def
    by (auto simp: Let_def tracks_fst [OF k] tracks_fst [OF thinking_tracks(1)] tracks_fst [OF handle_user_tracks]
        simp del: steps.simps split: option.split)
qed

lemma streamed_thinking:
  assumes "handle_streamed cf now c s = (s', out, Go)"
  shows "tn_in_thinking s' = thinking_after cf c (tn_in_thinking s)"
proof -
  have k: "tracks tn_in_thinking (steps [sides es, handle_rest cf now c])" for es by (intro track)
  have "tn_in_thinking (fst (handle_streamed cf now c s)) = thinking_after cf c (tn_in_thinking s) \<or>
    snd (snd (handle_streamed cf now c s)) \<noteq> Go"
    unfolding handle_streamed_def thinking_after_def
    by (auto simp: Let_def tracks_fst [OF k] tracks_fst [OF handle_text_tracks [THEN noted_thinking]] tracks_fst [OF thinking_tracks(2)]
        simp del: steps.simps split: option.split json.split)
  then show ?thesis using assms by simp
qed

lemma steps_never_go: "(\<And>s s' out. b s \<noteq> (s', out, Go)) \<Longrightarrow> steps [a, b] s \<noteq> (s', out, Go)"
  by (auto split: prod.splits flow.splits)

lemma end_turn_never_go: "end_turn cf st oc why v s \<noteq> (s', out, Go)"
  by (simp add: end_turn_def split: option.split prod.split)

lemma cut_turn_never_go: "cut_turn cf why s \<noteq> (s', out, Go)"
  unfolding cut_turn_def by (rule steps_never_go) (rule end_turn_never_go)

lemma handle_error_never_go: "handle_error cf c e s \<noteq> (s', out, Go)"
  unfolding handle_error_def
  by (rule steps_never_go) (auto simp: fail_turn_def raises_def split: prod.splits json.splits)

lemma other_types_keep_thinking:
  "cfield c ''type'' \<noteq> J_str ''stream_event'' \<Longrightarrow> thinking_after cf c th = th"
  by (simp add: thinking_after_def extract_stream_event_delta_def)

lemma sides_thinking: "sides es s = (s', out, f) \<Longrightarrow> tn_in_thinking s' = tn_in_thinking s"
  by (auto simp: sides_def emits_def)

lemma chunk_thinking:
  assumes "handle_chunk cf now c s = (s', out, Go)"
  shows "tn_in_thinking s' = thinking_after cf c (tn_in_thinking s)"
proof -
  let ?type = "cfield c ''type''"
  have last: "tn_in_thinking s' = thinking_after cf c (tn_in_thinking s)"
    if e: "steps [flush_compaction (Some c), handle_streamed cf now c] s = (s', out, Go)"
  proof -
    obtain s1 o1 f1 where a: "flush_compaction (Some c) s = (s1, o1, f1)" by (rule prod_cases3)
    then have "f1 = Go" "tn_in_thinking s1 = tn_in_thinking s"
      by (auto simp: flush_compaction_def sides_def emits_def split: prod.splits)
    moreover obtain s2 o2 f2 where b: "handle_streamed cf now c s1 = (s2, o2, f2)" by (rule prod_cases3)
    ultimately show ?thesis using e a streamed_thinking [of cf now c s1 s2 o2] by (cases f2) auto
  qed
  have sys: "tn_in_thinking s' = tn_in_thinking s" if "handle_system cf c s = (s', out, Go)"
    using that by (auto simp: handle_system_def Let_def dest!: sides_thinking split: option.splits prod.splits if_splits)
  show ?thesis
    using assms last sys
    unfolding handle_chunk_def
    by (auto simp: other_types_keep_thinking cut_turn_never_go handle_error_never_go steps_never_go [OF cut_turn_never_go]
        dest!: sides_thinking simp del: steps.simps split: if_splits option.splits)
qed

section \<open>Every turn is read to its end\<close>

text \<open>
  What the backend's stream is to keep: inside a thinking block no citation and no other text, and
  where blocks of JSON are held back, the stream does not end inside a thinking block.
\<close>

fun calm_inputs :: "turn_cfg \<Rightarrow> bool \<Rightarrow> turn_input list \<Rightarrow> bool" where
  "calm_inputs cf th [] = (tc_collab cf \<longrightarrow> \<not> th)"
| "calm_inputs cf th (x # xs) =
     (case x of
        Item now c \<Rightarrow> (th \<longrightarrow> quiet_chunk cf c) \<and> calm_inputs cf (thinking_after cf c th) xs
      | _ \<Rightarrow> calm_inputs cf th xs)"

lemma final_flush_ok: "ok_step en (\<lambda>s. en \<longrightarrow> \<not> tn_in_thinking s) final_flush (\<lambda>s. True)"
proof (rule ok_stepI')
  fix s assume s: "turn_inv en s" "en \<longrightarrow> \<not> tn_in_thinking s"
  obtain rest f where fl: "flush (tn_filter s) = (rest, f)" by fastforce
  let ?as = "[change (\<lambda>s. s\<lparr>tn_filter := f\<rparr>), if rest \<noteq> [] then show_text rest else steps []]"
  have h: "final_flush s = steps ?as s" unfolding final_flush_def fl Let_def prod.case ..
  define K :: "turn \<Rightarrow> bool" where "K = (\<lambda>s. rest \<noteq> [] \<longrightarrow> tn_reasoning s = None)"
  have K: "K s"
    using s fl by (cases "tn_reasoning s") (auto simp: K_def turn_inv_def flush_def)
  have c: "ok_step en K (change (\<lambda>s. s\<lparr>tn_filter := f\<rparr>)) K"
    using flush_inv [OF fl] s(1) by (intro set_filter_ok) (auto simp: turn_inv_def K_def)
  have "ok_step en K (if rest \<noteq> [] then show_text rest else steps []) (\<lambda>s. True)"
    by (intro ok_if ok_steps_Nil ok_conseq [OF show_text_ok]) (auto simp: K_def)
  from okay_apply [OF ok_steps_Cons [OF c ok_steps_one [OF this]] s(1) K] show "okay en s (final_flush s) (\<lambda>s. True)"
    unfolding h .
qed

lemma trailing_message_ok:
  "ok_step en nothing_open (trailing_message cf) (\<lambda>s. nothing_open s \<and> list_ex is_message (tn_completed s))"
proof (rule ok_stepI')
  fix s assume s: "turn_inv en s" "nothing_open s"
  let ?Q = "\<lambda>s. nothing_open s \<and> list_ex is_message (tn_completed s)"
  have o: "ok_step en nothing_open open_message (\<lambda>s. tn_message_open s)"
    by (rule ok_conseq [OF turn_open_message_ok]) (auto simp: nothing_open_def)
  have c: "ok_step en (\<lambda>s. tn_message_open s) (close_message cf Completed) ?Q"
  proof (rule ok_stepI)
    fix s s' out f
    assume t: "turn_inv en s" "tn_message_open s" "close_message cf Completed s = (s', out, f)"
    obtain rest f' where fl: "flush (tn_filter s) = (rest, f')" by fastforce
    let ?as = "[change (\<lambda>s. s\<lparr>tn_filter := f'\<rparr>), if rest \<noteq> [] then emit_delta rest else steps [], finish_message cf Completed]"
    have a: "ok_step en (\<lambda>s. tn_message_open s) (change (\<lambda>s. s\<lparr>tn_filter := f'\<rparr>)) (\<lambda>s. tn_message_open s)"
      using flush_inv [OF fl] t(1) by (intro set_filter_ok) (auto simp: turn_inv_def)
    have b: "ok_step en (\<lambda>s. tn_message_open s) (if rest \<noteq> [] then emit_delta rest else steps []) (\<lambda>s. tn_message_open s)"
      by (intro ok_if turn_emit_delta_ok ok_steps_Nil) auto
    have "ok_step en (\<lambda>s. tn_message_open s) (steps ?as) ?Q"
      by (rule ok_steps_Cons [OF a ok_steps_Cons [OF b ok_steps_one [OF finish_message_ok]]]) simp
    moreover have "steps ?as s = (s', out, f)"
      using t(2,3) fl by (simp only: close_message_def Let_def prod.case not_True_eq_False if_False)
    ultimately show "\<exists>q. reads read_event (view s) out = Some q \<and> left en f q s' ?Q"
      using t(1,2) by (intro ok_stepD)
  qed
  show "okay en s (trailing_message cf s) ?Q"
  proof (cases "tn_any_message s")
    case True
    then show ?thesis using s by (auto simp: trailing_message_def turn_inv_def nothing_open_def intro!: okay_same)
  next
    case False
    from okay_apply [OF ok_steps_Cons [OF o ok_steps_one [OF c]] s] show ?thesis
      using False by (simp add: trailing_message_def del: steps.simps)
  qed
qed

lemma finish_turn_ok: "ok_step en (\<lambda>s. True) (finish_turn cf paused) (\<lambda>s. False)"
proof (rule ok_stepI')
  fix s assume s: "turn_inv en s"
  have ca: "ok_step en (\<lambda>s. True) (close_all cf Completed) nothing_open" by (rule turn_close_all_ok) simp
  have p: "ok_step en nothing_open (\<lambda>s. (s, [], Stop Paused_turn)) (\<lambda>s. False)"
    by (rule ok_stepI') (simp add: okay_def view_def nothing_open_def)
  have e: "ok_step en (\<lambda>s. nothing_open s \<and> list_ex is_message (tn_completed s))
      (\<lambda>s. end_turn cf Completed Completed_turn None (extract_structured_output (tn_buffer s)) s) (\<lambda>s. False)"
    by (rule ok_stepI', rule end_turn_ok) auto
  have "okay en s (s, [], Stop Empty_turn) (\<lambda>s. False)" by (simp add: okay_def view_def)
  then show "okay en s (finish_turn cf paused s) (\<lambda>s. False)"
    using okay_apply [OF ok_steps_Cons [OF ca ok_steps_one [OF p]] s]
      okay_apply [OF ok_steps_Cons [OF ca ok_steps_Cons [OF trailing_message_ok ok_steps_one [OF e]]] s]
    by (simp add: finish_turn_def del: steps.simps)
qed

definition ended :: "outcome \<Rightarrow> reader \<Rightarrow> bool" where
  "ended r q \<longleftrightarrow>
     rd_stage q = (if r \<in> {Completed_turn, Incomplete_turn, Failed_turn} then 3 else 2) \<and>
     (r = Paused_turn \<longrightarrow> rd_open q = None)"

lemma failing_reads:
  assumes "fail_turn cf err msg s = (s', out, f)"
  shows "\<exists>q. reads read_event (view s) out = Some q \<and> ended Failed_turn q"
proof -
  have f: "f = Stop Failed_turn" using assms by (auto simp: fail_turn_def split: prod.splits)
  have "okay True s (fail_turn cf err msg s) (\<lambda>s. True)" by (rule fail_turn_ok)
  then show ?thesis unfolding assms okay_def f ended_def by simp
qed

lemma stream_turn_reads:
  assumes "turn_inv (tc_collab cf) s" "calm_inputs cf (tn_in_thinking s) xs" "stream_turn cf paused xs s = (s', out, r)"
  shows "\<exists>q. reads read_event (view s) out = Some q \<and> ended r q"
  using assms
proof (induction xs arbitrary: s out)
  case Nil
  let ?en = "tc_collab cf"
  have fc: "ok_step ?en (\<lambda>s. True) (flush_compaction None) (\<lambda>s. True)" by (rule flush_compaction_ok [OF steady_true]) simp
  have "ok_step ?en (\<lambda>s. ?en \<longrightarrow> \<not> tn_in_thinking s) (steps [final_flush, flush_compaction None, finish_turn cf paused]) (\<lambda>s. False)"
    by (rule ok_steps_Cons [OF final_flush_ok ok_steps_Cons [OF fc ok_steps_one [OF finish_turn_ok]]])
  from okay_apply [OF this Nil.prems(1)] Nil.prems(2)
  have ok: "okay ?en s (steps [final_flush, flush_compaction None, finish_turn cf paused] s) (\<lambda>s. False)" by simp
  obtain s1 o1 f1 where e: "steps [final_flush, flush_compaction None, finish_turn cf paused] s = (s1, o1, f1)"
    by (rule prod_cases3)
  show ?case
    using ok Nil.prems(3) unfolding okay_def e stream_turn.simps(1) prod.case
    by (cases f1) (auto simp: ended_def view_def)
next
  case (Cons x xs)
  let ?en = "tc_collab cf"
  show ?case
  proof (cases x)
    case (Stalled m)
    then show ?thesis
      using Cons.prems(3) failing_reads [of cf "''server_error''" "''Turn stalled: '' @ m" s]
      by (auto simp: Let_def split: prod.splits)
  next
    case Broken
    then show ?thesis
      using Cons.prems(3) failing_reads [of cf "''server_error''" "''Internal server error''" s]
      by (auto simp: Let_def split: prod.splits)
  next
    case (Idle now)
    let ?es = "tool_heartbeat_events (tc_flags cf) now (tn_tools s)"
    obtain s1 o1 f1 where e: "sides ?es s = (s1, o1, f1)" by (rule prod_cases3)
    obtain s2 o2 where e2: "stream_turn cf paused xs s1 = (s2, o2, r)" and out: "out = Keepalive # o1 @ o2"
      using Cons.prems(3) Idle e by (auto simp: Let_def split: prod.splits)
    have "f1 = Go" using e by (auto simp: sides_def emits_def)
    moreover have "okay ?en s (sides ?es s) (\<lambda>s. True)"
      by (rule okay_apply [OF ok_sides [OF steady_true] Cons.prems(1)]) simp
    ultimately have q1: "reads read_event (view s) o1 = Some (view s1)" and i1: "turn_inv ?en s1"
      unfolding okay_def e by auto
    have "calm_inputs cf (tn_in_thinking s1) xs" using Cons.prems(2) Idle sides_thinking [OF e] by simp
    from Cons.IH [OF i1 this] e2 Cons.prems(3)
    obtain q where "reads read_event (view s1) o2 = Some q" "ended r q" using Idle e by (auto simp: Let_def split: prod.splits)
    then show ?thesis using q1 out by (simp add: reads_append)
  next
    case (Item now c)
    obtain s1 o1 f1 where e: "handle_chunk cf now c s = (s1, o1, f1)" by (rule prod_cases3)
    have "calm cf c s" using Cons.prems(2) Item by (simp add: calm_def)
    from okay_apply [OF handle_chunk_ok Cons.prems(1) this, of now]
    obtain q1 where q1: "reads read_event (view s) o1 = Some q1" "left ?en f1 q1 s1 (\<lambda>s. True)"
      unfolding okay_def e by auto
    show ?thesis
    proof (cases f1)
      case Go
      have "calm_inputs cf (tn_in_thinking s1) xs"
        using Cons.prems(2) Item chunk_thinking [of cf now c s s1 o1] e Go by simp
      moreover have "turn_inv ?en s1" using q1(2) Go by simp
      moreover obtain o2 where "stream_turn cf paused xs s1 = (s', o2, r)" "out = o1 @ o2"
        using Cons.prems(3) Item e Go by (auto simp: Let_def split: prod.splits)
      ultimately show ?thesis using Cons.IH [of s1 o2] q1 Go by (auto simp: reads_append)
    next
      case (Stop r')
      then have "out = o1" "r = r'" using Cons.prems(3) Item e by (auto simp: Let_def)
      then show ?thesis using q1 Stop by (auto simp: ended_def)
    next
      case Raise
      obtain s2 o2 f2 where e2: "fail_turn cf ''server_error'' ''Internal server error'' s1 = (s2, o2, f2)" by (rule prod_cases3)
      have "out = o1 @ o2" "r = Failed_turn" using Cons.prems(3) Item e Raise e2 by (auto simp: Let_def)
      then show ?thesis using failing_reads [OF e2] q1 Raise by (auto simp: reads_append)
    qed
  qed
qed

lemma new_turn_starts:
  assumes "preamble cf (new_turn cf) = (s, out, f)"
  shows "reads read_event new_reader out = Some (view s) \<and> turn_inv (tc_collab cf) s \<and> \<not> tn_in_thinking s"
  using assms
  by (auto simp: preamble_def emits_def new_turn_def new_reader_def view_def turn_inv_def respond_def new_cfilter_def upt_rec)

lemma calm_stream_reads:
  assumes "calm_inputs cf False xs"
    and "stream_response_chunks cf paused xs = (s, out, r)"
  shows "\<exists>q. reads read_event new_reader out = Some q \<and> ended r q"
proof -
  obtain s1 o1 f1 where p: "preamble cf (new_turn cf) = (s1, o1, f1)" by (rule prod_cases3)
  obtain o2 where t: "stream_turn cf paused xs s1 = (s, o2, r)" and out: "out = o1 @ o2"
    using assms(2) p by (auto simp: stream_response_chunks_def Let_def split: prod.splits)
  from new_turn_starts [OF p] have "calm_inputs cf (tn_in_thinking s1) xs" using assms(1) by simp
  from stream_turn_reads [OF _ this t] new_turn_starts [OF p] out show ?thesis by (auto simp: reads_append)
qed


section \<open>Sample turns\<close>

definition sample_cfg :: turn_cfg where
  "sample_cfg =
     \<lparr>tc_flags =
        \<lparr>fl_hooks = True, fl_compaction = True, fl_local_output = True, fl_tool_progress = True, fl_sub_text = False,
         fl_sub_tools = True, fl_sub_progress = True\<rparr>,
      tc_collab = False, tc_loads = (\<lambda>_. Not_json), tc_show = (\<lambda>_. []), tc_trunc = (\<lambda>_. None), tc_sender = (\<lambda>_. J_null),
      tc_uuid = dec, tc_call_output = J_null, tc_prompt = ''hello'', tc_response_id = ''resp_1'', tc_item_id = ''msg_0'',
      tc_model = ''sonnet'', tc_metadata = J_obj []\<rparr>"

definition event_chunk :: "string \<Rightarrow> (string \<times> json) list \<Rightarrow> turn_input" where
  "event_chunk type rest =
     Item 0 \<lparr>ck_fields = [(''type'', J_str ''stream_event''), (''event'', J_obj ((''type'', J_str type) # rest))], ck_content = None\<rparr>"

definition block_start :: "string \<Rightarrow> turn_input" where
  "block_start k = event_chunk ''content_block_start'' [(''content_block'', J_obj [(''type'', J_str k)])]"

definition block_stop :: turn_input where
  "block_stop = event_chunk ''content_block_stop'' []"

definition block_delta :: "string \<Rightarrow> string \<Rightarrow> json \<Rightarrow> turn_input" where
  "block_delta k field v = event_chunk ''content_block_delta'' [(''delta'', J_obj [(''type'', J_str k), (field, v)])]"

definition result_chunk :: "string \<Rightarrow> turn_input" where
  "result_chunk t =
     Item 0 \<lparr>ck_fields = [(''type'', J_str ''result''), (''subtype'', J_str ''success''), (''result'', J_str t),
        (''usage'', J_obj [(''input_tokens'', J_int 7), (''output_tokens'', J_int 3)])], ck_content = None\<rparr>"

text \<open>Thinking, text with a citation, thinking that never says anything, more thinking, more text.\<close>

definition sample_inputs :: "turn_input list" where
  "sample_inputs =
     [block_start ''thinking'', block_delta ''thinking_delta'' ''thinking'' (J_str ''hm''), block_stop,
      block_start ''text'', block_delta ''text_delta'' ''text'' (J_str ''Hi''),
      block_delta ''citations_delta'' ''citation'' (J_obj [(''cited_text'', J_str ''x'')]), Idle 5, block_stop,
      block_start ''thinking'', block_stop,
      block_start ''thinking'', block_delta ''thinking_delta'' ''thinking'' (J_str '' ''),
      block_delta ''thinking_delta'' ''thinking'' (J_str ''so''), block_stop,
      block_start ''text'', block_delta ''text_delta'' ''text'' (J_str ''Bye''), block_stop, result_chunk ''HiBye'']"

definition shape :: "turn_event list \<Rightarrow> item list" where
  "shape es = concat (map (\<lambda>e. case e of Numbered (Item_done n i) k \<Rightarrow> [i] | _ \<Rightarrow> []) es)"

lemma sample_items:
  "shape (fst (snd (stream_response_chunks sample_cfg False sample_inputs))) =
     [Reasoning_item ''rs_0'' Completed ''hm'', Message_item ''msg_0'' Completed ''Hi'',
      Reasoning_item ''rs_2'' Completed '' so'', Message_item ''msg_1'' Completed ''Bye'']"
  by code_simp


section \<open>Where the conditions matter\<close>

text \<open>A citation inside a thinking block opens a message while the reasoning item is open.\<close>

lemma citation_overlaps:
  "reads read_event new_reader (fst (snd (stream_response_chunks sample_cfg False
     [block_start ''thinking'', block_delta ''thinking_delta'' ''thinking'' (J_str ''hm''),
      block_delta ''citations_delta'' ''citation'' (J_obj [])]))) = None"
  by code_simp

text \<open>Thinking text that comes outside a thinking block is shown as the answer.\<close>

lemma stray_thinking_shown:
  "shape (fst (snd (stream_response_chunks sample_cfg False
     [block_delta ''thinking_delta'' ''thinking'' (J_str ''secret'')]))) = [Message_item ''msg_0'' Completed ''secret'']"
  by code_simp

text \<open>A text delta that happens to read like a marker is swallowed.\<close>

lemma marker_text_lost:
  "shape (fst (snd (stream_response_chunks sample_cfg False
     [block_delta ''text_delta'' ''text'' (J_str ''Use ''), block_delta ''text_delta'' ''text'' (J_str think_start),
      block_delta ''text_delta'' ''text'' (J_str '' tags'')]))) = [Message_item ''msg_0'' Completed ''Use  tags'']"
  by code_simp

text \<open>A citation alone leaves a message open on a turn that ends as empty.\<close>

lemma citation_only_stays_open:
  "snd (snd (stream_response_chunks sample_cfg False [block_delta ''citations_delta'' ''citation'' (J_obj [])])) = Empty_turn"
  by code_simp

end
