(* ===== verification/TurnRecord.thy ===== *)
theory TurnRecord
  imports TurnProtocol
begin

text \<open>
  What is kept of a streamed turn agrees with what was sent and received: the answer handed to the
  session is the text the client was shown, and the chunks kept for the accounting give the usage
  of all chunks.
\<close>

section \<open>The text a client is shown\<close>

definition texts :: "turn_event list \<Rightarrow> string" where
  "texts es = concat (map (\<lambda>e. case e of Numbered (Text_delta n i t) k \<Rightarrow> t | _ \<Rightarrow> []) es)"

lemma texts_simps [simp]:
  "texts [] = []" "texts (a @ b) = texts a @ texts b" "texts (Keepalive # b) = texts b"
  by (simp_all add: texts_def)

text \<open>The numbers of the events, and the response objects of the ones that end a response.\<close>

definition numbers :: "turn_event list \<Rightarrow> nat list" where
  "numbers es = concat (map (\<lambda>e. case e of Numbered b n \<Rightarrow> [n] | Keepalive \<Rightarrow> []) es)"

lemma numbers_simps [simp]:
  "numbers [] = []" "numbers (a @ b) = numbers a @ numbers b" "numbers (Keepalive # b) = numbers b"
  "numbers (Numbered x n # b) = n # numbers b"
  by (simp_all add: numbers_def)

definition final_objects :: "turn_event list \<Rightarrow> turn_response list" where
  "final_objects es = concat (map (\<lambda>e. case e of Numbered (Response_end r) n \<Rightarrow> [r] | _ \<Rightarrow> []) es)"

lemma final_objects_simps [simp]:
  "final_objects [] = []" "final_objects (a @ b) = final_objects a @ final_objects b"
  "final_objects (Keepalive # b) = final_objects b"
  by (simp_all add: final_objects_def)

text \<open>The object a way of leaving goes with; \<open>i\<close> is the response's id.\<close>

definition closes_with :: "string \<Rightarrow> turn_response list \<Rightarrow> rstatus \<Rightarrow> bool" where
  "closes_with i rs st \<longleftrightarrow> (\<exists>r. rs = [r] \<and> re_status r = st \<and> re_id r = i)"

fun fits :: "string \<Rightarrow> flow \<Rightarrow> turn_response list \<Rightarrow> bool" where
  "fits i (Stop Completed_turn) rs = closes_with i rs Completed"
| "fits i (Stop Incomplete_turn) rs = closes_with i rs Incomplete"
| "fits i (Stop Failed_turn) rs = closes_with i rs Failed"
| "fits i f rs = (rs = [])"

text \<open>
  A step that adds to the answer what it streams, numbers its events on, and leaves in one of some
  ways, with the response object of that way.
\<close>

definition told :: "string \<Rightarrow> flow set \<Rightarrow> turn \<Rightarrow> turn \<times> turn_event list \<times> flow \<Rightarrow> bool" where
  "told i F s r \<longleftrightarrow>
     (case r of (s', out, f) \<Rightarrow>
        tn_visible s' = tn_visible s @ texts out \<and> tn_seq s \<le> tn_seq s' \<and> numbers out = [tn_seq s ..< tn_seq s'] \<and>
        f \<in> F \<and> fits i f (final_objects out))"

definition tells :: "string \<Rightarrow> flow set \<Rightarrow> step \<Rightarrow> bool" where
  "tells i F a \<longleftrightarrow> (\<forall>s. told i F s (a s))"

abbreviation going :: "flow set" where
  "going \<equiv> {Go, Raise}"

named_theorems tell

lemma turn_tellsD: "tells i F a \<Longrightarrow> a s = (s', out, f) \<Longrightarrow> told i F s (s', out, f)"
  unfolding tells_def by metis

lemma tells_toldI: "(\<And>s. told i F s (a s)) \<Longrightarrow> tells i F a"
  by (simp add: tells_def)

lemma tells_mono: "tells i F a \<Longrightarrow> F \<subseteq> G \<Longrightarrow> tells i G a"
  unfolding tells_def told_def by (fastforce split: prod.splits)

lemma told_then:
  assumes "told i F s (s1, o1, Go)" "told i G s1 (s2, o2, f)"
  shows "told i G s (s2, o1 @ o2, f)"
  using assms upt_add_eq_append [of "tn_seq s" "tn_seq s1" "tn_seq s2 - tn_seq s1"]
  by (auto simp: told_def)

lemma steps_Nil_tells [tell]: "tells i going (steps [])"
  by (simp add: tells_def told_def)

lemma steps_Cons_tells [tell]:
  assumes "tells i F a" "tells i F (steps as)"
  shows "tells i F (steps (a # as))"
proof (rule tells_toldI)
  fix s
  obtain s1 o1 f1 where a: "a s = (s1, o1, f1)" by (rule prod_cases3)
  obtain s2 o2 f2 where b: "steps as s1 = (s2, o2, f2)" by (rule prod_cases3)
  note t = turn_tellsD [OF assms(1) a] turn_tellsD [OF assms(2) b]
  show "told i F s (steps (a # as) s)"
    using t told_then [of i F s s1 o1 F s2 o2 f2] a b by (cases f1) auto
qed

lemma change_tells [tell]:
  "(\<And>s. tn_visible (g s) = tn_visible s \<and> tn_seq (g s) = tn_seq s) \<Longrightarrow> tells i going (change g)"
  by (simp add: tells_def told_def change_def)

lemma if_tells [tell]: "tells i F a \<Longrightarrow> tells i F b \<Longrightarrow> tells i F (if c then a else b)"
  by simp

fun silent :: "body \<Rightarrow> bool" where
  "silent (Text_delta n i t) = False"
| "silent (Response_end r) = False"
| "silent b = True"

lemma emitted:
  "numbers (map (\<lambda>(b, n). Numbered b n) (zip bs [k..<k + length bs])) = [k..<k + length bs]"
  "list_all silent bs \<Longrightarrow> texts (map (\<lambda>(b, n). Numbered b n) (zip bs ns)) = []"
  "list_all silent bs \<Longrightarrow> final_objects (map (\<lambda>(b, n). Numbered b n) (zip bs ns)) = []"
proof -
  show "numbers (map (\<lambda>(b, n). Numbered b n) (zip bs [k..<k + length bs])) = [k..<k + length bs]"
  proof (induction bs arbitrary: k)
    case (Cons b bs)
    have "[k..<k + length (b # bs)] = k # [Suc k..<Suc k + length bs]" by (simp add: upt_rec)
    then show ?case using Cons.IH [of "Suc k"] by (simp del: upt_Suc)
  qed simp
  have "list_all silent bs \<Longrightarrow> texts (map (\<lambda>(b, n). Numbered b n) (zip bs ns)) = [] \<and>
      final_objects (map (\<lambda>(b, n). Numbered b n) (zip bs ns)) = []" for ns
  proof (induction bs arbitrary: ns)
    case (Cons b bs)
    then show ?case
      by (cases ns; cases b) (auto simp: texts_def final_objects_def)
  qed simp
  then show "list_all silent bs \<Longrightarrow> texts (map (\<lambda>(b, n). Numbered b n) (zip bs ns)) = []"
    "list_all silent bs \<Longrightarrow> final_objects (map (\<lambda>(b, n). Numbered b n) (zip bs ns)) = []" by auto
qed

lemma told_emits: "list_all silent bs \<Longrightarrow> tn_visible s = tn_visible t \<Longrightarrow> tn_seq s = tn_seq t \<Longrightarrow> told i going t (emits bs s)"
  by (simp add: told_def emits_def emitted del: upt_Suc)

lemma told_at: "tells i F a \<Longrightarrow> tn_visible s = tn_visible t \<and> tn_seq s = tn_seq t \<Longrightarrow> told i F t (a s)"
  by (cases "a s") (auto simp: tells_def told_def dest!: spec [of _ s])

lemma told_done: "tn_visible s = tn_visible t \<and> tn_seq s = tn_seq t \<Longrightarrow> f \<in> F \<Longrightarrow> fits i f [] \<Longrightarrow> told i F t (s, [], f)"
  by (simp add: told_def)

lemma sides_tells [tell]: "tells i going (sides es)"
  by (rule tells_toldI) (simp add: sides_def told_emits list.pred_map o_def list.pred_True)

lemma item_tells [tell]:
  "tells i going open_message" "tells i going (emit_delta t)" "tells i going (close_reasoning st)"
  "tells i going (finish_message cf st)" "tells i going (push_reasoning t)"
  "tells i going (open_reasoning cf)" "tells i going raises" "tells i going (add_annotation v)"
  "tells i going (buffer_chunk c)"
proof -
  show "tells i going (emit_delta t)"
    by (simp add: tells_def told_def emit_delta_def emits_def texts_def numbers_def final_objects_def upt_rec)
  show "tells i going open_message" "tells i going (close_reasoning st)"
    "tells i going (finish_message cf st)" "tells i going (push_reasoning t)"
    "tells i going (open_reasoning cf)" "tells i going raises" "tells i going (add_annotation v)"
    "tells i going (buffer_chunk c)"
    by (rule tells_toldI; auto simp: open_message_def close_reasoning_def finish_message_def push_reasoning_def
        open_reasoning_def raises_def add_annotation_def buffer_chunk_def change_def Let_def
        intro!: told_emits told_done split: option.split)+
qed

lemma show_text_tells [tell]: "tells i going (show_text t)"
  unfolding show_text_def by (intro tell)

lemma close_message_tells [tell]: "tells i going (close_message cf st)"
proof (rule tells_toldI)
  fix s :: turn
  obtain rest f' where fl: "flush (tn_filter s) = (rest, f')" by fastforce
  have k: "tells i going (steps [change (\<lambda>s. s\<lparr>tn_filter := f'\<rparr>), a, finish_message cf st])"
    if "a = emit_delta rest \<or> a = steps []" for a
    using that by (elim disjE; simp only:; intro tell; simp)
  show "told i going s (close_message cf st s)"
    unfolding close_message_def fl
    by (auto simp: Let_def simp del: steps.simps intro!: told_done told_at [OF k]
        split: prod.split)
qed

lemma turn_close_all_tells: "tells i going (close_all cf st)"
  unfolding close_all_def by (intro tell) (simp add: close_thinking_capture_def)

lemma with_tools_tells [tell]: "tells i going (with_tools r)"
  unfolding with_tools_def
  by (cases r; (simp del: steps.simps split: prod.split)?; (intro tell allI impI)?; (simp add: set_tools_def)?)

lemma handle_citation_tells [tell]: "tells i going (handle_citation cf c)"
  unfolding handle_citation_def by (intro tell)

lemma flush_compaction_tells [tell]: "tells i going (flush_compaction m)"
  by (rule tells_toldI) (auto simp: flush_compaction_def intro!: told_at [OF sides_tells] split: prod.split)

lemma handle_system_tells [tell]: "tells i going (handle_system cf c)"
  by (rule tells_toldI)
    (auto simp: handle_system_def Let_def intro!: told_done told_at [OF sides_tells] split: prod.split option.split)

lemma think_tells: "tells i going (think cf t)"
proof (rule tells_toldI)
  fix s :: turn
  have k: "tells i going (steps [close_message cf Completed, open_reasoning cf, push_reasoning h])" for h by (intro tell)
  have p: "tells i going (push_reasoning t)" by (rule tell)
  show "told i going s (think cf t s)"
    unfolding think_def
    by (auto simp: Let_def simp del: steps.simps intro!: told_done told_at [OF k] told_at [OF p]
        split: if_split)
qed

lemma say_tells [tell]: "tells i going (say cf t)"
proof (rule tells_toldI)
  fix s :: turn
  have k: "tells i going (steps [change (\<lambda>s. s\<lparr>tn_filter := f\<rparr>), a])" if "a = show_text h \<or> a = steps []" for f h a
    using that by (elim disjE; simp only:; intro tell; simp)
  show "told i going s (say cf t s)"
    unfolding say_def
    by (auto simp: Let_def simp del: steps.simps intro!: told_done told_at [OF k]
        split: prod.split)
qed

lemma turn_handle_text_tells [tell]: "tells i going (handle_text cf was t)"
proof (rule tells_toldI)
  fix s :: turn
  have k: "tells i going (steps [change (not_pending \<circ> close_thinking_capture), close_reasoning Completed])"
    "tells i going (steps [change not_pending, close_reasoning Completed, say cf t])"
    by (intro tell; simp add: not_pending_def close_thinking_capture_def)+
  show "told i going s (handle_text cf was t s)"
    unfolding handle_text_def
    by (auto simp: Let_def close_thinking_capture_def simp del: steps.simps intro!: told_done told_at [OF k(1)] told_at [OF k(2)] told_at [OF think_tells]
        split: if_split)
qed

lemma handle_user_tells: "tells i going (handle_user cf now c)"
proof (rule tells_toldI)
  fix s :: turn
  have k: "tells i going (steps [with_tools r, sides es, buffer_chunk c])" for r es by (intro tell)
  show "told i going s (handle_user cf now c s)"
    unfolding handle_user_def
    by (auto simp: Let_def simp del: steps.simps intro!: told_done told_at [OF k]
        split: if_split)
qed

lemma show_content_tells [tell]: "tells i going (show_content cf c)"
proof (rule tells_toldI)
  fix s :: turn

  show "told i going s (show_content cf c s)"
    unfolding show_content_def
    by (auto simp: Let_def simp del: steps.simps intro!: told_done told_at [OF show_text_tells]
        split: option.split)
qed

lemma handle_content_tells [tell]: "tells i going (handle_content cf c)"
proof (rule tells_toldI)
  fix s :: turn
  have k: "tells i going (steps [buffer_chunk c, show_content cf c])" by (intro tell)
  have b: "tells i going (buffer_chunk c)" by (rule tell)
  show "told i going s (handle_content cf c s)"
    unfolding handle_content_def
    by (auto simp: Let_def simp del: steps.simps intro!: told_done told_at [OF k] told_at [OF b]
        split: option.split)
qed

lemma handle_rest_tells [tell]: "tells i going (handle_rest cf now c)"
proof (rule tells_toldI)
  fix s :: turn
  have k: "tells i going (steps [with_tools r, handle_content cf c])" for r by (intro tell)
  show "told i going s (handle_rest cf now c s)"
    unfolding handle_rest_def
    by (auto simp: Let_def simp del: steps.simps intro!: told_done told_at [OF k] told_at [OF with_tools_tells] told_at [OF handle_user_tells]
        split: option.split)
qed

lemma handle_streamed_tells [tell]: "tells i going (handle_streamed cf now c)"
proof (rule tells_toldI)
  fix s :: turn
  have k: "tells i going (steps [sides es, handle_rest cf now c])" for es by (intro tell)
  show "told i going s (handle_streamed cf now c s)"
    unfolding handle_streamed_def
    by (auto simp: Let_def simp del: steps.simps intro!: told_done told_at [OF k] told_at [OF handle_citation_tells] told_at [OF turn_handle_text_tells]
        split: option.split json.split)
qed

text \<open>A chunk may also end the turn, but never as completed.\<close>

abbreviation ending :: "flow set" where
  "ending \<equiv> {Go, Raise, Stop Incomplete_turn, Stop Failed_turn}"

lemma texts_end: "texts [Numbered (Response_end r) n] = []"
  by (simp add: texts_def)

lemma final_end: "final_objects [Numbered (Response_end r) n] = [r]"
  by (simp add: final_objects_def)

lemma fail_turn_tells: "tells (tc_response_id cf) {Stop Failed_turn} (fail_turn cf err msg)"
  by (simp add: tells_def told_def fail_turn_def failed_event_def emits_def texts_end final_end respond_def closes_with_def)

lemma end_turn_tells:
  "(oc, st) \<in> {(Completed_turn, Completed), (Incomplete_turn, Incomplete)} \<Longrightarrow> tells (tc_response_id cf) {Raise, Stop oc} (end_turn cf st oc why v)"
  by (auto simp: tells_def told_def end_turn_def emits_def texts_end final_end respond_def closes_with_def split: option.split)

lemma cut_turn_tells: "tells (tc_response_id cf) ending (cut_turn cf why)"
  unfolding cut_turn_def
  by (intro steps_Cons_tells tells_mono [OF turn_close_all_tells] tells_mono [OF end_turn_tells [of Incomplete_turn Incomplete]]
      tells_mono [OF steps_Nil_tells]) auto

lemma handle_error_tells: "tells (tc_response_id cf) ending (handle_error cf c e)"
proof -
  have "tells (tc_response_id cf) ending (case e of (J_str err, J_str msg) \<Rightarrow> fail_turn cf err msg | _ \<Rightarrow> raises)"
  proof -
    have r: "tells (tc_response_id cf) ending raises" and f: "tells (tc_response_id cf) ending (fail_turn cf err msg)" for err msg
      by (rule tells_mono [OF item_tells(7)], simp, rule tells_mono [OF fail_turn_tells], simp)
    then show ?thesis by (auto split: prod.split json.split)
  qed
  moreover have "tells (tc_response_id cf) ending (if cfield c ''type'' = J_str ''assistant'' then buffer_chunk c else steps [])"
    by (rule tells_mono [of _ going]) (intro tell, simp)
  ultimately show ?thesis
    unfolding handle_error_def by (intro steps_Cons_tells tells_mono [OF steps_Nil_tells]) auto
qed

lemma handle_chunk_tells: "tells (tc_response_id cf) ending (handle_chunk cf now c)"
proof (rule tells_toldI)
  fix s :: turn
  have a: "tells (tc_response_id cf) ending (steps [flush_compaction (Some c), handle_streamed cf now c])"
    by (rule tells_mono [of _ going]) (intro tell, simp)
  have b: "tells (tc_response_id cf) ending (steps [buffer_chunk c, cut_turn cf why])" for why
    by (intro steps_Cons_tells cut_turn_tells tells_mono [OF steps_Nil_tells] tells_mono [OF item_tells(9)]) auto
  have sd: "tells (tc_response_id cf) ending (sides es)" for es by (rule tells_mono [OF sides_tells]) simp
  have y: "tells (tc_response_id cf) ending (handle_system cf c)" by (rule tells_mono [OF handle_system_tells]) simp
  show "told (tc_response_id cf) ending s (handle_chunk cf now c s)"
    unfolding handle_chunk_def
    by (auto simp: Let_def simp del: steps.simps intro!: told_done told_at [OF a] told_at [OF b] told_at [OF sd] told_at [OF y] told_at [OF cut_turn_tells] told_at [OF handle_error_tells]
        split: option.split)
qed

section \<open>The answer that is recorded\<close>

lemma final_flush_tells: "tells i going final_flush"
proof (rule tells_toldI)
  fix s :: turn
  have k: "tells i going (steps [change (\<lambda>s. s\<lparr>tn_filter := f\<rparr>), a])" if "a = show_text h \<or> a = steps []" for f h a
    using that by (elim disjE; simp only:; intro tell; simp)
  show "told i going s (final_flush s)"
    unfolding final_flush_def by (auto simp: Let_def simp del: steps.simps intro!: told_at [OF k] split: prod.split)
qed

lemma trailing_message_tells: "tells i going (trailing_message cf)"
proof (rule tells_toldI)
  fix s :: turn
  have k: "tells i going (steps [open_message, close_message cf Completed])" by (intro tell)
  show "told i going s (trailing_message cf s)"
    unfolding trailing_message_def by (auto simp del: steps.simps intro!: told_done told_at [OF k])
qed

lemma finish_turn_tells: "tells (tc_response_id cf) {Raise, Stop Completed_turn, Stop Paused_turn, Stop Empty_turn, Go} (finish_turn cf paused)"
  (is "tells (tc_response_id cf) ?F _")
proof (rule tells_toldI)
  fix s :: turn
  have e: "tells (tc_response_id cf) ?F (\<lambda>s. end_turn cf Completed Completed_turn None (v s) s)" for v
    using tells_mono [OF end_turn_tells [of Completed_turn Completed cf None "v _"], of ?F] by (simp add: tells_def)
  have p: "tells (tc_response_id cf) ?F (\<lambda>s. (s, [], Stop Paused_turn))" by (simp add: tells_def told_def)
  have k: "tells (tc_response_id cf) ?F (steps [close_all cf Completed, \<lambda>s. (s, [], Stop Paused_turn)])"
    "tells (tc_response_id cf) ?F (steps [close_all cf Completed, trailing_message cf,
       \<lambda>s. end_turn cf Completed Completed_turn None (extract_structured_output (tn_buffer s)) s])"
    by (intro steps_Cons_tells p e tells_mono [OF turn_close_all_tells] tells_mono [OF trailing_message_tells]
        tells_mono [OF steps_Nil_tells]; simp)+
  show "told (tc_response_id cf) ?F s (finish_turn cf paused s)"
    unfolding finish_turn_def by (auto simp del: steps.simps intro!: told_done told_at [OF k(1)] told_at [OF k(2)])
qed

lemma last_steps_tell:
  "tells (tc_response_id cf) {Raise, Stop Completed_turn, Stop Paused_turn, Stop Empty_turn, Go}
     (steps [final_flush, flush_compaction None, finish_turn cf paused])"
  by (intro steps_Cons_tells finish_turn_tells tells_mono [OF final_flush_tells] tells_mono [OF flush_compaction_tells]
      tells_mono [OF steps_Nil_tells]) auto

lemma stream_turn_tells: "stream_turn cf paused xs s = (s', out, r) \<Longrightarrow> told (tc_response_id cf) UNIV s (s', out, if r = Raised_turn then Raise else Stop r)"
  (is "_ \<Longrightarrow> told (tc_response_id cf) UNIV s (s', out, ?f r)")
proof (induction xs arbitrary: s out)
  case Nil
  obtain s1 o1 f1 where e: "steps [final_flush, flush_compaction None, finish_turn cf paused] s = (s1, o1, f1)"
    by (rule prod_cases3)
  then have "s' = s1 \<and> out = o1 \<and> r = (case f1 of Stop r \<Rightarrow> r | _ \<Rightarrow> Raised_turn)"
    using Nil by (cases f1) (auto simp del: steps.simps)
  then show ?case using turn_tellsD [OF last_steps_tell e] by (auto simp: told_def split: flow.splits)
next
  case (Cons x xs)
  have fails: "told (tc_response_id cf) UNIV u (u', o', Stop Failed_turn)" if "fail_turn cf err msg u = (u', o', f)" for err msg u u' o' f
    using turn_tellsD [OF fail_turn_tells that] by (auto simp: told_def)
  have go: "told (tc_response_id cf) UNIV s (s', o1 @ o2, ?f r)" if "told (tc_response_id cf) G s (s1, o1, Go)" "told (tc_response_id cf) UNIV s1 (s', o2, ?f r)" for G s1 o1 o2
  proof -
    have "told (tc_response_id cf) UNIV s (s1, o1, Go)" using that(1) by (simp add: told_def)
    then show ?thesis using that(2) by (rule told_then)
  qed
  show ?case
  proof (cases x)
    case (Stalled m)
    then show ?thesis using Cons.prems fails by (auto simp: Let_def split: prod.splits)
  next
    case Broken
    then show ?thesis using Cons.prems fails by (auto simp: Let_def split: prod.splits)
  next
    case (Idle now)
    obtain s1 o1 f1 where e: "sides (tool_heartbeat_events (tc_flags cf) now (tn_tools s)) s = (s1, o1, f1)"
      by (rule prod_cases3)
    obtain o2 where o2: "stream_turn cf paused xs s1 = (s', o2, r)" "out = Keepalive # o1 @ o2"
      using Cons.prems Idle e by (auto simp: Let_def split: prod.splits)
    have "f1 = Go" using e by (auto simp: sides_def emits_def)
    then show ?thesis using go [of going s1 o1 o2] Cons.IH [OF o2(1)] turn_tellsD [OF sides_tells e] o2(2) by (simp add: told_def)
  next
    case (Item now c)
    obtain s1 o1 f1 where e: "handle_chunk cf now c s = (s1, o1, f1)" by (rule prod_cases3)
    note t = turn_tellsD [OF handle_chunk_tells e]
    show ?thesis
    proof (cases f1)
      case Go
      then obtain o2 where "stream_turn cf paused xs s1 = (s', o2, r)" "out = o1 @ o2"
        using Cons.prems Item e by (auto simp: Let_def split: prod.splits)
      then show ?thesis using go [of ending s1 o1 o2] Cons.IH t Go by simp
    next
      case (Stop r')
      then have "r' \<noteq> Raised_turn" using t by (auto simp: told_def)
      then show ?thesis using Cons.prems Item e t Stop by (auto simp: told_def)
    next
      case Raise
      obtain s2 o2 f2 where e2: "fail_turn cf ''server_error'' ''Internal server error'' s1 = (s2, o2, f2)" by (rule prod_cases3)
      then have o: "out = o1 @ o2" "s' = s2" "r = Failed_turn" using Cons.prems Item e Raise by (auto simp: Let_def)
      have "told (tc_response_id cf) UNIV s (s1, o1, Go)" using t Raise by (simp add: told_def)
      then show ?thesis using told_then fails [OF e2] o by fastforce
    qed
  qed
qed

lemma turn_tells:
  "told (tc_response_id cf) UNIV (new_turn cf)
     (fst (stream_response_chunks cf paused xs), fst (snd (stream_response_chunks cf paused xs)),
      if snd (snd (stream_response_chunks cf paused xs)) = Raised_turn then Raise
      else Stop (snd (snd (stream_response_chunks cf paused xs))))"
proof -
  obtain s1 o1 f1 where p: "preamble cf (new_turn cf) = (s1, o1, f1)" by (rule prod_cases3)
  obtain s o2 r where t: "stream_turn cf paused xs s1 = (s, o2, r)" by (rule prod_cases3)
  have "told (tc_response_id cf) going (new_turn cf) (s1, o1, Go)"
    using told_emits [of "[Created r1, Running r2]" "new_turn cf" "new_turn cf" for r1 r2] p
    by (auto simp: preamble_def emits_def)
  then have "told (tc_response_id cf) UNIV (new_turn cf) (s1, o1, Go)" by (simp add: told_def)
  from told_then [OF this stream_turn_tells [OF t]] show ?thesis by (auto simp: stream_response_chunks_def p t)
qed

text \<open>
  C19.  On every turn, however it ends, the answer recorded for the session is the text the client
  was streamed, delta by delta.
\<close>

theorem recorded_answer_is_streamed:
  "tn_visible (fst (stream_response_chunks cf paused xs)) = texts (fst (snd (stream_response_chunks cf paused xs)))"
  using turn_tells [of cf paused xs] by (simp add: told_def new_turn_def)

section \<open>The chunks that are kept\<close>

text \<open>A chunk that any of the accounts reads.\<close>

definition relevant :: "(string \<Rightarrow> int option) \<Rightarrow> chunk \<Rightarrow> bool" where
  "relevant trunc c \<longleftrightarrow>
     (case main_agent_prompt_tokens trunc c of None \<Rightarrow> True | Some n \<Rightarrow> 0 < n) \<or>
     has_usage ''result'' c \<or> has_usage ''assistant'' c"

lemma context_of_relevant: "extract_context_tokens trunc (filter (relevant trunc) cs) = extract_context_tokens trunc cs"
  by (rule context_tokens_kept) (auto simp: relevant_def split: option.splits)

lemma usage_of_relevant:
  "extract_sdk_usage trunc (filter (relevant trunc) cs) = extract_sdk_usage trunc cs"
  "extract_sdk_usage_detail trunc (filter (relevant trunc) cs) = extract_sdk_usage_detail trunc cs"
  by (rule sdk_usage_kept; simp add: relevant_def)+

lemma other_type_irrelevant:
  "cfield c ''type'' \<notin> {J_str ''assistant'', J_str ''result'', J_str ''stream_event''} \<Longrightarrow> \<not> relevant trunc c"
  by (simp add: relevant_def main_agent_prompt_tokens_def has_usage_def)

lemma block_event_irrelevant:
  assumes "cfield c ''type'' = J_str ''stream_event''"
    and "jfield (event_of c) ''type'' \<notin> {J_str ''message_start'', J_str ''message_delta''}"
  shows "\<not> relevant trunc c"
proof -
  have "is_obj (cfield c ''event'') \<Longrightarrow> event_of c = cfield c ''event''"
    by (simp add: event_of_def jget_or_def split: option.splits)
  then show ?thesis
    using assms by (auto simp: relevant_def main_agent_prompt_tokens_def has_usage_def Let_def)
qed

lemma unused_assistant_irrelevant:
  assumes "is_assistant_content_chunk c" "\<not> has_usage ''assistant'' c" "cfield c ''type'' \<noteq> J_str ''stream_event''"
  shows "\<not> relevant trunc c"
proof (cases "cfield c ''type'' = J_str ''assistant''")
  case True
  then have "\<not> jtruthy (cfield c ''usage'')" using assms(2) by (simp add: has_usage_def)
  then have "prompt_tokens_from_usage trunc (cfield c ''usage'') = Some 0"
    by (cases "cfield c ''usage''")
      (auto simp: prompt_tokens_from_usage_def prompt_sum_def plus_opt_def counter_def py_count_def jget_or_def)
  then show ?thesis using True assms(2) by (simp add: relevant_def main_agent_prompt_tokens_def has_usage_def)
next
  case False
  then have "cfield c ''type'' = J_null" using assms(1) by (simp add: is_assistant_content_chunk_def split: if_splits)
  then show ?thesis by (intro other_type_irrelevant) simp
qed

text \<open>What a step does to the buffer as the accounts see it: nothing, or the chunk is added.\<close>

definition files :: "turn_cfg \<Rightarrow> chunk \<Rightarrow> turn \<Rightarrow> turn \<times> turn_event list \<times> flow \<Rightarrow> bool" where
  "files cf c s r \<longleftrightarrow>
     (snd (snd r) = Go \<longrightarrow>
        filter (relevant (tc_trunc cf)) (tn_buffer (fst r)) = filter (relevant (tc_trunc cf)) (tn_buffer s @ [c]))"

lemma files_skip: "\<not> relevant (tc_trunc cf) c \<Longrightarrow> tracks noted a \<Longrightarrow> tn_buffer s = tn_buffer t \<Longrightarrow> files cf c t (a s)"
  using tracks_fst [of noted a s] by (simp add: files_def noted_def)

lemma files_same: "\<not> relevant (tc_trunc cf) c \<Longrightarrow> tn_buffer s = tn_buffer t \<Longrightarrow> files cf c t (s, [], Go)"
  by (simp add: files_def)

lemma files_leave: "snd (snd r) \<noteq> Go \<Longrightarrow> files cf c s r"
  by (simp add: files_def)

lemma files_add: "tn_buffer s = tn_buffer t \<Longrightarrow> files cf c t (buffer_chunk c s)"
  by (simp add: files_def buffer_chunk_def change_def)

lemma files_after:
  assumes "tracks noted a" "\<And>u. tn_buffer u = tn_buffer s \<Longrightarrow> files cf c u (steps as u)" "tn_buffer s = tn_buffer t"
  shows "files cf c t (steps (a # as) s)"
proof -
  obtain s1 o1 f1 where a: "a s = (s1, o1, f1)" by (rule prod_cases3)
  have b: "tn_buffer s1 = tn_buffer s" using tracksD [OF assms(1) a] by (simp add: noted_def)
  obtain s2 o2 f2 where e: "steps as s1 = (s2, o2, f2)" by (rule prod_cases3)
  show ?thesis using assms(2) [OF b] b assms(3) by (cases f1) (simp_all add: files_def a e)
qed

lemma steps_single: "steps [a] s = a s"
  by (auto split: prod.splits flow.splits)

lemma files_last: "(files cf c s (a s)) \<Longrightarrow> files cf c s (steps [a] s)"
  by (simp only: steps_single)

lemma files_then:
  assumes "files cf c t (a s)" "tracks noted (steps as)"
  shows "files cf c t (steps (a # as) s)"
proof -
  obtain s1 o1 f1 where a: "a s = (s1, o1, f1)" by (rule prod_cases3)
  obtain s2 o2 f2 where e: "steps as s1 = (s2, o2, f2)" by (rule prod_cases3)
  have "tn_buffer s2 = tn_buffer s1" using tracksD [OF assms(2) e] by (simp add: noted_def)
  then show ?thesis using assms(1) by (cases f1) (simp_all add: files_def a e)
qed

lemma show_content_noted: "tracks noted (show_content cf c)"
  unfolding tracks_def show_content_def by (auto simp: tracks_fst [OF small_tracks(3)] split: option.split)

lemma handle_content_files:
  assumes "cfield c ''type'' \<noteq> J_str ''user''"
  shows "files cf c s (handle_content cf c s)"
proof -
  have k: "files cf c s (steps [buffer_chunk c, show_content cf c] s)"
    by (rule files_then [OF files_add]) (auto intro: track show_content_noted)
  show ?thesis
  proof (cases "tn_token_streaming s \<and> cfield c ''type'' = J_str ''stream_event''")
    case True
    have "\<not> relevant (tc_trunc cf) c" if "is_context_snapshot_chunk (tc_trunc cf) c = Some False"
      using that True by (auto simp: is_context_snapshot_chunk_def relevant_def has_usage_def)
    then show ?thesis
      using True by (auto simp: handle_content_def files_leave files_same files_add split: option.split)
  next
    case False
    then show ?thesis
      using assms k unused_assistant_irrelevant [of c "tc_trunc cf"]
      by (auto simp: handle_content_def files_same files_add simp del: steps.simps)
  qed
qed

lemma accumulator_events:
  assumes "process_stream_event loads c acc = Some (acc', True, made)"
  shows "cfield c ''type'' = J_str ''stream_event'' \<and>
    jfield (event_of c) ''type'' \<notin> {J_str ''message_start'', J_str ''message_delta''}"
  using assms by (auto simp: process_stream_event_def Let_def split: if_splits)

lemma handle_rest_files: "files cf c s (handle_rest cf now c s)"
proof (cases "process_stream_event (tc_loads cf) c (tn_acc s)")
  case None
  then show ?thesis by (simp add: handle_rest_def files_leave)
next
  case (Some r)
  obtain acc handled made where r: "r = (acc, handled, made)" by (rule prod_cases3)
  let ?s = "s\<lparr>tn_acc := acc\<rparr>"
  show ?thesis
  proof (cases handled)
    case True
    then have "\<not> relevant (tc_trunc cf) c"
      using accumulator_events [of "tc_loads cf" c "tn_acc s" acc made] Some r by (intro block_event_irrelevant) simp_all
    then have "files cf c s (?s, [], Go)" "files cf c s (with_tools t ?s)" for t
      by (auto intro: files_same files_skip [OF _ small_tracks(1)])
    then show ?thesis using True by (simp add: handle_rest_def Some r Let_def split: option.split)
  next
    case False
    have w: "tracks noted (with_tools t)" for t by (rule track)
    have "files cf c s (steps [with_tools t, handle_content cf c] ?s)" if "cfield c ''type'' \<noteq> J_str ''user''" for t
      by (rule files_after [OF w files_last [OF handle_content_files [OF that]]]) simp
    moreover have "files cf c s (handle_user cf now c ?s)" if "cfield c ''type'' = J_str ''user''"
    proof -
      have "files cf c u (steps [buffer_chunk c] u)" for u by (rule files_last, rule files_add) simp
      then have "files cf c s (steps [with_tools t, sides es, buffer_chunk c] ?s)" for t es
        by (intro files_after [OF w] files_after [OF item_noted(6)]) auto
      then show ?thesis unfolding handle_user_def .
    qed
    ultimately show ?thesis using False by (simp add: handle_rest_def Some r Let_def del: steps.simps)
  qed
qed

text \<open>Citations come in \<open>content_block_delta\<close> events, as the upstream protocol has them.\<close>

definition citation_in_block :: "chunk \<Rightarrow> bool" where
  "citation_in_block c \<longleftrightarrow> (is_citation c \<longrightarrow> jfield (event_of c) ''type'' = J_str ''content_block_delta'')"

lemma extract_text_events:
  assumes "extract_stream_event_delta fl c th = Some (v, th')" "v \<noteq> J_null"
  shows "cfield c ''type'' = J_str ''stream_event'' \<and>
    jfield (event_of c) ''type'' \<notin> {J_str ''message_start'', J_str ''message_delta''}"
  using assms by (auto simp: extract_stream_event_delta_def Let_def split: if_splits)

lemma citation_type: "is_citation c \<Longrightarrow> cfield c ''type'' = J_str ''stream_event''"
  by (auto simp: is_citation_def delta_of_def jget_or_def split: if_splits)

lemma handle_streamed_files:
  assumes "citation_in_block c"
  shows "files cf c s (handle_streamed cf now c s)"
proof (cases "is_obj (delta_of c) \<and> \<not> is_citation c")
  case False
  have "files cf c s (handle_citation cf c s)" if "is_citation c"
    using that assms citation_type by (intro files_skip block_event_irrelevant small_tracks) (auto simp: citation_in_block_def)
  then show ?thesis using False by (auto simp: handle_streamed_def files_leave)
next
  case True
  show ?thesis
  proof (cases "extract_stream_event_delta (tc_flags cf) c (tn_in_thinking s)")
    case None
    then show ?thesis using True by (simp add: handle_streamed_def files_leave)
  next
    case (Some r)
    obtain v th where r: "r = (v, th)" by fastforce
    let ?s = "s\<lparr>tn_in_thinking := th\<rparr>"
    have a: "files cf c s (steps [sides es, handle_rest cf now c] ?s)" for es
      by (rule files_after [OF item_noted(6) files_last [OF handle_rest_files]]) simp
    have b: "files cf c s (handle_text cf was t ?s)" if "v = J_str t" for was t
    proof (rule files_skip [OF block_event_irrelevant handle_text_tracks])
      show "cfield c ''type'' = J_str ''stream_event''"
        "jfield (event_of c) ''type'' \<notin> {J_str ''message_start'', J_str ''message_delta''}"
        using extract_text_events [OF Some [unfolded r]] that by auto
    qed simp
    show ?thesis
      using True a b by (auto simp: handle_streamed_def Some r Let_def files_leave simp del: steps.simps split: json.split)
  qed
qed

lemma handle_system_noted: "tracks noted (handle_system cf c)"
proof -
  have u: "noted (s\<lparr>tn_compaction := t\<rparr>) = noted s" for s :: turn and t by (simp add: noted_def)
  show ?thesis
    unfolding tracks_def handle_system_def
    by (auto simp: Let_def tracks_fst [OF item_noted(6)] u split: option.split prod.split)
qed

lemma never_go_files: "(\<And>s' out. r \<noteq> (s', out, Go)) \<Longrightarrow> files cf c s r"
  by (cases r) (auto simp: files_def)

lemma handle_chunk_files:
  assumes "citation_in_block c"
  shows "files cf c s (handle_chunk cf now c s)"
proof -
  have a: "files cf c s (steps [flush_compaction (Some c), handle_streamed cf now c] s)"
    by (rule files_after [OF small_tracks(4) files_last [OF handle_streamed_files [OF assms]] refl])
  have b: "files cf c s (cut_turn cf why s)" "files cf c s (steps [buffer_chunk c, cut_turn cf why] s)"
    "files cf c s (handle_error cf c e s)" for why e
    by (rule never_go_files, rule cut_turn_never_go)
      (rule never_go_files, rule steps_never_go [OF cut_turn_never_go], rule never_go_files, rule handle_error_never_go)
  have t: "files cf c s (sides es s)" "files cf c s (handle_system cf c s)" "files cf c s (s, [], Go)"
    if "cfield c ''type'' \<in> {J_str ''tool_progress'', J_str ''system'', J_str ''rate_limit''}" for es
    using other_type_irrelevant [of c "tc_trunc cf"] that
    by (auto intro!: files_skip [OF _ item_noted(6)] files_skip [OF _ handle_system_noted] files_same)
  show ?thesis
    unfolding handle_chunk_def using a b t by (auto simp: files_leave simp del: steps.simps split: option.split)
qed

definition chunks_of :: "turn_input list \<Rightarrow> chunk list" where
  "chunks_of xs = List.map_filter (\<lambda>x. case x of Item now c \<Rightarrow> Some c | _ \<Rightarrow> None) xs"

lemma chunks_of_simps [simp]:
  "chunks_of [] = []" "chunks_of (Item now c # xs) = c # chunks_of xs" "chunks_of (Idle now # xs) = chunks_of xs"
  by (simp_all add: chunks_of_def List.map_filter_def)

lemma final_flush_noted: "tracks noted final_flush"
proof -
  have k: "tracks noted (steps [change (\<lambda>s. s\<lparr>tn_filter := f\<rparr>), if b then show_text h else steps []])" for f h b
    by (intro track) (simp add: noted_def)
  show ?thesis
    unfolding tracks_def final_flush_def by (simp add: tracks_fst [OF k] del: steps.simps split: prod.split)
qed

lemma finish_turn_noted: "tracks noted (finish_turn cf paused)"
proof -
  have ca: "tracks noted (close_all cf Completed)"
    unfolding close_all_def by (intro track) (simp add: noted_def close_thinking_capture_def)
  have tm: "tracks noted (trailing_message cf)"
  proof -
    have k: "tracks noted (steps [open_message, close_message cf Completed])" by (intro track)
    show ?thesis unfolding tracks_def trailing_message_def by (simp add: tracks_fst [OF k] del: steps.simps)
  qed
  have e: "tracks noted (\<lambda>s. end_turn cf Completed Completed_turn None (v s) s)" for v
    by (simp add: tracks_def end_turn_def emits_def noted_def split: option.split)
  have p: "tracks noted (\<lambda>s. (s, [], Stop Paused_turn))" by (simp add: tracks_def)
  have k: "tracks noted (steps [close_all cf Completed, \<lambda>s. (s, [], Stop Paused_turn)])"
    "tracks noted (steps [close_all cf Completed, trailing_message cf,
       \<lambda>s. end_turn cf Completed Completed_turn None (extract_structured_output (tn_buffer s)) s])"
    by (intro steps_Cons_tracks steps_Nil_tracks ca tm e p)+
  show ?thesis
    unfolding tracks_def finish_turn_def by (simp add: tracks_fst [OF k(1)] tracks_fst [OF k(2)] del: steps.simps)
qed

lemma stream_turn_files:
  assumes "stream_turn cf paused xs s = (s', out, Completed_turn)" "list_all citation_in_block (chunks_of xs)"
  shows "filter (relevant (tc_trunc cf)) (tn_buffer s') = filter (relevant (tc_trunc cf)) (tn_buffer s @ chunks_of xs)"
  using assms
proof (induction xs arbitrary: s out)
  case Nil
  have "tracks noted (steps [final_flush, flush_compaction None, finish_turn cf paused])"
    by (intro steps_Cons_tracks steps_Nil_tracks final_flush_noted small_tracks finish_turn_noted)
  moreover obtain s1 o1 f1 where e: "steps [final_flush, flush_compaction None, finish_turn cf paused] s = (s1, o1, f1)"
    by (rule prod_cases3)
  ultimately have "tn_buffer s1 = tn_buffer s" using tracksD by (metis noted_def prod.inject)
  moreover have "s' = s1" using Nil.prems(1) e by (cases f1) (auto simp del: steps.simps)
  ultimately show ?case by simp
next
  case (Cons x xs)
  show ?case
  proof (cases x)
    case (Stalled m)
    then show ?thesis using Cons.prems by (auto simp: Let_def split: prod.splits)
  next
    case Broken
    then show ?thesis using Cons.prems by (auto simp: Let_def split: prod.splits)
  next
    case (Idle now)
    obtain s1 o1 f1 where e: "sides (tool_heartbeat_events (tc_flags cf) now (tn_tools s)) s = (s1, o1, f1)"
      by (rule prod_cases3)
    obtain o2 where "stream_turn cf paused xs s1 = (s', o2, Completed_turn)"
      using Cons.prems Idle e by (auto simp: Let_def split: prod.splits)
    moreover have "tn_buffer s1 = tn_buffer s" using tracksD [OF item_noted(6) e] by (simp add: noted_def)
    ultimately show ?thesis using Cons Idle by simp
  next
    case (Item now c)
    obtain s1 o1 f1 where e: "handle_chunk cf now c s = (s1, o1, f1)" by (rule prod_cases3)
    have "f1 = Go"
      using turn_tellsD [OF handle_chunk_tells e] Cons.prems(1) Item e by (cases f1) (auto simp: told_def Let_def split: prod.splits)
    then obtain o2 where r: "stream_turn cf paused xs s1 = (s', o2, Completed_turn)"
      using Cons.prems(1) Item e by (auto simp: Let_def split: prod.splits)
    have "files cf c s (s1, o1, f1)"
      using handle_chunk_files [of c cf s now] Cons.prems(2) Item e by simp
    then show ?thesis using Cons.IH [OF r] Cons.prems(2) Item \<open>f1 = Go\<close> by (simp add: files_def)
  qed
qed

text \<open>
  C20.  The accounts of a completed turn lose nothing to the chunks that streaming drops from the
  buffer: token usage, its cache details and the context in use, read from the chunks that were
  kept, are those of all the chunks the backend sent.
\<close>

theorem usage_survives_streaming:
  assumes "list_all citation_in_block (chunks_of xs)"
    and "stream_response_chunks cf paused xs = (s, out, Completed_turn)"
  shows "extract_sdk_usage (tc_trunc cf) (tn_buffer s) = extract_sdk_usage (tc_trunc cf) (chunks_of xs) \<and>
    resolve_usage_details (tc_trunc cf) (tn_buffer s) = resolve_usage_details (tc_trunc cf) (chunks_of xs)"
proof -
  obtain s1 o1 f1 where p: "preamble cf (new_turn cf) = (s1, o1, f1)" by (rule prod_cases3)
  obtain o2 where t: "stream_turn cf paused xs s1 = (s, o2, Completed_turn)"
    using assms(2) p by (auto simp: stream_response_chunks_def Let_def split: prod.splits)
  have "tn_buffer s1 = []" using p by (auto simp: preamble_def emits_def new_turn_def)
  with stream_turn_files [OF t assms(1)]
  have "filter (relevant (tc_trunc cf)) (tn_buffer s) = filter (relevant (tc_trunc cf)) (chunks_of xs)" by simp
  then show ?thesis
    using context_of_relevant [of "tc_trunc cf" "tn_buffer s"] context_of_relevant [of "tc_trunc cf" "chunks_of xs"]
      usage_of_relevant [of "tc_trunc cf" "tn_buffer s"] usage_of_relevant [of "tc_trunc cf" "chunks_of xs"]
    by (simp add: resolve_usage_details_def)
qed

text \<open>The sample turn drops its streamed events and keeps the result's usage.\<close>

theorem usage_survives_streaming_witness:
  "extract_sdk_usage (tc_trunc sample_cfg) (tn_buffer (fst (stream_response_chunks sample_cfg False sample_inputs))) = Some (Some (7, 3))"
proof -
  have c: "list_all citation_in_block (chunks_of sample_inputs)" by code_simp
  have r: "snd (snd (stream_response_chunks sample_cfg False sample_inputs)) = Completed_turn" by code_simp
  have u: "extract_sdk_usage (tc_trunc sample_cfg) (chunks_of sample_inputs) = Some (Some (7, 3))" by code_simp
  from usage_survives_streaming [OF c, of sample_cfg False "fst (stream_response_chunks sample_cfg False sample_inputs)"
      "fst (snd (stream_response_chunks sample_cfg False sample_inputs))"] r u
  show ?thesis by (metis prod.collapse)
qed

end
