(* ===== verification/TurnStall.thy ===== *)
theory TurnStall
  imports TurnRecord
begin

text \<open>
  The keepalive and stall guard around a turn's source, \<open>_keepalive_wrapper\<close> of
  \<open>src/src/streaming_utils.py\<close>, together with the turn that reads from it: the guard asks the
  turn's own statistics which tool calls are running.  The wording of a stall is an argument.
\<close>

section \<open>The guard\<close>

record stall_cfg =
  sg_interval :: int
  sg_stall_after :: int
  sg_tool_stall_after :: int
  sg_message :: "running_call list \<Rightarrow> int \<Rightarrow> string"

text \<open>What waiting for the next item gives: the item, a timeout, or the source's exception.\<close>

datatype arrival = Arrives instant chunk | Timeout instant | Source_raises

definition stall_budget :: "stall_cfg \<Rightarrow> running_call list \<Rightarrow> int" where
  "stall_budget g calls =
     (if calls \<noteq> [] \<and> 0 < sg_tool_stall_after g then sg_tool_stall_after g else sg_stall_after g)"

text \<open>The inputs of the turn \<open>s\<close>, with the last item at \<open>since\<close>.\<close>

fun keepalive_wrapper :: "turn_cfg \<Rightarrow> stall_cfg \<Rightarrow> instant \<Rightarrow> arrival list \<Rightarrow> turn \<Rightarrow> turn_input list" where
  "keepalive_wrapper cf g since [] s = []"
| "keepalive_wrapper cf g since (x # xs) s =
     (case x of
        Arrives now c \<Rightarrow> Item now c # keepalive_wrapper cf g now xs (fst (handle_chunk cf now c s))
      | Source_raises \<Rightarrow> [Broken]
      | Timeout now \<Rightarrow>
          if sg_interval g \<le> 0 then keepalive_wrapper cf g since xs s
          else
            let calls = in_flight now (tt_stats (tn_tools s)); budget = stall_budget g calls
            in if 0 < budget \<and> seconds budget < now - since then [Stalled (sg_message g calls budget)]
               else
                 Idle now #
                   keepalive_wrapper cf g since xs
                     (fst (sides (tool_heartbeat_events (tc_flags cf) now (tn_tools s)) s)))"

definition guarded_turn :: "turn_cfg \<Rightarrow> stall_cfg \<Rightarrow> bool \<Rightarrow> instant \<Rightarrow> arrival list \<Rightarrow> turn \<times> turn_event list \<times> outcome" where
  "guarded_turn cf g paused start xs =
     stream_response_chunks cf paused (keepalive_wrapper cf g start xs (fst (preamble cf (new_turn cf))))"

section \<open>A silent source ends the turn\<close>

definition cut_short :: "outcome \<Rightarrow> bool" where
  "cut_short r \<longleftrightarrow> r \<in> {Incomplete_turn, Failed_turn}"

definition guarded_outcome :: "turn_cfg \<Rightarrow> stall_cfg \<Rightarrow> bool \<Rightarrow> instant \<Rightarrow> arrival list \<Rightarrow> turn \<Rightarrow> outcome" where
  "guarded_outcome cf g paused since xs s = snd (snd (stream_turn cf paused (keepalive_wrapper cf g since xs s) s))"

lemma stalled_outcome: "snd (snd (stream_turn cf paused [Stalled m] s)) = Failed_turn"
  by (simp add: Let_def split: prod.split)

lemma idle_outcome:
  "snd (snd (stream_turn cf paused (Idle now # xs) s)) =
     snd (snd (stream_turn cf paused xs (fst (sides (tool_heartbeat_events (tc_flags cf) now (tn_tools s)) s))))"
  by (simp add: Let_def split_beta split: prod.split)

lemma timeout_outcome:
  assumes "0 < sg_interval g"
  shows "guarded_outcome cf g paused since (Timeout now # xs) s = Failed_turn \<or>
    \<not> (0 < stall_budget g (in_flight now (tt_stats (tn_tools s))) \<and>
       seconds (stall_budget g (in_flight now (tt_stats (tn_tools s)))) < now - since) \<and>
    guarded_outcome cf g paused since (Timeout now # xs) s =
      guarded_outcome cf g paused since xs (fst (sides (tool_heartbeat_events (tc_flags cf) now (tn_tools s)) s))"
  using assms stalled_outcome idle_outcome
  by (auto simp: guarded_outcome_def Let_def simp del: stream_turn.simps)

lemma budget_bounds:
  assumes "0 < sg_stall_after g"
  shows "0 < stall_budget g calls" "stall_budget g calls \<le> max (sg_stall_after g) (sg_tool_stall_after g)"
  using assms by (simp_all add: stall_budget_def)

lemma overdue_outcome:
  assumes "0 < sg_interval g" "0 < sg_stall_after g"
    and "now \<in> set ts" "seconds (max (sg_stall_after g) (sg_tool_stall_after g)) < now - since"
  shows "guarded_outcome cf g paused since (map Timeout ts @ rest) s = Failed_turn"
  using assms(3)
proof (induction ts arbitrary: s)
  case (Cons t ts)
  let ?calls = "in_flight t (tt_stats (tn_tools s))"
  show ?case
  proof (cases "now = t")
    case True
    have "seconds (stall_budget g ?calls) \<le> seconds (max (sg_stall_after g) (sg_tool_stall_after g))"
      using budget_bounds(2) [OF assms(2), of ?calls] by simp
    then have "seconds (stall_budget g ?calls) < t - since" using assms(4) True by linarith
    then show ?thesis
      using timeout_outcome [OF assms(1), of cf paused since t "map Timeout ts @ rest" s] budget_bounds(1) [OF assms(2), of ?calls]
      by auto
  next
    case False
    then show ?thesis
      using timeout_outcome [OF assms(1), of cf paused since t "map Timeout ts @ rest" s] Cons by auto
  qed
qed simp

fun spaced :: "int \<Rightarrow> instant \<Rightarrow> instant list \<Rightarrow> bool" where
  "spaced d t [] = True"
| "spaced d t (u # us) = (t + d \<le> u \<and> spaced d u us)"

lemma spaced_last: "spaced d t us \<Longrightarrow> us \<noteq> [] \<Longrightarrow> t + int (length us) * d \<le> last us"
proof (induction us arbitrary: t)
  case (Cons u us)
  show ?case
  proof (cases "us = []")
    case True
    then show ?thesis using Cons.prems by simp
  next
    case False
    then have "u + int (length us) * d \<le> last us" using Cons.IH [of u] Cons.prems by simp
    moreover have "t + d \<le> u" using Cons.prems by simp
    ultimately have "t + (int (length us) * d + d) \<le> last us" by linarith
    then show ?thesis using False by (simp add: algebra_simps)
  qed
qed simp

fun last_arrival :: "instant \<Rightarrow> arrival list \<Rightarrow> instant" where
  "last_arrival t [] = t"
| "last_arrival t (Arrives u c # xs) = last_arrival u xs"
| "last_arrival t (x # xs) = last_arrival t xs"

lemma silence_ends_turn:
  assumes "0 < sg_interval g" "0 < sg_stall_after g"
    and "now \<in> set ts" "seconds (max (sg_stall_after g) (sg_tool_stall_after g)) < now - last_arrival since pre"
  shows "cut_short (guarded_outcome cf g paused since (pre @ map Timeout ts @ rest) s)"
  using assms(4)
proof (induction pre arbitrary: since s)
  case Nil
  then show ?case using overdue_outcome [OF assms(1-3)] by (simp add: cut_short_def)
next
  case (Cons x pre)
  show ?case
  proof (cases x)
    case (Arrives t c)
    obtain s1 o1 f1 where e: "handle_chunk cf t c s = (s1, o1, f1)" by (rule prod_cases3)
    have f: "f1 \<in> {Go, Raise, Stop Incomplete_turn, Stop Failed_turn}" using turn_tellsD [OF handle_chunk_tells e] by (simp add: told_def)
    have "cut_short (guarded_outcome cf g paused t (pre @ map Timeout ts @ rest) s1)"
      using Cons Arrives by simp
    then show ?thesis
      using f Arrives e
      by (auto simp: guarded_outcome_def cut_short_def Let_def split_beta split: prod.split)
  next
    case (Timeout t)
    let ?s = "fst (sides (tool_heartbeat_events (tc_flags cf) t (tn_tools s)) s)"
    have "cut_short (guarded_outcome cf g paused since (pre @ map Timeout ts @ rest) ?s)"
      using Cons.prems Timeout by (intro Cons.IH) simp
    moreover have "guarded_outcome cf g paused since (Timeout t # pre @ map Timeout ts @ rest) s \<in>
      {Failed_turn, guarded_outcome cf g paused since (pre @ map Timeout ts @ rest) ?s}"
      using timeout_outcome [OF assms(1), of cf paused since t "pre @ map Timeout ts @ rest" s] by blast
    ultimately show ?thesis using Timeout by (auto simp: cut_short_def)
  next
    case Source_raises
    then show ?thesis by (simp add: guarded_outcome_def cut_short_def Let_def split: prod.split)
  qed
qed

text \<open>
  C18.  A turn whose backend falls silent does not run on: after any history, once waiting has timed
  out often enough, each time after at least the keepalive interval, the turn has been ended as
  failed (or had been cut short before), whatever tools it was running and whatever comes later.
\<close>

theorem silent_turn_ends:
  assumes "0 < sg_interval g" "0 < sg_stall_after g"
    and "spaced (seconds (sg_interval g)) (last_arrival start pre) ts"
    and "max (sg_stall_after g) (sg_tool_stall_after g) < int (length ts) * sg_interval g"
  shows "snd (snd (guarded_turn cf g paused start (pre @ map Timeout ts @ rest))) \<in> {Incomplete_turn, Failed_turn}"
proof -
  have ne: "ts \<noteq> []" using assms(2,4) by auto
  let ?l = "last_arrival start pre"
  have "?l + int (length ts) * seconds (sg_interval g) \<le> last ts" by (rule spaced_last [OF assms(3) ne])
  moreover have "seconds (max (sg_stall_after g) (sg_tool_stall_after g)) < int (length ts) * seconds (sg_interval g)"
    using assms(4) by (simp add: algebra_simps)
  ultimately have "seconds (max (sg_stall_after g) (sg_tool_stall_after g)) < last ts - ?l" by linarith
  moreover have "last ts \<in> set ts" using ne by simp
  ultimately have "cut_short (guarded_outcome cf g paused start (pre @ map Timeout ts @ rest) (fst (preamble cf (new_turn cf))))"
    by (intro silence_ends_turn [OF assms(1,2)])
  then show ?thesis
    by (simp add: guarded_turn_def stream_response_chunks_def guarded_outcome_def cut_short_def Let_def split_beta)
qed

text \<open>Two seconds of silence allowed, looked at every second, in the middle of an answer.\<close>

definition sample_guard :: stall_cfg where
  "sample_guard = \<lparr>sg_interval = 1, sg_stall_after = 2, sg_tool_stall_after = 0, sg_message = (\<lambda>_ _. ''silent'')\<rparr>"

definition sample_arrivals :: "arrival list" where
  "sample_arrivals = (case block_delta ''text_delta'' ''text'' (J_str ''Hi'') of Item t c \<Rightarrow> [Arrives 0 c] | _ \<Rightarrow> [])"

theorem silent_turn_ends_witness:
  "snd (snd (guarded_turn sample_cfg sample_guard False 0 (sample_arrivals @ map Timeout [seconds 1, seconds 2, seconds 3] @ []))) \<in>
     {Incomplete_turn, Failed_turn}"
proof (rule silent_turn_ends)
  show "0 < sg_interval sample_guard" "0 < sg_stall_after sample_guard" by (simp_all add: sample_guard_def)
  show "max (sg_stall_after sample_guard) (sg_tool_stall_after sample_guard) <
    int (length [seconds 1, seconds 2, seconds 3]) * sg_interval sample_guard"
    by (simp add: sample_guard_def)
  have "last_arrival 0 sample_arrivals = 0"
    by (simp add: sample_arrivals_def block_delta_def event_chunk_def)
  then show "spaced (seconds (sg_interval sample_guard)) (last_arrival 0 sample_arrivals) [seconds 1, seconds 2, seconds 3]"
    by (simp add: sample_guard_def)
qed

end
