(* ===== verification/ResponseObjects.thy ===== *)
theory ResponseObjects
  imports SessionOutbox SessionGuard TurnStall
begin

text \<open>
  What a turn of the Responses route produces and what it leaves on its session: response ids, the
  response object with its dump (\<open>src/src/response_models.py\<close>), the builders of
  \<open>src/src/routes/responses.py\<close>, and the session with the fields of the turn in flight.
\<close>

type_synonym chunk = ChunkText.chunk

section \<open>Response ids\<close>

definition make_response_id :: "string \<Rightarrow> nat \<Rightarrow> string" where
  "make_response_id sid turn = ''resp_'' @ sid @ ''_'' @ dec turn"

text \<open>\<open>s.split('_', 2)\<close>, the case of three parts.\<close>

definition split_three :: "string \<Rightarrow> (string \<times> string \<times> string) option" where
  "split_three s =
     (case split_on (CHR ''_'') s of
        a # b # c # rest \<Rightarrow> Some (a, b, join_with ''_'' (c # rest))
      | _ \<Rightarrow> None)"

text \<open>\<open>s.replace(old, '')\<close> for a text that is not empty.\<close>

function delete_all :: "string \<Rightarrow> string \<Rightarrow> string" where
  "delete_all w [] = []"
| "delete_all w (c # cs) =
     (if w \<noteq> [] \<and> starts_with w (c # cs) then delete_all w (drop (length w) (c # cs)) else c # delete_all w cs)"
  by pat_completeness auto
termination by (relation "measure (length \<circ> snd)") auto

definition strip_chars :: "char set \<Rightarrow> string \<Rightarrow> string" where
  "strip_chars cs s = rev (dropWhile (\<lambda>c. c \<in> cs) (rev (dropWhile (\<lambda>c. c \<in> cs) s)))"

text \<open>
  \<open>int(s, 16)\<close> succeeds: white space around, a sign, \<open>0x\<close>, then digits with single underscores
  between them (one may follow the prefix).
\<close>

fun hex_run :: "bool \<Rightarrow> string \<Rightarrow> bool" where
  "hex_run sep [] = (\<not> sep)"
| "hex_run sep (c # cs) =
     (if is_hex c then hex_run False cs else if c = CHR ''_'' \<and> \<not> sep then hex_run True cs else False)"

definition is_hex_int :: "string \<Rightarrow> bool" where
  "is_hex_int s =
     (let t = strip_text s;
          u = (case t of c # r \<Rightarrow> if c \<in> {CHR ''+'', CHR ''-''} then r else t | [] \<Rightarrow> t)
      in case u of
           a # b # r \<Rightarrow>
             if a = CHR ''0'' \<and> b \<in> {CHR ''x'', CHR ''X''} then
               (case r of c # r' \<Rightarrow> if c = CHR ''_'' then hex_run True r' else hex_run True r | [] \<Rightarrow> False)
             else hex_run True u
         | _ \<Rightarrow> hex_run True u)"

text \<open>\<open>uuid.UUID(s)\<close> succeeds.\<close>

definition is_uuid :: "string \<Rightarrow> bool" where
  "is_uuid s =
     (let h = delete_all ''-'' (strip_chars {CHR ''{'', CHR ''}''} (delete_all ''uuid:'' (delete_all ''urn:'' s)))
      in length h = 32 \<and> is_hex_int h)"

definition parse_response_id :: "string \<Rightarrow> (string \<times> nat) option" where
  "parse_response_id rid =
     (case split_three rid of
        None \<Rightarrow> None
      | Some (p, sid, t) \<Rightarrow>
          if p \<noteq> ''resp'' then None
          else
            case py_int t of
              None \<Rightarrow> None
            | Some n \<Rightarrow> if n \<le> 0 \<or> \<not> is_uuid sid then None else Some (sid, nat n))"

section \<open>Response objects\<close>

datatype out_item =
    Out_message string string string
  | Out_reasoning string string string
  | Out_call string string string string json

record response_object =
  ro_id :: string
  ro_created :: int
  ro_status :: string
  ro_model :: string
  ro_output :: "out_item list"
  ro_usage :: response_usage
  ro_metadata :: json
  ro_error :: "(string \<times> string) option"
  ro_incomplete :: "string option"
  ro_structured :: json
  ro_background :: "bool option"

definition zero_usage :: response_usage where
  "zero_usage = make_usage (0, 0) \<lparr>id_cached = 0, id_creation = 0, id_context = None\<rparr>"

definition new_response :: "string \<Rightarrow> int \<Rightarrow> string \<Rightarrow> string \<Rightarrow> json \<Rightarrow> response_object" where
  "new_response rid created st model metadata =
     \<lparr>ro_id = rid, ro_created = created, ro_status = st, ro_model = model, ro_output = [], ro_usage = zero_usage,
      ro_metadata = metadata, ro_error = None, ro_incomplete = None, ro_structured = J_null, ro_background = None\<rparr>"

definition opt_json :: "('a \<Rightarrow> json) \<Rightarrow> 'a option \<Rightarrow> json" where
  "opt_json f x = (case x of None \<Rightarrow> J_null | Some v \<Rightarrow> f v)"

definition text_part :: "string \<Rightarrow> string \<Rightarrow> json" where
  "text_part type t = J_obj [(''type'', J_str type), (''text'', J_str t)]"

fun dump_item :: "out_item \<Rightarrow> json" where
  "dump_item (Out_message i st t) =
     J_obj [(''id'', J_str i), (''type'', J_str ''message''), (''role'', J_str ''assistant''), (''status'', J_str st),
       (''content'', J_list [J_obj [(''type'', J_str ''output_text''), (''text'', J_str t), (''annotations'', J_list [])]])]"
| "dump_item (Out_reasoning i st t) =
     J_obj [(''id'', J_str i), (''type'', J_str ''reasoning''), (''status'', J_str st),
       (''summary'', J_list [text_part ''summary_text'' t]), (''content'', J_list [text_part ''reasoning_text'' t])]"
| "dump_item (Out_call cid name args i approval) =
     J_obj ([(''id'', J_str i), (''type'', J_str ''function_call''), (''call_id'', J_str cid), (''name'', J_str name),
       (''arguments'', J_str args), (''status'', J_str ''completed'')] @
       (if approval = J_null then [] else [(''approval'', approval)]))"

definition dump_usage :: "response_usage \<Rightarrow> json" where
  "dump_usage u =
     J_obj [(''input_tokens'', J_int (ru_input u)), (''output_tokens'', J_int (ru_output u)), (''total_tokens'', J_int (ru_total u)),
       (''input_tokens_details'',
          J_obj [(''cached_tokens'', J_int (id_cached (ru_details u))),
            (''cache_creation_tokens'', J_int (id_creation (ru_details u))),
            (''context_tokens'', opt_json J_int (id_context (ru_details u)))])]"

text \<open>\<open>model_dump()\<close>.\<close>

definition dump_response :: "response_object \<Rightarrow> json" where
  "dump_response r =
     J_obj [(''id'', J_str (ro_id r)), (''object'', J_str ''response''), (''created_at'', J_int (ro_created r)),
       (''status'', J_str (ro_status r)), (''model'', J_str (ro_model r)), (''output'', J_list (map dump_item (ro_output r))),
       (''usage'', dump_usage (ro_usage r)), (''metadata'', ro_metadata r),
       (''error'', opt_json (\<lambda>(c, m). J_obj [(''code'', J_str c), (''message'', J_str m)]) (ro_error r)),
       (''incomplete_details'', opt_json (\<lambda>w. J_obj [(''reason'', J_str w)]) (ro_incomplete r)),
       (''structured_output'', ro_structured r), (''background'', opt_json J_bool (ro_background r))]"

section \<open>Builders\<close>

text \<open>\<open>json.dumps(v)\<close>: what is not printable ASCII is escaped.\<close>

definition ascii_char :: "char \<Rightarrow> string" where
  "ascii_char c =
     (if 127 \<le> code c then backslash # ''u00'' @ [hex_digit (code c div 16), hex_digit (code c mod 16)] else [c])"

definition dumps_ascii :: "json \<Rightarrow> string" where
  "dumps_ascii v = concat (map ascii_char (dumps v))"

text \<open>The pending call as the route reads it: its id and name, and what it prints of the rest.\<close>

definition call_fields :: "json \<Rightarrow> (string \<times> string \<times> string \<times> json) option" where
  "call_fields tc =
     (case (jget tc ''call_id'', jget tc ''name'') of
        (Some (J_str cid), Some (J_str name)) \<Rightarrow>
          Some (cid, name, dumps_ascii (jget_or (J_obj []) tc ''arguments''), jfield tc ''approval'')
      | _ \<Rightarrow> None)"

definition build_requires_action_response :: "string \<Rightarrow> int \<Rightarrow> string \<Rightarrow> json \<Rightarrow> json \<Rightarrow> response_object option" where
  "build_requires_action_response rid created model tc metadata =
     map_option
       (\<lambda>(cid, name, args, approval).
          (new_response rid created ''requires_action'' model (jor metadata (J_obj [])))
            \<lparr>ro_output := [Out_call cid name args (''fc_'' @ cid) approval]\<rparr>)
       (call_fields tc)"

definition build_failed_response :: "string \<Rightarrow> int \<Rightarrow> string \<Rightarrow> json \<Rightarrow> string \<Rightarrow> string \<Rightarrow> response_object" where
  "build_failed_response rid created model metadata c msg =
     (new_response rid created ''failed'' model (jor metadata (J_obj [])))\<lparr>ro_error := Some (c, msg)\<rparr>"

text \<open>The reasoning items: one per thinking text that is not blank; ids are drawn in order.\<close>

fun reasoning_items :: "(nat \<Rightarrow> string) \<Rightarrow> nat \<Rightarrow> string list \<Rightarrow> nat \<times> out_item list" where
  "reasoning_items uuid k [] = (k, [])"
| "reasoning_items uuid k (t # ts) =
     (if strip_text t = [] then reasoning_items uuid k ts
      else let (k', is) = reasoning_items uuid (Suc k) ts in (k', Out_reasoning (''rs_'' @ uuid k) ''completed'' t # is))"

definition build_completed_response ::
  "(nat \<Rightarrow> string) \<Rightarrow> string \<Rightarrow> int \<Rightarrow> string \<Rightarrow> string \<Rightarrow> json \<Rightarrow> response_usage \<Rightarrow> string list \<Rightarrow> json \<Rightarrow> response_object" where
  "build_completed_response uuid rid created model t metadata u thoughts structured =
     (let (k, is) = reasoning_items uuid 0 thoughts
      in (new_response rid created ''completed'' model (jor metadata (J_obj [])))
           \<lparr>ro_output := is @ [Out_message (''msg_'' @ uuid k) ''completed'' t], ro_usage := u, ro_structured := structured\<rparr>)"

text \<open>The object a turn's own stream ends with, as a dump of it reads.\<close>

fun status_text :: "rstatus \<Rightarrow> string" where
  "status_text In_progress = ''in_progress''"
| "status_text Completed = ''completed''"
| "status_text Incomplete = ''incomplete''"
| "status_text TurnStream.Failed = ''failed''"

fun out_item_of :: "item \<Rightarrow> out_item" where
  "out_item_of (Message_item i st t) = Out_message i (status_text st) t"
| "out_item_of (Reasoning_item i st t) = Out_reasoning i (status_text st) t"

definition response_of_turn :: "int \<Rightarrow> turn_response \<Rightarrow> response_object" where
  "response_of_turn created r =
     (new_response (re_id r) created (status_text (re_status r)) (re_model r) (re_metadata r))
       \<lparr>ro_output := map out_item_of (re_output r), ro_usage := (case re_usage r of None \<Rightarrow> zero_usage | Some u \<Rightarrow> u),
        ro_error := re_error r, ro_incomplete := re_incomplete r, ro_structured := re_structured r\<rparr>"

section \<open>Messages\<close>

text \<open>\<open>Message\<close>: list content is reduced to its texts; anything but text there is refused.\<close>

definition message_text :: "json \<Rightarrow> string option" where
  "message_text v =
     (case v of
        J_str t \<Rightarrow> Some t
      | J_list ps \<Rightarrow>
          map_option (join_with [nl])
            (those (map (\<lambda>p. str_of (jget_or (J_str []) p ''text'')) (filter (\<lambda>p. jfield p ''type'' = J_str ''text'') ps)))
      | _ \<Rightarrow> None)"

definition message :: "string \<Rightarrow> string \<Rightarrow> string list \<Rightarrow> json" where
  "message role t thoughts =
     J_obj [(''role'', J_str role), (''content'', J_str t), (''name'', J_null), (''thinking'', J_list (map J_str thoughts))]"

definition build_session_assistant_message :: "string \<Rightarrow> string list \<Rightarrow> json option" where
  "build_session_assistant_message visible thoughts =
     (let kept = filter (\<lambda>t. t \<noteq> []) thoughts
      in if visible = [] \<and> kept = [] then None else Some (message ''assistant'' visible kept))"

text \<open>\<open>_split_assistant_text_and_thinking\<close>; no value when a thinking text is no string.\<close>

definition split_assistant_text_and_thinking ::
  "(ChunkText.block \<Rightarrow> string) \<Rightarrow> chunk list \<Rightarrow> string \<Rightarrow> (string \<times> string list) option" where
  "split_assistant_text_and_thinking show cs fallback =
     (case (those (map str_of (extract_thinking_texts cs)), extract_visible_assistant_text show cs) of
        (Some thoughts, Some visible) \<Rightarrow>
          Some (case visible of Some t \<Rightarrow> t | None \<Rightarrow> if thoughts \<noteq> [] then [] else fallback, thoughts)
      | _ \<Rightarrow> None)"

section \<open>A session and its turn\<close>

datatype turn_state = Turn_running | Turn_cancelling | Turn_over outcome

text \<open>
  The session object with the fields only the route uses.  \<open>cv_cached\<close>: the cache still holds this
  object under its id.  \<open>cv_stopped\<close> lists the clients told to disconnect.
\<close>

record conv =
  cv_session :: session
  cv_outbox :: "outbox option"
  cv_cached :: bool
  cv_input :: "string option"
  cv_turn :: "nat option"
  cv_state :: "turn_state option"
  cv_client :: "nat option"
  cv_done :: bool
  cv_stopped :: "nat list"

definition on_session :: "(session \<Rightarrow> session) \<Rightarrow> conv \<Rightarrow> conv" where
  "on_session f c = c\<lparr>cv_session := f (cv_session c)\<rparr>"

definition unlock :: "conv \<Rightarrow> conv" where
  "unlock = on_session unlock_session"

text \<open>\<open>readable\<close>: whether the backend's clients can be read between turns.\<close>

definition resume_reader :: "bool \<Rightarrow> conv \<Rightarrow> conv" where
  "resume_reader readable c =
     (let s = cv_session c;
          (_, g) = resume_idle_reader
            \<lparr>rg_client = (s_client s \<noteq> None \<and> readable), rg_active = (s_active s \<noteq> None), rg_pending = (s_pending s \<noteq> None),
             rg_locked = s_locked s, rg_running = s_reader s, rg_loop = True\<rparr>
      in on_session (\<lambda>s. s\<lparr>s_reader := rg_running g\<rparr>) c)"

definition pause_reader :: "conv \<Rightarrow> conv" where
  "pause_reader = on_session (\<lambda>s. s\<lparr>s_reader := False\<rparr>)"

definition clear_stale_pending_tool_call :: "conv \<Rightarrow> conv" where
  "clear_stale_pending_tool_call c =
     (if s_pending (cv_session c) = None \<and> \<not> s_input_event (cv_session c) then c
      else on_session (\<lambda>s. s\<lparr>s_pending := None, s_input_event := False\<rparr>) c\<lparr>cv_input := None\<rparr>)"

definition reset_tasks :: "conv \<Rightarrow> conv" where
  "reset_tasks c = c\<lparr>cv_outbox := reset_active_tasks (cv_outbox c)\<rparr>"

definition disconnect_session_client :: "nat option \<Rightarrow> conv \<Rightarrow> conv" where
  "disconnect_session_client given c =
     (let c = clear_stale_pending_tool_call (pause_reader c);
          client = (if given = None then s_client (cv_session c) else given)
      in case client of
           None \<Rightarrow> reset_tasks c
         | Some k \<Rightarrow>
             (let c = (if s_client (cv_session c) = Some k then on_session (\<lambda>s. s\<lparr>s_client := None\<rparr>) c else c);
                  c = (if s_client (cv_session c) = None then reset_tasks c else c)
              in c\<lparr>cv_stopped := cv_stopped c @ [k]\<rparr>))"

text \<open>\<open>_begin_active_response\<close>; an exception when a response is active already.\<close>

definition begin_active_response :: "string \<Rightarrow> nat \<Rightarrow> nat option \<Rightarrow> instant \<Rightarrow> conv \<Rightarrow> conv option" where
  "begin_active_response rid turn client tick c =
     (if s_active (cv_session c) \<noteq> None then None
      else
        Some
          (on_session (\<lambda>s. s\<lparr>s_active := Some rid, s_started := Some tick, s_progress := Some tick\<rparr>) c
             \<lparr>cv_turn := Some turn, cv_state := Some Turn_running, cv_client := client, cv_done := False\<rparr>))"

definition clear_active :: "outcome \<Rightarrow> conv \<Rightarrow> conv" where
  "clear_active oc c =
     on_session (\<lambda>s. s\<lparr>s_active := None, s_started := None, s_progress := None\<rparr>) c
       \<lparr>cv_state := Some (Turn_over oc), cv_turn := None, cv_client := None, cv_done := True\<rparr>"

definition finish_active_response :: "bool \<Rightarrow> string \<Rightarrow> outcome \<Rightarrow> instant \<Rightarrow> conv \<Rightarrow> conv" where
  "finish_active_response readable rid oc now c =
     (if s_active (cv_session c) \<noteq> Some rid then c
      else resume_reader readable (on_session (touch now) (clear_active oc c)))"

text \<open>\<open>session_manager.add_assistant_response\<close> finds the session by its id, if it still is there.\<close>

definition add_assistant_response :: "instant \<Rightarrow> json \<Rightarrow> conv \<Rightarrow> conv" where
  "add_assistant_response now m c = (if cv_cached c then on_session (add_messages now [m] \<circ> touch now) c else c)"

definition record_response :: "bool option \<Rightarrow> nat \<Rightarrow> response_object \<Rightarrow> conv \<Rightarrow> conv" where
  "record_response store turn r c =
     (if store = Some False then c else on_session (record_turn_response turn (dump_response r)) c)"

end
