(* ===== verification/ResponsePause.thy ===== *)
theory ResponsePause
  imports ResponseObjects
begin

text \<open>
  A turn that stops for the user, \<open>src/src/routes/responses.py\<close>: the pending tool call a backend's
  chunks leave on the session, the wrapper every turn reads its chunks through, and the checks a
  \<open>function_call_output\<close> passes before its turn goes on.
\<close>

section \<open>Pending calls of the opencode backend\<close>

definition nonempty_str :: "json \<Rightarrow> bool" where
  "nonempty_str v \<longleftrightarrow> (case v of J_str t \<Rightarrow> t \<noteq> [] | _ \<Rightarrow> False)"

definition normalize_opencode_question_arguments :: "json \<Rightarrow> json option" where
  "normalize_opencode_question_arguments v =
     (if nonempty_str (jfield v ''question'') then Some v
      else
        case jfield v ''questions'' of
          J_list qs \<Rightarrow> if list_ex (\<lambda>q. nonempty_str (jfield q ''question'')) qs then Some v else None
        | _ \<Rightarrow> None)"

definition str_items :: "json \<Rightarrow> string list" where
  "str_items v = (case v of J_list vs \<Rightarrow> List.map_filter str_of vs | _ \<Rightarrow> [])"

definition permission_choice :: "string \<Rightarrow> string \<Rightarrow> json" where
  "permission_choice label text = J_obj [(''label'', J_str label), (''description'', J_str text)]"

definition normalize_opencode_permission_arguments :: "json \<Rightarrow> json option" where
  "normalize_opencode_permission_arguments v =
     (case jfield v ''permission'' of
        J_str p \<Rightarrow>
          if p = [] then None
          else
            let patterns = str_items (jfield v ''patterns'');
                always = str_items (jfield v ''always'');
                metadata = (if is_obj (jfield v ''metadata'') then jfield v ''metadata'' else J_obj []);
                target = (if patterns \<noteq> [] then join_with '', '' patterns else ''(no patterns specified)'');
                context = (if always \<noteq> [] then ''; already allowed: '' @ join_with '', '' always else [])
            in Some
                 (J_obj
                    [(''question'', J_str (''OpenCode requests permission '' @ [CHR 0x27] @ p @ [CHR 0x27] @ '' for: '' @ target @ context)),
                     (''options'',
                        J_list
                          [permission_choice ''once'' ''Allow this request once.'',
                           permission_choice ''always'' ''Always allow matching requests.'',
                           permission_choice ''reject'' ''Reject this request.'']),
                     (''permission'', J_str p), (''patterns'', J_list (map J_str patterns)),
                     (''always'', J_list (map J_str always)), (''metadata'', metadata)])
      | _ \<Rightarrow> None)"

text \<open>The dictionaries among a chunk's blocks; none when its content is no list.\<close>

fun dict_of_block :: "ChunkText.block \<Rightarrow> json option" where
  "dict_of_block (Plain (J_obj d)) = Some (J_obj d)"
| "dict_of_block b = None"

definition dict_blocks :: "chunk \<Rightarrow> json list" where
  "dict_blocks c = List.map_filter dict_of_block (blocks_or_none (chunk_content c))"

definition obj_field :: "json \<Rightarrow> string \<Rightarrow> json" where
  "obj_field v k = (if is_obj (jfield v k) then jfield v k else J_obj [])"

definition ask_user_question :: string where
  "ask_user_question = ''AskUserQuestion''"

definition opencode_pending :: "string \<Rightarrow> json \<Rightarrow> string \<Rightarrow> json" where
  "opencode_pending rid arguments kind =
     J_obj [(''call_id'', J_str rid), (''name'', J_str ask_user_question), (''arguments'', arguments),
       (''backend'', J_str ''opencode''), (''opencode_resume'', J_str kind)]"

definition opencode_call :: "json \<Rightarrow> json option" where
  "opencode_call b =
     (let meta = obj_field b ''metadata''; input = obj_field b ''input'';
          resumable = (\<lambda>key arguments kind.
            case (jfield meta key, arguments) of
              (J_str rid, Some a) \<Rightarrow> if rid = [] then None else Some (opencode_pending rid a kind)
            | _ \<Rightarrow> None)
      in if jfield b ''type'' \<noteq> J_str ''tool_use'' then None
         else if jfield b ''name'' = J_str ''question'' then
           resumable ''opencode_question_request_id'' (normalize_opencode_question_arguments input) ''question''
         else if jfield b ''name'' = J_str ''permission'' then
           resumable ''opencode_permission_request_id'' (normalize_opencode_permission_arguments input) ''permission''
         else None)"

text \<open>The first resumable call of the chunk.\<close>

definition store_opencode_pending_tool_call :: "string \<Rightarrow> chunk \<Rightarrow> json option" where
  "store_opencode_pending_tool_call backend c =
     (if backend \<noteq> ''opencode'' then None
      else case List.map_filter opencode_call (dict_blocks c) of [] \<Rightarrow> None | tc # _ \<Rightarrow> Some tc)"

section \<open>Approvals of the codex backend\<close>

definition id_text :: "(ChunkText.block \<Rightarrow> string) \<Rightarrow> json \<Rightarrow> string" where
  "id_text show v = (case jor v (J_str []) of J_str t \<Rightarrow> t | w \<Rightarrow> show (Plain w))"

definition is_codex_pending_approval_chunk :: "(ChunkText.block \<Rightarrow> string) \<Rightarrow> string \<Rightarrow> json option \<Rightarrow> chunk \<Rightarrow> bool" where
  "is_codex_pending_approval_chunk show backend pending c \<longleftrightarrow>
     backend = ''codex'' \<and>
     (case pending of
        None \<Rightarrow> False
      | Some tc \<Rightarrow>
          jfield tc ''codex_resume'' = J_str ''approval'' \<and>
          list_ex
            (\<lambda>b. jfield b ''type'' = J_str ''tool_use'' \<and> jfield b ''name'' = J_str ''codex_approval'' \<and>
               id_text show (jor (jfield (obj_field b ''metadata'') ''codex_approval_request_id'') (jfield b ''id'')) =
               id_text show (jfield tc ''call_id''))
            (dict_blocks c))"

section \<open>Reading a turn's chunks\<close>

text \<open>
  What happens while a turn runs: something for the reader (a chunk, an idle tick, a stall, the
  source's exception), or a hook of the backend sets or clears the pending call.
\<close>

datatype back_event = Input turn_input | Parks json | Unparks

datatype captured = Pass | Skip | Close

record turn_view =
  tv_backend :: string
  tv_show :: "ChunkText.block \<Rightarrow> string"
  tv_task :: "chunk \<Rightarrow> SessionOutbox.chunk"

definition note_task :: "instant \<Rightarrow> SessionOutbox.chunk \<Rightarrow> conv \<Rightarrow> conv" where
  "note_task now k c =
     (if k = Plain_chunk then c else c\<lparr>cv_outbox := Some (apply_turn_task_chunk now k (get_outbox (cv_outbox c)))\<rparr>)"

definition asks_user :: "chunk \<Rightarrow> bool" where
  "asks_user k \<longleftrightarrow>
     list_ex (\<lambda>b. jfield b ''type'' = J_str ''tool_use'' \<and> jfield b ''name'' \<in> {J_str ''question'', J_str ''permission''})
       (dict_blocks k)"

definition capture_chunk :: "turn_view \<Rightarrow> instant \<Rightarrow> chunk \<Rightarrow> conv \<Rightarrow> captured \<times> conv" where
  "capture_chunk v now k c =
     (let c = note_task now (tv_task v k) (on_session (\<lambda>s. s\<lparr>s_progress := Some now\<rparr>) c)
      in if is_codex_pending_approval_chunk (tv_show v) (tv_backend v) (s_pending (cv_session c)) k then (Close, c)
         else if tv_backend v = ''opencode'' \<and> asks_user k then
           (case store_opencode_pending_tool_call (tv_backend v) k of
              Some tc \<Rightarrow> (Close, on_session (\<lambda>s. s\<lparr>s_pending := Some tc\<rparr>) c)
            | None \<Rightarrow> (Skip, c))
         else (Pass, c))"

fun hook_step :: "back_event \<Rightarrow> conv \<Rightarrow> conv" where
  "hook_step (Parks tc) c = on_session (\<lambda>s. s\<lparr>s_pending := Some tc, s_input_event := True\<rparr>) c"
| "hook_step Unparks c = on_session (\<lambda>s. s\<lparr>s_pending := None, s_input_event := False\<rparr>) c\<lparr>cv_input := None\<rparr>"
| "hook_step (Input x) c = c"

text \<open>
  One input through the wrapper: whether reading goes on, what the reader gets, the session.  A
  stall and an exception of the source end the reading.
\<close>

definition capture :: "turn_view \<Rightarrow> turn_input \<Rightarrow> conv \<Rightarrow> captured \<times> conv" where
  "capture v x c = (case x of Item now k \<Rightarrow> capture_chunk v now k c | _ \<Rightarrow> (Pass, c))"

section \<open>Continuations\<close>

datatype refusal = Refused nat string | Crashed

definition reject_while_human_decision_pending :: "conv \<Rightarrow> bool" where
  "reject_while_human_decision_pending c \<longleftrightarrow> s_pending (cv_session c) \<noteq> None"

text \<open>What a backend offers, as attributes of its object.\<close>

record backend_api =
  ba_run :: bool
  ba_question :: bool
  ba_permission :: bool
  ba_approval :: bool
  ba_interrupt :: bool

text \<open>The two checks every kind of continuation starts with: a pending call, and its id.\<close>

definition check_pending :: "string \<Rightarrow> conv \<Rightarrow> refusal + json" where
  "check_pending cid c =
     (case s_pending (cv_session c) of
        None \<Rightarrow> Inl (Refused 400 ''no pending tool call'')
      | Some tc \<Rightarrow>
          (case jget tc ''call_id'' of
             None \<Rightarrow> Inl Crashed
           | Some v \<Rightarrow> if v \<noteq> J_str cid then Inl (Refused 400 ''call_id mismatch'') else Inr tc))"

definition take_pending :: "conv \<Rightarrow> conv" where
  "take_pending = on_session (\<lambda>s. s\<lparr>s_pending := None\<rparr>)"

definition lock_conv :: "conv \<Rightarrow> conv" where
  "lock_conv = on_session (\<lambda>s. s\<lparr>s_locked := True\<rparr>)"

text \<open>
  The lock is held when a continuation is let through, and free again when it is refused.  The
  Claude one keeps the call pending: its hook is woken by \<open>commit_pending_tool_call_locked\<close>.
\<close>

definition unblock_pending_tool_call :: "backend_api \<Rightarrow> string \<Rightarrow> string \<Rightarrow> conv \<Rightarrow> (refusal + unit) \<times> conv" where
  "unblock_pending_tool_call ba cid answer c =
     (let c = lock_conv c
      in case check_pending cid c of
           Inl e \<Rightarrow> (Inl e, unlock c)
         | Inr tc \<Rightarrow>
             if \<not> ba_run ba then (Inl (Refused 400 ''no persistent clients''), unlock c)
             else if s_client (cv_session c) = None then (Inl (Refused 400 ''no active SDK client''), unlock c)
             else if \<not> s_input_event (cv_session c) then (Inl (Refused 400 ''no pending input event''), unlock c)
             else (Inr (), c\<lparr>cv_input := Some answer\<rparr>))"

definition commit_pending_tool_call_locked :: "conv \<Rightarrow> conv" where
  "commit_pending_tool_call_locked = take_pending"

definition prepare_opencode_tool_continuation :: "backend_api \<Rightarrow> string \<Rightarrow> conv \<Rightarrow> (refusal + string) \<times> conv" where
  "prepare_opencode_tool_continuation ba cid c =
     (let c = lock_conv c
      in case check_pending cid c of
           Inl e \<Rightarrow> (Inl e, unlock c)
         | Inr tc \<Rightarrow>
             let kind = (if jfield tc ''opencode_resume'' = J_null then J_str ''question'' else jfield tc ''opencode_resume'')
             in if kind \<notin> {J_str ''question'', J_str ''permission''} then (Inl (Refused 400 ''unsupported resume kind''), unlock c)
                else
                  let permission = (kind = J_str ''permission'')
                  in if \<not> (if permission then ba_permission ba else ba_question ba)
                     then (Inl (Refused 400 ''continuation not supported''), unlock c)
                     else if s_client (cv_session c) = None then (Inl (Refused 400 ''no active SDK client''), unlock c)
                     else (Inr (if permission then ''permission'' else ''question''), take_pending c))"

definition prepare_codex_approval_continuation :: "backend_api \<Rightarrow> string \<Rightarrow> conv \<Rightarrow> (refusal + unit) \<times> conv" where
  "prepare_codex_approval_continuation ba cid c =
     (let c = lock_conv c
      in case check_pending cid c of
           Inl e \<Rightarrow> (Inl e, unlock c)
         | Inr tc \<Rightarrow>
             if jfield tc ''codex_resume'' \<noteq> J_str ''approval'' then (Inl (Refused 400 ''unsupported continuation type''), unlock c)
             else if \<not> ba_approval ba then (Inl (Refused 400 ''continuation not supported''), unlock c)
             else if s_client (cv_session c) = None then (Inl (Refused 400 ''no active SDK client''), unlock c)
             else (Inr (), take_pending c))"

text \<open>
  What \<open>_handle_function_call_output\<close> does before the turn: \<open>accepted\<close> tells whether the request's
  output format, reasoning effort and policy suit the session's client.  A refusal here comes after
  the opencode and codex preparations have taken the call.
\<close>

definition continue_turn :: "backend_api \<Rightarrow> string \<Rightarrow> string \<Rightarrow> string \<Rightarrow> (refusal + unit) \<Rightarrow> conv \<Rightarrow> (refusal + unit) \<times> conv" where
  "continue_turn ba backend cid answer accepted c =
     (let (r, c) =
        (if backend = ''opencode'' then
           (case prepare_opencode_tool_continuation ba cid c of (r, c) \<Rightarrow> (map_sum id (\<lambda>_. ()) r, c))
         else if backend = ''codex'' then prepare_codex_approval_continuation ba cid c
         else unblock_pending_tool_call ba cid answer c)
      in case r of
           Inl e \<Rightarrow> (Inl e, c)
         | Inr _ \<Rightarrow>
             (case (if s_client (cv_session c) = None then Inr () else accepted) of
                Inl e \<Rightarrow> (Inl e, unlock c)
              | Inr _ \<Rightarrow>
                  (Inr (), if backend \<in> {''opencode'', ''codex''} then c else commit_pending_tool_call_locked c)))"

section \<open>Laws\<close>

lemma session_fields [simp]:
  "cv_session (on_session f c) = f (cv_session c)"
  "cv_outbox (on_session f c) = cv_outbox c" "cv_cached (on_session f c) = cv_cached c"
  "cv_input (on_session f c) = cv_input c" "cv_turn (on_session f c) = cv_turn c"
  "cv_state (on_session f c) = cv_state c" "cv_client (on_session f c) = cv_client c"
  "cv_done (on_session f c) = cv_done c" "cv_stopped (on_session f c) = cv_stopped c"
  by (simp_all add: on_session_def)

lemma on_session_same: "f (cv_session c) = cv_session c \<Longrightarrow> on_session f c = c"
  by (simp add: on_session_def)

lemma lock_unlock: "\<not> s_locked (cv_session c) \<Longrightarrow> unlock (lock_conv c) = c"
  by (simp add: on_session_def unlock_def lock_conv_def unlock_session_def)

lemma check_pending_lock [simp]: "check_pending cid (lock_conv c) = check_pending cid c"
  by (simp add: check_pending_def lock_conv_def)

lemma check_pending_Inr:
  "check_pending cid c = Inr tc \<longleftrightarrow> s_pending (cv_session c) = Some tc \<and> jget tc ''call_id'' = Some (J_str cid)"
  by (auto simp: check_pending_def split: option.splits if_splits)

lemma capture_hook [simp]: "s_locked (cv_session (hook_step e c)) = s_locked (cv_session c)"
  by (cases e) simp_all

end
