(* ===== verification/ResponseTurn.thy ===== *)
theory ResponseTurn
  imports ResponsePause
begin

text \<open>
  The turns of the Responses route, \<open>src/src/routes/responses.py\<close>, from the moment the session's
  lock is held and the response is active: streamed turns, turns collected before they are
  answered, and background turns, fresh ones and continuations.  A turn maps what the backend does
  to the frames or the answer the client gets and to the session it leaves.
\<close>

section \<open>A turn's surroundings\<close>

text \<open>
  \<open>rt_parse\<close> and \<open>rt_estimate\<close> are the backend's \<open>parse_message\<close> and \<open>estimate_token_usage\<close>;
  \<open>rt_uuid\<close> gives the ids of a rebuilt object.  The clocks stand still within a turn's commit.
\<close>

record route_cfg =
  rt_turn :: turn_cfg
  rt_view :: turn_view
  rt_store :: "bool option"
  rt_next :: nat
  rt_prompt :: json
  rt_fresh :: bool
  rt_created :: int
  rt_now :: instant
  rt_readable :: bool
  rt_parse :: "chunk list \<Rightarrow> string option"
  rt_estimate :: "json \<Rightarrow> string \<Rightarrow> int \<times> int"
  rt_uuid :: "nat \<Rightarrow> string"

abbreviation rid :: "route_cfg \<Rightarrow> string" where
  "rid rc \<equiv> tc_response_id (rt_turn rc)"

abbreviation turn_model :: "route_cfg \<Rightarrow> string" where
  "turn_model rc \<equiv> tc_model (rt_turn rc)"

abbreviation turn_metadata :: "route_cfg \<Rightarrow> json" where
  "turn_metadata rc \<equiv> tc_metadata (rt_turn rc)"

section \<open>Commits\<close>

definition set_turn :: "nat \<Rightarrow> conv \<Rightarrow> conv" where
  "set_turn n = on_session (\<lambda>s. s\<lparr>s_turns := n\<rparr>)"

text \<open>
  The turn counter, and for a fresh turn the user's message; the flag is false when building the
  message raised.
\<close>

definition commit_user :: "route_cfg \<Rightarrow> conv \<Rightarrow> bool \<times> conv" where
  "commit_user rc c =
     (let c = set_turn (rt_next rc) c
      in if \<not> rt_fresh rc then (True, c)
         else case message_text (rt_prompt rc) of
                None \<Rightarrow> (False, c)
              | Some t \<Rightarrow> (True, on_session (add_messages (rt_now rc) [message ''user'' t []]) c))"

definition commit_answer :: "route_cfg \<Rightarrow> json \<Rightarrow> conv \<Rightarrow> bool \<times> conv" where
  "commit_answer rc m c =
     (case commit_user rc c of
        (False, c) \<Rightarrow> (False, c)
      | (True, c) \<Rightarrow> (True, add_assistant_response (rt_now rc) m c))"

definition store_response :: "route_cfg \<Rightarrow> response_object \<Rightarrow> conv \<Rightarrow> conv" where
  "store_response rc r = record_response (rt_store rc) (rt_next rc) r"

definition usage_of :: "route_cfg \<Rightarrow> chunk list \<Rightarrow> string \<Rightarrow> response_usage option" where
  "usage_of rc cs t =
     (let prompt = (if rt_fresh rc then rt_prompt rc else J_str []); trunc = tc_trunc (rt_turn rc)
      in case (resolve_token_usage trunc (Some (\<lambda>_. rt_estimate rc prompt)) cs [] t, resolve_usage_details trunc cs) of
           (Some u, Some d) \<Rightarrow> Some (make_usage u d)
         | _ \<Rightarrow> None)"

definition completed_object :: "route_cfg \<Rightarrow> chunk list \<Rightarrow> string \<Rightarrow> string list \<Rightarrow> response_usage \<Rightarrow> response_object" where
  "completed_object rc cs t thoughts u =
     build_completed_response (rt_uuid rc) (rid rc) (rt_created rc) (turn_model rc) t (turn_metadata rc) u thoughts
       (extract_structured_output cs)"

definition pause_object :: "route_cfg \<Rightarrow> json \<Rightarrow> response_object option" where
  "pause_object rc tc = build_requires_action_response (rid rc) (rt_created rc) (turn_model rc) tc (turn_metadata rc)"

definition failed_object :: "route_cfg \<Rightarrow> string \<Rightarrow> string \<Rightarrow> response_object" where
  "failed_object rc err msg = build_failed_response (rid rc) (rt_created rc) (turn_model rc) (turn_metadata rc) err msg"

section \<open>Streamed turns\<close>

text \<open>What the client is sent: the turn's own events, and the frames of the route after them.\<close>

datatype frame =
    Turn_frame turn_event
  | Call_frame nat string string string json
  | End_frame nat string response_object

definition advance :: "turn_cfg \<Rightarrow> turn_input \<Rightarrow> turn \<Rightarrow> turn option" where
  "advance cf x s =
     (case x of
        Item now k \<Rightarrow> (case handle_chunk cf now k s of (s', _, Go) \<Rightarrow> Some s' | _ \<Rightarrow> None)
      | Idle now \<Rightarrow> Some (fst (sides (tool_heartbeat_events (tc_flags cf) now (tn_tools s)) s))
      | _ \<Rightarrow> None)"

text \<open>
  The inputs the turn gets and the session after them: reading stops with the input that ends the
  turn; hooks that fire while the source is closed still act on the session.
\<close>

fun read_source :: "route_cfg \<Rightarrow> back_event list \<Rightarrow> conv \<Rightarrow> turn \<Rightarrow> turn_input list \<times> conv" where
  "read_source rc [] c s = ([], c)"
| "read_source rc (e # es) c s =
     (case e of
        Input x \<Rightarrow>
          (case capture (rt_view rc) x c of
             (Close, c) \<Rightarrow> ([], fold hook_step es c)
           | (Skip, c) \<Rightarrow> read_source rc es c s
           | (Pass, c) \<Rightarrow>
               (case advance (rt_turn rc) x s of
                  None \<Rightarrow> ([x], fold hook_step es c)
                | Some s \<Rightarrow> (let (xs, c) = read_source rc es c s in (x # xs, c))))
      | _ \<Rightarrow> read_source rc es (hook_step e c) s)"

text \<open>Only a fresh turn hands its session to the stream, which looks there whether it is paused.\<close>

definition streamed :: "route_cfg \<Rightarrow> back_event list \<Rightarrow> conv \<Rightarrow> conv \<times> turn \<times> turn_event list \<times> outcome" where
  "streamed rc es c =
     (let cf = rt_turn rc;
          (xs, c) = read_source rc es c (fst (preamble cf (new_turn cf)))
      in (c, stream_response_chunks cf (rt_fresh rc \<and> s_pending (cv_session c) \<noteq> None) xs))"

definition user_cancelled :: "outcome \<Rightarrow> turn_event list \<Rightarrow> turn_response option" where
  "user_cancelled r out =
     (if r \<noteq> Incomplete_turn then None
      else
        case filter (\<lambda>x. re_incomplete x = Some ''user_cancelled'') (final_objects out) of
          [] \<Rightarrow> None
        | x # _ \<Rightarrow> Some x)"

text \<open>\<open>stream_result\<close> as the teardown reads it.\<close>

datatype closing = Success | Interrupted | Neither

definition error_frame :: "route_cfg \<Rightarrow> nat \<Rightarrow> frame" where
  "error_frame rc n = End_frame n ''response.failed'' (failed_object rc ''server_error'' ''Internal server error'')"

definition settle_pause :: "route_cfg \<Rightarrow> nat \<Rightarrow> json \<Rightarrow> conv \<Rightarrow> conv \<times> frame list \<times> closing" where
  "settle_pause rc n tc c =
     (case (call_fields tc, pause_object rc tc) of
        (Some (cid, name, args, approval), Some r) \<Rightarrow>
          (let out = [Call_frame n cid name args approval, End_frame (n + 1) ''response.completed'' r]
           in case commit_user rc c of
                (False, c) \<Rightarrow> (c, out @ [error_frame rc (n + 2)], Neither)
              | (True, c) \<Rightarrow> (store_response rc r c, out, Success))
      | _ \<Rightarrow> (c, [error_frame rc n], Neither))"

definition assistant_or_empty :: "string \<Rightarrow> string list \<Rightarrow> json" where
  "assistant_or_empty t thoughts =
     (case build_session_assistant_message t thoughts of None \<Rightarrow> message ''assistant'' [] [] | Some m \<Rightarrow> m)"

definition usage_text :: "string \<Rightarrow> string list \<Rightarrow> string" where
  "usage_text t thoughts = (if t \<noteq> [] then t else join_with [nl] thoughts)"

definition record_stream_turn_response :: "route_cfg \<Rightarrow> turn \<Rightarrow> conv \<Rightarrow> bool \<times> conv" where
  "record_stream_turn_response rc s c =
     (if rt_store rc = Some False then (True, c)
      else
        case usage_of rc (tn_buffer s) (usage_text (tn_visible s) (tn_thinking_texts s)) of
          None \<Rightarrow> (False, c)
        | Some u \<Rightarrow> (True, store_response rc (completed_object rc (tn_buffer s) (tn_visible s) (tn_thinking_texts s) u) c))"

text \<open>After the stream: the branches of the route in their order, then its exception handler.\<close>

definition settle_stream ::
  "route_cfg \<Rightarrow> turn \<Rightarrow> turn_event list \<Rightarrow> outcome \<Rightarrow> conv \<Rightarrow> conv \<times> frame list \<times> closing" where
  "settle_stream rc s out r c =
     (let n = tn_seq s; m = assistant_or_empty (tn_visible s) (tn_thinking_texts s)
      in if r = Raised_turn then (c, [error_frame rc n], Neither)
         else
           case s_pending (cv_session c) of
             Some tc \<Rightarrow> settle_pause rc n tc c
           | None \<Rightarrow>
               (case user_cancelled r out of
                  Some x \<Rightarrow>
                    (case commit_answer rc m c of
                       (False, c) \<Rightarrow> (c, [error_frame rc n], Interrupted)
                     | (True, c) \<Rightarrow> (store_response rc (response_of_turn (rt_created rc) x) c, [], Interrupted))
                | None \<Rightarrow>
                    if r = Empty_turn \<and> rt_fresh rc then
                      (c, [End_frame n ''response.failed'' (failed_object rc ''empty_response'' ''No response generated'')], Neither)
                    else if r = Completed_turn then
                      (case commit_answer rc m c of
                         (False, c) \<Rightarrow> (c, [error_frame rc n], Success)
                       | (True, c) \<Rightarrow>
                           (case record_stream_turn_response rc s c of
                              (False, c) \<Rightarrow> (c, [error_frame rc n], Success)
                            | (True, c) \<Rightarrow> (c, [], Success)))
                    else (c, [], Neither)))"

fun outcome_of :: "closing \<Rightarrow> outcome" where
  "outcome_of Success = Completed_turn"
| "outcome_of Interrupted = Incomplete_turn"
| "outcome_of Neither = Failed_turn"

definition teardown_stream :: "route_cfg \<Rightarrow> nat option \<Rightarrow> closing \<Rightarrow> conv \<Rightarrow> conv" where
  "teardown_stream rc client cl c =
     (let c = (if cl = Neither then disconnect_session_client client c else c)
      in unlock (finish_active_response (rt_readable rc) (rid rc) (outcome_of cl) (rt_now rc) c))"

definition run_stream :: "route_cfg \<Rightarrow> back_event list \<Rightarrow> conv \<Rightarrow> frame list \<times> conv" where
  "run_stream rc es c =
     (let client = s_client (cv_session c);
          (c, s, out, r) = streamed rc es c;
          (c, frames, cl) = settle_stream rc s out r c
      in (map Turn_frame out @ frames, teardown_stream rc client cl c))"

text \<open>A streamed continuation is the same course on a turn that is not fresh.\<close>

definition run_continuation_stream :: "route_cfg \<Rightarrow> back_event list \<Rightarrow> conv \<Rightarrow> frame list \<times> conv" where
  "run_continuation_stream rc = run_stream (rc\<lparr>rt_fresh := False\<rparr>)"

text \<open>
  The client leaves: the generator is cancelled at the next line it would send, so nothing after
  the stream is run.  \<open>through\<close>: the stream had run to its end by then, and its result is known.
\<close>

definition abandon_stream :: "route_cfg \<Rightarrow> bool \<Rightarrow> back_event list \<Rightarrow> conv \<Rightarrow> conv" where
  "abandon_stream rc through es c =
     (let client = s_client (cv_session c);
          (c, s, out, r) = streamed rc es c
      in teardown_stream rc client
           (if \<not> through then Neither
            else if r = Completed_turn then Success
            else if user_cancelled r out \<noteq> None then Interrupted else Neither) c)"

section \<open>Turns collected before they are answered\<close>

text \<open>The chunks the collector gets; a stall cannot happen here, and an idle tick is nothing.\<close>

datatype collected = Collected "chunk list" | Source_failed

fun collect :: "turn_view \<Rightarrow> back_event list \<Rightarrow> conv \<Rightarrow> collected \<times> conv" where
  "collect v [] c = (Collected [], c)"
| "collect v (e # es) c =
     (case e of
        Input x \<Rightarrow>
          (case capture v x c of
             (Close, c) \<Rightarrow> (Collected [], fold hook_step es c)
           | (Skip, c) \<Rightarrow> collect v es c
           | (Pass, c) \<Rightarrow>
               (case x of
                  Item now k \<Rightarrow>
                    (case collect v es c of
                       (Collected ks, c) \<Rightarrow> (Collected (k # ks), c)
                     | r \<Rightarrow> r)
                | Idle now \<Rightarrow> collect v es c
                | _ \<Rightarrow> (Source_failed, fold hook_step es c)))
      | _ \<Rightarrow> collect v es (hook_step e c))"

definition first_error :: "(ChunkText.block \<Rightarrow> string) \<Rightarrow> chunk list \<Rightarrow> (json \<times> json) option" where
  "first_error show cs = (case List.map_filter (classify_error_chunk show) cs of [] \<Rightarrow> None | e # _ \<Rightarrow> Some e)"

text \<open>
  What a request is answered: a response object, an HTTP error, or nothing when it is cancelled.
  The collecting itself runs to the end of the source, into its time limit, or is cancelled, each
  after the events so far.
\<close>

datatype answer = Answered response_object | Http_error nat | No_answer

datatype ending = Runs_out | Times_out | Cancelled

definition error_status :: "json \<times> json \<Rightarrow> nat" where
  "error_status e = (if fst e = J_str ''rate_limit'' then 429 else 502)"

text \<open>The reply of a collected turn: the text, the thinking and the usage, or nothing usable.\<close>

record reply =
  rp_text :: string
  rp_thoughts :: "string list"
  rp_message :: json
  rp_usage_text :: string

datatype reading = Reply reply | No_reply | Unreadable_reply

definition read_reply :: "route_cfg \<Rightarrow> chunk list \<Rightarrow> reading" where
  "read_reply rc cs =
     (let assistant = (case rt_parse rc cs of None \<Rightarrow> [] | Some t \<Rightarrow> t)
      in case split_assistant_text_and_thinking (tc_show (rt_turn rc)) cs assistant of
           None \<Rightarrow> Unreadable_reply
         | Some (t, thoughts) \<Rightarrow>
             (case build_session_assistant_message t thoughts of
                None \<Rightarrow> No_reply
              | Some m \<Rightarrow>
                  Reply
                    \<lparr>rp_text = t, rp_thoughts = thoughts, rp_message = m,
                     rp_usage_text = (if assistant \<noteq> [] then assistant else usage_text t thoughts)\<rparr>))"

definition reply_object :: "route_cfg \<Rightarrow> chunk list \<Rightarrow> reply \<Rightarrow> response_object option" where
  "reply_object rc cs p =
     map_option (completed_object rc cs (rp_text p) (rp_thoughts p)) (usage_of rc cs (rp_usage_text p))"

text \<open>
  The non-streaming turn, under the lock of \<open>session_preflight_scope\<close>: the client is dropped after
  the lock is free again; the usage is computed after the commit.
\<close>

definition drop_unlocked :: "nat option \<Rightarrow> conv \<Rightarrow> conv" where
  "drop_unlocked client c = (if client = None then unlock c else disconnect_session_client client (unlock c))"

definition run_sync :: "route_cfg \<Rightarrow> ending \<Rightarrow> back_event list \<Rightarrow> conv \<Rightarrow> answer \<times> conv" where
  "run_sync rc en es c =
     (let client = s_client (cv_session c);
          fail = (\<lambda>n c. (Http_error n, drop_unlocked client c))
      in case (collect (rt_view rc) es c, en) of
           ((_, c), Cancelled) \<Rightarrow> (No_answer, unlock c)
         | ((_, c), Times_out) \<Rightarrow> fail 504 c
         | ((Source_failed, c), Runs_out) \<Rightarrow> fail 502 c
         | ((Collected cs, c), Runs_out) \<Rightarrow>
             (case first_error (tc_show (rt_turn rc)) cs of
                Some e \<Rightarrow> fail (error_status e) c
              | None \<Rightarrow>
                  (case s_pending (cv_session c) of
                     Some tc \<Rightarrow>
                       (case commit_user rc c of
                          (False, c) \<Rightarrow> fail 502 c
                        | (True, c) \<Rightarrow>
                            (case pause_object rc tc of
                               None \<Rightarrow> fail 502 c
                             | Some r \<Rightarrow> (Answered r, unlock (store_response rc r c))))
                   | None \<Rightarrow>
                       (case read_reply rc cs of
                          Unreadable_reply \<Rightarrow> fail 502 c
                        | No_reply \<Rightarrow> fail 502 c
                        | Reply p \<Rightarrow>
                            (case commit_answer rc (rp_message p) c of
                               (False, c) \<Rightarrow> fail 502 c
                             | (True, c) \<Rightarrow>
                                 (let c = unlock c
                                  in case reply_object rc cs p of
                                       None \<Rightarrow> (Http_error 500, c)
                                     | Some r \<Rightarrow>
                                         (Answered r,
                                          resume_reader (rt_readable rc)
                                            (record_response (rt_store rc) (s_turns (cv_session c)) r c))))))))"

text \<open>
  The non-streaming continuation: a pending call is looked for before the error chunks, and its
  lock is released in the \<open>finally\<close> block.
\<close>

definition leave_continuation :: "route_cfg \<Rightarrow> nat option \<Rightarrow> bool \<Rightarrow> conv \<Rightarrow> conv" where
  "leave_continuation rc client ok c =
     resume_reader (rt_readable rc) (unlock (if ok then c else disconnect_session_client client c))"

definition run_continuation :: "route_cfg \<Rightarrow> ending \<Rightarrow> back_event list \<Rightarrow> conv \<Rightarrow> answer \<times> conv" where
  "run_continuation rc en es c =
     (let client = s_client (cv_session c);
          fail = (\<lambda>n c. (Http_error n, leave_continuation rc client False c))
      in case (collect (rt_view rc) es c, en) of
           ((_, c), Cancelled) \<Rightarrow> (No_answer, leave_continuation rc client False c)
         | ((_, c), Times_out) \<Rightarrow> fail 504 c
         | ((Source_failed, c), Runs_out) \<Rightarrow> fail 500 c
         | ((Collected cs, c), Runs_out) \<Rightarrow>
             (case s_pending (cv_session c) of
                Some tc \<Rightarrow>
                  (let c = set_turn (rt_next rc) c
                   in case pause_object rc tc of
                        None \<Rightarrow> (Http_error 500, leave_continuation rc client True c)
                      | Some r \<Rightarrow> (Answered r, leave_continuation rc client True (store_response rc r c)))
              | None \<Rightarrow>
                  (case first_error (tc_show (rt_turn rc)) cs of
                     Some e \<Rightarrow> fail (error_status e) c
                   | None \<Rightarrow>
                       (case read_reply rc cs of
                          Unreadable_reply \<Rightarrow> fail 500 c
                        | No_reply \<Rightarrow> fail 502 c
                        | Reply p \<Rightarrow>
                            (let c = leave_continuation rc client True
                                       (add_assistant_response (rt_now rc) (rp_message p) (set_turn (rt_next rc) c))
                             in case reply_object rc cs p of
                                  None \<Rightarrow> (Http_error 500, c)
                                | Some r \<Rightarrow> (Answered r, store_response rc r c))))))"

section \<open>Background turns\<close>

text \<open>
  What the registry of runs holds after the runner: nothing (the turn is on the session), or a
  failed payload.
\<close>

definition mark_background :: "response_object \<Rightarrow> response_object" where
  "mark_background r = r\<lparr>ro_background := Some True\<rparr>"

definition interrupted_by_gateway :: "chunk list \<Rightarrow> bool" where
  "interrupted_by_gateway cs \<longleftrightarrow> list_ex (\<lambda>k. jtruthy (cfield k ''gateway_interrupted'')) cs"

definition incomplete_object :: "route_cfg \<Rightarrow> string \<Rightarrow> response_usage \<Rightarrow> response_object" where
  "incomplete_object rc t u =
     (new_response (rid rc) (rt_created rc) ''incomplete'' (turn_model rc) (jor (turn_metadata rc) (J_obj [])))
       \<lparr>ro_output := [Out_message (''msg_'' @ rt_uuid rc 0) ''incomplete'' t], ro_usage := u,
        ro_incomplete := Some ''user_cancelled'', ro_background := Some True\<rparr>"

definition touch_conv :: "route_cfg \<Rightarrow> conv \<Rightarrow> conv" where
  "touch_conv rc = on_session (touch (rt_now rc))"

definition leave_background :: "route_cfg \<Rightarrow> outcome \<Rightarrow> conv \<Rightarrow> conv" where
  "leave_background rc oc c =
     unlock (finish_active_response (rt_readable rc) (rid rc) oc (rt_now rc) (touch_conv rc c))"

definition fail_background ::
  "route_cfg \<Rightarrow> nat option \<Rightarrow> bool \<Rightarrow> string \<Rightarrow> string \<Rightarrow> conv \<Rightarrow> response_object option \<times> conv" where
  "fail_background rc client gone err msg c =
     (Some (mark_background (failed_object rc err msg)),
      leave_background rc Failed_turn (if gone then disconnect_session_client client c else c))"

definition finish_interrupted :: "route_cfg \<Rightarrow> nat option \<Rightarrow> chunk list \<Rightarrow> conv \<Rightarrow> response_object option \<times> conv" where
  "finish_interrupted rc client cs c =
     (let crash = fail_background rc client True ''server_error'' ''Internal server error'';
          assistant = (case rt_parse rc cs of None \<Rightarrow> [] | Some t \<Rightarrow> t)
      in case split_assistant_text_and_thinking (tc_show (rt_turn rc)) cs assistant of
           None \<Rightarrow> crash c
         | Some (t, thoughts) \<Rightarrow>
             (case usage_of rc cs (usage_text t thoughts) of
                None \<Rightarrow> crash c
              | Some u \<Rightarrow>
                  (case commit_answer rc (assistant_or_empty t thoughts) c of
                     (False, c) \<Rightarrow> crash c
                   | (True, c) \<Rightarrow>
                       (None, leave_background rc Incomplete_turn (store_response rc (incomplete_object rc t u) c)))))"

definition run_background :: "route_cfg \<Rightarrow> ending \<Rightarrow> back_event list \<Rightarrow> conv \<Rightarrow> response_object option \<times> conv" where
  "run_background rc en es c =
     (let client = s_client (cv_session c);
          fail = fail_background rc client;
          crash = fail True ''server_error'' ''Internal server error''
      in case (collect (rt_view rc) es c, en) of
           ((_, c), Cancelled) \<Rightarrow> fail False ''server_error'' ''Background response aborted by server shutdown'' c
         | ((_, c), Times_out) \<Rightarrow> fail True ''timeout'' ''Background response timed out'' c
         | ((Source_failed, c), Runs_out) \<Rightarrow> crash c
         | ((Collected cs, c), Runs_out) \<Rightarrow>
             if interrupted_by_gateway cs then finish_interrupted rc client cs c
             else
               (case first_error (tc_show (rt_turn rc)) cs of
                  Some (J_str err, msg) \<Rightarrow>
                    fail True err (''Backend error: '' @ (case msg of J_str t \<Rightarrow> t | v \<Rightarrow> tc_show (rt_turn rc) (Plain v))) c
                | Some _ \<Rightarrow> crash c
                | None \<Rightarrow>
                    (case s_pending (cv_session c) of
                       Some tc \<Rightarrow>
                         (case pause_object rc tc of
                            None \<Rightarrow> crash c
                          | Some r \<Rightarrow>
                              (case commit_user rc c of
                                 (False, c) \<Rightarrow> crash c
                               | (True, c) \<Rightarrow>
                                   (None, leave_background rc Completed_turn (store_response rc (mark_background r) c))))
                     | None \<Rightarrow>
                         (case read_reply rc cs of
                            Unreadable_reply \<Rightarrow> crash c
                          | No_reply \<Rightarrow> fail True ''server_error'' ''No response from backend'' c
                          | Reply p \<Rightarrow>
                              (case commit_answer rc (rp_message p) c of
                                 (False, c) \<Rightarrow> crash c
                               | (True, c) \<Rightarrow>
                                   (case reply_object rc cs p of
                                      None \<Rightarrow> crash c
                                    | Some r \<Rightarrow>
                                        (None, leave_background rc Completed_turn (store_response rc (mark_background r) c))))))))"

end
