(* ===== verification/ResponseCommit.thy ===== *)
theory ResponseCommit
  imports ResponseTurn
begin

text \<open>
  What the turns of the Responses route promise: the frames of a streamed turn are numbered without
  a gap and end once, a turn is committed exactly when the client was told of a response it can go
  on from, what is stored for a response id is that response, and a background turn leaves the
  session as the same turn answered directly.
\<close>

section \<open>What a turn's reading leaves alone\<close>

text \<open>The part of the session a turn's commit and end act on.\<close>

definition core ::
  "conv \<Rightarrow> (nat \<times> json list \<times> (nat, json) dict) \<times> (bool \<times> string option \<times> nat option) \<times> bool \<times> string \<times> string option" where
  "core c =
     (let s = cv_session c
      in ((s_turns s, s_messages s, s_records s), (s_locked s, s_active s, s_client s), cv_cached c, s_id s, s_user s))"

lemma coreD:
  assumes "core c = core d"
  shows "s_turns (cv_session c) = s_turns (cv_session d)" "s_messages (cv_session c) = s_messages (cv_session d)"
    "s_records (cv_session c) = s_records (cv_session d)" "s_locked (cv_session c) = s_locked (cv_session d)"
    "s_active (cv_session c) = s_active (cv_session d)" "s_client (cv_session c) = s_client (cv_session d)"
    "cv_cached c = cv_cached d" "s_id (cv_session c) = s_id (cv_session d)"
    "s_user (cv_session c) = s_user (cv_session d)"
  using assms by (simp_all add: core_def Let_def)

named_theorems core_simps \<open>operations that leave the core of a session alone\<close>

lemma core_hook [core_simps]: "core (hook_step e c) = core c"
  by (cases e) (simp_all add: core_def Let_def)

lemma core_hooks [core_simps]: "core (fold hook_step es c) = core c"
  by (induction es arbitrary: c) (simp_all add: core_simps)

lemma core_note_task [core_simps]: "core (note_task now k c) = core c"
  by (simp add: note_task_def core_def Let_def)

lemma core_capture: "capture v x c = (r, c') \<Longrightarrow> core c' = core c"
  by (auto simp: capture_def capture_chunk_def Let_def core_def note_task_def split: turn_input.splits if_splits option.splits)

lemma core_read_source: "read_source rc es c s = (xs, c') \<Longrightarrow> core c' = core c"
proof (induction es arbitrary: c s xs)
  case (Cons e es)
  show ?case
  proof (cases e)
    case (Input x)
    obtain r c1 where k: "capture (rt_view rc) x c = (r, c1)" by fastforce
    show ?thesis
      using Cons.prems Cons.IH core_capture [OF k] Input k
      by (auto simp: core_simps Let_def split: captured.splits option.splits prod.splits)
  qed (use Cons in \<open>auto simp: core_hook simp del: hook_step.simps\<close>)
qed simp

lemma core_collect: "collect v es c = (r, c') \<Longrightarrow> core c' = core c"
proof (induction es arbitrary: c r)
  case (Cons e es)
  show ?case
  proof (cases e)
    case (Input x)
    obtain q c1 where k: "capture v x c = (q, c1)" by fastforce
    show ?thesis
      using Cons.prems Cons.IH core_capture [OF k] Input k
      by (auto simp: core_simps split: captured.splits turn_input.splits collected.splits prod.splits)
  qed (use Cons in \<open>auto simp: core_hook simp del: hook_step.simps\<close>)
qed simp

text \<open>The calls a turn may park on can be shown to the user.\<close>

definition askable :: "json \<Rightarrow> bool" where
  "askable tc \<longleftrightarrow> call_fields tc \<noteq> None"

fun parks_well :: "back_event \<Rightarrow> bool" where
  "parks_well (Parks tc) = askable tc"
| "parks_well _ = True"

definition parked_well :: "conv \<Rightarrow> bool" where
  "parked_well c \<longleftrightarrow> (case s_pending (cv_session c) of None \<Rightarrow> True | Some tc \<Rightarrow> askable tc)"

lemma pause_object_askable: "askable tc \<longleftrightarrow> pause_object rc tc \<noteq> None"
  by (simp add: askable_def pause_object_def build_requires_action_response_def)

lemma opencode_askable: "store_opencode_pending_tool_call b k = Some tc \<Longrightarrow> askable tc"
proof -
  assume "store_opencode_pending_tool_call b k = Some tc"
  then have "tc \<in> set (List.map_filter opencode_call (dict_blocks k))"
    by (auto simp: store_opencode_pending_tool_call_def split: if_splits list.splits)
  then obtain blk where "opencode_call blk = Some tc" by (auto simp: List.map_filter_def)
  then show ?thesis
    by (auto simp: opencode_call_def Let_def askable_def call_fields_def opencode_pending_def ask_user_question_def
        jget_or_def dget_def split: if_splits json.splits option.splits)
qed

lemma hook_parks: "parks_well e \<Longrightarrow> parked_well c \<Longrightarrow> parked_well (hook_step e c)"
  by (cases e) (simp_all add: parked_well_def)

lemma hooks_park: "list_all parks_well es \<Longrightarrow> parked_well c \<Longrightarrow> parked_well (fold hook_step es c)"
  by (induction es arbitrary: c) (simp_all add: hook_parks)

lemma capture_parks: "capture v x c = (r, c') \<Longrightarrow> parked_well c \<Longrightarrow> parked_well c'"
  by (auto simp: capture_def capture_chunk_def Let_def parked_well_def note_task_def
      dest: opencode_askable split: turn_input.splits if_splits option.splits)

lemma read_source_parks:
  "read_source rc es c s = (xs, c') \<Longrightarrow> list_all parks_well es \<Longrightarrow> parked_well c \<Longrightarrow> parked_well c'"
proof (induction es arbitrary: c s xs)
  case (Cons e es)
  show ?case
  proof (cases e)
    case (Input x)
    obtain r c1 where k: "capture (rt_view rc) x c = (r, c1)" by fastforce
    show ?thesis
      using Cons.prems Cons.IH capture_parks [OF k] Input k hooks_park
      by (auto simp: Let_def split: captured.splits option.splits prod.splits)
  qed (use Cons hook_parks [of e c] in \<open>auto simp del: hook_step.simps\<close>)
qed simp

lemma collect_parks: "collect v es c = (r, c') \<Longrightarrow> list_all parks_well es \<Longrightarrow> parked_well c \<Longrightarrow> parked_well c'"
proof (induction es arbitrary: c r)
  case (Cons e es)
  show ?case
  proof (cases e)
    case (Input x)
    obtain q c1 where k: "capture v x c = (q, c1)" by fastforce
    show ?thesis
      using Cons.prems Cons.IH capture_parks [OF k] Input k hooks_park
      by (auto split: captured.splits turn_input.splits collected.splits prod.splits)
  qed (use Cons hook_parks [of e c] in \<open>auto simp del: hook_step.simps\<close>)
qed simp

section \<open>How a stream can end\<close>

lemma finish_turn_ends:
  assumes "steps [final_flush, flush_compaction None, finish_turn cf paused] s = (s', out, f)"
  shows "f \<in> (if paused then {Go, Raise, Stop Paused_turn} else {Go, Raise, Stop Completed_turn, Stop Empty_turn}) \<and>
    (f = Stop Completed_turn \<longrightarrow> turn_usage cf s' \<noteq> None)"
proof -
  have fin: "f \<in> (if paused then {Go, Raise, Stop Paused_turn} else {Go, Raise, Stop Completed_turn, Stop Empty_turn}) \<and>
      (f = Stop Completed_turn \<longrightarrow> turn_usage cf s' \<noteq> None)"
    if e: "finish_turn cf paused s = (s', out, f)" for s s' out f
  proof -
    obtain s1 o1 f1 where a: "close_all cf Completed s = (s1, o1, f1)" by (rule prod_cases3)
    obtain s2 o2 f2 where b: "trailing_message cf s1 = (s2, o2, f2)" by (rule prod_cases3)
    have "f1 \<in> {Go, Raise}" "f2 \<in> {Go, Raise}"
      using turn_tellsD [OF turn_close_all_tells a] turn_tellsD [OF trailing_message_tells b] by (simp_all add: told_def)
    then show ?thesis
      using e a b
      by (auto simp: finish_turn_def end_turn_def emits_def turn_usage_def split: if_splits option.splits)
  qed
  obtain s1 o1 f1 where a: "final_flush s = (s1, o1, f1)" by (rule prod_cases3)
  obtain s2 o2 f2 where b: "flush_compaction None s1 = (s2, o2, f2)" by (rule prod_cases3)
  obtain s3 o3 f3 where c: "finish_turn cf paused s2 = (s3, o3, f3)" by (rule prod_cases3)
  have "f1 \<in> {Go, Raise}" "f2 \<in> {Go, Raise}"
    using turn_tellsD [OF final_flush_tells a] turn_tellsD [OF flush_compaction_tells b] by (simp_all add: told_def)
  then show ?thesis using assms a b c fin [OF c] by (cases f1; cases f2; cases f3) auto
qed

lemma stream_turn_ends:
  "stream_turn cf paused xs s = (s', out, r) \<Longrightarrow>
     r \<in> {Incomplete_turn, Failed_turn, Raised_turn} \<union> (if paused then {Paused_turn} else {Completed_turn, Empty_turn}) \<and>
     (r = Completed_turn \<longrightarrow> turn_usage cf s' \<noteq> None)"
proof (induction xs arbitrary: s out)
  case Nil
  obtain s1 o1 f1 where e: "steps [final_flush, flush_compaction None, finish_turn cf paused] s = (s1, o1, f1)"
    by (rule prod_cases3)
  then show ?case using finish_turn_ends [OF e] Nil by (cases f1) (auto simp del: steps.simps split: if_splits)
next
  case (Cons x xs)
  show ?case
  proof (cases x)
    case (Item now k)
    obtain s1 o1 f1 where e: "handle_chunk cf now k s = (s1, o1, f1)" by (rule prod_cases3)
    have "f1 \<in> {Go, Raise, Stop Incomplete_turn, Stop Failed_turn}"
      using turn_tellsD [OF handle_chunk_tells e] by (simp add: told_def)
    moreover obtain s2 o2 r2 where t: "stream_turn cf paused xs s1 = (s2, o2, r2)" by (rule prod_cases3)
    ultimately show ?thesis
      using Cons.prems Item e Cons.IH [of s1 o2] by (cases f1) (auto simp: Let_def split: prod.splits)
  next
    case (Idle now)
    obtain s1 o1 f1 where e: "sides (tool_heartbeat_events (tc_flags cf) now (tn_tools s)) s = (s1, o1, f1)"
      by (rule prod_cases3)
    then show ?thesis using Cons.prems Idle Cons.IH [of s1] by (auto simp: Let_def split: prod.splits)
  qed (use Cons.prems in \<open>auto simp: Let_def split: prod.splits\<close>)
qed

lemma streamed_facts:
  assumes "streamed rc es c = (c1, s, out, r)"
  shows "core c1 = core c"
    and "list_all parks_well es \<Longrightarrow> parked_well c \<Longrightarrow> parked_well c1"
    and "numbers out = [0..<tn_seq s]"
    and "fits (rid rc) (if r = Raised_turn then Raise else Stop r) (final_objects out)"
    and "r \<in> {Incomplete_turn, Failed_turn, Raised_turn} \<union>
           (if rt_fresh rc \<and> s_pending (cv_session c1) \<noteq> None then {Paused_turn} else {Completed_turn, Empty_turn})"
    and "r = Completed_turn \<Longrightarrow> turn_usage (rt_turn rc) s \<noteq> None"
    and "tn_visible s = texts out"
proof -
  let ?cf = "rt_turn rc"
  obtain xs where x: "read_source rc es c (fst (preamble ?cf (new_turn ?cf))) = (xs, c1)"
    and g: "stream_response_chunks ?cf (rt_fresh rc \<and> s_pending (cv_session c1) \<noteq> None) xs = (s, out, r)"
    using assms by (auto simp: streamed_def Let_def split: prod.splits)
  show "core c1 = core c" by (rule core_read_source [OF x])
  show "list_all parks_well es \<Longrightarrow> parked_well c \<Longrightarrow> parked_well c1" by (rule read_source_parks [OF x])
  have t: "told (tc_response_id ?cf) UNIV (new_turn ?cf) (s, out, if r = Raised_turn then Raise else Stop r)"
    using turn_tells [of ?cf "rt_fresh rc \<and> s_pending (cv_session c1) \<noteq> None" xs] unfolding g fst_conv snd_conv .
  then show "numbers out = [0..<tn_seq s]" "fits (rid rc) (if r = Raised_turn then Raise else Stop r) (final_objects out)"
    "tn_visible s = texts out"
    by (simp_all add: told_def new_turn_def)
  obtain s1 o1 f1 where p: "preamble ?cf (new_turn ?cf) = (s1, o1, f1)" by (rule prod_cases3)
  obtain s2 o2 r2 where st: "stream_turn ?cf (rt_fresh rc \<and> s_pending (cv_session c1) \<noteq> None) xs s1 = (s2, o2, r2)"
    by (rule prod_cases3)
  have "s2 = s" "r2 = r" using g unfolding stream_response_chunks_def p Let_def prod.case st by auto
  then show "r \<in> {Incomplete_turn, Failed_turn, Raised_turn} \<union>
      (if rt_fresh rc \<and> s_pending (cv_session c1) \<noteq> None then {Paused_turn} else {Completed_turn, Empty_turn})"
    "r = Completed_turn \<Longrightarrow> turn_usage ?cf s \<noteq> None"
    using stream_turn_ends [OF st] by auto
qed

lemma usage_of_turn: "turn_usage (rt_turn rc) s \<noteq> None \<Longrightarrow> usage_of rc (tn_buffer s) t \<noteq> None"
  by (auto simp: turn_usage_def usage_of_def resolve_token_usage_def Let_def split: option.splits)

section \<open>Frames\<close>

fun frame_number :: "frame \<Rightarrow> nat list" where
  "frame_number (Turn_frame e) = numbers [e]"
| "frame_number (Call_frame n _ _ _ _) = [n]"
| "frame_number (End_frame n _ _) = [n]"

definition frame_numbers :: "frame list \<Rightarrow> nat list" where
  "frame_numbers fs = concat (map frame_number fs)"

text \<open>The status, and the reason of an incomplete one, of each response the client is told the end of.\<close>

fun frame_ending :: "frame \<Rightarrow> (string \<times> string option) list" where
  "frame_ending (Turn_frame e) = map (\<lambda>r. (status_text (re_status r), re_incomplete r)) (final_objects [e])"
| "frame_ending (Call_frame _ _ _ _ _) = []"
| "frame_ending (End_frame n ev r) = [(ro_status r, ro_incomplete r)]"

definition endings :: "frame list \<Rightarrow> (string \<times> string option) list" where
  "endings fs = concat (map frame_ending fs)"

lemma frames_simps [simp]:
  "frame_numbers [] = []" "frame_numbers (a @ b) = frame_numbers a @ frame_numbers b"
  "frame_numbers (f # b) = frame_number f @ frame_numbers b"
  "endings [] = []" "endings (a @ b) = endings a @ endings b" "endings (f # b) = frame_ending f @ endings b"
  by (simp_all add: frame_numbers_def endings_def)

lemma turn_frames [simp]:
  "frame_numbers (map Turn_frame out) = numbers out"
  "endings (map Turn_frame out) = map (\<lambda>r. (status_text (re_status r), re_incomplete r)) (final_objects out)"
proof -
  have n: "numbers (e # es) = numbers [e] @ numbers es" for e es by (simp add: numbers_def)
  have f: "final_objects (e # es) = final_objects [e] @ final_objects es" for e es by (simp add: final_objects_def)
  show "frame_numbers (map Turn_frame out) = numbers out" 
  proof (induction out)
    case (Cons e out)
    then show ?case using n [of e out] by simp
  qed simp
  show "endings (map Turn_frame out) = map (\<lambda>r. (status_text (re_status r), re_incomplete r)) (final_objects out)"
  proof (induction out)
    case (Cons e out)
    then show ?case using f [of e out] by simp
  qed simp
qed

definition continuable :: "string \<times> string option \<Rightarrow> bool" where
  "continuable e \<longleftrightarrow> fst e \<in> {''completed'', ''requires_action''} \<or> e = (''incomplete'', Some ''user_cancelled'')"

lemma built_fields [simp]:
  "ro_status (failed_object rc err msg) = ''failed''" "ro_incomplete (failed_object rc err msg) = None"
  "pause_object rc tc = Some r \<Longrightarrow> ro_status r = ''requires_action''"
  "pause_object rc tc = Some r \<Longrightarrow> ro_incomplete r = None"
  by (auto simp: failed_object_def build_failed_response_def pause_object_def build_requires_action_response_def new_response_def)

lemma settle_pause_numbers: "settle_pause rc n tc c = (c', fs, cl) \<Longrightarrow> \<exists>k. frame_numbers fs = [n..<n + k]"
proof -
  have one: "[n] = [n..<n + 1]" and two: "[n, n + 1] = [n..<n + 2]" and three: "[n, n + 1, n + 2] = [n..<n + 3]"
    by (simp_all add: upt_rec)
  assume "settle_pause rc n tc c = (c', fs, cl)"
  then have "frame_numbers fs \<in> {[n], [n, n + 1], [n, n + 1, n + 2]}"
    by (auto simp: settle_pause_def error_frame_def Let_def split: option.splits prod.splits bool.splits)
  then show ?thesis using one two three by (metis insertE emptyE)
qed

lemma settle_numbers: "settle_stream rc s out r c = (c', fs, cl) \<Longrightarrow> \<exists>k. frame_numbers fs = [tn_seq s..<tn_seq s + k]"
proof -
  assume e: "settle_stream rc s out r c = (c', fs, cl)"
  have one: "[tn_seq s] = [tn_seq s..<tn_seq s + 1]" and none: "[] = [tn_seq s..<tn_seq s + 0]" by (simp_all add: upt_rec)
  show ?thesis
  proof (cases "r = Raised_turn \<or> s_pending (cv_session c) = None")
    case True
    then have "frame_numbers fs \<in> {[], [tn_seq s]}" using e
      by (auto simp: settle_stream_def Let_def error_frame_def split: option.splits prod.splits bool.splits if_splits)
    then show ?thesis using one none by (metis insertE emptyE)
  next
    case False
    then show ?thesis using e settle_pause_numbers by (auto simp: settle_stream_def Let_def)
  qed
qed

text \<open>
   The frames of a streamed turn, the route's own after the stream's, carry the numbers from
  zero on without a gap, however the turn ends.
\<close>

theorem stream_frames_numbered:
  "frame_numbers (fst (run_stream rc es c)) = [0..<length (frame_numbers (fst (run_stream rc es c)))]"
proof -
  obtain c1 s out r where t: "streamed rc es c = (c1, s, out, r)" by (rule prod_cases4)
  obtain c2 fs cl where e: "settle_stream rc s out r c1 = (c2, fs, cl)" by (rule prod_cases3)
  obtain k where k: "frame_numbers fs = [tn_seq s..<tn_seq s + k]" using settle_numbers [OF e] by auto
  have f: "fst (run_stream rc es c) = map Turn_frame out @ fs" by (simp add: run_stream_def t e Let_def)
  have "frame_numbers (map Turn_frame out @ fs) = [0..<tn_seq s + k]"
    by (simp add: streamed_facts(3) [OF t] k upt_add_eq_append [of 0, simplified])
  then show ?thesis by (simp add: f)
qed

section \<open>Commits\<close>

text \<open>What the operations of a commit do to the turn counter, and what they keep.\<close>

definition kept :: "conv \<Rightarrow> bool \<times> string option \<times> nat option \<times> string option" where
  "kept c = (let s = cv_session c in (s_locked s, s_active s, s_client s, s_user s))"

lemma set_turn_fields [simp]:
  "s_turns (cv_session (set_turn n c)) = n" "kept (set_turn n c) = kept c"
  "s_records (cv_session (set_turn n c)) = s_records (cv_session c)"
  by (simp_all add: set_turn_def kept_def Let_def)

lemma commit_user_fields:
  assumes "commit_user rc c = (ok, c')"
  shows "s_turns (cv_session c') = rt_next rc" "kept c' = kept c"
    "message_text (rt_prompt rc) \<noteq> None \<Longrightarrow> ok" "s_records (cv_session c') = s_records (cv_session c)"
  using assms
  by (auto simp: commit_user_def Let_def kept_def add_messages_def touch_def set_turn_def split: if_splits option.splits)

lemma add_assistant_fields [simp]:
  "s_turns (cv_session (add_assistant_response now m c)) = s_turns (cv_session c)" "kept (add_assistant_response now m c) = kept c"
  "s_records (cv_session (add_assistant_response now m c)) = s_records (cv_session c)"
  by (simp_all add: add_assistant_response_def add_messages_def touch_def kept_def Let_def)

lemma commit_answer_fields:
  assumes "commit_answer rc m c = (ok, c')"
  shows "s_turns (cv_session c') = rt_next rc" "kept c' = kept c" "message_text (rt_prompt rc) \<noteq> None \<Longrightarrow> ok"
    "s_records (cv_session c') = s_records (cv_session c)"
proof -
  obtain b d where u: "commit_user rc c = (b, d)" by fastforce
  show "s_turns (cv_session c') = rt_next rc" "kept c' = kept c" "message_text (rt_prompt rc) \<noteq> None \<Longrightarrow> ok"
    "s_records (cv_session c') = s_records (cv_session c)"
    using assms commit_user_fields [OF u] u by (cases b; auto simp: commit_answer_def)+
qed

lemma store_response_fields [simp]:
  "s_turns (cv_session (store_response rc r c)) = s_turns (cv_session c)" "kept (store_response rc r c) = kept c"
  "s_messages (cv_session (store_response rc r c)) = s_messages (cv_session c)"
  by (simp_all add: store_response_def record_response_def record_turn_response_def kept_def Let_def)

lemma record_stream_fields:
  assumes "record_stream_turn_response rc s c = (ok, c')"
  shows "s_turns (cv_session c') = s_turns (cv_session c)" "kept c' = kept c" "turn_usage (rt_turn rc) s \<noteq> None \<Longrightarrow> ok"
  using assms usage_of_turn [of rc s "usage_text (tn_visible s) (tn_thinking_texts s)"]
  by (auto simp: record_stream_turn_response_def split: if_splits option.splits)

text \<open>Ends and teardowns move no turn counter.\<close>

lemma resume_reader_fields [simp]:
  "s_turns (cv_session (resume_reader b c)) = s_turns (cv_session c)" "kept (resume_reader b c) = kept c"
  "s_messages (cv_session (resume_reader b c)) = s_messages (cv_session c)"
  "s_records (cv_session (resume_reader b c)) = s_records (cv_session c)"
  by (simp_all add: resume_reader_def kept_def Let_def split_beta)

lemma unlock_fields [simp]:
  "s_turns (cv_session (unlock c)) = s_turns (cv_session c)" "\<not> s_locked (cv_session (unlock c))"
  "s_messages (cv_session (unlock c)) = s_messages (cv_session c)"
  "s_records (cv_session (unlock c)) = s_records (cv_session c)" "s_active (cv_session (unlock c)) = s_active (cv_session c)"
  "s_pending (cv_session (unlock c)) = s_pending (cv_session c)" "s_client (cv_session (unlock c)) = s_client (cv_session c)"
  by (simp_all add: unlock_def unlock_session_def)

lemma disconnect_fields [simp]:
  "s_turns (cv_session (disconnect_session_client k c)) = s_turns (cv_session c)"
  "s_messages (cv_session (disconnect_session_client k c)) = s_messages (cv_session c)"
  "s_records (cv_session (disconnect_session_client k c)) = s_records (cv_session c)"
  "s_locked (cv_session (disconnect_session_client k c)) = s_locked (cv_session c)"
  "s_active (cv_session (disconnect_session_client k c)) = s_active (cv_session c)"
  by (simp_all add: disconnect_session_client_def clear_stale_pending_tool_call_def pause_reader_def reset_tasks_def Let_def
      split: option.split)

lemma finish_fields:
  "s_turns (cv_session (finish_active_response b i oc now c)) = s_turns (cv_session c)"
  "s_messages (cv_session (finish_active_response b i oc now c)) = s_messages (cv_session c)"
  "s_records (cv_session (finish_active_response b i oc now c)) = s_records (cv_session c)"
  "s_locked (cv_session (finish_active_response b i oc now c)) = s_locked (cv_session c)"
  "s_active (cv_session (finish_active_response b i oc now c)) = (if s_active (cv_session c) = Some i then None else s_active (cv_session c))"
  by (simp_all add: finish_active_response_def clear_active_def touch_def resume_reader_def Let_def split_beta)

lemmas turn_fields = disconnect_fields unlock_fields resume_reader_fields finish_fields

lemma teardown_fields:
  "s_turns (cv_session (teardown_stream rc k cl c)) = s_turns (cv_session c)"
  "s_messages (cv_session (teardown_stream rc k cl c)) = s_messages (cv_session c)"
  "s_records (cv_session (teardown_stream rc k cl c)) = s_records (cv_session c)"
  "\<not> s_locked (cv_session (teardown_stream rc k cl c))"
  "s_active (cv_session (teardown_stream rc k cl c)) \<noteq> Some (rid rc)"
  by (simp_all add: teardown_stream_def Let_def turn_fields)

text \<open>What the route does after the stream, in one table.\<close>

lemma continuable_simps [simp]:
  "continuable (''completed'', w)" "continuable (''requires_action'', w)" "\<not> continuable (''failed'', w)"
  "continuable (''incomplete'', w) \<longleftrightarrow> w = Some ''user_cancelled''"
  by (simp_all add: continuable_def)

lemma settle_pause_table:
  assumes "askable tc" "message_text (rt_prompt rc) \<noteq> None" "settle_pause rc n tc c = (c', fs, cl)"
  shows "s_turns (cv_session c') = rt_next rc \<and> kept c' = kept c \<and> endings fs = [(''requires_action'', None)] \<and> cl = Success"
proof -
  obtain cid name args ap where f: "call_fields tc = Some (cid, name, args, ap)"
    using assms(1) by (auto simp: askable_def)
  obtain r where r: "pause_object rc tc = Some r" using assms(1) pause_object_askable by auto
  obtain ok c2 where u: "commit_user rc c = (ok, c2)" by fastforce
  show ?thesis
    using assms(3) commit_user_fields [OF u] assms(2) r
    by (cases ok) (auto simp: settle_pause_def f u Let_def)
qed

text \<open>The endings the stream itself told.\<close>

definition stream_endings :: "turn_event list \<Rightarrow> (string \<times> string option) list" where
  "stream_endings out = map (\<lambda>r. (status_text (re_status r), re_incomplete r)) (final_objects out)"

lemma stream_endings_cases:
  assumes "streamed rc es c = (c1, s, out, r)"
  shows "case r of
      Completed_turn \<Rightarrow> \<exists>w. stream_endings out = [(''completed'', w)]
    | Incomplete_turn \<Rightarrow> \<exists>x. final_objects out = [x] \<and> re_id x = rid rc \<and> re_status x = Incomplete \<and> stream_endings out = [(''incomplete'', re_incomplete x)]
    | Failed_turn \<Rightarrow> \<exists>w. stream_endings out = [(''failed'', w)]
    | _ \<Rightarrow> stream_endings out = []"
  using streamed_facts(4) [OF assms] by (cases r) (auto simp: closes_with_def stream_endings_def)

lemma settle_table:
  assumes t: "streamed rc es c = (c1, s, out, r)" and e: "settle_stream rc s out r c1 = (c2, fs, cl)"
    and prompt: "message_text (rt_prompt rc) \<noteq> None" and asks: "parked_well c1"
  shows "s_turns (cv_session c2) =
           (if list_ex continuable (stream_endings out @ endings fs) then rt_next rc else s_turns (cv_session c1))"
    and "kept c2 = kept c1"
    and "length (stream_endings out @ endings fs) =
           (if r \<in> {Completed_turn, Incomplete_turn, Failed_turn} then 1 else 0) +
           (if r = Raised_turn \<or> s_pending (cv_session c1) \<noteq> None \<or> (r = Empty_turn \<and> rt_fresh rc) then 1 else 0)"
proof -
  let ?m = "assistant_or_empty (tn_visible s) (tn_thinking_texts s)"
  obtain ok c3 where a: "commit_answer rc ?m c1 = (ok, c3)" by fastforce
  note af = commit_answer_fields [OF a]
  obtain ok2 c4 where b: "record_stream_turn_response rc s c3 = (ok2, c4)" by fastforce
  note bf = record_stream_fields [OF b] and cases = stream_endings_cases [OF t]
  have filed: "r = Completed_turn \<Longrightarrow> ok2" using bf(3) streamed_facts(6) [OF t] by blast
  have "s_turns (cv_session c2) =
           (if list_ex continuable (stream_endings out @ endings fs) then rt_next rc else s_turns (cv_session c1)) \<and>
        kept c2 = kept c1 \<and>
        length (stream_endings out @ endings fs) =
           (if r \<in> {Completed_turn, Incomplete_turn, Failed_turn} then 1 else 0) +
           (if r = Raised_turn \<or> s_pending (cv_session c1) \<noteq> None \<or> (r = Empty_turn \<and> rt_fresh rc) then 1 else 0)"
  proof (cases "r = Raised_turn")
    case True
    then show ?thesis using e cases by (auto simp: settle_stream_def Let_def error_frame_def)
  next
    case False
    show ?thesis
    proof (cases "s_pending (cv_session c1)")
      case (Some tc)
      then have "settle_pause rc (tn_seq s) tc c1 = (c2, fs, cl)" using e False by (simp add: settle_stream_def Let_def)
      from settle_pause_table [OF _ prompt this] asks Some
      show ?thesis using cases False by (cases r) (auto simp: parked_well_def)
    next
      case None
      show ?thesis
        using e False None af prompt bf filed cases a b
        by (cases r)
          (auto simp: settle_stream_def Let_def user_cancelled_def split: if_splits)
    qed
  qed
  then show "s_turns (cv_session c2) =
           (if list_ex continuable (stream_endings out @ endings fs) then rt_next rc else s_turns (cv_session c1))"
    "kept c2 = kept c1"
    "length (stream_endings out @ endings fs) =
           (if r \<in> {Completed_turn, Incomplete_turn, Failed_turn} then 1 else 0) +
           (if r = Raised_turn \<or> s_pending (cv_session c1) \<noteq> None \<or> (r = Empty_turn \<and> rt_fresh rc) then 1 else 0)"
    by blast+
qed


text \<open>
  C10.  A fresh streamed turn tells the client exactly one end, unless it failed or was cut off while
  a call waits for the user: then the call is shown after that end, and a second end follows.
\<close>

theorem fresh_stream_ends_once:
  assumes "message_text (rt_prompt rc) \<noteq> None" "list_all parks_well es" "parked_well c" "rt_fresh rc"
    and "streamed rc es c = (c1, s, out, r)"
  shows "length (endings (fst (run_stream rc es c))) =
    (if r \<in> {Incomplete_turn, Failed_turn} \<and> s_pending (cv_session c1) \<noteq> None then 2 else 1)"
proof -
  obtain c2 fs cl where e: "settle_stream rc s out r c1 = (c2, fs, cl)" by (rule prod_cases3)
  have f: "endings (fst (run_stream rc es c)) = stream_endings out @ endings fs"
    by (simp add: run_stream_def assms(5) e Let_def stream_endings_def)
  show ?thesis
    unfolding f settle_table(3) [OF assms(5) e assms(1) streamed_facts(2) [OF assms(5,2,3)]]
    using streamed_facts(5) [OF assms(5)] assms(4) by (cases r) (auto split: if_splits)
qed

section \<open>Background turns\<close>

text \<open>Two sessions that look the same to a collected turn's reading and commit.\<close>

definition alike :: "conv \<Rightarrow> conv \<Rightarrow> bool" where
  "alike c d \<longleftrightarrow>
     s_turns (cv_session c) = s_turns (cv_session d) \<and> s_messages (cv_session c) = s_messages (cv_session d) \<and>
     s_records (cv_session c) = s_records (cv_session d) \<and> s_pending (cv_session c) = s_pending (cv_session d) \<and>
     cv_cached c = cv_cached d"

lemma alike_hook: "alike c d \<Longrightarrow> alike (hook_step e c) (hook_step e d)"
  by (cases e) (simp_all add: alike_def)

lemma alike_hooks: "alike c d \<Longrightarrow> alike (fold hook_step es c) (fold hook_step es d)"
  by (induction es arbitrary: c d) (simp_all add: alike_hook)

lemma alike_capture:
  "alike c d \<Longrightarrow> capture v x c = (q, c') \<Longrightarrow> \<exists>d'. capture v x d = (q, d') \<and> alike c' d'"
  by (auto simp: capture_def capture_chunk_def Let_def alike_def note_task_def split: turn_input.splits if_splits option.splits)

lemma alike_collect: "alike c d \<Longrightarrow> collect v es c = (r, c') \<Longrightarrow> \<exists>d'. collect v es d = (r, d') \<and> alike c' d'"
proof (induction es arbitrary: c d r c')
  case (Cons e es)
  show ?case
  proof (cases e)
    case (Input x)
    obtain q c1 where k: "capture v x c = (q, c1)" by fastforce
    obtain d1 where k': "capture v x d = (q, d1)" and a: "alike c1 d1"
      using alike_capture [OF Cons.prems(1) k] by blast
    obtain r2 c2 where l: "collect v es c1 = (r2, c2)" by fastforce
    obtain d2 where l': "collect v es d1 = (r2, d2)" and b: "alike c2 d2" using Cons.IH [OF a l] by blast
    show ?thesis
      using Cons.prems(2) Input k k' a b l l' alike_hooks [OF a]
      by (cases q; cases x; cases r2) auto
  qed (use Cons alike_hook [of c d e] in \<open>auto simp del: hook_step.simps\<close>)
qed simp

lemma alike_commit_user:
  "alike c d \<Longrightarrow> commit_user rc c = (ok, c') \<Longrightarrow> \<exists>d'. commit_user rc d = (ok, d') \<and> alike c' d'"
  by (auto simp: commit_user_def Let_def alike_def set_turn_def add_messages_def touch_def split: if_splits option.splits)

lemma alike_commit_answer:
  assumes "alike c d" "commit_answer rc m c = (ok, c')"
  shows "\<exists>d'. commit_answer rc m d = (ok, d') \<and> alike c' d'"
proof -
  obtain b c1 where u: "commit_user rc c = (b, c1)" by fastforce
  obtain d1 where "commit_user rc d = (b, d1)" "alike c1 d1" using alike_commit_user [OF assms(1) u] by blast
  then show ?thesis using assms(2) u
    by (cases b) (auto simp: commit_answer_def add_assistant_response_def alike_def add_messages_def touch_def)
qed

lemma begin_alike: "begin_active_response i n k tick c = Some b \<Longrightarrow> alike c b \<and> s_client (cv_session b) = s_client (cv_session c)"
  by (auto simp: begin_active_response_def alike_def split: if_splits)

lemma stored_response:
  "rt_store rc \<noteq> Some False \<Longrightarrow> get_turn_response (rt_next rc) (cv_session (store_response rc r c)) = Some (dump_response r)"
  by (simp add: store_response_def record_response_def record_turn_response_def get_turn_response_def dget_dput)

lemma leave_background_user [simp]: "s_user (cv_session (leave_background rc oc c)) = s_user (cv_session c)"
  by (simp add: leave_background_def finish_active_response_def clear_active_def touch_conv_def touch_def resume_reader_def
      unlock_def unlock_session_def Let_def split_beta)

lemma leave_background_fields [simp]:
  "s_turns (cv_session (leave_background rc oc c)) = s_turns (cv_session c)"
  "s_messages (cv_session (leave_background rc oc c)) = s_messages (cv_session c)"
  "s_records (cv_session (leave_background rc oc c)) = s_records (cv_session c)"
  "\<not> s_locked (cv_session (leave_background rc oc c))"
  "s_active (cv_session (leave_background rc oc c)) \<noteq> Some (rid rc)"
  by (simp_all add: leave_background_def turn_fields touch_conv_def touch_def)

lemma drop_unlocked_fields [simp]:
  "s_turns (cv_session (drop_unlocked k c)) = s_turns (cv_session c)"
  "s_messages (cv_session (drop_unlocked k c)) = s_messages (cv_session c)"
  "s_records (cv_session (drop_unlocked k c)) = s_records (cv_session c)"
  "\<not> s_locked (cv_session (drop_unlocked k c))"
  by (simp_all add: drop_unlocked_def turn_fields)

definition same_commit :: "route_cfg \<Rightarrow> answer \<times> conv \<Rightarrow> response_object option \<times> conv \<Rightarrow> bool" where
  "same_commit rc direct background \<longleftrightarrow>
     s_turns (cv_session (snd direct)) = s_turns (cv_session (snd background)) \<and>
     s_messages (cv_session (snd direct)) = s_messages (cv_session (snd background)) \<and>
     (case fst direct of
        Answered r \<Rightarrow>
          fst background = None \<and>
          (rt_store rc \<noteq> Some False \<longrightarrow>
             get_turn_response (rt_next rc) (cv_session (snd direct)) = Some (dump_response r) \<and>
             get_turn_response (rt_next rc) (cv_session (snd background)) = Some (dump_response (mark_background r)))
      | Http_error n \<Rightarrow> (\<exists>x. fst background = Some x \<and> ro_status x = ''failed'')
      | No_answer \<Rightarrow> False)"

lemma same_failure:
  "alike c d \<Longrightarrow> same_commit rc (Http_error n, drop_unlocked k c) (fail_background rc k' b err msg d)"
  by (cases b) (simp_all add: same_commit_def fail_background_def alike_def mark_background_def)

lemma same_answer:
  assumes "alike c d"
  shows "same_commit rc (Answered r, unlock (store_response rc r c))
      (None, leave_background rc oc (store_response rc (mark_background r) d))"
  using assms stored_response [of rc r c] stored_response [of rc "mark_background r" d]
  by (simp add: same_commit_def alike_def get_turn_response_def)

lemma same_late_failure:
  "alike c d \<Longrightarrow> same_commit rc (Http_error n, unlock c) (fail_background rc k b err msg d)"
  by (cases b) (simp_all add: same_commit_def fail_background_def alike_def mark_background_def)

lemma same_reply:
  assumes "alike c d" "s_turns (cv_session c) = rt_next rc"
  shows "same_commit rc
      (Answered r, resume_reader rd (record_response (rt_store rc) (s_turns (cv_session (unlock c))) r (unlock c)))
      (None, leave_background rc oc (store_response rc (mark_background r) d))"
  using assms stored_response [of rc r "unlock c"] stored_response [of rc "mark_background r" d]
  by (auto simp: same_commit_def alike_def get_turn_response_def store_response_def record_response_def record_turn_response_def)


section \<open>Samples\<close>

text \<open>A session whose turn is in flight, a call to ask the user, and two chunks.\<close>

definition sample_route :: "bool \<Rightarrow> route_cfg" where
  "sample_route fresh =
     \<lparr>rt_turn = sample_cfg, rt_view = \<lparr>tv_backend = ''claude'', tv_show = (\<lambda>_. []), tv_task = (\<lambda>_. Plain_chunk)\<rparr>,
      rt_store = Some True, rt_next = 1, rt_prompt = J_str ''Why?'', rt_fresh = fresh, rt_created = 0, rt_now = 0,
      rt_readable = True, rt_parse = (\<lambda>_. None), rt_estimate = (\<lambda>_ _. (1, 1)), rt_uuid = (\<lambda>n. dec n)\<rparr>"

definition sample_conv :: "string option \<Rightarrow> conv" where
  "sample_conv active =
     \<lparr>cv_session = (new_session ''s'' 60 0)\<lparr>s_client := Some 0, s_locked := True, s_active := active\<rparr>, cv_outbox = None,
      cv_cached = True, cv_input = None, cv_turn = Some 1, cv_state = Some Turn_running, cv_client = Some 0,
      cv_done = False, cv_stopped = []\<rparr>"

definition sample_active :: conv where
  "sample_active = sample_conv (Some (tc_response_id sample_cfg))"

definition sample_call :: json where
  "sample_call = J_obj [(''call_id'', J_str ''c1''), (''name'', J_str ask_user_question), (''arguments'', J_obj [])]"

definition says_hi :: back_event where
  "says_hi = Input (block_delta ''text_delta'' ''text'' (J_str ''Hi''))"

definition cut_by_turn_limit :: back_event where
  "cut_by_turn_limit =
     Input (Item 0 \<lparr>ck_fields = [(''type'', J_str ''result''), (''subtype'', J_str ''error_max_turns'')], ck_content = None\<rparr>)"

definition final_result :: back_event where
  "final_result =
     Input (Item 0 \<lparr>ck_fields = [(''type'', J_str ''result''), (''subtype'', J_str ''success''), (''result'', J_str ''Hi'')], ck_content = None\<rparr>)"

definition sample_run :: "bool \<Rightarrow> back_event list \<Rightarrow> (string \<times> string option) list \<times> nat \<times> nat list" where
  "sample_run fresh es =
     (let (fs, c) = run_stream (sample_route fresh) es sample_active
      in (endings fs, s_turns (cv_session c), cv_stopped c))"

lemma sample_parked: "sample_run True [Parks sample_call] = ([(''requires_action'', None)], 1, [])"
  by code_simp

text \<open>A stream that fails while a call is pending tells the client of two ends.\<close>

lemma sample_failed_parked:
  "sample_run True [Parks sample_call, Input Broken] = ([(''failed'', None), (''requires_action'', None)], 1, [])"
  by code_simp

text \<open>
  A continuation that asks the user again after some text tells two ends, the first a plain
  completion; an empty one tells none; a turn stopped by the turn limit tells of an incomplete
  response that is not committed, and loses its client.
\<close>

lemma continuation_pause_ends_twice:
  "sample_run False [says_hi, Parks sample_call] = ([(''completed'', None), (''requires_action'', None)], 1, [])"
  by code_simp

lemma continuation_empty_never_ends: "sample_run False [] = ([], 0, [0])"
  by code_simp

lemma turn_limit_not_committed: "sample_run True [cut_by_turn_limit] = ([(''incomplete'', Some ''max_turns'')], 0, [0])"
  by code_simp

text \<open>
  A client that leaves after the completed frame and before the commit: the turn is over as a
  success and keeps its client, but the response the client has seen cannot be gone on from.
\<close>

lemma left_after_completion_uncommitted:
  "endings (map Turn_frame (fst (snd (snd (streamed (sample_route True) [says_hi] sample_active))))) = [(''completed'', None)]"
  "s_turns (cv_session (abandon_stream (sample_route True) True [says_hi] sample_active)) = 0"
  "cv_stopped (abandon_stream (sample_route True) True [says_hi] sample_active) = []"
  by code_simp+


theorem fresh_stream_ends_once_witness:
  "length (endings (fst (run_stream (sample_route True) [Parks sample_call, Input Broken] sample_active))) = 2"
proof -
  let ?es = "[Parks sample_call, Input Broken]"
  obtain c1 s out r where t: "streamed (sample_route True) ?es sample_active = (c1, s, out, r)" by (rule prod_cases4)
  have h: "message_text (rt_prompt (sample_route True)) \<noteq> None" "list_all parks_well ?es" "parked_well sample_active"
    "rt_fresh (sample_route True)"
    by code_simp+
  have "(snd (snd (snd (streamed (sample_route True) ?es sample_active))), s_pending (cv_session (fst (streamed (sample_route True) ?es sample_active)))) =
      (Failed_turn, Some sample_call)"
    by code_simp
  then have "r = Failed_turn" "s_pending (cv_session c1) \<noteq> None" by (simp_all add: t)
  then show ?thesis using fresh_stream_ends_once [OF h t] by simp
qed


end
