(* ===== verification/ResponseControl.thy ===== *)
theory ResponseControl
  imports ResponseCommit
begin

text \<open>
  The other operations of \<open>src/src/routes/responses.py\<close> on a response: retrieving, deleting and
  cancelling it, and the registry of background runs; and the session's control state as a step
  relation of turns and cancel requests.
\<close>

section \<open>Ids\<close>

lemma dec_no_bar: "CHR ''_'' \<notin> set (dec n)"
  by (rule dec_free) (simp add: is_digit_def)

theorem response_id_roundtrip:
  assumes "is_uuid sid" "CHR ''_'' \<notin> set sid" "0 < n" "n < 10 ^ max_str_digits"
  shows "parse_response_id (make_response_id sid n) = Some (sid, n)"
proof -
  have a: "make_response_id sid n = ''resp'' @ CHR ''_'' # (sid @ CHR ''_'' # dec n)"
    by (simp add: make_response_id_def)
  have "split_on (CHR ''_'') (make_response_id sid n) = ''resp'' # sid # [dec n]"
    unfolding a using split_on_append [of "CHR ''_''" "''resp''"] split_on_append [OF assms(2)] split_on_free [OF dec_no_bar]
    by simp
  then show ?thesis using assms by (simp add: parse_response_id_def split_three_def py_int_dec)
qed

lemma delete_all_keeps: "x \<in> set s \<Longrightarrow> x \<notin> set w \<Longrightarrow> x \<in> set (delete_all w s)"
proof (induction w s rule: delete_all.induct)
  case (2 w c cs)
  show ?case
  proof (cases "w \<noteq> [] \<and> starts_with w (c # cs)")
    case True
    then obtain t where t: "c # cs = w @ t" by (auto elim: starts_withE)
    then have "x \<in> set t" using 2 by (metis Un_iff set_append)
    have d: "drop (length w) (c # cs) = t" unfolding t by simp
    have "delete_all w (c # cs) = delete_all w (drop (length w) (c # cs))" using True by (subst delete_all.simps) (rule if_P)
    then show ?thesis using 2(1) [OF True] \<open>x \<in> set t\<close> 2(4) unfolding d by simp
  qed (use 2 in auto)
qed simp

lemma dropWhile_keeps: "x \<in> set s \<Longrightarrow> \<not> P x \<Longrightarrow> x \<in> set (dropWhile P s)"
  by (induction s) auto

lemma hex_run_chars: "hex_run sep s \<Longrightarrow> x \<in> set s \<Longrightarrow> is_hex x \<or> x = CHR ''_''"
  by (induction sep s rule: hex_run.induct) (auto split: if_splits)

lemma hex_int_chars:
  assumes "is_hex_int s" "x \<in> set s"
  shows "is_hex x \<or> is_space x \<or> x \<in> {CHR ''_'', CHR ''+'', CHR ''-'', CHR ''x'', CHR ''X''}"
proof (cases "is_space x")
  case False
  have t: "x \<in> set (strip_text s)"
    using assms(2) False dropWhile_keeps [of x _ is_space] by (simp add: strip_text_def)
  define u where "u = (case strip_text s of c # r \<Rightarrow> if c \<in> {CHR ''+'', CHR ''-''} then r else strip_text s | [] \<Rightarrow> strip_text s)"
  have u: "x \<in> set u \<or> x \<in> {CHR ''+'', CHR ''-''}"
    using t by (auto simp: u_def split: list.splits)
  have run: "case u of
           a # b # r \<Rightarrow>
             if a = CHR ''0'' \<and> b \<in> {CHR ''x'', CHR ''X''} then
               (case r of c # r' \<Rightarrow> if c = CHR ''_'' then hex_run True r' else hex_run True r | [] \<Rightarrow> False)
             else hex_run True u
         | _ \<Rightarrow> hex_run True u"
    using assms(1) unfolding is_hex_int_def Let_def u_def .
  have "is_hex x \<or> x \<in> {CHR ''_'', CHR ''+'', CHR ''-'', CHR ''x'', CHR ''X'', CHR ''0''}" if "x \<in> set u"
    using run that by (auto split: list.splits if_splits dest: hex_run_chars)
  then show ?thesis using u by (auto simp: is_hex_def is_digit_def)
qed simp

text \<open>
   A session id read from a response id names no other directory: it has no slash, no dot and
  no null character, whatever the client sent (the id becomes the name of the transcript file).
\<close>

theorem parsed_session_id_is_no_path:
  assumes "parse_response_id r = Some (sid, n)"
  shows "CHR ''/'' \<notin> set sid \<and> CHR ''.'' \<notin> set sid \<and> CHR 0x00 \<notin> set sid \<and> sid \<noteq> [] \<and> 0 < n"
proof -
  have u: "is_uuid sid" and n: "0 < n"
    using assms by (auto simp: parse_response_id_def split: option.splits prod.splits if_splits)
  define h where "h = delete_all ''-'' (strip_chars {CHR ''{'', CHR ''}''} (delete_all ''uuid:'' (delete_all ''urn:'' sid)))"
  have h: "length h = 32" "is_hex_int h" using u by (simp_all add: is_uuid_def h_def Let_def)
  have keep: "x \<in> set h" if "x \<in> set sid" "x \<in> {CHR ''/'', CHR ''.'', CHR 0x00}" for x
    using that unfolding h_def strip_chars_def
    by (auto intro!: delete_all_keeps dropWhile_keeps)
  have no: "x \<notin> set sid" if "x \<in> {CHR ''/'', CHR ''.'', CHR 0x00}" for x
  proof
    assume "x \<in> set sid"
    from hex_int_chars [OF h(2) keep [OF this that]] that show False
      by (auto simp: is_hex_def is_digit_def is_space_def)
  qed
  have "sid \<noteq> []" using h(1) by (auto simp: h_def strip_chars_def)
  then show ?thesis using no n by simp
qed

theorem parsed_session_id_is_no_path_witness:
  "CHR ''/'' \<notin> set ''0123456789abcdef0123456789abcdef''"
proof -
  have "parse_response_id ''resp_0123456789abcdef0123456789abcdef_7'' = Some (''0123456789abcdef0123456789abcdef'', 7)"
    by code_simp
  from parsed_session_id_is_no_path [OF this] show ?thesis by simp
qed

section \<open>Retrieving and deleting\<close>

text \<open>The registry of background runs: the session and the payload of a response id.\<close>

type_synonym run_registry = "(string, string \<times> json) dict"

definition register_background_run :: "string \<Rightarrow> string \<Rightarrow> json \<Rightarrow> run_registry \<Rightarrow> run_registry" where
  "register_background_run i sid payload runs = dput i (sid, payload) runs"

definition with_status :: "string \<Rightarrow> json \<Rightarrow> json" where
  "with_status st payload = (case payload of J_obj d \<Rightarrow> J_obj (dput ''status'' (J_str st) d) | v \<Rightarrow> v)"

definition set_background_run_status :: "string \<Rightarrow> string \<Rightarrow> run_registry \<Rightarrow> run_registry" where
  "set_background_run_status i st runs =
     (case dget runs i of None \<Rightarrow> runs | Some (sid, payload) \<Rightarrow> dput i (sid, with_status st payload) runs)"

definition set_background_run_payload :: "string \<Rightarrow> json \<Rightarrow> run_registry \<Rightarrow> run_registry" where
  "set_background_run_payload i payload runs =
     (case dget runs i of None \<Rightarrow> runs | Some (sid, old) \<Rightarrow> dput i (sid, payload) runs)"

definition drop_background_run :: "string \<Rightarrow> run_registry \<Rightarrow> run_registry" where
  "drop_background_run i runs = ddel i runs"

text \<open>\<open>cache\<close> is the session cache's \<open>get_session\<close>; no value is a 404.\<close>

definition owned_by :: "string option \<Rightarrow> conv \<Rightarrow> bool" where
  "owned_by user c \<longleftrightarrow> user = None \<or> s_user (cv_session c) = user"

definition lookup_stored_response :: "(string \<Rightarrow> conv option) \<Rightarrow> string \<Rightarrow> string option \<Rightarrow> (conv \<times> string \<times> nat) option" where
  "lookup_stored_response cache i user =
     (case parse_response_id i of
        None \<Rightarrow> None
      | Some (sid, n) \<Rightarrow>
          (case cache sid of
             None \<Rightarrow> None
           | Some c \<Rightarrow> if \<not> owned_by user c \<or> s_turns (cv_session c) < n then None else Some (c, sid, n)))"

definition get_response ::
  "(string \<Rightarrow> conv option) \<Rightarrow> string option \<Rightarrow> string \<Rightarrow> run_registry \<Rightarrow> json option \<times> run_registry" where
  "get_response cache user i runs =
     (case dget runs i of
        Some (sid, payload) \<Rightarrow>
          (case cache sid of
             None \<Rightarrow> (None, drop_background_run i runs)
           | Some c \<Rightarrow> (if owned_by user c then Some payload else None, runs))
      | None \<Rightarrow>
          (case lookup_stored_response cache i user of
             None \<Rightarrow> (None, runs)
           | Some (c, sid, n) \<Rightarrow> (get_turn_response n (cv_session c), runs)))"

datatype deletion = Nothing_there | Not_latest string | Deletes string

definition delete_response :: "(string \<Rightarrow> conv option) \<Rightarrow> string option \<Rightarrow> string \<Rightarrow> deletion" where
  "delete_response cache user i =
     (case lookup_stored_response cache i user of
        None \<Rightarrow> Nothing_there
      | Some (c, sid, n) \<Rightarrow>
          if n \<noteq> s_turns (cv_session c) then Not_latest (make_response_id sid (s_turns (cv_session c))) else Deletes sid)"

text \<open>
  The course of a background run: accepted, in progress, its outcome on the session or in the
  registry, and for a committed one the entry dropped.
\<close>

definition queued_object :: "route_cfg \<Rightarrow> response_object" where
  "queued_object rc =
     mark_background (new_response (rid rc) (rt_created rc) ''queued'' (turn_model rc) (jor (turn_metadata rc) (J_obj [])))"

definition background_course ::
  "route_cfg \<Rightarrow> ending \<Rightarrow> back_event list \<Rightarrow> run_registry \<Rightarrow> conv \<Rightarrow> (run_registry \<times> conv) list" where
  "background_course rc en es runs c =
     (let r0 = register_background_run (rid rc) (s_id (cv_session c)) (dump_response (queued_object rc)) runs;
          r1 = set_background_run_status (rid rc) ''in_progress'' r0;
          (f, c') = run_background rc en es c
      in case f of
           None \<Rightarrow> [(r0, c), (r1, c), (r1, c'), (drop_background_run (rid rc) r1, c')]
         | Some x \<Rightarrow> [(r0, c), (r1, c), (set_background_run_payload (rid rc) (dump_response x) r1, c')])"

lemma dump_id [simp]: "jfield (dump_response r) ''id'' = J_str (ro_id r)"
  by (simp add: dump_response_def jget_or_def dget_def)

lemma with_status_id: "jfield (with_status st (dump_response r)) ''id'' = J_str (ro_id r)"
  by (simp add: with_status_def dump_response_def jget_or_def dget_dput) (simp add: dget_def)

lemma object_ids [simp]:
  "ro_id (failed_object rc err msg) = rid rc" "ro_id (mark_background r) = ro_id r"
  "ro_id (completed_object rc cs t ts u) = rid rc" "ro_id (incomplete_object rc t u) = rid rc"
  "ro_id (queued_object rc) = rid rc"
  "ro_id (response_of_turn k x) = re_id x"
  by (auto simp: failed_object_def build_failed_response_def mark_background_def completed_object_def build_completed_response_def
      incomplete_object_def queued_object_def new_response_def response_of_turn_def split: prod.splits)

lemma pause_fields: "pause_object rc tc = Some r \<Longrightarrow> ro_id r = rid rc \<and> ro_status r = ''requires_action''"
  by (auto simp: pause_object_def build_requires_action_response_def new_response_def)

lemma reply_object_id: "reply_object rc cs p = Some r \<Longrightarrow> ro_id r = rid rc"
  by (auto simp: reply_object_def)

text \<open>A background run ends with its response stored, or with a failed payload; the owner stays.\<close>

lemma kept_user: "kept c = kept d \<Longrightarrow> s_user (cv_session c) = s_user (cv_session d)"
  by (simp add: kept_def Let_def)

lemma disconnect_user [simp]: "s_user (cv_session (disconnect_session_client k c)) = s_user (cv_session c)"
  by (simp add: disconnect_session_client_def clear_stale_pending_tool_call_def pause_reader_def reset_tasks_def Let_def
      split: option.split)

definition background_done :: "route_cfg \<Rightarrow> conv \<Rightarrow> response_object option \<times> conv \<Rightarrow> bool" where
  "background_done rc c r \<longleftrightarrow>
     s_user (cv_session (snd r)) = s_user (cv_session c) \<and>
     (case fst r of
        Some x \<Rightarrow> ro_id x = rid rc
      | None \<Rightarrow>
          s_turns (cv_session (snd r)) = rt_next rc \<and>
          (\<exists>x. get_turn_response (rt_next rc) (cv_session (snd r)) = Some (dump_response x) \<and> ro_id x = rid rc))"

lemma failing_done: "s_user (cv_session d) = s_user (cv_session c) \<Longrightarrow> background_done rc c (fail_background rc k b err msg d)"
  by (simp add: background_done_def fail_background_def)

lemma storing_done:
  assumes "rt_store rc \<noteq> Some False" "kept d = kept e" "s_user (cv_session e) = s_user (cv_session c)"
    and "s_turns (cv_session d) = rt_next rc" "ro_id x = rid rc"
  shows "background_done rc c (None, leave_background rc oc (store_response rc x d))"
proof -
  have "s_user (cv_session (store_response rc x d)) = s_user (cv_session c)"
    using kept_user [of "store_response rc x d" d] kept_user [OF assms(2)] assms(3) by simp
  moreover have "get_turn_response (rt_next rc) (cv_session (leave_background rc oc (store_response rc x d))) = Some (dump_response x)"
    using stored_response [OF assms(1), of x d] by (simp add: get_turn_response_def)
  ultimately show ?thesis using assms(4,5) by (auto simp: background_done_def)
qed

lemma run_background_done:
  assumes "rt_store rc \<noteq> Some False" "message_text (rt_prompt rc) \<noteq> None" "list_all parks_well es" "parked_well c"
  shows "background_done rc c (run_background rc en es c)"
proof -
  obtain q c1 where q: "collect (rt_view rc) es c = (q, c1)" by fastforce
  have u: "s_user (cv_session c1) = s_user (cv_session c)" by (rule coreD [OF core_collect [OF q]])
  note fails = failing_done [OF u]
  have stored: "background_done rc c (None, leave_background rc oc (store_response rc x d))"
    if "kept d = kept c1" "s_turns (cv_session d) = rt_next rc" "ro_id x = rid rc" for oc x d
    by (rule storing_done [OF assms(1) that(1) u that(2,3)])
  have inter: "background_done rc c (finish_interrupted rc k cs c1)" for k cs
  proof (cases "split_assistant_text_and_thinking (tc_show (rt_turn rc)) cs (case rt_parse rc cs of None \<Rightarrow> [] | Some t \<Rightarrow> t)")
    case None
    then show ?thesis using fails by (simp add: finish_interrupted_def Let_def)
  next
    case (Some x)
    obtain t ts where x: "x = (t, ts)" by fastforce
    obtain ok d where a: "commit_answer rc (assistant_or_empty t ts) c1 = (ok, d)" by fastforce
    note f = commit_answer_fields [OF a]
    show ?thesis
      using Some x a fails stored [OF f(2) f(1)] f(3) [OF assms(2)]
      by (cases "usage_of rc cs (usage_text t ts)") (simp_all add: finish_interrupted_def Let_def)
  qed
  show ?thesis
  proof (cases "q = Source_failed \<or> en \<noteq> Runs_out")
    case True
    then show ?thesis using fails by (cases q; cases en) (auto simp: run_background_def q Let_def)
  next
    case False
    then obtain cs where cs: "q = Collected cs" "en = Runs_out" by (cases q) auto
    show ?thesis
    proof (cases "interrupted_by_gateway cs \<or> first_error (tc_show (rt_turn rc)) cs \<noteq> None")
      case bad: True
      show ?thesis
      proof (cases "interrupted_by_gateway cs")
        case True
        then show ?thesis using fails inter cs by (simp add: run_background_def q Let_def)
      next
        case False
        then obtain e where e: "first_error (tc_show (rt_turn rc)) cs = Some e" using bad by auto
        obtain k m where "e = (k, m)" by fastforce
        then show ?thesis using False e fails inter cs by (cases k) (simp_all add: run_background_def q Let_def)
      qed
    next
      case False
      then have ok: "\<not> interrupted_by_gateway cs" "first_error (tc_show (rt_turn rc)) cs = None" by blast+
      show ?thesis
      proof (cases "s_pending (cv_session c1)")
        case (Some tc)
        have "askable tc" using collect_parks [OF q assms(3,4)] Some by (simp add: parked_well_def)
        then obtain r where r: "pause_object rc tc = Some r" using pause_object_askable by auto
        obtain ok d where a: "commit_user rc c1 = (ok, d)" by fastforce
        note f = commit_user_fields [OF a]
        show ?thesis
          using ok Some r pause_fields [OF r] a cs stored [OF f(2) f(1)] f(3) [OF assms(2)]
          by (simp add: run_background_def q Let_def)
      next
        case none: None
        show ?thesis
        proof (cases "read_reply rc cs")
          case (Reply p)
          obtain ok d where a: "commit_answer rc (rp_message p) c1 = (ok, d)" by fastforce
          note f = commit_answer_fields [OF a]
          have d: "s_user (cv_session d) = s_user (cv_session c)" using kept_user [OF f(2)] u by simp
          show ?thesis
            using ok none Reply a cs stored [OF f(2) f(1)] f(3) [OF assms(2)] failing_done [OF d] reply_object_id
            by (cases "reply_object rc cs p") (simp_all add: run_background_def q Let_def)
        qed (use ok none fails cs in \<open>simp_all add: run_background_def q Let_def\<close>)
      qed
    qed
  qed
qed

lemma registered_found:
  assumes "dget runs i = Some (sid, payload)" "owned_by user c"
  shows "fst (get_response (\<lambda>t. if t = sid then Some c else None) user i runs) = Some payload"
  using assms by (simp add: get_response_def)

lemma stored_found:
  assumes "dget runs i = None" "parse_response_id i = Some (sid, n)" "owned_by user c" "s_turns (cv_session c) = n"
    and "get_turn_response n (cv_session c) = Some v"
  shows "fst (get_response (\<lambda>t. if t = sid then Some c else None) user i runs) = Some v"
  using assms by (simp add: get_response_def lookup_stored_response_def)

text \<open>
  C8.  A background response can be polled at every moment from its acceptance on, by its owner or
  an unscoped caller: in the registry or among the session's stored responses, always as the
  response of that id.
\<close>

theorem background_response_found:
  assumes "rt_store rc \<noteq> Some False" "message_text (rt_prompt rc) \<noteq> None" "list_all parks_well es" "parked_well c"
    and "sid = s_id (cv_session c)" "is_uuid sid" "CHR ''_'' \<notin> set sid" "0 < rt_next rc" "rt_next rc < 10 ^ max_str_digits"
    and "rid rc = make_response_id sid (rt_next rc)" "owned_by user c"
  shows "list_all
    (\<lambda>(runs', c'). \<exists>v. fst (get_response (\<lambda>t. if t = sid then Some c' else None) user (rid rc) runs') = Some v \<and>
        jfield v ''id'' = J_str (rid rc))
    (background_course rc en es runs c)"
proof -
  let ?found = "\<lambda>(runs', c'). \<exists>v. fst (get_response (\<lambda>t. if t = sid then Some c' else None) user (rid rc) runs') = Some v \<and>
        jfield v ''id'' = J_str (rid rc)"
  obtain f c' where r: "run_background rc en es c = (f, c')" by fastforce
  have d: "background_done rc c (f, c')" using run_background_done [OF assms(1-4), of en] by (simp add: r)
  have o: "owned_by user c'" using d assms(11) by (simp add: background_done_def owned_by_def)
  let ?r0 = "register_background_run (rid rc) (s_id (cv_session c)) (dump_response (queued_object rc)) runs"
  let ?r1 = "set_background_run_status (rid rc) ''in_progress'' ?r0"
  have g0: "dget ?r0 (rid rc) = Some (sid, dump_response (queued_object rc))"
    by (simp add: register_background_run_def dget_dput assms(5))
  have g1: "dget ?r1 (rid rc) = Some (sid, with_status ''in_progress'' (dump_response (queued_object rc)))"
    using g0 by (simp add: set_background_run_status_def dget_dput)
  have early: "?found (?r0, c)" "?found (?r1, c)" "?found (?r1, c')"
    using registered_found [OF g0 assms(11)] registered_found [OF g1 assms(11)] registered_found [OF g1 o]
    by (simp_all add: with_status_id)
  have parsed: "parse_response_id (rid rc) = Some (sid, rt_next rc)"
    unfolding assms(10) by (rule response_id_roundtrip [OF assms(6-9)])
  show ?thesis
  proof (cases f)
    case None
    then obtain x where x: "s_turns (cv_session c') = rt_next rc"
      "get_turn_response (rt_next rc) (cv_session c') = Some (dump_response x)" "ro_id x = rid rc"
      using d by (auto simp: background_done_def)
    have "dget (drop_background_run (rid rc) ?r1) (rid rc) = None" by (simp add: drop_background_run_def dget_ddel)
    from stored_found [OF this parsed o x(1) x(2)] have "?found (drop_background_run (rid rc) ?r1, c')" using x(3) by simp
    then show ?thesis using early None by (simp add: background_course_def r Let_def)
  next
    case (Some x)
    then have "ro_id x = rid rc" using d by (simp add: background_done_def)
    moreover have "dget (set_background_run_payload (rid rc) (dump_response x) ?r1) (rid rc) = Some (sid, dump_response x)"
      using g1 by (simp add: set_background_run_payload_def dget_dput)
    ultimately have "?found (set_background_run_payload (rid rc) (dump_response x) ?r1, c')"
      using registered_found [OF _ o] by simp
    then show ?thesis using early Some by (simp add: background_course_def r Let_def)
  qed
qed

definition polled_id :: string where
  "polled_id = ''0123456789abcdef0123456789abcdef''"

definition polled_route :: route_cfg where
  "polled_route = (sample_route True)\<lparr>rt_turn := sample_cfg\<lparr>tc_response_id := make_response_id polled_id 1\<rparr>\<rparr>"

definition polled_conv :: conv where
  "polled_conv = on_session (\<lambda>s. s\<lparr>s_id := polled_id\<rparr>) (sample_conv None)"

theorem background_response_found_witness:
  "list_all
    (\<lambda>(runs, c). \<exists>v. fst (get_response (\<lambda>t. if t = polled_id then Some c else None) None (rid polled_route) runs) = Some v \<and>
        jfield v ''id'' = J_str (rid polled_route))
    (background_course polled_route Runs_out [final_result] [] polled_conv)"
proof (rule background_response_found)
  note polled = polled_route_def polled_conv_def sample_route_def sample_conv_def new_session_def owned_by_def
  show "rt_store polled_route \<noteq> Some False" "polled_id = s_id (cv_session polled_conv)" "0 < rt_next polled_route"
    "rid polled_route = make_response_id polled_id (rt_next polled_route)" "owned_by None polled_conv"
    by (simp_all add: polled)
  show "message_text (rt_prompt polled_route) \<noteq> None" by (simp add: polled message_text_def)
  show "parked_well polled_conv" by (simp add: polled parked_well_def)
  show "list_all parks_well [final_result]" by (simp add: final_result_def)
  show "CHR ''_'' \<notin> set polled_id" by (simp add: polled_id_def)
  show "is_uuid polled_id" unfolding polled_id_def by code_simp
  have "(1 :: nat) < 10 ^ max_str_digits" by (rule one_less_power [OF _ max_str_digits_pos]) simp
  then show "rt_next polled_route < 10 ^ max_str_digits" by (simp add: polled)
qed

text \<open>
  A turn that failed in the background and is retried in the foreground: the retry has the same
  response id and commits, but the registry still answers with the failure.
\<close>

lemma stale_failure_shadows_retry:
  "let rc = sample_route True;
       (runs, c) = last (background_course rc Times_out [] [] (sample_conv None));
       c = snd (run_sync rc Runs_out [final_result] c)
   in map_option (\<lambda>v. jfield v ''status'') (fst (get_response (\<lambda>_. Some c) None (rid rc) runs)) = Some (J_str ''failed'') \<and>
      map_option (\<lambda>v. jfield v ''status'') (get_turn_response 1 (cv_session c)) = Some (J_str ''completed'')"
  by code_simp

end
