(* ===== verification/ResponseCancel.thy ===== *)
theory ResponseCancel
  imports ResponseControl
begin

text \<open>
  \<open>cancel_response\<close> of \<open>src/src/routes/responses.py\<close>, and the control state of a session as a step
  relation: turns that begin and finish, cancel requests, and interrupts whose answers come late.
\<close>

section \<open>A cancel request\<close>

text \<open>
  The answers, in the order of the checks: 404, 409 for a turn that is over, 200 when it is being
  cancelled already, 409, 503 for a backend that is gone, 400 for one without interrupts, 409 for a
  turn without a client, and the client to interrupt.  \<open>supports\<close> gives of a backend's name whether it
  can interrupt, and no value when it is not registered.
\<close>

datatype cancel_answer =
    Cancel_not_found
  | Not_cancellable
  | Already_cancelling
  | Not_running
  | Backend_gone
  | Cancel_unsupported
  | No_client
  | Interrupts nat

definition begin_cancel :: "(string \<Rightarrow> bool option) \<Rightarrow> string \<Rightarrow> nat \<Rightarrow> conv \<Rightarrow> cancel_answer \<times> conv" where
  "begin_cancel supports i turn c =
     (if s_active (cv_session c) \<noteq> Some i then
        (if turn \<le> s_turns (cv_session c) then Not_cancellable else Cancel_not_found, c)
      else if cv_state c = Some Turn_cancelling then (Already_cancelling, c)
      else if cv_state c \<noteq> Some Turn_running then (Not_running, c)
      else
        case supports (s_backend (cv_session c)) of
          None \<Rightarrow> (Backend_gone, c)
        | Some False \<Rightarrow> (Cancel_unsupported, c)
        | Some True \<Rightarrow>
            (case cv_client c of
               None \<Rightarrow> (No_client, c)
             | Some k \<Rightarrow> (Interrupts k, c\<lparr>cv_state := Some Turn_cancelling\<rparr>)))"

definition cancel_response ::
  "(string \<Rightarrow> bool option) \<Rightarrow> (string \<Rightarrow> conv option) \<Rightarrow> string option \<Rightarrow> string \<Rightarrow> cancel_answer \<times> conv option" where
  "cancel_response supports cache user i =
     (case parse_response_id i of
        None \<Rightarrow> (Cancel_not_found, None)
      | Some (sid, turn) \<Rightarrow>
          (case cache sid of
             None \<Rightarrow> (Cancel_not_found, None)
           | Some c \<Rightarrow>
               if \<not> owned_by user c then (Cancel_not_found, Some c)
               else let (a, c') = begin_cancel supports i turn c in (a, Some c')))"

text \<open>The interrupt failed or took too long: a turn of that id that is being cancelled runs again.\<close>

definition cancel_failed :: "string \<Rightarrow> conv \<Rightarrow> conv" where
  "cancel_failed i c =
     (if s_active (cv_session c) = Some i \<and> cv_state c = Some Turn_cancelling then c\<lparr>cv_state := Some Turn_running\<rparr> else c)"

section \<open>Turns and cancel requests in any order\<close>

text \<open>
  \<open>ct_run\<close> numbers the turns begun on the session; \<open>ct_calls\<close> are the interrupts that have not
  answered yet: the turn during which each was sent, the id it was sent for, the client.
\<close>

record control =
  ct_conv :: conv
  ct_run :: nat
  ct_calls :: "(nat \<times> string \<times> nat) list"

fun call_run :: "nat \<times> string \<times> nat \<Rightarrow> nat" where "call_run (n, i, k) = n"
fun call_id :: "nat \<times> string \<times> nat \<Rightarrow> string" where "call_id (n, i, k) = i"

inductive control_step :: "(string \<Rightarrow> bool option) \<Rightarrow> bool \<Rightarrow> control \<Rightarrow> control \<Rightarrow> bool" for supports fresh_ids where
  turn_begins: "begin_active_response i turn client tick (ct_conv t) = Some c \<Longrightarrow>
     (fresh_ids \<Longrightarrow> i \<notin> call_id ` set (ct_calls t)) \<Longrightarrow>
     control_step supports fresh_ids t (t\<lparr>ct_conv := c, ct_run := Suc (ct_run t)\<rparr>)"
| turn_finishes: "control_step supports fresh_ids t (t\<lparr>ct_conv := finish_active_response readable i oc now (ct_conv t)\<rparr>)"
| refuses: "begin_cancel supports i turn (ct_conv t) = (a, c) \<Longrightarrow> (\<And>k. a \<noteq> Interrupts k) \<Longrightarrow>
     control_step supports fresh_ids t (t\<lparr>ct_conv := c\<rparr>)"
| interrupts: "begin_cancel supports i turn (ct_conv t) = (Interrupts k, c) \<Longrightarrow>
     control_step supports fresh_ids t (t\<lparr>ct_conv := c, ct_calls := (ct_run t, i, k) # ct_calls t\<rparr>)"
| answers: "ct_calls t = xs @ x # ys \<Longrightarrow> control_step supports fresh_ids t (t\<lparr>ct_calls := xs @ ys\<rparr>)"
| fails: "ct_calls t = xs @ x # ys \<Longrightarrow>
     control_step supports fresh_ids t (t\<lparr>ct_conv := cancel_failed (call_id x) (ct_conv t), ct_calls := xs @ ys\<rparr>)"

inductive_cases control_stepE: "control_step supports fresh_ids t t'"

definition idle_control :: "control \<Rightarrow> bool" where
  "idle_control t \<longleftrightarrow> s_active (cv_session (ct_conv t)) = None \<and> ct_calls t = []"

text \<open>
  The invariant: the interrupts of the turn that runs went to its own id and client, there is at most
  one of them, and while it is out the turn is being cancelled.
\<close>

definition own_calls :: "control \<Rightarrow> (nat \<times> string \<times> nat) list" where
  "own_calls t = filter (\<lambda>x. call_run x = ct_run t) (ct_calls t)"

definition control_ok :: "control \<Rightarrow> bool" where
  "control_ok t \<longleftrightarrow>
     list_all (\<lambda>x. call_run x \<le> ct_run t) (ct_calls t) \<and>
     (case s_active (cv_session (ct_conv t)) of
        None \<Rightarrow> True
      | Some i \<Rightarrow>
          own_calls t = [] \<and> cv_state (ct_conv t) \<in> {Some Turn_running, Some Turn_cancelling} \<or>
          (\<exists>k. own_calls t = [(ct_run t, i, k)] \<and> cv_client (ct_conv t) = Some k \<and> cv_state (ct_conv t) = Some Turn_cancelling)) \<and>
     list_all (\<lambda>x. call_run x = ct_run t \<or> Some (call_id x) \<noteq> s_active (cv_session (ct_conv t))) (ct_calls t)"

lemma begin_cancel_active:
  assumes "begin_cancel supports i turn c = (a, c')"
  shows "s_active (cv_session c') = s_active (cv_session c)" "cv_client c' = cv_client c"
    "(\<forall>k. a \<noteq> Interrupts k) \<Longrightarrow> c' = c"
    "a = Interrupts k \<Longrightarrow> s_active (cv_session c) = Some i \<and> cv_client c = Some k \<and> cv_state c = Some Turn_running \<and>
       cv_state c' = Some Turn_cancelling"
  using assms by (auto simp: begin_cancel_def split: if_splits option.splits bool.splits)

lemma cancel_failed_fields [simp]:
  "cv_session (cancel_failed i c) = cv_session c" "cv_client (cancel_failed i c) = cv_client c"
  by (simp_all add: cancel_failed_def)

lemma own_drop: "filter P (xs @ x # ys) = (if P x then filter P xs @ x # filter P ys else filter P (xs @ ys))"
  by simp

text \<open>Taking an answered or failed call out.\<close>

lemma own_after:
  assumes "ct_calls t = xs @ x # ys" "own_calls t = [] \<or> own_calls t = [z]"
  shows "filter (\<lambda>x. call_run x = ct_run t) (xs @ ys) = (if call_run x = ct_run t then [] else own_calls t)"
    "call_run x = ct_run t \<Longrightarrow> own_calls t = [x]"
  using assms by (auto simp: own_calls_def append_eq_Cons_conv split: if_splits)

lemma begin_control_ok:
  assumes "control_ok t" "begin_active_response i turn client tick (ct_conv t) = Some c" "i \<notin> call_id ` set (ct_calls t)"
  shows "control_ok (t\<lparr>ct_conv := c, ct_run := Suc (ct_run t)\<rparr>)"
proof -
  have "list_all (\<lambda>x. call_run x \<le> ct_run t) (ct_calls t)" using assms(1) by (simp add: control_ok_def)
  then have "filter (\<lambda>x. call_run x = Suc (ct_run t)) (ct_calls t) = []"
    by (auto simp: list_all_iff filter_empty_conv)
  moreover have "\<forall>x \<in> set (ct_calls t). call_id x \<noteq> i" using assms(3) by blast
  moreover have "s_active (cv_session c) = Some i" "cv_state c = Some Turn_running"
    using assms(2) by (auto simp: begin_active_response_def split: if_splits)
  moreover have "\<forall>x \<in> set (ct_calls t). call_run x \<le> Suc (ct_run t)"
    using assms(1) by (auto simp: control_ok_def list_all_iff intro: le_SucI)
  ultimately show ?thesis by (simp add: control_ok_def own_calls_def list_all_iff)
qed

lemma finish_control_ok:
  assumes "control_ok t"
  shows "control_ok (t\<lparr>ct_conv := finish_active_response readable i oc now (ct_conv t)\<rparr>)"
proof (cases "s_active (cv_session (ct_conv t)) = Some i")
  case True
  then show ?thesis using assms by (simp add: control_ok_def finish_fields list_all_iff)
next
  case False
  then show ?thesis using assms by (simp add: finish_active_response_def)
qed

lemma interrupt_control_ok:
  assumes "control_ok t" "begin_cancel supports i turn (ct_conv t) = (Interrupts k, c)"
  shows "control_ok (t\<lparr>ct_conv := c, ct_calls := (ct_run t, i, k) # ct_calls t\<rparr>)"
proof -
  note b = begin_cancel_active [OF assms(2)]
  have now: "s_active (cv_session (ct_conv t)) = Some i" "cv_client (ct_conv t) = Some k"
    "cv_state (ct_conv t) = Some Turn_running" "cv_state c = Some Turn_cancelling"
    using b(4) [OF refl] by simp_all
  then have "own_calls t = []" using assms(1) by (auto simp: control_ok_def)
  then show ?thesis using assms(1) now b(1,2) by (simp add: control_ok_def own_calls_def)
qed

lemma drop_control_ok:
  assumes ok: "control_ok t" and calls: "ct_calls t = xs @ x # ys"
    and c: "c = ct_conv t \<or> c = cancel_failed (call_id x) (ct_conv t)"
  shows "control_ok (t\<lparr>ct_conv := c, ct_calls := xs @ ys\<rparr>)"
proof (cases "s_active (cv_session (ct_conv t))")
  case None
  then show ?thesis using ok calls c by (auto simp: control_ok_def)
next
  case (Some i)
  obtain z where z: "own_calls t = [] \<or> own_calls t = [z]" using ok Some by (auto simp: control_ok_def)
  note own = own_after [OF calls z]
  have same: "call_run x = ct_run t" if "call_id x = i"
    using ok calls Some that by (auto simp: control_ok_def)
  show ?thesis
  proof (cases "call_run x = ct_run t")
    case True
    then have "call_id x = i" "cv_state (ct_conv t) = Some Turn_cancelling"
      using ok Some own(2) by (auto simp: control_ok_def)
    then show ?thesis using True ok calls c Some own(1)
      by (auto simp: control_ok_def own_calls_def cancel_failed_def)
  next
    case False
    then have "c = ct_conv t" using c same Some by (auto simp: cancel_failed_def)
    then show ?thesis using False ok calls Some own(1) by (auto simp: control_ok_def own_calls_def)
  qed
qed

lemma control_step_ok: "control_step supports True t t' \<Longrightarrow> control_ok t \<Longrightarrow> control_ok t'"
proof (induction rule: control_step.induct)
  case (turn_begins i turn client tick t c)
  then show ?case using begin_control_ok by blast
next
  case (turn_finishes t readable i oc now)
  then show ?case by (rule finish_control_ok)
next
  case (refuses i turn t a c)
  then have "c = ct_conv t" using begin_cancel_active(3) by blast
  then show ?case using refuses by simp
next
  case (interrupts i turn t k c)
  then show ?case using interrupt_control_ok by blast
next
  case (answers t xs x ys)
  then show ?case using drop_control_ok [of t xs x ys "ct_conv t"] by simp
next
  case (fails t xs x ys)
  then show ?case using drop_control_ok [of t xs x ys "cancel_failed (call_id x) (ct_conv t)"] by simp
qed

lemma control_steps_ok: "(control_step supports True)\<^sup>*\<^sup>* t t' \<Longrightarrow> control_ok t \<Longrightarrow> control_ok t'"
  by (induction rule: rtranclp_induct) (auto dest: control_step_ok)


section \<open>Late answers\<close>

text \<open>
  Concrete courses: an interrupt whose turn ended meanwhile is still out when the next turn runs on
  the same client; and when that turn has the id of the failed one it is a retry of, the late
  failure undoes its cancelling, so a second interrupt is sent.
\<close>

definition sample_control :: control where
  "sample_control = \<lparr>ct_conv = sample_conv None, ct_run = 0, ct_calls = []\<rparr>"

definition turn_begun :: "string \<Rightarrow> nat \<Rightarrow> control \<Rightarrow> control" where
  "turn_begun i n t = t\<lparr>ct_conv := the (begin_active_response i n (Some 0) 0 (ct_conv t)), ct_run := Suc (ct_run t)\<rparr>"

definition turn_over :: "string \<Rightarrow> control \<Rightarrow> control" where
  "turn_over i t = t\<lparr>ct_conv := finish_active_response False i Failed_turn 0 (ct_conv t)\<rparr>"

definition cancelled :: "string \<Rightarrow> control \<Rightarrow> control" where
  "cancelled i t = t\<lparr>ct_conv := snd (begin_cancel (\<lambda>_. Some True) i 1 (ct_conv t)), ct_calls := (ct_run t, i, 0) # ct_calls t\<rparr>"

definition oldest_fails :: "control \<Rightarrow> control" where
  "oldest_fails t = t\<lparr>ct_conv := cancel_failed (call_id (last (ct_calls t))) (ct_conv t), ct_calls := butlast (ct_calls t)\<rparr>"

lemma begun_path:
  assumes "(control_step s b)\<^sup>*\<^sup>* u t" "s_active (cv_session (ct_conv t)) = None" "b \<longrightarrow> i \<notin> call_id ` set (ct_calls t)"
  shows "(control_step s b)\<^sup>*\<^sup>* u (turn_begun i n t)"
proof -
  have "control_step s b t (turn_begun i n t)"
    unfolding turn_begun_def using assms(2,3)
    by (intro turn_begins [where client = "Some 0" and tick = 0 and turn = n]) (auto simp: begin_active_response_def)
  with assms(1) show ?thesis by (rule rtranclp.rtrancl_into_rtrancl)
qed

lemma over_path: "(control_step s b)\<^sup>*\<^sup>* u t \<Longrightarrow> (control_step s b)\<^sup>*\<^sup>* u (turn_over i t)"
  unfolding turn_over_def by (erule rtranclp.rtrancl_into_rtrancl) (rule turn_finishes)

lemma cancelled_path:
  assumes "(control_step (\<lambda>_. Some True) b)\<^sup>*\<^sup>* u t" "fst (begin_cancel (\<lambda>_. Some True) i 1 (ct_conv t)) = Interrupts 0"
  shows "(control_step (\<lambda>_. Some True) b)\<^sup>*\<^sup>* u (cancelled i t)"
proof -
  have "control_step (\<lambda>_. Some True) b t (cancelled i t)"
    unfolding cancelled_def using assms(2) by (intro interrupts [where turn = 1]) (simp add: prod_eq_iff)
  with assms(1) show ?thesis by (rule rtranclp.rtrancl_into_rtrancl)
qed

lemma oldest_path:
  assumes "(control_step s b)\<^sup>*\<^sup>* u t" "ct_calls t \<noteq> []"
  shows "(control_step s b)\<^sup>*\<^sup>* u (oldest_fails t)"
proof -
  have "control_step s b t (oldest_fails t)"
    unfolding oldest_fails_def using fails [of t "butlast (ct_calls t)" "last (ct_calls t)" "[]"] assms(2) by simp
  with assms(1) show ?thesis by (rule rtranclp.rtrancl_into_rtrancl)
qed

lemmas control_paths = rtranclp.rtrancl_refl begun_path over_path cancelled_path oldest_path

lemma interrupt_outlives_its_turn:
  "\<exists>t. (control_step (\<lambda>_. Some True) True)\<^sup>*\<^sup>* sample_control t \<and> s_active (cv_session (ct_conv t)) = Some ''resp_b'' \<and>
     cv_state (ct_conv t) = Some Turn_running \<and> cv_client (ct_conv t) = Some 0 \<and> ct_calls t = [(1, ''resp_a'', 0)]"
proof -
  let ?a = "turn_begun ''resp_a'' 1 sample_control"
  let ?b = "cancelled ''resp_a'' ?a"
  let ?c = "turn_over ''resp_a'' ?b"
  let ?d = "turn_begun ''resp_b'' 2 ?c"
  have "s_active (cv_session (ct_conv sample_control)) = None" "ct_calls sample_control = []"
    "fst (begin_cancel (\<lambda>_. Some True) ''resp_a'' 1 (ct_conv ?a)) = Interrupts 0"
    "s_active (cv_session (ct_conv ?c)) = None" "ct_calls ?c = [(1, ''resp_a'', 0)]"
    by code_simp+
  then have "(control_step (\<lambda>_. Some True) True)\<^sup>*\<^sup>* sample_control ?d"
    by (intro control_paths) auto
  moreover have "s_active (cv_session (ct_conv ?d)) = Some ''resp_b''" "cv_state (ct_conv ?d) = Some Turn_running"
    "cv_client (ct_conv ?d) = Some 0" "ct_calls ?d = [(1, ''resp_a'', 0)]"
    by code_simp+
  ultimately show ?thesis by blast
qed

lemma late_failure_undoes_cancel:
  "\<exists>t. (control_step (\<lambda>_. Some True) False)\<^sup>*\<^sup>* sample_control t \<and> own_calls t = [(2, ''resp_a'', 0), (2, ''resp_a'', 0)]"
proof -
  let ?a = "turn_begun ''resp_a'' 1 sample_control"
  let ?b = "cancelled ''resp_a'' ?a"
  let ?c = "turn_over ''resp_a'' ?b"
  let ?d = "turn_begun ''resp_a'' 1 ?c"
  let ?e = "cancelled ''resp_a'' ?d"
  let ?f = "oldest_fails ?e"
  let ?g = "cancelled ''resp_a'' ?f"
  have "s_active (cv_session (ct_conv sample_control)) = None"
    "fst (begin_cancel (\<lambda>_. Some True) ''resp_a'' 1 (ct_conv ?a)) = Interrupts 0"
    "s_active (cv_session (ct_conv ?c)) = None"
    "fst (begin_cancel (\<lambda>_. Some True) ''resp_a'' 1 (ct_conv ?d)) = Interrupts 0"
    "ct_calls ?e \<noteq> []" "fst (begin_cancel (\<lambda>_. Some True) ''resp_a'' 1 (ct_conv ?f)) = Interrupts 0"
    by code_simp+
  then have "(control_step (\<lambda>_. Some True) False)\<^sup>*\<^sup>* sample_control ?g"
    by (intro control_paths) auto
  moreover have "own_calls ?g = [(2, ''resp_a'', 0), (2, ''resp_a'', 0)]" by code_simp
  ultimately show ?thesis by blast
qed


end
