(* ===== verification/ResponseStore.thy ===== *)
theory ResponseStore
  imports ResponseControl
begin

text \<open>
  What the turns of \<open>src/src/routes/responses.py\<close> leave among a session's stored responses, over
  every way a turn can run: streamed, left by its client, answered directly, continued, background.
\<close>

text \<open>The part of a session that retrieval reads, and what the steps of a turn keep of it.\<close>

definition stored :: "conv \<Rightarrow> string \<times> (nat, json) dict" where
  "stored c = (s_id (cv_session c), s_records (cv_session c))"

lemma stored_core: "core c' = core c \<Longrightarrow> stored c' = stored c"
  using coreD(3,8) [of c' c] by (simp add: stored_def)

lemma stored_ops [simp]:
  "stored (set_turn n c) = stored c" "stored (add_assistant_response now m c) = stored c"
  "stored (resume_reader b c) = stored c" "stored (unlock c) = stored c"
  "stored (disconnect_session_client k c) = stored c" "stored (finish_active_response b i oc now c) = stored c"
  "stored (touch_conv rc c) = stored c"
  by (simp_all add: stored_def set_turn_def add_assistant_response_def add_messages_def touch_def resume_reader_def
      unlock_def unlock_session_def disconnect_session_client_def clear_stale_pending_tool_call_def pause_reader_def
      reset_tasks_def finish_active_response_def clear_active_def touch_conv_def Let_def split_beta split: option.split)

lemma stored_ends [simp]:
  "stored (leave_background rc oc c) = stored c" "stored (drop_unlocked k c) = stored c"
  "stored (leave_continuation rc k ok c) = stored c" "stored (teardown_stream rc k cl c) = stored c"
  by (simp_all add: leave_background_def drop_unlocked_def leave_continuation_def teardown_stream_def Let_def)

lemma stored_commit_user: "commit_user rc c = (ok, c') \<Longrightarrow> stored c' = stored c"
  by (auto simp: commit_user_def Let_def stored_def add_messages_def touch_def set_turn_def split: if_splits option.splits)

lemma stored_commit_answer: "commit_answer rc m c = (ok, c') \<Longrightarrow> stored c' = stored c"
  using stored_commit_user [of rc c] by (auto simp: commit_answer_def split: prod.splits bool.splits)

lemma stored_fail [simp]: "stored (snd (fail_background rc k b err msg c)) = stored c"
  by (simp add: fail_background_def)

text \<open>A response with an id, and the store after a turn: as before, or with that response put.\<close>

definition response_of :: "string \<Rightarrow> json \<Rightarrow> bool" where
  "response_of i v \<longleftrightarrow>
     jfield v ''id'' = J_str i \<and> jfield v ''object'' = J_str ''response'' \<and>
     jfield v ''status'' \<in> {J_str ''completed'', J_str ''incomplete'', J_str ''requires_action''}"

definition filed :: "route_cfg \<Rightarrow> string \<times> (nat, json) dict \<Rightarrow> string \<times> (nat, json) dict \<Rightarrow> bool" where
  "filed rc old new \<longleftrightarrow>
     new = old \<or> (\<exists>v. response_of (rid rc) v \<and> new = (fst old, dput (rt_next rc) v (snd old)))"

lemma filed_same [simp]: "filed rc x x"
  by (simp add: filed_def)

lemma dump_fields:
  "jfield (dump_response r) ''object'' = J_str ''response''" "jfield (dump_response r) ''status'' = J_str (ro_status r)"
  by (simp_all add: dump_response_def jget_or_def dget_def)

lemma filed_store:
  assumes "ro_id r = rid rc" "ro_status r \<in> {''completed'', ''incomplete'', ''requires_action''}" "stored c = x"
  shows "filed rc x (stored (store_response rc r c))"
proof -
  have "response_of (rid rc) (dump_response r)" using assms(1,2) by (auto simp: response_of_def dump_fields)
  then show ?thesis
    using assms(3)
    by (auto simp: filed_def stored_def store_response_def record_response_def record_turn_response_def)
qed

lemma object_status [simp]:
  "ro_status (completed_object rc cs t ts u) = ''completed''" "ro_status (incomplete_object rc t u) = ''incomplete''"
  "ro_status (mark_background r) = ro_status r" "ro_status (response_of_turn k x) = status_text (re_status x)"
  by (simp_all add: completed_object_def build_completed_response_def incomplete_object_def mark_background_def new_response_def
      response_of_turn_def split_beta)

lemma reply_object_status: "reply_object rc cs p = Some r \<Longrightarrow> ro_status r = ''completed''"
  by (auto simp: reply_object_def)

section \<open>Every way a turn runs\<close>

lemma settle_pause_files:
  assumes "settle_pause rc n tc c = (c', fs, cl)"
  shows "filed rc (stored c) (stored c')"
  using assms
  by (auto simp: settle_pause_def Let_def intro!: filed_store dest: stored_commit_user pause_fields split: option.splits prod.splits bool.splits)

lemma record_stream_files:
  assumes "record_stream_turn_response rc s c = (ok, c')" "stored c = x"
  shows "filed rc x (stored c')"
  using assms by (auto simp: record_stream_turn_response_def intro!: filed_store split: if_splits option.splits)

lemma settle_files:
  assumes t: "streamed rc es c = (c1, s, out, r)" and e: "settle_stream rc s out r c1 = (c2, fs, cl)"
  shows "filed rc (stored c1) (stored c2)"
proof (cases "s_pending (cv_session c1)")
  case (Some tc)
  then show ?thesis using e settle_pause_files by (auto simp: settle_stream_def Let_def split: if_splits)
next
  case None
  let ?m = "assistant_or_empty (tn_visible s) (tn_thinking_texts s)"
  obtain ok c3 where a: "commit_answer rc ?m c1 = (ok, c3)" by fastforce
  obtain ok2 c4 where b: "record_stream_turn_response rc s c3 = (ok2, c4)" by fastforce
  note sa = stored_commit_answer [OF a]
  show ?thesis
  proof (cases "user_cancelled r out")
    case (Some x)
    then have "r = Incomplete_turn" by (auto simp: user_cancelled_def split: if_splits)
    then obtain y where y: "final_objects out = [y]" "re_id y = rid rc" "re_status y = Incomplete"
      using stream_endings_cases [OF t] by auto
    then have x: "re_id x = rid rc" "status_text (re_status x) = ''incomplete''"
      using Some by (auto simp: user_cancelled_def split: if_splits)
    show ?thesis
      using e None Some a x sa
      by (cases ok) (auto simp: settle_stream_def Let_def intro!: filed_store split: if_splits)
  next
    case none: None
    show ?thesis
      using e None none a b sa record_stream_files [OF b sa]
      by (cases ok; cases ok2) (auto simp: settle_stream_def Let_def split: if_splits)
  qed
qed

lemma stream_files: "run_stream rc es c = (fs, c') \<Longrightarrow> filed rc (stored c) (stored c')"
proof -
  assume r: "run_stream rc es c = (fs, c')"
  obtain c1 s out q where t: "streamed rc es c = (c1, s, out, q)" by (rule prod_cases4)
  obtain c2 gs cl where e: "settle_stream rc s out q c1 = (c2, gs, cl)" by (rule prod_cases3)
  have "stored c1 = stored c" by (rule stored_core [OF streamed_facts(1) [OF t]])
  then show ?thesis using settle_files [OF t e] r by (auto simp: run_stream_def t e Let_def)
qed

lemma abandon_files: "stored (abandon_stream rc through es c) = stored c"
proof -
  obtain c1 s out q where t: "streamed rc es c = (c1, s, out, q)" by (rule prod_cases4)
  show ?thesis using stored_core [OF streamed_facts(1) [OF t]] by (simp add: abandon_stream_def t Let_def)
qed

text \<open>The pause of a turn that is not streamed, and a stored reply.\<close>

lemma pause_files:
  assumes "commit_user rc c = (ok, d)" "pause_object rc tc = Some r"
  shows "filed rc (stored c) (stored (store_response rc r d))" "filed rc (stored c) (stored (store_response rc (mark_background r) d))"
  using stored_commit_user [OF assms(1)] pause_fields [OF assms(2)] by (auto intro!: filed_store)

lemma reply_files:
  assumes "reply_object rc cs p = Some r" "stored d = x"
  shows "filed rc x (stored (store_response rc r d))" "filed rc x (stored (store_response rc (mark_background r) d))"
  using assms reply_object_id [OF assms(1)] reply_object_status [OF assms(1)] by (auto intro!: filed_store)

lemma sync_files:
  assumes "run_sync rc en es c = (a, c')"
  shows "filed rc (stored c) (stored c')"
proof -
  obtain q c1 where q: "collect (rt_view rc) es c = (q, c1)" by fastforce
  have s: "stored c1 = stored c" by (rule stored_core [OF core_collect [OF q]])
  show ?thesis
  proof (cases "q = Source_failed \<or> en \<noteq> Runs_out")
    case True
    then show ?thesis using assms s by (cases q; cases en) (auto simp: run_sync_def q Let_def)
  next
    case False
    then obtain cs where cs: "q = Collected cs" "en = Runs_out" by (cases q; cases en) auto
    show ?thesis
    proof (cases "first_error (tc_show (rt_turn rc)) cs")
      case (Some e)
      then show ?thesis using assms s by (auto simp: run_sync_def q cs Let_def)
    next
      case ok: None
      show ?thesis
      proof (cases "s_pending (cv_session c1)")
        case (Some tc)
        obtain b d where u: "commit_user rc c1 = (b, d)" by fastforce
        show ?thesis
          using assms s ok Some u stored_commit_user [OF u] pause_files(1) [OF u, of tc]
          by (cases b; cases "pause_object rc tc") (auto simp: run_sync_def q cs Let_def)
      next
        case none: None
        show ?thesis
        proof (cases "read_reply rc cs")
          case (Reply p)
          obtain b d where u: "commit_answer rc (rp_message p) c1 = (b, d)" by fastforce
          note f = stored_commit_answer [OF u] commit_answer_fields(1) [OF u]
          show ?thesis
            using assms s ok none Reply u f reply_files(1) [of rc cs p _ "unlock d" "stored c"]
            by (cases b; cases "reply_object rc cs p") (auto simp: run_sync_def q cs Let_def store_response_def)
        qed (use assms s ok none in \<open>auto simp: run_sync_def q cs Let_def\<close>)
      qed
    qed
  qed
qed

lemma continuation_files:
  assumes "run_continuation rc en es c = (a, c')"
  shows "filed rc (stored c) (stored c')"
proof -
  obtain q c1 where q: "collect (rt_view rc) es c = (q, c1)" by fastforce
  have s: "stored c1 = stored c" by (rule stored_core [OF core_collect [OF q]])
  show ?thesis
  proof (cases "q = Source_failed \<or> en \<noteq> Runs_out")
    case True
    then show ?thesis using assms s by (cases q; cases en) (auto simp: run_continuation_def q Let_def)
  next
    case False
    then obtain cs where cs: "q = Collected cs" "en = Runs_out" by (cases q; cases en) auto
    show ?thesis
    proof (cases "s_pending (cv_session c1)")
      case (Some tc)
      show ?thesis
        using assms s Some
        by (cases "pause_object rc tc") (auto simp: run_continuation_def q cs Let_def intro!: filed_store dest: pause_fields)
    next
      case none: None
      show ?thesis
      proof (cases "first_error (tc_show (rt_turn rc)) cs")
        case (Some e)
        then show ?thesis using assms s none by (auto simp: run_continuation_def q cs Let_def)
      next
        case ok: None
        show ?thesis
        proof (cases "read_reply rc cs")
          case (Reply p)
          show ?thesis
            using assms s ok none Reply
            by (cases "reply_object rc cs p") (auto simp: run_continuation_def q cs Let_def intro!: reply_files(1))
        qed (use assms s ok none in \<open>auto simp: run_continuation_def q cs Let_def\<close>)
      qed
    qed
  qed
qed

lemma interrupted_files:
  assumes "finish_interrupted rc k cs c = (f, c')"
  shows "filed rc (stored c) (stored c')"
proof -
  define t where "t = (case rt_parse rc cs of None \<Rightarrow> [] | Some t \<Rightarrow> t)"
  note fails = stored_fail [of rc k True "''server_error''" "''Internal server error''"]
  show ?thesis
  proof (cases "split_assistant_text_and_thinking (tc_show (rt_turn rc)) cs t")
    case None
    then show ?thesis using assms fails [of c] by (simp add: finish_interrupted_def t_def)
  next
    case (Some x)
    obtain u ts where x: "x = (u, ts)" by fastforce
    obtain b d where a: "commit_answer rc (assistant_or_empty u ts) c = (b, d)" by fastforce
    show ?thesis
      using assms Some x a fails [of c] fails [of d] stored_commit_answer [OF a]
      by (cases "usage_of rc cs (usage_text u ts)"; cases b)
        (auto simp: finish_interrupted_def t_def intro!: filed_store)
  qed
qed

lemma background_files:
  assumes "run_background rc en es c = (f, c')"
  shows "filed rc (stored c) (stored c')"
proof -
  obtain q c1 where q: "collect (rt_view rc) es c = (q, c1)" by fastforce
  have s: "stored c1 = stored c" by (rule stored_core [OF core_collect [OF q]])
  have fails: "filed rc (stored c) (stored c')" if "fail_background rc k b err msg d = (f, c')" "stored d = stored c" for k b err msg d
    using that stored_fail [of rc k b err msg d] by simp
  show ?thesis
  proof (cases "q = Source_failed \<or> en \<noteq> Runs_out")
    case True
    then show ?thesis using assms s by (cases q; cases en) (auto simp: run_background_def q Let_def intro: fails)
  next
    case False
    then obtain cs where cs: "q = Collected cs" "en = Runs_out" by (cases q; cases en) auto
    show ?thesis
    proof (cases "interrupted_by_gateway cs")
      case True
      then show ?thesis using assms s interrupted_files [of rc _ cs c1 f c'] by (simp add: run_background_def q cs Let_def)
    next
      case run: False
      show ?thesis
      proof (cases "first_error (tc_show (rt_turn rc)) cs")
        case (Some e)
        obtain k m where "e = (k, m)" by fastforce
        then show ?thesis using assms s run Some by (cases k) (auto simp: run_background_def q cs Let_def intro: fails)
      next
        case ok: None
        show ?thesis
        proof (cases "s_pending (cv_session c1)")
          case (Some tc)
          obtain b d where u: "commit_user rc c1 = (b, d)" by fastforce
          show ?thesis
            using assms s run ok Some u stored_commit_user [OF u] pause_files(2) [OF u, of tc]
            by (cases b; cases "pause_object rc tc") (auto simp: run_background_def q cs Let_def intro: fails)
        next
          case none: None
          show ?thesis
          proof (cases "read_reply rc cs")
            case (Reply p)
            obtain b d where u: "commit_answer rc (rp_message p) c1 = (b, d)" by fastforce
            show ?thesis
              using assms s run ok none Reply u stored_commit_answer [OF u] reply_files(2) [of rc cs p _ d "stored c"]
              by (cases b; cases "reply_object rc cs p") (auto simp: run_background_def q cs Let_def intro: fails)
          qed (use assms s run ok none in \<open>auto simp: run_background_def q cs Let_def intro: fails\<close>)
        qed
      qed
    qed
  qed
qed

section \<open>The store of a session\<close>

text \<open>One turn of a session, in any of the ways it can run.\<close>

inductive turn_run :: "route_cfg \<Rightarrow> conv \<Rightarrow> conv \<Rightarrow> bool" for rc where
  ran_streamed: "run_stream rc es c = (fs, c') \<Longrightarrow> turn_run rc c c'"
| ran_abandoned: "turn_run rc c (abandon_stream rc through es c)"
| ran_direct: "run_sync rc en es c = (a, c') \<Longrightarrow> turn_run rc c c'"
| ran_continued: "run_continuation rc en es c = (a, c') \<Longrightarrow> turn_run rc c c'"
| ran_background: "run_background rc en es c = (f, c') \<Longrightarrow> turn_run rc c c'"

lemma turn_run_files: "turn_run rc c c' \<Longrightarrow> filed rc (stored c) (stored c')"
  by (induction rule: turn_run.induct)
    (auto simp: abandon_files dest: stream_files sync_files continuation_files background_files)

text \<open>Every stored response is one of its own turn of this session.\<close>

definition well_stored :: "conv \<Rightarrow> bool" where
  "well_stored c \<longleftrightarrow>
     (\<forall>n v. get_turn_response n (cv_session c) = Some v \<longrightarrow> response_of (make_response_id (s_id (cv_session c)) n) v)"

text \<open>
  C7.  However the turns of a session run - streamed, left by the client, direct, continued or in
  the background, failing anywhere - each stored response stays a response object with the id of its
  turn in this session and a status a caller can act on; a failed turn is never stored.
\<close>

theorem stored_responses_well_typed:
  assumes "turn_run rc c c'" "rid rc = make_response_id (s_id (cv_session c)) (rt_next rc)" "well_stored c"
  shows "well_stored c' \<and> s_id (cv_session c') = s_id (cv_session c)"
  using turn_run_files [OF assms(1)] assms(2,3)
  by (auto simp: filed_def stored_def well_stored_def get_turn_response_def dget_dput split: if_splits)

theorem stored_responses_well_typed_witness:
  "well_stored (snd (run_background ((sample_route True)\<lparr>rt_turn := sample_cfg\<lparr>tc_response_id := ''resp_s_1''\<rparr>\<rparr>) Runs_out
     [final_result] (sample_conv None)))"
proof -
  let ?rc = "(sample_route True)\<lparr>rt_turn := sample_cfg\<lparr>tc_response_id := ''resp_s_1''\<rparr>\<rparr>"
  have "turn_run ?rc (sample_conv None) (snd (run_background ?rc Runs_out [final_result] (sample_conv None)))"
    by (rule ran_background [OF prod.collapse [symmetric]])
  moreover have "rid ?rc = make_response_id (s_id (cv_session (sample_conv None))) (rt_next ?rc)" by code_simp
  moreover have "s_records (cv_session (sample_conv None)) = []" by code_simp
  then have "well_stored (sample_conv None)" by (simp add: well_stored_def get_turn_response_def dget_def)
  ultimately show ?thesis using stored_responses_well_typed by blast
qed

end
