(* ===== verification/ResponseParked.thy ===== *)
theory ResponseParked
  imports ResponseStore
begin

text \<open>
  A session that waits for the user: no turn of \<open>src/src/routes/responses.py\<close> leaves a call pending
  without having moved the turn counter, so the preflight of \<open>src/src/session_guard.py\<close> refuses every
  request that was let past the check for pending calls before the call was there.
\<close>

text \<open>What the steps of a turn do to the pending call.\<close>

lemma pending_ops [simp]:
  "s_pending (cv_session (disconnect_session_client k c)) = None"
  "s_pending (cv_session (set_turn n c)) = s_pending (cv_session c)"
  "s_pending (cv_session (add_assistant_response now m c)) = s_pending (cv_session c)"
  "s_pending (cv_session (resume_reader b c)) = s_pending (cv_session c)"
  "s_pending (cv_session (finish_active_response b i oc now c)) = s_pending (cv_session c)"
  "s_pending (cv_session (touch_conv rc c)) = s_pending (cv_session c)"
  "s_pending (cv_session (store_response rc r c)) = s_pending (cv_session c)"
  by (simp_all add: set_turn_def add_assistant_response_def add_messages_def touch_def resume_reader_def
      disconnect_session_client_def clear_stale_pending_tool_call_def pause_reader_def store_response_def record_response_def
      record_turn_response_def reset_tasks_def finish_active_response_def clear_active_def touch_conv_def Let_def split_beta
      split: option.split)

lemma pending_ends [simp]:
  "s_pending (cv_session (leave_background rc oc c)) = s_pending (cv_session c)"
  "s_pending (cv_session (leave_continuation rc k ok c)) = (if ok then s_pending (cv_session c) else None)"
  "s_pending (cv_session (drop_unlocked (Some j) c)) = None"
  "s_pending (cv_session (teardown_stream rc k cl c)) = (if cl = Neither then None else s_pending (cv_session c))"
  by (simp_all add: leave_background_def drop_unlocked_def leave_continuation_def teardown_stream_def Let_def)

lemma pending_commit_user: "commit_user rc c = (ok, c') \<Longrightarrow> s_pending (cv_session c') = s_pending (cv_session c)"
  by (auto simp: commit_user_def Let_def add_messages_def touch_def set_turn_def split: if_splits option.splits)

lemma pending_commit_answer: "commit_answer rc m c = (ok, c') \<Longrightarrow> s_pending (cv_session c') = s_pending (cv_session c)"
  using pending_commit_user [of rc c] by (auto simp: commit_answer_def split: prod.splits bool.splits)

lemma turns_ends [simp]:
  "s_turns (cv_session (leave_continuation rc k ok c)) = s_turns (cv_session c)"
  by (simp add: leave_continuation_def)

text \<open>A call that is pending after a turn: the turn was committed.\<close>

definition parked_committed :: "route_cfg \<Rightarrow> conv \<Rightarrow> bool" where
  "parked_committed rc c \<longleftrightarrow> (s_pending (cv_session c) \<noteq> None \<longrightarrow> s_turns (cv_session c) = rt_next rc)"

lemma none_parked [simp]: "s_pending (cv_session c) = None \<Longrightarrow> parked_committed rc c"
  by (simp add: parked_committed_def)

lemma fail_background_parked: "parked_committed rc (snd (fail_background rc k True err msg c))"
  by (simp add: fail_background_def)

lemma settle_parked:
  assumes "settle_stream rc s out r c = (c', fs, cl)"
  shows "cl = Neither \<or> parked_committed rc c'"
proof (cases "s_pending (cv_session c)")
  case (Some tc)
  obtain ok d where u: "commit_user rc c = (ok, d)" by fastforce
  show ?thesis
    using assms Some u commit_user_fields(1) [OF u]
    by (auto simp: settle_stream_def settle_pause_def Let_def parked_committed_def split: if_splits option.splits prod.splits bool.splits)
next
  case None
  let ?m = "assistant_or_empty (tn_visible s) (tn_thinking_texts s)"
  obtain ok c3 where a: "commit_answer rc ?m c = (ok, c3)" by fastforce
  obtain ok2 c4 where b: "record_stream_turn_response rc s c3 = (ok2, c4)" by fastforce
  have "s_pending (cv_session c3) = None" using pending_commit_answer [OF a] None by simp
  moreover from this have "s_pending (cv_session c4) = None"
    using b by (auto simp: record_stream_turn_response_def split: if_splits option.splits)
  ultimately show ?thesis
    using assms None a b
    by (cases ok; cases ok2) (auto simp: settle_stream_def Let_def split: if_splits option.splits)
qed

lemma stream_parked: "run_stream rc es c = (fs, c') \<Longrightarrow> parked_committed rc c'"
proof -
  assume r: "run_stream rc es c = (fs, c')"
  obtain c1 s out q where t: "streamed rc es c = (c1, s, out, q)" by (rule prod_cases4)
  obtain c2 gs cl where e: "settle_stream rc s out q c1 = (c2, gs, cl)" by (rule prod_cases3)
  show ?thesis using settle_parked [OF e] r by (auto simp: run_stream_def t e Let_def parked_committed_def teardown_fields split: if_splits)
qed

lemma abandon_parked: "parked_committed rc (abandon_stream rc False es c)"
  by (simp add: abandon_stream_def Let_def split_beta)

lemma sync_parked:
  assumes "run_sync rc en es c = (a, c')" "en \<noteq> Cancelled" "s_client (cv_session c) = Some k"
  shows "parked_committed rc c'"
proof -
  obtain q c1 where q: "collect (rt_view rc) es c = (q, c1)" by fastforce
  show ?thesis
  proof (cases "q = Source_failed \<or> en \<noteq> Runs_out")
    case True
    then show ?thesis using assms by (cases q; cases en) (auto simp: run_sync_def q Let_def)
  next
    case False
    then obtain cs where cs: "q = Collected cs" "en = Runs_out" by (cases q; cases en) auto
    show ?thesis
    proof (cases "first_error (tc_show (rt_turn rc)) cs")
      case (Some e)
      then show ?thesis using assms by (auto simp: run_sync_def q cs Let_def)
    next
      case ok: None
      show ?thesis
      proof (cases "s_pending (cv_session c1)")
        case (Some tc)
        obtain b d where u: "commit_user rc c1 = (b, d)" by fastforce
        show ?thesis
          using assms ok Some u commit_user_fields(1) [OF u]
          by (cases b; cases "pause_object rc tc") (auto simp: run_sync_def q cs Let_def parked_committed_def)
      next
        case none: None
        show ?thesis
        proof (cases "read_reply rc cs")
          case (Reply p)
          obtain b d where u: "commit_answer rc (rp_message p) c1 = (b, d)" by fastforce
          show ?thesis
            using assms ok none Reply u pending_commit_answer [OF u] commit_answer_fields(1) [OF u]
            by (cases b; cases "reply_object rc cs p") (auto simp: run_sync_def q cs Let_def simp flip: store_response_def)
        qed (use assms ok none in \<open>auto simp: run_sync_def q cs Let_def\<close>)
      qed
    qed
  qed
qed

lemma continuation_parked:
  assumes "run_continuation rc en es c = (a, c')"
  shows "parked_committed rc c'"
proof -
  obtain q c1 where q: "collect (rt_view rc) es c = (q, c1)" by fastforce
  show ?thesis
  proof (cases "q = Source_failed \<or> en \<noteq> Runs_out")
    case True
    then show ?thesis using assms by (cases q; cases en) (auto simp: run_continuation_def q Let_def)
  next
    case False
    then obtain cs where cs: "q = Collected cs" "en = Runs_out" by (cases q; cases en) auto
    show ?thesis
    proof (cases "s_pending (cv_session c1)")
      case (Some tc)
      then show ?thesis
        using assms by (cases "pause_object rc tc") (auto simp: run_continuation_def q cs Let_def parked_committed_def)
    next
      case none: None
      show ?thesis
        using assms none
        by (cases "first_error (tc_show (rt_turn rc)) cs"; cases "read_reply rc cs")
          (auto simp: run_continuation_def q cs Let_def split: option.splits)
    qed
  qed
qed

lemma background_parked:
  assumes "run_background rc en es c = (f, c')" "en \<noteq> Cancelled"
  shows "parked_committed rc c'"
proof -
  obtain q c1 where q: "collect (rt_view rc) es c = (q, c1)" by fastforce
  have fails: "parked_committed rc c'" if "fail_background rc k True err msg d = (f, c')" for k err msg d
    using that fail_background_parked [of rc k err msg d] by simp
  have stored: "parked_committed rc (leave_background rc oc (store_response rc r d))" if "s_turns (cv_session d) = rt_next rc" for oc r d
    using that by (simp add: parked_committed_def)
  show ?thesis
  proof (cases "q = Source_failed \<or> en \<noteq> Runs_out")
    case True
    then show ?thesis using assms by (cases q; cases en) (auto simp: run_background_def q Let_def intro: fails)
  next
    case False
    then obtain cs where cs: "q = Collected cs" "en = Runs_out" by (cases q; cases en) auto
    show ?thesis
      using assms(1)
      by (auto simp: run_background_def finish_interrupted_def q cs Let_def intro!: stored elim!: fails
          dest!: commit_user_fields(1) commit_answer_fields(1)
          split: if_splits option.splits prod.splits json.splits bool.splits reading.splits)
  qed
qed

section \<open>Requests that waited for a turn\<close>

text \<open>
  The ways a turn ends that leave the session in use: not the shutdown of the gateway, which cancels
  a running turn, and not a client leaving between the end of the stream and the commit.
\<close>

inductive turn_ended :: "route_cfg \<Rightarrow> conv \<Rightarrow> conv \<Rightarrow> bool" for rc where
  ended_streamed: "run_stream rc es c = (fs, c') \<Longrightarrow> turn_ended rc c c'"
| ended_left: "turn_ended rc c (abandon_stream rc False es c)"
| ended_direct: "run_sync rc en es c = (a, c') \<Longrightarrow> en \<noteq> Cancelled \<Longrightarrow> s_client (cv_session c) = Some k \<Longrightarrow> turn_ended rc c c'"
| ended_continued: "run_continuation rc en es c = (a, c') \<Longrightarrow> turn_ended rc c c'"
| ended_background: "run_background rc en es c = (f, c') \<Longrightarrow> en \<noteq> Cancelled \<Longrightarrow> turn_ended rc c c'"

lemma turn_ended_parked: "turn_ended rc c c' \<Longrightarrow> parked_committed rc c'"
  by (induction rule: turn_ended.induct)
    (auto simp: abandon_parked dest: stream_parked sync_parked continuation_parked background_parked)

lemma preflight_turn:
  "acquire_session_preflight live resolve now rm (Some False) (Some t) messages workspace s = (Inr pf, s') \<Longrightarrow> t = s_turns s"
  by (auto simp: acquire_session_preflight_def Let_def split: if_splits)


text \<open>A parked turn that ran into its time limit: the retry is let in, and the call is gone.\<close>

definition timed_out_sample :: conv where
  "timed_out_sample = snd (run_sync (sample_route True) Times_out [Parks sample_call] (sample_conv None))"


text \<open>
  A continuation's client that leaves after a completed frame while a new call waits: the call stays
  pending on a session whose turn was never committed.
\<close>

lemma left_call_uncommitted:
  "s_pending (cv_session (abandon_stream (sample_route False) True [says_hi, Parks sample_call] sample_active)) = Some sample_call"
  "s_turns (cv_session (abandon_stream (sample_route False) True [says_hi, Parks sample_call] sample_active)) = 0"
  by code_simp+

end
