(* ===== verification/ToolApproval.thy ===== *)
theory ToolApproval
  imports Json PyText
begin

text \<open>
  \<open>src/src/backends/claude/tool_approval.py\<close>: which MCP tools need the user's approval, and what
  counts as one.  \<open>digest\<close> is the hash of a call's arguments, \<open>loads\<close> is \<open>json.loads\<close>.
\<close>

section \<open>The policy\<close>

definition approval_key :: string where
  "approval_key = ''approvalTools''"

text \<open>
  The rule of a server: all its tools, or the listed ones; anything malformed gates all of them.
  A list is empty, or holds something that is no name, or the star, is malformed.
\<close>

definition tool_name_of :: "json \<Rightarrow> string option" where
  "tool_name_of v = (case v of J_str t \<Rightarrow> if t \<noteq> [] \<and> t \<noteq> ''*'' then Some t else None | _ \<Rightarrow> None)"

definition approval_rule :: "json \<Rightarrow> string list" where
  "approval_rule v =
     (if v = J_str ''*'' then [''*'']
      else
        case v of
          J_list vs \<Rightarrow> (if vs = [] then [''*''] else case those (map tool_name_of vs) of None \<Rightarrow> [''*''] | Some ts \<Rightarrow> ts)
        | _ \<Rightarrow> [''*''])"

type_synonym tool_rules = "(string, string list) dict"

fun split_server :: "string \<times> json \<Rightarrow> (string \<times> json) \<times> tool_rules" where
  "split_server (n, J_obj d) =
     (case dget d approval_key of
        None \<Rightarrow> ((n, J_obj d), [])
      | Some v \<Rightarrow> ((n, J_obj (ddel approval_key d)), [(n, approval_rule v)]))"
| "split_server (n, v) = ((n, v), [])"

definition split_approval :: "json \<Rightarrow> json \<times> tool_rules" where
  "split_approval servers =
     (case servers of
        J_obj d \<Rightarrow> (let xs = map split_server d in (J_obj (map fst xs), concat (map snd xs)))
      | v \<Rightarrow> (v, []))"

record approval_policy =
  ap_rules :: tool_rules
  ap_read_only :: tool_rules

definition mcp_prefix :: "string \<Rightarrow> string" where
  "mcp_prefix server = ''mcp__'' @ server @ ''__''"

definition belongs_to :: "string \<Rightarrow> string \<Rightarrow> bool" where
  "belongs_to name server \<longleftrightarrow> starts_with (mcp_prefix server) name \<and> length (mcp_prefix server) < length name"

definition tool_part :: "string \<Rightarrow> string \<Rightarrow> string" where
  "tool_part name server = drop (length (mcp_prefix server)) name"

fun longest_server :: "string \<Rightarrow> string list \<Rightarrow> string option \<Rightarrow> string option" where
  "longest_server name [] best = best"
| "longest_server name (s # ss) best =
     longest_server name ss
       (if belongs_to name s \<and> (case best of None \<Rightarrow> True | Some b \<Rightarrow> length b < length s) then Some s else best)"

definition gated_by :: "approval_policy \<Rightarrow> string \<Rightarrow> string \<Rightarrow> bool" where
  "gated_by p server tool \<longleftrightarrow>
     (let rule = (case dget (ap_rules p) server of None \<Rightarrow> [] | Some r \<Rightarrow> r);
          ro = (case dget (ap_read_only p) server of None \<Rightarrow> [] | Some r \<Rightarrow> r)
      in if ''*'' \<in> set rule then \<not> (tool \<in> set ro \<and> ''*'' \<notin> set ro) else tool \<in> set rule)"

definition target :: "approval_policy \<Rightarrow> string \<Rightarrow> (string \<times> string) option" where
  "target p name =
     (if \<not> starts_with ''mcp__'' name then None
      else
        case longest_server name (dkeys (ap_rules p)) None of
          None \<Rightarrow> None
        | Some s \<Rightarrow> if gated_by p s (tool_part name s) then Some (s, tool_part name s) else None)"

section \<open>The answer\<close>

definition approval_payload :: "string \<Rightarrow> string \<Rightarrow> string \<Rightarrow> json" where
  "approval_payload server tool digest =
     J_obj [(''kind'', J_str ''tool_approval''), (''version'', J_int 1), (''server'', J_str server), (''tool'', J_str tool),
       (''argsDigest'', J_str digest)]"

definition client_supports_approval :: "string option \<Rightarrow> bool" where
  "client_supports_approval h =
     (case h of
        None \<Rightarrow> False
      | Some v \<Rightarrow> v \<noteq> [] \<and> ''tool-approval'' \<in> set (map (\<lambda>p. lower_text (strip_text p)) (split_on (CHR '','') v)))"

definition is_approved :: "(string \<Rightarrow> json option) \<Rightarrow> string option \<Rightarrow> string \<Rightarrow> bool" where
  "is_approved loads answer digest \<longleftrightarrow>
     (case answer of
        None \<Rightarrow> False
      | Some t \<Rightarrow>
          t \<noteq> [] \<and>
          (case loads t of
             Some v \<Rightarrow> jfield v ''decision'' = J_str ''approve'' \<and> jfield v ''argsDigest'' = J_str digest
           | None \<Rightarrow> False))"

section \<open>What the policy gates\<close>

lemma longest_server_spec:
  "longest_server name ss best = r \<Longrightarrow> (\<And>b. best = Some b \<Longrightarrow> belongs_to name b) \<Longrightarrow>
     (case r of
        None \<Rightarrow> best = None \<and> (\<forall>s \<in> set ss. \<not> belongs_to name s)
      | Some s \<Rightarrow> (s \<in> set ss \<or> best = Some s) \<and> belongs_to name s \<and>
          (\<forall>s' \<in> set ss. belongs_to name s' \<longrightarrow> length s' \<le> length s) \<and>
          (\<forall>b. best = Some b \<longrightarrow> length b \<le> length s))"
proof (induction ss arbitrary: best r)
  case Nil
  then show ?case by (cases best) auto
next
  case (Cons t ss)
  define b' where "b' = (if belongs_to name t \<and> (case best of None \<Rightarrow> True | Some b \<Rightarrow> length b < length t) then Some t else best)"
  have r: "longest_server name ss b' = r" using Cons.prems(1) by (simp add: b'_def)
  have ok: "belongs_to name b" if "b' = Some b" for b
    using that Cons.prems(2) by (auto simp: b'_def split: if_splits)
  show ?case
    using Cons.IH [OF r ok] Cons.prems(2)
    by (auto simp: b'_def split: option.splits if_splits)
qed

lemma longest_unique: "belongs_to name s \<Longrightarrow> belongs_to name t \<Longrightarrow> length s = length t \<Longrightarrow> s = t"
  by (auto simp: belongs_to_def starts_with_def mcp_prefix_def)

text \<open>
   A call is gated by the longest configured server its name can belong to, and by no other: it
  is let through without approval only when no gated server matches, or that server's rule lists
  other tools, or gates all and the tool is read only.
\<close>

theorem gate_follows_longest_server:
  assumes "s \<in> set (dkeys (ap_rules p))" "name = mcp_prefix s @ tool" "tool \<noteq> []"
    and "\<And>s'. s' \<in> set (dkeys (ap_rules p)) \<Longrightarrow> belongs_to name s' \<Longrightarrow> length s' \<le> length s"
  shows "target p name = (if gated_by p s tool then Some (s, tool) else None)"
proof -
  have me: "belongs_to name s" using assms(2,3) by (simp add: belongs_to_def)
  obtain r where r: "longest_server name (dkeys (ap_rules p)) None = r" by blast
  have spec: "case r of None \<Rightarrow> (\<forall>s \<in> set (dkeys (ap_rules p)). \<not> belongs_to name s)
      | Some s \<Rightarrow> s \<in> set (dkeys (ap_rules p)) \<and> belongs_to name s \<and>
          (\<forall>s' \<in> set (dkeys (ap_rules p)). belongs_to name s' \<longrightarrow> length s' \<le> length s)"
    using longest_server_spec [OF r] by (cases r) auto
  then obtain u where u: "r = Some u" "u \<in> set (dkeys (ap_rules p))" "belongs_to name u" "length s \<le> length u"
    using me assms(1) by (cases r) auto
  then have "u = s" using assms(4) [OF u(2,3)] longest_unique [OF u(3) me] by simp
  moreover have "starts_with ''mcp__'' name" "tool_part name s = tool"
    by (simp_all add: assms(2) mcp_prefix_def starts_with_def tool_part_def)
  ultimately show ?thesis by (simp add: target_def r u(1))
qed

text \<open>A malformed or starred rule gates every tool of its server that is not marked read only.\<close>

lemma approval_rule_star: "approval_rule v = [''*''] \<or> (\<exists>vs ts. v = J_list vs \<and> those (map tool_name_of vs) = Some ts \<and> approval_rule v = ts)"
  by (auto simp: approval_rule_def split: json.splits option.splits)

definition approval_sample :: json where
  "approval_sample =
     J_obj
       [(''a'', J_obj [(''approvalTools'', J_list [J_str ''b__send''])]),
        (''a__b'', J_obj [(''url'', J_str ''u''), (''approvalTools'', J_str ''all'')])]"

theorem gate_follows_longest_server_witness:
  "target \<lparr>ap_rules = snd (split_approval approval_sample), ap_read_only = [(''a__b'', [''list''])]\<rparr> ''mcp__a__b__send'' =
     Some (''a__b'', ''send'')"
proof -
  let ?p = "\<lparr>ap_rules = snd (split_approval approval_sample), ap_read_only = [(''a__b'', [''list''])]\<rparr>"
  have e: "snd (split_approval approval_sample) = [(''a'', [''b__send'']), (''a__b'', [''*''])]" by code_simp
  have "target ?p ''mcp__a__b__send'' = (if gated_by ?p ''a__b'' ''send'' then Some (''a__b'', ''send'') else None)"
    by (rule gate_follows_longest_server) (auto simp: e mcp_prefix_def)
  moreover have "gated_by ?p ''a__b'' ''send''" by code_simp
  ultimately show ?thesis by simp
qed

text \<open>
  Names are ambiguous: the gated tool \<open>b__send\<close> of the server \<open>a\<close> is judged by the rule of a server
  \<open>a__b\<close>, and runs without approval when that rule does not list \<open>send\<close>.
\<close>

lemma ambiguous_name_ungated:
  "gated_by \<lparr>ap_rules = [(''a'', [''b__send'']), (''a__b'', [''other''])], ap_read_only = []\<rparr> ''a'' ''b__send''"
  "target \<lparr>ap_rules = [(''a'', [''b__send'']), (''a__b'', [''other''])], ap_read_only = []\<rparr> (mcp_prefix ''a'' @ ''b__send'') = None"
  by code_simp+

end
