(* ===== verification/DecisionSlot.thy ===== *)
theory DecisionSlot
  imports ToolApproval
begin

text \<open>
  The one slot in which a session waits for the user, \<open>_park_for_decision\<close> and the hooks of
  \<open>src/src/backends/claude/client.py\<close>, beside the steps of \<open>src/src/routes/responses.py\<close> that answer
  it or tear it down: a step relation over any number of calls that want a decision.
\<close>

section \<open>The slot\<close>

text \<open>
  A call that waits: the identity of its event (which also stands for its pending object), its call
  id and the digest of the arguments an approval shows.
\<close>

record parked =
  pk_event :: nat
  pk_call :: string
  pk_digest :: "string option"

text \<open>
  The session's fields, the events that are set, the callbacks that wait; \<open>ds_route\<close>: a continuation
  holds the session's lock between its checks and its wake-up.  The answers the route accepted and
  the outcomes of the callbacks are logged.
\<close>

record slot =
  ds_pending :: "parked option"
  ds_event :: "nat option"
  ds_set :: "nat list"
  ds_response :: "string option"
  ds_break :: "bool option"
  ds_waiting :: "parked list"
  ds_fresh :: nat
  ds_route :: bool
  ds_answers :: "(parked \<times> string) list"
  ds_done :: "(parked \<times> string option) list"

definition empty_slot :: slot where
  "empty_slot =
     \<lparr>ds_pending = None, ds_event = None, ds_set = [], ds_response = None, ds_break = None, ds_waiting = [], ds_fresh = 0,
      ds_route = False, ds_answers = [], ds_done = []\<rparr>"

text \<open>\<open>_park_for_decision\<close> up to its wait; no value is \<open>DecisionAlreadyPending\<close>.\<close>

definition park_for_decision :: "string \<Rightarrow> string option \<Rightarrow> slot \<Rightarrow> slot option" where
  "park_for_decision cid digest s =
     (if ds_pending s \<noteq> None \<or> ds_event s \<noteq> None then None
      else
        let k = \<lparr>pk_event = ds_fresh s, pk_call = cid, pk_digest = digest\<rparr>
        in Some
             (s\<lparr>ds_pending := Some k, ds_event := Some (ds_fresh s), ds_break := map_option (\<lambda>_. True) (ds_break s),
                ds_waiting := k # ds_waiting s, ds_fresh := Suc (ds_fresh s)\<rparr>))"

text \<open>Its \<open>finally\<close> block clears only what the call itself set.\<close>

definition leave_slot :: "parked \<Rightarrow> slot \<Rightarrow> slot" where
  "leave_slot k s =
     (let s = s\<lparr>ds_waiting := removeAll k (ds_waiting s)\<rparr>;
          s = (if ds_pending s = Some k then s\<lparr>ds_pending := None\<rparr> else s)
      in if ds_event s = Some (pk_event k) then s\<lparr>ds_event := None, ds_response := None\<rparr> else s)"

definition answered :: "parked \<Rightarrow> slot \<Rightarrow> slot" where
  "answered k s =
     leave_slot k (s\<lparr>ds_done := (k, Some (case ds_response s of None \<Rightarrow> [] | Some t \<Rightarrow> t)) # ds_done s\<rparr>)"

definition timed_out :: "parked \<Rightarrow> slot \<Rightarrow> slot" where
  "timed_out k s = leave_slot k (s\<lparr>ds_done := (k, None) # ds_done s\<rparr>)"

text \<open>
  The route: \<open>_unblock_pending_tool_call\<close> stashes the answer to the call shown, and
  \<open>_commit_pending_tool_call_locked\<close> wakes whatever event is there by then.
\<close>

definition stash_answer :: "string \<Rightarrow> string \<Rightarrow> slot \<Rightarrow> slot option" where
  "stash_answer cid out s =
     (case ds_pending s of
        None \<Rightarrow> None
      | Some k \<Rightarrow>
          if pk_call k \<noteq> cid \<or> ds_event s = None then None
          else Some (s\<lparr>ds_response := Some out, ds_route := True, ds_answers := (k, out) # ds_answers s\<rparr>))"

definition set_event :: "slot \<Rightarrow> slot" where
  "set_event s = (case ds_event s of None \<Rightarrow> s | Some e \<Rightarrow> s\<lparr>ds_set := e # ds_set s\<rparr>)"

definition wake :: "slot \<Rightarrow> slot" where
  "wake s = (set_event s)\<lparr>ds_pending := None, ds_route := False\<rparr>"

definition clear_stale :: "slot \<Rightarrow> slot" where
  "clear_stale s =
     (if ds_pending s = None \<and> ds_event s = None then s
      else (set_event s)\<lparr>ds_pending := None, ds_response := None, ds_event := None\<rparr>)"

section \<open>The hooks\<close>

datatype verdict = No_opinion | Allow | Deny string

definition not_answered :: string where
  "not_answered = ''The user did not approve this tool in time. It was not run.''"

definition denied_by_user :: string where
  "denied_by_user = ''The user declined to run this tool. It was not run. Do not retry it unless the user asks again.''"

definition another_pending :: string where
  "another_pending = ''Another action is already waiting for the user's decision, so this call was not run and the user was not asked about it. Wait for that decision, then call it again if it is still needed.''"

definition client_cannot_approve :: string where
  "client_cannot_approve = ''This tool needs the user's approval before it runs, and this client cannot ask for it. It was not run. Tell the user the action needs approval in a client that supports it.''"

text \<open>
  \<open>make_tool_approval_hook\<close>: at once a verdict, or the call is parked; and the verdict once the
  parked call has its outcome.
\<close>

definition approval_hook ::
  "approval_policy \<Rightarrow> bool \<Rightarrow> (json \<Rightarrow> string) \<Rightarrow> string \<Rightarrow> json \<Rightarrow> string \<Rightarrow> slot \<Rightarrow> verdict option \<times> slot" where
  "approval_hook p capable digest name arguments cid s =
     (case target p name of
        None \<Rightarrow> (Some No_opinion, s)
      | Some _ \<Rightarrow>
          if \<not> capable then (Some (Deny client_cannot_approve), s)
          else
            case park_for_decision cid (Some (digest (if is_obj arguments then arguments else J_obj []))) s of
              None \<Rightarrow> (Some (Deny another_pending), s)
            | Some s' \<Rightarrow> (None, s'))"

definition approval_verdict :: "(string \<Rightarrow> json option) \<Rightarrow> string \<Rightarrow> string option \<Rightarrow> verdict" where
  "approval_verdict loads digest outcome =
     (if outcome = None then Deny not_answered
      else if is_approved loads outcome digest then Allow
      else Deny denied_by_user)"

text \<open>The mode a session runs in, and the answer to a plan: \<open>boundary\<close> is the read boundary switch.\<close>

definition effective_permission_mode :: "bool \<Rightarrow> string option \<Rightarrow> string option" where
  "effective_permission_mode boundary mode =
     (let m = (case mode of None \<Rightarrow> ''default'' | Some t \<Rightarrow> if t = [] then ''default'' else t)
      in if boundary \<and> m \<in> {''default'', ''acceptEdits''} then Some ''bypassPermissions'' else mode)"

definition plan_execution_mode :: "bool \<Rightarrow> string option \<Rightarrow> string" where
  "plan_execution_mode boundary configured =
     (let t = strip_text (case configured of None \<Rightarrow> [] | Some u \<Rightarrow> u);
          mode = (if t \<in> {''default'', ''acceptEdits'', ''bypassPermissions''} then t else ''default'')
      in case effective_permission_mode boundary (Some mode) of
           None \<Rightarrow> mode
         | Some e \<Rightarrow> if e = [] then mode else e)"

datatype plan_answer = Leaves_plan_mode string | Keeps_planning string

definition keep_planning :: "string \<Rightarrow> plan_answer" where
  "keep_planning feedback =
     Keeps_planning
       (''The user reviewed the plan and wants to keep planning. Do not start executing.'' @
        (if feedback \<noteq> [] then '' Their feedback: '' @ feedback else '' Ask what they would like changed.''))"

definition plan_decision_result ::
  "(string \<Rightarrow> json option) \<Rightarrow> (json \<Rightarrow> string) \<Rightarrow> bool \<Rightarrow> string option \<Rightarrow> string \<Rightarrow> plan_answer" where
  "plan_decision_result loads show boundary configured answer =
     (let t = strip_text answer;
          leave = Leaves_plan_mode (plan_execution_mode boundary configured)
      in case (if t = [] then Some (J_obj []) else loads t) of
           Some (J_obj d) \<Rightarrow>
             if jfield (J_obj d) ''approved'' = J_bool True then leave
             else keep_planning (strip_text (case jor (jfield (J_obj d) ''feedback'') (J_str []) of J_str f \<Rightarrow> f | v \<Rightarrow> show v))
         | _ \<Rightarrow> if lower_text t \<in> {''approve'', ''approved''} then leave else keep_planning t)"

section \<open>Calls, answers and teardowns in any order\<close>

inductive slot_step :: "bool \<Rightarrow> slot \<Rightarrow> slot \<Rightarrow> bool" for teardowns where
  parks: "park_for_decision cid digest s = Some s' \<Longrightarrow> slot_step teardowns s s'"
| stashes: "\<not> ds_route s \<Longrightarrow> stash_answer cid out s = Some s' \<Longrightarrow> slot_step teardowns s s'"
| refuses: "ds_route s \<Longrightarrow> slot_step teardowns s (s\<lparr>ds_route := False\<rparr>)"
| wakes: "ds_route s \<Longrightarrow> slot_step teardowns s (wake s)"
| answers: "k \<in> set (ds_waiting s) \<Longrightarrow> pk_event k \<in> set (ds_set s) \<Longrightarrow> slot_step teardowns s (answered k s)"
| times_out: "k \<in> set (ds_waiting s) \<Longrightarrow> slot_step teardowns s (timed_out k s)"
| is_cancelled: "k \<in> set (ds_waiting s) \<Longrightarrow> slot_step teardowns s (leave_slot k s)"
| clears: "teardowns \<Longrightarrow> slot_step teardowns s (clear_stale s)"
| reads_turn: "slot_step teardowns s (s\<lparr>ds_break := b\<rparr>)"

inductive_cases slot_stepE: "slot_step teardowns s s'"

section \<open>The invariant\<close>

definition shown :: "slot \<Rightarrow> bool" where
  "shown s \<longleftrightarrow>
     (case ds_pending s of
        None \<Rightarrow> \<forall>j \<in> set (ds_waiting s). pk_event j \<in> set (ds_set s)
      | Some k \<Rightarrow>
          ds_event s = Some (pk_event k) \<and> k \<in> set (ds_waiting s) \<and>
          (\<forall>j \<in> set (ds_waiting s). pk_event j \<in> set (ds_set s) \<or> j = k))"

definition numbered_once :: "slot \<Rightarrow> bool" where
  "numbered_once s \<longleftrightarrow>
     inj_on pk_event (set (ds_waiting s)) \<and> (\<forall>k \<in> set (ds_waiting s). pk_event k < ds_fresh s) \<and>
     (\<forall>e \<in> set (ds_set s). e < ds_fresh s) \<and>
     (\<forall>e. ds_event s = Some e \<longrightarrow> (\<exists>k \<in> set (ds_waiting s). pk_event k = e))"

text \<open>The stashed answer belongs to the call whose event is in the slot.\<close>

definition stashed :: "slot \<Rightarrow> bool" where
  "stashed s \<longleftrightarrow>
     (\<forall>out. ds_response s = Some out \<longrightarrow>
        (\<exists>k \<in> set (ds_waiting s). ds_event s = Some (pk_event k) \<and> (k, out) \<in> set (ds_answers s)))"

definition outcomes :: "bool \<Rightarrow> slot \<Rightarrow> bool" where
  "outcomes teardowns s \<longleftrightarrow>
     (\<forall>k out. (k, Some out) \<in> set (ds_done s) \<longrightarrow> out \<noteq> [] \<longrightarrow>
        (\<exists>k'. (k', out) \<in> set (ds_answers s) \<and> (\<not> teardowns \<longrightarrow> k' = k)))"

definition slot_inv :: "bool \<Rightarrow> slot \<Rightarrow> bool" where
  "slot_inv teardowns s \<longleftrightarrow>
     shown s \<and> numbered_once s \<and> stashed s \<and> outcomes teardowns s \<and>
     (\<not> teardowns \<longrightarrow> (\<forall>k \<in> set (ds_waiting s). ds_event s = Some (pk_event k)))"

lemma slot_invI:
  assumes "shown s" "numbered_once s" "stashed s" "outcomes b s"
    and "\<not> b \<Longrightarrow> \<forall>k \<in> set (ds_waiting s). ds_event s = Some (pk_event k)"
  shows "slot_inv b s"
  using assms by (simp add: slot_inv_def)

lemma slot_invD:
  assumes "slot_inv b s"
  shows "shown s" "numbered_once s" "stashed s" "outcomes b s"
    "\<not> b \<Longrightarrow> k \<in> set (ds_waiting s) \<Longrightarrow> ds_event s = Some (pk_event k)"
  using assms by (auto simp: slot_inv_def)

lemma park_inv:
  assumes i: "slot_inv b s" and p: "park_for_decision cid digest s = Some s'"
  shows "slot_inv b s'"
proof -
  define k where "k = \<lparr>pk_event = ds_fresh s, pk_call = cid, pk_digest = digest\<rparr>"
  have free: "ds_pending s = None" "ds_event s = None"
    and s': "s' = s\<lparr>ds_pending := Some k, ds_event := Some (ds_fresh s), ds_break := map_option (\<lambda>_. True) (ds_break s),
                ds_waiting := k # ds_waiting s, ds_fresh := Suc (ds_fresh s)\<rparr>"
    using p by (auto simp: park_for_decision_def Let_def k_def split: if_splits)
  have k: "pk_event k = ds_fresh s" by (simp add: k_def)
  have old: "\<forall>j \<in> set (ds_waiting s). pk_event j < ds_fresh s \<and> pk_event j \<in> set (ds_set s)"
    "\<forall>e \<in> set (ds_set s). e < ds_fresh s" "inj_on pk_event (set (ds_waiting s))"
    using slot_invD(1,2) [OF i] free by (auto simp: shown_def numbered_once_def)
  have none: "ds_response s = None" using slot_invD(3) [OF i] free by (cases "ds_response s") (auto simp: stashed_def)
  show ?thesis
  proof (rule slot_invI)
    show "shown s'" using old by (simp add: shown_def s' k)
    show "numbered_once s'" using old by (auto simp: numbered_once_def s' k less_Suc_eq)
    show "stashed s'" by (simp add: stashed_def s' none)
    show "outcomes b s'" using slot_invD(4) [OF i] by (simp add: outcomes_def s')
    show "\<forall>j \<in> set (ds_waiting s'). ds_event s' = Some (pk_event j)" if "\<not> b"
      using slot_invD(5) [OF i that] free by (auto simp: s' k)
  qed
qed

lemma stash_inv:
  assumes i: "slot_inv b s" and p: "stash_answer cid out s = Some s'"
  shows "slot_inv b s'"
proof -
  obtain k where k: "ds_pending s = Some k"
    and s': "s' = s\<lparr>ds_response := Some out, ds_route := True, ds_answers := (k, out) # ds_answers s\<rparr>"
    using p by (auto simp: stash_answer_def split: option.splits if_splits)
  have own: "ds_event s = Some (pk_event k)" "k \<in> set (ds_waiting s)" using slot_invD(1) [OF i] k by (auto simp: shown_def)
  show ?thesis
  proof (rule slot_invI)
    show "shown s'" using slot_invD(1) [OF i] by (simp add: shown_def s' cong: option.case_cong)
    show "numbered_once s'" using slot_invD(2) [OF i] by (simp add: numbered_once_def s')
    show "stashed s'" using own by (auto simp: stashed_def s')
    show "outcomes b s'" using slot_invD(4) [OF i] unfolding outcomes_def s' by fastforce
    show "\<forall>j \<in> set (ds_waiting s'). ds_event s' = Some (pk_event j)" if "\<not> b"
      using slot_invD(5) [OF i that] by (simp add: s')
  qed
qed

lemma set_event_fields [simp]:
  "ds_pending (set_event s) = ds_pending s" "ds_event (set_event s) = ds_event s" "ds_response (set_event s) = ds_response s"
  "ds_waiting (set_event s) = ds_waiting s" "ds_fresh (set_event s) = ds_fresh s" "ds_answers (set_event s) = ds_answers s"
  "ds_done (set_event s) = ds_done s"
  "set (ds_set (set_event s)) = set (ds_set s) \<union> set_option (ds_event s)"
  by (auto simp: set_event_def split: option.splits)

text \<open>Every call that is not set yet is shown, so once the slot's event is set none is left.\<close>

lemma all_set: "slot_inv b s \<Longrightarrow> k \<in> set (ds_waiting s) \<Longrightarrow> pk_event k \<in> set (ds_set s) \<union> set_option (ds_event s)"
  using slot_invD(1) [of b s] by (auto simp: shown_def split: option.splits)

lemma event_below: "slot_inv b s \<Longrightarrow> e \<in> set_option (ds_event s) \<Longrightarrow> e < ds_fresh s"
  using slot_invD(2) [of b s] by (auto simp: numbered_once_def)

lemma wake_inv:
  assumes i: "slot_inv b s"
  shows "slot_inv b (wake s)"
proof (rule slot_invI)
  show "shown (wake s)" using all_set [OF i] by (auto simp: shown_def wake_def)
  show "numbered_once (wake s)" using slot_invD(2) [OF i] event_below [OF i] by (auto simp: numbered_once_def wake_def)
  show "stashed (wake s)" using slot_invD(3) [OF i] by (simp add: stashed_def wake_def)
  show "outcomes b (wake s)" using slot_invD(4) [OF i] by (simp add: outcomes_def wake_def)
  show "\<forall>k \<in> set (ds_waiting (wake s)). ds_event (wake s) = Some (pk_event k)" if "\<not> b"
    using slot_invD(5) [OF i that] by (simp add: wake_def)
qed

lemma clear_stale_inv:
  assumes i: "slot_inv True s"
  shows "slot_inv True (clear_stale s)"
proof (cases "ds_pending s = None \<and> ds_event s = None")
  case False
  then have c: "clear_stale s = (set_event s)\<lparr>ds_pending := None, ds_response := None, ds_event := None\<rparr>"
    by (auto simp: clear_stale_def)
  show ?thesis
  proof (rule slot_invI)
    show "shown (clear_stale s)" using all_set [OF i] by (auto simp: shown_def c)
    show "numbered_once (clear_stale s)" using slot_invD(2) [OF i] event_below [OF i] by (auto simp: numbered_once_def c)
    show "outcomes True (clear_stale s)" using slot_invD(4) [OF i] by (simp add: outcomes_def c)
  qed (simp_all add: stashed_def c)
qed (use i in \<open>simp add: clear_stale_def\<close>)

text \<open>A callback that leaves: by its event it is told from every other call.\<close>

lemma leave_fields:
  "ds_waiting (leave_slot k s) = removeAll k (ds_waiting s)" "ds_set (leave_slot k s) = ds_set s"
  "ds_fresh (leave_slot k s) = ds_fresh s" "ds_answers (leave_slot k s) = ds_answers s" "ds_done (leave_slot k s) = ds_done s"
  "ds_pending (leave_slot k s) = (if ds_pending s = Some k then None else ds_pending s)"
  "ds_event (leave_slot k s) = (if ds_event s = Some (pk_event k) then None else ds_event s)"
  "ds_response (leave_slot k s) = (if ds_event s = Some (pk_event k) then None else ds_response s)"
  by (simp_all add: leave_slot_def Let_def)

lemma leave_inv:
  assumes i: "slot_inv b s" and k: "k \<in> set (ds_waiting s)"
  shows "slot_inv b (leave_slot k s)"
proof -
  have inj: "pk_event j \<noteq> pk_event k" if "j \<in> set (ds_waiting s)" "j \<noteq> k" for j
    using slot_invD(2) [OF i] k that by (auto simp: numbered_once_def inj_on_def)
  have sh: "shown s" and nu: "numbered_once s" and st: "stashed s" using slot_invD [OF i] by blast+
  show ?thesis
  proof (rule slot_invI)
    show "shown (leave_slot k s)" using sh inj by (auto simp: shown_def leave_fields split: option.splits)
    show "numbered_once (leave_slot k s)" using nu inj unfolding numbered_once_def leave_fields
      by (auto intro: inj_on_subset split: if_splits)
    show "stashed (leave_slot k s)" using st inj unfolding stashed_def leave_fields by (auto split: if_splits)
    show "outcomes b (leave_slot k s)" using slot_invD(4) [OF i] by (simp add: outcomes_def leave_fields)
    show "\<forall>j \<in> set (ds_waiting (leave_slot k s)). ds_event (leave_slot k s) = Some (pk_event j)" if "\<not> b"
      using slot_invD(5) [OF i that] inj k by (fastforce simp: leave_fields)
  qed
qed

lemma log_inv:
  assumes i: "slot_inv b s"
    and o: "\<And>out. r = Some out \<Longrightarrow> out \<noteq> [] \<Longrightarrow> \<exists>k'. (k', out) \<in> set (ds_answers s) \<and> (\<not> b \<longrightarrow> k' = k)"
  shows "slot_inv b (s\<lparr>ds_done := (k, r) # ds_done s\<rparr>)"
proof (rule slot_invI)
  show "outcomes b (s\<lparr>ds_done := (k, r) # ds_done s\<rparr>)" using slot_invD(4) [OF i] o by (auto simp: outcomes_def)
qed (use slot_invD [OF i] in \<open>auto simp: shown_def numbered_once_def stashed_def cong: option.case_cong\<close>)

lemma answered_inv:
  assumes i: "slot_inv b s" and k: "k \<in> set (ds_waiting s)"
  shows "slot_inv b (answered k s)"
proof -
  have "\<exists>k'. (k', out) \<in> set (ds_answers s) \<and> (\<not> b \<longrightarrow> k' = k)" if r: "ds_response s = Some out" for out
  proof -
    obtain j where j: "j \<in> set (ds_waiting s)" "ds_event s = Some (pk_event j)" "(j, out) \<in> set (ds_answers s)"
      using slot_invD(3) [OF i] r by (auto simp: stashed_def)
    have "j = k" if "\<not> b"
      using slot_invD(5) [OF i that k] slot_invD(2) [OF i] j k by (auto simp: numbered_once_def inj_on_def)
    then show ?thesis using j(3) by blast
  qed
  then show ?thesis unfolding answered_def
    by (intro leave_inv log_inv [OF i]) (auto split: option.splits simp: k)
qed

lemma slot_step_inv: "slot_step b s s' \<Longrightarrow> slot_inv b s \<Longrightarrow> slot_inv b s'"
proof (induction rule: slot_step.induct)
  case (refuses s)
  then show ?case by (simp add: slot_inv_def shown_def numbered_once_def stashed_def outcomes_def cong: option.case_cong)
next
  case (times_out k s)
  then show ?case unfolding timed_out_def by (intro leave_inv log_inv) auto
next
  case (clears s)
  then show ?case using clear_stale_inv by (cases b) auto
next
  case (reads_turn s x)
  then show ?case by (simp add: slot_inv_def shown_def numbered_once_def stashed_def outcomes_def cong: option.case_cong)
qed (auto intro: park_inv stash_inv wake_inv answered_inv leave_inv)

interpretation slots: machine "\<lambda>s. s = empty_slot" "slot_step b" "slot_inv b"
proof unfold_locales
  show "slot_inv b s" if "s = empty_slot" for s
    by (simp add: that empty_slot_def slot_inv_def shown_def numbered_once_def stashed_def outcomes_def)
  show "slot_inv b t" if "slot_inv b s" "slot_step b s t" for s t using that slot_step_inv by blast
qed

section \<open>Properties\<close>

text \<open>
  C22.  A gated tool runs only when a client approved exactly the arguments shown: however calls,
  answers, time-outs and teardowns interleave, a verdict to allow comes from an accepted answer that
  names the call's own digest, and, as long as no client is torn down, one accepted for that call.
\<close>

theorem allowed_call_was_approved:
  assumes "(slot_step teardowns)\<^sup>*\<^sup>* empty_slot s" "(k, outcome) \<in> set (ds_done s)" "pk_digest k = Some d"
    and "approval_verdict loads d outcome = Allow"
  shows "\<exists>k' out. (k', out) \<in> set (ds_answers s) \<and> is_approved loads (Some out) d \<and> (\<not> teardowns \<longrightarrow> k' = k)"
proof -
  obtain out where o: "outcome = Some out" "is_approved loads (Some out) d"
    using assms(4) by (cases outcome) (auto simp: approval_verdict_def split: if_splits)
  have "slot_inv teardowns s" by (rule slots.reachable_inv [OF refl assms(1)])
  then obtain k' where "(k', out) \<in> set (ds_answers s)" "\<not> teardowns \<longrightarrow> k' = k"
    using slot_invD(4) assms(2) o by (fastforce simp: outcomes_def is_approved_def)
  then show ?thesis using o(2) by blast
qed

text \<open>
  C23.  No call waits for an answer nobody can give: in every reachable state each waiting call whose
  event is not set yet is the one the session shows to its client, with its event in the slot.
\<close>

theorem waiting_call_is_shown:
  assumes "(slot_step teardowns)\<^sup>*\<^sup>* empty_slot s" "k \<in> set (ds_waiting s)" "pk_event k \<notin> set (ds_set s)"
  shows "ds_pending s = Some k \<and> ds_event s = Some (pk_event k)"
proof -
  have "slot_inv teardowns s" by (rule slots.reachable_inv [OF refl assms(1)])
  from slot_invD(1) [OF this] assms(2,3) show ?thesis by (auto simp: shown_def split: option.splits)
qed

text \<open>
  Plan mode is left only on an explicit approval, and never into plan mode again: an answer
  that is not JSON, or is anything but a true \<open>approved\<close>, keeps the session planning.
\<close>

theorem plan_left_only_when_approved:
  assumes "plan_decision_result loads show boundary configured answer = Leaves_plan_mode m"
  shows "m \<in> {''default'', ''acceptEdits'', ''bypassPermissions''} \<and>
    ((\<exists>v. loads (strip_text answer) = Some v \<and> jfield v ''approved'' = J_bool True) \<or>
     lower_text (strip_text answer) \<in> {''approve'', ''approved''})"
proof -
  let ?t = "strip_text answer"
  have m: "m = plan_execution_mode boundary configured"
    and a: "(\<exists>v. (if ?t = [] then Some (J_obj []) else loads ?t) = Some v \<and> jfield v ''approved'' = J_bool True) \<or>
        lower_text ?t \<in> {''approve'', ''approved''}"
    using assms by (auto simp: plan_decision_result_def keep_planning_def Let_def split: option.splits json.splits if_splits)
  have "m \<in> {''default'', ''acceptEdits'', ''bypassPermissions''}"
    unfolding m by (auto simp: plan_execution_mode_def effective_permission_mode_def Let_def)
  moreover have "jfield (J_obj []) ''approved'' \<noteq> J_bool True" by (simp add: jget_or_def)
  ultimately show ?thesis using a by (auto split: if_splits)
qed

section \<open>Samples\<close>

text \<open>A gated call is parked, a client approves it, and its callback wakes.\<close>

definition sample_digest :: string where
  "sample_digest = ''sha256:ab''"

definition sample_loads :: "string \<Rightarrow> json option" where
  "sample_loads t =
     (if t = ''yes'' then Some (J_obj [(''decision'', J_str ''approve''), (''argsDigest'', J_str sample_digest)]) else None)"

definition shown_sample :: slot where
  "shown_sample = the (park_for_decision ''c1'' (Some sample_digest) empty_slot)"

definition sample_call_parked :: parked where
  "sample_call_parked = \<lparr>pk_event = 0, pk_call = ''c1'', pk_digest = Some sample_digest\<rparr>"

definition woken_sample :: slot where
  "woken_sample = wake (the (stash_answer ''c1'' ''yes'' shown_sample))"

lemma shown_reached: "(slot_step b)\<^sup>*\<^sup>* empty_slot shown_sample"
proof -
  have "park_for_decision ''c1'' (Some sample_digest) empty_slot = Some shown_sample"
    by (simp add: shown_sample_def park_for_decision_def empty_slot_def Let_def)
  then show ?thesis by (intro r_into_rtranclp parks)
qed

lemma woken_reached: "(slot_step b)\<^sup>*\<^sup>* empty_slot woken_sample"
proof -
  let ?m = "the (stash_answer ''c1'' ''yes'' shown_sample)"
  have "stash_answer ''c1'' ''yes'' shown_sample = Some ?m" "\<not> ds_route shown_sample" "ds_route ?m"
    by (simp_all add: stash_answer_def shown_sample_def park_for_decision_def empty_slot_def Let_def)
  then have "slot_step b shown_sample ?m" "slot_step b ?m woken_sample"
    unfolding woken_sample_def by (blast intro: stashes wakes)+
  with shown_reached show ?thesis by (meson rtranclp.rtrancl_into_rtrancl)
qed

theorem allowed_call_was_approved_witness:
  "\<exists>out. (sample_call_parked, out) \<in> set (ds_answers (answered sample_call_parked woken_sample)) \<and>
     is_approved sample_loads (Some out) sample_digest"
proof -
  let ?s = "answered sample_call_parked woken_sample"
  have w: "sample_call_parked \<in> set (ds_waiting woken_sample)" "pk_event sample_call_parked \<in> set (ds_set woken_sample)"
    "(sample_call_parked, Some ''yes'') \<in> set (ds_done ?s)" "pk_digest sample_call_parked = Some sample_digest"
    "approval_verdict sample_loads sample_digest (Some ''yes'') = Allow"
    by code_simp+
  have "(slot_step False)\<^sup>*\<^sup>* empty_slot ?s"
    by (rule rtranclp.rtrancl_into_rtrancl [OF woken_reached answers [OF w(1,2)]])
  from allowed_call_was_approved [OF this w(3,4,5)] show ?thesis by auto
qed

theorem waiting_call_is_shown_witness: "ds_pending shown_sample = Some sample_call_parked"
proof -
  have "sample_call_parked \<in> set (ds_waiting shown_sample)" "pk_event sample_call_parked \<notin> set (ds_set shown_sample)"
    by code_simp+
  from waiting_call_is_shown [OF shown_reached this] show ?thesis by simp
qed

theorem plan_left_only_when_approved_witness:
  "lower_text (strip_text '' Approve'') \<in> {''approve'', ''approved''}"
proof -
  have "plan_decision_result (\<lambda>_. None) (\<lambda>_. []) False (Some ''plan'') '' Approve'' = Leaves_plan_mode ''default''" by code_simp
  from plan_left_only_when_approved [OF this] show ?thesis by simp
qed

text \<open>
  After a teardown an approval can reach a call it was not given for: the callback of the dropped
  call wakes late, when the answer to a second call with the same arguments is stashed.
\<close>

definition second_call_parked :: parked where
  "second_call_parked = \<lparr>pk_event = 1, pk_call = ''c2'', pk_digest = Some sample_digest\<rparr>"

definition crossed_sample :: slot where
  "crossed_sample =
     answered sample_call_parked
       (the (stash_answer ''c2'' ''yes'' (the (park_for_decision ''c2'' (Some sample_digest) (clear_stale shown_sample)))))"

lemma approval_reaches_dropped_call:
  "(sample_call_parked, Some ''yes'') \<in> set (ds_done crossed_sample)" "ds_answers crossed_sample = [(second_call_parked, ''yes'')]"
  by code_simp+

text \<open>
  A time-out between the checks and the wake-up: the wake-up reaches a call that came in between,
  which no client has seen, with an empty answer.
\<close>

lemma wake_reaches_unseen_call:
  "let s = timed_out sample_call_parked (the (stash_answer ''c1'' ''yes'' shown_sample));
       s = answered second_call_parked (wake (the (park_for_decision ''c2'' (Some sample_digest) s)))
   in hd (ds_done s) = (second_call_parked, Some [])"
  by code_simp

end
