(* ===== verification/ToolHooks.thy ===== *)
theory ToolHooks
  imports DecisionSlot "HOL-Library.List_Lexorder" "HOL-Library.Char_ord"
begin

text \<open>
  Which tools, subagents and skills a session may use: the rules of \<open>allowed_tools\<close> and
  \<open>disallowed_tools\<close> and the hooks before a tool runs, \<open>src/src/backends/claude/client.py\<close>, and the
  skill names of \<open>src/src/backends/claude/skill_names.py\<close>.
\<close>

section \<open>Rules with a name\<close>

text \<open>
  \<open>prefix(name)\<close>: the name starts with neither a colon nor a bracket and holds no closing bracket; the
  pattern's end also matches before a last line feed.
\<close>

definition rule_name :: "string \<Rightarrow> string \<Rightarrow> string option" where
  "rule_name pre t =
     (let u = (if t \<noteq> [] \<and> last t = CHR 0x0A then butlast t else t);
          n = butlast (drop (length pre) u)
      in if starts_with pre u \<and> length pre < length u \<and> last u = CHR '')'' \<and> n \<noteq> [] \<and> hd n \<noteq> CHR '':'' \<and> CHR '')'' \<notin> set n
         then Some n else None)"

definition agent_rule :: "string \<Rightarrow> string option" where
  "agent_rule t = (case rule_name ''Task('' t of None \<Rightarrow> rule_name ''Agent('' t | Some n \<Rightarrow> Some n)"

definition ends_with :: "string \<Rightarrow> string \<Rightarrow> bool" where
  "ends_with w s \<longleftrightarrow> starts_with (rev w) (rev s)"

definition skill_rule :: "string \<Rightarrow> string option" where
  "skill_rule t =
     map_option (\<lambda>n. if 2 < length n \<and> ends_with '':*'' n then take (length n - 2) n else n) (rule_name ''Skill('' t)"

definition skill_wildcards :: "string list" where
  "skill_wildcards = [''Skill(*)'', ''Skill(*:*)'']"

definition subagent_tools :: "string list" where
  "subagent_tools = [''Task'', ''Agent'']"

text \<open>The subagents a caller selected; no value is all of them.\<close>

definition agent_allowlist :: "string list \<Rightarrow> string list option" where
  "agent_allowlist tools =
     (if ''Task'' \<in> set tools then None
      else case List.map_filter agent_rule tools of [] \<Rightarrow> None | ns \<Rightarrow> Some ns)"

definition agent_denylist :: "string list \<Rightarrow> string list" where
  "agent_denylist tools = List.map_filter agent_rule tools"

section \<open>Skill names\<close>

definition bad_skill_char :: "char \<Rightarrow> bool" where
  "bad_skill_char c \<longleftrightarrow> c \<in> {CHR ''('', CHR '')'', CHR '',''} \<or> of_char c < (32 :: nat) \<or> (127 \<le> (of_char c :: nat) \<and> of_char c \<le> (159 :: nat))"

definition double_backslash :: "string \<Rightarrow> bool" where
  "double_backslash s \<longleftrightarrow> list_ex (\<lambda>(a, b). a = CHR 0x5C \<and> b = CHR 0x5C) (zip s (tl s))"

definition skill_name_problem :: "string \<Rightarrow> string option" where
  "skill_name_problem name =
     (if strip_text name = [] then Some ''skill names must be non-empty''
      else if name \<noteq> strip_text name then Some ''has leading or trailing whitespace''
      else if list_ex bad_skill_char name then Some ''contains parentheses, commas, control characters or a byte-order mark''
      else if name = ''*'' then Some (CHR 0x27 # ''*'' @ CHR 0x27 # '' is not a skill name'')
      else if ends_with '':*'' name \<or> ends_with '' *'' name then Some ''wildcard-suffix names are not allowed''
      else if starts_with ''/'' name then Some (''skill names may not start with '/'' @ [CHR 0x27])
      else if double_backslash name then Some ''contains consecutive backslashes''
      else if ends_with [CHR 0x5C] name then Some ''ends with an unpaired backslash''
      else None)"

definition rule_problem :: "string \<Rightarrow> string option" where
  "rule_problem rule =
     (if rule \<in> set skill_wildcards \<or> \<not> (starts_with ''Skill('' rule \<and> ends_with '')'' rule) then None
      else
        let name = butlast (drop (length ''Skill('') rule)
        in if starts_with '':'' name then None
           else skill_name_problem (if ends_with '':*'' name then take (length name - 2) name else name))"

fun invalid_skill_rule :: "string list \<Rightarrow> (string \<times> string) option" where
  "invalid_skill_rule [] = None"
| "invalid_skill_rule (r # rs) = (case rule_problem r of None \<Rightarrow> invalid_skill_rule rs | Some p \<Rightarrow> Some (r, p))"

definition drop_unusable_skill_names :: "string list \<Rightarrow> string list" where
  "drop_unusable_skill_names names = sort (remdups (filter (\<lambda>n. skill_name_problem n = None) names))"

section \<open>The tools of a session\<close>

datatype skills = Skills_unset | All_skills | Only_skills "string list"

text \<open>\<open>_set_allowed_tools\<close>: \<open>denied\<close> and \<open>deferred\<close> are the operator's lists.\<close>

definition plain_agents :: "string list \<Rightarrow> string list" where
  "plain_agents tools =
     filter (\<lambda>t. agent_rule t = None) tools @
     (if list_ex (\<lambda>t. agent_rule t \<noteq> None) tools \<and> \<not> list_ex (\<lambda>t. t \<in> set subagent_tools) tools then subagent_tools else [])"

definition set_allowed_tools :: "string list \<Rightarrow> string list \<Rightarrow> string list \<Rightarrow> string list \<times> skills" where
  "set_allowed_tools denied deferred tools =
     (let ts = map (\<lambda>t. if t \<in> set skill_wildcards then ''Skill'' else t) tools;
          ts = plain_agents (filter (\<lambda>t. t \<notin> set denied \<union> set deferred) ts);
          ungranular = filter (\<lambda>t. skill_rule t = None)
      in if ''Skill'' \<in> set denied then (filter (\<lambda>t. \<not> starts_with ''Skill('' t) ts, Skills_unset)
         else if ''Skill'' \<in> set ts then
           (let ts = ungranular (filter (\<lambda>t. t \<noteq> ''Skill'') ts)
            in (if ''Skill(:*)'' \<in> set ts then ts else ts @ [''Skill(:*)''], All_skills))
         else
           case List.map_filter skill_rule ts of
             [] \<Rightarrow> (ts, Skills_unset)
           | requested \<Rightarrow>
               (let names = drop_unusable_skill_names requested
                in (ungranular ts @ map (\<lambda>n. ''Skill('' @ n @ '':*)'') names, Only_skills names)))"

text \<open>
  \<open>_apply_skills_allowlist\<close>: \<open>found\<close> and \<open>refreshed\<close> are the two discoveries, no value one that raised.
  Without a selection that is let through, and the call raises.
\<close>

definition skill_tail :: "string \<Rightarrow> string" where
  "skill_tail name = last (split_on (CHR '':'') name)"

definition names_skill :: "string \<Rightarrow> string \<Rightarrow> bool" where
  "names_skill d r \<longleftrightarrow> d = r \<or> ends_with (CHR '':'' # r) d"

definition keep_skill :: "string list \<Rightarrow> string \<Rightarrow> bool" where
  "keep_skill dropped name \<longleftrightarrow> name \<notin> set dropped \<and> skill_tail name \<notin> set dropped"

definition apply_skills_allowlist ::
  "string list \<Rightarrow> string list \<Rightarrow> string list option \<Rightarrow> string list option \<Rightarrow> skills \<Rightarrow> skills option" where
  "apply_skills_allowlist hidden blocked found refreshed sk =
     (let kept = (\<lambda>ns. Only_skills (drop_unusable_skill_names (filter (keep_skill (hidden @ blocked)) ns)))
      in case sk of
           Only_skills requested \<Rightarrow>
             (let names = (case found of
                             None \<Rightarrow> None
                           | Some ns \<Rightarrow>
                               if list_ex (\<lambda>r. \<not> list_ex (\<lambda>d. names_skill d r) ns) requested then refreshed else Some ns);
                  selected = (case names of
                                None \<Rightarrow> []
                              | Some ns \<Rightarrow> filter (\<lambda>d. list_ex (names_skill d) requested) ns)
              in Some (kept (requested @ selected)))
         | _ \<Rightarrow> if hidden = [] then Some sk else map_option kept found)"

section \<open>The hooks\<close>

datatype hook_result = Passes | Denies string | Approves string | Rewrites json

text \<open>The text Python writes for the joined skill and arguments; \<open>show\<close> is \<open>str\<close> of other values.\<close>

definition shown_text :: "(json \<Rightarrow> string) \<Rightarrow> json \<Rightarrow> string" where
  "shown_text show v = (case v of J_str t \<Rightarrow> t | w \<Rightarrow> show w)"

definition at_sign_denied :: string where
  "at_sign_denied = ''Skill arguments cannot contain '@': the CLI would expand it as a file mention and inline the file. Retry without the '@' (pass a plain path or value).''"

definition skills_approved :: string where
  "skills_approved = ''Gateway auto-approves skills (headless: no interactive approver).''"

definition skill_allow_hook :: "(json \<Rightarrow> string) \<Rightarrow> json \<Rightarrow> hook_result" where
  "skill_allow_hook show data =
     (if jfield data ''tool_name'' \<noteq> J_str ''Skill'' then Passes
      else
        let input = jget_or (J_obj []) data ''tool_input'';
            t = shown_text show (jget_or (J_str []) input ''skill'') @ shown_text show (jget_or (J_str []) input ''args'')
        in if CHR 0x40 \<in> set t then Denies at_sign_denied else Approves skills_approved)"

text \<open>The long dash of this reason is written as two hyphens: a character is 8 bits.\<close>

definition deferred_denied :: string where
  "deferred_denied = '' is blocked on this gateway: its payoff fires after the HTTP turn closes, so nothing it schedules can ever be delivered to the user. Do the work inside this turn instead -- if the user asked for something recurring, say plainly that scheduled or repeating runs are not supported here.''"

definition deferred_deny_hook :: "string list \<Rightarrow> json \<Rightarrow> hook_result" where
  "deferred_deny_hook deferred data =
     (if is_obj data then
        (case jfield data ''tool_name'' of
           J_str n \<Rightarrow> if n \<in> set deferred then Denies (n @ deferred_denied) else Passes
         | _ \<Rightarrow> Passes)
      else Passes)"

definition running_agent :: "json \<Rightarrow> string" where
  "running_agent input =
     (case jfield input ''subagent_type'' of
        J_str t \<Rightarrow> if strip_text t \<noteq> [] then strip_text t else ''general-purpose''
      | _ \<Rightarrow> ''general-purpose'')"

definition agent_permitted :: "string list option \<Rightarrow> string list \<Rightarrow> string \<Rightarrow> bool" where
  "agent_permitted allowed denied a \<longleftrightarrow>
     (case allowed of None \<Rightarrow> True | Some ns \<Rightarrow> ns = [] \<or> a \<in> set ns) \<and> a \<notin> set denied"

definition listed :: "string list \<Rightarrow> string" where
  "listed names = concat (case sort (remdups names) of [] \<Rightarrow> [] | n # ns \<Rightarrow> n # map (\<lambda>m. '', '' @ m) ns)"

definition agent_denied :: "string list option \<Rightarrow> string list \<Rightarrow> json \<Rightarrow> string" where
  "agent_denied allowed denied input =
     (let omitted = (case jfield input ''subagent_type'' of J_str t \<Rightarrow> strip_text t = [] | _ \<Rightarrow> True);
          hint = (case allowed of
                    None \<Rightarrow> ''Do not use: '' @ listed denied @ ''.''
                  | Some [] \<Rightarrow> ''Do not use: '' @ listed denied @ ''.''
                  | Some ns \<Rightarrow>
                      (let t = listed (filter (\<lambda>n. n \<notin> set denied) ns)
                       in ''Enabled subagents: '' @ (if t = [] then ''none'' else t) @ ''.''))
      in ''Subagent '' @ CHR 0x27 # running_agent input @ CHR 0x27 # (if omitted then '' (subagent_type omitted)'' else []) @
         '' is not enabled for this session. '' @ hint)"

definition task_hook :: "bool \<Rightarrow> string list option \<Rightarrow> string list \<Rightarrow> json \<Rightarrow> hook_result" where
  "task_hook foreground allowed denied data =
     (let input = jor (jfield data ''tool_input'') (J_obj [])
      in if jfield data ''tool_name'' \<notin> J_str ` set subagent_tools then Passes
         else
           case input of
             J_obj d \<Rightarrow>
               if \<not> agent_permitted allowed denied (running_agent input) then Denies (agent_denied allowed denied input)
               else if foreground \<and> jfield input ''run_in_background'' \<noteq> J_bool False then
                 Rewrites (J_obj (dput ''run_in_background'' (J_bool False) d))
               else Passes
           | _ \<Rightarrow> Passes)"

text \<open>The input the CLI runs a call with, and whether it runs it.\<close>

definition run_input :: "hook_result \<Rightarrow> json \<Rightarrow> json option" where
  "run_input r input = (case r of Passes \<Rightarrow> Some input | Approves _ \<Rightarrow> Some input | Rewrites v \<Rightarrow> Some v | Denies _ \<Rightarrow> None)"

section \<open>Properties\<close>

text \<open>
   A subagent runs only when the caller's selection permits the agent that will really run - the
  default one when the call names none - and, with the foreground switch on, inside the turn.
\<close>

theorem subagent_calls_governed:
  assumes "jfield data ''tool_name'' = J_str tool" "tool \<in> set subagent_tools"
    and "jfield data ''tool_input'' = J_obj d" "d \<noteq> []"
    and "run_input (task_hook foreground allowed denied data) (J_obj d) = Some v"
  shows "agent_permitted allowed denied (running_agent v) \<and>
    (foreground \<longrightarrow> jfield v ''run_in_background'' = J_bool False)"
proof -
  have i: "jor (jfield data ''tool_input'') (J_obj []) = J_obj d" using assms(3,4) by (simp add: jor_def)
  have kept: "running_agent (J_obj (dput ''run_in_background'' w d)) = running_agent (J_obj d)" for w
    by (simp add: running_agent_def jget_or_def dget_dput)
  have h: "task_hook foreground allowed denied data =
      (if \<not> agent_permitted allowed denied (running_agent (J_obj d)) then Denies (agent_denied allowed denied (J_obj d))
       else if foreground \<and> jfield (J_obj d) ''run_in_background'' \<noteq> J_bool False then
         Rewrites (J_obj (dput ''run_in_background'' (J_bool False) d))
       else Passes)"
    using assms(1,2) by (simp add: task_hook_def i)
  have "jfield (J_obj (dput ''run_in_background'' (J_bool False) d)) ''run_in_background'' = J_bool False"
    by (simp add: jget_or_def dget_dput)
  then show ?thesis
    using assms(5) kept unfolding h by (auto simp: run_input_def split: if_splits)
qed

lemma usable_names: "n \<in> set (drop_unusable_skill_names ns) \<Longrightarrow> skill_name_problem n = None \<and> n \<in> set ns"
  by (simp add: drop_unusable_skill_names_def)

text \<open>
  A skill that is hidden or a blocked command is never in the allowlist, plain or behind a
  plugin's name, nor is a name the SDK refuses; and a selection never widens to all skills.
\<close>

theorem hidden_skills_stay_hidden:
  assumes "apply_skills_allowlist hidden blocked found refreshed sk = Some sk'"
    and "hidden \<noteq> [] \<or> (\<exists>ns. sk = Only_skills ns)"
  shows "\<exists>names. sk' = Only_skills names \<and>
    (\<forall>n \<in> set names. n \<notin> set hidden \<union> set blocked \<and> skill_tail n \<notin> set hidden \<union> set blocked \<and> skill_name_problem n = None)"
  using assms
  by (auto simp: apply_skills_allowlist_def Let_def keep_skill_def dest!: usable_names split: skills.splits if_splits)

text \<open>
  Naming skills is never wide open: when a caller names skills without the bare rule, the
  session gets exactly the usable ones of those names, none when all are unusable.
\<close>

theorem named_skills_only:
  assumes "set_allowed_tools denied deferred tools = (allowed, sk)"
    and "''Skill'' \<notin> set denied" "t \<in> set tools" "skill_rule t = Some n" "t \<notin> set denied" "t \<notin> set deferred"
    and "''Skill'' \<notin> set tools" "set tools \<inter> set skill_wildcards = {}" "agent_rule t = None"
  shows "\<exists>names. sk = Only_skills names \<and>
    set names = {m. (\<exists>u \<in> set tools. u \<notin> set denied \<and> u \<notin> set deferred \<and> agent_rule u = None \<and> skill_rule u = Some m) \<and>
      skill_name_problem m = None}"
proof -
  have w: "map (\<lambda>t. if t \<in> set skill_wildcards then ''Skill'' else t) tools = tools"
    using assms(8) by (auto intro!: map_idI)
  define ts where "ts = plain_agents (filter (\<lambda>t. t \<notin> set denied \<union> set deferred) tools)"
  have plain: "skill_rule u = None" if "u \<in> set subagent_tools" for u
    using that by (auto simp: subagent_tools_def skill_rule_def rule_name_def starts_with_def)
  have no: "''Skill'' \<notin> set ts"
    using assms(7) by (auto simp: ts_def plain_agents_def subagent_tools_def)
  have mem: "skill_rule u = Some m \<Longrightarrow> u \<in> set ts \<longleftrightarrow>
      u \<in> set tools \<and> u \<notin> set denied \<and> u \<notin> set deferred \<and> agent_rule u = None" for u m
    using plain by (auto simp: ts_def plain_agents_def)
  have req: "set (List.map_filter skill_rule ts) =
      {m. \<exists>u \<in> set tools. u \<notin> set denied \<and> u \<notin> set deferred \<and> agent_rule u = None \<and> skill_rule u = Some m}"
    using mem by (auto simp: map_filter_def) (metis (mono_tags, lifting) image_eqI mem_Collect_eq option.distinct(1) option.sel)
  then have "List.map_filter skill_rule ts \<noteq> []" using assms(3-6,9) by (metis (mono_tags, lifting) empty_iff empty_set mem_Collect_eq)
  then have "sk = Only_skills (drop_unusable_skill_names (List.map_filter skill_rule ts))"
    using assms(1,2) no unfolding set_allowed_tools_def w Let_def ts_def [symmetric]
    by (auto split: list.splits)
  then show ?thesis using req by (auto simp: drop_unusable_skill_names_def)
qed

section \<open>Samples\<close>

definition sample_task :: json where
  "sample_task =
     J_obj [(''tool_name'', J_str ''Agent''), (''tool_input'', J_obj [(''subagent_type'', J_str '' helper '')])]"

theorem subagent_calls_governed_witness:
  "jfield (J_obj [(''subagent_type'', J_str '' helper ''), (''run_in_background'', J_bool False)]) ''run_in_background'' = J_bool False"
proof -
  let ?d = "[(''subagent_type'', J_str '' helper '')]"
  have h: "jfield sample_task ''tool_name'' = J_str ''Agent''" "''Agent'' \<in> set subagent_tools"
    "jfield sample_task ''tool_input'' = J_obj ?d" "?d \<noteq> []"
    "run_input (task_hook True (Some [''helper'']) [] sample_task) (J_obj ?d) =
       Some (J_obj [(''subagent_type'', J_str '' helper ''), (''run_in_background'', J_bool False)])"
    by code_simp+
  from subagent_calls_governed [OF h] show ?thesis by simp
qed

theorem hidden_skills_stay_hidden_witness:
  "\<exists>names. apply_skills_allowlist [''secret''] [''init''] (Some [''docs:secret'', ''docs:sum'', ''init'']) None All_skills = Some (Only_skills names) \<and>
     ''docs:secret'' \<notin> set names"
proof -
  let ?r = "apply_skills_allowlist [''secret''] [''init''] (Some [''docs:secret'', ''docs:sum'', ''init'']) None All_skills"
  obtain sk where r: "?r = Some sk" by (simp add: apply_skills_allowlist_def Let_def)
  from hidden_skills_stay_hidden [OF r] obtain names where n: "sk = Only_skills names"
    "\<forall>n \<in> set names. skill_tail n \<notin> {''secret'', ''init''}" by auto
  moreover have "skill_tail ''docs:secret'' = ''secret''" by code_simp
  ultimately show ?thesis using r by fastforce
qed

theorem named_skills_only_witness:
  "\<exists>names. snd (set_allowed_tools [] [] [''Read'', ''Skill(sum)'', ''Skill(weird ,)'']) = Only_skills names \<and> ''sum'' \<in> set names \<and>
     ''weird ,'' \<notin> set names"
proof -
  let ?ts = "[''Read'', ''Skill(sum)'', ''Skill(weird ,)'']"
  have r: "skill_rule ''Skill(sum)'' = Some ''sum''" "agent_rule ''Skill(sum)'' = None"
    "skill_name_problem ''sum'' = None" "skill_name_problem ''weird ,'' \<noteq> None"
    by code_simp+
  have h: "''Skill'' \<notin> set []" "''Skill(sum)'' \<in> set ?ts" "skill_rule ''Skill(sum)'' = Some ''sum''" "''Skill(sum)'' \<notin> set []"
    "''Skill(sum)'' \<notin> set []" "''Skill'' \<notin> set ?ts" "set ?ts \<inter> set skill_wildcards = {}" "agent_rule ''Skill(sum)'' = None"
    using r by (simp_all add: skill_wildcards_def)
  from named_skills_only [OF prod.collapse [symmetric, of "set_allowed_tools [] [] ?ts"] h]
  obtain names where n: "snd (set_allowed_tools [] [] ?ts) = Only_skills names"
    "set names = {m. (\<exists>u \<in> set ?ts. u \<notin> set [] \<and> u \<notin> set [] \<and> agent_rule u = None \<and> skill_rule u = Some m) \<and>
      skill_name_problem m = None}" by blast
  then show ?thesis using r by auto
qed

text \<open>A disallowed \<open>Task\<close> is put back among the allowed tools by a rule that names a subagent.\<close>

lemma disallowed_task_is_back: "''Task'' \<in> set (fst (set_allowed_tools [''Task''] [] [''Task'', ''Task(helper)'']))"
  by code_simp

end
