(* ===== verification/TranscriptTurns.thy ===== *)
theory TranscriptTurns
  imports Json PyText
begin

text \<open>
  Counting the turns of a session transcript, \<open>src/src/backends/claude/transcript_turns.py\<close>: the
  bound on the values of a line before it is parsed, and the rule for prompts.  \<open>loads\<close> is
  \<open>json.loads\<close>, with no value when it raises.
\<close>

section \<open>Bounding a line\<close>

text \<open>json's string scanner behind an opening quote: the text after the closing one.\<close>

definition is_hex4 :: "string \<Rightarrow> bool" where
  "is_hex4 s \<longleftrightarrow> 4 \<le> length s \<and> list_all is_hex (take 4 s)"

definition simple_escapes :: "char set" where
  "simple_escapes = {CHR 0x22, CHR 0x5C, CHR ''/'', CHR ''b'', CHR ''f'', CHR ''n'', CHR ''r'', CHR ''t''}"

function scan_string :: "string \<Rightarrow> string option" where
  "scan_string [] = None"
| "scan_string (c # r) =
     (if c = CHR 0x22 then Some r
      else if c = CHR 0x5C then
        (case r of
           [] \<Rightarrow> None
         | e # r' \<Rightarrow>
             if e = CHR ''u'' then (if is_hex4 r' then scan_string (drop 4 r') else None)
             else if e \<in> simple_escapes then scan_string r' else None)
      else if (of_char c :: nat) < 32 then None
      else scan_string r)"
  by pat_completeness auto
termination by (relation "measure length") auto

lemma scan_shorter: "scan_string s = Some r \<Longrightarrow> length r < length s"
proof (induction s rule: scan_string.induct)
  case (2 c r')
  then show ?case by (auto split: if_splits list.splits)
qed simp

lemma scan_append: "scan_string s = Some r \<Longrightarrow> scan_string (s @ x) = Some (r @ x)"
proof (induction s rule: scan_string.induct)
  case (2 c r')
  then show ?case by (auto simp: is_hex4_def split: if_splits list.splits)
qed simp

definition value_chars :: "char set" where
  "value_chars = {CHR 0x22, CHR ''['', CHR ''{'', CHR '','', CHR '':''}"

text \<open>\<open>too_many_values\<close>: the scan from a position with the count so far.\<close>

function passes_limit :: "nat \<Rightarrow> nat \<Rightarrow> string \<Rightarrow> bool" where
  "passes_limit limit n [] = (limit < n)"
| "passes_limit limit n (c # cs) =
     (if limit < n then True
      else if c = CHR 0x22 then (case scan_string cs of None \<Rightarrow> True | Some r \<Rightarrow> passes_limit limit (Suc n) r)
      else if c \<in> value_chars then passes_limit limit (Suc n) cs
      else passes_limit limit n cs)"
  by pat_completeness auto
termination by (relation "measure (\<lambda>(_, _, s). length s)") (auto dest: scan_shorter)

definition too_many_values :: "string \<Rightarrow> nat \<Rightarrow> bool" where
  "too_many_values line limit \<longleftrightarrow> limit < length line \<and> passes_limit limit 0 line"

section \<open>Counting prompts\<close>

text \<open>The parts of a \<open>PurePosixPath\<close>: its root (two slashes are a root of their own) and its names.\<close>

definition path_root :: "string \<Rightarrow> string" where
  "path_root p =
     (if starts_with ''//'' p \<and> \<not> starts_with ''///'' p then ''//'' else if starts_with ''/'' p then ''/'' else [])"

definition posix_path :: "string \<Rightarrow> string \<times> string list" where
  "posix_path p = (path_root p, filter (\<lambda>n. n \<noteq> [] \<and> n \<noteq> ''.'') (split_on (CHR ''/'') p))"

definition other_workspace :: "string \<Rightarrow> json \<Rightarrow> bool" where
  "other_workspace expected line \<longleftrightarrow>
     (case jfield line ''cwd'' of J_str t \<Rightarrow> t \<noteq> [] \<and> posix_path t \<noteq> posix_path expected | _ \<Rightarrow> False)"

definition only_tool_results :: "json \<Rightarrow> bool" where
  "only_tool_results content \<longleftrightarrow>
     (case content of
        J_list bs \<Rightarrow> bs \<noteq> [] \<and> list_all (\<lambda>b. is_obj b \<and> jfield b ''type'' = J_str ''tool_result'') bs
      | _ \<Rightarrow> False)"

datatype line_kind = Corrupt_line | Foreign_line | Prompt_line | Other_line

definition line_kind_of :: "(string \<Rightarrow> json option) \<Rightarrow> string \<Rightarrow> nat \<Rightarrow> string \<Rightarrow> line_kind" where
  "line_kind_of loads expected limit raw =
     (if too_many_values raw limit then Corrupt_line
      else
        case loads raw of
          None \<Rightarrow> Corrupt_line
        | Some line \<Rightarrow>
            if \<not> is_obj line then Corrupt_line
            else if other_workspace expected line then Foreign_line
            else if jfield line ''type'' \<noteq> J_str ''user'' \<or> jtruthy (jfield line ''isMeta'') then Other_line
            else
              let message = jget_or (J_obj []) line ''message''
              in if \<not> is_obj message then Corrupt_line
                 else if only_tool_results (jfield message ''content'') then Other_line else Prompt_line)"

definition transcript_mismatch :: int where "transcript_mismatch = - 2"

definition transcript_corrupt :: int where "transcript_corrupt = - 3"

fun count_from :: "(string \<Rightarrow> json option) \<Rightarrow> string \<Rightarrow> nat \<Rightarrow> int \<Rightarrow> string list \<Rightarrow> int" where
  "count_from loads expected limit n [] = n"
| "count_from loads expected limit n (raw # raws) =
     (case line_kind_of loads expected limit raw of
        Corrupt_line \<Rightarrow> transcript_corrupt
      | Foreign_line \<Rightarrow> transcript_mismatch
      | Prompt_line \<Rightarrow> count_from loads expected limit (n + 1) raws
      | Other_line \<Rightarrow> count_from loads expected limit n raws)"

definition count_transcript_turns :: "(string \<Rightarrow> json option) \<Rightarrow> string \<Rightarrow> nat \<Rightarrow> string list \<Rightarrow> int" where
  "count_transcript_turns loads expected limit raws = count_from loads expected limit 0 raws"

text \<open>\<open>bounded_lines\<close>: a line over the bound ends the iteration as an empty one.\<close>

fun bounded_lines :: "nat \<Rightarrow> string list \<Rightarrow> string list" where
  "bounded_lines limit [] = []"
| "bounded_lines limit (l # ls) = (if l = [] then [] else if limit < length l then [[]] else l # bounded_lines limit ls)"

section \<open>The count\<close>

definition good_line :: "line_kind \<Rightarrow> bool" where
  "good_line k \<longleftrightarrow> k \<in> {Prompt_line, Other_line}"

lemma count_from_good:
  "list_all (\<lambda>r. good_line (line_kind_of loads expected limit r)) raws \<Longrightarrow>
     count_from loads expected limit n raws = n + int (length (filter (\<lambda>r. line_kind_of loads expected limit r = Prompt_line) raws))"
  by (induction raws arbitrary: n) (auto simp: good_line_def)

text \<open>
  A count is the number of prompts, and of a transcript whose every line is an object within the
  bound and of the requester's own workspace: anything else in it makes the result negative.
\<close>

theorem count_is_of_own_prompts:
  "count_transcript_turns loads expected limit raws =
     (if list_all (\<lambda>r. good_line (line_kind_of loads expected limit r)) raws
      then int (length (filter (\<lambda>r. line_kind_of loads expected limit r = Prompt_line) raws))
      else if line_kind_of loads expected limit (hd (dropWhile (\<lambda>r. good_line (line_kind_of loads expected limit r)) raws)) = Foreign_line
      then transcript_mismatch else transcript_corrupt)"
proof -
  have "count_from loads expected limit n raws =
     (if list_all (\<lambda>r. good_line (line_kind_of loads expected limit r)) raws
      then n + int (length (filter (\<lambda>r. line_kind_of loads expected limit r = Prompt_line) raws))
      else if line_kind_of loads expected limit (hd (dropWhile (\<lambda>r. good_line (line_kind_of loads expected limit r)) raws)) = Foreign_line
      then transcript_mismatch else transcript_corrupt)" for n
    by (induction raws arbitrary: n) (auto simp: good_line_def split: line_kind.splits)
  from this [of 0] show ?thesis by (simp add: count_transcript_turns_def)
qed

text \<open>A line that only carries tool results - the answer of a continuation - counts nothing.\<close>

lemma answers_not_counted:
  assumes "\<not> too_many_values raw limit" "loads raw = Some (J_obj d)" "\<not> other_workspace expected (J_obj d)"
    and "jfield (J_obj d) ''type'' = J_str ''user''" "jfield (J_obj d) ''message'' = J_obj m"
    and "only_tool_results (jfield (J_obj m) ''content'')"
  shows "count_transcript_turns loads expected limit (raws @ [raw]) = count_transcript_turns loads expected limit raws"
proof -
  have "jget_or (J_obj []) (J_obj d) ''message'' = J_obj m" using assms(5) by (auto simp: jget_or_def split: option.splits)
  then have "line_kind_of loads expected limit raw = Other_line"
    using assms by (simp add: line_kind_of_def Let_def)
  then have "count_from loads expected limit n (raws @ [raw]) = count_from loads expected limit n raws" for n
    by (induction raws arbitrary: n) (auto split: line_kind.splits)
  then show ?thesis by (simp add: count_transcript_turns_def)
qed

section \<open>What the scan bounds\<close>

text \<open>
  The texts of a JSON value, with white space anywhere between tokens, and the number of values a
  parser builds from one: keys of an object included, also repeated ones.
\<close>

definition blank :: "string \<Rightarrow> bool" where
  "blank w \<longleftrightarrow> set w \<subseteq> {CHR '' '', CHR 0x09, CHR 0x0A, CHR 0x0D}"

definition atom_text :: "string \<Rightarrow> bool" where
  "atom_text t \<longleftrightarrow> t \<noteq> [] \<and> set t \<inter> (value_chars \<union> {CHR '']'', CHR ''}''}) = {}"

definition string_text :: "string \<Rightarrow> bool" where
  "string_text t \<longleftrightarrow> (\<exists>b. t = CHR 0x22 # b \<and> scan_string b = Some [])"

inductive json_text :: "json \<Rightarrow> string \<Rightarrow> bool" and items_text :: "json list \<Rightarrow> string \<Rightarrow> bool"
  and members_text :: "(string \<times> json) list \<Rightarrow> string \<Rightarrow> bool" where
  text_atom: "\<not> is_obj v \<Longrightarrow> list_of v = None \<Longrightarrow> atom_text t \<Longrightarrow> json_text v t"
| text_string: "string_text t \<Longrightarrow> json_text (J_str s) t"
| text_no_list: "blank w \<Longrightarrow> json_text (J_list []) (CHR ''['' # w @ '']'')"
| text_list: "items_text vs t \<Longrightarrow> json_text (J_list vs) (CHR ''['' # t @ '']'')"
| text_no_obj: "blank w \<Longrightarrow> json_text (J_obj []) (CHR ''{'' # w @ ''}'')"
| text_obj: "members_text d t \<Longrightarrow> json_text (J_obj d) (CHR ''{'' # t @ ''}'')"
| text_item: "blank w \<Longrightarrow> json_text v t \<Longrightarrow> blank x \<Longrightarrow> items_text [v] (w @ t @ x)"
| text_items: "blank w \<Longrightarrow> json_text v t \<Longrightarrow> blank x \<Longrightarrow> items_text vs r \<Longrightarrow> items_text (v # vs) (w @ t @ x @ '','' @ r)"
| text_member: "blank w \<Longrightarrow> string_text q \<Longrightarrow> blank x \<Longrightarrow> blank y \<Longrightarrow> json_text v t \<Longrightarrow> blank z \<Longrightarrow>
     members_text [(k, v)] (w @ q @ x @ '':'' @ y @ t @ z)"
| text_members: "blank w \<Longrightarrow> string_text q \<Longrightarrow> blank x \<Longrightarrow> blank y \<Longrightarrow> json_text v t \<Longrightarrow> blank z \<Longrightarrow> members_text d r \<Longrightarrow>
     members_text ((k, v) # d) (w @ q @ x @ '':'' @ y @ t @ z @ '','' @ r)"

fun json_values :: "json \<Rightarrow> nat" where
  "json_values (J_list vs) = Suc (sum_list (map json_values vs))"
| "json_values (J_obj d) = Suc (sum_list (map (\<lambda>(k, v). Suc (json_values v)) d))"
| "json_values v = 1"

text \<open>What the scan counts in a text, without its limit.\<close>

function marks :: "string \<Rightarrow> nat option" where
  "marks [] = Some 0"
| "marks (c # cs) =
     (if c = CHR 0x22 then (case scan_string cs of None \<Rightarrow> None | Some r \<Rightarrow> map_option Suc (marks r))
      else if c \<in> value_chars then map_option Suc (marks cs)
      else marks cs)"
  by pat_completeness auto
termination by (relation "measure length") (auto dest: scan_shorter)

lemma marks_plain: "set t \<inter> value_chars = {} \<Longrightarrow> marks (t @ r) = marks r"
  by (induction t) (auto simp: value_chars_def)

lemma marks_blank: "blank w \<Longrightarrow> marks (w @ r) = marks r"
  by (rule marks_plain) (auto simp: blank_def value_chars_def)

lemma marks_atom: "atom_text t \<Longrightarrow> marks (t @ r) = marks r"
  by (rule marks_plain) (auto simp: atom_text_def)

lemma marks_string: "string_text t \<Longrightarrow> marks (t @ r) = map_option Suc (marks r)"
  by (auto simp: string_text_def dest: scan_append [of _ _ r])

text \<open>The scan counts at least the values of the text: all but one for a list, which no string names.\<close>

definition counts :: "nat \<Rightarrow> string \<Rightarrow> bool" where
  "counts n t \<longleftrightarrow> (\<exists>k. n \<le> k \<and> (\<forall>r. marks (t @ r) = map_option (\<lambda>m. m + k) (marks r)))"

lemma counts_Nil: "counts 0 []"
  unfolding counts_def by (intro exI [of _ 0]) (simp add: option.map_ident)

lemma counts_append:
  assumes "counts a s" "counts b t"
  shows "counts (a + b) (s @ t)"
proof -
  obtain k where k: "a \<le> k" "\<And>r. marks (s @ r) = map_option (\<lambda>m. m + k) (marks r)" using assms(1) by (auto simp: counts_def)
  obtain l where l: "b \<le> l" "\<And>r. marks (t @ r) = map_option (\<lambda>m. m + l) (marks r)" using assms(2) by (auto simp: counts_def)
  have "marks ((s @ t) @ r) = map_option (\<lambda>m. m + (k + l)) (marks r)" for r
    by (simp add: k(2) l(2) option.map_comp comp_def add.commute add.left_commute)
  then show ?thesis unfolding counts_def using k(1) l(1) by (intro exI [of _ "k + l"]) simp
qed

lemma counts_blank: "blank w \<Longrightarrow> counts 0 w"
  unfolding counts_def by (intro exI [of _ 0]) (simp add: marks_blank option.map_ident)

lemma counts_string: "string_text t \<Longrightarrow> counts 1 t"
  unfolding counts_def by (intro exI [of _ 1]) (simp add: marks_string)

lemma counts_atom: "atom_text t \<Longrightarrow> counts 0 t"
  unfolding counts_def by (intro exI [of _ 0]) (simp add: marks_atom option.map_ident)

lemma counts_one: "c \<in> value_chars \<Longrightarrow> c \<noteq> CHR 0x22 \<Longrightarrow> counts 1 [c]"
  unfolding counts_def by (intro exI [of _ 1]) simp

lemma counts_none: "c \<notin> value_chars \<Longrightarrow> counts 0 [c]"
  unfolding counts_def by (intro exI [of _ 0]) (simp add: option.map_ident value_chars_def)

lemma counts_le: "counts n t \<Longrightarrow> m \<le> n \<Longrightarrow> counts m t"
  unfolding counts_def by (blast intro: le_trans)

lemma counts_char: "c \<in> {CHR ''['', CHR ''{'', CHR '','', CHR '':''} \<Longrightarrow> counts 1 [c]" "c \<in> {CHR '']'', CHR ''}''} \<Longrightarrow> counts 0 [c]"
  by (rule counts_one; auto simp: value_chars_def) (rule counts_none; auto simp: value_chars_def)

lemma values_pos: "0 < json_values v"
  by (cases v) simp_all

lemma text_counts:
  "json_text v t \<Longrightarrow> counts (json_values v - 1) t \<and> (is_obj v \<longrightarrow> counts (json_values v) t)"
  "items_text vs t \<Longrightarrow> counts (sum_list (map json_values vs) - 1) t"
  "members_text d t \<Longrightarrow> counts (sum_list (map (\<lambda>(k, v). Suc (json_values v)) d)) t"
proof (induction rule: json_text_items_text_members_text.inducts)
  case (text_atom v t)
  then have "json_values v = 1" "\<not> is_obj v" by (cases v; simp)+
  then show ?case using counts_atom text_atom by simp
next
  case (text_string t s)
  then show ?case using counts_le [OF counts_string] by simp
next
  case (text_no_list w)
  have "counts (1 + (0 + 0)) ([CHR ''[''] @ w @ [CHR '']''])"
    by (intro counts_append counts_char counts_blank text_no_list) auto
  then show ?case using counts_le by fastforce
next
  case (text_list vs t)
  have "counts (1 + ((sum_list (map json_values vs) - 1) + 0)) ([CHR ''[''] @ t @ [CHR '']''])"
    by (intro counts_append counts_char text_list) auto
  then show ?case using counts_le by fastforce
next
  case (text_no_obj w)
  have "counts (1 + (0 + 0)) ([CHR ''{''] @ w @ [CHR ''}''])"
    by (intro counts_append counts_char counts_blank text_no_obj) auto
  then show ?case using counts_le [of 1 _ 0] by simp
next
  case (text_obj d t)
  let ?n = "sum_list (map (\<lambda>(k, v). Suc (json_values v)) d)"
  have c: "counts (1 + (?n + 0)) ([CHR ''{''] @ t @ [CHR ''}''])"
    by (intro counts_append counts_char text_obj) auto
  then have "counts (Suc ?n) (CHR ''{'' # t @ ''}'')" by simp
  then show ?case using counts_le [of "Suc ?n" _ ?n] by simp
next
  case (text_item w v t x)
  have c: "counts 0 w" "counts (json_values v - 1) t" "counts 0 x" using text_item by (simp_all add: counts_blank)
  show ?case using counts_append [OF c(1) counts_append [OF c(2, 3)]] by simp
next
  case (text_items w v t x vs r)
  have c: "counts 0 w" "counts (json_values v - 1) t" "counts 0 x" "counts (sum_list (map json_values vs) - 1) r"
    using text_items by (simp_all add: counts_blank)
  have "counts (0 + ((json_values v - 1) + (0 + (1 + (sum_list (map json_values vs) - 1))))) (w @ t @ x @ [CHR '',''] @ r)"
    by (rule counts_append [OF c(1) counts_append [OF c(2) counts_append [OF c(3) counts_append [OF counts_char(1) c(4)]]]]) simp
  then show ?case using values_pos [of v] by (simp add: counts_le)
next
  case (text_member w q x y v t z k)
  have c: "counts 0 w" "counts 1 q" "counts 0 x" "counts 0 y" "counts (json_values v - 1) t" "counts 0 z"
    using text_member by (simp_all add: counts_blank counts_string [unfolded One_nat_def])
  have "counts (0 + (1 + (0 + (1 + (0 + ((json_values v - 1) + 0)))))) (w @ q @ x @ [CHR '':''] @ y @ t @ z)"
    by (rule counts_append [OF c(1) counts_append [OF c(2) counts_append [OF c(3) counts_append [OF counts_char(1)
      counts_append [OF c(4) counts_append [OF c(5, 6)]]]]]]) simp
  then show ?case using values_pos [of v] by simp
next
  case (text_members w q x y v t z d r k)
  let ?n = "sum_list (map (\<lambda>(k, v). Suc (json_values v)) d)"
  have c: "counts 0 w" "counts 1 q" "counts 0 x" "counts 0 y" "counts (json_values v - 1) t" "counts 0 z" "counts ?n r"
    using text_members by (simp_all add: counts_blank counts_string [unfolded One_nat_def])
  have "counts (0 + (1 + (0 + (1 + (0 + ((json_values v - 1) + (0 + (1 + ?n)))))))) (w @ q @ x @ [CHR '':''] @ y @ t @ z @ [CHR '',''] @ r)"
    by (rule counts_append [OF c(1) counts_append [OF c(2) counts_append [OF c(3) counts_append [OF counts_char(1)
      counts_append [OF c(4) counts_append [OF c(5) counts_append [OF c(6) counts_append [OF counts_char(1) c(7)]]]]]]]]) simp_all
  then show ?case using values_pos [of v] by (elim counts_le) simp
qed

lemma text_length:
  "json_text v t \<Longrightarrow> json_values v \<le> length t"
  "items_text vs t \<Longrightarrow> sum_list (map json_values vs) \<le> length t"
  "members_text d t \<Longrightarrow> sum_list (map (\<lambda>(k, v). Suc (json_values v)) d) \<le> length t"
proof (induction rule: json_text_items_text_members_text.inducts)
  case (text_atom v t)
  then have "json_values v = 1" by (cases v; simp)
  then show ?case using text_atom by (cases t) (auto simp: atom_text_def)
qed (auto simp: string_text_def)

lemma within_limit: "\<not> passes_limit limit n s \<Longrightarrow> \<exists>k. marks s = Some k \<and> n + k \<le> limit"
proof (induction limit n s rule: passes_limit.induct)
  case (2 limit n c cs)
  show ?case
  proof (cases "c = CHR 0x22")
    case True
    then obtain r where r: "scan_string cs = Some r" "\<not> passes_limit limit (Suc n) r"
      using 2 by (auto split: if_splits option.splits)
    then obtain k where "marks r = Some k" "Suc n + k \<le> limit" using 2 True by (auto split: if_splits)
    then show ?thesis using True r by (intro exI [of _ "Suc k"]) simp
  next
    case False
    then show ?thesis using 2 by (cases "c \<in> value_chars") (fastforce split: if_splits)+
  qed
qed auto


text \<open>Samples: a line with its values, and one value over the limit in a list, which is no good line.\<close>

definition sample_line :: string where
  "sample_line = CHR ''{'' # ''}''"


lemma list_over_by_one: "\<not> too_many_values ''[[1]]'' 2" "json_values (J_list [J_list [J_int 1]]) = 3"
  by code_simp+

end
