(* ===== verification/AppserverEvents.thy ===== *)
theory AppserverEvents
  imports Json PyText
begin

text \<open>
  One turn of the app-server backend as chunks: \<open>src/src/backends/appserver/events.py\<close>, the class
  \<open>TurnMapper\<close>, and \<open>subagents.py\<close> beside it.  A chunk is a JSON object.  Where Python raises, a
  generator ends with the third part of its result set.
\<close>

section \<open>Subagents\<close>

datatype agent_kind = Spawned | Progress | Terminal

record agent_event =
  ag_kind :: agent_kind
  ag_child :: string
  ag_parent :: "string option"
  ag_status :: "string option"
  ag_description :: "string option"
  ag_role :: "string option"

definition terminal_states :: "(string, string) dict" where
  "terminal_states =
     [(''completed'', ''completed''), (''succeeded'', ''completed''), (''success'', ''completed''), (''failed'', ''failed''),
      (''error'', ''failed''), (''interrupted'', ''killed''), (''cancelled'', ''killed''), (''canceled'', ''killed''),
      (''closed'', ''stopped''), (''stopped'', ''stopped'')]"

definition spawn_methods :: "string list" where
  "spawn_methods = [''thread/started'', ''thread/spawned'', ''thread/spawn'']"

definition item_methods :: "string list" where
  "item_methods = [''item/started'', ''item/updated'', ''item/completed'']"

fun first_str :: "json \<Rightarrow> string list \<Rightarrow> string option" where
  "first_str v [] = None"
| "first_str v (k # ks) = (case jfield v k of J_str (c # cs) \<Rightarrow> Some (c # cs) | _ \<Rightarrow> first_str v ks)"

definition from_thread :: "json \<Rightarrow> agent_event option" where
  "from_thread t =
     (case (first_str t [''id'', ''threadId''], first_str t [''parentThreadId'', ''parent_thread_id'']) of
        (Some c, Some p) \<Rightarrow>
          Some \<lparr>ag_kind = Spawned, ag_child = c, ag_parent = Some p, ag_status = None,
                ag_description = first_str t [''description'', ''title'', ''path''],
                ag_role = first_str t [''role'', ''nickname'', ''name'']\<rparr>
      | _ \<Rightarrow> None)"

definition from_item :: "json \<Rightarrow> string option \<Rightarrow> agent_event option" where
  "from_item item owner =
     (if jfield item ''type'' \<noteq> J_str ''subAgentActivity'' then None
      else
        case first_str item [''agentThreadId'', ''agent_thread_id''] of
          None \<Rightarrow> None
        | Some c \<Rightarrow>
            let kind = lower_text (case first_str item [''kind''] of None \<Rightarrow> [] | Some k \<Rightarrow> k);
                ev = \<lparr>ag_kind = Progress, ag_child = c, ag_parent = owner, ag_status = None,
                      ag_description = first_str item [''agentPath'', ''agent_path''], ag_role = None\<rparr>
            in case dget terminal_states kind of
                 Some st \<Rightarrow> Some (ev\<lparr>ag_kind := Terminal, ag_status := Some st\<rparr>)
               | None \<Rightarrow> if kind = ''started'' then Some (ev\<lparr>ag_kind := Spawned\<rparr>) else Some ev)"

text \<open>A list or a dictionary as the type of an item cannot be looked up in a set: no value.\<close>

definition set_key :: "json \<Rightarrow> bool" where
  "set_key v \<longleftrightarrow> (case v of J_list _ \<Rightarrow> False | J_obj _ \<Rightarrow> False | _ \<Rightarrow> True)"

definition normalize_subagent_event :: "string \<Rightarrow> json \<Rightarrow> agent_event option option" where
  "normalize_subagent_event method params =
     (if method \<in> set spawn_methods then
        Some (if is_obj (jfield params ''thread'') then from_thread (jfield params ''thread'') else None)
      else if method \<in> set item_methods \<and> is_obj (jfield params ''item'') then
        (if set_key (jfield (jfield params ''item'') ''type'') then
           Some (from_item (jfield params ''item'') (str_of (jfield params ''threadId'')))
         else None)
      else Some None)"

section \<open>Chunks\<close>

definition text_delta :: "string \<Rightarrow> json" where
  "text_delta t =
     J_obj [(''type'', J_str ''stream_event''),
       (''event'', J_obj [(''type'', J_str ''content_block_delta''),
          (''delta'', J_obj [(''type'', J_str ''text_delta''), (''text'', J_str t)])])]"

definition thinking_start :: json where
  "thinking_start =
     J_obj [(''type'', J_str ''stream_event''),
       (''event'', J_obj [(''type'', J_str ''content_block_start''), (''content_block'', J_obj [(''type'', J_str ''thinking'')])])]"

definition thinking_delta :: "string \<Rightarrow> json" where
  "thinking_delta t =
     J_obj [(''type'', J_str ''stream_event''),
       (''event'', J_obj [(''type'', J_str ''content_block_delta''),
          (''delta'', J_obj [(''type'', J_str ''thinking_delta''), (''thinking'', J_str t)])])]"

definition thinking_stop :: json where
  "thinking_stop = J_obj [(''type'', J_str ''stream_event''), (''event'', J_obj [(''type'', J_str ''content_block_stop'')])]"

definition error_chunk :: "string \<Rightarrow> json" where
  "error_chunk msg = J_obj [(''type'', J_str ''error''), (''is_error'', J_bool True), (''error_message'', J_str msg)]"

definition usage_entry :: "(int \<times> int) option \<Rightarrow> (string \<times> json) list" where
  "usage_entry u =
     (case u of
        None \<Rightarrow> []
      | Some (i, k) \<Rightarrow> [(''usage'', J_obj [(''input_tokens'', J_int i), (''output_tokens'', J_int k)])])"

definition content_chunk :: "string \<Rightarrow> json \<Rightarrow> (string \<times> json) list \<Rightarrow> json" where
  "content_chunk type b rest = J_obj ([(''type'', J_str type), (''content'', J_list [b])] @ rest)"

definition completion_chunks :: "string \<Rightarrow> (int \<times> int) option \<Rightarrow> json list" where
  "completion_chunks t u =
     [content_chunk ''assistant'' (J_obj [(''type'', J_str ''text''), (''text'', J_str t)]) (usage_entry u),
      J_obj ([(''type'', J_str ''result''), (''subtype'', J_str ''success''), (''result'', J_str t)] @ usage_entry u)]"

section \<open>The mapper\<close>

record mapper =
  tm_thread :: "string option"
  tm_turn :: "string option"
  tm_items :: "json list"
  tm_usage :: "(int \<times> int) option"
  tm_reasoning :: bool
  tm_finished :: bool
  tm_errored :: bool
  tm_open :: "(string, string option) dict"

definition new_mapper :: "string option \<Rightarrow> string option \<Rightarrow> mapper" where
  "new_mapper thread turn =
     \<lparr>tm_thread = thread, tm_turn = turn, tm_items = [], tm_usage = None, tm_reasoning = False, tm_finished = False,
      tm_errored = False, tm_open = []\<rparr>"

text \<open>What the code calls outside: \<open>json.dumps\<close>, \<open>str()\<close> of values, truncation of a float.\<close>

record map_env =
  me_dumps :: "json \<Rightarrow> string"
  me_show :: "json \<Rightarrow> string"
  me_trunc :: "string \<Rightarrow> int option"

definition succeeded :: "mapper \<Rightarrow> bool" where
  "succeeded m \<longleftrightarrow> tm_finished m \<and> \<not> tm_errored m"

definition opt_json :: "string option \<Rightarrow> json" where
  "opt_json s = (case s of None \<Rightarrow> J_null | Some t \<Rightarrow> J_str t)"

definition task_chunk :: "string \<Rightarrow> agent_event \<Rightarrow> string option \<Rightarrow> json" where
  "task_chunk subtype ev status =
     J_obj
       ([(''type'', J_str ''system''), (''subtype'', J_str subtype), (''task_id'', J_str (ag_child ev)),
         (''task_type'', J_str ''local_agent''), (''parent_tool_use_id'', opt_json (ag_parent ev))] @
        (case ag_description ev of None \<Rightarrow> [] | Some d \<Rightarrow> [(''description'', J_str d)]) @
        (case ag_role ev of None \<Rightarrow> [] | Some r \<Rightarrow> [(''subagent_type'', J_str r)]) @
        (if subtype = ''task_notification'' then
           [(''status'', J_str (if truthy status then the status else ''completed''))]
         else if subtype = ''task_updated'' then
           [(''status'', opt_json status), (''patch'', J_obj [(''status'', opt_json status)])]
         else []))"

definition map_subagent :: "agent_event \<Rightarrow> mapper \<Rightarrow> mapper \<times> json list" where
  "map_subagent ev m =
     (case ag_kind ev of
        Spawned \<Rightarrow>
          if dget (tm_open m) (ag_child ev) \<noteq> None then (m, [task_chunk ''task_progress'' ev None])
          else (m\<lparr>tm_open := dput (ag_child ev) (ag_parent ev) (tm_open m)\<rparr>, [task_chunk ''task_started'' ev None])
      | Progress \<Rightarrow> (m, [task_chunk ''task_progress'' ev None])
      | Terminal \<Rightarrow>
          let status = (if truthy (ag_status ev) then the (ag_status ev) else ''stopped'')
          in (m\<lparr>tm_open := ddel (ag_child ev) (tm_open m)\<rparr>,
              [task_chunk (if status = ''completed'' then ''task_notification'' else ''task_updated'') ev (Some status)]))"

definition closed_row :: "string \<Rightarrow> string \<times> string option \<Rightarrow> json" where
  "closed_row status cp =
     task_chunk ''task_updated''
       \<lparr>ag_kind = Terminal, ag_child = fst cp, ag_parent = snd cp, ag_status = None, ag_description = None, ag_role = None\<rparr>
       (Some status)"

definition drain_open_subagents :: "string \<Rightarrow> mapper \<Rightarrow> mapper \<times> json list" where
  "drain_open_subagents status m = (m\<lparr>tm_open := []\<rparr>, map (closed_row status) (tm_open m))"

definition open_reasoning :: "mapper \<Rightarrow> mapper \<times> json list" where
  "open_reasoning m = (if tm_reasoning m then (m, []) else (m\<lparr>tm_reasoning := True\<rparr>, [thinking_start]))"

definition close_reasoning :: "mapper \<Rightarrow> mapper \<times> json list" where
  "close_reasoning m = (if tm_reasoning m then (m\<lparr>tm_reasoning := False\<rparr>, [thinking_stop]) else (m, []))"

text \<open>Items of the runtime.\<close>

definition tool_item_types :: "string list" where
  "tool_item_types = [''commandExecution'', ''fileChange'', ''mcpToolCall'', ''dynamicToolCall'']"

definition tool_item :: "json \<Rightarrow> (string \<times> string) option" where
  "tool_item item =
     (case (jfield item ''type'', jfield item ''id'') of
        (J_str t, J_str (c # cs)) \<Rightarrow> if t \<in> set tool_item_types then Some (t, c # cs) else None
      | _ \<Rightarrow> None)"

definition without :: "string list \<Rightarrow> json \<Rightarrow> json" where
  "without ks v = (case v of J_obj d \<Rightarrow> J_obj (filter (\<lambda>(k, _). k \<notin> set ks) d) | w \<Rightarrow> w)"

definition tool_use_from_item :: "json \<Rightarrow> json option" where
  "tool_use_from_item item =
     map_option
       (\<lambda>(t, i). J_obj
         [(''type'', J_str ''tool_use''), (''id'', J_str i), (''name'', J_str t),
          (''input'', without [''id'', ''type'', ''aggregatedOutput''] item)])
       (tool_item item)"

definition str_or_empty :: "map_env \<Rightarrow> json \<Rightarrow> string" where
  "str_or_empty env v = (case jor v (J_str []) of J_str t \<Rightarrow> t | w \<Rightarrow> me_show env w)"

definition tool_result_from_item :: "map_env \<Rightarrow> json \<Rightarrow> json option" where
  "tool_result_from_item env item =
     (case tool_item item of
        None \<Rightarrow> None
      | Some (t, i) \<Rightarrow>
          let status = str_or_empty env (jfield item ''status'');
              exit = jfield item ''exitCode'';
              bad = (t = ''commandExecution'' \<and> (case int_of_json exit of None \<Rightarrow> False | Some n \<Rightarrow> n \<noteq> 0));
              content =
                (if t = ''commandExecution'' then
                   (case jfield item ''aggregatedOutput'' of
                      J_str (c # cs) \<Rightarrow> c # cs
                    | _ \<Rightarrow> me_dumps env (J_obj [(''status'', J_str status), (''exitCode'', exit), (''command'', jfield item ''command'')]))
                 else me_dumps env (without [''id'', ''type''] item))
          in Some (J_obj
            [(''type'', J_str ''tool_result''), (''tool_use_id'', J_str i), (''content'', J_str content),
             (''is_error'', J_bool (status \<in> {''failed'', ''declined''} \<or> bad))]))"

text \<open>The final answer, from the latest item back.\<close>

fun final_of :: "json list \<Rightarrow> string option \<Rightarrow> string option" where
  "final_of [] best = best"
| "final_of (item # items) best =
     (case (jfield item ''type'' = J_str ''agentMessage'', jfield item ''text'') of
        (True, J_str t) \<Rightarrow>
          if jfield item ''phase'' = J_str ''final_answer'' then Some t
          else final_of items (if jfield item ''phase'' = J_null \<and> best = None then Some t else best)
      | _ \<Rightarrow> final_of items best)"

definition final_response :: "mapper \<Rightarrow> string" where
  "final_response m = (case final_of (rev (tm_items m)) None of None \<Rightarrow> [] | Some t \<Rightarrow> t)"

text \<open>\<open>int(v or 0)\<close>, with no value where Python raises.\<close>

definition int_or_zero :: "map_env \<Rightarrow> json \<Rightarrow> int option" where
  "int_or_zero env v =
     (case jor v (J_int 0) of
        J_int n \<Rightarrow> Some n
      | J_bool b \<Rightarrow> Some (if b then 1 else 0)
      | J_float t \<Rightarrow> me_trunc env t
      | J_str t \<Rightarrow> py_int t
      | _ \<Rightarrow> None)"

definition extract_usage :: "map_env \<Rightarrow> json \<Rightarrow> (int \<times> int) option option" where
  "extract_usage env v =
     (let l = jfield v ''last''
      in if \<not> is_obj l then Some None
         else
           case (int_or_zero env (jfield l ''inputTokens''), int_or_zero env (jfield l ''outputTokens''),
                 int_or_zero env (jfield l ''reasoningOutputTokens'')) of
             (Some i, Some a, Some b) \<Rightarrow> Some (Some (i, a + b))
           | _ \<Rightarrow> None)"

definition turn_error_message :: "map_env \<Rightarrow> json \<Rightarrow> string" where
  "turn_error_message env turn =
     (let msg = jfield (jfield turn ''error'') ''message''
      in if jtruthy msg then str_or_empty env msg else ''Codex turn failed'')"

definition is_thread_idle :: "mapper \<Rightarrow> string \<Rightarrow> json \<Rightarrow> bool" where
  "is_thread_idle m method params \<longleftrightarrow>
     truthy (tm_thread m) \<and> method = ''thread/status/changed'' \<and> jfield params ''threadId'' = opt_json (tm_thread m) \<and>
     jfield (jfield params ''status'') ''type'' = J_str ''idle''"

definition notification_turn :: "json \<Rightarrow> json" where
  "notification_turn params =
     (if is_obj (jfield params ''turn'') then jor (jfield (jfield params ''turn'') ''id'') (jfield params ''turnId'')
      else jfield params ''turnId'')"

section \<open>One notification\<close>

definition finish :: "mapper \<Rightarrow> mapper \<times> json list" where
  "finish m =
     (if tm_finished m then (m, [])
      else
        let (m, o1) = close_reasoning m; (m, o2) = drain_open_subagents ''stopped'' m
        in (m\<lparr>tm_finished := True\<rparr>, o1 @ o2 @ completion_chunks (final_response m) (tm_usage m)))"

definition fail_mapper :: "string \<Rightarrow> mapper \<Rightarrow> mapper \<times> json list" where
  "fail_mapper msg m =
     (let (m, o1) = close_reasoning m; (m, o2) = drain_open_subagents ''failed'' m
      in (m\<lparr>tm_finished := True, tm_errored := True\<rparr>, o1 @ o2 @ [error_chunk msg]))"

definition map_delta :: "json \<Rightarrow> mapper \<Rightarrow> mapper \<times> json list" where
  "map_delta delta m =
     (let (m, o1) = close_reasoning m
      in case delta of J_str (c # cs) \<Rightarrow> (m, o1 @ [text_delta (c # cs)]) | _ \<Rightarrow> (m, o1))"

definition map_reasoning :: "json \<Rightarrow> mapper \<Rightarrow> mapper \<times> json list" where
  "map_reasoning delta m =
     (case delta of
        J_str (c # cs) \<Rightarrow> (let (m, o1) = open_reasoning m in (m, o1 @ [thinking_delta (c # cs)]))
      | _ \<Rightarrow> (m, []))"

definition map_started :: "json \<Rightarrow> mapper \<Rightarrow> mapper \<times> json list" where
  "map_started item m =
     (let (m, o1) = close_reasoning m
      in case tool_use_from_item item of None \<Rightarrow> (m, o1) | Some b \<Rightarrow> (m, o1 @ [content_chunk ''assistant'' b []]))"

definition map_completed :: "map_env \<Rightarrow> json \<Rightarrow> mapper \<Rightarrow> mapper \<times> json list" where
  "map_completed env item m =
     (if \<not> is_obj item then (m, [])
      else
        case tool_result_from_item env item of
          Some b \<Rightarrow> (let (m, o1) = close_reasoning m in (m, o1 @ [content_chunk ''user'' b []]))
        | None \<Rightarrow> (m\<lparr>tm_items := tm_items m @ [item]\<rparr>, []))"

definition map_own :: "map_env \<Rightarrow> string \<Rightarrow> json \<Rightarrow> mapper \<Rightarrow> mapper \<times> json list \<times> bool" where
  "map_own env method params m =
     (let fine = (\<lambda>(m, out). (m, out, False)); turn = jfield params ''turn''
      in if method = ''item/agentMessage/delta'' then fine (map_delta (jfield params ''delta'') m)
         else if method = ''item/reasoning/textDelta'' then fine (map_reasoning (jfield params ''delta'') m)
         else if method = ''item/started'' then fine (map_started (jfield params ''item'') m)
         else if method = ''item/completed'' then fine (map_completed env (jfield params ''item'') m)
         else if method = ''thread/tokenUsage/updated'' then
           (case extract_usage env (jfield params ''tokenUsage'') of
              None \<Rightarrow> (m, [], True)
            | Some None \<Rightarrow> (m, [], False)
            | Some u \<Rightarrow> (m\<lparr>tm_usage := u\<rparr>, [], False))
         else if method = ''turn/completed'' then
           fine (if jfield turn ''status'' = J_str ''failed'' then fail_mapper (turn_error_message env turn) m else finish m)
         else (m, [], False))"

definition map_notification :: "map_env \<Rightarrow> string \<Rightarrow> json \<Rightarrow> mapper \<Rightarrow> mapper \<times> json list \<times> bool" where
  "map_notification env method params m =
     (if tm_finished m \<or> \<not> is_obj params then (m, [], False)
      else
        case normalize_subagent_event method params of
          None \<Rightarrow> (m, [], True)
        | Some (Some ev) \<Rightarrow> (let (m, out) = map_subagent ev m in (m, out, False))
        | Some None \<Rightarrow>
            if is_thread_idle m method params then (let (m, out) = finish m in (m, out, False))
            else if tm_turn m \<noteq> None \<and> notification_turn params \<notin> {J_null, opt_json (tm_turn m)} then (m, [], False)
            else map_own env method params m)"

section \<open>Reading the chunks\<close>

text \<open>
  A reader of the chunks: the rows of subagents that are open, whether a thinking block is, and
  how far the turn is.  Text and tools stay out of thinking blocks, a row is started once while
  open, the answer and any end come after all rows are closed, and after the end comes nothing.
  The card of a request may come anywhere before.
\<close>

datatype phase = Going | Answered | Over

record rows =
  rw_open :: "string list"
  rw_thinking :: bool
  rw_phase :: phase

definition no_rows :: rows where
  "no_rows = \<lparr>rw_open = [], rw_thinking = False, rw_phase = Going\<rparr>"

definition read_event :: "rows \<Rightarrow> json \<Rightarrow> rows option" where
  "read_event q e =
     (if jfield e ''type'' = J_str ''content_block_start'' then
        (if rw_thinking q then None else Some (q\<lparr>rw_thinking := True\<rparr>))
      else if jfield e ''type'' = J_str ''content_block_stop'' then
        (if rw_thinking q then Some (q\<lparr>rw_thinking := False\<rparr>) else None)
      else if rw_thinking q = (jfield (jfield e ''delta'') ''type'' = J_str ''thinking_delta'') then Some q else None)"

definition read_row :: "rows \<Rightarrow> json \<Rightarrow> rows option" where
  "read_row q c =
     (case jfield c ''task_id'' of
        J_str i \<Rightarrow>
          if jfield c ''subtype'' = J_str ''task_started'' then
            (if i \<in> set (rw_open q) then None else Some (q\<lparr>rw_open := rw_open q @ [i]\<rparr>))
          else if jfield c ''subtype'' = J_str ''task_progress'' then Some q
          else Some (q\<lparr>rw_open := removeAll i (rw_open q)\<rparr>)
      | _ \<Rightarrow> None)"

definition holds_text :: "json \<Rightarrow> bool" where
  "holds_text c \<longleftrightarrow> (case jfield c ''content'' of J_list (b # bs) \<Rightarrow> jfield b ''type'' = J_str ''text'' | _ \<Rightarrow> False)"

definition is_card :: "json \<Rightarrow> bool" where
  "is_card c \<longleftrightarrow> (case jfield c ''content'' of J_list (b # bs) \<Rightarrow> jfield b ''name'' = J_str ''codex_approval'' | _ \<Rightarrow> False)"

text \<open>
  What the route's streaming relies on: a streamed event belongs to the leader and is a block of text
  or thinking, and a chunk inside a thinking block brings no text of its own.
\<close>

definition tidy :: "rows \<Rightarrow> json \<Rightarrow> bool" where
  "tidy q c \<longleftrightarrow>
     (let ev = jfield c ''event''; t = jfield ev ''type''; d = jfield ev ''delta''
      in if jfield c ''type'' = J_str ''stream_event'' then
           jget c ''parent_tool_use_id'' = None \<and>
           (t = J_str ''content_block_delta'' \<and> is_obj d \<and> jfield d ''type'' \<in> {J_str ''text_delta'', J_str ''thinking_delta''} \<or>
            t = J_str ''content_block_start'' \<and> jget ev ''delta'' = None \<and> jfield (jfield ev ''content_block'') ''type'' = J_str ''thinking'' \<or>
            t = J_str ''content_block_stop'' \<and> jget ev ''delta'' = None)
         else if jfield c ''type'' \<in> {J_str ''assistant'', J_str ''user''} then True
         else rw_thinking q \<longrightarrow> jget c ''content'' = None \<and> jfield c ''subtype'' \<noteq> J_str ''success'')"

definition read_chunk :: "rows \<Rightarrow> json \<Rightarrow> rows option" where
  "read_chunk q c =
     (if rw_phase q = Over \<or> \<not> tidy q c then None
      else if jfield c ''type'' = J_str ''result'' then
        (if rw_open q = [] then Some (q\<lparr>rw_phase := Over\<rparr>) else None)
      else if rw_phase q = Answered then None
      else if jfield c ''type'' = J_str ''error'' then
        (if rw_open q = [] then Some (q\<lparr>rw_phase := Over\<rparr>) else None)
      else if jfield c ''type'' = J_str ''stream_event'' then read_event q (jfield c ''event'')
      else if jfield c ''type'' = J_str ''system'' then read_row q c
      else if is_card c then Some q
      else if rw_thinking q then None
      else if jfield c ''type'' = J_str ''assistant'' \<and> holds_text c then
        (if rw_open q = [] then Some (q\<lparr>rw_phase := Answered\<rparr>) else None)
      else Some q)"

definition reading :: "mapper \<Rightarrow> rows" where
  "reading m =
     \<lparr>rw_open = dkeys (tm_open m), rw_thinking = tm_reasoning m, rw_phase = (if tm_finished m then Over else Going)\<rparr>"

definition mapper_ok :: "mapper \<Rightarrow> bool" where
  "mapper_ok m \<longleftrightarrow> dwf (tm_open m) \<and> (tm_finished m \<longrightarrow> tm_open m = [] \<and> \<not> tm_reasoning m)"

named_theorems chunk_simps \<open>how the reader reads each chunk\<close>

lemma read_deltas [chunk_simps]:
  "rw_phase q = Going \<Longrightarrow> read_chunk q (text_delta t) = (if rw_thinking q then None else Some q)"
  "rw_phase q = Going \<Longrightarrow> read_chunk q (thinking_delta t) = (if rw_thinking q then Some q else None)"
  "rw_phase q = Going \<Longrightarrow> read_chunk q thinking_start = (if rw_thinking q then None else Some (q\<lparr>rw_thinking := True\<rparr>))"
  "rw_phase q = Going \<Longrightarrow> read_chunk q thinking_stop = (if rw_thinking q then Some (q\<lparr>rw_thinking := False\<rparr>) else None)"
  by (simp_all add: read_chunk_def tidy_def Let_def read_event_def text_delta_def thinking_delta_def thinking_start_def thinking_stop_def
      jget_or_def dget_Cons)

lemma read_ends [chunk_simps]:
  "rw_phase q = Going \<Longrightarrow> read_chunk q (error_chunk msg) = (if rw_open q = [] then Some (q\<lparr>rw_phase := Over\<rparr>) else None)"
  "rw_phase q = Going \<Longrightarrow> rw_open q = [] \<Longrightarrow> \<not> rw_thinking q \<Longrightarrow>
     reads read_chunk q (completion_chunks t u) = Some (q\<lparr>rw_phase := Over\<rparr>)"
  by (simp_all add: read_chunk_def tidy_def Let_def error_chunk_def completion_chunks_def content_chunk_def holds_text_def is_card_def jget_or_def dget_Cons)

lemma read_tools [chunk_simps]:
  "rw_phase q = Going \<Longrightarrow> \<not> rw_thinking q \<Longrightarrow> tool_use_from_item item = Some b \<Longrightarrow>
     read_chunk q (content_chunk ''assistant'' b []) = Some q"
  "rw_phase q = Going \<Longrightarrow> \<not> rw_thinking q \<Longrightarrow> read_chunk q (content_chunk ''user'' b []) = Some q"
  by (auto simp: read_chunk_def tidy_def Let_def content_chunk_def holds_text_def is_card_def jget_or_def dget_Cons tool_use_from_item_def)

lemma read_task [chunk_simps]:
  "rw_phase q = Going \<Longrightarrow> read_chunk q (task_chunk ''task_started'' ev st) =
     (if ag_child ev \<in> set (rw_open q) then None else Some (q\<lparr>rw_open := rw_open q @ [ag_child ev]\<rparr>))"
  "rw_phase q = Going \<Longrightarrow> read_chunk q (task_chunk ''task_progress'' ev st) = Some q"
  "rw_phase q = Going \<Longrightarrow> read_chunk q (task_chunk ''task_notification'' ev st) = Some (q\<lparr>rw_open := removeAll (ag_child ev) (rw_open q)\<rparr>)"
  "rw_phase q = Going \<Longrightarrow> read_chunk q (task_chunk ''task_updated'' ev st) = Some (q\<lparr>rw_open := removeAll (ag_child ev) (rw_open q)\<rparr>)"
  by (simp_all add: read_chunk_def tidy_def Let_def read_row_def task_chunk_def jget_or_def dget_Cons split: option.split)

lemma read_closed_rows [chunk_simps]:
  "rw_phase q = Going \<Longrightarrow> reads read_chunk q (map (closed_row st) cps) =
     Some (q\<lparr>rw_open := filter (\<lambda>i. i \<notin> fst ` set cps) (rw_open q)\<rparr>)"
proof (induction cps arbitrary: q)
  case (Cons cp cps)
  have "removeAll i xs = filter (\<lambda>x. x \<noteq> i) xs" for i :: string and xs by (induction xs) auto
  then show ?case using Cons by (simp add: closed_row_def chunk_simps conj_commute)
qed simp

section \<open>The mapper follows the reader\<close>

definition follows :: "mapper \<Rightarrow> mapper \<times> json list \<Rightarrow> bool" where
  "follows m r \<longleftrightarrow>
     (mapper_ok m \<longrightarrow> \<not> tm_finished m \<longrightarrow>
        mapper_ok (fst r) \<and> reads read_chunk (reading m) (snd r) = Some (reading (fst r)))"

lemma reading_going: "\<not> tm_finished m \<Longrightarrow> rw_phase (reading m) = Going"
  by (simp add: reading_def)

lemma reading_fields [simp]:
  "rw_open (reading m) = dkeys (tm_open m)" "rw_thinking (reading m) = tm_reasoning m"
  by (simp_all add: reading_def)

lemma followsI:
  "(mapper_ok m \<Longrightarrow> \<not> tm_finished m \<Longrightarrow> mapper_ok m' \<and> reads read_chunk (reading m) out = Some (reading m')) \<Longrightarrow> follows m (m', out)"
  by (simp add: follows_def)

text \<open>Closing the thinking block first.\<close>

lemma follows_after_close:
  assumes "\<And>m. \<not> tm_reasoning m \<Longrightarrow> follows m (g m)"
  shows "follows m (case close_reasoning m of (m, o1) \<Rightarrow> (case g m of (m, o2) \<Rightarrow> (m, o1 @ o2)))"
proof -
  let ?m = "m\<lparr>tm_reasoning := False\<rparr>"
  define o1 where "o1 = (if tm_reasoning m then [thinking_stop] else [])"
  have g: "follows ?m (g ?m)" by (rule assms) simp
  have c: "close_reasoning m = (?m, o1)" by (simp add: close_reasoning_def o1_def)
  have "reads read_chunk (reading m) o1 = Some (reading ?m)" if "\<not> tm_finished m"
    using that by (simp add: o1_def reading_def read_deltas)
  moreover have "mapper_ok m \<Longrightarrow> mapper_ok ?m" by (simp add: mapper_ok_def)
  ultimately show ?thesis using g by (auto simp: follows_def c reads_append split: prod.splits)
qed

lemma drained: "\<not> tm_finished m \<Longrightarrow> reads read_chunk (reading m) (map (closed_row st) (tm_open m)) = Some (reading (m\<lparr>tm_open := []\<rparr>))"
proof -
  assume "\<not> tm_finished m"
  moreover have "filter (\<lambda>i. i \<notin> fst ` set (tm_open m)) (dkeys (tm_open m)) = []" by (auto simp: filter_empty_conv)
  ultimately show ?thesis by (simp add: read_closed_rows reading_going)
qed

text \<open>An end behind the drained rows.\<close>

lemma follows_end:
  assumes "\<And>q. rw_phase q = Going \<Longrightarrow> rw_open q = [] \<Longrightarrow> \<not> rw_thinking q \<Longrightarrow> reads read_chunk q out = Some (q\<lparr>rw_phase := Over\<rparr>)"
    and "\<not> tm_reasoning m"
  shows "follows m (m\<lparr>tm_open := [], tm_finished := True, tm_errored := e\<rparr>, map (closed_row st) (tm_open m) @ out)"
proof (rule followsI)
  assume "mapper_ok m" "\<not> tm_finished m"
  then show "mapper_ok (m\<lparr>tm_open := [], tm_finished := True, tm_errored := e\<rparr>) \<and>
    reads read_chunk (reading m) (map (closed_row st) (tm_open m) @ out) = Some (reading (m\<lparr>tm_open := [], tm_finished := True, tm_errored := e\<rparr>))"
    using assms by (simp add: reads_append drained mapper_ok_def reading_going) (simp add: reading_def)
qed

lemma finish_follows: "follows m (finish m)"
proof -
  have "follows m (case close_reasoning m of (m, o1) \<Rightarrow>
     (case (m\<lparr>tm_open := [], tm_finished := True, tm_errored := tm_errored m\<rparr>,
        map (closed_row ''stopped'') (tm_open m) @ completion_chunks (final_response m) (tm_usage m)) of (m, o2) \<Rightarrow> (m, o1 @ o2)))"
    by (rule follows_after_close, rule follows_end) (simp_all add: read_ends)
  then show ?thesis by (cases "tm_finished m") (auto simp: follows_def finish_def drain_open_subagents_def final_response_def split: prod.splits)
qed

lemma fail_follows: "follows m (fail_mapper msg m)"
proof -
  have "follows m (case close_reasoning m of (m, o1) \<Rightarrow>
     (case (m\<lparr>tm_open := [], tm_finished := True, tm_errored := True\<rparr>, map (closed_row ''failed'') (tm_open m) @ [error_chunk msg]) of
        (m, o2) \<Rightarrow> (m, o1 @ o2)))"
    by (rule follows_after_close, rule follows_end) (simp_all add: read_ends)
  then show ?thesis by (simp add: fail_mapper_def drain_open_subagents_def split: prod.splits)
qed

lemma follows_one: "reads read_chunk (reading m) out = Some (reading m) \<Longrightarrow> follows m (m, out)"
  by (simp add: follows_def)

lemma delta_follows: "follows m (map_delta delta m)"
proof -
  have "follows m (case close_reasoning m of (m, o1) \<Rightarrow>
     (case (m, case delta of J_str (c # cs) \<Rightarrow> [text_delta (c # cs)] | _ \<Rightarrow> []) of (m, o2) \<Rightarrow> (m, o1 @ o2)))"
    by (rule follows_after_close) (auto simp: follows_def chunk_simps reading_going split: json.splits list.splits)
  then show ?thesis by (auto simp: map_delta_def split: prod.splits json.splits list.splits)
qed

lemma reasoning_follows: "follows m (map_reasoning delta m)"
  by (auto simp: follows_def map_reasoning_def open_reasoning_def chunk_simps reading_going mapper_ok_def reading_def split: json.splits list.splits)

lemma started_follows: "follows m (map_started item m)"
proof -
  have "follows m (case close_reasoning m of (m, o1) \<Rightarrow>
     (case (m, case tool_use_from_item item of None \<Rightarrow> [] | Some b \<Rightarrow> [content_chunk ''assistant'' b []]) of (m, o2) \<Rightarrow> (m, o1 @ o2)))"
    by (rule follows_after_close) (auto simp: follows_def chunk_simps reading_going split: option.splits)
  then show ?thesis by (auto simp: map_started_def split: prod.splits option.splits)
qed

lemma completed_follows: "follows m (map_completed env item m)"
proof (cases "tool_result_from_item env item")
  case None
  then show ?thesis by (simp add: follows_def map_completed_def mapper_ok_def reading_def)
next
  case (Some b)
  have "follows m (case close_reasoning m of (m, o1) \<Rightarrow> (case (m, [content_chunk ''user'' b []]) of (m, o2) \<Rightarrow> (m, o1 @ o2)))"
    by (rule follows_after_close) (auto simp: follows_def chunk_simps reading_going)
  then show ?thesis using Some by (auto simp: map_completed_def follows_def split: prod.splits)
qed

lemma del_keys: "dkeys (ddel k d) = filter (\<lambda>i. i \<noteq> k) (dkeys d)"
  by (induction d) (auto simp: ddel_def)

lemma subagent_follows: "follows m (map_subagent ev m)"
proof (cases "ag_kind ev")
  case Spawned
  then show ?thesis
    by (auto simp: follows_def map_subagent_def chunk_simps reading_going mapper_ok_def dget_None_iff dput_new dwf_dput)
      (simp_all add: reading_def dwf_def)
next
  case Progress
  then show ?thesis by (simp add: follows_def map_subagent_def chunk_simps reading_going)
next
  case Terminal
  then show ?thesis
    by (auto simp: follows_def map_subagent_def Let_def chunk_simps reading_going mapper_ok_def dwf_ddel)
      (simp_all add: reading_def del_keys removeAll_filter_not_eq eq_commute [of "ag_child ev"])
qed

lemma usage_follows: "follows m (m\<lparr>tm_usage := u\<rparr>, [])"
  by (simp add: follows_def mapper_ok_def reading_def)

lemma own_follows: "map_own env method params m = (m', out, r) \<Longrightarrow> follows m (m', out)"
proof -
  have "follows m (fst (map_own env method params m), fst (snd (map_own env method params m)))"
    by (simp add: map_own_def Let_def split_beta delta_follows reasoning_follows started_follows completed_follows
        fail_follows finish_follows follows_one usage_follows split: option.split)
  then show "map_own env method params m = (m', out, r) \<Longrightarrow> follows m (m', out)" by simp
qed

lemma notification_follows: "map_notification env method params m = (m', out, r) \<Longrightarrow> follows m (m', out)"
proof (cases "tm_finished m \<or> \<not> is_obj params")
  case False
  assume n: "map_notification env method params m = (m', out, r)"
  show ?thesis
  proof (cases "normalize_subagent_event method params")
    case None
    then show ?thesis using n False by (auto simp: map_notification_def follows_def)
  next
    case (Some e)
    show ?thesis
    proof (cases e)
      case None
      then show ?thesis using n False Some finish_follows [of m] own_follows [of env _ params m]
        by (auto simp: map_notification_def follows_one split: prod.splits if_splits)
    next
      case (Some ev)
      then show ?thesis using n False \<open>normalize_subagent_event method params = Some e\<close> subagent_follows [of m ev]
        by (auto simp: map_notification_def split: prod.splits)
    qed
  qed
qed (auto simp: map_notification_def follows_one)

end
