(* ===== verification/AppserverPolicy.thy ===== *)
theory AppserverPolicy
  imports Json PyText
begin

text \<open>
  \<open>src/src/backends/appserver/policy.py\<close>: which tool policies an app-server session is started
  with, and which approvals are decided without the user.  \<open>env\<close> is the value of \<open>DISALLOWED_TOOLS\<close>.
\<close>

section \<open>Names\<close>

text \<open>\<open>parse_csv\<close> of \<open>common.py\<close>: the stripped items, each once.\<close>

fun add_new :: "string list \<Rightarrow> string list \<Rightarrow> string list" where
  "add_new seen [] = seen"
| "add_new seen (t # ts) = add_new (if t \<noteq> [] \<and> t \<notin> set seen then seen @ [t] else seen) ts"

definition parse_csv :: "string \<Rightarrow> string list" where
  "parse_csv v = add_new [] (map strip_text (split_on (CHR '','') v))"

definition fs_write :: string where "fs_write = ''filesystem.write''"
definition shell_execute :: string where "shell_execute = ''shell.execute''"
definition network :: string where "network = ''network''"

definition tool_to_capability :: "(string, string) dict" where
  "tool_to_capability =
     [(''filesystem.write'', fs_write), (''write'', fs_write), (''edit'', fs_write), (''applypatch'', fs_write),
      (''apply_patch'', fs_write), (''shell.execute'', shell_execute), (''shell'', shell_execute), (''bash'', shell_execute),
      (''exec'', shell_execute), (''exec_command'', shell_execute), (''network'', network), (''web_search'', network),
      (''websearch'', network)]"

definition tool_name_aliases :: "(string, string) dict" where
  "tool_name_aliases =
     [(''Bash'', ''commandExecution''), (''BashOutput'', ''commandExecution''), (''KillShell'', ''commandExecution''),
      (''Edit'', ''fileChange''), (''Write'', ''fileChange''), (''NotebookEdit'', ''fileChange''),
      (''shell.execute'', ''commandExecution''), (''shell'', ''commandExecution''), (''bash'', ''commandExecution''),
      (''exec'', ''commandExecution''), (''exec_command'', ''commandExecution''), (''filesystem.write'', ''fileChange''),
      (''write'', ''fileChange''), (''edit'', ''fileChange''), (''apply_patch'', ''fileChange''), (''applypatch'', ''fileChange'')]"

definition command_approval :: string where "command_approval = ''item/commandExecution/requestApproval''"
definition file_approval :: string where "file_approval = ''item/fileChange/requestApproval''"

definition approval_method_to_tool :: "(string, string) dict" where
  "approval_method_to_tool = [(command_approval, ''commandExecution''), (file_approval, ''fileChange'')]"

definition permission_mode_to_approval :: "(string, string) dict" where
  "permission_mode_to_approval =
     [(''bypassPermissions'', ''never''), (''default'', ''on-request''), (''acceptEdits'', ''on-request''), (''plan'', ''on-request'')]"

section \<open>The policy of a session\<close>

definition capability :: "string \<Rightarrow> string option" where
  "capability name = dget tool_to_capability (lower_text (strip_text name))"

definition has_tool_policy :: "string \<Rightarrow> string list option \<Rightarrow> string list \<Rightarrow> bool" where
  "has_tool_policy env allowed disallowed \<longleftrightarrow> allowed \<noteq> None \<or> disallowed \<noteq> [] \<or> parse_csv env \<noteq> []"

definition resolve_approval_policy :: "string option \<Rightarrow> bool \<Rightarrow> string option \<Rightarrow> string" where
  "resolve_approval_policy mode policy dflt =
     (let resolved =
            (case mode of
               None \<Rightarrow> (case dflt of None \<Rightarrow> ''never'' | Some d \<Rightarrow> if d = [] then ''never'' else d)
             | Some m \<Rightarrow> (case dget permission_mode_to_approval m of None \<Rightarrow> ''on-request'' | Some a \<Rightarrow> a))
      in if policy \<and> resolved = ''never'' then ''on-request'' else resolved)"

definition requested_denies :: "string list \<Rightarrow> string list" where
  "requested_denies disallowed = remdups (List.map_filter capability disallowed)"

definition effective_disallowed :: "string \<Rightarrow> string list \<Rightarrow> string list" where
  "effective_disallowed env disallowed = filter (\<lambda>n. strip_text n \<noteq> []) (disallowed @ parse_csv env)"

definition unenforceable_denies :: "string \<Rightarrow> string list \<Rightarrow> string list" where
  "unenforceable_denies env disallowed =
     filter (\<lambda>n. capability n \<notin> {Some fs_write, Some network}) (effective_disallowed env disallowed)"

text \<open>\<open>CapabilityError\<close>: which of the three refusals it is.\<close>

datatype refusal = Allow_list_unsupported | Denies_unsupported "string list" | Approvals_off

definition resolve_runtime_policy ::
  "string \<Rightarrow> string \<Rightarrow> string option \<Rightarrow> string option \<Rightarrow> string list option \<Rightarrow> string list \<Rightarrow> refusal + string \<times> string" where
  "resolve_runtime_policy env sandbox dflt mode allowed disallowed =
     (let denies = requested_denies disallowed;
          sandbox = (if fs_write \<in> set denies \<or> network \<in> set denies then ''read-only'' else sandbox);
          bad = unenforceable_denies env disallowed;
          policy = has_tool_policy env allowed disallowed;
          approval = resolve_approval_policy mode policy dflt
      in if allowed \<noteq> None then Inl Allow_list_unsupported
         else if bad \<noteq> [] then Inl (Denies_unsupported bad)
         else if policy \<and> approval = ''never'' then Inl Approvals_off
         else Inr (sandbox, approval))"

section \<open>Approvals decided without the user\<close>

text \<open>
  \<open>fnmatch.fnmatchcase\<close>: the star, the question mark, and sets in brackets, which may be negated
  and hold ranges; a bracket that is not closed is a character.
\<close>

fun in_set :: "string \<Rightarrow> char \<Rightarrow> bool" where
  "in_set (a # h # b # r) c =
     (if h = CHR ''-'' then (code a \<le> code c \<and> code c \<le> code b) \<or> in_set r c else a = c \<or> in_set (h # b # r) c)"
| "in_set r c = (c \<in> set r)"

definition set_matches :: "string \<Rightarrow> char \<Rightarrow> bool" where
  "set_matches stuff c =
     (case stuff of
        [] \<Rightarrow> False
      | x # r \<Rightarrow> if x = CHR ''!'' then \<not> in_set r c else in_set stuff c)"

text \<open>The set behind an opening bracket, and what follows its closing one.\<close>

definition take_set :: "string \<Rightarrow> (string \<times> string) option" where
  "take_set p =
     (let n = (if starts_with ''!]'' p then 2 else if starts_with ''!'' p \<or> starts_with '']'' p then 1 else 0);
          body = takeWhile (\<lambda>c. c \<noteq> CHR '']'') (drop n p);
          rest = dropWhile (\<lambda>c. c \<noteq> CHR '']'') (drop n p)
      in if rest = [] then None else Some (take n p @ body, tl rest))"

lemma take_set_shorter:
  assumes "take_set p = Some (s, r)"
  shows "length r < length p"
proof -
  have t: "length (tl (dropWhile P (drop n p))) < length p" if "dropWhile P (drop n p) \<noteq> []" for P and n
  proof -
    have "length (dropWhile P (drop n p)) \<le> length p"
      using length_dropWhile_le [of P "drop n p"] by simp
    then show ?thesis using that by (cases "dropWhile P (drop n p)") auto
  qed
  define n where "n = (if starts_with ''!]'' p then 2 else if starts_with ''!'' p \<or> starts_with '']'' p then 1 else 0 :: nat)"
  have "dropWhile (\<lambda>c. c \<noteq> CHR '']'') (drop n p) \<noteq> []" "r = tl (dropWhile (\<lambda>c. c \<noteq> CHR '']'') (drop n p))"
    using assms by (simp_all only: take_set_def Let_def n_def [symmetric] option.inject prod.inject split: if_splits) simp_all
  then show ?thesis using t by simp
qed

function fnmatch :: "string \<Rightarrow> string \<Rightarrow> bool" where
  "fnmatch [] s = (s = [])"
| "fnmatch (p # ps) s =
     (if p = CHR ''*'' then fnmatch ps s \<or> (case s of [] \<Rightarrow> False | c # cs \<Rightarrow> fnmatch (p # ps) cs)
      else
        case s of
          [] \<Rightarrow> False
        | c # cs \<Rightarrow>
            if p = CHR ''?'' then fnmatch ps cs
            else if p = CHR ''['' then
              (case take_set ps of None \<Rightarrow> c = p \<and> fnmatch ps cs | Some (stuff, r) \<Rightarrow> set_matches stuff c \<and> fnmatch r cs)
            else c = p \<and> fnmatch ps cs)"
  by pat_completeness auto
termination
  by (relation "measure (\<lambda>(p, s). length p + length s)") (auto dest!: take_set_shorter)

definition normalize_tool_names :: "string list \<Rightarrow> string list" where
  "normalize_tool_names names = map (\<lambda>n. case dget tool_name_aliases n of None \<Rightarrow> n | Some t \<Rightarrow> t) names"

definition dashes_to_underscores :: "string \<Rightarrow> string" where
  "dashes_to_underscores s = map (\<lambda>c. if c = CHR ''-'' then CHR ''_'' else c) s"

definition approval_tool_identities :: "string \<Rightarrow> json \<Rightarrow> string list" where
  "approval_tool_identities method params =
     (case dget approval_method_to_tool method of
        None \<Rightarrow> []
      | Some tool \<Rightarrow>
          tool #
          (case jor (jfield params ''serverLabel'') (jfield params ''serverName'') of
             J_str l \<Rightarrow>
               if l = [] then []
               else
                 let name = (case jfield params ''toolName'' of J_str t \<Rightarrow> if t = [] then ''*'' else t | _ \<Rightarrow> ''*'')
                 in map (\<lambda>s. ''mcp__'' @ s @ ''__'' @ name) [l, dashes_to_underscores l]
           | _ \<Rightarrow> []))"

definition policy_matches :: "string list \<Rightarrow> string list \<Rightarrow> bool" where
  "policy_matches names identities \<longleftrightarrow>
     list_ex (\<lambda>n. list_ex (\<lambda>i. n = i \<or> starts_with ''mcp__'' n \<and> fnmatch n i) identities) names"

definition should_auto_deny_approval :: "string \<Rightarrow> string \<Rightarrow> json \<Rightarrow> string list option \<Rightarrow> string list \<Rightarrow> bool" where
  "should_auto_deny_approval env method params allowed disallowed \<longleftrightarrow>
     (let ids = approval_tool_identities method params
      in ids \<noteq> [] \<and>
         (policy_matches (normalize_tool_names (disallowed @ parse_csv env)) ids \<or>
          (case allowed of None \<Rightarrow> False | Some a \<Rightarrow> \<not> policy_matches (normalize_tool_names a) ids)))"

definition should_auto_accept_approval :: "string \<Rightarrow> string option \<Rightarrow> bool" where
  "should_auto_accept_approval method mode \<longleftrightarrow> mode = Some ''acceptEdits'' \<and> method = file_approval"

section \<open>What an accepted policy enforces\<close>

lemma sandbox_names: "capability n \<in> {Some fs_write, Some network} \<Longrightarrow> capability n \<noteq> None"
  by auto



text \<open>
  A deny of the environment is accepted as one the sandbox covers, but the sandbox is chosen by the
  request's denies only.
\<close>

lemma environment_deny_not_sandboxed:
  "resolve_runtime_policy ''Write'' ''workspace-write'' None None None [] = Inr (''workspace-write'', ''on-request'')"
  by code_simp

end
