(* ===== verification/AppserverInteractions.thy ===== *)
theory AppserverInteractions
  imports AppserverPolicy
begin

text \<open>
  \<open>src/src/backends/appserver/interactions.py\<close>: a request of the app-server runtime as the question
  card the client shows, and the client's answer as the runtime's result; beside it the decisions
  \<open>src/src/backends/appserver/client.py\<close> takes without a card.  \<open>show\<close> is \<open>str()\<close> of a value that is
  no string, \<open>loads\<close> is \<open>json.loads\<close>.
\<close>

section \<open>Requests\<close>

definition permissions_approval :: string where "permissions_approval = ''item/permissions/requestApproval''"
definition user_input :: string where "user_input = ''item/tool/requestUserInput''"
definition dynamic_tool_call :: string where "dynamic_tool_call = ''item/tool/call''"
definition mcp_elicitation :: string where "mcp_elicitation = ''mcpServer/elicitation/request''"

definition interaction_kind :: "string \<Rightarrow> string" where
  "interaction_kind m =
     (if m = command_approval then ''command_approval''
      else if m = file_approval then ''file_approval''
      else if m = permissions_approval then ''permission_approval''
      else if m = user_input then ''user_input''
      else if m = mcp_elicitation then ''mcp_elicitation''
      else if m = dynamic_tool_call then ''tool_call''
      else ''approval'')"

definition decision_descriptions :: "(string, string) dict" where
  "decision_descriptions =
     [(''accept'', ''Approve this request once.''),
      (''acceptForSession'', ''Approve matching requests for this session.''),
      (''acceptWithExecpolicyAmendment'', ''Approve and apply the proposed execpolicy amendment.''),
      (''applyNetworkPolicyAmendment'', ''Apply the proposed network policy rule.''),
      (''decline'', ''Deny and let Codex continue.''), (''cancel'', ''Deny and interrupt the turn.'')]"

definition decision_aliases :: "(string, string) dict" where
  "decision_aliases =
     [([], ''decline''), (''yes'', ''accept''), (''y'', ''accept''), (''allow'', ''accept''), (''approve'', ''accept''),
      (''approved'', ''accept''), (''once'', ''accept''), (''no'', ''decline''), (''n'', ''decline''), (''deny'', ''decline''),
      (''denied'', ''decline''), (''reject'', ''decline''), (''rejected'', ''decline''), (''always'', ''acceptForSession''),
      (''session'', ''acceptForSession''), (''stop'', ''cancel'')]"

definition known_decisions :: "string list" where
  "known_decisions = [''accept'', ''acceptForSession'', ''decline'', ''cancel'']"

section \<open>The card\<close>

definition str_text :: "(json \<Rightarrow> string) \<Rightarrow> json \<Rightarrow> string" where
  "str_text show v = (case v of J_str t \<Rightarrow> t | w \<Rightarrow> show w)"

definition decision_label :: "(json \<Rightarrow> string) \<Rightarrow> json \<Rightarrow> string" where
  "decision_label show v =
     (case v of
        J_str t \<Rightarrow> t
      | J_obj (kv # d) \<Rightarrow>
          if jget v ''acceptWithExecpolicyAmendment'' \<noteq> None then ''acceptWithExecpolicyAmendment''
          else if jget v ''applyNetworkPolicyAmendment'' \<noteq> None then
            (let p = jfield (jfield v ''applyNetworkPolicyAmendment'') ''network_policy_amendment'';
                 action = jfield p ''action''; host = jfield p ''host''
             in if jtruthy action \<and> jtruthy host
                then ''applyNetworkPolicyAmendment:'' @ str_text show action @ '':'' @ str_text show host
                else ''applyNetworkPolicyAmendment'')
          else fst kv
      | _ \<Rightarrow> [])"

definition offered_decisions :: "string \<Rightarrow> json \<Rightarrow> json list" where
  "offered_decisions kind params =
     (if kind = ''permission_approval'' then map J_str [''accept'', ''acceptForSession'', ''decline'']
      else
        case jfield params ''availableDecisions'' of
          J_list (d # ds) \<Rightarrow> d # ds
        | _ \<Rightarrow> map J_str [''accept'', ''acceptForSession'', ''decline'', ''cancel''])"

definition decision_option :: "(json \<Rightarrow> string) \<Rightarrow> json \<Rightarrow> json" where
  "decision_option show d =
     (let l = decision_label show d
      in J_obj
        ([(''label'', J_str l),
          (''description'',
           J_str (case dget decision_descriptions l of None \<Rightarrow> ''Choose '' @ l @ ''.'' | Some t \<Rightarrow> t))] @
         (if is_obj d then [(''decision'', d)] else [])))"

definition decision_options :: "(json \<Rightarrow> string) \<Rightarrow> string \<Rightarrow> json \<Rightarrow> json list" where
  "decision_options show kind params =
     map (decision_option show) (filter (\<lambda>d. decision_label show d \<noteq> []) (offered_decisions kind params))"

definition approval_question_text :: "string \<Rightarrow> json \<Rightarrow> string" where
  "approval_question_text kind params =
     (if kind = ''command_approval'' then
        (case jfield params ''command'' of
           J_str (c # cs) \<Rightarrow> ''Codex requests approval to run command: '' @ c # cs
         | _ \<Rightarrow> ''Codex requests approval to run a command.'')
      else if kind = ''file_approval'' then ''Codex requests approval to apply file changes.''
      else if kind = ''permission_approval'' then ''Codex requests additional permissions.''
      else ''Codex requests approval.'')"

definition text_entry :: "string \<Rightarrow> json \<Rightarrow> (string \<times> json) list" where
  "text_entry k v = (case v of J_str (c # cs) \<Rightarrow> [(k, v)] | _ \<Rightarrow> [])"

definition option_label :: "json \<Rightarrow> json option" where
  "option_label v =
     (case v of
        J_str t \<Rightarrow> Some (J_obj [(''label'', J_str t)])
      | J_obj d \<Rightarrow>
          (case jor (jor (jfield v ''label'') (jfield v ''value'')) (jfield v ''text'') of
             J_str (c # cs) \<Rightarrow> Some (J_obj ((''label'', J_str (c # cs)) # text_entry ''description'' (jfield v ''description'')))
           | _ \<Rightarrow> None)
      | _ \<Rightarrow> None)"

definition shown_question :: "json \<Rightarrow> json option" where
  "shown_question q =
     (case jfield q ''question'' of
        J_str (c # cs) \<Rightarrow>
          Some
            (J_obj
              ([(''question'', J_str (c # cs))] @ text_entry ''header'' (jfield q ''header'') @
               [(''options'',
                 J_list (case jfield q ''options'' of J_list os \<Rightarrow> List.map_filter option_label os | _ \<Rightarrow> []))] @
               (if jtruthy (jfield q ''isSecret'') then [(''isSecret'', J_bool True)] else []) @
               (if jtruthy (jfield q ''isOther'') then [(''isOther'', J_bool True)] else [])))
      | _ \<Rightarrow> None)"

definition user_input_questions :: "json \<Rightarrow> json list" where
  "user_input_questions params =
     (case jfield params ''questions'' of J_list qs \<Rightarrow> List.map_filter shown_question qs | _ \<Rightarrow> [])"

definition interaction_arguments :: "(json \<Rightarrow> string) \<Rightarrow> string \<Rightarrow> json \<Rightarrow> json" where
  "interaction_arguments show method params =
     (let kind = interaction_kind method
      in J_obj
        ((''kind'', J_str kind) #
         (if method = user_input then [(''questions'', J_list (user_input_questions params))]
          else
            (''questions'',
             J_list
               [J_obj
                 [(''question'', J_str (approval_question_text kind params)), (''header'', J_str ''Approval''),
                  (''options'', J_list (decision_options show kind params))]]) #
            concat (map (\<lambda>k. text_entry k (jfield params k)) [''command'', ''cwd'', ''reason'']) @
            (case jget params ''permissions'' of
               None \<Rightarrow> [] | Some v \<Rightarrow> [(''permissions'', jor v (J_obj []))]))))"

text \<open>Only a card with an option per question can be submitted; \<open>client.py\<close> fails any other request.\<close>

definition card_is_completable :: "json \<Rightarrow> bool" where
  "card_is_completable arguments \<longleftrightarrow>
     (case jfield arguments ''questions'' of
        J_list qs \<Rightarrow> qs \<noteq> [] \<and> list_all (\<lambda>q. case jfield q ''options'' of J_list os \<Rightarrow> os \<noteq> [] | _ \<Rightarrow> False) qs
      | _ \<Rightarrow> False)"

section \<open>The answer\<close>

definition answer_row :: "(json \<Rightarrow> string) \<Rightarrow> json \<Rightarrow> string list" where
  "answer_row show a = (case a of J_list xs \<Rightarrow> map (str_text show) xs | v \<Rightarrow> [str_text show v])"

text \<open>The client's text once parsed; no value when it is no JSON.\<close>

definition canonical_answers :: "(json \<Rightarrow> string) \<Rightarrow> json option \<Rightarrow> string list list option" where
  "canonical_answers show parsed =
     (case parsed of
        None \<Rightarrow> None
      | Some v \<Rightarrow> (case jfield v ''answers'' of J_list as \<Rightarrow> Some (map (answer_row show) as) | _ \<Rightarrow> None))"

definition normalize_decision :: "string \<Rightarrow> string" where
  "normalize_decision v =
     (let raw = strip_text v
      in if raw \<in> set known_decisions then raw
         else case dget decision_aliases raw of None \<Rightarrow> ''decline'' | Some d \<Rightarrow> d)"

definition decision_from_available :: "(json \<Rightarrow> string) \<Rightarrow> string \<Rightarrow> json \<Rightarrow> json option" where
  "decision_from_available show raw params =
     (case jfield params ''availableDecisions'' of
        J_list ds \<Rightarrow> find (\<lambda>d. raw = decision_label show d) ds
      | _ \<Rightarrow> None)"

definition first_answer :: "(json \<Rightarrow> string) \<Rightarrow> json option \<Rightarrow> string \<Rightarrow> string" where
  "first_answer show parsed output =
     (case canonical_answers show parsed of
        Some ((a # as) # rows) \<Rightarrow> a
      | _ \<Rightarrow>
          (case parsed of
             Some (J_obj d) \<Rightarrow>
               (case dget d ''decision'' of
                  None \<Rightarrow> output
                | Some v \<Rightarrow> (let l = decision_label show v in if l \<noteq> [] then l else str_text show v))
           | Some (J_str t) \<Rightarrow> t
           | _ \<Rightarrow> output))"

definition question_answer :: "string list list \<Rightarrow> nat \<Rightarrow> json" where
  "question_answer rows i = J_obj [(''answers'', J_list (map J_str (if i < length rows then rows ! i else [])))]"

definition put_answer :: "(json \<Rightarrow> string) \<Rightarrow> string list list \<Rightarrow> nat \<times> json \<Rightarrow> (string, json) dict \<Rightarrow> (string, json) dict" where
  "put_answer show rows iq d =
     (if jfield (snd iq) ''id'' = J_null then d
      else dput (str_text show (jfield (snd iq) ''id'')) (question_answer rows (fst iq)) d)"

definition question_answers :: "(json \<Rightarrow> string) \<Rightarrow> string list list \<Rightarrow> json list \<Rightarrow> (string, json) dict" where
  "question_answers show rows qs = fold (put_answer show rows) (enumerate 0 qs) []"

definition answer_result :: "(json \<Rightarrow> string) \<Rightarrow> string \<Rightarrow> json option \<Rightarrow> string \<Rightarrow> json \<Rightarrow> json" where
  "answer_result show method parsed output params =
     (if method = user_input then
        (let rows = (case canonical_answers show parsed of None \<Rightarrow> [] | Some r \<Rightarrow> r)
         in J_obj
           [(''answers'',
             J_obj (case jfield params ''questions'' of J_list qs \<Rightarrow> question_answers show rows qs | _ \<Rightarrow> []))])
      else if method = permissions_approval then
        (let d = normalize_decision (first_answer show parsed output)
         in if d \<in> {''accept'', ''acceptForSession''} then
              J_obj
                [(''permissions'', jor (jfield params ''permissions'') (J_obj [])),
                 (''scope'', J_str (if d = ''acceptForSession'' then ''session'' else ''turn''))]
            else J_obj [(''permissions'', J_obj []), (''scope'', J_str ''turn'')])
      else if method \<in> {command_approval, file_approval} then
        (let raw = first_answer show parsed output
         in J_obj
           [(''decision'',
             case decision_from_available show raw params of
               None \<Rightarrow> J_str (normalize_decision raw) | Some d \<Rightarrow> d)])
      else
        case parsed of
          Some (J_obj d) \<Rightarrow> J_obj d
        | _ \<Rightarrow> J_obj [(''response'', J_str output)])"

text \<open>\<open>answer_result_from_output\<close>: no value when the parser gives up on a deeply nested text.\<close>

definition answer_result_from_output ::
  "(json \<Rightarrow> string) \<Rightarrow> (string \<Rightarrow> loaded) \<Rightarrow> string \<Rightarrow> string \<Rightarrow> json \<Rightarrow> json option" where
  "answer_result_from_output show loads method output params =
     (case loads output of
        Too_deep \<Rightarrow> None
      | Not_json \<Rightarrow> Some (answer_result show method None output params)
      | Loaded v \<Rightarrow> Some (answer_result show method (Some v) output params))"

text \<open>\<open>_auto_decide_interaction\<close>: the answer the policy gives by itself.\<close>

definition auto_decision ::
  "string \<Rightarrow> string list option \<Rightarrow> string list \<Rightarrow> string option \<Rightarrow> string \<Rightarrow> json \<Rightarrow> json option" where
  "auto_decision env allowed disallowed mode method params =
     (let deny = should_auto_deny_approval env method params allowed disallowed;
          accept = \<not> deny \<and> should_auto_accept_approval method mode
      in if \<not> deny \<and> \<not> accept then None
         else if method = permissions_approval then Some (J_obj [(''permissions'', J_obj []), (''scope'', J_str ''turn'')])
         else Some (J_obj [(''decision'', J_str (if accept then ''accept'' else ''decline''))]))"

section \<open>A decision on a card\<close>

definition card_answer :: "string list list \<Rightarrow> json" where
  "card_answer rows = J_obj [(''answers'', J_list (map (\<lambda>r. J_list (map J_str r)) rows))]"

lemma card_rows: "canonical_answers show (Some (card_answer rows)) = Some rows"
  by (simp add: canonical_answers_def card_answer_def answer_row_def jget_or_def dget_Cons str_text_def comp_def map_idI)

lemma card_first: "first_answer show (Some (card_answer [[l]])) output = l"
  by (simp add: first_answer_def card_rows)

lemma find_unique: "d \<in> set ds \<Longrightarrow> P d \<Longrightarrow> (\<And>e. e \<in> set ds \<Longrightarrow> P e \<Longrightarrow> e = d) \<Longrightarrow> find P ds = Some d"
proof (induction ds)
  case (Cons x ds)
  show ?case
  proof (cases "P x")
    case True
    then show ?thesis using Cons.prems(3) [of x] by simp
  next
    case False
    then show ?thesis using Cons.IH Cons.prems by fastforce
  qed
qed simp

lemma known_normal: "\<forall>d \<in> set known_decisions. normalize_decision d = d"
  by code_simp


definition consenting_words :: "string list" where
  "consenting_words =
     [''accept'', ''acceptForSession'', ''yes'', ''y'', ''allow'', ''approve'', ''approved'', ''once'', ''always'', ''session'']"

lemma normal_grants: "normalize_decision v \<in> {''accept'', ''acceptForSession''} \<Longrightarrow> strip_text v \<in> set consenting_words"
  by (auto simp: normalize_decision_def consenting_words_def known_decisions_def decision_aliases_def dget_Cons Let_def
      split: if_splits option.splits)

lemma normal_known: "normalize_decision v \<in> set known_decisions"
  by (auto simp: normalize_decision_def known_decisions_def decision_aliases_def dget_Cons Let_def split: option.splits if_splits)

definition text_parsed :: "(string \<Rightarrow> loaded) \<Rightarrow> string \<Rightarrow> json option" where
  "text_parsed loads output = (case loads output of Loaded v \<Rightarrow> Some v | _ \<Rightarrow> None)"

lemma answer_result_parsed:
  "answer_result_from_output show loads method output params = Some r \<Longrightarrow>
     r = answer_result show method (text_parsed loads output) output params"
  by (auto simp: answer_result_from_output_def text_parsed_def split: loaded.splits)

text \<open>
  C28.  Nothing is granted that the user did not ask for: an approval whose answer is neither a word
  of consent nor the label of a decision the runtime offered declines or cancels, and of a request
  for permissions grants none; what is granted are the permissions of that request.
\<close>

theorem nothing_granted_unasked:
  assumes "answer_result_from_output show loads method output params = Some r"
    and "method \<in> {command_approval, file_approval, permissions_approval}"
    and "a = first_answer show (text_parsed loads output) output"
  shows "(jfield r ''decision'' \<in> {J_null, J_str ''decline'', J_str ''cancel''} \<or> strip_text a \<in> set consenting_words \<or>
      (\<exists>ds. jfield params ''availableDecisions'' = J_list ds \<and> jfield r ''decision'' \<in> set ds \<and> decision_label show (jfield r ''decision'') = a)) \<and>
    (jtruthy (jfield r ''permissions'') \<longrightarrow>
      strip_text a \<in> set consenting_words \<and> jfield r ''permissions'' = jfield params ''permissions'')"
proof -
  have r: "r = answer_result show method (text_parsed loads output) output params" by (rule answer_result_parsed [OF assms(1)])
  have names: "permissions_approval \<noteq> command_approval" "permissions_approval \<noteq> file_approval" "user_input \<noteq> permissions_approval"
    "user_input \<noteq> command_approval" "user_input \<noteq> file_approval"
    by (simp_all add: permissions_approval_def command_approval_def file_approval_def user_input_def)
  show ?thesis
  proof (cases "method = permissions_approval")
    case True
    then show ?thesis using normal_grants [of a] names unfolding r answer_result_def assms(3) [symmetric]
      by (auto simp: Let_def jget_or_def dget_Cons jor_def split: if_splits)
  next
    case False
    then have d: "r = J_obj [(''decision'', case decision_from_available show a params of None \<Rightarrow> J_str (normalize_decision a) | Some d \<Rightarrow> d)]"
      using assms(2) names unfolding r answer_result_def assms(3) [symmetric] by (auto simp: Let_def)
    show ?thesis
    proof (cases "decision_from_available show a params")
      case None
      then show ?thesis using d normal_known [of a] normal_grants [of a]
        by (auto simp: known_decisions_def jget_or_def dget_Cons)
    next
      case (Some e)
      then show ?thesis using d
        by (auto simp: decision_from_available_def jget_or_def dget_Cons find_Some_iff split: json.splits option.splits)
    qed
  qed
qed

section \<open>Answers to questions\<close>

definition question_id :: "(json \<Rightarrow> string) \<Rightarrow> json \<Rightarrow> string" where
  "question_id show q = str_text show (jfield q ''id'')"

lemma other_answers:
  "k \<notin> question_id show ` set qs \<Longrightarrow> dget (fold (put_answer show rows) (enumerate n qs) d) k = dget d k"
  by (induction qs arbitrary: n d) (auto simp: put_answer_def question_id_def dget_dput)

lemma own_answer:
  "distinct (map (question_id show) qs) \<Longrightarrow> \<forall>q \<in> set qs. jfield q ''id'' \<noteq> J_null \<Longrightarrow> i < length qs \<Longrightarrow>
     dget (fold (put_answer show rows) (enumerate n qs) d) (question_id show (qs ! i)) = Some (question_answer rows (n + i))"
proof (induction qs arbitrary: n d i)
  case (Cons q qs)
  show ?case
  proof (cases i)
    case 0
    have "put_answer show rows (n, q) d = dput (question_id show q) (question_answer rows n) d"
      using Cons.prems(2) by (simp add: put_answer_def question_id_def)
    moreover have "question_id show q \<notin> question_id show ` set qs" using Cons.prems(1) by simp
    ultimately show ?thesis using 0 by (simp add: other_answers dget_dput)
  next
    case (Suc j)
    then show ?thesis using Cons.IH [of j "Suc n"] Cons.prems by simp
  qed
qed simp

lemma all_shown:
  "\<forall>q \<in> set qs. shown_question q \<noteq> None \<Longrightarrow> List.map_filter shown_question qs = map (\<lambda>q. the (shown_question q)) qs"
  by (induction qs) auto

lemma shown_text_of_question: "shown_question q = Some v \<Longrightarrow> jfield v ''question'' = jfield q ''question''"
  by (auto simp: shown_question_def jget_or_def dget_Cons split: json.splits list.splits)

text \<open>
  Each answer reaches its question: when the runtime's questions all have a text and ids of
  their own, the card shows them in order and the i-th answer comes back under the i-th id.
\<close>

theorem answers_reach_their_questions:
  assumes "jfield params ''questions'' = J_list qs" "\<forall>q \<in> set qs. shown_question q \<noteq> None"
    and "distinct (map (question_id show) qs)" "\<forall>q \<in> set qs. jfield q ''id'' \<noteq> J_null"
    and "loads output = Loaded (card_answer rows)" "length rows = length qs"
  shows "\<exists>d. answer_result_from_output show loads user_input output params = Some (J_obj [(''answers'', J_obj d)]) \<and>
    length (user_input_questions params) = length qs \<and>
    (\<forall>i < length qs. jfield (user_input_questions params ! i) ''question'' = jfield (qs ! i) ''question'' \<and>
      dget d (question_id show (qs ! i)) = Some (J_obj [(''answers'', J_list (map J_str (rows ! i)))]))"
proof -
  have u: "user_input_questions params = map (\<lambda>q. the (shown_question q)) qs"
    using assms(1) all_shown [OF assms(2)] by (simp add: user_input_questions_def)
  have q: "jfield (the (shown_question (qs ! i))) ''question'' = jfield (qs ! i) ''question''" if "i < length qs" for i
    using assms(2) that by (metis nth_mem option.exhaust_sel shown_text_of_question)
  have a: "dget (question_answers show rows qs) (question_id show (qs ! i)) = Some (J_obj [(''answers'', J_list (map J_str (rows ! i)))])"
    if "i < length qs" for i
    using own_answer [OF assms(3,4) that, of rows 0 "[]"] that assms(6) by (simp add: question_answers_def question_answer_def)
  show ?thesis
    using u q a assms(1,5) by (auto simp: answer_result_from_output_def answer_result_def card_rows Let_def)
qed

section \<open>Samples\<close>

definition sample_show :: "json \<Rightarrow> string" where
  "sample_show v = ''value''"

definition sample_amendment :: "string \<Rightarrow> json" where
  "sample_amendment rule = J_obj [(''acceptWithExecpolicyAmendment'', J_obj [(''rule'', J_str rule)])]"

definition sample_command :: json where
  "sample_command = J_obj [(''command'', J_str ''ls''), (''availableDecisions'', J_list [J_str ''accept'', sample_amendment ''ls'', J_str ''decline''])]"

definition amendment_answer :: json where
  "amendment_answer = card_answer [[''acceptWithExecpolicyAmendment'']]"


theorem nothing_granted_unasked_witness:
  "answer_result_from_output sample_show (\<lambda>_. Not_json) command_approval ''maybe'' sample_command =
     Some (J_obj [(''decision'', J_str ''decline'')]) \<and> strip_text ''maybe'' \<notin> set consenting_words"
proof -
  have r: "answer_result_from_output sample_show (\<lambda>_. Not_json) command_approval ''maybe'' sample_command =
      Some (J_obj [(''decision'', J_str ''decline'')])" by code_simp
  have a: "''maybe'' = first_answer sample_show (text_parsed (\<lambda>_. Not_json) ''maybe'') ''maybe''"
    by (simp add: first_answer_def text_parsed_def canonical_answers_def)
  have "strip_text ''maybe'' \<notin> set consenting_words" by code_simp
  then show ?thesis using nothing_granted_unasked [OF r _ a] r by simp
qed

definition sample_questions :: "json list" where
  "sample_questions =
     [J_obj [(''id'', J_str ''a''), (''question'', J_str ''Which?''), (''options'', J_list [J_str ''x''])],
      J_obj [(''id'', J_str ''b''), (''question'', J_str ''When?''), (''options'', J_list [J_str ''y''])]]"

theorem answers_reach_their_questions_witness:
  "\<exists>d. answer_result_from_output sample_show (\<lambda>_. Loaded (card_answer [[''x''], [''y'']])) user_input []
       (J_obj [(''questions'', J_list sample_questions)]) = Some (J_obj [(''answers'', J_obj d)]) \<and>
     dget d ''b'' = Some (J_obj [(''answers'', J_list [J_str ''y''])])"
proof -
  have 1: "jfield (J_obj [(''questions'', J_list sample_questions)]) ''questions'' = J_list sample_questions"
    by (simp add: jget_or_def dget_Cons)
  have 2: "\<forall>q \<in> set sample_questions. shown_question q \<noteq> None" by code_simp
  have 3: "distinct (map (question_id sample_show) sample_questions)" by code_simp
  have 4: "\<forall>q \<in> set sample_questions. jfield q ''id'' \<noteq> J_null" by code_simp
  have 5: "(\<lambda>_. Loaded (card_answer [[''x''], [''y'']])) [] = Loaded (card_answer [[''x''], [''y'']])" by simp
  have 6: "length [[''x''], [''y'']] = length sample_questions" by (simp add: sample_questions_def)
  have i: "question_id sample_show (sample_questions ! 1) = ''b''" by code_simp
  from answers_reach_their_questions [where ?loads = "\<lambda>_. Loaded (card_answer [[''x''], [''y'']])" and ?output = "[]", OF 1 2 3 4 5 6] obtain d where
    "answer_result_from_output sample_show (\<lambda>_. Loaded (card_answer [[''x''], [''y'']])) user_input []
       (J_obj [(''questions'', J_list sample_questions)]) = Some (J_obj [(''answers'', J_obj d)])"
    "dget d (question_id sample_show (sample_questions ! 1)) = Some (J_obj [(''answers'', J_list (map J_str ([[''x''], [''y'']] ! 1)))])"
    using 6 by (auto simp: sample_questions_def)
  then show ?thesis using i by auto
qed

text \<open>
  A question without a text is left out of the card but not of the answers: the answers after it
  come back under the id before their own.
\<close>

lemma skipped_question_shifts_answers:
  "let qs = J_obj [(''id'', J_str ''z''), (''question'', J_str [])] # sample_questions;
       params = J_obj [(''questions'', J_list qs)]
   in card_is_completable (interaction_arguments sample_show user_input params) \<and>
      answer_result sample_show user_input (Some (card_answer [[''x''], [''y'']])) [] params =
        J_obj [(''answers'', J_obj
          [(''z'', J_obj [(''answers'', J_list [J_str ''x''])]), (''a'', J_obj [(''answers'', J_list [J_str ''y''])]),
           (''b'', J_obj [(''answers'', J_list [])])])]"
  by code_simp

text \<open>Two amendments have one label: whichever the user picks, the first is applied.\<close>

lemma second_amendment_unreachable:
  "let params = J_obj [(''availableDecisions'', J_list [sample_amendment ''ls'', sample_amendment ''rm''])]
   in map (\<lambda>v. jfield v ''label'') (decision_options sample_show ''command_approval'' params) =
        [J_str ''acceptWithExecpolicyAmendment'', J_str ''acceptWithExecpolicyAmendment''] \<and>
      answer_result sample_show command_approval (Some amendment_answer) [] params = J_obj [(''decision'', sample_amendment ''ls'')]"
  by code_simp

end
