(* ===== verification/AppserverTurn.thy ===== *)
theory AppserverTurn
  imports AppserverEvents AppserverInteractions
begin

text \<open>
  The turns of an app-server session, \<open>src/src/backends/appserver/client.py\<close>: starting one, pumping
  its subscription, parking it on a request of the runtime and resuming it with the user's answer.
  What the subscription delivers is a list of arrivals, each with what the session's state reads
  as at that moment; the transport's reply to an answer is an argument.
\<close>

section \<open>State\<close>

text \<open>A request of the runtime: its occurrence token, its own id, and the id its card would get.\<close>

record request =
  rq_token :: nat
  rq_id :: json
  rq_card :: string
  rq_method :: string
  rq_params :: json

datatype arrival =
    Notice string json
  | Request request
  | Nothing_came
  | Orphan string "json + json"
  | Ambiguous string string
  | Runtime_end string
  | Overflow

text \<open>Who decided the answer of a request.\<close>

datatype origin = By_policy | Not_showable | By_user string string

record appclient =
  ac_thread :: string
  ac_turn :: "string option"
  ac_mapper :: "mapper option"
  ac_live :: bool
  ac_parked :: "request option"
  ac_allowed :: "string list option"
  ac_disallowed :: "string list"
  ac_mode :: "string option"
  ac_durable :: bool
  ac_card :: "(string \<times> json) option"
  ac_sent :: "(nat \<times> origin \<times> json option) list"
  ac_interrupted :: "string option list"

record turn_env =
  te_map :: map_env
  te_disallowed :: string
  te_loads :: "string \<Rightarrow> loaded"
  te_repr :: "string \<Rightarrow> string"

definition new_client :: "string \<Rightarrow> string list option \<Rightarrow> string list \<Rightarrow> string option \<Rightarrow> appclient" where
  "new_client thread allowed disallowed mode =
     \<lparr>ac_thread = thread, ac_turn = None, ac_mapper = None, ac_live = False, ac_parked = None, ac_allowed = allowed,
      ac_disallowed = disallowed, ac_mode = mode, ac_durable = False, ac_card = None, ac_sent = [], ac_interrupted = []\<rparr>"

definition end_turn :: "appclient \<Rightarrow> appclient" where
  "end_turn c = c\<lparr>ac_turn := None, ac_parked := None, ac_live := False, ac_mapper := None\<rparr>"

definition gateway_interrupt_chunk :: "string \<Rightarrow> json" where
  "gateway_interrupt_chunk msg =
     J_obj [(''type'', J_str ''result''), (''subtype'', J_str ''error_during_execution''), (''is_error'', J_bool True),
       (''error_message'', J_str msg), (''gateway_interrupted'', J_bool True)]"

definition is_turn_completed :: "string option \<Rightarrow> string \<Rightarrow> json \<Rightarrow> bool" where
  "is_turn_completed turn method params \<longleftrightarrow>
     method = ''turn/completed'' \<and> (turn = None \<or> notification_turn params \<in> {J_null, opt_json turn})"

section \<open>Requests of the runtime\<close>

definition as_dict :: "json \<Rightarrow> json" where
  "as_dict v = (if is_obj v then v else J_obj [])"

definition auto_decide_interaction :: "turn_env \<Rightarrow> request \<Rightarrow> appclient \<Rightarrow> appclient option" where
  "auto_decide_interaction env rq c =
     map_option (\<lambda>r. c\<lparr>ac_sent := (rq_token rq, By_policy, Some r) # ac_sent c\<rparr>)
       (auto_decision (te_disallowed env) (ac_allowed c) (ac_disallowed c) (ac_mode c) (rq_method rq) (as_dict (rq_params rq)))"

definition card_chunk :: "appclient \<Rightarrow> request \<Rightarrow> json \<Rightarrow> json" where
  "card_chunk c rq arguments =
     J_obj [(''type'', J_str ''assistant''),
       (''content'', J_list [J_obj
         [(''type'', J_str ''tool_use''), (''id'', J_str (rq_card rq)), (''name'', J_str ''codex_approval''), (''input'', arguments),
          (''metadata'', J_obj
            [(''codex_approval_request_id'', J_str (rq_card rq)), (''codex_approval_method'', J_str (rq_method rq)),
             (''codex_thread_id'', J_str (ac_thread c)),
             (''codex_turn_id'', J_str (case ac_turn c of None \<Rightarrow> [] | Some t \<Rightarrow> t))])]])]"

definition park_interaction :: "turn_env \<Rightarrow> request \<Rightarrow> appclient \<Rightarrow> appclient \<times> json option" where
  "park_interaction env rq c =
     (let arguments = interaction_arguments (me_show (te_map env)) (rq_method rq) (as_dict (rq_params rq))
      in if \<not> card_is_completable arguments then
           (c\<lparr>ac_sent := (rq_token rq, Not_showable, None) # ac_sent c\<rparr>, None)
         else
           (c\<lparr>ac_parked := Some (rq\<lparr>rq_params := as_dict (rq_params rq)\<rparr>), ac_card := Some (rq_card rq, arguments)\<rparr>,
            Some (card_chunk c rq arguments)))"

section \<open>Pumping the subscription\<close>

datatype drive_end = Ended | Parked | Waiting | Raised_out

definition drain_and_end :: "string \<Rightarrow> json \<Rightarrow> mapper \<Rightarrow> appclient \<Rightarrow> appclient \<times> json list" where
  "drain_and_end status last_chunk m c =
     (let (m, out) = drain_open_subagents status m in (end_turn c, out @ [last_chunk]))"

definition interrupted_chunk :: json where
  "interrupted_chunk = gateway_interrupt_chunk ''Codex turn interrupted''"

definition drive_one ::
  "turn_env \<Rightarrow> string option \<Rightarrow> bool \<Rightarrow> arrival \<Rightarrow> mapper \<Rightarrow> appclient \<Rightarrow> mapper \<times> appclient \<times> json list \<times> drive_end" where
  "drive_one env turn cancelling a m c =
     (let ends = (\<lambda>status e. case drain_and_end status e m c of (c, out) \<Rightarrow> (m, c, out, Ended));
          lost = (\<lambda>msg. if cancelling then ends ''killed'' interrupted_chunk else ends ''failed'' (error_chunk msg))
      in case a of
           Nothing_came \<Rightarrow> lost ''Codex turn stalled (no output)''
         | Notice method params \<Rightarrow>
             if cancelling \<and> is_turn_completed turn method params then ends ''killed'' interrupted_chunk
             else
               (case map_notification (te_map env) method params m of
                  (m, out, True) \<Rightarrow> (m, if ac_parked c = None then end_turn c else c, out, Raised_out)
                | (m, out, False) \<Rightarrow>
                    if tm_finished m
                    then (m, end_turn (if succeeded m then c\<lparr>ac_durable := True\<rparr> else c), out, Ended)
                    else (m, c, out, Waiting))
         | Request rq \<Rightarrow>
             (case auto_decide_interaction env rq c of
                Some c \<Rightarrow> (m, c, [], Waiting)
              | None \<Rightarrow>
                  (case park_interaction env rq c of
                     (c, None) \<Rightarrow> (m, c, [], Waiting)
                   | (c, Some e) \<Rightarrow> (m, c, [e], Parked)))
         | Orphan method r \<Rightarrow> (m, c, [], Waiting)
         | Ambiguous method why \<Rightarrow>
             ends ''failed''
               (error_chunk (''Codex request outcome is ambiguous ('' @ method @ ''); not replayed ('' @ why @ '')''))
         | Runtime_end why \<Rightarrow> lost (''Codex runtime terminated: '' @ why)
         | Overflow \<Rightarrow> ends ''failed'' (error_chunk ''Codex event stream overflowed''))"

text \<open>The loop; \<open>Waiting\<close>: it waits for more than the list holds.\<close>

fun drive_items ::
  "turn_env \<Rightarrow> string option \<Rightarrow> (bool \<times> arrival) list \<Rightarrow> mapper \<Rightarrow> appclient \<Rightarrow> mapper \<times> appclient \<times> json list \<times> drive_end" where
  "drive_items env turn [] m c = (m, c, [], Waiting)"
| "drive_items env turn ((k, a) # xs) m c =
     (case drive_one env turn k a m c of
        (m, c, out, Waiting) \<Rightarrow> (case drive_items env turn xs m c of (m, c, rest, r) \<Rightarrow> (m, c, out @ rest, r))
      | r \<Rightarrow> r)"

definition drive_turn :: "turn_env \<Rightarrow> (bool \<times> arrival) list \<Rightarrow> appclient \<Rightarrow> appclient \<times> json list \<times> drive_end" where
  "drive_turn env xs c =
     (case ac_mapper c of
        None \<Rightarrow> (c, [], Ended)
      | Some m \<Rightarrow>
          if \<not> ac_live c then (c, [], Ended)
          else
            case drive_items env (ac_turn c) xs m c of
              (m, c, out, r) \<Rightarrow> (if r \<in> {Parked, Waiting} then c\<lparr>ac_mapper := Some m\<rparr> else c, out, r))"

section \<open>Starting a turn\<close>

datatype start_reply =
    Started json
  | Outcome_unknown string string
  | Lost_before string
  | Rpc_refused string
  | Deadline
  | Committed_cancelled
  | Plain_cancelled
  | Start_error string

definition turn_id_from_result :: "(json \<Rightarrow> string) \<Rightarrow> json \<Rightarrow> string option" where
  "turn_id_from_result show v =
     (let i = jfield (jfield v ''turn'') ''id'' in if jtruthy i then Some (str_text show i) else None)"

definition rpc_error_message :: "(json \<Rightarrow> string) \<Rightarrow> json \<Rightarrow> string" where
  "rpc_error_message show e = str_text show (jor (jfield e ''message'') e)"

text \<open>\<open>_await_turn_start_outcome\<close>, with what the session's state reads as when it is known.\<close>

datatype start_outcome = Recovered "string option" | Start_failed string | Start_ambiguous string | Start_terminal string | Start_overflow

fun await_turn_start ::
  "(json \<Rightarrow> string) \<Rightarrow> (bool \<times> arrival) list \<Rightarrow> (start_outcome \<times> bool \<times> (bool \<times> arrival) list) option" where
  "await_turn_start show [] = None"
| "await_turn_start show ((k, a) # xs) =
     (case a of
        Orphan method r \<Rightarrow>
          if method = ''turn/start'' then
            Some (case r of Inl e \<Rightarrow> Start_failed (rpc_error_message show e) | Inr v \<Rightarrow> Recovered (turn_id_from_result show v), k, xs)
          else await_turn_start show xs
      | Ambiguous method why \<Rightarrow> Some (Start_ambiguous why, k, xs)
      | Runtime_end why \<Rightarrow> Some (Start_terminal why, k, xs)
      | Overflow \<Rightarrow> Some (Start_overflow, k, xs)
      | _ \<Rightarrow> await_turn_start show xs)"

definition interrupt_turn :: "string option \<Rightarrow> appclient \<Rightarrow> appclient" where
  "interrupt_turn turn c = (if truthy turn then c\<lparr>ac_interrupted := turn # ac_interrupted c\<rparr> else c)"

definition begin_turn :: "turn_env \<Rightarrow> string option \<Rightarrow> (bool \<times> arrival) list \<Rightarrow> appclient \<Rightarrow> appclient \<times> json list \<times> drive_end" where
  "begin_turn env turn xs c =
     drive_turn env xs (c\<lparr>ac_turn := turn, ac_mapper := Some (new_mapper (Some (ac_thread c)) turn)\<rparr>)"

definition reconcile_orphaned_start :: "turn_env \<Rightarrow> (bool \<times> arrival) list \<Rightarrow> appclient \<Rightarrow> appclient \<times> json list \<times> drive_end" where
  "reconcile_orphaned_start env xs c =
     (case await_turn_start (me_show (te_map env)) xs of
        None \<Rightarrow> (c, [], Waiting)
      | Some (Recovered turn, cancelling, rest) \<Rightarrow>
          if cancelling then (end_turn (interrupt_turn turn c), [interrupted_chunk], Ended)
          else begin_turn env turn rest c
      | Some (Start_failed msg, _, _) \<Rightarrow> (end_turn c, [error_chunk (''Codex turn/start failed: '' @ msg)], Ended)
      | Some (Start_ambiguous why, _, _) \<Rightarrow>
          (end_turn c,
           [error_chunk (''Codex turn/start outcome is ambiguous (turn/start); not replayed ('' @ why @
              '') -- reconcile against thread '' @ ac_thread c)], Ended)
      | Some (Start_overflow, _, _) \<Rightarrow> (end_turn c, [error_chunk ''Codex event stream overflowed''], Ended)
      | Some (Start_terminal why, _, _) \<Rightarrow>
          (end_turn c, [error_chunk (''Codex runtime terminated before turn/start completed: '' @ why)], Ended))"

text \<open>
  A caller cancelled after the request was sent hands the subscription to a task of its own, which
  interrupts the turn if it turns out to be created.
\<close>

definition detach_orphan_owner :: "turn_env \<Rightarrow> (bool \<times> arrival) list \<Rightarrow> appclient \<Rightarrow> appclient" where
  "detach_orphan_owner env xs c =
     (let c' = end_turn c
      in if \<not> ac_live c then c'
         else
           case await_turn_start (me_show (te_map env)) xs of
             Some (Recovered turn, _, _) \<Rightarrow> interrupt_turn turn c'
           | _ \<Rightarrow> c')"

definition run_completion :: "turn_env \<Rightarrow> start_reply \<Rightarrow> (bool \<times> arrival) list \<Rightarrow> appclient \<Rightarrow> appclient \<times> json list \<times> drive_end" where
  "run_completion env reply xs c =
     (let c = c\<lparr>ac_live := True\<rparr>
      in case reply of
           Started v \<Rightarrow> begin_turn env (turn_id_from_result (me_show (te_map env)) v) xs c
         | Outcome_unknown method why \<Rightarrow>
             (end_turn c,
              [error_chunk (''Codex '' @ method @ '' was accepted but its outcome is unknown after runtime loss ('' @ why @
                 ''); not replayed -- reconcile against thread '' @ ac_thread c)], Ended)
         | Lost_before why \<Rightarrow> (end_turn c, [error_chunk (''Codex runtime lost before turn start: '' @ why)], Ended)
         | Rpc_refused msg \<Rightarrow> (end_turn c, [error_chunk (''Codex turn/start failed: '' @ msg)], Ended)
         | Deadline \<Rightarrow> reconcile_orphaned_start env xs c
         | Committed_cancelled \<Rightarrow> (detach_orphan_owner env xs c, [], Raised_out)
         | Plain_cancelled \<Rightarrow> (end_turn c, [], Raised_out)
         | Start_error msg \<Rightarrow> (end_turn c, [error_chunk (''Codex turn/start error: '' @ msg)], Ended))"

section \<open>The user's answer\<close>

datatype answer_reply = Delivered | Stale | Lost string

definition resume_approval ::
  "turn_env \<Rightarrow> string \<Rightarrow> string \<Rightarrow> answer_reply \<Rightarrow> (bool \<times> arrival) list \<Rightarrow> appclient \<Rightarrow> appclient \<times> json list \<times> drive_end" where
  "resume_approval env call output reply xs c =
     (let c' = c\<lparr>ac_parked := None\<rparr>
      in case ac_parked c of
           None \<Rightarrow> (end_turn c', [error_chunk ''Codex interaction continuation has no pending request''], Ended)
         | Some rq \<Rightarrow>
             if rq_card rq \<noteq> call then
               (end_turn c',
                [error_chunk (''Codex interaction id mismatch: pending '' @ te_repr env (rq_card rq) @ '', received '' @ te_repr env call)],
                Ended)
             else if \<not> ac_live c then (c', [error_chunk ''Codex interaction is no longer live; please retry''], Ended)
             else
               case answer_result_from_output (me_show (te_map env)) (te_loads env) (rq_method rq) output (rq_params rq) of
                 None \<Rightarrow> (c', [], Raised_out)
               | Some v \<Rightarrow>
                   let c' = c'\<lparr>ac_sent := (rq_token rq, By_user call output, Some v) # ac_sent c'\<rparr>
                   in case reply of
                        Stale \<Rightarrow> (end_turn c', [error_chunk ''Codex interaction is no longer actionable''], Ended)
                      | Lost why \<Rightarrow> (end_turn c', [error_chunk (''Codex runtime lost: '' @ why)], Ended)
                      | Delivered \<Rightarrow> drive_turn env xs c')"

section \<open>Who answers a request\<close>

text \<open>A session from its first turn: turns and answers in any order, with everything that arrived.\<close>

inductive talk :: "turn_env \<Rightarrow> appclient \<Rightarrow> arrival list \<Rightarrow> bool" for env where
  fresh: "talk env (new_client thread allowed disallowed mode) []"
| runs: "talk env c ys \<Longrightarrow> run_completion env reply xs c = (c', out, r) \<Longrightarrow> talk env c' (ys @ map snd xs)"
| resumes: "talk env c ys \<Longrightarrow> resume_approval env call output areply xs c = (c', out, r) \<Longrightarrow> talk env c' (ys @ map snd xs)"

definition tokens :: "arrival list \<Rightarrow> nat list" where
  "tokens ys = List.map_filter (\<lambda>a. case a of Request rq \<Rightarrow> Some (rq_token rq) | _ \<Rightarrow> None) ys"

lemma tokens_append [simp]: "tokens (xs @ ys) = tokens xs @ tokens ys"
  by (simp add: tokens_def map_filter_def)

lemma tokens_one [simp]: "tokens [a] = (case a of Request rq \<Rightarrow> [rq_token rq] | _ \<Rightarrow> [])"
  by (simp add: tokens_def map_filter_def split: arrival.split)

definition verdict_of :: "turn_env \<Rightarrow> appclient \<Rightarrow> request \<Rightarrow> json option" where
  "verdict_of env c rq =
     auto_decision (te_disallowed env) (ac_allowed c) (ac_disallowed c) (ac_mode c) (rq_method rq) (as_dict (rq_params rq))"

definition decided :: "turn_env \<Rightarrow> appclient \<Rightarrow> request \<Rightarrow> origin \<Rightarrow> json option \<Rightarrow> bool" where
  "decided env c rq src v \<longleftrightarrow>
     (case src of
        By_policy \<Rightarrow> v \<noteq> None \<and> v = verdict_of env c rq
      | Not_showable \<Rightarrow>
          v = None \<and> verdict_of env c rq = None \<and>
          \<not> card_is_completable (interaction_arguments (me_show (te_map env)) (rq_method rq) (as_dict (rq_params rq)))
      | By_user call output \<Rightarrow>
          v \<noteq> None \<and> verdict_of env c rq = None \<and> call = rq_card rq \<and>
          v = answer_result_from_output (me_show (te_map env)) (te_loads env) (rq_method rq) output (as_dict (rq_params rq)))"

text \<open>Only the policy of the client matters for what is decided.\<close>

definition policy :: "appclient \<Rightarrow> string list option \<times> string list \<times> string option" where
  "policy c = (ac_allowed c, ac_disallowed c, ac_mode c)"

lemma policy_fields [simp]:
  "policy (c\<lparr>ac_turn := x1\<rparr>) = policy c" "policy (c\<lparr>ac_mapper := x2\<rparr>) = policy c" "policy (c\<lparr>ac_live := x3\<rparr>) = policy c"
  "policy (c\<lparr>ac_parked := x4\<rparr>) = policy c" "policy (c\<lparr>ac_durable := x5\<rparr>) = policy c" "policy (c\<lparr>ac_card := x6\<rparr>) = policy c"
  "policy (c\<lparr>ac_sent := x7\<rparr>) = policy c" "policy (c\<lparr>ac_interrupted := x8\<rparr>) = policy c" "policy (end_turn c) = policy c"
  by (simp_all add: policy_def end_turn_def)

lemma verdict_policy: "policy c' = policy c \<Longrightarrow> verdict_of env c' = verdict_of env c"
  by (simp add: fun_eq_iff policy_def verdict_of_def)

lemma decided_policy: "policy c' = policy c \<Longrightarrow> decided env c' = decided env c"
  by (simp add: fun_eq_iff decided_def verdict_policy [of c' c] split: origin.split)

definition sent_ok :: "turn_env \<Rightarrow> arrival list \<Rightarrow> appclient \<Rightarrow> bool" where
  "sent_ok env ys c \<longleftrightarrow>
     distinct (map fst (ac_sent c)) \<and> fst ` set (ac_sent c) \<subseteq> set (tokens ys) \<and>
     (\<forall>t src v. (t, src, v) \<in> set (ac_sent c) \<longrightarrow> (\<exists>rq. Request rq \<in> set ys \<and> rq_token rq = t \<and> decided env c rq src v)) \<and>
     (\<forall>p. ac_parked c = Some p \<longrightarrow> (\<exists>rq. Request rq \<in> set ys \<and> p = rq\<lparr>rq_params := as_dict (rq_params rq)\<rparr> \<and>
        verdict_of env c rq = None \<and> rq_token p \<notin> fst ` set (ac_sent c)))"

lemma sent_ok_cong:
  "policy c' = policy c \<Longrightarrow> ac_sent c' = ac_sent c \<Longrightarrow> ac_parked c' = ac_parked c \<or> ac_parked c' = None \<Longrightarrow>
     sent_ok env ys c \<Longrightarrow> sent_ok env ys c'"
  by (auto simp: sent_ok_def decided_policy [of c' c] verdict_policy [of c' c])

lemma sent_ok_more: "sent_ok env ys c \<Longrightarrow> sent_ok env (ys @ zs) c"
  unfolding sent_ok_def tokens_append set_append by blast

lemma sent_ok_end: "sent_ok env ys c \<Longrightarrow> sent_ok env ys (end_turn c)"
  by (erule sent_ok_cong [rotated 3]) (simp_all add: end_turn_def)

lemma token_there: "Request rq \<in> set ys \<Longrightarrow> rq_token rq \<in> set (tokens ys)"
  by (force simp: tokens_def map_filter_def)

lemma sent_ok_answer:
  assumes "sent_ok env ys c" "rq_token rq \<notin> fst ` set (ac_sent c)" "Request rq \<in> set ys" "decided env c rq src v"
    and "\<And>p. ac_parked c = Some p \<Longrightarrow> rq_token p \<noteq> rq_token rq"
  shows "sent_ok env ys (c\<lparr>ac_sent := (rq_token rq, src, v) # ac_sent c\<rparr>)"
proof -
  let ?c = "c\<lparr>ac_sent := (rq_token rq, src, v) # ac_sent c\<rparr>"
  have d: "decided env ?c = decided env c" "verdict_of env ?c = verdict_of env c"
    by (rule decided_policy verdict_policy, simp)+
  show ?thesis using assms token_there [OF assms(3)] unfolding sent_ok_def d by auto
qed

lemma parked_token: "sent_ok env ys c \<Longrightarrow> ac_parked c = Some p \<Longrightarrow> rq_token p \<in> set (tokens ys)"
  using token_there by (fastforce simp: sent_ok_def)

lemma request_sent_ok:
  assumes "sent_ok env ys c" "rq_token rq \<notin> set (tokens ys)"
  shows "auto_decide_interaction env rq c = Some c' \<Longrightarrow> sent_ok env (ys @ [Request rq]) c' \<and> policy c' = policy c"
    and "auto_decide_interaction env rq c = None \<Longrightarrow> park_interaction env rq c = (c', e) \<Longrightarrow>
      sent_ok env (ys @ [Request rq]) c' \<and> policy c' = policy c"
proof -
  let ?ys = "ys @ [Request rq]"
  have s: "sent_ok env ?ys c" by (rule sent_ok_more) (rule assms)
  have t: "rq_token rq \<notin> fst ` set (ac_sent c)" using assms by (auto simp: sent_ok_def)
  have p: "\<And>p. ac_parked c = Some p \<Longrightarrow> rq_token p \<noteq> rq_token rq" using parked_token [OF assms(1)] assms(2) by auto
  have i: "Request rq \<in> set ?ys" by simp
  note ans = sent_ok_answer [OF s t i _ p]
  show "sent_ok env ?ys c' \<and> policy c' = policy c" if "auto_decide_interaction env rq c = Some c'"
    using that ans by (auto simp: auto_decide_interaction_def decided_def verdict_of_def)
  assume a: "auto_decide_interaction env rq c = None" and k: "park_interaction env rq c = (c', e)"
  have v: "verdict_of env c rq = None" using a by (simp add: auto_decide_interaction_def verdict_of_def)
  show "sent_ok env ?ys c' \<and> policy c' = policy c"
  proof (cases "card_is_completable (interaction_arguments (me_show (te_map env)) (rq_method rq) (as_dict (rq_params rq)))")
    case False
    then show ?thesis using k ans v by (auto simp: park_interaction_def decided_def)
  next
    case True
    then have c: "c' = c\<lparr>ac_parked := Some (rq\<lparr>rq_params := as_dict (rq_params rq)\<rparr>), ac_card := ac_card c'\<rparr>"
      using k by (auto simp: park_interaction_def Let_def)
    have q: "policy c' = policy c" by (subst c) simp
    have f: "ac_sent c' = ac_sent c" "ac_parked c' = Some (rq\<lparr>rq_params := as_dict (rq_params rq)\<rparr>)" by (subst c, simp)+
    show ?thesis
      using s t v q unfolding sent_ok_def f decided_policy [OF q] verdict_policy [OF q] by auto
  qed
qed

lemma drive_one_sent:
  assumes "drive_one env turn k a m c = (m', c', out, r)" "sent_ok env ys c" "distinct (tokens (ys @ [a]))"
  shows "sent_ok env (ys @ [a]) c'"
proof (cases a)
  case (Request rq)
  then have "rq_token rq \<notin> set (tokens ys)" using assms(3) by simp
  from request_sent_ok [OF assms(2) this] show ?thesis
    using assms(1) Request by (auto simp: drive_one_def split: option.splits prod.splits)
next
  case (Notice mt params)
  have "sent_ok env (ys @ [a]) (c\<lparr>ac_durable := d\<rparr>)" for d
    by (rule sent_ok_cong [OF _ _ _ sent_ok_more [OF assms(2)]]) simp_all
  then show ?thesis
    using assms(1) sent_ok_more [OF assms(2), of "[a]"] Notice
    by (auto simp: drive_one_def drain_and_end_def sent_ok_end Let_def split: prod.splits bool.splits if_splits)
qed (use assms(1) sent_ok_more [OF assms(2), of "[a]"] in
    \<open>auto simp: drive_one_def drain_and_end_def sent_ok_end Let_def split: prod.splits if_splits\<close>)

lemma drive_items_sent:
  "drive_items env turn xs m c = (m', c', out, r) \<Longrightarrow> sent_ok env ys c \<Longrightarrow> distinct (tokens (ys @ map snd xs)) \<Longrightarrow>
     sent_ok env (ys @ map snd xs) c'"
proof (induction xs arbitrary: m c out ys)
  case (Cons x xs)
  obtain k a where x: "x = (k, a)" by fastforce
  obtain m1 c1 o1 r1 where o: "drive_one env turn k a m c = (m1, c1, o1, r1)" by (rule prod_cases4)
  have "ys @ map snd (x # xs) = (ys @ [a]) @ map snd xs" using x by simp
  then have d: "distinct (tokens ((ys @ [a]) @ map snd xs))" "distinct (tokens (ys @ [a]))"
    using Cons.prems(3) by (simp_all only: tokens_append distinct_append)
  have s: "sent_ok env (ys @ [a]) c1" by (rule drive_one_sent [OF o Cons.prems(2) d(2)])
  show ?case
  proof (cases "r1 = Waiting")
    case True
    obtain m2 c2 o2 r2 where "drive_items env turn xs m1 c1 = (m2, c2, o2, r2)" by (rule prod_cases4)
    then show ?thesis using Cons.IH [OF _ s d(1)] Cons.prems(1) x o True by auto
  next
    case False
    then have "c' = c1" using Cons.prems(1) x o by (cases r1) auto
    then show ?thesis using sent_ok_more [OF s, of "map snd xs"] x by simp
  qed
qed simp

lemma drive_turn_sent:
  assumes "drive_turn env xs c = (c', out, r)" "sent_ok env ys c" "distinct (tokens (ys @ map snd xs))"
  shows "sent_ok env (ys @ map snd xs) c'"
proof (cases "\<exists>m. ac_mapper c = Some m \<and> ac_live c")
  case True
  then obtain m m1 c1 o1 r1 where d: "ac_mapper c = Some m" "ac_live c" "drive_items env (ac_turn c) xs m c = (m1, c1, o1, r1)"
    by (metis prod_cases4)
  have s: "sent_ok env (ys @ map snd xs) c1" by (rule drive_items_sent [OF d(3) assms(2,3)])
  have "sent_ok env (ys @ map snd xs) (c1\<lparr>ac_mapper := Some m1\<rparr>)" by (rule sent_ok_cong [OF _ _ _ s]) simp_all
  then show ?thesis using s d assms(1) by (auto simp: drive_turn_def split: if_splits)
next
  case False
  then show ?thesis using assms(1) sent_ok_more [OF assms(2)] by (auto simp: drive_turn_def split: option.splits if_splits)
qed

lemma await_suffix: "await_turn_start show xs = Some (oc, k, rest) \<Longrightarrow> \<exists>pre. xs = pre @ rest"
proof (induction xs)
  case (Cons x xs)
  obtain k a where x: "x = (k, a)" by fastforce
  then show ?case using Cons by (cases a) (auto split: if_splits)
qed simp

lemma begin_turn_sent:
  "begin_turn env turn xs c = (c', out, r) \<Longrightarrow> sent_ok env ys c \<Longrightarrow> distinct (tokens (ys @ map snd xs)) \<Longrightarrow>
     sent_ok env (ys @ map snd xs) c'"
  unfolding begin_turn_def by (erule drive_turn_sent) (auto elim: sent_ok_cong [rotated 3])

lemma interrupt_sent: "sent_ok env ys c \<Longrightarrow> sent_ok env ys (interrupt_turn turn c)"
  by (auto simp: interrupt_turn_def elim: sent_ok_cong [rotated 3])

lemma orphaned_sent:
  assumes "reconcile_orphaned_start env xs c = (c', out, r)" "sent_ok env ys c" "distinct (tokens (ys @ map snd xs))"
  shows "sent_ok env (ys @ map snd xs) c'"
proof (cases "await_turn_start (me_show (te_map env)) xs")
  case None
  then show ?thesis using assms(1) sent_ok_more [OF assms(2)] by (simp add: reconcile_orphaned_start_def)
next
  case (Some w)
  obtain oc k rest where w: "w = (oc, k, rest)" by (rule prod_cases3)
  show ?thesis
  proof (cases "\<exists>turn. oc = Recovered turn \<and> \<not> k")
    case True
    obtain pre where xs: "xs = pre @ rest" using await_suffix Some w by blast
    have s: "sent_ok env (ys @ map snd pre) c" by (rule sent_ok_more) (rule assms)
    show ?thesis using True assms(1,3) begin_turn_sent [OF _ s] Some w xs by (auto simp: reconcile_orphaned_start_def)
  next
    case False
    then show ?thesis
      using assms(1) sent_ok_more [OF assms(2), of "map snd xs"] Some w
      by (cases oc) (auto simp: reconcile_orphaned_start_def sent_ok_end interrupt_sent)
  qed
qed

lemma run_sent:
  assumes "run_completion env reply xs c = (c', out, r)" "sent_ok env ys c" "distinct (tokens (ys @ map snd xs))"
  shows "sent_ok env (ys @ map snd xs) c'"
proof -
  have l: "sent_ok env ys (c\<lparr>ac_live := True\<rparr>)" by (rule sent_ok_cong [OF _ _ _ assms(2)]) simp_all
  note more = sent_ok_more [OF l, of "map snd xs"]
  have "sent_ok env (ys @ map snd xs) (detach_orphan_owner env xs (c\<lparr>ac_live := True\<rparr>))"
    by (simp add: detach_orphan_owner_def Let_def sent_ok_end interrupt_sent more split: option.split start_outcome.split)
  then show ?thesis
    using assms(1) begin_turn_sent [OF _ l assms(3)] orphaned_sent [OF _ l assms(3)] more
    by (cases reply) (auto simp: run_completion_def Let_def sent_ok_end)
qed

lemma resume_sent:
  assumes "resume_approval env call output reply xs c = (c', out, r)" "sent_ok env ys c" "distinct (tokens (ys @ map snd xs))"
  shows "sent_ok env (ys @ map snd xs) c'"
proof -
  let ?c = "c\<lparr>ac_parked := None\<rparr>"
  have u: "sent_ok env ys ?c" by (rule sent_ok_cong [OF _ _ _ assms(2)]) simp_all
  note more = sent_ok_more [OF u, of "map snd xs"]
  show ?thesis
  proof (cases "\<exists>p v. ac_parked c = Some p \<and> rq_card p = call \<and> ac_live c \<and>
      answer_result_from_output (me_show (te_map env)) (te_loads env) (rq_method p) output (rq_params p) = Some v")
    case False
    then show ?thesis using assms(1) more by (auto simp: resume_approval_def Let_def sent_ok_end split: option.splits if_splits)
  next
    case True
    then obtain p v where p: "ac_parked c = Some p" "rq_card p = call" "ac_live c"
      "answer_result_from_output (me_show (te_map env)) (te_loads env) (rq_method p) output (rq_params p) = Some v" by blast
    then obtain rq where rq: "Request rq \<in> set ys" "p = rq\<lparr>rq_params := as_dict (rq_params rq)\<rparr>" "verdict_of env c rq = None"
      "rq_token p \<notin> fst ` set (ac_sent c)" using assms(2) unfolding sent_ok_def by blast
    have w: "verdict_of env ?c = verdict_of env c" by (rule verdict_policy) simp
    let ?s = "?c\<lparr>ac_sent := (rq_token rq, By_user call output, Some v) # ac_sent ?c\<rparr>"
    have s: "sent_ok env ys ?s"
      by (rule sent_ok_answer [OF u]) (use p rq w in \<open>auto simp: decided_def\<close>)
    have t: "rq_token p = rq_token rq" using rq by simp
    note more' = sent_ok_more [OF s, of "map snd xs"]
    show ?thesis
    proof (cases reply)
      case Delivered
      then have "drive_turn env xs ?s = (c', out, r)" using assms(1) p t by (simp add: resume_approval_def)
      then show ?thesis by (rule drive_turn_sent [OF _ s assms(3)])
    qed (use assms(1) p t more' in \<open>auto simp: resume_approval_def sent_ok_end\<close>)
  qed
qed

lemma talk_sent: "talk env c ys \<Longrightarrow> distinct (tokens ys) \<Longrightarrow> sent_ok env ys c"
proof (induction rule: talk.induct)
  case (fresh thread allowed disallowed mode)
  show ?case by (simp add: sent_ok_def new_client_def)
next
  case (runs c ys reply xs c' out r)
  then show ?case by (auto intro: run_sent)
next
  case (resumes c ys call t areply xs c' out r)
  then show ?case by (auto intro: resume_sent)
qed

text \<open>
  C24.  However turns run and answers arrive, each request of the runtime is answered at most once
  and only as was decided for it: by the tool policy, with a failure when its card could not be
  completed, or with the answer the client gave to this request's own card.
\<close>

theorem each_request_answered_once:
  assumes "talk env c ys" "distinct (tokens ys)"
  shows "distinct (map fst (ac_sent c)) \<and>
    (\<forall>t src v. (t, src, v) \<in> set (ac_sent c) \<longrightarrow> (\<exists>rq. Request rq \<in> set ys \<and> rq_token rq = t \<and> decided env c rq src v))"
  using talk_sent [OF assms] by (simp add: sent_ok_def)

section \<open>Samples\<close>

definition sample_env :: turn_env where
  "sample_env =
     \<lparr>te_map = \<lparr>me_dumps = (\<lambda>_. ''json''), me_show = sample_show, me_trunc = (\<lambda>_. None)\<rparr>, te_disallowed = [],
      te_loads = (\<lambda>t. if t = ''yes'' then Loaded (card_answer [[''accept'']]) else Not_json), te_repr = (\<lambda>t. t)\<rparr>"

definition sample_request :: request where
  "sample_request =
     \<lparr>rq_token = 7, rq_id = J_int 1, rq_card = ''c1'', rq_method = command_approval, rq_params = sample_command\<rparr>"

definition sample_arrivals :: "(bool \<times> arrival) list" where
  "sample_arrivals =
     [(False, Notice ''thread/started'' (J_obj [(''thread'', J_obj [(''id'', J_str ''k''), (''parentThreadId'', J_str ''th'')])])),
      (False, Notice ''item/reasoning/textDelta'' (J_obj [(''delta'', J_str ''hm'')])), (False, Request sample_request)]"

definition sample_run :: "appclient \<times> json list \<times> drive_end" where
  "sample_run =
     run_completion sample_env (Started (J_obj [(''turn'', J_obj [(''id'', J_str ''t1'')])])) sample_arrivals
       (new_client ''th'' None [] None)"

definition sample_completed :: arrival where
  "sample_completed = Notice ''turn/completed'' (J_obj [(''turn'', J_obj [(''id'', J_str ''t1'')])])"

definition sample_resumed :: "answer_reply \<Rightarrow> appclient \<times> json list \<times> drive_end" where
  "sample_resumed reply = resume_approval sample_env ''c1'' ''yes'' reply [(False, sample_completed)] (fst sample_run)"

lemma sample_talk: "talk sample_env (fst (sample_resumed Delivered)) (map snd sample_arrivals @ [sample_completed])"
proof -
  obtain c out r where c: "sample_run = (c, out, r)" by (rule prod_cases3)
  obtain c' out' r' where d: "sample_resumed Delivered = (c', out', r')" by (rule prod_cases3)
  have "talk sample_env c ([] @ map snd sample_arrivals)"
    by (rule runs [OF fresh c [unfolded sample_run_def]])
  then have "talk sample_env c' (([] @ map snd sample_arrivals) @ map snd [(False, sample_completed)])"
    by (rule resumes [OF _ d [unfolded sample_resumed_def c fst_conv]])
  then show ?thesis by (simp add: d)
qed

theorem each_request_answered_once_witness:
  "\<exists>src v. ac_sent (fst (sample_resumed Delivered)) = [(7, src, v)] \<and>
     decided sample_env (fst (sample_resumed Delivered)) sample_request src v"
proof -
  have t: "distinct (tokens (map snd sample_arrivals @ [sample_completed]))" by code_simp
  have s: "ac_sent (fst (sample_resumed Delivered)) = [(7, By_user ''c1'' ''yes'', Some (J_obj [(''decision'', J_str ''accept'')]))]"
    by code_simp
  from each_request_answered_once [OF sample_talk t]
  obtain rq where "Request rq \<in> set (map snd sample_arrivals @ [sample_completed])"
    "decided sample_env (fst (sample_resumed Delivered)) rq (By_user ''c1'' ''yes'') (Some (J_obj [(''decision'', J_str ''accept'')]))"
    unfolding s by auto
  then have "decided sample_env (fst (sample_resumed Delivered)) sample_request (By_user ''c1'' ''yes'') (Some (J_obj [(''decision'', J_str ''accept'')]))"
    by (simp add: sample_arrivals_def sample_completed_def)
  then show ?thesis using s by blast
qed

end
