(* ===== verification/AppserverRows.thy ===== *)
theory AppserverRows
  imports AppserverTurn
begin

text \<open>
  What a client is told of an app-server turn, from its start through every pause to its end, read
  by the reader of \<open>AppserverEvents\<close>.
\<close>

lemma read_last [chunk_simps]:
  "rw_phase q = Going \<Longrightarrow> read_chunk q interrupted_chunk = (if rw_open q = [] then Some (q\<lparr>rw_phase := Over\<rparr>) else None)"
  "rw_phase q = Going \<Longrightarrow> read_chunk q (card_chunk c rq arguments) = Some q"
  by (simp_all add: read_chunk_def tidy_def Let_def interrupted_chunk_def gateway_interrupt_chunk_def card_chunk_def is_card_def jget_or_def dget_Cons)

definition told_end :: "rows option \<Rightarrow> bool" where
  "told_end q \<longleftrightarrow> (\<exists>w. q = Some w \<and> rw_phase w = Over \<and> rw_open w = [])"

lemma drained_end:
  assumes "\<not> tm_finished m"
  shows "drain_and_end status interrupted_chunk m c = (c', out) \<Longrightarrow> told_end (reads read_chunk (reading m) out)"
    and "drain_and_end status (error_chunk msg) m c = (c', out) \<Longrightarrow> told_end (reads read_chunk (reading m) out)"
proof -
  have "rw_phase (reading (m\<lparr>tm_open := []\<rparr>)) = Going" using assms by (simp add: reading_def)
  with assms show "drain_and_end status interrupted_chunk m c = (c', out) \<Longrightarrow> told_end (reads read_chunk (reading m) out)"
    and "drain_and_end status (error_chunk msg) m c = (c', out) \<Longrightarrow> told_end (reads read_chunk (reading m) out)"
    by (auto simp: drain_and_end_def drain_open_subagents_def reads_append drained read_last read_ends told_end_def)
qed

text \<open>How a stretch of a turn leaves the reader.\<close>

definition left_well :: "mapper \<Rightarrow> bool \<Rightarrow> mapper \<Rightarrow> appclient \<Rightarrow> json list \<Rightarrow> drive_end \<Rightarrow> bool" where
  "left_well m live m' c' out r \<longleftrightarrow>
     (case r of
        Ended \<Rightarrow> told_end (reads read_chunk (reading m) out)
      | Raised_out \<Rightarrow> reads read_chunk (reading m) out \<noteq> None
      | _ \<Rightarrow>
          reads read_chunk (reading m) out = Some (reading m') \<and> mapper_ok m' \<and> \<not> tm_finished m' \<and> ac_live c' = live)"

lemma drive_one_reads:
  assumes "drive_one env turn k a m c = (m', c', out, r)" "mapper_ok m" "\<not> tm_finished m"
  shows "left_well m (ac_live c) m' c' out r"
proof -
  note ended = drained_end(1,2) [OF assms(3)]
  show ?thesis
  proof (cases a)
    case (Notice mt params)
    show ?thesis
    proof (cases "k \<and> is_turn_completed turn mt params")
      case True
      then show ?thesis using assms(1) Notice ended
        by (auto simp: drive_one_def left_well_def Let_def split: prod.splits)
    next
      case False
      obtain m1 o1 b where n: "map_notification (te_map env) mt params m = (m1, o1, b)" by (rule prod_cases3)
      have f: "mapper_ok m1" "reads read_chunk (reading m) o1 = Some (reading m1)"
        using notification_follows [OF n] assms(2,3) by (simp_all add: follows_def)
      then have "tm_finished m1 \<Longrightarrow> told_end (reads read_chunk (reading m) o1)"
        by (auto simp: told_end_def mapper_ok_def reading_def)
      then show ?thesis using assms(1) Notice False n f
        by (auto simp: drive_one_def left_well_def Let_def split: bool.splits if_splits)
    qed
  next
    case (Request rq)
    have "park_interaction env rq c = (c1, e) \<Longrightarrow> ac_live c1 = ac_live c" for c1 e
      by (auto simp: park_interaction_def Let_def split: if_splits)
    moreover have "park_interaction env rq c = (c1, Some e) \<Longrightarrow> read_chunk (reading m) e = Some (reading m)" for c1 e
      using assms(3) by (auto simp: park_interaction_def Let_def reading_going read_last split: if_splits)
    moreover have "auto_decide_interaction env rq c = Some c1 \<Longrightarrow> ac_live c1 = ac_live c" for c1
      by (auto simp: auto_decide_interaction_def)
    ultimately show ?thesis using assms Request
      by (auto simp: drive_one_def left_well_def split: option.splits prod.splits)
  qed (use assms ended in \<open>auto simp: drive_one_def left_well_def Let_def split: prod.splits if_splits\<close>)
qed

lemma drive_items_reads:
  "drive_items env turn xs m c = (m', c', out, r) \<Longrightarrow> mapper_ok m \<Longrightarrow> \<not> tm_finished m \<Longrightarrow>
     left_well m (ac_live c) m' c' out r"
proof (induction xs arbitrary: m c out m' c' r)
  case Nil
  then show ?case by (auto simp: left_well_def)
next
  case (Cons x xs)
  obtain k a where x: "x = (k, a)" by fastforce
  obtain m1 c1 o1 r1 where o: "drive_one env turn k a m c = (m1, c1, o1, r1)" by (rule prod_cases4)
  note l = drive_one_reads [OF o Cons.prems(2,3)]
  show ?case
  proof (cases "r1 = Waiting")
    case True
    obtain m2 c2 o2 r2 where d: "drive_items env turn xs m1 c1 = (m2, c2, o2, r2)" by (rule prod_cases4)
    have "left_well m1 (ac_live c1) m2 c2 o2 r2" by (rule Cons.IH [OF d]) (use l True in \<open>simp_all add: left_well_def\<close>)
    then show ?thesis using Cons.prems(1) x o True d l
      by (auto simp: left_well_def reads_append split: drive_end.splits)
  next
    case False
    then show ?thesis using Cons.prems(1) x o l by (cases r1) auto
  qed
qed

text \<open>A whole turn, and the state it is in between.\<close>

definition paused_well :: "appclient \<Rightarrow> rows option \<Rightarrow> drive_end \<Rightarrow> bool" where
  "paused_well c q r \<longleftrightarrow>
     (case r of
        Ended \<Rightarrow> told_end q
      | Raised_out \<Rightarrow> q \<noteq> None
      | Waiting \<Rightarrow> \<exists>w. q = Some w \<and> rw_phase w = Going
      | Parked \<Rightarrow> ac_live c \<and> (\<exists>m. ac_mapper c = Some m \<and> mapper_ok m \<and> \<not> tm_finished m \<and> q = Some (reading m)))"

lemma drive_turn_reads:
  assumes "drive_turn env xs c = (c', out, r)" "ac_mapper c = Some m" "ac_live c" "mapper_ok m" "\<not> tm_finished m"
  shows "paused_well c' (reads read_chunk (reading m) out) r"
proof -
  obtain m1 c1 r1 where d: "drive_items env (ac_turn c) xs m c = (m1, c1, out, r)" "c' = (if r \<in> {Parked, Waiting} then c1\<lparr>ac_mapper := Some m1\<rparr> else c1)"
    using assms(1-3) by (auto simp: drive_turn_def split: prod.splits)
  from drive_items_reads [OF d(1) assms(4,5)] assms(3) d(2) show ?thesis
    by (cases r) (auto simp: left_well_def paused_well_def reading_going)
qed

lemma begin_turn_reads:
  "begin_turn env turn xs c = (c', out, r) \<Longrightarrow> ac_live c \<Longrightarrow> paused_well c' (reads read_chunk no_rows out) r"
proof -
  assume b: "begin_turn env turn xs c = (c', out, r)" "ac_live c"
  have "reading (new_mapper (Some (ac_thread c)) turn) = no_rows" by (simp add: reading_def new_mapper_def no_rows_def)
  then show ?thesis using drive_turn_reads [OF b(1) [unfolded begin_turn_def]] b(2)
    by (simp add: mapper_ok_def new_mapper_def)
qed

lemma alone_ends: "told_end (reads read_chunk no_rows [error_chunk msg])" "told_end (reads read_chunk no_rows [interrupted_chunk])"
  by (simp_all add: told_end_def read_ends read_last no_rows_def)

lemma run_reads:
  assumes "run_completion env reply xs c = (c', out, r)"
  shows "paused_well c' (reads read_chunk no_rows out) r"
proof -
  let ?c = "c\<lparr>ac_live := True\<rparr>"
  have b: "begin_turn env turn zs ?c = (c', out, r) \<Longrightarrow> paused_well c' (reads read_chunk no_rows out) r" for turn zs
    by (erule begin_turn_reads) simp
  have o: "reconcile_orphaned_start env xs ?c = (c', out, r) \<Longrightarrow> paused_well c' (reads read_chunk no_rows out) r"
    using b alone_ends
    by (auto simp: reconcile_orphaned_start_def paused_well_def no_rows_def simp del: reads.simps
        split: option.splits prod.splits start_outcome.splits if_splits) (simp_all add: no_rows_def)
  show ?thesis using assms b o alone_ends
    by (cases reply) (auto simp: run_completion_def Let_def paused_well_def simp del: reads.simps(2))
qed

inductive conversation :: "turn_env \<Rightarrow> appclient \<Rightarrow> json list \<Rightarrow> drive_end \<Rightarrow> bool" for env where
  begins: "run_completion env reply xs c = (c', out, r) \<Longrightarrow> conversation env c' out r"
| goes_on: "conversation env c out Parked \<Longrightarrow> ac_parked c = Some rq \<Longrightarrow>
    resume_approval env (rq_card rq) answer Delivered xs c = (c', out', r) \<Longrightarrow> conversation env c' (out @ out') r"


section \<open>Samples\<close>

lemma sample_conversation: "conversation sample_env (fst (sample_resumed Delivered)) (fst (snd sample_run) @ fst (snd (sample_resumed Delivered))) Ended"
proof -
  have p: "snd (snd sample_run) = Parked" "ac_parked (fst sample_run) \<noteq> None"
    "rq_card (the (ac_parked (fst sample_run))) = ''c1''" "snd (snd (sample_resumed Delivered)) = Ended"
    by code_simp+
  then obtain rq where rq: "ac_parked (fst sample_run) = Some rq" "rq_card rq = ''c1''" by auto
  obtain c out where c: "sample_run = (c, out, Parked)" using p(1) by (metis prod.collapse)
  obtain c' out' where d: "sample_resumed Delivered = (c', out', Ended)" using p(4) by (metis prod.collapse)
  have "conversation sample_env c out Parked" by (rule begins [OF c [unfolded sample_run_def]])
  moreover have "ac_parked c = Some rq" using rq(1) unfolding c fst_conv .
  ultimately have "conversation sample_env c' (out @ out') Ended"
    by (rule goes_on [OF _ _ d [unfolded sample_resumed_def c fst_conv rq(2) [symmetric]]])
  then show ?thesis unfolding c d fst_conv snd_conv .
qed


text \<open>
  An answer the transport refuses ends the turn without closing the rows that are open.
\<close>

lemma refused_answer_leaves_rows:
  "snd (snd (sample_resumed Stale)) = Ended"
  "reads read_chunk no_rows (fst (snd sample_run) @ fst (snd (sample_resumed Stale))) = None"
  "map rw_open [the (reads read_chunk no_rows (fst (snd sample_run)))] = [[''k'']]"
  by code_simp+

end
