(* ===== verification/AppserverStream.thy ===== *)
theory AppserverStream
  imports AppserverRows TurnProtocol
begin

text \<open>
  An app-server turn as the route streams it: the chunks of \<open>AppserverTurn\<close> are the source of
  \<open>TurnStream\<close>, and what the reader of \<open>AppserverEvents\<close> accepts is calm enough for it.
\<close>

section \<open>The chunks as the route's source\<close>

text \<open>A chunk dictionary as \<open>TurnStream\<close> takes it: its content apart, the other fields in their order.\<close>

definition chunk_of :: "json \<Rightarrow> chunk" where
  "chunk_of v =
     \<lparr>ck_fields = (case v of J_obj d \<Rightarrow> filter (\<lambda>(k, _). k \<noteq> ''content'') d | _ \<Rightarrow> []),
      ck_content = map_option Other (jget v ''content'')\<rparr>"

text \<open>The chunks among what the keepalive wrapper hands over.\<close>

definition items_of :: "turn_input list \<Rightarrow> chunk list" where
  "items_of xs = List.map_filter (\<lambda>x. case x of Item now c \<Rightarrow> Some c | _ \<Rightarrow> None) xs"

lemma items_simps [simp]:
  "items_of [] = []" "items_of (Item now c # xs) = c # items_of xs" "items_of (Idle now # xs) = items_of xs"
  "items_of (Stalled m # xs) = items_of xs" "items_of (Broken # xs) = items_of xs"
  by (simp_all add: items_of_def map_filter_def)

lemma other_field: "k \<noteq> ''content'' \<Longrightarrow> dget (ck_fields (chunk_of v)) k = jget v k"
proof -
  assume k: "k \<noteq> ''content''"
  have "dget (filter (\<lambda>(k, _). k \<noteq> ''content'') d) k = dget d k" for d :: "(string \<times> json) list"
    using k by (induction d) (auto simp: dget_Cons)
  then show ?thesis by (cases v) (simp_all add: chunk_of_def)
qed

lemma other_cfield: "k \<noteq> ''content'' \<Longrightarrow> cfield (chunk_of v) k = jfield v k"
  by (simp add: jget_or_def other_field)

lemma no_content: "jget v ''content'' = None \<Longrightarrow> chunk_content (chunk_of v) = Other J_null"
  by (simp add: chunk_content_def chunk_of_def)

section \<open>What is read is calm\<close>

lemma event_seen:
  "jfield v ''type'' = J_str ''stream_event'' \<Longrightarrow> is_obj (jfield v ''event'') \<Longrightarrow> event_of (chunk_of v) = jfield v ''event''"
  by (cases "jget v ''event''") (simp_all add: event_of_def jget_or_def other_field)

lemma read_default: "jfield e k \<noteq> J_null \<Longrightarrow> jget_or dflt e k = jfield e k" "jget e k = None \<Longrightarrow> jget_or dflt e k = dflt"
  by (auto simp: jget_or_def split: option.splits)

lemma typed_obj: "jfield v k \<noteq> J_null \<Longrightarrow> is_obj v"
  by (cases v) (simp_all add: jget_or_def)

lemma quiet_read:
  assumes "read_chunk q v = Some q'" "rw_thinking q"
  shows "quiet_chunk cf (chunk_of v)"
proof -
  have t: "tidy q v" using assms(1) by (simp add: read_chunk_def split: if_splits)
  have types: "cfield (chunk_of v) ''type'' = jfield v ''type''" by (rule other_cfield) simp
  show ?thesis
  proof (cases "jfield v ''type'' = J_str ''stream_event''")
    case True
    then have "is_obj (jfield v ''event'')" using t typed_obj [of "jfield v ''event''" "''type''"] by (auto simp: tidy_def Let_def)
    then have "delta_of (chunk_of v) = jget_or (J_obj []) (jfield v ''event'') ''delta''"
      using True by (simp add: delta_of_def types event_seen)
    moreover have "jfield (jget_or (J_obj []) (jfield v ''event'') ''delta'') ''type'' \<noteq> J_str ''citations_delta''"
    proof (cases "jget (jfield v ''event'') ''delta''")
      case None
      then show ?thesis by (simp add: read_default(2))
    next
      case (Some d)
      then have "jget_or w (jfield v ''event'') ''delta'' = d" for w by (simp add: jget_or_def)
      then show ?thesis using t True Some by (auto simp: tidy_def Let_def)
    qed
    ultimately have "\<not> is_citation (chunk_of v)" by (simp add: is_citation_def)
    then show ?thesis using True by (simp add: quiet_chunk_def types)
  next
    case False
    then have "delta_of (chunk_of v) = J_obj []" by (simp add: delta_of_def types)
    then have c: "\<not> is_citation (chunk_of v)" by (simp add: is_citation_def jget_or_def)
    show ?thesis
    proof (cases "jfield v ''type'' \<in> {J_str ''assistant'', J_str ''user''}")
      case True
      then show ?thesis using c by (auto simp: quiet_chunk_def types is_assistant_content_chunk_def)
    next
      case other: False
      then have n: "jget v ''content'' = None" "jfield v ''subtype'' \<noteq> J_str ''success''"
        using t False assms(2) by (simp_all add: tidy_def Let_def)
      have "content_text cf (chunk_of v) False = Some None"
        using other n
        by (simp add: content_text_def format_chunk_content_def process_chunk_content_def types no_content other_cfield)
      then show ?thesis using c by (simp add: quiet_chunk_def)
    qed
  qed
qed

lemma thinking_read:
  assumes "read_chunk q v = Some q'"
  shows "thinking_after cf (chunk_of v) (rw_thinking q) = rw_thinking q'"
proof -
  have t: "tidy q v" and p: "rw_phase q \<noteq> Over" using assms by (simp_all add: read_chunk_def split: if_splits)
  have types: "cfield (chunk_of v) ''type'' = jfield v ''type''" "cfield (chunk_of v) ''parent_tool_use_id'' = jfield v ''parent_tool_use_id''"
    by (rule other_cfield, simp)+
  show ?thesis
  proof (cases "jfield v ''type'' = J_str ''stream_event''")
    case False
    then have "rw_thinking q' = rw_thinking q"
      using assms by (auto simp: read_chunk_def read_row_def split: if_splits json.splits)
    then show ?thesis using False by (simp add: thinking_after_def extract_stream_event_delta_def is_citation_def delta_of_def types)
  next
    case True
    then have o: "is_obj (jfield v ''event'')" using t typed_obj [of "jfield v ''event''" "''type''"] by (auto simp: tidy_def Let_def)
    note ev = event_seen [OF True o]
    have r: "AppserverEvents.read_event q (jfield v ''event'') = Some q'"
      using assms True by (simp add: read_chunk_def split: if_splits)
    have parent: "jfield v ''parent_tool_use_id'' = J_null" using t True by (simp add: tidy_def Let_def jget_or_def)
    have typed_empty: "jfield (J_obj []) k = J_null" for k by (simp add: jget_or_def)
    let ?e = "jfield v ''event''"
    let ?t = "jfield ?e ''type''" and ?d = "jfield ?e ''delta''" and ?b = "jfield ?e ''content_block''"
    consider (delta) "?t = J_str ''content_block_delta''" "is_obj ?d" "jfield ?d ''type'' \<in> {J_str ''text_delta'', J_str ''thinking_delta''}"
      | (start) "?t = J_str ''content_block_start''" "jget ?e ''delta'' = None" "jfield ?b ''type'' = J_str ''thinking''"
      | (stop) "?t = J_str ''content_block_stop''" "jget ?e ''delta'' = None"
      using t True by (auto simp: tidy_def Let_def)
    then show ?thesis
    proof cases
      case delta
      then have "jget_or (J_obj []) ?e ''delta'' = ?d" by (intro read_default) auto
      moreover have "q' = q" using r delta by (simp add: AppserverEvents.read_event_def split: if_splits)
      ultimately show ?thesis using delta True o ev parent
        by (auto simp: thinking_after_def is_citation_def delta_of_def types extract_stream_event_delta_def Let_def)
    next
      case start
      then have d: "jget_or (J_obj []) ?e ''delta'' = J_obj []" "jget_or (J_obj []) ?e ''content_block'' = ?b" "is_obj ?b"
        using typed_obj [of ?b "''type''"] by (auto intro!: read_default)
      have "rw_thinking q'" using r start by (auto simp: AppserverEvents.read_event_def split: if_splits)
      then show ?thesis using start True o ev parent d typed_empty
        by (auto simp: thinking_after_def is_citation_def delta_of_def types extract_stream_event_delta_def Let_def)
    next
      case stop
      then have d: "jget_or (J_obj []) ?e ''delta'' = J_obj []" by (intro read_default)
      have "rw_thinking q" "\<not> rw_thinking q'" using r stop by (auto simp: AppserverEvents.read_event_def split: if_splits)
      then show ?thesis using stop True o ev parent d typed_empty
        by (auto simp: thinking_after_def is_citation_def delta_of_def types extract_stream_event_delta_def Let_def)
    qed
  qed
qed

lemma calm_read:
  "reads read_chunk q out = Some q' \<Longrightarrow> items_of xs = map chunk_of out \<Longrightarrow> (tc_collab cf \<longrightarrow> \<not> rw_thinking q') \<Longrightarrow>
     calm_inputs cf (rw_thinking q) xs"
proof (induction xs arbitrary: q out)
  case (Cons x xs)
  show ?case
  proof (cases x)
    case (Item now c)
    then obtain v vs where v: "out = v # vs" "c = chunk_of v" "items_of xs = map chunk_of vs" using Cons.prems(2) by (cases out) auto
    then obtain q1 where q1: "read_chunk q v = Some q1" "reads read_chunk q1 vs = Some q'"
      using Cons.prems(1) by (auto split: option.splits)
    then show ?thesis using Cons.IH [OF q1(2) v(3) Cons.prems(3)] quiet_read [OF q1(1)] thinking_read [OF q1(1)] Item v(2) by simp
  qed (use Cons in auto)
qed simp

section \<open>The streamed turn\<close>


section \<open>A sample\<close>

definition codex_inputs :: "turn_input list" where
  "codex_inputs = map (\<lambda>v. Item 0 (chunk_of v)) (fst (snd sample_run))"

lemma items_of_items: "items_of (map (\<lambda>v. Item now (f v)) vs) = map f vs"
  by (induction vs) simp_all


text \<open>
  A pause inside a thinking block: the mapper still has the block open when the turn goes on, the new
  stream does not, and the rest of the thinking comes out as the answer.
\<close>

definition thought :: "string \<Rightarrow> arrival" where
  "thought t = Notice ''item/reasoning/textDelta'' (J_obj [(''delta'', J_str t)])"

definition paused_in_thought :: "appclient \<times> json list \<times> drive_end" where
  "paused_in_thought =
     run_completion sample_env (Started (J_obj [(''turn'', J_obj [(''id'', J_str ''t1'')])]))
       [(False, thought ''let me''), (False, Request sample_request)] (new_client ''th'' None [] None)"

definition thought_goes_on :: "appclient \<times> json list \<times> drive_end" where
  "thought_goes_on =
     resume_approval sample_env ''c1'' ''yes'' Delivered [(False, thought '' think''), (False, sample_completed)] (fst paused_in_thought)"

lemma thought_is_answered:
  "shape (fst (snd (stream_response_chunks sample_cfg True (map (\<lambda>v. Item 0 (chunk_of v)) (fst (snd thought_goes_on)))))) =
     [Message_item ''msg_0'' Completed '' think'']"
  by code_simp

end
